(* ===== verification/ZT_Prelude.thy ===== *)
theory ZT_Prelude
  imports Main "HOL-Library.Word"
begin

text \<open>
  Shared vocabulary of the development: the machine integer types of the code, the
  exception codes of \<^verbatim>\<open>node/Constants.hpp\<close> as a datatype, results of code that can throw,
  the big-endian byte codecs every wire format uses, and the memory write of a C array.
\<close>

unbundle bit_operations_syntax

section \<open>Machine integers\<close>

type_synonym u8 = "8 word"
type_synonym u16 = "16 word"
type_synonym u32 = "32 word"
type_synonym u64 = "64 word"

text \<open>The theorem collections the component proofs draw on.\<close>

named_theorems wire_simps "encodings, decodings and lengths of wire objects"
named_theorems inv_intros "operations preserve their component's invariant"

section \<open>Exceptions as values\<close>

text \<open>
  The integer exceptions the core throws (\<^verbatim>\<open>ZT_EXCEPTION_*\<close>). \<open>UndefinedBehaviour\<close> is
  the one constructor without a code: an access outside the object, which C++ leaves
  undefined. A theorem that an operation never returns it is a memory safety theorem.
\<close>

datatype exc =
    OutOfBounds
  | OutOfMemory
  | PrivateKeyRequired
  | InvalidArgument
  | InvalidIdentity
  | InvalidType
  | SerializedOverflow
  | InvalidToken
  | BadEncoding
  | UndefinedBehaviour

type_synonym 'a res = "exc + 'a"

definition bind_res :: "'a res \<Rightarrow> ('a \<Rightarrow> 'b res) \<Rightarrow> 'b res" where
  "bind_res m f = (case m of Inl e \<Rightarrow> Inl e | Inr x \<Rightarrow> f x)"

lemma bind_res_simps [simp]:
  "bind_res (Inl e) f = Inl e"
  "bind_res (Inr x) f = f x"
  by (simp_all add: bind_res_def)

lemma bind_res_assoc [simp]:
  "bind_res (bind_res m f) g = bind_res m (\<lambda>x. bind_res (f x) g)"
  by (simp add: bind_res_def split: sum.splits)

lemma bind_res_eq_Inr:
  "bind_res m f = Inr y \<longleftrightarrow> (\<exists>x. m = Inr x \<and> f x = Inr y)"
  by (simp add: bind_res_def split: sum.splits)

section \<open>Big-endian codecs\<close>

text \<open>
  The byte \<open>n - 1 - i\<close> of the encoding holds bits \<open>8 i\<close> to \<open>8 i + 7\<close>: network byte
  order. Decoding shifts the accumulator left by eight for each byte.
\<close>

definition be_bytes :: "nat \<Rightarrow> 'a::len word \<Rightarrow> u8 list" where
  "be_bytes n w = map (\<lambda>i. ucast (drop_bit (8 * i) w)) (rev [0..<n])"

definition be_val :: "u8 list \<Rightarrow> 'a::len word" where
  "be_val bs = foldl (\<lambda>v b. push_bit 8 v OR ucast b) 0 bs"

lemma length_be_bytes [simp, wire_simps]: "length (be_bytes n w) = n"
  by (simp add: be_bytes_def)

lemma be_bytes_nth:
  "k < n \<Longrightarrow> be_bytes n w ! k = ucast (drop_bit (8 * (n - 1 - k)) w)"
  by (simp add: be_bytes_def rev_nth)

lemma be_bytes_Suc: "be_bytes (Suc n) w = ucast (drop_bit (8 * n) w) # be_bytes n w"
  by (simp add: be_bytes_def)

text \<open>Evaluation at a numeral length, for concrete instances.\<close>

lemma be_bytes_eval:
  "be_bytes 0 w = []"
  "be_bytes (Suc 0) w = [ucast w]"
  "be_bytes (numeral k) w = ucast (drop_bit (8 * pred_numeral k) w) # be_bytes (pred_numeral k) w"
  by (simp_all add: be_bytes_def numeral_eq_Suc)

lemma be_val_snoc: "be_val (bs @ [b]) = push_bit 8 (be_val bs) OR ucast b"
  by (simp add: be_val_def)

lemma bit_be_val:
  "bit (be_val bs :: 'a::len word) i \<longleftrightarrow>
     i < LENGTH('a) \<and> i < 8 * length bs \<and> bit (bs ! (length bs - 1 - i div 8)) (i mod 8)"
proof (induction bs arbitrary: i rule: rev_induct)
  case Nil
  show ?case by (simp add: be_val_def)
next
  case (snoc b bs)
  show ?case
  proof (cases "i < 8")
    case True
    then show ?thesis
      by (auto simp: be_val_snoc bit_or_iff bit_push_bit_iff bit_ucast_iff nth_append
          dest: bit_imp_le_length)
  next
    case False
    then have div: "i div 8 = Suc ((i - 8) div 8)" and md: "i mod 8 = (i - 8) mod 8"
      by (simp_all add: le_div_geq le_mod_geq)
    have b8: "\<not> bit b i" using False by (auto dest: bit_imp_le_length)
    have "bit (be_val (bs @ [b]) :: 'a word) i \<longleftrightarrow>
        i < LENGTH('a) \<and> bit (be_val bs :: 'a word) (i - 8)"
      using False b8 by (auto simp: be_val_snoc bit_or_iff bit_push_bit_iff bit_ucast_iff
          dest: bit_imp_le_length)
    moreover have "i - 8 < 8 * length bs \<Longrightarrow>
        (bs @ [b]) ! (length bs - Suc ((i - 8) div 8)) = bs ! (length bs - 1 - (i - 8) div 8)"
      by (auto simp: nth_append)
    ultimately show ?thesis
      using False unfolding snoc.IH div md by (auto dest: bit_imp_le_length)
  qed
qed

lemma be_val_be_bytes [simp, wire_simps]:
  fixes w :: "'a::len word"
  assumes "LENGTH('a) = 8 * n"
  shows "be_val (be_bytes n w) = w"
proof (rule bit_word_eqI)
  fix i assume "i < LENGTH('a)"
  then have i: "i < 8 * n" using assms by simp
  then have "i div 8 < n" by (simp add: less_mult_imp_div_less mult.commute)
  then have k: "n - 1 - i div 8 < n" "n - 1 - (n - 1 - i div 8) = i div 8" by auto
  have "8 * (i div 8) + i mod 8 = i" by simp
  then show "bit (be_val (be_bytes n w) :: 'a word) i = bit w i"
    using i k by (auto simp: bit_be_val be_bytes_nth bit_ucast_iff bit_drop_bit_eq
        dest: bit_imp_le_length)
qed

lemma be_bytes_be_val:
  assumes "8 * length bs \<le> LENGTH('a)"
  shows "be_bytes (length bs) (be_val bs :: 'a::len word) = bs"
proof (rule nth_equalityI)
  show "length (be_bytes (length bs) (be_val bs :: 'a word)) = length bs" by simp
next
  fix k assume "k < length (be_bytes (length bs) (be_val bs :: 'a word))"
  then have k: "k < length bs" by simp
  show "be_bytes (length bs) (be_val bs :: 'a word) ! k = bs ! k"
  proof (rule bit_word_eqI)
    fix j assume "j < LENGTH(8)"
    then have j: "j < 8" by simp
    have "(8 * (length bs - 1 - k) + j) div 8 = length bs - 1 - k"
         "(8 * (length bs - 1 - k) + j) mod 8 = j" using j by simp_all
    moreover have "8 * (length bs - 1 - k) + j < 8 * length bs" using j k by linarith
    ultimately show "bit (be_bytes (length bs) (be_val bs :: 'a word) ! k) j = bit (bs ! k) j"
      using k j assms
      by (simp add: be_bytes_nth bit_ucast_iff bit_drop_bit_eq bit_be_val)
  qed
qed

section \<open>Writing into a C array\<close>

text \<open>
  \<open>mem_write m off bs\<close> is \<^verbatim>\<open>memcpy(m + off, bs, n)\<close>; it is only used where the
  written range lies inside the array.
\<close>

definition mem_write :: "'a list \<Rightarrow> nat \<Rightarrow> 'a list \<Rightarrow> 'a list" where
  "mem_write m off bs = take off m @ bs @ drop (off + length bs) m"

lemma length_mem_write [simp]:
  "off + length bs \<le> length m \<Longrightarrow> length (mem_write m off bs) = length m"
  by (simp add: mem_write_def)

lemma take_mem_write [simp]:
  "off \<le> length m \<Longrightarrow> take (off + length bs) (mem_write m off bs) = take off m @ bs"
  by (simp add: mem_write_def)

lemma take_mem_write_before:
  "n \<le> off \<Longrightarrow> off \<le> length m \<Longrightarrow> take n (mem_write m off bs) = take n m"
  by (simp add: mem_write_def min_def)

lemma mem_write_Nil [simp]: "mem_write m off [] = m"
  by (simp add: mem_write_def)

lemma mem_write_read:
  "off \<le> length m \<Longrightarrow> take (length bs) (drop off (mem_write m off bs)) = bs"
  by (simp add: mem_write_def)

end
