(* ===== verification/ZT_Buffer.thy ===== *)
theory ZT_Buffer
  imports ZT_Prelude
begin

text \<open>
  \<^verbatim>\<open>node/Buffer.hpp\<close>: the bounds-checked byte buffer all packets and credentials are
  written to and read from. \<open>bmem\<close> is the array \<^verbatim>\<open>_b\<close> with its whole capacity (the
  template parameter \<^verbatim>\<open>C\<close> is \<open>length bmem\<close>), \<open>blen\<close> is \<^verbatim>\<open>_l\<close>. Sizes are 32-bit words,
  because the code's checks add \<^verbatim>\<open>unsigned int\<close>s and can wrap. A check that passes although
  the access leaves the array gives \<open>Inl UndefinedBehaviour\<close>.
\<close>

record zbuf =
  bmem :: "u8 list"
  blen :: u32

definition bcap :: "zbuf \<Rightarrow> nat" where
  "bcap b = length (bmem b)"

text \<open>The capacity as the 32-bit template constant the checks compare with.\<close>

definition bcap32 :: "zbuf \<Rightarrow> u32" where
  "bcap32 b = of_nat (bcap b)"

definition bsize :: "zbuf \<Rightarrow> nat" where
  "bsize b = unat (blen b)"

definition bdata :: "zbuf \<Rightarrow> u8 list" where
  "bdata b = take (bsize b) (bmem b)"

text \<open>What the class maintains: the size never exceeds the capacity.\<close>

definition buf_ok :: "zbuf \<Rightarrow> bool" where
  "buf_ok b \<longleftrightarrow> bcap b < 2 ^ 32 \<and> bsize b \<le> bcap b"

section \<open>Operations\<close>

definition buf_new :: "u8 list \<Rightarrow> zbuf" where
  "buf_new mem = \<lparr>bmem = mem, blen = 0\<rparr>"

definition buf_new_sized :: "u8 list \<Rightarrow> u32 \<Rightarrow> zbuf res" where
  "buf_new_sized mem l =
     (if l > of_nat (length mem) then Inl OutOfBounds
      else Inr \<lparr>bmem = mem, blen = l\<rparr>)"

definition buf_assign :: "zbuf \<Rightarrow> zbuf \<Rightarrow> zbuf res" where
  "buf_assign dst src =
     (if blen src > bcap32 dst then Inl OutOfBounds
      else if bcap src = bcap dst then Inr src
      else Inr (dst\<lparr>bmem := mem_write (bmem dst) 0 (bdata src), blen := blen src\<rparr>))"

definition buf_copyFrom :: "zbuf \<Rightarrow> u8 list \<Rightarrow> u32 \<Rightarrow> zbuf res" where
  "buf_copyFrom b bs l =
     (if l > bcap32 b then Inl OutOfBounds
      else Inr (b\<lparr>bmem := mem_write (bmem b) 0 (take (unat l) bs), blen := l\<rparr>))"

definition buf_get :: "zbuf \<Rightarrow> u32 \<Rightarrow> u8 res" where
  "buf_get b i = (if i \<ge> blen b then Inl OutOfBounds else Inr (bmem b ! unat i))"

definition buf_put :: "zbuf \<Rightarrow> u32 \<Rightarrow> u8 \<Rightarrow> zbuf res" where
  "buf_put b i v =
     (if i \<ge> blen b then Inl OutOfBounds else Inr (b\<lparr>bmem := (bmem b)[unat i := v]\<rparr>))"

text \<open>
  \<open>field\<close> returns the offset the code's pointer stands for; \<open>buf_read\<close> is the caller reading
  \<open>n\<close> bytes through such a pointer, which is defined only inside the array.
\<close>

definition buf_field :: "zbuf \<Rightarrow> u32 \<Rightarrow> u32 \<Rightarrow> nat res" where
  "buf_field b i l = (if i + l > blen b then Inl OutOfBounds else Inr (unat i))"

definition buf_read :: "zbuf \<Rightarrow> nat \<Rightarrow> nat \<Rightarrow> u8 list res" where
  "buf_read b off n =
     (if off + n > bcap b then Inl UndefinedBehaviour
      else Inr (take n (drop off (bmem b))))"

text \<open>
  \<open>setAt\<close>, \<open>at\<close> and \<open>append\<close> add \<^verbatim>\<open>sizeof(T)\<close>, a 64-bit \<^verbatim>\<open>size_t\<close>, so
  these checks cannot wrap. \<open>n\<close> is \<^verbatim>\<open>sizeof(T)\<close>.
\<close>

definition buf_setAt :: "nat \<Rightarrow> zbuf \<Rightarrow> u32 \<Rightarrow> 'a::len word \<Rightarrow> zbuf res" where
  "buf_setAt n b i v =
     (if unat i + n > bsize b then Inl OutOfBounds
      else Inr (b\<lparr>bmem := mem_write (bmem b) (unat i) (be_bytes n v)\<rparr>))"

definition buf_at :: "nat \<Rightarrow> zbuf \<Rightarrow> u32 \<Rightarrow> 'a::len word res" where
  "buf_at n b i =
     (if unat i + n > bsize b then Inl OutOfBounds
      else Inr (be_val (take n (drop (unat i) (bmem b)))))"

definition buf_append_int :: "nat \<Rightarrow> 'a::len word \<Rightarrow> zbuf \<Rightarrow> zbuf res" where
  "buf_append_int n v b =
     (if bsize b + n > bcap b then Inl OutOfBounds
      else Inr (b\<lparr>bmem := mem_write (bmem b) (bsize b) (be_bytes n v),
                  blen := blen b + of_nat n\<rparr>))"

text \<open>The remaining appends add two \<^verbatim>\<open>unsigned int\<close>s.\<close>

definition buf_append_bytes :: "u8 list \<Rightarrow> u32 \<Rightarrow> zbuf \<Rightarrow> zbuf res" where
  "buf_append_bytes bs l b =
     (if blen b + l > bcap32 b then Inl OutOfBounds
      else if bsize b + unat l > bcap b then Inl UndefinedBehaviour
      else Inr (b\<lparr>bmem := mem_write (bmem b) (bsize b) (take (unat l) bs),
                  blen := blen b + l\<rparr>))"

definition buf_append_run :: "u8 \<Rightarrow> u32 \<Rightarrow> zbuf \<Rightarrow> zbuf res" where
  "buf_append_run c n b =
     (if blen b + n > bcap32 b then Inl OutOfBounds
      else if bsize b + unat n > bcap b then Inl UndefinedBehaviour
      else Inr (b\<lparr>bmem := mem_write (bmem b) (bsize b) (replicate (unat n) c),
                  blen := blen b + n\<rparr>))"

text \<open>\<open>rnd\<close> is what the system's random source wrote.\<close>

definition buf_append_random :: "u8 list \<Rightarrow> u32 \<Rightarrow> zbuf \<Rightarrow> zbuf res" where
  "buf_append_random rnd n b =
     (if blen b + n > bcap32 b then Inl OutOfBounds
      else if bsize b + unat n > bcap b then Inl UndefinedBehaviour
      else Inr (b\<lparr>bmem := mem_write (bmem b) (bsize b) (take (unat n) rnd),
                  blen := blen b + n\<rparr>))"

definition buf_append_buf :: "zbuf \<Rightarrow> zbuf \<Rightarrow> zbuf res" where
  "buf_append_buf src b = buf_append_bytes (bmem src) (blen src) b"

text \<open>
  \<open>appendCString\<close> copies up to and including the zero byte; on overflow it throws with the
  buffer already filled to its capacity, so the buffer is part of both results. \<open>s\<close> is the
  string's memory; reading past it is undefined.
\<close>

fun buf_append_cstring :: "u8 list \<Rightarrow> zbuf \<Rightarrow> exc option \<times> zbuf" where
  "buf_append_cstring s b =
     (if blen b \<ge> bcap32 b then (Some OutOfBounds, b)
      else case s of
        [] \<Rightarrow> (Some UndefinedBehaviour, b)
      | c # s' \<Rightarrow>
          (let b' = b\<lparr>bmem := (bmem b)[bsize b := c], blen := blen b + 1\<rparr>
           in if c = 0 then (None, b') else buf_append_cstring s' b'))"

declare buf_append_cstring.simps [simp del]

definition buf_append_field :: "u32 \<Rightarrow> zbuf \<Rightarrow> (nat \<times> zbuf) res" where
  "buf_append_field l b =
     (if blen b + l > bcap32 b then Inl OutOfBounds
      else Inr (bsize b, b\<lparr>blen := blen b + l\<rparr>))"

definition buf_addSize :: "u32 \<Rightarrow> zbuf \<Rightarrow> zbuf res" where
  "buf_addSize i b =
     (if i + blen b > bcap32 b then Inl OutOfBounds else Inr (b\<lparr>blen := blen b + i\<rparr>))"

definition buf_setSize :: "u32 \<Rightarrow> zbuf \<Rightarrow> zbuf res" where
  "buf_setSize i b = (if i > bcap32 b then Inl OutOfBounds else Inr (b\<lparr>blen := i\<rparr>))"

definition buf_behead :: "u32 \<Rightarrow> zbuf \<Rightarrow> zbuf res" where
  "buf_behead at b =
     (if at = 0 then Inr b
      else if at > blen b then Inl OutOfBounds
      else let l' = blen b - at in
        Inr (b\<lparr>bmem := mem_write (bmem b) 0 (take (unat l') (drop (unat at) (bmem b))),
               blen := l'\<rparr>))"

definition buf_erase :: "u32 \<Rightarrow> u32 \<Rightarrow> zbuf \<Rightarrow> zbuf res" where
  "buf_erase at len b =
     (let endr = at + len in
      if endr > blen b then Inl OutOfBounds
      else if unat at + (bsize b - unat endr) > bcap b then Inl UndefinedBehaviour
      else Inr (b\<lparr>bmem := mem_write (bmem b) (unat at)
                            (take (bsize b - unat endr) (drop (unat endr) (bmem b))),
                  blen := blen b - len\<rparr>))"

definition buf_clear :: "zbuf \<Rightarrow> zbuf" where
  "buf_clear b = b\<lparr>blen := 0\<rparr>"

definition buf_zero :: "zbuf \<Rightarrow> zbuf" where
  "buf_zero b = b\<lparr>bmem := mem_write (bmem b) 0 (replicate (bsize b) 0)\<rparr>"

definition buf_zeroUnused :: "zbuf \<Rightarrow> zbuf" where
  "buf_zeroUnused b = b\<lparr>bmem := mem_write (bmem b) (bsize b) (replicate (bcap b - bsize b) 0)\<rparr>"

definition buf_burn :: "zbuf \<Rightarrow> zbuf" where
  "buf_burn b = b\<lparr>bmem := replicate (bcap b) 0\<rparr>"

definition buf_eq :: "zbuf \<Rightarrow> zbuf \<Rightarrow> bool" where
  "buf_eq a b \<longleftrightarrow> blen a = blen b \<and> take (bsize a) (bmem a) = take (bsize a) (bmem b)"

text \<open>\<^verbatim>\<open>memcmp\<close>'s sign on two byte lists of the same length.\<close>

fun memcmp_less :: "u8 list \<Rightarrow> u8 list \<Rightarrow> bool" where
  "memcmp_less (x # xs) (y # ys) = (x < y \<or> x = y \<and> memcmp_less xs ys)"
| "memcmp_less _ _ = False"

definition buf_less :: "zbuf \<Rightarrow> zbuf \<Rightarrow> bool" where
  "buf_less a b =
     (let n = min (bsize a) (bsize b) in memcmp_less (take n (bmem a)) (take n (bmem b)))"

section \<open>Reading the checks as arithmetic\<close>

lemma unat_add_of_nat32:
  "unat (x :: u32) + n < 2 ^ 32 \<Longrightarrow> unat (x + of_nat n) = unat x + n"
  by (simp add: unat_word_ariths unat_of_nat)

lemma bcap32_less:
  "bcap b < 2 ^ 32 \<Longrightarrow> bcap32 b < l \<longleftrightarrow> bcap b < unat l"
  by (simp add: bcap32_def word_less_nat_alt unat_of_nat)

lemma bcap32_le:
  "bcap b < 2 ^ 32 \<Longrightarrow> bcap32 b \<le> l \<longleftrightarrow> bcap b \<le> unat l"
  by (simp add: bcap32_def word_le_nat_alt unat_of_nat)

lemma buf_okD: "buf_ok b \<Longrightarrow> bcap b < 2 ^ 32" "buf_ok b \<Longrightarrow> bsize b \<le> bcap b"
  "buf_ok b \<Longrightarrow> unat (blen b) \<le> length (bmem b)" "buf_ok b \<Longrightarrow> length (bmem b) < 2 ^ 32"
  by (simp_all add: buf_ok_def bcap_def bsize_def)

lemma length_bdata [simp]: "buf_ok b \<Longrightarrow> length (bdata b) = bsize b"
  by (simp add: bdata_def buf_ok_def bcap_def)

lemma bcap_simps [simp]:
  "bcap (b\<lparr>blen := l\<rparr>) = bcap b"
  "bcap \<lparr>bmem = m, blen = l\<rparr> = length m"
  "bsize (b\<lparr>blen := l\<rparr>) = unat l"
  "bsize (b\<lparr>bmem := m\<rparr>) = bsize b"
  "bsize \<lparr>bmem = m, blen = l\<rparr> = unat l"
  by (simp_all add: bcap_def bsize_def)

text \<open>Writing \<open>bs\<close> at the end of the data and growing by its length appends it.\<close>

lemma bdata_grow:
  assumes ok: "buf_ok b" and fit: "bsize b + length bs \<le> bcap b"
    and l': "unat l' = bsize b + length bs"
  shows "bdata (b\<lparr>bmem := mem_write (bmem b) (bsize b) bs, blen := l'\<rparr>) = bdata b @ bs"
    and "buf_ok (b\<lparr>bmem := mem_write (bmem b) (bsize b) bs, blen := l'\<rparr>)"
    and "bcap (b\<lparr>bmem := mem_write (bmem b) (bsize b) bs, blen := l'\<rparr>) = bcap b"
proof -
  have m: "bsize b \<le> length (bmem b)" using ok by (simp add: buf_ok_def bcap_def)
  show "bdata (b\<lparr>bmem := mem_write (bmem b) (bsize b) bs, blen := l'\<rparr>) = bdata b @ bs"
    using m l' by (simp add: bdata_def)
  have len: "length (mem_write (bmem b) (bsize b) bs) = bcap b"
    using fit by (simp add: bcap_def)
  then show "bcap (b\<lparr>bmem := mem_write (bmem b) (bsize b) bs, blen := l'\<rparr>) = bcap b"
    by (simp add: bcap_def)
  show "buf_ok (b\<lparr>bmem := mem_write (bmem b) (bsize b) bs, blen := l'\<rparr>)"
    using len l' fit ok by (simp add: buf_ok_def bcap_def)
qed

lemma buf_append_int_Inr:
  assumes ok: "buf_ok b" and eq: "buf_append_int n v b = Inr b'"
  shows "bdata b' = bdata b @ be_bytes n v" "buf_ok b'" "bcap b' = bcap b"
    "bsize b' = bsize b + n"
proof -
  from eq have fit: "bsize b + n \<le> bcap b"
    and b': "b' = b\<lparr>bmem := mem_write (bmem b) (bsize b) (be_bytes n v),
                 blen := blen b + of_nat n\<rparr>"
    by (auto simp: buf_append_int_def split: if_splits)
  have l': "unat (blen b + of_nat n) = bsize b + length (be_bytes n v)"
    using fit ok by (simp add: unat_add_of_nat32 bsize_def buf_ok_def)
  show "bdata b' = bdata b @ be_bytes n v" "buf_ok b'" "bcap b' = bcap b"
    unfolding b' by (rule bdata_grow [OF ok _ l'], simp add: fit)+
  then show "bsize b' = bsize b + n" using ok length_bdata [of b'] by simp
qed

lemma buf_append_int_ok:
  "buf_ok b \<Longrightarrow> bsize b + n \<le> bcap b \<Longrightarrow> \<exists>b'. buf_append_int n v b = Inr b'"
  by (simp add: buf_append_int_def)

lemma buf_append_bytes_Inr:
  assumes ok: "buf_ok b" and eq: "buf_append_bytes bs l b = Inr b'" and bs: "length bs \<ge> unat l"
  shows "bdata b' = bdata b @ take (unat l) bs" "buf_ok b'" "bcap b' = bcap b"
    "bsize b' = bsize b + unat l"
proof -
  from eq have fit: "bsize b + unat l \<le> bcap b"
    and b': "b' = b\<lparr>bmem := mem_write (bmem b) (bsize b) (take (unat l) bs), blen := blen b + l\<rparr>"
    by (auto simp: buf_append_bytes_def split: if_splits)
  have l': "unat (blen b + l) = bsize b + length (take (unat l) bs)"
    using fit ok bs by (simp add: unat_word_ariths bsize_def buf_ok_def)
  show "bdata b' = bdata b @ take (unat l) bs" "buf_ok b'" "bcap b' = bcap b"
    unfolding b' by (rule bdata_grow [OF ok _ l'], simp add: fit bs)+
  then show "bsize b' = bsize b + unat l" using ok bs length_bdata [of b'] by simp
qed

text \<open>Reading an integer is decoding the bytes of the data at that position.\<close>

lemma buf_at_bdata:
  assumes "buf_ok b" and "bdata b = pre @ be_bytes n v @ post" and "length pre = unat i"
    and "LENGTH('a::len) = 8 * n"
  shows "buf_at n b i = Inr (v :: 'a word)"
proof -
  have "bsize b = length (bdata b)" using assms(1) by simp
  then have sz: "unat i + n \<le> bsize b" using assms(2,3) by simp
  have "take n (drop (unat i) (bmem b)) = take n (drop (unat i) (bdata b))"
    using sz by (simp add: bdata_def drop_take min_def)
  also have "\<dots> = be_bytes n v" using assms(2,3) by simp
  finally show ?thesis using sz assms(4) by (simp add: buf_at_def)
qed

section \<open>The capacity invariant over every sequence of operations\<close>

definition keeps :: "nat \<Rightarrow> zbuf \<Rightarrow> bool" where
  "keeps C b \<longleftrightarrow> bcap b = C \<and> buf_ok b"

lemma keeps_resize [inv_intros]:
  "keeps C b \<Longrightarrow> unat l \<le> C \<Longrightarrow> keeps C (b\<lparr>blen := l\<rparr>)"
  by (simp add: keeps_def buf_ok_def)

lemma keeps_mem [inv_intros]:
  "keeps C b \<Longrightarrow> length m = C \<Longrightarrow> keeps C (b\<lparr>bmem := m\<rparr>)"
  by (simp add: keeps_def buf_ok_def bcap_def)

lemma keeps_mem_resize [inv_intros]:
  "keeps C b \<Longrightarrow> length m = C \<Longrightarrow> unat l \<le> C \<Longrightarrow> keeps C (b\<lparr>bmem := m, blen := l\<rparr>)"
  by (simp add: keeps_def buf_ok_def bcap_def bsize_def)

lemma keepsD:
  "keeps C b \<Longrightarrow> length (bmem b) = C" "keeps C b \<Longrightarrow> unat (blen b) \<le> C"
  "keeps C b \<Longrightarrow> C < 2 ^ 32" "keeps C b \<Longrightarrow> bcap b = C" "keeps C b \<Longrightarrow> bsize b \<le> C"
  "keeps C b \<Longrightarrow> bcap32 b < l \<longleftrightarrow> C < unat l"
  "keeps C b \<Longrightarrow> bcap32 b \<le> l \<longleftrightarrow> C \<le> unat l"
  by (auto simp: keeps_def buf_ok_def bcap_def bsize_def bcap32_less bcap32_le)

lemma length_take_mem_write:
  "off + n \<le> length m \<Longrightarrow> length (mem_write m off (take n bs)) = length m"
  by (rule length_mem_write) simp

lemma unat_add_le_add: "unat (x + y) \<le> unat x + unat y" for x :: "'a::len word"
  by (simp only: unat_word_ariths mod_less_eq_dividend)

lemma unat_add_le: "\<not> l < x + y \<Longrightarrow> unat (x + y) \<le> unat l" for l :: "'a::len word"
  by (simp add: word_less_nat_alt not_less)

lemma buf_append_cstring_keeps [inv_intros]:
  "keeps C b \<Longrightarrow> keeps C (snd (buf_append_cstring s b))"
proof (induction s b rule: buf_append_cstring.induct)
  case (1 s b)
  note k = keepsD [OF "1.prems"]
  show ?case
  proof (cases "blen b \<ge> bcap32 b")
    case True
    with "1.prems" show ?thesis by (simp add: buf_append_cstring.simps [of s b])
  next
    case False
    then have "unat (blen b) < C" by (simp add: k)
    then have "unat (blen b + 1) \<le> C"
      using k(3) by (simp add: unat_word_ariths)
    then have k': "keeps C (b\<lparr>bmem := (bmem b)[bsize b := c], blen := blen b + 1\<rparr>)" for c
      using "1.prems" by (intro keeps_mem_resize) (simp_all add: k)
    show ?thesis using False k' "1.IH" "1.prems"
      by (auto simp: buf_append_cstring.simps [of s b] Let_def split: list.split)
  qed
qed

text \<open>
  The states a buffer of capacity \<open>C\<close> can be in: a fresh one, or the result of any operation
  that returned (or, for \<open>appendCString\<close>, also threw) on such a state.
\<close>

inductive buf_reach :: "nat \<Rightarrow> zbuf \<Rightarrow> bool" for C :: nat where
  fresh: "length mem = C \<Longrightarrow> buf_reach C (buf_new mem)"
| sized: "length mem = C \<Longrightarrow> buf_new_sized mem l = Inr b \<Longrightarrow> buf_reach C b"
| assign: "buf_reach C b \<Longrightarrow> buf_ok src \<Longrightarrow> buf_assign b src = Inr b' \<Longrightarrow> buf_reach C b'"
| copyFrom: "buf_reach C b \<Longrightarrow> length bs = unat l \<Longrightarrow> buf_copyFrom b bs l = Inr b' \<Longrightarrow> buf_reach C b'"
| put: "buf_reach C b \<Longrightarrow> buf_put b i v = Inr b' \<Longrightarrow> buf_reach C b'"
| setAt: "buf_reach C b \<Longrightarrow> buf_setAt n b i (w :: u64) = Inr b' \<Longrightarrow> buf_reach C b'"
| append_int: "buf_reach C b \<Longrightarrow> buf_append_int n (w :: u64) b = Inr b' \<Longrightarrow> buf_reach C b'"
| append_bytes: "buf_reach C b \<Longrightarrow> buf_append_bytes bs l b = Inr b' \<Longrightarrow> buf_reach C b'"
| append_run: "buf_reach C b \<Longrightarrow> buf_append_run c l b = Inr b' \<Longrightarrow> buf_reach C b'"
| append_random: "buf_reach C b \<Longrightarrow> buf_append_random bs l b = Inr b' \<Longrightarrow> buf_reach C b'"
| append_cstring: "buf_reach C b \<Longrightarrow> buf_reach C (snd (buf_append_cstring s b))"
| append_field: "buf_reach C b \<Longrightarrow> buf_append_field l b = Inr (off, b') \<Longrightarrow> buf_reach C b'"
| addSize: "buf_reach C b \<Longrightarrow> buf_addSize l b = Inr b' \<Longrightarrow> buf_reach C b'"
| setSize: "buf_reach C b \<Longrightarrow> buf_setSize l b = Inr b' \<Longrightarrow> buf_reach C b'"
| behead: "buf_reach C b \<Longrightarrow> buf_behead l b = Inr b' \<Longrightarrow> buf_reach C b'"
| erase: "buf_reach C b \<Longrightarrow> buf_erase at l b = Inr b' \<Longrightarrow> buf_reach C b'"
| clear: "buf_reach C b \<Longrightarrow> buf_reach C (buf_clear b)"
| zero: "buf_reach C b \<Longrightarrow> buf_reach C (buf_zero b)"
| zeroUnused: "buf_reach C b \<Longrightarrow> buf_reach C (buf_zeroUnused b)"
| burn: "buf_reach C b \<Longrightarrow> buf_reach C (buf_burn b)"

lemma buf_assign_keeps:
  assumes k: "keeps C b" and src: "buf_ok src" and e: "buf_assign b src = Inr b'"
  shows "keeps C b'"
proof (cases "bcap src = bcap b")
  case True
  with assms show ?thesis by (auto simp: buf_assign_def keeps_def split: if_splits)
next
  case False
  with e k have l: "unat (blen src) \<le> C"
    and b': "b' = b\<lparr>bmem := mem_write (bmem b) 0 (bdata src), blen := blen src\<rparr>"
    by (auto simp: buf_assign_def keepsD split: if_splits)
  have "length (bdata src) = unat (blen src)" using src by (simp add: bsize_def)
  with l k show ?thesis unfolding b' by (intro keeps_mem_resize) (simp_all add: keepsD)
qed

lemma buf_copyFrom_keeps:
  "keeps C b \<Longrightarrow> length bs = unat l \<Longrightarrow> buf_copyFrom b bs l = Inr b' \<Longrightarrow> keeps C b'"
  by (auto simp: buf_copyFrom_def keepsD split: if_splits intro!: keeps_mem_resize)

lemma buf_put_keeps: "keeps C b \<Longrightarrow> buf_put b i v = Inr b' \<Longrightarrow> keeps C b'"
  by (auto simp: buf_put_def keepsD split: if_splits intro!: keeps_mem)

lemma buf_setAt_keeps:
  assumes "keeps C b" and "buf_setAt n b i w = Inr b'"
  shows "keeps C b'"
proof -
  from assms have "unat i + n \<le> bsize b"
    and b': "b' = b\<lparr>bmem := mem_write (bmem b) (unat i) (be_bytes n w)\<rparr>"
    by (auto simp: buf_setAt_def split: if_splits)
  with keepsD(1,5) [OF assms(1)] show ?thesis
    unfolding b' using assms(1) by (intro keeps_mem) auto
qed

lemma buf_append_int_keeps: "keeps C b \<Longrightarrow> buf_append_int n w b = Inr b' \<Longrightarrow> keeps C b'"
  using buf_append_int_Inr(2,3) by (fastforce simp: keeps_def)

text \<open>The three appends of a byte run share their shape: a checked write at the end.\<close>

lemma keeps_append:
  assumes "keeps C b" and "\<not> bcap b < bsize b + unat l" and "length bs \<le> unat l"
    and "\<not> bcap32 b < blen b + l"
  shows "keeps C (b\<lparr>bmem := mem_write (bmem b) (bsize b) bs, blen := blen b + l\<rparr>)"
  using assms keepsD [OF assms(1)]
  by (intro keeps_mem_resize) (auto simp: bsize_def)

lemma buf_append_bytes_keeps: "keeps C b \<Longrightarrow> buf_append_bytes bs l b = Inr b' \<Longrightarrow> keeps C b'"
  by (auto simp: buf_append_bytes_def split: if_splits intro!: keeps_append)

lemma buf_append_run_keeps: "keeps C b \<Longrightarrow> buf_append_run c l b = Inr b' \<Longrightarrow> keeps C b'"
  by (auto simp: buf_append_run_def split: if_splits intro!: keeps_append)

lemma buf_append_random_keeps: "keeps C b \<Longrightarrow> buf_append_random bs l b = Inr b' \<Longrightarrow> keeps C b'"
  by (auto simp: buf_append_random_def split: if_splits intro!: keeps_append)

lemma buf_append_field_keeps:
  "keeps C b \<Longrightarrow> buf_append_field l b = Inr (off, b') \<Longrightarrow> keeps C b'"
  by (auto simp: buf_append_field_def keepsD split: if_splits intro!: keeps_resize)

lemma buf_addSize_keeps: "keeps C b \<Longrightarrow> buf_addSize l b = Inr b' \<Longrightarrow> keeps C b'"
  by (auto simp: buf_addSize_def keepsD add.commute split: if_splits intro!: keeps_resize)

lemma buf_setSize_keeps: "keeps C b \<Longrightarrow> buf_setSize l b = Inr b' \<Longrightarrow> keeps C b'"
  by (auto simp: buf_setSize_def keepsD split: if_splits intro!: keeps_resize)

lemma buf_behead_keeps:
  assumes k: "keeps C b" and e: "buf_behead at b = Inr b'"
  shows "keeps C b'"
proof (cases "at = 0 \<or> at > blen b")
  case True
  with assms show ?thesis by (auto simp: buf_behead_def split: if_splits)
next
  case False
  let ?l = "blen b - at"
  from False e have b': "b' = b\<lparr>bmem := mem_write (bmem b) 0 (take (unat ?l) (drop (unat at) (bmem b))),
      blen := ?l\<rparr>" by (auto simp: buf_behead_def Let_def)
  from False have "unat ?l \<le> unat (blen b)" by (simp add: unat_sub word_le_nat_alt not_less)
  then have l: "unat ?l \<le> C" using keepsD(2) [OF k] by linarith
  show ?thesis unfolding b'
    using k l by (intro keeps_mem_resize) (auto simp: keepsD)
qed

text \<open>
  An erase whose end wraps is caught by the memory check: the moved block and the new size
  have the same end.
\<close>

lemma buf_erase_keeps:
  assumes k: "keeps C b" and e: "buf_erase at len b = Inr b'"
  shows "keeps C b'"
proof -
  let ?e = "at + len" and ?n = "bsize b - unat (at + len)"
  from e have le: "?e \<le> blen b" and fit: "unat at + ?n \<le> bcap b"
    and b': "b' = b\<lparr>bmem := mem_write (bmem b) (unat at) (take ?n (drop (unat ?e) (bmem b))),
        blen := blen b - len\<rparr>"
    by (auto simp: buf_erase_def Let_def not_less split: if_splits)
  have n: "unat (blen b - ?e) = ?n" using le by (simp add: unat_sub bsize_def)
  have "unat (blen b - len) = unat (at + (blen b - ?e))" by simp
  also have "\<dots> \<le> unat at + ?n" unfolding n [symmetric] by (rule unat_add_le_add)
  also have "\<dots> \<le> C" using fit k by (simp add: keepsD)
  finally have "unat (blen b - len) \<le> C" .
  then show ?thesis unfolding b'
    using k fit by (intro keeps_mem_resize) (simp_all add: keepsD)
qed

lemma buf_clear_keeps: "keeps C b \<Longrightarrow> keeps C (buf_clear b)"
  by (auto simp: buf_clear_def intro!: keeps_resize)

lemma buf_zero_keeps: "keeps C b \<Longrightarrow> keeps C (buf_zero b)"
  by (auto simp: buf_zero_def keepsD intro!: keeps_mem)

lemma buf_zeroUnused_keeps: "keeps C b \<Longrightarrow> keeps C (buf_zeroUnused b)"
  by (auto simp: buf_zeroUnused_def keepsD intro!: keeps_mem)

lemma buf_burn_keeps: "keeps C b \<Longrightarrow> keeps C (buf_burn b)"
  by (auto simp: buf_burn_def keepsD intro!: keeps_mem)

lemmas buf_keeps = buf_assign_keeps buf_copyFrom_keeps buf_put_keeps buf_setAt_keeps
  buf_append_int_keeps buf_append_bytes_keeps buf_append_run_keeps buf_append_random_keeps
  buf_append_cstring_keeps buf_append_field_keeps buf_addSize_keeps buf_setSize_keeps
  buf_behead_keeps buf_erase_keeps buf_clear_keeps buf_zero_keeps buf_zeroUnused_keeps
  buf_burn_keeps

text \<open>
  No sequence of buffer operations, whatever sizes and offsets they are given, makes
  the size exceed the capacity or changes the capacity.
\<close>

lemma buf_reach_capacity:
  assumes "buf_reach C b" and "C < 2 ^ 32"
  shows "bsize b \<le> C \<and> bcap b = C"
proof -
  from assms have "keeps C b"
  proof (induction rule: buf_reach.induct)
    case (fresh mem)
    then show ?case by (simp add: buf_new_def keeps_def buf_ok_def)
  next
    case (sized mem l b)
    then show ?case
      by (auto simp: buf_new_sized_def keeps_def buf_ok_def word_less_nat_alt unat_of_nat
          split: if_splits)
  qed (blast intro: buf_keeps)+
  then show ?thesis by (simp add: keepsD)
qed

lemma buf_reach_capacity_witness:
  "\<exists>b. buf_reach 4 b \<and> bsize b = 2 \<and> bsize b \<le> 4 \<and> bcap b = 4"
proof -
  have "buf_reach 4 (buf_new [1, 2, 3, 4])" by (rule buf_reach.fresh) simp
  then have r: "buf_reach 4 \<lparr>bmem = [0, 7, 3, 4], blen = 2\<rparr>"
    by (rule buf_reach.append_int [where n = 2 and w = 7])
      (simp add: buf_append_int_def buf_new_def bcap_def bsize_def be_bytes_eval mem_write_def)
  show ?thesis using r buf_reach_capacity [OF r] by (auto simp: bsize_def)
qed

section \<open>What the operations do to the data\<close>

lemma bdata_nth_read:
  assumes "buf_ok b" and "off + n \<le> bsize b"
  shows "take n (drop off (bmem b)) = take n (drop off (bdata b))"
  using assms by (simp add: bdata_def drop_take min_def)

text \<open>
  Appending an integer and reading it back at the old size gives the value; the data
  before it is unchanged and the size grows by the integer's width.
\<close>

lemma buf_append_at_roundtrip:
  fixes v :: "'a::len word"
  assumes ok: "buf_ok b" and w: "LENGTH('a) = 8 * n"
    and eq: "buf_append_int n v b = Inr b'"
  shows "buf_at n b' (blen b) = Inr v \<and> take (bsize b) (bdata b') = bdata b
    \<and> bsize b' = bsize b + n"
proof -
  note r = buf_append_int_Inr [OF ok eq]
  have l: "length (bdata b) = unat (blen b)" using ok by (simp add: bsize_def)
  have "buf_at n b' (blen b) = Inr v"
    by (rule buf_at_bdata [where pre = "bdata b" and post = "[]"]) (use r l w in simp_all)
  then show ?thesis using r ok by simp
qed

lemma buf_append_at_roundtrip_witness:
  "\<exists>b'. buf_append_int 4 (0xDEADBEEF :: u32) \<lparr>bmem = [1, 2, 3, 4, 5, 6], blen = 1\<rparr> = Inr b'
    \<and> buf_at 4 b' 1 = Inr (0xDEADBEEF :: u32)"
proof -
  let ?b = "\<lparr>bmem = [1, 2, 3, 4, 5, 6], blen = 1\<rparr>"
  have ok: "buf_ok ?b" by (simp add: buf_ok_def)
  then obtain b' where "buf_append_int 4 (0xDEADBEEF :: u32) ?b = Inr b'"
    using buf_append_int_ok [of ?b 4] by auto
  then show ?thesis using buf_append_at_roundtrip [OF ok, of 4 "0xDEADBEEF :: u32" b'] by auto
qed

text \<open>
  A field whose position and length do not wrap an \<^verbatim>\<open>unsigned int\<close> is only handed
  out when it lies inside the data, so every read through it is defined and returns that part
  of the data; otherwise the call throws.
\<close>

lemma buf_field_safe:
  assumes ok: "buf_ok b" and nowrap: "unat i + unat l < 2 ^ 32"
  shows "buf_field b i l =
      (if unat i + unat l \<le> bsize b then Inr (unat i) else Inl OutOfBounds) \<and>
    (unat i + unat l \<le> bsize b \<longrightarrow>
      buf_read b (unat i) (unat l) = Inr (take (unat l) (drop (unat i) (bdata b))))"
proof -
  have s: "unat (i + l) = unat i + unat l" using nowrap by (simp add: unat_word_ariths)
  have "blen b < i + l \<longleftrightarrow> bsize b < unat i + unat l"
    by (simp add: word_less_nat_alt s bsize_def)
  moreover have "unat i + unat l \<le> bsize b \<Longrightarrow> \<not> bcap b < unat i + unat l"
    using ok by (simp add: buf_ok_def)
  ultimately show ?thesis
    using bdata_nth_read [OF ok, of "unat i" "unat l"] by (auto simp: buf_field_def buf_read_def)
qed

lemma buf_field_safe_witness:
  "buf_field \<lparr>bmem = [1, 2, 3, 4, 5, 6], blen = 4\<rparr> 1 3 = Inr 1 \<and>
   buf_read \<lparr>bmem = [1, 2, 3, 4, 5, 6], blen = 4\<rparr> 1 3 = Inr [2, 3, 4]"
  using buf_field_safe [of "\<lparr>bmem = [1, 2, 3, 4, 5, 6], blen = 4\<rparr>" 1 3]
  by (simp add: buf_ok_def bsize_def bdata_def bcap_def)

text \<open>
  The check of \<^verbatim>\<open>field\<close> adds two \<^verbatim>\<open>unsigned int\<close>s, so it accepts a field that wraps
  around: there are positions and lengths for which it returns a pointer although reading the
  field leaves the array, in a buffer of any capacity below \<open>2 ^ 32 - 1\<close>.
\<close>

lemma buf_field_wraps:
  assumes "bcap b < 2 ^ 32 - 1"
  shows "buf_field b 0xFFFFFFFF 1 = Inr (2 ^ 32 - 1) \<and> buf_read b (2 ^ 32 - 1) 1 = Inl UndefinedBehaviour"
proof -
  have z: "(0xFFFFFFFF :: u32) + 1 = 0" by simp
  have "buf_field b 0xFFFFFFFF 1 = Inr (unat (0xFFFFFFFF :: u32))"
    unfolding buf_field_def z by simp
  moreover have "unat (0xFFFFFFFF :: u32) = 2 ^ 32 - 1" by simp
  ultimately show ?thesis using assms by (simp add: buf_read_def)
qed

lemma buf_field_wraps_witness:
  "buf_field \<lparr>bmem = [1, 2], blen = 1\<rparr> 0xFFFFFFFF 1 = Inr (2 ^ 32 - 1) \<and>
   buf_read \<lparr>bmem = [1, 2], blen = 1\<rparr> (2 ^ 32 - 1) 1 = Inl UndefinedBehaviour"
  using buf_field_wraps [of "\<lparr>bmem = [1, 2], blen = 1\<rparr>"] by (simp add: bcap_def)

text \<open>
  \<open>erase\<close> of a range inside the data removes exactly that range, keeps everything
  around it in order, and never touches memory outside the buffer; outside the data it throws.
\<close>

lemma buf_erase_data:
  assumes ok: "buf_ok b" and nowrap: "unat at + unat len < 2 ^ 32"
  shows "if unat at + unat len \<le> bsize b
    then \<exists>b'. buf_erase at len b = Inr b' \<and>
           bdata b' = take (unat at) (bdata b) @ drop (unat at + unat len) (bdata b)
    else buf_erase at len b = Inl OutOfBounds"
proof -
  have s: "unat (at + len) = unat at + unat len" using nowrap by (simp add: unat_word_ariths)
  have c: "blen b < at + len \<longleftrightarrow> bsize b < unat at + unat len"
    by (simp add: word_less_nat_alt s bsize_def)
  show ?thesis
  proof (cases "unat at + unat len \<le> bsize b")
    case False
    then show ?thesis using c by (simp add: buf_erase_def Let_def)
  next
    case True
    let ?n = "bsize b - (unat at + unat len)"
    let ?mv = "take ?n (drop (unat at + unat len) (bmem b))"
    have m: "bsize b \<le> length (bmem b)" using ok by (simp add: buf_ok_def bcap_def)
    then have bounds: "unat at + ?n \<le> bcap b" using True by (simp add: bcap_def)
    from m have mv: "length ?mv = ?n" using True by simp
    have "len \<le> blen b" using True by (simp add: word_le_nat_alt bsize_def)
    then have l': "unat (blen b - len) = unat at + length ?mv"
      using True mv by (simp add: unat_sub bsize_def)
    have "buf_erase at len b = Inr (b\<lparr>bmem := mem_write (bmem b) (unat at) ?mv, blen := blen b - len\<rparr>)"
      using True c bounds s by (simp add: buf_erase_def Let_def)
    moreover have "bdata (b\<lparr>bmem := mem_write (bmem b) (unat at) ?mv, blen := blen b - len\<rparr>)
        = take (unat at) (bmem b) @ ?mv"
      using l' m True take_mem_write [of "unat at" "bmem b" ?mv] by (simp add: bdata_def)
    ultimately show ?thesis
      using True m by (simp add: bdata_def drop_take min_def)
  qed
qed

lemma buf_erase_data_witness:
  "\<exists>b'. buf_erase 1 2 \<lparr>bmem = [1, 2, 3, 4, 5, 6], blen = 5\<rparr> = Inr b' \<and> bdata b' = [1, 4, 5]"
  using buf_erase_data [of "\<lparr>bmem = [1, 2, 3, 4, 5, 6], blen = 5\<rparr>" 1 2]
  by (simp add: buf_ok_def bsize_def bdata_def)

end
