(* ===== verification/ZT_Hashtable.thy ===== *)
theory ZT_Hashtable
  imports ZT_Prelude
begin

text \<open>
  \<^verbatim>\<open>node/Hashtable.hpp\<close>: the chained hash table. \<open>buckets\<close> is the array \<^verbatim>\<open>_t\<close> of
  bucket chains (\<^verbatim>\<open>_bc\<close> is its length), \<open>hcount\<close> is \<^verbatim>\<open>_s\<close>. The hash of a key type
  is the parameter \<open>hc\<close>; the overloads of \<^verbatim>\<open>_hc\<close> for integers are defined below. \<open>alloc n\<close>
  says whether \<^verbatim>\<open>malloc\<close> of an array of \<open>n\<close> buckets succeeds when the table grows.
  The theory states the interface as a locale of key-value stores and interprets it with the table.
\<close>

section \<open>The interface: a key-value store\<close>

text \<open>What the clients of the table rely on: lookups after updates, and an invariant.\<close>

datatype ('k, 'v) store_cmd = Put 'k 'v | Del 'k | Clear | Touch 'k

text \<open>Running commands on a store, and the same commands on a plain map.\<close>

fun store_run :: "('k \<Rightarrow> 'v \<Rightarrow> 's \<Rightarrow> 's) \<Rightarrow> ('k \<Rightarrow> 's \<Rightarrow> 's) \<Rightarrow> ('s \<Rightarrow> 's) \<Rightarrow> ('k \<Rightarrow> 's \<Rightarrow> 's) \<Rightarrow>
    ('k, 'v) store_cmd list \<Rightarrow> 's \<Rightarrow> 's" where
  "store_run put del wipe touch [] s = s"
| "store_run put del wipe touch (Put k v # cs) s = store_run put del wipe touch cs (put k v s)"
| "store_run put del wipe touch (Del k # cs) s = store_run put del wipe touch cs (del k s)"
| "store_run put del wipe touch (Clear # cs) s = store_run put del wipe touch cs (wipe s)"
| "store_run put del wipe touch (Touch k # cs) s = store_run put del wipe touch cs (touch k s)"

definition map_touch :: "'v \<Rightarrow> 'k \<Rightarrow> ('k \<rightharpoonup> 'v) \<Rightarrow> ('k \<rightharpoonup> 'v)" where
  "map_touch d k m = (case m k of None \<Rightarrow> m(k \<mapsto> d) | Some _ \<Rightarrow> m)"

definition map_run :: "'v \<Rightarrow> ('k, 'v) store_cmd list \<Rightarrow> ('k \<rightharpoonup> 'v) \<Rightarrow> ('k \<rightharpoonup> 'v)" where
  "map_run d = store_run (\<lambda>k v m. m(k \<mapsto> v)) (\<lambda>k m. m(k := None)) (\<lambda>_. Map.empty) (map_touch d)"

locale kv_store =
  fixes put :: "'k \<Rightarrow> 'v \<Rightarrow> 's \<Rightarrow> 's"
    and del :: "'k \<Rightarrow> 's \<Rightarrow> 's"
    and wipe :: "'s \<Rightarrow> 's"
    and touch :: "'k \<Rightarrow> 's \<Rightarrow> 's"
    and d :: "'v"
    and lookup :: "'s \<Rightarrow> 'k \<Rightarrow> 'v option"
    and inv :: "'s \<Rightarrow> bool"
  assumes put_lookup: "inv s \<Longrightarrow> lookup (put k v s) = (lookup s)(k \<mapsto> v)"
    and put_inv: "inv s \<Longrightarrow> inv (put k v s)"
    and del_lookup: "inv s \<Longrightarrow> lookup (del k s) = (lookup s)(k := None)"
    and del_inv: "inv s \<Longrightarrow> inv (del k s)"
    and wipe_lookup: "inv s \<Longrightarrow> lookup (wipe s) = Map.empty"
    and wipe_inv: "inv s \<Longrightarrow> inv (wipe s)"
    and touch_lookup: "inv s \<Longrightarrow> lookup (touch k s) = map_touch d k (lookup s)"
    and touch_inv: "inv s \<Longrightarrow> inv (touch k s)"
begin

lemma run_refines:
  "inv s \<Longrightarrow> lookup (store_run put del wipe touch cs s) = map_run d cs (lookup s)
    \<and> inv (store_run put del wipe touch cs s)"
proof (induction cs arbitrary: s)
  case Nil
  then show ?case by (simp add: map_run_def)
next
  case (Cons c cs)
  show ?case
  proof (cases c)
    case (Put k v)
    then show ?thesis
      using Cons.IH [OF put_inv [OF Cons.prems, of k v]] put_lookup [OF Cons.prems, of k v]
      by (simp add: map_run_def fun_upd_def)
  next
    case (Del k)
    then show ?thesis
      using Cons.IH [OF del_inv [OF Cons.prems, of k]] del_lookup [OF Cons.prems, of k]
      by (simp add: map_run_def fun_upd_def)
  next
    case Clear
    then show ?thesis
      using Cons.IH [OF wipe_inv [OF Cons.prems]] wipe_lookup [OF Cons.prems]
      by (simp add: map_run_def fun_upd_def)
  next
    case (Touch k)
    then show ?thesis
      using Cons.IH [OF touch_inv [OF Cons.prems, of k]] touch_lookup [OF Cons.prems, of k]
      by (simp add: map_run_def fun_upd_def)
  qed
qed

end

section \<open>The table and its operations\<close>

record ('k, 'v) htable =
  buckets :: "('k \<times> 'v) list list"
  hcount :: nat

definition hc_u64 :: "u64 \<Rightarrow> nat" where
  "hc_u64 i = unat (i XOR drop_bit 32 i)"

definition hc_u32 :: "u32 \<Rightarrow> nat" where
  "hc_u32 i = unat ((ucast i :: u64) * 0x9e3779b1)"

definition hc_u16 :: "u16 \<Rightarrow> nat" where
  "hc_u16 i = unat ((ucast i :: u64) * 0x9e3779b1)"

definition hc_int :: "32 word \<Rightarrow> nat" where
  "hc_int i = unat ((scast i :: u64) * 0x9e3379b1)"

definition ht_bc :: "('k, 'v) htable \<Rightarrow> nat" where
  "ht_bc t = length (buckets t)"

definition ht_new :: "nat \<Rightarrow> ('k, 'v) htable" where
  "ht_new bc = \<lparr>buckets = replicate bc [], hcount = 0\<rparr>"

text \<open>The copy constructor pushes every bucket on the front of the new chain.\<close>

definition ht_copy :: "('k, 'v) htable \<Rightarrow> ('k, 'v) htable" where
  "ht_copy t = \<lparr>buckets = map rev (buckets t), hcount = hcount t\<rparr>"

definition ht_clear :: "('k, 'v) htable \<Rightarrow> ('k, 'v) htable" where
  "ht_clear t = (if hcount t \<noteq> 0
     then t\<lparr>buckets := replicate (ht_bc t) [], hcount := 0\<rparr> else t)"

definition ht_keys :: "('k, 'v) htable \<Rightarrow> 'k list" where
  "ht_keys t = (if hcount t \<noteq> 0 then map fst (concat (buckets t)) else [])"

definition ht_appendKeys :: "'k list \<Rightarrow> ('k, 'v) htable \<Rightarrow> 'k list" where
  "ht_appendKeys v t = (if hcount t \<noteq> 0 then v @ map fst (concat (buckets t)) else v)"

definition ht_entries :: "('k, 'v) htable \<Rightarrow> ('k \<times> 'v) list" where
  "ht_entries t = (if hcount t \<noteq> 0 then concat (buckets t) else [])"

definition ht_bucket :: "('k \<Rightarrow> nat) \<Rightarrow> ('k, 'v) htable \<Rightarrow> 'k \<Rightarrow> ('k \<times> 'v) list" where
  "ht_bucket hc t k = buckets t ! (hc k mod ht_bc t)"

fun chain_find :: "('k \<times> 'v) list \<Rightarrow> 'k \<Rightarrow> 'v option" where
  "chain_find [] k = None"
| "chain_find ((k', v) # b) k = (if k' = k then Some v else chain_find b k)"

definition ht_get :: "('k \<Rightarrow> nat) \<Rightarrow> ('k, 'v) htable \<Rightarrow> 'k \<Rightarrow> 'v option" where
  "ht_get hc t k = chain_find (ht_bucket hc t k) k"

definition ht_contains :: "('k \<Rightarrow> nat) \<Rightarrow> ('k, 'v) htable \<Rightarrow> 'k \<Rightarrow> bool" where
  "ht_contains hc t k = (ht_get hc t k \<noteq> None)"

fun chain_erase :: "('k \<times> 'v) list \<Rightarrow> 'k \<Rightarrow> ('k \<times> 'v) list \<times> bool" where
  "chain_erase [] k = ([], False)"
| "chain_erase ((k', v) # b) k =
     (if k' = k then (b, True)
      else (case chain_erase b k of (b', r) \<Rightarrow> ((k', v) # b', r)))"

definition ht_erase :: "('k \<Rightarrow> nat) \<Rightarrow> 'k \<Rightarrow> ('k, 'v) htable \<Rightarrow> ('k, 'v) htable \<times> bool" where
  "ht_erase hc k t =
     (let bidx = hc k mod ht_bc t in
      case chain_erase (buckets t ! bidx) k of
        (b', True) \<Rightarrow> (t\<lparr>buckets := (buckets t)[bidx := b'], hcount := hcount t - 1\<rparr>, True)
      | (_, False) \<Rightarrow> (t, False))"

fun chain_set :: "('k \<times> 'v) list \<Rightarrow> 'k \<Rightarrow> 'v \<Rightarrow> ('k \<times> 'v) list" where
  "chain_set [] k v = []"
| "chain_set ((k', v') # b) k v = (if k' = k then (k', v) # b else (k', v') # chain_set b k v)"

text \<open>Rehashing moves every bucket to the front of its chain in the new array.\<close>

definition rehash_one :: "('k \<Rightarrow> nat) \<Rightarrow> ('k \<times> 'v) list list \<Rightarrow> 'k \<times> 'v \<Rightarrow> ('k \<times> 'v) list list" where
  "rehash_one hc nt b =
     (let nidx = hc (fst b) mod length nt in nt[nidx := b # nt ! nidx])"

definition ht_grow :: "(nat \<Rightarrow> bool) \<Rightarrow> ('k \<Rightarrow> nat) \<Rightarrow> ('k, 'v) htable \<Rightarrow> ('k, 'v) htable" where
  "ht_grow alloc hc t =
     (let nc = ht_bc t * 2 in
      if alloc nc
      then t\<lparr>buckets := foldl (rehash_one hc) (replicate nc []) (concat (buckets t))\<rparr>
      else t)"

definition ht_insert_new :: "(nat \<Rightarrow> bool) \<Rightarrow> ('k \<Rightarrow> nat) \<Rightarrow> 'k \<Rightarrow> 'v \<Rightarrow> ('k, 'v) htable \<Rightarrow> ('k, 'v) htable" where
  "ht_insert_new alloc hc k v t =
     (let t' = (if hcount t \<ge> ht_bc t then ht_grow alloc hc t else t);
          bidx = hc k mod ht_bc t'
      in t'\<lparr>buckets := (buckets t')[bidx := (k, v) # buckets t' ! bidx], hcount := hcount t' + 1\<rparr>)"

definition ht_set :: "(nat \<Rightarrow> bool) \<Rightarrow> ('k \<Rightarrow> nat) \<Rightarrow> 'k \<Rightarrow> 'v \<Rightarrow> ('k, 'v) htable \<Rightarrow> ('k, 'v) htable" where
  "ht_set alloc hc k v t =
     (let bidx = hc k mod ht_bc t; b = buckets t ! bidx in
      if chain_find b k \<noteq> None then t\<lparr>buckets := (buckets t)[bidx := chain_set b k v]\<rparr>
      else ht_insert_new alloc hc k v t)"

text \<open>\<open>operator[]\<close> inserts the value type's default \<open>d\<close> where the key is missing.\<close>

definition ht_index :: "(nat \<Rightarrow> bool) \<Rightarrow> ('k \<Rightarrow> nat) \<Rightarrow> 'v \<Rightarrow> 'k \<Rightarrow> ('k, 'v) htable \<Rightarrow> ('k, 'v) htable" where
  "ht_index alloc hc d k t =
     (if chain_find (ht_bucket hc t k) k \<noteq> None then t else ht_insert_new alloc hc k d t)"

definition ht_assign :: "(nat \<Rightarrow> bool) \<Rightarrow> ('k \<Rightarrow> nat) \<Rightarrow> ('k, 'v) htable \<Rightarrow> ('k, 'v) htable \<Rightarrow> ('k, 'v) htable" where
  "ht_assign alloc hc t src =
     (if hcount src \<noteq> 0
      then foldl (\<lambda>t (k, v). ht_set alloc hc k v t) (ht_clear t) (concat (buckets src))
      else ht_clear t)"

text \<open>
  The iterator holds the index of its chain and the rest of it. \<open>next\<close> skips empty chains;
  \<open>None\<close> is the code's \<^verbatim>\<open>false\<close>.
\<close>

record ('k, 'v) hiter =
  iidx :: nat
  irest :: "('k \<times> 'v) list"

definition iter_new :: "('k, 'v) htable \<Rightarrow> ('k, 'v) hiter" where
  "iter_new t = \<lparr>iidx = 0, irest = buckets t ! 0\<rparr>"

function iter_next :: "('k, 'v) htable \<Rightarrow> ('k, 'v) hiter \<Rightarrow> (('k \<times> 'v) \<times> ('k, 'v) hiter) option" where
  "iter_next t it =
     (case irest it of
        b # r \<Rightarrow> Some (b, it\<lparr>irest := r\<rparr>)
      | [] \<Rightarrow>
          (let i = iidx it + 1 in
           if i \<ge> ht_bc t then None
           else iter_next t \<lparr>iidx = i, irest = buckets t ! i\<rparr>))"
  by pat_completeness auto
termination
  by (relation "measure (\<lambda>(t, it). ht_bc t - iidx it)") auto

declare iter_next.simps [simp del]

section \<open>The invariant of the bucket array\<close>

text \<open>Every bucket sits in the chain its hash selects, and no chain holds a key twice.\<close>

definition chains_ok :: "('k \<Rightarrow> nat) \<Rightarrow> ('k \<times> 'v) list list \<Rightarrow> bool" where
  "chains_ok hc bs \<longleftrightarrow> bs \<noteq> [] \<and>
     (\<forall>i < length bs. distinct (map fst (bs ! i)) \<and>
        (\<forall>x \<in> set (bs ! i). hc (fst x) mod length bs = i))"

definition ht_ok :: "('k \<Rightarrow> nat) \<Rightarrow> ('k, 'v) htable \<Rightarrow> bool" where
  "ht_ok hc t \<longleftrightarrow> chains_ok hc (buckets t) \<and> hcount t = length (concat (buckets t))"

lemma chain_find_map_of: "chain_find b k = map_of b k"
  by (induction b) auto

lemma chain_erase_eq:
  "distinct (map fst b) \<Longrightarrow>
   chain_erase b k = (filter (\<lambda>x. fst x \<noteq> k) b, map_of b k \<noteq> None)"
proof (induction b)
  case (Cons x b)
  have "k \<notin> fst ` set b \<Longrightarrow> filter (\<lambda>x. fst x \<noteq> k) b = b"
    by (rule filter_True) force
  with Cons show ?case by (cases x) (force simp: map_of_eq_None_iff)
qed simp

lemma chain_set_eq:
  "map fst (chain_set b k v) = map fst b"
  "map_of b k \<noteq> None \<Longrightarrow> map_of (chain_set b k v) = (map_of b)(k \<mapsto> v)"
  "length (chain_set b k v) = length b"
  by (induction b) (auto simp: fun_eq_iff)

lemma chain_set_keys: "fst ` set (chain_set b k v) = fst ` set b"
  using chain_set_eq(1) [of b k v] by (metis set_map)

lemma concat_update:
  assumes "i < length xs"
  shows "concat (xs[i := b]) = concat (take i xs) @ b @ concat (drop (Suc i) xs)"
  using assms by (simp add: upd_conv_take_nth_drop)

lemma concat_split:
  assumes "i < length xs"
  shows "concat xs = concat (take i xs) @ xs ! i @ concat (drop (Suc i) xs)"
  using concat_update [OF assms, of "xs ! i"] by simp

lemma length_concat_update:
  assumes "i < length xs"
  shows "length (concat (xs[i := b])) + length (xs ! i) = length (concat xs) + length b"
  unfolding concat_update [OF assms] concat_split [OF assms] by simp

lemma chains_ok_update:
  "chains_ok hc bs \<Longrightarrow> i < length bs \<Longrightarrow> distinct (map fst b) \<Longrightarrow>
   (\<And>k. k \<in> fst ` set b \<Longrightarrow> hc k mod length bs = i) \<Longrightarrow> chains_ok hc (bs[i := b])"
  by (auto simp: chains_ok_def nth_list_update)

lemma chains_okD:
  "chains_ok hc bs \<Longrightarrow> hc k mod length bs < length bs"
  "chains_ok hc bs \<Longrightarrow> i < length bs \<Longrightarrow> distinct (map fst (bs ! i))"
  "chains_ok hc bs \<Longrightarrow> i < length bs \<Longrightarrow> k \<in> fst ` set (bs ! i) \<Longrightarrow> hc k mod length bs = i"
  by (auto simp: chains_ok_def)

definition chains_get :: "('k \<Rightarrow> nat) \<Rightarrow> ('k \<times> 'v) list list \<Rightarrow> 'k \<Rightarrow> 'v option" where
  "chains_get hc bs k = map_of (bs ! (hc k mod length bs)) k"

lemma ht_get_chains: "ht_get hc t = chains_get hc (buckets t)"
  by (simp add: fun_eq_iff ht_get_def ht_bucket_def chains_get_def chain_find_map_of ht_bc_def)

lemma concat_distinct_aux:
  assumes "\<And>i. i < length bs \<Longrightarrow>
      distinct (map fst (bs ! i)) \<and> (\<forall>x \<in> set (bs ! i). f (fst x) = off + i)"
  shows "distinct (map fst (concat bs)) \<and> (\<forall>x \<in> set (concat bs). off \<le> f (fst x))"
  using assms
proof (induction bs arbitrary: off)
  case Nil
  then show ?case by simp
next
  case (Cons b bs)
  have b: "distinct (map fst b)" "\<And>x. x \<in> set b \<Longrightarrow> f (fst x) = off"
    using Cons.prems [of 0] by auto
  have ih: "distinct (map fst (concat bs)) \<and> (\<forall>x \<in> set (concat bs). Suc off \<le> f (fst x))"
    by (rule Cons.IH) (use Cons.prems [of "Suc _"] in auto)
  have "fst ` set b \<inter> fst ` set (concat bs) = {}"
  proof (rule ccontr)
    assume "fst ` set b \<inter> fst ` set (concat bs) \<noteq> {}"
    then obtain k where "k \<in> fst ` set b" "k \<in> fst ` set (concat bs)" by blast
    then obtain x y where "x \<in> set b" "y \<in> set (concat bs)" "fst x = fst y" by force
    with b(2) [of x] ih show False by fastforce
  qed
  then have "distinct (map fst (concat (b # bs)))" using b(1) ih by simp
  moreover have "\<forall>x \<in> set (concat (b # bs)). off \<le> f (fst x)"
  proof -
    have "\<forall>x \<in> set (concat bs). off \<le> f (fst x)" using ih Suc_leD by blast
    then show ?thesis using b(2) by auto
  qed
  ultimately show ?case by simp
qed

lemma chains_ok_distinct:
  "chains_ok hc bs \<Longrightarrow> distinct (map fst (concat bs))"
  using concat_distinct_aux [of bs "\<lambda>k. hc k mod length bs" 0] by (auto simp: chains_ok_def)

lemma map_of_concat:
  assumes ok: "chains_ok hc bs"
  shows "map_of (concat bs) k = chains_get hc bs k"
proof -
  let ?i = "hc k mod length bs"
  have i: "?i < length bs" using ok by (rule chains_okD)
  have d: "distinct (map fst (concat bs))" using ok by (rule chains_ok_distinct)
  have "k \<in> fst ` set (concat bs) \<longleftrightarrow> k \<in> fst ` set (bs ! ?i)"
  proof
    assume "k \<in> fst ` set (concat bs)"
    then obtain b where "b \<in> set bs" "k \<in> fst ` set b" by auto
    then obtain j where j: "j < length bs" "k \<in> fst ` set (bs ! j)"
      by (auto simp: in_set_conv_nth [of b])
    with chains_okD(3) [OF ok j] show "k \<in> fst ` set (bs ! ?i)" by simp
  next
    assume "k \<in> fst ` set (bs ! ?i)"
    with i show "k \<in> fst ` set (concat bs)" by (force simp: set_concat)
  qed
  moreover have "\<And>v. map_of (bs ! ?i) k = Some v \<Longrightarrow> map_of (concat bs) k = Some v"
    using i d by (auto intro!: map_of_is_SomeI dest!: map_of_SomeD)
  ultimately show ?thesis unfolding chains_get_def
    by (cases "map_of (bs ! ?i) k") (metis map_of_eq_None_iff, metis)
qed

section \<open>Each operation keeps the invariant and implements its map operation\<close>

lemma ht_new_ok:
  assumes "0 < bc"
  shows "ht_ok hc (ht_new bc)" and "ht_get hc (ht_new bc) = Map.empty"
proof -
  have "concat (replicate bc []) = []" by (simp add: concat_eq_Nil_conv)
  then show "ht_ok hc (ht_new bc)" using assms by (simp add: ht_ok_def ht_new_def chains_ok_def)
  show "ht_get hc (ht_new bc) = Map.empty"
    using assms by (simp add: fun_eq_iff ht_get_chains ht_new_def chains_get_def)
qed

lemma chains_get_update:
  assumes "chains_ok hc bs" and "i < length bs"
    and "\<And>k'. k' \<in> fst ` set b \<Longrightarrow> hc k' mod length bs = i"
    and "map_of b = (map_of (bs ! i))(k := r)" and "hc k mod length bs = i"
  shows "chains_get hc (bs[i := b]) = (chains_get hc bs)(k := r)"
proof
  fix k'
  show "chains_get hc (bs[i := b]) k' = ((chains_get hc bs)(k := r)) k'"
    using assms by (cases "hc k' mod length bs = i") (auto simp: chains_get_def)
qed

lemma map_of_filter_fst: "map_of (filter (\<lambda>x. fst x \<noteq> k) b) = (map_of b)(k := None)"
  by (induction b) (auto simp: fun_eq_iff)

lemma ht_clear_ok:
  assumes "ht_ok hc t"
  shows "ht_ok hc (ht_clear t)" and "ht_get hc (ht_clear t) = Map.empty"
proof -
  have bc: "0 < ht_bc t" using assms by (simp add: ht_ok_def chains_ok_def ht_bc_def)
  have eq: "hcount t \<noteq> 0 \<Longrightarrow> ht_clear t = ht_new (ht_bc t)"
    by (cases t) (simp add: ht_clear_def ht_new_def)
  have keep: "hcount t = 0 \<Longrightarrow> ht_clear t = t" by (simp add: ht_clear_def)
  show "ht_ok hc (ht_clear t)" using assms ht_new_ok(1) [OF bc] eq keep by (cases "hcount t = 0") auto
  show "ht_get hc (ht_clear t) = Map.empty"
  proof (cases "hcount t = 0")
    case True
    then have "concat (buckets t) = []" using assms by (simp add: ht_ok_def)
    then have "\<And>k. chains_get hc (buckets t) k = None"
      using assms map_of_concat [of hc "buckets t"] by (metis ht_ok_def map_of.simps(1))
    then show ?thesis using keep True by (simp add: ht_get_chains fun_eq_iff)
  next
    case False
    then show ?thesis using eq ht_new_ok(2) [OF bc] by simp
  qed
qed

lemma filter_absent_key: "k \<notin> fst ` set b \<Longrightarrow> filter (\<lambda>x. fst x \<noteq> k) b = b"
  by (rule filter_True) force

lemma length_filter_key:
  "distinct (map fst b) \<Longrightarrow> map_of b k \<noteq> None \<Longrightarrow>
   length b = Suc (length (filter (\<lambda>x. fst x \<noteq> k) b))"
proof (induction b)
  case (Cons x b)
  then show ?case using filter_absent_key [of k b] by (cases "fst x = k") auto
qed simp

lemma ht_erase_ok:
  assumes ok: "ht_ok hc t"
  shows "ht_ok hc (fst (ht_erase hc k t))"
    and "ht_get hc (fst (ht_erase hc k t)) = (ht_get hc t)(k := None)"
    and "snd (ht_erase hc k t) \<longleftrightarrow> ht_get hc t k \<noteq> None"
proof -
  let ?bs = "buckets t"
  let ?i = "hc k mod length ?bs"
  let ?b = "filter (\<lambda>x. fst x \<noteq> k) (?bs ! ?i)"
  have co: "chains_ok hc ?bs" and cnt: "hcount t = length (concat ?bs)"
    using ok by (simp_all add: ht_ok_def)
  have i: "?i < length ?bs" using co by (rule chains_okD)
  have d: "distinct (map fst (?bs ! ?i))" using co i by (rule chains_okD)
  have er: "chain_erase (?bs ! ?i) k = (?b, chains_get hc ?bs k \<noteq> None)"
    using chain_erase_eq [OF d] by (simp add: chains_get_def)
  have b: "hc k' mod length ?bs = ?i" if "k' \<in> fst ` set ?b" for k'
    by (rule chains_okD(3) [OF co i]) (use that in auto)
  have db: "distinct (map fst ?b)" using d by (simp add: distinct_map_filter)
  have ok': "chains_ok hc (?bs[?i := ?b])" by (rule chains_ok_update [OF co i db b])
  have get': "chains_get hc (?bs[?i := ?b]) = (chains_get hc ?bs)(k := None)"
    by (rule chains_get_update [OF co i b]) (simp_all add: map_of_filter_fst)
  have miss: "chains_get hc ?bs k = None \<Longrightarrow> (chains_get hc ?bs)(k := None) = chains_get hc ?bs"
    by (simp add: fun_eq_iff)
  have len: "chains_get hc ?bs k \<noteq> None \<Longrightarrow> length (concat (?bs[?i := ?b])) = hcount t - 1"
  proof -
    assume "chains_get hc ?bs k \<noteq> None"
    then have "length (?bs ! ?i) = Suc (length ?b)"
      unfolding chains_get_def by (rule length_filter_key [OF d])
    then show ?thesis using length_concat_update [OF i, of ?b] cnt by linarith
  qed
  have eq: "ht_erase hc k t = (if chains_get hc ?bs k \<noteq> None
      then (t\<lparr>buckets := ?bs[?i := ?b], hcount := hcount t - 1\<rparr>, True) else (t, False))"
    unfolding ht_erase_def Let_def ht_bc_def er by (simp split: bool.split)
  show "ht_ok hc (fst (ht_erase hc k t))"
    using ok ok' len by (simp only: eq ht_ok_def) (simp split: if_split)
  show "ht_get hc (fst (ht_erase hc k t)) = (ht_get hc t)(k := None)"
    using get' miss by (simp only: eq ht_get_chains) (simp add: ht_get_chains)
  show "snd (ht_erase hc k t) \<longleftrightarrow> ht_get hc t k \<noteq> None"
    by (simp only: eq ht_get_chains) simp
qed

lemma chain_set_chains:
  fixes v :: 'v
  assumes co: "chains_ok hc bs" and i: "hc k mod length bs < length bs"
    and hit: "chains_get hc bs k \<noteq> None"
  defines "b \<equiv> chain_set (bs ! (hc k mod length bs)) k v"
  shows "chains_ok hc (bs[hc k mod length bs := b])"
    and "chains_get hc (bs[hc k mod length bs := b]) = (chains_get hc bs)(k \<mapsto> v)"
    and "length (concat (bs[hc k mod length bs := b])) = length (concat bs)"
proof -
  have b: "hc k' mod length bs = hc k mod length bs" if "k' \<in> fst ` set b" for k'
    by (rule chains_okD(3) [OF co i]) (use that in \<open>simp add: b_def chain_set_keys\<close>)
  have db: "distinct (map fst b)"
    using chains_okD(2) [OF co i] by (simp add: b_def chain_set_eq)
  show "chains_ok hc (bs[hc k mod length bs := b])" by (rule chains_ok_update [OF co i db b])
  have m: "map_of b = (map_of (bs ! (hc k mod length bs)))(k := Some v)"
    using hit unfolding b_def chains_get_def by (rule chain_set_eq(2))
  show "chains_get hc (bs[hc k mod length bs := b]) = (chains_get hc bs)(k \<mapsto> v)"
    by (rule chains_get_update [OF co i b m refl])
  have "length b = length (bs ! (hc k mod length bs))" by (simp only: b_def chain_set_eq(3))
  then show "length (concat (bs[hc k mod length bs := b])) = length (concat bs)"
    using length_concat_update [OF i, of b] by linarith
qed

text \<open>Prepending a new key to its chain.\<close>

lemma chain_cons_chains:
  assumes co: "chains_ok hc bs" and miss: "chains_get hc bs k = None"
  defines "i \<equiv> hc k mod length bs"
  shows "chains_ok hc (bs[i := (k, v) # bs ! i])"
    and "chains_get hc (bs[i := (k, v) # bs ! i]) = (chains_get hc bs)(k \<mapsto> v)"
    and "length (concat (bs[i := (k, v) # bs ! i])) = Suc (length (concat bs))"
proof -
  have i: "i < length bs" unfolding i_def by (rule chains_okD(1) [OF co])
  have b: "hc k' mod length bs = i" if "k' \<in> fst ` set ((k, v) # bs ! i)" for k'
  proof (cases "k' = k")
    case True
    then show ?thesis by (simp add: i_def)
  next
    case False
    with that have "k' \<in> fst ` set (bs ! i)" by auto
    then show ?thesis by (rule chains_okD(3) [OF co i])
  qed
  have db: "distinct (map fst ((k, v) # bs ! i))"
    using chains_okD(2) [OF co i] miss by (simp add: chains_get_def i_def [symmetric] map_of_eq_None_iff)
  show "chains_ok hc (bs[i := (k, v) # bs ! i])" by (rule chains_ok_update [OF co i db b])
  show "chains_get hc (bs[i := (k, v) # bs ! i]) = (chains_get hc bs)(k \<mapsto> v)"
    by (rule chains_get_update [OF co i b]) (simp_all add: i_def)
  have "length ((k, v) # bs ! i) = Suc (length (bs ! i))" by simp
  then show "length (concat (bs[i := (k, v) # bs ! i])) = Suc (length (concat bs))"
    using length_concat_update [OF i, of "(k, v) # bs ! i"] by linarith
qed

lemma rehash_ok:
  assumes "chains_ok hc nt" and "distinct (map fst es)"
    and "\<And>k. k \<in> fst ` set es \<Longrightarrow> chains_get hc nt k = None"
  shows "chains_ok hc (foldl (rehash_one hc) nt es) \<and>
    chains_get hc (foldl (rehash_one hc) nt es) = chains_get hc nt ++ map_of es \<and>
    length (concat (foldl (rehash_one hc) nt es)) = length (concat nt) + length es"
  using assms
proof (induction es arbitrary: nt)
  case Nil
  then show ?case by simp
next
  case (Cons x es)
  obtain k v where x: "x = (k, v)" by (cases x)
  have miss: "chains_get hc nt k = None" using Cons.prems(3) x by simp
  have r: "rehash_one hc nt x = nt[hc k mod length nt := (k, v) # nt ! (hc k mod length nt)]"
    by (simp add: rehash_one_def x Let_def)
  note c = chain_cons_chains [OF Cons.prems(1) miss, of v, folded r]
  have kes: "k \<notin> fst ` set es" and des: "distinct (map fst es)" using Cons.prems(2) x by auto
  have "chains_get hc (rehash_one hc nt x) k' = None" if "k' \<in> fst ` set es" for k'
    using that kes Cons.prems(3) [of k'] by (auto simp: c(2))
  note ih = Cons.IH [OF c(1) des this]
  have "chains_get hc nt ++ map_of (x # es) = (chains_get hc nt)(k \<mapsto> v) ++ map_of es"
  proof -
    have "map_of es k = None" using kes by (simp add: map_of_eq_None_iff)
    then show ?thesis by (auto simp: x fun_eq_iff map_add_def split: option.split)
  qed
  then have g: "chains_get hc nt ++ map_of (x # es) = chains_get hc (rehash_one hc nt x) ++ map_of es"
    by (simp only: c(2))
  show ?case unfolding foldl_Cons g using ih c(3) by simp
qed

lemma ht_grow_ok:
  assumes ok: "ht_ok hc t"
  shows "ht_ok hc (ht_grow alloc hc t)" and "ht_get hc (ht_grow alloc hc t) = ht_get hc t"
proof -
  let ?n = "replicate (ht_bc t * 2) []" and ?es = "concat (buckets t)"
  have co: "chains_ok hc (buckets t)" using ok by (simp add: ht_ok_def)
  have bc: "0 < ht_bc t * 2" using co by (simp add: chains_ok_def ht_bc_def)
  have n: "chains_ok hc ?n" and ng: "chains_get hc ?n = Map.empty"
    using ht_new_ok [OF bc, of hc] by (simp_all add: ht_ok_def ht_new_def ht_get_chains)
  have "concat ?n = []" by (simp add: concat_eq_Nil_conv)
  note r = rehash_ok [OF n chains_ok_distinct [OF co], unfolded ng this, simplified]
  have "map_of ?es = chains_get hc (buckets t)"
    using map_of_concat [OF co] by (simp add: fun_eq_iff)
  with r ok show "ht_ok hc (ht_grow alloc hc t)" and "ht_get hc (ht_grow alloc hc t) = ht_get hc t"
    by (simp_all add: ht_grow_def Let_def ht_ok_def ht_get_chains)
qed

lemma ht_insert_new_ok:
  assumes ok: "ht_ok hc t" and miss: "ht_get hc t k = None"
  shows "ht_ok hc (ht_insert_new alloc hc k v t)"
    and "ht_get hc (ht_insert_new alloc hc k v t) = (ht_get hc t)(k \<mapsto> v)"
proof -
  define t' where "t' = (if hcount t \<ge> ht_bc t then ht_grow alloc hc t else t)"
  have t': "ht_ok hc t'" "ht_get hc t' = ht_get hc t"
    using ok ht_grow_ok [OF ok] by (simp_all add: t'_def)
  have co: "chains_ok hc (buckets t')" and cnt: "hcount t' = length (concat (buckets t'))"
    using t'(1) by (simp_all add: ht_ok_def)
  have "chains_get hc (buckets t') k = None" using t'(2) miss by (simp add: ht_get_chains)
  note c = chain_cons_chains [OF co this, of v]
  have eq: "ht_insert_new alloc hc k v t = t'\<lparr>buckets := (buckets t')
      [hc k mod length (buckets t') := (k, v) # buckets t' ! (hc k mod length (buckets t'))],
      hcount := Suc (hcount t')\<rparr>"
    unfolding ht_insert_new_def t'_def [symmetric] by (simp add: Let_def ht_bc_def)
  show "ht_ok hc (ht_insert_new alloc hc k v t)"
    using c(1,3) cnt by (simp only: eq ht_ok_def) simp
  show "ht_get hc (ht_insert_new alloc hc k v t) = (ht_get hc t)(k \<mapsto> v)"
    using c(2) t'(2) by (simp only: eq ht_get_chains) (simp add: ht_get_chains)
qed

lemma ht_set_ok:
  assumes ok: "ht_ok hc t"
  shows "ht_ok hc (ht_set alloc hc k v t)"
    and "ht_get hc (ht_set alloc hc k v t) = (ht_get hc t)(k \<mapsto> v)"
proof -
  let ?bs = "buckets t"
  have co: "chains_ok hc ?bs" and cnt: "hcount t = length (concat ?bs)"
    using ok by (simp_all add: ht_ok_def)
  have i: "hc k mod length ?bs < length ?bs" using co by (rule chains_okD)
  have "ht_ok hc (ht_set alloc hc k v t) \<and> ht_get hc (ht_set alloc hc k v t) = (ht_get hc t)(k \<mapsto> v)"
  proof (cases "chains_get hc ?bs k")
    case None
    then have eq: "ht_set alloc hc k v t = ht_insert_new alloc hc k v t"
      by (simp add: ht_set_def Let_def chain_find_map_of chains_get_def ht_bc_def)
    show ?thesis unfolding eq
      using ht_insert_new_ok [OF ok, of k alloc v] None by (simp add: ht_get_chains)
  next
    case (Some w)
    then have eq: "ht_set alloc hc k v t = t\<lparr>buckets := ?bs[hc k mod length ?bs :=
        chain_set (?bs ! (hc k mod length ?bs)) k v]\<rparr>"
      by (simp add: ht_set_def Let_def chain_find_map_of chains_get_def ht_bc_def)
    have "chains_get hc ?bs k \<noteq> None" using Some by simp
    note c = chain_set_chains [OF co i this, of v]
    have "hcount (ht_set alloc hc k v t) = hcount t" by (simp add: eq)
    then have "ht_ok hc (ht_set alloc hc k v t)"
      using c(1,3) cnt by (simp only: ht_ok_def) (simp add: eq)
    moreover have "ht_get hc (ht_set alloc hc k v t) = (ht_get hc t)(k \<mapsto> v)"
      using c(2) by (simp add: eq ht_get_chains)
    ultimately show ?thesis by simp
  qed
  then show "ht_ok hc (ht_set alloc hc k v t)"
    and "ht_get hc (ht_set alloc hc k v t) = (ht_get hc t)(k \<mapsto> v)" by simp_all
qed

lemma ht_index_ok:
  assumes ok: "ht_ok hc t"
  shows "ht_ok hc (ht_index alloc hc d k t)"
    and "ht_get hc (ht_index alloc hc d k t) = map_touch d k (ht_get hc t)"
proof -
  have f: "chain_find (ht_bucket hc t k) k = ht_get hc t k" by (simp add: ht_get_def)
  show "ht_ok hc (ht_index alloc hc d k t)"
    using ok ht_insert_new_ok(1) [OF ok] by (simp add: ht_index_def f)
  show "ht_get hc (ht_index alloc hc d k t) = map_touch d k (ht_get hc t)"
    using ht_insert_new_ok(2) [OF ok, of k alloc d]
    by (cases "ht_get hc t k") (simp_all add: ht_index_def f map_touch_def)
qed

section \<open>The table provides the key-value store\<close>

interpretation ht: kv_store
  "ht_set alloc hc" "\<lambda>k t. fst (ht_erase hc k t)" ht_clear "ht_index alloc hc d"
  d "ht_get hc" "ht_ok hc"
  for alloc :: "nat \<Rightarrow> bool" and hc :: "'k \<Rightarrow> nat" and d :: 'v
  by unfold_locales
    (simp_all add: ht_set_ok ht_erase_ok ht_clear_ok ht_index_ok)

text \<open>
  Claim C23: running any sequence of sets, erases, clears and index accesses on the table, from an
  empty one with a nonzero number of buckets, leaves it representing exactly the map that
  the same commands leave, whether or not the allocations of growing succeed.
\<close>

theorem ht_run_refines_map:
  assumes "0 < bc"
  shows "ht_get hc (store_run (ht_set alloc hc) (\<lambda>k t. fst (ht_erase hc k t)) ht_clear
      (ht_index alloc hc d) cs (ht_new bc)) = map_run d cs Map.empty"
proof -
  have "ht_ok hc (ht_new bc)" using assms by (rule ht_new_ok)
  from ht.run_refines [OF this, of alloc d cs] show ?thesis
    by (simp only: ht_new_ok(2) [OF assms])
qed

theorem ht_run_refines_map_witness:
  "ht_get hc_u64 (store_run (ht_set (\<lambda>_. True) hc_u64) (\<lambda>k t. fst (ht_erase hc_u64 k t)) ht_clear
      (ht_index (\<lambda>_. True) hc_u64 0) [Put 1 (10 :: nat), Put 2 20, Put 3 30, Del 2, Touch 7] (ht_new 2)) 3
    = Some 30"
  by (subst ht_run_refines_map) (simp_all add: map_run_def map_touch_def)

section \<open>Enumerating the table\<close>

lemma ht_entries_concat: "ht_ok hc t \<Longrightarrow> ht_entries t = concat (buckets t)"
  by (auto simp: ht_entries_def ht_ok_def)

text \<open>
  \<open>entries\<close> and \<open>keys\<close> list every key of the table exactly once, with the value a
  lookup of that key returns, and \<open>size\<close> is their number.
\<close>

lemma ht_entries_exact:
  assumes ok: "ht_ok hc t"
  shows "distinct (ht_keys t) \<and> ht_keys t = map fst (ht_entries t) \<and>
    hcount t = length (ht_entries t) \<and> map_of (ht_entries t) = ht_get hc t"
proof -
  have co: "chains_ok hc (buckets t)" and cnt: "hcount t = length (concat (buckets t))"
    using ok by (simp_all add: ht_ok_def)
  have k: "ht_keys t = map fst (concat (buckets t))"
    using cnt by (auto simp: ht_keys_def)
  have "map_of (concat (buckets t)) = ht_get hc t"
    by (rule ext) (simp only: map_of_concat [OF co] ht_get_chains)
  then show ?thesis
    using chains_ok_distinct [OF co] cnt by (simp only: ht_entries_concat [OF ok] k)
qed

lemma ht_entries_exact_witness:
  "map_of (ht_entries (ht_set (\<lambda>_. True) hc_u64 5 (1 :: nat) (ht_new 2))) 5 = Some 1"
proof -
  have ok: "ht_ok hc_u64 (ht_set (\<lambda>_. True) hc_u64 5 (1 :: nat) (ht_new 2))"
    by (rule ht_set_ok) (rule ht_new_ok, simp)
  show ?thesis using ht_entries_exact [OF ok] by (simp add: ht_set_ok ht_new_ok)
qed

text \<open>Draining an iterator: at most \<open>n\<close> calls of \<open>next\<close>, and whether it reached the end.\<close>

fun iter_drain :: "nat \<Rightarrow> ('k, 'v) htable \<Rightarrow> ('k, 'v) hiter \<Rightarrow> ('k \<times> 'v) list \<times> bool" where
  "iter_drain 0 t it = ([], False)"
| "iter_drain (Suc n) t it =
     (case iter_next t it of
        None \<Rightarrow> ([], True)
      | Some (b, it') \<Rightarrow> (case iter_drain n t it' of (bs, e) \<Rightarrow> (b # bs, e)))"

definition iter_left :: "('k, 'v) htable \<Rightarrow> ('k, 'v) hiter \<Rightarrow> ('k \<times> 'v) list" where
  "iter_left t it = irest it @ concat (drop (Suc (iidx it)) (buckets t))"

lemma iter_next_left:
  "iidx it < ht_bc t \<Longrightarrow>
   (case iter_left t it of [] \<Rightarrow> iter_next t it = None
    | b # bs \<Rightarrow> \<exists>it'. iter_next t it = Some (b, it') \<and> iter_left t it' = bs \<and> iidx it' < ht_bc t)"
proof (induction t it rule: iter_next.induct)
  case (1 t it)
  show ?case
  proof (cases "irest it")
    case (Cons b r)
    then show ?thesis using "1.prems" by (simp add: iter_left_def iter_next.simps [of t it])
  next
    case Nil
    show ?thesis
    proof (cases "iidx it + 1 \<ge> ht_bc t")
      case True
      then have "drop (Suc (iidx it)) (buckets t) = []" by (simp add: ht_bc_def)
      then show ?thesis using Nil True by (simp add: iter_left_def iter_next.simps [of t it])
    next
      case False
      let ?it = "\<lparr>iidx = iidx it + 1, irest = buckets t ! (iidx it + 1)\<rparr>"
      have "drop (Suc (iidx it)) (buckets t) =
          buckets t ! (iidx it + 1) # drop (Suc (Suc (iidx it))) (buckets t)"
        using False by (simp add: ht_bc_def Cons_nth_drop_Suc)
      then have l: "iter_left t it = iter_left t ?it" using Nil by (simp add: iter_left_def)
      have n: "iter_next t it = iter_next t ?it"
        using Nil False by (simp add: iter_next.simps [of t it] Let_def)
      show ?thesis unfolding l n
        by (rule "1.IH" [OF Nil refl False]) (use False in simp)
    qed
  qed
qed

lemma iter_drain_left:
  "iidx it < ht_bc t \<Longrightarrow> length (iter_left t it) < n \<Longrightarrow> iter_drain n t it = (iter_left t it, True)"
proof (induction n arbitrary: it)
  case 0
  then show ?case by simp
next
  case (Suc n)
  note nx = iter_next_left [OF Suc.prems(1)]
  show ?case
  proof (cases "iter_left t it")
    case Nil
    with nx show ?thesis by simp
  next
    case (Cons b bs)
    with nx obtain it' where "iter_next t it = Some (b, it')" "iter_left t it' = bs" "iidx it' < ht_bc t"
      by auto
    with Suc Cons show ?thesis by simp
  qed
qed

text \<open>
  An iterator started on the table returns every entry of \<open>entries\<close> once, in the same
  order, and then reports the end; it never stops early and never loops.
\<close>

lemma iter_drain_entries:
  assumes ok: "ht_ok hc t" and n: "hcount t < n"
  shows "iter_drain n t (iter_new t) = (ht_entries t, True)"
proof -
  have bs: "buckets t \<noteq> []" using ok by (simp add: ht_ok_def chains_ok_def)
  then have bc: "iidx (iter_new t) < ht_bc t" by (simp add: iter_new_def ht_bc_def)
  have l: "iter_left t (iter_new t) = concat (buckets t)"
    using bs by (cases "buckets t") (simp_all add: iter_left_def iter_new_def)
  have "length (concat (buckets t)) < n" using ok n by (simp add: ht_ok_def)
  then show ?thesis
    using iter_drain_left [OF bc, of n] by (simp only: l ht_entries_concat [OF ok])
qed

lemma iter_drain_entries_witness:
  "iter_drain 3 (ht_set (\<lambda>_. True) hc_u64 5 (7 :: nat) (ht_new 2))
     (iter_new (ht_set (\<lambda>_. True) hc_u64 5 7 (ht_new 2))) = ([(5, 7)], True)"
proof -
  let ?t = "ht_set (\<lambda>_. True) hc_u64 5 (7 :: nat) (ht_new 2)"
  have ok: "ht_ok hc_u64 ?t" by (rule ht_set_ok) (rule ht_new_ok, simp)
  have e: "?t = \<lparr>buckets = [[], [(5, 7)]], hcount = 1\<rparr>"
    by code_simp
  have "hcount ?t < 3" by (simp add: e)
  from iter_drain_entries [OF ok this] show ?thesis by (simp add: e ht_entries_def)
qed

end
