(* ===== verification/ZT_RingBuffer.thy ===== *)
theory ZT_RingBuffer
  imports ZT_Prelude
begin

text \<open>
  \<^verbatim>\<open>node/RingBuffer.hpp\<close>: the circular buffer of the multipath code. The array \<^verbatim>\<open>buf[S]\<close>
  is \<open>rbuf\<close>, the capacity \<^verbatim>\<open>S\<close> its length. The floating point statistics (\<^verbatim>\<open>mean\<close>, \<^verbatim>\<open>sum\<close>,
  \<^verbatim>\<open>stddev\<close>, \<^verbatim>\<open>variance\<close>) are not modelled. The interface is a bounded queue, stated as a locale.
\<close>

section \<open>The interface: a bounded queue that drops its oldest elements\<close>

locale bounded_queue =
  fixes push :: "'a \<Rightarrow> 'q \<Rightarrow> 'q"
    and items :: "'q \<Rightarrow> 'a list"
    and cap :: "'q \<Rightarrow> nat"
    and ok :: "'q \<Rightarrow> bool"
  assumes cap_pos: "ok q \<Longrightarrow> 0 < cap q"
    and items_cap: "ok q \<Longrightarrow> length (items q) \<le> cap q"
    and push_ok: "ok q \<Longrightarrow> ok (push x q)"
    and push_cap: "ok q \<Longrightarrow> cap (push x q) = cap q"
    and push_items: "ok q \<Longrightarrow> items (push x q) =
      (if length (items q) = cap q then tl (items q) else items q) @ [x]"
begin

lemma push_all:
  "ok q \<Longrightarrow> ok (fold push xs q) \<and> cap (fold push xs q) = cap q \<and>
   items (fold push xs q) = drop (length (items q) + length xs - cap q) (items q @ xs)"
proof (induction xs arbitrary: q)
  case Nil
  then show ?case using items_cap [OF Nil] by simp
next
  case (Cons x xs)
  have q: "ok (push x q)" "cap (push x q) = cap q" using Cons.prems by (simp_all add: push_ok push_cap)
  have c: "0 < cap q" "length (items q) \<le> cap q" using Cons.prems by (simp_all add: cap_pos items_cap)
  have "drop (length (items (push x q)) + length xs - cap q) (items (push x q) @ xs)
      = drop (length (items q) + length (x # xs) - cap q) (items q @ x # xs)"
  proof (cases "length (items q) = cap q")
    case True
    then obtain a as where "items q = a # as" using c by (cases "items q") auto
    with True push_items [OF Cons.prems, of x] show ?thesis by (simp del: drop_append)
  next
    case False
    with push_items [OF Cons.prems, of x] show ?thesis by (simp del: drop_append)
  qed
  with Cons.IH [OF q(1)] q show ?case by simp
qed

end

section \<open>The buffer\<close>

record 'a ring =
  rbuf :: "'a list"
  rbegin :: nat
  rend :: nat
  rwrap :: bool

definition rcap :: "'a ring \<Rightarrow> nat" where
  "rcap r = length (rbuf r)"

definition ring_new :: "nat \<Rightarrow> 'a::zero ring" where
  "ring_new S = \<lparr>rbuf = replicate S 0, rbegin = 0, rend = 0, rwrap = False\<rparr>"

definition ring_count :: "'a ring \<Rightarrow> nat" where
  "ring_count r =
     (if rend r = rbegin r then (if rwrap r then rcap r else 0)
      else if rend r > rbegin r then rend r - rbegin r
      else rcap r + rend r - rbegin r)"

definition ring_getFree :: "'a ring \<Rightarrow> nat" where
  "ring_getFree r = rcap r - ring_count r"

definition ring_produce :: "nat \<Rightarrow> 'a ring \<Rightarrow> nat \<times> 'a ring" where
  "ring_produce n0 r =
     (let n = min n0 (ring_getFree r) in
      if n = 0 then (n, r)
      else
        let first_chunk = min n (rcap r - rend r);
            e1 = (rend r + first_chunk) mod rcap r;
            e2 = (if first_chunk < n then (e1 + (n - first_chunk)) mod rcap r else e1)
        in (n, r\<lparr>rend := e2, rwrap := (if rbegin r = e2 then True else rwrap r)\<rparr>))"

definition ring_consume :: "nat \<Rightarrow> 'a ring \<Rightarrow> nat \<times> 'a ring" where
  "ring_consume n0 r =
     (let n = min n0 (ring_count r) in
      if n = 0 then (n, r)
      else
        let first_chunk = min n (rcap r - rbegin r);
            b1 = (rbegin r + first_chunk) mod rcap r;
            b2 = (if first_chunk < n then (b1 + (n - first_chunk)) mod rcap r else b1)
        in (n, r\<lparr>rbegin := b2, rwrap := False\<rparr>))"

definition ring_reset :: "'a ring \<Rightarrow> 'a ring" where
  "ring_reset r = snd (ring_consume (ring_count r) r)"

definition ring_write :: "'a list \<Rightarrow> nat \<Rightarrow> 'a ring \<Rightarrow> nat \<times> 'a ring" where
  "ring_write data n0 r =
     (let n = min n0 (ring_getFree r) in
      if n = 0 then (n, r)
      else
        let first_chunk = min n (rcap r - rend r);
            m1 = mem_write (rbuf r) (rend r) (take first_chunk data);
            e1 = (rend r + first_chunk) mod rcap r;
            second_chunk = n - first_chunk;
            m2 = (if first_chunk < n
                  then mem_write m1 e1 (take second_chunk (drop first_chunk data)) else m1);
            e2 = (if first_chunk < n then (e1 + second_chunk) mod rcap r else e1)
        in (n, r\<lparr>rbuf := m2, rend := e2, rwrap := (if rbegin r = e2 then True else rwrap r)\<rparr>))"

definition ring_push :: "'a \<Rightarrow> 'a ring \<Rightarrow> 'a ring" where
  "ring_push v r0 =
     (let r = (if ring_count r0 = rcap r0 then snd (ring_consume 1 r0) else r0);
          first_chunk = min 1 (rcap r - rend r);
          e = (rend r + first_chunk) mod rcap r
      in r\<lparr>rbuf := (rbuf r)[rend r := v], rend := e,
           rwrap := (if rbegin r = e then True else rwrap r)\<rparr>)"

definition ring_get_most_recent :: "'a ring \<Rightarrow> 'a" where
  "ring_get_most_recent r = rbuf r ! rend r"

definition ring_read :: "nat \<Rightarrow> 'a ring \<Rightarrow> 'a list \<times> nat \<times> 'a ring" where
  "ring_read n0 r =
     (let n = min n0 (ring_count r) in
      if n = 0 then ([], n, r)
      else
        let first_chunk = min n (rcap r - rbegin r);
            d1 = take first_chunk (drop (rbegin r) (rbuf r));
            b1 = (rbegin r + first_chunk) mod rcap r;
            second_chunk = n - first_chunk;
            d2 = (if first_chunk < n then take second_chunk (drop b1 (rbuf r)) else []);
            b2 = (if first_chunk < n then (b1 + second_chunk) mod rcap r else b1)
        in (d1 @ d2, n, r\<lparr>rbegin := b2, rwrap := False\<rparr>))"

text \<open>
  The counting loops step \<^verbatim>\<open>iterator = (iterator + S - 1) % curr_cnt\<close>, from \<^verbatim>\<open>begin\<close>.
\<close>

fun ring_count_loop :: "('a \<Rightarrow> bool) \<Rightarrow> 'a ring \<Rightarrow> nat \<Rightarrow> nat \<Rightarrow> nat \<Rightarrow> nat \<Rightarrow> nat" where
  "ring_count_loop P r curr_cnt 0 iterator acc = acc"
| "ring_count_loop P r curr_cnt (Suc i) iterator acc =
     (let it = (iterator + rcap r - 1) mod curr_cnt in
      ring_count_loop P r curr_cnt i it (if P (rbuf r ! it) then acc + 1 else acc))"

definition ring_countValue :: "'a \<Rightarrow> 'a ring \<Rightarrow> nat" where
  "ring_countValue v r = ring_count_loop (\<lambda>x. x = v) r (ring_count r) (ring_count r) (rbegin r) 0"

definition ring_zeroCount :: "'a::zero ring \<Rightarrow> nat" where
  "ring_zeroCount r = ring_count_loop (\<lambda>x. x = 0) r (ring_count r) (ring_count r) (rbegin r) 0"

section \<open>The invariant and the queue it represents\<close>

definition ring_ok :: "'a ring \<Rightarrow> bool" where
  "ring_ok r \<longleftrightarrow> rbegin r < rcap r \<and> rend r < rcap r \<and> (rwrap r \<longrightarrow> rbegin r = rend r)"

definition ring_items :: "'a ring \<Rightarrow> 'a list" where
  "ring_items r = map (\<lambda>i. rbuf r ! ((rbegin r + i) mod rcap r)) [0..<ring_count r]"

text \<open>The same invariant, with the number of elements made explicit.\<close>

definition ring_rep :: "'a ring \<Rightarrow> nat \<Rightarrow> bool" where
  "ring_rep r c \<longleftrightarrow> rbegin r < rcap r \<and> c \<le> rcap r \<and> rend r = (rbegin r + c) mod rcap r \<and>
     (rwrap r \<longleftrightarrow> c = rcap r)"

lemma ring_rep_count: "ring_rep r c \<Longrightarrow> ring_count r = c"
proof -
  assume r: "ring_rep r c"
  let ?S = "rcap r"
  have b: "rbegin r < ?S" and c: "c \<le> ?S" and e: "rend r = (rbegin r + c) mod ?S"
    and w: "rwrap r \<longleftrightarrow> c = ?S" using r by (simp_all add: ring_rep_def)
  show ?thesis
  proof (cases "rbegin r + c < ?S")
    case True
    then show ?thesis using b c e w by (auto simp: ring_count_def)
  next
    case False
    then have "rend r = rbegin r + c - ?S" using b c e by (simp add: le_mod_geq)
    then show ?thesis using False b c w by (auto simp: ring_count_def)
  qed
qed

lemma ring_ok_rep: "ring_ok r \<longleftrightarrow> ring_rep r (ring_count r)"
proof
  assume ok: "ring_ok r"
  then have b: "rbegin r < rcap r" "rend r < rcap r" "rwrap r \<longrightarrow> rbegin r = rend r"
    by (simp_all add: ring_ok_def)
  consider "rend r = rbegin r" | "rbegin r < rend r" | "rend r < rbegin r" by linarith
  then show "ring_rep r (ring_count r)"
  proof cases
    case 1
    then show ?thesis using b by (simp add: ring_rep_def ring_count_def)
  next
    case 2
    then have "ring_count r = rend r - rbegin r" by (simp add: ring_count_def)
    then show ?thesis using 2 b by (auto simp: ring_rep_def)
  next
    case 3
    then have c: "ring_count r = rcap r + rend r - rbegin r" by (simp add: ring_count_def)
    then have "rbegin r + ring_count r = rend r + rcap r" "ring_count r < rcap r"
      using 3 b(1) by linarith+
    then show ?thesis using 3 b by (simp add: ring_rep_def)
  qed
next
  assume "ring_rep r (ring_count r)"
  then show "ring_ok r"
    by (auto simp: ring_ok_def ring_rep_def)
qed

lemma rcap_update [simp]:
  "rcap (r\<lparr>rbegin := x\<rparr>) = rcap r" "rcap (r\<lparr>rend := x\<rparr>) = rcap r"
  "rcap (r\<lparr>rwrap := w\<rparr>) = rcap r" "rcap (r\<lparr>rbuf := m\<rparr>) = length m"
  by (simp_all add: rcap_def)

lemma two_chunks_mod:
  fixes p n S :: nat
  assumes "p < S" and "n \<le> S"
  shows "(let f = min n (S - p); p1 = (p + f) mod S in
           if f < n then (p1 + (n - f)) mod S else p1) = (p + n) mod S"
proof (cases "n \<le> S - p")
  case True
  then have "min n (S - p) = n" by (rule min_absorb1)
  then show ?thesis by (simp add: Let_def)
next
  case False
  then have "n - (S - p) = p + n - S" and "S \<le> p + n" using assms by auto
  with False assms show ?thesis by (simp add: Let_def le_mod_geq)
qed

lemma ring_consume_rep:
  assumes "ring_rep r c"
  shows "fst (ring_consume n r) = min n c"
    and "snd (ring_consume n r) =
      (if min n c = 0 then r else r\<lparr>rbegin := (rbegin r + min n c) mod rcap r, rwrap := False\<rparr>)"
    and "ring_rep (snd (ring_consume n r)) (c - min n c)"
proof -
  have c: "ring_count r = c" using assms by (rule ring_rep_count)
  have b: "rbegin r < rcap r" "c \<le> rcap r" using assms by (simp_all add: ring_rep_def)
  show "fst (ring_consume n r) = min n c" by (simp add: ring_consume_def Let_def c)
  have "min n c \<le> rcap r" using b by simp
  note m = two_chunks_mod [OF b(1) this, unfolded Let_def]
  show s: "snd (ring_consume n r) =
      (if min n c = 0 then r else r\<lparr>rbegin := (rbegin r + min n c) mod rcap r, rwrap := False\<rparr>)"
  proof (cases "min n c = 0")
    case True
    then show ?thesis by (simp add: ring_consume_def Let_def c)
  next
    case False
    then show ?thesis by (simp only: ring_consume_def Let_def c m if_False snd_conv)
  qed
  show "ring_rep (snd (ring_consume n r)) (c - min n c)"
  proof (cases "min n c = 0")
    case True
    then show ?thesis unfolding s using assms by simp
  next
    case False
    let ?k = "min n c"
    have "((rbegin r + ?k) mod rcap r + (c - ?k)) mod rcap r = (rbegin r + c) mod rcap r"
    proof -
      have "rbegin r + ?k + (c - ?k) = rbegin r + c" by simp
      then show ?thesis by (metis mod_add_left_eq)
    qed
    then show ?thesis unfolding s using False assms b by (auto simp: ring_rep_def)
  qed
qed

text \<open>Consuming drops elements from the front.\<close>

lemma ring_items_rep: "ring_rep r c \<Longrightarrow>
    ring_items r = map (\<lambda>i. rbuf r ! ((rbegin r + i) mod rcap r)) [0..<c]"
  by (simp add: ring_items_def ring_rep_count)

lemma length_ring_items [simp]: "length (ring_items r) = ring_count r"
  by (simp add: ring_items_def)

lemma ring_consume_items:
  assumes "ring_rep r c"
  shows "ring_items (snd (ring_consume n r)) = drop n (ring_items r)"
proof -
  note cs = ring_consume_rep [OF assms]
  let ?k = "min n c"
  have it: "ring_items (snd (ring_consume n r)) =
      map (\<lambda>i. rbuf r ! ((rbegin r + (?k + i)) mod rcap r)) [0..<c - ?k]"
  proof (cases "?k = 0")
    case True
    then show ?thesis using ring_items_rep [OF assms] by (simp add: cs(2))
  next
    case False
    then show ?thesis
      using ring_items_rep [OF cs(3)] by (simp add: cs(2) mod_add_left_eq add.assoc)
  qed
  show ?thesis unfolding it ring_items_rep [OF assms]
    by (rule nth_equalityI) (auto simp: min_def)
qed

lemma ring_push_free:
  fixes v :: 'a
  assumes r: "ring_rep r c" and c: "c < rcap r"
  defines "r' \<equiv> r\<lparr>rbuf := (rbuf r)[rend r := v], rend := (rend r + 1) mod rcap r,
      rwrap := (if rbegin r = (rend r + 1) mod rcap r then True else rwrap r)\<rparr>"
  shows "ring_rep r' (c + 1)" and "ring_items r' = ring_items r @ [v]"
proof -
  have b: "rbegin r < rcap r" and e: "rend r = (rbegin r + c) mod rcap r" and w: "\<not> rwrap r"
    using r c by (auto simp: ring_rep_def)
  have e': "(rend r + 1) mod rcap r = (rbegin r + (c + 1)) mod rcap r"
    unfolding e by (simp add: mod_Suc_eq)
  have wr: "rbegin r = (rbegin r + (c + 1)) mod rcap r \<longleftrightarrow> c + 1 = rcap r"
  proof (cases "rbegin r + (c + 1) < rcap r")
    case True
    then show ?thesis by simp
  next
    case False
    then have "(rbegin r + (c + 1)) mod rcap r = rbegin r + (c + 1) - rcap r"
      using b c by (simp add: le_mod_geq)
    then show ?thesis using False c by auto
  qed
  have cap: "rcap r' = rcap r" by (simp add: r'_def rcap_def)
  show rep: "ring_rep r' (c + 1)"
    unfolding ring_rep_def cap using b c w e' wr by (simp add: r'_def)
  have old: "(rbuf r)[rend r := v] ! ((rbegin r + i) mod rcap r) = rbuf r ! ((rbegin r + i) mod rcap r)"
    if "i < c" for i
  proof -
    have "(rbegin r + i) mod rcap r \<noteq> rend r"
      unfolding e using that b c by (cases "rbegin r + i < rcap r"; cases "rbegin r + c < rcap r")
        (auto simp: le_mod_geq)
    then show ?thesis by simp
  qed
  have new: "(rbuf r)[rend r := v] ! ((rbegin r + c) mod rcap r) = v"
  proof -
    have "0 < rcap r" using b by linarith
    then have "(rbegin r + c) mod rcap r < length (rbuf r)" unfolding rcap_def by (rule mod_less_divisor)
    then show ?thesis unfolding e by simp
  qed
  show "ring_items r' = ring_items r @ [v]"
    unfolding ring_items_rep [OF rep] ring_items_rep [OF r] cap
    using old new by (simp add: r'_def)
qed

lemma ring_push_rep:
  assumes r: "ring_rep r c"
  shows "ring_rep (ring_push v r) (if c = rcap r then c else c + 1)"
    and "ring_items (ring_push v r) = (if c = rcap r then tl (ring_items r) else ring_items r) @ [v]"
    and "rcap (ring_push v r) = rcap r"
proof -
  define q where "q = (if c = rcap r then snd (ring_consume 1 r) else r)"
  define d where "d = (if c = rcap r then c - 1 else c)"
  have b: "rbegin r < rcap r" "c \<le> rcap r" using r by (simp_all add: ring_rep_def)
  have q: "ring_rep q d" "rcap q = rcap r"
    using r ring_consume_rep [OF r, of 1] b by (auto simp: q_def d_def)
  have qi: "ring_items q = (if c = rcap r then tl (ring_items r) else ring_items r)"
    using ring_consume_items [OF r, of 1] by (simp add: q_def drop_Suc)
  have d: "d < rcap q" using b q(2) by (auto simp: d_def)
  have "rend q < rcap q" using q(1) d by (auto simp: ring_rep_def)
  then have one: "min 1 (rcap q - rend q) = 1" by simp
  have push: "ring_push v r = q\<lparr>rbuf := (rbuf q)[rend q := v], rend := (rend q + 1) mod rcap q,
      rwrap := (if rbegin q = (rend q + 1) mod rcap q then True else rwrap q)\<rparr>"
    unfolding ring_push_def ring_rep_count [OF r] q_def [symmetric] Let_def one ..
  note p = ring_push_free [OF q(1) d, of v, folded push]
  show "ring_rep (ring_push v r) (if c = rcap r then c else c + 1)"
    using p(1) b by (auto simp: d_def split: if_splits)
  show "ring_items (ring_push v r) = (if c = rcap r then tl (ring_items r) else ring_items r) @ [v]"
    using p(2) qi by simp
  show "rcap (ring_push v r) = rcap r" unfolding push using q(2) by (simp add: rcap_def)
qed

interpretation rq: bounded_queue ring_push ring_items rcap ring_ok
proof
  fix q :: "'a ring" and x :: 'a
  assume "ring_ok q"
  then have r: "ring_rep q (ring_count q)" by (simp add: ring_ok_rep)
  then show "0 < rcap q" "length (ring_items q) \<le> rcap q" by (auto simp: ring_rep_def)
  note p = ring_push_rep [OF r, of x]
  show "ring_ok (ring_push x q)" using p(1) ring_rep_count [OF p(1)] by (simp add: ring_ok_rep)
  show "rcap (ring_push x q) = rcap q" by (rule p(3))
  show "ring_items (ring_push x q) =
      (if length (ring_items q) = rcap q then tl (ring_items q) else ring_items q) @ [x]"
    using p(2) by simp
qed

section \<open>Block writes are repeated pushes\<close>

text \<open>Storing elements one by one, wrapping at the end of the array.\<close>

fun ring_fill :: "nat \<Rightarrow> 'a list \<Rightarrow> 'a list \<Rightarrow> 'a list" where
  "ring_fill e [] m = m"
| "ring_fill e (x # xs) m = ring_fill ((e + 1) mod length m) xs (m[e := x])"

lemma length_ring_fill [simp]: "length (ring_fill e xs m) = length m"
  by (induction e xs m rule: ring_fill.induct) simp_all

lemma ring_fill_append:
  "e < length m \<Longrightarrow>
   ring_fill e (xs @ ys) m = ring_fill ((e + length xs) mod length m) ys (ring_fill e xs m)"
proof (induction e xs m rule: ring_fill.induct)
  case (2 e x xs m)
  have "(e + 1) mod length m < length m" using "2.prems" by (intro mod_less_divisor) auto
  with "2.IH" show ?case by (simp add: mod_add_left_eq)
qed simp

lemma ring_fill_mem_write:
  "e + length xs \<le> length m \<Longrightarrow> ring_fill e xs m = mem_write m e xs"
proof (induction xs arbitrary: e m)
  case Nil
  then show ?case by simp
next
  case (Cons x xs)
  have w: "mem_write (m[e := x]) (e + 1) xs = mem_write m e (x # xs)"
    using Cons.prems by (simp add: mem_write_def take_Suc_conv_app_nth)
  show ?case
  proof (cases "xs = []")
    case True
    then show ?thesis using w by simp
  next
    case False
    then have "(e + 1) mod length m = e + 1" using Cons.prems by (cases xs) auto
    then show ?thesis using Cons.IH [of "e + 1" "m[e := x]"] Cons.prems w by simp
  qed
qed

lemma ring_fill_two_chunks:
  assumes e: "e < length m" and n: "length xs \<le> length m"
  shows "ring_fill e xs m =
    (let f = min (length xs) (length m - e); m1 = mem_write m e (take f xs) in
     if f < length xs then mem_write m1 ((e + f) mod length m) (take (length xs - f) (drop f xs)) else m1)"
proof (cases "length xs \<le> length m - e")
  case True
  then have "min (length xs) (length m - e) = length xs" by simp
  then show ?thesis using True e by (simp add: Let_def ring_fill_mem_write)
next
  case False
  let ?f = "length m - e"
  have f: "min (length xs) ?f = ?f" using False by simp
  have w: "(e + ?f) mod length m = 0" using e by simp
  have "ring_fill e xs m = ring_fill e (take ?f xs @ drop ?f xs) m" by simp
  also have "\<dots> = ring_fill 0 (drop ?f xs) (mem_write m e (take ?f xs))"
    using e False w by (subst ring_fill_append) (simp_all add: ring_fill_mem_write min_def)
  also have "\<dots> = mem_write (mem_write m e (take ?f xs)) 0 (drop ?f xs)"
    using e n by (intro ring_fill_mem_write) simp
  finally show ?thesis using False f w by (simp add: Let_def)
qed

lemma fold_push_fill:
  "ring_rep r c \<Longrightarrow> c + length xs \<le> rcap r \<Longrightarrow> xs \<noteq> [] \<Longrightarrow>
   fold ring_push xs r =
     r\<lparr>rbuf := ring_fill (rend r) xs (rbuf r), rend := (rend r + length xs) mod rcap r,
       rwrap := (if rbegin r = (rend r + length xs) mod rcap r then True else rwrap r)\<rparr>"
proof (induction xs arbitrary: r c)
  case Nil
  then show ?case by simp
next
  case (Cons x xs)
  have c: "c < rcap r" using Cons.prems by simp
  have nw: "\<not> rwrap r" and re: "rend r < rcap r" using Cons.prems c by (auto simp: ring_rep_def)
  have one: "min 1 (rcap r - rend r) = 1" using re by simp
  have push: "ring_push x r = r\<lparr>rbuf := (rbuf r)[rend r := x], rend := (rend r + 1) mod rcap r,
      rwrap := (if rbegin r = (rend r + 1) mod rcap r then True else rwrap r)\<rparr>"
  proof -
    have n: "(if c = rcap r then snd (ring_consume 1 r) else r) = r" using c by simp
    show ?thesis unfolding ring_push_def ring_rep_count [OF Cons.prems(1)] Let_def n one ..
  qed
  have rep: "ring_rep (ring_push x r) (c + 1)"
    using ring_push_free(1) [OF Cons.prems(1) c, of x] by (simp only: push)
  show ?case
  proof (cases "xs = []")
    case True
    then show ?thesis by (simp add: push)
  next
    case False
    have cap: "rcap (ring_push x r) = rcap r" unfolding push by (simp add: rcap_def)
    have "c + 1 < rcap r" using Cons.prems False by (cases xs) auto
    then have "\<not> rwrap (ring_push x r)" using rep cap by (simp add: ring_rep_def)
    then have ne: "rbegin r \<noteq> (rend r + 1) mod rcap r" by (auto simp: push)
    have "c + 1 + length xs \<le> rcap (ring_push x r)" using Cons.prems cap by simp
    from Cons.IH [OF rep this False] show ?thesis
      unfolding cap using ne by (simp add: push mod_add_left_eq rcap_def)
  qed
qed

lemma ring_write_pushes:
  assumes r: "ring_rep r c" and data: "min n (rcap r - c) \<le> length data"
  shows "ring_write data n r = (min n (rcap r - c), fold ring_push (take (min n (rcap r - c)) data) r)"
proof -
  define k where "k = min n (rcap r - c)"
  have free: "ring_getFree r = rcap r - c" by (simp add: ring_getFree_def ring_rep_count [OF r])
  have b: "rbegin r < rcap r" "c \<le> rcap r" "rend r < rcap r" using r by (auto simp: ring_rep_def)
  show ?thesis
  proof (cases "k = 0")
    case True
    then show ?thesis by (simp add: ring_write_def free k_def [symmetric] Let_def)
  next
    case False
    let ?xs = "take k data"
    have len: "length ?xs = k" using data by (simp add: k_def)
    then have ne: "?xs \<noteq> []" using False by auto
    have fit: "c + length ?xs \<le> rcap r" using len b by (simp add: k_def)
    have ks: "k \<le> rcap r" by (simp add: k_def)
    note m = two_chunks_mod [OF b(3) ks, unfolded Let_def]
    let ?f = "min k (rcap r - rend r)"
    have t: "take ?f ?xs = take ?f data" "take (k - ?f) (drop ?f ?xs) = take (k - ?f) (drop ?f data)"
      by (simp_all add: min_def drop_take)
    have "rend r < length (rbuf r)" "length ?xs \<le> length (rbuf r)"
      using b(3) ks len by (simp_all add: rcap_def)
    note f = ring_fill_two_chunks [OF this, unfolded Let_def rcap_def [symmetric] len t]
    show ?thesis
      unfolding fold_push_fill [OF r fit ne, folded k_def, unfolded len] k_def [symmetric]
        ring_write_def free Let_def f m using False by simp
  qed
qed

section \<open>What the clients see\<close>

lemma ring_new_rep: "0 < S \<Longrightarrow> ring_rep (ring_new S) 0"
  by (simp add: ring_rep_def ring_new_def rcap_def)

text \<open>
  However many values are pushed into a fresh buffer of capacity \<open>S\<close>, it holds exactly
  the last \<open>S\<close> of them, oldest first (all of them while there are at most \<open>S\<close>).
\<close>

lemma ring_push_window:
  assumes "0 < S"
  shows "ring_items (fold ring_push xs (ring_new S)) = drop (length xs - S) xs"
proof -
  have r: "ring_rep (ring_new S :: 'a::zero ring) 0" using assms by (rule ring_new_rep)
  then have "ring_ok (ring_new S :: 'a ring)"
    using ring_rep_count [OF r] by (simp add: ring_ok_rep)
  moreover have "ring_items (ring_new S :: 'a ring) = []" using ring_items_rep [OF r] by simp
  moreover have "rcap (ring_new S :: 'a ring) = S" by (simp add: ring_new_def rcap_def)
  ultimately show ?thesis using rq.push_all [of "ring_new S" xs] by simp
qed

lemma ring_push_window_witness:
  "ring_items (fold ring_push [1, 2, 3, 4, 5] (ring_new 3)) = [3, 4, 5 :: nat]"
  using ring_push_window [of 3 "[1, 2, 3, 4, 5 :: nat]"] by simp

lemma take_upt_min: "take k [0..<c] = [0..<min k c]"
  by (rule nth_equalityI) auto

lemma two_chunks_read:
  assumes p: "p < length b" and m: "m \<le> length b"
  shows "(let f = min m (length b - p) in
      take f (drop p b) @ (if f < m then take (m - f) (drop ((p + f) mod length b) b) else []))
    = map (\<lambda>i. b ! ((p + i) mod length b)) [0..<m]"
proof (cases "m \<le> length b - p")
  case True
  then have f: "min m (length b - p) = m" by simp
  show ?thesis unfolding f Let_def
    by (rule nth_equalityI) (use True p in simp_all)
next
  case False
  then have f: "min m (length b - p) = length b - p" by simp
  have z: "(p + (length b - p)) mod length b = 0" using p by simp
  have "take (length b - p) (drop p b) @ take (m - (length b - p)) b =
      map (\<lambda>i. b ! ((p + i) mod length b)) [0..<m]"
  proof (rule nth_equalityI)
    show "length (take (length b - p) (drop p b) @ take (m - (length b - p)) b) =
        length (map (\<lambda>i. b ! ((p + i) mod length b)) [0..<m])"
      using False p m by simp
  next
    fix i assume "i < length (take (length b - p) (drop p b) @ take (m - (length b - p)) b)"
    then have i: "i < m" using False p m by simp
    show "(take (length b - p) (drop p b) @ take (m - (length b - p)) b) ! i =
        map (\<lambda>i. b ! ((p + i) mod length b)) [0..<m] ! i"
    proof (cases "i < length b - p")
      case True
      then show ?thesis using i p by (simp add: nth_append)
    next
      case 2: False
      then have "p + i - length b < length b" "length b \<le> p + i" using i m p by auto
      then have "(p + i) mod length b = p + i - length b" by (simp add: le_mod_geq)
      moreover have "i - (length b - p) = p + i - length b" using 2 p by simp
      ultimately show ?thesis using 2 i p by (simp add: nth_append)
    qed
  qed
  then show ?thesis using False unfolding f Let_def z by simp
qed

text \<open>
  A block write stores as many elements as there is room for, at the back and in order,
  and reports that number; a block read returns the oldest elements in order, as many as asked
  for and present, and removes them.
\<close>

lemma ring_write_read_fifo:
  assumes ok: "ring_ok r" and data: "min n (ring_getFree r) \<le> length data"
  shows "fst (ring_write data n r) = min n (ring_getFree r) \<and>
    ring_items (snd (ring_write data n r)) = ring_items r @ take (min n (ring_getFree r)) data \<and>
    (let (out, m, r') = ring_read k r in
       out = take k (ring_items r) \<and> m = length out \<and> ring_items r' = drop k (ring_items r))"
proof -
  define c where "c = ring_count r"
  have r: "ring_rep r c" using ok by (simp add: ring_ok_rep c_def)
  have free: "ring_getFree r = rcap r - c" by (simp add: ring_getFree_def c_def)
  have b: "rbegin r < rcap r" "c \<le> rcap r" using r by (auto simp: ring_rep_def)
  let ?k = "min n (rcap r - c)"
  have w: "ring_write data n r = (?k, fold ring_push (take ?k data) r)"
    using data by (intro ring_write_pushes [OF r]) (simp add: free)
  have "length (take ?k data) = ?k" using data by (simp add: free)
  then have wi: "ring_items (fold ring_push (take ?k data) r) = ring_items r @ take ?k data"
    using rq.push_all [OF ok, of "take ?k data"] b by (simp add: c_def)
  let ?m = "min k c"
  have rd: "ring_read k r = (take k (ring_items r), ?m, snd (ring_consume k r))"
  proof (cases "?m = 0")
    case True
    then have "take k (ring_items r) = []" by (auto simp: ring_items_rep [OF r])
    then show ?thesis using True by (simp add: ring_read_def ring_consume_def c_def [symmetric])
  next
    case False
    have "?m \<le> rcap r" using b by simp
    note d = two_chunks_read [of "rbegin r" "rbuf r", folded rcap_def, OF b(1) this, unfolded Let_def]
    have "map (\<lambda>i. rbuf r ! ((rbegin r + i) mod rcap r)) [0..<?m] = take k (ring_items r)"
      unfolding ring_items_rep [OF r] by (simp add: take_map take_upt_min)
    note d = d [unfolded this]
    show ?thesis
      unfolding ring_read_def ring_consume_def c_def [symmetric] Let_def d if_not_P [OF False] snd_conv ..
  qed
  have rest: "ring_items (snd (ring_consume k r)) = drop k (ring_items r)"
    by (rule ring_consume_items [OF r])
  show ?thesis unfolding free w rd using wi rest by (simp add: c_def)
qed

lemma ring_write_read_fifo_witness:
  "fst (ring_read 2 (snd (ring_write [1, 2, 3] 3 (ring_new 4)))) = [1, 2 :: nat]"
proof -
  let ?r = "ring_new 4 :: nat ring"
  have rep: "ring_rep ?r 0" by (rule ring_new_rep) simp
  have ok: "ring_ok ?r" using ring_rep_count [OF rep] rep by (simp add: ring_ok_rep)
  have "ring_getFree ?r = 4"
    using ring_rep_count [OF rep] by (simp add: ring_getFree_def rcap_def ring_new_def)
  then have "ring_items (snd (ring_write [1, 2, 3] 3 ?r)) = [1, 2, 3]"
    using ring_write_read_fifo [OF ok, of 3 "[1, 2, 3]"] ring_items_rep [OF rep] by simp
  moreover have "ring_ok (snd (ring_write [1, 2, 3] 3 ?r))" by code_simp
  ultimately show ?thesis
    using ring_write_read_fifo [of "snd (ring_write [1, 2, 3] 3 ?r)" 0 "[]" 2]
    by (simp add: case_prod_unfold Let_def)
qed

text \<open>
  On a full buffer the element \<open>get_most_recent\<close> returns is the oldest one held, not
  the most recently pushed: it reads the slot the next push will overwrite.
\<close>

lemma ring_most_recent_is_oldest:
  assumes ok: "ring_ok r" and full: "ring_count r = rcap r"
  shows "ring_get_most_recent r = hd (ring_items r)"
proof -
  have r: "ring_rep r (rcap r)" using ok full by (simp add: ring_ok_rep)
  then have b: "rbegin r < rcap r" "rend r = rbegin r" by (auto simp: ring_rep_def)
  then have "[0..<rcap r] = 0 # [1..<rcap r]" by (simp add: upt_conv_Cons)
  then show ?thesis using b by (simp add: ring_items_rep [OF r] ring_get_most_recent_def)
qed

lemma ring_most_recent_is_oldest_witness:
  "ring_get_most_recent (fold ring_push [1, 2, 3 :: nat] (ring_new 3)) = 1"
proof -
  have "ring_ok (fold ring_push [1, 2, 3 :: nat] (ring_new 3))"
    "ring_count (fold ring_push [1, 2, 3 :: nat] (ring_new 3)) = rcap (fold ring_push [1, 2, 3 :: nat] (ring_new 3))"
    by code_simp+
  from ring_most_recent_is_oldest [OF this] show ?thesis
    using ring_push_window [of 3 "[1, 2, 3 :: nat]"] by simp
qed

text \<open>
  The counting loops visit every held element when the buffer is full; their modulus is the
  element count, so on a partly filled buffer they can visit one slot over and over.
\<close>

lemma ring_count_loop_full:
  assumes "ring_rep r (rcap r)" and "n \<le> rcap r"
  shows "ring_count_loop P r (rcap r) n ((rbegin r + n) mod rcap r) acc
    = acc + length (filter P (take n (ring_items r)))"
  using assms(2)
proof (induction n arbitrary: acc)
  case 0
  then show ?case by simp
next
  case (Suc n)
  have b: "rbegin r < rcap r" using assms(1) by (simp add: ring_rep_def)
  have "((rbegin r + Suc n) mod rcap r + rcap r - 1) mod rcap r
      = ((rbegin r + Suc n) mod rcap r + (rcap r - 1)) mod rcap r" using b by simp
  also have "\<dots> = (rbegin r + Suc n + (rcap r - 1)) mod rcap r" by (rule mod_add_left_eq)
  also have "\<dots> = (rbegin r + n) mod rcap r" using b by simp
  finally have it: "((rbegin r + Suc n) mod rcap r + rcap r - 1) mod rcap r = (rbegin r + n) mod rcap r" .
  have "take (Suc n) (ring_items r) = take n (ring_items r) @ [rbuf r ! ((rbegin r + n) mod rcap r)]"
    using Suc.prems by (simp add: ring_items_rep [OF assms(1)] take_Suc_conv_app_nth)
  then show ?case unfolding ring_count_loop.simps Let_def it using Suc by simp
qed

lemma ring_countValue_full:
  assumes "ring_ok r" and "ring_count r = rcap r"
  shows "ring_countValue v r = length (filter (\<lambda>x. x = v) (ring_items r))"
proof -
  have r: "ring_rep r (rcap r)" using assms by (simp add: ring_ok_rep)
  then have "(rbegin r + rcap r) mod rcap r = rbegin r" by (simp add: ring_rep_def)
  then show ?thesis
    using ring_count_loop_full [OF r order_refl, of "\<lambda>x. x = v" 0] assms(2)
    by (simp add: ring_countValue_def)
qed

lemma ring_countValue_partial:
  "ring_items (fold ring_push [1, 2 :: nat] (ring_new 3)) = [1, 2] \<and>
   ring_countValue 2 (fold ring_push [1, 2 :: nat] (ring_new 3)) = 0"
  by (intro conjI; code_simp)

end
