(* ===== verification/ZT_Utils.thy ===== *)
theory ZT_Utils
  imports ZT_Prelude
begin

text \<open>
  \<^verbatim>\<open>node/Utils.hpp\<close> and \<^verbatim>\<open>node/Utils.cpp\<close>: hexadecimal and decimal text, constant-time
  comparison, bounded string copy. C strings are byte lists that include their terminating
  zero where a function looks for it.
\<close>

section \<open>Definitions\<close>

definition HEXCHARS :: "u8 list" where
  "HEXCHARS = [48, 49, 50, 51, 52, 53, 54, 55, 56, 57, 97, 98, 99, 100, 101, 102]"

text \<open>Character \<open>n - 1 - k\<close> shows the nibble \<^verbatim>\<open>(i >> 4k) & 0xf\<close>.\<close>

definition hex_nibbles :: "nat \<Rightarrow> 'a::len word \<Rightarrow> u8 list" where
  "hex_nibbles n i = map (\<lambda>k. HEXCHARS ! unat (drop_bit (4 * k) i AND 0xf)) (rev [0..<n])"

definition hex64 :: "u64 \<Rightarrow> u8 list" where
  "hex64 i = hex_nibbles 16 i @ [0]"

definition hex10 :: "u64 \<Rightarrow> u8 list" where
  "hex10 i = hex_nibbles 10 i @ [0]"

definition hex32 :: "u32 \<Rightarrow> u8 list" where
  "hex32 i = hex_nibbles 8 i @ [0]"

definition hex16 :: "u16 \<Rightarrow> u8 list" where
  "hex16 i = hex_nibbles 4 i @ [0]"

definition hex8 :: "u8 \<Rightarrow> u8 list" where
  "hex8 i = hex_nibbles 2 i @ [0]"

definition hex_bytes :: "u8 list \<Rightarrow> u8 list" where
  "hex_bytes d = concat (map (\<lambda>b. [HEXCHARS ! unat (drop_bit 4 b), HEXCHARS ! unat (b AND 0xf)]) d) @ [0]"

definition hex_digit :: "u8 \<Rightarrow> u8" where
  "hex_digit hc =
     (if hc \<ge> 48 \<and> hc \<le> 57 then hc - 48
      else if hc \<ge> 97 \<and> hc \<le> 102 then hc - 87
      else if hc \<ge> 65 \<and> hc \<le> 70 then hc - 55
      else 0)"

text \<open>\<open>unhex\<close> on a zero-terminated string, and the variant with an explicit length.\<close>

fun unhex :: "u8 list \<Rightarrow> nat \<Rightarrow> u8 list" where
  "unhex (a # b # h) (Suc n) =
     (if a = 0 then []
      else if b = 0 then []
      else (push_bit 4 (hex_digit a) OR hex_digit b) # unhex h n)"
| "unhex _ _ = []"

fun unhex_len :: "u8 list \<Rightarrow> nat \<Rightarrow> nat \<Rightarrow> u8 list" where
  "unhex_len (a # b # h) (Suc (Suc hlen)) (Suc n) =
     (if a = 0 then []
      else if b = 0 then []
      else (push_bit 4 (hex_digit a) OR hex_digit b) # unhex_len h hlen n)"
| "unhex_len _ _ _ = []"

definition secureEq :: "u8 list \<Rightarrow> u8 list \<Rightarrow> nat \<Rightarrow> bool" where
  "secureEq a b len = (foldl (\<lambda>diff i. diff OR (a ! i XOR b ! i)) 0 [0..<len] = 0)"

definition isZero :: "u8 list \<Rightarrow> nat \<Rightarrow> bool" where
  "isZero p len = (\<not> list_ex (\<lambda>i. p ! i \<noteq> 0) [0..<len])"

text \<open>
  \<open>scopy\<close> returns what it wrote to \<^verbatim>\<open>dest\<close> and its result; \<open>src = None\<close> is a null pointer.
\<close>

fun scopy_loop :: "nat \<Rightarrow> u8 list \<Rightarrow> u8 list \<Rightarrow> u8 list \<times> bool" where
  "scopy_loop len [] w = (w, True)"
| "scopy_loop len (c # src) w =
     (let w' = w @ [c] in
      if c = 0 then (w', True)
      else if length w' = len then (butlast w' @ [0], False)
      else scopy_loop len src w')"

definition scopy :: "nat \<Rightarrow> u8 list option \<Rightarrow> u8 list \<times> bool" where
  "scopy len src =
     (if len = 0 then ([], False)
      else case src of None \<Rightarrow> ([0], True) | Some s \<Rightarrow> scopy_loop len s [])"

function itoa :: "nat \<Rightarrow> u8 list" where
  "itoa n = (if n = 0 then [] else itoa (n div 10) @ [48 + of_nat (n mod 10)])"
  by pat_completeness auto
termination
  by (relation "measure id") auto

declare itoa.simps [simp del]

definition decimal :: "u64 \<Rightarrow> u8 list" where
  "decimal n = (if n = 0 then [48, 0] else itoa (unat n) @ [0])"

text \<open>
  \<^verbatim>\<open>strtoull(s, 0, 16)\<close> of the C library: white space, a sign, an optional \<^verbatim>\<open>0x\<close>, then hex
  digits; the value saturates at the largest 64-bit number.
\<close>

definition is_hex :: "u8 \<Rightarrow> bool" where
  "is_hex c \<longleftrightarrow> c \<ge> 48 \<and> c \<le> 57 \<or> c \<ge> 97 \<and> c \<le> 102 \<or> c \<ge> 65 \<and> c \<le> 70"

fun hex_digits_val :: "nat \<Rightarrow> u8 list \<Rightarrow> nat" where
  "hex_digits_val v [] = v"
| "hex_digits_val v (c # s) =
     (if is_hex c then hex_digits_val (v * 16 + unat (hex_digit c)) s else v)"

definition is_space :: "u8 \<Rightarrow> bool" where
  "is_space c \<longleftrightarrow> c = 32 \<or> (9 \<le> c \<and> c \<le> 13)"

fun strip_0x :: "u8 list \<Rightarrow> u8 list" where
  "strip_0x (a # b # c # s) =
     (if a = 48 \<and> (b = 120 \<or> b = 88) \<and> is_hex c then c # s else a # b # c # s)"
| "strip_0x s = s"

definition hexStrToU64 :: "u8 list \<Rightarrow> u64" where
  "hexStrToU64 s0 =
     (let s = dropWhile is_space s0;
          neg = (s \<noteq> [] \<and> hd s = 45);
          s1 = (if s \<noteq> [] \<and> (hd s = 45 \<or> hd s = 43) then tl s else s);
          v = hex_digits_val 0 (strip_0x s1)
      in if v \<ge> 2 ^ 64 then - 1 else if neg then - of_nat v else of_nat v)"

text \<open>\<^verbatim>\<open>strtoll(s, 0, 16)\<close>, saturating at the signed limits; the result in two's complement.\<close>

definition hexStrTo64 :: "u8 list \<Rightarrow> u64" where
  "hexStrTo64 s0 =
     (let s = dropWhile is_space s0;
          neg = (s \<noteq> [] \<and> hd s = 45);
          s1 = (if s \<noteq> [] \<and> (hd s = 45 \<or> hd s = 43) then tl s else s);
          v = hex_digits_val 0 (strip_0x s1)
      in if neg then (if v > 2 ^ 63 then - (2 ^ 63) else - of_nat v)
         else (if v \<ge> 2 ^ 63 then 2 ^ 63 - 1 else of_nat v))"

section \<open>Nibbles\<close>

lemma unat_nibble: "unat (drop_bit (4 * k) (i :: 'a::len word) AND 0xf) = (unat i div 16 ^ k) mod 16"
proof -
  have "drop_bit (4 * k) i AND 0xf = take_bit 4 (drop_bit (4 * k) i)"
    by (simp add: take_bit_eq_mask mask_eq_exp_minus_1)
  then have "unat (drop_bit (4 * k) i AND 0xf) = take_bit 4 (drop_bit (4 * k) (unat i))"
    by (simp add: unsigned_take_bit_eq unat_drop_bit_eq)
  then show ?thesis
    by (simp add: take_bit_eq_mod drop_bit_eq_div power_mult)
qed

text \<open>Each hex character is a hex digit with the value it stands for.\<close>

lemma HEXCHARS_table:
  "list_all (\<lambda>n. is_hex (HEXCHARS ! n) \<and> hex_digit (HEXCHARS ! n) = of_nat n \<and>
     unat (hex_digit (HEXCHARS ! n)) = n \<and> HEXCHARS ! n \<notin> {0, 10, 13, 43, 45, 61, 88, 92, 120} \<and>
     \<not> is_space (HEXCHARS ! n)) [0..<16]"
  by code_simp

lemma HEXCHARS_digit:
  assumes "n < 16"
  shows "is_hex (HEXCHARS ! n)" "unat (hex_digit (HEXCHARS ! n)) = n"
    "hex_digit (HEXCHARS ! n) = of_nat n"
    "HEXCHARS ! n \<notin> {0, 10, 13, 43, 45, 61, 88, 92, 120}" "\<not> is_space (HEXCHARS ! n)"
proof -
  have "n \<in> set [0..<16]" using assms by simp
  then show "is_hex (HEXCHARS ! n)" "unat (hex_digit (HEXCHARS ! n)) = n"
    "hex_digit (HEXCHARS ! n) = of_nat n"
    "HEXCHARS ! n \<notin> {0, 10, 13, 43, 45, 61, 88, 92, 120}" "\<not> is_space (HEXCHARS ! n)"
    using HEXCHARS_table unfolding list_all_iff by blast+
qed

lemma hex_nibbles_Suc: "hex_nibbles (Suc n) i = HEXCHARS ! ((unat i div 16 ^ n) mod 16) # hex_nibbles n i"
  by (simp add: hex_nibbles_def unat_nibble)

lemma hex_digits_val_nibbles:
  "hex_digits_val v (hex_nibbles n i @ [0]) = v * 16 ^ n + unat i mod 16 ^ n"
proof (induction n arbitrary: v)
  case 0
  then show ?case by (simp add: hex_nibbles_def is_hex_def)
next
  case (Suc n)
  let ?d = "(unat i div 16 ^ n) mod 16"
  have "unat i mod 16 ^ Suc n = 16 ^ n * ?d + unat i mod 16 ^ n"
    using mod_mult2_eq [of "unat i" "16 ^ n" 16] by (simp only: power_Suc2)
  with Suc show ?case
    by (simp add: hex_nibbles_Suc HEXCHARS_digit(1,2) algebra_simps)
qed

lemma set_hex_nibbles:
  "c \<in> set (hex_nibbles n i) \<Longrightarrow> is_hex c \<and> c \<notin> {0, 10, 13, 43, 45, 61, 88, 92, 120} \<and> \<not> is_space c"
  using HEXCHARS_digit(1,4,5) by (auto simp: hex_nibbles_def unat_nibble)

lemma length_hex_nibbles [simp]: "length (hex_nibbles n i) = n"
  by (simp add: hex_nibbles_def)

lemma strip_0x_hex: "list_all (\<lambda>c. c \<noteq> 120 \<and> c \<noteq> 88) (tl s) \<Longrightarrow> strip_0x s = s"
  by (cases s rule: strip_0x.cases) auto

text \<open>The hexadecimal form of a 64-bit integer parses back to that integer.\<close>

lemma hex_text_parse:
  assumes "0 < n" and "unat i < 16 ^ n"
  defines "s \<equiv> hex_nibbles n (i :: u64) @ [0]"
  shows "dropWhile is_space s = s" "strip_0x s = s" "hex_digits_val 0 s = unat i"
    "s \<noteq> []" "hd s \<noteq> 45" "hd s \<noteq> 43"
proof -
  show ne: "s \<noteq> []" by (simp add: s_def)
  have hd: "hd s \<in> set (hex_nibbles n i)"
    using assms(1) by (cases n) (simp_all add: s_def hex_nibbles_def)
  note h = set_hex_nibbles [OF this]
  show "dropWhile is_space s = s" using h ne by (cases s) auto
  have "set (tl s) \<subseteq> set s" using ne by (cases s) auto
  moreover have "c \<noteq> 120 \<and> c \<noteq> 88" if "c \<in> set s" for c
    using that set_hex_nibbles [of c n i] by (auto simp: s_def)
  ultimately have "list_all (\<lambda>c. c \<noteq> 120 \<and> c \<noteq> 88) (tl s)" by (auto simp: list_all_iff)
  then show "strip_0x s = s" by (rule strip_0x_hex)
  show "hex_digits_val 0 s = unat i" using assms(2) by (simp add: s_def hex_digits_val_nibbles)
  show "hd s \<noteq> 45" "hd s \<noteq> 43" using h by auto
qed

lemma hexStr_nibbles:
  assumes "0 < n" and "unat i < 16 ^ n"
  shows "hexStrToU64 (hex_nibbles n i @ [0]) = i"
    and "unat i < 2 ^ 63 \<Longrightarrow> hexStrTo64 (hex_nibbles n i @ [0]) = i"
proof -
  have "unat i < 2 ^ 64" using unsigned_less [of i] by simp
  then show "hexStrToU64 (hex_nibbles n i @ [0]) = i"
    using hex_text_parse [OF assms] by (simp add: hexStrToU64_def Let_def)
  show "unat i < 2 ^ 63 \<Longrightarrow> hexStrTo64 (hex_nibbles n i @ [0]) = i"
    using hex_text_parse [OF assms] by (simp add: hexStrTo64_def Let_def)
qed

lemma hexStrToU64_hex64_eq: "hexStrToU64 (hex64 i) = i"
  using hexStr_nibbles(1) [of 16 i] unsigned_less [of i] by (simp add: hex64_def)

text \<open>
  \<open>unhex\<close> recovers the bytes that \<open>hex\<close> wrote, up to the capacity of the destination.
\<close>

lemma unhex_hex_bytes: "unhex (hex_bytes d) n = take n d"
proof (induction d arbitrary: n)
  case Nil
  then show ?case by (simp add: hex_bytes_def)
next
  case (Cons b d)
  have "unat b < 256" using unsigned_less [of b, where 'a = nat] by simp
  then have hi: "unat (drop_bit 4 b) < 16"
    unfolding unat_drop_bit_eq by (simp add: drop_bit_eq_div)
  have lo: "unat (b AND 0xf) < 16" using unat_nibble [of 0 b] by simp
  have nz: "HEXCHARS ! unat (drop_bit 4 b) \<noteq> 0" "HEXCHARS ! unat (b AND 0xf) \<noteq> 0"
    using HEXCHARS_digit(4) [OF hi] HEXCHARS_digit(4) [OF lo] by auto
  have "b AND 0xf = take_bit 4 b" by (simp add: take_bit_eq_mask mask_eq_exp_minus_1)
  then have "push_bit 4 (drop_bit 4 b) OR (b AND 0xf) = b"
    by (intro bit_word_eqI)
      (auto simp: bit_or_iff bit_push_bit_iff bit_drop_bit_eq bit_take_bit_iff)
  then show ?case
    using Cons.IH nz HEXCHARS_digit(3) [OF hi] HEXCHARS_digit(3) [OF lo]
    by (cases n) (simp_all add: hex_bytes_def)
qed

lemma xor_eq_0_word: "x XOR y = 0 \<longleftrightarrow> x = y" for x y :: "'a::len word"
  by (auto simp: bit_eq_iff bit_xor_iff)

text \<open>
  The constant-time comparison accumulates the difference of every byte and returns
  true exactly when the two byte strings agree on the first \<open>len\<close> bytes.
\<close>

lemma secureEq_correct:
  assumes "len \<le> length a" and "len \<le> length b"
  shows "secureEq a b len \<longleftrightarrow> take len a = take len b"
proof -
  have acc: "foldl (\<lambda>diff i. diff OR (a ! i XOR b ! i)) d is = 0 \<longleftrightarrow>
      d = 0 \<and> (\<forall>i \<in> set is. a ! i = b ! i)" for d "is"
  proof (induction "is" arbitrary: d)
    case (Cons i "is")
    have "d OR (a ! i XOR b ! i) = 0 \<longleftrightarrow> d = 0 \<and> a ! i = b ! i"
      by (simp add: or_eq_0_iff xor_eq_0_word)
    with Cons show ?case by auto
  qed simp
  show ?thesis using assms unfolding secureEq_def acc
    by (auto simp: list_eq_iff_nth_eq)
qed

lemma secureEq_correct_witness:
  "secureEq [1, 2, 3] [1, 2, 4] 2 \<longleftrightarrow> take 2 [1, 2, 3 :: u8] = take 2 [1, 2, 4]"
  by (rule secureEq_correct) simp_all

section \<open>Counting bits\<close>

text \<open>The code's bit count of a word.\<close>

definition countBits :: "u32 \<Rightarrow> u32" where
  "countBits v =
     (let v = v - (drop_bit 1 v AND 0x55555555);
          v = (v AND 0x33333333) + (drop_bit 2 v AND 0x33333333)
      in drop_bit 24 (((v + drop_bit 4 v) AND 0xF0F0F0F) * 0x1010101))"

lemma countBits_small:
  assumes "v < 128" shows "countBits v = of_nat (card {i. i < 7 \<and> bit v i})"
proof -
  have all: "\<forall>n\<in>set [0..<128]. countBits (word_of_nat n) = of_nat (length (filter (\<lambda>i. bit n i) [0..<7]))"
    by code_simp
  have "unat v < 128" using assms by (simp add: word_less_nat_alt)
  then have "countBits (word_of_nat (unat v)) = of_nat (length (filter (\<lambda>i. bit (unat v) i) [0..<7]))"
    using all by (auto simp del: of_nat_unat)
  moreover have "length (filter (\<lambda>i. bit (unat v) i) [0..<7]) = card {i. i < 7 \<and> bit v i}"
    by (auto simp: bit_unsigned_iff length_filter_conv_card intro!: arg_cong [where f = card])
  ultimately show ?thesis by simp
qed

end
