(* ===== verification/ZT_Dictionary.thy ===== *)
theory ZT_Dictionary
  imports ZT_Utils
begin

text \<open>
  \<^verbatim>\<open>node/Dictionary.hpp\<close>: the packed key=value text that network configurations travel in. The
  state is the array \<^verbatim>\<open>_d\<close> of \<^verbatim>\<open>C\<close> bytes. A read position is the list of bytes from it
  to the end of the array: incrementing to \<^verbatim>\<open>eof\<close> is running out of list. A key is the byte list
  before its terminating zero. What \<open>get\<close> leaves in \<^verbatim>\<open>dest\<close> is the list of bytes written, up
  to the terminating zero.
\<close>

section \<open>Loading and sizes\<close>

text \<open>
  \<open>load\<close> from a C string (its bytes with the terminating zero): bytes after the zero are
  cleared, the last byte is always cleared. The result is false if the zero was not reached.
\<close>

fun dict_load_loop :: "nat \<Rightarrow> u8 list \<Rightarrow> bool \<Rightarrow> u8 list \<times> bool" where
  "dict_load_loop 0 s done = ([], done)"
| "dict_load_loop (Suc n) s done =
     (if done \<or> s = [] then (case dict_load_loop n s done of (d, r) \<Rightarrow> (0 # d, r))
      else (case dict_load_loop n (tl s) (hd s = 0) of (d, r) \<Rightarrow> (hd s # d, r)))"

definition dict_load :: "nat \<Rightarrow> u8 list \<Rightarrow> u8 list \<times> bool" where
  "dict_load C s = (case dict_load_loop C s False of (d, r) \<Rightarrow> (d[C - 1 := 0], r))"

definition dict_load_len :: "nat \<Rightarrow> u8 list \<Rightarrow> nat \<Rightarrow> u8 list" where
  "dict_load_len C s len =
     (let t = takeWhile (\<lambda>c. c \<noteq> 0) (take (min len C) s)
      in (t @ replicate (C - length t) 0)[C - 1 := 0])"

definition dict_empty :: "nat \<Rightarrow> u8 list" where
  "dict_empty C = replicate C 0"

text \<open>The index of the first zero byte, where the loops of \<open>sizeBytes\<close> and \<open>add\<close> stop.\<close>

fun first_zero :: "u8 list \<Rightarrow> nat option" where
  "first_zero [] = None"
| "first_zero (c # d) = (if c = 0 then Some 0 else map_option Suc (first_zero d))"

definition dict_sizeBytes :: "u8 list \<Rightarrow> nat" where
  "dict_sizeBytes d = (case first_zero d of Some i \<Rightarrow> i | None \<Rightarrow> length d - 1)"

section \<open>Lookup\<close>

text \<open>Comparing the key at the read position; \<open>None\<close> is running into \<^verbatim>\<open>eof\<close>.\<close>

fun match_key :: "u8 list \<Rightarrow> u8 list \<Rightarrow> (u8 list \<times> u8 list) option" where
  "match_key (c # r) (k # ks) =
     (if c = 0 \<or> c \<noteq> k then Some (c # r, k # ks)
      else if r = [] then None
      else match_key r ks)"
| "match_key p ks = Some (p, ks)"

definition is_eol :: "u8 \<Rightarrow> bool" where
  "is_eol c \<longleftrightarrow> c = 13 \<or> c = 10"

text \<open>Skipping to the start of the next line; \<open>None\<close> where \<open>get\<close> gives up.\<close>

fun skip_line :: "u8 list \<Rightarrow> u8 list option" where
  "skip_line [] = None"
| "skip_line (c # r) =
     (if c = 0 then None
      else if is_eol c then (if r = [] then None else Some r)
      else if r = [] then None
      else skip_line r)"

definition unescape :: "u8 \<Rightarrow> u8" where
  "unescape c =
     (if c = 114 then 13 else if c = 110 then 10 else if c = 48 then 0
      else if c = 101 then 61 else c)"

text \<open>Reading the value: result code and the bytes of \<^verbatim>\<open>dest\<close>; \<open>w\<close> is \<^verbatim>\<open>dest[0..j)\<close>.\<close>

fun read_val :: "nat \<Rightarrow> u8 list \<Rightarrow> bool \<Rightarrow> u8 list \<Rightarrow> int \<times> u8 list" where
  "read_val destlen [] esc w = (- 1, [0])"
| "read_val destlen (c # r) esc w =
     (if c = 0 \<or> is_eol c then (int (length w), w @ [0])
      else if \<not> esc \<and> c = 92 then
        (if r = [] then (- 1, [0]) else read_val destlen r True w)
      else
        (let w' = w @ [if esc then unescape c else c] in
         if length w' = destlen then (int (length w') - 1, butlast w' @ [0])
         else if r = [] then (- 1, [0])
         else read_val destlen r False w'))"

lemma match_key_length: "match_key p ks = Some (p', ks') \<Longrightarrow> length p' \<le> length p"
  by (induction p ks rule: match_key.induct) (auto split: if_splits)

lemma skip_line_length: "skip_line p = Some p' \<Longrightarrow> length p' < length p"
  by (induction p rule: skip_line.induct) (auto split: if_splits)

function dict_scan :: "u8 list \<Rightarrow> u8 list \<Rightarrow> nat \<Rightarrow> int \<times> u8 list" where
  "dict_scan p key destlen =
     (if p = [] \<or> hd p = 0 then (- 1, [0])
      else case match_key p key of
        None \<Rightarrow> (- 1, [0])
      | Some (p', k) \<Rightarrow>
          if k = [] \<and> p' \<noteq> [] \<and> hd p' = 61 then read_val destlen (tl p') False []
          else case skip_line p' of
            None \<Rightarrow> (- 1, [0])
          | Some p'' \<Rightarrow> dict_scan p'' key destlen)"
  by pat_completeness auto
termination
  by (relation "measure (\<lambda>(p, _, _). length p)")
    (auto dest!: match_key_length skip_line_length)

declare dict_scan.simps [simp del]

definition dict_get :: "u8 list \<Rightarrow> u8 list \<Rightarrow> nat \<Rightarrow> int \<times> u8 list" where
  "dict_get d key destlen = (if destlen = 0 then (- 1, []) else dict_scan d key destlen)"

definition dict_contains :: "u8 list \<Rightarrow> u8 list \<Rightarrow> bool" where
  "dict_contains d key = (fst (dict_get d key 2) \<ge> 0)"

definition dict_getB :: "u8 list \<Rightarrow> u8 list \<Rightarrow> bool \<Rightarrow> bool" where
  "dict_getB d key dfl =
     (case dict_get d key 4 of (r, tmp) \<Rightarrow>
        if r \<ge> 0 then hd tmp = 49 \<or> hd tmp = 116 \<or> hd tmp = 84 else dfl)"

definition dict_getUI :: "u8 list \<Rightarrow> u8 list \<Rightarrow> u64 \<Rightarrow> u64" where
  "dict_getUI d key dfl =
     (case dict_get d key 128 of (r, tmp) \<Rightarrow> if r \<ge> 1 then hexStrToU64 tmp else dfl)"

definition dict_getI :: "u8 list \<Rightarrow> u8 list \<Rightarrow> u64 \<Rightarrow> u64" where
  "dict_getI d key dfl =
     (case dict_get d key 128 of (r, tmp) \<Rightarrow> if r \<ge> 1 then hexStrTo64 tmp else dfl)"

section \<open>Adding an entry\<close>

definition escape_byte :: "u8 \<Rightarrow> u8 list" where
  "escape_byte c =
     (if c = 0 then [92, 48] else if c = 13 then [92, 114] else if c = 10 then [92, 110]
      else if c = 92 then [92, 92] else if c = 61 then [92, 101] else [c])"

text \<open>
  Writing bytes from index \<open>j\<close>; every byte is stored first and then checked against the
  capacity. The result is the array, the next index, and whether everything fitted.
\<close>

fun dict_emit :: "u8 list \<Rightarrow> nat \<Rightarrow> u8 list \<Rightarrow> u8 list \<times> nat \<times> bool" where
  "dict_emit d j [] = (d, j, True)"
| "dict_emit d j (c # cs) =
     (let d' = d[j := c]; j' = j + 1 in
      if j' = length d then (d', j', False) else dict_emit d' j' cs)"

text \<open>
  \<open>add\<close>: the bytes of the line are a separator (unless this is the first entry), the key,
  \<^verbatim>\<open>=\<close> and the escaped value. On overflow the terminator at the old end is put back.
\<close>

definition dict_add :: "u8 list \<Rightarrow> u8 list \<Rightarrow> u8 list \<Rightarrow> u8 list \<times> bool" where
  "dict_add d key v =
     (case first_zero d of
        None \<Rightarrow> (d, False)
      | Some i \<Rightarrow>
          (case dict_emit d i ((if i > 0 then [10] else []) @ key @ [61] @ concat (map escape_byte v)) of
             (d', j, True) \<Rightarrow> (d'[j := 0], True)
           | (d', j, False) \<Rightarrow> (d'[i := 0], False)))"

definition dict_add_bool :: "u8 list \<Rightarrow> u8 list \<Rightarrow> bool \<Rightarrow> u8 list \<times> bool" where
  "dict_add_bool d key v = dict_add d key (if v then [49] else [48])"

definition dict_add_u64 :: "u8 list \<Rightarrow> u8 list \<Rightarrow> u64 \<Rightarrow> u8 list \<times> bool" where
  "dict_add_u64 d key v = dict_add d key (takeWhile (\<lambda>c. c \<noteq> 0) (hex64 v))"

definition dict_add_i64 :: "u8 list \<Rightarrow> u8 list \<Rightarrow> u64 \<Rightarrow> u8 list \<times> bool" where
  "dict_add_i64 d key v =
     (if 0 \<le> sint v then dict_add d key (takeWhile (\<lambda>c. c \<noteq> 0) (hex64 v))
      else dict_add d key (45 # takeWhile (\<lambda>c. c \<noteq> 0) (hex64 (v * - 1))))"

section \<open>What a dictionary text means\<close>

text \<open>
  The content of a dictionary is the text before its first zero byte. It is a sequence of lines;
  a lookup takes the first line that starts with the key and \<^verbatim>\<open>=\<close> and unescapes the rest.
\<close>

fun unesc :: "bool \<Rightarrow> u8 list \<Rightarrow> u8 list" where
  "unesc esc [] = []"
| "unesc esc (c # r) =
     (if \<not> esc \<and> c = 92 then unesc True r
      else (if esc then unescape c else c) # unesc False r)"

function dlookup :: "u8 list \<Rightarrow> u8 list \<Rightarrow> u8 list option" where
  "dlookup s key =
     (if s = [] then None
      else let l = takeWhile (\<lambda>c. \<not> is_eol c) s; r = dropWhile (\<lambda>c. \<not> is_eol c) s in
        if take (Suc (length key)) l = key @ [61] then Some (unesc False (drop (Suc (length key)) l))
        else if r = [] then None
        else dlookup (tl r) key)"
  by pat_completeness auto
termination
proof (relation "measure (\<lambda>(s, _). length s)")
  fix s key l r
  assume "s \<noteq> []" "r = dropWhile (\<lambda>c. \<not> is_eol c) (s :: u8 list)" "r \<noteq> []"
  then have "length (tl r) < length s"
    by (metis length_dropWhile_le length_tl diff_less length_greater_0_conv less_numeral_extra(1)
        order_less_le_trans)
  then show "((tl r, key), (s, key)) \<in> measure (\<lambda>(s, _). length s)" by simp
qed simp

declare dlookup.simps [simp del]

definition clean :: "u8 list \<Rightarrow> bool" where
  "clean s \<longleftrightarrow> (\<forall>c \<in> set s. c \<noteq> 0 \<and> \<not> is_eol c)"

lemma clean_simps [simp]:
  "clean []" "clean (c # s) \<longleftrightarrow> c \<noteq> 0 \<and> \<not> is_eol c \<and> clean s"
  "clean (a @ b) \<longleftrightarrow> clean a \<and> clean b"
  by (auto simp: clean_def)

definition dresult :: "nat \<Rightarrow> u8 list option \<Rightarrow> int \<times> u8 list" where
  "dresult n r = (case r of None \<Rightarrow> (- 1, [0])
     | Some v \<Rightarrow> (int (min (length v) (n - 1)), take (n - 1) v @ [0]))"

section \<open>The scanner computes that meaning\<close>

lemma match_key_line:
  assumes "clean l" and "clean key" and "x = 0 \<or> is_eol x"
  shows "\<exists>m \<le> length l. match_key (l @ x # r) key = Some (drop m l @ x # r, drop m key) \<and>
    take m key = take m l \<and> m \<le> length key \<and>
    (m < length key \<longrightarrow> m = length l \<or> l ! m \<noteq> key ! m)"
  using assms(1,2)
proof (induction l arbitrary: key)
  case Nil
  with assms(3) show ?case by (cases key) auto
next
  case (Cons c l)
  show ?case
  proof (cases key)
    case Nil
    then show ?thesis by (intro exI [of _ 0]) simp
  next
    case key: (Cons k ks)
    show ?thesis
    proof (cases "c = k")
      case False
      then show ?thesis using key by (intro exI [of _ 0]) simp
    next
      case True
      have "clean l" "clean ks" "c \<noteq> 0" using Cons.prems key by auto
      from Cons.IH [OF this(1,2)] obtain m where m: "m \<le> length l"
        "match_key (l @ x # r) ks = Some (drop m l @ x # r, drop m ks)"
        "take m ks = take m l" "m \<le> length ks"
        "m < length ks \<longrightarrow> m = length l \<or> l ! m \<noteq> ks ! m" by auto
      then show ?thesis
        using key True \<open>c \<noteq> 0\<close> by (intro exI [of _ "Suc m"]) auto
    qed
  qed
qed

lemma skip_line_end:
  "clean l \<Longrightarrow> x = 0 \<or> is_eol x \<Longrightarrow>
   skip_line (l @ x # r) = (if x = 0 \<or> r = [] then None else Some r)"
  by (induction l) (auto simp: is_eol_def)

lemma read_val_line:
  assumes "clean l" and "x = 0 \<or> is_eol x" and "length w < n"
  shows "read_val n (l @ x # r) esc w = dresult n (Some (w @ unesc esc l))"
  using assms(1,3)
proof (induction l arbitrary: esc w)
  case Nil
  then show ?case using assms(2) by (auto simp: dresult_def min_def)
next
  case (Cons c l)
  then have c: "c \<noteq> 0" "\<not> is_eol c" "clean l" by auto
  let ?w = "w @ [if esc then unescape c else c]"
  show ?case
  proof (cases "\<not> esc \<and> c = 92")
    case True
    then show ?thesis using Cons.IH [OF c(3) Cons.prems(2), of True] c by simp
  next
    case ne: False
    show ?thesis
    proof (cases "length ?w = n")
      case True
      have "read_val n ((c # l) @ x # r) esc w = (int n - 1, w @ [0])"
        using True ne c by (auto simp: Let_def)
      moreover have "dresult n (Some (w @ unesc esc (c # l))) = (int n - 1, w @ [0])"
        using True ne by (auto simp: dresult_def)
      ultimately show ?thesis by simp
    next
      case False
      then have "length ?w < n" using Cons.prems by simp
      from Cons.IH [OF c(3) this, of False] show ?thesis using ne c False by (auto simp: Let_def)
    qed
  qed
qed

text \<open>One line of the scan: it either yields the value of this line or moves to the next.\<close>

lemma dict_scan_line:
  assumes l: "clean l" and key: "clean key" and x: "x = 0 \<or> is_eol x" and n: "0 < n"
    and ne: "x = 0 \<longrightarrow> l \<noteq> []"
  shows "dict_scan (l @ x # r) key n =
    (if take (Suc (length key)) l = key @ [61]
     then dresult n (Some (unesc False (drop (Suc (length key)) l)))
     else if x = 0 \<or> r = [] then (- 1, [0]) else dict_scan r key n)"
proof -
  obtain m where m: "m \<le> length l" "match_key (l @ x # r) key = Some (drop m l @ x # r, drop m key)"
    "take m key = take m l" "m \<le> length key" "m < length key \<longrightarrow> m = length l \<or> l ! m \<noteq> key ! m"
    using match_key_line [OF l key x, of r] by auto
  have x61: "x \<noteq> 61" using x by (auto simp: is_eol_def)
  have h0: "hd (l @ x # r) \<noteq> 0" using l ne x by (cases l) (auto simp: is_eol_def)
  have hit: "drop m key = [] \<and> hd (drop m l @ x # r) = 61 \<longleftrightarrow> take (Suc (length key)) l = key @ [61]"
  proof
    assume a: "drop m key = [] \<and> hd (drop m l @ x # r) = 61"
    then have mk: "m = length key" using m(4) by simp
    with a x61 have "m < length l" by (cases "m < length l") auto
    moreover from this a have "l ! m = 61" by (simp add: hd_append hd_drop_conv_nth)
    ultimately show "take (Suc (length key)) l = key @ [61]"
      using mk m(3) by (simp add: take_Suc_conv_app_nth)
  next
    assume a: "take (Suc (length key)) l = key @ [61]"
    then have len: "length key < length l"
      by (metis Suc_le_eq length_append_singleton length_take min.absorb_iff2 nat_le_linear
          not_less_eq_eq take_all)
    have nth: "l ! i = (key @ [61]) ! i" if "i \<le> length key" for i
      using that len arg_cong [OF a, of "\<lambda>s. s ! i"] by simp
    have mk: "m = length key"
      using m(4,5) len nth [of m] by (auto simp: nth_append le_less split: if_splits)
    then show "drop m key = [] \<and> hd (drop m l @ x # r) = 61"
      using len nth [of m] by (simp add: hd_append hd_drop_conv_nth nth_append)
  qed
  have cl: "clean (drop m l)" "clean (drop (Suc (length key)) l)"
    using l by (auto simp: clean_def dest: in_set_dropD)
  show ?thesis
  proof (cases "take (Suc (length key)) l = key @ [61]")
    case True
    then have mk: "drop m key = []" "hd (drop m l @ x # r) = 61" using hit by simp_all
    then have "m = length key" using m(4) by simp
    moreover from this have "m < length l"
      using mk x61 by (cases "m < length l") auto
    ultimately have "tl (drop m l @ x # r) = drop (Suc (length key)) l @ x # r"
      by (simp add: drop_Suc tl_drop tl_append2)
    then show ?thesis
      using True mk h0 m(2) read_val_line [OF cl(2) x, where w = "[]" and n = n and esc = False and r = r] n
      by (simp add: dict_scan.simps [of "l @ x # r"])
  next
    case False
    then have "\<not> (drop m key = [] \<and> hd (drop m l @ x # r) = 61)" using hit by simp
    then show ?thesis
      using False h0 m(2) skip_line_end [OF cl(1) x, of r]
      by (subst dict_scan.simps) (auto simp: x split: option.split)
  qed
qed

lemma takeWhile_dropWhile_eol:
  assumes "0 \<notin> set s"
  shows "clean (takeWhile (\<lambda>c. \<not> is_eol c) s)"
  using assms by (auto simp: clean_def dest: set_takeWhileD)

lemma dict_scan_lookup:
  assumes "0 \<notin> set s" and "clean key" and "0 < n"
  shows "dict_scan (s @ 0 # junk) key n = dresult n (dlookup s key)"
  using assms(1,2)
proof (induction s key rule: dlookup.induct)
  case (1 s key)
  show ?case
  proof (cases "s = []")
    case True
    then show ?thesis by (simp add: dict_scan.simps dlookup.simps dresult_def)
  next
    case False
    let ?l = "takeWhile (\<lambda>c. \<not> is_eol c) s" and ?r = "dropWhile (\<lambda>c. \<not> is_eol c) s"
    have s: "s = ?l @ ?r" by simp
    have l: "clean ?l" using "1.prems"(1) by (rule takeWhile_dropWhile_eol)
    note key = "1.prems"(2)
    show ?thesis
    proof (cases ?r)
      case Nil
      then have ls: "?l = s" using s by simp
      with l have "clean s" by simp
      from dict_scan_line [OF this key _ assms(3), of 0 junk] show ?thesis
        using False Nil by (subst dlookup.simps) (simp add: Let_def ls dresult_def)
    next
      case (Cons x r)
      have x: "is_eol x" using Cons by (metis hd_dropWhile list.distinct(1) list.sel(1))
      then have "x \<noteq> 0" by (auto simp: is_eol_def)
      have r: "0 \<notin> set (tl ?r)" using "1.prems"(1) s Cons by (metis Un_iff list.set_intros(2) list.sel(3) set_append)
      have sx: "s @ 0 # junk = ?l @ x # (r @ 0 # junk)"
        by (metis Cons append.assoc append_Cons s)
      have sc: "dict_scan (s @ 0 # junk) key n =
          (if take (Suc (length key)) ?l = key @ [61]
           then dresult n (Some (unesc False (drop (Suc (length key)) ?l)))
           else dict_scan (r @ 0 # junk) key n)"
        unfolding sx using dict_scan_line [OF l key disjI2 [OF x] assms(3)] \<open>x \<noteq> 0\<close> by simp
      show ?thesis
      proof (cases "take (Suc (length key)) ?l = key @ [61]")
        case True
        then show ?thesis unfolding sc using False by (subst dlookup.simps) (simp add: Let_def)
      next
        case nm: False
        have "dlookup s key = dlookup r key"
          using False nm Cons by (subst dlookup.simps) (simp add: Let_def)
        moreover have "dict_scan (r @ 0 # junk) key n = dresult n (dlookup r key)"
          using "1.IH" [OF False refl refl nm _ r key] Cons by simp
        ultimately show ?thesis unfolding sc using nm by simp
      qed
    qed
  qed
qed

section \<open>What adding does to the text\<close>

lemma first_zero_split:
  "0 \<notin> set s \<Longrightarrow> first_zero (s @ 0 # junk) = Some (length s)"
  by (induction s) auto

lemma length_dict_emit [simp]: "length (fst (dict_emit d j cs)) = length d"
  by (induction d j cs rule: dict_emit.induct) (auto simp: Let_def)

text \<open>Emission writes the bytes in place if they leave room for one more, and fails otherwise.\<close>

lemma dict_emit_fits:
  "j + length cs < length d \<Longrightarrow> dict_emit d j cs = (mem_write d j cs, j + length cs, True)"
proof (induction d j cs rule: dict_emit.induct)
  case (2 d j c cs)
  have w: "mem_write (d[j := c]) (j + 1) cs = mem_write d j (c # cs)"
    using "2.prems" by (simp add: mem_write_def take_Suc_conv_app_nth)
  show ?case using "2.prems" "2.IH" [OF refl refl] w by (simp add: Let_def)
qed simp

lemma dict_emit_overflow:
  "j < length d \<Longrightarrow> length d \<le> j + length cs \<Longrightarrow> snd (snd (dict_emit d j cs)) = False"
proof (induction d j cs rule: dict_emit.induct)
  case (2 d j c cs)
  show ?case using "2.prems" "2.IH" [OF refl refl] by (auto simp: Let_def)
qed simp

lemma dict_emit_before:
  "take j (fst (dict_emit d j cs)) = take j d"
proof (induction d j cs rule: dict_emit.induct)
  case (2 d j c cs)
  have "take j (fst (dict_emit (d[j := c]) (j + 1) cs)) = take j d" if ne: "j + 1 \<noteq> length d"
  proof -
    have "take j (fst (dict_emit (d[j := c]) (j + 1) cs))
        = take j (take (j + 1) (fst (dict_emit (d[j := c]) (j + 1) cs)))" by simp
    also have "\<dots> = take j (take (j + 1) (d[j := c]))" by (simp only: "2.IH" [OF refl refl ne])
    finally show ?thesis by simp
  qed
  then show ?case by (auto simp: Let_def)
qed simp

definition dict_line :: "u8 list \<Rightarrow> u8 list \<Rightarrow> u8 list" where
  "dict_line key v = key @ [61] @ concat (map escape_byte v)"

lemma dict_add_text:
  fixes key v :: "u8 list"
  assumes s: "0 \<notin> set s" and d: "d = s @ 0 # junk"
  defines "new \<equiv> (if s = [] then [] else [10]) @ dict_line key v"
  shows "snd (dict_add d key v) \<longleftrightarrow> length s + length new < length d"
    and "snd (dict_add d key v) \<Longrightarrow> \<exists>junk'. fst (dict_add d key v) = s @ new @ 0 # junk'"
    and "\<not> snd (dict_add d key v) \<Longrightarrow> \<exists>junk'. fst (dict_add d key v) = s @ 0 # junk'"
    and "length (fst (dict_add d key v)) = length d"
proof -
  let ?n = "length s"
  have fz: "first_zero d = Some ?n" unfolding d by (rule first_zero_split [OF s])
  have add: "dict_add d key v = (case dict_emit d ?n new of
      (d', j, True) \<Rightarrow> (d'[j := 0], True) | (d', j, False) \<Rightarrow> (d'[?n := 0], False))"
  proof -
    have "(if ?n > 0 then [10] else []) @ key @ [61] @ concat (map escape_byte v) = new"
      by (simp add: new_def dict_line_def)
    then show ?thesis by (simp only: dict_add_def fz option.case)
  qed
  have iff: "snd (dict_add d key v) \<longleftrightarrow> ?n + length new < length d"
    and yes: "?n + length new < length d \<Longrightarrow> \<exists>junk'. fst (dict_add d key v) = s @ new @ 0 # junk'"
    and no: "\<not> ?n + length new < length d \<Longrightarrow> \<exists>junk'. fst (dict_add d key v) = s @ 0 # junk'"
    and len: "length (fst (dict_add d key v)) = length d"
  proof -
    have nd: "?n < length d" by (simp add: d)
    show len: "length (fst (dict_add d key v)) = length d"
      using length_dict_emit [of d ?n new] unfolding add
      by (cases "dict_emit d ?n new") (auto split: bool.split)
    have f: "?n + length new < length d \<Longrightarrow> dict_add d key v =
        ((mem_write d ?n new)[?n + length new := 0], True)"
      by (simp add: add dict_emit_fits)
    have g: "\<not> ?n + length new < length d \<Longrightarrow>
        dict_add d key v = ((fst (dict_emit d ?n new))[?n := 0], False)"
      using dict_emit_overflow [OF nd, of new] unfolding add
      by (cases "dict_emit d ?n new") (auto simp: not_less)
    show "snd (dict_add d key v) \<longleftrightarrow> ?n + length new < length d"
      using f g by (cases "?n + length new < length d") simp_all
    show "\<exists>junk'. fst (dict_add d key v) = s @ new @ 0 # junk'" if fit: "?n + length new < length d"
    proof -
      have "mem_write d ?n new = s @ new @ drop (?n + length new) d"
        by (simp add: mem_write_def d)
      moreover have "drop (?n + length new) d \<noteq> []" using fit by simp
      ultimately show ?thesis using f [OF fit]
        by (cases "drop (?n + length new) d") (auto simp: list_update_append)
    qed
    show "\<exists>junk'. fst (dict_add d key v) = s @ 0 # junk'" if full: "\<not> ?n + length new < length d"
    proof -
      let ?e = "fst (dict_emit d ?n new)"
      have "take ?n ?e = s" using dict_emit_before [of ?n d new] by (simp add: d)
      then have "?e[?n := 0] = s @ 0 # drop (Suc ?n) ?e"
        using nd by (simp add: upd_conv_take_nth_drop)
      then show ?thesis using g [OF full] by auto
    qed
  qed
  show "snd (dict_add d key v) \<longleftrightarrow> length s + length new < length d" by (rule iff)
  show "length (fst (dict_add d key v)) = length d" by (rule len)
  show "snd (dict_add d key v) \<Longrightarrow> \<exists>junk'. fst (dict_add d key v) = s @ new @ 0 # junk'"
    using iff yes by simp
  show "\<not> snd (dict_add d key v) \<Longrightarrow> \<exists>junk'. fst (dict_add d key v) = s @ 0 # junk'"
    using iff no by simp
qed

section \<open>What adding does to lookups\<close>

lemma unesc_escape: "unesc False (concat (map escape_byte v)) = v"
  by (induction v) (auto simp: escape_byte_def unescape_def)

lemma escape_clean: "clean (concat (map escape_byte v))" "61 \<notin> set (concat (map escape_byte v))"
  by (induction v) (auto simp: escape_byte_def is_eol_def)

lemma clean_takeWhile [simp]:
  "clean l \<Longrightarrow> takeWhile (\<lambda>c. \<not> is_eol c) l = l" "clean l \<Longrightarrow> dropWhile (\<lambda>c. \<not> is_eol c) l = []"
  by (simp_all add: clean_def takeWhile_eq_all_conv)

lemma key_prefix_unique:
  assumes "61 \<notin> set key" and "61 \<notin> set e" and "take (Suc (length k)) (key @ [61] @ e) = k @ [61]"
  shows "k = key"
proof -
  have pre: "key @ [61] @ e = k @ [61] @ drop (Suc (length k)) (key @ [61] @ e)"
    using assms(3) append_take_drop_id [of "Suc (length k)" "key @ [61] @ e"] by simp
  then show ?thesis
    using assms(1,2)
    by (auto simp: append_eq_append_conv2 append_eq_Cons_conv Cons_eq_append_conv)
      (metis in_set_conv_decomp)
qed

lemma dlookup_line:
  assumes "clean key" and "61 \<notin> set key"
  shows "dlookup (dict_line key v) k = (if k = key then Some v else None)"
proof -
  let ?e = "concat (map escape_byte v)"
  have c: "clean (dict_line key v)" using assms(1) escape_clean(1) [of v]
    by (simp add: dict_line_def is_eol_def)
  have m: "take (Suc (length k)) (dict_line key v) = k @ [61] \<longleftrightarrow> k = key"
    using key_prefix_unique [OF assms(2) escape_clean(2), of k v] by (auto simp: dict_line_def)
  have "drop (Suc (length key)) (dict_line key v) = ?e" by (simp add: dict_line_def)
  then show ?thesis using c m
    by (subst dlookup.simps) (simp add: Let_def unesc_escape, simp add: dict_line_def)
qed

lemma dlookup_Nil: "dlookup [] k = None"
  by (simp add: dlookup.simps)

lemma dlookup_append:
  assumes "t \<noteq> []"
  shows "s \<noteq> [] \<Longrightarrow> dlookup (s @ 10 # t) k = (case dlookup s k of Some v \<Rightarrow> Some v | None \<Rightarrow> dlookup t k)"
proof (induction s k rule: dlookup.induct)
  case (1 s k)
  let ?l = "takeWhile (\<lambda>c. \<not> is_eol c) s" and ?r = "dropWhile (\<lambda>c. \<not> is_eol c) s"
  have ten: "is_eol 10" by (simp add: is_eol_def)
  show ?case
  proof (cases ?r)
    case Nil
    then have ls: "?l = s" and all: "\<forall>c \<in> set s. \<not> is_eol c"
      by (simp_all add: takeWhile_eq_all_conv)
    have "takeWhile (\<lambda>c. \<not> is_eol c) (s @ 10 # t) = s" "dropWhile (\<lambda>c. \<not> is_eol c) (s @ 10 # t) = 10 # t"
      using all ten by (simp_all add: takeWhile_append2 dropWhile_append2)
    then show ?thesis using "1.prems"
      by (simp add: dlookup.simps [of "s @ 10 # t" k] dlookup.simps [of s k] Let_def ls Nil)
  next
    case (Cons x r)
    have x: "is_eol x" using Cons by (metis hd_dropWhile list.distinct(1) list.sel(1))
    have sr: "s = ?l @ x # r" using Cons by (metis takeWhile_dropWhile_id)
    have all: "\<forall>c \<in> set ?l. \<not> is_eol c" by (auto dest: set_takeWhileD)
    have tw: "takeWhile (\<lambda>c. \<not> is_eol c) (s @ 10 # t) = ?l"
      "dropWhile (\<lambda>c. \<not> is_eol c) (s @ 10 # t) = x # r @ 10 # t"
      using all x by (subst sr, simp add: takeWhile_append2 dropWhile_append2)+
    show ?thesis
    proof (cases "take (Suc (length k)) ?l = k @ [61]")
      case True
      then show ?thesis using "1.prems" tw
        by (simp add: dlookup.simps [of "s @ 10 # t" k] dlookup.simps [of s k] Let_def)
    next
      case False
      have a: "dlookup (s @ 10 # t) k = dlookup (r @ 10 # t) k"
        using "1.prems" tw False by (subst dlookup.simps) (simp add: Let_def)
      have b: "dlookup s k = dlookup r k"
        using "1.prems" Cons False by (subst dlookup.simps) (simp add: Let_def)
      show ?thesis
      proof (cases "r = []")
        case True
        have "dlookup (10 # t) k = dlookup t k"
          using assms ten by (subst dlookup.simps) (simp add: Let_def)
        moreover have "dlookup [] k = None" by (simp add: dlookup.simps)
        ultimately show ?thesis using a b True by simp
      next
        case rn: False
        show ?thesis unfolding a b
          using "1.IH" [OF "1.prems" refl refl False] Cons rn by simp
      qed
    qed
  qed
qed

section \<open>Properties\<close>

text \<open>
  Claim C22: the pointer-walking \<open>get\<close> computes the line-by-line meaning of the text: it returns
  the unescaped value of the first line for the key, cut to the destination with a terminating
  zero, and \<^verbatim>\<open>-1\<close> with an empty string where there is none.
\<close>

theorem dict_get_meaning:
  assumes "0 \<notin> set s" and "clean key" and "0 < n"
  shows "dict_get (s @ 0 # junk) key n = dresult n (dlookup s key)"
  using dict_scan_lookup [OF assms] assms(3) by (simp add: dict_get_def)

theorem dict_get_meaning_witness:
  "dict_get ([97, 61, 49, 10, 98, 61, 92, 110, 50] @ 0 # [98, 61, 51]) [98] 8 = (2, [10, 50, 0])"
  by (subst dict_get_meaning) (simp_all add: is_eol_def dlookup.simps dresult_def unescape_def Let_def)

text \<open>
  After a successful \<open>add\<close> of any value, binary or not, under a legal key that was not
  present, \<open>get\<close> of that key returns exactly the value, if the destination has room for it.
\<close>

lemma dict_add_get:
  assumes s: "0 \<notin> set s" and d: "d = s @ 0 # junk"
    and key: "clean key" "61 \<notin> set key" and absent: "dict_contains d key = False"
    and added: "dict_add d key v = (d', True)" and n: "length v < n"
  shows "dict_get d' key n = (int (length v), v @ [0])"
proof -
  obtain junk' where d': "d' = s @ ((if s = [] then [] else [10]) @ dict_line key v) @ 0 # junk'"
    using dict_add_text(2) [OF s d, of key v] added by auto
  have none: "dlookup s key = None"
    using absent dict_get_meaning [OF s key(1), of 2 junk]
    by (cases "dlookup s key") (auto simp: dict_contains_def d dresult_def)
  have line: "0 \<notin> set (dict_line key v)" "dict_line key v \<noteq> []"
    using key(1) escape_clean(1) [of v] by (auto simp: dict_line_def clean_def)
  let ?t = "s @ (if s = [] then [] else [10]) @ dict_line key v"
  have t: "0 \<notin> set ?t" using s line by auto
  have "dlookup ?t key = Some v"
  proof (cases "s = []")
    case True
    then show ?thesis by (simp add: dlookup_line [OF key])
  next
    case False
    then show ?thesis using dlookup_append [OF line(2) False, of key] none
      by (simp add: dlookup_line [OF key])
  qed
  then have "dict_get d' key n = dresult n (Some v)"
    using dict_get_meaning [OF t key(1), of n junk'] n by (simp add: d')
  then show ?thesis using n by (simp add: dresult_def)
qed

lemma dict_add_get_witness:
  "dict_get (fst (dict_add (replicate 16 0) [107] [1, 0, 61, 10])) [107] 5 = (4, [1, 0, 61, 10, 0])"
proof -
  let ?d = "replicate 16 0 :: u8 list"
  have d: "?d = [] @ 0 # replicate 15 0" by (simp add: eval_nat_numeral)
  have a: "dict_contains ?d [107] = False" by code_simp
  have b: "dict_add ?d [107] [1, 0, 61, 10] = (fst (dict_add ?d [107] [1, 0, 61, 10]), True)"
    by code_simp
  show ?thesis using dict_add_get [OF _ d _ _ a b, of 5] by (simp add: is_eol_def)
qed

text \<open>
  \<open>add\<close> never disturbs other entries: every other key, and every key that was already
  present, reads as before; and when there is no room \<open>add\<close> returns false, which happens exactly
  when the line and its terminator exceed the capacity, and every lookup is unchanged.
\<close>

lemma dict_add_frame:
  assumes s: "0 \<notin> set s" and d: "d = s @ 0 # junk"
    and key: "clean key" "61 \<notin> set key" and k: "clean k" and n: "0 < n"
    and other: "snd (dict_add d key v) \<Longrightarrow> k \<noteq> key \<or> dict_contains d k"
  shows "dict_get (fst (dict_add d key v)) k n = dict_get d k n \<and>
    (snd (dict_add d key v) \<longleftrightarrow>
       length s + (if s = [] then 0 else 1) + length (dict_line key v) + 1 \<le> length d)"
proof -
  let ?new = "(if s = [] then [] else [10]) @ dict_line key v"
  have line: "0 \<notin> set (dict_line key v)" "dict_line key v \<noteq> []"
    using key(1) escape_clean(1) [of v] by (auto simp: dict_line_def clean_def)
  have iff: "snd (dict_add d key v) \<longleftrightarrow> length s + (if s = [] then 0 else 1) + length (dict_line key v) + 1 \<le> length d"
    using dict_add_text(1) [OF s d, of key v] by auto
  have "dict_get (fst (dict_add d key v)) k n = dict_get d k n"
  proof (cases "snd (dict_add d key v)")
    case False
    then obtain junk' where "fst (dict_add d key v) = s @ 0 # junk'"
      using dict_add_text(3) [OF s d] by auto
    then show ?thesis using dict_get_meaning [OF s k n] by (simp add: d)
  next
    case True
    then obtain junk' where d': "fst (dict_add d key v) = s @ ?new @ 0 # junk'"
      using dict_add_text(2) [OF s d] by auto
    have c: "dict_contains d k \<Longrightarrow> dlookup s k \<noteq> None"
      using dict_get_meaning [OF s k, of 2 junk]
      by (cases "dlookup s k") (auto simp: dict_contains_def d dresult_def)
    have "dlookup (s @ ?new) k = dlookup s k"
    proof (cases "s = []")
      case s0: True
      then have "k \<noteq> key" using other [OF True] c by (auto simp: dlookup.simps)
      then show ?thesis using s0 by (simp add: dlookup_line [OF key] dlookup_Nil)
    next
      case False
      then show ?thesis using dlookup_append [OF line(2) False, of k] other [OF True] c
        by (auto simp: dlookup_line [OF key] split: option.split)
    qed
    moreover have "0 \<notin> set (s @ ?new)" using s line by auto
    from dict_get_meaning [OF this k n, of junk'] have "dict_get (fst (dict_add d key v)) k n
        = dresult n (dlookup (s @ ?new) k)" by (simp add: d')
    ultimately show ?thesis using dict_get_meaning [OF s k n, of junk] by (simp add: d)
  qed
  with iff show ?thesis by simp
qed

lemma dict_add_frame_witness:
  "dict_get (fst (dict_add ([97, 61, 49] @ 0 # [0, 0, 0, 0]) [98] [50])) [97] 4
     = dict_get ([97, 61, 49] @ 0 # [0, 0, 0, 0]) [97] 4"
  using dict_add_frame [of "[97, 61, 49]" "[97, 61, 49] @ 0 # [0, 0, 0, 0]" "[0, 0, 0, 0]" "[98]" "[97]" 4 "[50]"]
  by (simp add: is_eol_def)

text \<open>
  A 64-bit integer stored under a new legal key reads back as itself.
\<close>

lemma dict_add_u64_getUI:
  assumes s: "0 \<notin> set s" and d: "d = s @ 0 # junk"
    and key: "clean key" "61 \<notin> set key" and absent: "dict_contains d key = False"
    and added: "dict_add_u64 d key i = (d', True)"
  shows "dict_getUI d' key dfl = i"
proof -
  have "c \<noteq> 0" if "c \<in> set (hex_nibbles 16 i)" for c using set_hex_nibbles [OF that] by simp
  then have t: "takeWhile (\<lambda>c. c \<noteq> 0) (hex64 i) = hex_nibbles 16 i"
    by (simp add: hex64_def takeWhile_append2)
  have "dict_get d' key 128 = (16, hex64 i)"
    using dict_add_get [OF s d key absent, of "hex_nibbles 16 i" d' 128] added t
    by (simp add: dict_add_u64_def hex64_def)
  then show ?thesis by (simp add: dict_getUI_def hexStrToU64_hex64_eq)
qed

lemma dict_add_u64_getUI_witness:
  "dict_getUI (fst (dict_add_u64 (replicate 32 0) [107] 0xDEADBEEF)) [107] 0 = 0xDEADBEEF"
proof -
  let ?d = "replicate 32 0 :: u8 list"
  have d: "?d = [] @ 0 # replicate 31 0" by (simp add: eval_nat_numeral)
  have a: "dict_contains ?d [107] = False" by code_simp
  have b: "dict_add_u64 ?d [107] 0xDEADBEEF = (fst (dict_add_u64 ?d [107] 0xDEADBEEF), True)"
    by code_simp
  show ?thesis using dict_add_u64_getUI [OF _ d _ _ a b, of 0] by (simp add: is_eol_def)
qed

end
