(* ===== verification/ZT_Wire.thy ===== *)
theory ZT_Wire
  imports ZT_Buffer
begin

text \<open>
  What every serializer and deserializer of the core does with a \<^verbatim>\<open>Buffer\<close>: appending
  a run of pieces, and reading pieces back from a position that advances. \<open>appends f bs\<close>
  says the operation \<open>f\<close> appends exactly \<open>bs\<close>, or throws because it does not fit;
  \<open>at_pos b p bs\<close> says \<open>bs\<close> is what the data of \<open>b\<close> holds from \<open>p\<close> on. The locale
  \<open>wire_object\<close> is the contract of a serializable class; its clients get the round trip
  for a single object and for a counted list of objects.
\<close>

section \<open>Buffers of realistic capacity\<close>

text \<open>
  Every buffer of the core is far below 2 GiB, so that adding two lengths cannot wrap.
\<close>

definition small :: "zbuf \<Rightarrow> bool" where
  "small b \<longleftrightarrow> buf_ok b \<and> bcap b < 2 ^ 31"

lemma smallD: "small b \<Longrightarrow> buf_ok b" "small b \<Longrightarrow> bcap b < 2 ^ 31"
  "small b \<Longrightarrow> bsize b \<le> bcap b" "small b \<Longrightarrow> bsize b < 2 ^ 31"
  by (simp_all add: small_def buf_ok_def)

lemma small_length [simp]: "small b \<Longrightarrow> length (bdata b) = bsize b"
  by (simp add: small_def)

lemma small_new [simp]: "length m < 2 ^ 31 \<Longrightarrow> small (buf_new m)"
  by (simp add: small_def buf_ok_def buf_new_def)

lemma bdata_new [simp]: "bdata (buf_new m) = []"
  by (simp add: bdata_def buf_new_def)

lemma unat_of_nat_u32: "k < 2 ^ 31 \<Longrightarrow> unat (of_nat k :: u32) = k"
  by (simp add: unat_of_nat)

section \<open>Appending\<close>

definition fits :: "zbuf \<Rightarrow> u8 list \<Rightarrow> bool" where
  "fits b bs \<longleftrightarrow> bsize b + length bs \<le> bcap b"

definition grown :: "zbuf \<Rightarrow> u8 list \<Rightarrow> zbuf \<Rightarrow> bool" where
  "grown b bs b' \<longleftrightarrow> small b' \<and> bcap b' = bcap b \<and> bdata b' = bdata b @ bs"

definition appends :: "(zbuf \<Rightarrow> zbuf res) \<Rightarrow> u8 list \<Rightarrow> bool" where
  "appends f bs \<longleftrightarrow> (\<forall>b. small b \<longrightarrow>
     (if fits b bs then \<exists>b'. f b = Inr b' \<and> grown b bs b' else f b = Inl OutOfBounds))"

lemma grown_bsize: "small b \<Longrightarrow> grown b bs b' \<Longrightarrow> bsize b' = bsize b + length bs"
  using small_length [of b'] by (simp add: grown_def)

lemma grown_blen: "small b \<Longrightarrow> grown b bs b' \<Longrightarrow> blen b' = blen b + of_nat (length bs)"
proof -
  assume b: "small b" and g: "grown b bs b'"
  have "small b'" using g by (simp add: grown_def)
  then have "bsize b' < 2 ^ 31" by (rule smallD)
  then have "unat (blen b + of_nat (length bs)) = bsize b + length bs"
    using grown_bsize [OF b g] by (simp add: unat_add_of_nat32 bsize_def)
  also have "\<dots> = unat (blen b')" using grown_bsize [OF b g] by (simp add: bsize_def)
  finally show ?thesis by (simp add: word_unat_eq_iff)
qed

lemma appendsD:
  "appends f bs \<Longrightarrow> small b \<Longrightarrow> fits b bs \<Longrightarrow> \<exists>b'. f b = Inr b' \<and> grown b bs b'"
  "appends f bs \<Longrightarrow> small b \<Longrightarrow> \<not> fits b bs \<Longrightarrow> f b = Inl OutOfBounds"
  "appends f bs \<Longrightarrow> small b \<Longrightarrow> f b = Inr b' \<Longrightarrow> grown b bs b' \<and> fits b bs"
proof -
  assume a: "appends f bs" "small b"
  then have x: "if fits b bs then \<exists>b'. f b = Inr b' \<and> grown b bs b' else f b = Inl OutOfBounds"
    by (simp add: appends_def)
  then show "fits b bs \<Longrightarrow> \<exists>b'. f b = Inr b' \<and> grown b bs b'"
    and "\<not> fits b bs \<Longrightarrow> f b = Inl OutOfBounds" by simp_all
  show "f b = Inr b' \<Longrightarrow> grown b bs b' \<and> fits b bs"
    using x by (cases "fits b bs") auto
qed


primrec write_all :: "(zbuf \<Rightarrow> zbuf res) list \<Rightarrow> zbuf \<Rightarrow> zbuf res" where
  "write_all [] b = Inr b"
| "write_all (f # fs) b = bind_res (f b) (write_all fs)"

lemma appends_seq:
  assumes f: "appends f xs" and g: "appends g ys"
  shows "appends (\<lambda>b. bind_res (f b) g) (xs @ ys)"
  unfolding appends_def
proof (intro allI impI)
  fix b assume b: "small b"
  show "if fits b (xs @ ys) then \<exists>b'. bind_res (f b) g = Inr b' \<and> grown b (xs @ ys) b'
        else bind_res (f b) g = Inl OutOfBounds"
  proof (cases "fits b xs")
    case False
    then have "\<not> fits b (xs @ ys)" by (simp add: fits_def)
    then show ?thesis using appendsD(2) [OF f b False] by simp
  next
    case True
    then obtain b1 where b1: "f b = Inr b1" "grown b xs b1" using appendsD(1) [OF f b] by blast
    then have s1: "small b1" and f1: "fits b1 ys = fits b (xs @ ys)"
      using grown_bsize [OF b b1(2)] by (auto simp: grown_def fits_def)
    show ?thesis
    proof (cases "fits b1 ys")
      case False
      then show ?thesis using appendsD(2) [OF g s1 False] b1(1) f1 by simp
    next
      case True
      then obtain b2 where "g b1 = Inr b2" "grown b1 ys b2" using appendsD(1) [OF g s1] by blast
      then show ?thesis using True b1 f1 by (auto simp: grown_def)
    qed
  qed
qed

lemma appends_nil: "appends Inr []"
  by (auto simp: appends_def grown_def fits_def dest: smallD)

lemma appends_write_all:
  "list_all2 appends fs bss \<Longrightarrow> appends (write_all fs) (concat bss)"
proof (induction rule: list_all2_induct)
  case Nil
  have "write_all [] = Inr" by (rule ext) simp
  then show ?case using appends_nil by simp
next
  case (Cons f fs bs bss)
  have "write_all (f # fs) = (\<lambda>b. bind_res (f b) (write_all fs))" by (rule ext) simp
  then show ?case using appends_seq [OF Cons(1) Cons(3)] by simp
qed

lemma appends_int: "appends (buf_append_int n w) (be_bytes n w)"
  unfolding appends_def
proof (intro allI impI)
  fix b assume b: "small b"
  show "if fits b (be_bytes n w) then \<exists>b'. buf_append_int n w b = Inr b' \<and> grown b (be_bytes n w) b'
        else buf_append_int n w b = Inl OutOfBounds"
  proof (cases "fits b (be_bytes n w)")
    case True
    then obtain b' where e: "buf_append_int n w b = Inr b'"
      using buf_append_int_ok [OF smallD(1) [OF b], of n w] by (auto simp: fits_def)
    then show ?thesis
      using True buf_append_int_Inr [OF smallD(1) [OF b] e] b by (simp add: grown_def small_def)
  next
    case False
    then show ?thesis by (simp add: buf_append_int_def fits_def)
  qed
qed

lemma appends_u8: "appends (buf_append_int (Suc 0) (v :: u8)) [v]"
  using appends_int [of 1 v] by (simp add: be_bytes_eval)

lemma fits_new: "length bs \<le> n \<Longrightarrow> fits (buf_new (replicate n 0)) bs"
  by (simp add: fits_def buf_new_def)

lemma ser_new:
  assumes "appends ser enc" "length enc \<le> n" "n < 2 ^ 31"
  obtains b where "ser (buf_new (replicate n 0)) = Inr b" "bdata b = enc"
proof -
  have "small (buf_new (replicate n 0))" using assms(3) by simp
  then show ?thesis
    using appendsD(1) [OF assms(1) _ fits_new [OF assms(2)]] that by (auto simp: grown_def)
qed

lemma appends_bytes:
  assumes len: "unat l = length bs" and sm: "length bs < 2 ^ 31"
  shows "appends (buf_append_bytes bs l) bs"
  unfolding appends_def
proof (intro allI impI)
  fix b assume b: "small b"
  have u: "unat (blen b + l) = bsize b + length bs"
    using smallD(4) [OF b] len sm by (simp add: bsize_def unat_word_ariths)
  have chk: "(blen b + l > bcap32 b) \<longleftrightarrow> \<not> fits b bs"
    using smallD(2) [OF b] u by (auto simp: bcap32_less fits_def)
  show "if fits b bs then \<exists>b'. buf_append_bytes bs l b = Inr b' \<and> grown b bs b'
        else buf_append_bytes bs l b = Inl OutOfBounds"
  proof (cases "fits b bs")
    case True
    then obtain b' where e: "buf_append_bytes bs l b = Inr b'"
      using chk len by (auto simp: buf_append_bytes_def fits_def)
    then show ?thesis
      using True buf_append_bytes_Inr [OF smallD(1) [OF b] e] len b
      by (simp add: grown_def small_def)
  next
    case False
    then show ?thesis using chk by (simp add: buf_append_bytes_def)
  qed
qed

lemma appends_run:
  assumes "unat n < 2 ^ 31" shows "appends (buf_append_run c n) (replicate (unat n) c)"
proof -
  have "buf_append_run c n = buf_append_bytes (replicate (unat n) c) n"
    by (rule ext) (simp add: buf_append_run_def buf_append_bytes_def)
  then show ?thesis using appends_bytes [of n "replicate (unat n) c"] assms by simp
qed

text \<open>
  The idiom \<^verbatim>\<open>p = b.appendField(n)\<close> followed by filling the field through \<^verbatim>\<open>p\<close>.
\<close>

definition buf_append_filled :: "u8 list \<Rightarrow> zbuf \<Rightarrow> zbuf res" where
  "buf_append_filled bs b =
     bind_res (buf_append_field (of_nat (length bs)) b)
       (\<lambda>(off, b'). Inr (b'\<lparr>bmem := mem_write (bmem b') off bs\<rparr>))"

lemma appends_filled:
  assumes sm: "length bs < 2 ^ 31"
  shows "appends (buf_append_filled bs) bs"
proof -
  have l: "unat (of_nat (length bs) :: u32) = length bs" using sm by (simp add: unat_of_nat)
  have "small b \<Longrightarrow> buf_append_filled bs b = buf_append_bytes bs (of_nat (length bs)) b" for b
  proof -
    assume b: "small b"
    have "unat (blen b + of_nat (length bs)) = bsize b + length bs"
      using smallD(4) [OF b] l sm by (simp add: bsize_def unat_word_ariths)
    then have "bcap32 b < blen b + of_nat (length bs) \<or> bsize b + length bs \<le> bcap b"
      using smallD(2) [OF b] by (auto simp: bcap32_less)
    then show ?thesis
      using l by (auto simp: buf_append_filled_def buf_append_field_def buf_append_bytes_def)
  qed
  then show ?thesis using appends_bytes [OF l sm] by (simp add: appends_def)
qed

section \<open>Reading\<close>

definition at_pos :: "zbuf \<Rightarrow> u32 \<Rightarrow> u8 list \<Rightarrow> bool" where
  "at_pos b p bs \<longleftrightarrow> small b \<and> unat p + length bs = bsize b \<and> drop (unat p) (bdata b) = bs"

lemma at_posD:
  "at_pos b p bs \<Longrightarrow> small b" "at_pos b p bs \<Longrightarrow> unat p + length bs = bsize b"
  "at_pos b p bs \<Longrightarrow> unat p + length bs < 2 ^ 31"
  using smallD(4) [of b] by (auto simp: at_pos_def)

lemma at_pos_mem:
  assumes "at_pos b p bs" and "k + n \<le> length bs"
  shows "take n (drop (unat p + k) (bmem b)) = take n (drop k bs)"
proof -
  have "drop k bs = drop (unat p + k) (bdata b)"
    using assms(1) by (metis at_pos_def drop_drop add.commute)
  moreover have "take n (drop (unat p + k) (bdata b)) = take n (drop (unat p + k) (bmem b))"
    using assms at_posD(2) [OF assms(1)] by (simp add: bdata_def drop_take min_def)
  ultimately show ?thesis by simp
qed

lemma at_pos_unat:
  "at_pos b p bs \<Longrightarrow> unat k < 2 ^ 31 \<Longrightarrow> unat (p + k) = unat p + unat k"
  using at_posD(3) [of b p bs] by (simp add: unat_word_ariths)

lemma at_pos_at:
  assumes a: "at_pos b p bs" and k: "unat k < 2 ^ 31"
  shows "buf_at n b (p + k) =
    (if unat k + n \<le> length bs then Inr (be_val (take n (drop (unat k) bs))) else Inl OutOfBounds)"
  using at_pos_unat [OF a k] at_posD(2) [OF a] at_pos_mem [OF a, of "unat k" n]
  by (auto simp: buf_at_def)

lemma at_pos_get:
  assumes a: "at_pos b p bs" and k: "unat k < 2 ^ 31"
  shows "buf_get b (p + k) =
    (if unat k < length bs then Inr (bs ! unat k) else Inl OutOfBounds)"
proof -
  have e: "blen b \<le> p + k \<longleftrightarrow> \<not> unat k < length bs"
    using at_pos_unat [OF a k] at_posD(2) [OF a] by (auto simp: word_le_nat_alt bsize_def)
  have "unat k < length bs \<Longrightarrow> bmem b ! (unat p + unat k) = bs ! unat k"
  proof -
    assume l: "unat k < length bs"
    have "bs ! unat k = bdata b ! (unat p + unat k)"
      using a l by (auto simp: at_pos_def)
    then show ?thesis using l at_posD(2) [OF a] by (simp add: bdata_def)
  qed
  then show ?thesis using e at_pos_unat [OF a k] by (simp add: buf_get_def)
qed

text \<open>The idiom \<^verbatim>\<open>memcpy(dst, b.field(p, l), l)\<close>.\<close>

definition buf_bytes :: "zbuf \<Rightarrow> u32 \<Rightarrow> u32 \<Rightarrow> u8 list res" where
  "buf_bytes b p l = bind_res (buf_field b p l) (\<lambda>off. buf_read b off (unat l))"

lemma at_pos_bytes:
  assumes a: "at_pos b p bs" and k: "unat k < 2 ^ 30" and l: "unat l < 2 ^ 30"
  shows "buf_bytes b (p + k) l =
    (if unat k + unat l \<le> length bs then Inr (take (unat l) (drop (unat k) bs)) else Inl OutOfBounds)"
proof -
  have u: "unat (p + k) = unat p + unat k" using at_pos_unat [OF a, of k] k by simp
  then have "unat (p + k + l) = unat p + unat k + unat l"
    using at_posD(3) [OF a] k l by (simp add: unat_word_ariths)
  then have c: "(p + k + l > blen b) \<longleftrightarrow> \<not> unat k + unat l \<le> length bs"
    using at_posD(2) [OF a] by (auto simp: word_less_nat_alt bsize_def)
  show ?thesis
    using c u at_posD(2) [OF a] smallD(3) [OF at_posD(1) [OF a]] at_pos_mem [OF a, of "unat k" "unat l"]
    by (auto simp: buf_bytes_def buf_field_def buf_read_def)
qed

lemma at_pos_drop:
  assumes a: "at_pos b p bs" and k: "unat k \<le> length bs"
  shows "at_pos b (p + k) (drop (unat k) bs)"
proof -
  have "unat k < 2 ^ 31" using at_posD(3) [OF a] k by linarith
  then show ?thesis
    using at_pos_unat [OF a, of k] a k by (auto simp: at_pos_def add.commute)
qed

lemma at_pos_skip:
  assumes "at_pos b p (xs @ ys)" and "unat k = length xs"
  shows "at_pos b (p + k) ys"
  using at_pos_drop [OF assms(1), of k] assms(2) by simp

text \<open>Reads at the position itself.\<close>

lemmas at_pos_at0 = at_pos_at [where k = 0, simplified]
lemmas at_pos_get0 = at_pos_get [where k = 0, simplified]
lemmas at_pos_bytes0 = at_pos_bytes [where k = 0, simplified]
text \<open>The offset on the left, as the simplifier orders numerals.\<close>

lemma at_pos_left:
  assumes a: "at_pos b p bs"
  shows "unat k < 2 ^ 31 \<Longrightarrow> buf_at n b (k + p) =
    (if unat k + n \<le> length bs then Inr (be_val (take n (drop (unat k) bs))) else Inl OutOfBounds)"
    and "unat k < 2 ^ 31 \<Longrightarrow> buf_get b (k + p) =
    (if unat k < length bs then Inr (bs ! unat k) else Inl OutOfBounds)"
    and "unat k < 2 ^ 30 \<Longrightarrow> unat l < 2 ^ 30 \<Longrightarrow> buf_bytes b (k + p) l =
    (if unat k + unat l \<le> length bs then Inr (take (unat l) (drop (unat k) bs)) else Inl OutOfBounds)"
  using at_pos_at [OF a, of k n] at_pos_get [OF a, of k] at_pos_bytes [OF a, of k l]
  by (simp_all add: add.commute)

lemmas at_pos_reads = at_pos_at at_pos_get at_pos_bytes at_pos_at0 at_pos_get0 at_pos_bytes0
  at_pos_left

text \<open>What was appended is what the old end points at.\<close>

lemma at_pos_grown:
  assumes "small b" "grown b bs b'"
  shows "at_pos b' (blen b) bs"
proof -
  have "small b'" "bdata b' = bdata b @ bs" using assms(2) by (simp_all add: grown_def)
  moreover have "unat (blen b) = length (bdata b)" using assms(1) by (simp add: bsize_def)
  ultimately show ?thesis using grown_bsize [OF assms] by (simp add: at_pos_def bsize_def)
qed

lemma at_pos_start: "small b \<Longrightarrow> at_pos b 0 (bdata b)"
  by (simp add: at_pos_def)

section \<open>Serializable classes\<close>

text \<open>A loop that serializes a list, and one that deserializes \<open>n\<close> objects in a row.\<close>

primrec ser_list :: "('a \<Rightarrow> zbuf \<Rightarrow> zbuf res) \<Rightarrow> 'a list \<Rightarrow> zbuf \<Rightarrow> zbuf res" where
  "ser_list ser [] b = Inr b"
| "ser_list ser (x # xs) b = bind_res (ser x b) (ser_list ser xs)"

primrec des_list :: "(zbuf \<Rightarrow> u32 \<Rightarrow> ('a \<times> u32) res) \<Rightarrow> nat \<Rightarrow> zbuf \<Rightarrow> u32 \<Rightarrow> ('a list \<times> u32) res" where
  "des_list des 0 b p = Inr ([], p)"
| "des_list des (Suc n) b p =
     bind_res (des b p) (\<lambda>(x, l). bind_res (des_list des n b (p + l)) (\<lambda>(xs, q). Inr (x # xs, q)))"

locale wire_object =
  fixes ser :: "'a \<Rightarrow> zbuf \<Rightarrow> zbuf res"
    and des :: "zbuf \<Rightarrow> u32 \<Rightarrow> ('a \<times> u32) res"
    and enc :: "'a \<Rightarrow> u8 list"
    and ok :: "'a \<Rightarrow> bool"
  assumes ser_appends: "ok x \<Longrightarrow> appends (ser x) (enc x)"
    and des_enc: "ok x \<Longrightarrow> at_pos b p (enc x @ rest) \<Longrightarrow> des b p = Inr (x, of_nat (length (enc x)))"
    and enc_len: "ok x \<Longrightarrow> length (enc x) < 2 ^ 31"
begin

lemma roundtrip:
  assumes "ok x" "small b" "ser x b = Inr b'"
  shows "des b' (blen b) = Inr (x, of_nat (length (enc x)))"
    and "blen b' = blen b + of_nat (length (enc x))" and "bdata b' = bdata b @ enc x"
proof -
  have g: "grown b (enc x) b'" using appendsD(3) [OF ser_appends] assms by blast
  then have "at_pos b' (blen b) (enc x @ [])" using at_pos_grown [OF assms(2)] by simp
  then show "des b' (blen b) = Inr (x, of_nat (length (enc x)))" by (rule des_enc [OF assms(1)])
  show "blen b' = blen b + of_nat (length (enc x))" by (rule grown_blen [OF assms(2) g])
  show "bdata b' = bdata b @ enc x" using g by (simp add: grown_def)
qed

lemma list_appends:
  "\<forall>x\<in>set xs. ok x \<Longrightarrow> appends (ser_list ser xs) (concat (map enc xs))"
proof (induction xs)
  case Nil
  have "ser_list ser [] = Inr" by (rule ext) simp
  then show ?case using appends_nil by simp
next
  case (Cons x xs)
  have "ser_list ser (x # xs) = (\<lambda>b. bind_res (ser x b) (ser_list ser xs))" by (rule ext) simp
  then show ?case using appends_seq [OF ser_appends Cons.IH] Cons.prems by simp
qed

lemma list_des:
  assumes "\<forall>x\<in>set xs. ok x" "at_pos b p (concat (map enc xs) @ rest)"
  shows "des_list des (length xs) b p = Inr (xs, p + of_nat (length (concat (map enc xs))))"
  using assms
proof (induction xs arbitrary: p)
  case Nil
  then show ?case by simp
next
  case (Cons x xs)
  have x: "ok x" using Cons.prems by simp
  have pos: "at_pos b p (enc x @ concat (map enc xs) @ rest)" using Cons.prems by simp
  have "unat (of_nat (length (enc x)) :: u32) = length (enc x)"
    using enc_len [OF x] by (simp add: unat_of_nat)
  then have "at_pos b (p + of_nat (length (enc x))) (concat (map enc xs) @ rest)"
    by (rule at_pos_skip [OF pos])
  then have "des_list des (length xs) b (p + of_nat (length (enc x)))
      = Inr (xs, p + of_nat (length (enc x)) + of_nat (length (concat (map enc xs))))"
    using Cons.IH Cons.prems by simp
  then show ?case using des_enc [OF x pos] by (simp add: algebra_simps)
qed

lemma list_roundtrip:
  assumes "\<forall>x\<in>set xs. ok x" "small b" "ser_list ser xs b = Inr b'"
  shows "des_list des (length xs) b' (blen b) = Inr (xs, blen b')"
proof -
  have g: "grown b (concat (map enc xs)) b'"
    using appendsD(3) [OF list_appends [OF assms(1)] assms(2,3)] by blast
  then have "at_pos b' (blen b) (concat (map enc xs) @ [])" using at_pos_grown [OF assms(2)] by simp
  from list_des [OF assms(1) this] show ?thesis using grown_blen [OF assms(2) g] by simp
qed

end

end
