(* ===== verification/ZT_Address.thy ===== *)
theory ZT_Address
  imports ZT_Wire ZT_Utils
begin

text \<open>
  \<^verbatim>\<open>node/Address.hpp\<close> and \<^verbatim>\<open>node/MAC.hpp\<close>: the 40-bit node address and the 48-bit
  Ethernet address, both kept in a \<^verbatim>\<open>uint64_t\<close>. The byte forms are written out as the code
  shifts them and proved equal to the big-endian codecs; \<open>fromAddress\<close> and \<open>toAddress\<close>
  derive a MAC on a network from a node address and back.
\<close>

section \<open>Node addresses\<close>

datatype address = Address (addr_int: u64)

definition addr_of :: "u64 \<Rightarrow> address" where
  "addr_of a = Address (a AND 0xffffffffff)"

text \<open>Every constructor and assignment from an integer masks, so the value has 40 bits.\<close>

definition addr_ok :: "address \<Rightarrow> bool" where
  "addr_ok a \<longleftrightarrow> take_bit 40 (addr_int a) = addr_int a"

definition addr_nil :: address where
  "addr_nil = Address 0"

definition addr_setTo :: "u8 list \<Rightarrow> nat \<Rightarrow> address" where
  "addr_setTo b len =
     (if len < 5 then Address 0
      else Address (push_bit 32 (ucast (b ! 0)) OR push_bit 24 (ucast (b ! 1))
        OR push_bit 16 (ucast (b ! 2)) OR push_bit 8 (ucast (b ! 3)) OR ucast (b ! 4)))"

definition addr_bytes :: "address \<Rightarrow> u8 list" where
  "addr_bytes a =
     [ucast (drop_bit 32 (addr_int a) AND 0xff), ucast (drop_bit 24 (addr_int a) AND 0xff),
      ucast (drop_bit 16 (addr_int a) AND 0xff), ucast (drop_bit 8 (addr_int a) AND 0xff),
      ucast (addr_int a AND 0xff)]"

definition addr_copyTo :: "address \<Rightarrow> u8 list \<Rightarrow> nat \<Rightarrow> u8 list" where
  "addr_copyTo a buf len = (if len < 5 then buf else mem_write buf 0 (addr_bytes a))"

definition addr_appendTo :: "address \<Rightarrow> zbuf \<Rightarrow> zbuf res" where
  "addr_appendTo a b = buf_append_filled (addr_bytes a) b"

text \<open>The readers' idiom \<^verbatim>\<open>setTo(b.field(p, 5), 5)\<close>.\<close>

definition addr_read :: "zbuf \<Rightarrow> u32 \<Rightarrow> address res" where
  "addr_read b p = bind_res (buf_bytes b p 5) (\<lambda>bs. Inr (addr_setTo bs 5))"

definition addr_bool :: "address \<Rightarrow> bool" where
  "addr_bool a \<longleftrightarrow> addr_int a \<noteq> 0"

definition addr_isReserved :: "address \<Rightarrow> bool" where
  "addr_isReserved a \<longleftrightarrow> addr_int a = 0 \<or> drop_bit 32 (addr_int a) = 0xff"

definition addr_byte :: "address \<Rightarrow> nat \<Rightarrow> u8" where
  "addr_byte a i = ucast (drop_bit (32 - i * 8) (addr_int a))"

definition addr_toString :: "address \<Rightarrow> u8 list" where
  "addr_toString a = hex10 (addr_int a)"

definition addr_hash :: "address \<Rightarrow> u64" where
  "addr_hash a = addr_int a"

definition hc_addr :: "address \<Rightarrow> nat" where
  "hc_addr a = unat (addr_hash a)"

definition addr_eq_int :: "address \<Rightarrow> u64 \<Rightarrow> bool" where
  "addr_eq_int a i \<longleftrightarrow> addr_int a = i AND 0xffffffffff"

definition addr_less_int :: "address \<Rightarrow> u64 \<Rightarrow> bool" where
  "addr_less_int a i \<longleftrightarrow> addr_int a < i AND 0xffffffffff"

instantiation address :: linorder
begin

definition less_address :: "address \<Rightarrow> address \<Rightarrow> bool" where
  "less_address a b \<longleftrightarrow> addr_int a < addr_int b"

definition less_eq_address :: "address \<Rightarrow> address \<Rightarrow> bool" where
  "less_eq_address a b \<longleftrightarrow> addr_int a \<le> addr_int b"

instance
  by standard (auto simp: less_address_def less_eq_address_def intro: address.expand)

end

section \<open>MAC addresses\<close>

datatype mac = MAC (mac_int: u64)

definition mac_zero :: mac where
  "mac_zero = MAC 0"

definition mac_of :: "u64 \<Rightarrow> mac" where
  "mac_of m = MAC (m AND 0xffffffffffff)"

definition mac_assign :: "u64 \<Rightarrow> mac" where
  "mac_assign m = MAC m"

definition mac_of6 :: "u8 \<Rightarrow> u8 \<Rightarrow> u8 \<Rightarrow> u8 \<Rightarrow> u8 \<Rightarrow> u8 \<Rightarrow> mac" where
  "mac_of6 a b c d e f =
     MAC (push_bit 40 (ucast a AND 0xff) OR push_bit 32 (ucast b AND 0xff)
       OR push_bit 24 (ucast c AND 0xff) OR push_bit 16 (ucast d AND 0xff)
       OR push_bit 8 (ucast e AND 0xff) OR (ucast f AND 0xff))"

definition mac_ok :: "mac \<Rightarrow> bool" where
  "mac_ok m \<longleftrightarrow> take_bit 48 (mac_int m) = mac_int m"

definition mac_setTo :: "u8 list \<Rightarrow> nat \<Rightarrow> mac" where
  "mac_setTo b len =
     (if len < 6 then MAC 0
      else MAC (push_bit 40 (ucast (b ! 0) AND 0xff) OR push_bit 32 (ucast (b ! 1) AND 0xff)
        OR push_bit 24 (ucast (b ! 2) AND 0xff) OR push_bit 16 (ucast (b ! 3) AND 0xff)
        OR push_bit 8 (ucast (b ! 4) AND 0xff) OR (ucast (b ! 5) AND 0xff)))"

definition mac_bytes :: "mac \<Rightarrow> u8 list" where
  "mac_bytes m =
     [ucast (drop_bit 40 (mac_int m) AND 0xff), ucast (drop_bit 32 (mac_int m) AND 0xff),
      ucast (drop_bit 24 (mac_int m) AND 0xff), ucast (drop_bit 16 (mac_int m) AND 0xff),
      ucast (drop_bit 8 (mac_int m) AND 0xff), ucast (mac_int m AND 0xff)]"

definition mac_copyTo :: "mac \<Rightarrow> u8 list \<Rightarrow> nat \<Rightarrow> u8 list" where
  "mac_copyTo m buf len = (if len < 6 then buf else mem_write buf 0 (mac_bytes m))"

definition mac_appendTo :: "mac \<Rightarrow> zbuf \<Rightarrow> zbuf res" where
  "mac_appendTo m b = buf_append_filled (mac_bytes m) b"

definition mac_read :: "zbuf \<Rightarrow> u32 \<Rightarrow> mac res" where
  "mac_read b p = bind_res (buf_bytes b p 6) (\<lambda>bs. Inr (mac_setTo bs 6))"

definition mac_bool :: "mac \<Rightarrow> bool" where
  "mac_bool m \<longleftrightarrow> mac_int m \<noteq> 0"

definition mac_isBroadcast :: "mac \<Rightarrow> bool" where
  "mac_isBroadcast m \<longleftrightarrow> mac_int m = 0xffffffffffff"

definition mac_isMulticast :: "mac \<Rightarrow> bool" where
  "mac_isMulticast m \<longleftrightarrow> mac_int m AND 0x010000000000 \<noteq> 0"

definition mac_isLocallyAdministered :: "mac \<Rightarrow> bool" where
  "mac_isLocallyAdministered m \<longleftrightarrow> mac_int m AND 0x020000000000 \<noteq> 0"

definition firstOctetForNetwork :: "u64 \<Rightarrow> u8" where
  "firstOctetForNetwork nwid =
     (let a = ucast (nwid AND 0xfe) OR 0x02 in if a = 0x52 then 0x32 else a)"

definition mac_fromAddress :: "address \<Rightarrow> u64 \<Rightarrow> mac" where
  "mac_fromAddress ztaddr nwid =
     (let m = push_bit 40 (ucast (firstOctetForNetwork nwid));
          m = m OR addr_int ztaddr;
          m = m XOR push_bit 32 (drop_bit 8 nwid AND 0xff);
          m = m XOR push_bit 24 (drop_bit 16 nwid AND 0xff);
          m = m XOR push_bit 16 (drop_bit 24 nwid AND 0xff);
          m = m XOR push_bit 8 (drop_bit 32 nwid AND 0xff);
          m = m XOR (drop_bit 40 nwid AND 0xff)
      in MAC m)"

definition mac_toAddress :: "mac \<Rightarrow> u64 \<Rightarrow> address" where
  "mac_toAddress mc nwid =
     (let a = mac_int mc AND 0xffffffffff;
          a = a XOR push_bit 32 (drop_bit 8 nwid AND 0xff);
          a = a XOR push_bit 24 (drop_bit 16 nwid AND 0xff);
          a = a XOR push_bit 16 (drop_bit 24 nwid AND 0xff);
          a = a XOR push_bit 8 (drop_bit 32 nwid AND 0xff);
          a = a XOR (drop_bit 40 nwid AND 0xff)
      in addr_of a)"

definition mac_byte :: "mac \<Rightarrow> nat \<Rightarrow> u8" where
  "mac_byte m i = ucast (drop_bit (40 - i * 8) (mac_int m) AND 0xff)"

definition mac_hash :: "mac \<Rightarrow> u64" where
  "mac_hash m = mac_int m"

definition mac_toString :: "mac \<Rightarrow> u8 list" where
  "mac_toString m =
     (let h = (\<lambda>k. HEXCHARS ! unat (drop_bit k (mac_int m) AND 0xf)) in
      [h 44, h 40, 58, h 36, h 32, 58, h 28, h 24, 58, h 20, h 16, 58, h 12, h 8, 58, h 4, h 0, 0])"

instantiation mac :: linorder
begin

definition less_mac :: "mac \<Rightarrow> mac \<Rightarrow> bool" where
  "less_mac a b \<longleftrightarrow> mac_int a < mac_int b"

definition less_eq_mac :: "mac \<Rightarrow> mac \<Rightarrow> bool" where
  "less_eq_mac a b \<longleftrightarrow> mac_int a \<le> mac_int b"

instance
  by standard (auto simp: less_mac_def less_eq_mac_def intro: mac.expand)

end

section \<open>The byte forms are the big-endian codecs\<close>

lemma mask8: "(x :: u64) AND 0xff = take_bit 8 x"
  by (simp add: take_bit_eq_mask mask_eq_exp_minus_1)

lemma mask40: "(x :: u64) AND 0xffffffffff = take_bit 40 x"
  by (simp add: take_bit_eq_mask mask_eq_exp_minus_1)

lemma mask48: "(x :: u64) AND 0xffffffffffff = take_bit 48 x"
  by (simp add: take_bit_eq_mask mask_eq_exp_minus_1)

lemma ucast_take_bit8: "(ucast (take_bit 8 (x :: u64)) :: u8) = ucast x"
  by (rule bit_word_eqI) (simp add: bit_ucast_iff bit_take_bit_iff)

lemma take_bit8_ucast: "take_bit 8 (ucast (x :: u8) :: u64) = ucast x"
  by (rule bit_word_eqI) (auto simp: bit_ucast_iff bit_take_bit_iff dest: bit_imp_le_length)

lemma addr_bytes_be: "addr_bytes a = be_bytes 5 (addr_int a)"
  by (simp add: addr_bytes_def mask8 ucast_take_bit8 be_bytes_eval)

lemma mac_bytes_be: "mac_bytes m = be_bytes 6 (mac_int m)"
  by (simp add: mac_bytes_def mask8 ucast_take_bit8 be_bytes_eval)

lemma length_addr_bytes [simp, wire_simps]: "length (addr_bytes a) = 5"
  by (simp add: addr_bytes_be)

lemma length_mac_bytes [simp, wire_simps]: "length (mac_bytes m) = 6"
  by (simp add: mac_bytes_be)

lemma list_of_length:
  "length xs = 5 \<Longrightarrow> \<exists>a b c d e. xs = [a, b, c, d, e]"
  "length xs = 6 \<Longrightarrow> \<exists>a b c d e f. xs = [a, b, c, d, e, f]"
  by (auto simp: length_Suc_conv numeral_eq_Suc)

lemma addr_setTo_be:
  assumes "length bs = 5" shows "addr_setTo bs 5 = Address (be_val bs)"
proof -
  obtain a b c d e where "bs = [a, b, c, d, e]" using list_of_length(1) [OF assms] by blast
  then show ?thesis by (simp add: addr_setTo_def be_val_def push_bit_or or.assoc)
qed

lemma mac_setTo_be:
  assumes "length bs = 6" shows "mac_setTo bs 6 = MAC (be_val bs)"
proof -
  obtain a b c d e f where "bs = [a, b, c, d, e, f]" using list_of_length(2) [OF assms] by blast
  then show ?thesis
    by (simp add: mac_setTo_def be_val_def mask8 take_bit8_ucast push_bit_or or.assoc)
qed

lemma be_val_be_bytes_take: "be_val (be_bytes n (w :: 'a::len word)) = take_bit (8 * n) w"
proof (rule bit_word_eqI)
  fix i assume i: "i < LENGTH('a)"
  show "bit (be_val (be_bytes n w) :: 'a word) i = bit (take_bit (8 * n) w) i"
  proof (cases "i < 8 * n")
    case True
    then have "i div 8 < n" by (simp add: less_mult_imp_div_less mult.commute)
    then have k: "n - 1 - i div 8 < n" "n - 1 - (n - 1 - i div 8) = i div 8" by auto
    have "8 * (i div 8) + i mod 8 = i" by simp
    then show ?thesis
      using True i k by (auto simp: bit_be_val be_bytes_nth bit_ucast_iff bit_drop_bit_eq
          bit_take_bit_iff dest: bit_imp_le_length)
  next
    case False
    then show ?thesis by (simp add: bit_be_val bit_take_bit_iff)
  qed
qed

lemma addr_setTo_bytes [simp, wire_simps]:
  "addr_ok a \<Longrightarrow> addr_setTo (addr_bytes a) 5 = a"
  by (cases a) (simp add: addr_setTo_be addr_bytes_be be_val_be_bytes_take addr_ok_def)

lemma mac_setTo_bytes [simp, wire_simps]:
  "mac_ok m \<Longrightarrow> mac_setTo (mac_bytes m) 6 = m"
  by (cases m) (simp add: mac_setTo_be mac_bytes_be be_val_be_bytes_take mac_ok_def)

lemma appends_addr: "appends (addr_appendTo a) (addr_bytes a)"
  using appends_filled [of "addr_bytes a"] by (simp add: addr_appendTo_def [abs_def])

lemma appends_mac: "appends (mac_appendTo m) (mac_bytes m)"
  using appends_filled [of "mac_bytes m"] by (simp add: mac_appendTo_def [abs_def])

lemma at_pos_addr:
  assumes "at_pos b p bs" and "unat k < 2 ^ 30"
  shows "addr_read b (p + k) =
    (if unat k + 5 \<le> length bs then Inr (addr_setTo (take 5 (drop (unat k) bs)) 5) else Inl OutOfBounds)"
  using at_pos_bytes [OF assms, of 5] by (simp add: addr_read_def)

lemma at_pos_addr_left:
  assumes "at_pos b p bs" and "unat k < 2 ^ 30"
  shows "addr_read b (k + p) =
    (if unat k + 5 \<le> length bs then Inr (addr_setTo (take 5 (drop (unat k) bs)) 5) else Inl OutOfBounds)"
  using at_pos_addr [OF assms] by (simp add: add.commute)

lemmas at_pos_addrs = at_pos_addr at_pos_addr_left at_pos_addr [where k = 0, simplified]

lemma at_pos_mac:
  assumes "at_pos b p bs" and "unat k < 2 ^ 30"
  shows "mac_read b (p + k) =
    (if unat k + 6 \<le> length bs then Inr (mac_setTo (take 6 (drop (unat k) bs)) 6) else Inl OutOfBounds)"
  using at_pos_bytes [OF assms, of 6] by (simp add: mac_read_def)

section \<open>Wire contract\<close>

definition addr_des :: "zbuf \<Rightarrow> u32 \<Rightarrow> (address \<times> u32) res" where
  "addr_des b p = bind_res (addr_read b p) (\<lambda>a. Inr (a, 5))"

definition mac_des :: "zbuf \<Rightarrow> u32 \<Rightarrow> (mac \<times> u32) res" where
  "mac_des b p = bind_res (mac_read b p) (\<lambda>m. Inr (m, 6))"

interpretation addr_wire: wire_object addr_appendTo addr_des addr_bytes addr_ok
proof unfold_locales
  fix x :: address and b p rest
  assume "addr_ok x" and "at_pos b p (addr_bytes x @ rest)"
  then show "addr_des b p = Inr (x, of_nat (length (addr_bytes x)))"
    using at_pos_addr [of b p _ 0] by (simp add: addr_des_def)
qed (simp_all add: appends_addr)

interpretation mac_wire: wire_object mac_appendTo mac_des mac_bytes mac_ok
proof unfold_locales
  fix x :: mac and b p rest
  assume "mac_ok x" and "at_pos b p (mac_bytes x @ rest)"
  then show "mac_des b p = Inr (x, of_nat (length (mac_bytes x)))"
    using at_pos_mac [of b p _ 0] by (simp add: mac_des_def)
qed (simp_all add: appends_mac)

section \<open>A node's MAC on a network\<close>

lemma addr_ok_intros [intro, simp]:
  "addr_ok (addr_of a)" "addr_ok addr_nil"
  by (simp_all add: addr_ok_def addr_of_def addr_nil_def mask40)

lemma addr_ok_setTo [intro, simp]: "length bs = 5 \<Longrightarrow> addr_ok (addr_setTo bs 5)"
proof -
  assume l: "length bs = 5"
  have "take_bit 40 (be_val bs :: u64) = be_val bs"
    using be_val_be_bytes_take [of "length bs" "be_val bs :: u64"] be_bytes_be_val [of bs, where 'a = 64] l
    by simp
  then show ?thesis using l by (simp add: addr_ok_def addr_setTo_be)
qed

definition nwid_mask :: "u64 \<Rightarrow> u64" where
  "nwid_mask nwid = push_bit 32 (take_bit 8 (drop_bit 8 nwid)) XOR
     (push_bit 24 (take_bit 8 (drop_bit 16 nwid)) XOR
     (push_bit 16 (take_bit 8 (drop_bit 24 nwid)) XOR
     (push_bit 8 (take_bit 8 (drop_bit 32 nwid)) XOR
      take_bit 8 (drop_bit 40 nwid))))"

lemma take_bit_nwid_mask: "40 \<le> n \<Longrightarrow> take_bit n (nwid_mask nwid) = nwid_mask nwid"
  by (simp add: nwid_mask_def take_bit_push_bit)

lemma mac_fromAddress_mask:
  "mac_fromAddress a nwid = MAC ((push_bit 40 (ucast (firstOctetForNetwork nwid)) OR addr_int a)
     XOR nwid_mask nwid)"
  by (simp add: mac_fromAddress_def Let_def mask8 nwid_mask_def xor.assoc)

lemma mac_toAddress_mask:
  "mac_toAddress m nwid = Address (take_bit 40 (mac_int m) XOR nwid_mask nwid)"
  using take_bit_nwid_mask [of 40 nwid]
  by (simp add: mac_toAddress_def Let_def mask8 mask40 addr_of_def nwid_mask_def xor.assoc
      del: take_bit_xor) (simp add: take_bit_push_bit)

lemma not_bit_nwid_mask: "40 \<le> n \<Longrightarrow> \<not> bit (nwid_mask nwid) n"
  by (metis bit_take_bit_iff not_le order_refl take_bit_nwid_mask)

lemma bit_mac_fromAddress:
  assumes "addr_ok a" and "40 \<le> n" and "n < 64"
  shows "bit (mac_int (mac_fromAddress a nwid)) n \<longleftrightarrow> bit (firstOctetForNetwork nwid) (n - 40)"
proof -
  have "\<not> bit (addr_int a) n"
    using assms(1,2) by (metis addr_ok_def bit_take_bit_iff not_le)
  then show ?thesis
    using assms not_bit_nwid_mask [OF assms(2)]
    by (auto simp: mac_fromAddress_mask bit_xor_iff bit_or_iff bit_push_bit_iff bit_ucast_iff)
qed

lemma firstOctet_bits:
  "bit (firstOctetForNetwork nwid) 1" "\<not> bit (firstOctetForNetwork nwid) 0"
  "firstOctetForNetwork nwid \<noteq> 0x52"
proof -
  let ?a = "ucast (nwid AND 0xfe) OR 0x02 :: u8"
  have a: "bit ?a 1" "\<not> bit ?a 0" by (simp_all add: bit_or_iff bit_ucast_iff bit_and_iff)
  have c: "bit (0x32 :: u8) 1" "\<not> bit (0x32 :: u8) 0" by simp_all
  show "bit (firstOctetForNetwork nwid) 1" "\<not> bit (firstOctetForNetwork nwid) 0"
    using a c by (auto simp: firstOctetForNetwork_def Let_def)
  show "firstOctetForNetwork nwid \<noteq> 0x52" by (simp add: firstOctetForNetwork_def Let_def)
qed

lemma and_pow2_u64: "x AND 2 ^ n \<noteq> 0 \<longleftrightarrow> bit x n" if "n < 64" for x :: u64
  using that by (simp add: and_exp_eq_0_iff_not_bit)

text \<open>
  The MAC address derived from a node address on a network is a 48-bit, locally
  administered unicast address whose first octet is never the blacklisted \<^verbatim>\<open>0x52\<close>, and
  \<open>toAddress\<close> on the same network recovers the node address from it; in particular two nodes
  of a network never share a derived MAC.
\<close>

lemma mac_address_roundtrip:
  assumes a: "addr_ok a"
  shows "mac_toAddress (mac_fromAddress a nwid) nwid = a \<and>
    mac_isLocallyAdministered (mac_fromAddress a nwid) \<and>
    \<not> mac_isMulticast (mac_fromAddress a nwid) \<and>
    mac_ok (mac_fromAddress a nwid) \<and>
    mac_byte (mac_fromAddress a nwid) 0 = firstOctetForNetwork nwid \<and>
    firstOctetForNetwork nwid \<noteq> 0x52"
proof (intro conjI)
  let ?m = "mac_fromAddress a nwid"
  have "take_bit 40 (mac_int ?m) = addr_int a XOR nwid_mask nwid"
    using a take_bit_nwid_mask [of 40 nwid]
    by (simp add: mac_fromAddress_mask take_bit_push_bit addr_ok_def)
  then show "mac_toAddress ?m nwid = a"
    by (cases a) (simp add: mac_toAddress_mask xor.assoc)
  have "bit (mac_int ?m) 41" "\<not> bit (mac_int ?m) 40"
    using firstOctet_bits bit_mac_fromAddress [OF a, of 41] bit_mac_fromAddress [OF a, of 40] by simp_all
  then show "mac_isLocallyAdministered ?m" "\<not> mac_isMulticast ?m"
    using and_pow2_u64 [of 41 "mac_int ?m"] and_pow2_u64 [of 40 "mac_int ?m"]
    by (simp_all add: mac_isLocallyAdministered_def mac_isMulticast_def)
  have "\<not> bit (mac_int ?m) n" if "48 \<le> n" "n < 64" for n
    using bit_mac_fromAddress [OF a, of n] that by (auto dest: bit_imp_le_length)
  then show "mac_ok ?m" unfolding mac_ok_def
    by (intro bit_word_eqI) (auto simp: bit_take_bit_iff not_less [symmetric] simp del: not_less)
  show "mac_byte ?m 0 = firstOctetForNetwork nwid"
    using bit_mac_fromAddress [OF a]
    by (intro bit_word_eqI)
      (auto simp: mac_byte_def mask8 bit_ucast_iff bit_take_bit_iff bit_drop_bit_eq)
qed (rule firstOctet_bits)

lemma mac_address_roundtrip_witness:
  "mac_toAddress (mac_fromAddress (addr_of 0x1122334455) 0x8056c2e21c000001) 0x8056c2e21c000001
     = addr_of 0x1122334455"
  using mac_address_roundtrip [of "addr_of 0x1122334455" "0x8056c2e21c000001"] by simp

end
