(* ===== verification/ZT_Inet.thy ===== *)
theory ZT_Inet
  imports ZT_Address "HOL-Library.Sublist"
begin

text \<open>
  \<^verbatim>\<open>node/InetAddress.hpp\<close>, \<^verbatim>\<open>node/InetAddress.cpp\<close> and \<^verbatim>\<open>node/MulticastGroup.hpp\<close>.
  An \<open>inet\<close> is the memory of a \<^verbatim>\<open>sockaddr_storage\<close>: the family and the 126 bytes after it,
  in which \<^verbatim>\<open>sockaddr_in\<close> and \<^verbatim>\<open>sockaddr_in6\<close> overlap (port at 0, IPv4 address and IPv6 flow
  label at 2, IPv6 address at 6, scope at 22). Fields are in network order; where the code
  compares them raw, the value is the one a little-endian host sees. A shift by the width
  of its operand or more is \<open>UndefinedBehaviour\<close>.
\<close>

section \<open>Socket addresses as memory\<close>

record inet =
  ss_family :: u16
  ss_data :: "u8 list"

definition AF_INET :: u16 where "AF_INET = 2"
definition AF_INET6 :: u16 where "AF_INET6 = 10"

definition inet_zero :: inet where
  "inet_zero = \<lparr>ss_family = 0, ss_data = replicate 126 0\<rparr>"

definition fld :: "nat \<Rightarrow> nat \<Rightarrow> inet \<Rightarrow> u8 list" where
  "fld off n a = take n (drop off (ss_data a))"

definition put_fld :: "nat \<Rightarrow> u8 list \<Rightarrow> inet \<Rightarrow> inet" where
  "put_fld off bs a = a\<lparr>ss_data := mem_write (ss_data a) off bs\<rparr>"

abbreviation port_b :: "inet \<Rightarrow> u8 list" where "port_b \<equiv> fld 0 2"
abbreviation ip4_b :: "inet \<Rightarrow> u8 list" where "ip4_b \<equiv> fld 2 4"
abbreviation flow_b :: "inet \<Rightarrow> u8 list" where "flow_b \<equiv> fld 2 4"
abbreviation ip6_b :: "inet \<Rightarrow> u8 list" where "ip6_b \<equiv> fld 6 16"
abbreviation scope_b :: "inet \<Rightarrow> u8 list" where "scope_b \<equiv> fld 22 4"

text \<open>A field read as an integer: after \<^verbatim>\<open>ntoh\<close>, and raw on a little-endian host.\<close>

definition le_val :: "u8 list \<Rightarrow> 'a::len word" where
  "le_val bs = be_val (rev bs)"

definition ip4 :: "inet \<Rightarrow> u32" where
  "ip4 a = be_val (ip4_b a)"

definition inet_isV4 :: "inet \<Rightarrow> bool" where
  "inet_isV4 a \<longleftrightarrow> ss_family a = AF_INET"

definition inet_isV6 :: "inet \<Rightarrow> bool" where
  "inet_isV6 a \<longleftrightarrow> ss_family a = AF_INET6"

definition inet_bool :: "inet \<Rightarrow> bool" where
  "inet_bool a \<longleftrightarrow> ss_family a \<noteq> 0"

definition inet_set :: "u8 list \<Rightarrow> nat \<Rightarrow> u32 \<Rightarrow> inet" where
  "inet_set ip ipLen port =
     (if ipLen = 4 then
        put_fld 0 (be_bytes 2 (ucast port :: u16))
          (put_fld 2 (take 4 ip) (inet_zero\<lparr>ss_family := AF_INET\<rparr>))
      else if ipLen = 16 then
        put_fld 0 (be_bytes 2 (ucast port :: u16))
          (put_fld 6 (take 16 ip) (inet_zero\<lparr>ss_family := AF_INET6\<rparr>))
      else inet_zero)"

definition inet_setPort :: "inet \<Rightarrow> u32 \<Rightarrow> inet" where
  "inet_setPort a port =
     (if inet_isV4 a \<or> inet_isV6 a then put_fld 0 (be_bytes 2 (ucast port :: u16)) a else a)"

definition inet_port :: "inet \<Rightarrow> u32" where
  "inet_port a =
     (if inet_isV4 a \<or> inet_isV6 a then ucast (be_val (port_b a) :: u16) else 0)"

definition inet_isDefaultRoute :: "inet \<Rightarrow> bool" where
  "inet_isDefaultRoute a \<longleftrightarrow>
     (if inet_isV4 a then (le_val (ip4_b a) :: u32) = 0 \<and> (le_val (port_b a) :: u16) = 0
      else if inet_isV6 a then list_all (\<lambda>b. b = 0) (ip6_b a) \<and> (le_val (port_b a) :: u16) = 0
      else False)"

definition inet_netmaskBitsValid :: "inet \<Rightarrow> bool" where
  "inet_netmaskBitsValid a \<longleftrightarrow>
     (if inet_isV4 a then inet_port a \<le> 32 else if inet_isV6 a then inet_port a \<le> 128 else False)"

definition inet_rawIpData :: "inet \<Rightarrow> u8 list option" where
  "inet_rawIpData a =
     (if inet_isV4 a then Some (ip4_b a) else if inet_isV6 a then Some (ip6_b a) else None)"

definition inet_ipOnly :: "inet \<Rightarrow> inet" where
  "inet_ipOnly a =
     (if inet_isV4 a then put_fld 2 (ip4_b a) (inet_zero\<lparr>ss_family := AF_INET\<rparr>)
      else if inet_isV6 a then put_fld 6 (ip6_b a) (inet_zero\<lparr>ss_family := AF_INET6\<rparr>)
      else inet_zero)"

definition inet_ipsEqual :: "inet \<Rightarrow> inet \<Rightarrow> bool" where
  "inet_ipsEqual a b \<longleftrightarrow>
     ss_family a = ss_family b \<and>
     (if inet_isV4 a then ip4_b a = ip4_b b
      else if inet_isV6 a then ip6_b a = ip6_b b
      else a = b)"

definition inet_ipsEqual2 :: "inet \<Rightarrow> inet \<Rightarrow> bool" where
  "inet_ipsEqual2 a b \<longleftrightarrow>
     ss_family a = ss_family b \<and>
     (if inet_isV4 a then ip4_b a = ip4_b b
      else if inet_isV6 a then take 8 (ip6_b a) = take 8 (ip6_b b)
      else a = b)"

definition inet_eq :: "inet \<Rightarrow> inet \<Rightarrow> bool" where
  "inet_eq a b \<longleftrightarrow>
     ss_family a = ss_family b \<and>
     (if inet_isV4 a then
        (le_val (port_b a) :: u16) = le_val (port_b b) \<and> (le_val (ip4_b a) :: u32) = le_val (ip4_b b)
      else if inet_isV6 a then
        (le_val (port_b a) :: u16) = le_val (port_b b) \<and> (le_val (flow_b a) :: u32) = le_val (flow_b b)
        \<and> ip6_b a = ip6_b b \<and> (le_val (scope_b a) :: u32) = le_val (scope_b b)
      else a = b)"

text \<open>The whole object as \<^verbatim>\<open>memcmp\<close> sees it: the family's two bytes, then the rest.\<close>

definition inet_mem :: "inet \<Rightarrow> u8 list" where
  "inet_mem a = rev (be_bytes 2 (ss_family a)) @ ss_data a"

definition inet_less :: "inet \<Rightarrow> inet \<Rightarrow> bool" where
  "inet_less a b \<longleftrightarrow>
     (if ss_family a < ss_family b then True
      else if ss_family a = ss_family b then
        (let pa = le_val (port_b a) :: u16; pb = le_val (port_b b) in
         if inet_isV4 a then
           (if pa < pb then True
            else if pa = pb then (le_val (ip4_b a) :: u32) < le_val (ip4_b b)
            else False)
         else if inet_isV6 a then
           (if pa < pb then True
            else if pa = pb then
              (let fa = le_val (flow_b a) :: u32; fb = le_val (flow_b b) in
               if fa < fb then True
               else if fa = fb then
                 (if memcmp_less (ip6_b a) (ip6_b b) then True
                  else if ip6_b a = ip6_b b then (le_val (scope_b a) :: u32) < le_val (scope_b b)
                  else False)
               else False)
            else False)
         else memcmp_less (inet_mem a) (inet_mem b))
      else False)"

section \<open>Netmasks\<close>

text \<open>Shifts of the code, undefined from the operand's width on; the count is unsigned.\<close>

definition shl :: "'a::len word \<Rightarrow> u32 \<Rightarrow> 'a word res" where
  "shl w n = (if unat n \<ge> LENGTH('a) then Inl UndefinedBehaviour else Inr (push_bit (unat n) w))"

definition shr :: "'a::len word \<Rightarrow> u32 \<Rightarrow> 'a word res" where
  "shr w n = (if unat n \<ge> LENGTH('a) then Inl UndefinedBehaviour else Inr (drop_bit (unat n) w))"

text \<open>The two 64-bit halves of an IPv6 netmask, shared by \<open>netmask\<close> and \<open>network\<close>.\<close>

definition mask6_hi :: "u32 \<Rightarrow> u64 res" where
  "mask6_hi bits = (if bits \<ge> 64 then Inr 0xffffffffffffffff else shl 0xffffffffffffffff (64 - bits))"

definition mask6_lo :: "u32 \<Rightarrow> u64 res" where
  "mask6_lo bits = (if bits \<le> 64 then Inr 0 else shl 0xffffffffffffffff (128 - bits))"

definition inet_netmask :: "inet \<Rightarrow> inet res" where
  "inet_netmask a =
     (if inet_isV4 a then
        bind_res (shl (0xffffffff :: u32) (32 - inet_port a)) (\<lambda>m. Inr (put_fld 2 (be_bytes 4 m) a))
      else if inet_isV6 a then
        (let bits = inet_port a in
         if bits \<noteq> 0 then
           bind_res (mask6_hi bits) (\<lambda>hi. bind_res (mask6_lo bits) (\<lambda>lo.
             Inr (put_fld 6 (be_bytes 8 hi @ be_bytes 8 lo) a)))
         else Inr (put_fld 6 (be_bytes 8 (0 :: u64) @ be_bytes 8 (0 :: u64)) a))
      else Inr a)"

definition inet_broadcast :: "inet \<Rightarrow> inet res" where
  "inet_broadcast a =
     (if inet_isV4 a then
        bind_res (shr (0xffffffff :: u32) (inet_port a))
          (\<lambda>m. Inr (put_fld 2 (be_bytes 4 (ip4 a OR m)) a))
      else Inr inet_zero)"

definition inet_network :: "inet \<Rightarrow> inet res" where
  "inet_network a =
     (if inet_isV4 a then
        bind_res (shl (0xffffffff :: u32) (32 - inet_port a))
          (\<lambda>m. Inr (put_fld 2 (be_bytes 4 (ip4 a AND m)) a))
      else if inet_isV6 a then
        (let bits = inet_port a;
             hi = be_val (take 8 (ip6_b a)) :: u64; lo = be_val (drop 8 (ip6_b a)) :: u64 in
         bind_res (mask6_hi bits) (\<lambda>m0. bind_res (mask6_lo bits) (\<lambda>m1.
           Inr (put_fld 6 (be_bytes 8 (hi AND m0) @ be_bytes 8 (lo AND m1)) a))))
      else Inr a)"

definition inet_isEqualPrefix :: "inet \<Rightarrow> inet \<Rightarrow> bool res" where
  "inet_isEqualPrefix self addr =
     (if ss_family addr = ss_family self \<and> inet_isV6 self then
        bind_res (inet_netmask self) (\<lambda>mask. bind_res (inet_netmask addr) (\<lambda>addr_mask.
          Inr (list_all (\<lambda>i. ip6_b addr ! i AND ip6_b mask ! i = ip6_b self ! i AND ip6_b addr_mask ! i)
                 [0..<16])))
      else Inr False)"

definition inet_containsAddress :: "inet \<Rightarrow> inet \<Rightarrow> bool res" where
  "inet_containsAddress self addr =
     (if ss_family addr = ss_family self then
        (if inet_isV4 self then
           (let bits = inet_port self in
            if bits = 0 then Inr True
            else bind_res (shr (ip4 addr) (32 - bits)) (\<lambda>x.
                 bind_res (shr (ip4 self) (32 - bits)) (\<lambda>y. Inr (x = y))))
         else if inet_isV6 self then
           bind_res (inet_netmask self) (\<lambda>mask.
             Inr (list_all (\<lambda>i. ip6_b addr ! i AND ip6_b mask ! i = ip6_b self ! i) [0..<16]))
         else Inr False)
      else Inr False)"

definition inet_isNetwork :: "inet \<Rightarrow> bool res" where
  "inet_isNetwork a =
     (let bits = inet_port a in
      if inet_isV4 a then
        (if bits \<le> 0 \<or> bits \<ge> 32 then Inr False
         else bind_res (shr (0xffffffff :: u32) bits) (\<lambda>m. Inr (ip4 a AND m = 0)))
      else if inet_isV6 a then
        (if bits \<le> 0 \<or> bits \<ge> 128 then Inr False
         else let p = unat (bits div 8) in
           if ip6_b a ! p AND drop_bit (unat (bits mod 8)) 0xff \<noteq> 0 then Inr False
           else Inr (list_all (\<lambda>b. b = 0) (drop (p + 1) (ip6_b a))))
      else Inr False)"

section \<open>Prefix matching and hashes\<close>

text \<open>The IPv4 loop compares the top bits and shifts both words left, at most 32 times.\<close>

fun match_bits4 :: "nat \<Rightarrow> nat \<Rightarrow> u32 \<Rightarrow> u32 \<Rightarrow> nat" where
  "match_bits4 0 c ip0 ip1 = c"
| "match_bits4 (Suc fuel) c ip0 ip1 =
     (if drop_bit 31 ip0 = drop_bit 31 ip1 then
        (if c + 1 = 32 then c + 1 else match_bits4 fuel (c + 1) (push_bit 1 ip0) (push_bit 1 ip1))
      else c)"

text \<open>Inside the first differing byte: a mask bit moving right until it is shifted out.\<close>

fun match_bits_byte :: "nat \<Rightarrow> nat \<Rightarrow> u8 \<Rightarrow> u8 \<Rightarrow> u8 \<Rightarrow> nat" where
  "match_bits_byte 0 c bitm b0 b1 = c"
| "match_bits_byte (Suc fuel) c bitm b0 b1 =
     (if bitm \<noteq> 0 then
        (if b0 AND bitm \<noteq> b1 AND bitm then c
         else match_bits_byte fuel (c + 1) (drop_bit 1 bitm) b0 b1)
      else c)"

fun match_bits6 :: "nat \<Rightarrow> u8 list \<Rightarrow> u8 list \<Rightarrow> nat" where
  "match_bits6 c (a # as) (b # bs) =
     (if a = b then match_bits6 (c + 8) as bs else match_bits_byte 9 c 0x80 a b)"
| "match_bits6 c _ _ = c"

definition inet_matchingPrefixBits :: "inet \<Rightarrow> inet \<Rightarrow> nat" where
  "inet_matchingPrefixBits a b =
     (if ss_family a = ss_family b then
        (if inet_isV4 a then match_bits4 32 0 (ip4 a) (ip4 b)
         else if inet_isV6 a then match_bits6 0 (ip6_b a) (ip6_b b)
         else 0)
      else 0)"

definition inet_rateGateHash :: "inet \<Rightarrow> u64" where
  "inet_rateGateHash a =
     (let h = (if inet_isV4 a then
                 (let h = ucast (drop_bit 8 (ip4 a AND 0xffffff00)) :: u64 in h XOR drop_bit 14 h)
               else if inet_isV6 a then
                 foldl (\<lambda>h b. push_bit 1 h + ucast b) (ucast (ip6_b a ! 0)) (take 5 (drop 1 (ip6_b a)))
               else 0)
      in h AND 0x3fff)"

definition inet_hashCode :: "inet \<Rightarrow> u64" where
  "inet_hashCode a =
     (let port = ucast (le_val (port_b a) :: u16) :: u64;
          x = (\<lambda>tmp bs. foldl (\<lambda>t i. t XOR push_bit (8 * (i mod 8)) (ucast (bs ! i))) tmp [0..<length bs])
      in if inet_isV4 a then ucast (le_val (ip4_b a) :: u32) + port
         else if inet_isV6 a then x port (ip6_b a)
         else x port (inet_mem a))"

section \<open>Scopes\<close>

datatype ip_scope =
    IP_SCOPE_NONE | IP_SCOPE_MULTICAST | IP_SCOPE_LOOPBACK | IP_SCOPE_PSEUDOPRIVATE
  | IP_SCOPE_GLOBAL | IP_SCOPE_LINK_LOCAL | IP_SCOPE_SHARED | IP_SCOPE_PRIVATE

text \<open>
  The switch on the first octet; \<open>None\<close> is a \<^verbatim>\<open>break\<close> out of it (or no case), after which
  the top four bits decide.
\<close>

definition ipScope4_octet :: "u32 \<Rightarrow> ip_scope option" where
  "ipScope4_octet ip =
     (let o1 = drop_bit 24 ip in
      if o1 = 0x00 then Some IP_SCOPE_NONE
      else if o1 = 0x06 then Some IP_SCOPE_PSEUDOPRIVATE
      else if o1 = 0x0a then Some IP_SCOPE_PRIVATE
      else if o1 = 0x0b then Some IP_SCOPE_PSEUDOPRIVATE
      else if o1 = 0x15 then Some IP_SCOPE_PSEUDOPRIVATE
      else if o1 = 0x16 then Some IP_SCOPE_PSEUDOPRIVATE
      else if o1 = 0x19 then Some IP_SCOPE_PSEUDOPRIVATE
      else if o1 = 0x1a then Some IP_SCOPE_PSEUDOPRIVATE
      else if o1 = 0x1c then Some IP_SCOPE_PSEUDOPRIVATE
      else if o1 = 0x1d then Some IP_SCOPE_PSEUDOPRIVATE
      else if o1 = 0x1e then Some IP_SCOPE_PSEUDOPRIVATE
      else if o1 = 0x33 then Some IP_SCOPE_PSEUDOPRIVATE
      else if o1 = 0x37 then Some IP_SCOPE_PSEUDOPRIVATE
      else if o1 = 0x38 then Some IP_SCOPE_PSEUDOPRIVATE
      else if o1 = 0x64 then (if ip AND 0xffc00000 = 0x64400000 then Some IP_SCOPE_PRIVATE else None)
      else if o1 = 0x7f then Some IP_SCOPE_LOOPBACK
      else if o1 = 0xa9 then (if ip AND 0xffff0000 = 0xa9fe0000 then Some IP_SCOPE_LINK_LOCAL else None)
      else if o1 = 0xac then (if ip AND 0xfff00000 = 0xac100000 then Some IP_SCOPE_PRIVATE else None)
      else if o1 = 0xc0 then
        (if ip AND 0xffff0000 = 0xc0a80000 then Some IP_SCOPE_PRIVATE
         else if ip AND 0xffffff00 = 0xc0000200 then Some IP_SCOPE_PRIVATE else None)
      else if o1 = 0xc6 then
        (if ip AND 0xfffe0000 = 0xc6120000 then Some IP_SCOPE_PRIVATE
         else if ip AND 0xffffff00 = 0xc6336400 then Some IP_SCOPE_PRIVATE else None)
      else if o1 = 0xcb then (if ip AND 0xffffff00 = 0xcb007100 then Some IP_SCOPE_PRIVATE else None)
      else if o1 = 0xff then Some IP_SCOPE_NONE
      else None)"

definition ipScope4 :: "u32 \<Rightarrow> ip_scope" where
  "ipScope4 ip =
     (case ipScope4_octet ip of Some s \<Rightarrow> s
      | None \<Rightarrow>
          (if drop_bit 28 ip = 0xe then IP_SCOPE_MULTICAST
           else if drop_bit 28 ip = 0xf then IP_SCOPE_PSEUDOPRIVATE
           else IP_SCOPE_GLOBAL))"

text \<open>\<^verbatim>\<open>while ((! ip[k]) && (k < lim)) ++k\<close>\<close>

function skip_zeros :: "u8 list \<Rightarrow> nat \<Rightarrow> nat \<Rightarrow> nat" where
  "skip_zeros ip lim k = (if ip ! k = 0 \<and> k < lim then skip_zeros ip lim (k + 1) else k)"
  by auto
termination by (relation "measure (\<lambda>(ip, lim, k). lim - k)") auto

declare skip_zeros.simps [simp del]

definition ipScope6 :: "u8 list \<Rightarrow> ip_scope" where
  "ipScope6 ip =
     (if ip ! 0 AND 0xf0 = 0xf0 \<and> ip ! 0 = 0xff then IP_SCOPE_MULTICAST
      else if ip ! 0 AND 0xf0 = 0xf0 \<and> ip ! 0 = 0xfe \<and> ip ! 1 AND 0xc0 = 0x80 then
        (let k = skip_zeros ip 15 2 in
         if k = 15 \<and> ip ! 15 = 1 then IP_SCOPE_LOOPBACK else IP_SCOPE_LINK_LOCAL)
      else if ip ! 0 AND 0xf0 = 0xf0 \<and> ip ! 0 AND 0xfe = 0xfc then IP_SCOPE_PRIVATE
      else
        (let k = skip_zeros ip 9 0 in
         if k = 9 \<and> ip ! 10 = 0xff \<and> ip ! 11 = 0xff \<and> ip ! 12 = 0x7f then IP_SCOPE_LOOPBACK
         else
           (let k = skip_zeros ip 15 0 in
            if k = 15 \<and> ip ! 15 = 1 then IP_SCOPE_LOOPBACK
            else if k = 15 \<and> ip ! 15 = 0 then IP_SCOPE_NONE
            else IP_SCOPE_GLOBAL)))"

definition inet_ipScope :: "inet \<Rightarrow> ip_scope" where
  "inet_ipScope a =
     (if inet_isV4 a then ipScope4 (ip4 a)
      else if inet_isV6 a then ipScope6 (ip6_b a)
      else IP_SCOPE_NONE)"

section \<open>Derived addresses\<close>

text \<open>
  \<open>makeIpv6LinkLocal\<close> fills an uninitialised \<^verbatim>\<open>sockaddr_in6\<close> on the stack and copies all its
  28 bytes: \<open>stk\<close> is what the stack held (the 26 bytes after the family).
\<close>

definition inet_makeIpv6LinkLocal :: "u8 list \<Rightarrow> mac \<Rightarrow> inet" where
  "inet_makeIpv6LinkLocal stk m =
     (let ip = [0xfe, 0x80, 0, 0, 0, 0, 0, 0, mac_byte m 0 AND 0xfd, mac_byte m 1, mac_byte m 2,
                0xff, 0xfe, mac_byte m 3, mac_byte m 4, mac_byte m 5];
          sin6 = mem_write (mem_write stk 6 ip) 0 (be_bytes 2 (64 :: u16))
      in put_fld 0 sin6 (inet_zero\<lparr>ss_family := AF_INET6\<rparr>))"

definition inet_makeIpv6rfc4193 :: "u64 \<Rightarrow> u64 \<Rightarrow> inet" where
  "inet_makeIpv6rfc4193 nwid zt =
     (let ip = [0xfd, ucast (drop_bit 56 nwid), ucast (drop_bit 48 nwid), ucast (drop_bit 40 nwid),
                ucast (drop_bit 32 nwid), ucast (drop_bit 24 nwid), ucast (drop_bit 16 nwid),
                ucast (drop_bit 8 nwid), ucast nwid, 0x99, 0x93,
                ucast (drop_bit 32 zt), ucast (drop_bit 24 zt), ucast (drop_bit 16 zt),
                ucast (drop_bit 8 zt), ucast zt]
      in put_fld 0 (be_bytes 2 (88 :: u16)) (put_fld 6 ip (inet_zero\<lparr>ss_family := AF_INET6\<rparr>)))"

definition inet_makeIpv66plane :: "u64 \<Rightarrow> u64 \<Rightarrow> inet" where
  "inet_makeIpv66plane nwid0 zt =
     (let nwid = nwid0 XOR drop_bit 32 nwid0;
          ip = [0xfc, ucast (drop_bit 24 nwid), ucast (drop_bit 16 nwid), ucast (drop_bit 8 nwid),
                ucast nwid, ucast (drop_bit 32 zt), ucast (drop_bit 24 zt), ucast (drop_bit 16 zt),
                ucast (drop_bit 8 zt), ucast zt, 0, 0, 0, 0, 0, 1]
      in put_fld 0 (be_bytes 2 (40 :: u16)) (put_fld 6 ip (inet_zero\<lparr>ss_family := AF_INET6\<rparr>)))"

section \<open>Wire form\<close>

definition inet_serialize :: "inet \<Rightarrow> zbuf \<Rightarrow> zbuf res" where
  "inet_serialize a =
     (if inet_isV4 a then
        write_all [buf_append_int 1 (4 :: u8), buf_append_bytes (ip4_b a) 4,
          buf_append_int 2 (ucast (inet_port a) :: u16)]
      else if inet_isV6 a then
        write_all [buf_append_int 1 (6 :: u8), buf_append_bytes (ip6_b a) 16,
          buf_append_int 2 (ucast (inet_port a) :: u16)]
      else write_all [buf_append_int 1 (0 :: u8)])"

text \<open>
  The count a reserved type returns is what the sender claims, unchecked; \<open>0x03\<close> reads its
  16-bit length and adds three.
\<close>

definition inet_deserialize :: "zbuf \<Rightarrow> u32 \<Rightarrow> (inet \<times> u32) res" where
  "inet_deserialize b startAt =
     bind_res (buf_get b startAt) (\<lambda>ty.
       let p = startAt + 1 in
       if ty = 0 then Inr (inet_zero, 1)
       else if ty = 0x01 then Inr (inet_zero, 7)
       else if ty = 0x02 then Inr (inet_zero, 7)
       else if ty = 0x03 then
         bind_res (buf_at 2 b p) (\<lambda>l :: u16. Inr (inet_zero, ucast l + 3))
       else if ty = 0x04 then
         bind_res (buf_bytes b p 4) (\<lambda>ip. bind_res (buf_at 2 b (p + 4)) (\<lambda>port :: u16.
           Inr (put_fld 0 (be_bytes 2 port) (put_fld 2 ip (inet_zero\<lparr>ss_family := AF_INET\<rparr>)), 7)))
       else if ty = 0x06 then
         bind_res (buf_bytes b p 16) (\<lambda>ip. bind_res (buf_at 2 b (p + 16)) (\<lambda>port :: u16.
           Inr (put_fld 0 (be_bytes 2 port) (put_fld 6 ip (inet_zero\<lparr>ss_family := AF_INET6\<rparr>)), 19)))
       else Inl BadEncoding)"

section \<open>Multicast groups\<close>

record multicast_group =
  mg_mac :: mac
  mg_adi :: u32

definition mg_derive :: "inet \<Rightarrow> multicast_group" where
  "mg_derive ip =
     (if inet_isV4 ip then \<lparr>mg_mac = mac_of 0xffffffffffff, mg_adi = ip4 ip\<rparr>
      else if inet_isV6 ip then
        (let a = ip6_b ip in
         \<lparr>mg_mac = mac_of6 0x33 0x33 0xff (a ! 13) (a ! 14) (a ! 15), mg_adi = 0\<rparr>)
      else \<lparr>mg_mac = mac_zero, mg_adi = 0\<rparr>)"

definition mg_hashCode :: "multicast_group \<Rightarrow> u64" where
  "mg_hashCode g = mac_hash (mg_mac g) XOR ucast (mg_adi g)"

definition mg_eq :: "multicast_group \<Rightarrow> multicast_group \<Rightarrow> bool" where
  "mg_eq g h \<longleftrightarrow> mg_mac g = mg_mac h \<and> mg_adi g = mg_adi h"

definition mg_less :: "multicast_group \<Rightarrow> multicast_group \<Rightarrow> bool" where
  "mg_less g h \<longleftrightarrow>
     (if mg_mac g < mg_mac h then True
      else if mg_mac g = mg_mac h then mg_adi g < mg_adi h
      else False)"

section \<open>Fields of the memory\<close>

definition inet_wf :: "inet \<Rightarrow> bool" where
  "inet_wf a \<longleftrightarrow> length (ss_data a) = 126"

lemma inet_wf_intros [intro, simp]:
  "inet_wf inet_zero"
  "inet_wf a \<Longrightarrow> inet_wf (a\<lparr>ss_family := f\<rparr>)"
  "inet_wf a \<Longrightarrow> off + length bs \<le> 126 \<Longrightarrow> inet_wf (put_fld off bs a)"
  by (simp_all add: inet_wf_def inet_zero_def put_fld_def)

lemma fld_put_same:
  "inet_wf a \<Longrightarrow> off + length bs \<le> 126 \<Longrightarrow> n = length bs \<Longrightarrow> fld off n (put_fld off bs a) = bs"
  by (simp add: inet_wf_def fld_def put_fld_def mem_write_read)

lemma fld_put_below:
  "inet_wf a \<Longrightarrow> off + length bs \<le> 126 \<Longrightarrow> i + n \<le> off \<Longrightarrow> fld i n (put_fld off bs a) = fld i n a"
  by (auto simp: inet_wf_def fld_def put_fld_def mem_write_def drop_take min_def)

lemma fld_put_above:
  "inet_wf a \<Longrightarrow> off + length bs \<le> i \<Longrightarrow> i + n \<le> 126 \<Longrightarrow> fld i n (put_fld off bs a) = fld i n a"
  by (simp add: inet_wf_def fld_def put_fld_def mem_write_def)

lemma length_fld [simp]: "inet_wf a \<Longrightarrow> off + n \<le> 126 \<Longrightarrow> length (fld off n a) = n"
  by (simp add: inet_wf_def fld_def)

lemma family_put [simp]:
  "ss_family (put_fld off bs a) = ss_family a"
  "inet_isV4 (put_fld off bs a) = inet_isV4 a" "inet_isV6 (put_fld off bs a) = inet_isV6 a"
  by (simp_all add: put_fld_def inet_isV4_def inet_isV6_def)

lemma inet_set_fields:
  assumes "length ip = 4"
  shows "inet_isV4 (inet_set ip 4 port)" "\<not> inet_isV6 (inet_set ip 4 port)"
    "inet_wf (inet_set ip 4 port)"
    "ip4_b (inet_set ip 4 port) = ip" "port_b (inet_set ip 4 port) = be_bytes 2 (ucast port :: u16)"
  using assms
  by (simp_all add: inet_set_def fld_put_same fld_put_above)
    (simp_all add: inet_isV4_def inet_isV6_def AF_INET_def AF_INET6_def)

lemma inet_set_fields6:
  assumes "length ip = 16"
  shows "inet_isV6 (inet_set ip 16 port)" "\<not> inet_isV4 (inet_set ip 16 port)"
    "inet_wf (inet_set ip 16 port)"
    "ip6_b (inet_set ip 16 port) = ip" "port_b (inet_set ip 16 port) = be_bytes 2 (ucast port :: u16)"
  using assms
  by (simp_all add: inet_set_def fld_put_same fld_put_above)
    (simp_all add: inet_isV4_def inet_isV6_def AF_INET_def AF_INET6_def)

section \<open>Wire contract\<close>

definition inet_enc :: "inet \<Rightarrow> u8 list" where
  "inet_enc a =
     (if inet_isV4 a then 4 # ip4_b a @ port_b a
      else if inet_isV6 a then 6 # ip6_b a @ port_b a else [0])"

text \<open>
  The addresses the protocol carries: the null address, or an IP and a port (no flow label,
  no scope), which is what \<^verbatim>\<open>set\<close> builds.
\<close>

definition inet_ip_port :: "inet \<Rightarrow> bool" where
  "inet_ip_port a \<longleftrightarrow> a = inet_zero \<or>
     (\<exists>ip port. (length ip = 4 \<or> length ip = 16) \<and> a = inet_set ip (length ip) port)"

lemma inet_ip_port_cases:
  assumes "inet_ip_port a"
  obtains "a = inet_zero" | ip port where "length ip = 4" "a = inet_set ip 4 port"
    | ip port where "length ip = 16" "a = inet_set ip 16 port"
  using assms unfolding inet_ip_port_def by force

lemma appends_write_all3:
  "appends f xs \<Longrightarrow> appends g ys \<Longrightarrow> appends h zs \<Longrightarrow> appends (write_all [f, g, h]) (xs @ ys @ zs)"
  using appends_write_all [of "[f, g, h]" "[xs, ys, zs]"] by simp

lemma ucast_u16_u32_u16 [simp]: "(ucast (ucast (x :: u16) :: u32) :: u16) = x"
  by (rule bit_word_eqI) (auto simp: bit_ucast_iff dest: bit_imp_le_length)

lemma inet_zero_family [simp]: "\<not> inet_isV4 inet_zero" "\<not> inet_isV6 inet_zero"
  by (simp_all add: inet_isV4_def inet_isV6_def inet_zero_def AF_INET_def AF_INET6_def)

lemma appends_inet:
  assumes "inet_ip_port a" shows "appends (inet_serialize a) (inet_enc a)"
  using assms
proof (cases rule: inet_ip_port_cases)
  case 1
  have "appends (write_all [buf_append_int 1 (0 :: u8)]) (concat [be_bytes 1 (0 :: u8)])"
    by (rule appends_write_all) (simp add: appends_int)
  then show ?thesis using 1 by (simp add: inet_serialize_def inet_enc_def be_bytes_eval)
next
  case (2 ip port)
  note f = inet_set_fields [OF 2(1), of port]
  have "appends (write_all [buf_append_int 1 (4 :: u8), buf_append_bytes ip 4,
      buf_append_int 2 (ucast (inet_port a) :: u16)])
      (be_bytes 1 (4 :: u8) @ ip @ be_bytes 2 (ucast (inet_port a) :: u16))"
    by (intro appends_write_all3 appends_int appends_bytes) (simp_all add: 2)
  then show ?thesis
    using 2 f by (simp add: inet_serialize_def inet_enc_def be_bytes_eval(1,2) inet_port_def)
next
  case (3 ip port)
  note f = inet_set_fields6 [OF 3(1), of port]
  have "appends (write_all [buf_append_int 1 (6 :: u8), buf_append_bytes ip 16,
      buf_append_int 2 (ucast (inet_port a) :: u16)])
      (be_bytes 1 (6 :: u8) @ ip @ be_bytes 2 (ucast (inet_port a) :: u16))"
    by (intro appends_write_all3 appends_int appends_bytes) (simp_all add: 3)
  then show ?thesis
    using 3 f by (simp add: inet_serialize_def inet_enc_def be_bytes_eval(1,2) inet_port_def)
qed

lemma inet_deserialize_enc:
  assumes "inet_ip_port a" and pos: "at_pos b p (inet_enc a @ rest)"
  shows "inet_deserialize b p = Inr (a, of_nat (length (inet_enc a)))"
  using assms(1)
proof (cases rule: inet_ip_port_cases)
  case 1
  then show ?thesis using at_pos_get0 [OF pos] by (simp add: inet_deserialize_def inet_enc_def)
next
  case (2 ip port)
  note f = inet_set_fields [OF 2(1), of port]
  have "at_pos b p (4 # ip @ be_bytes 2 (ucast port :: u16) @ rest)"
    using pos f 2 by (simp add: inet_enc_def)
  note rd = at_pos_reads [OF this]
  show ?thesis
    using 2 f by (simp add: inet_deserialize_def inet_enc_def rd) (simp add: inet_set_def)
next
  case (3 ip port)
  note f = inet_set_fields6 [OF 3(1), of port]
  have "at_pos b p (6 # ip @ be_bytes 2 (ucast port :: u16) @ rest)"
    using pos f 3 by (simp add: inet_enc_def)
  note rd = at_pos_reads [OF this]
  show ?thesis
    using 3 f by (simp add: inet_deserialize_def inet_enc_def rd) (simp add: inet_set_def)
qed

lemma length_inet_enc: "inet_ip_port a \<Longrightarrow> length (inet_enc a) \<le> 19"
  by (elim inet_ip_port_cases) (simp_all add: inet_enc_def inet_set_fields inet_set_fields6)

interpretation inet_wire: wire_object inet_serialize inet_deserialize inet_enc inet_ip_port
proof unfold_locales
  fix x assume "inet_ip_port x"
  then show "length (inet_enc x) < 2 ^ 31" using length_inet_enc [of x] by simp
qed (simp_all add: appends_inet inet_deserialize_enc)

text \<open>
  An IP address and port, or the null address, written with \<open>serialize\<close> at the end of
  a buffer is read back by \<open>deserialize\<close> at that position as the very same object, and the
  count returned is the number of bytes that were written.
\<close>

lemma inet_wire_roundtrip:
  assumes "inet_ip_port a" and "small b" and "inet_serialize a b = Inr b'"
  shows "inet_deserialize b' (blen b) = Inr (a, blen b' - blen b) \<and> bdata b' = bdata b @ inet_enc a"
  using inet_wire.roundtrip [OF assms] by simp

lemma inet_wire_roundtrip_witness:
  "inet_deserialize (projr (inet_serialize (inet_set [10, 0, 0, 1] 4 9993) (buf_new (replicate 32 0)))) 0
     = Inr (inet_set [10, 0, 0, 1] 4 9993, 7)"
proof -
  let ?b = "buf_new (replicate 32 0)" and ?a = "inet_set [10, 0, 0, 1] 4 9993"
  have ok: "inet_ip_port ?a" unfolding inet_ip_port_def
    by (intro disjI2 exI [of _ "[10, 0, 0, 1]"] exI [of _ 9993]) (simp add: eval_nat_numeral)
  have s: "inet_serialize ?a ?b = Inr (projr (inet_serialize ?a ?b))" by code_simp
  have "inet_deserialize (projr (inet_serialize ?a ?b)) (blen ?b)
      = Inr (?a, blen (projr (inet_serialize ?a ?b)) - blen ?b)"
    using inet_wire_roundtrip [OF ok _ s] by simp
  moreover have "blen (projr (inet_serialize ?a ?b)) = 7" by code_simp
  ultimately show ?thesis by (simp add: buf_new_def)
qed

section \<open>Prefixes as bit strings\<close>

text \<open>The reference: an address as the list of its bits in transmission order.\<close>

definition byte_bits :: "u8 \<Rightarrow> bool list" where
  "byte_bits b = map (\<lambda>k. bit b (7 - k)) [0..<8]"

definition bits_of :: "u8 list \<Rightarrow> bool list" where
  "bits_of bs = concat (map byte_bits bs)"

lemma length_byte_bits [simp]: "length (byte_bits b) = 8"
  by (simp add: byte_bits_def)

lemma bits_of_simps [simp]: "bits_of [] = []" "bits_of (b # bs) = byte_bits b @ bits_of bs"
  by (simp_all add: bits_of_def)

lemma length_bits_of [simp]: "length (bits_of bs) = 8 * length bs"
  by (induction bs) simp_all

lemma bits_of_nth: "i < 8 * length bs \<Longrightarrow> bits_of bs ! i \<longleftrightarrow> bit (bs ! (i div 8)) (7 - i mod 8)"
proof (induction bs arbitrary: i)
  case (Cons b bs)
  show ?case
  proof (cases "i < 8")
    case True
    then show ?thesis by (simp add: nth_append byte_bits_def)
  next
    case False
    then have "i div 8 = Suc ((i - 8) div 8)" "i mod 8 = (i - 8) mod 8"
      by (simp_all add: le_div_geq le_mod_geq)
    then show ?thesis using False Cons.prems Cons.IH [of "i - 8"] by (simp add: nth_append)
  qed
qed simp

lemma byte_bits_inject: "byte_bits a = byte_bits b \<longleftrightarrow> a = b"
proof
  assume e: "byte_bits a = byte_bits b"
  show "a = b"
  proof (rule bit_word_eqI)
    fix n assume "n < LENGTH(8)"
    then have "7 - n < 8" "7 - (7 - n) = n" by auto
    then have "byte_bits a ! (7 - n) = bit a n" "byte_bits b ! (7 - n) = bit b n"
      by (simp_all add: byte_bits_def)
    then show "bit a n = bit b n" using e by simp
  qed
qed simp

lemma rev_bit_index:
  fixes i n :: nat
  assumes "i < 8 * n"
  shows "(8 * n - 1 - i) div 8 = n - 1 - i div 8" "(8 * n - 1 - i) mod 8 = 7 - i mod 8"
    "n - 1 - (n - 1 - i div 8) = i div 8" "i div 8 < n" "7 - i mod 8 < 8"
proof -
  have q: "i div 8 < n" using assms by (simp add: less_mult_imp_div_less mult.commute)
  have "8 * (i div 8) + i mod 8 = i" "i mod 8 < 8" by simp_all
  then have "8 * n - 1 - i = 8 * (n - 1 - i div 8) + (7 - i mod 8)" using q by linarith
  moreover have m: "7 - i mod 8 < 8" by linarith
  moreover have "r < 8 \<Longrightarrow> (8 * q + r) div 8 = q \<and> (8 * q + r) mod 8 = r" for q r :: nat by simp
  ultimately show "(8 * n - 1 - i) div 8 = n - 1 - i div 8" "(8 * n - 1 - i) mod 8 = 7 - i mod 8"
    by metis+
  show "n - 1 - (n - 1 - i div 8) = i div 8" using q by linarith
  show "i div 8 < n" "7 - i mod 8 < 8" by (rule q, rule m)
qed

lemma bits_of_be_val:
  assumes "length bs = 4" and "i < 32"
  shows "bits_of bs ! i \<longleftrightarrow> bit (be_val bs :: u32) (31 - i)"
  using assms rev_bit_index [of i 4] by (auto simp: bits_of_nth bit_be_val less_imp_diff_less)

lemma take_eq_nth: "length xs = length ys \<Longrightarrow> n \<le> length xs \<Longrightarrow>
    take n xs = take n ys \<longleftrightarrow> (\<forall>i<n. xs ! i = ys ! i)"
  by (simp add: list_eq_iff_nth_eq)

lemma drop_bit_eq_take_bits:
  assumes "length x = 4" "length y = 4" "n \<le> 32"
  shows "drop_bit (32 - n) (be_val x :: u32) = drop_bit (32 - n) (be_val y) \<longleftrightarrow>
    take n (bits_of x) = take n (bits_of y)"
proof -
  have "drop_bit (32 - n) (be_val x :: u32) = drop_bit (32 - n) (be_val y) \<longleftrightarrow>
      (\<forall>j<32. bit (be_val x :: u32) (32 - n + j) = bit (be_val y :: u32) (32 - n + j))"
    by (auto simp: bit_eq_iff bit_drop_bit_eq dest: bit_imp_le_length)
  also have "\<dots> \<longleftrightarrow> (\<forall>i<n. bit (be_val x :: u32) (31 - i) = bit (be_val y :: u32) (31 - i))"
  proof (rule iffI; intro allI impI)
    fix i assume h: "\<forall>j<32. bit (be_val x :: u32) (32 - n + j) = bit (be_val y :: u32) (32 - n + j)"
      and i: "i < n"
    have "32 - n + (n - 1 - i) = 31 - i" using i assms(3) by linarith
    then show "bit (be_val x :: u32) (31 - i) = bit (be_val y :: u32) (31 - i)"
      using h [rule_format, of "n - 1 - i"] i assms(3) by simp
  next
    fix j :: nat assume h: "\<forall>i<n. bit (be_val x :: u32) (31 - i) = bit (be_val y :: u32) (31 - i)"
      and j: "j < 32"
    show "bit (be_val x :: u32) (32 - n + j) = bit (be_val y :: u32) (32 - n + j)"
    proof (cases "j < n")
      case True
      then have "31 - (n - 1 - j) = 32 - n + j" using assms(3) by linarith
      then show ?thesis using h [rule_format, of "n - 1 - j"] True by simp
    next
      case False
      then have "32 \<le> 32 - n + j" using assms(3) by linarith
      then show ?thesis by (auto dest: bit_imp_le_length)
    qed
  qed
  also have "\<dots> \<longleftrightarrow> take n (bits_of x) = take n (bits_of y)"
    using assms by (simp add: take_eq_nth bits_of_be_val)
  finally show ?thesis .
qed

lemma shr_count: "0 < n \<Longrightarrow> n \<le> 32 \<Longrightarrow> unat bits = n \<Longrightarrow> shr (w :: u32) (32 - bits) = Inr (drop_bit (32 - n) w)"
proof -
  assume a: "0 < n" "n \<le> 32" "unat bits = n"
  then have "bits \<le> 32" by (simp add: word_le_nat_alt)
  then have "unat (32 - bits) = 32 - n" using a by (simp add: unat_sub)
  then show ?thesis using a by (simp add: shr_def)
qed

lemma containsAddress4:
  assumes "inet_isV4 r" "inet_isV4 a" "inet_wf r" "inet_wf a" "unat (inet_port r) \<le> 32"
  shows "inet_containsAddress r a =
    Inr (take (unat (inet_port r)) (bits_of (ip4_b r)) = take (unat (inet_port r)) (bits_of (ip4_b a)))"
proof (cases "inet_port r = 0")
  case True
  then show ?thesis using assms by (simp add: inet_containsAddress_def inet_isV4_def)
next
  case False
  then have "0 < unat (inet_port r)" by (simp add: unat_gt_0)
  note s = shr_count [OF this assms(5) refl]
  show ?thesis
    using False assms drop_bit_eq_take_bits [of "ip4_b a" "ip4_b r" "unat (inet_port r)"]
    by (auto simp: inet_containsAddress_def inet_isV4_def ip4_def s)
qed

text \<open>The IPv6 mask has its first \<open>n\<close> bits set.\<close>

lemma mask6_parts:
  assumes "unat bits = n" "0 < n" "n \<le> 128"
  shows "\<exists>hi lo. mask6_hi bits = Inr hi \<and> mask6_lo bits = Inr lo \<and>
     (\<forall>j<64. bit hi j \<longleftrightarrow> 63 - j < n) \<and> (\<forall>j<64. bit lo j \<longleftrightarrow> 127 - j < n)"
proof -
  have m1: "(0xffffffffffffffff :: u64) = - 1" by simp
  have ff: "bit (0xffffffffffffffff :: u64) j \<longleftrightarrow> j < 64" for j
    unfolding m1 by simp
  have m: "bit (push_bit k (0xffffffffffffffff :: u64)) j \<longleftrightarrow> k \<le> j \<and> j < 64" for k j
    by (auto simp: bit_push_bit_iff ff less_imp_diff_less simp del: bit_numeral_word_iff)
  let ?f = "0xffffffffffffffff :: u64"
  consider "n < 64" | "n = 64" | "64 < n" by linarith
  then show ?thesis
  proof cases
    case 1
    then have c: "\<not> 64 \<le> bits" "bits \<le> 64" using assms(1) by (simp_all add: word_le_nat_alt)
    then have "unat (64 - bits) = 64 - n" using assms(1) by (simp add: unat_sub)
    then have "mask6_hi bits = Inr (push_bit (64 - n) ?f)" "mask6_lo bits = Inr 0"
      using c 1 assms(2) unfolding mask6_hi_def mask6_lo_def shl_def by simp_all
    moreover have "\<forall>j<64. bit (push_bit (64 - n) ?f) j \<longleftrightarrow> 63 - j < n"
      using 1 assms(2) by (auto simp only: m)
    moreover have "\<forall>j<64. bit (0 :: u64) j \<longleftrightarrow> 127 - j < n" using 1 by auto
    ultimately show ?thesis by blast
  next
    case 2
    then have "bits = 64" using assms(1) by (simp add: word_unat_eq_iff)
    then have "mask6_hi bits = Inr ?f" "mask6_lo bits = Inr 0"
      unfolding mask6_hi_def mask6_lo_def by simp_all
    moreover have "\<forall>j<64. bit ?f j \<longleftrightarrow> 63 - j < n"
      using 2 by (auto simp only: ff)
    moreover have "\<forall>j<64. bit (0 :: u64) j \<longleftrightarrow> 127 - j < n" using 2 by auto
    ultimately show ?thesis by blast
  next
    case 3
    then have c: "64 \<le> bits" "\<not> bits \<le> 64" "bits \<le> 128" using assms by (simp_all add: word_le_nat_alt)
    then have u: "unat (128 - bits) = 128 - n" using assms(1) by (simp add: unat_sub)
    then have "mask6_hi bits = Inr ?f" "mask6_lo bits = Inr (push_bit (128 - n) ?f)"
      using c 3 unfolding mask6_hi_def mask6_lo_def shl_def by simp_all
    moreover have "\<forall>j<64. bit ?f j \<longleftrightarrow> 63 - j < n"
      "\<forall>j<64. bit (push_bit (128 - n) ?f) j \<longleftrightarrow> 127 - j < n"
      using 3 assms(3) by (auto simp only: ff m)
    ultimately show ?thesis by blast
  qed
qed

lemma bits_of_be8: "i < 64 \<Longrightarrow> bits_of (be_bytes 8 (w :: u64)) ! i \<longleftrightarrow> bit w (63 - i)"
proof -
  assume i: "i < 64"
  then have r: "(63 - i) div 8 = 7 - i div 8" "(63 - i) mod 8 = 7 - i mod 8" "i div 8 < 8" "7 - i mod 8 < 8"
    using rev_bit_index [of i 8] by simp_all
  have "8 * (7 - i div 8) + (7 - i mod 8) = 63 - i"
    unfolding r(1,2) [symmetric] by simp
  then show ?thesis using i r(3,4) by (simp add: bits_of_nth be_bytes_nth bit_ucast_iff bit_drop_bit_eq)
qed

lemma bits_of_append: "bits_of (xs @ ys) = bits_of xs @ bits_of ys"
  by (simp add: bits_of_def)

lemma netmask6:
  assumes v6: "inet_isV6 a" "\<not> inet_isV4 a" and wf: "inet_wf a" and n: "unat (inet_port a) = n" "n \<le> 128"
  shows "\<exists>m. inet_netmask a = Inr m \<and> length (ip6_b m) = 16 \<and> (\<forall>i<128. bits_of (ip6_b m) ! i \<longleftrightarrow> i < n)"
proof (cases "inet_port a = 0")
  case True
  then have "n = 0" using n by simp
  then show ?thesis using True assms bits_of_be8 [where w = 0]
    by (simp add: inet_netmask_def fld_put_same bits_of_append nth_append)
next
  case False
  then have "0 < n" using n by (metis unat_gt_0)
  from mask6_parts [OF n(1) this n(2)] obtain hi lo where m: "mask6_hi (inet_port a) = Inr hi"
      "mask6_lo (inet_port a) = Inr lo" and b: "\<forall>j<64. bit hi j \<longleftrightarrow> 63 - j < n" "\<forall>j<64. bit lo j \<longleftrightarrow> 127 - j < n"
    by blast
  have "bits_of (be_bytes 8 hi @ be_bytes 8 lo) ! i \<longleftrightarrow> i < n" if "i < 128" for i
    using that b by (auto simp: bits_of_append nth_append bits_of_be8)
  then show ?thesis using False assms m by (simp add: inet_netmask_def fld_put_same)
qed

lemma byte_and_eq:
  assumes len: "length a = 16" "length m = 16" "length r = 16"
  shows "list_all (\<lambda>i. a ! i AND m ! i = r ! i) [0..<16] \<longleftrightarrow>
    (\<forall>i<128. (bits_of a ! i \<and> bits_of m ! i) = bits_of r ! i)"
proof
  assume l: "list_all (\<lambda>i. a ! i AND m ! i = r ! i) [0..<16]"
  show "\<forall>i<128. (bits_of a ! i \<and> bits_of m ! i) = bits_of r ! i"
  proof (intro allI impI)
    fix i :: nat assume i: "i < 128"
    then have "a ! (i div 8) AND m ! (i div 8) = r ! (i div 8)" using l by (simp add: list_all_iff)
    then show "(bits_of a ! i \<and> bits_of m ! i) = bits_of r ! i"
      using i len by (simp add: bits_of_nth) (metis bit_and_iff)
  qed
next
  assume h: "\<forall>i<128. (bits_of a ! i \<and> bits_of m ! i) = bits_of r ! i"
  show "list_all (\<lambda>i. a ! i AND m ! i = r ! i) [0..<16]"
    unfolding list_all_iff
  proof (intro ballI bit_word_eqI)
    fix k j assume "k \<in> set [0..<16 :: nat]" "j < LENGTH(8)"
    then have k: "k < 16" "j < 8" by auto
    define i where "i = 7 - j"
    have i: "i < 8" "7 - i = j" using k(2) by (auto simp: i_def)
    then have "(8 * k + i) div 8 = k" "7 - (8 * k + i) mod 8 = j" "8 * k + i < 128"
      using k(1) by auto
    then show "bit (a ! k AND m ! k) j = bit (r ! k) j"
      using h [rule_format, of "8 * k + i"] len by (simp add: bits_of_nth bit_and_iff)
  qed
qed

lemma split_bits:
  assumes "n \<le> length xs" "length ys = length xs"
  shows "(\<forall>i<length xs. (ys ! i \<and> i < n) = xs ! i) \<longleftrightarrow>
    take n xs = take n ys \<and> list_all Not (drop n xs)"
proof -
  have "(\<forall>i<length xs. (ys ! i \<and> i < n) = xs ! i) \<longleftrightarrow>
      (\<forall>i<n. xs ! i = ys ! i) \<and> (\<forall>i<length xs. n \<le> i \<longrightarrow> \<not> xs ! i)"
    using assms by (metis leD le_trans less_le_trans not_less)
  also have "(\<forall>i<length xs. n \<le> i \<longrightarrow> \<not> xs ! i) \<longleftrightarrow> (\<forall>k<length xs - n. \<not> xs ! (n + k))"
    by (metis le_add1 le_add_diff_inverse less_diff_conv add.commute)
  finally show ?thesis using assms by (simp add: take_eq_nth list_all_length)
qed

lemma containsAddress6:
  assumes "inet_isV6 r" "inet_isV6 a" "inet_wf r" "inet_wf a" "unat (inet_port r) \<le> 128"
  shows "inet_containsAddress r a =
    Inr (take (unat (inet_port r)) (bits_of (ip6_b r)) = take (unat (inet_port r)) (bits_of (ip6_b a))
      \<and> list_all Not (drop (unat (inet_port r)) (bits_of (ip6_b r))))"
proof -
  let ?n = "unat (inet_port r)"
  have v4: "\<not> inet_isV4 r" using assms(1) by (simp add: inet_isV4_def inet_isV6_def AF_INET_def AF_INET6_def)
  obtain m where m: "inet_netmask r = Inr m" "length (ip6_b m) = 16"
      "\<forall>i<128. bits_of (ip6_b m) ! i \<longleftrightarrow> i < ?n"
    using netmask6 [OF assms(1) v4 assms(3) refl assms(5)] by blast
  have "list_all (\<lambda>i. ip6_b a ! i AND ip6_b m ! i = ip6_b r ! i) [0..<16] \<longleftrightarrow>
      (\<forall>i<128. (bits_of (ip6_b a) ! i \<and> i < ?n) = bits_of (ip6_b r) ! i)"
    using byte_and_eq [of "ip6_b a" "ip6_b m" "ip6_b r"] m(2,3) assms(3,4) by simp
  also have "\<dots> \<longleftrightarrow> take ?n (bits_of (ip6_b r)) = take ?n (bits_of (ip6_b a))
      \<and> list_all Not (drop ?n (bits_of (ip6_b r)))"
    using assms(3-5) split_bits [of ?n "bits_of (ip6_b r)" "bits_of (ip6_b a)"] by simp
  finally show ?thesis
    using m(1) assms(1,2) v4 by (simp add: inet_containsAddress_def inet_isV6_def)
qed

lemma le_val_inject: "length xs = length ys \<Longrightarrow> 8 * length xs \<le> LENGTH('a) \<Longrightarrow>
    (le_val xs :: 'a::len word) = le_val ys \<longleftrightarrow> xs = ys"
  unfolding le_val_def
  by (metis be_bytes_be_val length_rev rev_rev_ident)

text \<open>
  \<open>containsAddress\<close> on a route with a valid netmask is true exactly when the address
  shares the route's first \<open>netmaskBits\<close> bits (for IPv6 additionally only when the route itself has
  no bit set after them); it never shifts by an undefined count.
\<close>

lemma inet_contains_prefix:
  assumes "inet_wf r" and "inet_wf a"
  shows "(inet_isV4 r \<and> inet_isV4 a \<and> inet_port r \<le> 32 \<longrightarrow>
      inet_containsAddress r a =
        Inr (take (unat (inet_port r)) (bits_of (ip4_b r)) = take (unat (inet_port r)) (bits_of (ip4_b a)))) \<and>
    (inet_isV6 r \<and> inet_isV6 a \<and> inet_port r \<le> 128 \<longrightarrow>
      inet_containsAddress r a =
        Inr (take (unat (inet_port r)) (bits_of (ip6_b r)) = take (unat (inet_port r)) (bits_of (ip6_b a))
          \<and> list_all Not (drop (unat (inet_port r)) (bits_of (ip6_b r)))))"
  using containsAddress4 [OF _ _ assms] containsAddress6 [OF _ _ assms]
  by (simp add: word_le_nat_alt)

lemma inet_contains_prefix_witness:
  "inet_containsAddress (inet_set [10, 147, 17, 0] 4 24) (inet_set [10, 147, 17, 9] 4 0) = Inr True"
proof -
  let ?r = "inet_set [10, 147, 17, 0] 4 24" and ?a = "inet_set [10, 147, 17, 9] 4 0"
  have r: "inet_isV4 ?r" "inet_wf ?r" "ip4_b ?r = [10, 147, 17, 0]"
    and a: "inet_isV4 ?a" "inet_wf ?a" "ip4_b ?a = [10, 147, 17, 9]"
    by (simp_all add: inet_set_fields)
  have p: "inet_port ?r = 24" by code_simp
  have "take 24 (bits_of [10, 147, 17, 0]) = take 24 (bits_of [10, 147, 17, 9])" by code_simp
  then show ?thesis
    using inet_contains_prefix [OF r(2) a(2)] r a p by simp
qed

text \<open>
  The divergence between the families, on \<^verbatim>\<open>fd00::1/64\<close> and \<^verbatim>\<open>fd00::2\<close>, against the same
  shape in IPv4.
\<close>

lemma containsAddress_host_bits:
  "inet_containsAddress (inet_set [0xfd, 0, 0, 0, 0, 0, 0, 0, 0, 0, 0, 0, 0, 0, 0, 1] 16 64)
     (inet_set [0xfd, 0, 0, 0, 0, 0, 0, 0, 0, 0, 0, 0, 0, 0, 0, 2] 16 0) = Inr False"
  "inet_containsAddress (inet_set [10, 0, 0, 1] 4 24) (inet_set [10, 0, 0, 2] 4 0) = Inr True"
  by code_simp+

text \<open>A /0 IPv4 netmask shifts a 32-bit integer by 32.\<close>

lemma netmask_zero_undefined:
  "inet_isV4 a \<Longrightarrow> inet_port a = 0 \<Longrightarrow>
    inet_netmask a = Inl UndefinedBehaviour \<and> inet_network a = Inl UndefinedBehaviour"
  by (simp add: inet_netmask_def inet_network_def shl_def)

section \<open>Matching prefix bits\<close>

abbreviation lcp :: "bool list \<Rightarrow> bool list \<Rightarrow> bool list" where "lcp \<equiv> longest_common_prefix"

definition word_bits :: "u32 \<Rightarrow> bool list" where
  "word_bits x = map (\<lambda>i. bit x (31 - i)) [0..<32]"

lemma word_bits_be_val: "length bs = 4 \<Longrightarrow> word_bits (be_val bs) = bits_of bs"
  by (rule nth_equalityI) (simp_all add: word_bits_def bits_of_be_val)

lemma word_bits_push: "word_bits (push_bit 1 x) = tl (word_bits x) @ [False]"
proof (rule nth_equalityI)
  fix i assume "i < length (word_bits (push_bit 1 x))"
  then have i: "i < 32" by (simp add: word_bits_def)
  show "word_bits (push_bit 1 x) ! i = (tl (word_bits x) @ [False]) ! i"
    using i by (auto simp: word_bits_def nth_append nth_tl bit_push_bit_iff less_imp_diff_less
        simp del: push_bit_Suc One_nat_def)
qed (simp add: word_bits_def)

lemma take_word_bits:
  "n < 32 \<Longrightarrow> take (Suc n) (word_bits x) = bit x 31 # take n (word_bits (push_bit 1 x))"
proof -
  assume n: "n < 32"
  have "word_bits x = bit x 31 # tl (word_bits x)"
    by (simp add: word_bits_def upt_rec [of 0 32])
  then have "take (Suc n) (word_bits x) = bit x 31 # take n (tl (word_bits x))"
    by (metis take_Suc_Cons)
  moreover have "length (tl (word_bits x)) = 31" by (simp add: word_bits_def)
  ultimately show ?thesis using n by (simp add: word_bits_push del: push_bit_Suc One_nat_def)
qed

lemma top_bit_eq: "drop_bit 31 x = drop_bit 31 y \<longleftrightarrow> bit x 31 = bit y 31" for x y :: u32
proof
  assume e: "bit x 31 = bit y 31"
  show "drop_bit 31 x = drop_bit 31 y"
  proof (rule bit_word_eqI)
    fix n assume "n < LENGTH(32)"
    show "bit (drop_bit 31 x) n = bit (drop_bit 31 y) n"
      using e by (cases n) (auto simp: bit_drop_bit_eq dest: bit_imp_le_length)
  qed
next
  assume "drop_bit 31 x = drop_bit 31 y"
  then have "bit (drop_bit 31 x) 0 = bit (drop_bit 31 y) 0" by simp
  then show "bit x 31 = bit y 31" unfolding bit_drop_bit_eq by simp
qed

lemma match_bits4_lcp:
  "c + fuel = 32 \<Longrightarrow>
    match_bits4 fuel c x y = c + length (lcp (take fuel (word_bits x)) (take fuel (word_bits y)))"
proof (induction fuel arbitrary: c x y)
  case (Suc fuel)
  have t: "take (Suc fuel) (word_bits z) = bit z 31 # take fuel (word_bits (push_bit 1 z))" for z
    using Suc.prems by (intro take_word_bits) simp
  show ?case
    unfolding t match_bits4.simps top_bit_eq
    using Suc.IH [of "c + 1" "push_bit 1 x" "push_bit 1 y"] Suc.prems
    by (cases "fuel = 0") (simp_all del: push_bit_Suc One_nat_def)
qed simp

lemma and_pow2_u8: "k < 8 \<Longrightarrow> (a AND 2 ^ k = b AND 2 ^ k) \<longleftrightarrow> bit a k = bit b k" for a b :: u8
proof
  assume k: "k < 8"
  have e: "bit (c AND 2 ^ k) n \<longleftrightarrow> n = k \<and> bit c k" for c :: u8 and n
    using k by (auto simp: bit_and_iff bit_exp_iff)
  show "a AND 2 ^ k = b AND 2 ^ k \<Longrightarrow> bit a k = bit b k" using e by metis
  show "bit a k = bit b k \<Longrightarrow> a AND 2 ^ k = b AND 2 ^ k" by (rule bit_word_eqI) (simp add: e)
qed

lemma byte_bits_drop: "k < 8 \<Longrightarrow> drop (7 - k) (byte_bits a) = bit a k # drop (8 - k) (byte_bits a)"
proof -
  assume k: "k < 8"
  then have "drop (7 - k) (byte_bits a) = byte_bits a ! (7 - k) # drop (Suc (7 - k)) (byte_bits a)"
    by (intro Cons_nth_drop_Suc [symmetric]) simp
  moreover have "7 - k < 8" "7 - (7 - k) = k" "Suc (7 - k) = 8 - k" using k by auto
  ultimately show ?thesis by (simp add: byte_bits_def)
qed

lemma match_bits_byte_lcp:
  "k \<le> 8 \<Longrightarrow> match_bits_byte (Suc k) c (if k = 0 then 0 else 2 ^ (k - 1)) a b =
    c + length (lcp (drop (8 - k) (byte_bits a)) (drop (8 - k) (byte_bits b)))"
proof (induction k arbitrary: c)
  case (Suc k)
  have nz: "(2 :: u8) ^ k \<noteq> 0" using Suc.prems by (simp add: exp_eq_zero_iff)
  have sh: "drop_bit 1 ((2 :: u8) ^ k) = (if k = 0 then 0 else 2 ^ (k - 1))"
    using Suc.prems by (intro bit_word_eqI) (auto simp: bit_drop_bit_eq bit_exp_iff simp del: drop_bit_Suc)
  have k: "k < 8" using Suc.prems by simp
  have "match_bits_byte (Suc (Suc k)) c (2 ^ k) a b =
      (if bit a k = bit b k then match_bits_byte (Suc k) (c + 1) (if k = 0 then 0 else 2 ^ (k - 1)) a b else c)"
    using nz and_pow2_u8 [OF k, of a b] by (subst match_bits_byte.simps(2)) (auto simp only: sh if_True if_False simp_thms split: if_splits)
  also have "\<dots> = c + length (lcp (drop (7 - k) (byte_bits a)) (drop (7 - k) (byte_bits b)))"
    using Suc.IH [of "c + 1"] k by (simp add: byte_bits_drop del: match_bits_byte.simps)
  finally show ?case by (simp del: match_bits_byte.simps)
qed simp

lemma lcp_append_same: "longest_common_prefix (xs @ as) (xs @ bs) = xs @ longest_common_prefix as bs"
  by (induction xs) simp_all

lemma lcp_differ:
  "length xs = length ys \<Longrightarrow> xs \<noteq> ys \<Longrightarrow>
    longest_common_prefix (xs @ as) (ys @ bs) = longest_common_prefix xs ys"
  by (induction xs ys rule: list_induct2) auto

lemma match_bits6_lcp:
  "length as = length bs \<Longrightarrow> match_bits6 c as bs = c + length (lcp (bits_of as) (bits_of bs))"
proof (induction as bs arbitrary: c rule: list_induct2)
  case (Cons a as b bs)
  show ?case
  proof (cases "a = b")
    case True
    then show ?thesis using Cons by (simp add: lcp_append_same)
  next
    case False
    then have "byte_bits a \<noteq> byte_bits b" by (simp add: byte_bits_inject)
    moreover have "match_bits_byte 9 c 0x80 a b = c + length (lcp (byte_bits a) (byte_bits b))"
      using match_bits_byte_lcp [of 8 c a b] by (simp add: numeral_eq_Suc del: match_bits_byte.simps)
    ultimately show ?thesis using False by (simp add: lcp_differ)
  qed
qed simp

text \<open>
  \<open>matchingPrefixBits\<close> of two addresses of the same family is the length of the longest
  common prefix of their bit strings, however the loops over words, bytes and mask bits get there.
\<close>

lemma inet_matching_prefix:
  assumes "inet_wf a" and "inet_wf b" and "ss_family a = ss_family b"
    and "inet_isV4 a \<or> inet_isV6 a"
  shows "inet_matchingPrefixBits a b =
    length (longest_common_prefix (bits_of (the (inet_rawIpData a))) (bits_of (the (inet_rawIpData b))))"
proof (cases "inet_isV4 a")
  case True
  then have "inet_isV4 b" using assms(3) by (simp add: inet_isV4_def)
  moreover have "length (ip4_b a) = 4" "length (ip4_b b) = 4" using assms by simp_all
  ultimately show ?thesis
    using True assms(3) match_bits4_lcp [of 0 32 "ip4 a" "ip4 b"]
    by (simp add: inet_matchingPrefixBits_def inet_rawIpData_def ip4_def word_bits_be_val
        del: match_bits4.simps)
next
  case False
  then have "inet_isV6 a" "inet_isV6 b" "\<not> inet_isV4 b"
    using assms(3,4) by (simp_all add: inet_isV4_def inet_isV6_def)
  then show ?thesis using False assms
    by (simp add: inet_matchingPrefixBits_def inet_rawIpData_def match_bits6_lcp)
qed

lemma inet_matching_prefix_witness:
  "inet_matchingPrefixBits (inet_set [10, 147, 17, 9] 4 24) (inet_set [10, 147, 18, 9] 4 24) = 22"
proof -
  let ?a = "inet_set [10, 147, 17, 9] 4 24" and ?b = "inet_set [10, 147, 18, 9] 4 24"
  have f: "inet_isV4 ?a" "inet_wf ?a" "ip4_b ?a = [10, 147, 17, 9]" "inet_isV4 ?b" "inet_wf ?b"
    "ip4_b ?b = [10, 147, 18, 9]" by (simp_all add: inet_set_fields)
  have "inet_matchingPrefixBits ?a ?b =
      length (longest_common_prefix (bits_of [10, 147, 17, 9]) (bits_of [10, 147, 18, 9]))"
    using inet_matching_prefix [OF f(2,5)] f by (simp add: inet_rawIpData_def inet_isV4_def)
  also have "\<dots> = 22" by code_simp
  finally show ?thesis .
qed

end
