(* ===== verification/ZT_Identity.thy ===== *)
theory ZT_Identity
  imports ZT_Address
begin

text \<open>
  \<^verbatim>\<open>node/Identity.hpp\<close> and \<^verbatim>\<open>node/Identity.cpp\<close>: a node's address, public key set and, for
  the node itself, private key set. The cryptographic primitives (\<^verbatim>\<open>ECC\<close>, \<^verbatim>\<open>SHA512\<close>,
  \<^verbatim>\<open>Salsa20\<close>) are the fields of a record \<open>crypto\<close>, an argument of the definitions that call
  them. The address derivation, the wire form and the text form are the code's.
\<close>

section \<open>Primitives\<close>

record 's crypto =
  ecc_sign :: "u8 list \<Rightarrow> u8 list \<Rightarrow> u8 list \<Rightarrow> u8 list"   \<comment> \<open>private, public, message\<close>
  ecc_verify :: "u8 list \<Rightarrow> u8 list \<Rightarrow> u8 list \<Rightarrow> bool"    \<comment> \<open>public, message, signature\<close>
  sha512 :: "u8 list \<Rightarrow> u8 list"
  sha384 :: "u8 list \<Rightarrow> u8 list"
  s20_init :: "u8 list \<Rightarrow> u8 list \<Rightarrow> 's"
  s20_crypt :: "'s \<Rightarrow> u8 list \<Rightarrow> u8 list \<times> 's"

text \<open>
  What the code relies on: signatures have their fixed length and verify under the public key
  of the pair that made them, digests have their length and the cipher keeps lengths.
\<close>

definition crypto_ok :: "'s crypto \<Rightarrow> bool" where
  "crypto_ok c \<longleftrightarrow>
     (\<forall>priv pub m. length (ecc_sign c priv pub m) = 96) \<and>
     (\<forall>m. length (sha512 c m) = 64) \<and> (\<forall>m. length (sha384 c m) = 48) \<and>
     (\<forall>s m. length (fst (s20_crypt c s m)) = length m)"

definition key_pair :: "'s crypto \<Rightarrow> u8 list \<Rightarrow> u8 list \<Rightarrow> bool" where
  "key_pair c priv pub \<longleftrightarrow> (\<forall>m. ecc_verify c pub m (ecc_sign c priv pub m))"

section \<open>Identities\<close>

record identity =
  id_address :: address
  id_pub :: "u8 list"
  id_priv :: "u8 list option"

definition identity_nil :: identity where
  "identity_nil = \<lparr>id_address = addr_nil, id_pub = replicate 64 0, id_priv = None\<rparr>"

definition identity_bool :: "identity \<Rightarrow> bool" where
  "identity_bool i \<longleftrightarrow> addr_bool (id_address i)"

definition identity_hasPrivate :: "identity \<Rightarrow> bool" where
  "identity_hasPrivate i \<longleftrightarrow> id_priv i \<noteq> None"

definition identity_eq :: "identity \<Rightarrow> identity \<Rightarrow> bool" where
  "identity_eq a b \<longleftrightarrow> id_address a = id_address b \<and> id_pub a = id_pub b"

definition identity_less :: "identity \<Rightarrow> identity \<Rightarrow> bool" where
  "identity_less a b \<longleftrightarrow> id_address a < id_address b \<or>
     (id_address a = id_address b \<and> memcmp_less (id_pub a) (id_pub b))"

definition identity_sign :: "'s crypto \<Rightarrow> identity \<Rightarrow> u8 list \<Rightarrow> u8 list res" where
  "identity_sign c i m =
     (case id_priv i of Some priv \<Rightarrow> Inr (ecc_sign c priv (id_pub i) m)
      | None \<Rightarrow> Inl PrivateKeyRequired)"

definition identity_verify :: "'s crypto \<Rightarrow> identity \<Rightarrow> u8 list \<Rightarrow> u8 list \<Rightarrow> bool" where
  "identity_verify c i m sig = ecc_verify c (id_pub i) m sig"

definition identity_verify_len :: "'s crypto \<Rightarrow> identity \<Rightarrow> u8 list \<Rightarrow> u8 list \<Rightarrow> nat \<Rightarrow> bool" where
  "identity_verify_len c i m sig siglen =
     (if siglen \<noteq> 96 then False else ecc_verify c (id_pub i) m sig)"

definition identity_publicKeyHash :: "'s crypto \<Rightarrow> identity \<Rightarrow> u8 list" where
  "identity_publicKeyHash c i = sha384 c (addr_bytes (id_address i) @ id_pub i)"

definition identity_sha512PrivateKey :: "'s crypto \<Rightarrow> identity \<Rightarrow> u8 list option" where
  "identity_sha512PrivateKey c i = map_option (sha512 c) (id_priv i)"

section \<open>The address of a key\<close>

text \<open>
  The memory-hard hash over \<open>n\<close> blocks of 64 bytes (32768 in the code). Blocks are encrypted in
  a chain; then the memory is used as a table to permute digest and memory, in 64-bit words.
\<close>

fun genmem_fill :: "'s crypto \<Rightarrow> nat \<Rightarrow> 's \<Rightarrow> u8 list \<Rightarrow> u8 list \<times> 's" where
  "genmem_fill c 0 s blk = ([], s)"
| "genmem_fill c (Suc n) s blk =
     (let (e, s1) = s20_crypt c s blk; (rest, s2) = genmem_fill c n s1 e in (e @ rest, s2))"

definition word_at :: "u8 list \<Rightarrow> nat \<Rightarrow> u8 list" where
  "word_at m i = take 8 (drop (8 * i) m)"

fun genmem_render :: "'s crypto \<Rightarrow> nat \<Rightarrow> nat \<Rightarrow> nat \<Rightarrow> 's \<Rightarrow> u8 list \<Rightarrow> u8 list \<Rightarrow> u8 list" where
  "genmem_render c 0 words i s digest mem = digest"
| "genmem_render c (Suc n) words i s digest mem =
     (let idx1 = unat (be_val (word_at mem i) :: u64) mod 8;
          idx2 = unat (be_val (word_at mem (i + 1)) :: u64) mod words;
          tmp = word_at mem idx2;
          mem1 = mem_write mem (8 * idx2) (word_at digest idx1);
          digest1 = mem_write digest (8 * idx1) tmp;
          (digest2, s1) = s20_crypt c s digest1
      in genmem_render c n words (i + 2) s1 digest2 mem1)"

definition computeMemoryHardHash :: "'s crypto \<Rightarrow> nat \<Rightarrow> u8 list \<Rightarrow> u8 list" where
  "computeMemoryHardHash c blocks pub =
     (let digest = sha512 c pub;
          s = s20_init c (take 32 digest) (take 8 (drop 32 digest));
          (mem, s1) = genmem_fill c blocks s (replicate 64 0);
          words = 8 * blocks
      in genmem_render c (words div 2) words 0 s1 digest mem)"

definition identity_locallyValidate :: "'s crypto \<Rightarrow> identity \<Rightarrow> bool" where
  "identity_locallyValidate c i =
     (if addr_isReserved (id_address i) then False
      else let digest = computeMemoryHardHash c 32768 (id_pub i); addrb = addr_bytes (id_address i) in
        digest ! 0 < 17 \<and> digest ! 59 = addrb ! 0 \<and> digest ! 60 = addrb ! 1 \<and>
        digest ! 61 = addrb ! 2 \<and> digest ! 62 = addrb ! 3 \<and> digest ! 63 = addrb ! 4)"

section \<open>Wire form\<close>

definition identity_serialize :: "bool \<Rightarrow> identity \<Rightarrow> zbuf \<Rightarrow> zbuf res" where
  "identity_serialize includePrivate i =
     write_all ([addr_appendTo (id_address i), buf_append_int 1 (0 :: u8), buf_append_bytes (id_pub i) 64] @
       (case id_priv i of
          Some priv \<Rightarrow>
            (if includePrivate then [buf_append_int 1 (64 :: u8), buf_append_bytes priv 64]
             else [buf_append_int 1 (0 :: u8)])
        | None \<Rightarrow> [buf_append_int 1 (0 :: u8)]))"

definition identity_deserialize :: "zbuf \<Rightarrow> u32 \<Rightarrow> (identity \<times> u32) res" where
  "identity_deserialize b startAt =
     bind_res (addr_read b startAt) (\<lambda>a.
     bind_res (buf_get b (startAt + 5)) (\<lambda>ty.
     if ty \<noteq> 0 then Inl InvalidType
     else
       bind_res (buf_bytes b (startAt + 6) 64) (\<lambda>pub.
       bind_res (buf_get b (startAt + 70)) (\<lambda>pl.
       if pl \<noteq> 0 then
         (if pl \<noteq> 64 then Inl InvalidToken
          else bind_res (buf_bytes b (startAt + 71) 64) (\<lambda>priv.
                 Inr (\<lparr>id_address = a, id_pub = pub, id_priv = Some priv\<rparr>, 135)))
       else Inr (\<lparr>id_address = a, id_pub = pub, id_priv = None\<rparr>, 71)))))"

definition identity_ok :: "identity \<Rightarrow> bool" where
  "identity_ok i \<longleftrightarrow> addr_ok (id_address i) \<and> length (id_pub i) = 64 \<and>
     (case id_priv i of Some priv \<Rightarrow> length priv = 64 | None \<Rightarrow> True)"

definition identity_enc :: "bool \<Rightarrow> identity \<Rightarrow> u8 list" where
  "identity_enc incl i = addr_bytes (id_address i) @ 0 # id_pub i @
     (case id_priv i of Some priv \<Rightarrow> (if incl then 64 # priv else [0]) | None \<Rightarrow> [0])"

definition public_part :: "identity \<Rightarrow> identity" where
  "public_part i = i\<lparr>id_priv := None\<rparr>"

lemma appends_identity:
  assumes "identity_ok i" shows "appends (identity_serialize incl i) (identity_enc incl i)"
proof -
  have w: "list_all2 appends fs bss \<Longrightarrow> f = write_all fs \<Longrightarrow> appends f (concat bss)" for f fs bss
    using appends_write_all by simp
  have "appends (identity_serialize incl i) (concat ([addr_bytes (id_address i), [0], id_pub i] @
      (case id_priv i of Some priv \<Rightarrow> (if incl then [[64], priv] else [[0]]) | None \<Rightarrow> [[0]])))"
    using assms appends_int [of 1 "0 :: u8"] appends_int [of 1 "64 :: u8"]
    by (intro w [OF _ identity_serialize_def])
      (auto simp: identity_ok_def appends_addr appends_bytes be_bytes_eval split: option.splits)
  then show ?thesis by (simp add: identity_enc_def split: option.splits if_splits)
qed

lemma identity_des_enc:
  assumes ok: "identity_ok i" and pos: "at_pos b p (identity_enc incl i @ rest)"
  shows "identity_deserialize b p =
    Inr (if incl then i else public_part i, of_nat (length (identity_enc incl i)))"
proof -
  note rd = at_pos_reads [OF pos] at_pos_addrs [OF pos]
  show ?thesis
    using ok
    by (cases "id_priv i")
      (auto simp: identity_ok_def identity_deserialize_def rd identity_enc_def public_part_def nth_append
        simp del: One_nat_def)
qed

lemma length_identity_enc: "identity_ok i \<Longrightarrow> length (identity_enc incl i) \<le> 135"
  by (cases "id_priv i") (auto simp: identity_ok_def identity_enc_def)

text \<open>With the private key included every identity survives; without it, every public one.\<close>

interpretation identity_wire: wire_object "identity_serialize True" identity_deserialize
    "identity_enc True" identity_ok
proof unfold_locales
  fix i assume "identity_ok i"
  then show "length (identity_enc True i) < 2 ^ 31" using length_identity_enc [of i True] by simp
qed (simp_all add: appends_identity identity_des_enc)

interpretation identity_pub_wire: wire_object "identity_serialize False" identity_deserialize
    "identity_enc False" "\<lambda>i. identity_ok i \<and> id_priv i = None"
proof unfold_locales
  fix i assume "identity_ok i \<and> id_priv i = None"
  then show "length (identity_enc False i) < 2 ^ 31" using length_identity_enc [of i False] by simp
next
  fix i b p rest assume "identity_ok i \<and> id_priv i = None" "at_pos b p (identity_enc False i @ rest)"
  then show "identity_deserialize b p = Inr (i, of_nat (length (identity_enc False i)))"
    using identity_des_enc [of i b p False rest] by (simp add: public_part_def)
qed (simp_all add: appends_identity)

section \<open>Text form\<close>

text \<open>\<^verbatim>\<open>strtok_r\<close> over the whole string: the non-empty runs between the delimiters.\<close>

fun tokens :: "u8 \<Rightarrow> u8 list \<Rightarrow> u8 list \<Rightarrow> u8 list list" where
  "tokens d cur [] = (if cur = [] then [] else [cur])"
| "tokens d cur (c # s) =
     (if c = 0 then (if cur = [] then [] else [cur])
      else if c = d then (if cur = [] then tokens d [] s else cur # tokens d [] s)
      else tokens d (cur @ [c]) s)"

definition identity_toString :: "bool \<Rightarrow> identity \<Rightarrow> u8 list" where
  "identity_toString includePrivate i =
     take 10 (hex10 (addr_int (id_address i))) @ [58, 48, 58] @ take (64 * 2) (hex_bytes (id_pub i)) @
     (case id_priv i of
        Some priv \<Rightarrow> (if includePrivate then 58 # take (64 * 2) (hex_bytes priv) else [])
      | None \<Rightarrow> []) @ [0]"

text \<open>The fields in order; \<open>fno\<close> counts them. A failure leaves the address zero.\<close>

definition identity_fail :: "identity \<Rightarrow> bool \<times> identity" where
  "identity_fail i = (False, i\<lparr>id_address := Address 0\<rparr>)"

fun identity_fields :: "nat \<Rightarrow> u8 list list \<Rightarrow> identity \<Rightarrow> bool \<times> identity" where
  "identity_fields fno [] i = (if fno < 3 then identity_fail i else (True, i))"
| "identity_fields fno (f # fs) i =
     (if fno = 0 then
        (let i = i\<lparr>id_address := addr_of (hexStrToU64 f)\<rparr> in
         if addr_isReserved (id_address i) then identity_fail i else identity_fields 1 fs i)
      else if fno = 1 then
        (if f \<noteq> [48] then identity_fail i else identity_fields 2 fs i)
      else if fno = 2 then
        (let d = unhex f 64; i = i\<lparr>id_pub := mem_write (id_pub i) 0 d\<rparr> in
         if length d \<noteq> 64 then identity_fail i else identity_fields 3 fs i)
      else if fno = 3 then
        (let d = unhex f 64; i = i\<lparr>id_priv := Some (mem_write (replicate 64 0) 0 d)\<rparr> in
         if length d \<noteq> 64 then identity_fail i else identity_fields 4 fs i)
      else identity_fail i)"

definition identity_fromString :: "identity \<Rightarrow> u8 list option \<Rightarrow> bool \<times> identity" where
  "identity_fromString self str =
     (case str of None \<Rightarrow> identity_fail self
      | Some s \<Rightarrow>
          (let (tmp, fit) = scopy 384 (Some s) in
           if \<not> fit then identity_fail self
           else identity_fields 0 (tokens 58 [] tmp) (self\<lparr>id_priv := None\<rparr>)))"

lemma scopy_loop_fits:
  "0 \<notin> set xs \<Longrightarrow> length w + length xs < len \<Longrightarrow> scopy_loop len (xs @ [0]) w = (w @ xs @ [0], True)"
  by (induction xs arbitrary: w) auto

lemma tokens_run:
  "d \<notin> set xs \<Longrightarrow> 0 \<notin> set xs \<Longrightarrow> cur @ xs \<noteq> [] \<Longrightarrow> d \<noteq> 0 \<Longrightarrow>
    tokens d cur (xs @ d # r) = (cur @ xs) # tokens d [] r"
  "d \<notin> set xs \<Longrightarrow> 0 \<notin> set xs \<Longrightarrow> cur @ xs \<noteq> [] \<Longrightarrow> tokens d cur (xs @ [0]) = [cur @ xs]"
  by (induction xs arbitrary: cur) auto

lemma is_hex_not_colon: "is_hex c \<Longrightarrow> c \<noteq> 58"
  by (auto simp: is_hex_def)

lemma hex_nibbles_chars: "c \<in> set (hex_nibbles n i) \<Longrightarrow> c \<noteq> 0 \<and> c \<noteq> 58"
  using set_hex_nibbles [of c n i] is_hex_not_colon [of c] by blast

lemma hexStrToU64_nibbles:
  assumes i: "unat i < 16 ^ n" and n: "0 < n" "n \<le> 16"
  shows "hexStrToU64 (hex_nibbles n (i :: u64)) = i"
proof -
  let ?s = "hex_nibbles n i"
  have ne: "?s \<noteq> []" using n by (metis length_greater_0_conv length_hex_nibbles)
  then have hd: "hd ?s \<in> set ?s" by simp
  note h = set_hex_nibbles [OF hd]
  have sp: "dropWhile is_space ?s = ?s" using h ne by (cases ?s) auto
  have "list_all (\<lambda>c. c \<noteq> 120 \<and> c \<noteq> 88) (tl ?s)"
    unfolding list_all_iff using set_hex_nibbles [of _ n i] list.set_sel(2) [OF ne] by blast
  then have x: "strip_0x ?s = ?s" by (rule strip_0x_hex)
  have "hex_digits_val v (xs @ [0]) = hex_digits_val v xs" for v xs
    by (induction xs arbitrary: v) (simp_all add: is_hex_def)
  then have v: "hex_digits_val 0 ?s = unat i"
    using hex_digits_val_nibbles [of 0 n i] i by simp
  have neg: "hd ?s \<noteq> 45" "hd ?s \<noteq> 43" using h by auto
  have "unat i < 2 ^ 64" using unsigned_less [of i] by simp
  then show ?thesis by (simp add: hexStrToU64_def Let_def sp neg x v)
qed

definition hex_pairs :: "u8 list \<Rightarrow> u8 list" where
  "hex_pairs d = concat (map (\<lambda>b. [HEXCHARS ! unat (drop_bit 4 b), HEXCHARS ! unat (b AND 0xf)]) d)"

lemma hex_bytes_pairs: "hex_bytes d = hex_pairs d @ [0]"
  by (simp add: hex_bytes_def hex_pairs_def)

lemma length_hex_pairs [simp]: "length (hex_pairs d) = 2 * length d"
  by (induction d) (simp_all add: hex_pairs_def)

lemma nibbles_less: "unat (drop_bit 4 (b :: u8)) < 16" "unat (b AND 0xf) < 16"
proof -
  have "unat b < 256" using unsigned_less [of b, where 'a = nat] by simp
  then show "unat (drop_bit 4 b) < 16" unfolding unat_drop_bit_eq by (simp add: drop_bit_eq_div)
  show "unat (b AND 0xf) < 16" using unat_nibble [of 0 b] by simp
qed

lemma hex_pairs_chars: "c \<in> set (hex_pairs d) \<Longrightarrow> c \<noteq> 0 \<and> c \<noteq> 58"
  using HEXCHARS_digit(1,4) [OF nibbles_less(1)] HEXCHARS_digit(1,4) [OF nibbles_less(2)]
    is_hex_not_colon
  by (fastforce simp: hex_pairs_def)

lemma unhex_more: "unhex (xs @ ys) (length xs div 2) = unhex xs (length xs div 2)" if "even (length xs)"
  using that
proof (induction xs "length xs div 2" rule: unhex.induct)
  case (1 a b h n)
  then show ?case by simp
qed (auto elim: oddE)

lemma unhex_pairs: "unhex (hex_pairs d) (length d) = d"
  using unhex_more [of "hex_pairs d" "[0]"] unhex_hex_bytes [of d "length d"]
  by (simp add: hex_bytes_pairs)

text \<open>
  The text form of a usable identity, with or without its secret, parses back into that
  identity (without the secret, into its public part), whatever object it is parsed into.
\<close>

lemma identity_string_roundtrip:
  assumes ok: "identity_ok i" and res: "\<not> addr_isReserved (id_address i)"
    and self: "length (id_pub self) = 64"
  shows "identity_fromString self (Some (identity_toString incl i)) =
    (True, if incl then i else public_part i)"
proof -
  let ?a = "hex_nibbles 10 (addr_int (id_address i))" and ?p = "hex_pairs (id_pub i)"
  let ?k = "case id_priv i of Some priv \<Rightarrow> if incl then Some (hex_pairs priv) else None | None \<Rightarrow> None"
  have lp: "length (id_pub i) = 64" and ao: "addr_ok (id_address i)"
    and lk: "id_priv i = Some priv \<Longrightarrow> length priv = 64" for priv
    using ok by (auto simp: identity_ok_def)
  have str: "identity_toString incl i =
      ?a @ 58 # [48] @ 58 # (case ?k of None \<Rightarrow> ?p @ [0] | Some q \<Rightarrow> ?p @ 58 # q @ [0])"
    using lp lk by (cases "id_priv i") (auto simp: identity_toString_def hex10_def hex_bytes_pairs)
  have q: "0 \<notin> set q \<and> 58 \<notin> set q \<and> length q = 128 \<and> q \<noteq> []" if "?k = Some q" for q
  proof -
    have "0 \<notin> set q \<and> 58 \<notin> set q \<and> length q = 128"
      using that lk hex_pairs_chars by (cases "id_priv i") (fastforce split: if_splits)+
    then show ?thesis by auto
  qed
  have a: "0 \<notin> set ?a" "58 \<notin> set ?a" using hex_nibbles_chars by blast+
  have p: "0 \<notin> set ?p" "58 \<notin> set ?p" using hex_pairs_chars by blast+
  have "length ?a \<noteq> 0" "length ?p \<noteq> 0" using lp by simp_all
  then have ne: "?a \<noteq> []" "?p \<noteq> []" by force+
  have fit: "scopy 384 (Some (identity_toString incl i)) = (identity_toString incl i, True)"
  proof (cases ?k)
    case None
    then have e: "identity_toString incl i = (?a @ 58 # 48 # 58 # ?p) @ [0]" using str by simp
    have "scopy_loop 384 (identity_toString incl i) [] = ([] @ identity_toString incl i, True)"
      unfolding e using a p lp by (intro scopy_loop_fits) auto
    then show ?thesis by (simp add: scopy_def)
  next
    case (Some k)
    then have e: "identity_toString incl i = (?a @ 58 # 48 # 58 # ?p @ 58 # k) @ [0]" using str by simp
    have "scopy_loop 384 (identity_toString incl i) [] = ([] @ identity_toString incl i, True)"
      unfolding e using a p q [OF Some] lp by (intro scopy_loop_fits) auto
    then show ?thesis by (simp add: scopy_def)
  qed
  have tok: "tokens 58 [] (identity_toString incl i) =
      ?a # [48] # ?p # (case ?k of None \<Rightarrow> [] | Some k \<Rightarrow> [k])"
    using a p ne q tokens_run(1) [of 58 "[48]" "[]"]
    by (cases ?k) (auto simp: str tokens_run simp del: tokens.simps(2) append_Cons)
  have "unat (addr_int (id_address i)) < 16 ^ 10"
  proof -
    have "unat (take_bit 40 (addr_int (id_address i))) < 2 ^ 40"
      unfolding unsigned_take_bit_eq by (rule take_bit_nat_less_exp)
    then show ?thesis using ao by (simp add: addr_ok_def)
  qed
  then have adr: "hexStrToU64 ?a = addr_int (id_address i)" by (rule hexStrToU64_nibbles) simp_all
  have ad: "addr_of (addr_int (id_address i)) = id_address i"
    using ao by (cases "id_address i") (simp add: addr_of_def addr_ok_def mask40)
  have pub: "unhex ?p 64 = id_pub i" using unhex_pairs [of "id_pub i"] lp by simp
  have prv: "id_priv i = Some priv \<Longrightarrow> unhex (hex_pairs priv) 64 = priv" for priv
    using unhex_pairs [of priv] lk by simp
  show ?thesis
    using lp lk prv self res
    by (cases "id_priv i")
      (auto simp: identity_fromString_def fit tok adr ad pub mem_write_def public_part_def)
qed


lemma identity_string_roundtrip_witness:
  "identity_fromString identity_nil (Some (identity_toString True
      \<lparr>id_address = addr_of 0x1122334455, id_pub = replicate 64 7, id_priv = Some (replicate 64 9)\<rparr>)) =
    (True, \<lparr>id_address = addr_of 0x1122334455, id_pub = replicate 64 7, id_priv = Some (replicate 64 9)\<rparr>)"
proof -
  let ?i = "\<lparr>id_address = addr_of 0x1122334455, id_pub = replicate 64 7, id_priv = Some (replicate 64 9)\<rparr>"
  have "identity_ok ?i" by (simp add: identity_ok_def)
  moreover have "\<not> addr_isReserved (addr_of 0x1122334455)" by code_simp
  ultimately show ?thesis
    using identity_string_roundtrip [of ?i identity_nil True] by (simp add: identity_nil_def)
qed

text \<open>
  The address of an identity that validates is bound to its public key: it is not
  reserved, and two validated identities with the same key have the same address.
\<close>

lemma identity_address_binding:
  assumes "identity_locallyValidate c i" and "identity_locallyValidate c j"
    and "id_pub i = id_pub j" and "addr_ok (id_address i)" and "addr_ok (id_address j)"
  shows "id_address i = id_address j \<and> \<not> addr_isReserved (id_address i)"
proof -
  have v: "\<not> addr_isReserved (id_address k) \<and>
      addr_bytes (id_address k) = map (\<lambda>n. computeMemoryHardHash c 32768 (id_pub k) ! n) [59, 60, 61, 62, 63]"
    if "identity_locallyValidate c k" for k
  proof -
    obtain a0 a1 a2 a3 a4 where "addr_bytes (id_address k) = [a0, a1, a2, a3, a4]"
      using list_of_length(1) [of "addr_bytes (id_address k)"] by auto
    then show ?thesis using that by (simp add: identity_locallyValidate_def Let_def split: if_splits)
  qed
  then have "addr_bytes (id_address i) = addr_bytes (id_address j)" using assms(1-3) by metis
  then have "id_address i = id_address j"
    using addr_setTo_bytes [OF assms(4)] addr_setTo_bytes [OF assms(5)] by metis
  then show ?thesis using v [OF assms(1)] by blast
qed

end
