(* ===== verification/ZT_Credentials.thy ===== *)
theory ZT_Credentials
  imports ZT_Identity ZT_Inet
begin

text \<open>
  The signed credentials of \<^verbatim>\<open>node/Tag\<close>, \<^verbatim>\<open>node/Revocation\<close>,
  \<^verbatim>\<open>node/CertificateOfOwnership\<close> and \<^verbatim>\<open>node/CertificateOfMembership\<close>: their fields, wire
  forms, the bytes that are signed, signing and verification. Timestamps are the 64-bit words
  of the wire, read as signed (\<open>sint\<close>) where the code compares them.
\<close>

section \<open>What verification consults\<close>

text \<open>
  \<open>env_getIdentity\<close> is \<^verbatim>\<open>Topology::getIdentity\<close>, which gives the null identity for an
  unknown address. A verification returns the code's 0, 1 or -1 and the addresses it asked
  \<^verbatim>\<open>Switch::requestWhois\<close> for.
\<close>

record 's env =
  env_crypto :: "'s crypto"
  env_getIdentity :: "address \<Rightarrow> identity"

datatype credential_type = CT_NULL | CT_COM | CT_CAPABILITY | CT_TAG | CT_COO | CT_REVOCATION

definition credential_code :: "credential_type \<Rightarrow> u8" where
  "credential_code t = (case t of CT_NULL \<Rightarrow> 0 | CT_COM \<Rightarrow> 1 | CT_CAPABILITY \<Rightarrow> 2 | CT_TAG \<Rightarrow> 3
     | CT_COO \<Rightarrow> 4 | CT_REVOCATION \<Rightarrow> 6)"

definition controllerFor :: "u64 \<Rightarrow> address" where
  "controllerFor nwid = addr_of (drop_bit 24 nwid)"

definition SIGN_MARK :: u64 where
  "SIGN_MARK = 0x7f7f7f7f7f7f7f7f"

text \<open>
  The shape of every \<^verbatim>\<open>verify\<close>: the signer must be the network's controller and known, and
  the signature must match the bytes a \<^verbatim>\<open>serialize(tmp, true)\<close> gives.
\<close>

definition verify_signed :: "'s env \<Rightarrow> u64 \<Rightarrow> address \<Rightarrow> zbuf res \<Rightarrow> u8 list \<Rightarrow> int \<times> address list" where
  "verify_signed e nwid signedBy tmp sig =
     (if \<not> addr_bool signedBy \<or> signedBy \<noteq> controllerFor nwid then (- 1, [])
      else let i = env_getIdentity e signedBy in
        if \<not> identity_bool i then (1, [signedBy])
        else case tmp of
          Inl _ \<Rightarrow> (- 1, [])
        | Inr b \<Rightarrow> (if identity_verify (env_crypto e) i (bdata b) sig then 0 else - 1, []))"

section \<open>Shared pieces of the readers\<close>

text \<open>
  A signature field: type 1 must have the Ed25519 length; any other type is skipped by its
  length. The signature of a skipped field stays the zeros the object was cleared to.
\<close>

definition read_sig :: "zbuf \<Rightarrow> u32 \<Rightarrow> (u8 list \<times> u32) res" where
  "read_sig b p =
     bind_res (buf_get b p) (\<lambda>ty.
     bind_res (buf_at 2 b (p + 1)) (\<lambda>l :: u16.
       if ty = 1 then
         (if l \<noteq> 96 then Inl InvalidToken
          else bind_res (buf_bytes b (p + 3) 96) (\<lambda>s. Inr (s, p + 99)))
       else Inr (replicate 96 0, p + 1 + (2 + ucast l))))"

definition read_tail :: "zbuf \<Rightarrow> u32 \<Rightarrow> u32 \<Rightarrow> u32 res" where
  "read_tail b p startAt =
     bind_res (buf_at 2 b p) (\<lambda>l :: u16.
       let q = p + (2 + ucast l) in
       if q > blen b then Inl SerializedOverflow else Inr (q - startAt))"

definition sig_writes :: "u8 list \<Rightarrow> (zbuf \<Rightarrow> zbuf res) list" where
  "sig_writes sig = [buf_append_int 1 (1 :: u8), buf_append_int 2 (96 :: u16), buf_append_bytes sig 96]"

text \<open>The frame around the fields: marks around the signed form, the signature in the other.\<close>

definition cred_writes :: "bool \<Rightarrow> (zbuf \<Rightarrow> zbuf res) list \<Rightarrow> (zbuf \<Rightarrow> zbuf res) list \<Rightarrow> zbuf \<Rightarrow> zbuf res" where
  "cred_writes forSign body sig =
     write_all ((if forSign then [buf_append_int 8 SIGN_MARK] else []) @ body @
       (if forSign then [] else sig) @ [buf_append_int 2 (0 :: u16)] @
       (if forSign then [buf_append_int 8 SIGN_MARK] else []))"

definition cred_bytes :: "bool \<Rightarrow> u8 list \<Rightarrow> u8 list \<Rightarrow> u8 list" where
  "cred_bytes forSign body sig =
     (if forSign then be_bytes 8 SIGN_MARK else []) @ body @ (if forSign then [] else sig) @ [0, 0] @
     (if forSign then be_bytes 8 SIGN_MARK else [])"

definition sig_bytes :: "u8 list \<Rightarrow> u8 list" where
  "sig_bytes sig = [1, 0, 96] @ sig"

lemma list_all2_sig: "length sig = 96 \<Longrightarrow> list_all2 appends (sig_writes sig) [[1], [0, 96], sig]"
  using appends_int [of 1 "1 :: u8"] appends_int [of 2 "96 :: u16"]
  by (simp add: sig_writes_def appends_bytes be_bytes_eval)

lemma appends_cred:
  assumes "list_all2 appends body bss" and "list_all2 appends sig sss"
  shows "appends (cred_writes forSign body sig) (cred_bytes forSign (concat bss) (concat sss))"
proof -
  have z: "appends (buf_append_int 2 (0 :: u16)) [0, 0]"
    using appends_int [of 2 "0 :: u16"] by (simp add: be_bytes_eval)
  have "appends (cred_writes forSign body sig) (concat
      ((if forSign then [be_bytes 8 SIGN_MARK] else []) @ bss @ (if forSign then [] else sss) @ [[0, 0]] @
       (if forSign then [be_bytes 8 SIGN_MARK] else [])))"
    unfolding cred_writes_def using assms z
    by (intro appends_write_all list_all2_appendI) (auto simp: appends_int)
  then show ?thesis by (simp add: cred_bytes_def split: if_splits)
qed

lemma read_sig_at:
  assumes "at_pos b p (sig_bytes sig @ rest)" and "length sig = 96"
  shows "read_sig b p = Inr (sig, p + 99)"
proof -
  have l: "be_val [0, 96 :: u8] = (96 :: u16)" by code_simp
  show ?thesis
    using assms(2) by (simp add: read_sig_def at_pos_reads [OF assms(1)]) (simp add: sig_bytes_def l)
qed

lemma read_tail_at:
  assumes "at_pos b q ([0, 0] @ rest)"
  shows "read_tail b q p = Inr (q + 2 - p)"
proof -
  have l: "be_val [0, 0 :: u8] = (0 :: u16)" by code_simp
  have "unat (q + 2) = unat q + 2" using at_pos_unat [OF assms, of 2] by simp
  then have "\<not> blen b < q + 2"
    using at_posD(2) [OF assms] by (simp add: word_less_nat_alt bsize_def)
  then show ?thesis by (simp add: read_tail_def at_pos_reads [OF assms] l)
qed

section \<open>Tag\<close>

record tag =
  tag_id :: u32
  tag_value :: u32
  tag_nwid :: u64
  tag_ts :: u64
  tag_issuedTo :: address
  tag_signedBy :: address
  tag_sig :: "u8 list"

definition tag_new :: "u64 \<Rightarrow> u64 \<Rightarrow> address \<Rightarrow> u32 \<Rightarrow> u32 \<Rightarrow> tag" where
  "tag_new nwid ts issuedTo i v =
     \<lparr>tag_id = i, tag_value = v, tag_nwid = nwid, tag_ts = ts, tag_issuedTo = issuedTo,
      tag_signedBy = addr_nil, tag_sig = replicate 96 0\<rparr>"

definition tag_serialize :: "bool \<Rightarrow> tag \<Rightarrow> zbuf \<Rightarrow> zbuf res" where
  "tag_serialize forSign t =
     cred_writes forSign
       [buf_append_int 8 (tag_nwid t), buf_append_int 8 (tag_ts t), buf_append_int 4 (tag_id t),
        buf_append_int 4 (tag_value t), addr_appendTo (tag_issuedTo t), addr_appendTo (tag_signedBy t)]
       (sig_writes (tag_sig t))"

definition tag_deserialize :: "zbuf \<Rightarrow> u32 \<Rightarrow> (tag \<times> u32) res" where
  "tag_deserialize b p =
     bind_res (buf_at 8 b p) (\<lambda>nwid. bind_res (buf_at 8 b (p + 8)) (\<lambda>ts.
     bind_res (buf_at 4 b (p + 16)) (\<lambda>i. bind_res (buf_at 4 b (p + 20)) (\<lambda>v.
     bind_res (addr_read b (p + 24)) (\<lambda>to. bind_res (addr_read b (p + 29)) (\<lambda>by.
     bind_res (read_sig b (p + 34)) (\<lambda>(sig, q).
     bind_res (read_tail b q p) (\<lambda>l.
       Inr (\<lparr>tag_id = i, tag_value = v, tag_nwid = nwid, tag_ts = ts, tag_issuedTo = to,
             tag_signedBy = by, tag_sig = sig\<rparr>, l)))))))))"

definition tag_sign :: "'s crypto \<Rightarrow> identity \<Rightarrow> tag \<Rightarrow> (bool \<times> tag) res" where
  "tag_sign c signer t =
     (if identity_hasPrivate signer then
        let t1 = t\<lparr>tag_signedBy := id_address signer\<rparr> in
        bind_res (tag_serialize True t1 (buf_new (replicate (136 + 64) 0))) (\<lambda>tmp.
        bind_res (identity_sign c signer (bdata tmp)) (\<lambda>sig. Inr (True, t1\<lparr>tag_sig := sig\<rparr>)))
      else Inr (False, t))"

definition tag_verify :: "'s env \<Rightarrow> tag \<Rightarrow> int \<times> address list" where
  "tag_verify e t =
     verify_signed e (tag_nwid t) (tag_signedBy t)
       (tag_serialize True t (buf_new (replicate (136 * 2) 0))) (tag_sig t)"

definition tag_less :: "tag \<Rightarrow> tag \<Rightarrow> bool" where
  "tag_less a b \<longleftrightarrow> tag_id a < tag_id b"

section \<open>Revocation\<close>

record revocation =
  rev_id :: u32
  rev_credentialId :: u32
  rev_nwid :: u64
  rev_threshold :: u64
  rev_flags :: u64
  rev_target :: address
  rev_signedBy :: address
  rev_type :: u8
  rev_sig :: "u8 list"

definition rev_new :: "u32 \<Rightarrow> u64 \<Rightarrow> u32 \<Rightarrow> u64 \<Rightarrow> u64 \<Rightarrow> address \<Rightarrow> credential_type \<Rightarrow> revocation" where
  "rev_new i nwid cid thr fl tgt ct =
     \<lparr>rev_id = i, rev_credentialId = cid, rev_nwid = nwid, rev_threshold = thr, rev_flags = fl,
      rev_target = tgt, rev_signedBy = addr_nil, rev_type = credential_code ct, rev_sig = replicate 96 0\<rparr>"

definition rev_fastPropagate :: "revocation \<Rightarrow> bool" where
  "rev_fastPropagate r \<longleftrightarrow> rev_flags r AND 1 \<noteq> 0"

definition rev_serialize :: "bool \<Rightarrow> revocation \<Rightarrow> zbuf \<Rightarrow> zbuf res" where
  "rev_serialize forSign r =
     cred_writes forSign
       [buf_append_int 4 (0 :: u32), buf_append_int 4 (rev_id r), buf_append_int 8 (rev_nwid r),
        buf_append_int 4 (0 :: u32), buf_append_int 4 (rev_credentialId r),
        buf_append_int 8 (rev_threshold r), buf_append_int 8 (rev_flags r),
        addr_appendTo (rev_target r), addr_appendTo (rev_signedBy r), buf_append_int 1 (rev_type r)]
       (sig_writes (rev_sig r))"

definition rev_deserialize :: "zbuf \<Rightarrow> u32 \<Rightarrow> (revocation \<times> u32) res" where
  "rev_deserialize b p =
     bind_res (buf_at 4 b (p + 4)) (\<lambda>i. bind_res (buf_at 8 b (p + 8)) (\<lambda>nwid.
     bind_res (buf_at 4 b (p + 20)) (\<lambda>cid. bind_res (buf_at 8 b (p + 24)) (\<lambda>thr.
     bind_res (buf_at 8 b (p + 32)) (\<lambda>fl.
     bind_res (addr_read b (p + 40)) (\<lambda>tgt. bind_res (addr_read b (p + 45)) (\<lambda>by.
     bind_res (buf_get b (p + 50)) (\<lambda>ty.
     bind_res (read_sig b (p + 51)) (\<lambda>(sig, q).
     bind_res (read_tail b q p) (\<lambda>l.
       Inr (\<lparr>rev_id = i, rev_credentialId = cid, rev_nwid = nwid, rev_threshold = thr, rev_flags = fl,
             rev_target = tgt, rev_signedBy = by, rev_type = ty, rev_sig = sig\<rparr>, l)))))))))))"

definition rev_sign :: "'s crypto \<Rightarrow> identity \<Rightarrow> revocation \<Rightarrow> (bool \<times> revocation) res" where
  "rev_sign c signer r =
     (if identity_hasPrivate signer then
        let r1 = r\<lparr>rev_signedBy := id_address signer\<rparr> in
        bind_res (rev_serialize True r1 (buf_new (replicate (152 + 64) 0))) (\<lambda>tmp.
        bind_res (identity_sign c signer (bdata tmp)) (\<lambda>sig. Inr (True, r1\<lparr>rev_sig := sig\<rparr>)))
      else Inr (False, r))"

definition rev_verify :: "'s env \<Rightarrow> revocation \<Rightarrow> int \<times> address list" where
  "rev_verify e r =
     verify_signed e (rev_nwid r) (rev_signedBy r)
       (rev_serialize True r (buf_new (replicate (152 + 64) 0))) (rev_sig r)"

section \<open>Certificate of ownership\<close>

text \<open>
  The two arrays have their fixed 16 entries; the count is a 16-bit field of its own, and an
  index of 16 or more is outside the arrays.
\<close>

record coo =
  coo_nwid :: u64
  coo_ts :: u64
  coo_flags :: u64
  coo_id :: u32
  coo_thingCount :: u16
  coo_thingTypes :: "u8 list"
  coo_thingValues :: "u8 list list"
  coo_issuedTo :: address
  coo_signedBy :: address
  coo_sig :: "u8 list"

definition coo_empty :: coo where
  "coo_empty = \<lparr>coo_nwid = 0, coo_ts = 0, coo_flags = 0, coo_id = 0, coo_thingCount = 0,
     coo_thingTypes = replicate 16 0, coo_thingValues = replicate 16 (replicate 16 0),
     coo_issuedTo = addr_nil, coo_signedBy = addr_nil, coo_sig = replicate 96 0\<rparr>"

definition coo_new :: "u64 \<Rightarrow> u64 \<Rightarrow> address \<Rightarrow> u32 \<Rightarrow> coo" where
  "coo_new nwid ts issuedTo i =
     coo_empty\<lparr>coo_nwid := nwid, coo_ts := ts, coo_id := i, coo_issuedTo := issuedTo\<rparr>"

fun coo_owns_loop :: "coo \<Rightarrow> u8 \<Rightarrow> u8 list \<Rightarrow> nat \<Rightarrow> nat list \<Rightarrow> bool res" where
  "coo_owns_loop c t v l [] = Inr False"
| "coo_owns_loop c t v l (i # is) =
     (if i \<ge> 16 then Inl UndefinedBehaviour
      else if coo_thingTypes c ! i = t \<and> take l v = take l (coo_thingValues c ! i) then Inr True
      else coo_owns_loop c t v l is)"

definition coo_owns_thing :: "coo \<Rightarrow> u8 \<Rightarrow> u8 list \<Rightarrow> nat \<Rightarrow> bool res" where
  "coo_owns_thing c t v l = coo_owns_loop c t v l [0..<unat (coo_thingCount c)]"

definition coo_owns_ip :: "coo \<Rightarrow> inet \<Rightarrow> bool res" where
  "coo_owns_ip c ip =
     (if inet_isV4 ip then coo_owns_thing c 2 (ip4_b ip) 4
      else if inet_isV6 ip then coo_owns_thing c 3 (ip6_b ip) 16
      else Inr False)"

definition coo_owns_mac :: "coo \<Rightarrow> mac \<Rightarrow> bool res" where
  "coo_owns_mac c m = coo_owns_thing c 1 (mac_bytes m) 6"

definition coo_put_thing :: "u8 \<Rightarrow> u8 list \<Rightarrow> coo \<Rightarrow> coo" where
  "coo_put_thing t v c =
     (let n = unat (coo_thingCount c) in
      c\<lparr>coo_thingTypes := (coo_thingTypes c)[n := t],
        coo_thingValues := (coo_thingValues c)[n := mem_write (coo_thingValues c ! n) 0 v],
        coo_thingCount := coo_thingCount c + 1\<rparr>)"

definition coo_addThing_ip :: "inet \<Rightarrow> coo \<Rightarrow> coo" where
  "coo_addThing_ip ip c =
     (if coo_thingCount c \<ge> 16 then c
      else if inet_isV4 ip then coo_put_thing 2 (ip4_b ip) c
      else if inet_isV6 ip then coo_put_thing 3 (ip6_b ip) c
      else c)"

definition coo_addThing_mac :: "mac \<Rightarrow> coo \<Rightarrow> coo" where
  "coo_addThing_mac m c =
     (if coo_thingCount c \<ge> 16 then c else coo_put_thing 1 (mac_bytes m) c)"

definition coo_thing_writes :: "coo \<Rightarrow> nat \<Rightarrow> (zbuf \<Rightarrow> zbuf res) list" where
  "coo_thing_writes c i =
     (if i \<ge> 16 then [\<lambda>_. Inl UndefinedBehaviour]
      else [buf_append_int 1 (coo_thingTypes c ! i), buf_append_bytes (coo_thingValues c ! i) 16])"

definition coo_serialize :: "bool \<Rightarrow> coo \<Rightarrow> zbuf \<Rightarrow> zbuf res" where
  "coo_serialize forSign c =
     cred_writes forSign
       ([buf_append_int 8 (coo_nwid c), buf_append_int 8 (coo_ts c), buf_append_int 8 (coo_flags c),
         buf_append_int 4 (coo_id c), buf_append_int 2 (coo_thingCount c)] @
        concat (map (coo_thing_writes c) [0..<unat (coo_thingCount c)]) @
        [addr_appendTo (coo_issuedTo c), addr_appendTo (coo_signedBy c)])
       (sig_writes (coo_sig c))"

text \<open>The loop reads a thing only while its index is below 16 and otherwise does nothing.\<close>

fun coo_read_things :: "zbuf \<Rightarrow> nat list \<Rightarrow> u32 \<Rightarrow> u8 list \<Rightarrow> u8 list list \<Rightarrow>
    (u8 list \<times> u8 list list \<times> u32) res" where
  "coo_read_things b [] p ts vs = Inr (ts, vs, p)"
| "coo_read_things b (i # is) p ts vs =
     (if i < 16 then
        bind_res (buf_get b p) (\<lambda>t. bind_res (buf_bytes b (p + 1) 16) (\<lambda>v.
          coo_read_things b is (p + 17) (ts[i := t]) (vs[i := v])))
      else coo_read_things b is p ts vs)"

definition coo_deserialize :: "zbuf \<Rightarrow> u32 \<Rightarrow> (coo \<times> u32) res" where
  "coo_deserialize b p =
     bind_res (buf_at 8 b p) (\<lambda>nwid. bind_res (buf_at 8 b (p + 8)) (\<lambda>ts.
     bind_res (buf_at 8 b (p + 16)) (\<lambda>fl. bind_res (buf_at 4 b (p + 24)) (\<lambda>i.
     bind_res (buf_at 2 b (p + 28)) (\<lambda>n.
     bind_res (coo_read_things b [0..<unat n] (p + 30) (replicate 16 0) (replicate 16 (replicate 16 0)))
       (\<lambda>(tys, vals, q).
     bind_res (addr_read b q) (\<lambda>to. bind_res (addr_read b (q + 5)) (\<lambda>by.
     bind_res (read_sig b (q + 10)) (\<lambda>(sig, q2).
     bind_res (read_tail b q2 p) (\<lambda>l.
       Inr (\<lparr>coo_nwid = nwid, coo_ts = ts, coo_flags = fl, coo_id = i, coo_thingCount = n,
             coo_thingTypes = tys, coo_thingValues = vals, coo_issuedTo = to, coo_signedBy = by,
             coo_sig = sig\<rparr>, l)))))))))))"

definition coo_sign :: "'s crypto \<Rightarrow> identity \<Rightarrow> coo \<Rightarrow> (bool \<times> coo) res" where
  "coo_sign c signer o1 =
     (if identity_hasPrivate signer then
        let o2 = o1\<lparr>coo_signedBy := id_address signer\<rparr> in
        bind_res (coo_serialize True o2 (buf_new (replicate (416 + 64) 0))) (\<lambda>tmp.
        bind_res (identity_sign c signer (bdata tmp)) (\<lambda>sig. Inr (True, o2\<lparr>coo_sig := sig\<rparr>)))
      else Inr (False, o1))"

definition coo_verify :: "'s env \<Rightarrow> coo \<Rightarrow> int \<times> address list" where
  "coo_verify e c =
     verify_signed e (coo_nwid c) (coo_signedBy c)
       (coo_serialize True c (buf_new (replicate (416 + 64) 0))) (coo_sig c)"

section \<open>Certificate of membership\<close>

record qualifier =
  q_id :: u64
  q_value :: u64
  q_maxDelta :: u64

record com =
  com_quals :: "qualifier list"
  com_signedBy :: address
  com_sig :: "u8 list"

definition com_nil :: com where
  "com_nil = \<lparr>com_quals = [], com_signedBy = addr_nil, com_sig = replicate 96 0\<rparr>"

definition com_bool :: "com \<Rightarrow> bool" where
  "com_bool c \<longleftrightarrow> com_quals c \<noteq> []"

definition com_new :: "'s crypto \<Rightarrow> u64 \<Rightarrow> u64 \<Rightarrow> u64 \<Rightarrow> identity \<Rightarrow> com" where
  "com_new c ts maxDelta nwid issuedTo =
     (let idHash = identity_publicKeyHash c issuedTo in
      \<lparr>com_quals =
         [\<lparr>q_id = 0, q_value = ts, q_maxDelta = maxDelta\<rparr>,
          \<lparr>q_id = 1, q_value = nwid, q_maxDelta = 0\<rparr>,
          \<lparr>q_id = 2, q_value = addr_int (id_address issuedTo), q_maxDelta = - 1\<rparr>] @
         map (\<lambda>i. \<lparr>q_id = of_nat (i + 3), q_value = be_val (word_at idHash i), q_maxDelta = - 1\<rparr>) [0..<4],
       com_signedBy = addr_nil, com_sig = replicate 96 0\<rparr>)"

text \<open>The three accessors return the first qualifier with their id.\<close>

definition com_field :: "u64 \<Rightarrow> com \<Rightarrow> u64 option" where
  "com_field i c = map_option q_value (find (\<lambda>q. q_id q = i) (com_quals c))"

definition com_timestamp :: "com \<Rightarrow> u64" where
  "com_timestamp c = (case com_field 0 c of Some v \<Rightarrow> v | None \<Rightarrow> 0)"

definition com_networkId :: "com \<Rightarrow> u64" where
  "com_networkId c = (case com_field 1 c of Some v \<Rightarrow> v | None \<Rightarrow> 0)"

definition com_issuedTo :: "com \<Rightarrow> address" where
  "com_issuedTo c = (case com_field 2 c of Some v \<Rightarrow> addr_of v | None \<Rightarrow> addr_nil)"

definition com_eq :: "com \<Rightarrow> com \<Rightarrow> bool" where
  "com_eq a b \<longleftrightarrow> com_signedBy a = com_signedBy b \<and> length (com_quals a) = length (com_quals b) \<and>
     list_all2 (\<lambda>p q. q_id p = q_id q \<and> q_value p = q_value q \<and> q_maxDelta p = q_maxDelta q)
       (com_quals a) (com_quals b) \<and>
     com_sig a = com_sig b"

text \<open>
  \<open>agreesWith\<close>: the other's qualifiers as a map, in which a later one replaces an earlier one
  of the same id; then the loop over the own qualifiers, and the identity hash if any own
  qualifier has one of its four ids.
\<close>

definition com_map :: "com \<Rightarrow> u64 \<Rightarrow> u64 option" where
  "com_map c = foldl (\<lambda>m q. m(q_id q \<mapsto> q_value q)) Map.empty (com_quals c)"

definition udist :: "u64 \<Rightarrow> u64 \<Rightarrow> u64" where
  "udist a b = (if a \<ge> b then a - b else b - a)"

fun com_agree_loop :: "(u64 \<Rightarrow> u64 option) \<Rightarrow> qualifier list \<Rightarrow> bool \<Rightarrow> bool option" where
  "com_agree_loop other [] full = Some full"
| "com_agree_loop other (q # qs) full =
     (let full = (if q_id q \<ge> 3 \<and> q_id q \<le> 6 then True else full) in
      case other (q_id q) of None \<Rightarrow> None
      | Some b \<Rightarrow>
          (if udist (q_value q) b > q_maxDelta q then None
           else com_agree_loop other qs full))"

definition com_agreesWith :: "'s crypto \<Rightarrow> com \<Rightarrow> com \<Rightarrow> identity \<Rightarrow> bool" where
  "com_agreesWith c self other otherIdentity =
     (if com_quals self = [] \<or> com_quals other = [] then False
      else case com_agree_loop (com_map other) (com_quals self) False of
        None \<Rightarrow> False
      | Some full \<Rightarrow>
          (if full then
             (let idHash = identity_publicKeyHash c otherIdentity in
              list_all (\<lambda>i. com_map other (of_nat (i + 3)) = Some (be_val (word_at idHash i))) [0..<4])
           else True))"

definition com_signed_bytes :: "com \<Rightarrow> u8 list" where
  "com_signed_bytes c =
     concat (map (\<lambda>q. be_bytes 8 (q_id q) @ be_bytes 8 (q_value q) @ be_bytes 8 (q_maxDelta q)) (com_quals c))"

definition com_sign :: "'s crypto \<Rightarrow> identity \<Rightarrow> com \<Rightarrow> bool \<times> com" where
  "com_sign cr signer c =
     (case identity_sign cr signer (com_signed_bytes c) of
        Inr sig \<Rightarrow> (True, c\<lparr>com_sig := sig, com_signedBy := id_address signer\<rparr>)
      | Inl _ \<Rightarrow> (False, c\<lparr>com_signedBy := addr_nil\<rparr>))"

definition com_verify :: "'s env \<Rightarrow> com \<Rightarrow> int \<times> address list" where
  "com_verify e c =
     (if \<not> addr_bool (com_signedBy c) \<or> com_signedBy c \<noteq> controllerFor (com_networkId c)
         \<or> length (com_quals c) > 8 then (- 1, [])
      else let i = env_getIdentity e (com_signedBy c) in
        if \<not> identity_bool i then (1, [com_signedBy c])
        else (if identity_verify (env_crypto e) i (com_signed_bytes c) (com_sig c) then 0 else - 1, []))"

definition qual_writes :: "qualifier \<Rightarrow> (zbuf \<Rightarrow> zbuf res) list" where
  "qual_writes q = [buf_append_int 8 (q_id q), buf_append_int 8 (q_value q), buf_append_int 8 (q_maxDelta q)]"

definition com_serialize :: "com \<Rightarrow> zbuf \<Rightarrow> zbuf res" where
  "com_serialize c =
     write_all ([buf_append_int 1 (1 :: u8), buf_append_int 2 (of_nat (length (com_quals c)) :: u16)] @
       concat (map qual_writes (com_quals c)) @ [addr_appendTo (com_signedBy c)] @
       (if addr_bool (com_signedBy c) then [buf_append_bytes (com_sig c) 96] else []))"

text \<open>\<open>k\<close> counts the qualifiers stored so far.\<close>

fun com_read_quals :: "zbuf \<Rightarrow> nat \<Rightarrow> nat \<Rightarrow> u64 \<Rightarrow> u32 \<Rightarrow> (qualifier list \<times> u32) res" where
  "com_read_quals b 0 k lastId p = Inr ([], p)"
| "com_read_quals b (Suc n) k lastId p =
     bind_res (buf_at 8 b p) (\<lambda>qid.
       if qid < lastId then Inl BadEncoding
       else if k < 8 then
         bind_res (buf_at 8 b (p + 8)) (\<lambda>v. bind_res (buf_at 8 b (p + 16)) (\<lambda>d.
         bind_res (com_read_quals b n (k + 1) qid (p + 24)) (\<lambda>(qs, q).
           Inr (\<lparr>q_id = qid, q_value = v, q_maxDelta = d\<rparr> # qs, q))))
       else Inl SerializedOverflow)"

text \<open>
  The object keeps its previous signature (\<open>old\<close>) when the serialized form has none.
\<close>

definition com_deserialize :: "u8 list \<Rightarrow> zbuf \<Rightarrow> u32 \<Rightarrow> (com \<times> u32) res" where
  "com_deserialize old b p =
     bind_res (buf_get b p) (\<lambda>ty.
     if ty \<noteq> 1 then Inl InvalidType
     else
       bind_res (buf_at 2 b (p + 1)) (\<lambda>numq :: u16.
       bind_res (com_read_quals b (unat numq) 0 0 (p + 3)) (\<lambda>(qs, q).
       bind_res (addr_read b q) (\<lambda>by.
       if addr_bool by then
         bind_res (buf_bytes b (q + 5) 96) (\<lambda>sig.
           Inr (\<lparr>com_quals = qs, com_signedBy = by, com_sig = sig\<rparr>, q + 101 - p))
       else Inr (\<lparr>com_quals = qs, com_signedBy = by, com_sig = old\<rparr>, q + 5 - p)))))"

section \<open>Wire contracts: tag and revocation\<close>

definition tag_ok :: "tag \<Rightarrow> bool" where
  "tag_ok t \<longleftrightarrow> addr_ok (tag_issuedTo t) \<and> addr_ok (tag_signedBy t) \<and> length (tag_sig t) = 96"

definition tag_body :: "tag \<Rightarrow> u8 list" where
  "tag_body t = be_bytes 8 (tag_nwid t) @ be_bytes 8 (tag_ts t) @ be_bytes 4 (tag_id t) @
     be_bytes 4 (tag_value t) @ addr_bytes (tag_issuedTo t) @ addr_bytes (tag_signedBy t)"

definition tag_enc :: "bool \<Rightarrow> tag \<Rightarrow> u8 list" where
  "tag_enc forSign t = cred_bytes forSign (tag_body t) (sig_bytes (tag_sig t))"

lemma concat_sig: "concat [[1], [0, 96], sig] = sig_bytes sig"
  by (simp add: sig_bytes_def)

lemma appends_tag:
  assumes "tag_ok t" shows "appends (tag_serialize forSign t) (tag_enc forSign t)"
proof -
  have "list_all2 appends
      [buf_append_int 8 (tag_nwid t), buf_append_int 8 (tag_ts t), buf_append_int 4 (tag_id t),
        buf_append_int 4 (tag_value t), addr_appendTo (tag_issuedTo t), addr_appendTo (tag_signedBy t)]
      [be_bytes 8 (tag_nwid t), be_bytes 8 (tag_ts t), be_bytes 4 (tag_id t), be_bytes 4 (tag_value t),
        addr_bytes (tag_issuedTo t), addr_bytes (tag_signedBy t)]"
    by (simp add: appends_int appends_addr)
  from appends_cred [OF this list_all2_sig] show ?thesis
    using assms by (simp add: tag_ok_def tag_serialize_def tag_enc_def tag_body_def concat_sig del: concat.simps)
      (simp add: sig_bytes_def)
qed

lemma read_cred_end:
  assumes "at_pos b p (body @ sig_bytes sig @ [0, 0] @ rest)" and "length sig = 96" and "unat k = length body"
  shows "read_sig b (p + k) = Inr (sig, p + k + 99)"
    and "read_tail b (p + k + 99) s = Inr (p + k + 101 - s)"
proof -
  have r: "at_pos b (p + k) (sig_bytes sig @ [0, 0] @ rest)" by (rule at_pos_skip [OF assms(1,3)])
  from read_sig_at [OF this assms(2)] show "read_sig b (p + k) = Inr (sig, p + k + 99)" .
  have "at_pos b (p + k + 99) ([0, 0] @ rest)"
    using at_pos_skip [OF r, of 99] assms(2) by (simp add: sig_bytes_def)
  from read_tail_at [OF this] show "read_tail b (p + k + 99) s = Inr (p + k + 101 - s)" by simp
qed

lemma tag_des_enc:
  assumes ok: "tag_ok t" and pos: "at_pos b p (tag_enc False t @ rest)"
  shows "tag_deserialize b p = Inr (t, 135)"
proof -
  have pos': "at_pos b p (tag_body t @ sig_bytes (tag_sig t) @ [0, 0] @ rest)"
    using pos by (simp add: tag_enc_def cred_bytes_def)
  have l: "length (tag_sig t) = 96" and a: "addr_ok (tag_issuedTo t)" "addr_ok (tag_signedBy t)"
    using ok by (simp_all add: tag_ok_def)
  have "unat (34 :: u32) = length (tag_body t)" by (simp add: tag_body_def)
  note e = read_cred_end(1) [OF pos' l this] read_cred_end(2) [OF pos' l this, of p]
  note rd = at_pos_reads [OF pos'] at_pos_addrs [OF pos']
  show ?thesis using l a e
    by (simp add: tag_deserialize_def rd) (simp add: tag_body_def algebra_simps)
qed

lemma length_tag_enc: "tag_ok t \<Longrightarrow> length (tag_enc False t) = 135"
  by (simp add: tag_ok_def tag_enc_def cred_bytes_def tag_body_def sig_bytes_def)

interpretation tag_wire: wire_object "tag_serialize False" tag_deserialize "tag_enc False" tag_ok
  by unfold_locales (simp_all add: appends_tag tag_des_enc length_tag_enc)

definition rev_ok :: "revocation \<Rightarrow> bool" where
  "rev_ok r \<longleftrightarrow> addr_ok (rev_target r) \<and> addr_ok (rev_signedBy r) \<and> length (rev_sig r) = 96"

definition rev_body :: "revocation \<Rightarrow> u8 list" where
  "rev_body r = be_bytes 4 (0 :: u32) @ be_bytes 4 (rev_id r) @ be_bytes 8 (rev_nwid r) @
     be_bytes 4 (0 :: u32) @ be_bytes 4 (rev_credentialId r) @ be_bytes 8 (rev_threshold r) @
     be_bytes 8 (rev_flags r) @ addr_bytes (rev_target r) @ addr_bytes (rev_signedBy r) @ [rev_type r]"

definition rev_enc :: "bool \<Rightarrow> revocation \<Rightarrow> u8 list" where
  "rev_enc forSign r = cred_bytes forSign (rev_body r) (sig_bytes (rev_sig r))"

lemma appends_rev:
  assumes "rev_ok r" shows "appends (rev_serialize forSign r) (rev_enc forSign r)"
proof -
  have "list_all2 appends
      [buf_append_int 4 (0 :: u32), buf_append_int 4 (rev_id r), buf_append_int 8 (rev_nwid r),
        buf_append_int 4 (0 :: u32), buf_append_int 4 (rev_credentialId r),
        buf_append_int 8 (rev_threshold r), buf_append_int 8 (rev_flags r),
        addr_appendTo (rev_target r), addr_appendTo (rev_signedBy r), buf_append_int 1 (rev_type r)]
      [be_bytes 4 (0 :: u32), be_bytes 4 (rev_id r), be_bytes 8 (rev_nwid r),
        be_bytes 4 (0 :: u32), be_bytes 4 (rev_credentialId r), be_bytes 8 (rev_threshold r),
        be_bytes 8 (rev_flags r), addr_bytes (rev_target r), addr_bytes (rev_signedBy r), [rev_type r]]"
    by (simp add: appends_int appends_addr appends_u8)
  from appends_cred [OF this list_all2_sig] show ?thesis
    using assms by (simp add: rev_ok_def rev_serialize_def rev_enc_def rev_body_def sig_bytes_def)
qed

lemma rev_des_enc:
  assumes ok: "rev_ok r" and pos: "at_pos b p (rev_enc False r @ rest)"
  shows "rev_deserialize b p = Inr (r, 152)"
proof -
  have pos': "at_pos b p (rev_body r @ sig_bytes (rev_sig r) @ [0, 0] @ rest)"
    using pos by (simp add: rev_enc_def cred_bytes_def)
  have l: "length (rev_sig r) = 96" and a: "addr_ok (rev_target r)" "addr_ok (rev_signedBy r)"
    using ok by (simp_all add: rev_ok_def)
  have "unat (51 :: u32) = length (rev_body r)" by (simp add: rev_body_def)
  note e = read_cred_end(1) [OF pos' l this] read_cred_end(2) [OF pos' l this, of p]
  note rd = at_pos_reads [OF pos'] at_pos_addrs [OF pos']
  show ?thesis using l a e
    by (simp add: rev_deserialize_def rd) (simp add: rev_body_def nth_append algebra_simps)
qed

lemma length_rev_enc: "rev_ok r \<Longrightarrow> length (rev_enc False r) = 152"
  by (simp add: rev_ok_def rev_enc_def cred_bytes_def rev_body_def sig_bytes_def)

interpretation rev_wire: wire_object "rev_serialize False" rev_deserialize "rev_enc False" rev_ok
  by unfold_locales (simp_all add: appends_rev rev_des_enc length_rev_enc)

section \<open>Wire contracts: certificate of ownership\<close>

definition coo_ok :: "coo \<Rightarrow> bool" where
  "coo_ok c \<longleftrightarrow> (let n = unat (coo_thingCount c) in
     addr_ok (coo_issuedTo c) \<and> addr_ok (coo_signedBy c) \<and> length (coo_sig c) = 96 \<and> n \<le> 16 \<and>
     length (coo_thingTypes c) = 16 \<and> length (coo_thingValues c) = 16 \<and>
     list_all (\<lambda>v. length v = 16) (coo_thingValues c) \<and>
     coo_thingTypes c = take n (coo_thingTypes c) @ replicate (16 - n) 0 \<and>
     coo_thingValues c = take n (coo_thingValues c) @ replicate (16 - n) (replicate 16 0))"

definition things_enc :: "u8 list \<Rightarrow> u8 list list \<Rightarrow> nat list \<Rightarrow> u8 list" where
  "things_enc ts vs is = concat (map (\<lambda>i. ts ! i # vs ! i) is)"

definition coo_body :: "coo \<Rightarrow> u8 list" where
  "coo_body c = be_bytes 8 (coo_nwid c) @ be_bytes 8 (coo_ts c) @ be_bytes 8 (coo_flags c) @
     be_bytes 4 (coo_id c) @ be_bytes 2 (coo_thingCount c) @
     things_enc (coo_thingTypes c) (coo_thingValues c) [0..<unat (coo_thingCount c)] @
     addr_bytes (coo_issuedTo c) @ addr_bytes (coo_signedBy c)"

definition coo_enc :: "bool \<Rightarrow> coo \<Rightarrow> u8 list" where
  "coo_enc forSign c = cred_bytes forSign (coo_body c) (sig_bytes (coo_sig c))"

lemma appends_coo:
  assumes "coo_ok c" shows "appends (coo_serialize forSign c) (coo_enc forSign c)"
proof -
  have n: "unat (coo_thingCount c) \<le> 16" and v: "length (coo_thingValues c) = 16"
    "list_all (\<lambda>v. length v = 16) (coo_thingValues c)" and s: "length (coo_sig c) = 96"
    using assms by (simp_all add: coo_ok_def Let_def)
  have th: "list_all2 appends (concat (map (coo_thing_writes c) is))
      (concat (map (\<lambda>i. [[coo_thingTypes c ! i], coo_thingValues c ! i]) is))"
    if "\<forall>i\<in>set is. i < 16" for "is"
    using that v
    by (induction "is") (auto simp: coo_thing_writes_def appends_u8 appends_bytes list_all_length)
  have c: "concat (concat (map (\<lambda>i. [[coo_thingTypes c ! i], coo_thingValues c ! i]) is)) =
      things_enc (coo_thingTypes c) (coo_thingValues c) is" for "is"
    by (induction "is") (simp_all add: things_enc_def)
  have "list_all2 appends
      ([buf_append_int 8 (coo_nwid c), buf_append_int 8 (coo_ts c), buf_append_int 8 (coo_flags c),
         buf_append_int 4 (coo_id c), buf_append_int 2 (coo_thingCount c)] @
        concat (map (coo_thing_writes c) [0..<unat (coo_thingCount c)]) @
        [addr_appendTo (coo_issuedTo c), addr_appendTo (coo_signedBy c)])
      ([be_bytes 8 (coo_nwid c), be_bytes 8 (coo_ts c), be_bytes 8 (coo_flags c),
         be_bytes 4 (coo_id c), be_bytes 2 (coo_thingCount c)] @
        concat (map (\<lambda>i. [[coo_thingTypes c ! i], coo_thingValues c ! i]) [0..<unat (coo_thingCount c)]) @
        [addr_bytes (coo_issuedTo c), addr_bytes (coo_signedBy c)])"
    using th n by (intro list_all2_appendI) (auto simp: appends_int appends_addr)
  from appends_cred [OF this list_all2_sig [OF s]] show ?thesis
    by (simp add: coo_serialize_def coo_enc_def coo_body_def c sig_bytes_def)
qed

lemma length_things_enc:
  "\<forall>i\<in>set is. length (vs ! i) = 16 \<Longrightarrow> length (things_enc ts vs is) = 17 * length is"
  by (induction "is") (simp_all add: things_enc_def)

lemma array_step:
  "length T = 16 \<Longrightarrow> m < 16 \<Longrightarrow>
    (take m T @ replicate (16 - m) z)[m := T ! m] = take (Suc m) T @ replicate (16 - Suc m) z"
  by (simp add: list_update_append take_Suc_conv_app_nth Suc_diff_Suc [symmetric])

lemma coo_read_things_at:
  assumes "length T = 16" "length V = 16" "\<forall>i<16. length (V ! i) = 16" "n \<le> 16" "m \<le> n"
    and "at_pos b p (things_enc T V [m..<n] @ rest)"
  shows "coo_read_things b [m..<n] p (take m T @ replicate (16 - m) 0)
      (take m V @ replicate (16 - m) (replicate 16 0)) =
    Inr (take n T @ replicate (16 - n) 0, take n V @ replicate (16 - n) (replicate 16 0),
      p + of_nat (17 * (n - m)))"
  using assms(5,6)
proof (induction "n - m" arbitrary: m p)
  case 0
  then show ?case by simp
next
  case (Suc k)
  then have m: "m < n" by simp
  then have u: "[m..<n] = m # [Suc m..<n]" by (rule upt_conv_Cons)
  have pos: "at_pos b p ((T ! m # V ! m) @ things_enc T V [Suc m..<n] @ rest)"
    using Suc.prems(2) u by (simp add: things_enc_def)
  have lv: "length (V ! m) = 16" using assms(3,4) m by simp
  have nxt: "at_pos b (p + 17) (things_enc T V [Suc m..<n] @ rest)"
    using at_pos_skip [OF pos, of 17] lv by simp
  have r: "buf_get b p = Inr (T ! m)" "buf_bytes b (p + 1) 16 = Inr (V ! m)"
    using at_pos_reads [OF pos] lv by simp_all
  have "coo_read_things b [m..<n] p (take m T @ replicate (16 - m) 0)
      (take m V @ replicate (16 - m) (replicate 16 0)) =
    coo_read_things b [Suc m..<n] (p + 17) (take (Suc m) T @ replicate (16 - Suc m) 0)
      (take (Suc m) V @ replicate (16 - Suc m) (replicate 16 0))"
    using m assms(1,2,4) unfolding u by (simp add: r array_step)
  also have "\<dots> = Inr (take n T @ replicate (16 - n) 0, take n V @ replicate (16 - n) (replicate 16 0),
      p + 17 + of_nat (17 * (n - Suc m)))"
    using Suc.hyps(1) [of "Suc m" "p + 17"] Suc.hyps(2) m nxt by simp
  also have "p + 17 + of_nat (17 * (n - Suc m)) = (p + of_nat (17 * (n - m)) :: u32)"
  proof -
    have "17 * (n - m) = 17 + 17 * (n - Suc m)" using m by simp
    then show ?thesis by simp
  qed
  finally show ?case .
qed

lemma coo_des_enc:
  assumes ok: "coo_ok c" and pos: "at_pos b p (coo_enc False c @ rest)"
  shows "coo_deserialize b p = Inr (c, of_nat (length (coo_enc False c)))"
proof -
  let ?n = "unat (coo_thingCount c)"
  let ?th = "things_enc (coo_thingTypes c) (coo_thingValues c) [0..<?n]"
  let ?hd = "be_bytes 8 (coo_nwid c) @ be_bytes 8 (coo_ts c) @ be_bytes 8 (coo_flags c) @
     be_bytes 4 (coo_id c) @ be_bytes 2 (coo_thingCount c)"
  let ?ad = "addr_bytes (coo_issuedTo c) @ addr_bytes (coo_signedBy c)"
  have n: "?n \<le> 16" and lt: "length (coo_thingTypes c) = 16" and lv: "length (coo_thingValues c) = 16"
    "\<forall>i<16. length (coo_thingValues c ! i) = 16" and s: "length (coo_sig c) = 96"
    and a: "addr_ok (coo_issuedTo c)" "addr_ok (coo_signedBy c)"
    and z: "take ?n (coo_thingTypes c) @ replicate (16 - ?n) 0 = coo_thingTypes c"
      "take ?n (coo_thingValues c) @ replicate (16 - ?n) (replicate 16 0) = coo_thingValues c"
    using ok by (simp_all add: coo_ok_def Let_def list_all_length)
  have pos1: "at_pos b p (?hd @ ?th @ ?ad @ sig_bytes (coo_sig c) @ [0, 0] @ rest)"
    using pos by (simp add: coo_enc_def cred_bytes_def coo_body_def)
  have pos2: "at_pos b (p + 30) (?th @ ?ad @ sig_bytes (coo_sig c) @ [0, 0] @ rest)"
    by (rule at_pos_skip [OF pos1]) simp
  define q where "q = p + 30 + of_nat (17 * ?n)"
  have lth: "length ?th = 17 * ?n" using lv n by (simp add: length_things_enc)
  have "unat (of_nat (17 * ?n) :: u32) = length ?th"
    unfolding lth using n by (intro unat_of_nat_u32) simp
  then have pos3: "at_pos b q (?ad @ sig_bytes (coo_sig c) @ [0, 0] @ rest)"
    unfolding q_def by (rule at_pos_skip [OF pos2])
  have th: "coo_read_things b [0..<?n] (p + 30) (replicate 16 0) (replicate 16 (replicate 16 0)) =
      Inr (coo_thingTypes c, coo_thingValues c, q)"
    using coo_read_things_at [OF lt lv n le0 pos2] z by (simp add: q_def)
  have pos4: "at_pos b q ((?ad) @ sig_bytes (coo_sig c) @ [0, 0] @ rest)" using pos3 by simp
  have sg: "read_sig b (q + 10) = Inr (coo_sig c, q + 10 + 99)"
    and tl: "read_tail b (q + 10 + 99) p = Inr (q + 10 + 101 - p)"
    using read_cred_end [OF pos4 s, of 10] by simp_all
  note rd = at_pos_reads [OF pos1]
  have ar: "addr_read b q = Inr (coo_issuedTo c)" "addr_read b (q + 5) = Inr (coo_signedBy c)"
    using at_pos_addrs [OF pos3] a by simp_all
  have len: "111 + q - p = of_nat (length (coo_enc False c))"
    using lth s by (simp add: coo_enc_def cred_bytes_def coo_body_def sig_bytes_def q_def)
  show ?thesis using th ar sg tl len
    by (simp add: coo_deserialize_def rd)
qed

lemma length_coo_enc: "coo_ok c \<Longrightarrow> length (coo_enc False c) \<le> 500"
  by (auto simp: coo_ok_def Let_def list_all_length coo_enc_def cred_bytes_def coo_body_def sig_bytes_def
      length_things_enc)

interpretation coo_wire: wire_object "coo_serialize False" coo_deserialize "coo_enc False" coo_ok
proof unfold_locales
  fix c assume "coo_ok c"
  then show "length (coo_enc False c) < 2 ^ 31" using length_coo_enc [of c] by simp
qed (simp_all add: appends_coo coo_des_enc)

text \<open>
  A deserialized count above 16 is kept although only 16 things are read: looking something up
  then leaves the arrays.
\<close>

lemma coo_owns_past_end:
  assumes "unat (coo_thingCount c) > 16" and "length (coo_thingTypes c) = 16"
    and "\<forall>i<16. coo_thingTypes c ! i \<noteq> t"
  shows "coo_owns_thing c t v l = Inl UndefinedBehaviour"
proof -
  have "[0..<unat (coo_thingCount c)] = [0..<16] @ 16 # [17..<unat (coo_thingCount c)]"
    using assms(1) upt_add_eq_append [of 0 16 "unat (coo_thingCount c) - 16"] upt_conv_Cons [OF assms(1)]
    by simp
  moreover have "\<forall>i\<in>set is. i < 16 \<Longrightarrow> coo_owns_loop c t v l (is @ 16 # js) = Inl UndefinedBehaviour"
    for "is" js using assms(3) by (induction "is") auto
  ultimately show ?thesis by (simp add: coo_owns_thing_def)
qed

section \<open>Wire contract: certificate of membership\<close>

definition com_ok :: "com \<Rightarrow> bool" where
  "com_ok c \<longleftrightarrow> length (com_quals c) \<le> 8 \<and> sorted_wrt (\<lambda>p q. q_id p \<le> q_id q) (com_quals c) \<and>
     addr_ok (com_signedBy c) \<and> length (com_sig c) = 96"

definition qual_enc :: "qualifier \<Rightarrow> u8 list" where
  "qual_enc q = be_bytes 8 (q_id q) @ be_bytes 8 (q_value q) @ be_bytes 8 (q_maxDelta q)"

definition com_enc :: "com \<Rightarrow> u8 list" where
  "com_enc c = 1 # be_bytes 2 (of_nat (length (com_quals c)) :: u16) @ concat (map qual_enc (com_quals c)) @
     addr_bytes (com_signedBy c) @ (if addr_bool (com_signedBy c) then com_sig c else [])"

lemma appends_com:
  assumes "com_ok c" shows "appends (com_serialize c) (com_enc c)"
proof -
  have q: "list_all2 appends (concat (map qual_writes qs))
      (concat (map (\<lambda>q. [be_bytes 8 (q_id q), be_bytes 8 (q_value q), be_bytes 8 (q_maxDelta q)]) qs))" for qs
    by (induction qs) (simp_all add: qual_writes_def appends_int)
  have c: "concat (concat (map (\<lambda>q. [be_bytes 8 (q_id q), be_bytes 8 (q_value q), be_bytes 8 (q_maxDelta q)]) qs))
      = concat (map qual_enc qs)" for qs
    by (induction qs) (simp_all add: qual_enc_def)
  have "list_all2 appends
     ([buf_append_int 1 (1 :: u8), buf_append_int 2 (of_nat (length (com_quals c)) :: u16)] @
      concat (map qual_writes (com_quals c)) @ [addr_appendTo (com_signedBy c)] @
      (if addr_bool (com_signedBy c) then [buf_append_bytes (com_sig c) 96] else []))
     ([[1], be_bytes 2 (of_nat (length (com_quals c)) :: u16)] @
      concat (map (\<lambda>q. [be_bytes 8 (q_id q), be_bytes 8 (q_value q), be_bytes 8 (q_maxDelta q)]) (com_quals c)) @
      [addr_bytes (com_signedBy c)] @ (if addr_bool (com_signedBy c) then [com_sig c] else []))"
    using assms q [of "com_quals c"]
    by (intro list_all2_appendI)
      (auto simp: com_ok_def appends_u8 appends_int appends_addr appends_bytes)
  from appends_write_all [OF this] show ?thesis
    by (simp add: com_serialize_def com_enc_def c split: if_splits)
qed

lemma length_qual_enc [simp]: "length (qual_enc q) = 24"
  by (simp add: qual_enc_def)

lemma length_quals_enc [simp]: "length (concat (map qual_enc qs)) = 24 * length qs"
  by (induction qs) simp_all

lemma com_read_quals_at:
  assumes "sorted_wrt (\<lambda>p q. q_id p \<le> q_id q) qs" "\<forall>q\<in>set qs. lastId \<le> q_id q"
    "k + length qs \<le> 8" "at_pos b p (concat (map qual_enc qs) @ rest)"
  shows "com_read_quals b (length qs) k lastId p = Inr (qs, p + of_nat (24 * length qs))"
  using assms
proof (induction qs arbitrary: k lastId p)
  case (Cons q qs)
  have pos: "at_pos b p (be_bytes 8 (q_id q) @ be_bytes 8 (q_value q) @ be_bytes 8 (q_maxDelta q) @
      concat (map qual_enc qs) @ rest)"
    using Cons.prems(4) by (simp add: qual_enc_def [of q])
  have "at_pos b p (qual_enc q @ concat (map qual_enc qs) @ rest)" using Cons.prems(4) by simp
  then have nxt: "at_pos b (p + 24) (concat (map qual_enc qs) @ rest)" by (rule at_pos_skip) simp
  have "com_read_quals b (length qs) (k + 1) (q_id q) (p + 24) = Inr (qs, p + 24 + of_nat (24 * length qs))"
    using Cons.prems nxt by (intro Cons.IH) auto
  then show ?case
    using Cons.prems(2,3) by (auto simp: at_pos_reads [OF pos])
qed simp

lemma com_des_enc:
  assumes ok: "com_ok c" and pos: "at_pos b p (com_enc c @ rest)"
  shows "com_deserialize old b p =
    Inr (if addr_bool (com_signedBy c) then c else c\<lparr>com_sig := old\<rparr>, of_nat (length (com_enc c)))"
proof -
  let ?n = "length (com_quals c)"
  let ?sgn = "(if addr_bool (com_signedBy c) then com_sig c else []) @ rest"
  have n: "?n \<le> 8" and so: "sorted_wrt (\<lambda>p q. q_id p \<le> q_id q) (com_quals c)"
    and a: "addr_ok (com_signedBy c)" and s: "length (com_sig c) = 96"
    using ok by (simp_all add: com_ok_def)
  have pos1: "at_pos b p ((1 # be_bytes 2 (of_nat ?n :: u16)) @
      concat (map qual_enc (com_quals c)) @ addr_bytes (com_signedBy c) @ ?sgn)"
    using pos by (simp add: com_enc_def)
  have pos2: "at_pos b (p + 3) (concat (map qual_enc (com_quals c)) @ addr_bytes (com_signedBy c) @ ?sgn)"
    by (rule at_pos_skip [OF pos1]) simp
  define q where "q = p + 3 + of_nat (24 * ?n)"
  have "unat (of_nat (24 * ?n) :: u32) = length (concat (map qual_enc (com_quals c)))"
    unfolding length_quals_enc using n by (intro unat_of_nat_u32) simp
  then have pos3: "at_pos b q (addr_bytes (com_signedBy c) @ ?sgn)"
    unfolding q_def by (rule at_pos_skip [OF pos2])
  have nq: "unat (of_nat ?n :: u16) = ?n" using n by (simp add: unat_of_nat)
  have qs: "com_read_quals b ?n 0 0 (p + 3) = Inr (com_quals c, q)"
    using com_read_quals_at [OF so _ _ pos2, of 0 0] n by (simp add: q_def)
  have len: "of_nat (length (com_enc c)) = (if addr_bool (com_signedBy c) then q + 101 - p else q + 5 - p)"
    using s by (simp add: com_enc_def q_def)
  have ar: "addr_read b q = Inr (com_signedBy c)"
    using at_pos_addrs [OF pos3] a by simp
  have sg: "addr_bool (com_signedBy c) \<Longrightarrow> buf_bytes b (q + 5) 96 = Inr (com_sig c)"
    using at_pos_reads [OF pos3] s by simp
  have st: "buf_get b p = Inr 1" "buf_at 2 b (p + 1) = Inr (of_nat ?n :: u16)"
    by (simp_all add: at_pos_reads [OF pos1])
  show ?thesis
    using len ar sg by (simp add: com_deserialize_def st nq qs)
qed

text \<open>A signed certificate survives the wire whatever object it is read into.\<close>

interpretation com_wire: wire_object com_serialize "com_deserialize old" com_enc
    "\<lambda>c. com_ok c \<and> addr_bool (com_signedBy c)" for old
proof unfold_locales
  fix c assume "com_ok c \<and> addr_bool (com_signedBy c)"
  then show "length (com_enc c) < 2 ^ 31" by (simp add: com_ok_def com_enc_def)
next
  fix c b p rest assume "com_ok c \<and> addr_bool (com_signedBy c)" "at_pos b p (com_enc c @ rest)"
  then show "com_deserialize old b p = Inr (c, of_nat (length (com_enc c)))"
    using com_des_enc [of c b p rest old] by simp
qed (simp_all add: appends_com)

section \<open>What a signature covers\<close>

lemma be_bytes_inject:
  fixes a b :: "'a::len word"
  assumes "LENGTH('a) = 8 * n" shows "be_bytes n a = be_bytes n b \<longleftrightarrow> a = b"
  by (metis assms be_val_be_bytes)

lemmas be_inject = be_bytes_inject [where n = 2 and 'a = 16, simplified]
  be_bytes_inject [where n = 4 and 'a = 32, simplified]
  be_bytes_inject [where n = 8 and 'a = 64, simplified]

lemma addr_bytes_inject: "addr_ok a \<Longrightarrow> addr_ok b \<Longrightarrow> addr_bytes a = addr_bytes b \<longleftrightarrow> a = b"
  using addr_setTo_bytes by metis

lemma things_enc_inject:
  assumes "\<forall>i\<in>set is. length (vs ! i) = 16" "\<forall>i\<in>set is. length (ws ! i) = 16"
  shows "things_enc ts vs is = things_enc us ws is \<longleftrightarrow> (\<forall>i\<in>set is. ts ! i = us ! i \<and> vs ! i = ws ! i)"
  using assms by (induction "is") (auto simp: things_enc_def)

lemma take_eq_of_nth: "length a = length b \<Longrightarrow> \<forall>i\<in>set [0..<n]. a ! i = b ! i \<Longrightarrow> take n a = take n b"
  by (rule nth_equalityI) auto

lemma coo_signed_inject:
  assumes "coo_ok a" "coo_ok b" "coo_enc True a = coo_enc True b"
  shows "a\<lparr>coo_sig := s\<rparr> = b\<lparr>coo_sig := s\<rparr>"
proof -
  have la: "unat (coo_thingCount a) \<le> 16" "length (coo_thingTypes a) = 16" "length (coo_thingValues a) = 16"
      "\<forall>i<16. length (coo_thingValues a ! i) = 16" "addr_ok (coo_issuedTo a)" "addr_ok (coo_signedBy a)"
      "coo_thingTypes a = take (unat (coo_thingCount a)) (coo_thingTypes a) @ replicate (16 - unat (coo_thingCount a)) 0"
      "coo_thingValues a = take (unat (coo_thingCount a)) (coo_thingValues a) @ replicate (16 - unat (coo_thingCount a)) (replicate 16 0)"
    if "coo_ok a" for a
    using that by (auto simp: coo_ok_def Let_def list_all_length)
  note A = la [OF assms(1)] and B = la [OF assms(2)]
  have e: "be_bytes 8 (coo_nwid a) = be_bytes 8 (coo_nwid b)" "be_bytes 8 (coo_ts a) = be_bytes 8 (coo_ts b)"
    "be_bytes 8 (coo_flags a) = be_bytes 8 (coo_flags b)" "be_bytes 4 (coo_id a) = be_bytes 4 (coo_id b)"
    "be_bytes 2 (coo_thingCount a) = be_bytes 2 (coo_thingCount b)"
    and r: "things_enc (coo_thingTypes a) (coo_thingValues a) [0..<unat (coo_thingCount a)] @
        addr_bytes (coo_issuedTo a) @ addr_bytes (coo_signedBy a) =
      things_enc (coo_thingTypes b) (coo_thingValues b) [0..<unat (coo_thingCount b)] @
        addr_bytes (coo_issuedTo b) @ addr_bytes (coo_signedBy b)"
    using assms(3) by (simp_all add: coo_enc_def cred_bytes_def coo_body_def)
  have n: "coo_thingCount a = coo_thingCount b" using e(5) be_inject by blast
  let ?is = "[0..<unat (coo_thingCount b)]"
  have "length (things_enc (coo_thingTypes a) (coo_thingValues a) ?is) =
      length (things_enc (coo_thingTypes b) (coo_thingValues b) ?is)"
    using A(4) B(1,4) by (simp add: length_things_enc)
  then have t: "things_enc (coo_thingTypes a) (coo_thingValues a) ?is =
        things_enc (coo_thingTypes b) (coo_thingValues b) ?is"
      "addr_bytes (coo_issuedTo a) = addr_bytes (coo_issuedTo b)"
      "addr_bytes (coo_signedBy a) = addr_bytes (coo_signedBy b)"
    using r n by simp_all
  have "\<forall>i\<in>set ?is. coo_thingTypes a ! i = coo_thingTypes b ! i \<and> coo_thingValues a ! i = coo_thingValues b ! i"
    using t(1) A(4) B(1,4) by (subst (asm) things_enc_inject) auto
  then have "take (unat (coo_thingCount b)) (coo_thingTypes a) = take (unat (coo_thingCount b)) (coo_thingTypes b)"
      "take (unat (coo_thingCount b)) (coo_thingValues a) = take (unat (coo_thingCount b)) (coo_thingValues b)"
    using A(2,3) B(2,3) by (intro take_eq_of_nth; simp)+
  then have "coo_thingTypes a = coo_thingTypes b" "coo_thingValues a = coo_thingValues b"
    using A(7,8) B(7,8) n by metis+
  then show ?thesis
    using e n t(2,3) A(5,6) B(5,6) by (simp add: be_inject addr_bytes_inject)
qed

lemma encodings_determine:
  assumes "tag_ok t" "tag_ok t'" "rev_ok r" "rev_ok r'" "coo_ok c" "coo_ok c'"
  shows "tag_enc True t = tag_enc True t' \<longleftrightarrow> t\<lparr>tag_sig := s\<rparr> = t'\<lparr>tag_sig := s\<rparr>"
    and "rev_enc True r = rev_enc True r' \<longleftrightarrow> r\<lparr>rev_sig := s\<rparr> = r'\<lparr>rev_sig := s\<rparr>"
    and "coo_enc True c = coo_enc True c' \<longleftrightarrow> c\<lparr>coo_sig := s\<rparr> = c'\<lparr>coo_sig := s\<rparr>"
proof -
  show "tag_enc True t = tag_enc True t' \<longleftrightarrow> t\<lparr>tag_sig := s\<rparr> = t'\<lparr>tag_sig := s\<rparr>"
    using assms(1,2)
    by (cases t; cases t') (auto simp: tag_ok_def tag_enc_def cred_bytes_def tag_body_def be_inject addr_bytes_inject)
  show "rev_enc True r = rev_enc True r' \<longleftrightarrow> r\<lparr>rev_sig := s\<rparr> = r'\<lparr>rev_sig := s\<rparr>"
    using assms(3,4)
    by (cases r; cases r') (auto simp: rev_ok_def rev_enc_def cred_bytes_def rev_body_def be_inject addr_bytes_inject)
  have "coo_enc True c = coo_enc True c'" if "c\<lparr>coo_sig := s\<rparr> = c'\<lparr>coo_sig := s\<rparr>"
    using that by (cases c; cases c') (simp add: coo_enc_def cred_bytes_def coo_body_def)
  then show "coo_enc True c = coo_enc True c' \<longleftrightarrow> c\<lparr>coo_sig := s\<rparr> = c'\<lparr>coo_sig := s\<rparr>"
    using coo_signed_inject [OF assms(5,6)] by blast
qed

lemma length_signed:
  "tag_ok t \<Longrightarrow> length (tag_enc True t) \<le> 200" "rev_ok r \<Longrightarrow> length (rev_enc True r) \<le> 216"
  "coo_ok c \<Longrightarrow> length (coo_enc True c) \<le> 480"
  by (auto simp: tag_ok_def tag_enc_def cred_bytes_def tag_body_def rev_ok_def rev_enc_def rev_body_def
      coo_ok_def coo_enc_def coo_body_def Let_def list_all_length length_things_enc)

text \<open>The bytes a serializer leaves in a new buffer with room for \<open>n\<close>; none when it throws.\<close>

definition written :: "(zbuf \<Rightarrow> zbuf res) \<Rightarrow> nat \<Rightarrow> u8 list option" where
  "written ser n = (case ser (buf_new (replicate n 0)) of Inr b \<Rightarrow> Some (bdata b) | Inl _ \<Rightarrow> None)"

lemma written_appends:
  assumes "appends ser enc" "length enc \<le> n" "n < 2 ^ 31"
  shows "written ser n = Some enc"
proof -
  have "small (buf_new (replicate n 0))" using assms(3) by simp
  then obtain b' where "ser (buf_new (replicate n 0)) = Inr b'" "bdata b' = enc"
    using appendsD(1) [OF assms(1) _ fits_new [OF assms(2)]] by (auto simp: grown_def)
  then show ?thesis by (simp add: written_def)
qed

text \<open>
  Claim C27: what is signed of a tag, a revocation and a certificate of ownership, the bytes that
  \<open>serialize\<close> writes for signing into a new buffer, is written without an exception in 200, 216 and 480
  bytes, which the temporary buffers of signing and verifying have, and determines every field but the signature itself: two objects give the same bytes
  exactly when they differ at most in the signature (any unsigned detail would let two different
  credentials share one).
\<close>

theorem signed_bytes_determine:
  assumes "tag_ok t" "tag_ok t'" "rev_ok r" "rev_ok r'" "coo_ok c" "coo_ok c'" and n: "200 \<le> i" "i < 2 ^ 31" "216 \<le> j" "j < 2 ^ 31" "480 \<le> k" "k < 2 ^ 31"
  shows "written (tag_serialize True t) i \<noteq> None \<and> written (rev_serialize True r) j \<noteq> None \<and>
    written (coo_serialize True c) k \<noteq> None \<and>
    (written (tag_serialize True t) i = written (tag_serialize True t') i \<longleftrightarrow> t\<lparr>tag_sig := s\<rparr> = t'\<lparr>tag_sig := s\<rparr>) \<and>
    (written (rev_serialize True r) j = written (rev_serialize True r') j \<longleftrightarrow> r\<lparr>rev_sig := s\<rparr> = r'\<lparr>rev_sig := s\<rparr>) \<and>
    (written (coo_serialize True c) k = written (coo_serialize True c') k \<longleftrightarrow> c\<lparr>coo_sig := s\<rparr> = c'\<lparr>coo_sig := s\<rparr>)"
proof -
  have T: "written (tag_serialize True x) i = Some (tag_enc True x)" if "tag_ok x" for x
    using that length_signed(1) [OF that] n by (intro written_appends appends_tag) simp_all
  have R: "written (rev_serialize True x) j = Some (rev_enc True x)" if "rev_ok x" for x
    using that length_signed(2) [OF that] n by (intro written_appends appends_rev) simp_all
  have C: "written (coo_serialize True x) k = Some (coo_enc True x)" if "coo_ok x" for x
    using that length_signed(3) [OF that] n by (intro written_appends appends_coo) simp_all
  show ?thesis
    unfolding T [OF assms(1)] T [OF assms(2)] R [OF assms(3)] R [OF assms(4)] C [OF assms(5)] C [OF assms(6)]
    using encodings_determine [OF assms(1-6)] by simp
qed

theorem signed_bytes_determine_witness:
  "written (tag_serialize True (tag_new 9 8 addr_nil 7 6)) 272 \<noteq> written (tag_serialize True (tag_new 9 8 addr_nil 7 5)) 272"
proof -
  have t: "tag_ok (tag_new 9 8 addr_nil 7 v)" for v by (simp add: tag_ok_def tag_new_def)
  have r: "rev_ok (rev_new 0 0 0 0 0 addr_nil CT_TAG)" by (simp add: rev_ok_def rev_new_def)
  have c: "coo_ok coo_empty" by (simp add: coo_ok_def coo_empty_def Let_def list_all_length)
  have n: "(200 :: nat) \<le> 272" "(272 :: nat) < 2 ^ 31" "(216 :: nat) \<le> 272" "(272 :: nat) < 2 ^ 31"
    "(480 :: nat) \<le> 16384" "(16384 :: nat) < 2 ^ 31" by simp_all
  show ?thesis
    using signed_bytes_determine [OF t [of 6] t [of 5] r r c c n, of "[]"] by (simp add: tag_new_def)
qed

section \<open>Verification\<close>

lemma verify_signed_iff:
  assumes "appends ser enc" "length enc \<le> n" "n < 2 ^ 31"
  shows "verify_signed e nwid by (ser (buf_new (replicate n 0))) sig = (0, []) \<longleftrightarrow>
    addr_bool by \<and> by = controllerFor nwid \<and> identity_bool (env_getIdentity e by) \<and>
    identity_verify (env_crypto e) (env_getIdentity e by) enc sig"
proof -
  have "small (buf_new (replicate n 0))" using assms(3) by simp
  then obtain b' where "ser (buf_new (replicate n 0)) = Inr b'" "bdata b' = enc"
    using appendsD(1) [OF assms(1) _ fits_new [OF assms(2)]] by (auto simp: grown_def)
  then show ?thesis by (auto simp: verify_signed_def Let_def)
qed

lemma verify_all:
  assumes "tag_ok t" "rev_ok r" "coo_ok c"
  shows "(tag_verify e t = (0, []) \<longleftrightarrow> addr_bool (tag_signedBy t) \<and>
      tag_signedBy t = controllerFor (tag_nwid t) \<and> identity_bool (env_getIdentity e (tag_signedBy t)) \<and>
      identity_verify (env_crypto e) (env_getIdentity e (tag_signedBy t)) (tag_enc True t) (tag_sig t))"
    and "(rev_verify e r = (0, []) \<longleftrightarrow> addr_bool (rev_signedBy r) \<and>
      rev_signedBy r = controllerFor (rev_nwid r) \<and> identity_bool (env_getIdentity e (rev_signedBy r)) \<and>
      identity_verify (env_crypto e) (env_getIdentity e (rev_signedBy r)) (rev_enc True r) (rev_sig r))"
    and "(coo_verify e c = (0, []) \<longleftrightarrow> addr_bool (coo_signedBy c) \<and>
      coo_signedBy c = controllerFor (coo_nwid c) \<and> identity_bool (env_getIdentity e (coo_signedBy c)) \<and>
      identity_verify (env_crypto e) (env_getIdentity e (coo_signedBy c)) (coo_enc True c) (coo_sig c))"
  unfolding tag_verify_def rev_verify_def coo_verify_def
  using length_signed(1) [OF assms(1)] length_signed(2) [OF assms(2)] length_signed(3) [OF assms(3)]
  by (intro verify_signed_iff appends_tag appends_rev appends_coo assms; simp)+

text \<open>
  Claim C36: a tag, revocation or certificate of ownership verifies exactly when it names as signer
  the controller of its network, that node's identity is known, and the signature is valid for
  the credential's signed bytes under that identity; the temporary buffers never overflow.
\<close>

theorem credential_verify_exact:
  assumes "tag_ok t" "rev_ok r" "coo_ok c"
  shows "(tag_verify e t = (0, []) \<longleftrightarrow> addr_bool (tag_signedBy t) \<and>
      tag_signedBy t = controllerFor (tag_nwid t) \<and> identity_bool (env_getIdentity e (tag_signedBy t)) \<and>
      identity_verify (env_crypto e) (env_getIdentity e (tag_signedBy t)) (tag_enc True t) (tag_sig t)) \<and>
    (rev_verify e r = (0, []) \<longleftrightarrow> addr_bool (rev_signedBy r) \<and>
      rev_signedBy r = controllerFor (rev_nwid r) \<and> identity_bool (env_getIdentity e (rev_signedBy r)) \<and>
      identity_verify (env_crypto e) (env_getIdentity e (rev_signedBy r)) (rev_enc True r) (rev_sig r)) \<and>
    (coo_verify e c = (0, []) \<longleftrightarrow> addr_bool (coo_signedBy c) \<and>
      coo_signedBy c = controllerFor (coo_nwid c) \<and> identity_bool (env_getIdentity e (coo_signedBy c)) \<and>
      identity_verify (env_crypto e) (env_getIdentity e (coo_signedBy c)) (coo_enc True c) (coo_sig c))"
  by (intro conjI verify_all [OF assms])

theorem credential_verify_exact_witness:
  "tag_verify \<lparr>env_crypto = \<lparr>ecc_sign = \<lambda>_ _ _. replicate 96 7, ecc_verify = \<lambda>_ _ sig. sig = replicate 96 7,
        sha512 = \<lambda>_. [], sha384 = \<lambda>_. [], s20_init = \<lambda>_ _. (), s20_crypt = \<lambda>s m. (m, s)\<rparr>,
      env_getIdentity = \<lambda>a. \<lparr>id_address = a, id_pub = replicate 64 0, id_priv = None\<rparr>\<rparr>
    ((tag_new 0x8056c2e21c000001 8 addr_nil 7 6)\<lparr>tag_signedBy := addr_of 0x8056c2e21c, tag_sig := replicate 96 7\<rparr>)
   = (0, [])"
proof -
  let ?e = "\<lparr>env_crypto = \<lparr>ecc_sign = \<lambda>_ _ _. replicate 96 7, ecc_verify = \<lambda>_ _ sig. sig = replicate 96 7,
        sha512 = \<lambda>_. [], sha384 = \<lambda>_. [], s20_init = \<lambda>_ _. (), s20_crypt = \<lambda>s m. (m, s)\<rparr>,
      env_getIdentity = \<lambda>a. \<lparr>id_address = a, id_pub = replicate 64 0, id_priv = None\<rparr>\<rparr>"
  let ?t = "(tag_new 0x8056c2e21c000001 8 addr_nil 7 6)\<lparr>tag_signedBy := addr_of 0x8056c2e21c, tag_sig := replicate 96 7\<rparr>"
  have t: "tag_ok ?t" by (simp add: tag_ok_def tag_new_def)
  have r: "rev_ok (rev_new 0 0 0 0 0 addr_nil CT_TAG)" by (simp add: rev_ok_def rev_new_def)
  have c: "coo_ok coo_empty" by (simp add: coo_ok_def coo_empty_def Let_def list_all_length)
  have k: "controllerFor 0x8056c2e21c000001 = addr_of 0x8056c2e21c" "addr_bool (addr_of 0x8056c2e21c)"
    by code_simp+
  show ?thesis
    using credential_verify_exact [OF t r c, of ?e] k
    by (simp add: identity_bool_def identity_verify_def tag_new_def)
qed

lemma signed_ok [simp]:
  "tag_ok t \<Longrightarrow> addr_ok a \<Longrightarrow> tag_ok (t\<lparr>tag_signedBy := a\<rparr>)"
  "tag_ok t \<Longrightarrow> length s = 96 \<Longrightarrow> tag_ok (t\<lparr>tag_sig := s\<rparr>)"
  "rev_ok r \<Longrightarrow> addr_ok a \<Longrightarrow> rev_ok (r\<lparr>rev_signedBy := a\<rparr>)"
  "rev_ok r \<Longrightarrow> length s = 96 \<Longrightarrow> rev_ok (r\<lparr>rev_sig := s\<rparr>)"
  "coo_ok c \<Longrightarrow> addr_ok a \<Longrightarrow> coo_ok (c\<lparr>coo_signedBy := a\<rparr>)"
  "coo_ok c \<Longrightarrow> length s = 96 \<Longrightarrow> coo_ok (c\<lparr>coo_sig := s\<rparr>)"
  by (simp_all add: tag_ok_def rev_ok_def coo_ok_def Let_def)

lemma enc_unsigned [simp]:
  "tag_enc True (t\<lparr>tag_sig := s\<rparr>) = tag_enc True t"
  "rev_enc True (r\<lparr>rev_sig := s\<rparr>) = rev_enc True r"
  "coo_enc True (c\<lparr>coo_sig := s\<rparr>) = coo_enc True c"
  by (simp_all add: tag_enc_def rev_enc_def coo_enc_def cred_bytes_def tag_body_def rev_body_def coo_body_def)

text \<open>
  Claim C37: what a controller signs verifies at every node that knows the controller's identity:
  signing a tag, a revocation or a certificate of ownership of the controller's network with its
  secret succeeds and the result passes verification, given a scheme whose signatures verify.
\<close>

theorem sign_then_verify:
  assumes cr: "crypto_ok (env_crypto e)"
    and key: "id_priv signer = Some priv" "key_pair (env_crypto e) priv (id_pub signer)"
    and ctl: "id_address signer = controllerFor nwid" "addr_bool (id_address signer)"
    and known: "env_getIdentity e (id_address signer) = public_part signer"
    and ok: "tag_ok t" "rev_ok r" "coo_ok c"
    and net: "tag_nwid t = nwid" "rev_nwid r = nwid" "coo_nwid c = nwid"
  shows "(\<exists>t'. tag_sign (env_crypto e) signer t = Inr (True, t') \<and> tag_verify e t' = (0, [])) \<and>
    (\<exists>r'. rev_sign (env_crypto e) signer r = Inr (True, r') \<and> rev_verify e r' = (0, [])) \<and>
    (\<exists>c'. coo_sign (env_crypto e) signer c = Inr (True, c') \<and> coo_verify e c' = (0, []))"
proof -
  let ?s = "\<lambda>m. ecc_sign (env_crypto e) priv (id_pub signer) m" and ?a = "id_address signer"
  have a: "addr_ok ?a" unfolding ctl(1) by (simp add: controllerFor_def)
  have ls: "length (?s m) = 96" for m using cr by (simp add: crypto_ok_def)
  have v: "identity_verify (env_crypto e) (public_part signer) m (?s m)" for m
    using key(2) by (simp add: key_pair_def identity_verify_def public_part_def)
  have sg: "identity_sign (env_crypto e) signer m = Inr (?s m)" for m
    using key(1) by (simp add: identity_sign_def)
  have b: "identity_bool (public_part signer)" using ctl(2) by (simp add: identity_bool_def public_part_def)
  define t1 r1 c1 where d: "t1 = t\<lparr>tag_signedBy := ?a\<rparr>" "r1 = r\<lparr>rev_signedBy := ?a\<rparr>" "c1 = c\<lparr>coo_signedBy := ?a\<rparr>"
  define t2 r2 c2 where d2: "t2 = t1\<lparr>tag_sig := ?s (tag_enc True t1)\<rparr>"
    "r2 = r1\<lparr>rev_sig := ?s (rev_enc True r1)\<rparr>" "c2 = c1\<lparr>coo_sig := ?s (coo_enc True c1)\<rparr>"
  have k1: "tag_ok t1" "rev_ok r1" "coo_ok c1" using ok a by (simp_all add: d)
  have k2: "tag_ok t2" "rev_ok r2" "coo_ok c2" using k1 ls by (simp_all add: d2)
  obtain bt where "tag_serialize True t1 (buf_new (replicate 200 0)) = Inr bt" "bdata bt = tag_enc True t1"
    using ser_new [OF appends_tag [OF k1(1)] length_signed(1) [OF k1(1)]] by auto
  then have st: "tag_sign (env_crypto e) signer t = Inr (True, t2)"
    using key(1) sg by (simp add: tag_sign_def identity_hasPrivate_def Let_def d d2)
  obtain br where "rev_serialize True r1 (buf_new (replicate 216 0)) = Inr br" "bdata br = rev_enc True r1"
    using ser_new [OF appends_rev [OF k1(2)] length_signed(2) [OF k1(2)]] by auto
  then have sr: "rev_sign (env_crypto e) signer r = Inr (True, r2)"
    using key(1) sg by (simp add: rev_sign_def identity_hasPrivate_def Let_def d d2)
  obtain bc where "coo_serialize True c1 (buf_new (replicate 480 0)) = Inr bc" "bdata bc = coo_enc True c1"
    using ser_new [OF appends_coo [OF k1(3)] length_signed(3) [OF k1(3)]] by auto
  then have sc: "coo_sign (env_crypto e) signer c = Inr (True, c2)"
    using key(1) sg by (simp add: coo_sign_def identity_hasPrivate_def Let_def d d2)
  have "tag_verify e t2 = (0, []) \<and> rev_verify e r2 = (0, []) \<and> coo_verify e c2 = (0, [])"
    unfolding verify_all [OF k2] using ctl known b v net by (simp add: d d2)
  then show ?thesis using st sr sc by blast
qed

theorem sign_then_verify_witness:
  "\<exists>t'. tag_sign \<lparr>ecc_sign = \<lambda>_ _ _. replicate 96 7, ecc_verify = \<lambda>_ _ sig. sig = replicate 96 7,
        sha512 = \<lambda>_. replicate 64 0, sha384 = \<lambda>_. replicate 48 0, s20_init = \<lambda>_ _. (), s20_crypt = \<lambda>s m. (m, s)\<rparr>
      \<lparr>id_address = addr_of 0x8056c2e21c, id_pub = replicate 64 3, id_priv = Some (replicate 64 5)\<rparr>
      (tag_new 0x8056c2e21c000001 8 addr_nil 7 6) = Inr (True, t')"
proof -
  let ?c = "\<lparr>ecc_sign = \<lambda>_ _ _. replicate 96 7, ecc_verify = \<lambda>_ _ sig. sig = replicate 96 7,
        sha512 = \<lambda>_. replicate 64 0, sha384 = \<lambda>_. replicate 48 0, s20_init = \<lambda>_ _. (), s20_crypt = \<lambda>s m. (m, s)\<rparr>"
  let ?s = "\<lparr>id_address = addr_of 0x8056c2e21c, id_pub = replicate 64 3, id_priv = Some (replicate 64 5)\<rparr>"
  let ?e = "\<lparr>env_crypto = ?c, env_getIdentity = \<lambda>_. public_part ?s\<rparr>"
  let ?n = "0x8056c2e21c000001"
  have cr: "crypto_ok (env_crypto ?e)" by (simp add: crypto_ok_def)
  have kp: "key_pair (env_crypto ?e) (replicate 64 5) (id_pub ?s)" by (simp add: key_pair_def)
  have ctl: "id_address ?s = controllerFor ?n" "addr_bool (id_address ?s)" by code_simp+
  have t: "tag_ok (tag_new ?n 8 addr_nil 7 6)" by (simp add: tag_ok_def tag_new_def)
  have r: "rev_ok (rev_new 0 ?n 0 0 0 addr_nil CT_TAG)" by (simp add: rev_ok_def rev_new_def)
  have c: "coo_ok (coo_new ?n 0 addr_nil 0)" by (simp add: coo_ok_def coo_new_def coo_empty_def Let_def list_all_length)
  have p: "id_priv ?s = Some (replicate 64 5)" and kn: "env_getIdentity ?e (id_address ?s) = public_part ?s"
    by (simp_all only: env.select_convs identity.select_convs)
  have n: "tag_nwid (tag_new ?n 8 addr_nil 7 6) = ?n" "rev_nwid (rev_new 0 ?n 0 0 0 addr_nil CT_TAG) = ?n"
    "coo_nwid (coo_new ?n 0 addr_nil 0) = ?n"
    by (simp_all add: tag_new_def rev_new_def coo_new_def)
  from conjunct1 [OF sign_then_verify [OF cr p kp ctl kn t r c n]] show ?thesis
    unfolding env.select_convs by blast
qed

section \<open>Agreement of memberships\<close>

lemma com_agree_loop_spec:
  "com_agree_loop other qs full =
    (if \<forall>q\<in>set qs. \<exists>v. other (q_id q) = Some v \<and> udist (q_value q) v \<le> q_maxDelta q
     then Some (full \<or> (\<exists>q\<in>set qs. 3 \<le> q_id q \<and> q_id q \<le> 6)) else None)"
proof (induction qs arbitrary: full)
  case (Cons q qs)
  show ?case
  proof (cases "other (q_id q)")
    case None
    then show ?thesis by simp
  next
    case (Some v)
    have lt: "q_maxDelta q < udist (q_value q) v \<longleftrightarrow> \<not> udist (q_value q) v \<le> q_maxDelta q" by auto
    show ?thesis
      using Some unfolding com_agree_loop.simps Cons.IH Let_def lt by auto
  qed
qed simp

lemma com_agreesWith_spec:
  "com_agreesWith c self other oid \<longleftrightarrow>
     com_quals self \<noteq> [] \<and> com_quals other \<noteq> [] \<and>
     (\<forall>q\<in>set (com_quals self). \<exists>v. com_map other (q_id q) = Some v \<and> udist (q_value q) v \<le> q_maxDelta q) \<and>
     ((\<exists>q\<in>set (com_quals self). 3 \<le> q_id q \<and> q_id q \<le> 6) \<longrightarrow>
      (\<forall>i<4. com_map other (of_nat (i + 3)) = Some (be_val (word_at (identity_publicKeyHash c oid) i))))"
  by (auto simp: com_agreesWith_def com_agree_loop_spec list_all_iff Let_def)

lemma word_at_all:
  assumes "length h = 48" "length k = 48"
  shows "(\<forall>i<4. (be_val (word_at h i) :: u64) = be_val (word_at k i)) \<longleftrightarrow> take 32 h = take 32 k"
proof
  assume a: "\<forall>i<4. (be_val (word_at h i) :: u64) = be_val (word_at k i)"
  have w: "word_at h i = word_at k i" if "i < 4" for i
  proof -
    have "length (word_at h i) = 8" "length (word_at k i) = 8" using that assms by (auto simp: word_at_def)
    then have "word_at h i = be_bytes 8 (be_val (word_at h i) :: u64)"
        "word_at k i = be_bytes 8 (be_val (word_at k i) :: u64)"
      using be_bytes_be_val [of "word_at h i", where 'a = 64] be_bytes_be_val [of "word_at k i", where 'a = 64]
      by simp_all
    then show ?thesis using a that by metis
  qed
  show "take 32 h = take 32 k"
  proof (rule nth_equalityI)
    fix i assume "i < length (take 32 h)"
    then have i: "i < 32" "i div 8 < 4" by auto
    have "word_at x (i div 8) ! (i mod 8) = x ! i" if "length x = 48" for x
      using i that by (simp add: word_at_def)
    then show "take 32 h ! i = take 32 k ! i" using w [OF i(2)] assms i(1) by simp metis
  qed (use assms in simp)
next
  assume t: "take 32 h = take 32 k"
  have "word_at x i = word_at (take 32 x) i" if "i < 4" for x :: "u8 list" and i
    using that by (simp add: word_at_def drop_take min_def)
  then show "\<forall>i<4. (be_val (word_at h i) :: u64) = be_val (word_at k i)" using t by metis
qed

lemma com_new_quals:
  "com_quals (com_new c ts d nwid i) =
    [\<lparr>q_id = 0, q_value = ts, q_maxDelta = d\<rparr>, \<lparr>q_id = 1, q_value = nwid, q_maxDelta = 0\<rparr>,
     \<lparr>q_id = 2, q_value = addr_int (id_address i), q_maxDelta = - 1\<rparr>,
     \<lparr>q_id = 3, q_value = be_val (word_at (identity_publicKeyHash c i) 0), q_maxDelta = - 1\<rparr>,
     \<lparr>q_id = 4, q_value = be_val (word_at (identity_publicKeyHash c i) 1), q_maxDelta = - 1\<rparr>,
     \<lparr>q_id = 5, q_value = be_val (word_at (identity_publicKeyHash c i) 2), q_maxDelta = - 1\<rparr>,
     \<lparr>q_id = 6, q_value = be_val (word_at (identity_publicKeyHash c i) 3), q_maxDelta = - 1\<rparr>]"
proof -
  have "[0..<4] = [0, 1, 2, 3 :: nat]" by (simp add: upt_rec)
  then show ?thesis by (simp add: com_new_def Let_def)
qed

lemma com_new_fields:
  "com_map (com_new c ts d nwid i) 0 = Some ts"
  "com_map (com_new c ts d nwid i) 1 = Some nwid"
  "com_map (com_new c ts d nwid i) 2 = Some (addr_int (id_address i))"
  "com_map (com_new c ts d nwid i) 3 = Some (be_val (word_at (identity_publicKeyHash c i) 0))"
  "com_map (com_new c ts d nwid i) 4 = Some (be_val (word_at (identity_publicKeyHash c i) 1))"
  "com_map (com_new c ts d nwid i) 5 = Some (be_val (word_at (identity_publicKeyHash c i) 2))"
  "com_map (com_new c ts d nwid i) 6 = Some (be_val (word_at (identity_publicKeyHash c i) 3))"
  by (simp_all add: com_map_def com_new_quals)

lemma all_less_4: "(\<forall>k<4. P k) \<longleftrightarrow> P 0 \<and> P 1 \<and> P 2 \<and> P (3 :: nat)"
  by (auto simp: numeral_eq_Suc All_less_Suc)

text \<open>
  A fresh certificate agrees with another fresh certificate, presented by a node with
  identity \<open>oid\<close>, exactly when they are for the same network, their timestamps differ by no more
  than the own delta in either direction, and the other was issued to a node with that very
  identity (by the first 256 bits of its hash).
\<close>

lemma com_new_agrees:
  assumes "crypto_ok c"
  shows "com_agreesWith c (com_new c ts d nwid i) (com_new c ts' d' nwid' i') oid \<longleftrightarrow>
    nwid = nwid' \<and> udist ts ts' \<le> d \<and>
    take 32 (identity_publicKeyHash c i') = take 32 (identity_publicKeyHash c oid)"
proof -
  let ?o = "com_new c ts' d' nwid' i'"
  have len: "length (identity_publicKeyHash c j) = 48" for j
    using assms by (simp add: crypto_ok_def identity_publicKeyHash_def)
  have max: "x \<le> - 1" for x :: u64 by (simp add: word_order.extremum)
  have z: "udist a b \<le> 0 \<longleftrightarrow> a = b" for a b by (auto simp: udist_def)
  have "(\<forall>q\<in>set (com_quals (com_new c ts d nwid i)). \<exists>v. com_map ?o (q_id q) = Some v \<and> udist (q_value q) v \<le> q_maxDelta q)
      \<longleftrightarrow> udist ts ts' \<le> d \<and> udist nwid nwid' \<le> 0"
    by (simp add: com_new_quals com_new_fields max)
  then have "(\<forall>q\<in>set (com_quals (com_new c ts d nwid i)). \<exists>v. com_map ?o (q_id q) = Some v \<and> udist (q_value q) v \<le> q_maxDelta q)
      \<longleftrightarrow> udist ts ts' \<le> d \<and> nwid = nwid'" unfolding z .
  moreover have "\<exists>q\<in>set (com_quals (com_new c ts d nwid i)). 3 \<le> q_id q \<and> q_id q \<le> 6"
    by (simp add: com_new_quals)
  moreover have "(\<forall>k<4. com_map ?o (of_nat (k + 3)) = Some (be_val (word_at (identity_publicKeyHash c oid) k)))
      \<longleftrightarrow> take 32 (identity_publicKeyHash c i') = take 32 (identity_publicKeyHash c oid)"
    unfolding word_at_all [OF len len, of i' oid, symmetric] all_less_4
    by (simp add: com_new_fields)
  moreover have "com_quals (com_new c ts d nwid i) \<noteq> []" "com_quals ?o \<noteq> []"
    by (simp_all add: com_new_def Let_def)
  ultimately show ?thesis unfolding com_agreesWith_spec by blast
qed

lemma com_new_agrees_witness:
  "com_agreesWith \<lparr>ecc_sign = \<lambda>_ _ _. replicate 96 7, ecc_verify = \<lambda>_ _ _. True,
        sha512 = \<lambda>_. replicate 64 0, sha384 = \<lambda>m. replicate 48 (hd m), s20_init = \<lambda>_ _. (), s20_crypt = \<lambda>s m. (m, s)\<rparr>
      (com_new \<lparr>ecc_sign = \<lambda>_ _ _. replicate 96 7, ecc_verify = \<lambda>_ _ _. True,
        sha512 = \<lambda>_. replicate 64 0, sha384 = \<lambda>m. replicate 48 (hd m), s20_init = \<lambda>_ _. (), s20_crypt = \<lambda>s m. (m, s)\<rparr>
        1000 100 9 identity_nil)
      (com_new \<lparr>ecc_sign = \<lambda>_ _ _. replicate 96 7, ecc_verify = \<lambda>_ _ _. True,
        sha512 = \<lambda>_. replicate 64 0, sha384 = \<lambda>m. replicate 48 (hd m), s20_init = \<lambda>_ _. (), s20_crypt = \<lambda>s m. (m, s)\<rparr>
        1070 50 9 (identity_nil\<lparr>id_address := addr_of 77\<rparr>)) (identity_nil\<lparr>id_address := addr_of 77\<rparr>)"
proof -
  let ?c = "\<lparr>ecc_sign = \<lambda>_ _ _. replicate 96 7, ecc_verify = \<lambda>_ _ _. True,
        sha512 = \<lambda>_. replicate 64 0, sha384 = \<lambda>m. replicate 48 (hd m), s20_init = \<lambda>_ _. (), s20_crypt = \<lambda>s m. (m, s)\<rparr>"
  have cr: "crypto_ok ?c" by (simp add: crypto_ok_def)
  have d: "udist 1000 1070 \<le> 100" by code_simp
  show ?thesis unfolding com_new_agrees [OF cr] using d by simp
qed

end

