(* ===== verification/ZT_Rules.thy ===== *)
theory ZT_Rules
  imports ZT_Address
begin

text \<open>
  The flow rules of \<^verbatim>\<open>include/ZeroTierOne.h\<close> (\<^verbatim>\<open>ZT_VirtualNetworkRule\<close>) and their wire
  form in \<^verbatim>\<open>node/Capability.hpp\<close>. The union of a rule is a datatype with one constructor
  per member; \<open>VNone\<close> is the union cleared to zero, whose every member reads as zero, and
  reading a member other than the one stored is \<open>UndefinedBehaviour\<close>.
\<close>

section \<open>Rules\<close>

datatype rval =
    VNone
  | VFwd u64 u32 u16
  | VZt u64
  | VVlanId u16
  | VVlanPcp u8
  | VVlanDei u8
  | VMac "u8 list"
  | VIp4 "u8 list" u8
  | VIp6 "u8 list" u8
  | VTos u8 u8 u8
  | VProto u8
  | VEther u16
  | VIcmp u8 u8 u8
  | VPort u16 u16
  | VChar u64
  | VFrame u16 u16
  | VRand u32
  | VTag u32 u32
  | VInt u64 u32 u16 u8
  | VQos u8

record rule =
  r_t :: u8
  r_v :: rval

definition rtype :: "rule \<Rightarrow> u8" where
  "rtype r = r_t r AND 0x3f"

definition as_fwd :: "rval \<Rightarrow> (u64 \<times> u32 \<times> u16) res" where
  "as_fwd v = (case v of VFwd a b c \<Rightarrow> Inr (a, b, c) | VNone \<Rightarrow> Inr (0, 0, 0) | _ \<Rightarrow> Inl UndefinedBehaviour)"

definition as_zt :: "rval \<Rightarrow> (u64) res" where
  "as_zt v = (case v of VZt a \<Rightarrow> Inr a | VNone \<Rightarrow> Inr 0 | _ \<Rightarrow> Inl UndefinedBehaviour)"

definition as_vlanid :: "rval \<Rightarrow> (u16) res" where
  "as_vlanid v = (case v of VVlanId a \<Rightarrow> Inr a | VNone \<Rightarrow> Inr 0 | _ \<Rightarrow> Inl UndefinedBehaviour)"

definition as_vlanpcp :: "rval \<Rightarrow> (u8) res" where
  "as_vlanpcp v = (case v of VVlanPcp a \<Rightarrow> Inr a | VNone \<Rightarrow> Inr 0 | _ \<Rightarrow> Inl UndefinedBehaviour)"

definition as_vlandei :: "rval \<Rightarrow> (u8) res" where
  "as_vlandei v = (case v of VVlanDei a \<Rightarrow> Inr a | VNone \<Rightarrow> Inr 0 | _ \<Rightarrow> Inl UndefinedBehaviour)"

definition as_mac :: "rval \<Rightarrow> (u8 list) res" where
  "as_mac v = (case v of VMac a \<Rightarrow> Inr a | VNone \<Rightarrow> Inr (replicate 6 0) | _ \<Rightarrow> Inl UndefinedBehaviour)"

definition as_ip4 :: "rval \<Rightarrow> (u8 list \<times> u8) res" where
  "as_ip4 v = (case v of VIp4 a b \<Rightarrow> Inr (a, b) | VNone \<Rightarrow> Inr (replicate 4 0, 0) | _ \<Rightarrow> Inl UndefinedBehaviour)"

definition as_ip6 :: "rval \<Rightarrow> (u8 list \<times> u8) res" where
  "as_ip6 v = (case v of VIp6 a b \<Rightarrow> Inr (a, b) | VNone \<Rightarrow> Inr (replicate 16 0, 0) | _ \<Rightarrow> Inl UndefinedBehaviour)"

definition as_tos :: "rval \<Rightarrow> (u8 \<times> u8 \<times> u8) res" where
  "as_tos v = (case v of VTos a b c \<Rightarrow> Inr (a, b, c) | VNone \<Rightarrow> Inr (0, 0, 0) | _ \<Rightarrow> Inl UndefinedBehaviour)"

definition as_proto :: "rval \<Rightarrow> (u8) res" where
  "as_proto v = (case v of VProto a \<Rightarrow> Inr a | VNone \<Rightarrow> Inr 0 | _ \<Rightarrow> Inl UndefinedBehaviour)"

definition as_ether :: "rval \<Rightarrow> (u16) res" where
  "as_ether v = (case v of VEther a \<Rightarrow> Inr a | VNone \<Rightarrow> Inr 0 | _ \<Rightarrow> Inl UndefinedBehaviour)"

definition as_icmp :: "rval \<Rightarrow> (u8 \<times> u8 \<times> u8) res" where
  "as_icmp v = (case v of VIcmp a b c \<Rightarrow> Inr (a, b, c) | VNone \<Rightarrow> Inr (0, 0, 0) | _ \<Rightarrow> Inl UndefinedBehaviour)"

definition as_port :: "rval \<Rightarrow> (u16 \<times> u16) res" where
  "as_port v = (case v of VPort a b \<Rightarrow> Inr (a, b) | VNone \<Rightarrow> Inr (0, 0) | _ \<Rightarrow> Inl UndefinedBehaviour)"

definition as_char :: "rval \<Rightarrow> (u64) res" where
  "as_char v = (case v of VChar a \<Rightarrow> Inr a | VNone \<Rightarrow> Inr 0 | _ \<Rightarrow> Inl UndefinedBehaviour)"

definition as_frame :: "rval \<Rightarrow> (u16 \<times> u16) res" where
  "as_frame v = (case v of VFrame a b \<Rightarrow> Inr (a, b) | VNone \<Rightarrow> Inr (0, 0) | _ \<Rightarrow> Inl UndefinedBehaviour)"

definition as_rand :: "rval \<Rightarrow> (u32) res" where
  "as_rand v = (case v of VRand a \<Rightarrow> Inr a | VNone \<Rightarrow> Inr 0 | _ \<Rightarrow> Inl UndefinedBehaviour)"

definition as_tag :: "rval \<Rightarrow> (u32 \<times> u32) res" where
  "as_tag v = (case v of VTag a b \<Rightarrow> Inr (a, b) | VNone \<Rightarrow> Inr (0, 0) | _ \<Rightarrow> Inl UndefinedBehaviour)"

definition as_int :: "rval \<Rightarrow> (u64 \<times> u32 \<times> u16 \<times> u8) res" where
  "as_int v = (case v of VInt a b c d \<Rightarrow> Inr (a, b, c, d) | VNone \<Rightarrow> Inr (0, 0, 0, 0) | _ \<Rightarrow> Inl UndefinedBehaviour)"

definition as_qos :: "rval \<Rightarrow> (u8) res" where
  "as_qos v = (case v of VQos a \<Rightarrow> Inr a | VNone \<Rightarrow> Inr 0 | _ \<Rightarrow> Inl UndefinedBehaviour)"

lemmas as_defs = as_fwd_def as_zt_def as_vlanid_def as_vlanpcp_def as_vlandei_def as_mac_def as_ip4_def as_ip6_def as_tos_def as_proto_def as_ether_def as_icmp_def as_port_def as_char_def as_frame_def as_rand_def as_tag_def as_int_def as_qos_def

section \<open>Wire form\<close>

text \<open>Which member a type uses: the case groups of the two switches.\<close>

datatype rclass =
    CNone | CFwd | CZt | CVlanId | CVlanPcp | CVlanDei | CMac | CIp4 | CIp6 | CTos | CProto
  | CEther | CIcmp | CPort | CChar | CFrame | CRand | CTag | CInt

definition rule_class :: "u8 \<Rightarrow> rclass" where
  "rule_class t =
     (let rt = t AND 0x3f in
      if rt = 2 \<or> rt = 3 \<or> rt = 4 then CFwd
      else if rt = 24 \<or> rt = 25 then CZt
      else if rt = 26 then CVlanId
      else if rt = 27 then CVlanPcp
      else if rt = 28 then CVlanDei
      else if rt = 29 \<or> rt = 30 then CMac
      else if rt = 31 \<or> rt = 32 then CIp4
      else if rt = 33 \<or> rt = 34 then CIp6
      else if rt = 35 then CTos
      else if rt = 36 then CProto
      else if rt = 37 then CEther
      else if rt = 38 then CIcmp
      else if rt = 39 \<or> rt = 40 then CPort
      else if rt = 41 then CChar
      else if rt = 42 then CFrame
      else if rt = 43 then CRand
      else if rt = 44 \<or> rt = 45 \<or> rt = 46 \<or> rt = 47 \<or> rt = 48 \<or> rt = 49 \<or> rt = 50 then CTag
      else if rt = 51 then CInt
      else CNone)"

definition rule_ser_field :: "rule \<Rightarrow> zbuf \<Rightarrow> zbuf res" where
  "rule_ser_field r b =
     (case rule_class (r_t r) of
        CNone \<Rightarrow> write_all [buf_append_int 1 (0 :: u8)] b
      | CFwd \<Rightarrow> bind_res (as_fwd (r_v r)) (\<lambda>(a, f, l).
          write_all [buf_append_int 1 (14 :: u8), buf_append_int 8 a, buf_append_int 4 f, buf_append_int 2 l] b)
      | CZt \<Rightarrow> bind_res (as_zt (r_v r)) (\<lambda>a.
          write_all [buf_append_int 1 (5 :: u8), addr_appendTo (addr_of a)] b)
      | CVlanId \<Rightarrow> bind_res (as_vlanid (r_v r)) (\<lambda>v.
          write_all [buf_append_int 1 (2 :: u8), buf_append_int 2 v] b)
      | CVlanPcp \<Rightarrow> bind_res (as_vlanpcp (r_v r)) (\<lambda>v.
          write_all [buf_append_int 1 (1 :: u8), buf_append_int 1 v] b)
      | CVlanDei \<Rightarrow> bind_res (as_vlandei (r_v r)) (\<lambda>v.
          write_all [buf_append_int 1 (1 :: u8), buf_append_int 1 v] b)
      | CMac \<Rightarrow> bind_res (as_mac (r_v r)) (\<lambda>m.
          write_all [buf_append_int 1 (6 :: u8), buf_append_bytes m 6] b)
      | CIp4 \<Rightarrow> bind_res (as_ip4 (r_v r)) (\<lambda>(ip, mask).
          write_all [buf_append_int 1 (5 :: u8), buf_append_bytes ip 4, buf_append_int 1 mask] b)
      | CIp6 \<Rightarrow> bind_res (as_ip6 (r_v r)) (\<lambda>(ip, mask).
          write_all [buf_append_int 1 (17 :: u8), buf_append_bytes ip 16, buf_append_int 1 mask] b)
      | CTos \<Rightarrow> bind_res (as_tos (r_v r)) (\<lambda>(m, v0, v1).
          write_all [buf_append_int 1 (3 :: u8), buf_append_int 1 m, buf_append_int 1 v0, buf_append_int 1 v1] b)
      | CProto \<Rightarrow> bind_res (as_proto (r_v r)) (\<lambda>v.
          write_all [buf_append_int 1 (1 :: u8), buf_append_int 1 v] b)
      | CEther \<Rightarrow> bind_res (as_ether (r_v r)) (\<lambda>v.
          write_all [buf_append_int 1 (2 :: u8), buf_append_int 2 v] b)
      | CIcmp \<Rightarrow> bind_res (as_icmp (r_v r)) (\<lambda>(ty, code, fl).
          write_all [buf_append_int 1 (3 :: u8), buf_append_int 1 ty, buf_append_int 1 code, buf_append_int 1 fl] b)
      | CPort \<Rightarrow> bind_res (as_port (r_v r)) (\<lambda>(p0, p1).
          write_all [buf_append_int 1 (4 :: u8), buf_append_int 2 p0, buf_append_int 2 p1] b)
      | CChar \<Rightarrow> bind_res (as_char (r_v r)) (\<lambda>c.
          write_all [buf_append_int 1 (8 :: u8), buf_append_int 8 c] b)
      | CFrame \<Rightarrow> bind_res (as_frame (r_v r)) (\<lambda>(s0, s1).
          write_all [buf_append_int 1 (4 :: u8), buf_append_int 2 s0, buf_append_int 2 s1] b)
      | CRand \<Rightarrow> bind_res (as_rand (r_v r)) (\<lambda>v.
          write_all [buf_append_int 1 (4 :: u8), buf_append_int 4 v] b)
      | CTag \<Rightarrow> bind_res (as_tag (r_v r)) (\<lambda>(i, v).
          write_all [buf_append_int 1 (8 :: u8), buf_append_int 4 i, buf_append_int 4 v] b)
      | CInt \<Rightarrow> bind_res (as_int (r_v r)) (\<lambda>(s, e, idx, fmt).
          write_all [buf_append_int 1 (19 :: u8), buf_append_int 8 s, buf_append_int 8 (s + ucast e),
            buf_append_int 2 idx, buf_append_int 1 fmt] b))"

definition rule_ser :: "rule \<Rightarrow> zbuf \<Rightarrow> zbuf res" where
  "rule_ser r b = bind_res (buf_append_int 1 (r_t r) b) (rule_ser_field r)"

definition serializeRules :: "rule list \<Rightarrow> zbuf \<Rightarrow> zbuf res" where
  "serializeRules rules = ser_list rule_ser rules"

definition rule_des_field :: "u8 \<Rightarrow> zbuf \<Rightarrow> u32 \<Rightarrow> rval res" where
  "rule_des_field t b p =
     (case rule_class t of
        CNone \<Rightarrow> Inr VNone
      | CFwd \<Rightarrow> bind_res (buf_at 8 b p) (\<lambda>a. bind_res (buf_at 4 b (p + 8)) (\<lambda>f.
          bind_res (buf_at 2 b (p + 12)) (\<lambda>l. Inr (VFwd a f l))))
      | CZt \<Rightarrow> bind_res (addr_read b p) (\<lambda>a. Inr (VZt (addr_int a)))
      | CVlanId \<Rightarrow> bind_res (buf_at 2 b p) (\<lambda>v. Inr (VVlanId v))
      | CVlanPcp \<Rightarrow> bind_res (buf_get b p) (\<lambda>v. Inr (VVlanPcp v))
      | CVlanDei \<Rightarrow> bind_res (buf_get b p) (\<lambda>v. Inr (VVlanDei v))
      | CMac \<Rightarrow> bind_res (buf_bytes b p 6) (\<lambda>m. Inr (VMac m))
      | CIp4 \<Rightarrow> bind_res (buf_bytes b p 4) (\<lambda>ip. bind_res (buf_get b (p + 4)) (\<lambda>m. Inr (VIp4 ip m)))
      | CIp6 \<Rightarrow> bind_res (buf_bytes b p 16) (\<lambda>ip. bind_res (buf_get b (p + 16)) (\<lambda>m. Inr (VIp6 ip m)))
      | CTos \<Rightarrow> bind_res (buf_get b p) (\<lambda>m. bind_res (buf_get b (p + 1)) (\<lambda>v0.
          bind_res (buf_get b (p + 2)) (\<lambda>v1. Inr (VTos m v0 v1))))
      | CProto \<Rightarrow> bind_res (buf_get b p) (\<lambda>v. Inr (VProto v))
      | CEther \<Rightarrow> bind_res (buf_at 2 b p) (\<lambda>v. Inr (VEther v))
      | CIcmp \<Rightarrow> bind_res (buf_get b p) (\<lambda>ty. bind_res (buf_get b (p + 1)) (\<lambda>code.
          bind_res (buf_get b (p + 2)) (\<lambda>fl. Inr (VIcmp ty code fl))))
      | CPort \<Rightarrow> bind_res (buf_at 2 b p) (\<lambda>p0. bind_res (buf_at 2 b (p + 2)) (\<lambda>p1. Inr (VPort p0 p1)))
      | CChar \<Rightarrow> bind_res (buf_at 8 b p) (\<lambda>c. Inr (VChar c))
      | CFrame \<Rightarrow> bind_res (buf_at 2 b p) (\<lambda>s0. bind_res (buf_at 2 b (p + 2)) (\<lambda>s1. Inr (VFrame s0 s1)))
      | CRand \<Rightarrow> bind_res (buf_at 4 b p) (\<lambda>v. Inr (VRand v))
      | CTag \<Rightarrow> bind_res (buf_at 4 b p) (\<lambda>i. bind_res (buf_at 4 b (p + 4)) (\<lambda>v. Inr (VTag i v)))
      | CInt \<Rightarrow> bind_res (buf_at 8 b p) (\<lambda>s. bind_res (buf_at 8 b (p + 8)) (\<lambda>e.
          bind_res (buf_at 2 b (p + 16)) (\<lambda>idx. bind_res (buf_get b (p + 18)) (\<lambda>fmt.
            Inr (VInt s (ucast (e - s :: u64)) idx fmt))))))"

text \<open>
  One turn of the loop: the type, the length of its field, the members, and the position after
  the field as the length says, whether or not the members read are that long.
\<close>

definition rule_des :: "zbuf \<Rightarrow> u32 \<Rightarrow> (rule \<times> u32) res" where
  "rule_des b p =
     bind_res (buf_get b p) (\<lambda>t. bind_res (buf_get b (p + 1)) (\<lambda>fieldLen.
     bind_res (rule_des_field t b (p + 2)) (\<lambda>v. Inr (\<lparr>r_t = t, r_v = v\<rparr>, 2 + ucast fieldLen))))"

fun deserializeRules :: "nat \<Rightarrow> zbuf \<Rightarrow> u32 \<Rightarrow> (rule list \<times> u32) res" where
  "deserializeRules 0 b p = Inr ([], p)"
| "deserializeRules (Suc n) b p =
     (if p < blen b then
        bind_res (rule_des b p) (\<lambda>(r, l).
        bind_res (deserializeRules n b (p + l)) (\<lambda>(rs, q). Inr (r # rs, q)))
      else Inr ([], p))"

section \<open>The bytes of a rule\<close>

text \<open>A rule whose member is the one its type uses, within the range the wire form keeps.\<close>

definition rule_ok :: "rule \<Rightarrow> bool" where
  "rule_ok r \<longleftrightarrow>
     (case (r_v r) of
        VNone \<Rightarrow> rule_class (r_t r) = CNone
      | VFwd a f l \<Rightarrow> rule_class (r_t r) = CFwd
      | VZt a \<Rightarrow> rule_class (r_t r) = CZt \<and> take_bit 40 a = a
      | VVlanId v \<Rightarrow> rule_class (r_t r) = CVlanId
      | VVlanPcp v \<Rightarrow> rule_class (r_t r) = CVlanPcp
      | VVlanDei v \<Rightarrow> rule_class (r_t r) = CVlanDei
      | VMac m \<Rightarrow> rule_class (r_t r) = CMac \<and> length m = 6
      | VIp4 ip m \<Rightarrow> rule_class (r_t r) = CIp4 \<and> length ip = 4
      | VIp6 ip m \<Rightarrow> rule_class (r_t r) = CIp6 \<and> length ip = 16
      | VTos m v0 v1 \<Rightarrow> rule_class (r_t r) = CTos
      | VProto v \<Rightarrow> rule_class (r_t r) = CProto
      | VEther v \<Rightarrow> rule_class (r_t r) = CEther
      | VIcmp ty c f \<Rightarrow> rule_class (r_t r) = CIcmp
      | VPort p0 p1 \<Rightarrow> rule_class (r_t r) = CPort
      | VChar c \<Rightarrow> rule_class (r_t r) = CChar
      | VFrame s0 s1 \<Rightarrow> rule_class (r_t r) = CFrame
      | VRand v \<Rightarrow> rule_class (r_t r) = CRand
      | VTag i v \<Rightarrow> rule_class (r_t r) = CTag
      | VInt s e i f \<Rightarrow> rule_class (r_t r) = CInt
      | VQos q \<Rightarrow> False)"

definition rule_parts :: "rule \<Rightarrow> u8 list list" where
  "rule_parts r =
     (case r_v r of
        VFwd a f l \<Rightarrow> [[14], be_bytes 8 a, be_bytes 4 f, be_bytes 2 l]
      | VZt a \<Rightarrow> [[5], addr_bytes (addr_of a)]
      | VVlanId v \<Rightarrow> [[2], be_bytes 2 v]
      | VVlanPcp v \<Rightarrow> [[1], [v]]
      | VVlanDei v \<Rightarrow> [[1], [v]]
      | VMac m \<Rightarrow> [[6], m]
      | VIp4 ip m \<Rightarrow> [[5], ip, [m]]
      | VIp6 ip m \<Rightarrow> [[17], ip, [m]]
      | VTos m v0 v1 \<Rightarrow> [[3], [m], [v0], [v1]]
      | VProto v \<Rightarrow> [[1], [v]]
      | VEther v \<Rightarrow> [[2], be_bytes 2 v]
      | VIcmp ty c f \<Rightarrow> [[3], [ty], [c], [f]]
      | VPort p0 p1 \<Rightarrow> [[4], be_bytes 2 p0, be_bytes 2 p1]
      | VChar c \<Rightarrow> [[8], be_bytes 8 c]
      | VFrame s0 s1 \<Rightarrow> [[4], be_bytes 2 s0, be_bytes 2 s1]
      | VRand v \<Rightarrow> [[4], be_bytes 4 v]
      | VTag i v \<Rightarrow> [[8], be_bytes 4 i, be_bytes 4 v]
      | VInt s e i f \<Rightarrow> [[19], be_bytes 8 s, be_bytes 8 (s + ucast e :: u64), be_bytes 2 i, [f]]
      | _ \<Rightarrow> [[0]])"

definition rule_enc :: "rule \<Rightarrow> u8 list" where
  "rule_enc r = r_t r # concat (rule_parts r)"

lemma appends_byte: "appends (buf_append_int 1 (v :: u8)) [v]"
  using appends_int [of 1 v] by (simp add: be_bytes_eval)

lemma appends_rule_field:
  assumes "rule_ok r" shows "appends (rule_ser_field r) (concat (rule_parts r))"
proof -
  have w: "list_all2 appends fs bss \<Longrightarrow> f = write_all fs \<Longrightarrow> appends f (concat bss)" for f fs bss
    using appends_write_all by simp
  show ?thesis
    using assms
    by (cases "r_v r")
      (auto simp: rule_ok_def rule_parts_def rule_ser_field_def as_defs fun_eq_iff
         appends_int appends_byte [unfolded One_nat_def] appends_addr appends_bytes
         simp del: write_all.simps concat.simps intro!: w)
qed

lemma appends_rule: "rule_ok r \<Longrightarrow> appends (rule_ser r) (rule_enc r)"
  using appends_seq [OF appends_byte appends_rule_field, of r "r_t r"]
  by (simp add: rule_ser_def [abs_def] rule_enc_def)

lemma ucast_u32_u64_u32 [simp]: "(ucast (ucast (x :: u32) :: u64) :: u32) = x"
  by (rule bit_word_eqI) (auto simp: bit_ucast_iff dest: bit_imp_le_length)

lemma rule_des_enc:
  assumes ok: "rule_ok r" and pos: "at_pos b p (rule_enc r @ rest)"
  shows "rule_des b p = Inr (r, of_nat (length (rule_enc r)))"
proof -
  obtain t v where r: "r = \<lparr>r_t = t, r_v = v\<rparr>" by (cases r)
  note rd = at_pos_reads [OF pos] at_pos_addrs [OF pos]
  have zt: "take_bit 40 a = a \<Longrightarrow> addr_ok (addr_of a)" "take_bit 40 a = a \<Longrightarrow> addr_int (addr_of a) = a" for a
    by (simp_all add: addr_ok_def addr_of_def mask40)
  show ?thesis
    using ok unfolding r
    by (cases v)
      (simp_all add: rule_ok_def rule_des_def rule_des_field_def rd r rule_enc_def rule_parts_def zt nth_append)
qed

lemma length_rule_enc: "rule_ok r \<Longrightarrow> length (rule_enc r) \<le> 21"
  by (cases "r_v r") (auto simp: rule_ok_def rule_enc_def rule_parts_def)

lemma length_rules_enc:
  "\<forall>r\<in>set rs. rule_ok r \<Longrightarrow> length (concat (map rule_enc rs)) \<le> 21 * length rs"
  using length_rule_enc by (induction rs) (simp, fastforce)

interpretation rule_wire: wire_object rule_ser rule_des rule_enc rule_ok
proof unfold_locales
  fix r assume "rule_ok r"
  then show "length (rule_enc r) < 2 ^ 31" using length_rule_enc [of r] by simp
qed (simp_all add: appends_rule rule_des_enc)

lemma rules_des_enc:
  assumes "\<forall>r \<in> set rs. rule_ok r" and "at_pos b p (concat (map rule_enc rs) @ rest)"
    and "n = length rs \<or> (length rs \<le> n \<and> rest = [])"
  shows "deserializeRules n b p = Inr (rs, p + of_nat (length (concat (map rule_enc rs))))"
  using assms
proof (induction rs arbitrary: n p)
  case Nil
  have "rest = [] \<Longrightarrow> \<not> p < blen b"
    using at_posD(2) [OF Nil.prems(2)] by (simp add: word_less_nat_alt bsize_def)
  then show ?case using Nil.prems(3) by (cases n) auto
next
  case (Cons r rs)
  obtain m where n: "n = Suc m" using Cons.prems(3) by (cases n) auto
  have ok: "rule_ok r" using Cons.prems(1) by simp
  have pos: "at_pos b p (rule_enc r @ concat (map rule_enc rs) @ rest)" using Cons.prems(2) by simp
  have "0 < length (rule_enc r)" by (simp add: rule_enc_def)
  then have lt: "p < blen b"
    using at_posD(2) [OF pos] by (simp only: word_less_nat_alt bsize_def length_append)
  have "unat (of_nat (length (rule_enc r)) :: u32) = length (rule_enc r)"
    using length_rule_enc [OF ok] by (simp add: unat_of_nat)
  then have "at_pos b (p + of_nat (length (rule_enc r))) (concat (map rule_enc rs) @ rest)"
    by (rule at_pos_skip [OF pos])
  then have "deserializeRules m b (p + of_nat (length (rule_enc r))) =
      Inr (rs, p + of_nat (length (rule_enc r)) + of_nat (length (concat (map rule_enc rs))))"
    using Cons.IH [of "p + of_nat (length (rule_enc r))" m] Cons.prems(1,3) n by auto
  then show ?case using rule_des_enc [OF ok pos] lt n by (simp add: algebra_simps)
qed

text \<open>
  A list of flow rules written by \<open>serializeRules\<close> is read back by
  \<open>deserializeRules\<close> as the same list, whether the reader is given the count or, as for a
  network configuration, only a larger maximum and the end of the data.
\<close>

lemma rules_wire_roundtrip:
  assumes "\<forall>r \<in> set rs. rule_ok r" and "small b" and "serializeRules rs b = Inr b'"
    and "length rs \<le> n"
  shows "deserializeRules n b' (blen b) = Inr (rs, blen b')"
proof -
  have g: "grown b (concat (map rule_enc rs)) b'"
    using appendsD(3) [OF rule_wire.list_appends [OF assms(1)] assms(2)] assms(3)
    by (simp add: serializeRules_def)
  have "at_pos b' (blen b) (concat (map rule_enc rs) @ [])" using at_pos_grown [OF assms(2) g] by simp
  from rules_des_enc [OF assms(1) this] show ?thesis
    using assms(4) grown_blen [OF assms(2) g] by simp
qed

lemma rules_wire_roundtrip_witness:
  "deserializeRules 64 (projr (serializeRules
      [\<lparr>r_t = 37, r_v = VEther 0x800\<rparr>, \<lparr>r_t = 0xb6, r_v = VNone\<rparr>, \<lparr>r_t = 1, r_v = VNone\<rparr>]
      (buf_new (replicate 40 0)))) 0
   = Inr ([\<lparr>r_t = 37, r_v = VEther 0x800\<rparr>, \<lparr>r_t = 0xb6, r_v = VNone\<rparr>, \<lparr>r_t = 1, r_v = VNone\<rparr>], 8)"
proof -
  let ?rs = "[\<lparr>r_t = 37, r_v = VEther 0x800\<rparr>, \<lparr>r_t = 0xb6, r_v = VNone\<rparr>, \<lparr>r_t = 1, r_v = VNone\<rparr>]"
  let ?b = "buf_new (replicate 40 0)"
  have ok: "\<forall>r \<in> set ?rs. rule_ok r" by (simp add: rule_ok_def rule_class_def Let_def)
  have s: "serializeRules ?rs ?b = Inr (projr (serializeRules ?rs ?b))" by code_simp
  have l: "blen (projr (serializeRules ?rs ?b)) = 8" by code_simp
  show ?thesis using rules_wire_roundtrip [OF ok _ s, of 64] l by (simp add: buf_new_def small_def buf_ok_def)
qed

text \<open>
  The member of a PRIORITY rule has no wire form: whatever the bucket, the reader sees zero.
\<close>

lemma priority_bucket_not_sent:
  "rule_ser \<lparr>r_t = 6, r_v = VQos q\<rparr> = rule_ser \<lparr>r_t = 6, r_v = VNone\<rparr>"
  "rule_ok \<lparr>r_t = 6, r_v = VNone\<rparr>" "as_qos VNone = Inr 0"
proof -
  have "rule_ser_field \<lparr>r_t = 6, r_v = VQos q\<rparr> = rule_ser_field \<lparr>r_t = 6, r_v = VNone\<rparr>"
    by (rule ext) (simp add: rule_ser_field_def rule_class_def)
  then show "rule_ser \<lparr>r_t = 6, r_v = VQos q\<rparr> = rule_ser \<lparr>r_t = 6, r_v = VNone\<rparr>"
    by (simp add: rule_ser_def [abs_def])
qed (simp_all add: rule_class_def rule_ok_def as_qos_def)

end
