(* ===== verification/ZT_Capability.thy ===== *)
theory ZT_Capability
  imports ZT_Credentials ZT_Rules
begin

text \<open>
  \<^verbatim>\<open>node/Capability.hpp\<close> and \<^verbatim>\<open>node/Capability.cpp\<close>: a signed group of flow rules
  with a chain of custody of at most seven entries, each from the holder before it. The chain
  is the code's fixed array; an entry with a null \<open>to\<close> address ends it.
\<close>

section \<open>State\<close>

record custody =
  cu_to :: address
  cu_from :: address
  cu_sig :: "u8 list"

definition custody_nil :: custody where
  "custody_nil = \<lparr>cu_to = addr_nil, cu_from = addr_nil, cu_sig = replicate 96 0\<rparr>"

record capability =
  cap_nwid :: u64
  cap_ts :: u64
  cap_id :: u32
  cap_mccl :: u32
  cap_rules :: "rule list"
  cap_custody :: "custody list"

definition cap_empty :: capability where
  "cap_empty = \<lparr>cap_nwid = 0, cap_ts = 0, cap_id = 0, cap_mccl = 0, cap_rules = [],
     cap_custody = replicate 7 custody_nil\<rparr>"

definition cap_new :: "u32 \<Rightarrow> u64 \<Rightarrow> u64 \<Rightarrow> u32 \<Rightarrow> rule list \<Rightarrow> capability" where
  "cap_new i nwid ts mccl rules =
     \<lparr>cap_nwid = nwid, cap_ts = ts, cap_id = i,
      cap_mccl = (if mccl > 0 then (if mccl < 7 then mccl else 7) else 1),
      cap_rules = take 64 rules, cap_custody = replicate 7 custody_nil\<rparr>"

text \<open>\<open>issuedTo\<close> is the last holder before the chain's end.\<close>

fun custody_last :: "address \<Rightarrow> custody list \<Rightarrow> address" where
  "custody_last i2 [] = i2"
| "custody_last i2 (c # cs) = (if \<not> addr_bool (cu_to c) then i2 else custody_last (cu_to c) cs)"

definition cap_issuedTo :: "capability \<Rightarrow> address" where
  "cap_issuedTo c = custody_last addr_nil (cap_custody c)"

section \<open>Wire form\<close>

text \<open>The entries the writer sends: while below both limits and not null.\<close>

definition cap_chain :: "capability \<Rightarrow> custody list" where
  "cap_chain c = takeWhile (\<lambda>cu. addr_bool (cu_to cu)) (take (min (unat (cap_mccl c)) 7) (cap_custody c))"

definition custody_writes :: "custody \<Rightarrow> (zbuf \<Rightarrow> zbuf res) list" where
  "custody_writes cu = [addr_appendTo (cu_to cu), addr_appendTo (cu_from cu)] @ sig_writes (cu_sig cu)"

definition cap_serialize :: "bool \<Rightarrow> capability \<Rightarrow> zbuf \<Rightarrow> zbuf res" where
  "cap_serialize forSign c =
     cred_writes forSign
       [buf_append_int 8 (cap_nwid c), buf_append_int 8 (cap_ts c), buf_append_int 4 (cap_id c),
        buf_append_int 2 (of_nat (length (cap_rules c)) :: u16), serializeRules (cap_rules c),
        buf_append_int 1 (ucast (cap_mccl c) :: u8)]
       (concat (map custody_writes (cap_chain c)) @ [buf_append_run 0 5])"

text \<open>
  The reader's loop over the chain: \<open>i\<close> entries are stored; one more with \<open>i\<close> at a limit is an
  error, a null \<open>to\<close> ends it. The chain starts with the array as the constructor left it.
\<close>

fun cap_read_chain :: "nat \<Rightarrow> u32 \<Rightarrow> zbuf \<Rightarrow> nat \<Rightarrow> u32 \<Rightarrow> custody list \<Rightarrow> (custody list \<times> u32) res" where
  "cap_read_chain 0 mccl b i p cs = Inl SerializedOverflow"
| "cap_read_chain (Suc fuel) mccl b i p cs =
     bind_res (addr_read b p) (\<lambda>to.
       if \<not> addr_bool to then Inr (cs, p + 5)
       else if of_nat i \<ge> mccl \<or> i \<ge> 7 then Inl SerializedOverflow
       else
         bind_res (addr_read b (p + 5)) (\<lambda>from1.
         bind_res (read_sig b (p + 10)) (\<lambda>(sig, q).
           cap_read_chain fuel mccl b (i + 1) q
             (cs[i := \<lparr>cu_to = to, cu_from = from1, cu_sig = sig\<rparr>]))))"

definition cap_deserialize :: "zbuf \<Rightarrow> u32 \<Rightarrow> (capability \<times> u32) res" where
  "cap_deserialize b p =
     bind_res (buf_at 8 b p) (\<lambda>nwid. bind_res (buf_at 8 b (p + 8)) (\<lambda>ts.
     bind_res (buf_at 4 b (p + 16)) (\<lambda>i. bind_res (buf_at 2 b (p + 20)) (\<lambda>rc :: u16.
     if rc > 64 then Inl SerializedOverflow
     else
       bind_res (deserializeRules (unat rc) b (p + 22)) (\<lambda>(rules, q).
       bind_res (buf_get b q) (\<lambda>mccl8.
       let mccl = ucast mccl8 :: u32 in
       if mccl < 1 \<or> mccl > 7 then Inl SerializedOverflow
       else
         bind_res (cap_read_chain 8 mccl b 0 (q + 1) (replicate 7 custody_nil)) (\<lambda>(cs, q2).
         bind_res (read_tail b q2 p) (\<lambda>l.
           Inr (\<lparr>cap_nwid = nwid, cap_ts = ts, cap_id = i, cap_mccl = mccl, cap_rules = rules,
                 cap_custody = cs\<rparr>, l))))))))) "

section \<open>Signing and verification\<close>

text \<open>
  \<open>sign\<close> fills the first free entry below both limits. The signed form is taken before the entry
  is filled; it has no chain in it. Any exception makes it return false.
\<close>

fun cap_sign_at :: "'s crypto \<Rightarrow> identity \<Rightarrow> address \<Rightarrow> capability \<Rightarrow> nat list \<Rightarrow> bool \<times> capability" where
  "cap_sign_at cr from1 to c [] = (False, c)"
| "cap_sign_at cr from1 to c (i # is) =
     (if \<not> addr_bool (cu_to (cap_custody c ! i)) then
        (case cap_serialize True c (buf_new (replicate (2864 * 2) 0)) of
           Inl _ \<Rightarrow> (False, c)
         | Inr tmp \<Rightarrow>
             (case identity_sign cr from1 (bdata tmp) of
                Inl _ \<Rightarrow> (False, c\<lparr>cap_custody := (cap_custody c)[i :=
                    (cap_custody c ! i)\<lparr>cu_to := to, cu_from := id_address from1\<rparr>]\<rparr>)
              | Inr sig \<Rightarrow> (True, c\<lparr>cap_custody := (cap_custody c)[i :=
                    \<lparr>cu_to = to, cu_from = id_address from1, cu_sig = sig\<rparr>]\<rparr>)))
      else cap_sign_at cr from1 to c is)"

definition cap_sign :: "'s crypto \<Rightarrow> identity \<Rightarrow> address \<Rightarrow> capability \<Rightarrow> bool \<times> capability" where
  "cap_sign cr from1 to c = cap_sign_at cr from1 to c [0..<min (unat (cap_mccl c)) 7]"

fun cap_verify_loop :: "'s env \<Rightarrow> capability \<Rightarrow> u8 list \<Rightarrow> nat list \<Rightarrow> int \<times> address list" where
  "cap_verify_loop e c msg [] = (0, [])"
| "cap_verify_loop e c msg (k # ks) =
     (let cu = cap_custody c ! k; i = env_getIdentity e (cu_from cu) in
      if k = 0 \<and> (\<not> addr_bool (cu_to cu) \<or> \<not> addr_bool (cu_from cu) \<or> cu_from cu \<noteq> controllerFor (cap_nwid c))
      then (- 1, [])
      else if k \<noteq> 0 \<and> \<not> addr_bool (cu_to cu) then (0, [])
      else if k \<noteq> 0 \<and> (\<not> addr_bool (cu_from cu) \<or> cu_from cu \<noteq> cu_to (cap_custody c ! (k - 1))) then (- 1, [])
      else if identity_bool i then
        (if \<not> identity_verify (env_crypto e) i msg (cu_sig cu) then (- 1, [])
         else cap_verify_loop e c msg ks)
      else (1, [cu_from cu]))"

definition cap_verify :: "'s env \<Rightarrow> capability \<Rightarrow> int \<times> address list" where
  "cap_verify e c =
     (if cap_mccl c < 1 \<or> cap_mccl c > 7 then (- 1, [])
      else case cap_serialize True c (buf_new (replicate (2864 * 2) 0)) of
        Inl _ \<Rightarrow> (- 1, [])
      | Inr tmp \<Rightarrow> cap_verify_loop e c (bdata tmp) [0..<unat (cap_mccl c)])"

definition cap_less :: "capability \<Rightarrow> capability \<Rightarrow> bool" where
  "cap_less a b \<longleftrightarrow> cap_id a < cap_id b"

section \<open>Wire contract\<close>

definition custody_ok :: "custody \<Rightarrow> bool" where
  "custody_ok cu \<longleftrightarrow> addr_bool (cu_to cu) \<and> addr_ok (cu_to cu) \<and> addr_ok (cu_from cu) \<and> length (cu_sig cu) = 96"

text \<open>The array is the chain followed by null entries.\<close>

definition cap_ok :: "capability \<Rightarrow> bool" where
  "cap_ok c \<longleftrightarrow> 1 \<le> cap_mccl c \<and> cap_mccl c \<le> 7 \<and> length (cap_rules c) \<le> 64 \<and>
     list_all rule_ok (cap_rules c) \<and> list_all custody_ok (cap_chain c) \<and>
     cap_custody c = cap_chain c @ replicate (7 - length (cap_chain c)) custody_nil"

definition custody_enc :: "custody \<Rightarrow> u8 list" where
  "custody_enc cu = addr_bytes (cu_to cu) @ addr_bytes (cu_from cu) @ sig_bytes (cu_sig cu)"

definition cap_body :: "capability \<Rightarrow> u8 list" where
  "cap_body c = be_bytes 8 (cap_nwid c) @ be_bytes 8 (cap_ts c) @ be_bytes 4 (cap_id c) @
     be_bytes 2 (of_nat (length (cap_rules c)) :: u16) @ concat (map rule_enc (cap_rules c)) @
     [ucast (cap_mccl c)]"

definition cap_enc :: "bool \<Rightarrow> capability \<Rightarrow> u8 list" where
  "cap_enc forSign c =
     cred_bytes forSign (cap_body c) (concat (map custody_enc (cap_chain c)) @ [0, 0, 0, 0, 0])"

lemma cap_ok_chain:
  assumes "cap_ok c"
  shows "length (cap_chain c) \<le> unat (cap_mccl c)" "unat (cap_mccl c) \<le> 7" "1 \<le> unat (cap_mccl c)"
    "\<forall>cu\<in>set (cap_chain c). custody_ok cu"
proof -
  show m: "unat (cap_mccl c) \<le> 7" "1 \<le> unat (cap_mccl c)"
    using assms by (simp_all add: cap_ok_def word_le_nat_alt)
  have "length (cap_chain c) \<le> length (take (min (unat (cap_mccl c)) 7) (cap_custody c))"
    unfolding cap_chain_def by (rule length_takeWhile_le)
  then show "length (cap_chain c) \<le> unat (cap_mccl c)" by simp
  show "\<forall>cu\<in>set (cap_chain c). custody_ok cu" using assms by (simp add: cap_ok_def list_all_iff)
qed

lemma appends_custody:
  "\<forall>cu\<in>set cs. custody_ok cu \<Longrightarrow>
    \<exists>bss. list_all2 appends (concat (map custody_writes cs)) bss \<and> concat bss = concat (map custody_enc cs)"
proof (induction cs)
  case (Cons cu cs)
  then obtain bss where b: "list_all2 appends (concat (map custody_writes cs)) bss"
      "concat bss = concat (map custody_enc cs)" by auto
  have "list_all2 appends (custody_writes cu)
      ([addr_bytes (cu_to cu), addr_bytes (cu_from cu)] @ [[1], [0, 96], cu_sig cu])"
    unfolding custody_writes_def using Cons.prems
    by (intro list_all2_appendI list_all2_sig) (simp_all add: appends_addr custody_ok_def)
  from list_all2_appendI [OF this b(1)] show ?case
    using b(2) by (intro exI conjI) (assumption | simp add: custody_enc_def [of cu] sig_bytes_def)+
qed simp

lemma appends_cap:
  assumes "cap_ok c" shows "appends (cap_serialize forSign c) (cap_enc forSign c)"
proof -
  obtain bss where b: "list_all2 appends (concat (map custody_writes (cap_chain c))) bss"
      "concat bss = concat (map custody_enc (cap_chain c))"
    using appends_custody [OF cap_ok_chain(4) [OF assms]] by blast
  have r: "replicate (unat (5 :: u32)) (0 :: u8) = [0, 0, 0, 0, 0]" by code_simp
  have s: "list_all2 appends (concat (map custody_writes (cap_chain c)) @ [buf_append_run 0 5])
      (bss @ [[0, 0, 0, 0, 0]])"
    using b(1) appends_run [of 5 0] unfolding r by (intro list_all2_appendI) simp_all
  have ru: "appends (serializeRules (cap_rules c)) (concat (map rule_enc (cap_rules c)))"
    using rule_wire.list_appends [of "cap_rules c"] assms
    by (simp add: serializeRules_def cap_ok_def list_all_iff)
  have "list_all2 appends
      [buf_append_int 8 (cap_nwid c), buf_append_int 8 (cap_ts c), buf_append_int 4 (cap_id c),
        buf_append_int 2 (of_nat (length (cap_rules c)) :: u16), serializeRules (cap_rules c),
        buf_append_int 1 (ucast (cap_mccl c) :: u8)]
      [be_bytes 8 (cap_nwid c), be_bytes 8 (cap_ts c), be_bytes 4 (cap_id c),
        be_bytes 2 (of_nat (length (cap_rules c)) :: u16), concat (map rule_enc (cap_rules c)),
        [ucast (cap_mccl c)]]"
    using ru by (simp add: appends_int appends_u8)
  from appends_cred [OF this s, of forSign] show ?thesis
    by (simp add: cap_serialize_def cap_enc_def cap_body_def b(2))
qed

lemma cap_read_chain_at:
  assumes "\<forall>cu\<in>set ch. custody_ok cu" and "length ch < fuel" and "length pre + length ch \<le> unat mccl"
    and "unat mccl \<le> 7" and "at_pos b p (concat (map custody_enc ch) @ [0, 0, 0, 0, 0] @ rest)"
  shows "cap_read_chain fuel mccl b (length pre) p (pre @ replicate (7 - length pre) custody_nil) =
    Inr (pre @ ch @ replicate (7 - length pre - length ch) custody_nil, p + of_nat (109 * length ch) + 5)"
  using assms(1-3,5)
proof (induction ch arbitrary: fuel pre p)
  case Nil
  then obtain f where f: "fuel = Suc f" by (cases fuel) auto
  have "at_pos b p ([0, 0, 0, 0, 0] @ rest)" using Nil.prems(4) by simp
  then have "addr_read b p = Inr (addr_setTo [0, 0, 0, 0, 0] 5)"
    using at_pos_addrs(3) by simp
  moreover have "\<not> addr_bool (addr_setTo [0, 0, 0, 0, 0] 5)" by code_simp
  ultimately show ?case by (simp add: f)
next
  case (Cons cu ch)
  then obtain f where f: "fuel = Suc f" by (cases fuel) auto
  have cu: "custody_ok cu" using Cons.prems(1) by simp
  have len: "length (cu_sig cu) = 96" "length (custody_enc cu) = 109"
    using cu by (simp_all add: custody_ok_def custody_enc_def sig_bytes_def)
  have pos: "at_pos b p ((addr_bytes (cu_to cu) @ addr_bytes (cu_from cu)) @ sig_bytes (cu_sig cu) @
      concat (map custody_enc ch) @ [0, 0, 0, 0, 0] @ rest)"
    using Cons.prems(4) by (simp add: custody_enc_def [of cu])
  have "at_pos b (p + 10) (sig_bytes (cu_sig cu) @ concat (map custody_enc ch) @ [0, 0, 0, 0, 0] @ rest)"
    by (rule at_pos_skip [OF pos]) simp
  then have sg: "read_sig b (p + 10) = Inr (cu_sig cu, p + 109)"
    using read_sig_at len by fastforce
  have "at_pos b p (custody_enc cu @ concat (map custody_enc ch) @ [0, 0, 0, 0, 0] @ rest)"
    using Cons.prems(4) by simp
  then have nxt: "at_pos b (p + 109) (concat (map custody_enc ch) @ [0, 0, 0, 0, 0] @ rest)"
    by (rule at_pos_skip) (simp add: len)
  have ad: "addr_read b p = Inr (cu_to cu)" "addr_read b (p + 5) = Inr (cu_from cu)"
    using at_pos_addrs [OF pos] cu by (simp_all add: custody_ok_def)
  have i: "length pre < 7" "\<not> mccl \<le> of_nat (length pre)"
    using Cons.prems(3) assms(4) by (simp_all add: word_le_nat_alt unat_of_nat_u32)
  have sj: "\<lparr>cu_to = cu_to cu, cu_from = cu_from cu, cu_sig = cu_sig cu\<rparr> = cu" by (cases cu) simp
  have upd: "(pre @ replicate (7 - length pre) custody_nil)[length pre := cu] =
      (pre @ [cu]) @ replicate (7 - length (pre @ [cu])) custody_nil"
    using i(1) by (simp add: list_update_append Suc_diff_Suc [symmetric])
  have "cap_read_chain fuel mccl b (length pre) p (pre @ replicate (7 - length pre) custody_nil) =
      cap_read_chain f mccl b (length (pre @ [cu])) (p + 109)
        ((pre @ [cu]) @ replicate (7 - length (pre @ [cu])) custody_nil)"
    using i cu upd by (simp add: f ad sg sj custody_ok_def)
  also have "\<dots> = Inr ((pre @ [cu]) @ ch @ replicate (7 - length (pre @ [cu]) - length ch) custody_nil,
      p + 109 + of_nat (109 * length ch) + 5)"
    using Cons.prems nxt f by (intro Cons.IH) auto
  finally show ?case by (simp add: algebra_simps)
qed

lemma length_chain_enc:
  "\<forall>cu\<in>set ch. custody_ok cu \<Longrightarrow> length (concat (map custody_enc ch)) = 109 * length ch"
  by (induction ch) (auto simp: custody_enc_def custody_ok_def sig_bytes_def)

lemma cap_des_enc:
  assumes ok: "cap_ok c" and pos: "at_pos b p (cap_enc False c @ rest)"
  shows "cap_deserialize b p = Inr (c, of_nat (length (cap_enc False c)))"
proof -
  let ?rs = "cap_rules c" and ?ch = "cap_chain c"
  let ?hd = "be_bytes 8 (cap_nwid c) @ be_bytes 8 (cap_ts c) @ be_bytes 4 (cap_id c) @
     be_bytes 2 (of_nat (length ?rs) :: u16)"
  let ?re = "concat (map rule_enc ?rs)" and ?ce = "concat (map custody_enc ?ch)"
  note K = cap_ok_chain [OF ok]
  have rs: "length ?rs \<le> 64" "\<forall>r\<in>set ?rs. rule_ok r" using ok by (simp_all add: cap_ok_def list_all_iff)
  have cu: "?ch @ replicate (7 - length ?ch) custody_nil = cap_custody c" using ok by (simp add: cap_ok_def)
  have lr: "length ?re \<le> 1344" using length_rules_enc [OF rs(2)] rs(1) by simp
  have lc: "length ?ce = 109 * length ?ch" by (rule length_chain_enc [OF K(4)])
  have pos1: "at_pos b p (?hd @ ?re @ [ucast (cap_mccl c)] @ ?ce @ [0, 0, 0, 0, 0] @ [0, 0] @ rest)"
    using pos by (simp add: cap_enc_def cred_bytes_def cap_body_def)
  have pos2: "at_pos b (p + 22) (?re @ [ucast (cap_mccl c)] @ ?ce @ [0, 0, 0, 0, 0] @ [0, 0] @ rest)"
    by (rule at_pos_skip [OF pos1]) simp
  define q where "q = p + 22 + of_nat (length ?re)"
  have "unat (of_nat (length ?re) :: u32) = length ?re" using lr by (intro unat_of_nat_u32) simp
  then have pos3: "at_pos b q ([ucast (cap_mccl c)] @ ?ce @ [0, 0, 0, 0, 0] @ [0, 0] @ rest)"
    unfolding q_def by (rule at_pos_skip [OF pos2])
  have pos4: "at_pos b (q + 1) (?ce @ [0, 0, 0, 0, 0] @ [0, 0] @ rest)"
    by (rule at_pos_skip [OF pos3]) simp
  define q2 where "q2 = q + 1 + of_nat (109 * length ?ch) + 5"
  have u109: "unat (of_nat (109 * length ?ch) :: u32) = length ?ce"
    using K(1,2) lc by (subst unat_of_nat_u32) simp_all
  have pos4': "at_pos b (q + 1 + of_nat (109 * length ?ch)) ([0, 0, 0, 0, 0] @ [0, 0] @ rest)"
    using u109 by (rule at_pos_skip [OF pos4])
  have pos5: "at_pos b q2 ([0, 0] @ rest)"
    unfolding q2_def by (rule at_pos_skip [OF pos4']) simp
  have ch: "cap_read_chain 8 (cap_mccl c) b 0 (q + 1) (replicate 7 custody_nil) = Inr (cap_custody c, q2)"
    using cap_read_chain_at [of ?ch 8 "[]" "cap_mccl c" b "q + 1" "[0, 0] @ rest"] K pos4 cu
    by (simp add: q2_def del: cap_read_chain.simps)
  have rules: "deserializeRules (length ?rs) b (p + 22) = Inr (?rs, q)"
    using rules_des_enc [OF rs(2) pos2, of "length ?rs"] by (simp add: q_def)
  have nr: "unat (of_nat (length ?rs) :: u16) = length ?rs" using rs(1) by (simp add: unat_of_nat)
  have n64: "\<not> 64 < (of_nat (length ?rs) :: u16)" using rs(1) nr by (simp add: word_less_nat_alt)
  have mc: "ucast (ucast (cap_mccl c) :: u8) = cap_mccl c"
    using K(2) by (simp add: word_unat_eq_iff unsigned_ucast_eq take_bit_nat_eq_self unsigned_take_bit_eq)
  have m: "\<not> cap_mccl c < 1" "\<not> 7 < cap_mccl c" using ok by (auto simp: cap_ok_def)
  have mget: "buf_get b q = Inr (ucast (cap_mccl c))" by (simp add: at_pos_reads [OF pos3])
  have tl: "read_tail b q2 p = Inr (q2 + 2 - p)" by (rule read_tail_at [OF pos5])
  have len: "q2 + 2 - p = of_nat (length (cap_enc False c))"
    using lc by (simp add: cap_enc_def cred_bytes_def cap_body_def q2_def q_def)
  note rd = at_pos_reads [OF pos1]
  show ?thesis
    using ch rules nr n64 m mc mget tl len
    by (simp add: cap_deserialize_def rd Let_def del: cap_read_chain.simps)
qed

lemma length_cap_enc: "cap_ok c \<Longrightarrow> length (cap_enc forSign c) < 4096"
  using length_rules_enc [of "cap_rules c"] length_chain_enc [OF cap_ok_chain(4)] cap_ok_chain(1,2) [of c]
  by (fastforce simp: cap_enc_def cred_bytes_def cap_body_def cap_ok_def list_all_iff)

interpretation cap_wire: wire_object "cap_serialize False" cap_deserialize "cap_enc False" cap_ok
  by unfold_locales (auto intro: appends_cap cap_des_enc less_trans [OF length_cap_enc])

section \<open>The chain of custody\<close>

text \<open>
  The reference: a valid chain starts with the network's controller, hands on from each recipient
  to the next sender, and each sender is known and signed the capability.
\<close>

fun custody_valid :: "'s env \<Rightarrow> u8 list \<Rightarrow> address \<Rightarrow> custody list \<Rightarrow> bool" where
  "custody_valid e msg holder [] = True"
| "custody_valid e msg holder (cu # ch) \<longleftrightarrow>
     cu_from cu = holder \<and> addr_bool holder \<and> identity_bool (env_getIdentity e holder) \<and>
     identity_verify (env_crypto e) (env_getIdentity e holder) msg (cu_sig cu) \<and>
     custody_valid e msg (cu_to cu) ch"

lemma cap_verify_tail:
  assumes "cap_custody c = pre @ ch @ replicate n custody_nil" and "pre \<noteq> []"
    and "length pre + length ch \<le> m" and "m \<le> length (cap_custody c)"
    and "\<forall>cu\<in>set ch. addr_bool (cu_to cu)"
  shows "cap_verify_loop e c msg [length pre..<m] = (0, []) \<longleftrightarrow>
    custody_valid e msg (cu_to (last pre)) ch"
  using assms
proof (induction ch arbitrary: pre)
  case Nil
  have nl: "\<not> addr_bool (cu_to custody_nil)" by code_simp
  show ?case
  proof (cases "length pre < m")
    case True
    then have "cap_custody c ! length pre = custody_nil"
      using Nil.prems(1,4) by (simp add: nth_append)
    then show ?thesis using True nl Nil.prems(2) by (simp add: upt_conv_Cons Let_def)
  qed simp
next
  case (Cons cu ch)
  have k: "length pre < m" "length pre \<noteq> 0" using Cons.prems(2,3) by simp_all
  have at: "cap_custody c ! length pre = cu" "cap_custody c ! (length pre - 1) = last pre"
    using Cons.prems(1,2) by (simp_all add: nth_append last_conv_nth)
  have tail: "cap_verify_loop e c msg [length (pre @ [cu])..<m] = (0, []) \<longleftrightarrow>
      custody_valid e msg (cu_to (last (pre @ [cu]))) ch"
    using Cons.prems by (intro Cons.IH) simp_all
  have to: "addr_bool (cu_to cu)" using Cons.prems(5) by simp
  show ?case using tail to at k by (auto simp: upt_conv_Cons [OF k(1)] Let_def)
qed

lemma cap_verify_msg:
  assumes "cap_ok c"
  shows "cap_verify e c = cap_verify_loop e c (cap_enc True c) [0..<unat (cap_mccl c)]"
proof -
  obtain b where b: "cap_serialize True c (buf_new (replicate (2864 * 2) 0)) = Inr b" "bdata b = cap_enc True c"
    by (rule ser_new [OF appends_cap [OF assms, of True], of "2864 * 2"])
      (use length_cap_enc [OF assms, of True] in simp_all)
  have "\<not> (cap_mccl c < 1 \<or> cap_mccl c > 7)" using assms by (auto simp: cap_ok_def)
  then show ?thesis using b by (simp add: cap_verify_def)
qed

lemma cap_verify_iff:
  assumes "cap_ok c"
  shows "cap_verify e c = (0, []) \<longleftrightarrow> cap_chain c \<noteq> [] \<and>
    custody_valid e (cap_enc True c) (controllerFor (cap_nwid c)) (cap_chain c)"
proof -
  note K = cap_ok_chain [OF assms]
  have arr: "cap_custody c = cap_chain c @ replicate (7 - length (cap_chain c)) custody_nil"
    using assms by (simp add: cap_ok_def)
  have len: "length (cap_custody c) = 7" using K(1,2) by (subst arr) simp
  have to: "\<forall>cu\<in>set (cap_chain c). addr_bool (cu_to cu)" using K(4) by (auto simp: custody_ok_def)
  have up: "[0..<unat (cap_mccl c)] = 0 # [Suc 0..<unat (cap_mccl c)]" using K(3) by (simp add: upt_conv_Cons)
  show ?thesis
  proof (cases "cap_chain c")
    case Nil
    then have "\<not> addr_bool (cu_to (cap_custody c ! 0))" by (subst arr) (simp, code_simp)
    then show ?thesis using Nil by (simp add: cap_verify_msg [OF assms] up)
  next
    case (Cons cu ch)
    have t: "cap_verify_loop e c (cap_enc True c) [length [cu]..<unat (cap_mccl c)] = (0, []) \<longleftrightarrow>
        custody_valid e (cap_enc True c) (cu_to (last [cu])) ch"
      using arr Cons K len to by (intro cap_verify_tail) simp_all
    have "cap_custody c ! 0 = cu" using arr Cons by simp
    then show ?thesis using t Cons to by (auto simp: cap_verify_msg [OF assms] up Let_def)
  qed
qed

text \<open>
  Claim C20: a capability verifies exactly when its chain of custody is valid: there is a first
  entry, it comes from the network's controller, every further entry comes from the recipient of
  the one before, and each sender is a known identity whose signature covers the capability.
\<close>

theorem cap_verify_custody:
  assumes "cap_ok c"
  shows "cap_verify e c = (0, []) \<longleftrightarrow> cap_chain c \<noteq> [] \<and>
    custody_valid e (cap_enc True c) (controllerFor (cap_nwid c)) (cap_chain c)"
  by (rule cap_verify_iff [OF assms])

theorem cap_verify_custody_witness:
  "cap_verify \<lparr>env_crypto = \<lparr>ecc_sign = \<lambda>_ _ _. replicate 96 7, ecc_verify = \<lambda>_ _ sig. sig = replicate 96 7,
        sha512 = \<lambda>_. [], sha384 = \<lambda>_. [], s20_init = \<lambda>_ _. (), s20_crypt = \<lambda>s m. (m, s)\<rparr>,
      env_getIdentity = \<lambda>a. \<lparr>id_address = a, id_pub = replicate 64 0, id_priv = None\<rparr>\<rparr>
    ((cap_new 5 0x8056c2e21c000001 8 2 [])\<lparr>cap_custody :=
       [\<lparr>cu_to = addr_of 17, cu_from = addr_of 0x8056c2e21c, cu_sig = replicate 96 7\<rparr>,
        \<lparr>cu_to = addr_of 18, cu_from = addr_of 17, cu_sig = replicate 96 7\<rparr>] @ replicate 5 custody_nil\<rparr>)
   = (0, [])"
proof -
  let ?e = "\<lparr>env_crypto = \<lparr>ecc_sign = \<lambda>_ _ _. replicate 96 7, ecc_verify = \<lambda>_ _ sig. sig = replicate 96 7,
        sha512 = \<lambda>_. [], sha384 = \<lambda>_. [], s20_init = \<lambda>_ _. (), s20_crypt = \<lambda>s m. (m, s)\<rparr>,
      env_getIdentity = \<lambda>a. \<lparr>id_address = a, id_pub = replicate 64 0, id_priv = None\<rparr>\<rparr>"
  let ?ch = "[\<lparr>cu_to = addr_of 17, cu_from = addr_of 0x8056c2e21c, cu_sig = replicate 96 7\<rparr>,
        \<lparr>cu_to = addr_of 18, cu_from = addr_of 17, cu_sig = replicate 96 7\<rparr>]"
  let ?c = "(cap_new 5 0x8056c2e21c000001 8 2 [])\<lparr>cap_custody := ?ch @ replicate 5 custody_nil\<rparr>"
  have ok: "cap_ok ?c" by code_simp
  have ch: "cap_chain ?c = ?ch" by code_simp
  have k: "controllerFor 0x8056c2e21c000001 = addr_of 0x8056c2e21c" "addr_bool (addr_of 0x8056c2e21c)"
    "addr_bool (addr_of 17)" by code_simp+
  have b: "identity_bool \<lparr>id_address = a, id_pub = replicate 64 0, id_priv = None\<rparr>" if "addr_bool a" for a
    using that by (simp add: identity_bool_def)
  show ?thesis
    using cap_verify_custody [OF ok, of ?e] k unfolding ch
    by (simp add: cap_new_def identity_verify_def identity_bool_def)
qed

text \<open>
  The signed form leaves the recipients out, so the last recipient of a valid chain can be
  replaced by any other address.
\<close>

lemma cap_recipient_unsigned:
  assumes ok: "cap_ok c" "cap_ok c'" and body: "cap_enc True c' = cap_enc True c" "cap_nwid c' = cap_nwid c"
    and ch: "cap_chain c = pre @ [cu]" "cap_chain c' = pre @ [cu\<lparr>cu_to := a\<rparr>]"
  shows "cap_verify e c' = (0, []) \<longleftrightarrow> cap_verify e c = (0, [])"
proof -
  have "custody_valid e m h (pre @ [cu\<lparr>cu_to := a\<rparr>]) = custody_valid e m h (pre @ [cu])" for m h
    by (induction pre arbitrary: h) simp_all
  moreover have "cap_verify e x = (0, []) \<longleftrightarrow> cap_chain x \<noteq> [] \<and>
      custody_valid e (cap_enc True x) (controllerFor (cap_nwid x)) (cap_chain x)" if "cap_ok x" for x
    by (rule cap_verify_iff [OF that])
  ultimately show ?thesis using ok body ch by simp
qed

end
