(* ===== verification/ZT_NetworkConfig.thy ===== *)
theory ZT_NetworkConfig
  imports ZT_Capability
begin

text \<open>
  \<^verbatim>\<open>node/NetworkConfig.hpp\<close>: a member's configuration of a network as its controller sends it.
  The fixed arrays with their counts are lists; the counts are their lengths. A fixed
  character array holds a C string and is the list of its bytes before the terminating zero; the
  DNS domain is the array itself. The dictionary form is in \<open>ZT_NetDict\<close>.
\<close>

section \<open>State\<close>

record route =
  rt_target :: inet
  rt_via :: inet
  rt_flags :: u16
  rt_metric :: u16

record dns =
  dns_domain :: "u8 list"
  dns_servers :: "inet list"

record netconf =
  nc_networkId :: u64
  nc_timestamp :: u64
  nc_credentialTimeMaxDelta :: u64
  nc_revision :: u64
  nc_issuedTo :: address
  nc_remoteTraceTarget :: address
  nc_flags :: u64
  nc_mtu :: u32
  nc_multicastLimit :: u32
  nc_specialists :: "u64 list"
  nc_staticIps :: "inet list"
  nc_rules :: "rule list"
  nc_capabilities :: "capability list"
  nc_tags :: "tag list"
  nc_coos :: "coo list"
  nc_type :: u32
  nc_com :: com
  nc_remoteTraceLevel :: u32
  nc_name :: "u8 list"
  nc_routes :: "route list"
  nc_dns :: dns
  nc_ssoEnabled :: bool
  nc_ssoVersion :: u64
  nc_authenticationURL :: "u8 list"
  nc_authenticationExpiryTime :: u64
  nc_issuerURL :: "u8 list"
  nc_centralAuthURL :: "u8 list"
  nc_ssoNonce :: "u8 list"
  nc_ssoState :: "u8 list"
  nc_ssoClientID :: "u8 list"
  nc_ssoProvider :: "u8 list"

text \<open>The provider is the text \<^verbatim>\<open>default\<close>.\<close>

definition PROVIDER_DEFAULT :: "u8 list" where
  "PROVIDER_DEFAULT = [100, 101, 102, 97, 117, 108, 116]"

definition dns_nil :: dns where
  "dns_nil = \<lparr>dns_domain = replicate 128 0, dns_servers = replicate 4 inet_zero\<rparr>"

definition netconf_nil :: netconf where
  "netconf_nil = \<lparr>nc_networkId = 0, nc_timestamp = 0, nc_credentialTimeMaxDelta = 0, nc_revision = 0,
     nc_issuedTo = addr_nil, nc_remoteTraceTarget = addr_nil, nc_flags = 0, nc_mtu = 0,
     nc_multicastLimit = 0, nc_specialists = [], nc_staticIps = [], nc_rules = [],
     nc_capabilities = [], nc_tags = [], nc_coos = [], nc_type = 0, nc_com = com_nil,
     nc_remoteTraceLevel = 0, nc_name = [], nc_routes = [], nc_dns = dns_nil, nc_ssoEnabled = False,
     nc_ssoVersion = 0, nc_authenticationURL = [], nc_authenticationExpiryTime = 0, nc_issuerURL = [],
     nc_centralAuthURL = [], nc_ssoNonce = [], nc_ssoState = [], nc_ssoClientID = [],
     nc_ssoProvider = PROVIDER_DEFAULT\<rparr>"

section \<open>Queries\<close>

definition nc_enableBroadcast :: "netconf \<Rightarrow> bool" where
  "nc_enableBroadcast nc \<longleftrightarrow> nc_flags nc AND 2 \<noteq> 0"

definition nc_ndpEmulation :: "netconf \<Rightarrow> bool" where
  "nc_ndpEmulation nc \<longleftrightarrow> nc_flags nc AND 4 \<noteq> 0"

definition nc_isPublic :: "netconf \<Rightarrow> bool" where
  "nc_isPublic nc \<longleftrightarrow> nc_type nc = 1"

definition nc_isPrivate :: "netconf \<Rightarrow> bool" where
  "nc_isPrivate nc \<longleftrightarrow> nc_type nc = 0"

definition nc_bool :: "netconf \<Rightarrow> bool" where
  "nc_bool nc \<longleftrightarrow> nc_networkId nc \<noteq> 0"

definition ACTIVE_BRIDGE :: u64 where "ACTIVE_BRIDGE = 0x0000020000000000"
definition MULTICAST_REPLICATOR :: u64 where "MULTICAST_REPLICATOR = 0x0000080000000000"
definition NETWORK_RELAY :: u64 where "NETWORK_RELAY = 0x0000100000000000"

text \<open>A specialist is an address in the low 40 bits with role flags above.\<close>

definition nc_activeBridges :: "netconf \<Rightarrow> address list" where
  "nc_activeBridges nc = map addr_of (filter (\<lambda>s. s AND ACTIVE_BRIDGE \<noteq> 0) (nc_specialists nc))"

definition nc_isActiveBridge :: "netconf \<Rightarrow> address \<Rightarrow> bool" where
  "nc_isActiveBridge nc a \<longleftrightarrow>
     list_ex (\<lambda>s. s AND ACTIVE_BRIDGE \<noteq> 0 \<and> addr_eq_int a s) (nc_specialists nc)"

definition nc_multicastReplicators :: "netconf \<Rightarrow> address list" where
  "nc_multicastReplicators nc = map addr_of (filter (\<lambda>s. s AND MULTICAST_REPLICATOR \<noteq> 0) (nc_specialists nc))"

definition nc_isMulticastReplicator :: "netconf \<Rightarrow> address \<Rightarrow> bool" where
  "nc_isMulticastReplicator nc a \<longleftrightarrow>
     list_ex (\<lambda>s. s AND MULTICAST_REPLICATOR \<noteq> 0 \<and> addr_eq_int a s) (nc_specialists nc)"

definition nc_alwaysContactAddresses :: "netconf \<Rightarrow> address list" where
  "nc_alwaysContactAddresses nc =
     map addr_of (filter (\<lambda>s. s AND (NETWORK_RELAY OR MULTICAST_REPLICATOR) \<noteq> 0) (nc_specialists nc))"

definition nc_permitsBridging :: "netconf \<Rightarrow> address \<Rightarrow> bool" where
  "nc_permitsBridging nc a \<longleftrightarrow>
     list_ex (\<lambda>s. addr_eq_int a s \<and> s AND ACTIVE_BRIDGE \<noteq> 0) (nc_specialists nc)"

definition nc_capability :: "netconf \<Rightarrow> u32 \<Rightarrow> capability option" where
  "nc_capability nc i = List.find (\<lambda>c. cap_id c = i) (nc_capabilities nc)"

definition nc_tag :: "netconf \<Rightarrow> u32 \<Rightarrow> tag option" where
  "nc_tag nc i = List.find (\<lambda>t. tag_id t = i) (nc_tags nc)"

section \<open>Adding a specialist\<close>

text \<open>The first entry of the address gets the flags; a new entry needs one of the 512 slots.\<close>

fun specialist_or :: "u64 \<Rightarrow> u64 \<Rightarrow> u64 list \<Rightarrow> u64 list option" where
  "specialist_or a f [] = None"
| "specialist_or a f (s # ss) =
     (if s AND 0xffffffffff = a then Some ((s OR f) # ss)
      else map_option (\<lambda>ss'. s # ss') (specialist_or a f ss))"

definition nc_addSpecialist :: "netconf \<Rightarrow> address \<Rightarrow> u64 \<Rightarrow> netconf \<times> bool" where
  "nc_addSpecialist nc a f =
     (case specialist_or (addr_int a) f (nc_specialists nc) of
        Some ss \<Rightarrow> (nc\<lparr>nc_specialists := ss\<rparr>, True)
      | None \<Rightarrow>
          if length (nc_specialists nc) < 512
          then (nc\<lparr>nc_specialists := nc_specialists nc @ [f OR addr_int a]\<rparr>, True)
          else (nc, False))"

text \<open>The roles of an address: the flags of its entries together.\<close>

definition role_flags :: "u64 \<Rightarrow> u64" where
  "role_flags s = s AND NOT 0xffffffffff"

fun roles_of :: "u64 list \<Rightarrow> address \<Rightarrow> u64" where
  "roles_of [] a = 0"
| "roles_of (s # ss) a = (if addr_eq_int a s then role_flags s else 0) OR roles_of ss a"

definition nc_roles :: "netconf \<Rightarrow> address \<Rightarrow> u64" where
  "nc_roles nc = roles_of (nc_specialists nc)"

text \<open>The table holds an address at most once and has 512 slots.\<close>

definition nc_specialists_ok :: "netconf \<Rightarrow> bool" where
  "nc_specialists_ok nc \<longleftrightarrow> length (nc_specialists nc) \<le> 512 \<and>
     distinct (map (\<lambda>s. s AND 0xffffffffff) (nc_specialists nc))"

lemma specialist_flag:
  fixes s f :: u64
  assumes "f AND 0xffffffffff = 0"
  shows "(s OR f) AND 0xffffffffff = s AND 0xffffffffff" "role_flags f = f"
    "role_flags (s OR f) = role_flags s OR f"
proof -
  show "(s OR f) AND 0xffffffffff = s AND 0xffffffffff"
    using assms by (simp add: bit.conj_disj_distrib2)
  have "f = (f AND 0xffffffffff) OR (f AND NOT 0xffffffffff)"
    by (simp add: bit.conj_disj_distrib [symmetric])
  then show f: "role_flags f = f" using assms by (simp add: role_flags_def)
  show "role_flags (s OR f) = role_flags s OR f"
    using f by (simp add: role_flags_def bit.conj_disj_distrib2)
qed

lemma and_not_absorb:
  fixes x m :: u64
  assumes "x AND m = x" shows "x AND NOT m = 0"
proof -
  have "x AND NOT m = x AND (m AND NOT m)" by (subst assms [symmetric]) (simp only: and.assoc)
  then show ?thesis by simp
qed

lemma specialist_or_spec:
  assumes f: "f AND 0xffffffffff = 0"
  shows "(specialist_or a f ss = None \<longleftrightarrow> a \<notin> (\<lambda>s. s AND 0xffffffffff) ` set ss) \<and>
    (\<forall>ss'. specialist_or a f ss = Some ss' \<longrightarrow> length ss' = length ss \<and>
      map (\<lambda>s. s AND 0xffffffffff) ss' = map (\<lambda>s. s AND 0xffffffffff) ss \<and>
      (\<forall>b. roles_of ss' b = roles_of ss b OR (if addr_int b = a then f else 0)))"
proof (induction ss)
  case (Cons s ss)
  show ?case
  proof (cases "s AND 0xffffffffff = a")
    case True
    then have "addr_eq_int b (s OR f) \<longleftrightarrow> addr_int b = a" "addr_eq_int b s \<longleftrightarrow> addr_int b = a" for b
      using specialist_flag(1) [OF f, of s] by (simp_all add: addr_eq_int_def)
    then show ?thesis
      using True specialist_flag(1,3) [OF f, of s]
      by (simp add: or.assoc or.commute [of f] del: bit.conj_disj_distrib2)
  next
    case False
    show ?thesis
    proof (cases "specialist_or a f ss")
      case None
      have "a \<notin> (\<lambda>s. s AND 0xffffffffff) ` set ss" using Cons.IH None by blast
      then show ?thesis using None False by (simp add: eq_commute)
    next
      case (Some ss')
      have "roles_of (s # ss') b = roles_of (s # ss) b OR (if addr_int b = a then f else 0)" for b
        using Cons.IH Some by (simp add: or.assoc)
      moreover have "a \<in> (\<lambda>s. s AND 0xffffffffff) ` set ss" "length ss' = length ss"
        "map (\<lambda>s. s AND 0xffffffffff) ss' = map (\<lambda>s. s AND 0xffffffffff) ss"
        using Cons.IH unfolding Some by simp_all
      ultimately show ?thesis using False Some by (simp del: roles_of.simps)
    qed
  qed
qed simp

text \<open>
  Adding roles to a specialist gives exactly that address the new flags on top of its old
  ones and touches no other address; it keeps the table within its 512 slots and free of duplicate
  addresses, and it fails, changing nothing, exactly when the table is full and has no entry for
  the address.
\<close>

lemma nc_addSpecialist_roles:
  assumes ok: "nc_specialists_ok nc" and a: "addr_ok a" and f: "f AND 0xffffffffff = 0"
  shows "(\<forall>b. nc_roles (fst (nc_addSpecialist nc a f)) b =
      nc_roles nc b OR (if b = a \<and> snd (nc_addSpecialist nc a f) then f else 0)) \<and>
    nc_specialists_ok (fst (nc_addSpecialist nc a f)) \<and>
    (\<not> snd (nc_addSpecialist nc a f) \<longleftrightarrow> length (nc_specialists nc) = 512 \<and>
      (\<forall>s\<in>set (nc_specialists nc). \<not> addr_eq_int a s)) \<and>
    (\<not> snd (nc_addSpecialist nc a f) \<longrightarrow> fst (nc_addSpecialist nc a f) = nc)"
proof -
  note spec = specialist_or_spec [OF f, of "addr_int a" "nc_specialists nc"]
  have self: "addr_int a AND 0xffffffffff = addr_int a"
    using a by (simp add: addr_ok_def mask40)
  have lo: "(f OR addr_int a) AND 0xffffffffff = addr_int a"
    using specialist_flag(1) [OF f, of "addr_int a"] self by (simp add: or.commute)
  have hi: "role_flags (f OR addr_int a) = f"
    using and_not_absorb [OF self] specialist_flag(3) [OF f, of "addr_int a"]
    by (simp add: role_flags_def or.commute)
  have new: "roles_of (ss @ [f OR addr_int a]) b = roles_of ss b OR (if b = a then f else 0)" for ss b
    by (induction ss) (auto simp: addr_eq_int_def lo hi or.assoc address.expand)
  show ?thesis
  proof (cases "specialist_or (addr_int a) f (nc_specialists nc)")
    case None
    then show ?thesis
      using spec ok new lo
      by (auto simp: nc_addSpecialist_def nc_roles_def nc_specialists_ok_def addr_eq_int_def image_iff)
  next
    case (Some ss')
    then have ss: "length ss' = length (nc_specialists nc)"
        "map (\<lambda>s. s AND 0xffffffffff) ss' = map (\<lambda>s. s AND 0xffffffffff) (nc_specialists nc)"
        "\<And>b. roles_of ss' b = roles_of (nc_specialists nc) b OR (if addr_int b = addr_int a then f else 0)"
        "addr_int a \<in> (\<lambda>s. s AND 0xffffffffff) ` set (nc_specialists nc)"
      using spec by auto
    then show ?thesis
      using ok Some
      by (auto simp: nc_addSpecialist_def nc_roles_def nc_specialists_ok_def addr_eq_int_def address.expand)
  qed
qed

lemma nc_addSpecialist_roles_witness:
  "nc_roles (fst (nc_addSpecialist netconf_nil (addr_of 0x1122334455) ACTIVE_BRIDGE)) (addr_of 0x1122334455)
     = ACTIVE_BRIDGE"
proof -
  have ok: "nc_specialists_ok netconf_nil" by (simp add: nc_specialists_ok_def netconf_nil_def)
  have a: "addr_ok (addr_of 0x1122334455)" by code_simp
  have f: "ACTIVE_BRIDGE AND 0xffffffffff = 0" by (simp add: ACTIVE_BRIDGE_def)
  have z: "nc_roles netconf_nil (addr_of 0x1122334455) = 0"
    by (simp add: nc_roles_def netconf_nil_def)
  have s: "snd (nc_addSpecialist netconf_nil (addr_of 0x1122334455) ACTIVE_BRIDGE)"
    by (simp add: nc_addSpecialist_def netconf_nil_def)
  show ?thesis using nc_addSpecialist_roles [OF ok a f] z s by simp
qed

end
