(* ===== verification/ZT_NetDict.thy ===== *)
theory ZT_NetDict
  imports ZT_NetworkConfig ZT_Dictionary
begin

text \<open>
  \<^verbatim>\<open>node/NetworkConfig.cpp\<close> and \<^verbatim>\<open>node/DNS.hpp\<close>: a network configuration as the
  dictionary it travels in. Writing is a row of steps, each adding an entry, that stops at the
  first one that fails; reading looks every key up and decodes its value. The legacy branches are
  under \<^verbatim>\<open>ZT_SUPPORT_OLD_STYLE_NETCONF\<close>, which nothing defines. \<open>C\<close> is
  \<^verbatim>\<open>ZT_NETWORKCONFIG_DICT_CAPACITY\<close>, a sum of \<^verbatim>\<open>sizeof\<close>s, the capacity of the dictionary and
  of the temporary buffer. The properties are that the dictionary holds exactly the entries of
  the configuration, and that reading it back gives the configuration again.
\<close>

section \<open>DNS\<close>

definition dns_serialize :: "dns \<Rightarrow> zbuf \<Rightarrow> zbuf res" where
  "dns_serialize x b =
     bind_res (buf_append_bytes (dns_domain x) 128 b) (ser_list inet_serialize (dns_servers x))"

text \<open>The domain is read from the memory of the buffer without a check of its size.\<close>

definition dns_deserialize :: "zbuf \<Rightarrow> u32 \<Rightarrow> (dns \<times> u32) res" where
  "dns_deserialize b p =
     bind_res (buf_read b (unat p) 128) (\<lambda>d.
     bind_res (des_list inet_deserialize 4 b (p + 128)) (\<lambda>(ss, q).
       Inr (\<lparr>dns_domain = d[127 := 0], dns_servers = ss\<rparr>, q)))"

section \<open>Routes\<close>

definition route_serialize :: "route \<Rightarrow> zbuf \<Rightarrow> zbuf res" where
  "route_serialize r =
     write_all [inet_serialize (rt_target r), inet_serialize (rt_via r),
       buf_append_int 2 (rt_flags r), buf_append_int 2 (rt_metric r)]"

definition route_deserialize :: "zbuf \<Rightarrow> u32 \<Rightarrow> (route \<times> u32) res" where
  "route_deserialize b p =
     bind_res (inet_deserialize b p) (\<lambda>(t, l1).
     bind_res (inet_deserialize b (p + l1)) (\<lambda>(v, l2).
     bind_res (buf_at 2 b (p + l1 + l2)) (\<lambda>fl.
     bind_res (buf_at 2 b (p + l1 + l2 + 2)) (\<lambda>me.
       Inr (\<lparr>rt_target = t, rt_via = v, rt_flags = fl, rt_metric = me\<rparr>, l1 + l2 + 2 + 2)))))"

section \<open>Keys\<close>

definition K_VERSION :: "u8 list" where "K_VERSION = [118]"
definition K_NETWORK_ID :: "u8 list" where "K_NETWORK_ID = [110, 119, 105, 100]"
definition K_TIMESTAMP :: "u8 list" where "K_TIMESTAMP = [116, 115]"
definition K_REVISION :: "u8 list" where "K_REVISION = [114]"
definition K_ISSUED_TO :: "u8 list" where "K_ISSUED_TO = [105, 100]"
definition K_TRACE_TARGET :: "u8 list" where "K_TRACE_TARGET = [116, 116]"
definition K_TRACE_LEVEL :: "u8 list" where "K_TRACE_LEVEL = [116, 108]"
definition K_FLAGS :: "u8 list" where "K_FLAGS = [102]"
definition K_MULTICAST_LIMIT :: "u8 list" where "K_MULTICAST_LIMIT = [109, 108]"
definition K_TYPE :: "u8 list" where "K_TYPE = [116]"
definition K_NAME :: "u8 list" where "K_NAME = [110]"
definition K_MTU :: "u8 list" where "K_MTU = [109, 116, 117]"
definition K_MAX_DELTA :: "u8 list" where "K_MAX_DELTA = [99, 116, 109, 100]"
definition K_COM :: "u8 list" where "K_COM = [67]"
definition K_SPECIALISTS :: "u8 list" where "K_SPECIALISTS = [83]"
definition K_ROUTES :: "u8 list" where "K_ROUTES = [82, 84]"
definition K_STATIC_IPS :: "u8 list" where "K_STATIC_IPS = [73]"
definition K_RULES :: "u8 list" where "K_RULES = [82]"
definition K_CAPABILITIES :: "u8 list" where "K_CAPABILITIES = [67, 65, 80]"
definition K_TAGS :: "u8 list" where "K_TAGS = [84, 65, 71]"
definition K_COOS :: "u8 list" where "K_COOS = [67, 79, 79]"
definition K_DNS :: "u8 list" where "K_DNS = [68, 78, 83]"
definition K_SSO_ENABLED :: "u8 list" where "K_SSO_ENABLED = [115, 115, 111, 101]"
definition K_SSO_VERSION :: "u8 list" where "K_SSO_VERSION = [115, 115, 111, 118]"
definition K_AUTH_URL :: "u8 list" where "K_AUTH_URL = [97, 117, 114, 108]"
definition K_AUTH_EXPIRY :: "u8 list" where "K_AUTH_EXPIRY = [97, 101, 120, 112, 116]"
definition K_ISSUER_URL :: "u8 list" where "K_ISSUER_URL = [105, 117, 114, 108]"
definition K_CENTRAL_URL :: "u8 list" where "K_CENTRAL_URL = [115, 115, 111, 99, 101]"
definition K_NONCE :: "u8 list" where "K_NONCE = [115, 115, 111, 110]"
definition K_STATE :: "u8 list" where "K_STATE = [115, 115, 111, 115]"
definition K_CLIENT_ID :: "u8 list" where "K_CLIENT_ID = [115, 115, 111, 99, 105, 100]"
definition K_PROVIDER :: "u8 list" where "K_PROVIDER = [115, 115, 111, 112]"

lemmas key_defs = K_VERSION_def K_NETWORK_ID_def K_TIMESTAMP_def K_REVISION_def K_ISSUED_TO_def
  K_TRACE_TARGET_def K_TRACE_LEVEL_def K_FLAGS_def K_MULTICAST_LIMIT_def K_TYPE_def K_NAME_def K_MTU_def
  K_MAX_DELTA_def K_COM_def K_SPECIALISTS_def K_ROUTES_def K_STATIC_IPS_def K_RULES_def
  K_CAPABILITIES_def K_TAGS_def K_COOS_def K_DNS_def K_SSO_ENABLED_def K_SSO_VERSION_def K_AUTH_URL_def
  K_AUTH_EXPIRY_def K_ISSUER_URL_def K_CENTRAL_URL_def K_NONCE_def K_STATE_def K_CLIENT_ID_def
  K_PROVIDER_def

section \<open>Writing\<close>

text \<open>
  A step takes the dictionary and yields it with whether the entry fitted; a serializer that runs
  out of the temporary buffer throws. The buffer is cleared before each use, which leaves its
  memory but not its data, so a new one stands for it.
\<close>

type_synonym dict_step = "u8 list \<Rightarrow> (u8 list \<times> bool) res"

definition put_u64 :: "u8 list \<Rightarrow> u64 \<Rightarrow> dict_step" where
  "put_u64 key v d = Inr (dict_add_u64 d key v)"

definition put_i64 :: "u8 list \<Rightarrow> u64 \<Rightarrow> dict_step" where
  "put_i64 key v d = Inr (dict_add_i64 d key v)"

definition put_bool :: "u8 list \<Rightarrow> bool \<Rightarrow> dict_step" where
  "put_bool key v d = Inr (dict_add_bool d key v)"

definition put_text :: "u8 list \<Rightarrow> u8 list \<Rightarrow> dict_step" where
  "put_text key v d = Inr (dict_add d key v)"

definition put_buf :: "nat \<Rightarrow> u8 list \<Rightarrow> (zbuf \<Rightarrow> zbuf res) \<Rightarrow> dict_step" where
  "put_buf C key ser d =
     bind_res (ser (buf_new (replicate C 0))) (\<lambda>tmp. Inr (dict_add d key (bdata tmp)))"

definition put_blob :: "nat \<Rightarrow> u8 list \<Rightarrow> (zbuf \<Rightarrow> zbuf res) \<Rightarrow> dict_step" where
  "put_blob C key ser d =
     bind_res (ser (buf_new (replicate C 0))) (\<lambda>tmp.
       if bsize tmp \<noteq> 0 then Inr (dict_add d key (bdata tmp)) else Inr (d, True))"

primrec run_steps :: "dict_step list \<Rightarrow> dict_step" where
  "run_steps [] d = Inr (d, True)"
| "run_steps (f # fs) d = bind_res (f d) (\<lambda>(d', ok). if ok then run_steps fs d' else Inr (d', False))"

definition c_string :: "u8 list \<Rightarrow> u8 list" where
  "c_string s = takeWhile (\<lambda>c. c \<noteq> 0) s"

definition nc_sso_steps :: "netconf \<Rightarrow> dict_step list" where
  "nc_sso_steps nc =
     (if nc_ssoVersion nc = 0 then
        [put_u64 K_SSO_VERSION (nc_ssoVersion nc), put_bool K_SSO_ENABLED (nc_ssoEnabled nc)] @
        (if nc_ssoEnabled nc then
           (if nc_authenticationURL nc \<noteq> [] then [put_text K_AUTH_URL (nc_authenticationURL nc)] else []) @
           [put_u64 K_AUTH_EXPIRY (nc_authenticationExpiryTime nc)]
         else [])
      else if nc_ssoVersion nc = 1 then
        [put_u64 K_SSO_VERSION (nc_ssoVersion nc), put_bool K_SSO_ENABLED (nc_ssoEnabled nc),
         put_text K_ISSUER_URL (nc_issuerURL nc), put_text K_CENTRAL_URL (nc_centralAuthURL nc),
         put_text K_NONCE (nc_ssoNonce nc), put_text K_STATE (nc_ssoState nc),
         put_text K_CLIENT_ID (nc_ssoClientID nc), put_text K_PROVIDER (nc_ssoProvider nc)]
      else [])"

definition nc_scalar_steps :: "netconf \<Rightarrow> dict_step list" where
  "nc_scalar_steps nc =
     [put_u64 K_VERSION 7, put_u64 K_NETWORK_ID (nc_networkId nc), put_i64 K_TIMESTAMP (nc_timestamp nc),
      put_i64 K_MAX_DELTA (nc_credentialTimeMaxDelta nc), put_u64 K_REVISION (nc_revision nc),
      put_text K_ISSUED_TO (c_string (addr_toString (nc_issuedTo nc))),
      put_text K_TRACE_TARGET (c_string (addr_toString (nc_remoteTraceTarget nc))),
      put_u64 K_TRACE_LEVEL (ucast (nc_remoteTraceLevel nc)), put_u64 K_FLAGS (nc_flags nc),
      put_u64 K_MULTICAST_LIMIT (ucast (nc_multicastLimit nc)), put_u64 K_TYPE (ucast (nc_type nc)),
      put_text K_NAME (nc_name nc), put_u64 K_MTU (ucast (nc_mtu nc))]"

definition nc_blob_steps :: "nat \<Rightarrow> netconf \<Rightarrow> dict_step list" where
  "nc_blob_steps C nc =
     (if com_bool (nc_com nc) then [put_buf C K_COM (com_serialize (nc_com nc))] else []) @
     [put_blob C K_CAPABILITIES (ser_list (cap_serialize False) (nc_capabilities nc)),
      put_blob C K_TAGS (ser_list (tag_serialize False) (nc_tags nc)),
      put_blob C K_COOS (ser_list (coo_serialize False) (nc_coos nc)),
      put_blob C K_SPECIALISTS (ser_list (buf_append_int 8) (nc_specialists nc)),
      put_blob C K_ROUTES (ser_list route_serialize (nc_routes nc)),
      put_blob C K_STATIC_IPS (ser_list inet_serialize (nc_staticIps nc))] @
     (if nc_rules nc \<noteq> [] then [put_blob C K_RULES (serializeRules (nc_rules nc))] else []) @
     [put_blob C K_DNS (dns_serialize (nc_dns nc))]"

definition nc_toDictionary :: "nat \<Rightarrow> netconf \<Rightarrow> (u8 list \<times> bool) res" where
  "nc_toDictionary C nc =
     run_steps (nc_scalar_steps nc @ nc_blob_steps C nc @ nc_sso_steps nc) (dict_empty C)"

section \<open>Reading\<close>

text \<open>\<open>get\<close> into a buffer writes its memory and then sets or clears its size.\<close>

definition dict_get_buf :: "u8 list \<Rightarrow> u8 list \<Rightarrow> zbuf \<Rightarrow> (bool \<times> zbuf) res" where
  "dict_get_buf d key b =
     (case dict_get d key (bcap b) of (r, w) \<Rightarrow>
        let b' = b\<lparr>bmem := mem_write (bmem b) 0 w\<rparr> in
        if r \<ge> 0 then map_sum id (Pair True) (buf_setSize (of_int r) b')
        else Inr (False, buf_clear b'))"

text \<open>
  The loops that decode the objects of a value into an array. \<open>des_array\<close>: capabilities and
  tags, with \<open>room\<close> entries left and no check; an exception ends it, which is the second
  component. \<open>des_upto\<close>: routes and addresses, that stop when the array is full. \<open>des_all\<close>:
  ownership certificates, whose number is not limited; each takes at least one byte, so that
  as many turns as the buffer has bytes suffice. The specialists are read eight bytes at a time.
\<close>

fun des_array :: "(zbuf \<Rightarrow> u32 \<Rightarrow> ('a \<times> u32) res) \<Rightarrow> nat \<Rightarrow> zbuf \<Rightarrow> u32 \<Rightarrow> 'a list \<times> exc option" where
  "des_array des room b p =
     (if p \<ge> blen b then ([], None)
      else case des b p of
        Inl e \<Rightarrow> ([], Some e)
      | Inr (x, l) \<Rightarrow>
          (case room of
             0 \<Rightarrow> ([], Some UndefinedBehaviour)
           | Suc room' \<Rightarrow> (case des_array des room' b (p + l) of (xs, e) \<Rightarrow> (x # xs, e))))"

declare des_array.simps [simp del]

fun des_upto :: "(zbuf \<Rightarrow> u32 \<Rightarrow> ('a \<times> u32) res) \<Rightarrow> nat \<Rightarrow> zbuf \<Rightarrow> u32 \<Rightarrow> 'a list res" where
  "des_upto des 0 b p = Inr []"
| "des_upto des (Suc room) b p =
     (if p \<ge> blen b then Inr []
      else bind_res (des b p) (\<lambda>(x, l). bind_res (des_upto des room b (p + l)) (\<lambda>xs. Inr (x # xs))))"

fun des_all :: "(zbuf \<Rightarrow> u32 \<Rightarrow> ('a \<times> u32) res) \<Rightarrow> nat \<Rightarrow> zbuf \<Rightarrow> u32 \<Rightarrow> 'a list res" where
  "des_all des fuel b p =
     (if p \<ge> blen b then Inr []
      else case fuel of
        0 \<Rightarrow> Inl UndefinedBehaviour
      | Suc fuel' \<Rightarrow>
          bind_res (des b p) (\<lambda>(x, l). bind_res (des_all des fuel' b (p + l)) (\<lambda>xs. Inr (x # xs))))"

declare des_all.simps [simp del]

fun des_specialists :: "nat \<Rightarrow> zbuf \<Rightarrow> u32 \<Rightarrow> u64 list res" where
  "des_specialists 0 b p = Inr []"
| "des_specialists (Suc n) b p =
     bind_res (buf_at 8 b p) (\<lambda>s. bind_res (des_specialists n b (p + 8)) (\<lambda>ss. Inr (s # ss)))"

text \<open>Looking a value up and decoding it, if it is there.\<close>

definition with_buf :: "u8 list \<Rightarrow> u8 list \<Rightarrow> zbuf \<Rightarrow> 'a \<Rightarrow> (zbuf \<Rightarrow> 'a res) \<Rightarrow> ('a \<times> zbuf) res" where
  "with_buf d key tmp dfl f =
     bind_res (dict_get_buf d key tmp) (\<lambda>(found, tmp').
       if found then bind_res (f tmp') (\<lambda>x. Inr (x, tmp')) else Inr (dfl, tmp'))"

definition sort_array :: "('a \<Rightarrow> u32) \<Rightarrow> 'a list \<times> exc option \<Rightarrow> 'a list res" where
  "sort_array key r =
     (case r of (xs, Some UndefinedBehaviour) \<Rightarrow> Inl UndefinedBehaviour | (xs, _) \<Rightarrow> Inr (sort_key key xs))"

definition dict_text :: "u8 list \<Rightarrow> u8 list \<Rightarrow> nat \<Rightarrow> u8 list" where
  "dict_text d key n = c_string (snd (dict_get d key n))"

definition nc_read_sso :: "u8 list \<Rightarrow> netconf \<Rightarrow> netconf" where
  "nc_read_sso d nc0 =
     (let nc = nc0\<lparr>nc_ssoVersion := dict_getUI d K_SSO_VERSION 0, nc_ssoEnabled := dict_getB d K_SSO_ENABLED False\<rparr> in
      if nc_ssoVersion nc = 0 then
        (if nc_ssoEnabled nc then
           nc\<lparr>nc_authenticationURL := dict_text d K_AUTH_URL 2048,
              nc_authenticationExpiryTime := dict_getI d K_AUTH_EXPIRY 0\<rparr>
         else nc\<lparr>nc_authenticationURL := [], nc_authenticationExpiryTime := 0\<rparr>)
      else if nc_ssoVersion nc = 1 then
        (if nc_ssoEnabled nc then
           nc\<lparr>nc_authenticationURL := dict_text d K_AUTH_URL 2048,
              nc_issuerURL := dict_text d K_ISSUER_URL 2048,
              nc_centralAuthURL := dict_text d K_CENTRAL_URL 2048,
              nc_ssoNonce := dict_text d K_NONCE 128, nc_ssoState := dict_text d K_STATE 256,
              nc_ssoClientID := dict_text d K_CLIENT_ID 256,
              nc_ssoProvider := (if fst (dict_get d K_PROVIDER 64) > 0 then dict_text d K_PROVIDER 64
                                 else PROVIDER_DEFAULT)\<rparr>
         else nc\<lparr>nc_authenticationURL := [], nc_authenticationExpiryTime := 0, nc_centralAuthURL := [],
                 nc_ssoNonce := [], nc_ssoState := [], nc_ssoClientID := [], nc_issuerURL := [],
                 nc_ssoProvider := []\<rparr>)
      else nc)"

definition nc_read_blobs :: "u8 list \<Rightarrow> zbuf \<Rightarrow> netconf \<Rightarrow> netconf res" where
  "nc_read_blobs d tmp nc =
     bind_res (with_buf d K_COM tmp com_nil (\<lambda>b. bind_res (com_deserialize (com_sig com_nil) b 0) (\<lambda>(c, _). Inr c)))
       (\<lambda>(com1, tmp1).
     bind_res (with_buf d K_CAPABILITIES tmp1 [] (\<lambda>b. sort_array cap_id (des_array cap_deserialize 128 b 0)))
       (\<lambda>(caps, tmp2).
     bind_res (with_buf d K_TAGS tmp2 [] (\<lambda>b. sort_array tag_id (des_array tag_deserialize 128 b 0)))
       (\<lambda>(tags, tmp3).
     bind_res (with_buf d K_COOS tmp3 [] (\<lambda>b. bind_res (des_all coo_deserialize (bsize b) b 0) (\<lambda>cs. Inr (take 4 cs))))
       (\<lambda>(coos, tmp4).
     bind_res (with_buf d K_SPECIALISTS tmp4 [] (\<lambda>b. bind_res (des_specialists (bsize b div 8) b 0) (\<lambda>ss. Inr (take 512 ss))))
       (\<lambda>(sps, tmp5).
     bind_res (with_buf d K_ROUTES tmp5 [] (\<lambda>b. des_upto route_deserialize 128 b 0)) (\<lambda>(routes, tmp6).
     bind_res (with_buf d K_STATIC_IPS tmp6 [] (\<lambda>b. des_upto inet_deserialize 32 b 0)) (\<lambda>(ips, tmp7).
     bind_res (with_buf d K_RULES tmp7 [] (\<lambda>b. bind_res (deserializeRules 1024 b 0) (\<lambda>(rs, _). Inr rs)))
       (\<lambda>(rules, tmp8).
     bind_res (with_buf d K_DNS tmp8 dns_nil (\<lambda>b. bind_res (dns_deserialize b 0) (\<lambda>(x, _). Inr x))) (\<lambda>(dns1, _).
       Inr (nc\<lparr>nc_com := com1, nc_capabilities := caps, nc_tags := tags, nc_coos := coos,
               nc_specialists := sps, nc_routes := routes, nc_staticIps := ips, nc_rules := rules,
               nc_dns := dns1\<rparr>))))))))))"

definition clamp_mtu :: "u32 \<Rightarrow> u32" where
  "clamp_mtu m = (if m < 1280 then 1280 else if m > 10000 then 10000 else m)"

definition nc_read_scalars :: "u8 list \<Rightarrow> netconf" where
  "nc_read_scalars d = netconf_nil
     \<lparr>nc_networkId := dict_getUI d K_NETWORK_ID 0, nc_timestamp := dict_getUI d K_TIMESTAMP 0,
      nc_credentialTimeMaxDelta := dict_getUI d K_MAX_DELTA 0, nc_revision := dict_getUI d K_REVISION 0,
      nc_issuedTo := addr_of (dict_getUI d K_ISSUED_TO 0),
      nc_remoteTraceTarget := addr_of (dict_getUI d K_TRACE_TARGET 0),
      nc_remoteTraceLevel := ucast (dict_getUI d K_TRACE_LEVEL 0),
      nc_multicastLimit := ucast (dict_getUI d K_MULTICAST_LIMIT 0),
      nc_name := dict_text d K_NAME 128, nc_mtu := clamp_mtu (ucast (dict_getUI d K_MTU 2800))\<rparr>"

text \<open>
  \<open>None\<close> is the result false, which every exception is turned into; what is then in the object
  is not modelled, the callers drop it. An access outside an array remains undefined.
\<close>

definition nc_fromDictionary :: "u8 list \<Rightarrow> netconf option res" where
  "nc_fromDictionary d =
     (let nc = nc_read_scalars d in
      if nc_networkId nc = 0 then Inr None
      else if \<not> addr_bool (nc_issuedTo nc) then Inr None
      else if dict_getUI d K_VERSION 0 < 6 then Inr None
      else case nc_read_blobs d (buf_new (replicate (length d) 0))
          (nc\<lparr>nc_flags := dict_getUI d K_FLAGS 0, nc_type := ucast (dict_getUI d K_TYPE 0)\<rparr>) of
        Inl UndefinedBehaviour \<Rightarrow> Inl UndefinedBehaviour
      | Inl _ \<Rightarrow> Inr None
      | Inr nc' \<Rightarrow> Inr (Some (nc_read_sso d nc')))"

section \<open>Wire contracts\<close>

definition dns_ok :: "dns \<Rightarrow> bool" where
  "dns_ok x \<longleftrightarrow> length (dns_domain x) = 128 \<and> dns_domain x ! 127 = 0 \<and>
     length (dns_servers x) = 4 \<and> list_all inet_ip_port (dns_servers x)"

definition dns_enc :: "dns \<Rightarrow> u8 list" where
  "dns_enc x = dns_domain x @ concat (map inet_enc (dns_servers x))"

definition route_ok :: "route \<Rightarrow> bool" where
  "route_ok r \<longleftrightarrow> inet_ip_port (rt_target r) \<and> inet_ip_port (rt_via r)"

definition route_enc :: "route \<Rightarrow> u8 list" where
  "route_enc r = inet_enc (rt_target r) @ inet_enc (rt_via r) @ be_bytes 2 (rt_flags r) @ be_bytes 2 (rt_metric r)"

lemma length_inets_enc:
  "\<forall>a\<in>set as. inet_ip_port a \<Longrightarrow> length (concat (map inet_enc as)) \<le> 19 * length as"
  by (induction as) (use length_inet_enc in fastforce)+

lemma inet_enc_ne [simp]: "inet_enc a \<noteq> []"
  by (simp add: inet_enc_def)

lemma appends_dns:
  assumes ok: "dns_ok x" shows "appends (dns_serialize x) (dns_enc x)"
proof -
  from ok have ip: "\<forall>a\<in>set (dns_servers x). inet_ip_port a" by (simp add: dns_ok_def list_all_iff)
  have "dns_serialize x = (\<lambda>b. bind_res (buf_append_bytes (dns_domain x) 128 b) (ser_list inet_serialize (dns_servers x)))"
    by (rule ext) (simp add: dns_serialize_def)
  then show ?thesis
    using appends_seq [OF appends_bytes inet_wire.list_appends [OF ip], of 128 "dns_domain x"] ok
    by (simp add: dns_enc_def dns_ok_def)
qed

lemma dns_des_enc:
  assumes ok: "dns_ok x" and pos: "at_pos b p (dns_enc x @ rest)"
  shows "dns_deserialize b p = Inr (x, p + of_nat (length (dns_enc x)))"
proof -
  let ?ss = "dns_servers x"
  from ok have ip: "\<forall>a\<in>set ?ss. inet_ip_port a" by (simp add: dns_ok_def list_all_iff)
  have pos1: "at_pos b p (dns_domain x @ concat (map inet_enc ?ss) @ rest)"
    using pos by (simp add: dns_enc_def)
  have pos2: "at_pos b (p + 128) (concat (map inet_enc ?ss) @ rest)"
    by (rule at_pos_skip [OF pos1]) (use ok in \<open>simp add: dns_ok_def\<close>)
  have "unat p + 128 \<le> bcap b"
    using at_posD(2) [OF pos1] smallD(3) [OF at_posD(1) [OF pos]] ok by (simp add: dns_ok_def)
  moreover have "take 128 (drop (unat p) (bmem b)) = dns_domain x"
    using at_pos_mem [OF pos1, of 0 128] ok by (simp add: dns_ok_def)
  ultimately have rd: "buf_read b (unat p) 128 = Inr (dns_domain x)" by (simp add: buf_read_def)
  have upd: "(dns_domain x)[127 := 0] = dns_domain x"
    using ok by (metis dns_ok_def list_update_id)
  have "des_list inet_deserialize 4 b (p + 128) =
      Inr (?ss, p + 128 + of_nat (length (concat (map inet_enc ?ss))))"
    using inet_wire.list_des [OF ip pos2] ok by (simp add: dns_ok_def)
  then show ?thesis using rd upd ok by (simp add: dns_deserialize_def dns_enc_def dns_ok_def)
qed

interpretation route_wire: wire_object route_serialize route_deserialize route_enc route_ok
proof unfold_locales
  fix r assume ok: "route_ok r"
  have "list_all2 appends [inet_serialize (rt_target r), inet_serialize (rt_via r),
       buf_append_int 2 (rt_flags r), buf_append_int 2 (rt_metric r)]
     [inet_enc (rt_target r), inet_enc (rt_via r), be_bytes 2 (rt_flags r), be_bytes 2 (rt_metric r)]"
    using ok by (simp add: route_ok_def appends_inet appends_int)
  from appends_write_all [OF this] show "appends (route_serialize r) (route_enc r)"
    by (simp add: route_serialize_def [abs_def] route_enc_def eta_contract_eq)
  show "length (route_enc r) < 2 ^ 31"
    using length_inet_enc [of "rt_target r"] length_inet_enc [of "rt_via r"] ok
    by (simp add: route_enc_def route_ok_def)
next
  fix r b p rest assume ok: "route_ok r" and pos: "at_pos b p (route_enc r @ rest)"
  let ?t = "inet_enc (rt_target r)" and ?v = "inet_enc (rt_via r)"
  have tv: "inet_ip_port (rt_target r)" "inet_ip_port (rt_via r)" using ok by (simp_all add: route_ok_def)
  note len = length_inet_enc [OF tv(1)] length_inet_enc [OF tv(2)]
  have pos1: "at_pos b p (?t @ ?v @ be_bytes 2 (rt_flags r) @ be_bytes 2 (rt_metric r) @ rest)"
    using pos by (simp add: route_enc_def)
  define p2 where "p2 = p + of_nat (length ?t)"
  have pos2: "at_pos b p2 (?v @ be_bytes 2 (rt_flags r) @ be_bytes 2 (rt_metric r) @ rest)"
    unfolding p2_def by (rule at_pos_skip [OF pos1]) (use len in \<open>simp add: unat_of_nat_u32\<close>)
  define p3 where "p3 = p2 + of_nat (length ?v)"
  have pos3: "at_pos b p3 (be_bytes 2 (rt_flags r) @ be_bytes 2 (rt_metric r) @ rest)"
    unfolding p3_def by (rule at_pos_skip [OF pos2]) (use len in \<open>simp add: unat_of_nat_u32\<close>)
  have ints: "buf_at 2 b p3 = Inr (rt_flags r)" "buf_at 2 b (p3 + 2) = Inr (rt_metric r)"
    by (simp_all add: at_pos_reads [OF pos3])
  show "route_deserialize b p = Inr (r, of_nat (length (route_enc r)))"
    using inet_deserialize_enc [OF tv(1) pos1] inet_deserialize_enc [OF tv(2) pos2] ints
    by (simp add: route_deserialize_def p2_def [symmetric] p3_def [symmetric] route_enc_def)
qed

section \<open>Values that hold a row of objects\<close>

lemma at_pos_end: "at_pos b p bs \<Longrightarrow> p \<ge> blen b \<longleftrightarrow> bs = []"
proof -
  assume "at_pos b p bs"
  from at_posD(2) [OF this] show ?thesis by (cases bs) (simp_all add: word_le_nat_alt bsize_def)
qed

context wire_object begin

text \<open>No object of a row is empty.\<close>

definition row :: "'a list \<Rightarrow> bool" where
  "row xs \<longleftrightarrow> (\<forall>x\<in>set xs. ok x \<and> enc x \<noteq> [])"

lemma row_step:
  assumes "row (x # xs)" and "at_pos b p (concat (map enc (x # xs)))"
  shows "\<not> p \<ge> blen b" "des b p = Inr (x, of_nat (length (enc x)))" "row xs"
    "at_pos b (p + of_nat (length (enc x))) (concat (map enc xs))"
proof -
  have x: "ok x" "enc x \<noteq> []" using assms(1) by (simp_all add: row_def)
  show "\<not> p \<ge> blen b" using at_pos_end [OF assms(2)] x(2) by simp
  have pos: "at_pos b p (enc x @ concat (map enc xs))" using assms(2) by simp
  show "des b p = Inr (x, of_nat (length (enc x)))" by (rule des_enc [OF x(1) pos])
  show "row xs" using assms(1) by (simp add: row_def)
  show "at_pos b (p + of_nat (length (enc x))) (concat (map enc xs))"
    by (rule at_pos_skip [OF pos]) (use enc_len [OF x(1)] in \<open>simp add: unat_of_nat_u32\<close>)
qed

lemma row_length: "row xs \<Longrightarrow> length xs \<le> length (concat (map enc xs))"
proof (induction xs)
  case (Cons x xs)
  then have "enc x \<noteq> []" "row xs" by (auto simp: row_def)
  then show ?case using Cons.IH by (cases "enc x") auto
qed simp

lemma des_array_row:
  "row xs \<Longrightarrow> at_pos b p (concat (map enc xs)) \<Longrightarrow> length xs \<le> room \<Longrightarrow> des_array des room b p = (xs, None)"
proof (induction xs arbitrary: p room)
  case Nil
  then show ?case using at_pos_end [of b p "[]"] by (simp add: des_array.simps)
next
  case (Cons x xs)
  obtain m where m: "room = Suc m" using Cons.prems(3) by (cases room) auto
  note st = row_step [OF Cons.prems(1,2)]
  show ?case using Cons.IH [OF st(3,4), of m] Cons.prems(3) st(1,2) m
    by (subst des_array.simps) simp
qed

lemma des_array_overflow:
  "row xs \<Longrightarrow> at_pos b p (concat (map enc xs)) \<Longrightarrow> room < length xs \<Longrightarrow>
    snd (des_array des room b p) = Some UndefinedBehaviour"
proof (induction xs arbitrary: p room)
  case (Cons x xs)
  note st = row_step [OF Cons.prems(1,2)]
  show ?case
  proof (cases room)
    case 0
    then show ?thesis using st(1,2) by (subst des_array.simps) simp
  next
    case (Suc m)
    then show ?thesis using Cons.IH [OF st(3,4), of m] Cons.prems(3) st(1,2)
      by (subst des_array.simps) (auto split: prod.split)
  qed
qed simp

lemma des_upto_row:
  "row xs \<Longrightarrow> at_pos b p (concat (map enc xs)) \<Longrightarrow> length xs \<le> room \<Longrightarrow> des_upto des room b p = Inr xs"
proof (induction xs arbitrary: p room)
  case Nil
  then show ?case using at_pos_end [of b p "[]"] by (cases room) simp_all
next
  case (Cons x xs)
  obtain m where m: "room = Suc m" using Cons.prems(3) by (cases room) auto
  note st = row_step [OF Cons.prems(1,2)]
  show ?case using Cons.IH [OF st(3,4), of m] Cons.prems(3) st(1,2) m by simp
qed

lemma des_all_row:
  "row xs \<Longrightarrow> at_pos b p (concat (map enc xs)) \<Longrightarrow> length xs \<le> fuel \<Longrightarrow> des_all des fuel b p = Inr xs"
proof (induction xs arbitrary: p fuel)
  case Nil
  then show ?case using at_pos_end [of b p "[]"] by (simp add: des_all.simps)
next
  case (Cons x xs)
  obtain m where m: "fuel = Suc m" using Cons.prems(3) by (cases fuel) auto
  note st = row_step [OF Cons.prems(1,2)]
  show ?case using Cons.IH [OF st(3,4), of m] Cons.prems(3) st(1,2) m
    by (subst des_all.simps) simp
qed

end

text \<open>The turns given to \<open>des_all\<close> are enough whenever each object moves the position on.\<close>

lemma des_all_enough:
  assumes adv: "\<And>p x l. p < blen b \<Longrightarrow> des b p = Inr (x, l) \<Longrightarrow> 0 < l \<and> unat p + unat l < 2 ^ 32"
  shows "bsize b \<le> unat p + fuel \<Longrightarrow> des_all des (fuel + k) b p = des_all des fuel b p"
proof (induction fuel arbitrary: p)
  case 0
  then have "p \<ge> blen b" by (simp add: word_le_nat_alt bsize_def)
  then show ?case by (simp add: des_all.simps)
next
  case (Suc f)
  show ?case
  proof (cases "p \<ge> blen b")
    case True
    then show ?thesis by (simp add: des_all.simps)
  next
    case False
    then have p: "p < blen b" by simp
    have "des_all des (f + k) b (p + l) = des_all des f b (p + l)" if "des b p = Inr (x, l)" for x l
    proof (rule Suc.IH)
      have "0 < unat l" using adv [OF p that] by (simp add: word_less_nat_alt)
      then show "bsize b \<le> unat (p + l) + f"
        using adv [OF p that] Suc.prems by (simp add: unat_word_ariths)
    qed
    then show ?thesis using False
      by (subst (1 2) des_all.simps) (auto simp: bind_res_def split: sum.split)
  qed
qed

lemma des_specialists_row:
  "at_pos b p (concat (map (be_bytes 8) ss)) \<Longrightarrow> des_specialists (length ss) b p = Inr ss"
proof (induction ss arbitrary: p)
  case (Cons s ss)
  have pos: "at_pos b p (be_bytes 8 s @ concat (map (be_bytes 8) ss))" using Cons.prems by simp
  have "at_pos b (p + 8) (concat (map (be_bytes 8) ss))" by (rule at_pos_skip [OF pos]) simp
  moreover have "buf_at 8 b p = Inr s" by (simp add: at_pos_reads [OF pos])
  ultimately show ?case using Cons.IH by simp
qed simp

section \<open>The content of a dictionary\<close>

text \<open>The text of a list of entries, and a dictionary whose text it is.\<close>

type_synonym entries = "(u8 list \<times> u8 list) list"

definition legal :: "u8 list \<Rightarrow> bool" where
  "legal key \<longleftrightarrow> clean key \<and> 61 \<notin> set key"

definition dict_lines :: "entries \<Rightarrow> u8 list" where
  "dict_lines es = foldl (\<lambda>s (k, v). s @ (if s = [] then [] else [10]) @ dict_line k v) [] es"

definition dict_holds :: "nat \<Rightarrow> u8 list \<Rightarrow> entries \<Rightarrow> bool" where
  "dict_holds C d es \<longleftrightarrow> length d = C \<and> (\<forall>(k, v)\<in>set es. legal k) \<and> (\<exists>junk. d = dict_lines es @ 0 # junk)"

lemma dict_lines_simps [simp]:
  "dict_lines [] = []"
  "dict_lines (es @ [(k, v)]) =
     dict_lines es @ (if dict_lines es = [] then [] else [10]) @ dict_line k v"
  by (simp_all add: dict_lines_def)

lemma dict_lines_length: "length (dict_lines es) \<le> length (dict_lines (es @ fs))"
proof (induction fs rule: rev_induct)
  case (snoc x fs)
  obtain k v where "x = (k, v)" by (cases x)
  then show ?case using snoc dict_lines_simps(2) [of "es @ fs" k v] by simp
qed simp

lemma dict_lines_ne: "es \<noteq> [] \<Longrightarrow> dict_lines es \<noteq> []"
  by (cases es rule: rev_cases) (auto simp: dict_line_def)

lemma length_escape: "length v \<le> length (concat (map escape_byte v))"
proof (induction v)
  case (Cons c v)
  have "1 \<le> length (escape_byte c)" by (simp add: escape_byte_def)
  then show ?case using Cons by simp
qed simp

lemma dict_lines_value:
  assumes "(k, v) \<in> set es" shows "length v < length (dict_lines es)"
proof -
  obtain xs ys where es: "es = (xs @ [(k, v)]) @ ys" using split_list [OF assms] by auto
  have "length v < length (dict_lines (xs @ [(k, v)]))"
    using length_escape [of v] by (simp add: dict_line_def)
  also have "\<dots> \<le> length (dict_lines es)" unfolding es by (rule dict_lines_length)
  finally show ?thesis .
qed

lemma dict_lines_zero: "\<forall>(k, v)\<in>set es. legal k \<Longrightarrow> 0 \<notin> set (dict_lines es)"
proof (induction es rule: rev_induct)
  case (snoc x es)
  obtain k v where x: "x = (k, v)" by (cases x)
  then have "0 \<notin> set (dict_line k v)"
    using snoc.prems escape_clean(1) [of v] by (auto simp: legal_def dict_line_def clean_def)
  then show ?case using snoc x by auto
qed simp

lemma dlookup_lines:
  assumes "\<forall>(k, v)\<in>set es. legal k"
  shows "dlookup (dict_lines es) key = map_of es key"
  using assms
proof (induction es rule: rev_induct)
  case Nil
  then show ?case by (simp add: dlookup_Nil)
next
  case (snoc x es)
  obtain k v where x: "x = (k, v)" by (cases x)
  then have l: "dlookup (dict_line k v) key = (if key = k then Some v else None)" "dict_line k v \<noteq> []"
    using snoc.prems dlookup_line [of k v key] by (auto simp: legal_def dict_line_def)
  have IH: "dlookup (dict_lines es) key = map_of es key" using snoc by auto
  show ?case
  proof (cases "es = []")
    case True
    then show ?thesis using l by (simp add: x dict_lines_def)
  next
    case False
    then show ?thesis
      using dlookup_append [OF l(2) dict_lines_ne [OF False], of key] l(1) IH dict_lines_ne [OF False]
      by (simp add: x map_add_def split: option.split)
  qed
qed

lemma holds_get:
  assumes "dict_holds C d es" and "clean key" and "0 < n"
  shows "dict_get d key n = dresult n (map_of es key)"
proof -
  obtain junk where d: "d = dict_lines es @ 0 # junk" and l: "\<forall>(k, v)\<in>set es. legal k"
    using assms(1) by (auto simp: dict_holds_def)
  show ?thesis
    using dict_scan_lookup [OF dict_lines_zero [OF l] assms(2,3)] assms(3) dlookup_lines [OF l]
    by (simp add: dict_get_def d)
qed

lemma holds_empty: "0 < C \<Longrightarrow> dict_holds C (dict_empty C) []"
  by (cases C) (simp_all add: dict_holds_def dict_empty_def)

text \<open>Adding an entry succeeds exactly when the text still fits with its terminator.\<close>

lemma holds_add:
  assumes h: "dict_holds C d es" and key: "legal k"
  shows "if length (dict_lines (es @ [(k, v)])) < C
     then snd (dict_add d k v) \<and> dict_holds C (fst (dict_add d k v)) (es @ [(k, v)])
     else \<not> snd (dict_add d k v)"
proof -
  obtain junk where d: "d = dict_lines es @ 0 # junk" and l: "\<forall>(k, v)\<in>set es. legal k"
    and C: "length d = C" using h by (auto simp: dict_holds_def)
  note t = dict_add_text [OF dict_lines_zero [OF l] d, of k v]
  have iff: "snd (dict_add d k v) \<longleftrightarrow> length (dict_lines (es @ [(k, v)])) < C"
    using t(1) C by simp
  show ?thesis
  proof (cases "snd (dict_add d k v)")
    case True
    then obtain junk' where "fst (dict_add d k v) = dict_lines (es @ [(k, v)]) @ 0 # junk'"
      using t(2) by auto
    then show ?thesis using True iff t(4) C l key by (auto simp: dict_holds_def)
  qed (use iff in simp)
qed

section \<open>What the writing steps add\<close>

text \<open>A step adds nothing, or one entry, or runs out of the temporary buffer.\<close>

definition adds :: "nat \<Rightarrow> dict_step \<Rightarrow> entries \<Rightarrow> bool" where
  "adds C f es \<longleftrightarrow>
     es = [] \<and> (\<forall>d. f d = Inr (d, True)) \<or>
     (\<exists>k v. es = [(k, v)] \<and> legal k \<and>
       (\<forall>d. f d = Inr (dict_add d k v) \<or> C < length v \<and> f d = Inl OutOfBounds))"

lemma run_steps_adds:
  assumes "list_all2 (adds C) fs ess" and "dict_holds C d es"
    and "length (dict_lines es) < C"
  shows "if length (dict_lines (es @ concat ess)) < C
     then \<exists>d'. run_steps fs d = Inr (d', True) \<and> dict_holds C d' (es @ concat ess)
     else run_steps fs d = Inl OutOfBounds \<or> (\<exists>d'. run_steps fs d = Inr (d', False))"
  using assms
proof (induction fs ess arbitrary: d es rule: list_all2_induct)
  case Nil
  then show ?case by simp
next
  case (Cons f fs x ess)
  from Cons(1) consider "x = []" "f d = Inr (d, True)"
    | k v where "x = [(k, v)]" "legal k" "f d = Inr (dict_add d k v)"
    | k v where "x = [(k, v)]" "C < length v" "f d = Inl OutOfBounds"
    by (auto simp: adds_def dest: spec [of _ d])
  then show ?case
  proof cases
    case 1
    then show ?thesis using Cons.IH [OF Cons.prems] by simp
  next
    case (2 k v)
    note h = holds_add [OF Cons.prems(1) 2(2), of v]
    show ?thesis
    proof (cases "length (dict_lines (es @ [(k, v)])) < C")
      case True
      obtain d' where d': "dict_add d k v = (d', True)" "dict_holds C d' (es @ [(k, v)])"
        using h True by (cases "dict_add d k v") auto
      show ?thesis using Cons.IH [OF d'(2) True] 2 d'(1) by (simp split: if_splits)
    next
      case False
      have "length (dict_lines (es @ [(k, v)])) \<le> length (dict_lines ((es @ [(k, v)]) @ concat ess))"
        by (rule dict_lines_length)
      then have "\<not> length (dict_lines (es @ concat (x # ess))) < C" using False 2 by simp
      moreover obtain d' where "dict_add d k v = (d', False)"
        using h False by (cases "dict_add d k v") auto
      ultimately show ?thesis using 2 by simp
    qed
  next
    case (3 k v)
    have "length v < length (dict_lines (es @ concat (x # ess)))"
      by (rule dict_lines_value [of k]) (simp add: 3)
    then show ?thesis using 3 by simp
  qed
qed

lemma hex64_cstr: "takeWhile (\<lambda>c. c \<noteq> 0) (hex64 i) = hex_nibbles 16 i"
  "takeWhile (\<lambda>c. c \<noteq> 0) (hex10 i) = hex_nibbles 10 i"
proof -
  have "c \<noteq> 0" if "c \<in> set (hex_nibbles n i)" for c n using set_hex_nibbles [OF that] by simp
  then show "takeWhile (\<lambda>c. c \<noteq> 0) (hex64 i) = hex_nibbles 16 i"
    "takeWhile (\<lambda>c. c \<noteq> 0) (hex10 i) = hex_nibbles 10 i"
    by (simp_all add: hex64_def hex10_def takeWhile_append2)
qed

lemma adds_put:
  "legal k \<Longrightarrow> adds C (put_u64 k i) [(k, hex_nibbles 16 i)]"
  "legal k \<Longrightarrow> 0 \<le> sint j \<Longrightarrow> adds C (put_i64 k j) [(k, hex_nibbles 16 j)]"
  "legal k \<Longrightarrow> adds C (put_bool k t) [(k, if t then [49] else [48])]"
  "legal k \<Longrightarrow> adds C (put_text k v) [(k, v)]"
  by (simp_all add: adds_def put_u64_def put_i64_def put_bool_def put_text_def dict_add_u64_def
      dict_add_i64_def dict_add_bool_def hex64_cstr)

lemma adds_if: "(c \<Longrightarrow> list_all2 (adds C) fs ess) \<Longrightarrow>
    list_all2 (adds C) (if c then fs else []) (if c then ess else [])"
  by simp

definition blob_entry :: "u8 list \<Rightarrow> u8 list \<Rightarrow> entries" where
  "blob_entry k v = (if v = [] then [] else [(k, v)])"

lemma fresh_buf:
  assumes a: "appends ser v" and C: "C < 2 ^ 31"
  shows "C < length v \<and> ser (buf_new (replicate C 0)) = Inl OutOfBounds \<or>
    (\<exists>tmp. ser (buf_new (replicate C 0)) = Inr tmp \<and> bdata tmp = v \<and> bsize tmp = length v)"
proof -
  let ?b = "buf_new (replicate C 0)"
  have s: "small ?b" using C by simp
  have sz: "bsize ?b = 0" "bcap ?b = C" by (simp_all add: bsize_def buf_new_def bcap_def)
  show ?thesis
  proof (cases "fits ?b v")
    case True
    then obtain tmp where t: "ser ?b = Inr tmp" "grown ?b v tmp" using appendsD(1) [OF a s] by blast
    have "bdata tmp = v" using t(2) by (simp add: grown_def)
    moreover have "bsize tmp = length v" using grown_bsize [OF s t(2)] sz by simp
    ultimately show ?thesis using t(1) by blast
  next
    case False
    then show ?thesis using appendsD(2) [OF a s False] sz by (simp add: fits_def)
  qed
qed

lemma adds_buf:
  assumes "appends ser v" and "C < 2 ^ 31" and "legal k"
  shows "adds C (put_buf C k ser) [(k, v)]"
  using fresh_buf [OF assms(1,2)] assms(3) by (auto simp: adds_def put_buf_def)

lemma adds_blob:
  assumes "appends ser v" and "C < 2 ^ 31" and "legal k"
  shows "adds C (put_blob C k ser) (blob_entry k v)"
  using fresh_buf [OF assms(1,2)] assms(3) by (auto simp: adds_def put_blob_def blob_entry_def)

section \<open>What the wire form keeps\<close>

text \<open>
  A rule as its bytes tell it: the member its type uses, an address cut to 40 bits, a cleared union
  as the member's zero; a PRIORITY rule has no member in its wire form. An unsigned certificate is
  sent without the signature field.
\<close>

definition member_zero :: "rclass \<Rightarrow> rval" where
  "member_zero cl = (case cl of
     CNone \<Rightarrow> VNone | CFwd \<Rightarrow> VFwd 0 0 0 | CZt \<Rightarrow> VZt 0 | CVlanId \<Rightarrow> VVlanId 0 | CVlanPcp \<Rightarrow> VVlanPcp 0
   | CVlanDei \<Rightarrow> VVlanDei 0 | CMac \<Rightarrow> VMac (replicate 6 0) | CIp4 \<Rightarrow> VIp4 (replicate 4 0) 0
   | CIp6 \<Rightarrow> VIp6 (replicate 16 0) 0 | CTos \<Rightarrow> VTos 0 0 0 | CProto \<Rightarrow> VProto 0 | CEther \<Rightarrow> VEther 0
   | CIcmp \<Rightarrow> VIcmp 0 0 0 | CPort \<Rightarrow> VPort 0 0 | CChar \<Rightarrow> VChar 0 | CFrame \<Rightarrow> VFrame 0 0 | CRand \<Rightarrow> VRand 0
   | CTag \<Rightarrow> VTag 0 0 | CInt \<Rightarrow> VInt 0 0 0 0)"

definition rule_sent :: "rule \<Rightarrow> rule" where
  "rule_sent r =
     (if rule_class (r_t r) = CNone then r\<lparr>r_v := VNone\<rparr>
      else case r_v r of
        VNone \<Rightarrow> r\<lparr>r_v := member_zero (rule_class (r_t r))\<rparr>
      | VZt a \<Rightarrow> r\<lparr>r_v := VZt (take_bit 40 a)\<rparr>
      | _ \<Rightarrow> r)"

definition cap_sent :: "capability \<Rightarrow> capability" where
  "cap_sent c = c\<lparr>cap_rules := map rule_sent (cap_rules c)\<rparr>"

definition com_sent :: "com \<Rightarrow> com" where
  "com_sent c =
     (if \<not> com_bool c then com_nil
      else if addr_bool (com_signedBy c) then c else c\<lparr>com_sig := com_sig com_nil\<rparr>)"

definition nc_sent :: "netconf \<Rightarrow> netconf" where
  "nc_sent nc = nc\<lparr>nc_com := com_sent (nc_com nc), nc_capabilities := map cap_sent (nc_capabilities nc),
     nc_rules := map rule_sent (nc_rules nc)\<rparr>"

lemma as_member_zero:
  "as_fwd (member_zero CFwd) = as_fwd VNone" "as_zt (member_zero CZt) = as_zt VNone"
  "as_vlanid (member_zero CVlanId) = as_vlanid VNone" "as_vlanpcp (member_zero CVlanPcp) = as_vlanpcp VNone"
  "as_vlandei (member_zero CVlanDei) = as_vlandei VNone" "as_mac (member_zero CMac) = as_mac VNone"
  "as_ip4 (member_zero CIp4) = as_ip4 VNone" "as_ip6 (member_zero CIp6) = as_ip6 VNone"
  "as_tos (member_zero CTos) = as_tos VNone" "as_proto (member_zero CProto) = as_proto VNone"
  "as_ether (member_zero CEther) = as_ether VNone" "as_icmp (member_zero CIcmp) = as_icmp VNone"
  "as_port (member_zero CPort) = as_port VNone" "as_char (member_zero CChar) = as_char VNone"
  "as_frame (member_zero CFrame) = as_frame VNone" "as_rand (member_zero CRand) = as_rand VNone"
  "as_tag (member_zero CTag) = as_tag VNone" "as_int (member_zero CInt) = as_int VNone"
  by (simp_all add: as_defs member_zero_def)

lemma addr_of_low [simp]: "addr_of (take_bit 40 a) = addr_of a"
  by (simp add: addr_of_def mask40)

lemma rule_ser_sent: "rule_ser (rule_sent r) = rule_ser r"
proof -
  have t: "r_t (rule_sent r) = r_t r" by (simp add: rule_sent_def split: rval.split)
  have "rule_ser_field (rule_sent r) = rule_ser_field r"
    by (cases "r_v r"; cases "rule_class (r_t r)")
      (simp_all add: rule_ser_field_def t as_member_zero rule_sent_def as_zt_def as_defs member_zero_def fun_eq_iff)
  then show ?thesis by (simp add: rule_ser_def [abs_def] t)
qed

lemma ser_list_map: "(\<And>x. ser (f x) = ser x) \<Longrightarrow> ser_list ser (map f xs) = ser_list ser xs"
  by (rule ext, induction xs) (auto simp: bind_res_def fun_eq_iff split: sum.split)

lemma serializeRules_sent: "serializeRules (map rule_sent rs) = serializeRules rs"
  by (simp add: serializeRules_def ser_list_map rule_ser_sent)

lemma cap_serialize_sent: "cap_serialize forSign (cap_sent c) = cap_serialize forSign c"
  by (simp add: cap_serialize_def cap_sent_def cap_chain_def serializeRules_sent)

lemma com_bool_sent [simp]: "com_bool (com_sent c) = com_bool c"
  by (simp add: com_sent_def com_bool_def com_nil_def)

lemma com_serialize_sent: "com_bool c \<Longrightarrow> com_serialize (com_sent c) = com_serialize c"
  by (simp add: com_sent_def com_serialize_def)

lemma nc_blob_steps_sent: "nc_blob_steps C (nc_sent nc) = nc_blob_steps C nc"
  by (simp add: nc_blob_steps_def nc_sent_def com_serialize_sent serializeRules_sent ser_list_map cap_serialize_sent)

text \<open>What well-formed objects are sent as is what they are.\<close>

lemma rule_sent_ok: "rule_ok r \<Longrightarrow> rule_sent r = r"
  by (cases r; cases "r_v r") (auto simp: rule_ok_def rule_sent_def)

lemma rules_sent_ok: "list_all rule_ok rs \<Longrightarrow> map rule_sent rs = rs"
  by (induction rs) (simp_all add: rule_sent_ok)

lemma cap_sent_ok: "cap_ok c \<Longrightarrow> cap_sent c = c"
  by (simp add: cap_sent_def cap_ok_def rules_sent_ok)

section \<open>The entries of a configuration\<close>

text \<open>
  The abstract content: what the dictionary of a configuration says, key by key. Integers are 16
  hex digits, addresses 10, and a value of objects is the row of their encodings.
\<close>

definition nc_sso_entries :: "netconf \<Rightarrow> entries" where
  "nc_sso_entries nc =
     (if nc_ssoVersion nc = 0 then
        [(K_SSO_VERSION, hex_nibbles 16 (nc_ssoVersion nc)), (K_SSO_ENABLED, if nc_ssoEnabled nc then [49] else [48])] @
        (if nc_ssoEnabled nc then
           (if nc_authenticationURL nc \<noteq> [] then [(K_AUTH_URL, nc_authenticationURL nc)] else []) @
           [(K_AUTH_EXPIRY, hex_nibbles 16 (nc_authenticationExpiryTime nc))]
         else [])
      else if nc_ssoVersion nc = 1 then
        [(K_SSO_VERSION, hex_nibbles 16 (nc_ssoVersion nc)), (K_SSO_ENABLED, if nc_ssoEnabled nc then [49] else [48]),
         (K_ISSUER_URL, nc_issuerURL nc), (K_CENTRAL_URL, nc_centralAuthURL nc),
         (K_NONCE, nc_ssoNonce nc), (K_STATE, nc_ssoState nc),
         (K_CLIENT_ID, nc_ssoClientID nc), (K_PROVIDER, nc_ssoProvider nc)]
      else [])"

definition nc_scalar_entries :: "netconf \<Rightarrow> entries" where
  "nc_scalar_entries nc =
     [(K_VERSION, hex_nibbles 16 (7 :: u64)), (K_NETWORK_ID, hex_nibbles 16 (nc_networkId nc)),
      (K_TIMESTAMP, hex_nibbles 16 (nc_timestamp nc)), (K_MAX_DELTA, hex_nibbles 16 (nc_credentialTimeMaxDelta nc)),
      (K_REVISION, hex_nibbles 16 (nc_revision nc)), (K_ISSUED_TO, hex_nibbles 10 (addr_int (nc_issuedTo nc))),
      (K_TRACE_TARGET, hex_nibbles 10 (addr_int (nc_remoteTraceTarget nc))),
      (K_TRACE_LEVEL, hex_nibbles 16 (ucast (nc_remoteTraceLevel nc) :: u64)),
      (K_FLAGS, hex_nibbles 16 (nc_flags nc)),
      (K_MULTICAST_LIMIT, hex_nibbles 16 (ucast (nc_multicastLimit nc) :: u64)),
      (K_TYPE, hex_nibbles 16 (ucast (nc_type nc) :: u64)), (K_NAME, nc_name nc),
      (K_MTU, hex_nibbles 16 (ucast (nc_mtu nc) :: u64))]"

definition nc_blob_entries :: "netconf \<Rightarrow> entries" where
  "nc_blob_entries nc =
     (if com_bool (nc_com nc) then [(K_COM, com_enc (nc_com nc))] else []) @
     blob_entry K_CAPABILITIES (concat (map (cap_enc False) (nc_capabilities nc))) @
     blob_entry K_TAGS (concat (map (tag_enc False) (nc_tags nc))) @
     blob_entry K_COOS (concat (map (coo_enc False) (nc_coos nc))) @
     blob_entry K_SPECIALISTS (concat (map (be_bytes 8) (nc_specialists nc))) @
     blob_entry K_ROUTES (concat (map route_enc (nc_routes nc))) @
     blob_entry K_STATIC_IPS (concat (map inet_enc (nc_staticIps nc))) @
     blob_entry K_RULES (concat (map rule_enc (nc_rules nc))) @
     blob_entry K_DNS (dns_enc (nc_dns nc))"

definition nc_entries :: "netconf \<Rightarrow> entries" where
  "nc_entries nc = nc_scalar_entries nc @ nc_blob_entries (nc_sent nc) @ nc_sso_entries nc"

text \<open>
  The objects the reader can decode: in the sent form they are well formed, and the two time
  stamps are not negative.
\<close>

definition nc_parts_ok :: "netconf \<Rightarrow> bool" where
  "nc_parts_ok nc \<longleftrightarrow>
     (com_bool (nc_com nc) \<longrightarrow> com_ok (nc_com nc)) \<and> list_all cap_ok (nc_capabilities nc) \<and>
     list_all tag_ok (nc_tags nc) \<and> list_all coo_ok (nc_coos nc) \<and> list_all route_ok (nc_routes nc) \<and>
     list_all inet_ip_port (nc_staticIps nc) \<and> list_all rule_ok (nc_rules nc) \<and> dns_ok (nc_dns nc) \<and>
     0 \<le> sint (nc_timestamp nc) \<and> 0 \<le> sint (nc_credentialTimeMaxDelta nc)"

definition c_str_ok :: "nat \<Rightarrow> u8 list \<Rightarrow> bool" where
  "c_str_ok n s \<longleftrightarrow> length s < n \<and> 0 \<notin> set s"

text \<open>The texts of the character arrays.\<close>

definition nc_texts :: "netconf \<Rightarrow> bool" where
  "nc_texts nc \<longleftrightarrow> c_str_ok 128 (nc_name nc) \<and> c_str_ok 2048 (nc_authenticationURL nc) \<and>
     c_str_ok 2048 (nc_issuerURL nc) \<and> c_str_ok 2048 (nc_centralAuthURL nc) \<and> c_str_ok 128 (nc_ssoNonce nc) \<and>
     c_str_ok 256 (nc_ssoState nc) \<and> c_str_ok 256 (nc_ssoClientID nc) \<and> c_str_ok 64 (nc_ssoProvider nc)"

text \<open>
  The configurations the reader accepts: a network and a holder, decodable objects within the
  limits of the arrays, texts that fit theirs. Of capabilities and of tags there is one per id:
  the order in which \<open>std::sort\<close> leaves equal ones is not specified.
\<close>

definition nc_ok :: "netconf \<Rightarrow> bool" where
  "nc_ok nc \<longleftrightarrow> nc_parts_ok (nc_sent nc) \<and> nc_texts nc \<and>
     nc_networkId nc \<noteq> 0 \<and> addr_bool (nc_issuedTo nc) \<and> addr_ok (nc_issuedTo nc) \<and>
     addr_ok (nc_remoteTraceTarget nc) \<and> unat (nc_authenticationExpiryTime nc) < 2 ^ 63 \<and>
     distinct (map cap_id (nc_capabilities nc)) \<and> length (nc_capabilities nc) \<le> 128 \<and>
     distinct (map tag_id (nc_tags nc)) \<and> length (nc_tags nc) \<le> 128 \<and>
     length (nc_coos nc) \<le> 4 \<and> length (nc_specialists nc) \<le> 512 \<and> length (nc_routes nc) \<le> 128 \<and>
     length (nc_staticIps nc) \<le> 32 \<and> length (nc_rules nc) \<le> 1024"

text \<open>
  What the reader makes of it: capabilities and tags in the order of their ids, the MTU within its
  limits, and of single sign-on what the version in use sends when it is enabled: for version 0 the
  URL and the expiry, for version 1 the other texts but neither URL nor expiry, for any other
  version nothing. What is not sent is as the reader starts or clears it.
\<close>

definition nc_received :: "netconf \<Rightarrow> netconf" where
  "nc_received nc =
     (let v0 = nc_ssoVersion nc = 0; v1 = nc_ssoVersion nc = 1; on = nc_ssoEnabled nc in
      (nc_sent nc)\<lparr>nc_capabilities := sort_key cap_id (map cap_sent (nc_capabilities nc)),
        nc_tags := sort_key tag_id (nc_tags nc), nc_mtu := clamp_mtu (nc_mtu nc),
        nc_ssoVersion := (if v1 then 1 else 0), nc_ssoEnabled := ((v0 \<or> v1) \<and> on),
        nc_authenticationURL := (if v0 \<and> on then nc_authenticationURL nc else []),
        nc_authenticationExpiryTime := (if v0 \<and> on then nc_authenticationExpiryTime nc else 0),
        nc_issuerURL := (if v1 \<and> on then nc_issuerURL nc else []),
        nc_centralAuthURL := (if v1 \<and> on then nc_centralAuthURL nc else []),
        nc_ssoNonce := (if v1 \<and> on then nc_ssoNonce nc else []),
        nc_ssoState := (if v1 \<and> on then nc_ssoState nc else []),
        nc_ssoClientID := (if v1 \<and> on then nc_ssoClientID nc else []),
        nc_ssoProvider := (if \<not> v1 then PROVIDER_DEFAULT else if \<not> on then []
          else if nc_ssoProvider nc = [] then PROVIDER_DEFAULT else nc_ssoProvider nc)\<rparr>)"

text \<open>The configurations of which the text says everything, in the reader's order.\<close>

definition nc_plain :: "netconf \<Rightarrow> bool" where
  "nc_plain nc \<longleftrightarrow>
     list_all rule_ok (nc_rules nc) \<and> list_all cap_ok (nc_capabilities nc) \<and>
     sorted (map cap_id (nc_capabilities nc)) \<and> sorted (map tag_id (nc_tags nc)) \<and>
     1280 \<le> nc_mtu nc \<and> nc_mtu nc \<le> 10000 \<and> (com_bool (nc_com nc) \<or> nc_com nc = com_nil) \<and>
     (addr_bool (com_signedBy (nc_com nc)) \<or> com_sig (nc_com nc) = com_sig com_nil) \<and>
     (if nc_ssoVersion nc = 0 \<and> nc_ssoEnabled nc then True
      else nc_authenticationURL nc = [] \<and> nc_authenticationExpiryTime nc = 0) \<and>
     (if nc_ssoVersion nc = 1 \<and> nc_ssoEnabled nc then nc_ssoProvider nc \<noteq> []
      else nc_issuerURL nc = [] \<and> nc_centralAuthURL nc = [] \<and> nc_ssoNonce nc = [] \<and> nc_ssoState nc = [] \<and>
        nc_ssoClientID nc = [] \<and> nc_ssoProvider nc = (if nc_ssoVersion nc = 1 then [] else PROVIDER_DEFAULT)) \<and>
     (nc_ssoVersion nc = 0 \<or> nc_ssoVersion nc = 1)"

lemma com_sent_plain:
  "com_bool c \<or> c = com_nil \<Longrightarrow> addr_bool (com_signedBy c) \<or> com_sig c = com_sig com_nil \<Longrightarrow> com_sent c = c"
  by (cases c) (auto simp: com_sent_def)

lemma caps_sent_ok: "list_all cap_ok cs \<Longrightarrow> map cap_sent cs = cs"
  by (induction cs) (simp_all add: cap_sent_ok)

lemma nc_received_plain: "nc_plain nc \<Longrightarrow> nc_received nc = nc"
  unfolding nc_plain_def
  by (cases nc) (auto simp: nc_received_def nc_sent_def Let_def com_sent_plain caps_sent_ok rules_sent_ok
      sort_key_id_if_sorted clamp_mtu_def dest: leD split: if_splits)

lemma nc_sent_simps:
  "nc_com (nc_sent nc) = com_sent (nc_com nc)" "nc_capabilities (nc_sent nc) = map cap_sent (nc_capabilities nc)"
  "nc_rules (nc_sent nc) = map rule_sent (nc_rules nc)" "nc_tags (nc_sent nc) = nc_tags nc" "nc_coos (nc_sent nc) = nc_coos nc"
  "nc_specialists (nc_sent nc) = nc_specialists nc" "nc_routes (nc_sent nc) = nc_routes nc"
  "nc_staticIps (nc_sent nc) = nc_staticIps nc" "nc_dns (nc_sent nc) = nc_dns nc"
  "nc_timestamp (nc_sent nc) = nc_timestamp nc" "nc_credentialTimeMaxDelta (nc_sent nc) = nc_credentialTimeMaxDelta nc"
  by (simp_all add: nc_sent_def)

lemma legal_keys [simp]:
  "legal K_VERSION" "legal K_NETWORK_ID" "legal K_TIMESTAMP" "legal K_REVISION" "legal K_ISSUED_TO"
  "legal K_TRACE_TARGET" "legal K_TRACE_LEVEL" "legal K_FLAGS" "legal K_MULTICAST_LIMIT" "legal K_TYPE"
  "legal K_NAME" "legal K_MTU" "legal K_MAX_DELTA" "legal K_COM" "legal K_SPECIALISTS" "legal K_ROUTES"
  "legal K_STATIC_IPS" "legal K_RULES" "legal K_CAPABILITIES" "legal K_TAGS" "legal K_COOS" "legal K_DNS"
  "legal K_SSO_ENABLED" "legal K_SSO_VERSION" "legal K_AUTH_URL" "legal K_AUTH_EXPIRY" "legal K_ISSUER_URL"
  "legal K_CENTRAL_URL" "legal K_NONCE" "legal K_STATE" "legal K_CLIENT_ID" "legal K_PROVIDER"
  by (simp_all add: legal_def key_defs is_eol_def)

lemma c_string_addr: "c_string (addr_toString a) = hex_nibbles 10 (addr_int a)"
  by (simp add: c_string_def addr_toString_def hex64_cstr)

lemma appends_specialists: "appends (ser_list (buf_append_int 8) ss) (concat (map (be_bytes 8) ss))"
proof (induction ss)
  case Nil
  have "ser_list (buf_append_int 8) [] = Inr" by (rule ext) simp
  then show ?case using appends_nil by simp
next
  case (Cons s ss)
  have "ser_list (buf_append_int 8) (s # ss) = (\<lambda>b. bind_res (buf_append_int 8 s b) (ser_list (buf_append_int 8) ss))"
    by (rule ext) simp
  then show ?case using appends_seq [OF appends_int Cons.IH] by simp
qed

lemma nc_steps_add:
  assumes ok: "nc_parts_ok (nc_sent nc)" and C: "C < 2 ^ 31"
  shows "\<exists>ess. list_all2 (adds C) (nc_scalar_steps nc @ nc_blob_steps C nc @ nc_sso_steps nc) ess \<and>
    concat ess = nc_entries nc"
proof -
  have sc: "list_all2 (adds C) (nc_scalar_steps nc) (map (\<lambda>e. [e]) (nc_scalar_entries nc))"
    using ok by (simp add: nc_scalar_steps_def nc_scalar_entries_def nc_parts_ok_def nc_sent_simps adds_put c_string_addr)
  have so: "list_all2 (adds C) (nc_sso_steps nc) (map (\<lambda>e. [e]) (nc_sso_entries nc))"
    by (simp add: nc_sso_steps_def nc_sso_entries_def adds_put)
  let ?s = "nc_sent nc"
  let ?bl = "(if com_bool (nc_com ?s) then [[(K_COM, com_enc (nc_com ?s))]] else []) @
    [blob_entry K_CAPABILITIES (concat (map (cap_enc False) (nc_capabilities ?s))),
     blob_entry K_TAGS (concat (map (tag_enc False) (nc_tags ?s))),
     blob_entry K_COOS (concat (map (coo_enc False) (nc_coos ?s))),
     blob_entry K_SPECIALISTS (concat (map (be_bytes 8) (nc_specialists ?s))),
     blob_entry K_ROUTES (concat (map route_enc (nc_routes ?s))),
     blob_entry K_STATIC_IPS (concat (map inet_enc (nc_staticIps ?s)))] @
    (if nc_rules ?s \<noteq> [] then [blob_entry K_RULES (concat (map rule_enc (nc_rules ?s)))] else []) @
    [blob_entry K_DNS (dns_enc (nc_dns ?s))]"
  have P: "\<forall>x\<in>set (nc_capabilities ?s). cap_ok x" "\<forall>x\<in>set (nc_tags ?s). tag_ok x"
    "\<forall>x\<in>set (nc_coos ?s). coo_ok x" "\<forall>x\<in>set (nc_routes ?s). route_ok x"
    "\<forall>x\<in>set (nc_staticIps ?s). inet_ip_port x" "\<forall>x\<in>set (nc_rules ?s). rule_ok x" "dns_ok (nc_dns ?s)"
    using ok by (simp_all add: nc_parts_ok_def list_all_iff)
  have "list_all2 (adds C) (nc_blob_steps C ?s) ?bl"
    unfolding nc_blob_steps_def
    by (intro list_all2_appendI adds_if list_all2_Cons [THEN iffD2] conjI adds_blob adds_buf
        cap_wire.list_appends [OF P(1)] tag_wire.list_appends [OF P(2)] coo_wire.list_appends [OF P(3)]
        route_wire.list_appends [OF P(4)] inet_wire.list_appends [OF P(5)] appends_specialists appends_dns
        rule_wire.list_appends [OF P(6), folded serializeRules_def] P C legal_keys list_all2_Nil [THEN iffD2] refl)
      (use ok in \<open>simp add: nc_parts_ok_def appends_com\<close>)
  then have "list_all2 (adds C) (nc_blob_steps C nc) ?bl" by (simp only: nc_blob_steps_sent)
  from list_all2_appendI [OF sc list_all2_appendI [OF this so]] show ?thesis
    by (intro exI [of _ "map (\<lambda>e. [e]) (nc_scalar_entries nc) @ ?bl @ map (\<lambda>e. [e]) (nc_sso_entries nc)"])
      (auto simp: nc_entries_def nc_blob_entries_def blob_entry_def concat_map_singleton)
qed

text \<open>
  Writing succeeds exactly when the text of the entries and its terminator fit; it then holds them.
\<close>

lemma nc_toDictionary_exact:
  assumes "nc_parts_ok (nc_sent nc)" and "0 < C" and "C < 2 ^ 31"
  shows "if length (dict_lines (nc_entries nc)) < C
     then \<exists>d. nc_toDictionary C nc = Inr (d, True) \<and> dict_holds C d (nc_entries nc)
     else nc_toDictionary C nc = Inl OutOfBounds \<or> (\<exists>d. nc_toDictionary C nc = Inr (d, False))"
proof -
  obtain ess where e: "list_all2 (adds C) (nc_scalar_steps nc @ nc_blob_steps C nc @ nc_sso_steps nc) ess"
    "concat ess = nc_entries nc" using nc_steps_add [OF assms(1,3)] by blast
  show ?thesis
    using run_steps_adds [OF e(1) holds_empty [OF assms(2)]] assms(2) e(2)
    by (simp add: nc_toDictionary_def split: if_splits)
qed

section \<open>Reading entries\<close>

lemma holds_getUI:
  assumes h: "dict_holds C d es" and key: "clean key" and m: "map_of es key = Some (hex_nibbles n i)"
    and n: "0 < n" "n \<le> 16" "unat i < 16 ^ n"
  shows "dict_getUI d key dfl = i"
    and "unat i < 2 ^ 63 \<Longrightarrow> dict_getI d key dfl = i"
proof -
  have "dict_get d key 128 = (int n, hex_nibbles n i @ [0])"
    using holds_get [OF h key, of 128] m n by (simp add: dresult_def)
  then show "dict_getUI d key dfl = i" "unat i < 2 ^ 63 \<Longrightarrow> dict_getI d key dfl = i"
    using hexStr_nibbles [OF n(1,3)] n(1) by (simp_all add: dict_getUI_def dict_getI_def)
qed

lemma holds_getUI16:
  assumes "dict_holds C d es" "clean key" "map_of es key = Some (hex_nibbles 16 i)"
  shows "dict_getUI d key dfl = i"
  using holds_getUI(1) [OF assms] unsigned_less [of i] by simp

lemma holds_getUI_none:
  "dict_holds C d es \<Longrightarrow> clean key \<Longrightarrow> map_of es key = None \<Longrightarrow> dict_getUI d key dfl = dfl"
  using holds_get [of C d es key 128] by (simp add: dresult_def dict_getUI_def)

lemma holds_getB:
  "dict_holds C d es \<Longrightarrow> clean key \<Longrightarrow> map_of es key = Some (if v then [49] else [48]) \<Longrightarrow> dict_getB d key dfl = v"
  using holds_get [of C d es key 4] by (auto simp: dresult_def dict_getB_def)

lemma holds_getB_none:
  "dict_holds C d es \<Longrightarrow> clean key \<Longrightarrow> map_of es key = None \<Longrightarrow> dict_getB d key dfl = dfl"
  using holds_get [of C d es key 4] by (simp add: dresult_def dict_getB_def)

lemma holds_text:
  assumes h: "dict_holds C d es" "clean key" and n: "0 < n"
  shows "map_of es key = Some v \<Longrightarrow> c_str_ok n v \<Longrightarrow> dict_text d key n = v"
    and "map_of es key = Some v \<Longrightarrow> c_str_ok n v \<Longrightarrow> fst (dict_get d key n) = int (length v)"
    and "map_of es key = None \<Longrightarrow> dict_text d key n = []"
proof -
  note g = holds_get [OF h n]
  show "map_of es key = Some v \<Longrightarrow> c_str_ok n v \<Longrightarrow> fst (dict_get d key n) = int (length v)"
    using g by (auto simp: dresult_def c_str_ok_def min_def)
  show "map_of es key = None \<Longrightarrow> dict_text d key n = []"
    using g by (simp add: dict_text_def c_string_def dresult_def)
  assume v: "map_of es key = Some v" "c_str_ok n v"
  then have "takeWhile (\<lambda>c. c \<noteq> 0) (v @ [0]) = v"
    by (subst takeWhile_append2) (auto simp: c_str_ok_def)
  then show "dict_text d key n = v"
    using g v by (auto simp: dict_text_def c_string_def dresult_def c_str_ok_def)
qed

lemma holds_value_length:
  assumes "dict_holds C d es" "map_of es key = Some v"
  shows "length v < C"
  using dict_lines_value [OF map_of_SomeD [OF assms(2)]] assms(1) by (auto simp: dict_holds_def)

lemma holds_get_buf:
  assumes h: "dict_holds C d es" "clean key" and C: "0 < C" "C < 2 ^ 31" and b: "small b" "bcap b = C"
  shows "\<exists>b'. dict_get_buf d key b = Inr (map_of es key \<noteq> None, b') \<and> small b' \<and> bcap b' = C \<and>
    (\<forall>v. map_of es key = Some v \<longrightarrow> at_pos b' 0 v)"
proof (cases "map_of es key")
  case None
  then have g: "dict_get d key C = (- 1, [0])" using holds_get [OF h C(1)] by (simp add: dresult_def)
  let ?b = "buf_clear (b\<lparr>bmem := mem_write (bmem b) 0 [0]\<rparr>)"
  have "length (bmem ?b) = C" using b C by (simp add: buf_clear_def bcap_def)
  then have "small ?b" "bcap ?b = C"
    using C by (simp_all add: small_def buf_ok_def bcap_def bsize_def buf_clear_def)
  then show ?thesis using None g b by (auto simp: dict_get_buf_def)
next
  case (Some v)
  have lv: "length v < C" by (rule holds_value_length [OF h(1) Some])
  then have g: "dict_get d key C = (int (length v), v @ [0])"
    using holds_get [OF h C(1)] Some by (simp add: dresult_def)
  let ?m = "mem_write (bmem b) 0 (v @ [0])"
  let ?b = "b\<lparr>bmem := ?m, blen := of_nat (length v)\<rparr>"
  have lm: "length (bmem b) = C" using b(2) by (simp add: bcap_def)
  have m: "length ?m = C" "take (length v) ?m = v"
    using lm lv by (simp_all add: mem_write_def)
  have u: "unat (of_nat (length v) :: u32) = length v" using lv C by (simp add: unat_of_nat_u32)
  have s: "small ?b" "bcap ?b = C" "bsize ?b = length v"
    using m u lv C by (simp_all add: small_def buf_ok_def bcap_def bsize_def)
  have "\<not> of_nat (length v) > bcap32 (b\<lparr>bmem := ?m\<rparr>)"
    using m lv C by (simp add: bcap32_def bcap_def word_less_nat_alt unat_of_nat_u32)
  then have "dict_get_buf d key b = Inr (True, ?b)"
    using g b(2) by (simp add: dict_get_buf_def buf_setSize_def Let_def)
  moreover have "at_pos ?b 0 v" using s m(2) by (simp add: at_pos_def bdata_def)
  ultimately show ?thesis using s Some by auto
qed

text \<open>Decoding the value of a key that may be absent.\<close>

lemma with_buf_holds:
  assumes h: "dict_holds C d es" "clean key" and C: "0 < C" "C < 2 ^ 31" and b: "small b" "bcap b = C"
    and f: "\<And>v b'. map_of es key = Some v \<Longrightarrow> at_pos b' 0 v \<Longrightarrow> f b' = Inr x"
    and n: "map_of es key = None \<Longrightarrow> dfl = x"
  obtains b' where "with_buf d key b dfl f = Inr (x, b')" "small b'" "bcap b' = C"
proof -
  obtain b' where g: "dict_get_buf d key b = Inr (map_of es key \<noteq> None, b')" "small b'" "bcap b' = C"
    "\<And>v. map_of es key = Some v \<Longrightarrow> at_pos b' 0 v"
    using holds_get_buf [OF h C b] by blast
  have "with_buf d key b dfl f = Inr (x, b')"
  proof (cases "map_of es key")
    case None
    then show ?thesis using g(1) n by (simp add: with_buf_def)
  next
    case (Some v)
    then show ?thesis using g(1) f [OF Some g(4) [OF Some]] by (simp add: with_buf_def)
  qed
  then show thesis using that g(2,3) by blast
qed

section \<open>Looking the entries up\<close>

lemma map_of_simps:
  "map_of (xs @ ys) k = (case map_of xs k of Some v \<Rightarrow> Some v | None \<Rightarrow> map_of ys k)"
  "map_of (if c then xs else ys) k = (if c then map_of xs k else map_of ys k)"
  "map_of (blob_entry k' v) k = (if k = k' \<and> v \<noteq> [] then Some v else None)"
  by (simp_all add: map_add_def blob_entry_def split: option.split)

lemmas entries_defs = nc_entries_def nc_scalar_entries_def nc_blob_entries_def nc_sso_entries_def

lemma nc_scalar_lookup:
  "map_of (nc_entries nc) K_VERSION = Some (hex_nibbles 16 (7 :: u64))"
  "map_of (nc_entries nc) K_NETWORK_ID = Some (hex_nibbles 16 (nc_networkId nc))"
  "map_of (nc_entries nc) K_TIMESTAMP = Some (hex_nibbles 16 (nc_timestamp nc))"
  "map_of (nc_entries nc) K_MAX_DELTA = Some (hex_nibbles 16 (nc_credentialTimeMaxDelta nc))"
  "map_of (nc_entries nc) K_REVISION = Some (hex_nibbles 16 (nc_revision nc))"
  "map_of (nc_entries nc) K_ISSUED_TO = Some (hex_nibbles 10 (addr_int (nc_issuedTo nc)))"
  "map_of (nc_entries nc) K_TRACE_TARGET = Some (hex_nibbles 10 (addr_int (nc_remoteTraceTarget nc)))"
  "map_of (nc_entries nc) K_TRACE_LEVEL = Some (hex_nibbles 16 (ucast (nc_remoteTraceLevel nc) :: u64))"
  "map_of (nc_entries nc) K_FLAGS = Some (hex_nibbles 16 (nc_flags nc))"
  "map_of (nc_entries nc) K_MULTICAST_LIMIT = Some (hex_nibbles 16 (ucast (nc_multicastLimit nc) :: u64))"
  "map_of (nc_entries nc) K_TYPE = Some (hex_nibbles 16 (ucast (nc_type nc) :: u64))"
  "map_of (nc_entries nc) K_NAME = Some (nc_name nc)"
  "map_of (nc_entries nc) K_MTU = Some (hex_nibbles 16 (ucast (nc_mtu nc) :: u64))"
  by (simp_all add: nc_entries_def nc_scalar_entries_def key_defs)

lemma nc_blob_lookup:
  "map_of (nc_entries nc) K_COM = (if com_bool (nc_com (nc_sent nc)) then Some (com_enc (nc_com (nc_sent nc))) else None)"
  "map_of (nc_entries nc) K_CAPABILITIES = map_of (blob_entry K_CAPABILITIES (concat (map (cap_enc False) (nc_capabilities (nc_sent nc))))) K_CAPABILITIES"
  "map_of (nc_entries nc) K_TAGS = map_of (blob_entry K_TAGS (concat (map (tag_enc False) (nc_tags (nc_sent nc))))) K_TAGS"
  "map_of (nc_entries nc) K_COOS = map_of (blob_entry K_COOS (concat (map (coo_enc False) (nc_coos (nc_sent nc))))) K_COOS"
  "map_of (nc_entries nc) K_SPECIALISTS = map_of (blob_entry K_SPECIALISTS (concat (map (be_bytes 8) (nc_specialists (nc_sent nc))))) K_SPECIALISTS"
  "map_of (nc_entries nc) K_ROUTES = map_of (blob_entry K_ROUTES (concat (map route_enc (nc_routes (nc_sent nc))))) K_ROUTES"
  "map_of (nc_entries nc) K_STATIC_IPS = map_of (blob_entry K_STATIC_IPS (concat (map inet_enc (nc_staticIps (nc_sent nc))))) K_STATIC_IPS"
  "map_of (nc_entries nc) K_RULES = map_of (blob_entry K_RULES (concat (map rule_enc (nc_rules (nc_sent nc))))) K_RULES"
  "map_of (nc_entries nc) K_DNS = map_of (blob_entry K_DNS (dns_enc (nc_dns (nc_sent nc)))) K_DNS"
  by (simp_all add: entries_defs map_of_simps key_defs del: map_of_append split: option.split)

lemma nc_sso_lookup:
  assumes "nc_ssoVersion nc = 0 \<or> nc_ssoVersion nc = 1"
  shows "map_of (nc_entries nc) K_SSO_VERSION = Some (hex_nibbles 16 (nc_ssoVersion nc))"
  "map_of (nc_entries nc) K_SSO_ENABLED = Some (if nc_ssoEnabled nc then [49] else [48])"
  "map_of (nc_entries nc) K_AUTH_URL =
    (if nc_ssoVersion nc = 0 \<and> nc_ssoEnabled nc \<and> nc_authenticationURL nc \<noteq> [] then Some (nc_authenticationURL nc) else None)"
  "nc_ssoVersion nc = 0 \<Longrightarrow> nc_ssoEnabled nc \<Longrightarrow>
    map_of (nc_entries nc) K_AUTH_EXPIRY = Some (hex_nibbles 16 (nc_authenticationExpiryTime nc))"
  "nc_ssoVersion nc = 1 \<Longrightarrow> map_of (nc_entries nc) K_ISSUER_URL = Some (nc_issuerURL nc)"
  "nc_ssoVersion nc = 1 \<Longrightarrow> map_of (nc_entries nc) K_CENTRAL_URL = Some (nc_centralAuthURL nc)"
  "nc_ssoVersion nc = 1 \<Longrightarrow> map_of (nc_entries nc) K_NONCE = Some (nc_ssoNonce nc)"
  "nc_ssoVersion nc = 1 \<Longrightarrow> map_of (nc_entries nc) K_STATE = Some (nc_ssoState nc)"
  "nc_ssoVersion nc = 1 \<Longrightarrow> map_of (nc_entries nc) K_CLIENT_ID = Some (nc_ssoClientID nc)"
  "nc_ssoVersion nc = 1 \<Longrightarrow> map_of (nc_entries nc) K_PROVIDER = Some (nc_ssoProvider nc)"
  using assms by (auto simp: entries_defs map_of_simps key_defs simp del: map_of_append split: option.split)

lemma nc_sso_lookup_none:
  assumes "nc_ssoVersion nc \<noteq> 0" "nc_ssoVersion nc \<noteq> 1"
  shows "map_of (nc_entries nc) K_SSO_VERSION = None" "map_of (nc_entries nc) K_SSO_ENABLED = None"
  using assms by (auto simp: entries_defs map_of_simps key_defs simp del: map_of_append split: option.split)

section \<open>Reading a configuration back\<close>

lemma cap_enc_ne: "cap_enc False c \<noteq> []" by (simp add: cap_enc_def cred_bytes_def cap_body_def)
lemma tag_enc_ne: "tag_enc False t \<noteq> []" by (simp add: tag_enc_def cred_bytes_def tag_body_def)
lemma coo_enc_ne: "coo_enc False c \<noteq> []" by (simp add: coo_enc_def cred_bytes_def coo_body_def)
lemma rule_enc_ne: "rule_enc r \<noteq> []" by (simp add: rule_enc_def rule_parts_def)

lemma route_enc_ne: "route_enc r \<noteq> []" by (simp add: route_enc_def)
lemma be8_ne: "be_bytes 8 s \<noteq> []" using length_be_bytes [of 8 s] by (metis list.size(3) zero_neq_numeral)

lemma concat_nil:
  "(\<And>x. enc x \<noteq> []) \<Longrightarrow> concat (map enc xs) = [] \<Longrightarrow> [] = xs"
  by (cases xs) auto

lemma read_caps:
  assumes ok: "\<forall>c\<in>set xs. cap_ok c" and s: "length xs \<le> 128"
    and pos: "at_pos b 0 (concat (map (cap_enc False) xs))"
  shows "sort_array cap_id (des_array cap_deserialize 128 b 0) = Inr (sort_key cap_id xs)"
proof -
  have "cap_wire.row xs" using ok cap_enc_ne by (simp add: cap_wire.row_def)
  from cap_wire.des_array_row [OF this pos s] show ?thesis by (simp add: sort_array_def)
qed

lemma read_tags:
  assumes ok: "\<forall>c\<in>set xs. tag_ok c" and s: "length xs \<le> 128"
    and pos: "at_pos b 0 (concat (map (tag_enc False) xs))"
  shows "sort_array tag_id (des_array tag_deserialize 128 b 0) = Inr (sort_key tag_id xs)"
proof -
  have "tag_wire.row xs" using ok tag_enc_ne by (simp add: tag_wire.row_def)
  from tag_wire.des_array_row [OF this pos s] show ?thesis by (simp add: sort_array_def)
qed

lemma at_pos_bsize: "at_pos b 0 bs \<Longrightarrow> bsize b = length bs"
  using at_posD(2) [of b 0 bs] by simp

lemma read_coos:
  assumes ok: "\<forall>c\<in>set xs. coo_ok c" and n: "length xs \<le> 4" and pos: "at_pos b 0 (concat (map (coo_enc False) xs))"
  shows "bind_res (des_all coo_deserialize (bsize b) b 0) (\<lambda>cs. Inr (take 4 cs)) = Inr xs"
proof -
  have r: "coo_wire.row xs" using ok coo_enc_ne by (simp add: coo_wire.row_def)
  then show ?thesis
    using coo_wire.des_all_row [OF r pos] coo_wire.row_length [OF r] at_pos_bsize [OF pos] n by simp
qed

lemma read_specialists:
  assumes n: "length xs \<le> 512" and pos: "at_pos b 0 (concat (map (be_bytes 8) xs))"
  shows "bind_res (des_specialists (bsize b div 8) b 0) (\<lambda>ss. Inr (take 512 ss)) = Inr xs"
proof -
  have "length (concat (map (be_bytes 8) xs)) = 8 * length xs" by (induction xs) simp_all
  then show ?thesis using des_specialists_row [OF pos] at_pos_bsize [OF pos] n by simp
qed

lemma read_routes:
  assumes "\<forall>r\<in>set xs. route_ok r" "length xs \<le> 128" "at_pos b 0 (concat (map route_enc xs))"
  shows "des_upto route_deserialize 128 b 0 = Inr xs"
  using assms route_enc_ne by (intro route_wire.des_upto_row) (simp_all add: route_wire.row_def)

lemma read_ips:
  assumes "\<forall>a\<in>set xs. inet_ip_port a" "length xs \<le> 32" "at_pos b 0 (concat (map inet_enc xs))"
  shows "des_upto inet_deserialize 32 b 0 = Inr xs"
  using assms by (intro inet_wire.des_upto_row) (simp_all add: inet_wire.row_def)

lemma read_rules:
  assumes "\<forall>r\<in>set xs. rule_ok r" "length xs \<le> 1024" "at_pos b 0 (concat (map rule_enc xs))"
  shows "bind_res (deserializeRules 1024 b 0) (\<lambda>(rs, _). Inr rs) = Inr xs"
proof -
  have "deserializeRules 1024 b 0 = Inr (xs, 0 + of_nat (length (concat (map rule_enc xs))))"
    using rules_des_enc [OF assms(1), of b 0 "[]" 1024] assms(2,3) by auto
  then show ?thesis by simp
qed

lemma read_dns:
  assumes "dns_ok x" "at_pos b 0 (dns_enc x)"
  shows "bind_res (dns_deserialize b 0) (\<lambda>(x, _). Inr x) = Inr x"
  using dns_des_enc [OF assms(1), of b 0 "[]"] assms(2) by simp

lemma read_com:
  assumes "com_ok c" "addr_bool (com_signedBy c) \<or> com_sig c = com_sig com_nil" "at_pos b 0 (com_enc c)"
  shows "\<exists>q. com_deserialize (com_sig com_nil) b 0 = Inr (c, q)"
  using com_des_enc [OF assms(1), of b 0 "[]" "com_sig com_nil"] assms(2,3) by auto

text \<open>One key with a row of objects, or none, as its value.\<close>

lemma blob_back:
  assumes "dict_holds C d es" "0 < C" "C < 2 ^ 31" "small b" "bcap b = C" "clean key"
    and m: "map_of es key = map_of (blob_entry key v) key"
    and f: "\<And>b'. at_pos b' 0 v \<Longrightarrow> f b' = Inr x" and n: "v = [] \<Longrightarrow> dfl = x"
  obtains b' where "with_buf d key b dfl f = Inr (x, b')" "small b'" "bcap b' = C"
proof (rule with_buf_holds [OF assms(1,6,2-5), of f x dfl])
  show "f b' = Inr x" if "map_of es key = Some w" "at_pos b' 0 w" for w b'
    using that f m by (simp add: map_of_simps split: if_splits)
  show "dfl = x" if "map_of es key = None"
    using that n m by (simp add: map_of_simps split: if_splits)
qed (rule that)

lemma com_back:
  assumes ok: "nc_ok nc" and h: "dict_holds C d (nc_entries nc)" "0 < C" "C < 2 ^ 31" "small b" "bcap b = C"
  obtains b' where "with_buf d K_COM b com_nil
      (\<lambda>b. bind_res (com_deserialize (com_sig com_nil) b 0) (\<lambda>(c, _). Inr c)) = Inr (com_sent (nc_com nc), b')"
    "small b'" "bcap b' = C"
proof (rule with_buf_holds [OF h(1) _ h(2-5), of K_COM
      "\<lambda>b. bind_res (com_deserialize (com_sig com_nil) b 0) (\<lambda>(c, _). Inr c)" "com_sent (nc_com nc)" com_nil])
  show "clean K_COM" by (simp add: key_defs is_eol_def)
  fix v b' assume v: "map_of (nc_entries nc) K_COM = Some v" and at: "at_pos b' 0 v"
  then have c: "com_bool (nc_com nc)" "v = com_enc (com_sent (nc_com nc))" by (simp_all add: nc_blob_lookup nc_sent_simps split: if_splits)
  moreover have "com_ok (com_sent (nc_com nc))" using ok c(1) by (simp add: nc_ok_def nc_parts_ok_def nc_sent_simps)
  moreover have "addr_bool (com_signedBy (com_sent (nc_com nc))) \<or> com_sig (com_sent (nc_com nc)) = com_sig com_nil"
    by (simp add: com_sent_def)
  ultimately show "bind_res (com_deserialize (com_sig com_nil) b' 0) (\<lambda>(c, _). Inr c) = Inr (com_sent (nc_com nc))"
    using read_com [of "com_sent (nc_com nc)" b'] at by auto
next
  assume "map_of (nc_entries nc) K_COM = None"
  then have "\<not> com_bool (nc_com nc)" by (simp add: nc_blob_lookup nc_sent_simps split: if_splits)
  then show "com_nil = com_sent (nc_com nc)" by (simp add: com_sent_def)
qed (rule that)

lemma sort_nil: "[] = xs \<Longrightarrow> [] = sort_key f xs" by auto

lemma nc_blobs_back:
  assumes ok: "nc_ok nc" and h: "dict_holds C d (nc_entries nc)" and C: "0 < C" "C < 2 ^ 31"
  shows "nc_read_blobs d (buf_new (replicate C 0)) nc0 =
    Inr (nc0\<lparr>nc_com := com_sent (nc_com nc), nc_capabilities := sort_key cap_id (map cap_sent (nc_capabilities nc)),
      nc_tags := sort_key tag_id (nc_tags nc),
      nc_coos := nc_coos nc, nc_specialists := nc_specialists nc, nc_routes := nc_routes nc,
      nc_staticIps := nc_staticIps nc, nc_rules := map rule_sent (nc_rules nc), nc_dns := nc_dns nc\<rparr>)"
proof -
  let ?b = "buf_new (replicate C 0)"
  have b0: "small ?b" "bcap ?b = C" using C by simp_all (simp add: bcap_def buf_new_def)
  have P: "\<forall>x\<in>set (map cap_sent (nc_capabilities nc)). cap_ok x" "\<forall>x\<in>set (nc_tags nc). tag_ok x"
    "\<forall>x\<in>set (nc_coos nc). coo_ok x" "\<forall>x\<in>set (nc_routes nc). route_ok x"
    "\<forall>x\<in>set (nc_staticIps nc). inet_ip_port x" "\<forall>x\<in>set (map rule_sent (nc_rules nc)). rule_ok x" "dns_ok (nc_dns nc)"
    using ok by (simp_all add: nc_ok_def nc_parts_ok_def nc_sent_simps list_all_iff)
  have cl: "clean K_COM" "clean K_CAPABILITIES" "clean K_TAGS" "clean K_COOS" "clean K_SPECIALISTS"
    "clean K_ROUTES" "clean K_STATIC_IPS" "clean K_RULES" "clean K_DNS"
    using legal_keys by (auto simp: legal_def)
  have D: "dns_enc (nc_dns nc) \<noteq> []" using P(7) by (auto simp: dns_enc_def dns_ok_def)
  have lim: "length (nc_coos nc) \<le> 4" "length (nc_specialists nc) \<le> 512" "length (map rule_sent (nc_rules nc)) \<le> 1024"
    using ok by (simp_all add: nc_ok_def)
  have s: "length (map cap_sent (nc_capabilities nc)) \<le> 128" "length (nc_tags nc) \<le> 128"
    "length (nc_routes nc) \<le> 128" "length (nc_staticIps nc) \<le> 32"
    using ok by (simp_all add: nc_ok_def)
  note L = nc_blob_lookup [of nc, unfolded nc_sent_simps] and bk = blob_back [OF h C]
  obtain b1 where 1: "with_buf d K_COM ?b com_nil
      (\<lambda>b. bind_res (com_deserialize (com_sig com_nil) b 0) (\<lambda>(c, _). Inr c)) = Inr (com_sent (nc_com nc), b1)"
      "small b1" "bcap b1 = C" by (rule com_back [OF ok h C b0])
  obtain b2 where 2: "with_buf d K_CAPABILITIES b1 [] (\<lambda>b. sort_array cap_id (des_array cap_deserialize 128 b 0))
      = Inr (sort_key cap_id (map cap_sent (nc_capabilities nc)), b2)" "small b2" "bcap b2 = C"
    by (rule bk [OF 1(2,3) cl(2) L(2) read_caps [OF P(1) s(1)] sort_nil [OF concat_nil [OF cap_enc_ne]]])
  obtain b3 where 3: "with_buf d K_TAGS b2 [] (\<lambda>b. sort_array tag_id (des_array tag_deserialize 128 b 0))
      = Inr (sort_key tag_id (nc_tags nc), b3)" "small b3" "bcap b3 = C"
    by (rule bk [OF 2(2,3) cl(3) L(3) read_tags [OF P(2) s(2)] sort_nil [OF concat_nil [OF tag_enc_ne]]])
  obtain b4 where 4: "with_buf d K_COOS b3 [] (\<lambda>b. bind_res (des_all coo_deserialize (bsize b) b 0) (\<lambda>cs. Inr (take 4 cs)))
      = Inr (nc_coos nc, b4)" "small b4" "bcap b4 = C"
    by (rule bk [OF 3(2,3) cl(4) L(4) read_coos [OF P(3) lim(1)] concat_nil [OF coo_enc_ne]])
  obtain b5 where 5: "with_buf d K_SPECIALISTS b4 [] (\<lambda>b. bind_res (des_specialists (bsize b div 8) b 0) (\<lambda>ss. Inr (take 512 ss)))
      = Inr (nc_specialists nc, b5)" "small b5" "bcap b5 = C"
    by (rule bk [OF 4(2,3) cl(5) L(5) read_specialists [OF lim(2)] concat_nil [OF be8_ne]])
  obtain b6 where 6: "with_buf d K_ROUTES b5 [] (\<lambda>b. des_upto route_deserialize 128 b 0) = Inr (nc_routes nc, b6)"
      "small b6" "bcap b6 = C"
    by (rule bk [OF 5(2,3) cl(6) L(6) read_routes [OF P(4) s(3)] concat_nil [OF route_enc_ne]])
  obtain b7 where 7: "with_buf d K_STATIC_IPS b6 [] (\<lambda>b. des_upto inet_deserialize 32 b 0) = Inr (nc_staticIps nc, b7)"
      "small b7" "bcap b7 = C"
    by (rule bk [OF 6(2,3) cl(7) L(7) read_ips [OF P(5) s(4)] concat_nil [OF inet_enc_ne]])
  obtain b8 where 8: "with_buf d K_RULES b7 [] (\<lambda>b. bind_res (deserializeRules 1024 b 0) (\<lambda>(rs, _). Inr rs)) = Inr (map rule_sent (nc_rules nc), b8)"
      "small b8" "bcap b8 = C"
    by (rule bk [OF 7(2,3) cl(8) L(8) read_rules [OF P(6) lim(3)] concat_nil [OF rule_enc_ne]])
  obtain b9 where 9: "with_buf d K_DNS b8 dns_nil (\<lambda>b. bind_res (dns_deserialize b 0) (\<lambda>(x, _). Inr x)) = Inr (nc_dns nc, b9)"
    by (rule bk [OF 8(2,3) cl(9) L(9) read_dns [OF P(7)]]) (use D in auto)
  show ?thesis unfolding nc_read_blobs_def 1(1) bind_res_simps prod.case 2(1) 3(1) 4(1) 5(1) 6(1) 7(1) 8(1) 9
    by simp
qed

lemma nc_scalars_back:
  assumes ok: "nc_ok nc" and h: "dict_holds C d (nc_entries nc)"
  shows "nc_read_scalars d = netconf_nil
     \<lparr>nc_networkId := nc_networkId nc, nc_timestamp := nc_timestamp nc,
      nc_credentialTimeMaxDelta := nc_credentialTimeMaxDelta nc, nc_revision := nc_revision nc,
      nc_issuedTo := nc_issuedTo nc, nc_remoteTraceTarget := nc_remoteTraceTarget nc,
      nc_remoteTraceLevel := nc_remoteTraceLevel nc, nc_multicastLimit := nc_multicastLimit nc,
      nc_name := nc_name nc, nc_mtu := clamp_mtu (nc_mtu nc)\<rparr>"
    and "dict_getUI d K_VERSION 0 = 7" and "dict_getUI d K_FLAGS 0 = nc_flags nc"
    and "ucast (dict_getUI d K_TYPE 0) = nc_type nc"
proof -
  have cl: "legal k \<Longrightarrow> clean k" for k by (simp add: legal_def)
  note L = nc_scalar_lookup [of nc]
  note g16 = holds_getUI16 [OF h]
  have a10: "unat (addr_int a) < 16 ^ 10" if "addr_ok a" for a
  proof -
    have "unat (addr_int a) = take_bit 40 (unat (addr_int a))"
      using that by (metis addr_ok_def unsigned_take_bit_eq)
    also have "\<dots> < 2 ^ 40" by (rule take_bit_nat_less_exp)
    finally show ?thesis by simp
  qed
  have A: "dict_getUI d K_ISSUED_TO dfl = addr_int (nc_issuedTo nc)"
    "dict_getUI d K_TRACE_TARGET dfl = addr_int (nc_remoteTraceTarget nc)" for dfl
    using ok by (auto simp: nc_ok_def intro!: holds_getUI(1) [OF h _ L(6)] holds_getUI(1) [OF h _ L(7)] a10 cl)
  have ao: "addr_of (addr_int a) = a" if "addr_ok a" for a
    using that by (cases a) (simp add: addr_of_def addr_ok_def mask40)
  have n: "dict_text d K_NAME 128 = nc_name nc"
    using holds_text(1) [OF h cl [OF legal_keys(11)], of 128] L(12) ok by (simp add: nc_ok_def nc_texts_def)
  show "dict_getUI d K_VERSION 0 = 7" "dict_getUI d K_FLAGS 0 = nc_flags nc"
    "ucast (dict_getUI d K_TYPE 0) = nc_type nc"
    using g16 [OF cl [OF legal_keys(1)] L(1)] g16 [OF cl [OF legal_keys(8)] L(9)] g16 [OF cl [OF legal_keys(10)] L(11)] by simp_all
  show "nc_read_scalars d = netconf_nil
     \<lparr>nc_networkId := nc_networkId nc, nc_timestamp := nc_timestamp nc,
      nc_credentialTimeMaxDelta := nc_credentialTimeMaxDelta nc, nc_revision := nc_revision nc,
      nc_issuedTo := nc_issuedTo nc, nc_remoteTraceTarget := nc_remoteTraceTarget nc,
      nc_remoteTraceLevel := nc_remoteTraceLevel nc, nc_multicastLimit := nc_multicastLimit nc,
      nc_name := nc_name nc, nc_mtu := clamp_mtu (nc_mtu nc)\<rparr>"
    using ok n A ao by (simp add: nc_read_scalars_def g16 [OF cl [OF legal_keys(2)] L(2)] g16 [OF cl [OF legal_keys(3)] L(3)]
      g16 [OF cl [OF legal_keys(13)] L(4)] g16 [OF cl [OF legal_keys(4)] L(5)] g16 [OF cl [OF legal_keys(7)] L(8)] g16 [OF cl [OF legal_keys(9)] L(10)]
      g16 [OF cl [OF legal_keys(12)] L(13)] nc_ok_def)
qed

text \<open>The single sign-on fields start as the constructor leaves them.\<close>

definition sso_blank :: "netconf \<Rightarrow> bool" where
  "sso_blank nc \<longleftrightarrow> nc_authenticationURL nc = [] \<and> nc_authenticationExpiryTime nc = 0 \<and> nc_issuerURL nc = [] \<and>
     nc_centralAuthURL nc = [] \<and> nc_ssoNonce nc = [] \<and> nc_ssoState nc = [] \<and> nc_ssoClientID nc = [] \<and>
     nc_ssoProvider nc = PROVIDER_DEFAULT"

lemma nc_sso_back:
  assumes ok: "nc_texts nc" "unat (nc_authenticationExpiryTime nc) < 2 ^ 63"
    and h: "dict_holds C d (nc_entries nc)" and b: "sso_blank nc0" "nc_ssoVersion nc0 = 0" "\<not> nc_ssoEnabled nc0"
  shows "nc_read_sso d nc0 = (let nr = nc_received nc in nc0
     \<lparr>nc_ssoVersion := nc_ssoVersion nr, nc_ssoEnabled := nc_ssoEnabled nr,
      nc_authenticationURL := nc_authenticationURL nr,
      nc_authenticationExpiryTime := nc_authenticationExpiryTime nr, nc_issuerURL := nc_issuerURL nr,
      nc_centralAuthURL := nc_centralAuthURL nr, nc_ssoNonce := nc_ssoNonce nr, nc_ssoState := nc_ssoState nr,
      nc_ssoClientID := nc_ssoClientID nr, nc_ssoProvider := nc_ssoProvider nr\<rparr>)"
proof -
  have cl: "legal k \<Longrightarrow> clean k" for k by (simp add: legal_def)
  note tx = holds_text [OF h] and T = ok(1) [unfolded nc_texts_def]
  consider (v0) "nc_ssoVersion nc = 0" | (v1) "nc_ssoVersion nc = 1" | (other) "nc_ssoVersion nc \<noteq> 0" "nc_ssoVersion nc \<noteq> 1" by blast
  then show ?thesis
  proof cases
    case other
    note L = nc_sso_lookup_none [OF other]
    have "dict_getUI d K_SSO_VERSION 0 = 0" "\<not> dict_getB d K_SSO_ENABLED False"
      using holds_getUI_none [OF h cl [OF legal_keys(24)] L(1)] holds_getB_none [OF h cl [OF legal_keys(23)] L(2)] by simp_all
    then show ?thesis using other b by (simp add: nc_read_sso_def nc_received_def sso_blank_def Let_def)
  next
    case v0
    then have v01: "nc_ssoVersion nc = 0 \<or> nc_ssoVersion nc = 1" by simp
    note L = nc_sso_lookup [OF v01]
    have v: "dict_getUI d K_SSO_VERSION 0 = 0" using holds_getUI16 [OF h cl [OF legal_keys(24)] L(1)] v0 by simp
    have e: "dict_getB d K_SSO_ENABLED False = nc_ssoEnabled nc" by (rule holds_getB [OF h cl [OF legal_keys(23)] L(2)])
    have url: "dict_text d K_AUTH_URL 2048 = nc_authenticationURL nc" if "nc_ssoEnabled nc"
      using that v0 T tx(1) [OF cl [OF legal_keys(25)], of 2048] tx(3) [OF cl [OF legal_keys(25)], of 2048] L(3) by (auto split: if_splits)
    have "dict_getI d K_AUTH_EXPIRY 0 = nc_authenticationExpiryTime nc" if "nc_ssoEnabled nc"
      using holds_getUI(2) [OF h cl [OF legal_keys(26)] L(4) [OF v0 that]] ok(2) unsigned_less [of "nc_authenticationExpiryTime nc"] by simp
    then show ?thesis using v0 v e url b by (simp add: nc_read_sso_def nc_received_def sso_blank_def Let_def)
  next
    case v1
    then have v01: "nc_ssoVersion nc = 0 \<or> nc_ssoVersion nc = 1" by simp
    note L = nc_sso_lookup [OF v01]
    have v: "dict_getUI d K_SSO_VERSION 0 = 1" using holds_getUI16 [OF h cl [OF legal_keys(24)] L(1)] v1 by simp
    have e: "dict_getB d K_SSO_ENABLED False = nc_ssoEnabled nc" by (rule holds_getB [OF h cl [OF legal_keys(23)] L(2)])
    have url: "dict_text d K_AUTH_URL 2048 = []"
      using v1 tx(3) [OF cl [OF legal_keys(25)], of 2048] L(3) by simp
    have S: "dict_text d K_ISSUER_URL 2048 = nc_issuerURL nc" "dict_text d K_CENTRAL_URL 2048 = nc_centralAuthURL nc"
      "dict_text d K_NONCE 128 = nc_ssoNonce nc" "dict_text d K_STATE 256 = nc_ssoState nc"
      "dict_text d K_CLIENT_ID 256 = nc_ssoClientID nc" "dict_text d K_PROVIDER 64 = nc_ssoProvider nc"
      "fst (dict_get d K_PROVIDER 64) = int (length (nc_ssoProvider nc))"
      using T tx(1) [OF cl [OF legal_keys(27)] _ L(5) [OF v1], of 2048] tx(1) [OF cl [OF legal_keys(28)] _ L(6) [OF v1], of 2048]
        tx(1) [OF cl [OF legal_keys(29)] _ L(7) [OF v1], of 128] tx(1) [OF cl [OF legal_keys(30)] _ L(8) [OF v1], of 256]
        tx(1) [OF cl [OF legal_keys(31)] _ L(9) [OF v1], of 256] tx(1) [OF cl [OF legal_keys(32)] _ L(10) [OF v1], of 64]
        tx(2) [OF cl [OF legal_keys(32)] _ L(10) [OF v1], of 64] by simp_all
    show ?thesis using v1 v e url S b by (simp add: nc_read_sso_def nc_received_def sso_blank_def Let_def)
  qed
qed

lemma nc_received_simps:
  "nc_networkId (nc_received nc) = nc_networkId nc" "nc_issuedTo (nc_received nc) = nc_issuedTo nc"
  by (simp_all add: nc_received_def nc_sent_def Let_def)

lemma nc_holds_read:
  assumes ok: "nc_ok nc" and C: "0 < C" "C < 2 ^ 31" and h: "dict_holds C d (nc_entries nc)"
  shows "nc_fromDictionary d = Inr (Some (nc_received nc))"
proof -
  have l: "length d = C" using h by (simp add: dict_holds_def)
  note S = nc_scalars_back [OF ok h]
  let ?nc = "nc_read_scalars d\<lparr>nc_flags := nc_flags nc, nc_type := nc_type nc\<rparr>"
  let ?nc' = "?nc\<lparr>nc_com := com_sent (nc_com nc), nc_capabilities := sort_key cap_id (map cap_sent (nc_capabilities nc)),
      nc_tags := sort_key tag_id (nc_tags nc),
      nc_coos := nc_coos nc, nc_specialists := nc_specialists nc, nc_routes := nc_routes nc,
      nc_staticIps := nc_staticIps nc, nc_rules := map rule_sent (nc_rules nc), nc_dns := nc_dns nc\<rparr>"
  have bl: "sso_blank ?nc'" "nc_ssoVersion ?nc' = 0" "\<not> nc_ssoEnabled ?nc'" by (simp_all add: sso_blank_def S(1) netconf_nil_def)
  have T: "nc_texts nc" "unat (nc_authenticationExpiryTime nc) < 2 ^ 63" using ok by (simp_all add: nc_ok_def)
  have sso: "nc_read_sso d ?nc' = nc_received nc"
    unfolding nc_sso_back [OF T h bl] by (simp add: S(1) netconf_nil_def nc_received_def nc_sent_def Let_def)
  have "nc_read_blobs d (buf_new (replicate (length d) 0)) ?nc = Inr ?nc'"
    unfolding l by (rule nc_blobs_back [OF ok h C])
  moreover have "nc_networkId (nc_read_scalars d) \<noteq> 0" "addr_bool (nc_issuedTo (nc_read_scalars d))"
    using ok by (simp_all add: S(1) nc_ok_def)
  ultimately show ?thesis
    using S(2-4) sso by (simp add: nc_fromDictionary_def Let_def)
qed

text \<open>
  Claim C5: what a configuration written by \<open>toDictionary\<close> is when \<open>fromDictionary\<close> has read it, for
  any configuration with a network and a holder, decodable objects within the limits of the arrays and
  one per id, and texts that fit theirs. If its text fits, writing succeeds and reading yields
  \<open>nc_received\<close>: every number, address, text, route, address and certificate as it was; capabilities
  and tags in the order of their ids; the MTU within its limits; rules without the bucket of a
  PRIORITY rule; of an unsigned membership certificate no signature; of single sign-on what the
  version in use sends, so that with version 1 the authentication URL and the expiry are lost and with
  single sign-on disabled everything is. A configuration that has none of what is lost and is in
  order comes back as itself. If the text does not fit, writing reports it.
\<close>

theorem nc_dictionary_roundtrip:
  assumes ok: "nc_ok nc" and C: "0 < C" "C < 2 ^ 31"
  shows "(if length (dict_lines (nc_entries nc)) < C
     then \<exists>d. nc_toDictionary C nc = Inr (d, True) \<and> nc_fromDictionary d = Inr (Some (nc_received nc))
     else nc_toDictionary C nc = Inl OutOfBounds \<or> (\<exists>d. nc_toDictionary C nc = Inr (d, False))) \<and>
    (nc_plain nc \<longrightarrow> nc_received nc = nc)"
proof -
  have "nc_parts_ok (nc_sent nc)" using ok by (simp add: nc_ok_def)
  from nc_toDictionary_exact [OF this C] show ?thesis
    using nc_holds_read [OF ok C] nc_received_plain [of nc] by (auto split: if_splits)
qed

section \<open>What an accepted dictionary yields\<close>

definition nc_bounds :: "netconf \<Rightarrow> bool" where
  "nc_bounds nc \<longleftrightarrow>
     nc_networkId nc \<noteq> 0 \<and> addr_bool (nc_issuedTo nc) \<and> addr_ok (nc_issuedTo nc) \<and>
     1280 \<le> nc_mtu nc \<and> nc_mtu nc \<le> 10000 \<and>
     length (nc_capabilities nc) \<le> 128 \<and> sorted (map cap_id (nc_capabilities nc)) \<and>
     length (nc_tags nc) \<le> 128 \<and> sorted (map tag_id (nc_tags nc)) \<and>
     length (nc_coos nc) \<le> 4 \<and> length (nc_specialists nc) \<le> 512 \<and> length (nc_routes nc) \<le> 128 \<and>
     length (nc_staticIps nc) \<le> 32 \<and> length (nc_rules nc) \<le> 1024 \<and>
     length (dns_domain (nc_dns nc)) = 128 \<and> dns_domain (nc_dns nc) ! 127 = 0 \<and> length (dns_servers (nc_dns nc)) = 4"

lemma c_str_consts [simp]: "0 < n \<Longrightarrow> c_str_ok n []" "c_str_ok 64 PROVIDER_DEFAULT"
  by (simp_all add: c_str_ok_def PROVIDER_DEFAULT_def)

lemma read_val_terminated:
  "length w < n \<Longrightarrow> \<exists>v. snd (read_val n p esc w) = v @ [0] \<and> length v < n"
proof (induction n p esc w rule: read_val.induct)
  case (2 n c r esc w)
  show ?case using 2 by (auto simp: Let_def)
qed auto

lemma dict_get_terminated:
  assumes "0 < n" shows "\<exists>v. snd (dict_get d key n) = v @ [0] \<and> length v < n"
proof -
  have "\<exists>v. snd (dict_scan d key n) = v @ [0] \<and> length v < n"
    using assms
  proof (induction d key n rule: dict_scan.induct)
    case (1 p key n)
    have nil: "\<exists>v. [0 :: u8] = v @ [0] \<and> length v < n" using 1 by simp
    show ?case
      using 1 read_val_terminated [of "[]" n] nil
      by (subst dict_scan.simps) (auto split: option.splits)
  qed
  then show ?thesis using assms by (simp add: dict_get_def)
qed

lemma dict_text_ok: "0 < n \<Longrightarrow> c_str_ok n (dict_text d key n)"
proof -
  assume "0 < n"
  then obtain v where v: "snd (dict_get d key n) = v @ [0]" "length v < n" using dict_get_terminated by blast
  have "length (takeWhile (\<lambda>c. c \<noteq> 0) v) \<le> length v" by (rule length_takeWhile_le)
  then show ?thesis
    using v by (auto simp: dict_text_def c_string_def c_str_ok_def takeWhile_tail dest: set_takeWhileD)
qed

lemma des_array_length: "length (fst (des_array des room b p)) \<le> room"
proof (induction room arbitrary: p)
  case 0
  then show ?case by (subst des_array.simps) (auto split: sum.split)
next
  case (Suc m)
  have "length xs \<le> m" if "des_array des m b q = (xs, e)" for q xs e
    using Suc.IH [of q] that by simp
  then show ?case by (subst des_array.simps) (auto split: sum.split prod.split)
qed

lemma des_upto_length: "des_upto des room b p = Inr xs \<Longrightarrow> length xs \<le> room"
  by (induction room arbitrary: p xs) (auto simp: bind_res_eq_Inr split: if_splits)

lemma deserializeRules_length: "deserializeRules n b p = Inr (rs, q) \<Longrightarrow> length rs \<le> n"
  by (induction n arbitrary: p rs q) (auto simp: bind_res_eq_Inr split: if_splits)

lemma des_list_length: "des_list des n b p = Inr (xs, q) \<Longrightarrow> length xs = n"
  by (induction n arbitrary: p xs q) (auto simp: bind_res_eq_Inr)

lemma sort_array_out:
  assumes "sort_array key (des_array des n b p) = Inr xs"
  shows "length xs \<le> n \<and> sorted (map key xs)"
proof -
  have "xs = sort_key key (fst (des_array des n b p))"
    using assms by (auto simp: sort_array_def split: prod.splits option.splits exc.splits)
  then show ?thesis using des_array_length [of des n b p] by simp
qed

lemma dns_des_out:
  assumes "dns_deserialize b p = Inr (x, q)"
  shows "length (dns_domain x) = 128 \<and> dns_domain x ! 127 = 0 \<and> length (dns_servers x) = 4"
  using assms by (auto simp: dns_deserialize_def bind_res_eq_Inr buf_read_def bcap_def dest: des_list_length split: if_splits)

lemma with_buf_out:
  assumes "with_buf d key b dfl f = Inr (x, b')" and "P dfl" and "\<And>c y. f c = Inr y \<Longrightarrow> P y"
  shows "P x"
  using assms by (auto simp: with_buf_def bind_res_eq_Inr split: if_splits)

lemma nc_blobs_out:
  assumes "nc_read_blobs d b nc0 = Inr nc"
  shows "\<exists>com1 caps tags coos sps routes ips rules dns1.
    nc = nc0\<lparr>nc_com := com1, nc_capabilities := caps, nc_tags := tags, nc_coos := coos,
      nc_specialists := sps, nc_routes := routes, nc_staticIps := ips, nc_rules := rules, nc_dns := dns1\<rparr> \<and>
    (length caps \<le> 128 \<and> sorted (map cap_id caps)) \<and> (length tags \<le> 128 \<and> sorted (map tag_id tags)) \<and>
    length coos \<le> 4 \<and> length sps \<le> 512 \<and> length routes \<le> 128 \<and> length ips \<le> 32 \<and> length rules \<le> 1024 \<and>
    (length (dns_domain dns1) = 128 \<and> dns_domain dns1 ! 127 = 0 \<and> length (dns_servers dns1) = 4)"
proof -
  obtain com1 b1 caps b2 tags b3 coos b4 sps b5 routes b6 ips b7 rules b8 dns1 b9 where
    w: "with_buf d K_CAPABILITIES b1 [] (\<lambda>b. sort_array cap_id (des_array cap_deserialize 128 b 0)) = Inr (caps, b2)"
    "with_buf d K_TAGS b2 [] (\<lambda>b. sort_array tag_id (des_array tag_deserialize 128 b 0)) = Inr (tags, b3)"
    "with_buf d K_COOS b3 [] (\<lambda>b. bind_res (des_all coo_deserialize (bsize b) b 0) (\<lambda>cs. Inr (take 4 cs))) = Inr (coos, b4)"
    "with_buf d K_SPECIALISTS b4 [] (\<lambda>b. bind_res (des_specialists (bsize b div 8) b 0) (\<lambda>ss. Inr (take 512 ss))) = Inr (sps, b5)"
    "with_buf d K_ROUTES b5 [] (\<lambda>b. des_upto route_deserialize 128 b 0) = Inr (routes, b6)"
    "with_buf d K_STATIC_IPS b6 [] (\<lambda>b. des_upto inet_deserialize 32 b 0) = Inr (ips, b7)"
    "with_buf d K_RULES b7 [] (\<lambda>b. bind_res (deserializeRules 1024 b 0) (\<lambda>(rs, _). Inr rs)) = Inr (rules, b8)"
    "with_buf d K_DNS b8 dns_nil (\<lambda>b. bind_res (dns_deserialize b 0) (\<lambda>(x, _). Inr x)) = Inr (dns1, b9)"
    and nc: "nc = nc0\<lparr>nc_com := com1, nc_capabilities := caps, nc_tags := tags, nc_coos := coos,
      nc_specialists := sps, nc_routes := routes, nc_staticIps := ips, nc_rules := rules, nc_dns := dns1\<rparr>"
    using assms unfolding nc_read_blobs_def by (auto simp: bind_res_eq_Inr)
  have "length caps \<le> 128 \<and> sorted (map cap_id caps)"
    by (rule with_buf_out [OF w(1)]) (simp_all add: sort_array_out)
  moreover have "length tags \<le> 128 \<and> sorted (map tag_id tags)"
    by (rule with_buf_out [OF w(2)]) (simp_all add: sort_array_out)
  moreover have "length coos \<le> 4" by (rule with_buf_out [OF w(3)]) (auto simp: bind_res_eq_Inr)
  moreover have "length sps \<le> 512" by (rule with_buf_out [OF w(4)]) (auto simp: bind_res_eq_Inr)
  moreover have "length routes \<le> 128" by (rule with_buf_out [OF w(5)]) (simp_all add: des_upto_length)
  moreover have "length ips \<le> 32" by (rule with_buf_out [OF w(6)]) (simp_all add: des_upto_length)
  moreover have "length rules \<le> 1024"
    by (rule with_buf_out [OF w(7)]) (auto simp: bind_res_eq_Inr dest: deserializeRules_length)
  moreover have "length (dns_domain dns1) = 128 \<and> dns_domain dns1 ! 127 = 0 \<and> length (dns_servers dns1) = 4"
    by (rule with_buf_out [OF w(8)]) (auto simp: bind_res_eq_Inr dns_nil_def dest: dns_des_out)
  ultimately show ?thesis using nc by blast
qed

lemma nc_sso_out:
  "nc_bounds (nc_read_sso d nc) = nc_bounds nc" "nc_texts nc \<Longrightarrow> nc_texts (nc_read_sso d nc)"
  using dict_text_ok [of _ d] by (simp_all add: nc_read_sso_def nc_bounds_def nc_texts_def Let_def)

text \<open>A key's value, whole, or none at all, as \<open>get\<close> into a buffer of the text's length tells it.\<close>

definition dict_value :: "u8 list \<Rightarrow> u8 list \<Rightarrow> u8 list \<Rightarrow> bool" where
  "dict_value d key v \<longleftrightarrow> dict_get d key (length d) = (int (length v), v @ [0])"

definition dict_lacks :: "u8 list \<Rightarrow> u8 list \<Rightarrow> bool" where
  "dict_lacks d key \<longleftrightarrow> fst (dict_get d key (length d)) < 0"

lemma with_buf_value:
  assumes v: "dict_value d key v" and d: "0 < length d" "length d < 2 ^ 31" and b: "small b" "bcap b = length d"
  obtains b' where "small b'" "bcap b' = length d" "at_pos b' 0 v"
    "with_buf d key b dfl f = bind_res (f b') (\<lambda>x. Inr (x, b'))"
proof -
  have lv: "length v < length d" using dict_get_terminated [OF d(1), of d key] v by (simp add: dict_value_def)
  let ?m = "mem_write (bmem b) 0 (v @ [0])"
  let ?b = "b\<lparr>bmem := ?m, blen := of_nat (length v)\<rparr>"
  have lm: "length (bmem b) = length d" using b(2) by (simp add: bcap_def)
  have m: "length ?m = length d" "take (length v) ?m = v" using lm lv by (simp_all add: mem_write_def)
  have u: "unat (of_nat (length v) :: u32) = length v" using lv d(2) by (simp add: unat_of_nat_u32)
  have s: "small ?b" "bcap ?b = length d" "bsize ?b = length v"
    using m u lv d by (simp_all add: small_def buf_ok_def bcap_def bsize_def)
  have "\<not> of_nat (length v) > bcap32 (b\<lparr>bmem := ?m\<rparr>)"
    using m lv d by (simp add: bcap32_def bcap_def word_less_nat_alt unat_of_nat_u32)
  then have "dict_get_buf d key b = Inr (True, ?b)"
    using v b(2) by (simp add: dict_value_def dict_get_buf_def buf_setSize_def Let_def)
  moreover have "at_pos ?b 0 v" using s m(2) by (simp add: at_pos_def bdata_def)
  ultimately show ?thesis using s that [of ?b] by (simp add: with_buf_def)
qed

lemma with_buf_lacks:
  assumes v: "dict_lacks d key" and d: "0 < length d" "length d < 2 ^ 31" and b: "small b" "bcap b = length d"
  obtains b' where "small b'" "bcap b' = length d" "with_buf d key b dfl f = Inr (dfl, b')"
proof -
  obtain r w where g: "dict_get d key (length d) = (r, w @ [0])" "length w < length d"
    using dict_get_terminated [OF d(1), of d key] by (cases "dict_get d key (length d)") auto
  let ?b = "buf_clear (b\<lparr>bmem := mem_write (bmem b) 0 (w @ [0])\<rparr>)"
  have "length (bmem ?b) = length d" using g(2) b by (simp add: buf_clear_def bcap_def mem_write_def)
  then have "small ?b" "bcap ?b = length d"
    using d by (simp_all add: small_def buf_ok_def bcap_def bsize_def buf_clear_def)
  moreover have "with_buf d key b dfl f = Inr (dfl, ?b)"
    using g v b(2) by (simp add: with_buf_def dict_get_buf_def dict_lacks_def Let_def)
  ultimately show ?thesis using that by blast
qed

lemma holds_value:
  assumes "dict_holds C d es" "clean key" "0 < C" "map_of es key = Some v"
  shows "dict_value d key v"
  using holds_get [OF assms(1-3)] holds_value_length [OF assms(1,4)] assms(1,4)
  by (simp add: dict_value_def dresult_def dict_holds_def)

text \<open>
  The arrays for capabilities and tags are filled without a check: a value with more than 128
  well-formed ones makes \<open>fromDictionary\<close> write past the array.
\<close>

lemma caps_overflow:
  assumes "\<forall>c\<in>set cs. cap_ok c" and "128 < length cs" and "at_pos b 0 (concat (map (cap_enc False) cs))"
  shows "sort_array cap_id (des_array cap_deserialize 128 b 0) = Inl UndefinedBehaviour"
proof -
  have "cap_wire.row cs" using assms(1) cap_enc_ne by (simp add: cap_wire.row_def)
  from cap_wire.des_array_overflow [OF this assms(3,2)] show ?thesis
    by (cases "des_array cap_deserialize 128 b 0") (simp add: sort_array_def)
qed

lemma tags_overflow:
  assumes "\<forall>t\<in>set ts. tag_ok t" and "128 < length ts" and "at_pos b 0 (concat (map (tag_enc False) ts))"
  shows "sort_array tag_id (des_array tag_deserialize 128 b 0) = Inl UndefinedBehaviour"
proof -
  have "tag_wire.row ts" using assms(1) tag_enc_ne by (simp add: tag_wire.row_def)
  from tag_wire.des_array_overflow [OF this assms(3,2)] show ?thesis
    by (cases "des_array tag_deserialize 128 b 0") (simp add: sort_array_def)
qed

text \<open>A dictionary whose capabilities, or without any its tags, are more than the array has entries.\<close>

definition overlong :: "u8 list \<Rightarrow> bool" where
  "overlong d \<longleftrightarrow>
     (\<exists>cs. (\<forall>c\<in>set cs. cap_ok c) \<and> 128 < length cs \<and> dict_value d K_CAPABILITIES (concat (map (cap_enc False) cs))) \<or>
     dict_lacks d K_CAPABILITIES \<and>
       (\<exists>ts. (\<forall>t\<in>set ts. tag_ok t) \<and> 128 < length ts \<and> dict_value d K_TAGS (concat (map (tag_enc False) ts)))"

lemma overlong_undefined:
  assumes d: "0 < length d" "length d < 2 ^ 31" and o: "overlong d"
    and c: "dict_lacks d K_COM \<or> (\<exists>c. com_ok c \<and> dict_value d K_COM (com_enc c))"
  shows "nc_read_blobs d (buf_new (replicate (length d) 0)) nc = Inl UndefinedBehaviour"
proof -
  let ?b = "buf_new (replicate (length d) 0)"
  have b0: "small ?b" "bcap ?b = length d" using d by simp_all (simp add: bcap_def buf_new_def)
  obtain c1 b1 where 1: "with_buf d K_COM ?b com_nil (\<lambda>b. bind_res (com_deserialize (com_sig com_nil) b 0) (\<lambda>(c, _). Inr c)) = Inr (c1, b1)"
    "small b1" "bcap b1 = length d"
    using c
  proof
    assume "dict_lacks d K_COM"
    then show ?thesis by (rule with_buf_lacks [OF _ d b0]) (rule that)
  next
    assume "\<exists>c. com_ok c \<and> dict_value d K_COM (com_enc c)"
    then obtain c where cc: "com_ok c" "dict_value d K_COM (com_enc c)" by blast
    obtain b1 where b1: "small b1" "bcap b1 = length d" "at_pos b1 0 (com_enc c)"
      "with_buf d K_COM ?b com_nil (\<lambda>b. bind_res (com_deserialize (com_sig com_nil) b 0) (\<lambda>(c, _). Inr c)) =
        bind_res (bind_res (com_deserialize (com_sig com_nil) b1 0) (\<lambda>(c, _). Inr c)) (\<lambda>x. Inr (x, b1))"
      by (rule with_buf_value [OF cc(2) d b0])
    then show ?thesis using com_des_enc [OF cc(1), of b1 0 "[]" "com_sig com_nil"] that by simp
  qed
  show ?thesis
    using o unfolding overlong_def
  proof (elim disjE exE conjE)
    fix cs assume cs: "\<forall>c\<in>set cs. cap_ok c" "128 < length cs" "dict_value d K_CAPABILITIES (concat (map (cap_enc False) cs))"
    obtain b2 where b2: "small b2" "bcap b2 = length d" "at_pos b2 0 (concat (map (cap_enc False) cs))"
      "with_buf d K_CAPABILITIES b1 [] (\<lambda>b. sort_array cap_id (des_array cap_deserialize 128 b 0)) =
        bind_res (sort_array cap_id (des_array cap_deserialize 128 b2 0)) (\<lambda>x. Inr (x, b2))"
      by (rule with_buf_value [OF cs(3) d 1(2,3)])
    show ?thesis
      unfolding nc_read_blobs_def 1(1) bind_res_simps prod.case b2(4) caps_overflow [OF cs(1,2) b2(3)] ..
  next
    fix ts assume l: "dict_lacks d K_CAPABILITIES"
      and ts: "\<forall>t\<in>set ts. tag_ok t" "128 < length ts" "dict_value d K_TAGS (concat (map (tag_enc False) ts))"
    obtain b2 where b2: "small b2" "bcap b2 = length d"
      "with_buf d K_CAPABILITIES b1 [] (\<lambda>b. sort_array cap_id (des_array cap_deserialize 128 b 0)) = Inr ([], b2)"
      by (rule with_buf_lacks [OF l d 1(2,3)])
    obtain b3 where b3: "small b3" "bcap b3 = length d" "at_pos b3 0 (concat (map (tag_enc False) ts))"
      "with_buf d K_TAGS b2 [] (\<lambda>b. sort_array tag_id (des_array tag_deserialize 128 b 0)) =
        bind_res (sort_array tag_id (des_array tag_deserialize 128 b3 0)) (\<lambda>x. Inr (x, b3))"
      by (rule with_buf_value [OF ts(3) d b2(1,2)])
    show ?thesis
      unfolding nc_read_blobs_def 1(1) bind_res_simps prod.case b2(3) b3(4) tags_overflow [OF ts(1,2) b3(3)] ..
  qed
qed

text \<open>
  Claim C40: what \<open>fromDictionary\<close> makes of the text of a dictionary. One without a network id,
  without a holder or older than version 6 is refused. One with no membership certificate or a
  well-formed one and with more than 128 well-formed capabilities, or without capabilities more than 128 well-formed tags, is neither refused nor
  cut: the code stores them without a check and writes past its array, which has no defined result.
  Whatever is accepted with a defined result has a network and a holder, an MTU between 1280 and
  10000, no more objects than its arrays have entries, capabilities and tags in order of their ids,
  and terminated strings.
\<close>

theorem nc_fromDictionary_accepts:
  "(case nc_fromDictionary d of Inr (Some nc) \<Rightarrow> nc_bounds nc \<and> nc_texts nc | _ \<Rightarrow> True) \<and>
   (dict_getUI d K_NETWORK_ID 0 = 0 \<or> addr_of (dict_getUI d K_ISSUED_TO 0) = addr_nil \<or> dict_getUI d K_VERSION 0 < 6 \<longrightarrow>
     nc_fromDictionary d = Inr None) \<and>
   (dict_getUI d K_NETWORK_ID 0 \<noteq> 0 \<and> addr_of (dict_getUI d K_ISSUED_TO 0) \<noteq> addr_nil \<and> dict_getUI d K_VERSION 0 \<ge> 6 \<and>
     0 < length d \<and> length d < 2 ^ 31 \<and> (dict_lacks d K_COM \<or> (\<exists>c. com_ok c \<and> dict_value d K_COM (com_enc c))) \<and> overlong d \<longrightarrow>
     nc_fromDictionary d = Inl UndefinedBehaviour)"
proof (intro conjI impI; (elim conjE)?)
  assume u: "dict_getUI d K_NETWORK_ID 0 \<noteq> 0" "addr_of (dict_getUI d K_ISSUED_TO 0) \<noteq> addr_nil" "dict_getUI d K_VERSION 0 \<ge> 6"
    "0 < length d" "length d < 2 ^ 31" "dict_lacks d K_COM \<or> (\<exists>c. com_ok c \<and> dict_value d K_COM (com_enc c))" "overlong d"
  have "addr_bool (addr_of a)" if "addr_of a \<noteq> addr_nil" for a using that by (simp add: addr_bool_def addr_nil_def addr_of_def)
  then show "nc_fromDictionary d = Inl UndefinedBehaviour"
    using u(1-3) by (simp add: nc_fromDictionary_def Let_def nc_read_scalars_def overlong_undefined [OF u(4,5,7,6)] not_less)
next
  assume "dict_getUI d K_NETWORK_ID 0 = 0 \<or> addr_of (dict_getUI d K_ISSUED_TO 0) = addr_nil \<or> dict_getUI d K_VERSION 0 < 6"
  then show "nc_fromDictionary d = Inr None"
    by (auto simp: nc_fromDictionary_def Let_def nc_read_scalars_def addr_bool_def addr_nil_def)
next
  show "case nc_fromDictionary d of Inr (Some nc) \<Rightarrow> nc_bounds nc \<and> nc_texts nc | _ \<Rightarrow> True"
  proof (cases "nc_fromDictionary d")
    case (Inr r)
    show ?thesis
    proof (cases r)
      case (Some nc)
      let ?s = "nc_read_scalars d\<lparr>nc_flags := dict_getUI d K_FLAGS 0, nc_type := ucast (dict_getUI d K_TYPE 0)\<rparr>"
      obtain nc' where b: "nc_read_blobs d (buf_new (replicate (length d) 0)) ?s = Inr nc'"
        and nc: "nc = nc_read_sso d nc'" and c: "nc_networkId ?s \<noteq> 0" "addr_bool (nc_issuedTo ?s)"
        using Inr Some by (auto simp: nc_fromDictionary_def Let_def split: if_splits sum.splits exc.splits)
      have "clamp_mtu m \<ge> 1280 \<and> clamp_mtu m \<le> 10000" for m by (auto simp: clamp_mtu_def)
      then have s: "nc_networkId ?s \<noteq> 0" "addr_bool (nc_issuedTo ?s)" "addr_ok (nc_issuedTo ?s)"
        "1280 \<le> nc_mtu ?s" "nc_mtu ?s \<le> 10000"
        using c by (simp_all add: nc_read_scalars_def)
      have t: "nc_texts ?s" using dict_text_ok [of 128 d K_NAME]
        by (simp add: nc_read_scalars_def nc_texts_def netconf_nil_def)
      obtain com1 caps tags coos sps routes ips rules dns1 where o:
        "nc' = ?s\<lparr>nc_com := com1, nc_capabilities := caps, nc_tags := tags, nc_coos := coos,
          nc_specialists := sps, nc_routes := routes, nc_staticIps := ips, nc_rules := rules, nc_dns := dns1\<rparr>"
        "(length caps \<le> 128 \<and> sorted (map cap_id caps)) \<and> (length tags \<le> 128 \<and> sorted (map tag_id tags)) \<and>
        length coos \<le> 4 \<and> length sps \<le> 512 \<and> length routes \<le> 128 \<and> length ips \<le> 32 \<and> length rules \<le> 1024 \<and>
        (length (dns_domain dns1) = 128 \<and> dns_domain dns1 ! 127 = 0 \<and> length (dns_servers dns1) = 4)"
        using nc_blobs_out [OF b] by blast
      have "nc_texts nc'" using t o(1) by (simp add: nc_texts_def)
      then have "nc_texts nc" unfolding nc by (rule nc_sso_out(2))
      moreover have "nc_bounds nc'" using s o by (simp add: nc_bounds_def)
      then have "nc_bounds nc"
        by (simp add: nc nc_sso_out(1))
      ultimately show ?thesis using Inr Some by simp
    qed (simp add: Inr)
  qed simp
qed

definition nc_sample :: netconf where
  "nc_sample = netconf_nil\<lparr>nc_networkId := 0x8056c2e21c000001, nc_timestamp := 1000, nc_issuedTo := addr_of 0x1122334455,
     nc_mtu := 2800, nc_name := [108, 97, 110], nc_specialists := [0x0000021122334455],
     nc_staticIps := [inet_set [10, 0, 0, 61] 4 24]\<rparr>"

lemma sample_parts:
  "inet_ip_port (inet_set [10, 0, 0, 61] 4 24)" "dns_ok dns_nil"
  "addr_bool (addr_of 0x1122334455)" "addr_ok (addr_of 0x1122334455)" "addr_ok addr_nil" "0 \<le> sint (1000 :: u64)"
proof -
  show "inet_ip_port (inet_set [10, 0, 0, 61] 4 24)" unfolding inet_ip_port_def
    by (intro disjI2 exI [of _ "[10, 0, 0, 61]"] exI [of _ 24]) (simp add: eval_nat_numeral)
  have z: "inet_ip_port inet_zero" by (simp add: inet_ip_port_def)
  then show "dns_ok dns_nil" by (simp add: dns_ok_def dns_nil_def list_all_iff)
  show "addr_bool (addr_of 0x1122334455)" "addr_ok (addr_of 0x1122334455)" "addr_ok addr_nil" by code_simp+
qed simp

lemma nc_sample_ok: "nc_ok nc_sample" "nc_plain nc_sample" "nc_received nc_sample = nc_sample"
proof -
  show "nc_ok nc_sample"
    using sample_parts
    by (simp add: nc_ok_def nc_parts_ok_def nc_sent_def com_sent_def nc_texts_def nc_sample_def netconf_nil_def com_bool_def com_nil_def
        c_str_ok_def PROVIDER_DEFAULT_def)
  show p: "nc_plain nc_sample" by (simp add: nc_plain_def nc_sample_def netconf_nil_def com_nil_def)
  show "nc_received nc_sample = nc_sample" by (rule nc_received_plain [OF p])
qed

lemma nc_sample_size: "length (dict_lines (nc_entries nc_sample)) < 1024"
  by code_simp

text \<open>Single sign-on of version 1 with an expiry, tags out of order, a PRIORITY rule.\<close>

definition sample_tag :: "u32 \<Rightarrow> tag" where
  "sample_tag i = \<lparr>tag_id = i, tag_value = 7, tag_nwid = 0x8056c2e21c000001, tag_ts = 1000,
     tag_issuedTo = addr_of 0x1122334455, tag_signedBy = addr_of 0x8056c2e21c, tag_sig = replicate 96 65\<rparr>"

definition nc_sample_sso :: netconf where
  "nc_sample_sso = nc_sample\<lparr>nc_ssoEnabled := True, nc_ssoVersion := 1, nc_authenticationExpiryTime := 5000,
     nc_issuerURL := [105], nc_tags := [sample_tag 9, sample_tag 2], nc_mtu := 70000,
     nc_rules := [\<lparr>r_t = 6, r_v = VQos 3\<rparr>, \<lparr>r_t = 1, r_v = VNone\<rparr>]\<rparr>"

lemma sample_tag_ok: "tag_ok (sample_tag i)"
proof -
  have "addr_ok (addr_of 0x8056c2e21c)" by code_simp
  then show ?thesis using sample_parts by (simp add: tag_ok_def sample_tag_def)
qed

lemma nc_sample_sso_ok: "nc_ok nc_sample_sso"
proof -
  have "list_all rule_ok (map rule_sent (nc_rules nc_sample_sso))" by code_simp
  moreover have "distinct (map tag_id (nc_tags nc_sample_sso))" by (simp add: nc_sample_sso_def sample_tag_def)
  ultimately show ?thesis
    using nc_sample_ok(1) sample_tag_ok
    by (simp add: nc_ok_def nc_parts_ok_def nc_sent_simps nc_texts_def nc_sample_sso_def c_str_ok_def)
qed

lemma nc_sample_sso_size: "length (dict_lines (nc_entries nc_sample_sso)) < 2048"
  by code_simp

lemma nc_sample_sso_received:
  "nc_received nc_sample_sso = nc_sample_sso\<lparr>nc_authenticationExpiryTime := 0, nc_tags := [sample_tag 2, sample_tag 9],
     nc_mtu := 10000, nc_rules := [\<lparr>r_t = 6, r_v = VNone\<rparr>, \<lparr>r_t = 1, r_v = VNone\<rparr>]\<rparr>"
  by (simp add: nc_received_def nc_sent_def nc_sample_sso_def nc_sample_def netconf_nil_def com_sent_def com_bool_def com_nil_def
      rule_sent_def rule_class_def sample_tag_def clamp_mtu_def PROVIDER_DEFAULT_def)

theorem nc_dictionary_roundtrip_witness:
  "(\<exists>d. nc_toDictionary 1024 nc_sample = Inr (d, True) \<and> nc_fromDictionary d = Inr (Some nc_sample)) \<and>
   (\<exists>d. nc_toDictionary 2048 nc_sample_sso = Inr (d, True) \<and> nc_fromDictionary d = Inr (Some (nc_sample_sso\<lparr>
      nc_authenticationExpiryTime := 0, nc_tags := [sample_tag 2, sample_tag 9], nc_mtu := 10000,
      nc_rules := [\<lparr>r_t = 6, r_v = VNone\<rparr>, \<lparr>r_t = 1, r_v = VNone\<rparr>]\<rparr>))) \<and>
   \<not> (\<exists>d. nc_toDictionary 1 nc_sample = Inr (d, True))"
proof (intro conjI)
  show "\<exists>d. nc_toDictionary 1024 nc_sample = Inr (d, True) \<and> nc_fromDictionary d = Inr (Some nc_sample)"
    using nc_dictionary_roundtrip [OF nc_sample_ok(1), of 1024] nc_sample_size nc_sample_ok(2) by auto
  show "\<exists>d. nc_toDictionary 2048 nc_sample_sso = Inr (d, True) \<and> nc_fromDictionary d = Inr (Some (nc_sample_sso\<lparr>
      nc_authenticationExpiryTime := 0, nc_tags := [sample_tag 2, sample_tag 9], nc_mtu := 10000,
      nc_rules := [\<lparr>r_t = 6, r_v = VNone\<rparr>, \<lparr>r_t = 1, r_v = VNone\<rparr>]\<rparr>))"
    using nc_dictionary_roundtrip [OF nc_sample_sso_ok, of 2048] nc_sample_sso_size unfolding nc_sample_sso_received by simp
  have "dict_lines (nc_entries nc_sample) \<noteq> []" by (simp add: dict_lines_ne nc_entries_def nc_scalar_entries_def)
  then show "\<not> (\<exists>d. nc_toDictionary 1 nc_sample = Inr (d, True))"
    using nc_dictionary_roundtrip [OF nc_sample_ok(1), of 1] by auto
qed

text \<open>A network configuration with one tag too many.\<close>

definition nc_sample_many :: netconf where
  "nc_sample_many = nc_sample\<lparr>nc_tags := map (\<lambda>i. sample_tag (of_nat i)) [0..<129]\<rparr>"

lemma length_escape2: "length (concat (map escape_byte v)) \<le> 2 * length v"
proof (induction v)
  case (Cons c v)
  have "length (escape_byte c) \<le> 2" by (simp add: escape_byte_def)
  then show ?case using Cons by simp
qed simp

lemma dict_lines_bound: "length (dict_lines es) \<le> sum_list (map (\<lambda>(k, v). 2 + length k + 2 * length v) es)"
proof (induction es rule: rev_induct)
  case (snoc x es)
  obtain k v where x: "x = (k, v)" by (cases x)
  have "length (dict_line k v) \<le> 1 + length k + 2 * length v" using length_escape2 [of v] by (simp add: dict_line_def)
  then show ?case using snoc by (simp add: x)
qed simp

lemma nc_sample_many_size: "length (dict_lines (nc_entries nc_sample_many)) < 65536"
proof -
  let ?es = "nc_entries nc_sample_many"
  have "length (concat (map (tag_enc False) (map (\<lambda>i. sample_tag (of_nat i)) is))) = 135 * length is" for "is"
    using length_tag_enc [OF sample_tag_ok] by (induction "is") simp_all
  from this [of "[0..<129]"] have t: "length (concat (map (tag_enc False) (nc_tags nc_sample_many))) = 17415"
    by (simp add: nc_sample_many_def)
  let ?f = "sum_list \<circ> map (\<lambda>(k, v). 2 + length k + 2 * length v)"
  have r: "nc_scalar_entries nc_sample_many = nc_scalar_entries nc_sample" "nc_sso_entries nc_sample_many = nc_sso_entries nc_sample"
    "nc_dns nc_sample_many = nc_dns nc_sample" "nc_staticIps nc_sample_many = nc_staticIps nc_sample" "nc_specialists nc_sample_many = nc_specialists nc_sample"
    by (simp_all add: nc_sample_many_def nc_scalar_entries_def nc_sso_entries_def)
  have e: "nc_com nc_sample_many = com_nil" "nc_capabilities nc_sample_many = []" "nc_coos nc_sample_many = []" "nc_routes nc_sample_many = []"
    "nc_rules nc_sample_many = []" by (simp_all add: nc_sample_many_def nc_sample_def netconf_nil_def)
  have k: "?f (nc_scalar_entries nc_sample) < 1000" "?f (nc_sso_entries nc_sample) < 1000" by code_simp+
  have k2: "length (concat (map (be_bytes 8) (nc_specialists nc_sample))) < 100" "length (concat (map inet_enc (nc_staticIps nc_sample))) < 100"
    "length (dns_enc (nc_dns nc_sample)) < 1000" by code_simp+
  have bl: "?f (blob_entry k v) \<le> 2 + length k + 2 * length v" for k v by (simp add: blob_entry_def)
  have "?f (nc_blob_entries (nc_sent nc_sample_many)) < 40000"
    using t k2 bl [of K_TAGS "concat (map (tag_enc False) (nc_tags nc_sample_many))"]
      bl [of K_SPECIALISTS "concat (map (be_bytes 8) (nc_specialists nc_sample))"]
      bl [of K_STATIC_IPS "concat (map inet_enc (nc_staticIps nc_sample))"] bl [of K_DNS "dns_enc (nc_dns nc_sample)"]
    by (simp add: nc_blob_entries_def nc_sent_simps e r key_defs) (simp add: blob_entry_def com_bool_def com_nil_def)
  then have "?f ?es < 65536" using k by (simp add: nc_entries_def r)
  then show ?thesis using dict_lines_bound [of ?es] by simp
qed

theorem nc_fromDictionary_accepts_witness:
  "(\<exists>d. nc_fromDictionary d = Inr (Some nc_sample) \<and> nc_bounds nc_sample) \<and>
   nc_fromDictionary (replicate 8 0) = Inr None \<and>
   (\<exists>d. nc_toDictionary 65536 nc_sample_many = Inr (d, True) \<and> nc_fromDictionary d = Inl UndefinedBehaviour)"
proof (intro conjI)
  have p: "nc_parts_ok (nc_sent nc_sample)" using nc_sample_ok(1) by (simp add: nc_ok_def)
  from nc_toDictionary_exact [OF p, of 1024]
  obtain d where "dict_holds 1024 d (nc_entries nc_sample)" using nc_sample_size by auto
  from nc_holds_read [OF nc_sample_ok(1) _ _ this] have r: "nc_fromDictionary d = Inr (Some nc_sample)" using nc_sample_ok(3) by simp
  then show "\<exists>d. nc_fromDictionary d = Inr (Some nc_sample) \<and> nc_bounds nc_sample"
    using nc_fromDictionary_accepts [of d] by (intro exI [of _ d]) simp
next
  have "dict_getUI (replicate 8 0) K_NETWORK_ID 0 = 0" by code_simp
  then show "nc_fromDictionary (replicate 8 0) = Inr None"
    using nc_fromDictionary_accepts [of "replicate 8 0"] by simp
next
  let ?nc = nc_sample_many and ?ts = "map (\<lambda>i. sample_tag (of_nat i)) [0..<129]"
  have tags: "nc_tags ?nc = ?ts" by (simp add: nc_sample_many_def)
  have ts: "\<forall>t\<in>set ?ts. tag_ok t" "128 < length ?ts" using sample_tag_ok by auto
  have f: "nc_networkId ?nc = nc_networkId nc_sample" "nc_issuedTo ?nc = nc_issuedTo nc_sample" "nc_com ?nc = com_nil" "nc_capabilities ?nc = []"
    by (simp_all add: nc_sample_many_def nc_sample_def netconf_nil_def)
  have "nc_parts_ok (nc_sent nc_sample)" using nc_sample_ok(1) by (simp add: nc_ok_def)
  then have "nc_parts_ok (nc_sent ?nc)" using sample_tag_ok
    by (simp add: nc_parts_ok_def nc_sent_simps nc_sample_many_def list_all_iff)
  from nc_toDictionary_exact [OF this, of 65536]
  obtain d where d: "nc_toDictionary 65536 ?nc = Inr (d, True)" "dict_holds 65536 d (nc_entries ?nc)" using nc_sample_many_size by auto
  have l: "length d = 65536" using d(2) by (simp add: dict_holds_def)
  have cl: "legal k \<Longrightarrow> clean k" for k by (simp add: legal_def)
  have cl3: "clean K_COM" "clean K_CAPABILITIES" "clean K_TAGS" by (rule cl, rule legal_keys)+
  note L = nc_scalar_lookup [of ?nc] nc_blob_lookup [of ?nc, unfolded nc_sent_simps]
  have lk: "dict_lacks d K_COM" "dict_lacks d K_CAPABILITIES"
    using holds_get [OF d(2) cl3(1), of 65536] holds_get [OF d(2) cl3(2), of 65536] L(14,15) l
    by (simp_all add: dict_lacks_def f com_sent_def com_bool_def com_nil_def dresult_def map_of_simps)
  have kt: "map_of (nc_entries ?nc) K_TAGS = Some (concat (map (tag_enc False) ?ts))"
    using L(16) tag_enc_ne by (simp add: tags map_of_simps exI [of "\<lambda>i. i < 129" 0])
  have "dict_value d K_TAGS (concat (map (tag_enc False) ?ts))"
    by (rule holds_value [OF d(2) cl3(3) _ kt]) simp
  then have o: "overlong d" unfolding overlong_def by (intro disjI2 conjI lk(2) exI [of _ ?ts] ts)
  have g: "dict_getUI d K_NETWORK_ID 0 = nc_networkId ?nc" "dict_getUI d K_VERSION 0 = 7"
    using holds_getUI16 [OF d(2) cl [OF legal_keys(2)] L(2)] holds_getUI16 [OF d(2) cl [OF legal_keys(1)] L(1)] by simp_all
  have h: "addr_int (addr_of 0x1122334455) = 0x1122334455" "addr_of 0x1122334455 \<noteq> addr_nil" by code_simp+
  have "nc_issuedTo ?nc = addr_of 0x1122334455" by (simp add: f nc_sample_def)
  then have "unat (addr_int (nc_issuedTo ?nc)) < 16 ^ 10" "addr_of (addr_int (nc_issuedTo ?nc)) \<noteq> addr_nil"
    using h by simp_all
  then have g2: "addr_of (dict_getUI d K_ISSUED_TO 0) \<noteq> addr_nil"
    using holds_getUI(1) [OF d(2) cl [OF legal_keys(5)] L(6)] by simp
  have "nc_networkId ?nc \<noteq> 0" unfolding f by (simp add: nc_sample_def)
  then have "dict_getUI d K_NETWORK_ID 0 \<noteq> 0" "dict_getUI d K_VERSION 0 \<ge> 6" "0 < length d" "length d < 2 ^ 31"
    using g l by simp_all
  then have "nc_fromDictionary d = Inl UndefinedBehaviour"
    using nc_fromDictionary_accepts [of d] g2 lk(1) o by blast
  then show "\<exists>d. nc_toDictionary 65536 ?nc = Inr (d, True) \<and> nc_fromDictionary d = Inl UndefinedBehaviour" using d(1) by blast
qed

end
