(* ===== verification/ZT_TableWalk.thy ===== *)
theory ZT_TableWalk
  imports ZT_Hashtable "HOL-Library.Sublist"
begin

text \<open>
  Walking a hash table with its iterator while entries are erased, as \<^verbatim>\<open>Membership::clean\<close>,
  \<^verbatim>\<open>Network::clean\<close> and \<^verbatim>\<open>SelfAwareness\<close> do. The iterator has already moved on when the entry it
  returned is erased, so the walk still visits every entry of the table it began with.
\<close>

text \<open>The loop erases from the table the iterator walks; the iterator already holds the next bucket.\<close>

fun clean_loop :: "('k \<Rightarrow> nat) \<Rightarrow> ('k \<Rightarrow> 'c \<Rightarrow> bool) \<Rightarrow> nat \<Rightarrow> ('k, 'c) htable \<Rightarrow> ('k, 'c) hiter \<Rightarrow> ('k, 'c) htable" where
  "clean_loop hc keep 0 t it = t"
| "clean_loop hc keep (Suc n) t it =
     (case iter_next t it of
        None \<Rightarrow> t
      | Some ((k, v), it') \<Rightarrow>
          clean_loop hc keep n (if keep k v then t else fst (ht_erase hc k t)) it')"

definition erase_where :: "('k \<Rightarrow> nat) \<Rightarrow> ('k \<Rightarrow> 'c \<Rightarrow> bool) \<Rightarrow> ('k, 'c) htable \<Rightarrow> ('k, 'c) htable" where
  "erase_where hc keep t = clean_loop hc keep (Suc (hcount t)) t (iter_new t)"

lemma iter_next_same:
  "length (buckets t) = length (buckets t0) \<Longrightarrow> (\<And>j. iidx it < j \<Longrightarrow> buckets t ! j = buckets t0 ! j) \<Longrightarrow>
   iter_next t it = iter_next t0 it"
proof (induction t it rule: iter_next.induct)
  case (1 t it)
  show ?case
  proof (cases "irest it")
    case Nil
    show ?thesis
      using 1 Nil
      by (subst (1 2) iter_next.simps) (auto simp: Let_def ht_bc_def)
  qed (simp add: iter_next.simps)
qed

lemma iter_next_chain:
  "suffix (irest it) (buckets t ! iidx it) \<Longrightarrow> iidx it < ht_bc t \<Longrightarrow> iter_next t it = Some (b, it') \<Longrightarrow>
   iidx it \<le> iidx it' \<and> iidx it' < ht_bc t \<and> suffix (b # irest it') (buckets t ! iidx it')"
proof (induction t it rule: iter_next.induct)
  case (1 t it)
  show ?case
  proof (cases "irest it")
    case Nil
    let ?i = "iidx it + 1"
    have lt: "\<not> ?i \<ge> ht_bc t" and nx: "iter_next t \<lparr>iidx = ?i, irest = buckets t ! ?i\<rparr> = Some (b, it')"
      using 1(4) Nil by (simp_all add: iter_next.simps [of t it] Let_def split: if_splits)
    have "iidx \<lparr>iidx = ?i, irest = buckets t ! ?i\<rparr> \<le> iidx it' \<and> iidx it' < ht_bc t \<and>
        suffix (b # irest it') (buckets t ! iidx it')"
      by (rule 1(1) [OF Nil refl lt]) (use lt nx in simp_all)
    then show ?thesis by simp
  next
    case (Cons x xs)
    then show ?thesis using 1 by (auto simp: iter_next.simps [of t it])
  qed
qed

lemma ht_erase_buckets:
  "length (buckets (fst (ht_erase hc k t))) = length (buckets t)"
  "j \<noteq> hc k mod ht_bc t \<Longrightarrow> buckets (fst (ht_erase hc k t)) ! j = buckets t ! j"
  by (simp_all add: ht_erase_def Let_def split: prod.splits bool.splits)

text \<open>
  The walk over a table whose chains behind the iterator may have been changed: it still visits
  the entries of the original table that were left.
\<close>

lemma clean_loop_spec:
  assumes "ht_ok hc t0" "ht_ok hc t" "length (buckets t) = length (buckets t0)"
    and "\<And>j. iidx it < j \<Longrightarrow> buckets t ! j = buckets t0 ! j"
    and "suffix (irest it) (buckets t0 ! iidx it)" "iidx it < ht_bc t0" "length (iter_left t0 it) < n"
  shows "ht_ok hc (clean_loop hc keep n t it) \<and>
    ht_get hc (clean_loop hc keep n t it) =
      (\<lambda>k. if \<exists>v. (k, v) \<in> set (iter_left t0 it) \<and> \<not> keep k v then None else ht_get hc t k)"
  using assms(2-7)
proof (induction n arbitrary: t it)
  case (Suc n)
  note same = iter_next_same [OF Suc.prems(2,3)]
  note nx = iter_next_left [OF Suc.prems(5)]
  show ?case
  proof (cases "iter_left t0 it")
    case Nil
    with nx same show ?thesis using Suc.prems(1) by simp
  next
    case (Cons b bs)
    obtain k v where b: "b = (k, v)" by (cases b)
    from Cons nx obtain it' where it': "iter_next t0 it = Some (b, it')" "iter_left t0 it' = bs" "iidx it' < ht_bc t0"
      by auto
    have ch: "iidx it \<le> iidx it'" "suffix (b # irest it') (buckets t0 ! iidx it')"
      using iter_next_chain [OF Suc.prems(4,5) it'(1)] by auto
    have "(k, v) \<in> set (buckets t0 ! iidx it')" using ch(2) b by (metis set_mono_suffix list.set_intros(1) subsetD)
    then have k: "hc k mod ht_bc t0 = iidx it'"
      using assms(1) it'(3) chains_okD(3) [of hc "buckets t0" "iidx it'" k]
      by (force simp: ht_ok_def ht_bc_def)
    define t1 where "t1 = (if keep k v then t else fst (ht_erase hc k t))"
    have t1: "ht_ok hc t1" "length (buckets t1) = length (buckets t0)"
      "ht_get hc t1 = (if keep k v then ht_get hc t else (ht_get hc t)(k := None))"
      using Suc.prems(1,2) by (simp_all add: t1_def ht_erase_ok ht_erase_buckets)
    have b1: "\<And>j. iidx it' < j \<Longrightarrow> buckets t1 ! j = buckets t0 ! j"
      using Suc.prems(2,3) ch(1) k by (simp add: t1_def ht_erase_buckets ht_bc_def)
    have sf: "suffix (irest it') (buckets t0 ! iidx it')" using ch(2) by (rule suffix_ConsD)
    have ln: "length (iter_left t0 it') < n" using Suc.prems(6) Cons it'(2) by simp
    have "clean_loop hc keep (Suc n) t it = clean_loop hc keep n t1 it'"
      using it'(1) same by (simp add: b t1_def)
    then show ?thesis
      using Suc.IH [OF t1(1,2) b1 sf it'(3) ln] t1(3)
      unfolding Cons it'(2) by (auto simp: b fun_eq_iff)
  qed
qed simp

lemma iter_new_left:
  assumes "ht_ok hc t"
  shows "iter_left t (iter_new t) = ht_entries t" "iidx (iter_new t) < ht_bc t" "length (ht_entries t) = hcount t"
    "irest (iter_new t) = buckets t ! 0" "iidx (iter_new t) = 0"
proof -
  have bs: "buckets t \<noteq> []" using assms by (simp add: ht_ok_def chains_ok_def)
  then show "iidx (iter_new t) < ht_bc t" by (simp add: iter_new_def ht_bc_def)
  show "iter_left t (iter_new t) = ht_entries t"
    using bs by (cases "buckets t") (simp_all add: ht_entries_concat [OF assms] iter_left_def iter_new_def)
  show "length (ht_entries t) = hcount t" using assms by (simp add: ht_entries_concat [OF assms] ht_ok_def)
  show "irest (iter_new t) = buckets t ! 0" "iidx (iter_new t) = 0" by (simp_all add: iter_new_def)
qed

lemma ht_entries_get:
  assumes "ht_ok hc t" shows "(k, v) \<in> set (ht_entries t) \<longleftrightarrow> ht_get hc t k = Some v"
proof -
  have c: "chains_ok hc (buckets t)" using assms by (simp add: ht_ok_def)
  have "map_of (ht_entries t) k = ht_get hc t k"
    by (simp only: ht_entries_concat [OF assms] map_of_concat [OF c] ht_get_chains)
  moreover have "distinct (map fst (ht_entries t))"
    using chains_ok_distinct [OF c] by (simp add: ht_entries_concat [OF assms])
  ultimately show ?thesis by (metis map_of_eq_Some_iff)
qed

text \<open>Exactly the entries that are not to be kept are gone.\<close>

lemma erase_where_ok:
  assumes "ht_ok hc t"
  shows "ht_ok hc (erase_where hc keep t)"
    and "ht_get hc (erase_where hc keep t) k =
      (case ht_get hc t k of Some v \<Rightarrow> if keep k v then Some v else None | None \<Rightarrow> None)"
proof -
  note n = iter_new_left [OF assms]
  have "suffix (irest (iter_new t)) (buckets t ! iidx (iter_new t))" by (simp add: n)
  moreover have "length (iter_left t (iter_new t)) < Suc (hcount t)" by (simp add: n)
  ultimately have "ht_ok hc (erase_where hc keep t) \<and> ht_get hc (erase_where hc keep t) k =
      (case ht_get hc t k of Some v \<Rightarrow> if keep k v then Some v else None | None \<Rightarrow> None)"
    using clean_loop_spec [OF assms assms refl refl _ n(2), of "Suc (hcount t)" keep]
    unfolding n(1) ht_entries_get [OF assms] by (auto simp: erase_where_def split: option.splits)
  then show "ht_ok hc (erase_where hc keep t)" "ht_get hc (erase_where hc keep t) k =
      (case ht_get hc t k of Some v \<Rightarrow> if keep k v then Some v else None | None \<Rightarrow> None)" by auto
qed

end
