(* ===== verification/ZT_Membership.thy ===== *)
theory ZT_Membership
  imports ZT_NetworkConfig ZT_TableWalk
begin

text \<open>
  \<^verbatim>\<open>node/Membership.hpp\<close> and \<^verbatim>\<open>node/Membership.cpp\<close>: what a node knows of one other
  member of one network. The credential tables are the hash tables of \<open>ZT_Hashtable\<close>, cleaned by the walk of \<open>ZT_TableWalk\<close>. The
  templates over the credential type become functions over a \<open>cred_ops\<close> record; the identities
  a verification still needs come back as the list of addresses to look up. Timestamps are
  \<^verbatim>\<open>int64_t\<close>: 64-bit words compared as signed integers, with subtraction wrapping
  where C++ leaves overflow undefined. The notifications to the trace are left out.
\<close>

section \<open>State\<close>

datatype add_result = Rejected | AcceptedNew | AcceptedRedundant | DeferredForWhois

record membership =
  mb_lastUpdatedMulticast :: u64
  mb_comThreshold :: u64
  mb_lastPushed :: u64
  mb_com :: com
  mb_revocations :: "(u64, u64) htable"
  mb_tags :: "(u32, tag) htable"
  mb_caps :: "(u32, capability) htable"
  mb_coos :: "(u32, coo) htable"

definition mb_new :: membership where
  "mb_new = \<lparr>mb_lastUpdatedMulticast = 0, mb_comThreshold = 0, mb_lastPushed = 0, mb_com = com_nil,
     mb_revocations = ht_new 4, mb_tags = ht_new 4, mb_caps = ht_new 4, mb_coos = ht_new 4\<rparr>"

text \<open>What the template code asks of a credential type.\<close>

record 'c cred_ops =
  co_type :: credential_type
  co_id :: "'c \<Rightarrow> u32"
  co_ts :: "'c \<Rightarrow> u64"
  co_new :: 'c

definition tag_ops :: "tag cred_ops" where
  "tag_ops = \<lparr>co_type = CT_TAG, co_id = tag_id, co_ts = tag_ts, co_new = tag_new 0 0 addr_nil 0 0\<rparr>"

definition cap_ops :: "capability cred_ops" where
  "cap_ops = \<lparr>co_type = CT_CAPABILITY, co_id = cap_id, co_ts = cap_ts, co_new = cap_empty\<rparr>"

definition coo_ops :: "coo cred_ops" where
  "coo_ops = \<lparr>co_type = CT_COO, co_id = coo_id, co_ts = coo_ts, co_new = coo_empty\<rparr>"

definition credentialKey :: "u8 \<Rightarrow> u32 \<Rightarrow> u64" where
  "credentialKey t i = push_bit 32 (ucast t) OR ucast i"

section \<open>Queries\<close>

definition multicastLikeGate :: "u64 \<Rightarrow> membership \<Rightarrow> membership \<times> bool" where
  "multicastLikeGate now m =
     (if 60000 \<le>s now - mb_lastUpdatedMulticast m
      then (m\<lparr>mb_lastUpdatedMulticast := now\<rparr>, True) else (m, False))"

definition isAllowedOnNetwork :: "'s crypto \<Rightarrow> netconf \<Rightarrow> identity \<Rightarrow> membership \<Rightarrow> bool" where
  "isAllowedOnNetwork cr nc other m \<longleftrightarrow>
     nc_isPublic nc \<or>
     (mb_comThreshold m <s com_timestamp (mb_com m) \<and> com_agreesWith cr (nc_com nc) (mb_com m) other)"

text \<open>The activity timeout is a build-time constant, here a parameter.\<close>

definition recentlyAssociated :: "u64 \<Rightarrow> u64 \<Rightarrow> membership \<Rightarrow> bool" where
  "recentlyAssociated timeout now m \<longleftrightarrow>
     com_bool (mb_com m) \<and> now - com_timestamp (mb_com m) <s timeout"

definition ts_delta :: "u64 \<Rightarrow> u64 \<Rightarrow> u64" where
  "ts_delta a b = (if b \<le>s a then a - b else b - a)"

definition credentialTimestampValid :: "'c cred_ops \<Rightarrow> netconf \<Rightarrow> membership \<Rightarrow> 'c \<Rightarrow> bool" where
  "credentialTimestampValid ops nc m c =
     (let ts = co_ts ops c in
      if ts_delta ts (nc_timestamp nc) \<le>s nc_credentialTimeMaxDelta nc
      then (case ht_get hc_u64 (mb_revocations m) (credentialKey (credential_code (co_type ops)) (co_id ops c)) of
              None \<Rightarrow> True
            | Some threshold \<Rightarrow> threshold <s ts)
      else False)"

definition getTag :: "netconf \<Rightarrow> u32 \<Rightarrow> membership \<Rightarrow> tag option" where
  "getTag nc i m =
     (case ht_get hc_u32 (mb_tags m) i of
        None \<Rightarrow> None
      | Some t \<Rightarrow> if credentialTimestampValid tag_ops nc m t then Some t else None)"

text \<open>Emulated ownership: the first static IP that is the own derived address decides.\<close>

definition ndp_prefix :: "netconf \<Rightarrow> inet \<Rightarrow> nat \<Rightarrow> inet \<Rightarrow> bool" where
  "ndp_prefix nc own n ip \<longleftrightarrow>
     list_ex (\<lambda>s. inet_ipsEqual s own) (nc_staticIps nc) \<and> take n (ip6_b ip) = take n (ip6_b own)"

definition isV6NDPEmulated :: "netconf \<Rightarrow> inet \<Rightarrow> bool" where
  "isV6NDPEmulated nc ip \<longleftrightarrow>
     inet_isV6 ip \<and> nc_ndpEmulation nc \<and>
     (ndp_prefix nc (inet_makeIpv66plane (nc_networkId nc) (addr_int (nc_issuedTo nc))) 5 ip \<or>
      ndp_prefix nc (inet_makeIpv6rfc4193 (nc_networkId nc) (addr_int (nc_issuedTo nc))) 11 ip)"

fun coo_search :: "(coo \<Rightarrow> bool) \<Rightarrow> (coo \<Rightarrow> bool res) \<Rightarrow> nat \<Rightarrow> (u32, coo) htable \<Rightarrow> (u32, coo) hiter \<Rightarrow> bool res" where
  "coo_search valid own 0 t it = Inr False"
| "coo_search valid own (Suc n) t it =
     (case iter_next t it of
        None \<Rightarrow> Inr False
      | Some ((k, v), it') \<Rightarrow>
          if valid v
          then bind_res (own v) (\<lambda>o1. if o1 then Inr True else coo_search valid own n t it')
          else coo_search valid own n t it')"

text \<open>\<open>next\<close> returns at most one entry per stored credential, so that many steps and one are enough.\<close>

definition hasCertificateOfOwnershipFor_ip :: "netconf \<Rightarrow> inet \<Rightarrow> membership \<Rightarrow> bool res" where
  "hasCertificateOfOwnershipFor_ip nc ip m =
     bind_res (coo_search (credentialTimestampValid coo_ops nc m) (\<lambda>c. coo_owns_ip c ip)
         (Suc (hcount (mb_coos m))) (mb_coos m) (iter_new (mb_coos m)))
       (\<lambda>o1. if o1 then Inr True else Inr (isV6NDPEmulated nc ip))"

definition hasCertificateOfOwnershipFor_mac :: "netconf \<Rightarrow> mac \<Rightarrow> membership \<Rightarrow> bool res" where
  "hasCertificateOfOwnershipFor_mac nc ma m =
     coo_search (credentialTimestampValid coo_ops nc m) (\<lambda>c. coo_owns_mac c ma)
       (Suc (hcount (mb_coos m))) (mb_coos m) (iter_new (mb_coos m))"

section \<open>Adding credentials\<close>

definition mb_addCom :: "'s env \<Rightarrow> com \<Rightarrow> membership \<Rightarrow> add_result \<times> membership \<times> address list" where
  "mb_addCom e c m =
     (let newts = com_timestamp c in
      if newts \<le>s mb_comThreshold m then (Rejected, m, [])
      else if newts <s com_timestamp (mb_com m) then (Rejected, m, [])
      else if com_eq (mb_com m) c then (AcceptedRedundant, m, [])
      else
        (case com_verify e c of
           (r, ws) \<Rightarrow>
             if r = 0 then (AcceptedNew, m\<lparr>mb_com := c\<rparr>, ws)
             else if r = 1 then (DeferredForWhois, m, ws)
             else (Rejected, m, ws)))"

definition addCredImpl ::
  "(nat \<Rightarrow> bool) \<Rightarrow> ('c \<Rightarrow> int \<times> address list) \<Rightarrow> 'c cred_ops \<Rightarrow> (u64, u64) htable \<Rightarrow> 'c \<Rightarrow> (u32, 'c) htable \<Rightarrow>
     add_result \<times> (u32, 'c) htable \<times> address list" where
  "addCredImpl alloc verify ops revs cred remote =
     (let rc = ht_get hc_u32 remote (co_id ops cred) in
      if (case rc of Some old \<Rightarrow> co_ts ops cred <s co_ts ops old | None \<Rightarrow> False) then (Rejected, remote, [])
      else if rc = Some cred then (AcceptedRedundant, remote, [])
      else if (case ht_get hc_u64 revs (credentialKey (credential_code (co_type ops)) (co_id ops cred)) of
                 Some rt \<Rightarrow> co_ts ops cred \<le>s rt | None \<Rightarrow> False)
      then (Rejected, remote, [])
      else
        (case verify cred of
           (r, ws) \<Rightarrow>
             if r = 0 then
               (AcceptedNew,
                (let remote' = (if rc = None then ht_index alloc hc_u32 (co_new ops) (co_id ops cred) remote
                                else remote)
                 in ht_set alloc hc_u32 (co_id ops cred) cred remote'), ws)
             else if r = 1 then (DeferredForWhois, remote, ws)
             else (Rejected, remote, ws)))"

definition mb_addTag :: "(nat \<Rightarrow> bool) \<Rightarrow> 's env \<Rightarrow> tag \<Rightarrow> membership \<Rightarrow> add_result \<times> membership \<times> address list" where
  "mb_addTag alloc e t m =
     (case addCredImpl alloc (tag_verify e) tag_ops (mb_revocations m) t (mb_tags m) of
        (r, t', ws) \<Rightarrow> (r, m\<lparr>mb_tags := t'\<rparr>, ws))"

definition mb_addCap :: "(nat \<Rightarrow> bool) \<Rightarrow> 's env \<Rightarrow> capability \<Rightarrow> membership \<Rightarrow> add_result \<times> membership \<times> address list" where
  "mb_addCap alloc e c m =
     (case addCredImpl alloc (cap_verify e) cap_ops (mb_revocations m) c (mb_caps m) of
        (r, t', ws) \<Rightarrow> (r, m\<lparr>mb_caps := t'\<rparr>, ws))"

definition mb_addCoo :: "(nat \<Rightarrow> bool) \<Rightarrow> 's env \<Rightarrow> coo \<Rightarrow> membership \<Rightarrow> add_result \<times> membership \<times> address list" where
  "mb_addCoo alloc e c m =
     (case addCredImpl alloc (coo_verify e) coo_ops (mb_revocations m) c (mb_coos m) of
        (r, t', ws) \<Rightarrow> (r, m\<lparr>mb_coos := t'\<rparr>, ws))"

text \<open>
  A revocation of a credential raises the threshold of its key; where it does, it also sets the
  certificate threshold, as the code has it.
\<close>

definition mb_addRev :: "(nat \<Rightarrow> bool) \<Rightarrow> 's env \<Rightarrow> revocation \<Rightarrow> membership \<Rightarrow> add_result \<times> membership \<times> address list" where
  "mb_addRev alloc e r m =
     (case rev_verify e r of
        (v, ws) \<Rightarrow>
          if v = 1 then (DeferredForWhois, m, ws)
          else if v \<noteq> 0 then (Rejected, m, ws)
          else if rev_type r = credential_code CT_COM then
            (if mb_comThreshold m <s rev_threshold r
             then (AcceptedNew, m\<lparr>mb_comThreshold := rev_threshold r\<rparr>, ws)
             else (AcceptedRedundant, m, ws))
          else if rev_type r = credential_code CT_CAPABILITY \<or> rev_type r = credential_code CT_TAG \<or>
                  rev_type r = credential_code CT_COO then
            (let key = credentialKey (rev_type r) (rev_credentialId r);
                 revs = ht_index alloc hc_u64 0 key (mb_revocations m)
             in case ht_get hc_u64 revs key of
                  Some rt \<Rightarrow>
                    (if rt <s rev_threshold r
                     then (AcceptedNew, m\<lparr>mb_revocations := ht_set alloc hc_u64 key (rev_threshold r) revs,
                            mb_comThreshold := rev_threshold r\<rparr>, ws)
                     else (AcceptedRedundant, m\<lparr>mb_revocations := revs\<rparr>, ws))
                | None \<Rightarrow> (AcceptedRedundant, m\<lparr>mb_revocations := revs\<rparr>, ws))
          else (Rejected, m, ws))"

section \<open>Cleaning\<close>

definition cleanCredImpl :: "'c cred_ops \<Rightarrow> netconf \<Rightarrow> membership \<Rightarrow> (u32, 'c) htable \<Rightarrow> (u32, 'c) htable" where
  "cleanCredImpl ops nc m t =
     erase_where hc_u32 (\<lambda>_. credentialTimestampValid ops nc m) t"

definition mb_clean :: "netconf \<Rightarrow> membership \<Rightarrow> membership" where
  "mb_clean nc m =
     (let m1 = m\<lparr>mb_tags := cleanCredImpl tag_ops nc m (mb_tags m)\<rparr>;
          m2 = m1\<lparr>mb_caps := cleanCredImpl cap_ops nc m1 (mb_caps m1)\<rparr>
      in m2\<lparr>mb_coos := cleanCredImpl coo_ops nc m2 (mb_coos m2)\<rparr>)"

text \<open>The capability iterator skips what is not valid now.\<close>

fun capIter_next :: "netconf \<Rightarrow> membership \<Rightarrow> nat \<Rightarrow> (u32, capability) hiter \<Rightarrow>
    (capability \<times> (u32, capability) hiter) option" where
  "capIter_next nc m 0 it = None"
| "capIter_next nc m (Suc n) it =
     (case iter_next (mb_caps m) it of
        None \<Rightarrow> None
      | Some ((k, c), it') \<Rightarrow>
          if credentialTimestampValid cap_ops nc m c then Some (c, it') else capIter_next nc m n it')"

section \<open>The credential tables\<close>

text \<open>Every stored credential is filed under its id and was verified.\<close>

definition table_ok :: "('c \<Rightarrow> int \<times> address list) \<Rightarrow> 'c cred_ops \<Rightarrow> (u32, 'c) htable \<Rightarrow> bool" where
  "table_ok verify ops t \<longleftrightarrow> ht_ok hc_u32 t \<and>
     (\<forall>k c. ht_get hc_u32 t k = Some c \<longrightarrow> co_id ops c = k \<and> fst (verify c) = 0)"

definition mb_ok :: "'s env \<Rightarrow> membership \<Rightarrow> bool" where
  "mb_ok e m \<longleftrightarrow> ht_ok hc_u64 (mb_revocations m) \<and>
     table_ok (tag_verify e) tag_ops (mb_tags m) \<and> table_ok (cap_verify e) cap_ops (mb_caps m) \<and>
     table_ok (coo_verify e) coo_ops (mb_coos m) \<and>
     (mb_com m = com_nil \<or> fst (com_verify e (mb_com m)) = 0)"

definition revoked :: "(u64, u64) htable \<Rightarrow> 'c cred_ops \<Rightarrow> 'c \<Rightarrow> bool" where
  "revoked revs ops c \<longleftrightarrow>
     (\<exists>rt. ht_get hc_u64 revs (credentialKey (credential_code (co_type ops)) (co_id ops c)) = Some rt \<and>
        co_ts ops c \<le>s rt)"

lemma addCredImpl_spec:
  assumes ok: "table_ok verify ops t" and r: "addCredImpl alloc verify ops revs c t = (r, t', ws)"
  shows "table_ok verify ops t'"
    and "ht_get hc_u32 t' = (if r = AcceptedNew then (ht_get hc_u32 t)(co_id ops c \<mapsto> c) else ht_get hc_u32 t)"
    and "r = AcceptedNew \<longleftrightarrow> fst (verify c) = 0 \<and> \<not> revoked revs ops c \<and> ht_get hc_u32 t (co_id ops c) \<noteq> Some c \<and>
      (\<forall>old. ht_get hc_u32 t (co_id ops c) = Some old \<longrightarrow> co_ts ops old \<le>s co_ts ops c)"
proof -
  let ?u = "if ht_get hc_u32 t (co_id ops c) = None then ht_index alloc hc_u32 (co_new ops) (co_id ops c) t else t"
  have ht: "ht_ok hc_u32 t" using ok by (simp add: table_ok_def)
  have u: "ht_ok hc_u32 ?u" using ht by (simp add: ht_index_ok)
  have gu: "(ht_get hc_u32 ?u)(co_id ops c \<mapsto> c) = (ht_get hc_u32 t)(co_id ops c \<mapsto> c)"
    using ht by (auto simp: ht_index_ok map_touch_def fun_eq_iff split: option.splits)
  have rev: "revoked revs ops c \<longleftrightarrow>
      (case ht_get hc_u64 revs (credentialKey (credential_code (co_type ops)) (co_id ops c)) of
         Some rt \<Rightarrow> co_ts ops c \<le>s rt | None \<Rightarrow> False)"
    by (auto simp: revoked_def split: option.splits)
  have old: "(\<forall>old. ht_get hc_u32 t (co_id ops c) = Some old \<longrightarrow> co_ts ops old \<le>s co_ts ops c) \<longleftrightarrow>
      \<not> (case ht_get hc_u32 t (co_id ops c) of Some old \<Rightarrow> co_ts ops c <s co_ts ops old | None \<Rightarrow> False)"
    by (auto simp: word_sless_alt word_sle_eq split: option.splits)
  have s: "(r, t') =
     (if (case ht_get hc_u32 t (co_id ops c) of Some old \<Rightarrow> co_ts ops c <s co_ts ops old | None \<Rightarrow> False)
      then (Rejected, t)
      else if ht_get hc_u32 t (co_id ops c) = Some c then (AcceptedRedundant, t)
      else if revoked revs ops c then (Rejected, t)
      else if fst (verify c) = 0 then (AcceptedNew, ht_set alloc hc_u32 (co_id ops c) c ?u)
      else if fst (verify c) = 1 then (DeferredForWhois, t) else (Rejected, t))"
    using r by (auto simp: addCredImpl_def Let_def rev split: prod.splits if_splits option.splits)
  show get: "ht_get hc_u32 t' = (if r = AcceptedNew then (ht_get hc_u32 t)(co_id ops c \<mapsto> c) else ht_get hc_u32 t)"
    using s ht_set_ok(2) [OF u] gu by (simp split: if_splits)
  show new: "r = AcceptedNew \<longleftrightarrow> fst (verify c) = 0 \<and> \<not> revoked revs ops c \<and> ht_get hc_u32 t (co_id ops c) \<noteq> Some c \<and>
      (\<forall>old. ht_get hc_u32 t (co_id ops c) = Some old \<longrightarrow> co_ts ops old \<le>s co_ts ops c)"
    unfolding old using s by (simp split: if_splits)
  have "ht_ok hc_u32 t'" using s ht_set_ok(1) [OF u] ht by (simp split: if_splits)
  then show "table_ok verify ops t'"
    using ok get new by (auto simp: table_ok_def split: if_splits)
qed

section \<open>Cleaning while iterating\<close>

lemma cleanCredImpl_spec:
  assumes "ht_ok hc_u32 t"
  shows "ht_ok hc_u32 (cleanCredImpl ops nc m t) \<and>
    ht_get hc_u32 (cleanCredImpl ops nc m t) k =
      (case ht_get hc_u32 t k of
         Some c \<Rightarrow> if credentialTimestampValid ops nc m c then Some c else None | None \<Rightarrow> None)"
  using erase_where_ok [OF assms] by (simp add: cleanCredImpl_def)

lemma table_ok_clean:
  "table_ok verify ops t \<Longrightarrow> table_ok verify ops (cleanCredImpl ops nc m t)"
  using cleanCredImpl_spec [of t ops nc m] by (auto simp: table_ok_def split: option.splits if_splits)

lemma timestampValid_cong:
  "mb_revocations m' = mb_revocations m \<Longrightarrow> credentialTimestampValid ops nc m' = credentialTimestampValid ops nc m"
  by (simp add: fun_eq_iff credentialTimestampValid_def)

lemma clean_cong:
  "mb_revocations m' = mb_revocations m \<Longrightarrow> cleanCredImpl ops nc m' t = cleanCredImpl ops nc m t"
  by (simp only: cleanCredImpl_def timestampValid_cong [of m' m])

lemma clean_fields:
  "mb_tags (mb_clean nc m) = cleanCredImpl tag_ops nc m (mb_tags m)"
  "mb_caps (mb_clean nc m) = cleanCredImpl cap_ops nc m (mb_caps m)"
  "mb_coos (mb_clean nc m) = cleanCredImpl coo_ops nc m (mb_coos m)"
  "mb_revocations (mb_clean nc m) = mb_revocations m"
  "mb_com (mb_clean nc m) = mb_com m" "mb_comThreshold (mb_clean nc m) = mb_comThreshold m"
  by (simp_all add: mb_clean_def Let_def clean_cong [of "m\<lparr>mb_tags := x\<rparr>" m for x]
      clean_cong [of "m\<lparr>mb_tags := x, mb_caps := y\<rparr>" m for x y])

lemma clean_get_iff:
  "ht_ok hc_u32 t \<Longrightarrow> ht_get hc_u32 (cleanCredImpl ops nc m t) k = Some c \<longleftrightarrow>
    ht_get hc_u32 t k = Some c \<and> credentialTimestampValid ops nc m c"
  using cleanCredImpl_spec [of t ops nc m k] by (auto split: option.splits)

section \<open>Lookup and ownership\<close>

lemma getTag_iff:
  "getTag nc i m = Some t \<longleftrightarrow>
    ht_get hc_u32 (mb_tags m) i = Some t \<and> credentialTimestampValid tag_ops nc m t"
  by (auto simp: getTag_def split: option.splits)

text \<open>Ownership: a valid stored certificate lists the thing, or it is emulated.\<close>

lemma coo_search_spec:
  assumes "iidx it < ht_bc t" and "length (iter_left t it) < n"
    and "\<And>k c. (k, c) \<in> set (iter_left t it) \<Longrightarrow> valid c \<Longrightarrow> \<exists>x. own c = Inr x"
  shows "coo_search valid own n t it =
    Inr (\<exists>k c. (k, c) \<in> set (iter_left t it) \<and> valid c \<and> own c = Inr True)"
  using assms
proof (induction n arbitrary: it)
  case (Suc n)
  note nx = iter_next_left [OF Suc.prems(1)]
  show ?case
  proof (cases "iter_left t it")
    case Nil
    with nx show ?thesis by simp
  next
    case (Cons b bs)
    obtain k c where b: "b = (k, c)" by (cases b)
    from Cons nx obtain it' where it': "iter_next t it = Some (b, it')" "iter_left t it' = bs" "iidx it' < ht_bc t"
      by auto
    have ih: "coo_search valid own n t it' =
        Inr (\<exists>k c. (k, c) \<in> set bs \<and> valid c \<and> own c = Inr True)"
      unfolding it'(2) [symmetric]
      by (rule Suc.IH [OF it'(3)]) (use Suc.prems(2,3) Cons it'(2) in auto)
    show ?thesis
    proof (cases "valid c")
      case True
      then obtain x where "own c = Inr x" using Suc.prems(3) [of k c] Cons b by auto
      then show ?thesis using ih it'(1) True Cons by (cases x) (fastforce simp: b)+
    qed (use ih it'(1) Cons in \<open>auto simp: b\<close>)
  qed
qed simp

lemma coo_owns_defined:
  assumes "coo_thingCount c \<le> 16"
  shows "\<exists>x. coo_owns_thing c t v l = Inr x"
proof -
  have "\<exists>x. coo_owns_loop c t v l is = Inr x" if "\<forall>i\<in>set is. i < 16" for "is"
    using that by (induction "is") auto
  moreover have "unat (coo_thingCount c) \<le> 16" using assms by (simp add: word_le_nat_alt)
  ultimately show ?thesis by (auto simp: coo_owns_thing_def)
qed

lemma coo_search_stored:
  assumes ok: "ht_ok hc_u32 t"
    and d: "\<And>k c. ht_get hc_u32 t k = Some c \<Longrightarrow> \<exists>x. own c = Inr x"
  shows "coo_search valid own (Suc (hcount t)) t (iter_new t) =
    Inr (\<exists>k c. ht_get hc_u32 t k = Some c \<and> valid c \<and> own c = Inr True)"
proof -
  note n = iter_new_left [OF ok]
  have "coo_search valid own (Suc (hcount t)) t (iter_new t) =
      Inr (\<exists>k c. (k, c) \<in> set (iter_left t (iter_new t)) \<and> valid c \<and> own c = Inr True)"
    by (rule coo_search_spec [OF n(2)])
      (use n d in \<open>auto simp: ht_entries_get [OF ok]\<close>)
  then show ?thesis unfolding n(1) ht_entries_get [OF ok] .
qed

text \<open>
  A member owns an IP address exactly when one of its stored certificates of ownership
  that is valid now lists it, or, with NDP emulation, when it is in the prefix of a derived
  address the node itself has; a MAC address only by a certificate. No lookup leaves the arrays
  when the stored counts are in range.
\<close>

lemma ownership_exact:
  assumes ok: "mb_ok e m"
    and cnt: "\<forall>k c. ht_get hc_u32 (mb_coos m) k = Some c \<longrightarrow> coo_thingCount c \<le> 16"
  shows "hasCertificateOfOwnershipFor_ip nc ip m =
      Inr ((\<exists>k c. ht_get hc_u32 (mb_coos m) k = Some c \<and> credentialTimestampValid coo_ops nc m c \<and>
          coo_owns_ip c ip = Inr True) \<or> isV6NDPEmulated nc ip) \<and>
    hasCertificateOfOwnershipFor_mac nc ma m =
      Inr (\<exists>k c. ht_get hc_u32 (mb_coos m) k = Some c \<and> credentialTimestampValid coo_ops nc m c \<and>
          coo_owns_mac c ma = Inr True)"
proof -
  have t: "ht_ok hc_u32 (mb_coos m)" using ok by (simp add: mb_ok_def table_ok_def)
  have ip: "\<exists>x. coo_owns_ip c ip = Inr x" if "ht_get hc_u32 (mb_coos m) k = Some c" for k c
    using cnt that coo_owns_defined by (simp add: coo_owns_ip_def) blast
  have ma: "\<exists>x. coo_owns_mac c ma = Inr x" if "ht_get hc_u32 (mb_coos m) k = Some c" for k c
    using cnt that coo_owns_defined by (simp add: coo_owns_mac_def)
  have s: "coo_search valid (\<lambda>c. coo_owns_ip c ip) (Suc (hcount (mb_coos m))) (mb_coos m) (iter_new (mb_coos m)) =
      Inr (\<exists>k c. ht_get hc_u32 (mb_coos m) k = Some c \<and> valid c \<and> coo_owns_ip c ip = Inr True)"
    "coo_search valid (\<lambda>c. coo_owns_mac c ma) (Suc (hcount (mb_coos m))) (mb_coos m) (iter_new (mb_coos m)) =
      Inr (\<exists>k c. ht_get hc_u32 (mb_coos m) k = Some c \<and> valid c \<and> coo_owns_mac c ma = Inr True)" for valid
    by (rule coo_search_stored [OF t], erule ip, rule coo_search_stored [OF t], erule ma)
  show ?thesis
    unfolding hasCertificateOfOwnershipFor_ip_def hasCertificateOfOwnershipFor_mac_def s by auto
qed

text \<open>
  Claim C35: \<open>clean\<close>, which erases from the very tables it is iterating over, leaves of each table
  exactly the credentials that are valid now, keeps the tables well formed and touches no other field:
  revocations, certificate, thresholds and times are as before. So, under the configuration it cleaned
  for, the membership gives the same answers: every tag lookup, every validity test, whether the
  member is allowed on the network and, when the stored certificates of ownership have counts in
  range, which IP and MAC addresses it owns.
\<close>

theorem mb_clean_exact:
  assumes ok: "mb_ok e m"
  shows "mb_ok e (mb_clean nc m) \<and>
    (\<forall>i t. ht_get hc_u32 (mb_tags (mb_clean nc m)) i = Some t \<longleftrightarrow>
      ht_get hc_u32 (mb_tags m) i = Some t \<and> credentialTimestampValid tag_ops nc m t) \<and>
    (\<forall>i c. ht_get hc_u32 (mb_caps (mb_clean nc m)) i = Some c \<longleftrightarrow>
      ht_get hc_u32 (mb_caps m) i = Some c \<and> credentialTimestampValid cap_ops nc m c) \<and>
    (\<forall>i c. ht_get hc_u32 (mb_coos (mb_clean nc m)) i = Some c \<longleftrightarrow>
      ht_get hc_u32 (mb_coos m) i = Some c \<and> credentialTimestampValid coo_ops nc m c) \<and>
    (mb_clean nc m)\<lparr>mb_tags := mb_tags m, mb_caps := mb_caps m, mb_coos := mb_coos m\<rparr> = m \<and>
    (\<forall>i. getTag nc i (mb_clean nc m) = getTag nc i m) \<and>
    credentialTimestampValid tag_ops nc (mb_clean nc m) = credentialTimestampValid tag_ops nc m \<and>
    credentialTimestampValid cap_ops nc (mb_clean nc m) = credentialTimestampValid cap_ops nc m \<and>
    credentialTimestampValid coo_ops nc (mb_clean nc m) = credentialTimestampValid coo_ops nc m \<and>
    isAllowedOnNetwork cr nc other (mb_clean nc m) = isAllowedOnNetwork cr nc other m \<and>
    ((\<forall>k c. ht_get hc_u32 (mb_coos m) k = Some c \<longrightarrow> coo_thingCount c \<le> 16) \<longrightarrow>
      (\<forall>ip. hasCertificateOfOwnershipFor_ip nc ip (mb_clean nc m) = hasCertificateOfOwnershipFor_ip nc ip m) \<and>
      (\<forall>ma. hasCertificateOfOwnershipFor_mac nc ma (mb_clean nc m) = hasCertificateOfOwnershipFor_mac nc ma m))"
proof -
  have t: "ht_ok hc_u32 (mb_tags m)" "ht_ok hc_u32 (mb_caps m)" "ht_ok hc_u32 (mb_coos m)"
    using ok by (simp_all add: mb_ok_def table_ok_def)
  have ok': "mb_ok e (mb_clean nc m)"
    using ok by (simp add: mb_ok_def clean_fields table_ok_clean)
  have v: "credentialTimestampValid ops nc (mb_clean nc m) = credentialTimestampValid ops nc m" for ops :: "'c cred_ops"
    by (rule timestampValid_cong) (simp add: clean_fields)
  have tag: "getTag nc i (mb_clean nc m) = getTag nc i m" for i
    using cleanCredImpl_spec [OF t(1), of tag_ops nc m i]
    by (simp add: getTag_def v clean_fields split: option.splits)
  have frame: "(mb_clean nc m)\<lparr>mb_tags := mb_tags m, mb_caps := mb_caps m, mb_coos := mb_coos m\<rparr> = m"
    by (simp add: mb_clean_def Let_def)
  have allowed: "isAllowedOnNetwork cr nc other (mb_clean nc m) = isAllowedOnNetwork cr nc other m"
    by (simp add: isAllowedOnNetwork_def clean_fields)
  have own: "hasCertificateOfOwnershipFor_ip nc ip (mb_clean nc m) = hasCertificateOfOwnershipFor_ip nc ip m \<and>
      hasCertificateOfOwnershipFor_mac nc ma (mb_clean nc m) = hasCertificateOfOwnershipFor_mac nc ma m"
    if c: "\<forall>k c. ht_get hc_u32 (mb_coos m) k = Some c \<longrightarrow> coo_thingCount c \<le> 16" for ip ma
  proof -
    have c': "\<forall>k c. ht_get hc_u32 (mb_coos (mb_clean nc m)) k = Some c \<longrightarrow> coo_thingCount c \<le> 16"
      using c unfolding clean_fields clean_get_iff [OF t(3)] by blast
    show ?thesis
      using ownership_exact [OF ok c] ownership_exact [OF ok' c']
      by (auto simp: clean_fields clean_get_iff [OF t(3)] timestampValid_cong [of "mb_clean nc m" m])
  qed
  show ?thesis
    using ok' frame v [of tag_ops] v [of cap_ops] v [of coo_ops] tag allowed own
    by (simp add: clean_fields clean_get_iff [OF t(1)] clean_get_iff [OF t(2)] clean_get_iff [OF t(3)])
qed

section \<open>The membership as a state machine\<close>

text \<open>One step for every operation that changes the membership.\<close>

inductive mb_step :: "(nat \<Rightarrow> bool) \<Rightarrow> 's env \<Rightarrow> membership \<Rightarrow> membership \<Rightarrow> bool" for alloc e where
  Com: "mb_addCom e c m = (r, m', ws) \<Longrightarrow> mb_step alloc e m m'"
| Tag: "mb_addTag alloc e t m = (r, m', ws) \<Longrightarrow> mb_step alloc e m m'"
| Cap: "mb_addCap alloc e p m = (r, m', ws) \<Longrightarrow> mb_step alloc e m m'"
| Coo: "mb_addCoo alloc e o1 m = (r, m', ws) \<Longrightarrow> mb_step alloc e m m'"
| Rev: "mb_addRev alloc e v m = (r, m', ws) \<Longrightarrow> mb_step alloc e m m'"
| Clean: "mb_step alloc e m (mb_clean nc m)"
| Gate: "multicastLikeGate now m = (m', b) \<Longrightarrow> mb_step alloc e m m'"
| Push: "mb_step alloc e m (m\<lparr>mb_lastPushed := now\<rparr>)"

inductive mb_run :: "(nat \<Rightarrow> bool) \<Rightarrow> 's env \<Rightarrow> membership \<Rightarrow> membership \<Rightarrow> bool" for alloc e where
  Refl: "mb_run alloc e m m"
| Step: "mb_run alloc e m m1 \<Longrightarrow> mb_step alloc e m1 m2 \<Longrightarrow> mb_run alloc e m m2"

definition rev_key :: "revocation \<Rightarrow> u64" where
  "rev_key r = credentialKey (rev_type r) (rev_credentialId r)"

definition threshold_of :: "membership \<Rightarrow> u64 \<Rightarrow> u64 option" where
  "threshold_of m k = ht_get hc_u64 (mb_revocations m) k"

text \<open>The effect of a revocation on the threshold table.\<close>

lemma mb_addRev_spec:
  assumes ok: "ht_ok hc_u64 (mb_revocations m)" and r: "mb_addRev alloc e v m = (r, m', ws)"
  shows "ht_ok hc_u64 (mb_revocations m')"
    and "mb_tags m' = mb_tags m" "mb_caps m' = mb_caps m" "mb_coos m' = mb_coos m" "mb_com m' = mb_com m"
    and "threshold_of m k = Some x \<Longrightarrow> \<exists>y. threshold_of m' k = Some y \<and> x \<le>s y"
    and "fst (rev_verify e v) = 0 \<Longrightarrow> rev_type v \<in> {credential_code CT_CAPABILITY, credential_code CT_TAG, credential_code CT_COO} \<Longrightarrow>
      \<exists>y. threshold_of m' (rev_key v) = Some y \<and> rev_threshold v \<le>s y"
proof -
  let ?k = "rev_key v"
  define revs where "revs = ht_index alloc hc_u64 0 ?k (mb_revocations m)"
  have rok: "ht_ok hc_u64 revs" and rget: "ht_get hc_u64 revs = map_touch 0 ?k (ht_get hc_u64 (mb_revocations m))"
    using ok by (simp_all add: revs_def ht_index_ok)
  obtain rt where rt: "ht_get hc_u64 revs ?k = Some rt"
    by (cases "ht_get hc_u64 (mb_revocations m) ?k") (auto simp: rget map_touch_def)
  have keep: "threshold_of m k = Some x \<Longrightarrow> ht_get hc_u64 revs k = Some x" for k x
    by (auto simp: rget map_touch_def threshold_of_def split: option.splits)
  have set: "ht_ok hc_u64 (ht_set alloc hc_u64 ?k x revs)"
      "ht_get hc_u64 (ht_set alloc hc_u64 ?k x revs) = (ht_get hc_u64 revs)(?k \<mapsto> x)" for x
    using rok by (simp_all add: ht_set_ok)
  have codes: "credential_code CT_COM \<notin> {credential_code CT_CAPABILITY, credential_code CT_TAG, credential_code CT_COO}"
    by (simp add: credential_code_def)
  have cases: "(m' = m \<or> (\<exists>x. m' = m\<lparr>mb_comThreshold := x\<rparr>)) \<and>
        \<not> (fst (rev_verify e v) = 0 \<and> rev_type v \<in> {credential_code CT_CAPABILITY, credential_code CT_TAG, credential_code CT_COO})
      \<or> rt <s rev_threshold v \<and> m' = m\<lparr>mb_revocations := ht_set alloc hc_u64 ?k (rev_threshold v) revs,
          mb_comThreshold := rev_threshold v\<rparr>
      \<or> \<not> rt <s rev_threshold v \<and> m' = m\<lparr>mb_revocations := revs\<rparr>"
    using r rt codes unfolding mb_addRev_def Let_def revs_def rev_key_def
    by (auto split: prod.splits if_splits)
  show "ht_ok hc_u64 (mb_revocations m')" using cases ok rok set by auto
  show "mb_tags m' = mb_tags m" "mb_caps m' = mb_caps m" "mb_coos m' = mb_coos m" "mb_com m' = mb_com m"
    using cases by auto
  show "\<exists>y. threshold_of m' k = Some y \<and> x \<le>s y" if x: "threshold_of m k = Some x"
    using cases keep [OF x] rt x set
    by (auto simp: threshold_of_def word_sless_alt word_sle_eq)
  show "\<exists>y. threshold_of m' ?k = Some y \<and> rev_threshold v \<le>s y"
    if "fst (rev_verify e v) = 0"
      "rev_type v \<in> {credential_code CT_CAPABILITY, credential_code CT_TAG, credential_code CT_COO}"
    using cases that rt set
    by (auto simp: threshold_of_def word_sless_alt word_sle_eq)
qed

lemma mb_addCom_cases:
  assumes "mb_addCom e c m = (r, m', ws)"
  shows "m' = m \<or> m' = m\<lparr>mb_com := c\<rparr> \<and> fst (com_verify e c) = 0"
  using assms by (auto simp: mb_addCom_def Let_def split: prod.splits if_splits)

lemma mb_step_keeps:
  assumes "mb_step alloc e m m'" and ok: "ht_ok hc_u64 (mb_revocations m)"
  shows "ht_ok hc_u64 (mb_revocations m') \<and>
    (\<forall>k x. threshold_of m k = Some x \<longrightarrow> (\<exists>y. threshold_of m' k = Some y \<and> x \<le>s y))"
proof -
  have refl: "x \<le>s x" for x :: u64 by (simp add: word_sle_eq)
  show ?thesis
    using assms(1)
  proof cases
    case (Rev v r ws)
    show ?thesis using mb_addRev_spec(1,6) [OF ok Rev] by blast
  qed (use ok refl in \<open>auto simp: threshold_of_def mb_addTag_def mb_addCap_def mb_addCoo_def clean_fields
      multicastLikeGate_def dest: mb_addCom_cases split: prod.splits if_splits\<close>)
qed

lemma mb_run_keeps:
  assumes "mb_run alloc e m m'" and "ht_ok hc_u64 (mb_revocations m)" and "threshold_of m k = Some x"
  shows "ht_ok hc_u64 (mb_revocations m') \<and> (\<exists>y. threshold_of m' k = Some y \<and> x \<le>s y)"
  using assms
proof (induction rule: mb_run.induct)
  case (Refl m)
  then show ?case by (auto simp: word_sle_eq)
next
  case (Step m m1 m2)
  then obtain y where y: "ht_ok hc_u64 (mb_revocations m1)" "threshold_of m1 k = Some y" "x \<le>s y" by blast
  obtain z where "ht_ok hc_u64 (mb_revocations m2)" "threshold_of m2 k = Some z" "y \<le>s z"
    using mb_step_keeps [OF Step.hyps(2) y(1)] y(2) by blast
  then show ?case using y(3) by (auto simp: word_sle_eq)
qed

lemma mb_new_ok: "mb_ok e mb_new"
  by (simp add: mb_ok_def mb_new_def table_ok_def ht_new_ok)

lemma mb_step_ok:
  assumes "mb_step alloc e m m'" and ok: "mb_ok e m"
  shows "mb_ok e m'"
  using assms(1)
proof cases
  case (Com c r ws)
  then show ?thesis using ok mb_addCom_cases [OF Com] by (auto simp: mb_ok_def)
next
  case (Tag t r ws)
  then show ?thesis
    using ok addCredImpl_spec(1) [where verify = "tag_verify e" and ops = tag_ops]
    by (auto simp: mb_addTag_def mb_ok_def split: prod.splits)
next
  case (Cap t r ws)
  then show ?thesis
    using ok addCredImpl_spec(1) [where verify = "cap_verify e" and ops = cap_ops]
    by (auto simp: mb_addCap_def mb_ok_def split: prod.splits)
next
  case (Coo t r ws)
  then show ?thesis
    using ok addCredImpl_spec(1) [where verify = "coo_verify e" and ops = coo_ops]
    by (auto simp: mb_addCoo_def mb_ok_def split: prod.splits)
next
  case (Rev v r ws)
  have "ht_ok hc_u64 (mb_revocations m)" using ok by (simp add: mb_ok_def)
  from mb_addRev_spec(1-5) [OF this Rev] show ?thesis using ok by (simp add: mb_ok_def)
next
  case (Clean nc)
  then show ?thesis using ok by (simp add: mb_ok_def clean_fields table_ok_clean)
qed (use ok in \<open>auto simp: mb_ok_def multicastLikeGate_def split: if_splits\<close>)

lemma mb_run_ok:
  assumes "mb_run alloc e m m'" and "mb_ok e m" shows "mb_ok e m'"
  using assms by (induction rule: mb_run.induct) (auto intro: mb_step_ok)

text \<open>
  Claim C17: whatever sequence of credentials, revocations, cleanings and pushes a membership goes
  through, every credential it holds was verified against its controller and is filed under its
  own id, and its certificate of membership, if any, was verified.
\<close>

theorem membership_holds_verified:
  assumes "mb_run alloc e mb_new m"
  shows "(\<forall>i t. ht_get hc_u32 (mb_tags m) i = Some t \<longrightarrow> tag_id t = i \<and> fst (tag_verify e t) = 0) \<and>
    (\<forall>i c. ht_get hc_u32 (mb_caps m) i = Some c \<longrightarrow> cap_id c = i \<and> fst (cap_verify e c) = 0) \<and>
    (\<forall>i c. ht_get hc_u32 (mb_coos m) i = Some c \<longrightarrow> coo_id c = i \<and> fst (coo_verify e c) = 0) \<and>
    (com_bool (mb_com m) \<longrightarrow> fst (com_verify e (mb_com m)) = 0)"
  using mb_run_ok [OF assms mb_new_ok]
  by (auto simp: mb_ok_def table_ok_def tag_ops_def cap_ops_def coo_ops_def com_nil_def com_bool_def)

text \<open>
  Claim C11: a verified revocation of a tag, a capability or a certificate of ownership is permanent:
  once a membership has processed it, no later sequence of operations, whatever identities become
  known meanwhile, makes a credential of that type and id valid again unless it is newer than the
  revocation's threshold; in particular the tag lookup never returns a revoked tag. Nothing of the
  kind holds of a revoked certificate of membership, see \<open>revoked_member_readmitted\<close> below.
\<close>

theorem revocation_permanent:
  assumes ok: "mb_ok e m0" and v: "fst (rev_verify e v) = 0" and m1: "mb_addRev alloc e v m0 = (r, m1, ws)"
    and run: "mb_run alloc' e' m1 m"
  shows "(rev_type v = credential_code CT_TAG \<longrightarrow>
      (\<forall>nc t. getTag nc (rev_credentialId v) m = Some t \<and> tag_id t = rev_credentialId v \<longrightarrow> rev_threshold v <s tag_ts t)) \<and>
    (rev_type v = credential_code CT_CAPABILITY \<longrightarrow>
      (\<forall>nc c. credentialTimestampValid cap_ops nc m c \<and> cap_id c = rev_credentialId v \<longrightarrow> rev_threshold v <s cap_ts c)) \<and>
    (rev_type v = credential_code CT_COO \<longrightarrow>
      (\<forall>nc c. credentialTimestampValid coo_ops nc m c \<and> coo_id c = rev_credentialId v \<longrightarrow> rev_threshold v <s coo_ts c))"
proof -
  have rok: "ht_ok hc_u64 (mb_revocations m0)" using ok by (simp add: mb_ok_def)
  have valid: "rev_threshold v <s co_ts ops c"
    if as: "rev_type v = credential_code (co_type ops)" "co_id ops c = rev_credentialId v"
      "co_type ops \<in> {CT_CAPABILITY, CT_TAG, CT_COO}" "credentialTimestampValid ops nc m c" for ops nc and c :: 'c
  proof -
    obtain y where y: "threshold_of m1 (rev_key v) = Some y" "rev_threshold v \<le>s y"
      using mb_addRev_spec(7) [OF rok m1 v] as(1,3) by auto
    obtain z where z: "threshold_of m (rev_key v) = Some z" "y \<le>s z"
      using mb_run_keeps [OF run mb_addRev_spec(1) [OF rok m1] y(1)] by blast
    then have "z <s co_ts ops c"
      using as by (auto simp: credentialTimestampValid_def threshold_of_def rev_key_def Let_def split: if_splits)
    then show ?thesis using y(2) z(2) by (simp add: word_sless_alt word_sle_eq)
  qed
  show ?thesis
    using valid [of tag_ops] valid [of cap_ops] valid [of coo_ops]
    by (auto simp: getTag_iff tag_ops_def cap_ops_def coo_ops_def)
qed

section \<open>Instances\<close>

text \<open>A scheme that accepts one signature and a topology that knows everyone, to run the model on.\<close>

definition demo_env :: "unit env" where
  "demo_env = \<lparr>env_crypto = \<lparr>ecc_sign = \<lambda>_ _ _. replicate 96 7, ecc_verify = \<lambda>_ _ sig. sig = replicate 96 7,
        sha512 = \<lambda>_. replicate 64 0, sha384 = \<lambda>_. replicate 48 0, s20_init = \<lambda>_ _. (), s20_crypt = \<lambda>s m. (m, s)\<rparr>,
      env_getIdentity = \<lambda>a. \<lparr>id_address = a, id_pub = replicate 64 0, id_priv = None\<rparr>\<rparr>"

definition demo_tag :: tag where
  "demo_tag = (tag_new 0x8056c2e21c000001 8 addr_nil 7 6)\<lparr>tag_signedBy := addr_of 0x8056c2e21c, tag_sig := replicate 96 7\<rparr>"

definition demo_rev :: "u64 \<Rightarrow> revocation" where
  "demo_rev thr = (rev_new 1 0x8056c2e21c000001 7 thr 0 addr_nil CT_TAG)
     \<lparr>rev_signedBy := addr_of 0x8056c2e21c, rev_sig := replicate 96 7\<rparr>"

lemma demo_verify: "tag_verify demo_env demo_tag = (0, [])" "rev_verify demo_env (demo_rev thr) = (0, [])"
proof -
  have t: "tag_ok demo_tag" by (simp add: tag_ok_def demo_tag_def tag_new_def)
  have r: "rev_ok (demo_rev thr)" by (simp add: rev_ok_def demo_rev_def rev_new_def)
  have c: "coo_ok coo_empty" by (simp add: coo_ok_def coo_empty_def Let_def list_all_length)
  have k: "controllerFor 0x8056c2e21c000001 = addr_of 0x8056c2e21c" "addr_bool (addr_of 0x8056c2e21c)" by code_simp+
  show "tag_verify demo_env demo_tag = (0, [])"
    using verify_all(1) [OF t r c, of demo_env] k
    by (simp add: demo_env_def demo_tag_def tag_new_def identity_bool_def identity_verify_def)
  show "rev_verify demo_env (demo_rev thr) = (0, [])"
    using verify_all(2) [OF t r c, of demo_env] k
    by (simp add: demo_env_def demo_rev_def rev_new_def identity_bool_def identity_verify_def)
qed

lemma demo_add: "mb_addTag (\<lambda>_. True) demo_env demo_tag mb_new =
    (AcceptedNew, mb_new\<lparr>mb_tags := ht_set (\<lambda>_. True) hc_u32 7 demo_tag
       (ht_index (\<lambda>_. True) hc_u32 (tag_new 0 0 addr_nil 0 0) 7 (ht_new 4))\<rparr>, [])"
  by (simp add: mb_addTag_def addCredImpl_def demo_verify tag_ops_def mb_new_def ht_new_ok)
    (simp add: demo_tag_def tag_new_def ht_new_ok)

definition demo_member :: membership where
  "demo_member = fst (snd (mb_addTag (\<lambda>_. True) demo_env demo_tag mb_new))"

lemma demo_member_run: "mb_run (\<lambda>_. True) demo_env mb_new demo_member"
  using mb_run.Step [OF mb_run.Refl mb_step.Tag [OF demo_add]] by (simp add: demo_member_def demo_add)

lemma demo_member_ok: "mb_ok demo_env demo_member"
  by (rule mb_run_ok [OF demo_member_run mb_new_ok])

lemma demo_member_tag: "ht_get hc_u32 (mb_tags demo_member) 7 = Some demo_tag"
  by (simp add: demo_member_def demo_add ht_set_ok ht_index_ok ht_new_ok)

lemma demo_member_rest: "mb_coos demo_member = ht_new 4" "mb_revocations demo_member = ht_new 4"
  unfolding demo_member_def demo_add by (simp_all add: mb_new_def)

lemma demo_tag_fields: "tag_id demo_tag = 7" "tag_ts demo_tag = 8"
  by (simp_all add: demo_tag_def tag_new_def)

theorem mb_clean_exact_witness:
  "ht_get hc_u32 (mb_tags (mb_clean (netconf_nil\<lparr>nc_timestamp := 5, nc_credentialTimeMaxDelta := 4\<rparr>) demo_member)) 7 = Some demo_tag \<and>
   ht_get hc_u32 (mb_tags (mb_clean (netconf_nil\<lparr>nc_timestamp := 50, nc_credentialTimeMaxDelta := 4\<rparr>) demo_member)) 7 \<noteq> Some demo_tag \<and>
   hasCertificateOfOwnershipFor_mac netconf_nil (mac_of 3) (mb_clean netconf_nil demo_member) =
     hasCertificateOfOwnershipFor_mac netconf_nil (mac_of 3) demo_member"
proof -
  have v: "credentialTimestampValid tag_ops (netconf_nil\<lparr>nc_timestamp := 5, nc_credentialTimeMaxDelta := 4\<rparr>) demo_member demo_tag"
    "\<not> credentialTimestampValid tag_ops (netconf_nil\<lparr>nc_timestamp := 50, nc_credentialTimeMaxDelta := 4\<rparr>) demo_member demo_tag"
    by (simp_all add: credentialTimestampValid_def tag_ops_def demo_tag_fields demo_member_rest ht_new_ok
        ts_delta_def netconf_nil_def word_sle_eq)
  have c: "\<forall>k c. ht_get hc_u32 (mb_coos demo_member) k = Some c \<longrightarrow> coo_thingCount c \<le> 16"
    by (simp add: demo_member_rest ht_new_ok)
  note exact = mb_clean_exact [OF demo_member_ok, of nc for nc]
  from exact [THEN conjunct2, THEN conjunct1] v demo_member_tag c
    exact [of netconf_nil, THEN conjunct2, THEN conjunct2, THEN conjunct2, THEN conjunct2, THEN conjunct2,
      THEN conjunct2, THEN conjunct2, THEN conjunct2, THEN conjunct2]
  show ?thesis by blast
qed

lemma ownership_exact_witness:
  "hasCertificateOfOwnershipFor_mac netconf_nil (mac_of 3) demo_member = Inr False"
proof -
  have "\<forall>k c. ht_get hc_u32 (mb_coos demo_member) k = Some c \<longrightarrow> coo_thingCount c \<le> 16"
    by (simp add: demo_member_rest ht_new_ok)
  from ownership_exact [OF demo_member_ok this] show ?thesis by (simp add: demo_member_rest ht_new_ok)
qed

theorem membership_holds_verified_witness:
  "mb_run (\<lambda>_. True) demo_env mb_new demo_member \<and> ht_get hc_u32 (mb_tags demo_member) 7 = Some demo_tag \<and>
   fst (tag_verify demo_env demo_tag) = 0"
  using membership_holds_verified [OF demo_member_run] demo_member_run demo_member_tag by blast

theorem revocation_permanent_witness:
  "\<forall>nc. getTag nc 7 (fst (snd (mb_addRev (\<lambda>_. True) demo_env (demo_rev 9) demo_member))) \<noteq> Some demo_tag"
proof -
  obtain r m1 ws where m1: "mb_addRev (\<lambda>_. True) demo_env (demo_rev 9) demo_member = (r, m1, ws)"
    by (cases "mb_addRev (\<lambda>_. True) demo_env (demo_rev 9) demo_member")
  have v: "fst (rev_verify demo_env (demo_rev 9)) = 0" by (simp add: demo_verify)
  have f: "rev_type (demo_rev 9) = credential_code CT_TAG" "rev_credentialId (demo_rev 9) = 7" "rev_threshold (demo_rev 9) = 9"
    by (simp_all add: demo_rev_def rev_new_def)
  have n: "\<not> (9 :: u64) <s 8" by (simp add: word_sless_alt)
  from revocation_permanent [OF demo_member_ok v m1 mb_run.Refl]
  have "\<forall>nc t. getTag nc 7 m1 = Some t \<and> tag_id t = 7 \<longrightarrow> 9 <s tag_ts t" unfolding f by blast
  then have "getTag nc 7 m1 \<noteq> Some demo_tag" for nc using n demo_tag_fields by metis
  then show ?thesis by (simp add: m1)
qed

section \<open>The certificate threshold\<close>

text \<open>
  The first accepted revocation of a tag, capability or certificate of ownership overwrites the
  certificate threshold, whatever it was: a member whose certificate had been revoked can be
  allowed again by the revocation of one of its tags.
\<close>

lemma revoked_member_readmitted:
  assumes ok: "ht_ok hc_u64 (mb_revocations m)" and v: "rev_verify e v = (0, ws)"
    and ty: "rev_type v = credential_code CT_TAG" and new: "threshold_of m (rev_key v) = None"
    and thr: "0 <s rev_threshold v" "rev_threshold v <s com_timestamp (mb_com m)"
    and agree: "com_agreesWith cr (nc_com nc) (mb_com m) other"
  shows "isAllowedOnNetwork cr nc other (fst (snd (mb_addRev alloc e v m)))"
proof -
  let ?revs = "ht_index alloc hc_u64 0 (rev_key v) (mb_revocations m)"
  have "ht_get hc_u64 ?revs (rev_key v) = Some 0"
    using new by (simp add: ht_index_ok [OF ok] map_touch_def threshold_of_def)
  then have "mb_addRev alloc e v m = (AcceptedNew,
      m\<lparr>mb_revocations := ht_set alloc hc_u64 (rev_key v) (rev_threshold v) ?revs, mb_comThreshold := rev_threshold v\<rparr>, ws)"
    using v ty thr(1) by (simp add: mb_addRev_def rev_key_def credential_code_def Let_def)
  then show ?thesis using thr(2) agree by (simp add: isAllowedOnNetwork_def)
qed

end
