(* ===== verification/ZT_Salsa20.thy ===== *)
theory ZT_Salsa20
  imports ZT_Prelude
begin

text \<open>
  \<^verbatim>\<open>node/Salsa20.cpp\<close> without SSE: the stream cipher of the packet armor and of the identity
  hash. The unrolled rounds are the table of their 32 assignments; they are proved equal to
  the cipher's definition by quarter rounds, and the byte loop to a XOR with the key stream.
\<close>

section \<open>State and rounds\<close>

type_synonym s20 = "u32 list"

definition rotate32 :: "u32 \<Rightarrow> nat \<Rightarrow> u32" where
  "rotate32 v c = push_bit c v OR drop_bit (32 - c) v"

definition le_load :: "u8 list \<Rightarrow> u32" where
  "le_load bs = be_val (rev (take 4 bs))"

definition le_store :: "u32 \<Rightarrow> u8 list" where
  "le_store w = rev (be_bytes 4 w)"

text \<open>\<open>key\<close> is 32 bytes and \<open>iv\<close> 8; the constants spell \<^verbatim>\<open>expand 32-byte k\<close>.\<close>

definition s20_init :: "u8 list \<Rightarrow> u8 list \<Rightarrow> s20" where
  "s20_init k iv =
     [0x61707865, le_load k, le_load (drop 4 k), le_load (drop 8 k), le_load (drop 12 k), 0x3320646e,
      le_load iv, le_load (drop 4 iv), 0, 0, 0x79622d32, le_load (drop 16 k), le_load (drop 20 k),
      le_load (drop 24 k), le_load (drop 28 k), 0x6b206574]"

text \<open>An entry \<open>(d, a, b, r)\<close> is the assignment \<^verbatim>\<open>x_d = XOR(x_d, ROTATE(PLUS(x_a, x_b), r))\<close>.\<close>

definition s20_assign :: "s20 \<Rightarrow> nat \<times> nat \<times> nat \<times> nat \<Rightarrow> s20" where
  "s20_assign x t = (case t of (d, a, b, r) \<Rightarrow> x[d := x ! d XOR rotate32 (x ! a + x ! b) r])"

definition s20_table :: "(nat \<times> nat \<times> nat \<times> nat) list" where
  "s20_table =
     [(4, 0, 12, 7), (8, 4, 0, 9), (12, 8, 4, 13), (0, 12, 8, 18),
      (9, 5, 1, 7), (13, 9, 5, 9), (1, 13, 9, 13), (5, 1, 13, 18),
      (14, 10, 6, 7), (2, 14, 10, 9), (6, 2, 14, 13), (10, 6, 2, 18),
      (3, 15, 11, 7), (7, 3, 15, 9), (11, 7, 3, 13), (15, 11, 7, 18),
      (1, 0, 3, 7), (2, 1, 0, 9), (3, 2, 1, 13), (0, 3, 2, 18),
      (6, 5, 4, 7), (7, 6, 5, 9), (4, 7, 6, 13), (5, 4, 7, 18),
      (11, 10, 9, 7), (8, 11, 10, 9), (9, 8, 11, 13), (10, 9, 8, 18),
      (12, 15, 14, 7), (13, 12, 15, 9), (14, 13, 12, 13), (15, 14, 13, 18)]"

definition s20_2rounds :: "s20 \<Rightarrow> s20" where
  "s20_2rounds x = foldl s20_assign x s20_table"

text \<open>One block: \<open>n\<close> copies of the two rounds, six in \<open>crypt12\<close> and ten in \<open>crypt20\<close>.\<close>

definition s20_words :: "nat \<Rightarrow> s20 \<Rightarrow> u32 list" where
  "s20_words n j = map2 (+) ((s20_2rounds ^^ n) j) j"

definition s20_count :: "s20 \<Rightarrow> s20" where
  "s20_count j =
     (let j8 = j ! 8 + 1 in if j8 = 0 then j[8 := j8, 9 := j ! 9 + 1] else j[8 := j8])"

text \<open>The sixteen XORs of a 64-byte block, a word at a time.\<close>

definition s20_xor_block :: "u32 list \<Rightarrow> u8 list \<Rightarrow> u8 list" where
  "s20_xor_block ws m = concat (map (\<lambda>i. le_store (ws ! i XOR le_load (drop (4 * i) m))) [0..<16])"

text \<open>
  The loop. A last block of fewer than 64 bytes goes through the local \<^verbatim>\<open>tmp\<close>, of which only
  the input's bytes are copied out; the rest of it is zero here.
\<close>

function s20_loop :: "nat \<Rightarrow> s20 \<Rightarrow> u8 list \<Rightarrow> u8 list \<times> s20" where
  "s20_loop n j m =
     (if length m < 64
      then (take (length m) (s20_xor_block (s20_words n j) (m @ replicate (64 - length m) 0)), s20_count j)
      else let c = s20_xor_block (s20_words n j) (take 64 m); j' = s20_count j in
        if length m \<le> 64 then (c, j')
        else (case s20_loop n j' (drop 64 m) of (cs, j'') \<Rightarrow> (c @ cs, j'')))"
  by pat_completeness auto
termination by (relation "measure (\<lambda>(n, j, m). length m)") auto

declare s20_loop.simps [simp del]

definition s20_crypt :: "nat \<Rightarrow> s20 \<Rightarrow> u8 list \<Rightarrow> u8 list \<times> s20" where
  "s20_crypt n j m = (if m = [] then ([], j) else s20_loop n j m)"

definition crypt12 :: "s20 \<Rightarrow> u8 list \<Rightarrow> u8 list \<times> s20" where
  "crypt12 = s20_crypt 6"

definition crypt20 :: "s20 \<Rightarrow> u8 list \<Rightarrow> u8 list \<times> s20" where
  "crypt20 = s20_crypt 10"

text \<open>\<open>memxor\<close>: sixteen bytes at a time and then one by one, each byte of \<open>d\<close> with that of \<open>s\<close>.\<close>

definition memxor :: "u8 list \<Rightarrow> u8 list \<Rightarrow> u8 list" where
  "memxor d s = map2 (XOR) d s"

section \<open>The cipher's definition\<close>

definition quarterround :: "u32 \<times> u32 \<times> u32 \<times> u32 \<Rightarrow> u32 \<times> u32 \<times> u32 \<times> u32" where
  "quarterround y = (case y of (y0, y1, y2, y3) \<Rightarrow>
     let z1 = y1 XOR rotate32 (y0 + y3) 7;
         z2 = y2 XOR rotate32 (z1 + y0) 9;
         z3 = y3 XOR rotate32 (z2 + z1) 13;
         z0 = y0 XOR rotate32 (z3 + z2) 18
     in (z0, z1, z2, z3))"

fun columnround :: "s20 \<Rightarrow> s20" where
  "columnround [x0, x1, x2, x3, x4, x5, x6, x7, x8, x9, x10, x11, x12, x13, x14, x15] =
     (case quarterround (x0, x4, x8, x12) of (y0, y4, y8, y12) \<Rightarrow>
      case quarterround (x5, x9, x13, x1) of (y5, y9, y13, y1) \<Rightarrow>
      case quarterround (x10, x14, x2, x6) of (y10, y14, y2, y6) \<Rightarrow>
      case quarterround (x15, x3, x7, x11) of (y15, y3, y7, y11) \<Rightarrow>
        [y0, y1, y2, y3, y4, y5, y6, y7, y8, y9, y10, y11, y12, y13, y14, y15])"
| "columnround x = x"

fun rowround :: "s20 \<Rightarrow> s20" where
  "rowround [x0, x1, x2, x3, x4, x5, x6, x7, x8, x9, x10, x11, x12, x13, x14, x15] =
     (case quarterround (x0, x1, x2, x3) of (y0, y1, y2, y3) \<Rightarrow>
      case quarterround (x5, x6, x7, x4) of (y5, y6, y7, y4) \<Rightarrow>
      case quarterround (x10, x11, x8, x9) of (y10, y11, y8, y9) \<Rightarrow>
      case quarterround (x15, x12, x13, x14) of (y15, y12, y13, y14) \<Rightarrow>
        [y0, y1, y2, y3, y4, y5, y6, y7, y8, y9, y10, y11, y12, y13, y14, y15])"
| "rowround x = x"

text \<open>The key stream: block \<open>i\<close> is the hash of the state with its 64-bit counter advanced \<open>i\<close> times.\<close>

definition ref_block :: "nat \<Rightarrow> s20 \<Rightarrow> u8 list" where
  "ref_block n j = concat (map le_store (map2 (+) (((rowround \<circ> columnround) ^^ n) j) j))"

definition counter :: "s20 \<Rightarrow> u64" where
  "counter j = push_bit 32 (ucast (j ! 9)) OR ucast (j ! 8)"

definition with_counter :: "u64 \<Rightarrow> s20 \<Rightarrow> s20" where
  "with_counter c j = j[8 := ucast c, 9 := ucast (drop_bit 32 c)]"

definition keystream :: "nat \<Rightarrow> s20 \<Rightarrow> nat \<Rightarrow> u8 list" where
  "keystream n j k = concat (map (\<lambda>i. ref_block n (with_counter (counter j + of_nat i) j)) [0..<k])"

section \<open>The rounds\<close>

text \<open>Four assignments in a row are a quarter round of four different words.\<close>

definition put_quarter :: "nat \<Rightarrow> nat \<Rightarrow> nat \<Rightarrow> nat \<Rightarrow> s20 \<Rightarrow> s20" where
  "put_quarter a b c d x = (case quarterround (x ! a, x ! b, x ! c, x ! d) of (y0, y1, y2, y3) \<Rightarrow>
     x[a := y0, b := y1, c := y2, d := y3])"

definition quad :: "nat \<Rightarrow> nat \<Rightarrow> nat \<Rightarrow> nat \<Rightarrow> (nat \<times> nat \<times> nat \<times> nat) list" where
  "quad a b c d = [(b, a, d, 7), (c, b, a, 9), (d, c, b, 13), (a, d, c, 18)]"

lemma four_assigns:
  assumes "distinct [a, b, c, d]" "a < length x" "b < length x" "c < length x" "d < length x"
  shows "foldl s20_assign x (quad a b c d) = put_quarter a b c d x"
  using assms
  by (simp add: quad_def s20_assign_def put_quarter_def quarterround_def Let_def list_update_swap)

lemma table_quads:
  "s20_table = quad 0 4 8 12 @ quad 5 9 13 1 @ quad 10 14 2 6 @ quad 15 3 7 11 @
     quad 0 1 2 3 @ quad 5 6 7 4 @ quad 10 11 8 9 @ quad 15 12 13 14"
  by (simp add: s20_table_def quad_def)

lemma list16:
  assumes "length (x :: 'a list) = 16"
  obtains x0 x1 x2 x3 x4 x5 x6 x7 x8 x9 x10 x11 x12 x13 x14 x15
  where "x = [x0, x1, x2, x3, x4, x5, x6, x7, x8, x9, x10, x11, x12, x13, x14, x15]"
  using assms by (auto simp: numeral_eq_Suc length_Suc_conv)

lemma s20_2rounds_spec:
  assumes "length x = 16" shows "s20_2rounds x = rowround (columnround x)"
proof -
  obtain x0 x1 x2 x3 x4 x5 x6 x7 x8 x9 x10 x11 x12 x13 x14 x15
    where x: "x = [x0, x1, x2, x3, x4, x5, x6, x7, x8, x9, x10, x11, x12, x13, x14, x15]"
    using assms by (rule list16)
  have len: "length (put_quarter a b c d y) = length y" for a b c d y
    by (simp add: put_quarter_def split: prod.splits)
  have tab: "s20_2rounds x =
      put_quarter 15 12 13 14 (put_quarter 10 11 8 9 (put_quarter 5 6 7 4 (put_quarter 0 1 2 3
      (put_quarter 15 3 7 11 (put_quarter 10 14 2 6 (put_quarter 5 9 13 1 (put_quarter 0 4 8 12 x)))))))"
    unfolding s20_2rounds_def table_quads by (simp add: four_assigns len assms)
  show ?thesis
    unfolding tab unfolding x by (simp add: put_quarter_def case_prod_beta)
qed

lemma columnround_length: "length x = 16 \<Longrightarrow> length (columnround x) = 16"
  by (erule list16) (simp add: case_prod_beta)

lemma rowround_length: "length x = 16 \<Longrightarrow> length (rowround x) = 16"
  by (erule list16) (simp add: case_prod_beta)

lemma s20_words_spec:
  assumes "length j = 16"
  shows "s20_words n j = map2 (+) (((rowround \<circ> columnround) ^^ n) j) j" "length (s20_words n j) = 16"
proof -
  have r: "(s20_2rounds ^^ n) j = ((rowround \<circ> columnround) ^^ n) j \<and> length ((s20_2rounds ^^ n) j) = 16"
  proof (induction n)
    case (Suc n)
    define z where "z = ((rowround \<circ> columnround) ^^ n) j"
    from Suc have z: "(s20_2rounds ^^ n) j = z" "length z = 16"
      unfolding z_def by (metis, metis)
    then show ?case
      by (simp add: s20_2rounds_spec rowround_length columnround_length) (simp add: z_def o_def)
  qed (simp add: assms)
  then have eq: "(s20_2rounds ^^ n) j = ((rowround \<circ> columnround) ^^ n) j"
    and len: "length ((s20_2rounds ^^ n) j) = 16" by blast+
  show "s20_words n j = map2 (+) (((rowround \<circ> columnround) ^^ n) j) j"
    by (simp only: s20_words_def eq)
  show "length (s20_words n j) = 16"
    by (simp add: s20_words_def len assms)
qed

section \<open>The counter\<close>

lemma bit_counter:
  "bit (counter j) i \<longleftrightarrow> (if i < 32 then bit (j ! 8) i else i < 64 \<and> bit (j ! 9) (i - 32))"
  by (auto simp: counter_def bit_or_iff bit_push_bit_iff bit_ucast_iff dest: bit_imp_le_length)

lemma counter_parts: "ucast (counter j) = j ! 8" "ucast (drop_bit 32 (counter j)) = j ! 9"
proof -
  show "ucast (counter j) = j ! 8"
    by (rule bit_word_eqI) (simp add: bit_ucast_iff bit_counter)
  show "ucast (drop_bit 32 (counter j)) = j ! 9"
    by (rule bit_word_eqI) (simp add: bit_ucast_iff bit_counter bit_drop_bit_eq)
qed

lemma counter_with: "length j = 16 \<Longrightarrow> counter (with_counter c j) = c"
  by (rule bit_word_eqI) (auto simp: bit_counter with_counter_def bit_ucast_iff bit_drop_bit_eq)

lemma with_counter_with: "with_counter c (with_counter d j) = with_counter c j"
  by (simp add: with_counter_def list_update_swap)

lemma with_counter_self: "with_counter (counter j) j = j"
  by (simp add: with_counter_def counter_parts)

lemma unat_counter: "unat (counter j) = unat (j ! 9) * 2 ^ 32 + unat (j ! 8)"
proof -
  have "push_bit 32 (ucast (j ! 9)) OR ucast (j ! 8) = push_bit 32 (ucast (j ! 9)) + (ucast (j ! 8) :: u64)"
    by (rule disjunctive_add [symmetric]) (auto simp: bit_push_bit_iff bit_ucast_iff dest: bit_imp_le_length)
  moreover have "unat (push_bit 32 (ucast (j ! 9)) :: u64) = unat (j ! 9) * 2 ^ 32"
    using unsigned_less [of "j ! 9", where 'a = nat]
    by (simp add: push_bit_eq_mult unat_word_ariths unsigned_ucast_eq take_bit_nat_eq_self)
  ultimately show ?thesis
    using unsigned_less [of "j ! 9", where 'a = nat] unsigned_less [of "j ! 8", where 'a = nat]
    by (simp add: counter_def unat_word_ariths unsigned_ucast_eq take_bit_nat_eq_self)
qed

lemma update_98: "j[8 := 0, 9 := b, 8 := x] = j[8 := x, 9 := b]" for j :: s20
  by (subst list_update_swap) simp_all

lemma s20_count_spec:
  assumes "length j = 16" shows "s20_count j = with_counter (counter j + 1) j"
proof -
  have "counter (s20_count j) = counter j + 1"
  proof (rule iffD2 [OF word_unat_eq_iff])
    let ?a = "unat (j ! 8)" and ?b = "unat (j ! 9)"
    have lt: "?a < 2 ^ 32" "?b < 2 ^ 32"
      using unsigned_less [of "j ! 9", where 'a = nat] unsigned_less [of "j ! 8", where 'a = nat] by simp_all
    have s: "unat (j ! 8 + 1) = (if ?a + 1 = 2 ^ 32 then 0 else ?a + 1)"
      "unat (j ! 9 + 1) = (if ?b + 1 = 2 ^ 32 then 0 else ?b + 1)"
      using lt by (simp_all add: unat_word_ariths)
    have z: "j ! 8 + 1 = 0 \<longleftrightarrow> ?a + 1 = 2 ^ 32" using s(1) by (auto simp: word_unat_eq_iff split: if_splits)
    have n: "unat (counter j + 1) = (?b * 2 ^ 32 + ?a + 1) mod 2 ^ 64"
      by (simp add: unat_word_ariths unat_counter)
    show "unat (counter (s20_count j)) = unat (counter j + 1)"
      using lt assms unfolding n unat_counter
      by (auto simp: s20_count_def Let_def z s)
  qed
  moreover have "s20_count j = with_counter (counter (s20_count j)) j"
  proof -
    have "with_counter (counter (s20_count j)) j = with_counter (counter (s20_count j)) (s20_count j)"
      by (simp add: s20_count_def with_counter_def Let_def update_98)
    then show ?thesis by (simp only: with_counter_self)
  qed
  ultimately show ?thesis by simp
qed

lemma s20_count_length: "length (s20_count j) = length j"
  by (simp add: s20_count_def Let_def)

section \<open>Words and bytes\<close>

lemma le_store_length: "length (le_store w) = 4"
  by (simp add: le_store_def)

lemma map2_rev: "length xs = length ys \<Longrightarrow> map2 f (rev xs) (rev ys) = rev (map2 f xs ys)"
  by (simp add: zip_rev rev_map)

lemma be_bytes_xor: "map2 (XOR) (be_bytes n v) (be_bytes n w) = be_bytes n (v XOR w)" for v w :: "'a::len word"
  by (rule nth_equalityI)
    (auto simp: be_bytes_nth intro!: bit_word_eqI simp: bit_xor_iff bit_ucast_iff bit_drop_bit_eq)

lemma le_store_load: "length bs = 4 \<Longrightarrow> le_store (le_load bs) = bs"
  using be_bytes_be_val [of "rev bs", where 'a = 32] by (simp add: le_store_def le_load_def)

lemma le_store_xor: "map2 (XOR) (le_store v) (le_store w) = le_store (v XOR w)"
  by (simp add: le_store_def map2_rev be_bytes_xor)

lemma le_load_take: "le_load (take 4 bs) = le_load bs"
  by (simp add: le_load_def)

lemma store_xor_load:
  assumes "4 \<le> length m" shows "le_store (w XOR le_load m) = map2 (XOR) (take 4 m) (le_store w)"
proof -
  have "le_store (le_load m) = take 4 m"
    using le_store_load [of "take 4 m"] assms by (simp add: le_load_take)
  then show ?thesis
    using le_store_xor [of "le_load m" w] by (simp add: xor.commute)
qed

lemma map2_append_right: "map2 f xs (ys @ zs) = map2 f (take (length ys) xs) ys @ map2 f (drop (length ys) xs) zs"
  by (simp add: zip_append2)

lemma xor_words:
  "length m = 4 * length ws \<Longrightarrow>
   concat (map (\<lambda>i. le_store (ws ! i XOR le_load (drop (4 * i) m))) [0..<length ws]) =
   map2 (XOR) m (concat (map le_store ws))"
proof (induction ws arbitrary: m)
  case (Cons w ws)
  have "concat (map (\<lambda>i. le_store ((w # ws) ! i XOR le_load (drop (4 * i) m))) [0..<length (w # ws)]) =
      le_store (w XOR le_load m) @
      concat (map (\<lambda>i. le_store (ws ! i XOR le_load (drop (4 * i) (drop 4 m)))) [0..<length ws])"
    by (simp add: upt_conv_Cons map_Suc_upt [symmetric] comp_def add.commute del: upt_Suc)
  also have "\<dots> = map2 (XOR) (take 4 m) (le_store w) @ map2 (XOR) (drop 4 m) (concat (map le_store ws))"
    using Cons.IH [of "drop 4 m"] Cons.prems by (simp add: store_xor_load)
  finally show ?case by (simp add: map2_append_right le_store_length)
qed simp

lemma concat_le_length: "length (concat (map le_store ws)) = 4 * length ws"
  by (induction ws) (simp_all add: le_store_length)

lemma s20_xor_block_spec:
  "length m = 64 \<Longrightarrow> length ws = 16 \<Longrightarrow> s20_xor_block ws m = map2 (XOR) m (concat (map le_store ws))"
  using xor_words [of m ws] by (simp add: s20_xor_block_def)

lemma ref_block_words: "length j = 16 \<Longrightarrow> concat (map le_store (s20_words n j)) = ref_block n j"
  by (simp add: s20_words_spec ref_block_def)

lemma ref_block_length: "length j = 16 \<Longrightarrow> length (ref_block n j) = 64"
  by (simp only: ref_block_words [symmetric] concat_le_length s20_words_spec(2))

section \<open>The key stream\<close>

lemma keystream_Suc:
  assumes "length j = 16"
  shows "keystream n j (Suc k) = ref_block n j @ keystream n (s20_count j) k"
proof -
  have "[0..<Suc k] = 0 # map Suc [0..<k]" by (simp add: upt_conv_Cons map_Suc_upt del: upt_Suc)
  then show ?thesis
    using assms
    by (simp add: keystream_def with_counter_self s20_count_spec with_counter_with counter_with
        comp_def add.assoc del: upt_Suc)
qed

lemma keystream_length: "length j = 16 \<Longrightarrow> length (keystream n j k) = 64 * k"
  by (induction k arbitrary: j) (simp_all add: keystream_Suc ref_block_length s20_count_length, simp add: keystream_def)

lemma map2_keep: "length xs \<le> length ys \<Longrightarrow> map2 f xs (ys @ zs) = map2 f xs ys"
proof (induction xs arbitrary: ys)
  case (Cons x xs) then show ?case by (cases ys) simp_all
qed simp

lemma map2_pad: "length xs \<le> length ys \<Longrightarrow> take (length xs) (map2 f (xs @ zs) ys) = map2 f xs ys"
proof (induction xs arbitrary: ys)
  case (Cons x xs) then show ?case by (cases ys) simp_all
qed simp

lemma s20_loop_spec:
  assumes "length j = 16" "m \<noteq> []"
  shows "s20_loop n j m =
    (map2 (XOR) m (keystream n j ((length m + 63) div 64)),
     with_counter (counter j + of_nat ((length m + 63) div 64)) j)"
  using assms
proof (induction n j m rule: s20_loop.induct)
  case (1 n j m)
  note j = \<open>length j = 16\<close>
  have w: "length (s20_words n j) = 16" by (simp only: s20_words_spec(2) j)
  have xb: "s20_xor_block (s20_words n j) x = map2 (XOR) x (ref_block n j)" if "length x = 64" for x
    using that by (simp only: s20_xor_block_spec w ref_block_words j)
  have ks1: "keystream n j (Suc 0) = ref_block n j"
    using keystream_Suc [OF j, of n 0] by (simp add: keystream_def)
  have one: "(length m + 63) div 64 = Suc 0" if "length m \<le> 64"
    using that \<open>m \<noteq> []\<close> by (cases m) auto
  show ?case
  proof (cases "length m \<le> 64")
    case True
    show ?thesis
    proof (cases "length m < 64")
      case True
      then show ?thesis
        using one by (simp add: s20_loop.simps [of n j m] xb ks1 map2_pad ref_block_length j s20_count_spec)
    next
      case False
      then show ?thesis
        using True one by (simp add: s20_loop.simps [of n j m] xb ks1 s20_count_spec j)
    qed
  next
    case False
    let ?d = "drop 64 m"
    have k: "(length m + 63) div 64 = Suc ((length ?d + 63) div 64)" using False by simp
    have d: "?d \<noteq> []" using False by simp
    have ih: "s20_loop n (s20_count j) ?d =
        (map2 (XOR) ?d (keystream n (s20_count j) ((length ?d + 63) div 64)),
         with_counter (counter (s20_count j) + of_nat ((length ?d + 63) div 64)) (s20_count j))"
      using 1(1) [OF _ refl refl] False d by (simp add: s20_count_length j)
    have "s20_loop n j m =
        (map2 (XOR) (take 64 m) (ref_block n j) @
           map2 (XOR) ?d (keystream n (s20_count j) ((length ?d + 63) div 64)),
         with_counter (counter (s20_count j) + of_nat ((length ?d + 63) div 64)) (s20_count j))"
      using False by (subst s20_loop.simps) (simp add: Let_def ih xb del: length_drop)
    then show ?thesis
      unfolding k keystream_Suc [OF j]
      by (simp add: map2_append_right ref_block_length j s20_count_spec with_counter_with counter_with
          add.assoc del: length_drop)
  qed
qed

lemma s20_crypt_spec:
  assumes "length j = 16"
  shows "s20_crypt n j m =
    (map2 (XOR) m (keystream n j ((length m + 63) div 64)),
     with_counter (counter j + of_nat ((length m + 63) div 64)) j)"
  using s20_loop_spec [OF assms] by (cases "m = []") (simp_all add: s20_crypt_def with_counter_self)

text \<open>
  Claim C19: \<^verbatim>\<open>Salsa20::crypt12\<close> and \<^verbatim>\<open>crypt20\<close> compute the cipher. For every key, nonce and
  counter, and for messages of any length (empty, a partial last block, a multiple of 64),
  the block loop returns the message XORed with the key stream of the reference definition
  (quarter rounds on columns and rows, a 64-bit block counter), and leaves the state with its
  counter advanced by the number of blocks and otherwise unchanged. So a second call carries on
  with the next block, and decrypting is encrypting again from the same state.
\<close>

theorem s20_crypt_is_stream:
  assumes "length j = 16"
  shows "s20_crypt n j m =
    (map2 (XOR) m (keystream n j ((length m + 63) div 64)),
     with_counter (counter j + of_nat ((length m + 63) div 64)) j)"
  by (rule s20_crypt_spec [OF assms])

text \<open>Two blocks and a bit of \<open>crypt12\<close>, with a counter whose low half wraps.\<close>

definition demo_state :: s20 where
  "demo_state = (s20_init (replicate 32 7) (replicate 8 9))[8 := 0xffffffff]"

theorem s20_crypt_is_stream_witness:
  "s20_crypt 6 demo_state (replicate 130 1) =
    (map2 (XOR) (replicate 130 1) (keystream 6 demo_state 3), demo_state[8 := 2, 9 := 1])"
  using s20_crypt_is_stream [of demo_state 6 "replicate 130 1"]
  by (simp add: demo_state_def s20_init_def counter_def with_counter_def)

section \<open>Using the cipher\<close>

lemma map2_xor_twice: "length xs \<le> length ys \<Longrightarrow> map2 (XOR) (map2 (XOR) xs ys) ys = xs" for xs :: "u8 list"
  by (induction xs ys rule: list_induct2') (simp_all add: xor.assoc)

lemma s20_crypt_length: "length j = 16 \<Longrightarrow> length (fst (s20_crypt n j m)) = length m"
  by (simp add: s20_crypt_spec keystream_length)

lemma s20_crypt_involution:
  assumes "length j = 16" shows "fst (s20_crypt n j (fst (s20_crypt n j m))) = m"
proof -
  have "length m \<le> length (keystream n j ((length m + 63) div 64))"
    by (simp add: keystream_length assms)
  moreover from this have "length (map2 (XOR) m (keystream n j ((length m + 63) div 64))) = length m" by simp
  ultimately show ?thesis by (simp only: s20_crypt_spec [OF assms] fst_conv map2_xor_twice)
qed

lemma s20_crypt_state_length: "length j = 16 \<Longrightarrow> length (snd (s20_crypt n j m)) = 16"
  by (simp add: s20_crypt_spec with_counter_def)

lemma s20_init_length: "length (s20_init k iv) = 16"
  by (simp add: s20_init_def)

lemma crypt12_props:
  "length j = 16 \<Longrightarrow> length (fst (crypt12 j m)) = length m"
  "length j = 16 \<Longrightarrow> fst (crypt12 j (fst (crypt12 j m))) = m"
  "length j = 16 \<Longrightarrow> length (snd (crypt12 j m)) = 16"
  by (simp_all only: crypt12_def s20_crypt_length s20_crypt_involution s20_crypt_state_length)

end
