(* ===== verification/ZT_Poly1305.thy ===== *)
theory ZT_Poly1305
  imports ZT_Prelude
begin

text \<open>
  \<^verbatim>\<open>node/Poly1305.cpp\<close>, the implementation with 64-bit words and 128-bit products that
  compilers for x86-64 select (any other processor takes the portable one, which is not modelled): an accumulator of three limbs of 44, 44 and 42 bits, carried only
  partly after each block. It is proved equal to the authenticator's definition over the
  integers, so no sum or product of it wraps.
\<close>

section \<open>The code\<close>

type_synonym u128 = "128 word"
type_synonym limbs = "u64 \<times> u64 \<times> u64"

text \<open>\<open>pbuf\<close> is the part of \<^verbatim>\<open>buffer\<close> in use, so \<^verbatim>\<open>leftover\<close> is its length.\<close>

record p1305 =
  pr :: limbs
  ph :: limbs
  ppad :: "u64 \<times> u64"
  pbuf :: "u8 list"
  pfinal :: bool

definition U8TO64 :: "u8 list \<Rightarrow> u64" where
  "U8TO64 p = be_val (rev (take 8 p))"

definition U64TO8 :: "u64 \<Rightarrow> u8 list" where
  "U64TO8 v = rev (be_bytes 8 v)"

definition lo44 :: u64 where "lo44 = 0xfffffffffff"
definition lo42 :: u64 where "lo42 = 0x3ffffffffff"

definition mul128 :: "u64 \<Rightarrow> u64 \<Rightarrow> u128" where
  "mul128 x y = ucast x * ucast y"

definition poly1305_init :: "u8 list \<Rightarrow> p1305" where
  "poly1305_init key =
     (let t0 = U8TO64 key; t1 = U8TO64 (drop 8 key) in
      \<lparr>pr = (t0 AND 0xffc0fffffff, (drop_bit 44 t0 OR push_bit 20 t1) AND 0xfffffc0ffff,
             drop_bit 24 t1 AND 0x00ffffffc0f),
       ph = (0, 0, 0), ppad = (U8TO64 (drop 16 key), U8TO64 (drop 24 key)), pbuf = [], pfinal = False\<rparr>)"

text \<open>One turn of the loop of \<^verbatim>\<open>poly1305_blocks\<close>: add the block, multiply, carry partly.\<close>

definition poly_add :: "u64 \<Rightarrow> limbs \<Rightarrow> u8 list \<Rightarrow> limbs" where
  "poly_add hibit h m = (case h of (h0, h1, h2) \<Rightarrow>
     let t0 = U8TO64 m; t1 = U8TO64 (drop 8 m) in
     (h0 + (t0 AND lo44), h1 + ((drop_bit 44 t0 OR push_bit 20 t1) AND lo44),
      h2 + ((drop_bit 24 t1 AND lo42) OR hibit)))"

definition poly_mul :: "limbs \<Rightarrow> limbs \<Rightarrow> u128 \<times> u128 \<times> u128" where
  "poly_mul r h = (case r of (r0, r1, r2) \<Rightarrow> case h of (h0, h1, h2) \<Rightarrow>
     let s1 = r1 * 20; s2 = r2 * 20 in
     (mul128 h0 r0 + mul128 h1 s2 + mul128 h2 s1,
      mul128 h0 r1 + mul128 h1 r0 + mul128 h2 s2,
      mul128 h0 r2 + mul128 h1 r1 + mul128 h2 r0))"

definition poly_reduce :: "u128 \<times> u128 \<times> u128 \<Rightarrow> limbs" where
  "poly_reduce d = (case d of (d0, d1, d2) \<Rightarrow>
     let c = ucast (drop_bit 44 d0) :: u64; h0 = ucast d0 AND lo44;
         d1 = d1 + ucast c; c = ucast (drop_bit 44 d1) :: u64; h1 = ucast d1 AND lo44;
         d2 = d2 + ucast c; c = ucast (drop_bit 42 d2) :: u64; h2 = ucast d2 AND lo42;
         h0 = h0 + c * 5; c = drop_bit 44 h0; h0 = h0 AND lo44; h1 = h1 + c
     in (h0, h1, h2))"

function poly_loop :: "limbs \<Rightarrow> u64 \<Rightarrow> limbs \<Rightarrow> u8 list \<Rightarrow> limbs" where
  "poly_loop r hibit h m =
     (if 16 \<le> length m then poly_loop r hibit (poly_reduce (poly_mul r (poly_add hibit h m))) (drop 16 m)
      else h)"
  by pat_completeness auto
termination by (relation "measure (\<lambda>(r, hibit, h, m). length m)") auto

declare poly_loop.simps [simp del]

definition poly1305_blocks :: "p1305 \<Rightarrow> u8 list \<Rightarrow> p1305" where
  "poly1305_blocks st m = st\<lparr>ph := poly_loop (pr st) (if pfinal st then 0 else 0x10000000000) (ph st) m\<rparr>"

definition poly1305_update :: "p1305 \<Rightarrow> u8 list \<Rightarrow> p1305" where
  "poly1305_update st m =
     (let want = min (16 - length (pbuf st)) (length m);
          st' = st\<lparr>pbuf := pbuf st @ take want m\<rparr>;
          rest = (\<lambda>st m.
            let full = length m - length m mod 16;
                st = (if 16 \<le> length m then poly1305_blocks st (take full m) else st);
                m = (if 16 \<le> length m then drop full m else m)
            in st\<lparr>pbuf := pbuf st @ m\<rparr>)
      in if pbuf st = [] then rest st m
         else if length (pbuf st') < 16 then st'
         else rest ((poly1305_blocks st' (pbuf st'))\<lparr>pbuf := []\<rparr>) (drop want m))"

text \<open>\<^verbatim>\<open>poly1305_finish\<close> in its steps: the last block, the full carry, the subtraction of the prime,
  the addition of the pad.\<close>

definition poly_last :: "p1305 \<Rightarrow> p1305" where
  "poly_last st =
     (if pbuf st = [] then st
      else let b = pbuf st @ [1] @ replicate (16 - Suc (length (pbuf st))) 0
        in poly1305_blocks (st\<lparr>pbuf := b, pfinal := True\<rparr>) b)"

definition poly_carry :: "limbs \<Rightarrow> limbs" where
  "poly_carry h = (case h of (h0, h1, h2) \<Rightarrow>
     let c = drop_bit 44 h1; h1 = h1 AND lo44; h2 = h2 + c;
         c = drop_bit 42 h2; h2 = h2 AND lo42; h0 = h0 + c * 5;
         c = drop_bit 44 h0; h0 = h0 AND lo44; h1 = h1 + c
     in (h0, h1, h2))"

definition poly_select :: "limbs \<Rightarrow> limbs" where
  "poly_select h = (case h of (h0, h1, h2) \<Rightarrow>
     let g0 = h0 + 5; c = drop_bit 44 g0; g0 = g0 AND lo44;
         g1 = h1 + c; c = drop_bit 44 g1; g1 = g1 AND lo44;
         g2 = h2 + c - 0x40000000000;
         c = drop_bit 63 g2 - 1; g0 = g0 AND c; g1 = g1 AND c; g2 = g2 AND c; c = NOT c
     in ((h0 AND c) OR g0, (h1 AND c) OR g1, (h2 AND c) OR g2))"

definition poly_pad :: "u64 \<times> u64 \<Rightarrow> limbs \<Rightarrow> u64 \<times> u64" where
  "poly_pad pad h = (case pad of (t0, t1) \<Rightarrow> case h of (h0, h1, h2) \<Rightarrow>
     let h0 = h0 + (t0 AND lo44); c = drop_bit 44 h0; h0 = h0 AND lo44;
         h1 = h1 + (((drop_bit 44 t0 OR push_bit 20 t1) AND lo44) + c); c = drop_bit 44 h1; h1 = h1 AND lo44;
         h2 = h2 + ((drop_bit 24 t1 AND lo42) + c); h2 = h2 AND lo42
     in (h0 OR push_bit 44 h1, drop_bit 20 h1 OR push_bit 24 h2))"

definition poly1305_finish :: "p1305 \<Rightarrow> u8 list" where
  "poly1305_finish st =
     (let st = poly_last st in
      case poly_pad (ppad st) (poly_select (poly_carry (poly_carry (ph st)))) of
        (a, b) \<Rightarrow> U64TO8 a @ U64TO8 b)"

definition poly1305_compute :: "u8 list \<Rightarrow> u8 list \<Rightarrow> u8 list" where
  "poly1305_compute data key = poly1305_finish (poly1305_update (poly1305_init key) data)"

section \<open>The definition over the integers\<close>

fun le_val :: "u8 list \<Rightarrow> nat" where
  "le_val [] = 0"
| "le_val (b # bs) = unat b + 256 * le_val bs"

definition le_bytes :: "nat \<Rightarrow> nat \<Rightarrow> u8 list" where
  "le_bytes n v = map (\<lambda>i. of_nat (v div 256 ^ i)) [0..<n]"

definition prime1305 :: nat where
  "prime1305 = 2 ^ 130 - 5"

function ref_acc :: "nat \<Rightarrow> nat \<Rightarrow> u8 list \<Rightarrow> nat" where
  "ref_acc r a m =
     (if m = [] then a else ref_acc r ((a + le_val (take 16 m @ [1])) * r mod prime1305) (drop 16 m))"
  by pat_completeness auto
termination by (relation "measure (\<lambda>(r, a, m). length m)") auto

declare ref_acc.simps [simp del]

definition poly1305_ref :: "u8 list \<Rightarrow> u8 list \<Rightarrow> u8 list" where
  "poly1305_ref m key =
     le_bytes 16 ((ref_acc (le_val (take 16 key) AND 0x0ffffffc0ffffffc0ffffffc0fffffff) 0 m
       + le_val (take 16 (drop 16 key))) mod 2 ^ 128)"

section \<open>Words as numbers\<close>

lemma unat_take: "unat (take_bit n x) = unat x mod 2 ^ n" for x :: "'a::len word"
  by (rule trans [OF unsigned_take_bit_eq take_bit_eq_mod])

lemma and_lo: "x AND lo44 = take_bit 44 x" "x AND lo42 = take_bit 42 x"
  unfolding take_bit_eq_mask by (simp_all add: lo44_def lo42_def mask_eq_exp_minus_1)

lemma unat_drop: "unat (drop_bit n x) = unat x div 2 ^ n" for x :: "'a::len word"
  by (rule trans [OF unat_drop_bit_eq drop_bit_eq_div])

lemma unat_plus: "unat a + unat b < 2 ^ LENGTH('a) \<Longrightarrow> unat (a + b) = unat a + unat b" for a b :: "'a::len word"
  by (simp add: unat_word_ariths)

lemma unat_times: "unat a * unat b < 2 ^ LENGTH('a) \<Longrightarrow> unat (a * b) = unat a * unat b" for a b :: "'a::len word"
  by (simp add: unat_word_ariths)

lemma bit_below: "a < 2 ^ n \<Longrightarrow> bit a i \<Longrightarrow> i < n" for a :: nat
  by (metis bit_take_bit_iff take_bit_nat_eq_self)

lemma unat_lo: "unat (x AND lo44) = unat x mod 2 ^ 44" "unat (x AND lo42) = unat x mod 2 ^ 42"
  by (simp_all only: and_lo unat_take)

lemma nat_or_plus:
  fixes a b :: nat
  assumes "a < 2 ^ n" shows "a OR 2 ^ n * b = a + 2 ^ n * b"
proof -
  have "push_bit n b OR a = push_bit n b + a"
    by (intro disjunctive_add [symmetric]) (auto simp: bit_push_bit_iff dest: bit_below [OF assms])
  then show ?thesis by (simp add: push_bit_eq_mult ac_simps or.commute)
qed

lemma nat_and_split:
  fixes a b c d :: nat
  assumes "a < 2 ^ n" "c < 2 ^ n"
  shows "(a + 2 ^ n * b) AND (c + 2 ^ n * d) = (a AND c) + 2 ^ n * (b AND d)"
proof -
  have p: "2 ^ n * x = push_bit n x" for x :: nat by (simp add: push_bit_eq_mult)
  have lt: "a AND c < 2 ^ n"
    by (metis assms(1) take_bit_and take_bit_nat_eq_self_iff take_bit_nat_eq_self assms(2))
  have "(a OR push_bit n b) AND (c OR push_bit n d) = (a AND c) OR push_bit n (b AND d)"
    by (intro bit_eqI)
      (auto simp: bit_and_iff bit_or_iff bit_push_bit_iff dest: bit_below [OF assms(1)] bit_below [OF assms(2)])
  then show ?thesis
    using nat_or_plus [OF assms(1)] nat_or_plus [OF assms(2)] nat_or_plus [OF lt] by (simp only: p)
qed

section \<open>Bytes\<close>

lemma le_val_bound: "le_val bs < 256 ^ length bs"
proof (induction bs)
  case (Cons b bs)
  have "unat b < 256" using unsigned_less [of b, where 'a = nat] by simp
  moreover have "Suc (le_val bs) \<le> 256 ^ length bs" using Cons by simp
  then have "256 + 256 * le_val bs \<le> 256 * 256 ^ length bs" by linarith
  ultimately show ?case by simp
qed simp

lemma le_val_append: "le_val (xs @ ys) = le_val xs + 256 ^ length xs * le_val ys"
  by (induction xs) (simp_all add: algebra_simps)

lemma le_val_zeros: "le_val (replicate n 0) = 0"
  by (induction n) simp_all

lemma unat_be_val_rev:
  "8 * length bs \<le> LENGTH('a) \<Longrightarrow> unat (be_val (rev bs) :: 'a::len word) = le_val bs"
proof (induction bs)
  case Nil
  show ?case by (simp add: be_val_def)
next
  case (Cons b bs)
  let ?v = "be_val (rev bs) :: 'a word" and ?n = "LENGTH('a)"
  have v: "unat ?v = le_val bs" using Cons by simp
  have b: "unat b < 2 ^ 8" using unsigned_less [of b, where 'a = nat] by simp
  have "(256::nat) ^ Suc (length bs) = 2 ^ (8 * Suc (length bs))" by (simp only: power_mult) simp
  also have "\<dots> \<le> 2 ^ ?n" using Cons.prems by (intro power_increasing) simp_all
  finally have lim: "le_val (b # bs) < 2 ^ ?n"
    using le_val_bound [of "b # bs"] by (simp del: le_val.simps)
  have p: "unat (push_bit 8 ?v) = 2 ^ 8 * le_val bs"
  proof -
    have "unat (push_bit 8 ?v) = take_bit ?n (push_bit 8 (le_val bs))"
      by (simp only: unsigned_push_bit_eq v)
    moreover have "push_bit 8 (le_val bs) = 2 ^ 8 * le_val bs" by (simp add: push_bit_eq_mult)
    moreover have "2 ^ 8 * le_val bs < 2 ^ ?n" using lim by simp
    ultimately show ?thesis by (simp only: take_bit_nat_eq_self)
  qed
  have u: "unat (ucast b :: 'a word) = unat b"
    using Cons.prems by (simp add: unsigned_ucast_eq take_bit_nat_eq_self_iff)
       (meson b le_add1 order_less_le_trans power_increasing one_le_numeral)
  have "unat (push_bit 8 ?v OR ucast b) = 2 ^ 8 * le_val bs OR unat b"
    by (simp only: unsigned_or_eq p u)
  also have "\<dots> = unat b + 256 * le_val bs"
    using nat_or_plus [OF b, of "le_val bs"] by (simp add: or.commute)
  finally show ?case by (simp add: be_val_snoc)
qed

lemma unat_U8TO64: "unat (U8TO64 p) = le_val (take 8 p)"
  unfolding U8TO64_def by (rule unat_be_val_rev) simp

lemma U64TO8_le: "U64TO8 v = le_bytes 8 (unat v)"
proof -
  have "ucast (drop_bit (8 * i) v) = (of_nat (unat v div 256 ^ i) :: u8)" for i
  proof -
    have "(256::nat) ^ i = 2 ^ (8 * i)" by (simp only: power_mult) simp
    then show ?thesis by (simp only: unat_drop [symmetric] of_nat_unat)
  qed
  then show ?thesis by (simp add: U64TO8_def le_bytes_def be_bytes_def rev_map)
qed

lemma mod_div_pow:
  fixes a :: nat
  assumes "i < m" shows "(a mod 256 ^ m) div 256 ^ i mod 256 = a div 256 ^ i mod 256"
proof -
  have m: "(256::nat) ^ m = 256 ^ i * (256 * 256 ^ (m - Suc i))"
    using assms by (simp add: power_add [symmetric] power_Suc [symmetric] del: power_Suc)
  have "a mod 256 ^ m div 256 ^ i = a div 256 ^ i mod (256 * 256 ^ (m - Suc i))"
    unfolding m by (simp add: mod_mult2_eq)
  then show ?thesis by (simp add: mod_mod_cancel)
qed

lemma of_nat_byte: "a mod 256 = b mod 256 \<Longrightarrow> of_nat a = (of_nat b :: u8)"
  by (simp add: word_of_nat_eq_iff take_bit_eq_mod)

lemma le_bytes_append: "le_bytes m (a mod 256 ^ m) @ le_bytes n (a div 256 ^ m) = le_bytes (m + n) a"
proof -
  have "le_bytes m (a mod 256 ^ m) = map (\<lambda>i. of_nat (a div 256 ^ i)) [0..<m]"
    by (auto simp: le_bytes_def intro!: of_nat_byte mod_div_pow)
  moreover have "le_bytes n (a div 256 ^ m) = map (\<lambda>i. of_nat (a div 256 ^ i)) [m..<m + n]"
  proof -
    have "[m..<m + n] = map (\<lambda>i. i + m) [0..<n]" by (simp add: map_add_upt add.commute)
    moreover have "a div 256 ^ m div 256 ^ i = a div 256 ^ (i + m)" for i
      by (simp only: power_add add.commute [of i] div_mult2_eq)
    ultimately show ?thesis by (simp only: le_bytes_def map_map comp_def)
  qed
  moreover have "[0..<m + n] = [0..<m] @ [m..<m + n]" by (rule upt_add_eq_append) simp
  ultimately show ?thesis unfolding le_bytes_def [of "m + n"] by (simp only: map_append)
qed

section \<open>Limbs\<close>

definition lval :: "limbs \<Rightarrow> nat" where
  "lval h = (case h of (h0, h1, h2) \<Rightarrow> unat h0 + 2 ^ 44 * unat h1 + 2 ^ 88 * unat h2)"

definition limbs_ok :: "limbs \<Rightarrow> bool" where
  "limbs_ok h = (case h of (h0, h1, h2) \<Rightarrow>
     unat h0 < 2 ^ 44 \<and> unat h1 < 2 ^ 44 + 2 ^ 14 \<and> unat h2 < 2 ^ 42)"

lemma split_limbs:
  fixes u v :: u64
  defines "L \<equiv> unat u + 2 ^ 64 * unat v"
  shows "unat (u AND lo44) = L mod 2 ^ 44"
    "unat ((drop_bit 44 u OR push_bit 20 v) AND lo44) = L div 2 ^ 44 mod 2 ^ 44"
    "unat (drop_bit 24 v AND lo42) = L div 2 ^ 88" "unat (drop_bit 24 v) = L div 2 ^ 88"
    "L div 2 ^ 88 < 2 ^ 40"
proof -
  have t: "unat u < 2 ^ 64" "unat v < 2 ^ 64"
    using unsigned_less [of u, where 'a = nat] unsigned_less [of v, where 'a = nat] by simp_all
  have L: "L = unat u + 2 ^ 44 * (2 ^ 20 * unat v)" by (simp add: L_def)
  have d44: "L div 2 ^ 44 = unat u div 2 ^ 44 + 2 ^ 20 * unat v" by (simp add: L)
  have d88: "L div 2 ^ 88 = unat v div 2 ^ 24"
  proof -
    have "L div 2 ^ 88 = L div 2 ^ 64 div 2 ^ 24" by (simp add: div_mult2_eq [symmetric])
    also have "L div 2 ^ 64 = unat v" using t by (simp add: L_def)
    finally show ?thesis .
  qed
  show "unat (u AND lo44) = L mod 2 ^ 44" unfolding and_lo unat_take L by (simp only: mod_mult_self2)
  have "unat ((drop_bit 44 u OR push_bit 20 v) AND lo44) =
      take_bit 44 (unat u div 2 ^ 44 OR take_bit 64 (push_bit 20 (unat v)))"
    by (simp only: and_lo unsigned_take_bit_eq unsigned_or_eq unat_drop unsigned_push_bit_eq) simp
  also have "\<dots> = take_bit 44 (unat u div 2 ^ 44 OR 2 ^ 20 * unat v)"
    by (simp add: take_bit_or push_bit_eq_mult mult.commute)
  also have "unat u div 2 ^ 44 OR 2 ^ 20 * unat v = L div 2 ^ 44"
    unfolding d44 using t by (intro nat_or_plus) (simp add: less_mult_imp_div_less)
  finally show "unat ((drop_bit 44 u OR push_bit 20 v) AND lo44) = L div 2 ^ 44 mod 2 ^ 44"
    by (simp only: take_bit_eq_mod)
  show "L div 2 ^ 88 < 2 ^ 40" unfolding d88 using t by (simp add: less_mult_imp_div_less)
  then show "unat (drop_bit 24 v AND lo42) = L div 2 ^ 88" "unat (drop_bit 24 v) = L div 2 ^ 88"
    by (simp_all only: and_lo unat_take unat_drop d88) (simp add: d88)
qed

lemma le_val_16: "16 \<le> length m \<Longrightarrow> le_val (take 16 m) = unat (U8TO64 m) + 2 ^ 64 * unat (U8TO64 (drop 8 m))"
proof -
  assume m: "16 \<le> length m"
  have "take 16 m = take 8 m @ take 8 (drop 8 m)" by (simp add: take_add [of 8 8, simplified])
  then show ?thesis using m by (simp add: le_val_append unat_U8TO64)
qed

lemma split_sum:
  fixes L :: nat
  shows "L mod 2 ^ 44 + 2 ^ 44 * (L div 2 ^ 44 mod 2 ^ 44) + 2 ^ 88 * (L div 2 ^ 88) = L"
proof -
  define q d where "q = L div 2 ^ 44" and "d = L div 2 ^ 88"
  have "d = q div 2 ^ 44" by (simp add: q_def d_def div_mult2_eq [symmetric])
  then have "q mod 2 ^ 44 + 2 ^ 44 * d = q" "L mod 2 ^ 44 + 2 ^ 44 * q = L"
    by (simp_all only: q_def mod_mult_div_eq)
  then show ?thesis unfolding q_def [symmetric] d_def [symmetric] by simp
qed

lemma word_limbs:
  fixes u v :: u64
  obtains x y z where "unat (u AND lo44) = x" "unat ((drop_bit 44 u OR push_bit 20 v) AND lo44) = y"
    "unat (drop_bit 24 v AND lo42) = z" "unat (drop_bit 24 v) = z" "x < 2 ^ 44" "y < 2 ^ 44" "z < 2 ^ 40"
    "unat u + 2 ^ 64 * unat v = x + 2 ^ 44 * y + 2 ^ 88 * z"
  by (rule that [OF split_limbs(1,2,3,4) _ _ split_limbs(5) split_sum [symmetric]]) simp_all

lemma poly_add_spec:
  assumes "limbs_ok h" "16 \<le> length m" "hibit = 0 \<or> hibit = 0x10000000000"
  obtains a0 a1 a2 where "poly_add hibit h m = (a0, a1, a2)"
    "unat a0 < 2 ^ 45" "unat a1 < 2 ^ 46" "unat a2 < 2 ^ 43"
    "lval (a0, a1, a2) = lval h + le_val (take 16 m) + 2 ^ 88 * unat hibit"
proof -
  obtain h0 h1 h2 where h: "h = (h0, h1, h2)" by (cases h)
  let ?t0 = "U8TO64 m" and ?t1 = "U8TO64 (drop 8 m)"
  obtain x y z where s: "unat (?t0 AND lo44) = x" "unat ((drop_bit 44 ?t0 OR push_bit 20 ?t1) AND lo44) = y"
    "unat (drop_bit 24 ?t1 AND lo42) = z" and lt: "x < 2 ^ 44" "y < 2 ^ 44" "z < 2 ^ 40"
    and L: "le_val (take 16 m) = x + 2 ^ 44 * y + 2 ^ 88 * z"
    unfolding le_val_16 [OF assms(2)] by (rule word_limbs [of ?t0 ?t1])
  have b: "unat h0 < 2 ^ 44" "unat h1 < 2 ^ 44 + 2 ^ 14" "unat h2 < 2 ^ 42"
    using assms(1) by (simp_all add: h limbs_ok_def)
  have hb: "unat hibit \<le> 2 ^ 40" using assms(3) by auto
  have or: "unat ((drop_bit 24 ?t1 AND lo42) OR hibit) = z + unat hibit"
    using assms(3) nat_or_plus [OF lt(3), of 1] by (auto simp: unsigned_or_eq s)
  define w0 w1 w2 where w: "w0 = ?t0 AND lo44" "w1 = (drop_bit 44 ?t0 OR push_bit 20 ?t1) AND lo44"
    "w2 = (drop_bit 24 ?t1 AND lo42) OR hibit"
  have e: "unat (h0 + w0) = unat h0 + x" "unat (h1 + w1) = unat h1 + y" "unat (h2 + w2) = unat h2 + (z + unat hibit)"
    using b lt hb unat_plus [of h0 w0] unat_plus [of h1 w1] unat_plus [of h2 w2] by (simp_all add: w s or)
  show ?thesis
  proof (rule that)
    show "poly_add hibit h m = (h0 + w0, h1 + w1, h2 + w2)"
      by (simp add: poly_add_def h Let_def w)
    show "unat (h0 + w0) < 2 ^ 45" "unat (h1 + w1) < 2 ^ 46" "unat (h2 + w2) < 2 ^ 43"
      unfolding e using b lt hb by simp_all
    show "lval (h0 + w0, h1 + w1, h2 + w2) = lval h + le_val (take 16 m) + 2 ^ 88 * unat hibit"
      unfolding lval_def h prod.case e L by simp
  qed
qed

text \<open>The product: \<open>s1\<close> and \<open>s2\<close> fold the limbs above 130 bits back with the factor five.\<close>

definition r_ok :: "limbs \<Rightarrow> bool" where
  "r_ok r = (case r of (r0, r1, r2) \<Rightarrow> unat r0 < 2 ^ 44 \<and> unat r1 < 2 ^ 44 \<and> unat r2 < 2 ^ 36)"

definition dval :: "u128 \<times> u128 \<times> u128 \<Rightarrow> nat" where
  "dval d = (case d of (d0, d1, d2) \<Rightarrow> unat d0 + 2 ^ 44 * unat d1 + 2 ^ 88 * unat d2)"

lemma unat_mul128: "unat (mul128 x y) = unat x * unat y"
proof -
  have "unat x * unat y < 2 ^ 64 * 2 ^ 64"
    using unsigned_less [of x, where 'a = nat] unsigned_less [of y, where 'a = nat]
    by (intro mult_strict_mono) simp_all
  moreover have "unat (ucast x :: u128) = unat x" "unat (ucast y :: u128) = unat y"
    using unsigned_less [of x, where 'a = nat] unsigned_less [of y, where 'a = nat]
    by (simp_all add: unsigned_ucast_eq take_bit_nat_eq_self)
  ultimately show ?thesis unfolding mul128_def by (subst unat_times) simp_all
qed

lemma mul_bound: "a < 2 ^ i \<Longrightarrow> b < 2 ^ j \<Longrightarrow> a * b < 2 ^ (i + j)" for a b :: nat
  by (simp add: power_add mult_strict_mono)

lemma product_fold:
  fixes a0 :: nat
  shows "(a0 + 2 ^ 44 * a1 + 2 ^ 88 * a2) * (r0 + 2 ^ 44 * r1 + 2 ^ 88 * r2) =
    ((a0 * r0 + a1 * (r2 * 20) + a2 * (r1 * 20)) + 2 ^ 44 * (a0 * r1 + a1 * r0 + a2 * (r2 * 20)) +
     2 ^ 88 * (a0 * r2 + a1 * r1 + a2 * r0)) + prime1305 * (4 * (a1 * r2 + a2 * r1 + 2 ^ 44 * (a2 * r2)))"
  by (simp add: prime1305_def algebra_simps)

lemma poly_mul_spec:
  assumes "r_ok r" "unat a0 < 2 ^ 45" "unat a1 < 2 ^ 46" "unat a2 < 2 ^ 43"
  obtains d0 d1 d2 where "poly_mul r (a0, a1, a2) = (d0, d1, d2)"
    "unat d0 < 2 ^ 95" "unat d1 < 2 ^ 95" "unat d2 < 2 ^ 95"
    "dval (d0, d1, d2) mod prime1305 = lval (a0, a1, a2) * lval r mod prime1305"
proof -
  obtain r0 r1 r2 where r: "r = (r0, r1, r2)" by (cases r)
  have b: "unat r0 < 2 ^ 44" "unat r1 < 2 ^ 44" "unat r2 < 2 ^ 36"
    using assms(1) by (simp_all add: r r_ok_def)
  have s: "unat (r1 * 20) = unat r1 * 20" "unat (r2 * 20) = unat r2 * 20"
    using b by (simp_all add: unat_times)
  then have sb: "unat (r1 * 20) < 2 ^ 49" "unat (r2 * 20) < 2 ^ 41" using b by simp_all
  define d0 d1 d2 where d: "d0 = mul128 a0 r0 + mul128 a1 (r2 * 20) + mul128 a2 (r1 * 20)"
    "d1 = mul128 a0 r1 + mul128 a1 r0 + mul128 a2 (r2 * 20)"
    "d2 = mul128 a0 r2 + mul128 a1 r1 + mul128 a2 r0"
  have sum: "unat (x + y + z) = unat x + unat y + unat z \<and> unat (x + y + z) < 2 ^ 95"
    if "unat x < 2 ^ 93" "unat y < 2 ^ 93" "unat z < 2 ^ 93" for x y z :: u128
    using that by (simp add: unat_plus)
  have mb: "unat (mul128 x y) < 2 ^ 93" if "unat x < 2 ^ i" "unat y < 2 ^ j" "i + j \<le> 93" for x y i j
  proof -
    have "unat x * unat y < 2 ^ (i + j)" by (rule mul_bound [OF that(1,2)])
    also have "\<dots> \<le> 2 ^ 93" using that(3) by (intro power_increasing) simp_all
    finally show ?thesis by (simp only: unat_mul128)
  qed
  note ms = mb [OF assms(2) b(1)] mb [OF assms(2) b(2)] mb [OF assms(2) b(3)]
    mb [OF assms(3) b(1)] mb [OF assms(3) b(2)] mb [OF assms(3) sb(2)]
    mb [OF assms(4) b(1)] mb [OF assms(4) sb(1)] mb [OF assms(4) sb(2)]
  have e: "unat d0 = unat a0 * unat r0 + unat a1 * (unat r2 * 20) + unat a2 * (unat r1 * 20) \<and> unat d0 < 2 ^ 95"
    "unat d1 = unat a0 * unat r1 + unat a1 * unat r0 + unat a2 * (unat r2 * 20) \<and> unat d1 < 2 ^ 95"
    "unat d2 = unat a0 * unat r2 + unat a1 * unat r1 + unat a2 * unat r0 \<and> unat d2 < 2 ^ 95"
    unfolding d
    using sum [of "mul128 a0 r0" "mul128 a1 (r2 * 20)" "mul128 a2 (r1 * 20)"]
      sum [of "mul128 a0 r1" "mul128 a1 r0" "mul128 a2 (r2 * 20)"]
      sum [of "mul128 a0 r2" "mul128 a1 r1" "mul128 a2 r0"] ms
    by (simp_all only: unat_mul128 s) auto
  show ?thesis
  proof (rule that)
    show "poly_mul r (a0, a1, a2) = (d0, d1, d2)" by (simp add: poly_mul_def r d Let_def)
    show "unat d0 < 2 ^ 95" "unat d1 < 2 ^ 95" "unat d2 < 2 ^ 95" using e by blast+
    have "lval (a0, a1, a2) * lval r = dval (d0, d1, d2) +
        prime1305 * (4 * (unat a1 * unat r2 + unat a2 * unat r1 + 2 ^ 44 * (unat a2 * unat r2)))"
      unfolding lval_def r dval_def prod.case e [THEN conjunct1] by (rule product_fold)
    then show "dval (d0, d1, d2) mod prime1305 = lval (a0, a1, a2) * lval r mod prime1305"
      by (simp only: mod_mult_self2)
  qed
qed

text \<open>The carry chain: what leaves the top limb comes back into the lowest, five times.\<close>

lemma carry_fold:
  fixes d0 d1 d2 :: nat
  defines "e1 \<equiv> d1 + d0 div 2 ^ 44"
  defines "e2 \<equiv> d2 + e1 div 2 ^ 44"
  shows "d0 + 2 ^ 44 * d1 + 2 ^ 88 * d2 =
    (d0 mod 2 ^ 44 + e2 div 2 ^ 42 * 5) + 2 ^ 44 * (e1 mod 2 ^ 44) + 2 ^ 88 * (e2 mod 2 ^ 42)
    + prime1305 * (e2 div 2 ^ 42)"
proof -
  have "d0 mod 2 ^ 44 + 2 ^ 44 * (d0 div 2 ^ 44) = d0" "e1 mod 2 ^ 44 + 2 ^ 44 * (e1 div 2 ^ 44) = e1"
    "e2 mod 2 ^ 42 + 2 ^ 42 * (e2 div 2 ^ 42) = e2" by (rule mod_mult_div_eq)+
  moreover define c0 m0 c1 m1 c2 m2 where "c0 = d0 div 2 ^ 44" and "m0 = d0 mod 2 ^ 44"
    and "c1 = e1 div 2 ^ 44" and "m1 = e1 mod 2 ^ 44" and "c2 = e2 div 2 ^ 42" and "m2 = e2 mod 2 ^ 42"
  ultimately have "m0 + 2 ^ 44 * c0 = d0" "m1 + 2 ^ 44 * c1 = d1 + c0" "m2 + 2 ^ 42 * c2 = d2 + c1"
    by (simp_all only: e1_def e2_def)
  then show ?thesis
    unfolding c0_def [symmetric] m0_def [symmetric] c1_def [symmetric] m1_def [symmetric]
      c2_def [symmetric] m2_def [symmetric] prime1305_def
    by simp
qed

lemma low_word:
  fixes d :: u128
  shows "unat ((ucast d :: u64) AND lo44) = unat d mod 2 ^ 44" "unat ((ucast d :: u64) AND lo42) = unat d mod 2 ^ 42"
proof -
  have u: "unat (ucast d :: u64) = take_bit 64 (unat d)" by (simp add: unsigned_ucast_eq)
  show "unat ((ucast d :: u64) AND lo44) = unat d mod 2 ^ 44" "unat ((ucast d :: u64) AND lo42) = unat d mod 2 ^ 42"
    by (simp_all only: and_lo unsigned_take_bit_eq u take_bit_take_bit) (simp_all add: take_bit_eq_mod)
qed

lemma high_word:
  fixes d :: u128
  assumes "unat d div 2 ^ n < 2 ^ 64"
  shows "unat (ucast (drop_bit n d) :: u64) = unat d div 2 ^ n"
proof -
  have "unat (ucast (drop_bit n d) :: u64) = take_bit 64 (unat d div 2 ^ n)"
    by (simp only: unsigned_ucast_eq unat_drop) simp
  then show ?thesis using assms by (simp only: take_bit_nat_eq_self)
qed

lemma unat_widen: "unat (ucast (x :: u64) :: u128) = unat x"
  using unsigned_less [of x, where 'a = nat] by (simp add: unsigned_ucast_eq take_bit_nat_eq_self)

lemma div_bound: "x < 2 ^ (n + k) \<Longrightarrow> x div 2 ^ n < 2 ^ k" for x :: nat
  by (simp add: less_mult_imp_div_less power_add mult.commute)

lemma poly_reduce_spec:
  assumes "unat d0 < 2 ^ 95" "unat d1 < 2 ^ 95" "unat d2 < 2 ^ 95"
  shows "limbs_ok (poly_reduce (d0, d1, d2))"
    "lval (poly_reduce (d0, d1, d2)) mod prime1305 = dval (d0, d1, d2) mod prime1305"
proof -
  define c0 where "c0 = (ucast (drop_bit 44 d0) :: u64)"
  define e1 where "e1 = d1 + ucast c0"
  define c1 where "c1 = (ucast (drop_bit 44 e1) :: u64)"
  define e2 where "e2 = d2 + ucast c1"
  define c2 where "c2 = (ucast (drop_bit 42 e2) :: u64)"
  define g0 where "g0 = (ucast d0 AND lo44) + c2 * 5"
  have q0: "unat d0 div 2 ^ 44 < 2 ^ 51" using assms(1) by (intro div_bound) simp
  have c0: "unat c0 = unat d0 div 2 ^ 44" unfolding c0_def using q0 by (intro high_word) simp
  have e1: "unat e1 = unat d1 + unat d0 div 2 ^ 44" "unat e1 < 2 ^ 96"
    unfolding e1_def using q0 assms(2) unat_plus [of d1 "ucast c0"] by (simp_all add: unat_widen c0)
  have q1: "unat e1 div 2 ^ 44 < 2 ^ 52" using e1(2) by (intro div_bound) simp
  have c1: "unat c1 = unat e1 div 2 ^ 44" unfolding c1_def using q1 by (intro high_word) simp
  have e2: "unat e2 = unat d2 + unat e1 div 2 ^ 44" "unat e2 < 2 ^ 96"
    unfolding e2_def using q1 assms(3) unat_plus [of d2 "ucast c1"] by (simp_all add: unat_widen c1)
  have q2: "unat e2 div 2 ^ 42 < 2 ^ 54" using e2(2) by (intro div_bound) simp
  have c2: "unat c2 = unat e2 div 2 ^ 42" unfolding c2_def using q2 by (intro high_word) simp
  have c25: "unat (c2 * 5) = unat e2 div 2 ^ 42 * 5"
    using q2 unat_times [of c2 5] by (simp add: c2)
  have m0: "unat d0 mod 2 ^ 44 < 2 ^ 44" by simp
  have g0: "unat g0 = unat d0 mod 2 ^ 44 + unat e2 div 2 ^ 42 * 5" "unat g0 < 2 ^ 58"
    unfolding g0_def using q2 m0 unat_plus [of "ucast d0 AND lo44" "c2 * 5"] by (simp_all only: low_word c25) simp_all
  have g: "unat g0 div 2 ^ 44 < 2 ^ 14" using g0(2) by (intro div_bound) simp
  have m1: "unat e1 mod 2 ^ 44 < 2 ^ 44" by simp
  have h1: "unat ((ucast e1 AND lo44) + drop_bit 44 g0) = unat e1 mod 2 ^ 44 + unat g0 div 2 ^ 44"
    using g m1 unat_plus [of "ucast e1 AND lo44" "drop_bit 44 g0"] by (simp only: low_word unat_drop) simp
  have eq: "poly_reduce (d0, d1, d2) =
      (g0 AND lo44, (ucast e1 AND lo44) + drop_bit 44 g0, ucast e2 AND lo42)"
    by (simp only: poly_reduce_def prod.case Let_def c0_def e1_def c1_def e2_def c2_def g0_def)
  show "limbs_ok (poly_reduce (d0, d1, d2))"
    unfolding eq limbs_ok_def prod.case h1 low_word unat_lo(1) [of g0] using g m1 by simp
  have "unat g0 mod 2 ^ 44 + 2 ^ 44 * (unat g0 div 2 ^ 44) = unat g0" by (rule mod_mult_div_eq)
  then have lv: "lval (poly_reduce (d0, d1, d2)) =
      unat g0 + 2 ^ 44 * (unat e1 mod 2 ^ 44) + 2 ^ 88 * (unat e2 mod 2 ^ 42)"
    unfolding eq lval_def prod.case h1 low_word unat_lo(1) [of g0] distrib_left by linarith
  have "dval (d0, d1, d2) = lval (poly_reduce (d0, d1, d2)) + prime1305 * (unat e2 div 2 ^ 42)"
    unfolding lv unfolding dval_def prod.case g0(1) e2(1) e1(1) by (rule carry_fold)
  then show "lval (poly_reduce (d0, d1, d2)) mod prime1305 = dval (d0, d1, d2) mod prime1305"
    by (simp only: mod_mult_self2)
qed

text \<open>One turn of the loop.\<close>

lemma poly_turn:
  assumes "r_ok r" "limbs_ok h" "16 \<le> length m" "hibit = 0 \<or> hibit = 0x10000000000"
  defines "h' \<equiv> poly_reduce (poly_mul r (poly_add hibit h m))"
  shows "limbs_ok h'"
    "lval h' mod prime1305 = (lval h + (le_val (take 16 m) + 2 ^ 88 * unat hibit)) * lval r mod prime1305"
proof -
  obtain a0 a1 a2 where a: "poly_add hibit h m = (a0, a1, a2)"
    "unat a0 < 2 ^ 45" "unat a1 < 2 ^ 46" "unat a2 < 2 ^ 43"
    "lval (a0, a1, a2) = lval h + le_val (take 16 m) + 2 ^ 88 * unat hibit"
    by (rule poly_add_spec [OF assms(2,3,4)])
  obtain d0 d1 d2 where d: "poly_mul r (a0, a1, a2) = (d0, d1, d2)"
    "unat d0 < 2 ^ 95" "unat d1 < 2 ^ 95" "unat d2 < 2 ^ 95"
    "dval (d0, d1, d2) mod prime1305 = lval (a0, a1, a2) * lval r mod prime1305"
    by (rule poly_mul_spec [OF assms(1) a(2,3,4)])
  show "limbs_ok h'" "lval h' mod prime1305 = (lval h + (le_val (take 16 m) + 2 ^ 88 * unat hibit)) * lval r mod prime1305"
    unfolding h'_def a(1) d(1) using poly_reduce_spec [OF d(2,3,4)] d(5) a(5) by (simp_all only: add.assoc)
qed

lemma poly_loop_small: "length m < 16 \<Longrightarrow> poly_loop r hibit h m = h"
  by (subst poly_loop.simps) simp

lemma poly_loop_step:
  "16 \<le> length m \<Longrightarrow>
   poly_loop r hibit h m = poly_loop r hibit (poly_reduce (poly_mul r (poly_add hibit h m))) (drop 16 m)"
  by (subst poly_loop.simps) simp

lemma ref_acc_Nil [simp]: "ref_acc r a [] = a"
  by (subst ref_acc.simps) simp

lemma ref_acc_step:
  "m \<noteq> [] \<Longrightarrow> ref_acc r a m = ref_acc r ((a + le_val (take 16 m @ [1])) * r mod prime1305) (drop 16 m)"
  by (subst ref_acc.simps) simp

lemma block_value:
  "16 \<le> length m \<Longrightarrow> le_val (take 16 m) + 2 ^ 88 * unat (0x10000000000 :: u64) = le_val (take 16 m @ [1])"
  by (simp add: le_val_append)

text \<open>Whole blocks, followed by anything: the loop and the definition stay congruent.\<close>

lemma poly_loop_spec:
  assumes "r_ok r" "limbs_ok h" "lval h mod prime1305 = a mod prime1305" "16 dvd length m"
  shows "limbs_ok (poly_loop r 0x10000000000 h m) \<and>
    ref_acc (lval r) (lval (poly_loop r 0x10000000000 h m) mod prime1305) m' =
    ref_acc (lval r) (a mod prime1305) (m @ m')"
  using assms
proof (induction "length m" arbitrary: m h a rule: less_induct)
  case less
  show ?case
  proof (cases "m = []")
    case True
    then show ?thesis using less.prems by (simp add: poly_loop_small)
  next
    case False
    then have len: "16 \<le> length m" using less.prems(4) by (auto dest: dvd_imp_le)
    define h' where "h' = poly_reduce (poly_mul r (poly_add 0x10000000000 h m))"
    define v where "v = le_val (take 16 m @ [1])"
    have ok: "limbs_ok h'" and val: "lval h' mod prime1305 = (lval h + v) * lval r mod prime1305"
      using poly_turn [OF less.prems(1,2) len, where hibit = "0x10000000000"] block_value [OF len]
      by (simp_all add: h'_def v_def)
    have val': "lval h' mod prime1305 = ((a mod prime1305 + v) * lval r mod prime1305) mod prime1305"
      unfolding val using less.prems(3) by (metis mod_add_left_eq mod_mult_left_eq mod_mod_trivial)
    have step: "poly_loop r 0x10000000000 h m = poly_loop r 0x10000000000 h' (drop 16 m)"
      unfolding h'_def by (rule poly_loop_step [OF len])
    have "ref_acc (lval r) (a mod prime1305) (m @ m') =
        ref_acc (lval r) (((a mod prime1305 + v) * lval r mod prime1305) mod prime1305) (drop 16 m @ m')"
      using False len by (subst ref_acc_step) (simp_all add: v_def)
    moreover have "limbs_ok (poly_loop r 0x10000000000 h' (drop 16 m)) \<and>
        ref_acc (lval r) (lval (poly_loop r 0x10000000000 h' (drop 16 m)) mod prime1305) m' =
        ref_acc (lval r) (((a mod prime1305 + v) * lval r mod prime1305) mod prime1305) (drop 16 m @ m')"
      using len less.prems(4) by (intro less.hyps [OF _ less.prems(1) ok val']) (simp_all add: dvd_diff_nat)
    ultimately show ?thesis unfolding step by simp
  qed
qed

section \<open>Finishing\<close>

lemma poly_carry_spec:
  assumes "limbs_ok h"
  obtains k0 k1 k2 where "poly_carry h = (k0, k1, k2)" "limbs_ok (k0, k1, k2)"
    "unat k0 < 2 ^ 44" "unat k1 \<le> 2 ^ 44" "unat k2 < 2 ^ 42"
    "lval (k0, k1, k2) mod prime1305 = lval h mod prime1305"
proof -
  obtain h0 h1 h2 where h: "h = (h0, h1, h2)" by (cases h)
  have b: "unat h0 < 2 ^ 44" "unat h1 < 2 ^ 44 + 2 ^ 14" "unat h2 < 2 ^ 42"
    using assms by (simp_all add: h limbs_ok_def)
  define e2 g0 where "e2 = h2 + drop_bit 44 h1" and "g0 = h0 + drop_bit 42 e2 * 5"
  have c1: "unat h1 div 2 ^ 44 \<le> 1" using b(2) by (simp add: less_Suc_eq_le [symmetric] less_mult_imp_div_less)
  have e2: "unat e2 = unat h2 + unat h1 div 2 ^ 44"
    unfolding e2_def using b(3) c1 unat_plus [of h2 "drop_bit 44 h1"] by (simp add: unat_drop)
  have c2: "unat e2 div 2 ^ 42 \<le> 1"
    using b(3) c1 e2 by (simp add: less_Suc_eq_le [symmetric] less_mult_imp_div_less)
  have c25: "unat (drop_bit 42 e2 * 5) = unat e2 div 2 ^ 42 * 5"
    using c2 unat_times [of "drop_bit 42 e2" 5] by (simp add: unat_drop)
  have g0: "unat g0 = unat h0 + unat e2 div 2 ^ 42 * 5"
    unfolding g0_def using b(1) c2 c25 unat_plus [of h0 "drop_bit 42 e2 * 5"] by simp
  have g: "unat g0 div 2 ^ 44 \<le> 1"
    using b(1) c2 g0 by (simp add: less_Suc_eq_le [symmetric] less_mult_imp_div_less)
  have m1: "unat h1 mod 2 ^ 44 < 2 ^ 44" by simp
  have k1: "unat ((h1 AND lo44) + drop_bit 44 g0) = unat h1 mod 2 ^ 44 + unat g0 div 2 ^ 44"
    using g m1 unat_plus [of "h1 AND lo44" "drop_bit 44 g0"] by (simp add: unat_lo unat_drop)
  have eq: "poly_carry h = (g0 AND lo44, (h1 AND lo44) + drop_bit 44 g0, e2 AND lo42)"
    by (simp add: poly_carry_def h Let_def e2_def g0_def)
  have bd: "unat (g0 AND lo44) < 2 ^ 44" "unat ((h1 AND lo44) + drop_bit 44 g0) \<le> 2 ^ 44" "unat (e2 AND lo42) < 2 ^ 42"
    unfolding k1 unat_lo using g m1 by simp_all
  show ?thesis
  proof (rule that [OF eq _ bd])
    show "limbs_ok (g0 AND lo44, (h1 AND lo44) + drop_bit 44 g0, e2 AND lo42)"
      unfolding limbs_ok_def prod.case using bd by simp
    have d: "unat h1 mod 2 ^ 44 + 2 ^ 44 * (unat h1 div 2 ^ 44) = unat h1"
      "unat e2 mod 2 ^ 42 + 2 ^ 42 * (unat e2 div 2 ^ 42) = unat e2"
      "unat g0 mod 2 ^ 44 + 2 ^ 44 * (unat g0 div 2 ^ 44) = unat g0" by (rule mod_mult_div_eq)+
    define c c' c'' where c: "c = unat h1 div 2 ^ 44" "c' = unat e2 div 2 ^ 42" "c'' = unat g0 div 2 ^ 44"
    define n n' n'' where n: "n = unat h1 mod 2 ^ 44" "n' = unat e2 mod 2 ^ 42" "n'' = unat g0 mod 2 ^ 44"
    have "lval h = lval (g0 AND lo44, (h1 AND lo44) + drop_bit 44 g0, e2 AND lo42) + prime1305 * c'"
      unfolding lval_def h prod.case k1 unat_lo n [symmetric] c [symmetric] prime1305_def
      using d e2 g0 unfolding n [symmetric] c [symmetric] by simp
    then show "lval (g0 AND lo44, (h1 AND lo44) + drop_bit 44 g0, e2 AND lo42) mod prime1305 = lval h mod prime1305"
      by (simp only: mod_mult_self2)
  qed
qed

lemma poly_select_spec:
  assumes b: "unat h0 < 2 ^ 44" "unat h1 \<le> 2 ^ 44" "unat h2 < 2 ^ 42"
  obtains k0 k1 k2 where "poly_select (h0, h1, h2) = (k0, k1, k2)"
    "unat k0 < 2 ^ 44" "unat k1 \<le> 2 ^ 44" "unat k2 < 2 ^ 42"
    "lval (k0, k1, k2) = lval (h0, h1, h2) mod prime1305"
proof -
  define g0 g1 e2 where "g0 = h0 + 5" and "g1 = h1 + drop_bit 44 g0" and "e2 = h2 + drop_bit 44 g1"
  define c where "c = drop_bit 63 (e2 - 0x40000000000) - 1"
  have eq: "poly_select (h0, h1, h2) = ((h0 AND NOT c) OR ((g0 AND lo44) AND c), (h1 AND NOT c) OR ((g1 AND lo44) AND c),
      (h2 AND NOT c) OR ((e2 - 0x40000000000) AND c))"
    by (simp add: poly_select_def Let_def g0_def g1_def e2_def c_def)
  have g0: "unat g0 = unat h0 + 5" unfolding g0_def using b(1) unat_plus [of h0 5] by simp
  have c0: "unat g0 div 2 ^ 44 \<le> 1" using g0 b(1) by (simp add: less_Suc_eq_le [symmetric] less_mult_imp_div_less)
  have g1: "unat g1 = unat h1 + unat g0 div 2 ^ 44"
    unfolding g1_def using b(2) c0 unat_plus [of h1 "drop_bit 44 g0"] by (simp add: unat_drop)
  have c1: "unat g1 div 2 ^ 44 \<le> 1" using g1 c0 b(2) by (simp add: less_Suc_eq_le [symmetric] less_mult_imp_div_less)
  have e2: "unat e2 = unat h2 + unat g1 div 2 ^ 44" "unat e2 \<le> 2 ^ 42"
    unfolding e2_def using b(3) c1 unat_plus [of h2 "drop_bit 44 g1"] by (simp_all add: unat_drop)
  have sum: "lval (h0, h1, h2) + 5 = unat g0 mod 2 ^ 44 + 2 ^ 44 * (unat g1 mod 2 ^ 44) + 2 ^ 88 * unat e2"
  proof -
    have d: "unat g0 mod 2 ^ 44 + 2 ^ 44 * (unat g0 div 2 ^ 44) = unat g0"
      "unat g1 mod 2 ^ 44 + 2 ^ 44 * (unat g1 div 2 ^ 44) = unat g1" by (rule mod_mult_div_eq)+
    define n n' m m' where "n = unat g0 mod 2 ^ 44" and "n' = unat g1 mod 2 ^ 44"
      and "m = unat g0 div 2 ^ 44" and "m' = unat g1 div 2 ^ 44"
    note ab = n_def [symmetric] n'_def [symmetric] m_def [symmetric] m'_def [symmetric]
    show ?thesis unfolding lval_def prod.case ab using d g0 g1 e2(1) unfolding ab by simp
  qed
  show ?thesis
  proof (cases "unat e2 = 2 ^ 42")
    case True
    then have e: "e2 = 0x40000000000" by (simp add: word_unat_eq_iff)
    then have "c = -1" by (simp add: c_def)
    then have k: "poly_select (h0, h1, h2) = (g0 AND lo44, g1 AND lo44, 0)" by (simp add: eq e)
    have v: "lval (h0, h1, h2) = lval (g0 AND lo44, g1 AND lo44, 0) + prime1305"
      using sum True by (simp add: lval_def unat_lo prime1305_def)
    have "lval (g0 AND lo44, g1 AND lo44, 0) < 2 ^ 44 * 2 ^ 44"
    proof -
      have "unat (g0 AND lo44) < 2 ^ 44" "unat (g1 AND lo44) < 2 ^ 44" by (simp_all add: unat_lo)
      then show ?thesis by (simp add: lval_def)
    qed
    then have "lval (g0 AND lo44, g1 AND lo44, 0) < prime1305" by (simp add: prime1305_def)
    then have r: "lval (g0 AND lo44, g1 AND lo44, 0) = lval (h0, h1, h2) mod prime1305"
      unfolding v by (simp only: mod_add_self2 mod_less)
    show ?thesis by (rule that [OF k _ _ _ r]) (simp_all add: unat_lo order_less_imp_le)
  next
    case False
    then have lt: "unat e2 < 2 ^ 42" using e2(2) by simp
    have "unat (e2 - 0x40000000000) = 2 ^ 64 - 2 ^ 42 + unat e2"
      using lt by (simp add: unat_sub_if' word_le_nat_alt)
    then have "unat (drop_bit 63 (e2 - 0x40000000000)) = 1"
      unfolding unat_drop using lt by (intro div_nat_eqI) simp_all
    then have "drop_bit 63 (e2 - 0x40000000000) = 1" by (simp add: word_unat_eq_iff)
    then have "c = 0" by (simp add: c_def)
    then have k: "poly_select (h0, h1, h2) = (h0, h1, h2)" by (simp add: eq)
    have "unat g0 mod 2 ^ 44 < 2 ^ 44" "unat g1 mod 2 ^ 44 < 2 ^ 44" by simp_all
    then have "lval (h0, h1, h2) + 5 < 2 ^ 130" unfolding sum using lt by simp
    then have r: "lval (h0, h1, h2) = lval (h0, h1, h2) mod prime1305" by (simp add: prime1305_def)
    show ?thesis by (rule that [OF k b r])
  qed
qed

lemma two_words:
  fixes H0 H1 Y :: nat
  assumes "H0 < 2 ^ 44" "H1 < 2 ^ 44"
  defines "T \<equiv> H0 + 2 ^ 44 * H1 + 2 ^ 88 * Y"
  shows "take_bit 64 (H0 OR push_bit 44 H1) = T mod 2 ^ 64"
    "take_bit 64 (H1 div 2 ^ 20 OR push_bit 24 (Y mod 2 ^ 42)) = T div 2 ^ 64 mod 2 ^ 64"
proof -
  have p: "push_bit n x = 2 ^ n * x" for n x :: nat by (simp add: push_bit_eq_mult)
  have "(H0 + 2 ^ 44 * H1) mod 2 ^ 64 = (H0 + 2 ^ 44 * H1 + 2 ^ 64 * (2 ^ 24 * Y)) mod 2 ^ 64"
    by (simp only: mod_mult_self2)
  then show "take_bit 64 (H0 OR push_bit 44 H1) = T mod 2 ^ 64"
    unfolding p nat_or_plus [OF assms(1)] T_def take_bit_eq_mod by simp
  have lt: "H1 div 2 ^ 20 < 2 ^ 24" using assms(2) by (intro div_bound) simp
  have "T div 2 ^ 64 = T div 2 ^ 44 div 2 ^ 20" by (simp add: div_mult2_eq [symmetric])
  also have "T div 2 ^ 44 = H1 + 2 ^ 44 * Y"
  proof -
    have "T = H0 + 2 ^ 44 * (H1 + 2 ^ 44 * Y)" by (simp add: T_def)
    then show ?thesis using assms(1) by simp
  qed
  also have "(H1 + 2 ^ 44 * Y) div 2 ^ 20 = H1 div 2 ^ 20 + 2 ^ 24 * Y"
  proof -
    have "H1 + 2 ^ 44 * Y = H1 + 2 ^ 20 * (2 ^ 24 * Y)" by simp
    then show ?thesis by (metis add.commute div_mult_self2 zero_neq_numeral power_not_zero)
  qed
  finally have d: "T div 2 ^ 64 = H1 div 2 ^ 20 + 2 ^ 24 * Y" .
  define q r where "q = Y div 2 ^ 42" and "r = Y mod 2 ^ 42"
  have "r + 2 ^ 42 * q = Y" unfolding q_def r_def by (rule mod_mult_div_eq)
  then have "2 ^ 24 * Y = 2 ^ 24 * r + 2 ^ 64 * (2 ^ 2 * q)" by simp
  then have "H1 div 2 ^ 20 + 2 ^ 24 * Y = (H1 div 2 ^ 20 + 2 ^ 24 * (Y mod 2 ^ 42)) + 2 ^ 64 * (2 ^ 2 * q)"
    unfolding r_def by (simp only: add.assoc)
  then have "T div 2 ^ 64 mod 2 ^ 64 = (H1 div 2 ^ 20 + 2 ^ 24 * (Y mod 2 ^ 42)) mod 2 ^ 64"
    unfolding d by (simp only: mod_mult_self2)
  then show "take_bit 64 (H1 div 2 ^ 20 OR push_bit 24 (Y mod 2 ^ 42)) = T div 2 ^ 64 mod 2 ^ 64"
    unfolding p nat_or_plus [OF lt] take_bit_eq_mod by simp
qed

lemma poly_pad_spec:
  fixes u v :: u64
  assumes b: "unat h0 < 2 ^ 44" "unat h1 \<le> 2 ^ 44" "unat h2 < 2 ^ 42"
  defines "T \<equiv> lval (h0, h1, h2) + (unat u + 2 ^ 64 * unat v)"
  shows "\<exists>a b. poly_pad (u, v) (h0, h1, h2) = (a, b) \<and> unat a = T mod 2 ^ 64 \<and> unat b = T div 2 ^ 64 mod 2 ^ 64"
proof -
  obtain x y z where s: "unat (u AND lo44) = x" "unat ((drop_bit 44 u OR push_bit 20 v) AND lo44) = y"
    "unat (drop_bit 24 v AND lo42) = z" and lt: "x < 2 ^ 44" "y < 2 ^ 44" "z < 2 ^ 40"
    and L: "unat u + 2 ^ 64 * unat v = x + 2 ^ 44 * y + 2 ^ 88 * z"
    by (rule word_limbs [of u v])
  define e0 where "e0 = h0 + (u AND lo44)"
  define e1 where "e1 = h1 + (((drop_bit 44 u OR push_bit 20 v) AND lo44) + drop_bit 44 e0)"
  define e2 where "e2 = h2 + ((drop_bit 24 v AND lo42) + drop_bit 44 e1)"
  have e0: "unat e0 = unat h0 + x" unfolding e0_def using b(1) lt(1) unat_plus [of h0 "u AND lo44"] by (simp add: s)
  have c0: "unat e0 div 2 ^ 44 < 2" using e0 b(1) lt(1) by (simp add: less_mult_imp_div_less)
  have yc: "unat (((drop_bit 44 u OR push_bit 20 v) AND lo44) + drop_bit 44 e0) = y + unat e0 div 2 ^ 44"
    using lt(2) c0 unat_plus [of "(drop_bit 44 u OR push_bit 20 v) AND lo44" "drop_bit 44 e0"]
    by (simp add: s unat_drop)
  have e1: "unat e1 = unat h1 + (y + unat e0 div 2 ^ 44)"
    unfolding e1_def using b(2) lt(2) c0 unat_plus [of h1 "((drop_bit 44 u OR push_bit 20 v) AND lo44) + drop_bit 44 e0"]
    by (simp add: yc)
  have c1: "unat e1 div 2 ^ 44 < 4" using e1 b(2) lt(2) c0 by (simp add: less_mult_imp_div_less)
  have zc: "unat ((drop_bit 24 v AND lo42) + drop_bit 44 e1) = z + unat e1 div 2 ^ 44"
    using lt(3) c1 unat_plus [of "drop_bit 24 v AND lo42" "drop_bit 44 e1"] by (simp add: s unat_drop)
  have e2: "unat e2 = unat h2 + (z + unat e1 div 2 ^ 44)"
    unfolding e2_def using b(3) lt(3) c1 unat_plus [of h2 "(drop_bit 24 v AND lo42) + drop_bit 44 e1"] by (simp add: zc)
  have eq: "poly_pad (u, v) (h0, h1, h2) =
      ((e0 AND lo44) OR push_bit 44 (e1 AND lo44), drop_bit 20 (e1 AND lo44) OR push_bit 24 (e2 AND lo42))"
    by (simp add: poly_pad_def Let_def e0_def e1_def e2_def)
  have T: "T = unat e0 mod 2 ^ 44 + 2 ^ 44 * (unat e1 mod 2 ^ 44) + 2 ^ 88 * unat e2"
  proof -
    have d: "unat e0 mod 2 ^ 44 + 2 ^ 44 * (unat e0 div 2 ^ 44) = unat e0"
      "unat e1 mod 2 ^ 44 + 2 ^ 44 * (unat e1 div 2 ^ 44) = unat e1" by (rule mod_mult_div_eq)+
    define n n' m m' where "n = unat e0 mod 2 ^ 44" and "n' = unat e1 mod 2 ^ 44"
      and "m = unat e0 div 2 ^ 44" and "m' = unat e1 div 2 ^ 44"
    note ab = n_def [symmetric] n'_def [symmetric] m_def [symmetric] m'_def [symmetric]
    show ?thesis unfolding T_def L lval_def prod.case ab using d e0 e1 e2 unfolding ab by simp
  qed
  have w: "unat (p OR push_bit n q) = take_bit 64 (unat p OR push_bit n (unat q))" for p q :: u64 and n
  proof -
    have "take_bit 64 (unat p) = unat p"
      using unsigned_less [of p, where 'a = nat] by (simp add: take_bit_nat_eq_self)
    then show ?thesis by (simp only: unsigned_or_eq unsigned_push_bit_eq take_bit_or) simp
  qed
  have lo: "unat e0 mod 2 ^ 44 < 2 ^ 44" "unat e1 mod 2 ^ 44 < 2 ^ 44" by simp_all
  have "unat ((e0 AND lo44) OR push_bit 44 (e1 AND lo44)) = T mod 2 ^ 64"
    "unat (drop_bit 20 (e1 AND lo44) OR push_bit 24 (e2 AND lo42)) = T div 2 ^ 64 mod 2 ^ 64"
    unfolding T two_words [OF lo, symmetric] w unat_drop unat_lo by (rule refl)+
  then show ?thesis using eq by blast
qed

section \<open>The whole computation\<close>

lemma poly1305_init_r:
  assumes "16 \<le> length key"
  shows "r_ok (pr (poly1305_init key))"
    "lval (pr (poly1305_init key)) = le_val (take 16 key) AND 0x0ffffffc0ffffffc0ffffffc0fffffff"
proof -
  let ?u = "U8TO64 key" and ?v = "U8TO64 (drop 8 key)"
  obtain x y z where s: "unat (?u AND lo44) = x" "unat ((drop_bit 44 ?u OR push_bit 20 ?v) AND lo44) = y"
    "unat (drop_bit 24 ?v) = z" and lt: "x < 2 ^ 44" "y < 2 ^ 44"
    and L: "le_val (take 16 key) = x + 2 ^ 44 * y + 2 ^ 88 * z"
    unfolding le_val_16 [OF assms] by (rule word_limbs [of ?u ?v])
  have limb: "unat (w AND c) = unat (w AND lo44) AND unat c" if "lo44 AND c = c" for w c
    using that by (metis and.assoc unsigned_and_eq)
  have C: "lo44 AND 0xffc0fffffff = 0xffc0fffffff" "lo44 AND 0xfffffc0ffff = 0xfffffc0ffff"
    by (simp_all add: lo44_def)
  have N: "unat (0xffc0fffffff :: u64) = 0xffc0fffffff" "unat (0xfffffc0ffff :: u64) = 0xfffffc0ffff"
    "unat (0x00ffffffc0f :: u64) = 0x00ffffffc0f" by simp_all
  have e: "unat (?u AND 0xffc0fffffff) = x AND 0xffc0fffffff"
    "unat ((drop_bit 44 ?u OR push_bit 20 ?v) AND 0xfffffc0ffff) = y AND 0xfffffc0ffff"
    "unat (drop_bit 24 ?v AND 0x00ffffffc0f) = z AND 0x00ffffffc0f"
    by (simp_all only: limb [OF C(1)] limb [OF C(2)] unsigned_and_eq [of "drop_bit 24 ?v"] s N)
  have le: "a AND b \<le> b" for a b :: nat by (metis and.commute and_nat_def AND_upper1 nat_int nat_mono of_nat_0_le_iff)
  show "r_ok (pr (poly1305_init key))"
    using le [of x "0xffc0fffffff"] le [of y "0xfffffc0ffff"] le [of z "0x00ffffffc0f"]
    by (simp add: r_ok_def poly1305_init_def Let_def e)
  have c: "(0x0ffffffc0ffffffc0ffffffc0fffffff :: nat) = 0xffc0fffffff + 2 ^ 44 * (0xfffffc0ffff + 2 ^ 44 * 0x00ffffffc0f)"
    by simp
  have v: "le_val (take 16 key) = x + 2 ^ 44 * (y + 2 ^ 44 * z)" unfolding L by simp
  have "le_val (take 16 key) AND 0x0ffffffc0ffffffc0ffffffc0fffffff =
      (x AND 0xffc0fffffff) + 2 ^ 44 * ((y AND 0xfffffc0ffff) + 2 ^ 44 * (z AND 0x00ffffffc0f))"
  proof -
    have b: "(0xffc0fffffff :: nat) < 2 ^ 44" "(0xfffffc0ffff :: nat) < 2 ^ 44" by simp_all
    show ?thesis
      unfolding v c nat_and_split [OF lt(1) b(1)] nat_and_split [OF lt(2) b(2)] ..
  qed
  then show "lval (pr (poly1305_init key)) = le_val (take 16 key) AND 0x0ffffffc0ffffffc0ffffffc0fffffff"
    by (simp add: lval_def poly1305_init_def Let_def e)
qed

lemma update_fresh:
  fixes m :: "u8 list"
  assumes "pbuf st = []" "\<not> pfinal st"
  defines "full \<equiv> length m - length m mod 16"
  shows "poly1305_update st m =
    st\<lparr>ph := poly_loop (pr st) 0x10000000000 (ph st) (take full m), pbuf := drop full m\<rparr>"
proof (cases "16 \<le> length m")
  case True
  then show ?thesis using assms by (simp add: poly1305_update_def poly1305_blocks_def Let_def full_def)
next
  case False
  then have "full = 0" by (simp add: full_def)
  with False show ?thesis
    using assms(1) by (cases st) (simp add: poly1305_update_def Let_def poly_loop_small)
qed

text \<open>The last, short block: its end marker is a byte of the buffer, so no high bit is added.\<close>

lemma poly_last_spec:
  assumes "r_ok (pr st)" "limbs_ok (ph st)" "length (pbuf st) < 16"
  shows "limbs_ok (ph (poly_last st))" "ppad (poly_last st) = ppad st"
    "lval (ph (poly_last st)) mod prime1305 =
      ref_acc (lval (pr st)) (lval (ph st) mod prime1305) (pbuf st)"
proof -
  let ?b = "pbuf st @ [1] @ replicate (16 - Suc (length (pbuf st))) 0"
  have len: "length ?b = 16" using assms(3) by simp
  define h' where "h' = poly_reduce (poly_mul (pr st) (poly_add 0 (ph st) ?b))"
  have last: "poly_last st = (if pbuf st = [] then st else st\<lparr>pbuf := ?b, pfinal := True, ph := h'\<rparr>)"
    using len by (simp add: poly_last_def poly1305_blocks_def poly_loop_step poly_loop_small h'_def Let_def)
  have v: "le_val (take 16 ?b) = le_val (pbuf st @ [1])"
    using len by (simp add: le_val_append le_val_zeros)
  have "16 \<le> length ?b" using len by simp
  note t = poly_turn [OF assms(1,2) this, where hibit = 0, folded h'_def, unfolded v, simplified]
  show "limbs_ok (ph (poly_last st))" "ppad (poly_last st) = ppad st"
    using t(1) assms(2) by (simp_all add: last)
  have "(lval (ph st) mod prime1305 + v) * k mod prime1305 = (lval (ph st) + v) * k mod prime1305" for v k
    by (metis mod_add_left_eq mod_mult_left_eq)
  then show "lval (ph (poly_last st)) mod prime1305 = ref_acc (lval (pr st)) (lval (ph st) mod prime1305) (pbuf st)"
    using t(2) assms(3) by (cases "pbuf st = []") (simp_all add: last ref_acc_step [of "pbuf st"])
qed

lemma two_words_bytes: "le_bytes 8 (T mod 2 ^ 64) @ le_bytes 8 (T div 2 ^ 64 mod 2 ^ 64) = le_bytes 16 (T mod 2 ^ 128)"
proof -
  define a b where "a = T div 2 ^ 64 mod 2 ^ 64" and "b = T mod 2 ^ 64"
  have "T mod (2 ^ 64 * 2 ^ 64) = 2 ^ 64 * a + b" unfolding a_def b_def by (rule mod_mult2_eq)
  then have "T mod 2 ^ 128 = 2 ^ 64 * a + b" by simp
  moreover have "b < 2 ^ 64" by (simp add: b_def)
  then have "(2 ^ 64 * a + b) mod 256 ^ 8 = b" "(2 ^ 64 * a + b) div 256 ^ 8 = a" by simp_all
  ultimately show ?thesis
    using le_bytes_append [of 8 "T mod 2 ^ 128" 8] unfolding a_def [symmetric] b_def [symmetric] by simp
qed

lemma poly1305_finish_spec:
  assumes "r_ok (pr st)" "limbs_ok (ph st)" "length (pbuf st) < 16"
  shows "poly1305_finish st =
    le_bytes 16 ((ref_acc (lval (pr st)) (lval (ph st) mod prime1305) (pbuf st) +
      (unat (fst (ppad st)) + 2 ^ 64 * unat (snd (ppad st)))) mod 2 ^ 128)"
proof -
  note l = poly_last_spec [OF assms]
  obtain u v where uv: "ppad st = (u, v)" by (cases "ppad st")
  obtain c0 c1 c2 where c: "poly_carry (ph (poly_last st)) = (c0, c1, c2)" "limbs_ok (c0, c1, c2)"
    "lval (c0, c1, c2) mod prime1305 = lval (ph (poly_last st)) mod prime1305"
    by (rule poly_carry_spec [OF l(1)])
  obtain e0 e1 e2 where e: "poly_carry (c0, c1, c2) = (e0, e1, e2)"
    "unat e0 < 2 ^ 44" "unat e1 \<le> 2 ^ 44" "unat e2 < 2 ^ 42"
    "lval (e0, e1, e2) mod prime1305 = lval (c0, c1, c2) mod prime1305"
    by (rule poly_carry_spec [OF c(2)])
  obtain k0 k1 k2 where k: "poly_select (e0, e1, e2) = (k0, k1, k2)"
    "unat k0 < 2 ^ 44" "unat k1 \<le> 2 ^ 44" "unat k2 < 2 ^ 42"
    "lval (k0, k1, k2) = lval (e0, e1, e2) mod prime1305"
    by (rule poly_select_spec [OF e(2,3,4)])
  have T: "lval (k0, k1, k2) = ref_acc (lval (pr st)) (lval (ph st) mod prime1305) (pbuf st)"
    by (simp only: k(5) e(5) c(3) l(3))
  obtain a b where p: "poly_pad (u, v) (k0, k1, k2) = (a, b)"
    and ab: "unat a = (lval (k0, k1, k2) + (unat u + 2 ^ 64 * unat v)) mod 2 ^ 64"
      "unat b = (lval (k0, k1, k2) + (unat u + 2 ^ 64 * unat v)) div 2 ^ 64 mod 2 ^ 64"
    using poly_pad_spec [OF k(2,3,4), of u v] by blast
  have "poly1305_finish st = U64TO8 a @ U64TO8 b"
    by (simp add: poly1305_finish_def l(2) uv c(1) e(1) k(1) p)
  then show ?thesis by (simp only: U64TO8_le ab two_words_bytes T uv fst_conv snd_conv)
qed

lemma ref_acc_reduced: "a < prime1305 \<Longrightarrow> ref_acc r a m < prime1305"
proof (induction r a m rule: ref_acc.induct)
  case (1 r a m)
  then show ?case by (subst ref_acc.simps) (simp add: prime1305_def)
qed

lemma poly1305_spec:
  assumes "length key = 32"
  shows "poly1305_compute data key = poly1305_ref data key"
proof -
  define full where "full = length data - length data mod 16"
  let ?st = "poly1305_init key"
  have i: "ph ?st = (0, 0, 0)" "pbuf ?st = []" "\<not> pfinal ?st"
    "ppad ?st = (U8TO64 (drop 16 key), U8TO64 (drop 24 key))"
    by (simp_all add: poly1305_init_def Let_def)
  have r: "r_ok (pr ?st)" and rv: "lval (pr ?st) = le_val (take 16 key) AND 0x0ffffffc0ffffffc0ffffffc0fffffff"
    using poly1305_init_r [of key] assms by simp_all
  define st where "st = poly1305_update ?st data"
  have st: "st = ?st\<lparr>ph := poly_loop (pr ?st) 0x10000000000 (0, 0, 0) (take full data), pbuf := drop full data\<rparr>"
    unfolding st_def full_def using update_fresh [OF i(2,3), of data] by (simp only: i)
  have "limbs_ok (0, 0, 0)" "lval (0, 0, 0) mod prime1305 = 0 mod prime1305" by (simp_all add: limbs_ok_def lval_def)
  moreover have "16 dvd length (take full data)" by (simp add: full_def dvd_minus_mod)
  ultimately have loop: "limbs_ok (ph st)"
    "ref_acc (lval (pr ?st)) (lval (ph st) mod prime1305) (drop full data) = ref_acc (lval (pr ?st)) 0 data"
    using poly_loop_spec [OF r, of "(0, 0, 0)" 0 "take full data" "drop full data"] by (simp_all add: st)
  have "length (pbuf st) < 16" by (simp add: st full_def)
  then have "poly1305_finish st =
      le_bytes 16 ((ref_acc (lval (pr ?st)) 0 data + (unat (U8TO64 (drop 16 key)) + 2 ^ 64 * unat (U8TO64 (drop 24 key)))) mod 2 ^ 128)"
    using poly1305_finish_spec [of st] r loop by (simp add: st i)
  moreover have "unat (U8TO64 (drop 16 key)) + 2 ^ 64 * unat (U8TO64 (drop 24 key)) = le_val (take 16 (drop 16 key))"
    using le_val_16 [of "drop 16 key"] assms by simp
  ultimately show ?thesis by (simp only: poly1305_compute_def poly1305_ref_def st_def rv)
qed

text \<open>
  Claim C12: \<^verbatim>\<open>Poly1305::compute\<close> is the authenticator. For every 32-byte key and data of any
  length, including a short last block and no data at all, the limb arithmetic with its lazy
  carries returns the sixteen bytes of the polynomial over the clamped key modulo
  \<open>2^130 - 5\<close>, plus the pad, modulo \<open>2^128\<close>. The definition is over unbounded integers, so the
  64-bit sums and 128-bit products never lose a carry.
\<close>

theorem poly1305_correct:
  assumes "length key = 32"
  shows "poly1305_compute data key =
    le_bytes 16 ((ref_acc (le_val (take 16 key) AND 0x0ffffffc0ffffffc0ffffffc0fffffff) 0 data
       + le_val (take 16 (drop 16 key))) mod 2 ^ 128)"
  using poly1305_spec [OF assms] by (simp only: poly1305_ref_def)

text \<open>A key whose clamp matters and a message with a short last block.\<close>

lemma le_val_ones: "Suc (le_val (replicate n 0xff)) = 256 ^ n"
  by (induction n) simp_all

lemma clamped_ones:
  "le_val (replicate 16 0xff) AND 0x0ffffffc0ffffffc0ffffffc0fffffff = 0x0ffffffc0ffffffc0ffffffc0fffffff"
proof -
  have "le_val (replicate 16 0xff) = 256 ^ 16 - 1"
    unfolding le_val_ones [symmetric] by simp
  then show ?thesis by simp
qed

theorem poly1305_correct_witness:
  "poly1305_compute (replicate 35 0xff) (replicate 16 0xff @ replicate 16 1) =
    le_bytes 16 ((ref_acc 0x0ffffffc0ffffffc0ffffffc0fffffff 0 (replicate 35 0xff)
       + le_val (replicate 16 1)) mod 2 ^ 128)"
proof -
  let ?key = "replicate 16 0xff @ replicate 16 1 :: u8 list"
  have k: "take 16 ?key = replicate 16 0xff" "take 16 (drop 16 ?key) = replicate 16 1" "length ?key = 32"
    by simp_all
  show ?thesis
    using poly1305_correct [OF k(3), of "replicate 35 0xff"] unfolding k clamped_ones .
qed

end
