(* ===== verification/ZT_Packet.thy ===== *)
theory ZT_Packet
  imports ZT_Address ZT_Salsa20 ZT_Poly1305
begin

text \<open>
  \<^verbatim>\<open>node/Packet.hpp\<close> and \<^verbatim>\<open>node/Packet.cpp\<close>: the packet and fragment headers over the
  bounds-checked buffer, and the armor. The Salsa20/12 and Poly1305 suites are composed from the
  models of those ciphers; AES-GMAC-SIV, AES-CTR, the key agreement and LZ4 are parameters. The
  armor works on raw pointers, so an access past the array is \<open>UndefinedBehaviour\<close>.
\<close>

section \<open>Verbs and errors\<close>

datatype verb =
    VERB_NOP | VERB_HELLO | VERB_ERROR | VERB_OK | VERB_WHOIS | VERB_RENDEZVOUS | VERB_FRAME
  | VERB_EXT_FRAME | VERB_ECHO | VERB_MULTICAST_LIKE | VERB_NETWORK_CREDENTIALS
  | VERB_NETWORK_CONFIG_REQUEST | VERB_NETWORK_CONFIG | VERB_MULTICAST_GATHER | VERB_MULTICAST_FRAME
  | VERB_PUSH_DIRECT_PATHS | VERB_ACK | VERB_QOS_MEASUREMENT | VERB_USER_MESSAGE | VERB_REMOTE_TRACE
  | VERB_PATH_NEGOTIATION_REQUEST

fun verb_code :: "verb \<Rightarrow> u8" where
  "verb_code VERB_NOP = 0x00"
| "verb_code VERB_HELLO = 0x01"
| "verb_code VERB_ERROR = 0x02"
| "verb_code VERB_OK = 0x03"
| "verb_code VERB_WHOIS = 0x04"
| "verb_code VERB_RENDEZVOUS = 0x05"
| "verb_code VERB_FRAME = 0x06"
| "verb_code VERB_EXT_FRAME = 0x07"
| "verb_code VERB_ECHO = 0x08"
| "verb_code VERB_MULTICAST_LIKE = 0x09"
| "verb_code VERB_NETWORK_CREDENTIALS = 0x0a"
| "verb_code VERB_NETWORK_CONFIG_REQUEST = 0x0b"
| "verb_code VERB_NETWORK_CONFIG = 0x0c"
| "verb_code VERB_MULTICAST_GATHER = 0x0d"
| "verb_code VERB_MULTICAST_FRAME = 0x0e"
| "verb_code VERB_PUSH_DIRECT_PATHS = 0x10"
| "verb_code VERB_ACK = 0x12"
| "verb_code VERB_QOS_MEASUREMENT = 0x13"
| "verb_code VERB_USER_MESSAGE = 0x14"
| "verb_code VERB_REMOTE_TRACE = 0x15"
| "verb_code VERB_PATH_NEGOTIATION_REQUEST = 0x16"

section \<open>Header operations\<close>

text \<open>Raw writes through a pointer into the array, and writes through \<^verbatim>\<open>field\<close>.\<close>

definition buf_poke :: "zbuf \<Rightarrow> nat \<Rightarrow> u8 list \<Rightarrow> zbuf res" where
  "buf_poke b off bs =
     (if off + length bs > bcap b then Inl UndefinedBehaviour
      else Inr (b\<lparr>bmem := mem_write (bmem b) off bs\<rparr>))"

definition pkt_store :: "zbuf \<Rightarrow> u32 \<Rightarrow> u8 list \<Rightarrow> zbuf res" where
  "pkt_store b i bs = bind_res (buf_field b i (of_nat (length bs))) (\<lambda>off. buf_poke b off bs)"

definition pkt_mod :: "(u8 \<Rightarrow> u8) \<Rightarrow> u32 \<Rightarrow> zbuf \<Rightarrow> zbuf res" where
  "pkt_mod f i b = bind_res (buf_get b i) (\<lambda>v. buf_put b i (f v))"

definition setDestination :: "address \<Rightarrow> zbuf \<Rightarrow> zbuf res" where
  "setDestination a b = pkt_store b 8 (addr_bytes a)"

definition setSource :: "address \<Rightarrow> zbuf \<Rightarrow> zbuf res" where
  "setSource a b = pkt_store b 13 (addr_bytes a)"

definition pkt_destination :: "zbuf \<Rightarrow> address res" where
  "pkt_destination b = addr_read b 8"

definition pkt_source :: "zbuf \<Rightarrow> address res" where
  "pkt_source b = addr_read b 13"

definition pkt_lengthValid :: "zbuf \<Rightarrow> bool" where
  "pkt_lengthValid b \<longleftrightarrow> blen b \<ge> 28"

definition pkt_fragmented :: "zbuf \<Rightarrow> bool res" where
  "pkt_fragmented b = bind_res (buf_get b 18) (\<lambda>v. Inr (v AND 0x40 \<noteq> 0))"

definition setFragmented :: "bool \<Rightarrow> zbuf \<Rightarrow> zbuf res" where
  "setFragmented f = pkt_mod (\<lambda>v. if f then v OR 0x40 else v AND NOT 0x40) 18"

definition extendedArmor :: "zbuf \<Rightarrow> bool res" where
  "extendedArmor b = bind_res (buf_get b 18) (\<lambda>v. Inr (v AND 0x80 \<noteq> 0))"

definition setExtendedArmor :: "bool \<Rightarrow> zbuf \<Rightarrow> zbuf res" where
  "setExtendedArmor f = pkt_mod (\<lambda>v. if f then v OR 0x80 else v AND NOT 0x80) 18"

definition pkt_compressed :: "zbuf \<Rightarrow> bool res" where
  "pkt_compressed b = bind_res (buf_get b 27) (\<lambda>v. Inr (v AND 0x80 \<noteq> 0))"

definition pkt_hops :: "zbuf \<Rightarrow> u32 res" where
  "pkt_hops b = bind_res (buf_get b 18) (\<lambda>v. Inr (ucast v AND 0x07))"

definition incrementHops :: "zbuf \<Rightarrow> zbuf res" where
  "incrementHops = pkt_mod (\<lambda>v. (v AND 0xf8) OR ((v + 1) AND 0x07)) 18"

definition pkt_cipher :: "zbuf \<Rightarrow> u32 res" where
  "pkt_cipher b = bind_res (buf_get b 18) (\<lambda>v. Inr (drop_bit 3 (ucast v AND 0x38)))"

definition isEncrypted :: "zbuf \<Rightarrow> bool res" where
  "isEncrypted b = bind_res (pkt_cipher b) (\<lambda>c. Inr (c = 1 \<or> c = 3))"

definition setCipher :: "u32 \<Rightarrow> zbuf \<Rightarrow> zbuf res" where
  "setCipher c = pkt_mod (\<lambda>v. (v AND 0xc7) OR ucast (push_bit 3 c AND 0x38)) 18"

definition trustedPathId :: "zbuf \<Rightarrow> u64 res" where
  "trustedPathId b = buf_at 8 b 19"

definition setTrusted :: "u64 \<Rightarrow> zbuf \<Rightarrow> zbuf res" where
  "setTrusted tpid b = bind_res (setCipher 2 b) (\<lambda>b. buf_setAt 8 b 19 tpid)"

definition packetId :: "zbuf \<Rightarrow> u64 res" where
  "packetId b = buf_at 8 b 0"

definition setVerb :: "verb \<Rightarrow> zbuf \<Rightarrow> zbuf res" where
  "setVerb v b = buf_put b 27 (verb_code v)"

text \<open>The enumeration value \<open>verb()\<close> returns need not be one of the named ones.\<close>

definition pkt_verb :: "zbuf \<Rightarrow> u8 res" where
  "pkt_verb b = bind_res (buf_get b 27) (\<lambda>v. Inr (v AND 0x1f))"

definition payloadLength :: "zbuf \<Rightarrow> u32" where
  "payloadLength b = (if blen b < 28 then 0 else blen b - 28)"

definition pkt_payload :: "zbuf \<Rightarrow> nat res" where
  "pkt_payload b = buf_field b 28 (blen b - 28)"

text \<open>Construction and reuse. \<open>rnd\<close> is what the random source wrote into the packet's id.\<close>

definition pkt_reset :: "u8 list \<Rightarrow> address \<Rightarrow> address \<Rightarrow> verb \<Rightarrow> zbuf \<Rightarrow> zbuf res" where
  "pkt_reset rnd dest source v b =
     bind_res (buf_setSize 28 b) (\<lambda>b.
     bind_res (pkt_store b 0 rnd) (\<lambda>b.
     bind_res (setDestination dest b) (\<lambda>b.
     bind_res (setSource source b) (\<lambda>b.
     bind_res (buf_put b 18 0) (\<lambda>b. setVerb v b)))))"

definition pkt_new :: "u8 list \<Rightarrow> u8 list \<Rightarrow> address \<Rightarrow> address \<Rightarrow> verb \<Rightarrow> zbuf res" where
  "pkt_new mem rnd dest source v =
     bind_res (buf_new_sized mem 28) (\<lambda>b.
     bind_res (pkt_store b 0 rnd) (\<lambda>b.
     bind_res (setDestination dest b) (\<lambda>b.
     bind_res (setSource source b) (\<lambda>b.
     bind_res (buf_put b 18 0) (\<lambda>b. setVerb v b)))))"

definition pkt_copy_to :: "zbuf \<Rightarrow> u8 list \<Rightarrow> address \<Rightarrow> zbuf res" where
  "pkt_copy_to prototype rnd dest = bind_res (pkt_store prototype 0 rnd) (setDestination dest)"

definition newInitializationVector :: "u8 list \<Rightarrow> zbuf \<Rightarrow> zbuf res" where
  "newInitializationVector rnd b = pkt_store b 0 rnd"

section \<open>Fragments\<close>

definition frag_init :: "zbuf \<Rightarrow> zbuf \<Rightarrow> u32 \<Rightarrow> u32 \<Rightarrow> u32 \<Rightarrow> u32 \<Rightarrow> zbuf res" where
  "frag_init f p fragStart fragLen fragNo fragTotal =
     (if fragStart + fragLen > blen p then Inl OutOfBounds
      else bind_res (buf_setSize (fragLen + 16) f) (\<lambda>f.
        bind_res (buf_field p 0 13) (\<lambda>q.
        bind_res (buf_read p q 13) (\<lambda>idd.
        bind_res (pkt_store f 0 idd) (\<lambda>f.
        bind_res (buf_put f 13 0xff) (\<lambda>f.
        bind_res (buf_put f 14 (ucast (push_bit 4 (fragTotal AND 0xf) OR (fragNo AND 0xf)))) (\<lambda>f.
        bind_res (buf_put f 15 0) (\<lambda>f.
        bind_res (buf_field p fragStart fragLen) (\<lambda>q.
        bind_res (buf_read p q (unat fragLen)) (\<lambda>bs.
        bind_res (buf_field f 16 fragLen) (\<lambda>d. buf_poke f d bs)))))))))))"

definition frag_destination :: "zbuf \<Rightarrow> address res" where
  "frag_destination b = addr_read b 8"

definition frag_lengthValid :: "zbuf \<Rightarrow> bool" where
  "frag_lengthValid b \<longleftrightarrow> blen b \<ge> 16"

definition frag_packetId :: "zbuf \<Rightarrow> u64 res" where
  "frag_packetId b = buf_at 8 b 0"

definition totalFragments :: "zbuf \<Rightarrow> u32 res" where
  "totalFragments b = bind_res (buf_get b 14) (\<lambda>v. Inr (drop_bit 4 (ucast v) AND 0xf))"

definition fragmentNumber :: "zbuf \<Rightarrow> u32 res" where
  "fragmentNumber b = bind_res (buf_get b 14) (\<lambda>v. Inr (ucast v AND 0xf))"

definition frag_hops :: "zbuf \<Rightarrow> u32 res" where
  "frag_hops b = bind_res (buf_get b 15) (\<lambda>v. Inr (ucast v))"

definition frag_incrementHops :: "zbuf \<Rightarrow> zbuf res" where
  "frag_incrementHops = pkt_mod (\<lambda>v. (v + 1) AND 7) 15"

definition frag_payloadLength :: "zbuf \<Rightarrow> u32" where
  "frag_payloadLength b = (if blen b > 16 then blen b - 16 else 0)"

definition frag_payload :: "zbuf \<Rightarrow> nat res" where
  "frag_payload b = buf_field b 16 (blen b - 16)"

section \<open>Armor\<close>

text \<open>
  The primitives the armor calls on. \<open>siv_enc\<close> and \<open>siv_dec\<close> are one message of AES-GMAC-SIV
  under a pair of keys: the 8-byte nonce, the additional data and the plain text give a 16-byte
  tag and the cipher text; the tag, the data and the cipher text give the verdict and the plain
  text. \<open>ctr\<close> is AES in counter mode under a key and a 12-byte nonce, \<open>agree\<close> the key agreement of
  a private and a public key, \<open>lz_comp\<close> and \<open>lz_decomp\<close> the block compressor.
\<close>

record pcrypto =
  siv_enc :: "u8 list \<times> u8 list \<Rightarrow> u8 list \<Rightarrow> u8 list \<Rightarrow> u8 list \<Rightarrow> u8 list \<times> u8 list"
  siv_dec :: "u8 list \<times> u8 list \<Rightarrow> u8 list \<Rightarrow> u8 list \<Rightarrow> u8 list \<Rightarrow> bool \<times> u8 list"
  ctr :: "u8 list \<Rightarrow> u8 list \<Rightarrow> u8 list \<Rightarrow> u8 list"
  agree :: "u8 list \<Rightarrow> u8 list \<Rightarrow> u8 list"
  lz_comp :: "u8 list \<Rightarrow> u8 list option"
  lz_decomp :: "u8 list \<Rightarrow> nat \<Rightarrow> u8 list option"

definition mangleKey :: "u8 list \<Rightarrow> zbuf \<Rightarrow> u8 list" where
  "mangleKey k b =
     map (\<lambda>i. k ! i XOR bmem b ! i) [0..<18] @
     [k ! 18 XOR (bmem b ! 18 AND 0xf8), k ! 19 XOR ucast (blen b AND 0xff),
      k ! 20 XOR ucast (drop_bit 8 (blen b) AND 0xff)] @
     map (\<lambda>i. k ! i) [21..<32]"

text \<open>\<^verbatim>\<open>size() - ZT_PACKET_IDX_VERB\<close>: it wraps for a packet shorter than its header.\<close>

definition armored_len :: "zbuf \<Rightarrow> nat" where
  "armored_len b = unat (blen b - 27)"

text \<open>The one-time MAC key is the first 32 bytes of the key stream; the payload uses the next blocks.\<close>

definition armor_keys :: "u8 list \<Rightarrow> zbuf \<Rightarrow> u8 list \<times> s20" where
  "armor_keys key b = crypt12 (s20_init (mangleKey key b) (take 8 (bmem b))) (replicate 32 0)"

definition armor_salsa :: "u8 list \<Rightarrow> bool \<Rightarrow> zbuf \<Rightarrow> zbuf res" where
  "armor_salsa key encryptPayload b =
     bind_res (setCipher (if encryptPayload then 1 else 0) b) (\<lambda>b.
     case armor_keys key b of (macKey, s20) \<Rightarrow>
     bind_res (buf_read b 27 (armored_len b)) (\<lambda>payload.
     let payload = (if encryptPayload then fst (crypt12 s20 payload) else payload) in
     bind_res (buf_poke b 27 payload) (\<lambda>b.
     buf_poke b 19 (take 8 (poly1305_compute payload macKey)))))"

definition armor_aes :: "pcrypto \<Rightarrow> u8 list \<times> u8 list \<Rightarrow> zbuf \<Rightarrow> zbuf res" where
  "armor_aes C aesKeys b =
     bind_res (setCipher 3 b) (\<lambda>b.
     bind_res (buf_read b 27 (armored_len b)) (\<lambda>payload.
     bind_res (buf_read b 0 8) (\<lambda>iv.
     bind_res (buf_read b 8 11) (\<lambda>aad.
     case siv_enc C aesKeys iv aad payload of (tag, c) \<Rightarrow>
     bind_res (buf_poke b 27 c) (\<lambda>b.
     bind_res (buf_poke b 0 (take 8 tag)) (\<lambda>b. buf_poke b 19 (drop 8 tag)))))))"

text \<open>The outer layer under a key agreed with a fresh key pair \<open>(pub, priv)\<close>, appended to the packet.\<close>

definition armor_extended :: "pcrypto \<Rightarrow> u8 list \<times> u8 list \<Rightarrow> u8 list \<Rightarrow> zbuf \<Rightarrow> zbuf res" where
  "armor_extended C eph ident b =
     bind_res (buf_read b 19 (unat (blen b - 19))) (\<lambda>x.
     bind_res (buf_poke b 19 (ctr C (agree C (snd eph) ident) (take 12 (bmem b)) x)) (\<lambda>b.
     buf_append_bytes (fst eph) 32 b))"

definition armor :: "pcrypto \<Rightarrow> u8 list \<times> u8 list \<Rightarrow> u8 list \<Rightarrow> bool \<Rightarrow> bool \<Rightarrow>
    (u8 list \<times> u8 list) option \<Rightarrow> u8 list \<Rightarrow> zbuf \<Rightarrow> zbuf res" where
  "armor C eph key encryptPayload ext aesKeys ident b =
     bind_res (setExtendedArmor ext b) (\<lambda>b.
     bind_res (case aesKeys of
         Some ks \<Rightarrow> if encryptPayload then armor_aes C ks b else armor_salsa key encryptPayload b
       | None \<Rightarrow> armor_salsa key encryptPayload b) (\<lambda>b.
     if ext then armor_extended C eph ident b else Inr b))"

definition dearmor_extended :: "pcrypto \<Rightarrow> u8 list \<Rightarrow> zbuf \<Rightarrow> zbuf option res" where
  "dearmor_extended C priv b =
     (if blen b < 27 + 1 + 32 then Inr None
      else bind_res (buf_read b (unat (blen b - 32)) 32) (\<lambda>eph.
        bind_res (buf_read b 19 (unat (blen b - 19 - 32))) (\<lambda>x.
        bind_res (buf_poke b 19 (ctr C (agree C priv eph) (take 12 (bmem b)) x)) (\<lambda>b.
        bind_res (buf_setSize (blen b - 32) b) (\<lambda>b. Inr (Some b))))))"

definition dearmor_salsa :: "u8 list \<Rightarrow> bool \<Rightarrow> zbuf \<Rightarrow> (bool \<times> zbuf) res" where
  "dearmor_salsa key encrypted b =
     (case armor_keys key b of (macKey, s20) \<Rightarrow>
     bind_res (buf_read b 27 (armored_len b)) (\<lambda>payload.
     bind_res (buf_read b 19 8) (\<lambda>mac.
     if mac \<noteq> take 8 (poly1305_compute payload macKey) then Inr (False, b)
     else if encrypted then bind_res (buf_poke b 27 (fst (crypt12 s20 payload))) (\<lambda>b. Inr (True, b))
     else Inr (True, b))))"

definition dearmor_aes :: "pcrypto \<Rightarrow> u8 list \<times> u8 list \<Rightarrow> zbuf \<Rightarrow> (bool \<times> zbuf) res" where
  "dearmor_aes C aesKeys b =
     bind_res (buf_read b 27 (armored_len b)) (\<lambda>payload.
     bind_res (buf_read b 0 8) (\<lambda>t0.
     bind_res (buf_read b 19 8) (\<lambda>t1.
     bind_res (buf_read b 8 10) (\<lambda>addrs.
     bind_res (buf_read b 18 1) (\<lambda>flags.
     case siv_dec C aesKeys (t0 @ t1) (addrs @ map (\<lambda>v. v AND 0xf8) flags) payload of (ok, p) \<Rightarrow>
     bind_res (buf_poke b 27 p) (\<lambda>b. Inr (ok, b)))))))"

definition dearmor :: "pcrypto \<Rightarrow> u8 list \<Rightarrow> (u8 list \<times> u8 list) option \<Rightarrow> u8 list \<Rightarrow> zbuf \<Rightarrow> (bool \<times> zbuf) res" where
  "dearmor C key aesKeys priv b =
     bind_res (pkt_cipher b) (\<lambda>cs.
     bind_res (extendedArmor b) (\<lambda>ext.
     bind_res (if ext \<and> cs = 0 then dearmor_extended C priv b else Inr (Some b)) (\<lambda>r.
     case r of None \<Rightarrow> Inr (False, b)
     | Some b \<Rightarrow>
         if cs = 3 then (case aesKeys of Some ks \<Rightarrow> dearmor_aes C ks b | None \<Rightarrow> Inr (False, b))
         else if cs = 0 \<or> cs = 1 then dearmor_salsa key (cs = 1) b
         else Inr (False, b))))"

definition cryptField :: "u8 list \<Rightarrow> u32 \<Rightarrow> u32 \<Rightarrow> zbuf \<Rightarrow> zbuf res" where
  "cryptField key start len b =
     bind_res (buf_read b 0 8) (\<lambda>iv.
     bind_res (buf_read b (unat start) (unat len)) (\<lambda>x.
     buf_poke b (unat start) (fst (crypt12 (s20_init key (iv[7 := iv ! 7 AND 0xf8])) x))))"

text \<open>\<open>lz_comp\<close> gives \<open>None\<close> where LZ4 returns no positive length.\<close>

definition pkt_compress :: "pcrypto \<Rightarrow> zbuf \<Rightarrow> (bool \<times> zbuf) res" where
  "pkt_compress C b =
     (let clear = (\<lambda>b. bind_res (buf_read b 27 1) (\<lambda>v. bind_res (buf_poke b 27 (map (\<lambda>v. v AND NOT 0x80) v)) (\<lambda>b. Inr (False, b))))
      in bind_res (pkt_compressed b) (\<lambda>comp.
        if \<not> comp \<and> blen b > 28 + 64 then
          bind_res (buf_read b 28 (unat (blen b - 28))) (\<lambda>payload.
          case lz_comp C payload of
            Some c \<Rightarrow>
              if c \<noteq> [] \<and> length c < length payload then
                bind_res (buf_read b 27 1) (\<lambda>v.
                bind_res (buf_poke b 27 (map (\<lambda>v. v OR 0x80) v)) (\<lambda>b.
                bind_res (buf_setSize (of_nat (length c) + 28) b) (\<lambda>b.
                bind_res (buf_poke b 28 c) (\<lambda>b. Inr (True, b)))))
              else clear b
          | None \<Rightarrow> clear b)
        else clear b))"

text \<open>The decompressor is given the size of its output buffer, the packet's capacity.\<close>

definition pkt_uncompress :: "pcrypto \<Rightarrow> zbuf \<Rightarrow> (bool \<times> zbuf) res" where
  "pkt_uncompress C b =
     (let clear = (\<lambda>b. bind_res (buf_read b 27 1) (\<lambda>v. bind_res (buf_poke b 27 (map (\<lambda>v. v AND NOT 0x80) v)) (\<lambda>b. Inr (True, b))))
      in bind_res (pkt_compressed b) (\<lambda>comp.
        if comp \<and> blen b \<ge> 28 then
          if blen b > 28 then
            bind_res (buf_read b 28 (unat (blen b - 28))) (\<lambda>payload.
            case lz_decomp C payload (bcap b) of
              Some p \<Rightarrow>
                if p \<noteq> [] \<and> length p \<le> bcap b - 28 then
                  bind_res (buf_setSize (of_nat (length p) + 28) b) (\<lambda>b.
                  bind_res (buf_poke b 28 p) clear)
                else Inr (False, b)
            | None \<Rightarrow> Inr (False, b))
          else clear b
        else Inr (True, b)))"

section \<open>A packet's layout\<close>

text \<open>
  A packet by its parts: id, destination and source (18 bytes), the flag byte, the MAC, the
  armored part from the verb on, and the unused rest of the array.
\<close>

definition pk :: "u8 list \<Rightarrow> u8 \<Rightarrow> u8 list \<Rightarrow> u8 list \<Rightarrow> u8 list \<Rightarrow> zbuf" where
  "pk d fl m p r = \<lparr>bmem = d @ fl # m @ p @ r, blen = of_nat (27 + length p)\<rparr>"

definition pk_ok :: "u8 list \<Rightarrow> u8 list \<Rightarrow> u8 list \<Rightarrow> u8 list \<Rightarrow> bool" where
  "pk_ok d m p r \<longleftrightarrow> length d = 18 \<and> length m = 8 \<and> p \<noteq> [] \<and> 27 + length p + length r < 2 ^ 31"

lemma pk_exists:
  assumes "small b" "28 \<le> bsize b"
  obtains d fl m p r where "b = pk d fl m p r" "pk_ok d m p r"
proof -
  have c: "bsize b \<le> length (bmem b)" "length (bmem b) < 2 ^ 31"
    using smallD [OF assms(1)] by (auto dest: buf_okD simp: bcap_def)
  let ?m = "bmem b"
  let ?d = "take 18 ?m" and ?fl = "?m ! 18" and ?mac = "take 8 (drop 19 ?m)"
    and ?p = "take (bsize b - 27) (drop 27 ?m)" and ?r = "drop (bsize b) ?m"
  have "?m = ?d @ drop 18 ?m" by simp
  also have "drop 18 ?m = ?fl # drop 19 ?m" using c assms(2) Cons_nth_drop_Suc [of 18 ?m] by simp
  also have "drop 19 ?m = ?mac @ drop 27 ?m"
    using append_take_drop_id [of 8 "drop 19 ?m"] by simp
  also have "drop 27 ?m = ?p @ ?r"
    using assms(2) append_take_drop_id [of "bsize b - 27" "drop 27 ?m"] by simp
  finally have mem: "?m = ?d @ ?fl # ?mac @ ?p @ ?r" .
  have l: "length ?p = bsize b - 27" using c by simp
  have "blen b = of_nat (bsize b)" by (simp add: bsize_def)
  then have "blen b = of_nat (27 + length ?p)" using assms(2) l by simp
  then have "b = pk ?d ?fl ?mac ?p ?r" using mem by (cases b) (simp add: pk_def)
  moreover have "pk_ok ?d ?mac ?p ?r" using c assms(2) l by (auto simp: pk_ok_def)
  ultimately show ?thesis by (rule that)
qed

lemma pk_sizes:
  assumes "pk_ok d m p r"
  shows "bsize (pk d fl m p r) = 27 + length p" "bcap (pk d fl m p r) = 27 + length p + length r"
    "armored_len (pk d fl m p r) = length p" "small (pk d fl m p r)" "unat (blen (pk d fl m p r)) = 27 + length p"
proof -
  have u: "unat (of_nat (27 + length p) :: u32) = 27 + length p"
    using assms by (intro unat_of_nat_u32) (simp add: pk_ok_def)
  then show "unat (blen (pk d fl m p r)) = 27 + length p" "bsize (pk d fl m p r) = 27 + length p"
    by (simp_all add: pk_def bsize_def)
  show c: "bcap (pk d fl m p r) = 27 + length p + length r"
    using assms by (simp add: pk_def pk_ok_def)
  show "armored_len (pk d fl m p r) = length p"
    using assms unat_of_nat_u32 [of "length p"] by (simp add: armored_len_def pk_def pk_ok_def)
  show "small (pk d fl m p r)"
    using assms c u by (simp add: small_def buf_ok_def bsize_def pk_ok_def) (simp add: pk_def)
qed

lemma bdata_pk: "pk_ok d m p r \<Longrightarrow> bdata (pk d fl m p r) = d @ fl # m @ p"
  by (simp add: bdata_def pk_sizes) (simp add: pk_def pk_ok_def take_Cons')

lemma pk_lt: "pk_ok d m p r \<Longrightarrow> i < 28 \<Longrightarrow> \<not> i \<ge> blen (pk d fl m p r)"
  using pk_sizes(5) [of d m p r fl] by (cases p) (auto simp: word_le_nat_alt word_less_nat_alt pk_ok_def)

lemma pk_mod18:
  assumes "pk_ok d m p r"
  shows "pkt_mod f 18 (pk d fl m p r) = Inr (pk d (f fl) m p r)"
    "buf_get (pk d fl m p r) 18 = Inr fl"
  using pk_lt [OF assms, of 18 fl] assms
  by (simp_all add: pkt_mod_def buf_get_def buf_put_def, simp_all add: pk_def pk_ok_def nth_append list_update_append)

lemma pk_read:
  assumes "pk_ok d m p r"
  shows "buf_read (pk d fl m p r) 27 (armored_len (pk d fl m p r)) = Inr p"
    "buf_read (pk d fl m p r) 19 8 = Inr m" "buf_read (pk d fl m p r) 0 8 = Inr (take 8 d)"
    "buf_read (pk d fl m p r) 8 11 = Inr (drop 8 d @ [fl])" "buf_read (pk d fl m p r) 8 10 = Inr (drop 8 d)"
    "buf_read (pk d fl m p r) 18 1 = Inr [fl]"
  using assms pk_sizes [OF assms, of fl]
  by (simp_all add: buf_read_def, simp_all add: pk_def pk_ok_def)

lemma pk_poke:
  assumes "pk_ok d m p r"
  shows "length p' = length p \<Longrightarrow> buf_poke (pk d fl m p r) 27 p' = Inr (pk d fl m p' r)"
    "length m' = 8 \<Longrightarrow> buf_poke (pk d fl m p r) 19 m' = Inr (pk d fl m' p r)"
    "length t = 8 \<Longrightarrow> buf_poke (pk d fl m p r) 0 t = Inr (pk (t @ drop 8 d) fl m p r)"
  using assms pk_sizes [OF assms, of fl]
  by (simp_all add: buf_poke_def, simp_all add: pk_def pk_ok_def mem_write_def drop_Cons')

section \<open>The flag byte\<close>

lemma and_or_mask: "((v AND a) OR b) AND c = (v AND (a AND c)) OR (b AND c)" for v a b c :: u8
  by (simp only: bit.conj_disj_distrib2 and.assoc)

lemma and_mask2: "(v AND a) AND c = v AND (a AND c)" for v a c :: u8
  by (rule and.assoc)

lemma flag_masks:
  fixes v :: u8
  shows "((v AND 0xf8) OR ((v + 1) AND 7)) AND 0xf8 = v AND 0xf8"
    "((v AND 0xc7) OR 8) AND 0x38 = 8" "((v AND 0xc7) OR 0x18) AND 0x38 = 0x18" "(v AND 0xc7) AND 0x38 = 0"
    "((v AND 0xc7) OR 8) AND 0x80 = v AND 0x80"
    "((v AND 0xc7) OR 0x18) AND 0x80 = v AND 0x80" "(v AND 0xc7) AND 0x80 = v AND 0x80"
  unfolding and_or_mask and_mask2 by simp_all

lemma clear_mask: "(v AND NOT y) AND y = 0" "(v OR y) AND y = y" for v y :: u8
  by (rule bit_word_eqI; auto simp: bit_and_iff bit_or_iff bit_not_iff)+

lemma mask_through:
  fixes v w :: u8
  assumes "v AND 0xf8 = w AND 0xf8" "0xf8 AND x = x" shows "v AND x = w AND x"
proof -
  have "u AND x = (u AND 0xf8) AND x" for u :: u8 by (simp only: and.assoc assms(2))
  then show ?thesis by (metis assms(1))
qed

lemma cipher_bits:
  fixes v :: u8
  shows "(ucast v AND 0x38 :: u32) = ucast (v AND 0x38)"
  by (rule bit_word_eqI) (auto simp: bit_and_iff bit_ucast_iff dest: bit_imp_le_length)

lemma ucast_u8_0: "(ucast v :: u32) = 0 \<Longrightarrow> v = 0" for v :: u8
  using unsigned_less [of v, where 'a = nat]
  by (simp add: word_unat_eq_iff unsigned_ucast_eq take_bit_nat_eq_self)

definition relay :: "nat \<Rightarrow> zbuf \<Rightarrow> zbuf res" where
  "relay n b = ((\<lambda>r. bind_res r incrementHops) ^^ n) (Inr b)"

lemma relay_pk:
  assumes "pk_ok d m p r"
  shows "\<exists>fl'. relay n (pk d fl m p r) = Inr (pk d fl' m p r) \<and> fl' AND 0xf8 = fl AND 0xf8"
proof (induction n)
  case (Suc n)
  then obtain fl' where "relay n (pk d fl m p r) = Inr (pk d fl' m p r)" "fl' AND 0xf8 = fl AND 0xf8" by blast
  then show ?case
    using flag_masks(1) [of fl'] by (auto simp: relay_def incrementHops_def pk_mod18 [OF assms])
qed (simp add: relay_def, blast)

lemma setCipher_pk:
  assumes "pk_ok d m p r"
  shows "setCipher 0 (pk d fl m p r) = Inr (pk d (fl AND 0xc7) m p r)"
    "setCipher 1 (pk d fl m p r) = Inr (pk d ((fl AND 0xc7) OR 8) m p r)"
    "setCipher 3 (pk d fl m p r) = Inr (pk d ((fl AND 0xc7) OR 0x18) m p r)"
  by (simp_all add: setCipher_def pk_mod18 [OF assms] push_bit_eq_mult)

lemma flags_pk:
  assumes "pk_ok d m p r"
  shows "pkt_cipher (pk d fl m p r) = Inr (drop_bit 3 (ucast (fl AND 0x38)))"
    "extendedArmor (pk d fl m p r) = Inr (fl AND 0x80 \<noteq> 0)"
    "pkt_hops (pk d fl m p r) = Inr (ucast (fl AND 7))"
proof -
  show "pkt_hops (pk d fl m p r) = Inr (ucast (fl AND 7))"
    unfolding pkt_hops_def pk_mod18 [OF assms] bind_res_simps
    by (rule arg_cong [where f = Inr], rule bit_word_eqI)
      (auto simp: bit_and_iff bit_ucast_iff dest: bit_imp_le_length)
qed (simp_all add: pkt_cipher_def extendedArmor_def pk_mod18 [OF assms] cipher_bits)

section \<open>Keys\<close>

text \<open>The keys depend on the addresses, the size and the flags, but not on the hop count.\<close>

lemma armor_keys_cong:
  assumes "pk_ok d m p r" "pk_ok d m' p' r'" "length p' = length p" "fl' AND 0xf8 = fl AND 0xf8"
  shows "armor_keys key (pk d fl' m' p' r') = armor_keys key (pk d fl m p r)"
proof -
  have m: "bmem (pk d f mm pp rr) ! i = (if i < 18 then d ! i else f)" "take 8 (bmem (pk d f mm pp rr)) = take 8 d"
    if "i \<le> 18" for f mm pp rr i
    using assms(1) that by (auto simp: pk_def pk_ok_def nth_append)
  have "mangleKey key (pk d fl' m' p' r') = mangleKey key (pk d fl m p r)"
    using assms by (simp add: mangleKey_def m) (simp add: pk_def)
  then show ?thesis using m(2) [of 0] by (simp add: armor_keys_def)
qed

lemma armor_keys_length: "length (snd (armor_keys key b)) = 16"
  by (simp add: armor_keys_def crypt12_props s20_init_length)

lemma poly1305_length: "length (poly1305_compute m k) = 16"
  by (simp add: poly1305_compute_def poly1305_finish_def U64TO8_def Let_def split: prod.splits)

section \<open>The suites\<close>

lemma pk_okI: "pk_ok d m p r \<Longrightarrow> length d' = 18 \<Longrightarrow> length m' = 8 \<Longrightarrow> length p' = length p \<Longrightarrow> pk_ok d' m' p' r"
  by (auto simp: pk_ok_def)

lemma armor_salsa_pk:
  assumes "pk_ok d m p r"
  obtains fl' mac c where "armor_salsa key enc (pk d fl m p r) = Inr (pk d fl' mac c r)"
    "fl' AND 0x38 = (if enc then 8 else 0)" "fl' AND 0x80 = fl AND 0x80" "length mac = 8" "length c = length p"
    "\<And>fl'' r'. pk_ok d mac c r' \<Longrightarrow> fl'' AND 0xf8 = fl' AND 0xf8 \<Longrightarrow>
       dearmor_salsa key enc (pk d fl'' mac c r') = Inr (True, pk d fl'' mac p r')"
proof -
  define fl' where "fl' = (fl AND 0xc7) OR (if enc then 8 else 0)"
  obtain mk s where k: "armor_keys key (pk d fl' m p r) = (mk, s)" by fastforce
  have s: "length s = 16" using armor_keys_length [of key "pk d fl' m p r"] by (simp add: k)
  define c where "c = (if enc then fst (crypt12 s p) else p)"
  define mac where "mac = take 8 (poly1305_compute c mk)"
  have len: "length c = length p" "length mac = 8"
    by (simp_all add: c_def mac_def crypt12_props s poly1305_length)
  have ok': "pk_ok d m c r" "pk_ok d mac c r" using assms len by (auto intro: pk_okI simp: pk_ok_def)
  show ?thesis
  proof (rule that)
    show "armor_salsa key enc (pk d fl m p r) = Inr (pk d fl' mac c r)"
    proof (cases enc)
      case True
      then have c: "fst (crypt12 s p) = c" by (simp add: c_def)
      have "setCipher 1 (pk d fl m p r) = Inr (pk d fl' m p r)"
        using setCipher_pk(2) [OF assms, of fl] True by (simp add: fl'_def)
      then show ?thesis
        using True k
        by (simp add: armor_salsa_def pk_read [OF assms] c pk_poke(1) [OF assms] pk_poke(2) [OF ok'(1)] len mac_def [symmetric])
    next
      case False
      then have c: "c = p" by (simp add: c_def)
      have "setCipher 0 (pk d fl m p r) = Inr (pk d fl' m p r)"
        using setCipher_pk(1) [OF assms, of fl] False by (simp add: fl'_def)
      then show ?thesis
        using False k len(2)
        by (simp add: armor_salsa_def pk_read [OF assms] pk_poke [OF assms] mac_def c)
    qed
    show "fl' AND 0x38 = (if enc then 8 else 0)" "fl' AND 0x80 = fl AND 0x80"
      by (simp_all add: fl'_def flag_masks)
    show "length mac = 8" "length c = length p" by (rule len)+
    fix fl'' r' assume ok'': "pk_ok d mac c r'" and f: "fl'' AND 0xf8 = fl' AND 0xf8"
    have "armor_keys key (pk d fl'' mac c r') = (mk, s)"
      using armor_keys_cong [OF assms ok'' len(1) f] k by simp
    moreover have "enc \<Longrightarrow> fst (crypt12 s c) = p" "\<not> enc \<Longrightarrow> c = p"
      using crypt12_props(2) [OF s, of p] by (simp_all add: c_def)
    ultimately show "dearmor_salsa key enc (pk d fl'' mac c r') = Inr (True, pk d fl'' mac p r')"
      using pk_poke(1) [OF ok'', of p fl''] len(1)
      by (simp add: dearmor_salsa_def pk_read [OF ok''] mac_def [symmetric])
  qed
qed

text \<open>What is assumed of the parameters: decryption undoes encryption, the sizes are right.\<close>

definition siv_law :: "pcrypto \<Rightarrow> bool" where
  "siv_law C \<longleftrightarrow> (\<forall>ks iv aad p tag c. siv_enc C ks iv aad p = (tag, c) \<longrightarrow>
     length tag = 16 \<and> length c = length p \<and> siv_dec C ks tag aad c = (True, p))"

definition ctr_law :: "pcrypto \<Rightarrow> bool" where
  "ctr_law C \<longleftrightarrow> (\<forall>k iv x. length (ctr C k iv x) = length x \<and> ctr C k iv (ctr C k iv x) = x)"

lemma armor_aes_pk:
  assumes "pk_ok d m p r" "siv_law C" "fl AND 7 = 0"
  obtains fl' d' mac c where "armor_aes C ks (pk d fl m p r) = Inr (pk d' fl' mac c r)"
    "fl' AND 0x38 = 0x18" "fl' AND 0x80 = fl AND 0x80" "pk_ok d' mac c r" "drop 8 d' = drop 8 d" "length c = length p"
    "\<And>fl''. fl'' AND 0xf8 = fl' AND 0xf8 \<Longrightarrow>
       dearmor_aes C ks (pk d' fl'' mac c r) = Inr (True, pk d' fl'' mac p r)"
proof -
  define fl' where "fl' = (fl AND 0xc7) OR 0x18"
  obtain tag c where e: "siv_enc C ks (take 8 d) (drop 8 d @ [fl']) p = (tag, c)" by fastforce
  then have t: "length tag = 16" "length c = length p" "siv_dec C ks tag (drop 8 d @ [fl']) c = (True, p)"
    using assms(2) unfolding siv_law_def by blast+
  define d' where "d' = take 8 tag @ drop 8 d"
  have d': "length d' = 18" "drop 8 d' = drop 8 d" "take 8 d' = take 8 tag"
    using assms(1) t(1) by (simp_all add: d'_def pk_ok_def)
  have ok: "pk_ok d m c r" "pk_ok d' m c r" "pk_ok d' (drop 8 tag) c r"
    using assms(1) t d'(1) by (auto intro!: pk_okI [OF assms(1)] simp: pk_ok_def)
  have fl': "fl' AND 0xf8 = fl'"
  proof -
    have "fl AND 0xf8 = fl"
    proof (rule bit_word_eqI)
      fix i assume "i < LENGTH(8)"
      then have "i \<in> {0, 1, 2, 3, 4, 5, 6, 7}" by auto
      moreover have "\<not> bit fl 0" "\<not> bit fl 1" "\<not> bit fl 2"
        using arg_cong [OF assms(3), of "\<lambda>v. bit v 0"] arg_cong [OF assms(3), of "\<lambda>v. bit v 1"]
          arg_cong [OF assms(3), of "\<lambda>v. bit v 2"] by (simp_all add: bit_and_iff)
      ultimately show "bit (fl AND 0xf8) i = bit fl i" by (auto simp: bit_and_iff)
    qed
    then have "fl AND 0xc7 = (fl AND 0xf8) AND 0xc7" by simp
    then have c7: "fl AND 0xc7 = fl AND 0xc0" unfolding and_mask2 by simp
    show ?thesis unfolding fl'_def and_or_mask unfolding c7 by simp
  qed
  show ?thesis
  proof (rule that [where fl' = fl' and d' = d' and mac = "drop 8 tag" and c = c])
    show "armor_aes C ks (pk d fl m p r) = Inr (pk d' fl' (drop 8 tag) c r)"
      using setCipher_pk(3) [OF assms(1), of fl] t(1,2)
      by (simp add: armor_aes_def pk_read [OF assms(1)] fl'_def [symmetric] e pk_poke(1) [OF assms(1)]
          pk_poke(3) [OF ok(1)] pk_poke(2) [OF ok(2)] d'_def [symmetric])
    show "fl' AND 0x38 = 0x18" "fl' AND 0x80 = fl AND 0x80" by (simp_all add: fl'_def flag_masks)
    fix fl'' assume f: "fl'' AND 0xf8 = fl' AND 0xf8"
    show "dearmor_aes C ks (pk d' fl'' (drop 8 tag) c r) = Inr (True, pk d' fl'' (drop 8 tag) p r)"
      using t(2,3) f fl'
      by (simp add: dearmor_aes_def pk_read [OF ok(3), unfolded One_nat_def] d' pk_poke(1) [OF ok(3)])
  qed (use ok d' t in simp_all)
qed

text \<open>Taking the outer layer off: what is under it decrypts the bytes between the flags and the key.\<close>

lemma dearmor_extended_pk:
  fixes C :: pcrypto and priv :: "u8 list"
  assumes ok: "pk_ok d m (p @ eph) r" and p: "p \<noteq> []" and eph: "length eph = 32" and C: "ctr_law C"
  defines "x \<equiv> ctr C (agree C priv eph) (take 12 d) (m @ p)"
  shows "dearmor_extended C priv (pk d fl m (p @ eph) r) = Inr (Some (pk d fl (take 8 x) (drop 8 x) (eph @ r)))"
    "pk_ok d (take 8 x) (drop 8 x) (eph @ r)" "length x = 8 + length p"
proof -
  have l: "length d = 18" "length m = 8" using ok by (simp_all add: pk_ok_def)
  have x: "length x = 8 + length p" using C l by (simp add: x_def ctr_law_def)
  define m' p' where "m' = take 8 x" and "p' = drop 8 x"
  have mp: "m' @ p' = x" "length m' = 8" "length p' = length p" using x by (simp_all add: m'_def p'_def)
  have ok3: "pk_ok d m' (p' @ eph) r" "pk_ok d m' p' (eph @ r)"
    using ok mp(2,3) p by (auto simp: pk_ok_def)
  let ?b = "pk d fl m (p @ eph) r"
  note sz = pk_sizes [OF ok, of fl]
  have big: "\<not> blen ?b < 27 + 1 + 32"
    using sz(5) p eph by (cases p) (auto simp: word_less_nat_alt)
  have lim: "27 + length p < 2 ^ 31" "8 + length p < 2 ^ 31" using ok eph by (simp_all add: pk_ok_def)
  have u: "unat (blen ?b - 32) = 27 + length p" "unat (blen ?b - 51) = 8 + length p" "blen ?b - 32 = of_nat (27 + length p)"
    using unat_of_nat_u32 [OF lim(1)] unat_of_nat_u32 [OF lim(2)] eph by (simp_all add: pk_def)
  have r1: "buf_read ?b (27 + length p) 32 = Inr eph"
    using sz(2) l eph by (simp add: buf_read_def, simp add: pk_def drop_Cons')
  have r2: "buf_read ?b 19 (8 + length p) = Inr (m @ p)"
    using sz(2) l eph by (simp add: buf_read_def, simp add: pk_def)
  have mem12: "take 12 (bmem ?b) = take 12 d" using l by (simp add: pk_def)
  have poke: "buf_poke ?b 19 (m' @ p') = Inr (pk d fl m' (p' @ eph) r)"
    using sz(2) l mp(2,3) eph by (simp add: buf_poke_def, simp add: pk_def mem_write_def drop_Cons')
  have fin: "pk d fl m' p' (eph @ r) = (pk d fl m' (p' @ eph) r)\<lparr>blen := of_nat (27 + length p)\<rparr>"
    by (simp add: pk_def mp(3))
  have cap: "bcap32 (pk d fl m' (p' @ eph) r) \<ge> of_nat (27 + length p)"
  proof -
    from pk_sizes(2) [OF ok3(1), of fl] ok3(1)
    have "bcap (pk d fl m' (p' @ eph) r) < 2 ^ 31" "27 + length p \<le> bcap (pk d fl m' (p' @ eph) r)"
      by (simp_all add: pk_ok_def mp(3))
    then show ?thesis
      by (simp add: bcap32_def word_le_nat_alt unat_of_nat_u32 del: of_nat_add of_nat_numeral)
  qed
  have bl: "blen (pk d fl m' (p' @ eph) r) = blen ?b" by (simp add: pk_def mp(3))
  show "dearmor_extended C priv ?b = Inr (Some (pk d fl (take 8 x) (drop 8 x) (eph @ r)))"
    using big cap [folded u(3)]
    by (simp add: dearmor_extended_def u(1,2) r1 r2 mem12 poke [unfolded mp(1)] buf_setSize_def fin [folded u(3)]
        linorder_not_less bl x_def [symmetric] m'_def [symmetric] p'_def [symmetric])
  show "pk_ok d (take 8 x) (drop 8 x) (eph @ r)" "length x = 8 + length p"
    using ok3(2) x by (simp_all add: m'_def p'_def)
qed

lemma armor_extended_pk:
  assumes "pk_ok d m p r" "ctr_law C" "length (fst eph) = 32" "32 \<le> length r"
    "agree C (snd eph) ident = agree C priv (fst eph)"
  obtains m' p' where "armor_extended C eph ident (pk d fl m p r) = Inr (pk d fl m' (p' @ fst eph) (drop 32 r))"
    "pk_ok d m' (p' @ fst eph) (drop 32 r)"
    "\<And>fl''. dearmor_extended C priv (pk d fl'' m' (p' @ fst eph) (drop 32 r)) = Inr (Some (pk d fl'' m p (fst eph @ drop 32 r)))"
proof -
  define k where "k = agree C (snd eph) ident"
  define x where "x = ctr C k (take 12 d) (m @ p)"
  define m' p' where "m' = take 8 x" and "p' = drop 8 x"
  have l: "length d = 18" "length m = 8" using assms(1) by (simp_all add: pk_ok_def)
  have x: "length x = 8 + length p" "ctr C k (take 12 d) x = m @ p"
    using assms(2) l by (simp_all add: x_def ctr_law_def)
  have mp: "m' @ p' = x" "length m' = 8" "length p' = length p" using x by (simp_all add: m'_def p'_def)
  have ok: "pk_ok d m' p' r" by (rule pk_okI [OF assms(1) l(1) mp(2,3)])
  have ok2: "pk_ok d m' (p' @ fst eph) (drop 32 r)"
    using ok assms(3,4) by (simp add: pk_ok_def)
  have ok3: "pk_ok d m p (fst eph @ drop 32 r)"
    using assms(1,3,4) by (simp add: pk_ok_def)
  have b19: "unat (blen (pk d f mm pp rr) - 19) = 8 + length pp" if "pk_ok d mm pp rr" for f mm pp rr
    using pk_sizes(5) [OF that, of f] by (simp add: unat_sub_if' word_le_nat_alt)
  have rd: "buf_read (pk d fl m p r) 19 (8 + length p) = Inr (m @ p)"
    using pk_sizes(2) [OF assms(1), of fl] l by (simp add: buf_read_def, simp add: pk_def)
  have pke: "buf_poke (pk d f mm pp rr) 19 (m2 @ p2) = Inr (pk d f m2 p2 rr)"
    if "pk_ok d mm pp rr" "length m2 = 8" "length p2 = length pp" for f mm pp rr m2 p2
    using that pk_sizes(2) [OF that(1), of f] l by (simp add: buf_poke_def, simp add: pk_def pk_ok_def mem_write_def drop_Cons')
  have mem12: "take 12 (bmem (pk d f mm pp rr)) = take 12 d" for f mm pp rr using l by (simp add: pk_def)
  have app: "buf_append_bytes (fst eph) 32 (pk d fl m' p' r) = Inr (pk d fl m' (p' @ fst eph) (drop 32 r))"
  proof -
    let ?b = "pk d fl m' p' r"
    note sz = pk_sizes [OF ok, of fl]
    have cap: "bcap ?b < 2 ^ 31" using sz(2) ok by (simp add: pk_ok_def)
    have u: "unat (blen ?b + 32) = 27 + length p' + 32"
      using sz(5) ok by (simp add: unat_word_ariths pk_ok_def)
    have le: "\<not> blen ?b + 32 > bcap32 ?b"
      using u sz(2) cap assms(4) by (simp add: word_less_nat_alt bcap32_def unat_of_nat_u32 del: of_nat_add of_nat_numeral)
    have nb: "blen ?b + 32 = of_nat (27 + length (p' @ fst eph))"
      by (simp add: pk_def assms(3))
    have w: "mem_write (bmem ?b) (bsize ?b) (fst eph) = d @ fl # m' @ (p' @ fst eph) @ drop 32 r"
      unfolding sz(1) using l mp(2) assms(3) by (simp add: pk_def mem_write_def take_Cons' drop_Cons')
    have "buf_append_bytes (fst eph) 32 ?b =
        Inr (?b\<lparr>bmem := mem_write (bmem ?b) (bsize ?b) (fst eph), blen := blen ?b + 32\<rparr>)"
      using le sz(1,2) assms(3,4) by (simp add: buf_append_bytes_def)
    then show ?thesis unfolding w nb by (simp add: pk_def)
  qed
  show ?thesis
  proof (rule that [OF _ ok2])
    show "armor_extended C eph ident (pk d fl m p r) = Inr (pk d fl m' (p' @ fst eph) (drop 32 r))"
      using pke [OF assms(1) mp(2,3), of fl] l
      by (simp add: armor_extended_def b19 [OF assms(1)] rd k_def [symmetric] mem12 x_def [symmetric] mp(1) app)
    fix fl''
    have "p' \<noteq> []" using assms(1) mp(3) by (auto simp: pk_ok_def)
    from dearmor_extended_pk(1) [OF ok2 this assms(3,2), of priv fl'']
    show "dearmor_extended C priv (pk d fl'' m' (p' @ fst eph) (drop 32 r)) = Inr (Some (pk d fl'' m p (fst eph @ drop 32 r)))"
      by (simp add: mp(1) assms(5) [symmetric] k_def [symmetric] x(2) l)
  qed
qed

section \<open>Armor and dearmor\<close>

lemma addr_read_pk:
  assumes "pk_ok d m p r"
  shows "pkt_destination (pk d fl m p r) = Inr (addr_setTo (take 5 (drop 8 d)) 5)"
    "pkt_source (pk d fl m p r) = Inr (addr_setTo (drop 13 d) 5)"
proof -
  have f: "\<not> k + 5 > blen (pk d fl m p r)" if "k = 8 \<or> k = 13" for k
    using that pk_sizes(5) [OF assms, of fl] by (auto simp: word_less_nat_alt)
  then show "pkt_destination (pk d fl m p r) = Inr (addr_setTo (take 5 (drop 8 d)) 5)"
    "pkt_source (pk d fl m p r) = Inr (addr_setTo (drop 13 d) 5)"
    using f [of 8] f [of 13] pk_sizes(2) [OF assms, of fl] assms
    by (simp_all add: pkt_destination_def pkt_source_def addr_read_def buf_bytes_def buf_field_def buf_read_def)
      (simp_all add: pk_def pk_ok_def)
qed

lemma setExtendedArmor_pk:
  assumes "pk_ok d m p r"
  obtains fl' where "setExtendedArmor ext (pk d fl m p r) = Inr (pk d fl' m p r)"
    "fl' AND 0x80 = (if ext then 0x80 else 0)" "fl' AND 7 = fl AND 7"
proof
  define fl' where "fl' = (if ext then fl OR 0x80 else fl AND NOT 0x80)"
  show "setExtendedArmor ext (pk d fl m p r) = Inr (pk d fl' m p r)"
    by (simp add: setExtendedArmor_def pk_mod18 [OF assms] fl'_def)
  show "fl' AND 0x80 = (if ext then 0x80 else 0)" by (simp only: fl'_def clear_mask split: if_split) simp
  have "(fl OR 0x80) AND 7 = fl AND 7" "(fl AND NOT 0x80) AND 7 = fl AND 7"
    by (simp_all add: bit.conj_disj_distrib2 and.assoc)
  then show "fl' AND 7 = fl AND 7" by (simp add: fl'_def)
qed

lemma dearmor_plain:
  assumes "pk_ok d m p r" "fl AND 0x80 = 0 \<or> fl AND 0x38 \<noteq> 0"
  shows "fl AND 0x38 = 0 \<Longrightarrow> dearmor C key aesKeys priv (pk d fl m p r) = dearmor_salsa key False (pk d fl m p r)"
    "fl AND 0x38 = 8 \<Longrightarrow> dearmor C key aesKeys priv (pk d fl m p r) = dearmor_salsa key True (pk d fl m p r)"
    "fl AND 0x38 = 0x18 \<Longrightarrow> dearmor C key (Some ks) priv (pk d fl m p r) = dearmor_aes C ks (pk d fl m p r)"
  using assms(2) by (auto simp: dearmor_def flags_pk [OF assms(1)] drop_bit_eq_div)

lemma relayed:
  assumes "pk_ok d m p r"
  obtains fl' where "relay n (pk d fl m p r) = Inr (pk d fl' m p r)" "fl' AND 0xf8 = fl AND 0xf8"
    "fl' AND 0x38 = fl AND 0x38" "fl' AND 0x80 = fl AND 0x80"
proof -
  obtain fl' where f: "relay n (pk d fl m p r) = Inr (pk d fl' m p r)" "fl' AND 0xf8 = fl AND 0xf8"
    using relay_pk [OF assms] by blast
  show ?thesis
    by (rule that [OF f]) (rule mask_through [OF f(2)], simp)+
qed

lemma drop27_pk: "pk_ok d m p r \<Longrightarrow> drop 27 (bdata (pk d fl m p r)) = p"
  by (simp add: bdata_pk) (simp add: pk_ok_def drop_Cons')

text \<open>
  Claim C1: a packet survives the wire. Whatever the suite (Poly1305 with or without Salsa20/12,
  AES-GMAC-SIV, the extended armor of a HELLO), a packet that was armored for a peer and then
  forwarded by any number of nodes, each counting up the hops in the flag byte, is accepted by
  the peer's dearmor, which gives back the payload from the verb on and the two addresses. No
  step reads or writes outside the packet's array. The extended armor is for unencrypted packets
  and appends the 32 bytes of an ephemeral key, for which there must be room; AES-GMAC-SIV
  authenticates the flag byte, so the packet must start with no hops.
\<close>

theorem armor_dearmor:
  assumes "small b" "28 \<le> bsize b" "siv_law C" "ctr_law C"
    and aes: "encryptPayload \<Longrightarrow> aesKeys \<noteq> None \<Longrightarrow> pkt_hops b = Inr 0"
    and ext: "ext \<Longrightarrow> \<not> encryptPayload \<and> bsize b + 32 \<le> bcap b \<and> length (fst eph) = 32 \<and>
      agree C (snd eph) ident = agree C priv (fst eph)"
  shows "\<exists>b1 b2 b3. armor C eph key encryptPayload ext aesKeys ident b = Inr b1 \<and> relay n b1 = Inr b2 \<and>
    dearmor C key aesKeys priv b2 = Inr (True, b3) \<and> drop 27 (bdata b3) = drop 27 (bdata b) \<and>
    pkt_destination b3 = pkt_destination b \<and> pkt_source b3 = pkt_source b"
proof -
  obtain d fl m p r where b: "b = pk d fl m p r" "pk_ok d m p r"
    by (rule pk_exists [OF assms(1,2)])
  note ok = b(2)
  obtain f0 where f0: "setExtendedArmor ext b = Inr (pk d f0 m p r)" "f0 AND 0x80 = (if ext then 0x80 else 0)"
    "f0 AND 7 = fl AND 7"
    unfolding b(1) by (rule setExtendedArmor_pk [OF ok])
  show ?thesis
  proof (cases "encryptPayload \<and> aesKeys \<noteq> None")
    case True
    then obtain ks where ks: "aesKeys = Some ks" by auto
    have noext: "\<not> ext" using ext True by blast
    have h: "f0 AND 7 = 0"
      using aes True flags_pk(3) [OF ok, of fl] f0(3) by (auto simp: b(1) dest: ucast_u8_0)
    obtain f1 d' mac c where a: "armor_aes C ks (pk d f0 m p r) = Inr (pk d' f1 mac c r)"
      "f1 AND 0x38 = 0x18" "f1 AND 0x80 = f0 AND 0x80" "pk_ok d' mac c r" "drop 8 d' = drop 8 d" "length c = length p"
      and de: "\<And>f2. f2 AND 0xf8 = f1 AND 0xf8 \<Longrightarrow> dearmor_aes C ks (pk d' f2 mac c r) = Inr (True, pk d' f2 mac p r)"
      by (rule armor_aes_pk [OF ok assms(3) h, where ks = ks]) blast
    obtain f2 where f2: "relay n (pk d' f1 mac c r) = Inr (pk d' f2 mac c r)" "f2 AND 0xf8 = f1 AND 0xf8"
      "f2 AND 0x38 = f1 AND 0x38" "f2 AND 0x80 = f1 AND 0x80"
      by (rule relayed [OF a(4)])
    have ok3: "pk_ok d' mac p r" using a(4,6) ok by (simp add: pk_ok_def)
    have "drop 13 d' = drop 13 d" using arg_cong [OF a(5), of "drop 5"] by simp
    then have "pkt_destination (pk d' f2 mac p r) = pkt_destination b" "pkt_source (pk d' f2 mac p r) = pkt_source b"
      by (simp_all add: b(1) addr_read_pk [OF ok] addr_read_pk [OF ok3] a(5))
    moreover have "dearmor C key aesKeys priv (pk d' f2 mac c r) = Inr (True, pk d' f2 mac p r)"
      using dearmor_plain(3) [OF a(4), of f2] f2 a(2) de [OF f2(2)] by (simp add: ks)
    moreover have "armor C eph key encryptPayload ext aesKeys ident b = Inr (pk d' f1 mac c r)"
      using True f0(1) a(1) noext by (simp add: armor_def ks)
    ultimately show ?thesis
      using f2(1) drop27_pk [OF ok, of fl] drop27_pk [OF ok3, of f2] unfolding b(1) by auto
  next
    case False
    obtain f1 mac c where a: "armor_salsa key encryptPayload (pk d f0 m p r) = Inr (pk d f1 mac c r)"
      "f1 AND 0x38 = (if encryptPayload then 8 else 0)" "f1 AND 0x80 = f0 AND 0x80" "length mac = 8" "length c = length p"
      and de: "\<And>f2 r'. pk_ok d mac c r' \<Longrightarrow> f2 AND 0xf8 = f1 AND 0xf8 \<Longrightarrow>
        dearmor_salsa key encryptPayload (pk d f2 mac c r') = Inr (True, pk d f2 mac p r')"
      by (rule armor_salsa_pk [OF ok, where key = key and enc = encryptPayload and fl = f0]) blast
    have ok1: "pk_ok d mac c r" "pk_ok d mac p r" using ok a(4,5) by (auto simp: pk_ok_def)
    have ar: "armor C eph key encryptPayload ext aesKeys ident b =
        (if ext then armor_extended C eph ident (pk d f1 mac c r) else Inr (pk d f1 mac c r))"
      using False f0(1) a(1) by (auto simp: armor_def split: option.splits)
    show ?thesis
    proof (cases ext)
      case noext: False
      obtain f2 where f2: "relay n (pk d f1 mac c r) = Inr (pk d f2 mac c r)" "f2 AND 0xf8 = f1 AND 0xf8"
        "f2 AND 0x38 = f1 AND 0x38" "f2 AND 0x80 = f1 AND 0x80"
        by (rule relayed [OF ok1(1)])
      have "dearmor C key aesKeys priv (pk d f2 mac c r) = Inr (True, pk d f2 mac p r)"
        using dearmor_plain(1,2) [OF ok1(1), of f2] f2 a(2,3) f0(2) de [OF ok1(1) f2(2)] noext
        by (cases encryptPayload) simp_all
      moreover have "pkt_destination (pk d f2 mac p r) = pkt_destination b" "pkt_source (pk d f2 mac p r) = pkt_source b"
        by (simp_all add: b(1) addr_read_pk [OF ok] addr_read_pk [OF ok1(2)])
      ultimately show ?thesis
        using f2(1) drop27_pk [OF ok, of fl] drop27_pk [OF ok1(2), of f2] noext ar unfolding b(1) by auto
    next
      case isext: True
      then have e: "\<not> encryptPayload" "32 \<le> length r" "length (fst eph) = 32"
        "agree C (snd eph) ident = agree C priv (fst eph)"
        using ext pk_sizes [OF ok, of fl] by (simp_all add: b(1))
      obtain m' p' where x: "armor_extended C eph ident (pk d f1 mac c r) = Inr (pk d f1 m' (p' @ fst eph) (drop 32 r))"
        "pk_ok d m' (p' @ fst eph) (drop 32 r)"
        and dx: "\<And>f2. dearmor_extended C priv (pk d f2 m' (p' @ fst eph) (drop 32 r)) = Inr (Some (pk d f2 mac c (fst eph @ drop 32 r)))"
        by (rule armor_extended_pk [OF ok1(1) assms(4) e(3,2,4)]) blast
      have ok4: "pk_ok d mac c (fst eph @ drop 32 r)" "pk_ok d mac p (fst eph @ drop 32 r)"
        using ok1 e(2,3) by (simp_all add: pk_ok_def)
      obtain f2 where f2: "relay n (pk d f1 m' (p' @ fst eph) (drop 32 r)) = Inr (pk d f2 m' (p' @ fst eph) (drop 32 r))"
        "f2 AND 0xf8 = f1 AND 0xf8" "f2 AND 0x38 = f1 AND 0x38" "f2 AND 0x80 = f1 AND 0x80"
        by (rule relayed [OF x(2)])
      have fl: "f2 AND 0x38 = 0" "f2 AND 0x80 = 0x80" using f2(3,4) a(2,3) f0(2) e(1) isext by simp_all
      have "dearmor C key aesKeys priv (pk d f2 m' (p' @ fst eph) (drop 32 r)) =
          Inr (True, pk d f2 mac p (fst eph @ drop 32 r))"
        using de [OF ok4(1) f2(2)] e(1) by (simp add: dearmor_def flags_pk [OF x(2)] fl dx)
      moreover have "pkt_destination (pk d f2 mac p (fst eph @ drop 32 r)) = pkt_destination b"
        "pkt_source (pk d f2 mac p (fst eph @ drop 32 r)) = pkt_source b"
        by (simp_all add: b(1) addr_read_pk [OF ok] addr_read_pk [OF ok4(2)])
      ultimately show ?thesis
        using f2(1) drop27_pk [OF ok, of fl] drop27_pk [OF ok4(2), of f2] isext ar x(1) unfolding b(1) by auto
    qed
  qed
qed

text \<open>A stand-in for the primitives that meets the laws, and one packet through each suite.\<close>

definition demo_crypto :: pcrypto where
  "demo_crypto = \<lparr>siv_enc = (\<lambda>ks iv aad p. (replicate 16 (sum_list (aad @ p)), map (\<lambda>v. v XOR 0x55) p)),
     siv_dec = (\<lambda>ks tag aad c. let p = map (\<lambda>v. v XOR 0x55) c in (tag = replicate 16 (sum_list (aad @ p)), p)),
     ctr = (\<lambda>k iv x. map (\<lambda>v. v XOR hd k) x), agree = (\<lambda>priv pub. [hd priv + hd pub]),
     lz_comp = (\<lambda>p. if p = replicate (length p) 0 \<and> length p < 256 then Some [of_nat (length p)] else None),
     lz_decomp = (\<lambda>c n. case c of [l] \<Rightarrow> Some (replicate (unat l) 0) | _ \<Rightarrow> None)\<rparr>"

lemma xor_map_twice: "map (\<lambda>v. v XOR k) (map (\<lambda>v. v XOR k) x) = x" for x :: "u8 list"
  by (induction x) (simp_all add: xor.assoc)

lemma demo_laws: "siv_law demo_crypto" "ctr_law demo_crypto"
  by (auto simp: siv_law_def ctr_law_def demo_crypto_def Let_def xor.assoc comp_def)

definition demo_packet :: zbuf where
  "demo_packet = \<lparr>bmem = [1, 2, 3, 4, 5, 6, 7, 8, 9, 10, 11, 12, 13, 14, 15, 16, 17, 18, 0] @ replicate 81 7, blen = 40\<rparr>"

lemma demo_packet_ok: "small demo_packet" "28 \<le> bsize demo_packet" "bsize demo_packet + 32 \<le> bcap demo_packet"
  "pkt_hops demo_packet = Inr 0"
  by (simp_all add: demo_packet_def small_def buf_ok_def bcap_def bsize_def pkt_hops_def buf_get_def)

theorem armor_dearmor_witness:
  "(\<exists>b1 b2 b3. armor demo_crypto ([], []) (replicate 32 3) True False None [] demo_packet = Inr b1 \<and>
     relay 3 b1 = Inr b2 \<and> dearmor demo_crypto (replicate 32 3) None [] b2 = Inr (True, b3) \<and>
     drop 27 (bdata b3) = drop 27 (bdata demo_packet) \<and>
     pkt_destination b3 = pkt_destination demo_packet \<and> pkt_source b3 = pkt_source demo_packet) \<and>
   (\<exists>b1 b2 b3. armor demo_crypto ([], []) (replicate 32 3) True False (Some ([1], [2])) [] demo_packet = Inr b1 \<and>
     relay 3 b1 = Inr b2 \<and> dearmor demo_crypto (replicate 32 3) (Some ([1], [2])) [] b2 = Inr (True, b3) \<and>
     drop 27 (bdata b3) = drop 27 (bdata demo_packet) \<and>
     pkt_destination b3 = pkt_destination demo_packet \<and> pkt_source b3 = pkt_source demo_packet) \<and>
   (\<exists>b1 b2 b3. armor demo_crypto (replicate 32 5, [6]) (replicate 32 3) False True None [9] demo_packet = Inr b1 \<and>
     relay 3 b1 = Inr b2 \<and> dearmor demo_crypto (replicate 32 3) None [10] b2 = Inr (True, b3) \<and>
     drop 27 (bdata b3) = drop 27 (bdata demo_packet) \<and>
     pkt_destination b3 = pkt_destination demo_packet \<and> pkt_source b3 = pkt_source demo_packet)"
  by (intro conjI; rule armor_dearmor; simp add: demo_packet_ok demo_laws; simp add: demo_crypto_def)

section \<open>What dearmor accepts\<close>

lemma pk_parts:
  assumes "pk_ok d m p r"
  shows "take 8 (drop 19 (bdata (pk d fl m p r))) = m" "take 27 (bdata (pk d fl m p r)) = d @ fl # m"
  using assms by (simp_all add: bdata_pk) (simp_all add: pk_ok_def take_Cons' drop_Cons')

text \<open>
  The packet under the outer layer of the extended armor: the layer's public key is the last 32
  bytes, the bytes from the MAC on are decrypted under the key agreed with it, and the size is what is
  left. The bytes of the array after it stay.
\<close>

definition opened :: "pcrypto \<Rightarrow> u8 list \<Rightarrow> zbuf \<Rightarrow> zbuf" where
  "opened C priv b =
     (let n = bsize b - 32;
          k = agree C priv (take 32 (drop n (bmem b)))
      in \<lparr>bmem = take 19 (bmem b) @ ctr C k (take 12 (bmem b)) (take (n - 19) (drop 19 (bmem b))) @ drop n (bmem b),
          blen = of_nat n\<rparr>)"

lemma opened_spec:
  assumes "small b" "60 \<le> bsize b" "ctr_law C"
  shows "dearmor_extended C priv b = Inr (Some (opened C priv b))" "small (opened C priv b)"
    "bsize (opened C priv b) = bsize b - 32"
proof -
  have "28 \<le> bsize b" using assms(2) by simp
  then obtain d fl m p r where b: "b = pk d fl m p r" "pk_ok d m p r" using pk_exists [OF assms(1)] by metis
  have n: "33 \<le> length p" using assms(2) pk_sizes(1) [OF b(2), of fl] by (simp add: b(1))
  define q eph where "q = take (length p - 32) p" and "eph = drop (length p - 32) p"
  have p: "p = q @ eph" and q: "q \<noteq> []" and e: "length eph = 32" using n by (auto simp: q_def eph_def)
  note ok = b(2) [unfolded p]
  note dx = dearmor_extended_pk [OF ok q e assms(3), of priv]
  let ?x = "ctr C (agree C priv eph) (take 12 d) (m @ q)"
  have l: "length d = 18" "length m = 8" using ok by (simp_all add: pk_ok_def)
  have bs: "bsize b - 32 = 27 + length q" using pk_sizes(1) [OF ok, of fl] e by (simp add: b(1) p)
  have parts: "take 19 (bmem b) = d @ [fl]" "take 12 (bmem b) = take 12 d" "drop (27 + length q) (bmem b) = eph @ r"
    "take (8 + length q) (drop 19 (bmem b)) = m @ q"
    using l by (simp_all add: b(1) p pk_def drop_Cons')
  have "opened C priv b = pk d fl (take 8 ?x) (drop 8 ?x) (eph @ r)"
    using dx(3) e by (simp add: opened_def Let_def bs parts) (simp add: pk_def)
  then show "dearmor_extended C priv b = Inr (Some (opened C priv b))" "small (opened C priv b)"
    "bsize (opened C priv b) = bsize b - 32"
    using dx(1) [of fl] pk_sizes(1,4) [OF dx(2), of fl] dx(3) by (simp_all add: bs, simp add: b(1) p)
qed

lemma dearmor_salsa_exact:
  assumes "small b" "28 \<le> bsize b"
  shows "\<exists>ok b'. (if c = 0 \<or> c = (1 :: u32) then dearmor_salsa key (c = 1) b else Inr (False, b)) = Inr (ok, b') \<and>
    (ok \<longleftrightarrow> (c = 0 \<or> c = 1) \<and>
       take 8 (drop 19 (bdata b)) = take 8 (poly1305_compute (drop 27 (bdata b)) (fst (armor_keys key b)))) \<and>
    (\<not> ok \<longrightarrow> b' = b) \<and> bsize b' = bsize b \<and> take 27 (bdata b') = take 27 (bdata b) \<and>
    (ok \<longrightarrow> drop 27 (bdata b') =
       (if c = 1 then fst (crypt12 (snd (armor_keys key b)) (drop 27 (bdata b))) else drop 27 (bdata b)))"
proof -
  obtain d fl m p r where b: "b = pk d fl m p r" "pk_ok d m p r"
    by (rule pk_exists [OF assms(1,2)])
  note ok = b(2)
  obtain mk s where k: "armor_keys key b = (mk, s)" by fastforce
  have s: "length s = 16" using armor_keys_length [of key b] by (simp add: k)
  have len: "length (fst (crypt12 s p)) = length p" by (rule crypt12_props(1) [OF s])
  have ok': "pk_ok d m (fst (crypt12 s p)) r" using ok len by (auto simp: pk_ok_def)
  define A where "A = (m = take 8 (poly1305_compute p mk))"
  define b' where "b' = pk d fl m (if c = 1 then fst (crypt12 s p) else p) r"
  have sal: "dearmor_salsa key (c = 1) b = (if A then Inr (True, b') else Inr (False, b))"
  proof (cases A)
    case True
    then show ?thesis
      using k len by (simp add: dearmor_salsa_def b(1) pk_read [OF ok] pk_poke [OF ok] A_def [symmetric] b'_def)
  next
    case False
    then show ?thesis
      using k by (auto simp: dearmor_salsa_def b(1) pk_read [OF ok] A_def)
  qed
  have parts: "take 8 (drop 19 (bdata b)) = m" "drop 27 (bdata b) = p" "take 27 (bdata b) = d @ fl # m"
    "bsize b = 27 + length p"
    by (simp_all only: b(1) pk_parts [OF ok] drop27_pk [OF ok] pk_sizes(1) [OF ok])
  have parts': "drop 27 (bdata b') = (if c = 1 then fst (crypt12 s p) else p)" "take 27 (bdata b') = d @ fl # m"
    "bsize b' = 27 + length p"
    by (simp_all add: b'_def pk_parts [OF ok] pk_parts [OF ok'] drop27_pk [OF ok] drop27_pk [OF ok']
        pk_sizes(1) [OF ok] pk_sizes(1) [OF ok'] len)
  show ?thesis
    unfolding sal parts k fst_conv snd_conv A_def [symmetric]
    by (cases A; cases "c = 0 \<or> c = 1") (auto simp: parts parts')
qed

text \<open>
  Claim C26: what dearmor accepts under the Poly1305 suites, and what it does then. A packet is
  accepted exactly when its MAC field holds the first eight bytes of the authenticator of
  everything from the verb on, under the one-time key that comes from the shared key, the packet
  id, the addresses, the size and the flags. An accepted packet is decrypted in place with the
  following blocks of the key stream if its suite says so; a rejected one is left as it was. Any
  suite but the three known ones, the trusted path among them, is rejected. An unencrypted packet
  under the extended armor is opened first: the same then holds of the packet under the outer layer,
  which also stays when it is rejected; one too short to have such a layer is rejected as it is.
\<close>

theorem dearmor_accepts:
  assumes "small b" "28 \<le> bsize b" "pkt_cipher b = Inr c" "c \<noteq> 3" "extendedArmor b = Inr ext" "ctr_law C"
  shows "let inner = (if ext \<and> c = 0 then opened C priv b else b) in
    \<exists>ok b'. dearmor C key aesKeys priv b = Inr (ok, b') \<and>
    (if ext \<and> c = 0 \<and> bsize b < 60 then \<not> ok \<and> b' = b
     else (ok \<longleftrightarrow> (c = 0 \<or> c = 1) \<and>
         take 8 (drop 19 (bdata inner)) = take 8 (poly1305_compute (drop 27 (bdata inner)) (fst (armor_keys key inner)))) \<and>
       (\<not> ok \<longrightarrow> b' = inner) \<and> bsize b' = bsize inner \<and> take 27 (bdata b') = take 27 (bdata inner) \<and>
       (ok \<longrightarrow> drop 27 (bdata b') =
         (if c = 1 then fst (crypt12 (snd (armor_keys key inner)) (drop 27 (bdata inner))) else drop 27 (bdata inner))))"
proof (cases "ext \<and> c = 0")
  case no: False
  then have eq: "dearmor C key aesKeys priv b = (if c = 0 \<or> c = 1 then dearmor_salsa key (c = 1) b else Inr (False, b))"
    using assms(3-5) by (auto simp: dearmor_def)
  have long: "\<not> (ext \<and> c = 0 \<and> bsize b < 60)" using no by blast
  show ?thesis unfolding Let_def if_not_P [OF no] if_not_P [OF long] eq by (rule dearmor_salsa_exact [OF assms(1,2)])
next
  case yes: True
  show ?thesis
  proof (cases "bsize b < 60")
    case True
    then have "blen b < 60" by (simp add: bsize_def word_less_nat_alt)
    then show ?thesis using yes assms(3,5) True by (simp add: dearmor_def dearmor_extended_def) (rule exI [of _ False], simp)
  next
    case False
    then have n: "60 \<le> bsize b" by simp
    note op = opened_spec [OF assms(1) n assms(6), of priv]
    have eq: "dearmor C key aesKeys priv b =
        (if c = 0 \<or> c = 1 then dearmor_salsa key (c = 1) (opened C priv b) else Inr (False, opened C priv b))"
      using assms(3,5) yes op(1) by (simp add: dearmor_def)
    have size: "28 \<le> bsize (opened C priv b)" and long: "\<not> (ext \<and> c = 0 \<and> bsize b < 60)"
      using op(3) n by simp_all
    show ?thesis
      unfolding Let_def if_P [OF yes] if_not_P [OF long] eq by (rule dearmor_salsa_exact [OF op(2) size])
  qed
qed

text \<open>
  Packets with the right MAC field and with a wrong one, and one flagged as under the extended armor
  but too short for it.
\<close>

definition demo_mac :: "u8 list" where
  "demo_mac = take 8 (poly1305_compute (replicate 13 7) (fst (armor_keys (replicate 32 3) demo_packet)))"

definition with_mac :: "u8 list \<Rightarrow> zbuf" where
  "with_mac m = demo_packet\<lparr>bmem := take 18 (bmem demo_packet) @ 0 # m @ replicate 73 7\<rparr>"

definition demo_short :: zbuf where
  "demo_short = demo_packet\<lparr>bmem := (bmem demo_packet)[18 := 0x80]\<rparr>"

theorem dearmor_accepts_witness:
  "(\<exists>b'. dearmor demo_crypto (replicate 32 3) None [] (with_mac demo_mac) = Inr (True, b')) \<and>
   dearmor demo_crypto (replicate 32 3) None [] (with_mac (map (\<lambda>v. v + 1) demo_mac)) =
     Inr (False, with_mac (map (\<lambda>v. v + 1) demo_mac)) \<and>
   dearmor demo_crypto (replicate 32 3) None [] demo_short = Inr (False, demo_short)"
proof -
  have l: "length demo_mac = 8" by (simp add: demo_mac_def poly1305_length)
  have ne: "map (\<lambda>v. v + 1) demo_mac \<noteq> demo_mac" using l by (metis (no_types, lifting) add_cancel_right_right list.map_sel(1) list.size(3) zero_neq_numeral zero_neq_one)
  have w: "small (with_mac m)" "28 \<le> bsize (with_mac m)" "pkt_cipher (with_mac m) = Inr 0" "(0 :: u32) \<noteq> 3"
    "extendedArmor (with_mac m) = Inr False" if "length m = 8" for m
    using that by (simp_all add: with_mac_def demo_packet_def small_def buf_ok_def bcap_def bsize_def pkt_cipher_def
        extendedArmor_def buf_get_def nth_append)
  have d: "take 8 (drop 19 (bdata (with_mac m))) = m" "drop 27 (bdata (with_mac m)) = replicate 13 7" if "length m = 8" for m
    using that by (simp_all add: with_mac_def demo_packet_def bdata_def bsize_def)
  have k: "armor_keys key (with_mac m) = armor_keys key demo_packet" for key m
    by (simp add: armor_keys_def mangleKey_def with_mac_def demo_packet_def nth_append upt_rec)
  have sh: "small demo_short" "28 \<le> bsize demo_short" "pkt_cipher demo_short = Inr 0" "(0 :: u32) \<noteq> 3"
    "extendedArmor demo_short = Inr True" "bsize demo_short < 60"
    by (simp_all add: demo_short_def demo_packet_def small_def buf_ok_def bcap_def bsize_def pkt_cipher_def
        extendedArmor_def buf_get_def)
  note dm = demo_mac_def [symmetric]
  have l': "length (map (\<lambda>v. v + 1) demo_mac) = 8" using l by simp
  note acc = dearmor_accepts [OF w [OF l] demo_laws(2), unfolded Let_def]
    and rej = dearmor_accepts [OF w [OF l'] demo_laws(2), unfolded Let_def]
    and short = dearmor_accepts [OF sh(1-5) demo_laws(2), unfolded Let_def]
  from acc [where key = "replicate 32 3" and aesKeys = None and priv = "[]"]
    rej [where key = "replicate 32 3" and aesKeys = None and priv = "[]"]
    short [where key = "replicate 32 3" and aesKeys = None and priv = "[]"] sh(6)
  show ?thesis by (auto simp: d k l dm ne)
qed

section \<open>Compression\<close>

definition lz_law :: "pcrypto \<Rightarrow> bool" where
  "lz_law C \<longleftrightarrow> (\<forall>p c n. lz_comp C p = Some c \<longrightarrow> length p \<le> n \<longrightarrow> lz_decomp C c n = Some p)"

lemma pk_payload_ops:
  assumes "pk_ok d m (v # q) r"
  shows "pkt_compressed (pk d fl m (v # q) r) = Inr (v AND 0x80 \<noteq> 0)"
    "buf_read (pk d fl m (v # q) r) 27 1 = Inr [v]"
    "buf_poke (pk d fl m (v # q) r) 27 [v'] = Inr (pk d fl m (v' # q) r)"
    "unat (blen (pk d fl m (v # q) r) - 28) = length q"
    "buf_read (pk d fl m (v # q) r) 28 (length q) = Inr q"
    "blen (pk d fl m (v # q) r) > 28 \<longleftrightarrow> q \<noteq> []" "blen (pk d fl m (v # q) r) \<ge> 28"
    "blen (pk d fl m (v # q) r) > 28 + 64 \<longleftrightarrow> length q > 64"
proof -
  note sz = pk_sizes [OF assms, of fl] and l = assms [unfolded pk_ok_def]
  have n: "(d @ fl # m @ (v # q) @ r) ! 27 = v"
    using l by (simp add: nth_append nth_Cons')
  show "pkt_compressed (pk d fl m (v # q) r) = Inr (v AND 0x80 \<noteq> 0)"
    using pk_lt [OF assms, of 27 fl] n by (simp add: pkt_compressed_def buf_get_def pk_def)
  show "buf_read (pk d fl m (v # q) r) 27 1 = Inr [v]" "buf_read (pk d fl m (v # q) r) 28 (length q) = Inr q"
    using sz(2) l by (simp_all add: buf_read_def) (simp_all add: pk_def drop_Cons')
  show "buf_poke (pk d fl m (v # q) r) 27 [v'] = Inr (pk d fl m (v' # q) r)"
    using sz(2) l by (simp add: buf_poke_def) (simp add: pk_def mem_write_def drop_Cons' take_Cons')
  show "unat (blen (pk d fl m (v # q) r) - 28) = length q"
    using sz(5) by (simp add: unat_sub_if' word_le_nat_alt)
  show "blen (pk d fl m (v # q) r) > 28 \<longleftrightarrow> q \<noteq> []" "blen (pk d fl m (v # q) r) \<ge> 28"
    "blen (pk d fl m (v # q) r) > 28 + 64 \<longleftrightarrow> length q > 64"
    using sz(5) by (auto simp: word_less_nat_alt word_le_nat_alt)
qed

text \<open>Replacing the bytes after the verb by others that fit.\<close>

lemma pk_resize:
  assumes "pk_ok d m (v # q) r" "length q' \<le> length q + length r"
  obtains r' where "bind_res (buf_setSize (of_nat (length q') + 28) (pk d fl m (v # q) r)) (\<lambda>b. buf_poke b 28 q') =
      Inr (pk d fl m (v # q') r')" "pk_ok d m (v # q') r'" "length q' + length r' = length q + length r"
proof -
  let ?n = "27 + length (v # q) + length r"
  let ?rest = "drop (length q') (q @ r)"
  have l: "length d = 18" "length m = 8" "?n < 2 ^ 31" using assms(1) by (simp_all add: pk_ok_def)
  have ok': "pk_ok d m (v # q') ?rest" using l assms(2) by (simp add: pk_ok_def)
  have sz: "of_nat (length q') + 28 = (of_nat (27 + length (v # q')) :: u32)" by simp
  have c: "bcap (pk d fl m (v # q) r) = ?n" by (rule pk_sizes(2) [OF assms(1)])
  have le: "\<not> of_nat (27 + length (v # q')) > bcap32 (pk d fl m (v # q) r)"
    using l(3) assms(2) by (simp add: bcap32_def c word_less_nat_alt unat_of_nat_u32 del: of_nat_add of_nat_numeral of_nat_Suc)
  have set: "buf_setSize (of_nat (length q') + 28) (pk d fl m (v # q) r) =
      Inr \<lparr>bmem = d @ fl # m @ (v # q) @ r, blen = of_nat (27 + length (v # q'))\<rparr>"
    unfolding sz buf_setSize_def using le by (simp add: pk_def)
  have "bind_res (buf_setSize (of_nat (length q') + 28) (pk d fl m (v # q) r)) (\<lambda>b. buf_poke b 28 q') =
      Inr (pk d fl m (v # q') ?rest)"
    unfolding set using l assms(2)
    by (simp add: buf_poke_def pk_def mem_write_def drop_Cons' take_Cons')
  moreover have "length q' + length ?rest = length q + length r"
    using assms(2) by (simp only: length_drop length_append le_add_diff_inverse)
  ultimately show ?thesis by (intro that [OF _ ok'])
qed

lemma flag_clear: "v AND 0x80 = 0 \<Longrightarrow> v AND NOT 0x80 = v" "v AND 0x80 = 0 \<Longrightarrow> (v OR 0x80) AND NOT 0x80 = v" for v :: u8
proof -
  have e: "v AND NOT y = v" if "v AND y = 0" for y :: u8
  proof (rule bit_word_eqI)
    fix i assume "i < LENGTH(8)"
    then show "bit (v AND NOT y) i = bit v i"
      using arg_cong [OF that, of "\<lambda>v. bit v i"] by (auto simp: bit_and_iff bit_not_iff)
  qed
  have o: "(v OR y) AND NOT y = v AND NOT y" for y :: u8
    by (rule bit_word_eqI) (auto simp: bit_and_iff bit_or_iff bit_not_iff)
  assume a: "v AND 0x80 = 0"
  show "v AND NOT 0x80 = v" by (rule e [OF a])
  show "(v OR 0x80) AND NOT 0x80 = v" unfolding o by (rule e [OF a])
qed

lemma pkt_uncompress_pk:
  assumes "pk_ok d m (v # q) r" "v AND 0x80 \<noteq> 0" "q \<noteq> []" "lz_decomp C q (bcap (pk d fl m (v # q) r)) = Some x"
    "x \<noteq> []" "length x \<le> length q + length r"
  obtains r' where "pkt_uncompress C (pk d fl m (v # q) r) = Inr (True, pk d fl m ((v AND NOT 0x80) # x) r')"
    "pk_ok d m (v # x) r'"
proof -
  obtain r' where r': "bind_res (buf_setSize (of_nat (length x) + 28) (pk d fl m (v # q) r)) (\<lambda>b. buf_poke b 28 x) =
      Inr (pk d fl m (v # x) r')" "pk_ok d m (v # x) r'"
    by (rule pk_resize [OF assms(1,6), of fl]) blast
  have c: "bcap (pk d fl m (v # q) r) - 28 = length q + length r"
    using pk_sizes(2) [OF assms(1), of fl] by simp
  have r'': "bind_res (buf_setSize (of_nat (length x) + 28) (pk d fl m (v # q) r)) (\<lambda>b. bind_res (buf_poke b 28 x) f) =
      f (pk d fl m (v # x) r')" for f :: "zbuf \<Rightarrow> 'a res"
    using arg_cong [OF r'(1), of "\<lambda>z. bind_res z f"] by simp
  show ?thesis
    by (rule that [OF _ r'(2)])
      (use assms c in \<open>simp add: pkt_uncompress_def Let_def pk_payload_ops [OF assms(1)] r''
        pk_payload_ops(2,3) [OF r'(2), unfolded One_nat_def]\<close>)
qed

lemma pkt_compress_pk:
  assumes "pk_ok d m (v # q) r"
  shows "pkt_compress C (pk d fl m (v # q) r) =
    (case lz_comp C q of
       Some c \<Rightarrow> if v AND 0x80 = 0 \<and> 64 < length q \<and> c \<noteq> [] \<and> length c < length q
         then bind_res (bind_res (buf_setSize (of_nat (length c) + 28) (pk d fl m ((v OR 0x80) # q) r)) (\<lambda>b. buf_poke b 28 c)) (\<lambda>b. Inr (True, b))
         else Inr (False, pk d fl m ((v AND NOT 0x80) # q) r)
     | None \<Rightarrow> Inr (False, pk d fl m ((v AND NOT 0x80) # q) r))"
  using pk_payload_ops(8) [OF assms, of fl]
  by (auto simp: pkt_compress_def Let_def pk_payload_ops(1-5) [OF assms, unfolded One_nat_def]
      simp del: bit.compl_eq_compl_iff split: option.splits)

text \<open>
  Compression is transparent. Whether or not compress found something to gain, the
  packet it leaves, once uncompressed at the other end, is the original: its size, its header,
  its verb and its payload. Compression is tried only above 64 bytes and only kept when it is
  shorter, the flag in the verb byte says which happened, and the decompressed packet fits the
  array it came from. The packet must not carry the flag already.
\<close>

lemma compress_uncompress:
  assumes "small b" "28 \<le> bsize b" "lz_law C" "pkt_compressed b = Inr False"
  shows "\<exists>did b1 b2. pkt_compress C b = Inr (did, b1) \<and> pkt_compressed b1 = Inr did \<and>
    bsize b1 \<le> bsize b \<and> (did \<longrightarrow> bsize b1 < bsize b) \<and>
    pkt_uncompress C b1 = Inr (True, b2) \<and> bdata b2 = bdata b \<and> small b2"
proof -
  obtain d fl m p r where b: "b = pk d fl m p r" "pk_ok d m p r"
    by (rule pk_exists [OF assms(1,2)])
  obtain v q where p: "p = v # q" using b(2) by (cases p) (auto simp: pk_ok_def)
  note ok = b(2) [unfolded p] and b = b(1) [unfolded p]
  have v: "v AND 0x80 = 0" using assms(4) pk_payload_ops(1) [OF ok, of fl] by (simp add: b)
  have same: "pkt_uncompress C b = Inr (True, b)" using assms(4) by (simp add: pkt_uncompress_def Let_def)
  show ?thesis
  proof (cases "\<exists>c. lz_comp C q = Some c \<and> 64 < length q \<and> c \<noteq> [] \<and> length c < length q")
    case True
    then obtain c where c: "lz_comp C q = Some c" "64 < length q" "c \<noteq> []" "length c < length q" by blast
    have ok1: "pk_ok d m ((v OR 0x80) # q) r" using ok by (simp add: pk_ok_def)
    have "length c \<le> length q + length r" using c(4) by simp
    then obtain r1 where r1: "bind_res (buf_setSize (of_nat (length c) + 28) (pk d fl m ((v OR 0x80) # q) r)) (\<lambda>b. buf_poke b 28 c) =
        Inr (pk d fl m ((v OR 0x80) # c) r1)" "pk_ok d m ((v OR 0x80) # c) r1" "length c + length r1 = length q + length r"
      by (rule pk_resize [OF ok1, of c fl])
    have did: "pkt_compress C b = Inr (True, pk d fl m ((v OR 0x80) # c) r1)"
      unfolding b pkt_compress_pk [OF ok] using c v r1(1) by simp
    have fl1: "(v OR 0x80) AND 0x80 \<noteq> 0" by (simp only: clear_mask) simp
    have lim: "length q \<le> bcap (pk d fl m ((v OR 0x80) # c) r1)" "q \<noteq> []" "length q \<le> length c + length r1"
      using pk_sizes(2) [OF r1(2), of fl] r1(3) c(2) by auto
    then have dec: "lz_decomp C c (bcap (pk d fl m ((v OR 0x80) # c) r1)) = Some q"
      using assms(3) c(1) by (simp add: lz_law_def)
    obtain r2 where r2: "pkt_uncompress C (pk d fl m ((v OR 0x80) # c) r1) =
        Inr (True, pk d fl m (((v OR 0x80) AND NOT 0x80) # q) r2)" "pk_ok d m ((v OR 0x80) # q) r2"
      by (rule pkt_uncompress_pk [OF r1(2) fl1 c(3) dec lim(2,3)])
    have ok2: "pk_ok d m (v # q) r2" using r2(2) by (simp add: pk_ok_def)
    have "bdata (pk d fl m (v # q) r2) = bdata b" by (simp add: b bdata_pk [OF ok] bdata_pk [OF ok2])
    then show ?thesis
      using did r2(1) c(4) pk_sizes(4) [OF ok2, of fl] pk_sizes(1) [OF ok, of fl] pk_sizes(1) [OF r1(2), of fl] pk_payload_ops(1) [OF r1(2), of fl] fl1
      unfolding flag_clear(2) [OF v] b by auto
  next
    case False
    then have "pkt_compress C b = Inr (False, pk d fl m ((v AND NOT 0x80) # q) r)"
      unfolding b pkt_compress_pk [OF ok] by (auto split: option.splits)
    then show ?thesis unfolding flag_clear(1) [OF v] using same assms(1,4) by (auto simp: b)
  qed
qed

text \<open>A packet with a long run of zeros, and one that does not compress.\<close>

definition demo_zeros :: zbuf where
  "demo_zeros = \<lparr>bmem = replicate 27 1 @ 6 # replicate 100 0, blen = 128\<rparr>"

lemma demo_lz: "lz_law demo_crypto"
  by (auto simp: lz_law_def demo_crypto_def unat_of_nat split: if_splits)

lemma compress_uncompress_witness:
  "\<exists>did b1 b2. pkt_compress demo_crypto demo_zeros = Inr (did, b1) \<and> pkt_compressed b1 = Inr did \<and>
    bsize b1 \<le> bsize demo_zeros \<and> (did \<longrightarrow> bsize b1 < bsize demo_zeros) \<and>
    pkt_uncompress demo_crypto b1 = Inr (True, b2) \<and> bdata b2 = bdata demo_zeros"
proof -
  have "small demo_zeros" "28 \<le> bsize demo_zeros" "pkt_compressed demo_zeros = Inr False"
    by (simp_all add: demo_zeros_def small_def buf_ok_def bcap_def bsize_def pkt_compressed_def buf_get_def nth_append)
  from compress_uncompress [OF this(1,2) demo_lz this(3)] show ?thesis by blast
qed

text \<open>
  Compressing a packet that carries the flag already clears the flag and leaves the compressed
  bytes: the receiver then takes them for the message.
\<close>

lemma compress_twice_loses:
  assumes "pk_ok d m (v # q) r" "v AND 0x80 \<noteq> 0"
  shows "pkt_compress C (pk d fl m (v # q) r) = Inr (False, pk d fl m ((v AND NOT 0x80) # q) r)"
  unfolding pkt_compress_pk [OF assms(1)] using assms(2) by (auto split: option.splits)

section \<open>A fresh header\<close>

lemma pk_put:
  assumes "pk_ok d m (v # q) r"
  shows "buf_put (pk d fl m (v # q) r) 18 x = Inr (pk d x m (v # q) r)"
    "buf_put (pk d fl m (v # q) r) 27 x = Inr (pk d fl m (x # q) r)"
proof -
  show "buf_put (pk d fl m (v # q) r) 18 x = Inr (pk d x m (v # q) r)"
    using pk_mod18(1) [OF assms, of "\<lambda>_. x" fl] pk_mod18(2) [OF assms, of fl] by (simp add: pkt_mod_def)
  have l: "length d = 18" "length m = 8" using assms by (simp_all add: pk_ok_def)
  have "(d @ fl # m @ (v # q) @ r)[27 := x] = d @ fl # m @ (x # q) @ r"
    using l by (simp add: upd_conv_take_nth_drop take_Cons' drop_Cons')
  then show "buf_put (pk d fl m (v # q) r) 27 x = Inr (pk d fl m (x # q) r)"
    using pk_lt [OF assms, of 27 fl] by (simp add: buf_put_def pk_def)
qed

lemma pk_store:
  assumes "pk_ok d m p r"
  shows "length t = 8 \<Longrightarrow> pkt_store (pk d fl m p r) 0 t = Inr (pk (t @ drop 8 d) fl m p r)"
    "setDestination a (pk d fl m p r) = Inr (pk (take 8 d @ addr_bytes a @ drop 13 d) fl m p r)"
    "setSource a (pk d fl m p r) = Inr (pk (take 13 d @ addr_bytes a) fl m p r)"
proof -
  have b: "\<not> k > blen (pk d fl m p r)" if "k \<le> 28" for k
    using that pk_sizes(5) [OF assms, of fl] assms by (cases p) (auto simp: word_less_nat_alt word_le_nat_alt pk_ok_def)
  have c: "28 \<le> bcap (pk d fl m p r)" using pk_sizes(2) [OF assms, of fl] assms by (cases p) (simp_all add: pk_ok_def)
  have l: "length d = 18" using assms by (simp add: pk_ok_def)
  show "length t = 8 \<Longrightarrow> pkt_store (pk d fl m p r) 0 t = Inr (pk (t @ drop 8 d) fl m p r)"
    "setDestination a (pk d fl m p r) = Inr (pk (take 8 d @ addr_bytes a @ drop 13 d) fl m p r)"
    "setSource a (pk d fl m p r) = Inr (pk (take 13 d @ addr_bytes a) fl m p r)"
    using b [of 8] b [of 13] b [of 18] c l
    by (simp_all add: setDestination_def setSource_def pkt_store_def buf_field_def buf_poke_def)
      (simp_all add: pk_def mem_write_def)
qed

text \<open>
  A new packet's header says what it was built with. Whatever the buffer held before,
  reset leaves a packet of exactly the header's length with the given destination, source and
  verb, no hops, no cipher suite, neither fragmented nor armored nor compressed, and its random
  id; the header accessors read these values back.
\<close>

lemma pkt_reset_header:
  assumes "small b" "28 \<le> bcap b" "length rnd = 8" "addr_ok dest" "addr_ok source"
  shows "\<exists>b'. pkt_reset rnd dest source v b = Inr b' \<and> bsize b' = 28 \<and> take 8 (bdata b') = rnd \<and>
    pkt_destination b' = Inr dest \<and> pkt_source b' = Inr source \<and> pkt_verb b' = Inr (verb_code v) \<and>
    pkt_hops b' = Inr 0 \<and> pkt_cipher b' = Inr 0 \<and> isEncrypted b' = Inr False \<and> pkt_fragmented b' = Inr False \<and>
    extendedArmor b' = Inr False \<and> pkt_compressed b' = Inr False \<and> payloadLength b' = 0"
proof -
  have "\<not> (28 :: u32) > bcap32 b"
    using assms(2) smallD(2) [OF assms(1)] by (simp add: word_less_nat_alt bcap32_def unat_of_nat_u32)
  then have s0: "buf_setSize 28 b = Inr (b\<lparr>blen := 28\<rparr>)" by (simp add: buf_setSize_def)
  have "small (b\<lparr>blen := 28\<rparr>)" "28 \<le> bsize (b\<lparr>blen := 28\<rparr>)"
    using assms(1,2) by (simp_all add: small_def buf_ok_def)
  then obtain d fl m p r where b: "b\<lparr>blen := 28\<rparr> = pk d fl m p r" "pk_ok d m p r" by (rule pk_exists)
  have "27 + length p = 28" using arg_cong [OF b(1), of bsize] pk_sizes(1) [OF b(2), of fl] by simp
  then obtain v0 where p: "p = [v0]" by (cases p) auto
  note ok = b(2) [unfolded p] and b1 = b(1) [unfolded p]
  let ?d = "rnd @ addr_bytes dest @ addr_bytes source"
  have l: "length d = 18" using ok by (simp add: pk_ok_def)
  have ok1: "pk_ok (rnd @ drop 8 d) m [v0] r" "pk_ok (rnd @ addr_bytes dest @ drop 13 d) m [v0] r"
    "pk_ok ?d m [v0] r" "pk_ok ?d m [verb_code v] r"
    using ok assms(3) by (simp_all add: pk_ok_def)
  have "pkt_reset rnd dest source v b = Inr (pk ?d 0 m [verb_code v] r)"
    using assms(3) l
    by (simp add: pkt_reset_def s0 b1 pk_store(1) [OF ok] pk_store(2) [OF ok1(1)] pk_store(3) [OF ok1(2)]
        pk_put(1) [OF ok1(3)] setVerb_def pk_put(2) [OF ok1(3)])
  moreover have "pkt_verb (pk ?d 0 m [verb_code v] r) = Inr (verb_code v)"
    "pkt_compressed (pk ?d 0 m [verb_code v] r) = Inr False"
  proof -
    have "verb_code v AND 0x1f = verb_code v" "verb_code v AND 0x80 = 0" by (cases v; simp)+
    moreover have "buf_get (pk ?d 0 m [verb_code v] r) 27 = Inr (verb_code v)"
      using pk_lt [OF ok1(4), of 27 0] ok1(4)
      by (simp add: buf_get_def) (simp add: pk_def pk_ok_def nth_append nth_Cons')
    ultimately show "pkt_verb (pk ?d 0 m [verb_code v] r) = Inr (verb_code v)"
      "pkt_compressed (pk ?d 0 m [verb_code v] r) = Inr False"
      by (simp_all add: pkt_verb_def pkt_compressed_def)
  qed
  moreover have "payloadLength (pk ?d 0 m [verb_code v] r) = 0" by (simp add: payloadLength_def pk_def)
  ultimately show ?thesis
    using assms(3,4,5) pk_sizes(1) [OF ok1(4), of 0]
    by (simp add: addr_read_pk [OF ok1(4)] flags_pk [OF ok1(4)] isEncrypted_def pkt_fragmented_def
        pk_mod18(2) [OF ok1(4)] bdata_pk [OF ok1(4)])
qed

lemma pkt_reset_header_witness:
  "\<exists>b'. pkt_reset (replicate 8 0xaa) (Address 0x1122334455) (Address 0x66778899aa) VERB_FRAME demo_zeros = Inr b' \<and>
    bsize b' = 28 \<and> pkt_destination b' = Inr (Address 0x1122334455) \<and> pkt_source b' = Inr (Address 0x66778899aa) \<and>
    pkt_verb b' = Inr 6 \<and> pkt_hops b' = Inr 0"
proof -
  have "small demo_zeros" "28 \<le> bcap demo_zeros" "length (replicate 8 (0xaa :: u8)) = 8"
    "addr_ok (Address 0x1122334455)" "addr_ok (Address 0x66778899aa)"
    by (simp_all add: demo_zeros_def small_def buf_ok_def bcap_def bsize_def addr_ok_def)
  from pkt_reset_header [OF this, of VERB_FRAME] show ?thesis by auto
qed

end
