(* ===== verification/ZT_Switch.thy ===== *)
theory ZT_Switch
  imports ZT_Packet
begin

text \<open>
  \<^verbatim>\<open>node/Switch.cpp\<close> and \<^verbatim>\<open>Switch.hpp\<close>: sending a packet in pieces that fit the path's MTU, and
  receiving pieces from the network. The receive queue is a ring of 32 slots; a slot collects the
  head and the fragments of one packet in whatever order they come. Frames for other nodes are
  relayed. What the rest of the node answers (peers and paths at hand, the decoder's verdict) is
  the environment record; what the switch does is the list of its outputs.
\<close>

section \<open>Sending\<close>

text \<open>
  \<open>chunk\<close> is the size of the head. The fragment loop counts \<open>fno\<close> up to \<open>tot\<close>; a fragment is
  built in a buffer of a packet's capacity.
\<close>

definition new_buffer :: "zbuf" where
  "new_buffer = buf_new (replicate 10024 0)"

function frag_loop :: "zbuf \<Rightarrow> u32 \<Rightarrow> u32 \<Rightarrow> u32 \<Rightarrow> u32 \<Rightarrow> u32 \<Rightarrow> u8 list list res" where
  "frag_loop p mtu fragStart remaining fno tot =
     (if fno < tot then
        let chunk = min remaining (mtu - 16) in
        bind_res (frag_init new_buffer p fragStart chunk fno tot) (\<lambda>f.
        bind_res (frag_loop p mtu (fragStart + chunk) (remaining - chunk) (fno + 1) tot) (\<lambda>fs.
        Inr (bdata f # fs)))
      else Inr [])"
  by pat_completeness auto
termination
proof (relation "measure (\<lambda>(p, mtu, s, r, fno, tot). unat (tot - fno))")
  fix fno tot :: u32 and f r :: u32 and p :: zbuf and mtu chunk x
  assume "fno < tot"
  then show "((p, mtu, f + chunk, r - chunk, fno + 1, tot), p, mtu, f, r, fno, tot)
      \<in> measure (\<lambda>(p, mtu, s, r, fno, tot). unat (tot - fno))"
  proof -
    have lt: "unat fno < unat tot" using \<open>fno < tot\<close> by (simp add: word_less_nat_alt)
    then have "unat (fno + 1) = Suc (unat fno)"
      using unsigned_less [of tot, where 'a = nat] by (simp add: unat_word_ariths)
    then show ?thesis using lt by (simp add: unat_sub_if')
  qed
qed simp

declare frag_loop.simps [simp del]

definition send_frames :: "u32 \<Rightarrow> zbuf \<Rightarrow> u8 list list res" where
  "send_frames mtu p =
     (let chunk = min (blen p) mtu in
      if chunk < blen p then
        let remaining = blen p - chunk;
            per = mtu - 16;
            frags = remaining div per;
            frags = (if frags * per < remaining then frags + 1 else frags)
        in bind_res (frag_loop p mtu chunk remaining 1 (frags + 1)) (\<lambda>fs.
           Inr (take (unat chunk) (bmem p) # fs))
      else Inr [take (unat chunk) (bmem p)])"

text \<open>
  \<open>mtu\<close> and \<open>tpid\<close> are what the topology knows of the path, \<open>user\<close> the path's own setting (0 for
  none), \<open>sent\<close> whether the path took the head; \<open>arm\<close> is \<open>armor\<close> with the peer's key.
\<close>

definition sendViaSpecificPath ::
  "u32 \<Rightarrow> u16 \<Rightarrow> u64 \<Rightarrow> bool \<Rightarrow> (zbuf \<Rightarrow> zbuf res) \<Rightarrow> zbuf \<Rightarrow> (zbuf \<times> u8 list list) res" where
  "sendViaSpecificPath mtu user tpid sent arm p =
     (let mtu = (if user > 0 then ucast user else mtu) in
      bind_res (setFragmented (min (blen p) mtu < blen p) p) (\<lambda>p.
      bind_res (if tpid \<noteq> 0 then setTrusted tpid p
                else bind_res (isEncrypted p) (\<lambda>e. if e then Inr p else arm p)) (\<lambda>p.
      bind_res (send_frames mtu p) (\<lambda>fs. Inr (p, if sent then fs else take 1 fs)))))"

section \<open>The receive queue\<close>

text \<open>A slot is in use when its timestamp is not zero.\<close>

record rxentry =
  rts :: u64
  rid :: u64
  rfrag0 :: zbuf
  rfrags :: "zbuf list"
  rtotal :: u32
  rhave :: u32
  rcomplete :: bool

record rxqueue =
  rslots :: "rxentry list"
  rptr :: u32

definition slot_of :: "u32 \<Rightarrow> nat" where
  "slot_of i = unat (i mod 32)"

definition findRXQueueEntry :: "u64 \<Rightarrow> rxqueue \<Rightarrow> nat \<times> rxqueue" where
  "findRXQueueEntry pid q =
     (case find (\<lambda>k. rid (rslots q ! slot_of (rptr q - of_nat k)) = pid \<and>
                     rts (rslots q ! slot_of (rptr q - of_nat k)) \<noteq> 0) [1..<33] of
        Some k \<Rightarrow> (slot_of (rptr q - of_nat k), q)
      | None \<Rightarrow> (slot_of (rptr q), q\<lparr>rptr := rptr q + 1\<rparr>))"

definition nextRXQueueEntry :: "rxqueue \<Rightarrow> nat \<times> rxqueue" where
  "nextRXQueueEntry q = (slot_of (rptr q), q\<lparr>rptr := rptr q + 1\<rparr>)"

text \<open>
  \<open>dec\<close> is \<open>tryDecode\<close>: whether processing is complete, and the packet as it left it. Appending
  the fragments can throw; the handler swallows the exception, the slot stays as far as it got.
\<close>

fun append_frags :: "zbuf \<Rightarrow> zbuf list \<Rightarrow> bool \<times> zbuf" where
  "append_frags b [] = (True, b)"
| "append_frags b (f # fs) =
     (case bind_res (frag_payload f) (\<lambda>off.
           buf_append_bytes (drop off (bmem f)) (frag_payloadLength f) b) of
        Inl _ \<Rightarrow> (False, b)
      | Inr b' \<Rightarrow> append_frags b' fs)"

definition rx_assemble :: "(zbuf \<Rightarrow> bool \<times> zbuf) \<Rightarrow> u32 \<Rightarrow> rxentry \<Rightarrow> rxentry \<times> zbuf list" where
  "rx_assemble dec tot e =
     (case append_frags (rfrag0 e) (take (unat tot - 1) (rfrags e)) of
        (False, b) \<Rightarrow> (e\<lparr>rfrag0 := b\<rparr>, [])
      | (True, b) \<Rightarrow>
          (case dec b of
             (True, b') \<Rightarrow> (e\<lparr>rfrag0 := b', rts := 0\<rparr>, [b])
           | (False, b') \<Rightarrow> (e\<lparr>rfrag0 := b', rcomplete := True\<rparr>, [b])))"

definition rx_fragment ::
  "(zbuf \<Rightarrow> bool \<times> zbuf) \<Rightarrow> u64 \<Rightarrow> u64 \<Rightarrow> u32 \<Rightarrow> u32 \<Rightarrow> zbuf \<Rightarrow> rxentry \<Rightarrow> rxentry \<times> zbuf list" where
  "rx_fragment dec now pid no tot f e =
     (if rid e \<noteq> pid then
        (e\<lparr>rts := now, rid := pid, rfrags := (rfrags e)[unat no - 1 := f], rtotal := tot,
           rhave := push_bit (unat no) 1, rcomplete := False\<rparr>, [])
      else if rhave e AND push_bit (unat no) 1 = 0 then
        (let e = e\<lparr>rfrags := (rfrags e)[unat no - 1 := f], rtotal := tot,
                   rhave := rhave e OR push_bit (unat no) 1\<rparr>
         in if countBits (rhave e) = tot then rx_assemble dec tot e else (e, []))
      else (e, []))"

text \<open>\<open>frag0.init\<close> copies the frame and throws when it exceeds the packet's capacity.\<close>

definition rx_head :: "(zbuf \<Rightarrow> bool \<times> zbuf) \<Rightarrow> u64 \<Rightarrow> u64 \<Rightarrow> u8 list \<Rightarrow> rxentry \<Rightarrow> rxentry \<times> zbuf list" where
  "rx_head dec now pid frame e =
     (let init = (\<lambda>e. buf_copyFrom (rfrag0 e) frame (of_nat (length frame))) in
      if rid e \<noteq> pid then
        (let e = e\<lparr>rts := now, rid := pid\<rparr> in
         case init e of
           Inl _ \<Rightarrow> (e, [])
         | Inr b \<Rightarrow> (e\<lparr>rfrag0 := b, rtotal := 0, rhave := 1, rcomplete := False\<rparr>, []))
      else if rhave e AND 1 = 0 then
        (let e' = (if rtotal e > 1 then e\<lparr>rhave := rhave e OR 1\<rparr> else e) in
         case init e' of
           Inl _ \<Rightarrow> (e', [])
         | Inr b \<Rightarrow>
             (let e'' = e'\<lparr>rfrag0 := b\<rparr> in
              if rtotal e > 1 \<and> countBits (rhave e') = rtotal e then rx_assemble dec (rtotal e) e''
              else (e'', [])))
      else (e, []))"

section \<open>Frames from the network\<close>

text \<open>
  \<open>ev_direct a\<close>: a peer with address \<open>a\<close> is known and took the frame over a path of its own;
  \<open>ev_upstream\<close> is the upstream peer's address, if there is one, and \<open>ev_up_sent\<close> whether it took
  the frame; \<open>ev_known\<close> whether a peer is known.
\<close>

record rx_env =
  ev_self :: address
  ev_now :: u64
  ev_amUpstream :: bool
  ev_trusted :: bool
  ev_direct :: "address \<Rightarrow> bool"
  ev_known :: "address \<Rightarrow> bool"
  ev_upstream :: "address option"
  ev_up_sent :: bool
  ev_decode :: "zbuf \<Rightarrow> bool \<times> zbuf"

datatype sw_out =
    Decode zbuf
  | SendTo address "u8 list"
  | Introduce address address

record switch =
  sw_rx :: rxqueue
  sw_unite :: "u64 \<times> u64 \<Rightarrow> u64"

text \<open>The key of a pair of addresses is sorted, and an absent entry of the table is a zero time.\<close>

definition lastUniteKey :: "address \<Rightarrow> address \<Rightarrow> u64 \<times> u64" where
  "lastUniteKey a1 a2 =
     (if addr_int a1 > addr_int a2 then (addr_int a2, addr_int a1) else (addr_int a1, addr_int a2))"

definition shouldUnite :: "u64 \<Rightarrow> address \<Rightarrow> address \<Rightarrow> switch \<Rightarrow> bool \<times> switch" where
  "shouldUnite now source destination sw =
     (let k = lastUniteKey source destination in
      if now - sw_unite sw k \<ge> 30000 then (True, sw\<lparr>sw_unite := (sw_unite sw)(k := now)\<rparr>) else (False, sw))"

definition on_slot :: "(rxentry \<Rightarrow> rxentry \<times> zbuf list) \<Rightarrow> nat \<times> rxqueue \<Rightarrow> switch \<Rightarrow> switch \<times> sw_out list" where
  "on_slot f r sw =
     (case r of (i, q) \<Rightarrow> case f (rslots q ! i) of (e, ds) \<Rightarrow>
        (sw\<lparr>sw_rx := q\<lparr>rslots := (rslots q)[i := e]\<rparr>\<rparr>, map Decode ds))"

definition relay_fragment :: "rx_env \<Rightarrow> address \<Rightarrow> zbuf \<Rightarrow> sw_out list res" where
  "relay_fragment ev dest f =
     (if \<not> ev_amUpstream ev \<and> \<not> ev_trusted ev then Inr []
      else bind_res (frag_hops f) (\<lambda>h.
        if h < 3 then
          bind_res (frag_incrementHops f) (\<lambda>f.
          if ev_direct ev dest then Inr [SendTo dest (bdata f)]
          else case ev_upstream ev of
            Some u \<Rightarrow> Inr (if ev_up_sent ev then [SendTo u (bdata f)] else [])
          | None \<Rightarrow> Inr [])
        else Inr []))"

definition receive_fragment :: "rx_env \<Rightarrow> zbuf \<Rightarrow> switch \<Rightarrow> (switch \<times> sw_out list) res" where
  "receive_fragment ev f sw =
     bind_res (frag_packetId f) (\<lambda>pid.
     bind_res (fragmentNumber f) (\<lambda>no.
     bind_res (totalFragments f) (\<lambda>tot.
     if tot \<le> 7 \<and> no < 7 \<and> no > 0 \<and> tot > 1 then
       Inr (on_slot (rx_fragment (ev_decode ev) (ev_now ev) pid no tot f) (findRXQueueEntry pid (sw_rx sw)) sw)
     else Inr (sw, []))))"

definition on_fragment :: "rx_env \<Rightarrow> u8 list \<Rightarrow> switch \<Rightarrow> (switch \<times> sw_out list) res" where
  "on_fragment ev frame sw =
     bind_res (buf_copyFrom new_buffer frame (of_nat (length frame))) (\<lambda>f.
     bind_res (frag_destination f) (\<lambda>dest.
     if dest \<noteq> ev_self ev then bind_res (relay_fragment ev dest f) (\<lambda>os. Inr (sw, os))
     else receive_fragment ev f sw))"

definition relay_head :: "rx_env \<Rightarrow> address \<Rightarrow> address \<Rightarrow> u8 list \<Rightarrow> switch \<Rightarrow> (switch \<times> sw_out list) res" where
  "relay_head ev source dest frame sw =
     (if \<not> ev_amUpstream ev \<and> \<not> ev_trusted ev \<and> source \<noteq> ev_self ev then Inr (sw, [])
      else bind_res (buf_copyFrom new_buffer frame (of_nat (length frame))) (\<lambda>p.
        bind_res (pkt_hops p) (\<lambda>h.
        if h < 3 then
          bind_res (incrementHops p) (\<lambda>p.
          if ev_direct ev dest then
            (case (if source \<noteq> ev_self ev then shouldUnite (ev_now ev) source dest sw else (False, sw)) of
               (unite, sw) \<Rightarrow>
                 Inr (sw, SendTo dest (bdata p) #
                   (if unite \<and> ev_known ev source then [Introduce dest source] else [])))
          else case ev_upstream ev of
            Some u \<Rightarrow>
              Inr (sw, if u \<noteq> source \<and> ev_up_sent ev
                then SendTo u (bdata p) # (if ev_known ev source then [Introduce u source] else []) else [])
          | None \<Rightarrow> Inr (sw, []))
        else Inr (sw, []))))"

definition frame_id :: "u8 list \<Rightarrow> u64" where
  "frame_id frame =
     push_bit 56 (ucast (frame ! 0)) OR push_bit 48 (ucast (frame ! 1)) OR push_bit 40 (ucast (frame ! 2))
     OR push_bit 32 (ucast (frame ! 3)) OR push_bit 24 (ucast (frame ! 4)) OR push_bit 16 (ucast (frame ! 5))
     OR push_bit 8 (ucast (frame ! 6)) OR ucast (frame ! 7)"

definition rx_whole :: "rx_env \<Rightarrow> u8 list \<Rightarrow> switch \<Rightarrow> (switch \<times> sw_out list) res" where
  "rx_whole ev frame sw =
     bind_res (buf_copyFrom new_buffer frame (of_nat (length frame))) (\<lambda>p.
     case ev_decode ev p of
       (True, _) \<Rightarrow> Inr (sw, [Decode p])
     | (False, p') \<Rightarrow>
         bind_res (packetId p') (\<lambda>pid.
         case on_slot (\<lambda>e. (e\<lparr>rts := ev_now ev, rid := pid, rfrag0 := p', rtotal := 1, rhave := 1, rcomplete := True\<rparr>, []))
                (nextRXQueueEntry (sw_rx sw)) sw of
           (sw, _) \<Rightarrow> Inr (sw, [Decode p])))"

definition on_head :: "rx_env \<Rightarrow> u8 list \<Rightarrow> switch \<Rightarrow> (switch \<times> sw_out list) res" where
  "on_head ev frame sw =
     (let dest = addr_setTo (drop 8 frame) 5; source = addr_setTo (drop 13 frame) 5 in
      if source = ev_self ev then Inr (sw, [])
      else if dest \<noteq> ev_self ev then relay_head ev source dest frame sw
      else if frame ! 18 AND 0x40 \<noteq> 0 then
        Inr (on_slot (rx_head (ev_decode ev) (ev_now ev) (frame_id frame) frame) (findRXQueueEntry (frame_id frame) (sw_rx sw)) sw)
      else rx_whole ev frame sw)"

text \<open>An exception leaves the state as it is and produces no output.\<close>

definition onRemotePacket :: "rx_env \<Rightarrow> u8 list \<Rightarrow> switch \<Rightarrow> switch \<times> sw_out list" where
  "onRemotePacket ev frame sw =
     (case (if length frame > 16 then
              if frame ! 13 = 0xff then on_fragment ev frame sw
              else if length frame \<ge> 28 then on_head ev frame sw else Inr (sw, [])
            else Inr (sw, [])) of
        Inl _ \<Rightarrow> (sw, [])
      | Inr r \<Rightarrow> r)"

section \<open>Words of the queue\<close>

lemma slot_of_nat: "slot_of i = unat i mod 32"
  by (simp add: slot_of_def unat_mod_distrib)

lemma slot_of_less: "slot_of i < 32"
  by (simp add: slot_of_nat)

lemma slot_of_int: "int (slot_of i) = uint i mod 32"
  by (simp add: slot_of_nat zmod_int)

lemma slot_back:
  assumes "i < 32"
  obtains k where "k \<in> {1..<33}" "slot_of (p - of_nat k) = i"
proof -
  define k where "k = (if i < slot_of p then slot_of p - i else slot_of p + 32 - i)"
  have s: "slot_of p < 32" by (rule slot_of_less)
  have k: "k \<in> {1..<33}" using assms s by (auto simp: k_def)
  have "uint (p - of_nat k) mod 32 = (uint p - int k) mod 32"
  proof -
    have "uint (of_nat k :: u32) = int k" using k by (simp add: unsigned_of_nat take_bit_nat_eq_self)
    then have "uint (p - of_nat k) = (uint p - int k) mod 2 ^ 32" by (simp add: uint_word_ariths)
    then show ?thesis by (simp add: mod_mod_cancel)
  qed
  also have "\<dots> = (int (slot_of p) - int k) mod 32" by (simp add: slot_of_int mod_diff_left_eq)
  also have "\<dots> = int i"
  proof (cases "i < slot_of p")
    case True
    then show ?thesis using assms by (simp add: k_def of_nat_diff)
  next
    case False
    then have "int (slot_of p) - int k = int i + (-1) * 32" using assms s by (simp add: k_def of_nat_diff)
    then show ?thesis using assms by (simp only: mod_mult_self1) simp
  qed
  finally have "slot_of (p - of_nat k) = i" by (simp add: slot_of_int [symmetric])
  then show ?thesis using k by (rule that [rotated])
qed

text \<open>Looking up a packet that one slot holds, and one that no slot mentions.\<close>

lemma find_hit:
  assumes "i < 32" "rid (rslots q ! i) = pid" "rts (rslots q ! i) \<noteq> 0" "\<And>j. j < 32 \<Longrightarrow> j \<noteq> i \<Longrightarrow> rid (rslots q ! j) \<noteq> pid"
  shows "findRXQueueEntry pid q = (i, q)"
proof -
  let ?P = "\<lambda>k. rid (rslots q ! slot_of (rptr q - of_nat k)) = pid \<and> rts (rslots q ! slot_of (rptr q - of_nat k)) \<noteq> 0"
  obtain k where k: "k \<in> {1..<33}" "slot_of (rptr q - of_nat k) = i" by (rule slot_back [OF assms(1)])
  then have "find ?P [1..<33] \<noteq> None" using assms(2,3) by (auto simp: find_None_iff)
  then obtain k' where k': "find ?P [1..<33] = Some k'" by blast
  then have "?P k'" by (auto simp: find_Some_iff)
  then have "slot_of (rptr q - of_nat k') = i" using assms(4) [OF slot_of_less] by blast
  then show ?thesis using k' by (simp add: findRXQueueEntry_def)
qed

lemma find_miss:
  assumes "\<And>j. j < 32 \<Longrightarrow> rid (rslots q ! j) \<noteq> pid"
  shows "findRXQueueEntry pid q = (slot_of (rptr q), q\<lparr>rptr := rptr q + 1\<rparr>)"
proof -
  have "find (\<lambda>k. rid (rslots q ! slot_of (rptr q - of_nat k)) = pid \<and>
      rts (rslots q ! slot_of (rptr q - of_nat k)) \<noteq> 0) [1..<33] = None"
    using assms [OF slot_of_less] by (auto simp: find_None_iff)
  then show ?thesis by (simp add: findRXQueueEntry_def)
qed

text \<open>Whatever is looked up, the slot is in the ring, the slots stay, the pointer moves by at most one.\<close>

lemma find_any:
  obtains i d where "findRXQueueEntry pid q = (i, q\<lparr>rptr := rptr q + of_nat d\<rparr>)" "i < 32" "d \<le> 1"
    "rid (rslots q ! i) = pid \<or> (d = 1 \<and> i = slot_of (rptr q))"
proof (cases "find (\<lambda>k. rid (rslots q ! slot_of (rptr q - of_nat k)) = pid \<and>
      rts (rslots q ! slot_of (rptr q - of_nat k)) \<noteq> 0) [1..<33]")
  case None
  then show ?thesis by (intro that [of "slot_of (rptr q)" 1]) (simp_all add: findRXQueueEntry_def slot_of_less)
next
  case (Some k)
  then have "rid (rslots q ! slot_of (rptr q - of_nat k)) = pid" by (auto simp: find_Some_iff)
  then show ?thesis using Some by (intro that [of "slot_of (rptr q - of_nat k)" 0]) (simp_all add: findRXQueueEntry_def slot_of_less)
qed

section \<open>Frames as buffers\<close>

definition pbuf_ok :: "zbuf \<Rightarrow> bool" where
  "pbuf_ok b \<longleftrightarrow> small b \<and> bcap b = 10024"

lemma new_buffer_ok: "pbuf_ok new_buffer"
  by (simp add: pbuf_ok_def new_buffer_def buf_new_def small_def buf_ok_def bcap_def bsize_def)

lemma copy_frame:
  assumes "pbuf_ok b"
  shows "length frame \<le> 10024 \<Longrightarrow> \<exists>b'. buf_copyFrom b frame (of_nat (length frame)) = Inr b' \<and> pbuf_ok b' \<and> bdata b' = frame"
proof -
  assume l: "length frame \<le> 10024"
  have u: "unat (of_nat (length frame) :: u32) = length frame" using l by (simp add: unat_of_nat_u32)
  have c: "length (bmem b) = 10024" using assms by (simp add: pbuf_ok_def bcap_def)
  have n: "\<not> of_nat (length frame) > bcap32 b"
    using l u c by (simp add: word_less_nat_alt bcap32_def bcap_def)
  let ?b = "b\<lparr>bmem := mem_write (bmem b) 0 frame, blen := of_nat (length frame)\<rparr>"
  have "buf_copyFrom b frame (of_nat (length frame)) = Inr ?b" using n u by (simp add: buf_copyFrom_def)
  moreover have "pbuf_ok ?b"
    using l c u by (simp add: pbuf_ok_def small_def buf_ok_def bcap_def bsize_def)
  moreover have "bdata ?b = frame" using l c u by (simp add: bdata_def bsize_def mem_write_def)
  ultimately show ?thesis by blast
qed

text \<open>Reading through the data of a buffer.\<close>

lemma get_bdata:
  assumes "pbuf_ok b" "i < length (bdata b)" "i < 2 ^ 31"
  shows "buf_get b (of_nat i) = Inr (bdata b ! i)"
proof -
  have s: "length (bdata b) = bsize b" using assms(1) by (simp add: pbuf_ok_def)
  have u: "unat (of_nat i :: u32) = i" using assms(3) by (rule unat_of_nat_u32)
  have "\<not> of_nat i \<ge> blen b" using assms(2) s u by (simp add: word_le_nat_alt bsize_def)
  then show ?thesis using assms(2) s u by (simp add: buf_get_def bdata_def)
qed

lemma at8_bdata:
  assumes "pbuf_ok b" "8 \<le> length (bdata b)"
  shows "buf_at 8 b 0 = Inr (be_val (take 8 (bdata b)))"
proof -
  have s: "length (bdata b) = bsize b" using assms(1) by (simp add: pbuf_ok_def)
  then show ?thesis using assms(2) by (simp add: buf_at_def bdata_def)
qed

lemma addr_bdata:
  assumes "pbuf_ok b" "13 \<le> length (bdata b)"
  shows "addr_read b 8 = Inr (addr_setTo (drop 8 (bdata b)) 5)"
proof -
  have s: "length (bdata b) = bsize b" using assms(1) by (simp add: pbuf_ok_def)
  have c: "bcap b = 10024" using assms(1) by (simp add: pbuf_ok_def)
  have "take 5 (drop 8 (bmem b)) = take 5 (drop 8 (bdata b))"
    using assms(2) s by (simp add: bdata_def drop_take min_def)
  moreover have "addr_setTo (take 5 xs) 5 = addr_setTo xs 5" for xs :: "u8 list"
    by (simp add: addr_setTo_def)
  moreover have "\<not> (13 :: u32) > blen b" using assms(2) s by (simp add: word_less_nat_alt bsize_def)
  ultimately show ?thesis
    using c by (simp add: addr_read_def buf_bytes_def buf_field_def buf_read_def)
qed

lemma frame_id_take:
  assumes "8 \<le> length frame" shows "frame_id frame = be_val (take 8 frame)"
proof -
  obtain a b c d e f g h r where "frame = a # b # c # d # e # f # g # h # r"
    using assms by (auto simp: numeral_eq_Suc Suc_le_length_iff)
  then show ?thesis by (simp add: frame_id_def be_val_def push_bit_or or.assoc)
qed

section \<open>One slot\<close>

lemma append_frag:
  assumes "pbuf_ok b" "pbuf_ok f" "16 < length (bdata f)" "length (bdata b) + (length (bdata f) - 16) \<le> 10024"
  obtains b' where "bind_res (frag_payload f) (\<lambda>off. buf_append_bytes (drop off (bmem f)) (frag_payloadLength f) b) = Inr b'"
    "pbuf_ok b'" "bdata b' = bdata b @ drop 16 (bdata f)"
proof -
  have l: "length (bdata f) = bsize f" "length (bdata b) = bsize b" using assms(1,2) by (simp_all add: pbuf_ok_def)
  have le: "bsize f \<le> 10024" "bcap f = 10024" using assms(2) by (auto simp: pbuf_ok_def dest: smallD(3))
  have big: "blen f > 16" using assms(3) l by (simp add: word_less_nat_alt bsize_def)
  then have n: "unat (blen f - 16) = bsize f - 16" by (simp add: unat_sub_if' word_less_nat_alt bsize_def)
  have pay: "take (unat (blen f - 16)) (drop 16 (bmem f)) = drop 16 (bdata f)"
    unfolding n by (simp add: bdata_def drop_take)
  have "frag_payload f = Inr 16" by (simp add: frag_payload_def buf_field_def)
  moreover have "frag_payloadLength f = blen f - 16" using big by (simp add: frag_payloadLength_def)
  moreover have "buf_append_bytes (drop 16 (bmem f)) (blen f - 16) b = buf_append_bytes (drop 16 (bdata f)) (blen f - 16) b"
    unfolding pay [symmetric] by (simp add: buf_append_bytes_def)
  moreover have "appends (buf_append_bytes (drop 16 (bdata f)) (blen f - 16)) (drop 16 (bdata f))"
    by (rule appends_bytes) (use n l le in simp_all)
  then obtain b' where "buf_append_bytes (drop 16 (bdata f)) (blen f - 16) b = Inr b'" "grown b (drop 16 (bdata f)) b'"
    using assms(1,4) l by (auto simp: appends_def pbuf_ok_def fits_def split: if_splits)
  ultimately show ?thesis using assms(1) by (intro that [of b']) (auto simp: grown_def pbuf_ok_def)
qed

lemma append_frags_spec:
  assumes "pbuf_ok b" "\<And>f. f \<in> set fs \<Longrightarrow> pbuf_ok f \<and> 16 < length (bdata f)"
    "length (bdata b) + length (concat (map (\<lambda>f. drop 16 (bdata f)) fs)) \<le> 10024"
  shows "\<exists>b'. append_frags b fs = (True, b') \<and> pbuf_ok b' \<and>
    bdata b' = bdata b @ concat (map (\<lambda>f. drop 16 (bdata f)) fs)"
  using assms
proof (induction fs arbitrary: b)
  case (Cons f fs)
  have "pbuf_ok f" "16 < length (bdata f)" "length (bdata b) + (length (bdata f) - 16) \<le> 10024"
    using Cons.prems by simp_all
  from append_frag [OF Cons.prems(1) this] obtain b1 where
    b1: "bind_res (frag_payload f) (\<lambda>off. buf_append_bytes (drop off (bmem f)) (frag_payloadLength f) b) = Inr b1"
    "pbuf_ok b1" "bdata b1 = bdata b @ drop 16 (bdata f)" .
  have "\<exists>b'. append_frags b1 fs = (True, b') \<and> pbuf_ok b' \<and>
      bdata b' = bdata b1 @ concat (map (\<lambda>f. drop 16 (bdata f)) fs)"
    using Cons.prems b1 by (intro Cons.IH) simp_all
  then show ?case using b1 by auto
qed simp

text \<open>The pieces of one packet, by number: 0 is the head, 1 to \<open>k\<close> are the fragments.\<close>

definition whole :: "nat \<Rightarrow> (nat \<Rightarrow> u8 list) \<Rightarrow> u8 list" where
  "whole k fr = fr 0 @ concat (map (\<lambda>i. drop 16 (fr i)) [1..<Suc k])"

definition pieces_ok :: "address \<Rightarrow> u64 \<Rightarrow> nat \<Rightarrow> (nat \<Rightarrow> u8 list) \<Rightarrow> bool" where
  "pieces_ok self pid k fr \<longleftrightarrow> 1 \<le> k \<and> k \<le> 6 \<and> length (whole k fr) \<le> 10024 \<and>
     28 \<le> length (fr 0) \<and> fr 0 ! 13 \<noteq> 0xff \<and> fr 0 ! 18 AND 0x40 \<noteq> 0 \<and>
     addr_setTo (drop 13 (fr 0)) 5 \<noteq> self \<and>
     (\<forall>i\<le>k. be_val (take 8 (fr i)) = pid \<and> addr_setTo (drop 8 (fr i)) 5 = self) \<and>
     (\<forall>i\<in>{1..k}. 16 < length (fr i) \<and> length (fr i) \<le> 10024 \<and> fr i ! 13 = 0xff \<and>
        fr i ! 14 = of_nat (16 * Suc k + i))"

text \<open>A slot that has the pieces \<open>S\<close> of the packet and is still waiting.\<close>

definition slot_ok :: "u64 \<Rightarrow> nat \<Rightarrow> (nat \<Rightarrow> u8 list) \<Rightarrow> nat set \<Rightarrow> rxentry \<Rightarrow> bool" where
  "slot_ok pid k fr S e \<longleftrightarrow> rid e = pid \<and> rts e \<noteq> 0 \<and> S \<subseteq> {0..k} \<and> S \<noteq> {} \<and> S \<noteq> {0..k} \<and>
     rhave e < 128 \<and> (\<forall>i<7. bit (rhave e) i \<longleftrightarrow> i \<in> S) \<and> length (rfrags e) = 6 \<and> pbuf_ok (rfrag0 e) \<and>
     (0 \<in> S \<longrightarrow> bdata (rfrag0 e) = fr 0) \<and>
     (\<forall>i\<in>S. 0 < i \<longrightarrow> pbuf_ok (rfrags e ! (i - 1)) \<and> bdata (rfrags e ! (i - 1)) = fr i) \<and>
     rtotal e = (if S = {0} then 0 else of_nat (Suc k))"

lemma of_nat_inj32: "a < 2 ^ 31 \<Longrightarrow> b < 2 ^ 31 \<Longrightarrow> (of_nat a :: u32) = of_nat b \<longleftrightarrow> a = b"
  by (metis unat_of_nat_u32)

lemma have_card:
  assumes "v < 128" "\<And>i. i < 7 \<Longrightarrow> bit v i \<longleftrightarrow> i \<in> S" "S \<subseteq> {0..k}" "k \<le> 6"
  shows "countBits v = of_nat (Suc k) \<longleftrightarrow> S = {0..k}"
proof -
  have "{i. i < 7 \<and> bit v i} = S" using assms(2,3,4) by force
  then have c: "countBits v = of_nat (card S)" using countBits_small [OF assms(1)] by simp
  have le: "card S \<le> Suc k" using card_mono [OF _ assms(3)] by simp
  have "(of_nat (card S) :: u32) = of_nat (Suc k) \<longleftrightarrow> card S = Suc k"
    using le assms(4) by (intro of_nat_inj32) simp_all
  also have "\<dots> \<longleftrightarrow> S = {0..k}" using card_subset_eq [OF _ assms(3)] by auto
  finally show ?thesis using c by simp
qed

text \<open>The bits of the mask when one more piece is in.\<close>

lemma below_128: "v < 128 \<longleftrightarrow> take_bit 7 v = v" for v :: u32
  by (simp add: word_less_nat_alt word_unat_eq_iff unat_take) (metis mod_less mod_less_divisor zero_less_numeral)

lemma mask_insert:
  fixes v :: u32
  assumes "v < 128" "i < 7"
  shows "(v OR push_bit i 1) < 128" "bit (v OR push_bit i 1) j \<longleftrightarrow> bit v j \<or> j = i"
    "v AND push_bit i 1 = 0 \<longleftrightarrow> \<not> bit v i"
proof -
  have p: "bit (2 ^ i :: u32) j \<longleftrightarrow> j = i" for j using assms(2) by (auto simp: bit_exp_iff)
  show "bit (v OR push_bit i 1) j \<longleftrightarrow> bit v j \<or> j = i" by (simp add: bit_or_iff p)
  have b: "bit v j \<Longrightarrow> j < 7" for j using assms(1) unfolding below_128 by (metis bit_take_bit_iff)
  show "(v OR push_bit i 1) < 128"
    unfolding below_128 using assms(2) by (intro bit_word_eqI) (auto simp: bit_take_bit_iff bit_or_iff p dest: b)
  show "v AND push_bit i 1 = 0 \<longleftrightarrow> \<not> bit v i"
  proof
    assume "v AND push_bit i 1 = 0"
    then have "\<not> bit (v AND push_bit i 1) i" by simp
    then show "\<not> bit v i" by (simp add: bit_and_iff p)
  next
    assume "\<not> bit v i"
    then show "v AND push_bit i 1 = 0" by (intro bit_word_eqI) (auto simp: bit_and_iff p)
  qed
qed

lemma take_shift: "k \<le> length xs \<Longrightarrow> take k xs = map (\<lambda>i. xs ! (i - 1)) [1..<Suc k]"
  by (rule nth_equalityI) (simp_all del: upt_Suc)

lemma assemble_full:
  assumes "pieces_ok self pid k fr" "pbuf_ok (rfrag0 e)" "bdata (rfrag0 e) = fr 0" "length (rfrags e) = 6"
    "\<And>i. i \<in> {1..k} \<Longrightarrow> pbuf_ok (rfrags e ! (i - 1)) \<and> bdata (rfrags e ! (i - 1)) = fr i"
  shows "\<exists>e' b. rx_assemble dec (of_nat (Suc k)) e = (e', [b]) \<and> bdata b = whole k fr \<and> pbuf_ok b"
proof -
  have k: "1 \<le> k" "k \<le> 6" "length (whole k fr) \<le> 10024" and long: "\<And>i. i \<in> {1..k} \<Longrightarrow> 16 < length (fr i)"
    using assms(1) by (auto simp: pieces_ok_def)
  have n: "unat (of_nat (Suc k) :: u32) - 1 = k" using k(2) unat_of_nat_u32 [of "Suc k"] by simp
  define fs where "fs = map (\<lambda>i. rfrags e ! (i - 1)) [1..<Suc k]"
  have fs: "take (unat (of_nat (Suc k) :: u32) - 1) (rfrags e) = fs"
    unfolding n fs_def using k(2) assms(4) by (intro take_shift) simp
  have each: "pbuf_ok f \<and> 16 < length (bdata f)" if f: "f \<in> set fs" for f
  proof -
    obtain i where "f = rfrags e ! (i - 1)" "i \<in> {1..k}"
      using f unfolding fs_def set_map set_upt by fastforce
    then show ?thesis using assms(5) long by auto
  qed
  have cat: "concat (map (\<lambda>f. drop 16 (bdata f)) fs) = concat (map (\<lambda>i. drop 16 (fr i)) [1..<Suc k])"
  proof -
    have "map (\<lambda>f. drop 16 (bdata f)) fs = map (\<lambda>i. drop 16 (fr i)) [1..<Suc k]"
      unfolding fs_def map_map by (rule map_cong [OF refl]) (use assms(5) in auto)
    then show ?thesis by simp
  qed
  have "length (bdata (rfrag0 e)) + length (concat (map (\<lambda>f. drop 16 (bdata f)) fs)) \<le> 10024"
    using k(3) by (simp only: cat assms(3) whole_def length_append)
  from append_frags_spec [OF assms(2) each this] obtain b where
    b: "append_frags (rfrag0 e) fs = (True, b)" "pbuf_ok b" "bdata b = whole k fr"
    unfolding whole_def cat assms(3) by blast
  show ?thesis
    unfolding rx_assemble_def fs b(1) using b(2,3) by (cases "dec b"; cases "fst (dec b)") auto
qed

lemma slot_new_fragment:
  assumes "pieces_ok self pid k fr" "i \<in> {1..k}" "pbuf_ok f" "bdata f = fr i" "now \<noteq> 0"
    "rid e \<noteq> pid" "length (rfrags e) = 6" "pbuf_ok (rfrag0 e)"
  shows "\<exists>e'. rx_fragment dec now pid (of_nat i) (of_nat (Suc k)) f e = (e', []) \<and> slot_ok pid k fr {i} e'"
proof -
  have k: "k \<le> 6" using assms(1) by (simp add: pieces_ok_def)
  have u: "unat (of_nat i :: u32) = i" using assms(2) k by (intro unat_of_nat_u32) simp
  have bits: "bit (2 ^ i :: u32) j \<longleftrightarrow> j = i" for j using assms(2) k by (auto simp: bit_exp_iff)
  have "(2 ^ i :: u32) < 128" using mask_insert(1) [of 0 i] assms(2) k by simp
  then show ?thesis
    using assms k by (auto simp: rx_fragment_def u slot_ok_def bits)
qed

lemma slot_fragment:
  assumes "pieces_ok self pid k fr" "i \<in> {1..k}" "pbuf_ok f" "bdata f = fr i" "slot_ok pid k fr S e"
  shows "i \<in> S \<Longrightarrow> rx_fragment dec now pid (of_nat i) (of_nat (Suc k)) f e = (e, [])"
    "i \<notin> S \<Longrightarrow> insert i S = {0..k} \<Longrightarrow>
      \<exists>e' b. rx_fragment dec now pid (of_nat i) (of_nat (Suc k)) f e = (e', [b]) \<and> bdata b = whole k fr \<and> pbuf_ok b"
    "i \<notin> S \<Longrightarrow> insert i S \<noteq> {0..k} \<Longrightarrow>
      \<exists>e'. rx_fragment dec now pid (of_nat i) (of_nat (Suc k)) f e = (e', []) \<and> slot_ok pid k fr (insert i S) e'"
proof -
  have k: "k \<le> 6" using assms(1) by (simp add: pieces_ok_def)
  have i7: "i < 7" using assms(2) k by simp
  have u: "unat (of_nat i :: u32) = i" using i7 by (intro unat_of_nat_u32) simp
  note s = assms(5) [unfolded slot_ok_def]
  have hb: "rhave e < 128" "\<And>j. j < 7 \<Longrightarrow> bit (rhave e) j \<longleftrightarrow> j \<in> S" using s by auto
  have test: "rhave e AND push_bit i 1 = 0 \<longleftrightarrow> i \<notin> S"
    using mask_insert(3) [OF hb(1) i7] hb(2) [OF i7] by simp
  define e1 where "e1 = e\<lparr>rfrags := (rfrags e)[i - 1 := f], rtotal := of_nat (Suc k), rhave := rhave e OR push_bit i 1\<rparr>"
  have e1h: "rhave e1 < 128" "\<And>j. j < 7 \<Longrightarrow> bit (rhave e1) j \<longleftrightarrow> j \<in> insert i S"
    unfolding e1_def using mask_insert(1,2) [OF hb(1) i7] hb(2) by auto
  have sub: "insert i S \<subseteq> {0..k}" using s assms(2) by auto
  have count: "countBits (rhave e1) = of_nat (Suc k) \<longleftrightarrow> insert i S = {0..k}"
    by (rule have_card [OF e1h sub k])
  have frag: "pbuf_ok (rfrags e1 ! (j - 1)) \<and> bdata (rfrags e1 ! (j - 1)) = fr j" if "j \<in> insert i S" "0 < j" for j
    using that s assms(2,3,4) k sub by (cases "j = i") (auto simp: e1_def nth_list_update)
  have step: "rx_fragment dec now pid (of_nat i) (of_nat (Suc k)) f e =
      (if i \<in> S then (e, []) else if insert i S = {0..k} then rx_assemble dec (of_nat (Suc k)) e1 else (e1, []))"
    unfolding rx_fragment_def u using s test count by (simp add: e1_def Let_def)
  show "i \<in> S \<Longrightarrow> rx_fragment dec now pid (of_nat i) (of_nat (Suc k)) f e = (e, [])"
    unfolding step by simp
  show "\<exists>e' b. rx_fragment dec now pid (of_nat i) (of_nat (Suc k)) f e = (e', [b]) \<and> bdata b = whole k fr \<and> pbuf_ok b"
    if n: "i \<notin> S" and full: "insert i S = {0..k}"
  proof -
    have z: "0 \<in> S" using full assms(2) by (metis atLeastAtMost_iff insertE le0 not_one_le_zero)
    have "rx_fragment dec now pid (of_nat i) (of_nat (Suc k)) f e = rx_assemble dec (of_nat (Suc k)) e1"
      using step n full by simp
    moreover have "\<exists>e' b. rx_assemble dec (of_nat (Suc k)) e1 = (e', [b]) \<and> bdata b = whole k fr \<and> pbuf_ok b"
    proof (rule assemble_full [OF assms(1)])
      show "pbuf_ok (rfrag0 e1)" "bdata (rfrag0 e1) = fr 0" "length (rfrags e1) = 6" using s z by (simp_all add: e1_def)
      fix j assume "j \<in> {1..k}"
      then show "pbuf_ok (rfrags e1 ! (j - 1)) \<and> bdata (rfrags e1 ! (j - 1)) = fr j" using frag [of j] full by auto
    qed
    ultimately show ?thesis by simp
  qed
  show "\<exists>e'. rx_fragment dec now pid (of_nat i) (of_nat (Suc k)) f e = (e', []) \<and> slot_ok pid k fr (insert i S) e'"
    if n: "i \<notin> S" and part: "insert i S \<noteq> {0..k}"
  proof -
    have ne: "insert i S \<noteq> {0}" using assms(2) by auto
    have "slot_ok pid k fr (insert i S) e1"
      unfolding slot_ok_def
    proof (intro conjI)
      show "rtotal e1 = (if insert i S = {0} then 0 else of_nat (Suc k))" unfolding if_not_P [OF ne] by (simp add: e1_def)
      show "\<forall>j\<in>insert i S. 0 < j \<longrightarrow> pbuf_ok (rfrags e1 ! (j - 1)) \<and> bdata (rfrags e1 ! (j - 1)) = fr j"
        using frag by blast
      show "\<forall>j<7. bit (rhave e1) j \<longleftrightarrow> j \<in> insert i S" using e1h(2) by blast
      show "0 \<in> insert i S \<longrightarrow> bdata (rfrag0 e1) = fr 0" using s assms(2) by (auto simp: e1_def)
    qed (use s sub part e1h(1) in \<open>simp_all add: e1_def\<close>)
    then show ?thesis using step n part by simp
  qed
qed

lemma slot_new_head:
  assumes "pieces_ok self pid k fr" "now \<noteq> 0" "rid e \<noteq> pid" "length (rfrags e) = 6" "pbuf_ok (rfrag0 e)"
  shows "\<exists>e'. rx_head dec now pid (fr 0) e = (e', []) \<and> slot_ok pid k fr {0} e'"
proof -
  have "length (fr 0) \<le> 10024" "1 \<le> k" using assms(1) by (auto simp: pieces_ok_def whole_def)
  then obtain b where b: "buf_copyFrom (rfrag0 e) (fr 0) (of_nat (length (fr 0))) = Inr b" "pbuf_ok b" "bdata b = fr 0"
    using copy_frame [OF assms(5)] by blast
  define e1 where "e1 = e\<lparr>rts := now, rid := pid, rfrag0 := b, rtotal := 0, rhave := 1, rcomplete := False\<rparr>"
  have "rx_head dec now pid (fr 0) e = (e1, [])" using assms(3) b(1) by (simp add: rx_head_def Let_def e1_def)
  moreover have "slot_ok pid k fr {0} e1"
    unfolding slot_ok_def
  proof (intro conjI)
    show "{0} \<noteq> {0..k}" using \<open>1 \<le> k\<close> by (metis atLeastAtMost_iff le0 singletonD zero_neq_one)
    show "\<forall>i<7. bit (rhave e1) i \<longleftrightarrow> i \<in> {0}" by (simp add: e1_def bit_1_iff)
  qed (use assms(2,4) b in \<open>simp_all add: e1_def\<close>)
  ultimately show ?thesis by blast
qed

lemma slot_head:
  assumes "pieces_ok self pid k fr" "slot_ok pid k fr S e"
  shows "0 \<in> S \<Longrightarrow> rx_head dec now pid (fr 0) e = (e, [])"
    "0 \<notin> S \<Longrightarrow> insert 0 S = {0..k} \<Longrightarrow> \<exists>e' b. rx_head dec now pid (fr 0) e = (e', [b]) \<and> bdata b = whole k fr \<and> pbuf_ok b"
    "0 \<notin> S \<Longrightarrow> insert 0 S \<noteq> {0..k} \<Longrightarrow> \<exists>e'. rx_head dec now pid (fr 0) e = (e', []) \<and> slot_ok pid k fr (insert 0 S) e'"
proof -
  have k: "k \<le> 6" "1 \<le> k" using assms(1) by (simp_all add: pieces_ok_def)
  note s = assms(2) [unfolded slot_ok_def]
  have hb: "rhave e < 128" "\<And>j. j < 7 \<Longrightarrow> bit (rhave e) j \<longleftrightarrow> j \<in> S" using s by auto
  have p0: "push_bit 0 (1 :: u32) = 1" by simp
  have test: "rhave e AND 1 = 0 \<longleftrightarrow> 0 \<notin> S"
    using mask_insert(3) [OF hb(1), of 0] hb(2) [of 0] by simp
  have "length (fr 0) \<le> 10024" using assms(1) by (auto simp: pieces_ok_def whole_def)
  then obtain b where b: "buf_copyFrom (rfrag0 e) (fr 0) (of_nat (length (fr 0))) = Inr b" "pbuf_ok b" "bdata b = fr 0"
    using copy_frame [of "rfrag0 e"] s by blast
  define e1 where "e1 = e\<lparr>rhave := rhave e OR 1, rfrag0 := b\<rparr>"
  have e1h: "rhave e1 < 128" "\<And>j. j < 7 \<Longrightarrow> bit (rhave e1) j \<longleftrightarrow> j \<in> insert 0 S"
    unfolding e1_def using mask_insert(1,2) [OF hb(1), of 0] hb(2) by auto
  have sub: "insert 0 S \<subseteq> {0..k}" using s by auto
  have count: "countBits (rhave e OR 1) = of_nat (Suc k) \<longleftrightarrow> insert 0 S = {0..k}"
    using have_card [OF e1h sub k(1)] by (simp add: e1_def)
  show "rx_head dec now pid (fr 0) e = (e, [])" if "0 \<in> S"
    using that s test by (simp add: rx_head_def Let_def)
  have tot: "rtotal e = of_nat (Suc k)" if "0 \<notin> S" using s that by auto
  have big: "(of_nat (Suc k) :: u32) > 1"
    using k unat_of_nat_u32 [of "Suc k"] by (simp add: word_less_nat_alt del: of_nat_Suc)
  have step: "rx_head dec now pid (fr 0) e =
      (if insert 0 S = {0..k} then rx_assemble dec (of_nat (Suc k)) e1 else (e1, []))" if n: "0 \<notin> S"
    using s test n b(1) big count unfolding rx_head_def Let_def
    by (simp add: tot [OF n] e1_def del: of_nat_Suc)
  have frag: "pbuf_ok (rfrags e1 ! (j - 1)) \<and> bdata (rfrags e1 ! (j - 1)) = fr j" if "j \<in> insert 0 S" "0 < j" for j
    using that s by (auto simp: e1_def)
  show "\<exists>e' b. rx_head dec now pid (fr 0) e = (e', [b]) \<and> bdata b = whole k fr \<and> pbuf_ok b"
    if n: "0 \<notin> S" and full: "insert 0 S = {0..k}"
  proof -
    have "\<exists>e' b. rx_assemble dec (of_nat (Suc k)) e1 = (e', [b]) \<and> bdata b = whole k fr \<and> pbuf_ok b"
    proof (rule assemble_full [OF assms(1)])
      show "pbuf_ok (rfrag0 e1)" "bdata (rfrag0 e1) = fr 0" "length (rfrags e1) = 6" using s b by (simp_all add: e1_def)
      fix j assume "j \<in> {1..k}"
      then show "pbuf_ok (rfrags e1 ! (j - 1)) \<and> bdata (rfrags e1 ! (j - 1)) = fr j" using frag [of j] full by auto
    qed
    then show ?thesis using step [OF n] full by simp
  qed
  show "\<exists>e'. rx_head dec now pid (fr 0) e = (e', []) \<and> slot_ok pid k fr (insert 0 S) e'"
    if n: "0 \<notin> S" and part: "insert 0 S \<noteq> {0..k}"
  proof -
    have "insert 0 S \<noteq> {0}" using s n by auto
    then have "slot_ok pid k fr (insert 0 S) e1"
      unfolding slot_ok_def using s sub part e1h frag b tot [OF n] by (auto simp: e1_def)
    then show ?thesis using step [OF n] part by simp
  qed
qed

section \<open>Pieces at the switch\<close>

lemma piece_number:
  assumes "i \<le> 6" "k \<le> 6" "v = (of_nat (16 * Suc k + i) :: u8)"
  shows "(ucast v AND 0xf :: u32) = of_nat i" "(drop_bit 4 (ucast v) AND 0xf :: u32) = of_nat (Suc k)"
proof -
  have n: "16 * Suc k + i < 2 ^ 8" using assms(1,2) by simp
  have v: "unat v = 16 * Suc k + i" unfolding assms(3) unat_of_nat using n by simp
  have u: "unat (ucast v :: u32) = 16 * Suc k + i"
    using n by (simp add: unsigned_ucast_eq v take_bit_nat_eq_self)
  have m: "x AND 0xf = take_bit 4 x" for x :: u32
    unfolding take_bit_eq_mask by (simp add: mask_eq_exp_minus_1)
  have a: "(16 * Suc k + i) mod 16 = i" "(16 * Suc k + i) div 16 = Suc k"
    using assms(1) by (simp_all only: mod_mult_self4 div_mult_self4) simp_all
  have b: "unat (of_nat i :: u32) = i" "unat (of_nat (Suc k) :: u32) = Suc k"
    using assms(1,2) by (intro unat_of_nat_u32; simp)+
  show "(ucast v AND 0xf :: u32) = of_nat i"
    unfolding word_unat_eq_iff m unat_take u b using a(1) by simp
  show "(drop_bit 4 (ucast v) AND 0xf :: u32) = of_nat (Suc k)"
    unfolding word_unat_eq_iff m unat_take unat_drop u b using a(2) assms(2) by simp
qed

lemma fragment_arrives:
  assumes "pieces_ok (ev_self ev) pid k fr" "i \<in> {1..k}"
  obtains f where "pbuf_ok f" "bdata f = fr i"
    "onRemotePacket ev (fr i) sw = on_slot (rx_fragment (ev_decode ev) (ev_now ev) pid (of_nat i) (of_nat (Suc k)) f)
       (findRXQueueEntry pid (sw_rx sw)) sw"
proof -
  have p: "k \<le> 6" "16 < length (fr i)" "length (fr i) \<le> 10024" "fr i ! 13 = 0xff" "fr i ! 14 = of_nat (16 * Suc k + i)"
    "be_val (take 8 (fr i)) = pid" "addr_setTo (drop 8 (fr i)) 5 = ev_self ev"
    using assms by (auto simp: pieces_ok_def)
  obtain f where f: "buf_copyFrom new_buffer (fr i) (of_nat (length (fr i))) = Inr f" "pbuf_ok f" "bdata f = fr i"
    using copy_frame [OF new_buffer_ok p(3)] by blast
  have g: "buf_get f 14 = Inr (fr i ! 14)" using get_bdata [OF f(2), of 14] p(2) f(3) by simp
  have num: "fragmentNumber f = Inr (of_nat i)" "totalFragments f = Inr (of_nat (Suc k))"
    unfolding fragmentNumber_def totalFragments_def g bind_res_simps
    using piece_number [OF _ p(1) p(5)] assms(2) p(1) by simp_all
  have rng: "(of_nat (Suc k) :: u32) \<le> 7" "(of_nat i :: u32) < 7" "(of_nat i :: u32) > 0" "(of_nat (Suc k) :: u32) > 1"
    using assms(2) p(1) unat_of_nat_u32 [of i] unat_of_nat_u32 [of "Suc k"]
    by (auto simp: word_less_nat_alt word_le_nat_alt simp del: of_nat_Suc)
  have "frag_packetId f = Inr pid" using at8_bdata [OF f(2)] p(2) f(3) by (simp add: frag_packetId_def p(6) [symmetric])
  moreover have "frag_destination f = Inr (ev_self ev)" using addr_bdata [OF f(2)] p(2,7) f(3) by (simp add: frag_destination_def)
  ultimately have "onRemotePacket ev (fr i) sw =
      on_slot (rx_fragment (ev_decode ev) (ev_now ev) pid (of_nat i) (of_nat (Suc k)) f) (findRXQueueEntry pid (sw_rx sw)) sw"
    unfolding onRemotePacket_def on_fragment_def receive_fragment_def using p(2,4) f(1) num rng by simp
  then show ?thesis by (rule that [OF f(2,3)])
qed

lemma head_arrives:
  assumes "pieces_ok (ev_self ev) pid k fr"
  shows "onRemotePacket ev (fr 0) sw = on_slot (rx_head (ev_decode ev) (ev_now ev) pid (fr 0))
    (findRXQueueEntry pid (sw_rx sw)) sw"
proof -
  have p: "28 \<le> length (fr 0)" "fr 0 ! 13 \<noteq> 0xff" "fr 0 ! 18 AND 0x40 \<noteq> 0" "be_val (take 8 (fr 0)) = pid"
    "addr_setTo (drop 8 (fr 0)) 5 = ev_self ev" "addr_setTo (drop 13 (fr 0)) 5 \<noteq> ev_self ev"
    using assms by (auto simp: pieces_ok_def)
  moreover have "frame_id (fr 0) = pid" using frame_id_take [of "fr 0"] p(1,4) by simp
  ultimately show ?thesis by (simp add: onRemotePacket_def on_head_def)
qed

section \<open>Frames of other packets\<close>

text \<open>
  A frame that does not carry the packet's id leaves its slot alone, unless the ring's pointer
  has come round to that slot; the pointer moves by at most one.
\<close>

definition rx_wf :: "rxqueue \<Rightarrow> bool" where
  "rx_wf q \<longleftrightarrow> length (rslots q) = 32 \<and> (\<forall>e\<in>set (rslots q). length (rfrags e) = 6 \<and> pbuf_ok (rfrag0 e))"

definition dec_law :: "(zbuf \<Rightarrow> bool \<times> zbuf) \<Rightarrow> bool" where
  "dec_law dec \<longleftrightarrow> (\<forall>b. pbuf_ok b \<longrightarrow> pbuf_ok (snd (dec b)) \<and>
     (8 \<le> length (bdata b) \<longrightarrow> 8 \<le> length (bdata (snd (dec b))) \<and> take 8 (bdata (snd (dec b))) = take 8 (bdata b)))"

definition leaves :: "u64 \<Rightarrow> rxqueue \<Rightarrow> rxqueue \<Rightarrow> bool" where
  "leaves pid q q' \<longleftrightarrow> rx_wf q' \<and> (\<exists>d\<le>1. rptr q' = rptr q + of_nat d \<and>
     (\<forall>j<32. rslots q' ! j = rslots q ! j \<or>
       rid (rslots q' ! j) \<noteq> pid \<and> (rid (rslots q ! j) \<noteq> pid \<or> d = 1 \<and> j = slot_of (rptr q))))"

lemma leaves_refl: "rx_wf q \<Longrightarrow> leaves pid q q"
  unfolding leaves_def by (intro conjI exI [of _ 0]) auto

lemma leaves_slot:
  assumes "rx_wf q" "i < 32" "d \<le> 1" "rid (rslots q ! i) \<noteq> pid \<or> d = 1 \<and> i = slot_of (rptr q)"
    "rid e \<noteq> pid" "length (rfrags e) = 6" "pbuf_ok (rfrag0 e)"
  shows "leaves pid q (q\<lparr>rptr := rptr q + of_nat d, rslots := (rslots q)[i := e]\<rparr>)"
proof -
  have "set ((rslots q)[i := e]) \<subseteq> insert e (set (rslots q))" by (rule set_update_subset_insert)
  then have "rx_wf (q\<lparr>rptr := rptr q + of_nat d, rslots := (rslots q)[i := e]\<rparr>)"
    using assms(1,6,7) unfolding rx_wf_def by auto
  then show ?thesis
    using assms(1-5) unfolding leaves_def rx_wf_def by (intro conjI exI [of _ d]) (auto simp: nth_list_update)
qed

lemma pbuf_keeps: "pbuf_ok b \<longleftrightarrow> keeps 10024 b"
  by (auto simp: pbuf_ok_def keeps_def small_def)

lemma append_frags_keeps: "pbuf_ok b \<Longrightarrow> pbuf_ok (snd (append_frags b fs))"
proof (induction fs arbitrary: b)
  case (Cons f fs)
  then show ?case
    by (auto simp: pbuf_keeps bind_res_def split: sum.splits intro: buf_append_bytes_keeps)
qed simp

lemma rx_assemble_keeps:
  assumes "dec_law dec" "length (rfrags e) = 6" "pbuf_ok (rfrag0 e)"
  shows "rid (fst (rx_assemble dec tot e)) = rid e" "length (rfrags (fst (rx_assemble dec tot e))) = 6"
    "pbuf_ok (rfrag0 (fst (rx_assemble dec tot e)))"
proof -
  obtain ok b where b: "append_frags (rfrag0 e) (take (unat tot - 1) (rfrags e)) = (ok, b)" by fastforce
  have pb: "pbuf_ok b" using append_frags_keeps [OF assms(3)] b by (metis snd_conv)
  obtain r b' where r: "dec b = (r, b')" by fastforce
  have "pbuf_ok b'" using assms(1) pb r unfolding dec_law_def by (metis snd_conv)
  then show "rid (fst (rx_assemble dec tot e)) = rid e" "length (rfrags (fst (rx_assemble dec tot e))) = 6"
    "pbuf_ok (rfrag0 (fst (rx_assemble dec tot e)))"
    unfolding rx_assemble_def b using assms(2) pb by (simp_all add: r split: bool.split)
qed

lemma rx_fragment_keeps:
  assumes "dec_law dec" "length (rfrags e) = 6" "pbuf_ok (rfrag0 e)"
  shows "rid (fst (rx_fragment dec now p no tot f e)) = p"
    "length (rfrags (fst (rx_fragment dec now p no tot f e))) = 6"
    "pbuf_ok (rfrag0 (fst (rx_fragment dec now p no tot f e)))"
  using assms by (simp_all add: rx_fragment_def Let_def rx_assemble_keeps)

lemma rx_head_keeps:
  assumes "dec_law dec" "length (rfrags e) = 6" "pbuf_ok (rfrag0 e)"
  shows "rid (fst (rx_head dec now p fr e)) = p" "length (rfrags (fst (rx_head dec now p fr e))) = 6"
    "pbuf_ok (rfrag0 (fst (rx_head dec now p fr e)))"
proof -
  have init: "pbuf_ok b" if i: "buf_copyFrom (rfrag0 e) fr (of_nat (length fr)) = Inr b" for b
  proof -
    have "keeps 10024 (rfrag0 e)" using assms(3) by (simp add: pbuf_keeps)
    then show ?thesis using i unfolding pbuf_keeps buf_copyFrom_def
      by (auto simp: keepsD split: if_splits intro!: keeps_mem_resize)
  qed
  show "rid (fst (rx_head dec now p fr e)) = p" "length (rfrags (fst (rx_head dec now p fr e))) = 6"
    "pbuf_ok (rfrag0 (fst (rx_head dec now p fr e)))"
    using assms init
    by (auto simp: rx_head_def Let_def rx_assemble_keeps split: sum.split)
qed

text \<open>The head and the fragments of a frame as the switch reads them.\<close>

lemma frame_buffer:
  assumes "buf_copyFrom new_buffer frame (of_nat (length frame)) = Inr b" "length frame < 2 ^ 32"
  shows "pbuf_ok b" "bdata b = frame"
proof -
  have u: "unat (of_nat (length frame) :: u32) = length frame" using assms(2) by (simp add: unat_of_nat)
  have "\<not> of_nat (length frame) > bcap32 new_buffer" using assms(1) by (auto simp: buf_copyFrom_def)
  moreover have "keeps 10024 new_buffer" using new_buffer_ok by (simp add: pbuf_keeps)
  ultimately have "length frame \<le> 10024" by (simp add: keepsD u)
  from copy_frame [OF new_buffer_ok this] show "pbuf_ok b" "bdata b = frame" using assms(1) by auto
qed

lemma on_slot_leaves:
  assumes "rx_wf (sw_rx sw)" "i < 32" "d \<le> 1" "rid (rslots (sw_rx sw) ! i) \<noteq> pid \<or> d = 1 \<and> i = slot_of (rptr (sw_rx sw))"
    "\<And>e. length (rfrags e) = 6 \<Longrightarrow> pbuf_ok (rfrag0 e) \<Longrightarrow>
       rid (fst (F e)) \<noteq> pid \<and> length (rfrags (fst (F e))) = 6 \<and> pbuf_ok (rfrag0 (fst (F e)))"
  shows "leaves pid (sw_rx sw) (sw_rx (fst (on_slot F (i, (sw_rx sw)\<lparr>rptr := rptr (sw_rx sw) + of_nat d\<rparr>) sw)))"
proof -
  have e: "length (rfrags (rslots (sw_rx sw) ! i)) = 6" "pbuf_ok (rfrag0 (rslots (sw_rx sw) ! i))"
    using assms(1,2) by (auto simp: rx_wf_def)
  obtain e' ds where F: "F (rslots (sw_rx sw) ! i) = (e', ds)" by fastforce
  have "rid e' \<noteq> pid" "length (rfrags e') = 6" "pbuf_ok (rfrag0 e')" using assms(5) [OF e] by (simp_all add: F)
  from leaves_slot [OF assms(1,2,3,4) this] show ?thesis by (simp add: on_slot_def F)
qed

lemma on_find_leaves:
  assumes "rx_wf (sw_rx sw)" "p \<noteq> pid"
    "\<And>e. length (rfrags e) = 6 \<Longrightarrow> pbuf_ok (rfrag0 e) \<Longrightarrow>
       rid (fst (F e)) = p \<and> length (rfrags (fst (F e))) = 6 \<and> pbuf_ok (rfrag0 (fst (F e)))"
  shows "leaves pid (sw_rx sw) (sw_rx (fst (on_slot F (findRXQueueEntry p (sw_rx sw)) sw)))"
proof -
  obtain i d where f: "findRXQueueEntry p (sw_rx sw) = (i, (sw_rx sw)\<lparr>rptr := rptr (sw_rx sw) + of_nat d\<rparr>)"
    "i < 32" "d \<le> 1" "rid (rslots (sw_rx sw) ! i) = p \<or> (d = 1 \<and> i = slot_of (rptr (sw_rx sw)))"
    by (rule find_any)
  show ?thesis unfolding f(1) by (rule on_slot_leaves) (use assms f in auto)
qed

lemma receive_fragment_leaves:
  assumes "rx_wf (sw_rx sw)" "dec_law (ev_decode ev)" "be_val (take 8 (bdata f)) \<noteq> pid" "pbuf_ok f" "16 < length (bdata f)"
    "receive_fragment ev f sw = Inr (sw', os)"
  shows "leaves pid (sw_rx sw) (sw_rx sw')"
proof -
  have id: "frag_packetId f = Inr (be_val (take 8 (bdata f)))"
    using at8_bdata [OF assms(4)] assms(5) by (simp add: frag_packetId_def)
  obtain no tot where
    "sw' = sw \<or> sw' = fst (on_slot (rx_fragment (ev_decode ev) (ev_now ev) (be_val (take 8 (bdata f))) no tot f)
       (findRXQueueEntry (be_val (take 8 (bdata f))) (sw_rx sw)) sw)"
    using assms(6) by (auto simp: receive_fragment_def id bind_res_def split: sum.splits if_splits) (metis fst_conv)
  then show ?thesis
    using leaves_refl [OF assms(1)] on_find_leaves [OF assms(1,3)] rx_fragment_keeps [OF assms(2)] by auto
qed

lemma rx_whole_leaves:
  assumes "rx_wf (sw_rx sw)" "dec_law (ev_decode ev)" "be_val (take 8 frame) \<noteq> pid" "28 \<le> length frame"
    "length frame < 2 ^ 32" "rx_whole ev frame sw = Inr (sw', os)"
  shows "leaves pid (sw_rx sw) (sw_rx sw')"
proof -
  obtain p where p: "buf_copyFrom new_buffer frame (of_nat (length frame)) = Inr p"
    using assms(6) by (auto simp: rx_whole_def bind_res_def split: sum.splits)
  note pb = frame_buffer [OF p assms(5)]
  obtain r p' where d: "ev_decode ev p = (r, p')" by fastforce
  have p': "pbuf_ok p'" "8 \<le> length (bdata p')" "take 8 (bdata p') = take 8 frame"
    using assms(2,4) pb d unfolding dec_law_def by (metis snd_conv le_trans numeral_le_iff semiring_norm(68) semiring_norm(69) semiring_norm(71) semiring_norm(72))+
  have id: "packetId p' = Inr (be_val (take 8 frame))"
    using at8_bdata [OF p'(1,2)] by (simp add: packetId_def p'(3))
  let ?F = "\<lambda>e. (e\<lparr>rts := ev_now ev, rid := be_val (take 8 frame), rfrag0 := p', rtotal := 1, rhave := 1, rcomplete := True\<rparr>, [])"
  have n: "nextRXQueueEntry (sw_rx sw) = (slot_of (rptr (sw_rx sw)), (sw_rx sw)\<lparr>rptr := rptr (sw_rx sw) + of_nat 1\<rparr>)"
    by (simp add: nextRXQueueEntry_def)
  have "leaves pid (sw_rx sw) (sw_rx (fst (on_slot ?F (nextRXQueueEntry (sw_rx sw)) sw)))"
    unfolding n by (rule on_slot_leaves [OF assms(1) slot_of_less]) (use assms(3) p'(1) in simp_all)
  moreover have "sw' = sw \<or> sw' = fst (on_slot ?F (nextRXQueueEntry (sw_rx sw)) sw)"
    using assms(6) by (auto simp: rx_whole_def p d id split: bool.splits prod.splits)
  ultimately show ?thesis using leaves_refl [OF assms(1)] by auto
qed

lemma relay_head_rx: "relay_head ev source dest frame sw = Inr (sw', os) \<Longrightarrow> sw_rx sw' = sw_rx sw"
  by (auto simp: relay_head_def bind_res_def shouldUnite_def Let_def
      split: sum.splits if_splits option.splits prod.splits)

lemma foreign_step:
  assumes "rx_wf (sw_rx sw)" "dec_law (ev_decode ev)" "be_val (take 8 frame) \<noteq> pid" "length frame < 2 ^ 32"
  shows "leaves pid (sw_rx sw) (sw_rx (fst (onRemotePacket ev frame sw)))"
proof -
  note refl = leaves_refl [OF assms(1)]
  have frag: "leaves pid (sw_rx sw) (sw_rx sw')" if f: "on_fragment ev frame sw = Inr (sw', os)" "16 < length frame" for sw' os
  proof -
    obtain b where b: "buf_copyFrom new_buffer frame (of_nat (length frame)) = Inr b"
      using f(1) by (auto simp: on_fragment_def bind_res_def split: sum.splits)
    note pb = frame_buffer [OF b assms(4)]
    have "sw' = sw \<or> receive_fragment ev b sw = Inr (sw', os)"
      using f(1) by (auto simp: on_fragment_def b bind_res_def split: sum.splits if_splits)
    then show ?thesis
      using refl receive_fragment_leaves [OF assms(1,2) _ pb(1)] assms(3) f(2) pb(2) by auto
  qed
  have head: "leaves pid (sw_rx sw) (sw_rx sw')" if f: "on_head ev frame sw = Inr (sw', os)" "28 \<le> length frame" for sw' os
  proof -
    have id: "frame_id frame \<noteq> pid" using frame_id_take [of frame] f(2) assms(3) by simp
    consider "sw' = sw" | (relay) s d where "relay_head ev s d frame sw = Inr (sw', os)"
      | (slot) "sw' = fst (on_slot (rx_head (ev_decode ev) (ev_now ev) (frame_id frame) frame) (findRXQueueEntry (frame_id frame) (sw_rx sw)) sw)"
      | (whole) "rx_whole ev frame sw = Inr (sw', os)"
      using f(1) by (auto simp: on_head_def Let_def split: if_splits) 
    then show ?thesis
    proof cases
      case relay
      then show ?thesis using relay_head_rx refl by metis
    next
      case slot
      then show ?thesis using on_find_leaves [OF assms(1) id] rx_head_keeps [OF assms(2)] by auto
    next
      case whole
      then show ?thesis using rx_whole_leaves [OF assms(1-3) f(2) assms(4)] by blast
    qed (use refl in simp)
  qed
  show ?thesis
    using refl frag head by (auto simp: onRemotePacket_def split: sum.split)
qed

section \<open>Reassembly\<close>

fun rx_run :: "(rx_env \<times> u8 list) list \<Rightarrow> switch \<Rightarrow> switch \<times> sw_out list list" where
  "rx_run [] sw = (sw, [])"
| "rx_run ((ev, f) # evs) sw =
     (case onRemotePacket ev f sw of (sw1, os) \<Rightarrow> case rx_run evs sw1 of (sw2, oss) \<Rightarrow> (sw2, os # oss))"

text \<open>What arrives: a piece of the packet in question, by number, or a frame of another packet.\<close>

datatype arrival = Piece nat | Other "u8 list"

fun frame_of :: "(nat \<Rightarrow> u8 list) \<Rightarrow> arrival \<Rightarrow> u8 list" where
  "frame_of fr (Piece i) = fr i"
| "frame_of fr (Other f) = f"

fun is_other :: "arrival \<Rightarrow> bool" where
  "is_other (Piece i) = False"
| "is_other (Other f) = True"

definition arrivals :: "(nat \<Rightarrow> u8 list) \<Rightarrow> (rx_env \<times> arrival) list \<Rightarrow> (rx_env \<times> u8 list) list" where
  "arrivals fr xs = map (\<lambda>(ev, a). (ev, frame_of fr a)) xs"

definition seen :: "(rx_env \<times> arrival) list \<Rightarrow> nat set" where
  "seen xs = {i. Piece i \<in> snd ` set xs}"

definition others :: "(rx_env \<times> arrival) list \<Rightarrow> nat" where
  "others xs = length (filter (\<lambda>x. is_other (snd x)) xs)"

fun arrival_ok :: "address \<Rightarrow> u64 \<Rightarrow> nat \<Rightarrow> rx_env \<times> arrival \<Rightarrow> bool" where
  "arrival_ok self pid k (ev, a) \<longleftrightarrow> ev_self ev = self \<and> ev_now ev \<noteq> 0 \<and> dec_law (ev_decode ev) \<and>
     (case a of Piece i \<Rightarrow> i \<le> k | Other f \<Rightarrow> be_val (take 8 f) \<noteq> pid \<and> length f < 2 ^ 32)"

text \<open>
  A queue that has the pieces \<open>S\<close> and can take \<open>n\<close> more frames of other packets before the ring
  comes round to the slot.
\<close>

definition waiting :: "u64 \<Rightarrow> nat \<Rightarrow> (nat \<Rightarrow> u8 list) \<Rightarrow> nat set \<Rightarrow> nat \<Rightarrow> rxqueue \<Rightarrow> nat \<Rightarrow> bool" where
  "waiting pid k fr S n q i \<longleftrightarrow> i < 32 \<and> slot_ok pid k fr S (rslots q ! i) \<and>
     (\<forall>j<32. j \<noteq> i \<longrightarrow> rid (rslots q ! j) \<noteq> pid) \<and> (\<forall>m<n. slot_of (rptr q + of_nat m) \<noteq> i)"

definition progress :: "u64 \<Rightarrow> nat \<Rightarrow> (nat \<Rightarrow> u8 list) \<Rightarrow> nat set \<Rightarrow> nat \<Rightarrow> rxqueue \<Rightarrow> bool" where
  "progress pid k fr S n q \<longleftrightarrow> rx_wf q \<and> n \<le> 31 \<and>
     (if S = {} then \<forall>j<32. rid (rslots q ! j) \<noteq> pid else \<exists>i. waiting pid k fr S n q i)"

lemma ring_ahead:
  assumes "m < 31" shows "slot_of (p + 1 + of_nat m) \<noteq> slot_of p"
proof
  assume "slot_of (p + 1 + of_nat m) = slot_of p"
  then have e: "uint (p + 1 + of_nat m) mod 32 = uint p mod 32" by (simp add: slot_of_int [symmetric])
  have s: "p + 1 + of_nat m = p + of_nat (Suc m)" by (simp add: ac_simps)
  have u: "uint (of_nat (Suc m) :: u32) = int (Suc m)"
    using assms by (simp add: unsigned_of_nat take_bit_nat_eq_self del: of_nat_Suc)
  have "uint (p + 1 + of_nat m) = (uint p + int (Suc m)) mod 2 ^ 32" unfolding s uint_word_ariths u by simp
  then have "(uint p + int (Suc m)) mod 32 = uint p mod 32" using e by (simp add: mod_mod_cancel del: of_nat_Suc)
  then have "(32 :: int) dvd int (Suc m)" by (simp add: mod_eq_dvd_iff del: of_nat_Suc)
  then show False using assms zdvd_imp_le [of 32 "int (Suc m)"] by simp
qed

text \<open>How one piece meets the slot that waits for it.\<close>

lemma piece_step:
  assumes "pieces_ok (ev_self ev) pid k fr" "i \<le> k"
  obtains F where "onRemotePacket ev (fr i) sw = on_slot F (findRXQueueEntry pid (sw_rx sw)) sw"
    "\<And>S e. slot_ok pid k fr S e \<Longrightarrow> insert i S \<noteq> {0..k} \<Longrightarrow> snd (F e) = [] \<and> slot_ok pid k fr (insert i S) (fst (F e))"
    "\<And>S e. slot_ok pid k fr S e \<Longrightarrow> insert i S = {0..k} \<Longrightarrow> \<exists>b. snd (F e) = [b] \<and> bdata b = whole k fr"
    "\<And>e. ev_now ev \<noteq> 0 \<Longrightarrow> rid e \<noteq> pid \<Longrightarrow> length (rfrags e) = 6 \<Longrightarrow> pbuf_ok (rfrag0 e) \<Longrightarrow>
       snd (F e) = [] \<and> slot_ok pid k fr {i} (fst (F e))"
proof (cases "i = 0")
  case True
  show ?thesis
  proof (rule that)
    show "onRemotePacket ev (fr i) sw = on_slot (rx_head (ev_decode ev) (ev_now ev) pid (fr 0)) (findRXQueueEntry pid (sw_rx sw)) sw"
      using head_arrives [OF assms(1)] True by simp
    fix S e
    assume s: "slot_ok pid k fr S e"
    then have nf: "S \<noteq> {0..k}" by (simp add: slot_ok_def)
    note h = slot_head [OF assms(1) s, where dec = "ev_decode ev" and now = "ev_now ev"]
    show "snd (rx_head (ev_decode ev) (ev_now ev) pid (fr 0) e) = [] \<and>
        slot_ok pid k fr (insert i S) (fst (rx_head (ev_decode ev) (ev_now ev) pid (fr 0) e))" if "insert i S \<noteq> {0..k}"
      using h that s True by (cases "0 \<in> S") (auto simp: insert_absorb)
    show "\<exists>b. snd (rx_head (ev_decode ev) (ev_now ev) pid (fr 0) e) = [b] \<and> bdata b = whole k fr" if "insert i S = {0..k}"
      using h(2) that nf True by (cases "0 \<in> S") (auto simp: insert_absorb)
  next
    fix e :: rxentry
    assume "ev_now ev \<noteq> 0" "rid e \<noteq> pid" "length (rfrags e) = 6" "pbuf_ok (rfrag0 e)"
    from slot_new_head [OF assms(1) this, where dec = "ev_decode ev"]
    show "snd (rx_head (ev_decode ev) (ev_now ev) pid (fr 0) e) = [] \<and>
        slot_ok pid k fr {i} (fst (rx_head (ev_decode ev) (ev_now ev) pid (fr 0) e))" using True by auto
  qed
next
  case False
  then have i: "i \<in> {1..k}" using assms(2) by simp
  obtain f where f: "pbuf_ok f" "bdata f = fr i"
    "onRemotePacket ev (fr i) sw = on_slot (rx_fragment (ev_decode ev) (ev_now ev) pid (of_nat i) (of_nat (Suc k)) f)
       (findRXQueueEntry pid (sw_rx sw)) sw"
    by (rule fragment_arrives [OF assms(1) i])
  let ?F = "rx_fragment (ev_decode ev) (ev_now ev) pid (of_nat i) (of_nat (Suc k)) f"
  show ?thesis
  proof (rule that)
    show "onRemotePacket ev (fr i) sw = on_slot ?F (findRXQueueEntry pid (sw_rx sw)) sw" by (rule f(3))
    fix S e
    assume s: "slot_ok pid k fr S e"
    then have nf: "S \<noteq> {0..k}" by (simp add: slot_ok_def)
    note h = slot_fragment [OF assms(1) i f(1,2) s, where dec = "ev_decode ev" and now = "ev_now ev"]
    show "snd (?F e) = [] \<and> slot_ok pid k fr (insert i S) (fst (?F e))" if "insert i S \<noteq> {0..k}"
    proof (cases "i \<in> S")
      case True
      then show ?thesis using h(1) s by (simp add: insert_absorb)
    next
      case False
      then show ?thesis using h(3) that by fastforce
    qed
    show "\<exists>b. snd (?F e) = [b] \<and> bdata b = whole k fr" if full: "insert i S = {0..k}"
    proof -
      have "i \<notin> S" using nf full by (metis insert_absorb)
      from h(2) [OF this full] show ?thesis by fastforce
    qed
  next
    fix e :: rxentry
    assume "ev_now ev \<noteq> 0" "rid e \<noteq> pid" "length (rfrags e) = 6" "pbuf_ok (rfrag0 e)"
    from slot_new_fragment [OF assms(1) i f(1,2) this, where dec = "ev_decode ev"]
    show "snd (?F e) = [] \<and> slot_ok pid k fr {i} (fst (?F e))" by fastforce
  qed
qed

lemma progress_slot:
  assumes "progress pid k fr S n q" "S \<noteq> {}"
  obtains i where "waiting pid k fr S n q i" "findRXQueueEntry pid q = (i, q)"
proof -
  obtain i where w: "waiting pid k fr S n q i" using assms by (auto simp: progress_def)
  then have "findRXQueueEntry pid q = (i, q)"
    by (intro find_hit) (auto simp: waiting_def slot_ok_def)
  with w show ?thesis by (rule that)
qed

lemma wf_slot:
  assumes "rx_wf q" "i < 32" "length (rfrags e) = 6" "pbuf_ok (rfrag0 e)"
  shows "rx_wf (q\<lparr>rslots := (rslots q)[i := e]\<rparr>)" "rx_wf (q\<lparr>rptr := p, rslots := (rslots q)[i := e]\<rparr>)"
  using assms set_update_subset_insert [of "rslots q" i e] by (auto simp: rx_wf_def)

text \<open>The three steps: a piece, the last piece, a frame of another packet.\<close>

lemma progress_piece:
  assumes "pieces_ok self pid k fr" "progress pid k fr S n (sw_rx sw)" "arrival_ok self pid k (ev, Piece i)" "insert i S \<noteq> {0..k}"
  shows "snd (onRemotePacket ev (fr i) sw) = []"
    "progress pid k fr (insert i S) n (sw_rx (fst (onRemotePacket ev (fr i) sw)))"
proof -
  have a: "pieces_ok (ev_self ev) pid k fr" "i \<le> k" "ev_now ev \<noteq> 0" using assms(1,3) by auto
  have wf: "rx_wf (sw_rx sw)" "n \<le> 31" using assms(2) by (simp_all add: progress_def)
  obtain F where F: "onRemotePacket ev (fr i) sw = on_slot F (findRXQueueEntry pid (sw_rx sw)) sw"
    "\<And>S e. slot_ok pid k fr S e \<Longrightarrow> insert i S \<noteq> {0..k} \<Longrightarrow> snd (F e) = [] \<and> slot_ok pid k fr (insert i S) (fst (F e))"
    "\<And>e. ev_now ev \<noteq> 0 \<Longrightarrow> rid e \<noteq> pid \<Longrightarrow> length (rfrags e) = 6 \<Longrightarrow> pbuf_ok (rfrag0 e) \<Longrightarrow>
       snd (F e) = [] \<and> slot_ok pid k fr {i} (fst (F e))"
    using piece_step [OF a(1,2)] by metis
  have "snd (onRemotePacket ev (fr i) sw) = [] \<and> progress pid k fr (insert i S) n (sw_rx (fst (onRemotePacket ev (fr i) sw)))"
  proof (cases "S = {}")
    case True
    have no: "rid (rslots (sw_rx sw) ! j) \<noteq> pid" if "j < 32" for j using assms(2) True that by (simp add: progress_def)
    have miss: "findRXQueueEntry pid (sw_rx sw) = (slot_of (rptr (sw_rx sw)), (sw_rx sw)\<lparr>rptr := rptr (sw_rx sw) + 1\<rparr>)"
      by (rule find_miss) (rule no)
    let ?i = "slot_of (rptr (sw_rx sw))"
    let ?e = "rslots (sw_rx sw) ! ?i"
    have e: "length (rfrags ?e) = 6" "pbuf_ok (rfrag0 ?e)" using wf slot_of_less [of "rptr (sw_rx sw)"] by (auto simp: rx_wf_def)
    obtain e' where e': "F ?e = (e', [])" "slot_ok pid k fr {i} e'"
      using F(3) [OF a(3) no [OF slot_of_less] e] by (metis prod.collapse)
    have "length (rfrags e') = 6" "pbuf_ok (rfrag0 e')" using e'(2) by (simp_all add: slot_ok_def)
    note wf' = wf_slot(2) [OF wf(1) slot_of_less this]
    have "waiting pid k fr {i} n ((sw_rx sw)\<lparr>rptr := rptr (sw_rx sw) + 1, rslots := (rslots (sw_rx sw))[?i := e']\<rparr>) ?i"
      using e'(2) no slot_of_less [of "rptr (sw_rx sw)"] ring_ahead wf by (auto simp: waiting_def rx_wf_def nth_list_update)
    then show ?thesis
      using wf' wf(2) unfolding F(1) miss on_slot_def
      by (auto simp: e'(1) True progress_def)
  next
    case False
    obtain j where w: "waiting pid k fr S n (sw_rx sw) j" and f: "findRXQueueEntry pid (sw_rx sw) = (j, sw_rx sw)"
      by (rule progress_slot [OF assms(2) False])
    have s: "j < 32" "slot_ok pid k fr S (rslots (sw_rx sw) ! j)" using w by (simp_all add: waiting_def)
    obtain e' where e': "F (rslots (sw_rx sw) ! j) = (e', [])" "slot_ok pid k fr (insert i S) e'"
      using F(2) [OF s(2) assms(4)] by (metis prod.collapse)
    have "length (rfrags e') = 6" "pbuf_ok (rfrag0 e')" using e'(2) by (simp_all add: slot_ok_def)
    note wf' = wf_slot(1) [OF wf(1) s(1) this]
    have "waiting pid k fr (insert i S) n ((sw_rx sw)\<lparr>rslots := (rslots (sw_rx sw))[j := e']\<rparr>) j"
      using e'(2) w wf by (auto simp: waiting_def rx_wf_def)
    then show ?thesis
      using wf' wf(2) unfolding F(1) f on_slot_def by (auto simp: e'(1) progress_def)
  qed
  then show "snd (onRemotePacket ev (fr i) sw) = []"
    "progress pid k fr (insert i S) n (sw_rx (fst (onRemotePacket ev (fr i) sw)))" by simp_all
qed

lemma progress_last:
  assumes "pieces_ok self pid k fr" "progress pid k fr S n (sw_rx sw)" "arrival_ok self pid k (ev, Piece i)" "insert i S = {0..k}"
  shows "\<exists>b. snd (onRemotePacket ev (fr i) sw) = [Decode b] \<and> bdata b = whole k fr"
proof -
  have a: "pieces_ok (ev_self ev) pid k fr" "i \<le> k" "1 \<le> k" using assms(1,3) by (auto simp: pieces_ok_def)
  obtain F where F: "onRemotePacket ev (fr i) sw = on_slot F (findRXQueueEntry pid (sw_rx sw)) sw"
    "\<And>S e. slot_ok pid k fr S e \<Longrightarrow> insert i S = {0..k} \<Longrightarrow> \<exists>b. snd (F e) = [b] \<and> bdata b = whole k fr"
    using piece_step [OF a(1,2)] by metis
  have "S \<noteq> {}"
  proof
    assume "S = {}"
    then have "card {0..k} = 1" using assms(4) by (metis card.empty card_insert_disjoint empty_iff finite.emptyI One_nat_def)
    then show False using a(3) by simp
  qed
  then obtain j where w: "waiting pid k fr S n (sw_rx sw) j" and f: "findRXQueueEntry pid (sw_rx sw) = (j, sw_rx sw)"
    by (rule progress_slot [OF assms(2)])
  then obtain b where "snd (F (rslots (sw_rx sw) ! j)) = [b]" "bdata b = whole k fr"
    using F(2) [OF _ assms(4)] unfolding waiting_def by blast
  then show ?thesis unfolding F(1) f on_slot_def by (auto split: prod.split)
qed

lemma progress_other:
  assumes "progress pid k fr S (Suc n) (sw_rx sw)" "arrival_ok self pid k (ev, Other f)"
  shows "progress pid k fr S n (sw_rx (fst (onRemotePacket ev f sw)))"
proof -
  let ?q = "sw_rx sw" and ?q' = "sw_rx (fst (onRemotePacket ev f sw))"
  have "leaves pid ?q ?q'"
    using assms by (intro foreign_step) (simp_all add: progress_def)
  then obtain d where d: "rx_wf ?q'" "d \<le> 1" "rptr ?q' = rptr ?q + of_nat d"
    "\<And>j. j < 32 \<Longrightarrow> rslots ?q' ! j = rslots ?q ! j \<or>
       rid (rslots ?q' ! j) \<noteq> pid \<and> (rid (rslots ?q ! j) \<noteq> pid \<or> d = 1 \<and> j = slot_of (rptr ?q))"
    unfolding leaves_def by blast
  show ?thesis
  proof (cases "S = {}")
    case True
    then show ?thesis using assms(1) d(1,4) unfolding progress_def by fastforce
  next
    case False
    then obtain i where w: "waiting pid k fr S (Suc n) ?q i" using assms(1) by (auto simp: progress_def)
    then have i: "i < 32" "i \<noteq> slot_of (rptr ?q)" "rid (rslots ?q ! i) = pid"
      unfolding waiting_def slot_ok_def by (auto dest: spec [of _ 0])
    have same: "rslots ?q' ! i = rslots ?q ! i" using d(4) [OF i(1)] i(2,3) by auto
    have ahead: "slot_of (rptr ?q' + of_nat m) \<noteq> i" if "m < n" for m
    proof -
      have "rptr ?q' + of_nat m = rptr ?q + of_nat (d + m)" by (simp add: d(3) ac_simps)
      moreover have "d + m < Suc n" using that d(2) by simp
      ultimately show ?thesis using w by (simp add: waiting_def del: of_nat_add)
    qed
    have "waiting pid k fr S n ?q' i"
      unfolding waiting_def
    proof (intro conjI allI impI)
      show "rid (rslots ?q' ! j) \<noteq> pid" if "j < 32" "j \<noteq> i" for j
        using d(4) [OF that(1)] w that by (auto simp: waiting_def)
    qed (use w i(1) same ahead in \<open>simp_all add: waiting_def\<close>)
    then show ?thesis using assms(1) d(1) False by (auto simp: progress_def)
  qed
qed

lemma rx_run_append:
  "rx_run (xs @ ys) sw = (case rx_run xs sw of (sw1, o1) \<Rightarrow> case rx_run ys sw1 of (sw2, o2) \<Rightarrow> (sw2, o1 @ o2))"
  by (induction xs sw rule: rx_run.induct) (simp_all split: prod.split)

lemma arrivals_simps [simp]:
  "arrivals fr [] = []" "arrivals fr ((ev, a) # xs) = (ev, frame_of fr a) # arrivals fr xs"
  "arrivals fr (xs @ ys) = arrivals fr xs @ arrivals fr ys"
  by (simp_all add: arrivals_def)

lemma seen_simps [simp]:
  "seen [] = {}" "seen ((ev, Piece i) # xs) = insert i (seen xs)" "seen ((ev, Other f) # xs) = seen xs"
  "seen (xs @ ys) = seen xs \<union> seen ys"
  by (auto simp: seen_def image_iff)

lemma others_simps [simp]:
  "others [] = 0" "others ((ev, Piece i) # xs) = others xs" "others ((ev, Other f) # xs) = Suc (others xs)"
  "others (xs @ ys) = others xs + others ys"
  by (simp_all add: others_def)

lemma progress_run:
  assumes "pieces_ok self pid k fr" "progress pid k fr S n (sw_rx sw)" "list_all (arrival_ok self pid k) xs"
    "others xs \<le> n" "S \<union> seen xs \<noteq> {0..k}" "S \<subseteq> {0..k}"
  shows "\<exists>m. progress pid k fr (S \<union> seen xs) m (sw_rx (fst (rx_run (arrivals fr xs) sw)))"
    "list_all2 (\<lambda>(ev, a) os. is_other a \<or> os = []) xs (snd (rx_run (arrivals fr xs) sw))"
  using assms(2-)
proof (induction xs arbitrary: S n sw)
  case Nil
  { case 1 then show ?case by auto }
  { case 2 then show ?case by simp }
next
  case (Cons x xs)
  obtain ev a where x: "x = (ev, a)" by fastforce
  have le: "list_all (arrival_ok self pid k) ys \<Longrightarrow> seen ys \<subseteq> {0..k}" for ys
    by (auto simp: list_all_iff seen_def)
  have step: "\<exists>S' n'. progress pid k fr S' n' (sw_rx (fst (onRemotePacket ev (frame_of fr a) sw))) \<and>
      others xs \<le> n' \<and> S' \<union> seen xs = S \<union> seen (x # xs) \<and> S' \<subseteq> {0..k} \<and>
      (is_other a \<or> snd (onRemotePacket ev (frame_of fr a) sw) = [])"
    if p: "progress pid k fr S n (sw_rx sw)" "list_all (arrival_ok self pid k) (x # xs)" "others (x # xs) \<le> n"
      "S \<union> seen (x # xs) \<noteq> {0..k}" "S \<subseteq> {0..k}" for S n sw
  proof (cases a)
    case (Piece i)
    have ok: "arrival_ok self pid k (ev, Piece i)" using p(2) by (simp add: x Piece)
    have "insert i S \<noteq> {0..k}" using p(4) le [of xs] p(2) by (auto simp: x Piece)
    from progress_piece [OF assms(1) p(1) ok this] show ?thesis
      using p(3,5) ok by (intro exI [of _ "insert i S"] exI [of _ n]) (simp add: x Piece)
  next
    case (Other f)
    then obtain n' where n': "n = Suc n'" using p(3) by (cases n) (simp_all add: x)
    have "arrival_ok self pid k (ev, Other f)" using p(2) by (simp add: x Other)
    from progress_other [OF p(1) [unfolded n'] this] show ?thesis
      using p(3,5) by (intro exI [of _ S] exI [of _ n']) (simp add: x Other n')
  qed
  have run: "rx_run (arrivals fr (x # xs)) sw =
      (fst (rx_run (arrivals fr xs) (fst (onRemotePacket ev (frame_of fr a) sw))),
       snd (onRemotePacket ev (frame_of fr a) sw) # snd (rx_run (arrivals fr xs) (fst (onRemotePacket ev (frame_of fr a) sw))))" for sw
    by (simp add: x split: prod.split)
  { case 1
    from step [OF this] obtain S' n' where s: "progress pid k fr S' n' (sw_rx (fst (onRemotePacket ev (frame_of fr a) sw)))" "others xs \<le> n'"
      "S' \<union> seen xs = S \<union> seen (x # xs)" "S' \<subseteq> {0..k}" by blast
    have "list_all (arrival_ok self pid k) xs" "S' \<union> seen xs \<noteq> {0..k}" using 1 s(3) by simp_all
    from Cons.IH(1) [OF s(1) this(1) s(2) this(2) s(4)] show ?case by (simp add: run s(3)) }
  { case 2
    from step [OF this] obtain S' n' where s: "progress pid k fr S' n' (sw_rx (fst (onRemotePacket ev (frame_of fr a) sw)))" "others xs \<le> n'"
      "S' \<union> seen xs = S \<union> seen (x # xs)" "S' \<subseteq> {0..k}" "is_other a \<or> snd (onRemotePacket ev (frame_of fr a) sw) = []" by blast
    have "list_all (arrival_ok self pid k) xs" "S' \<union> seen xs \<noteq> {0..k}" using 2 s(3) by simp_all
    from Cons.IH(2) [OF s(1) this(1) s(2) this(2) s(4)] show ?case unfolding run using s(5) by (simp add: x) }
qed

text \<open>A queue in order, that has nothing of the packet.\<close>

definition fresh_queue :: "u64 \<Rightarrow> rxqueue \<Rightarrow> bool" where
  "fresh_queue pid q \<longleftrightarrow> rx_wf q \<and> (\<forall>e\<in>set (rslots q). rid e \<noteq> pid)"

lemma reassembly:
  assumes "pieces_ok self pid k fr" "fresh_queue pid (sw_rx sw)"
    "list_all (arrival_ok self pid k) (xs @ [(ev, Piece i)])" "others xs \<le> 31" "insert i (seen xs) = {0..k}" "i \<notin> seen xs"
  shows "\<exists>oss b. snd (rx_run (arrivals fr (xs @ [(ev, Piece i)])) sw) = oss @ [[Decode b]] \<and> bdata b = whole k fr \<and>
    list_all2 (\<lambda>(ev, a) os. is_other a \<or> os = []) xs oss"
proof -
  have p: "progress pid k fr {} 31 (sw_rx sw)" using assms(2) by (simp add: progress_def rx_wf_def fresh_queue_def)
  have ok: "list_all (arrival_ok self pid k) xs" "arrival_ok self pid k (ev, Piece i)" using assms(3) by simp_all
  have ne: "{} \<union> seen xs \<noteq> {0..k}" using assms(5,6) by auto
  note run = progress_run [OF assms(1) p ok(1) assms(4) ne empty_subsetI]
  obtain m where "progress pid k fr (seen xs) m (sw_rx (fst (rx_run (arrivals fr xs) sw)))" using run(1) by auto
  from progress_last [OF assms(1) this ok(2) assms(5)] obtain b where
    "snd (onRemotePacket ev (fr i) (fst (rx_run (arrivals fr xs) sw))) = [Decode b]" "bdata b = whole k fr" by blast
  then have "snd (rx_run (arrivals fr (xs @ [(ev, Piece i)])) sw) = snd (rx_run (arrivals fr xs) sw) @ [[Decode b]]"
    by (simp add: rx_run_append case_prod_beta)
  then show ?thesis using run(2) \<open>bdata b = whole k fr\<close> by blast
qed

section \<open>The pieces the sender makes\<close>

definition piece_tag :: "u32 \<Rightarrow> u32 \<Rightarrow> u8" where
  "piece_tag tot no = ucast (push_bit 4 (tot AND 0xf) OR (no AND 0xf))"

definition sent_piece :: "u8 list \<Rightarrow> nat \<Rightarrow> nat \<Rightarrow> nat \<Rightarrow> u8 list" where
  "sent_piece P M tot j =
     take 13 P @ [0xff, piece_tag (of_nat tot) (of_nat j), 0] @ take (M - 16) (drop (M + (j - 1) * (M - 16)) P)"

lemma frag_init_data:
  assumes "pbuf_ok p" "13 \<le> bsize p" "s + l \<le> bsize p" "l \<le> 10008"
  shows "\<exists>f. frag_init new_buffer p (of_nat s) (of_nat l) no tot = Inr f \<and>
    bdata f = take 13 (bdata p) @ [0xff, piece_tag tot no, 0] @ take l (drop s (bdata p))"
proof -
  have c: "bcap p = 10024" "length (bmem p) = 10024" "bsize p \<le> 10024" using assms(1) by (auto simp: pbuf_ok_def bcap_def dest: smallD(3))
  have us: "unat (of_nat s :: u32) = s" "unat (of_nat l :: u32) = l" "unat (of_nat l + 16 :: u32) = l + 16"
    using assms(3,4) c(3) by (simp_all add: unat_of_nat_u32 unat_word_ariths)
  have usl: "unat (of_nat s + of_nat l :: u32) = s + l"
    using assms(3) c(3) us by (simp add: unat_word_ariths)
  define idd where "idd = take 13 (bdata p)"
  have idd: "take 13 (bmem p) = idd" "length idd = 13" using assms(2) c by (simp_all add: idd_def bdata_def min_def)
  define bs where "bs = take l (drop s (bdata p))"
  have bs: "take l (drop s (bmem p)) = bs" "length bs = l"
    using assms(3) c by (auto simp: bs_def bdata_def drop_take min_def)
  have guards: "\<not> of_nat s + of_nat l > blen p" "\<not> (13 :: u32) > blen p" "\<not> of_nat l + 16 > (10024 :: u32)"
    using assms(2-4) usl us by (simp_all add: word_less_nat_alt bsize_def)
  have n: "unat (13 :: u32) = 13" "unat (14 :: u32) = 14" "unat (15 :: u32) = 15" by simp_all
  have ge: "\<not> (13 :: u32) \<ge> of_nat l + 16" "\<not> (14 :: u32) \<ge> of_nat l + 16" "\<not> (15 :: u32) \<ge> of_nat l + 16"
    "\<not> (13 :: u32) > of_nat l + 16" "\<not> 16 + of_nat l > (of_nat l + 16 :: u32)"
    unfolding word_less_nat_alt word_le_nat_alt add.commute [of 16] us n by simp_all
  let ?w = "of_nat l + 16 :: u32"
  let ?b = "\<lambda>m. \<lparr>bmem = m, blen = ?w\<rparr>"
  let ?r = "\<lambda>n. replicate n (0 :: u8)"
  have r3: "?r 10011 = 0 # 0 # 0 # ?r 10008" using replicate_add [of 3 10008 "0 :: u8"] by (simp add: numeral_eq_Suc [of "num.One"] numeral_3_eq_3)
  have size: "buf_setSize ?w new_buffer = Inr (?b (?r 10024))"
    using guards(3) by (simp add: buf_setSize_def new_buffer_def buf_new_def bcap_def bcap32_def)
  have f0: "buf_field p 0 13 = Inr 0" "buf_read p 0 13 = Inr idd"
    using guards(2) c idd by (simp_all add: buf_field_def buf_read_def bcap_def)
  have st: "pkt_store (?b (?r 10024)) 0 idd = Inr (?b (idd @ ?r 10011))"
    using ge(4) idd by (simp add: pkt_store_def buf_field_def buf_poke_def bcap_def mem_write_def)
  have p13: "buf_put (?b (idd @ ?r 10011)) 13 0xff = Inr (?b (idd @ [0xff, 0, 0] @ ?r 10008))"
    using ge(1) idd by (simp add: buf_put_def r3 list_update_append)
  have p14: "buf_put (?b (idd @ [0xff, 0, 0] @ ?r 10008)) 14 t = Inr (?b (idd @ [0xff, t, 0] @ ?r 10008))" for t
    using ge(2) idd by (simp add: buf_put_def list_update_append)
  have p15: "buf_put (?b (idd @ [0xff, t, 0] @ ?r 10008)) 15 0 = Inr (?b (idd @ [0xff, t, 0] @ ?r 10008))" for t
    using ge(3) idd by (simp add: buf_put_def list_update_append)
  have fs: "buf_field p (of_nat s) (of_nat l) = Inr s" "buf_read p s l = Inr bs"
    using guards(1) us bs assms(3) c by (simp_all add: buf_field_def buf_read_def bcap_def)
  have d3: "drop (3 + l) (x # y # z # xs) = drop l xs" for x y z :: u8 and xs by (simp add: numeral_3_eq_3)
  have t3: "take (3 + l) (x # y # z # xs) = x # y # z # take l xs" for x y z :: u8 and xs by (simp add: numeral_3_eq_3)
  have last: "buf_field (?b (idd @ [0xff, t, 0] @ ?r 10008)) 16 (of_nat l) = Inr 16"
    "buf_poke (?b (idd @ [0xff, t, 0] @ ?r 10008)) 16 bs = Inr (?b (idd @ [0xff, t, 0] @ bs @ ?r (10008 - l)))" for t
    using ge(5) idd bs(2) assms(4) by (simp_all add: buf_field_def buf_poke_def bcap_def mem_write_def d3)
  have "frag_init new_buffer p (of_nat s) (of_nat l) no tot = Inr (?b (idd @ [0xff, piece_tag tot no, 0] @ bs @ ?r (10008 - l)))"
    unfolding frag_init_def if_not_P [OF guards(1)] size bind_res_simps f0 st p13 piece_tag_def p14 p15 fs us(2) last ..
  moreover have "bdata (?b (idd @ [0xff, piece_tag tot no, 0] @ bs @ ?r (10008 - l))) = idd @ [0xff, piece_tag tot no, 0] @ bs"
    using idd bs(2) us(3) by (simp add: bdata_def t3)
  ultimately show ?thesis by (simp add: idd_def bs_def)
qed

text \<open>The loop makes the pieces in order, as long as each begins inside the packet.\<close>

lemma frag_loop_pieces:
  assumes "pbuf_ok p" "13 \<le> bsize p" "16 < unat mtu" "tot < 2 ^ 31" "1 \<le> no" "no \<le> tot"
    "\<And>j. no \<le> j \<Longrightarrow> j < tot \<Longrightarrow> unat mtu + (j - 1) * (unat mtu - 16) < bsize p"
    "no < tot \<Longrightarrow> s = unat mtu + (no - 1) * (unat mtu - 16)" "no < tot \<Longrightarrow> r = bsize p - s"
  shows "frag_loop p mtu (of_nat s) (of_nat r) (of_nat no) (of_nat tot) =
    Inr (map (sent_piece (bdata p) (unat mtu) tot) [no..<tot])"
  using assms(5-)
proof (induction "tot - no" arbitrary: no s r)
  case 0
  then have "\<not> (of_nat no :: u32) < of_nat tot" by simp
  then show ?case using 0 by (simp add: frag_loop.simps)
next
  case (Suc n)
  let ?M = "unat mtu" and ?N = "bsize p"
  define l where "l = min r (?M - 16)"
  have lt: "no < tot" using Suc.hyps(2) by simp
  have s: "s = ?M + (no - 1) * (?M - 16)" "r = ?N - s" "s < ?N" using Suc.prems(3-5) lt by auto
  have N: "?N \<le> 10024" using assms(1) by (auto simp: pbuf_ok_def dest: smallD(3))
  have "?M \<le> s" using s(1) by simp
  moreover have "l \<le> r" "l \<le> ?M - 16" by (simp_all add: l_def)
  ultimately have lb: "s + l \<le> ?N" "l \<le> 10008" "l \<le> r" using s(2,3) N assms(3) by linarith+
  have lim: "r < 2 ^ 31" "l < 2 ^ 31" using s(2) N lb by simp_all
  have ur: "unat (of_nat r :: u32) = r" "unat (of_nat l :: u32) = l" by (rule unat_of_nat_u32, rule lim)+
  moreover have "unat (mtu - 16) = ?M - 16" using assms(3) by (simp add: unat_sub_if')
  ultimately have ur: "unat (of_nat r :: u32) = r" "unat (mtu - 16) = ?M - 16" "unat (of_nat l :: u32) = l" by blast+
  have chunk: "min (of_nat r) (mtu - 16) = of_nat l"
    unfolding word_unat_eq_iff min_def word_le_nat_alt using ur lb by (auto simp: l_def min_def)
  have guard: "(of_nat no :: u32) < of_nat tot"
    using lt assms(4) by (simp add: word_less_nat_alt unat_of_nat_u32)
  have data: "take l (drop s (bdata p)) = take (?M - 16) (drop s (bdata p))"
    using s assms(1) by (auto simp: l_def min_def pbuf_ok_def)
  obtain f where f: "frag_init new_buffer p (of_nat s) (of_nat l) (of_nat no) (of_nat tot) = Inr f"
    "bdata f = sent_piece (bdata p) ?M tot no"
    using frag_init_data [OF assms(1,2) lb(1,2), of "of_nat no" "of_nat tot"]
    unfolding sent_piece_def data s(1) [symmetric] by blast
  have full: "l = ?M - 16" if "Suc no < tot"
  proof -
    have "?M + (Suc no - 1) * (?M - 16) < ?N" using Suc.prems(3) [of "Suc no"] that by simp
    moreover have "(Suc no - 1) * (?M - 16) = (no - 1) * (?M - 16) + (?M - 16)" using Suc.prems(1) by (cases no) simp_all
    ultimately have "?M - 16 \<le> r" using s(1,2) by linarith
    then show ?thesis by (simp add: l_def)
  qed
  have next_s: "s + l = ?M + (Suc no - 1) * (?M - 16)" if "Suc no < tot"
    using full [OF that] s(1) Suc.prems(1) by (cases no) simp_all
  have IH: "frag_loop p mtu (of_nat (s + l)) (of_nat (r - l)) (of_nat (Suc no)) (of_nat tot) =
      Inr (map (sent_piece (bdata p) ?M tot) [Suc no..<tot])"
  proof (rule Suc.hyps(1))
    show "n = tot - Suc no" "1 \<le> Suc no" "Suc no \<le> tot" using Suc.hyps(2) lt by simp_all
    show "?M + (j - 1) * (?M - 16) < ?N" if "Suc no \<le> j" "j < tot" for j using Suc.prems(3) that by simp
    show "s + l = ?M + (Suc no - 1) * (?M - 16)" if "Suc no < tot" by (rule next_s [OF that])
    show "r - l = ?N - (s + l)" using s(2) by simp
  qed
  have w: "of_nat s + of_nat l = (of_nat (s + l) :: u32)" "of_nat r - of_nat l = (of_nat (r - l) :: u32)"
    "of_nat no + 1 = (of_nat (Suc no) :: u32)" using lb(3) by (simp_all add: of_nat_diff)
  show ?case
    by (subst frag_loop.simps)
      (simp only: if_P [OF guard] Let_def chunk w f IH bind_res_simps upt_conv_Cons [OF lt] list.map)
qed

text \<open>Cutting a list into chunks.\<close>

lemma concat_chunks: "concat (map (\<lambda>j. take c (drop (j * c) xs)) [0..<k]) = take (k * c) xs"
proof (induction k)
  case (Suc k)
  then show ?case using take_add [of "k * c" c xs] by (simp add: add.commute)
qed simp

lemma whole_sent:
  assumes "length P \<le> M + k * (M - 16)" "13 \<le> length P"
  shows "whole k (\<lambda>i. if i = 0 then take M P else sent_piece P M tot i) = P"
proof -
  let ?c = "M - 16"
  have "map (\<lambda>i. drop 16 (if i = 0 then take M P else sent_piece P M tot i)) [1..<Suc k] =
      map (\<lambda>i. take ?c (drop (M + (i - 1) * ?c) P)) [1..<Suc k]"
    using assms(2) by (intro map_cong) (auto simp: sent_piece_def)
  also have "\<dots> = map (\<lambda>j. take ?c (drop (j * ?c) (drop M P))) [0..<k]"
    unfolding map_Suc_upt [symmetric] One_nat_def by (simp add: add.commute)
  finally have "whole k (\<lambda>i. if i = 0 then take M P else sent_piece P M tot i) = take M P @ take (k * ?c) (drop M P)"
    unfolding whole_def concat_chunks [symmetric] by simp
  then show ?thesis using assms(1) by simp
qed

definition sent_frame :: "u8 list \<Rightarrow> nat \<Rightarrow> nat \<Rightarrow> nat \<Rightarrow> u8 list" where
  "sent_frame P M k i = (if i = 0 then take M P else sent_piece P M (Suc k) i)"

lemma send_frames_pieces:
  assumes "pbuf_ok p" "28 \<le> unat mtu" "unat mtu < bsize p"
  obtains k where "1 \<le> k" "unat mtu + (k - 1) * (unat mtu - 16) < bsize p" "bsize p \<le> unat mtu + k * (unat mtu - 16)"
    "send_frames mtu p = Inr (map (sent_frame (bdata p) (unat mtu) k) [0..<Suc k])"
proof -
  define M c R where "M = unat mtu" and "c = unat mtu - 16" and "R = bsize p - unat mtu"
  have N: "bsize p \<le> 10024" "length (bmem p) = 10024" using assms(1) by (auto simp: pbuf_ok_def bcap_def dest: smallD(3))
  have c: "0 < c" "R < 2 ^ 31" "0 < R" using assms(2,3) N(1) by (simp_all add: c_def R_def)
  define k where "k = (if R div c * c < R then R div c + 1 else R div c)"
  have q: "R div c * c \<le> R" "R < R div c * c + c" using c(1) div_mult_mod_eq [of R c] mod_less_divisor [of c R] by linarith+
  have k1: "1 \<le> k" using c(3) q by (cases "R div c") (auto simp: k_def)
  have kR: "(k - 1) * c < R" "R \<le> k * c"
  proof -
    show "R \<le> k * c" using q by (auto simp: k_def)
    show "(k - 1) * c < R"
    proof (cases "R div c * c < R")
      case True
      then show ?thesis by (simp add: k_def)
    next
      case False
      then have "R = k * c" using q(1) by (simp add: k_def)
      moreover have "(k - 1) * c < k * c" using k1 c(1) by simp
      ultimately show ?thesis by simp
    qed
  qed
  have Rc: "R div c \<le> R" by (rule div_le_dividend)
  have k31: "Suc k < 2 ^ 31"
  proof -
    have "k \<le> R div c + 1" by (simp add: k_def)
    then have "k \<le> R + 1" using Rc by linarith
    then show ?thesis using N(1) by (simp add: R_def)
  qed
  have bound: "M + (k - 1) * c < bsize p" "bsize p \<le> M + k * c" using kR assms(3) by (simp_all add: M_def R_def)
  have ch: "min (blen p) mtu = mtu" "mtu < blen p" using assms(3) by (simp_all add: bsize_def word_less_nat_alt min_def word_le_nat_alt)
  have rem: "blen p - mtu = of_nat R" "mtu - 16 = of_nat c"
    using assms(2,3) N(1)
    by (simp_all add: word_unat_eq_iff unat_sub_if' unat_of_nat R_def c_def bsize_def)
  have uw: "unat (of_nat R div of_nat c :: u32) = R div c"
  proof -
    have "unat (of_nat R :: u32) = R" "unat (of_nat c :: u32) = c"
      using c(2) assms(3) N(1) by (simp_all add: unat_of_nat_u32 c_def)
    then show ?thesis by (simp add: unat_div)
  qed
  have fr: "(if of_nat R div of_nat c * of_nat c < (of_nat R :: u32) then of_nat R div of_nat c + 1 else of_nat R div of_nat c) = (of_nat k :: u32)"
  proof -
    have d: "of_nat R div of_nat c = (of_nat (R div c) :: u32)" unfolding uw [symmetric] by simp
    have "unat (of_nat (R div c) * of_nat c :: u32) = R div c * c"
      unfolding of_nat_mult [symmetric] by (rule unat_of_nat_u32) (rule le_less_trans [OF q(1) c(2)])
    then have "of_nat (R div c) * of_nat c < (of_nat R :: u32) \<longleftrightarrow> R div c * c < R"
      using c(2) by (simp add: word_less_nat_alt unat_of_nat_u32)
    then show ?thesis unfolding d k_def by simp
  qed
  have "frag_loop p mtu (of_nat M) (of_nat R) (of_nat 1) (of_nat (Suc k)) = Inr (map (sent_piece (bdata p) M (Suc k)) [1..<Suc k])"
    unfolding M_def
  proof (rule frag_loop_pieces [OF assms(1)])
    show "unat mtu + (j - 1) * (unat mtu - 16) < bsize p" if "1 \<le> j" "j < Suc k" for j
    proof -
      have "(j - 1) * c \<le> (k - 1) * c" using that by (intro mult_le_mono1) linarith
      then show ?thesis using bound(1) unfolding M_def c_def by linarith
    qed
  qed (use assms k31 R_def in simp_all)
  then have loop: "frag_loop p mtu mtu (of_nat R) 1 (of_nat k + 1) = Inr (map (sent_piece (bdata p) M (Suc k)) [1..<Suc k])"
    by (simp add: M_def add.commute)
  have head: "take (unat mtu) (bmem p) = take M (bdata p)" using assms(3) by (simp add: M_def bdata_def min_def)
  have tail: "map (sent_piece (bdata p) M (Suc k)) [1..<Suc k] = map (sent_frame (bdata p) M k) [1..<Suc k]"
    by (rule map_cong) (auto simp: sent_frame_def)
  have first: "take M (bdata p) = sent_frame (bdata p) M k 0" by (simp add: sent_frame_def)
  have "send_frames mtu p = Inr (map (sent_frame (bdata p) M k) (0 # [1..<Suc k]))"
    unfolding send_frames_def Let_def ch(1) if_P [OF ch(2)] rem fr loop bind_res_simps head tail first list.map ..
  moreover have "0 # [1..<Suc k] = [0..<Suc k]" by (simp add: upt_conv_Cons)
  ultimately have "send_frames mtu p = Inr (map (sent_frame (bdata p) M k) [0..<Suc k])" by (simp only:)
  then show ?thesis using that [of k] k1 bound unfolding M_def c_def by blast
qed

lemma piece_tags: "\<forall>k\<in>set [0..<7]. \<forall>i\<in>set [0..<7]. piece_tag (of_nat (Suc k)) (of_nat i) = of_nat (16 * Suc k + i)"
  by code_simp

lemma piece_tag_small: "k \<le> 6 \<Longrightarrow> i \<le> 6 \<Longrightarrow> piece_tag (of_nat (Suc k)) (of_nat i) = of_nat (16 * Suc k + i)"
  using piece_tags by (simp del: of_nat_Suc of_nat_add of_nat_mult mult_Suc_right)

text \<open>A packet that its pieces carry to the node \<open>self\<close>.\<close>

definition carried :: "address \<Rightarrow> u8 list \<Rightarrow> bool" where
  "carried self P \<longleftrightarrow> addr_setTo (drop 8 P) 5 = self \<and> addr_setTo (drop 13 P) 5 \<noteq> self \<and>
     P ! 13 \<noteq> 0xff \<and> P ! 18 AND 0x40 \<noteq> 0"

lemma sent_pieces_ok:
  assumes "carried self P" "28 \<le> M" "M < length P" "length P \<le> 10024" "1 \<le> k" "k \<le> 6"
    "M + (k - 1) * (M - 16) < length P" "length P \<le> M + k * (M - 16)"
  shows "pieces_ok self (be_val (take 8 P)) k (sent_frame P M k)" "whole k (sent_frame P M k) = P"
proof -
  have addr: "addr_setTo (take n xs) 5 = addr_setTo xs 5" if "5 \<le> n" for n and xs :: "u8 list"
    using that by (auto simp: addr_setTo_def min_def)
  have addr5: "addr_setTo (take 5 xs @ ys) 5 = addr_setTo xs 5" if "5 \<le> length xs" for xs ys :: "u8 list"
    using that by (simp add: addr_setTo_def nth_append min_def)
  have fr: "sent_frame P M k = (\<lambda>i. if i = 0 then take M P else sent_piece P M (Suc k) i)"
    by (rule ext) (simp add: sent_frame_def)
  show w: "whole k (sent_frame P M k) = P" unfolding fr using assms by (intro whole_sent) simp_all
  have start: "M + (i - 1) * (M - 16) < length P" if "i \<in> {1..k}" for i
  proof -
    have "(i - 1) * (M - 16) \<le> (k - 1) * (M - 16)" using that by (intro mult_le_mono1) auto
    then show ?thesis using assms(7) by linarith
  qed
  have split: "take 13 P = take 8 P @ take 5 (drop 8 P)" using take_add [of 8 5 P] by simp
  show "pieces_ok self (be_val (take 8 P)) k (sent_frame P M k)"
    unfolding pieces_ok_def w
  proof (intro conjI allI ballI impI)
    fix i assume i: "i \<le> k"
    show "be_val (take 8 (sent_frame P M k i)) = be_val (take 8 P)"
      using assms(2,3) by (simp add: sent_frame_def sent_piece_def min_def)
    show "addr_setTo (drop 8 (sent_frame P M k i)) 5 = self"
      using assms(1-3) addr [of "M - 8"] by (simp add: sent_frame_def sent_piece_def split addr5 carried_def drop_take)
  next
    fix i assume i: "i \<in> {1..k}"
    show "16 < length (sent_frame P M k i)" using start [OF i] i assms(2,3) by (simp add: sent_frame_def sent_piece_def)
    show "length (sent_frame P M k i) \<le> 10024" using i assms(2-4) by (simp add: sent_frame_def sent_piece_def)
    show "sent_frame P M k i ! 13 = 0xff" using i assms(2,3) by (simp add: sent_frame_def sent_piece_def nth_append)
    show "sent_frame P M k i ! 14 = of_nat (16 * Suc k + i)"
      using i assms(2,3,6) piece_tag_small [of k i]
      by (simp add: sent_frame_def sent_piece_def nth_append del: of_nat_Suc of_nat_add of_nat_mult mult_Suc_right)
  next
    show "addr_setTo (drop 13 (sent_frame P M k 0)) 5 \<noteq> self"
      using assms(1-3) addr [of "M - 13"] by (simp add: sent_frame_def carried_def drop_take)
  qed (use assms in \<open>simp_all add: sent_frame_def carried_def\<close>)
qed

lemma arrivals_cong:
  "list_all (arrival_ok self pid k) xs \<Longrightarrow> (\<And>i. i \<le> k \<Longrightarrow> fr i = fr' i) \<Longrightarrow> arrivals fr xs = arrivals fr' xs"
  by (auto simp: arrivals_def list_all_iff split: arrival.splits)

section \<open>Properties\<close>

text \<open>
  The condition the next properties share: after \<open>xs\<close>, the frame \<open>i\<close> of the \<open>n\<close> pieces is the
  one that was missing, and at most 31 frames of other packets came in between.
\<close>

definition completes :: "address \<Rightarrow> u64 \<Rightarrow> nat \<Rightarrow> (rx_env \<times> arrival) list \<Rightarrow> rx_env \<Rightarrow> nat \<Rightarrow> bool" where
  "completes self pid n xs ev i \<longleftrightarrow> list_all (arrival_ok self pid (n - 1)) (xs @ [(ev, Piece i)]) \<and>
     others xs \<le> 31 \<and> insert i (seen xs) = {0..<n} \<and> i \<notin> seen xs"

text \<open>
  Claim C3: what the sender cuts, the receiver puts together. A packet longer than the MTU that
  needs at most seven pieces is sent as the smallest number of frames, none longer than the MTU;
  and whatever the order in which the other node's switch gets them, with any number of
  duplicates and up to 31 frames of other packets in between, no piece but the last missing one
  produces anything, and that one hands the decoder exactly the packet.
\<close>

theorem fragment_roundtrip:
  assumes "pbuf_ok p" "carried self (bdata p)" "28 \<le> unat mtu" "unat mtu < bsize p"
    "bsize p \<le> unat mtu + 6 * (unat mtu - 16)"
  shows "\<exists>frames. send_frames mtu p = Inr frames \<and> (\<forall>f\<in>set frames. length f \<le> unat mtu) \<and>
    unat mtu + (length frames - 2) * (unat mtu - 16) < bsize p \<and>
    bsize p \<le> unat mtu + (length frames - 1) * (unat mtu - 16) \<and>
    (\<forall>sw xs ev i. fresh_queue (be_val (take 8 (bdata p))) (sw_rx sw) \<longrightarrow>
       completes self (be_val (take 8 (bdata p))) (length frames) xs ev i \<longrightarrow>
       (\<exists>oss b. snd (rx_run (arrivals ((!) frames) (xs @ [(ev, Piece i)])) sw) = oss @ [[Decode b]] \<and>
          bdata b = bdata p \<and> list_all2 (\<lambda>(ev, a) os. is_other a \<or> os = []) xs oss))"
proof -
  obtain k where k: "1 \<le> k" "unat mtu + (k - 1) * (unat mtu - 16) < bsize p" "bsize p \<le> unat mtu + k * (unat mtu - 16)"
    "send_frames mtu p = Inr (map (sent_frame (bdata p) (unat mtu) k) [0..<Suc k])"
    by (rule send_frames_pieces [OF assms(1,3,4)])
  have N: "length (bdata p) = bsize p" "bsize p \<le> 10024" using assms(1) by (auto simp: pbuf_ok_def dest: smallD(3))
  have k6: "k \<le> 6"
  proof (rule ccontr)
    assume "\<not> k \<le> 6"
    then have "6 * (unat mtu - 16) \<le> (k - 1) * (unat mtu - 16)" by (intro mult_le_mono1) simp
    then show False using k(2) assms(5) by linarith
  qed
  define frames where "frames = map (sent_frame (bdata p) (unat mtu) k) [0..<Suc k]"
  have n: "length frames = Suc k" "\<And>i. i \<le> k \<Longrightarrow> frames ! i = sent_frame (bdata p) (unat mtu) k i"
    by (simp_all add: frames_def del: upt_Suc)
  note ok = sent_pieces_ok [OF assms(2,3) _ _ k(1) k6, unfolded N(1), OF assms(4) N(2) k(2,3)]
  have short: "\<forall>f\<in>set frames. length f \<le> unat mtu"
    using assms(3) N(1) by (auto simp: frames_def sent_frame_def sent_piece_def simp del: upt_Suc)
  have "\<exists>oss b. snd (rx_run (arrivals ((!) frames) (xs @ [(ev, Piece i)])) sw) = oss @ [[Decode b]] \<and>
      bdata b = bdata p \<and> list_all2 (\<lambda>(ev, a) os. is_other a \<or> os = []) xs oss"
    if q: "fresh_queue (be_val (take 8 (bdata p))) (sw_rx sw)"
      and c: "completes self (be_val (take 8 (bdata p))) (length frames) xs ev i" for sw xs ev i
  proof -
    have c': "list_all (arrival_ok self (be_val (take 8 (bdata p))) k) (xs @ [(ev, Piece i)])" "others xs \<le> 31"
      "insert i (seen xs) = {0..k}" "i \<notin> seen xs"
      using c unfolding completes_def n(1) atLeastLessThanSuc_atLeastAtMost by simp_all
    have "arrivals ((!) frames) (xs @ [(ev, Piece i)]) = arrivals (sent_frame (bdata p) (unat mtu) k) (xs @ [(ev, Piece i)])"
      by (rule arrivals_cong [OF c'(1) n(2)])
    then show ?thesis using reassembly [OF ok(1) q c'] by (simp only: ok(2))
  qed
  then show ?thesis
    using k short n(1) frames_def by (intro exI [of _ frames]) simp
qed

text \<open>A packet of 60 bytes over an MTU of 40, and a queue as it is at the start.\<close>

definition demo_cut :: zbuf where
  "demo_cut = \<lparr>bmem = [1,2,3,4,5,6,7,8, 0,0,0,0,9, 0,0,0,0,7, 0x40] @ replicate 41 5 @ replicate 9964 0, blen = 60\<rparr>"

definition demo_self :: address where
  "demo_self = addr_setTo [0,0,0,0,9] 5"

definition demo_env :: rx_env where
  "demo_env = \<lparr>ev_self = demo_self, ev_now = 1000, ev_amUpstream = False, ev_trusted = False, ev_direct = (\<lambda>_. False),
     ev_known = (\<lambda>_. False), ev_upstream = None, ev_up_sent = False, ev_decode = (\<lambda>b. (True, b))\<rparr>"

definition demo_switch :: switch where
  "demo_switch = \<lparr>sw_rx = \<lparr>rslots = replicate 32 \<lparr>rts = 0, rid = 0, rfrag0 = new_buffer, rfrags = replicate 6 new_buffer,
     rtotal = 0, rhave = 0, rcomplete = False\<rparr>, rptr = 0\<rparr>, sw_unite = (\<lambda>_. 0)\<rparr>"

definition demo_came :: "(rx_env \<times> arrival) list" where
  "demo_came = [(demo_env, Piece 1), (demo_env, Other (replicate 28 1)), (demo_env, Piece 1)]"

lemma demo_cut_data:
  "pbuf_ok demo_cut" "bdata demo_cut = [1,2,3,4,5,6,7,8, 0,0,0,0,9, 0,0,0,0,7, 0x40] @ replicate 41 5" "bsize demo_cut = 60"
  by (simp_all add: demo_cut_def pbuf_ok_def small_def buf_ok_def bcap_def bsize_def bdata_def)

lemma demo_carried: "carried demo_self (bdata demo_cut)"
  unfolding demo_cut_data demo_self_def by code_simp

lemma demo_id: "be_val (take 8 (bdata demo_cut)) = (0x0102030405060708 :: u64)"
  unfolding demo_cut_data by code_simp

lemma demo_other: "be_val (replicate 8 1) = (0x0101010101010101 :: u64)"
  by code_simp

lemma demo_fresh: "fresh_queue 0x0102030405060708 (sw_rx demo_switch)"
  by (simp add: fresh_queue_def rx_wf_def demo_switch_def new_buffer_ok)

lemma demo_arrivals: "list_all (arrival_ok demo_self 0x0102030405060708 1) (demo_came @ [(demo_env, Piece 0)])"
  by (simp add: demo_came_def demo_env_def dec_law_def demo_other)

lemma fragment_roundtrip_witness:
  "\<exists>frames. send_frames 40 demo_cut = Inr frames \<and>
    (\<exists>oss b. snd (rx_run (arrivals ((!) frames) (demo_came @ [(demo_env, Piece 0)])) demo_switch) = oss @ [[Decode b]] \<and>
       bdata b = bdata demo_cut)"
proof -
  have m: "unat (40 :: u32) = 40" by simp
  have h: "28 \<le> (40 :: nat)" "40 < (60 :: nat)" "60 \<le> 40 + 6 * (40 - 16 :: nat)" by simp_all
  obtain frames where f: "send_frames 40 demo_cut = Inr frames"
    "40 + (length frames - 2) * (40 - 16) < (60 :: nat)" "60 \<le> 40 + (length frames - 1) * (40 - 16 :: nat)"
    "\<And>sw xs ev i. fresh_queue 0x0102030405060708 (sw_rx sw) \<Longrightarrow> completes demo_self 0x0102030405060708 (length frames) xs ev i \<Longrightarrow>
       \<exists>oss b. snd (rx_run (arrivals ((!) frames) (xs @ [(ev, Piece i)])) sw) = oss @ [[Decode b]] \<and> bdata b = bdata demo_cut"
    using fragment_roundtrip [OF demo_cut_data(1) demo_carried, of 40, unfolded m demo_cut_data(3) demo_id, OF h] by blast
  have n: "length frames = 2" using f(2,3) by simp
  have "completes demo_self 0x0102030405060708 (length frames) demo_came demo_env 0"
    unfolding completes_def n using demo_arrivals by (auto simp: demo_came_def)
  from f(4) [OF demo_fresh this] f(1) show ?thesis by blast
qed

text \<open>
  Claim C30: reassembly ends. If every piece of a well-formed packet of at most seven pieces is
  somewhere among the frames that arrive, of which at most 31 belong to other packets, the
  decoder is handed the packet.
\<close>

theorem fragments_delivered:
  assumes "pieces_ok self pid k fr" "fresh_queue pid (sw_rx sw)" "list_all (arrival_ok self pid k) xs"
    "others xs \<le> 31" "seen xs = {0..k}"
  shows "\<exists>os\<in>set (snd (rx_run (arrivals fr xs) sw)). \<exists>b. os = [Decode b] \<and> bdata b = whole k fr"
  using assms(3-)
proof (induction xs rule: rev_induct)
  case Nil
  then show ?case by simp
next
  case (snoc x xs)
  obtain ev a where x: "x = (ev, a)" by fastforce
  show ?case
  proof (cases "seen xs = {0..k}")
    case True
    then have "\<exists>os\<in>set (snd (rx_run (arrivals fr xs) sw)). \<exists>b. os = [Decode b] \<and> bdata b = whole k fr"
      using snoc by simp
    then show ?thesis by (auto simp: rx_run_append case_prod_beta)
  next
    case False
    then obtain i where a: "a = Piece i" using snoc.prems(3) by (cases a) (simp_all add: x)
    then have "insert i (seen xs) = {0..k}" "i \<notin> seen xs" using snoc.prems(3) False by (auto simp: x)
    moreover have "others xs \<le> 31" using snoc.prems(2) by simp
    ultimately show ?thesis
      using reassembly [OF assms(1,2), of xs ev i] snoc.prems(1) by (auto simp: x a)
  qed
qed

lemma fragments_delivered_witness:
  "\<exists>os\<in>set (snd (rx_run (arrivals (sent_frame (bdata demo_cut) 40 1) (demo_came @ [(demo_env, Piece 0)])) demo_switch)).
     \<exists>b. os = [Decode b] \<and> bdata b = bdata demo_cut"
proof -
  have n: "length (bdata demo_cut) = 60" by (simp add: demo_cut_data)
  have "pieces_ok demo_self 0x0102030405060708 1 (sent_frame (bdata demo_cut) 40 1)"
    "whole 1 (sent_frame (bdata demo_cut) 40 1) = bdata demo_cut"
    using sent_pieces_ok [OF demo_carried, of 40 1] unfolding n demo_id by simp_all
  moreover have "others (demo_came @ [(demo_env, Piece 0)]) \<le> 31" "seen (demo_came @ [(demo_env, Piece 0)]) = {0..1}"
    by (auto simp: demo_came_def)
  ultimately show ?thesis
    using fragments_delivered [OF _ demo_fresh demo_arrivals, of "sent_frame (bdata demo_cut) 40 1"] by simp
qed

text \<open>
  A packet cut into more than seven pieces never arrives: the switch ignores every fragment
  that says so. At the default MTU of 1432 that is any packet of 9929 bytes or more.
\<close>

lemma many_pieces_ignored:
  assumes "pbuf_ok f" "bdata f = frame" "16 < length frame" "receive_fragment ev f sw = Inr (sw', os)"
    "drop_bit 4 (ucast (frame ! 14)) AND 0xf > (7 :: u32)"
  shows "sw' = sw \<and> os = []"
proof -
  have "buf_get f 14 = Inr (frame ! 14)" using get_bdata [OF assms(1), of 14] assms(2,3) by simp
  then have "totalFragments f = Inr (drop_bit 4 (ucast (frame ! 14)) AND 0xf)" by (simp add: totalFragments_def)
  then show ?thesis
    using assms(4,5) by (auto simp: receive_fragment_def bind_res_def split: sum.splits if_splits)
qed

text \<open>
  The test for completeness counts the pieces without asking which they are: fragments 1 and 2
  of a packet that says it has two pieces complete it, with whatever the slot's head buffer held.
\<close>

lemma no_head_completes:
  assumes "rid e = pid" "rhave e = 2" "rtotal e = 2"
  shows "rx_fragment dec now pid 2 2 f e =
    rx_assemble dec 2 (e\<lparr>rfrags := (rfrags e)[1 := f], rtotal := 2, rhave := 6\<rparr>)"
proof -
  have "(2 AND push_bit (unat (2 :: u32)) 1 :: u32) = 0" "(2 OR push_bit (unat (2 :: u32)) 1 :: u32) = 6" "countBits 6 = 2"
    by code_simp+
  then show ?thesis using assms by (simp add: rx_fragment_def)
qed

end
