(* ===== verification/ZT_Filter.thy ===== *)
theory ZT_Filter
  imports ZT_Membership
begin

text \<open>
  The rules engine of \<^verbatim>\<open>node/Network.cpp\<close>: \<^verbatim>\<open>_doZtFilter\<close> runs a list of flow rules on an
  Ethernet frame, \<^verbatim>\<open>filterOutgoingPacket\<close> and \<^verbatim>\<open>filterIncomingPacket\<close> run the network's rules
  and then the capabilities. A byte read past the end of the frame is \<open>UndefinedBehaviour\<close>.
  Positions in a frame are natural numbers: a frame is far shorter than 4 GiB, so that the
  code's \<^verbatim>\<open>unsigned int\<close> sums do not wrap. The log of rule results goes to the trace and is left out.
\<close>

section \<open>Frames\<close>

definition fbyte :: "u8 list \<Rightarrow> nat \<Rightarrow> u8 res" where
  "fbyte f i = (if i < length f then Inr (f ! i) else Inl UndefinedBehaviour)"

definition fbytes :: "u8 list \<Rightarrow> nat \<Rightarrow> nat \<Rightarrow> u8 list res" where
  "fbytes f i n = (if i + n \<le> length f then Inr (take n (drop i f)) else Inl UndefinedBehaviour)"

text \<open>\<open>None\<close> is the code's \<^verbatim>\<open>false\<close>; otherwise the position and the protocol of the payload.\<close>

function ipv6_walk :: "u8 list \<Rightarrow> nat \<Rightarrow> u8 \<Rightarrow> (nat \<times> u8) option res" where
  "ipv6_walk f pos proto =
     (if pos \<le> length f then
        (if proto = 0 \<or> proto = 43 \<or> proto = 60 \<or> proto = 135 then
           (if pos + 8 > length f then Inr None
            else bind_res (fbyte f pos) (\<lambda>proto'. bind_res (fbyte f (pos + 1)) (\<lambda>l.
                 ipv6_walk f (pos + (unat l * 8 + 8)) proto')))
         else Inr (Some (pos, proto)))
      else Inr None)"
  by pat_completeness auto
termination
  by (relation "measure (\<lambda>(f, pos, proto). Suc (length f) - pos)") auto

declare ipv6_walk.simps [simp del]

definition ipv6GetPayload :: "u8 list \<Rightarrow> (nat \<times> u8) option res" where
  "ipv6GetPayload f = (if length f < 40 then Inr None else bind_res (fbyte f 6) (ipv6_walk f 40))"

section \<open>State\<close>

datatype zt_filter = DOZTFILTER_NO_MATCH | DOZTFILTER_DROP | DOZTFILTER_REDIRECT | DOZTFILTER_ACCEPT | DOZTFILTER_SUPER_ACCEPT

text \<open>
  What a run of the filter sees; \<open>fe_rand n\<close> is the random number drawn at rule \<open>n\<close>.
\<close>

record filter_env =
  fe_self :: address
  fe_conf :: netconf
  fe_member :: "membership option"
  fe_inbound :: bool
  fe_source :: address
  fe_macSource :: mac
  fe_macDest :: mac
  fe_frame :: "u8 list"
  fe_etherType :: u32
  fe_vlanId :: u32
  fe_rand :: "nat \<Rightarrow> u64"

text \<open>The parameters the run changes, and its local variables.\<close>

record filter_state =
  fs_dest :: address
  fs_cc :: address
  fs_ccLength :: nat
  fs_ccWatch :: bool
  fs_qos :: u8
  fs_super :: bool
  fs_matches :: bool
  fs_skipDrop :: bool

definition is_v4 :: "filter_env \<Rightarrow> bool" where
  "is_v4 e \<longleftrightarrow> fe_etherType e = 0x800 \<and> length (fe_frame e) \<ge> 20"

definition is_v6 :: "filter_env \<Rightarrow> bool" where
  "is_v6 e \<longleftrightarrow> fe_etherType e = 0x86dd \<and> length (fe_frame e) \<ge> 40"

text \<open>The NOT and OR bits of a rule.\<close>

definition rule_not :: "rule \<Rightarrow> bool" where
  "rule_not r \<longleftrightarrow> drop_bit 7 (r_t r) AND 1 \<noteq> 0"

definition rule_or :: "rule \<Rightarrow> bool" where
  "rule_or r \<longleftrightarrow> r_t r AND 0x40 \<noteq> 0"

section \<open>Matches\<close>

text \<open>
  A match returns whether it matches and whether it sets \<^verbatim>\<open>skipDrop\<close>. \<open>hardNo\<close> and \<open>hardYes\<close>
  are the results that the NOT bit turns into no and yes.
\<close>

definition match_ip :: "bool \<Rightarrow> bool \<Rightarrow> nat \<Rightarrow> nat \<Rightarrow> u8 list \<Rightarrow> u8 \<Rightarrow> u8 list \<Rightarrow> bool res" where
  "match_ip hardNo ok off n ip bits f =
     (if ok then bind_res (fbytes f off n) (\<lambda>a.
        inet_containsAddress (inet_set ip n (ucast bits)) (inet_set a n 0))
      else Inr hardNo)"

definition match_tos :: "filter_env \<Rightarrow> bool \<Rightarrow> u8 \<Rightarrow> u8 \<Rightarrow> u8 \<Rightarrow> bool res" where
  "match_tos e hardNo bits v0 v1 =
     (if is_v4 e then
        bind_res (fbyte (fe_frame e) 1) (\<lambda>b1. Inr (b1 AND bits \<ge> v0 \<and> b1 AND bits \<le> v1))
      else if is_v6 e then
        bind_res (fbyte (fe_frame e) 0) (\<lambda>b0. bind_res (fbyte (fe_frame e) 1) (\<lambda>b1.
          let tos = ((push_bit 4 b0 AND 0xf0) OR (drop_bit 4 b1 AND 0x0f)) AND bits in Inr (tos \<ge> v0 \<and> tos \<le> v1)))
      else Inr hardNo)"

definition match_proto :: "filter_env \<Rightarrow> bool \<Rightarrow> u8 \<Rightarrow> bool res" where
  "match_proto e hardNo v =
     (if is_v4 e then bind_res (fbyte (fe_frame e) 9) (\<lambda>b. Inr (v = b))
      else if fe_etherType e = 0x86dd then
        bind_res (ipv6GetPayload (fe_frame e)) (\<lambda>p. case p of
          Some (pos, proto) \<Rightarrow> Inr (v = proto) | None \<Rightarrow> Inr hardNo)
      else Inr hardNo)"

definition match_icmp_at :: "filter_env \<Rightarrow> bool \<Rightarrow> u8 \<Rightarrow> u8 \<Rightarrow> u8 \<Rightarrow> nat \<Rightarrow> bool res" where
  "match_icmp_at e hardNo ty code flags pos =
     bind_res (fbyte (fe_frame e) pos) (\<lambda>b.
       if ty = b then
         (if flags AND 0x01 \<noteq> 0 then bind_res (fbyte (fe_frame e) (pos + 1)) (\<lambda>c. Inr (c = code))
          else Inr (\<not> hardNo))
       else Inr hardNo)"

definition match_icmp :: "filter_env \<Rightarrow> bool \<Rightarrow> u8 \<Rightarrow> u8 \<Rightarrow> u8 \<Rightarrow> bool res" where
  "match_icmp e hardNo ty code flags =
     (if is_v4 e then
        bind_res (fbyte (fe_frame e) 9) (\<lambda>proto.
        if proto = 0x01 then
          bind_res (fbyte (fe_frame e) 0) (\<lambda>b0.
          let ihl = unat (b0 AND 0xf) * 4 in
          if length (fe_frame e) \<ge> ihl + 2 then match_icmp_at e hardNo ty code flags ihl else Inr hardNo)
        else Inr hardNo)
      else if fe_etherType e = 0x86dd then
        bind_res (ipv6GetPayload (fe_frame e)) (\<lambda>p. case p of
          Some (pos, proto) \<Rightarrow>
            if proto = 0x3a \<and> length (fe_frame e) \<ge> pos + 2 then match_icmp_at e hardNo ty code flags pos else Inr hardNo
        | None \<Rightarrow> Inr hardNo)
      else Inr hardNo)"

text \<open>The protocols that start with a source and a destination port.\<close>

definition has_ports :: "u8 \<Rightarrow> bool" where
  "has_ports proto \<longleftrightarrow> proto = 0x06 \<or> proto = 0x11 \<or> proto = 0x84 \<or> proto = 0x88"

definition read_port :: "u8 list \<Rightarrow> nat \<Rightarrow> nat res" where
  "read_port f pos = bind_res (fbyte f pos) (\<lambda>h. bind_res (fbyte f (pos + 1)) (\<lambda>l. Inr (unat h * 256 + unat l)))"

text \<open>\<open>None\<close> is the code's \<^verbatim>\<open>-1\<close>.\<close>

definition frame_port :: "u8 list \<Rightarrow> bool \<Rightarrow> nat \<Rightarrow> u8 \<Rightarrow> nat option res" where
  "frame_port f dst pos proto =
     (if has_ports proto \<and> length f > pos + 4
      then bind_res (read_port f (pos + (if dst then 2 else 0))) (\<lambda>p. Inr (Some p)) else Inr None)"

definition match_port :: "filter_env \<Rightarrow> bool \<Rightarrow> bool \<Rightarrow> u16 \<Rightarrow> u16 \<Rightarrow> bool res" where
  "match_port e hardNo dst p0 p1 =
     (if is_v4 e then
        bind_res (fbyte (fe_frame e) 0) (\<lambda>b0. bind_res (fbyte (fe_frame e) 9) (\<lambda>proto.
        bind_res (frame_port (fe_frame e) dst (4 * unat (b0 AND 0xf)) proto) (\<lambda>p.
          Inr (case p of Some p \<Rightarrow> p \<ge> unat p0 \<and> p \<le> unat p1 | None \<Rightarrow> False))))
      else if fe_etherType e = 0x86dd then
        bind_res (ipv6GetPayload (fe_frame e)) (\<lambda>q. case q of
          Some (pos, proto) \<Rightarrow>
            bind_res (frame_port (fe_frame e) dst pos proto) (\<lambda>p.
              Inr (case p of Some p \<Rightarrow> p > 0 \<and> p \<ge> unat p0 \<and> p \<le> unat p1 | None \<Rightarrow> False))
        | None \<Rightarrow> Inr hardNo)
      else Inr hardNo)"

text \<open>Whether any certificate of the list owns the thing: all of them are asked.\<close>

fun coos_own :: "(coo \<Rightarrow> bool res) \<Rightarrow> coo list \<Rightarrow> bool res" where
  "coos_own own [] = Inr False"
| "coos_own own (c # cs) = bind_res (own c) (\<lambda>a. bind_res (coos_own own cs) (\<lambda>b. Inr (a \<or> b)))"

text \<open>
  The address the sender claims: whether it is taken as authenticated, and the address, zero for
  none. A neighbour solicitation is, a neighbour advertisement carries its address as target.
\<close>

definition claimed_source :: "filter_env \<Rightarrow> (bool \<times> inet) res" where
  "claimed_source e =
     (let f = fe_frame e in
      if is_v4 e then bind_res (fbytes f 12 4) (\<lambda>a. Inr (False, inet_set a 4 0))
      else if is_v6 e then
        bind_res (fbyte f 6) (\<lambda>proto.
        bind_res (if length f \<ge> 40 + 8 + 16 \<and> proto = 0x3a then fbyte f 40 else Inr 0) (\<lambda>ty.
        if ty = 0x87 then Inr (True, inet_zero)
        else if ty = 0x88 then bind_res (fbytes f (40 + 8) 16) (\<lambda>a. Inr (False, inet_set a 16 0))
        else bind_res (fbytes f 8 16) (\<lambda>a. Inr (False, inet_set a 16 0))))
      else if fe_etherType e = 0x0806 \<and> length f \<ge> 28 then bind_res (fbytes f 14 4) (\<lambda>a. Inr (False, inet_set a 4 0))
      else Inr (False, inet_zero))"

definition ip_flag :: "bool \<Rightarrow> u64" where
  "ip_flag b = (if b then 0x1000000000000000 else 0)"

definition mac_flag :: "bool \<Rightarrow> u64" where
  "mac_flag b = (if b then 0x0800000000000000 else 0)"

definition ownershipVerificationMask :: "filter_env \<Rightarrow> u64 res" where
  "ownershipVerificationMask e =
     bind_res (claimed_source e) (\<lambda>(ns, src).
     if fe_inbound e then
       (case fe_member e of
          None \<Rightarrow> Inr (ip_flag ns)
        | Some m \<Rightarrow>
            bind_res (if inet_bool src then hasCertificateOfOwnershipFor_ip (fe_conf e) src m else Inr False) (\<lambda>a.
            bind_res (hasCertificateOfOwnershipFor_mac (fe_conf e) (fe_macSource e) m) (\<lambda>b.
              Inr (ip_flag ns OR ip_flag a OR mac_flag b))))
     else
       bind_res (if inet_bool src then coos_own (\<lambda>c. coo_owns_ip c src) (nc_coos (fe_conf e)) else Inr False) (\<lambda>a.
       bind_res (coos_own (\<lambda>c. coo_owns_mac c (fe_macSource e)) (nc_coos (fe_conf e))) (\<lambda>b.
         Inr (ip_flag ns OR ip_flag a OR mac_flag b))))"

text \<open>The flags of a TCP header at \<open>pos\<close>, read from the frame without a check of its own.\<close>

definition tcp_flags :: "u8 list \<Rightarrow> nat \<Rightarrow> u64 res" where
  "tcp_flags f pos =
     bind_res (fbyte f (pos + 13)) (\<lambda>lo. bind_res (fbyte f (pos + 12)) (\<lambda>hi.
       Inr (ucast lo OR push_bit 8 (ucast (hi AND 0x0f)))))"

definition frame_tcp_flags :: "filter_env \<Rightarrow> u64 res" where
  "frame_tcp_flags e =
     (let f = fe_frame e;
          v6 = (if fe_etherType e = 0x86dd then
                  bind_res (ipv6GetPayload f) (\<lambda>q. case q of
                    Some (pos, proto) \<Rightarrow> if proto = 0x06 \<and> length f > pos + 14 then tcp_flags f pos else Inr 0
                  | None \<Rightarrow> Inr 0)
                else Inr 0)
      in if is_v4 e then
           bind_res (fbyte f 9) (\<lambda>proto.
           if proto = 0x06 then bind_res (fbyte f 0) (\<lambda>b0. tcp_flags f (4 * unat (b0 AND 0xf))) else v6)
         else v6)"

definition characteristics :: "filter_env \<Rightarrow> u64 res" where
  "characteristics e =
     bind_res (ownershipVerificationMask e) (\<lambda>own. bind_res (frame_tcp_flags e) (\<lambda>tcp.
       Inr ((if fe_inbound e then 0x8000000000000000 else 0)
         OR (if mac_isMulticast (fe_macDest e) then 0x4000000000000000 else 0)
         OR (if mac_isBroadcast (fe_macDest e) then 0x2000000000000000 else 0) OR own OR tcp)))"

text \<open>
  \<^verbatim>\<open>std::lower_bound\<close> on the configuration's tags, which are sorted by id: the first tag whose
  id is not less. It counts when its id is the one sought.
\<close>

definition local_tag :: "netconf \<Rightarrow> u32 \<Rightarrow> tag option" where
  "local_tag nc i =
     (case dropWhile (\<lambda>t. tag_id t < i) (nc_tags nc) of
        [] \<Rightarrow> None
      | t # _ \<Rightarrow> if tag_id t = i then Some t else None)"

definition remote_tag :: "filter_env \<Rightarrow> u32 \<Rightarrow> tag option" where
  "remote_tag e i = Option.bind (fe_member e) (getTag (fe_conf e) i)"

definition tag_test :: "u8 \<Rightarrow> u32 \<Rightarrow> u32 \<Rightarrow> u32 \<Rightarrow> bool" where
  "tag_test rt v ltv rtv =
     (if rt = 44 then (if ltv > rtv then ltv - rtv else rtv - ltv) \<le> v
      else if rt = 45 then ltv AND rtv = v
      else if rt = 46 then ltv OR rtv = v
      else if rt = 47 then ltv XOR rtv = v
      else ltv = v \<and> rtv = v)"

definition match_tags :: "filter_env \<Rightarrow> bool \<Rightarrow> bool \<Rightarrow> u8 \<Rightarrow> u32 \<Rightarrow> u32 \<Rightarrow> bool \<times> bool" where
  "match_tags e super hardNo rt i v =
     (case local_tag (fe_conf e) i of
        None \<Rightarrow> (hardNo, False)
      | Some l \<Rightarrow>
          (case remote_tag e i of
             Some r \<Rightarrow> (tag_test rt v (tag_value l) (tag_value r), False)
           | None \<Rightarrow> if fe_inbound e \<and> \<not> super then (hardNo, False) else (\<not> hardNo, True)))"

definition match_tag_of :: "filter_env \<Rightarrow> bool \<Rightarrow> bool \<Rightarrow> bool \<Rightarrow> u32 \<Rightarrow> u32 \<Rightarrow> bool \<times> bool" where
  "match_tag_of e super hardNo sender i v =
     (if super then (\<not> hardNo, True)
      else if sender = fe_inbound e then
        (case remote_tag e i of
           Some r \<Rightarrow> (tag_value r = v, False)
         | None \<Rightarrow> if \<not> sender then (\<not> hardNo, True) else (hardNo, False))
      else
        (case local_tag (fe_conf e) i of
           Some l \<Rightarrow> (tag_value l = v, False)
         | None \<Rightarrow> (hardNo, False)))"

text \<open>The integer at a place of the frame; zero where it is not inside.\<close>

definition int_be :: "u8 list \<Rightarrow> u64" where
  "int_be bs = fold (\<lambda>b i. push_bit 8 i OR ucast b) bs 0"

definition int_le :: "u8 list \<Rightarrow> u64" where
  "int_le bs = fold (\<lambda>b i. drop_bit 8 i OR push_bit 56 (ucast b)) bs 0"

definition frame_integer :: "u8 list \<Rightarrow> u16 \<Rightarrow> u8 \<Rightarrow> u64 res" where
  "frame_integer f idx format =
     (let bits = unat (format AND 63) + 1; bytes = (bits + 8 - 1) div 8 in
      if format AND 0x80 = 0 then
        (let i = unat idx + (8 - bytes) in
         bind_res (if i + bytes \<le> length f then fbytes f i bytes else Inr []) (\<lambda>bs.
           Inr (int_be bs AND drop_bit (64 - bits) 0xffffffffffffffff)))
      else
        (let i = unat idx in
         bind_res (if i + bytes \<le> length f then fbytes f i bytes else Inr []) (\<lambda>bs.
           Inr (drop_bit (64 - bits) (int_le bs)))))"

definition match_int :: "u8 list \<Rightarrow> u64 \<Rightarrow> u32 \<Rightarrow> u16 \<Rightarrow> u8 \<Rightarrow> bool res" where
  "match_int f start end idx format =
     bind_res (frame_integer f idx format) (\<lambda>i. Inr (i \<ge> start \<and> i \<le> start + ucast end))"

definition plain :: "bool res \<Rightarrow> (bool \<times> bool) res" where
  "plain m = bind_res m (\<lambda>b. Inr (b, False))"

definition rule_match :: "filter_env \<Rightarrow> nat \<Rightarrow> address \<Rightarrow> bool \<Rightarrow> rule \<Rightarrow> (bool \<times> bool) res" where
  "rule_match e rn dest super r =
     (let rt = rtype r; v = r_v r; hardNo = rule_not r; f = fe_frame e in
      if rt = 24 then plain (bind_res (as_zt v) (\<lambda>a. Inr (a = addr_int (fe_source e))))
      else if rt = 25 then plain (bind_res (as_zt v) (\<lambda>a. Inr (a = addr_int dest)))
      else if rt = 26 then plain (bind_res (as_vlanid v) (\<lambda>a. Inr (a = ucast (fe_vlanId e))))
      else if rt = 27 then plain (bind_res (as_vlanpcp v) (\<lambda>a. Inr (a = 0)))
      else if rt = 28 then plain (bind_res (as_vlandei v) (\<lambda>a. Inr (a = 0)))
      else if rt = 29 then plain (bind_res (as_mac v) (\<lambda>m. Inr (mac_setTo m 6 = fe_macSource e)))
      else if rt = 30 then plain (bind_res (as_mac v) (\<lambda>m. Inr (mac_setTo m 6 = fe_macDest e)))
      else if rt = 31 then plain (bind_res (as_ip4 v) (\<lambda>(ip, m). match_ip hardNo (is_v4 e) 12 4 ip m f))
      else if rt = 32 then plain (bind_res (as_ip4 v) (\<lambda>(ip, m). match_ip hardNo (is_v4 e) 16 4 ip m f))
      else if rt = 33 then plain (bind_res (as_ip6 v) (\<lambda>(ip, m). match_ip hardNo (is_v6 e) 8 16 ip m f))
      else if rt = 34 then plain (bind_res (as_ip6 v) (\<lambda>(ip, m). match_ip hardNo (is_v6 e) 24 16 ip m f))
      else if rt = 35 then plain (bind_res (as_tos v) (\<lambda>(m, v0, v1). match_tos e hardNo m v0 v1))
      else if rt = 36 then plain (bind_res (as_proto v) (match_proto e hardNo))
      else if rt = 37 then plain (bind_res (as_ether v) (\<lambda>t. Inr (t = ucast (fe_etherType e))))
      else if rt = 38 then plain (bind_res (as_icmp v) (\<lambda>(ty, code, fl). match_icmp e hardNo ty code fl))
      else if rt = 39 then plain (bind_res (as_port v) (\<lambda>(p0, p1). match_port e hardNo False p0 p1))
      else if rt = 40 then plain (bind_res (as_port v) (\<lambda>(p0, p1). match_port e hardNo True p0 p1))
      else if rt = 41 then plain (bind_res (characteristics e) (\<lambda>cf. bind_res (as_char v) (\<lambda>c. Inr (cf AND c \<noteq> 0))))
      else if rt = 42 then plain (bind_res (as_frame v) (\<lambda>(s0, s1). Inr (length f \<ge> unat s0 \<and> length f \<le> unat s1)))
      else if rt = 43 then plain (bind_res (as_rand v) (\<lambda>p. Inr ((ucast (fe_rand e rn AND 0xffffffff) :: u32) \<le> p)))
      else if rt = 44 \<or> rt = 45 \<or> rt = 46 \<or> rt = 47 \<or> rt = 48 then
        bind_res (as_tag v) (\<lambda>(i, x). Inr (match_tags e super hardNo rt i x))
      else if rt = 49 \<or> rt = 50 then
        bind_res (as_tag v) (\<lambda>(i, x). Inr (match_tag_of e super hardNo (rt = 49) i x))
      else if rt = 51 then plain (bind_res (as_int v) (\<lambda>(s, en, idx, fmt). match_int f s en idx fmt))
      else Inr (nc_flags (fe_conf e) AND 8 \<noteq> 0, False))"

section \<open>The run\<close>

text \<open>An action either ends the run or lets it go on with the next rule.\<close>

datatype filter_flow = Done zt_filter filter_state | Next filter_state

definition forward_action :: "filter_env \<Rightarrow> u8 \<Rightarrow> u64 \<Rightarrow> u16 \<Rightarrow> filter_state \<Rightarrow> filter_flow" where
  "forward_action e rt addr len s =
     (let fwd = addr_of addr in
      if fwd = fe_source e then Next s
      else if fwd = fe_self e then (if fe_inbound e then Done DOZTFILTER_SUPER_ACCEPT s else Next s)
      else if fwd = fs_dest s then Next s
      else if rt = 4 then Done DOZTFILTER_REDIRECT (s\<lparr>fs_dest := fwd\<rparr>)
      else Next (s\<lparr>fs_cc := fwd,
             fs_ccLength := (if len \<noteq> 0 then (if length (fe_frame e) < unat len then length (fe_frame e) else unat len)
                             else length (fe_frame e)),
             fs_ccWatch := (rt = 3)\<rparr>))"

definition action_step :: "filter_env \<Rightarrow> rule \<Rightarrow> filter_state \<Rightarrow> filter_flow res" where
  "action_step e r s =
     (let rt = rtype r in
      if fs_matches s then
        (if rt = 6 then bind_res (as_qos (r_v r)) (\<lambda>q. Inr (Done DOZTFILTER_ACCEPT (s\<lparr>fs_qos := (if q \<le> 8 then q else 4)\<rparr>)))
         else if rt = 0 then
           Inr (if fs_skipDrop s then Next (s\<lparr>fs_skipDrop := False\<rparr>) else Done DOZTFILTER_DROP s)
         else if rt = 1 then Inr (Done (if fs_super s then DOZTFILTER_SUPER_ACCEPT else DOZTFILTER_ACCEPT) s)
         else if rt = 2 \<or> rt = 3 \<or> rt = 4 then
           bind_res (as_fwd (r_v r)) (\<lambda>(addr, flags, len). Inr (forward_action e rt addr len s))
         else if rt = 5 then Inr (Done DOZTFILTER_NO_MATCH s)
         else Inr (Next s))
      else
        bind_res (if fe_inbound e \<and> (rt = 2 \<or> rt = 3 \<or> rt = 4)
                  then bind_res (as_fwd (r_v r)) (\<lambda>(addr, flags, len). Inr (addr_eq_int (fe_self e) addr)) else Inr False)
          (\<lambda>target. Inr (Next (s\<lparr>fs_super := fs_super s \<or> target, fs_matches := True\<rparr>))))"

definition match_step :: "filter_env \<Rightarrow> nat \<Rightarrow> rule \<Rightarrow> filter_state \<Rightarrow> filter_state res" where
  "match_step e rn r s =
     (if \<not> fs_matches s \<and> \<not> rule_or r then Inr s
      else bind_res (rule_match e rn (fs_dest s) (fs_super s) r) (\<lambda>(m, skip).
        let m' = (m \<noteq> rule_not r) in
        Inr (s\<lparr>fs_skipDrop := fs_skipDrop s \<or> skip,
               fs_matches := (if rule_or r then fs_matches s \<or> m' else fs_matches s \<and> m')\<rparr>)))"

fun filter_loop :: "filter_env \<Rightarrow> nat \<Rightarrow> rule list \<Rightarrow> filter_state \<Rightarrow> (zt_filter \<times> filter_state) res" where
  "filter_loop e rn [] s = Inr (DOZTFILTER_NO_MATCH, s)"
| "filter_loop e rn (r # rs) s =
     (if rtype r \<le> 15 then
        bind_res (action_step e r s) (\<lambda>fl. case fl of
          Done z s' \<Rightarrow> Inr (z, s') | Next s' \<Rightarrow> filter_loop e (rn + 1) rs s')
      else bind_res (match_step e rn r s) (filter_loop e (rn + 1) rs))"

definition doZtFilter :: "filter_env \<Rightarrow> rule list \<Rightarrow> filter_state \<Rightarrow> (zt_filter \<times> filter_state) res" where
  "doZtFilter e rules s = filter_loop e 0 rules (s\<lparr>fs_super := False, fs_matches := True, fs_skipDrop := False\<rparr>)"

section \<open>Packets of a network\<close>

text \<open>
  The parts of a \<^verbatim>\<open>Network\<close> the filters use. An outgoing packet of the network is its destination
  and the bytes after the verb, which is \<^verbatim>\<open>EXT_FRAME\<close>. \<open>nw_alloc\<close> is whether the membership table can grow.
\<close>

record network =
  nw_id :: u64
  nw_config :: netconf
  nw_memberships :: "(address, membership) htable"
  nw_out_accepted :: u64
  nw_out_dropped :: u64
  nw_in_accepted :: u64
  nw_in_dropped :: u64

datatype ext_frame = ExtFrame address "u8 list"

definition nw_membership :: "(nat \<Rightarrow> bool) \<Rightarrow> address \<Rightarrow> network \<Rightarrow> network" where
  "nw_membership alloc a nw = nw\<lparr>nw_memberships := ht_index alloc hc_addr mb_new a (nw_memberships nw)\<rparr>"

text \<open>A frame on a wire between two nodes, as the filters get it.\<close>

record wire_frame =
  wf_macSource :: mac
  wf_macDest :: mac
  wf_data :: "u8 list"
  wf_etherType :: u32
  wf_vlanId :: u32

definition tee_frame :: "network \<Rightarrow> wire_frame \<Rightarrow> u8 \<Rightarrow> address \<Rightarrow> nat \<Rightarrow> ext_frame" where
  "tee_frame nw w flags dest len =
     ExtFrame dest (be_bytes 8 (nw_id nw) @ [flags] @ mac_bytes (wf_macDest w) @ mac_bytes (wf_macSource w)
       @ be_bytes 2 (ucast (wf_etherType w) :: u16) @ take len (wf_data w))"

definition wire_env :: "address \<Rightarrow> netconf \<Rightarrow> membership option \<Rightarrow> bool \<Rightarrow> address \<Rightarrow> wire_frame \<Rightarrow> (nat \<Rightarrow> u64) \<Rightarrow> filter_env" where
  "wire_env self nc m inbound source w rnd =
     \<lparr>fe_self = self, fe_conf = nc, fe_member = m, fe_inbound = inbound, fe_source = source,
      fe_macSource = wf_macSource w, fe_macDest = wf_macDest w, fe_frame = wf_data w,
      fe_etherType = wf_etherType w, fe_vlanId = wf_vlanId w, fe_rand = rnd\<rparr>"

definition start_state :: "address \<Rightarrow> u8 \<Rightarrow> filter_state" where
  "start_state dest qos =
     \<lparr>fs_dest = dest, fs_cc = addr_nil, fs_ccLength = 0, fs_ccWatch = False, fs_qos = qos,
      fs_super = False, fs_matches = True, fs_skipDrop = False\<rparr>"

text \<open>
  The capabilities in turn, until one does more than drop: the result is that capability's
  verdict with its state, or \<open>None\<close> with the bucket as the last run left it. \<open>rnd n\<close> are the
  random numbers of run \<open>n\<close>; run 0 is the network's own rules.
\<close>

fun caps_filter :: "(nat \<Rightarrow> filter_env) \<Rightarrow> address \<Rightarrow> nat \<Rightarrow> capability list \<Rightarrow> u8 \<Rightarrow> ((zt_filter \<times> filter_state) option \<times> u8) res" where
  "caps_filter env dest n [] qos = Inr (None, qos)"
| "caps_filter env dest n (c # cs) qos =
     bind_res (doZtFilter (env n) (cap_rules c) (start_state dest qos)) (\<lambda>(z, s).
       if z = DOZTFILTER_NO_MATCH \<or> z = DOZTFILTER_DROP then caps_filter env dest (n + 1) cs (fs_qos s)
       else Inr (Some (z, s), fs_qos s))"

definition cc_frames :: "network \<Rightarrow> wire_frame \<Rightarrow> u8 \<Rightarrow> u8 \<Rightarrow> filter_state \<Rightarrow> ext_frame list" where
  "cc_frames nw w plainFlag watchFlag s =
     (if addr_bool (fs_cc s) then [tee_frame nw w (if fs_ccWatch s then watchFlag else plainFlag) (fs_cc s) (fs_ccLength s)] else [])"

definition filterOutgoingPacket ::
  "address \<Rightarrow> (nat \<Rightarrow> nat \<Rightarrow> u64) \<Rightarrow> bool \<Rightarrow> address \<Rightarrow> address \<Rightarrow> wire_frame \<Rightarrow> u8 \<Rightarrow> network \<Rightarrow>
   (bool \<times> u8 \<times> network \<times> ext_frame list) res" where
  "filterOutgoingPacket self rnd noTee source dest w qos nw =
     (let m = (if addr_bool dest then ht_get hc_addr (nw_memberships nw) dest else None);
          env = (\<lambda>n. wire_env self (nw_config nw) m False source w (rnd n)) in
      bind_res (doZtFilter (env 0) (nc_rules (nw_config nw)) (start_state dest qos)) (\<lambda>(z, s).
      if z = DOZTFILTER_DROP then Inr (False, fs_qos s, nw, [])
      else bind_res (if z = DOZTFILTER_NO_MATCH
                     then bind_res (caps_filter env dest 1 (nc_capabilities (nw_config nw)) (fs_qos s)) (\<lambda>(r, q).
                       case r of
                         None \<Rightarrow> Inr (False, dest, q, [])
                       | Some (z2, s2) \<Rightarrow> Inr (True, fs_dest s2, q, if noTee then [] else cc_frames nw w 0x02 0x16 s2))
                     else Inr (True, fs_dest s, fs_qos s, []))
        (\<lambda>(accept, final, q, out).
           if accept then
             (let nw' = nw\<lparr>nw_out_accepted := nw_out_accepted nw + 1\<rparr>;
                  out' = out @ (if noTee then [] else cc_frames nw w 0x02 0x16 s) in
              if dest \<noteq> final \<and> addr_bool final
              then Inr (False, q, nw', out' @ [tee_frame nw w 0x04 final (length (wf_data w))])
              else Inr (True, q, nw', out'))
           else Inr (False, q, nw\<lparr>nw_out_dropped := nw_out_dropped nw + 1\<rparr>, []))))"

text \<open>The capabilities of a membership that are valid now, in the order of its iterator.\<close>

fun capIter_all :: "netconf \<Rightarrow> membership \<Rightarrow> nat \<Rightarrow> (u32, capability) hiter \<Rightarrow> capability list" where
  "capIter_all nc m 0 it = []"
| "capIter_all nc m (Suc n) it =
     (case capIter_next nc m (Suc (hcount (mb_caps m))) it of
        None \<Rightarrow> []
      | Some (c, it') \<Rightarrow> c # capIter_all nc m n it')"

definition valid_caps :: "netconf \<Rightarrow> membership \<Rightarrow> capability list" where
  "valid_caps nc m = capIter_all nc m (Suc (hcount (mb_caps m))) (iter_new (mb_caps m))"

definition filterIncomingPacket ::
  "(nat \<Rightarrow> bool) \<Rightarrow> address \<Rightarrow> (nat \<Rightarrow> nat \<Rightarrow> u64) \<Rightarrow> address \<Rightarrow> address \<Rightarrow> wire_frame \<Rightarrow> network \<Rightarrow>
   (nat \<times> network \<times> ext_frame list) res" where
  "filterIncomingPacket alloc self rnd source dest w nw =
     (let nw = nw_membership alloc source nw;
          m = (case ht_get hc_addr (nw_memberships nw) source of Some m \<Rightarrow> m | None \<Rightarrow> mb_new);
          env = (\<lambda>n. wire_env self (nw_config nw) (Some m) True source w (rnd n)) in
      bind_res (doZtFilter (env 0) (nc_rules (nw_config nw)) (start_state dest 255)) (\<lambda>(z, s).
      if z = DOZTFILTER_DROP then Inr (0, nw, [])
      else bind_res (if z = DOZTFILTER_NO_MATCH
                     then bind_res (caps_filter env dest 1 (valid_caps (nw_config nw) m) (fs_qos s)) (\<lambda>(r, q).
                       case r of
                         None \<Rightarrow> Inr (0, dest, [])
                       | Some (z2, s2) \<Rightarrow>
                           Inr (if z2 = DOZTFILTER_SUPER_ACCEPT then 2 else 1, fs_dest s2, cc_frames nw w 0x08 0x1c s2))
                     else Inr (if z = DOZTFILTER_SUPER_ACCEPT then 2 else 1, fs_dest s, []))
        (\<lambda>(accept, final, out).
           if accept \<noteq> 0 then
             (let nw' = nw\<lparr>nw_in_accepted := nw_in_accepted nw + 1\<rparr>;
                  out' = out @ cc_frames nw w 0x08 0x1c s in
              if dest \<noteq> final \<and> addr_bool final
              then Inr (0, nw', out' @ [tee_frame nw w 0x0a final (length (wf_data w))])
              else Inr (accept, nw', out'))
           else Inr (0, nw\<lparr>nw_in_dropped := nw_in_dropped nw + 1\<rparr>, []))))"

section \<open>Where the filter is defined\<close>

definition returns :: "'a res \<Rightarrow> bool" where
  "returns m \<longleftrightarrow> (\<exists>x. m = Inr x)"

named_theorems returns_intros

lemma returns_Inr [simp, returns_intros]: "returns (Inr x)"
  by (simp add: returns_def)

lemma returns_bind [returns_intros]: "returns m \<Longrightarrow> (\<And>x. m = Inr x \<Longrightarrow> returns (f x)) \<Longrightarrow> returns (bind_res m f)"
  by (auto simp: returns_def)

lemma returns_if [returns_intros]: "(c \<Longrightarrow> returns a) \<Longrightarrow> (\<not> c \<Longrightarrow> returns b) \<Longrightarrow> returns (if c then a else b)"
  by simp

lemma returns_fbyte [returns_intros]: "i < length f \<Longrightarrow> returns (fbyte f i)"
  by (simp add: fbyte_def)

lemma returns_fbytes [returns_intros]: "i + n \<le> length f \<Longrightarrow> returns (fbytes f i n)"
  by (simp add: fbytes_def)

lemma fbytes_length: "fbytes f i n = Inr bs \<Longrightarrow> length bs = n"
  by (auto simp: fbytes_def split: if_splits)

lemma returns_plain [returns_intros]: "returns m \<Longrightarrow> returns (plain m)"
  by (auto simp: plain_def returns_def)

text \<open>The walk over IPv6 extension headers ends inside the frame.\<close>

lemma ipv6_walk_inside:
  "40 \<le> pos \<Longrightarrow> returns (ipv6_walk f pos proto) \<and>
     (ipv6_walk f pos proto = Inr (Some (q, pr)) \<longrightarrow> 40 \<le> q \<and> q \<le> length f \<and> pr \<noteq> 0 \<and> pr \<noteq> 43 \<and> pr \<noteq> 60 \<and> pr \<noteq> 135)"
proof (induction f pos proto rule: ipv6_walk.induct)
  case (1 f pos proto)
  show ?case
  proof (cases "pos + 8 \<le> length f \<and> (proto = 0 \<or> proto = 43 \<or> proto = 60 \<or> proto = 135)")
    case True
    let ?n = "pos + (unat (f ! Suc pos) * 8 + 8)"
    have b: "fbyte f pos = Inr (f ! pos)" "fbyte f (Suc pos) = Inr (f ! Suc pos)" using True by (simp_all add: fbyte_def)
    have "ipv6_walk f pos proto = ipv6_walk f ?n (f ! pos)"
      using True b by (simp add: ipv6_walk.simps [of f pos proto])
    moreover have "returns (ipv6_walk f ?n (f ! pos)) \<and> (ipv6_walk f ?n (f ! pos) = Inr (Some (q, pr)) \<longrightarrow>
        40 \<le> q \<and> q \<le> length f \<and> pr \<noteq> 0 \<and> pr \<noteq> 43 \<and> pr \<noteq> 60 \<and> pr \<noteq> 135)"
      using 1 True b by auto
    ultimately show ?thesis by simp
  next
    case False
    then show ?thesis using "1.prems" by (auto simp: ipv6_walk.simps [of f pos proto])
  qed
qed

lemma returns_ipv6 [returns_intros]: "returns (ipv6GetPayload f)"
  unfolding ipv6GetPayload_def by (intro returns_intros) (use ipv6_walk_inside in auto)

lemma ipv6_inside: "ipv6GetPayload f = Inr (Some (q, pr)) \<Longrightarrow> 40 \<le> q \<and> q \<le> length f"
  using ipv6_walk_inside [of 40 f "f ! 6" q pr]
  by (auto simp: ipv6GetPayload_def fbyte_def split: if_splits)

lemma mask_port: "unat (ucast (ucast (ucast (m :: u8) :: u32) :: u16) :: u32) = unat m"
proof -
  have "unat m < 256" using unsigned_less [of m, where 'a = nat] by simp
  moreover have "(ucast (ucast (ucast m :: u32) :: u16) :: u32) = ucast m"
    by (rule bit_word_eqI) (auto simp: bit_ucast_iff dest: bit_imp_le_length)
  ultimately show ?thesis by (simp only: unsigned_ucast_eq) (simp add: take_bit_nat_eq_self)
qed

lemma returns_contains [returns_intros]:
  assumes "length ip = n" "length a = n" "n = 4 \<and> m \<le> 32 \<or> n = 16 \<and> m \<le> 128"
  shows "returns (inet_containsAddress (inet_set ip n (ucast (m :: u8))) (inet_set a n 0))"
  using assms(3)
proof
  assume m: "n = 4 \<and> m \<le> 32"
  note s = inet_set_fields [of ip] inet_set_fields [of a]
  have "inet_port (inet_set ip 4 (ucast m)) = ucast (ucast (ucast m :: u32) :: u16)"
    using assms(1) m s by (simp add: inet_port_def)
  then have "unat (inet_port (inet_set ip 4 (ucast m))) \<le> 32" using m by (simp add: mask_port word_le_nat_alt)
  then show ?thesis using containsAddress4 assms(1,2) m s by (auto simp: returns_def)
next
  assume m: "n = 16 \<and> m \<le> 128"
  note s = inet_set_fields6 [of ip] inet_set_fields6 [of a]
  have "inet_port (inet_set ip 16 (ucast m)) = ucast (ucast (ucast m :: u32) :: u16)"
    using assms(1) m s by (simp add: inet_port_def)
  then have "unat (inet_port (inet_set ip 16 (ucast m))) \<le> 128" using m by (simp add: mask_port word_le_nat_alt)
  then show ?thesis using containsAddress6 assms(1,2) m s by (auto simp: returns_def)
qed

text \<open>
  A rule that has the member its type uses, with a netmask of the family's length at most; a
  node whose stored certificates of ownership are in range; a frame whose TCP header, if it has one
  over IPv4, is inside it.
\<close>

definition rule_sound :: "rule \<Rightarrow> bool" where
  "rule_sound r \<longleftrightarrow>
     (case r_v r of
        VQos q \<Rightarrow> rtype r = 6
      | VIp4 ip m \<Rightarrow> rule_ok r \<and> m \<le> 32
      | VIp6 ip m \<Rightarrow> rule_ok r \<and> m \<le> 128
      | _ \<Rightarrow> rule_ok r)"

definition coos_sound :: "filter_env \<Rightarrow> bool" where
  "coos_sound e \<longleftrightarrow> (\<forall>c\<in>set (nc_coos (fe_conf e)). coo_thingCount c \<le> 16) \<and>
     (\<forall>m. fe_member e = Some m \<longrightarrow> ht_ok hc_u32 (mb_coos m) \<and>
        (\<forall>k c. ht_get hc_u32 (mb_coos m) k = Some c \<longrightarrow> coo_thingCount c \<le> 16))"

definition tcp_inside :: "filter_env \<Rightarrow> bool" where
  "tcp_inside e \<longleftrightarrow> (is_v4 e \<and> fe_frame e ! 9 = 0x06 \<longrightarrow> 4 * unat (fe_frame e ! 0 AND 0xf) + 14 \<le> length (fe_frame e))"

lemma returns_coo [returns_intros]:
  assumes "coo_thingCount c \<le> 16" shows "returns (coo_owns_ip c ip)" "returns (coo_owns_mac c ma)"
  using coo_owns_defined [OF assms] by (auto simp: returns_def coo_owns_ip_def coo_owns_mac_def)

lemma returns_coos_own: "(\<And>c. c \<in> set cs \<Longrightarrow> returns (own c)) \<Longrightarrow> returns (coos_own own cs)"
  by (induction cs) (auto intro!: returns_intros)

lemma returns_member:
  assumes "ht_ok hc_u32 (mb_coos m)" "\<And>k c. ht_get hc_u32 (mb_coos m) k = Some c \<Longrightarrow> coo_thingCount c \<le> 16"
  shows "returns (hasCertificateOfOwnershipFor_ip nc ip m)" "returns (hasCertificateOfOwnershipFor_mac nc ma m)"
proof -
  have own: "\<exists>x. coo_owns_ip c ip = Inr x" "\<exists>x. coo_owns_mac c ma = Inr x" if "ht_get hc_u32 (mb_coos m) k = Some c" for k c
    using returns_coo [OF assms(2) [OF that]] by (simp_all add: returns_def)
  have "returns (coo_search valid (\<lambda>c. coo_owns_ip c ip) (Suc (hcount (mb_coos m))) (mb_coos m) (iter_new (mb_coos m)))"
    "returns (coo_search valid (\<lambda>c. coo_owns_mac c ma) (Suc (hcount (mb_coos m))) (mb_coos m) (iter_new (mb_coos m)))" for valid
    using coo_search_stored [OF assms(1) own(1)] coo_search_stored [OF assms(1) own(2)] by (auto simp: returns_def)
  then show "returns (hasCertificateOfOwnershipFor_ip nc ip m)" "returns (hasCertificateOfOwnershipFor_mac nc ma m)"
    unfolding hasCertificateOfOwnershipFor_ip_def hasCertificateOfOwnershipFor_mac_def
    by (auto intro!: returns_intros)
qed

lemma is_v4_length: "is_v4 e \<Longrightarrow> 20 \<le> length (fe_frame e)"
  and is_v6_length: "is_v6 e \<Longrightarrow> 40 \<le> length (fe_frame e)"
  by (simp_all add: is_v4_def is_v6_def)

lemmas frame_lengths = is_v4_length is_v6_length

lemma returns_match_ip [returns_intros]:
  assumes "length ip = n" "n = 4 \<and> m \<le> 32 \<or> n = 16 \<and> m \<le> 128" "ok \<Longrightarrow> off + n \<le> length f"
  shows "returns (match_ip hardNo ok off n ip m f)"
  unfolding match_ip_def using assms by (auto intro!: returns_intros dest: fbytes_length)

lemma returns_match_tos [returns_intros]: "returns (match_tos e hardNo m v0 v1)"
  unfolding match_tos_def Let_def by (intro returns_intros) (auto dest: frame_lengths)

lemma returns_case_payload [returns_intros]:
  "(\<And>q pr. p = Some (q, pr) \<Longrightarrow> returns (F q pr)) \<Longrightarrow> returns G \<Longrightarrow>
    returns (case p of Some (q, pr) \<Rightarrow> F q pr | None \<Rightarrow> G)"
  by (auto split: option.split)

lemma returns_match_proto [returns_intros]: "returns (match_proto e hardNo v)"
  unfolding match_proto_def by (intro returns_intros) (auto dest: frame_lengths split: option.split)

lemma returns_icmp_at [returns_intros]: "pos + 2 \<le> length (fe_frame e) \<Longrightarrow> returns (match_icmp_at e hardNo ty code fl pos)"
  unfolding match_icmp_at_def by (intro returns_intros) auto

lemma returns_match_icmp [returns_intros]: "returns (match_icmp e hardNo ty code fl)"
  unfolding match_icmp_def Let_def by (intro returns_intros) (auto dest: frame_lengths)

lemma returns_port [returns_intros]: "returns (frame_port f dst pos proto)"
  unfolding frame_port_def read_port_def by (intro returns_intros) auto

lemma returns_match_port [returns_intros]: "returns (match_port e hardNo dst p0 p1)"
  unfolding match_port_def by (intro returns_intros) (auto dest: frame_lengths)

lemma returns_claimed [returns_intros]: "returns (claimed_source e)"
  unfolding claimed_source_def Let_def by (intro returns_intros) (auto dest: frame_lengths split: if_splits)

lemma returns_own_mask: "coos_sound e \<Longrightarrow> returns (ownershipVerificationMask e)"
  unfolding ownershipVerificationMask_def coos_sound_def
  by (auto intro!: returns_intros returns_coos_own returns_member split: option.split prod.split)

lemma returns_tcp_flags [returns_intros]: "pos + 14 \<le> length f \<Longrightarrow> returns (tcp_flags f pos)"
  unfolding tcp_flags_def by (intro returns_intros) auto

lemma returns_frame_tcp: "tcp_inside e \<Longrightarrow> returns (frame_tcp_flags e)"
  unfolding frame_tcp_flags_def Let_def tcp_inside_def
  by (intro returns_intros) (auto dest: frame_lengths simp: fbyte_def split: if_splits)

lemma returns_characteristics: "coos_sound e \<Longrightarrow> tcp_inside e \<Longrightarrow> returns (characteristics e)"
  unfolding characteristics_def by (intro returns_intros returns_own_mask returns_frame_tcp)

lemma returns_match_int [returns_intros]: "returns (match_int f s en idx fmt)"
  unfolding match_int_def frame_integer_def Let_def by (intro returns_intros) auto

text \<open>The member each type reads is the one a sound rule has.\<close>

lemma rule_class_of:
  "rtype r = 24 \<or> rtype r = 25 \<Longrightarrow> rule_class (r_t r) = CZt" "rtype r = 26 \<Longrightarrow> rule_class (r_t r) = CVlanId"
  "rtype r = 27 \<Longrightarrow> rule_class (r_t r) = CVlanPcp" "rtype r = 28 \<Longrightarrow> rule_class (r_t r) = CVlanDei"
  "rtype r = 29 \<or> rtype r = 30 \<Longrightarrow> rule_class (r_t r) = CMac" "rtype r = 31 \<or> rtype r = 32 \<Longrightarrow> rule_class (r_t r) = CIp4"
  "rtype r = 33 \<or> rtype r = 34 \<Longrightarrow> rule_class (r_t r) = CIp6" "rtype r = 35 \<Longrightarrow> rule_class (r_t r) = CTos"
  "rtype r = 36 \<Longrightarrow> rule_class (r_t r) = CProto" "rtype r = 37 \<Longrightarrow> rule_class (r_t r) = CEther"
  "rtype r = 38 \<Longrightarrow> rule_class (r_t r) = CIcmp" "rtype r = 39 \<or> rtype r = 40 \<Longrightarrow> rule_class (r_t r) = CPort"
  "rtype r = 41 \<Longrightarrow> rule_class (r_t r) = CChar" "rtype r = 42 \<Longrightarrow> rule_class (r_t r) = CFrame"
  "rtype r = 43 \<Longrightarrow> rule_class (r_t r) = CRand"
  "rtype r = 44 \<or> rtype r = 45 \<or> rtype r = 46 \<or> rtype r = 47 \<or> rtype r = 48 \<or> rtype r = 49 \<or> rtype r = 50 \<Longrightarrow> rule_class (r_t r) = CTag"
  "rtype r = 51 \<Longrightarrow> rule_class (r_t r) = CInt" "rtype r = 2 \<or> rtype r = 3 \<or> rtype r = 4 \<Longrightarrow> rule_class (r_t r) = CFwd"
  "rtype r = 6 \<Longrightarrow> rule_class (r_t r) = CNone"
  by (auto simp: rule_class_def rtype_def Let_def)

lemma sound_member:
  assumes "rule_sound r"
  shows "rule_class (r_t r) = CZt \<Longrightarrow> returns (as_zt (r_v r))" "rule_class (r_t r) = CVlanId \<Longrightarrow> returns (as_vlanid (r_v r))"
    "rule_class (r_t r) = CVlanPcp \<Longrightarrow> returns (as_vlanpcp (r_v r))" "rule_class (r_t r) = CVlanDei \<Longrightarrow> returns (as_vlandei (r_v r))"
    "rule_class (r_t r) = CMac \<Longrightarrow> returns (as_mac (r_v r))"
    "rule_class (r_t r) = CIp4 \<Longrightarrow> \<exists>ip m. as_ip4 (r_v r) = Inr (ip, m) \<and> length ip = 4 \<and> m \<le> 32"
    "rule_class (r_t r) = CIp6 \<Longrightarrow> \<exists>ip m. as_ip6 (r_v r) = Inr (ip, m) \<and> length ip = 16 \<and> m \<le> 128"
    "rule_class (r_t r) = CTos \<Longrightarrow> returns (as_tos (r_v r))" "rule_class (r_t r) = CProto \<Longrightarrow> returns (as_proto (r_v r))"
    "rule_class (r_t r) = CEther \<Longrightarrow> returns (as_ether (r_v r))" "rule_class (r_t r) = CIcmp \<Longrightarrow> returns (as_icmp (r_v r))"
    "rule_class (r_t r) = CPort \<Longrightarrow> returns (as_port (r_v r))" "rule_class (r_t r) = CChar \<Longrightarrow> returns (as_char (r_v r))"
    "rule_class (r_t r) = CFrame \<Longrightarrow> returns (as_frame (r_v r))" "rule_class (r_t r) = CRand \<Longrightarrow> returns (as_rand (r_v r))"
    "rule_class (r_t r) = CTag \<Longrightarrow> returns (as_tag (r_v r))" "rule_class (r_t r) = CInt \<Longrightarrow> returns (as_int (r_v r))"
    "rule_class (r_t r) = CFwd \<Longrightarrow> returns (as_fwd (r_v r))" "rtype r = 6 \<Longrightarrow> returns (as_qos (r_v r))"
  using assms rule_class_of(19) [of r]
  by (cases "r_v r"; force simp: rule_sound_def rule_ok_def as_defs)+

lemma returns_prod [returns_intros]: "(\<And>a b. x = (a, b) \<Longrightarrow> returns (f a b)) \<Longrightarrow> returns (case x of (a, b) \<Rightarrow> f a b)"
  by (cases x) simp

lemma returns_ip_member:
  assumes "rule_sound r" "ok \<Longrightarrow> off + n \<le> length f"
  shows "rule_class (r_t r) = CIp4 \<Longrightarrow> n = 4 \<Longrightarrow> returns (bind_res (as_ip4 (r_v r)) (\<lambda>(ip, m). match_ip hn ok off n ip m f))"
    "rule_class (r_t r) = CIp6 \<Longrightarrow> n = 16 \<Longrightarrow> returns (bind_res (as_ip6 (r_v r)) (\<lambda>(ip, m). match_ip hn ok off n ip m f))"
  using sound_member(6,7) [OF assms(1)] assms(2) by (auto intro!: returns_match_ip)

lemma typed_member:
  assumes "rule_sound r"
  shows "rtype r = 24 \<or> rtype r = 25 \<Longrightarrow> returns (as_zt (r_v r))" "rtype r = 26 \<Longrightarrow> returns (as_vlanid (r_v r))"
    "rtype r = 27 \<Longrightarrow> returns (as_vlanpcp (r_v r))" "rtype r = 28 \<Longrightarrow> returns (as_vlandei (r_v r))"
    "rtype r = 29 \<or> rtype r = 30 \<Longrightarrow> returns (as_mac (r_v r))" "rtype r = 35 \<Longrightarrow> returns (as_tos (r_v r))"
    "rtype r = 36 \<Longrightarrow> returns (as_proto (r_v r))" "rtype r = 37 \<Longrightarrow> returns (as_ether (r_v r))"
    "rtype r = 38 \<Longrightarrow> returns (as_icmp (r_v r))" "rtype r = 39 \<or> rtype r = 40 \<Longrightarrow> returns (as_port (r_v r))"
    "rtype r = 41 \<Longrightarrow> returns (as_char (r_v r))" "rtype r = 42 \<Longrightarrow> returns (as_frame (r_v r))"
    "rtype r = 43 \<Longrightarrow> returns (as_rand (r_v r))"
    "rtype r = 44 \<or> rtype r = 45 \<or> rtype r = 46 \<or> rtype r = 47 \<or> rtype r = 48 \<or> rtype r = 49 \<or> rtype r = 50 \<Longrightarrow> returns (as_tag (r_v r))"
    "rtype r = 51 \<Longrightarrow> returns (as_int (r_v r))" "rtype r = 2 \<or> rtype r = 3 \<or> rtype r = 4 \<Longrightarrow> returns (as_fwd (r_v r))"
    "rtype r = 6 \<Longrightarrow> returns (as_qos (r_v r))"
  by (rule sound_member [OF assms], erule rule_class_of | erule sound_member [OF assms])+

lemma returns_rule_match:
  assumes "rule_sound r" "coos_sound e" "rtype r = 41 \<Longrightarrow> tcp_inside e"
  shows "returns (rule_match e rn dest super r)"
proof -
  note m = typed_member [OF assms(1)]
  note ip = returns_ip_member [OF assms(1)]
  have v: "is_v4 e \<Longrightarrow> 12 + 4 \<le> length (fe_frame e)" "is_v4 e \<Longrightarrow> 16 + 4 \<le> length (fe_frame e)"
    "is_v6 e \<Longrightarrow> 8 + 16 \<le> length (fe_frame e)" "is_v6 e \<Longrightarrow> 24 + 16 \<le> length (fe_frame e)"
    by (auto dest: frame_lengths)
  have ip4: "returns (plain (bind_res (as_ip4 (r_v r)) (\<lambda>(ip, m). match_ip hn (is_v4 e) off 4 ip m (fe_frame e))))"
    if "rtype r = 31 \<or> rtype r = 32" "off = 12 \<or> off = 16" for hn off
    by (rule returns_plain, rule ip(1) [OF _ rule_class_of(6) [OF that(1)] refl]) (use that(2) v in auto)
  have ip6: "returns (plain (bind_res (as_ip6 (r_v r)) (\<lambda>(ip, m). match_ip hn (is_v6 e) off 16 ip m (fe_frame e))))"
    if "rtype r = 33 \<or> rtype r = 34" "off = 8 \<or> off = 24" for hn off
    by (rule returns_plain, rule ip(2) [OF _ rule_class_of(7) [OF that(1)] refl]) (use that(2) v in auto)
  show ?thesis
    unfolding rule_match_def Let_def
    by (intro returns_if ip4 ip6 returns_plain returns_bind returns_prod returns_Inr returns_match_tos returns_match_proto
          returns_match_icmp returns_match_port returns_characteristics returns_match_int assms(2);
        (rule m assms(3))?; (simp | blast))
qed

lemma returns_action_step:
  assumes "rule_sound r" shows "returns (action_step e r s)"
proof -
  show ?thesis
    unfolding action_step_def Let_def
    by (intro returns_intros; (rule typed_member [OF assms])?; simp)
qed

lemma returns_filter_loop:
  assumes "\<And>r. r \<in> set rs \<Longrightarrow> rule_sound r" "coos_sound e" "\<And>r. r \<in> set rs \<Longrightarrow> rtype r = 41 \<Longrightarrow> tcp_inside e"
  shows "returns (filter_loop e rn rs s)"
  using assms
proof (induction rs arbitrary: rn s)
  case (Cons r rs)
  have ih: "returns (filter_loop e n rs t)" for n t by (rule Cons.IH) (use Cons.prems in auto)
  have "returns (action_step e r s)" "returns (match_step e rn r s)"
    using Cons.prems(1) [of r] Cons.prems(2) Cons.prems(3) [of r] returns_action_step returns_rule_match
    by (auto simp: match_step_def Let_def intro!: returns_intros)
  then show ?case by (auto intro!: returns_intros ih split: filter_flow.split)
qed simp

section \<open>First match\<close>

text \<open>
  The reference: a rule list is a sequence of sets, each a list of matches and the action that ends
  it; a set holds when its matches, combined from the left by AND or OR, all of them evaluated,
  hold; the first set that holds decides. There is one exception: a sender that lacks the receiver's
  tag leaves the decision to the receiver. After such an undecided match, the next drop that is reached
  is passed over, once.
\<close>

definition match_of :: "filter_env \<Rightarrow> address \<Rightarrow> nat \<Rightarrow> rule \<Rightarrow> bool" where
  "match_of e d n r = (case rule_match e n d False r of Inr (m, _) \<Rightarrow> m | Inl _ \<Rightarrow> False)"

definition match_result :: "filter_env \<Rightarrow> address \<Rightarrow> nat \<Rightarrow> bool \<Rightarrow> rule \<Rightarrow> bool" where
  "match_result e d n acc r =
     (let m = (match_of e d n r \<noteq> rule_not r) in if rule_or r then acc \<or> m else acc \<and> m)"

fun set_holds :: "filter_env \<Rightarrow> address \<Rightarrow> nat \<Rightarrow> bool \<Rightarrow> rule list \<Rightarrow> bool" where
  "set_holds e d n acc [] = acc"
| "set_holds e d n acc (r # rs) = set_holds e d (n + 1) (match_result e d n acc r) rs"

definition undecided :: "filter_env \<Rightarrow> rule \<Rightarrow> bool" where
  "undecided e r \<longleftrightarrow> \<not> fe_inbound e \<and>
     (case as_tag (r_v r) of
        Inr (i, _) \<Rightarrow> remote_tag e i = None \<and>
          (rtype r = 50 \<or> rtype r \<in> {44, 45, 46, 47, 48} \<and> local_tag (fe_conf e) i \<noteq> None)
      | Inl _ \<Rightarrow> False)"

text \<open>A match counts only when the code asks it: not after a failed one, unless it is an OR.\<close>

fun set_undecided :: "filter_env \<Rightarrow> address \<Rightarrow> nat \<Rightarrow> bool \<Rightarrow> rule list \<Rightarrow> bool" where
  "set_undecided e d n acc [] = False"
| "set_undecided e d n acc (r # rs) \<longleftrightarrow>
     (acc \<or> rule_or r) \<and> undecided e r \<or> set_undecided e d (n + 1) (match_result e d n acc r) rs"

definition verdict :: "rule \<Rightarrow> zt_filter" where
  "verdict a = (if rtype a = 0 then DOZTFILTER_DROP else if rtype a = 1 then DOZTFILTER_ACCEPT else DOZTFILTER_NO_MATCH)"

fun first_match :: "filter_env \<Rightarrow> address \<Rightarrow> nat \<Rightarrow> bool \<Rightarrow> (rule list \<times> rule) list \<Rightarrow> zt_filter" where
  "first_match e d n skip [] = DOZTFILTER_NO_MATCH"
| "first_match e d n skip ((ms, a) # sets) =
     (let skip' = (skip \<or> set_undecided e d n True ms) in
      if \<not> set_holds e d n True ms then first_match e d (n + length ms + 1) skip' sets
      else if rtype a = 0 \<and> skip' then first_match e d (n + length ms + 1) False sets
      else verdict a)"

text \<open>Without the exception the first set that holds decides: on every inbound frame, or without tags.\<close>

fun plain_first :: "filter_env \<Rightarrow> address \<Rightarrow> nat \<Rightarrow> (rule list \<times> rule) list \<Rightarrow> zt_filter" where
  "plain_first e d n [] = DOZTFILTER_NO_MATCH"
| "plain_first e d n ((ms, a) # sets) =
     (if set_holds e d n True ms then verdict a else plain_first e d (n + length ms + 1) sets)"

definition tag_free :: "rule \<Rightarrow> bool" where
  "tag_free r \<longleftrightarrow> \<not> (44 \<le> rtype r \<and> rtype r \<le> 50)"

lemma first_match_plain:
  assumes "fe_inbound e \<or> list_all (\<lambda>s. list_all tag_free (fst s)) sets"
  shows "first_match e d n False sets = plain_first e d n sets"
proof -
  have d: "\<not> undecided e r" if "fe_inbound e \<or> tag_free r" for r
    using that by (auto simp: undecided_def tag_free_def split: sum.splits)
  have u: "\<not> set_undecided e d n acc ms" if "fe_inbound e \<or> list_all tag_free ms" for n acc ms
    using that d by (induction ms arbitrary: n acc) auto
  show ?thesis
    using assms u by (induction sets arbitrary: n) auto
qed

text \<open>A policy: matches before the final action of each set, which drops, accepts or breaks.\<close>

definition policy_match :: "filter_env \<Rightarrow> rule \<Rightarrow> bool" where
  "policy_match e r \<longleftrightarrow> 15 < rtype r \<and> rule_sound r \<and> (rtype r = 41 \<longrightarrow> tcp_inside e)"

definition policy_set :: "filter_env \<Rightarrow> rule list \<times> rule \<Rightarrow> bool" where
  "policy_set e s \<longleftrightarrow> list_all (policy_match e) (fst s) \<and> (rtype (snd s) = 0 \<or> rtype (snd s) = 1 \<or> rtype (snd s) = 5)"

definition flat_rules :: "(rule list \<times> rule) list \<Rightarrow> rule list \<Rightarrow> rule list" where
  "flat_rules sets tail = concat (map (\<lambda>(ms, a). ms @ [a]) sets) @ tail"

lemma plain_snd: "plain m = Inr (b, k) \<Longrightarrow> \<not> k"
  by (auto simp: plain_def bind_res_eq_Inr)

lemma tags_snd:
  "snd (match_tags e False hn rt i v) \<longleftrightarrow> \<not> fe_inbound e \<and> remote_tag e i = None \<and> local_tag (fe_conf e) i \<noteq> None"
  "snd (match_tag_of e False hn sd i v) \<longleftrightarrow> \<not> fe_inbound e \<and> remote_tag e i = None \<and> \<not> sd"
  by (auto simp: match_tags_def match_tag_of_def split: option.split)

lemma rule_match_undecided:
  assumes "rule_match e n d False r = Inr (m, k)"
  shows "k \<longleftrightarrow> undecided e r"
proof -
  consider "rtype r \<in> {44, 45, 46, 47, 48}" | "rtype r = 49" | "rtype r = 50" | "rtype r \<notin> {44, 45, 46, 47, 48, 49, 50}"
    by blast
  then show ?thesis
  proof cases
    case 1
    then obtain i x where "as_tag (r_v r) = Inr (i, x)" "match_tags e False (rule_not r) (rtype r) i x = (m, k)"
      using assms by (auto simp: rule_match_def Let_def bind_res_eq_Inr)
    then show ?thesis using 1 tags_snd(1) [of e "rule_not r" "rtype r" i x] by (auto simp: undecided_def)
  next
    case 2
    then obtain i x where "as_tag (r_v r) = Inr (i, x)" "match_tag_of e False (rule_not r) True i x = (m, k)"
      using assms by (auto simp: rule_match_def Let_def bind_res_eq_Inr)
    then show ?thesis using 2 tags_snd(2) [of e "rule_not r" True i x] by (auto simp: undecided_def)
  next
    case 3
    then obtain i x where "as_tag (r_v r) = Inr (i, x)" "match_tag_of e False (rule_not r) False i x = (m, k)"
      using assms by (auto simp: rule_match_def Let_def bind_res_eq_Inr)
    then show ?thesis using 3 tags_snd(2) [of e "rule_not r" False i x] by (auto simp: undecided_def)
  next
    case 4
    then have "\<not> undecided e r" by (auto simp: undecided_def split: sum.splits)
    moreover have "\<not> k" using assms 4 unfolding rule_match_def Let_def by (auto split: if_splits dest: plain_snd)
    ultimately show ?thesis by simp
  qed
qed

lemma policy_match_result:
  assumes "policy_match e r" "coos_sound e"
  shows "rule_match e n d False r = Inr (match_of e d n r, undecided e r)"
proof -
  have "returns (rule_match e n d False r)"
    using returns_rule_match [OF _ assms(2)] assms(1) by (simp add: policy_match_def)
  then obtain m k where mk: "rule_match e n d False r = Inr (m, k)" by (auto simp: returns_def)
  then show ?thesis using rule_match_undecided [OF mk] by (simp add: match_of_def)
qed

lemma filter_loop_set:
  assumes "list_all (policy_match e) ms" "coos_sound e" "\<not> fs_super s"
  shows "filter_loop e n (ms @ rest) s =
    filter_loop e (n + length ms) rest
      (s\<lparr>fs_skipDrop := fs_skipDrop s \<or> set_undecided e (fs_dest s) n (fs_matches s) ms,
         fs_matches := set_holds e (fs_dest s) n (fs_matches s) ms\<rparr>)"
  using assms
proof (induction ms arbitrary: n s)
  case (Cons r ms)
  have p: "policy_match e r" "\<not> rtype r \<le> 15" using Cons.prems(1) by (auto simp: policy_match_def)
  have m: "rule_match e n (fs_dest s) False r = Inr (match_of e (fs_dest s) n r, undecided e r)"
    by (rule policy_match_result [OF p(1) Cons.prems(2)])
  let ?s = "s\<lparr>fs_skipDrop := fs_skipDrop s \<or> (fs_matches s \<or> rule_or r) \<and> undecided e r,
      fs_matches := match_result e (fs_dest s) n (fs_matches s) r\<rparr>"
  have "match_step e n r s = Inr ?s"
    using Cons.prems(3) m by (auto simp: match_step_def match_result_def Let_def)
  then show ?case using p(2) Cons.IH [of ?s "n + 1"] Cons.prems by (simp add: disj_assoc)
qed simp

lemma filter_loop_sets:
  assumes "list_all (policy_set e) sets" "list_all (policy_match e) tail" "coos_sound e"
    "\<not> fs_super s" "fs_matches s"
  shows "\<exists>s'. filter_loop e n (flat_rules sets tail) s = Inr (first_match e (fs_dest s) n (fs_skipDrop s) sets, s') \<and>
    fs_dest s' = fs_dest s \<and> fs_cc s' = fs_cc s \<and> fs_qos s' = fs_qos s"
  using assms(1,4-)
proof (induction sets arbitrary: n s)
  case Nil
  then show ?case using filter_loop_set [OF assms(2,3), of s n "[]"] by (simp add: flat_rules_def)
next
  case (Cons x sets)
  obtain ms a where x: "x = (ms, a)" by fastforce
  have p: "list_all (policy_match e) ms" "rtype a = 0 \<or> rtype a = 1 \<or> rtype a = 5"
    using Cons.prems(1) by (simp_all add: x policy_set_def)
  let ?h = "set_holds e (fs_dest s) n True ms" and ?k = "fs_skipDrop s \<or> set_undecided e (fs_dest s) n True ms"
  let ?s = "s\<lparr>fs_skipDrop := ?k, fs_matches := ?h\<rparr>"
  have "filter_loop e n (flat_rules (x # sets) tail) s = filter_loop e (n + length ms) (a # flat_rules sets tail) ?s"
    using filter_loop_set [OF p(1) assms(3) Cons.prems(2), of n "a # flat_rules sets tail"] Cons.prems(3)
    by (simp add: flat_rules_def x)
  moreover have "action_step e a ?s = Inr (if \<not> ?h then Next (?s\<lparr>fs_matches := True\<rparr>)
      else if rtype a = 0 \<and> ?k then Next (?s\<lparr>fs_skipDrop := False\<rparr>) else Done (verdict a) ?s)"
    using p(2) Cons.prems by (auto simp: action_step_def verdict_def Let_def)
  ultimately have step: "filter_loop e n (flat_rules (x # sets) tail) s =
      (if \<not> ?h then filter_loop e (n + length ms + 1) (flat_rules sets tail) (?s\<lparr>fs_matches := True\<rparr>)
       else if rtype a = 0 \<and> ?k then filter_loop e (n + length ms + 1) (flat_rules sets tail) (?s\<lparr>fs_skipDrop := False\<rparr>)
       else Inr (verdict a, ?s))"
    using p(2) by auto
  have ps: "list_all (policy_set e) sets" using Cons.prems(1) by simp
  show ?case
  proof (cases ?h)
    case False
    then show ?thesis
      using step Cons.IH [OF ps, of "?s\<lparr>fs_matches := True\<rparr>" "n + length ms + 1"] Cons.prems(2) by (simp add: x)
  next
    case True
    then show ?thesis
      using step Cons.IH [OF ps, of "?s\<lparr>fs_skipDrop := False\<rparr>" "n + length ms + 1"] Cons.prems(2)
      by (cases "rtype a = 0 \<and> ?k") (auto simp: x)
  qed
qed

section \<open>Capabilities of a member\<close>

lemma capIter_next_spec:
  assumes "iidx it < ht_bc (mb_caps m)" "length (iter_left (mb_caps m) it) < n"
  shows "case dropWhile (\<lambda>(k, c). \<not> credentialTimestampValid cap_ops nc m c) (iter_left (mb_caps m) it) of
      [] \<Rightarrow> capIter_next nc m n it = None
    | (k, c) # bs \<Rightarrow> \<exists>it'. capIter_next nc m n it = Some (c, it') \<and> iter_left (mb_caps m) it' = bs \<and>
        iidx it' < ht_bc (mb_caps m)"
  using assms
proof (induction n arbitrary: it)
  case (Suc n)
  note nx = iter_next_left [OF Suc.prems(1)]
  show ?case
  proof (cases "iter_left (mb_caps m) it")
    case Nil
    with nx show ?thesis by simp
  next
    case (Cons b bs)
    obtain k c where b: "b = (k, c)" by fastforce
    obtain it' where it': "iter_next (mb_caps m) it = Some ((k, c), it')" "iter_left (mb_caps m) it' = bs" "iidx it' < ht_bc (mb_caps m)"
      using nx Cons b by auto
    have "length (iter_left (mb_caps m) it') < n" using Suc.prems(2) Cons it'(2) by simp
    note ih = Suc.IH [OF it'(3) this]
    show ?thesis
    proof (cases "credentialTimestampValid cap_ops nc m c")
      case True
      then show ?thesis using it' Cons b by simp
    next
      case False
      then have "capIter_next nc m (Suc n) it = capIter_next nc m n it'" using it'(1) by simp
      then show ?thesis using ih False it'(2) Cons b by (simp only:) simp
    qed
  qed
qed simp

lemma capIter_all_spec:
  assumes "iidx it < ht_bc (mb_caps m)" "length (iter_left (mb_caps m) it) \<le> hcount (mb_caps m)"
    "length (iter_left (mb_caps m) it) < n"
  shows "capIter_all nc m n it =
    map snd (filter (\<lambda>(k, c). credentialTimestampValid cap_ops nc m c) (iter_left (mb_caps m) it))"
  using assms
proof (induction n arbitrary: it)
  case (Suc n)
  let ?P = "\<lambda>(k :: u32, c). \<not> credentialTimestampValid cap_ops nc m c"
  let ?l = "iter_left (mb_caps m) it"
  have sp: "length ?l < Suc (hcount (mb_caps m))" using Suc.prems(2) by simp
  note nx = capIter_next_spec [OF Suc.prems(1) sp, of nc]
  have split: "filter (\<lambda>(k, c). credentialTimestampValid cap_ops nc m c) ?l =
      filter (\<lambda>(k, c). credentialTimestampValid cap_ops nc m c) (dropWhile ?P ?l)"
  proof -
    have "filter (\<lambda>(k, c). credentialTimestampValid cap_ops nc m c) l =
        filter (\<lambda>(k, c). credentialTimestampValid cap_ops nc m c) (dropWhile ?P l)" for l
      by (induction l) auto
    then show ?thesis .
  qed
  show ?case
  proof (cases "dropWhile ?P ?l")
    case Nil
    have "capIter_next nc m (Suc (hcount (mb_caps m))) it = None" using nx unfolding Nil by simp
    then show ?thesis unfolding split Nil by (simp del: capIter_next.simps)
  next
    case (Cons b bs)
    obtain k c where b: "b = (k, c)" by fastforce
    have v: "credentialTimestampValid cap_ops nc m c" using hd_dropWhile [of ?P ?l] Cons b by auto
    obtain it' where it': "capIter_next nc m (Suc (hcount (mb_caps m))) it = Some (c, it')"
      "iter_left (mb_caps m) it' = bs" "iidx it' < ht_bc (mb_caps m)" using nx unfolding Cons b by auto
    have "Suc (length bs) \<le> length ?l" using length_dropWhile_le [of ?P ?l] Cons by simp
    then have "length (iter_left (mb_caps m) it') \<le> hcount (mb_caps m)" "length (iter_left (mb_caps m) it') < n"
      using Suc.prems(2,3) it'(2) by simp_all
    from Suc.IH [OF it'(3) this] show ?thesis unfolding split Cons b using it' v by (simp del: capIter_next.simps)
  qed
qed simp

lemma valid_caps_eq:
  assumes "ht_ok hc_u32 (mb_caps m)"
  shows "valid_caps nc m = map snd (filter (\<lambda>(k, c). credentialTimestampValid cap_ops nc m c) (ht_entries (mb_caps m)))"
proof -
  note n = iter_new_left [OF assms]
  have "valid_caps nc m = map snd (filter (\<lambda>(k, c). credentialTimestampValid cap_ops nc m c) (iter_left (mb_caps m) (iter_new (mb_caps m))))"
    unfolding valid_caps_def by (rule capIter_all_spec [OF n(2)]) (simp_all only: n(1,3))
  then show ?thesis by (simp only: n(1))
qed

lemma valid_caps_stored:
  assumes "ht_ok hc_u32 (mb_caps m)" "c \<in> set (valid_caps nc m)"
  obtains k where "ht_get hc_u32 (mb_caps m) k = Some c" "credentialTimestampValid cap_ops nc m c"
  using assms(2) ht_entries_get [OF assms(1)] unfolding valid_caps_eq [OF assms(1)] by auto

lemma caps_filter_some:
  assumes "caps_filter env dest n cs qos = Inr (Some (z, s), q)"
  obtains c i q0 where "c \<in> set cs" "doZtFilter (env i) (cap_rules c) (start_state dest q0) = Inr (z, s)"
    "z \<noteq> DOZTFILTER_NO_MATCH" "z \<noteq> DOZTFILTER_DROP"
  using assms
proof (induction cs arbitrary: n qos thesis)
  case (Cons c cs)
  obtain z1 s1 where r: "doZtFilter (env n) (cap_rules c) (start_state dest qos) = Inr (z1, s1)"
    using Cons.prems(2) by (auto simp: bind_res_eq_Inr)
  show ?case
  proof (cases "z1 = DOZTFILTER_NO_MATCH \<or> z1 = DOZTFILTER_DROP")
    case True
    then have "caps_filter env dest (n + 1) cs (fs_qos s1) = Inr (Some (z, s), q)" using Cons.prems(2) r by simp
    then show ?thesis by (rule Cons.IH [rotated]) (use Cons.prems(1) in auto)
  next
    case False
    then have "z1 = z" "s1 = s" using Cons.prems(2) r by simp_all
    then show ?thesis using Cons.prems(1) [of c n qos] r False by simp
  qed
qed simp

section \<open>Properties\<close>

text \<open>
  Claim C25: on rules that have the members their types use and netmasks of the family's length,
  certificates in range and, if the rules ask for characteristics, a TCP header inside the frame,
  the filter reads nothing outside the frame, whatever the frame holds: it returns a verdict.
\<close>

theorem filter_in_bounds:
  assumes "list_all rule_sound rules" "coos_sound e" "list_ex (\<lambda>r. rtype r = 41) rules \<Longrightarrow> tcp_inside e"
  shows "\<exists>z s'. doZtFilter e rules s = Inr (z, s')"
proof -
  have "returns (doZtFilter e rules s)"
    unfolding doZtFilter_def
    by (rule returns_filter_loop) (use assms in \<open>auto simp: list_all_iff list_ex_iff\<close>)
  then show ?thesis by (auto simp: returns_def)
qed

text \<open>
  Claim C13: for policies whose actions drop, accept or break, with well-formed rules and, where they
  ask for characteristics, a TCP header inside the frame, and with ownership certificates that count no
  more things than they hold, the filter is a first-match firewall, for
  frames sent and frames received: its verdict is the action of the first set whose matches hold, NOT
  applied to each match and AND and OR from the left; skipping the rest of a set that has failed
  changes nothing, and neither the destination nor the tee target is touched. The one exception is
  part of the reference: once a sender has met a tag match it cannot decide without the receiver's
  tag, it passes over the next drop it reaches. Where that cannot occur, for frames received and for
  policies without tags, the first set that holds always decides.
\<close>

theorem filter_first_match:
  assumes "list_all (policy_set e) sets" "list_all (policy_match e) tail" "coos_sound e"
  shows "(\<exists>s'. doZtFilter e (flat_rules sets tail) s = Inr (first_match e (fs_dest s) 0 False sets, s') \<and>
      fs_dest s' = fs_dest s \<and> fs_cc s' = fs_cc s \<and> fs_qos s' = fs_qos s) \<and>
    (fe_inbound e \<or> list_all (\<lambda>s. list_all tag_free (fst s)) sets \<longrightarrow>
      first_match e (fs_dest s) 0 False sets = plain_first e (fs_dest s) 0 sets)"
proof -
  let ?s = "s\<lparr>fs_super := False, fs_matches := True, fs_skipDrop := False\<rparr>"
  have "\<exists>s'. filter_loop e 0 (flat_rules sets tail) ?s = Inr (first_match e (fs_dest ?s) 0 (fs_skipDrop ?s) sets, s') \<and>
    fs_dest s' = fs_dest ?s \<and> fs_cc s' = fs_cc ?s \<and> fs_qos s' = fs_qos ?s"
    by (rule filter_loop_sets [OF assms]) simp_all
  then show ?thesis by (simp add: doZtFilter_def first_match_plain)
qed

definition accepts :: "zt_filter \<Rightarrow> bool" where
  "accepts z \<longleftrightarrow> z \<noteq> DOZTFILTER_NO_MATCH \<and> z \<noteq> DOZTFILTER_DROP"

lemma caps_filter_accepts:
  assumes "caps_filter env dest n cs qos = Inr (Some (z, s), q)"
  shows "accepts z \<and> (\<exists>c\<in>set cs. \<exists>i q0. doZtFilter (env i) (cap_rules c) (start_state dest q0) = Inr (z, s))"
  using caps_filter_some [OF assms] by (metis accepts_def)

lemma cc_frames_length: "length (cc_frames nw w a b s) \<le> 1"
  by (simp add: cc_frames_def)

lemma membership_known:
  "ht_get hc_addr (nw_memberships nw) a = Some m \<Longrightarrow> nw_membership alloc a nw = nw"
  by (simp add: nw_membership_def ht_index_def ht_get_def)

text \<open>
  Claim C6: a frame from a member is accepted only for a reason. The network's own rules did not
  drop it, and where they did not decide, a capability the sender's membership holds accepted it:
  one whose chain of custody was verified, whose timestamp is in the window and which is not
  revoked. The frame is super-accepted only by a verdict that says so.
\<close>

theorem incoming_justified:
  assumes "filterIncomingPacket alloc self rnd source dest w nw = Inr (n, nw', out)" "n \<noteq> 0"
    "ht_get hc_addr (nw_memberships nw) source = Some m" "mb_ok ce m"
  shows "\<exists>z s. doZtFilter (wire_env self (nw_config nw) (Some m) True source w (rnd 0)) (nc_rules (nw_config nw))
      (start_state dest 255) = Inr (z, s) \<and> z \<noteq> DOZTFILTER_DROP \<and>
    (z \<noteq> DOZTFILTER_NO_MATCH \<longrightarrow> (n = 2 \<longleftrightarrow> z = DOZTFILTER_SUPER_ACCEPT)) \<and>
    (z = DOZTFILTER_NO_MATCH \<longrightarrow> (\<exists>k c i q z2 s2. ht_get hc_u32 (mb_caps m) k = Some c \<and>
       fst (cap_verify ce c) = 0 \<and> credentialTimestampValid cap_ops (nw_config nw) m c \<and>
       doZtFilter (wire_env self (nw_config nw) (Some m) True source w (rnd i)) (cap_rules c) (start_state dest q) = Inr (z2, s2) \<and>
       accepts z2 \<and> (n = 2 \<longleftrightarrow> z2 = DOZTFILTER_SUPER_ACCEPT)))"
proof -
  let ?env = "\<lambda>n. wire_env self (nw_config nw) (Some m) True source w (rnd n)"
  note def = assms(1) [unfolded filterIncomingPacket_def Let_def membership_known [OF assms(3)] assms(3) option.case]
  obtain z s where z: "doZtFilter (?env 0) (nc_rules (nw_config nw)) (start_state dest 255) = Inr (z, s)"
    using def by (auto simp: bind_res_eq_Inr)
  have nd: "z \<noteq> DOZTFILTER_DROP" using def assms(2) by (auto simp: z)
  have super: "n = 2 \<longleftrightarrow> z = DOZTFILTER_SUPER_ACCEPT" if "z \<noteq> DOZTFILTER_NO_MATCH"
    using def that nd assms(2) by (auto simp: z Let_def split: if_splits)
  have caps: "\<exists>k c i q z2 s2. ht_get hc_u32 (mb_caps m) k = Some c \<and>
       fst (cap_verify ce c) = 0 \<and> credentialTimestampValid cap_ops (nw_config nw) m c \<and>
       doZtFilter (?env i) (cap_rules c) (start_state dest q) = Inr (z2, s2) \<and>
       accepts z2 \<and> (n = 2 \<longleftrightarrow> z2 = DOZTFILTER_SUPER_ACCEPT)" if nm: "z = DOZTFILTER_NO_MATCH"
  proof -
    obtain r q where r: "caps_filter ?env dest 1 (valid_caps (nw_config nw) m) (fs_qos s) = Inr (r, q)"
      using def nm by (auto simp: z bind_res_eq_Inr)
    obtain z2 s2 where z2: "r = Some (z2, s2)" using def nm r assms(2) by (cases r) (auto simp: z)
    obtain c i q0 where c: "c \<in> set (valid_caps (nw_config nw) m)" "accepts z2"
      "doZtFilter (?env i) (cap_rules c) (start_state dest q0) = Inr (z2, s2)"
      using caps_filter_accepts r z2 by blast
    have t: "table_ok (cap_verify ce) cap_ops (mb_caps m)" using assms(4) by (simp add: mb_ok_def)
    then have ok: "ht_ok hc_u32 (mb_caps m)" by (simp add: table_ok_def)
    obtain k where k: "ht_get hc_u32 (mb_caps m) k = Some c" "credentialTimestampValid cap_ops (nw_config nw) m c"
      by (rule valid_caps_stored [OF ok c(1)])
    have "fst (cap_verify ce c) = 0" using t k(1) by (simp add: table_ok_def)
    moreover have "n = 2 \<longleftrightarrow> z2 = DOZTFILTER_SUPER_ACCEPT"
      using def nm r z2 assms(2) by (auto simp: z Let_def split: if_splits)
    ultimately show ?thesis using c k by blast
  qed
  show ?thesis using z nd super caps by blast
qed

text \<open>
  A frame leaves the node, to its destination or as a copy, only if the network's rules
  did not drop it and, where they did not decide, one of the node's own capabilities accepted it;
  without tees the only copy is that of a redirect, made when the frame itself is held back; and
  there are never more than three.
\<close>

lemma outgoing_justified:
  assumes "filterOutgoingPacket self rnd noTee source dest w qos nw = Inr (ok, q, nw', out)"
    "env = (\<lambda>i. wire_env self (nw_config nw)
       (if addr_bool dest then ht_get hc_addr (nw_memberships nw) dest else None) False source w (rnd i))"
  shows "length out \<le> 3 \<and> (noTee \<longrightarrow> length out \<le> (if ok then 0 else 1)) \<and>
    (ok \<or> out \<noteq> [] \<longrightarrow> (\<exists>z s. doZtFilter (env 0) (nc_rules (nw_config nw)) (start_state dest qos) = Inr (z, s) \<and>
      z \<noteq> DOZTFILTER_DROP \<and>
      (z = DOZTFILTER_NO_MATCH \<longrightarrow> (\<exists>c\<in>set (nc_capabilities (nw_config nw)). \<exists>i q0 z2 s2.
         doZtFilter (env i) (cap_rules c) (start_state dest q0) = Inr (z2, s2) \<and> accepts z2))))"
proof -
  note def = assms(1) [unfolded filterOutgoingPacket_def Let_def, folded assms(2)]
  obtain z s where z: "doZtFilter (env 0) (nc_rules (nw_config nw)) (start_state dest qos) = Inr (z, s)"
    using def by (auto simp: bind_res_eq_Inr assms(2))
  have z0: "doZtFilter (wire_env self (nw_config nw) (if addr_bool dest then ht_get hc_addr (nw_memberships nw) dest else None)
      False source w (rnd 0)) (nc_rules (nw_config nw)) (start_state dest qos) = Inr (z, s)"
    using z by (simp add: assms(2))
  note def = def [unfolded z0]
  note cl = cc_frames_length [of nw w 2 22]
  have cl2: "length (cc_frames nw w 2 22 a) + length (cc_frames nw w 2 22 b) \<le> 2" for a b
    using cl [of a] cl [of b] by simp
  show ?thesis
  proof (cases "z = DOZTFILTER_NO_MATCH")
    case False
    then have "length out \<le> 3 \<and> (noTee \<longrightarrow> length out \<le> (if ok then 0 else 1)) \<and> (ok \<or> out \<noteq> [] \<longrightarrow> z \<noteq> DOZTFILTER_DROP)"
      using def cl [of s] by (auto split: if_splits)
    then show ?thesis using z False by blast
  next
    case True
    obtain r q1 where r: "caps_filter env dest 1 (nc_capabilities (nw_config nw)) (fs_qos s) = Inr (r, q1)"
      using def True by (auto simp: bind_res_eq_Inr)
    show ?thesis
    proof (cases r)
      case None
      then show ?thesis using def True r by auto
    next
      case (Some a)
      obtain z2 s2 where a: "a = (z2, s2)" by fastforce
      have "length out \<le> 3 \<and> (noTee \<longrightarrow> length out \<le> (if ok then 0 else 1))"
        using def True r Some a cl2 [of s2 s] by (auto split: if_splits)
      then show ?thesis using caps_filter_accepts [of env dest 1 _ "fs_qos s" z2 s2 q1] r Some a z True by blast
    qed
  qed
qed

section \<open>Witnesses and edges\<close>

text \<open>A DNS query over IPv4, and the same ports over IPv6.\<close>

definition demo_dns :: "u8 list" where
  "demo_dns = [0x45, 0, 0, 28, 0, 0, 0, 0, 64, 17, 0, 0, 10, 0, 0, 1, 10, 0, 0, 2, 0x30, 0x39, 0, 53, 0, 8, 0, 0]"

definition demo_wire :: "u32 \<Rightarrow> u8 list \<Rightarrow> wire_frame" where
  "demo_wire t f = \<lparr>wf_macSource = MAC 0x020000000001, wf_macDest = MAC 0x020000000002, wf_data = f, wf_etherType = t, wf_vlanId = 0\<rparr>"

definition demo_fenv :: "u32 \<Rightarrow> u8 list \<Rightarrow> filter_env" where
  "demo_fenv t f = wire_env (addr_of 2) netconf_nil None True (addr_of 1) (demo_wire t f) (\<lambda>_. 0)"

definition demo_policy :: "(rule list \<times> rule) list" where
  "demo_policy =
     [([\<lparr>r_t = 37, r_v = VEther 0x800\<rparr>, \<lparr>r_t = 40, r_v = VPort 53 53\<rparr>], \<lparr>r_t = 0, r_v = VNone\<rparr>),
      ([], \<lparr>r_t = 1, r_v = VNone\<rparr>)]"

lemma filter_in_bounds_witness:
  "\<exists>z s'. doZtFilter (demo_fenv 0x800 demo_dns) (flat_rules demo_policy []) (start_state (addr_of 2) 4) = Inr (z, s')"
proof (rule filter_in_bounds)
  show "list_all rule_sound (flat_rules demo_policy [])" by code_simp
  show "coos_sound (demo_fenv 0x800 demo_dns)" by (simp add: coos_sound_def demo_fenv_def wire_env_def netconf_nil_def)
  show "list_ex (\<lambda>r. rtype r = 41) (flat_rules demo_policy []) \<Longrightarrow> tcp_inside (demo_fenv 0x800 demo_dns)"
  proof -
    have "\<not> list_ex (\<lambda>r. rtype r = 41) (flat_rules demo_policy [])" by code_simp
    then show "list_ex (\<lambda>r. rtype r = 41) (flat_rules demo_policy []) \<Longrightarrow> tcp_inside (demo_fenv 0x800 demo_dns)" by simp
  qed
qed

text \<open>
  A policy that drops by the receiver's tag and accepts what is left of IPv4: a sender who does not
  know the tag passes over the drop.
\<close>

definition demo_tag_policy :: "(rule list \<times> rule) list" where
  "demo_tag_policy =
     [([\<lparr>r_t = 50, r_v = VTag 9 1\<rparr>], \<lparr>r_t = 0, r_v = VNone\<rparr>),
      ([\<lparr>r_t = 37, r_v = VEther 0x800\<rparr>], \<lparr>r_t = 1, r_v = VNone\<rparr>)]"

lemma filter_first_match_witness:
  "(\<exists>s'. doZtFilter (demo_fenv 0x800 demo_dns) (flat_rules demo_policy []) (start_state (addr_of 2) 4) =
    Inr (DOZTFILTER_DROP, s') \<and> fs_dest s' = addr_of 2) \<and>
   (\<exists>s'. doZtFilter ((demo_fenv 0x800 demo_dns)\<lparr>fe_inbound := False\<rparr>) (flat_rules demo_tag_policy []) (start_state (addr_of 2) 4) =
    Inr (DOZTFILTER_ACCEPT, s') \<and> fs_dest s' = addr_of 2)"
proof -
  let ?e = "demo_fenv 0x800 demo_dns" and ?o = "(demo_fenv 0x800 demo_dns)\<lparr>fe_inbound := False\<rparr>"
  have p: "list_all (policy_set ?e) demo_policy" "list_all (policy_match ?e) []" by code_simp+
  have p': "list_all (policy_set ?o) demo_tag_policy" "list_all (policy_match ?o) []" by code_simp+
  have c: "coos_sound ?e" "coos_sound ?o" by (simp_all add: coos_sound_def demo_fenv_def wire_env_def netconf_nil_def)
  have d: "fs_dest (start_state (addr_of 2) 4) = addr_of 2" by (simp add: start_state_def)
  have v: "first_match ?e (addr_of 2) 0 False demo_policy = DOZTFILTER_DROP"
    "first_match ?o (addr_of 2) 0 False demo_tag_policy = DOZTFILTER_ACCEPT" by code_simp+
  from filter_first_match [OF p c(1), of "start_state (addr_of 2) 4"]
    filter_first_match [OF p' c(2), of "start_state (addr_of 2) 4"]
  show ?thesis unfolding d v by blast
qed

definition demo_network :: network where
  "demo_network = \<lparr>nw_id = 7, nw_config = netconf_nil\<lparr>nc_rules := flat_rules demo_policy []\<rparr>,
     nw_memberships = ht_set (\<lambda>_. True) hc_addr (addr_of 1) mb_new (ht_new 8),
     nw_out_accepted = 0, nw_out_dropped = 0, nw_in_accepted = 0, nw_in_dropped = 0\<rparr>"

lemma incoming_justified_witness:
  "\<exists>nw' out z s. filterIncomingPacket (\<lambda>_. True) (addr_of 2) (\<lambda>_ _. 0) (addr_of 1) (addr_of 2) (demo_wire 0x806 []) demo_network = Inr (1, nw', out) \<and>
    doZtFilter (wire_env (addr_of 2) (nw_config demo_network) (Some mb_new) True (addr_of 1) (demo_wire 0x806 []) (\<lambda>_. 0))
      (nc_rules (nw_config demo_network)) (start_state (addr_of 2) 255) = Inr (z, s) \<and> z \<noteq> DOZTFILTER_DROP"
proof -
  have "(case filterIncomingPacket (\<lambda>_. True) (addr_of 2) (\<lambda>_ _. 0) (addr_of 1) (addr_of 2) (demo_wire 0x806 []) demo_network of
      Inr (n, _) \<Rightarrow> n = 1 | Inl _ \<Rightarrow> False)" by code_simp
  then obtain nw' out where r: "filterIncomingPacket (\<lambda>_. True) (addr_of 2) (\<lambda>_ _. 0) (addr_of 1) (addr_of 2) (demo_wire 0x806 []) demo_network = Inr (1, nw', out)"
    by (auto split: sum.splits)
  have m: "ht_get hc_addr (nw_memberships demo_network) (addr_of 1) = Some mb_new" by code_simp
  from incoming_justified [OF r _ m mb_new_ok [of demo_env]] r show ?thesis by auto
qed

lemma outgoing_justified_witness:
  "\<exists>q nw' z s. filterOutgoingPacket (addr_of 1) (\<lambda>_ _. 0) True (addr_of 1) (addr_of 2) (demo_wire 0x806 []) 4 demo_network =
      Inr (True, q, nw', []) \<and>
    doZtFilter (wire_env (addr_of 1) (nw_config demo_network) (ht_get hc_addr (nw_memberships demo_network) (addr_of 2)) False
      (addr_of 1) (demo_wire 0x806 []) (\<lambda>_. 0)) (nc_rules (nw_config demo_network)) (start_state (addr_of 2) 4) = Inr (z, s) \<and>
    z \<noteq> DOZTFILTER_DROP"
proof -
  have b: "addr_bool (addr_of 2)" by code_simp
  have "(case filterOutgoingPacket (addr_of 1) (\<lambda>_ _. 0) True (addr_of 1) (addr_of 2) (demo_wire 0x806 []) 4 demo_network of
      Inr (ok, q, nw', out) \<Rightarrow> ok \<and> out = [] | Inl _ \<Rightarrow> False)" by code_simp
  then obtain q nw' where r: "filterOutgoingPacket (addr_of 1) (\<lambda>_ _. 0) True (addr_of 1) (addr_of 2) (demo_wire 0x806 []) 4 demo_network =
      Inr (True, q, nw', [])" by (auto split: sum.splits)
  from outgoing_justified [OF r refl] r b show ?thesis by auto
qed

text \<open>
  The condition on TCP headers is needed: a 20-byte IPv4 frame that says TCP makes a rule on
  characteristics read past its end.
\<close>

lemma characteristics_reads_past_end:
  "doZtFilter (demo_fenv 0x800 ([0x45, 0, 0, 20, 0, 0, 0, 0, 64, 6] @ replicate 10 0)) [\<lparr>r_t = 41, r_v = VChar 2\<rparr>]
     (start_state (addr_of 2) 4) = Inl UndefinedBehaviour"
  by code_simp

text \<open>
  Port 0 is a port in IPv4 and none in IPv6: the same rule on the range 0 to 1023 matches UDP from
  port 0 in one and not in the other.
\<close>

lemma port_zero_differs:
  "match_port (demo_fenv 0x800 ([0x45, 0, 0, 28, 0, 0, 0, 0, 64, 17] @ replicate 18 0)) False False 0 1023 = Inr True"
  "match_port (demo_fenv 0x86dd ([0x60, 0, 0, 0, 0, 8, 17, 64] @ replicate 40 0)) False False 0 1023 = Inr False"
  by code_simp+

text \<open>
  A rule that cannot be applied is neither a match nor, negated, a match - except an IPv4 frame
  without ports: its negated port rule matches.
\<close>

lemma negated_port_without_ports:
  "match_port (demo_fenv 0x800 ([0x45, 0, 0, 28, 0, 0, 0, 0, 64, 1] @ replicate 18 0)) True False 0 1023 = Inr False"
  "match_port (demo_fenv 0x86dd [0x60]) True False 0 1023 = Inr True"
  by code_simp+

end
