(* ===== verification/ZT_World.thy ===== *)
theory ZT_World
  imports ZT_Credentials
begin

text \<open>
  \<^verbatim>\<open>node/World.hpp\<close>: a set of root servers with their endpoints, the planet or a moon, and the
  key that must sign its next revision. The properties: the wire form reads back, the signed form
  determines every field but the signature, and an update replaces a world exactly when it is the
  same world, newer and signed by the key the current one names.
\<close>

section \<open>State\<close>

datatype world_type = TYPE_NULL | TYPE_PLANET | TYPE_MOON

definition wtype_code :: "world_type \<Rightarrow> u8" where
  "wtype_code t = (case t of TYPE_NULL \<Rightarrow> 0 | TYPE_PLANET \<Rightarrow> 1 | TYPE_MOON \<Rightarrow> 127)"

record root =
  ro_identity :: identity
  ro_endpoints :: "inet list"

record world =
  w_id :: u64
  w_ts :: u64
  w_type :: world_type
  w_key :: "u8 list"
  w_sig :: "u8 list"
  w_roots :: "root list"

text \<open>The constructor leaves key and signature as they are; here they are zeros.\<close>

definition world_nil :: world where
  "world_nil = \<lparr>w_id = 0, w_ts = 0, w_type = TYPE_NULL, w_key = replicate 64 0, w_sig = replicate 96 0, w_roots = []\<rparr>"

definition world_bool :: "world \<Rightarrow> bool" where
  "world_bool w \<longleftrightarrow> w_type w \<noteq> TYPE_NULL"

definition root_eq :: "root \<Rightarrow> root \<Rightarrow> bool" where
  "root_eq a b \<longleftrightarrow> identity_eq (ro_identity a) (ro_identity b) \<and>
     list_all2 inet_eq (ro_endpoints a) (ro_endpoints b)"

definition root_less :: "root \<Rightarrow> root \<Rightarrow> bool" where
  "root_less a b \<longleftrightarrow> identity_less (ro_identity a) (ro_identity b)"

definition world_eq :: "world \<Rightarrow> world \<Rightarrow> bool" where
  "world_eq a b \<longleftrightarrow> w_id a = w_id b \<and> w_ts a = w_ts b \<and> w_key a = w_key b \<and> w_sig a = w_sig b \<and>
     list_all2 root_eq (w_roots a) (w_roots b) \<and> w_type a = w_type b"

definition setRootStableEndpoints :: "nat \<Rightarrow> inet list \<Rightarrow> world \<Rightarrow> world" where
  "setRootStableEndpoints i eps w =
     (if i < length (w_roots w)
      then w\<lparr>w_roots := (w_roots w)[i := (w_roots w ! i)\<lparr>ro_endpoints := eps\<rparr>]\<rparr> else w)"

section \<open>Wire form\<close>

definition root_writes :: "root \<Rightarrow> (zbuf \<Rightarrow> zbuf res) list" where
  "root_writes r =
     [identity_serialize False (ro_identity r), buf_append_int 1 (of_nat (length (ro_endpoints r)) :: u8),
      ser_list inet_serialize (ro_endpoints r)]"

definition world_serialize :: "bool \<Rightarrow> world \<Rightarrow> zbuf \<Rightarrow> zbuf res" where
  "world_serialize forSign w =
     write_all ((if forSign then [buf_append_int 8 (0x7f7f7f7f7f7f7f7f :: u64)] else []) @
       [buf_append_int 1 (wtype_code (w_type w)), buf_append_int 8 (w_id w), buf_append_int 8 (w_ts w),
        buf_append_bytes (w_key w) 64] @
       (if forSign then [] else [buf_append_bytes (w_sig w) 96]) @
       [buf_append_int 1 (of_nat (length (w_roots w)) :: u8)] @
       concat (map root_writes (w_roots w)) @
       (if w_type w = TYPE_MOON then [buf_append_int 2 (0 :: u16)] else []) @
       (if forSign then [buf_append_int 8 (0xf7f7f7f7f7f7f7f7 :: u64)] else []))"

definition root_deserialize :: "zbuf \<Rightarrow> u32 \<Rightarrow> (root \<times> u32) res" where
  "root_deserialize b p =
     bind_res (identity_deserialize b p) (\<lambda>(i, l).
     bind_res (buf_get b (p + l)) (\<lambda>n.
     if n > 32 then Inl SerializedOverflow
     else
       bind_res (des_list inet_deserialize (unat n) b (p + l + 1)) (\<lambda>(eps, q).
         Inr (\<lparr>ro_identity = i, ro_endpoints = eps\<rparr>, q - p))))"

definition world_deserialize :: "zbuf \<Rightarrow> u32 \<Rightarrow> (world \<times> u32) res" where
  "world_deserialize b p =
     bind_res (buf_get b p) (\<lambda>ty.
     bind_res (if ty = 0 then Inr TYPE_NULL else if ty = 1 then Inr TYPE_PLANET
               else if ty = 127 then Inr TYPE_MOON else Inl InvalidType) (\<lambda>t.
     bind_res (buf_at 8 b (p + 1)) (\<lambda>i. bind_res (buf_at 8 b (p + 9)) (\<lambda>ts.
     bind_res (buf_bytes b (p + 17) 64) (\<lambda>key. bind_res (buf_bytes b (p + 81) 96) (\<lambda>sig.
     bind_res (buf_get b (p + 177)) (\<lambda>n.
     if n > 4 then Inl SerializedOverflow
     else
       bind_res (des_list root_deserialize (unat n) b (p + 178)) (\<lambda>(roots, q).
       bind_res (if t = TYPE_MOON then bind_res (buf_at 2 b q) (\<lambda>l :: u16. Inr (q + (ucast l + 2))) else Inr q)
         (\<lambda>q'. Inr (\<lparr>w_id = i, w_ts = ts, w_type = t, w_key = key, w_sig = sig, w_roots = roots\<rparr>, q' - p)))))))))) "

section \<open>Updates\<close>

text \<open>The capacity of the temporary buffer, \<^verbatim>\<open>ZT_WORLD_MAX_SERIALIZED_LENGTH\<close>.\<close>

definition WORLD_MAX :: nat where "WORLD_MAX = (1024 + 32 * 32) * 4 + 64 + 96 + 128"

definition shouldBeReplacedBy :: "'s crypto \<Rightarrow> world \<Rightarrow> world \<Rightarrow> bool res" where
  "shouldBeReplacedBy c cur update =
     (if w_id cur = 0 \<or> w_type cur = TYPE_NULL then Inr True
      else if w_id cur = w_id update \<and> w_ts cur < w_ts update \<and> w_type cur = w_type update then
        bind_res (world_serialize True update (buf_new (replicate WORLD_MAX 0))) (\<lambda>tmp.
          Inr (ecc_verify c (w_key cur) (bdata tmp) (w_sig update)))
      else Inr False)"

definition world_make :: "'s crypto \<Rightarrow> world_type \<Rightarrow> u64 \<Rightarrow> u64 \<Rightarrow> u8 list \<Rightarrow> root list \<Rightarrow>
    u8 list \<Rightarrow> u8 list \<Rightarrow> world res" where
  "world_make c t i ts sk roots priv pub =
     (let w = \<lparr>w_id = i, w_ts = ts, w_type = t, w_key = sk, w_sig = replicate 96 0, w_roots = roots\<rparr> in
      bind_res (world_serialize True w (buf_new (replicate WORLD_MAX 0))) (\<lambda>tmp.
        Inr (w\<lparr>w_sig := ecc_sign c priv pub (bdata tmp)\<rparr>)))"

section \<open>Wire contract\<close>

definition root_ok :: "root \<Rightarrow> bool" where
  "root_ok r \<longleftrightarrow> identity_ok (ro_identity r) \<and> id_priv (ro_identity r) = None \<and>
     length (ro_endpoints r) \<le> 32 \<and> list_all inet_ip_port (ro_endpoints r)"

definition world_ok :: "world \<Rightarrow> bool" where
  "world_ok w \<longleftrightarrow> length (w_key w) = 64 \<and> length (w_sig w) = 96 \<and> length (w_roots w) \<le> 4 \<and>
     list_all root_ok (w_roots w)"

definition root_enc :: "root \<Rightarrow> u8 list" where
  "root_enc r = identity_enc False (ro_identity r) @ [of_nat (length (ro_endpoints r))] @
     concat (map inet_enc (ro_endpoints r))"

definition world_head :: "world \<Rightarrow> u8 list" where
  "world_head w = wtype_code (w_type w) # be_bytes 8 (w_id w) @ be_bytes 8 (w_ts w) @ w_key w"

definition world_tail :: "world \<Rightarrow> u8 list" where
  "world_tail w = [of_nat (length (w_roots w))] @ concat (map root_enc (w_roots w)) @
     (if w_type w = TYPE_MOON then [0, 0] else [])"

definition world_enc :: "bool \<Rightarrow> world \<Rightarrow> u8 list" where
  "world_enc forSign w =
     (if forSign then be_bytes 8 (0x7f7f7f7f7f7f7f7f :: u64) else []) @ world_head w @
     (if forSign then [] else w_sig w) @ world_tail w @
     (if forSign then be_bytes 8 (0xf7f7f7f7f7f7f7f7 :: u64) else [])"

lemma root_okD:
  assumes "root_ok r"
  shows "identity_ok (ro_identity r) \<and> id_priv (ro_identity r) = None" "length (ro_endpoints r) \<le> 32"
    "\<forall>a\<in>set (ro_endpoints r). inet_ip_port a"
  using assms by (simp_all add: root_ok_def list_all_iff)

lemma length_inets:
  "\<forall>a\<in>set as. inet_ip_port a \<Longrightarrow> length (concat (map inet_enc as)) \<le> 19 * length as"
  by (induction as) (use length_inet_enc in fastforce)+

lemma length_root_enc: "root_ok r \<Longrightarrow> length (root_enc r) \<le> 744"
  using length_identity_enc [of "ro_identity r" False] length_inets [of "ro_endpoints r"] root_okD [of r]
  by (fastforce simp: root_enc_def)

lemma list_all2_root:
  assumes "root_ok r"
  shows "list_all2 appends (root_writes r)
    [identity_enc False (ro_identity r), [of_nat (length (ro_endpoints r))], concat (map inet_enc (ro_endpoints r))]"
  using root_okD [OF assms] inet_wire.list_appends
  by (simp add: root_writes_def appends_identity appends_u8)

interpretation root_wire: wire_object "\<lambda>r. write_all (root_writes r)" root_deserialize root_enc root_ok
proof unfold_locales
  fix r assume ok: "root_ok r"
  show "appends (write_all (root_writes r)) (root_enc r)"
    using appends_write_all [OF list_all2_root [OF ok]] by (simp add: root_enc_def)
  show "length (root_enc r) < 2 ^ 31" using length_root_enc [OF ok] by simp
next
  fix r b p rest assume ok: "root_ok r" and pos: "at_pos b p (root_enc r @ rest)"
  note r = root_okD [OF ok]
  let ?i = "identity_enc False (ro_identity r)" and ?e = "concat (map inet_enc (ro_endpoints r))"
  have pos1: "at_pos b p (?i @ [of_nat (length (ro_endpoints r))] @ ?e @ rest)"
    using pos by (simp add: root_enc_def)
  define q where "q = p + of_nat (length ?i)"
  have pos2: "at_pos b q ([of_nat (length (ro_endpoints r))] @ ?e @ rest)"
    unfolding q_def by (rule at_pos_skip [OF pos1])
      (use length_identity_enc [of "ro_identity r" False] r in \<open>simp add: unat_of_nat_u32\<close>)
  have pos3: "at_pos b (q + 1) (?e @ rest)" by (rule at_pos_skip [OF pos2]) simp
  have u: "unat (of_nat (length (ro_endpoints r)) :: u8) = length (ro_endpoints r)"
    using r(2) by (simp add: unat_of_nat)
  have n: "\<not> 32 < (of_nat (length (ro_endpoints r)) :: u8)" using r(2) u by (simp add: word_less_nat_alt)
  have g: "buf_get b q = Inr (of_nat (length (ro_endpoints r)))" by (simp add: at_pos_reads [OF pos2])
  show "root_deserialize b p = Inr (r, of_nat (length (root_enc r)))"
    using identity_pub_wire.des_enc [OF r(1) pos1] g n inet_wire.list_des [OF r(3) pos3]
    by (simp add: root_deserialize_def q_def [symmetric] u) (simp add: q_def root_enc_def)
qed

lemma world_okD:
  assumes "world_ok w"
  shows "length (w_key w) = 64" "length (w_sig w) = 96" "length (w_roots w) \<le> 4" "\<forall>r\<in>set (w_roots w). root_ok r"
  using assms by (simp_all add: world_ok_def list_all_iff)

lemma length_roots: "\<forall>r\<in>set rs. root_ok r \<Longrightarrow> length (concat (map root_enc rs)) \<le> 744 * length rs"
  by (induction rs) (use length_root_enc in fastforce)+

lemma length_world_enc:
  assumes "world_ok w" shows "length (world_enc s w) \<le> 3200"
  using length_roots [OF world_okD(4) [OF assms]] world_okD(1-3) [OF assms]
  by (auto simp: world_enc_def world_head_def world_tail_def)

lemma appends_roots:
  "\<forall>r\<in>set rs. root_ok r \<Longrightarrow>
    \<exists>bss. list_all2 appends (concat (map root_writes rs)) bss \<and> concat bss = concat (map root_enc rs)"
proof (induction rs)
  case (Cons r rs)
  then obtain bss where "list_all2 appends (concat (map root_writes rs)) bss" "concat bss = concat (map root_enc rs)"
    by auto
  then show ?case using list_all2_appendI [OF list_all2_root [of r]] Cons.prems
    by (fastforce simp: root_enc_def [of r])
qed simp

lemma appends_world:
  assumes "world_ok w" shows "appends (world_serialize s w) (world_enc s w)"
proof -
  obtain bss where b: "list_all2 appends (concat (map root_writes (w_roots w))) bss"
      "concat bss = concat (map root_enc (w_roots w))"
    using appends_roots [OF world_okD(4) [OF assms]] by blast
  have z: "appends (buf_append_int 2 (0 :: u16)) [0, 0]"
    using appends_int [of 2 "0 :: u16"] by (simp add: be_bytes_eval)
  have "list_all2 appends ((if s then [buf_append_int 8 (0x7f7f7f7f7f7f7f7f :: u64)] else []) @
       [buf_append_int 1 (wtype_code (w_type w)), buf_append_int 8 (w_id w), buf_append_int 8 (w_ts w),
        buf_append_bytes (w_key w) 64] @
       (if s then [] else [buf_append_bytes (w_sig w) 96]) @
       [buf_append_int 1 (of_nat (length (w_roots w)) :: u8)] @
       concat (map root_writes (w_roots w)) @
       (if w_type w = TYPE_MOON then [buf_append_int 2 (0 :: u16)] else []) @
       (if s then [buf_append_int 8 (0xf7f7f7f7f7f7f7f7 :: u64)] else []))
     ((if s then [be_bytes 8 (0x7f7f7f7f7f7f7f7f :: u64)] else []) @
       [[wtype_code (w_type w)], be_bytes 8 (w_id w), be_bytes 8 (w_ts w), w_key w] @
       (if s then [] else [w_sig w]) @ [[of_nat (length (w_roots w))]] @ bss @
       (if w_type w = TYPE_MOON then [[0, 0]] else []) @
       (if s then [be_bytes 8 (0xf7f7f7f7f7f7f7f7 :: u64)] else []))"
    using world_okD(1,2) [OF assms] b(1) z
    by (intro list_all2_appendI) (simp_all add: appends_u8 appends_int appends_bytes)
  from appends_write_all [OF this] show ?thesis
    by (simp add: world_serialize_def world_enc_def world_head_def world_tail_def b(2) split: if_splits)
qed

lemma world_des_enc:
  assumes ok: "world_ok w" and pos: "at_pos b p (world_enc False w @ rest)"
  shows "world_deserialize b p = Inr (w, of_nat (length (world_enc False w)))"
proof -
  note w = world_okD [OF ok]
  let ?rs = "concat (map root_enc (w_roots w))"
  let ?m = "if w_type w = TYPE_MOON then [0, 0] else []"
  have pos1: "at_pos b p ((world_head w @ w_sig w @ [of_nat (length (w_roots w))]) @ ?rs @ ?m @ rest)"
    using pos by (simp add: world_enc_def world_tail_def)
  have pos2: "at_pos b (p + 178) (?rs @ ?m @ rest)"
    by (rule at_pos_skip [OF pos1]) (simp add: world_head_def w)
  define q where "q = p + 178 + of_nat (length ?rs)"
  have "unat (of_nat (length ?rs) :: u32) = length ?rs"
    using length_roots [OF w(4)] w(3) by (intro unat_of_nat_u32) simp
  then have pos3: "at_pos b q (?m @ rest)" unfolding q_def by (rule at_pos_skip [OF pos2])
  have u: "unat (of_nat (length (w_roots w)) :: u8) = length (w_roots w)" using w(3) by (simp add: unat_of_nat)
  have n: "\<not> 4 < (of_nat (length (w_roots w)) :: u8)" using w(3) u by (simp add: word_less_nat_alt)
  have roots: "des_list root_deserialize (length (w_roots w)) b (p + 178) = Inr (w_roots w, q)"
    using root_wire.list_des [OF w(4) pos2] by (simp add: q_def)
  have moon: "w_type w = TYPE_MOON \<Longrightarrow> buf_at 2 b q = Inr (0 :: u16)"
  proof -
    assume "w_type w = TYPE_MOON"
    then have "at_pos b q (be_bytes 2 (0 :: u16) @ rest)" using pos3 by (simp add: be_bytes_eval)
    then show ?thesis by (simp add: at_pos_reads)
  qed
  have ty: "buf_get b p = Inr (wtype_code (w_type w))"
    using at_pos_get0 [OF pos1] by (simp add: world_head_def)
  note rd = at_pos_reads [OF pos1 [unfolded world_head_def]]
  have F: "buf_at 8 b (p + 1) = Inr (w_id w)" "buf_at 8 b (p + 9) = Inr (w_ts w)"
    "buf_bytes b (p + 17) 64 = Inr (w_key w)" "buf_bytes b (p + 81) 96 = Inr (w_sig w)"
    "buf_get b (p + 177) = Inr (of_nat (length (w_roots w)))"
    using w(1,2) by (simp_all add: rd nth_append)
  have len: "of_nat (length (world_enc False w)) = (if w_type w = TYPE_MOON then q + 2 - p else q - p)"
    using w(1,2) by (simp add: world_enc_def world_head_def world_tail_def q_def)
  show ?thesis
    using F n u roots moon ty len
    by (cases "w_type w") (simp_all add: world_deserialize_def wtype_code_def)
qed

interpretation world_wire: wire_object "world_serialize False" world_deserialize "world_enc False" world_ok
proof unfold_locales
  fix w assume "world_ok w"
  then show "length (world_enc False w) < 2 ^ 31" using length_world_enc [of w False] by simp
qed (simp_all add: appends_world world_des_enc)

section \<open>Properties\<close>

lemma world_signed_bytes:
  assumes "world_ok w" shows "\<exists>tmp. world_serialize True w (buf_new (replicate WORLD_MAX 0)) = Inr tmp \<and> bdata tmp = world_enc True w"
proof -
  let ?b = "buf_new (replicate WORLD_MAX 0)"
  have "small ?b" "fits ?b (world_enc True w)"
    using length_world_enc [OF assms, of True] by (simp_all add: fits_def bsize_def bcap_def buf_new_def WORLD_MAX_def small_def buf_ok_def)
  from appendsD(1) [OF appends_world [OF assms] this] show ?thesis by (auto simp: grown_def)
qed

lemma replaced_iff:
  "world_ok u \<Longrightarrow> shouldBeReplacedBy c cur u = Inr (w_id cur = 0 \<or> w_type cur = TYPE_NULL \<or>
    (w_id cur = w_id u \<and> w_type cur = w_type u \<and> w_ts cur < w_ts u \<and>
     ecc_verify c (w_key cur) (world_enc True u) (w_sig u)))"
  using world_signed_bytes [of u] by (auto simp: shouldBeReplacedBy_def)

text \<open>The signature and nothing else is missing from the signed form.\<close>

lemma world_enc_sig [simp]: "world_enc True (w\<lparr>w_sig := s\<rparr>) = world_enc True w"
  by (simp add: world_enc_def world_head_def world_tail_def)

lemma world_enc_inj:
  assumes "world_ok w" "world_ok w'" "world_enc False w = world_enc False w'" shows "w = w'"
proof -
  define b where "b = \<lparr>bmem = world_enc False w, blen = of_nat (length (world_enc False w)) :: u32\<rparr>"
  have n: "length (world_enc False w) < 2 ^ 31" using length_world_enc [OF assms(1), of False] by simp
  then have "unat (of_nat (length (world_enc False w)) :: u32) = length (world_enc False w)" by (simp add: unat_of_nat_u32)
  then have p: "at_pos b 0 (world_enc False w @ [])"
    using n by (simp add: at_pos_def b_def small_def buf_ok_def bdata_def bsize_def bcap_def)
  then have q: "at_pos b 0 (world_enc False w' @ [])" unfolding assms(3) .
  from trans [OF sym [OF world_des_enc [OF assms(1) p]] world_des_enc [OF assms(2) q]] show ?thesis by simp
qed

text \<open>
  Two worlds have the same signed form exactly when they agree in everything but the
  signature, so a signature over one says nothing about any other.
\<close>

lemma world_signed_determines:
  assumes "world_ok w" "world_ok w'"
  shows "(world_enc True w = world_enc True w') = (w\<lparr>w_sig := w_sig w'\<rparr> = w')"
proof
  assume e: "world_enc True w = world_enc True w'"
  have h: "length (world_head w) = length (world_head w')" using assms by (simp add: world_head_def world_ok_def)
  have "world_head w @ world_tail w = world_head w' @ world_tail w'" using e by (simp add: world_enc_def)
  then have "world_head w = world_head w'" "world_tail w = world_tail w'" using h by simp_all
  then have f: "world_enc False (w\<lparr>w_sig := w_sig w'\<rparr>) = world_enc False w'"
    by (simp add: world_enc_def world_head_def world_tail_def)
  show "w\<lparr>w_sig := w_sig w'\<rparr> = w'"
    by (rule world_enc_inj [OF _ assms(2) f]) (use assms in \<open>simp add: world_ok_def\<close>)
next
  assume "w\<lparr>w_sig := w_sig w'\<rparr> = w'"
  then show "world_enc True w = world_enc True w'" using world_enc_sig [of "w_sig w'" w] by simp
qed

lemma world_signed_determines_witness:
  "world_enc True (world_nil\<lparr>w_ts := 1\<rparr>) \<noteq> world_enc True (world_nil\<lparr>w_ts := 2\<rparr>)"
  by (subst world_signed_determines) (simp_all add: world_ok_def world_nil_def)

text \<open>
  Claim C21: an update replaces a world exactly when there is none yet, or it is the same world of the
  same type with a later timestamp and a signature, over the signed form, that verifies under
  the key the current world names; and what \<open>make\<close> builds with that key and a later timestamp
  replaces it.
\<close>

theorem world_update_exact:
  assumes u: "world_ok u" and k: "key_pair c priv (w_key cur)" "crypto_ok c" and ts: "w_ts cur < ts"
  shows "shouldBeReplacedBy c cur u = Inr (w_id cur = 0 \<or> w_type cur = TYPE_NULL \<or>
      (w_id cur = w_id u \<and> w_type cur = w_type u \<and> w_ts cur < w_ts u \<and>
       ecc_verify c (w_key cur) (world_enc True u) (w_sig u))) \<and>
    (\<exists>w. world_make c (w_type cur) (w_id cur) ts (w_key u) (w_roots u) priv (w_key cur) = Inr w \<and>
        w_roots w = w_roots u \<and> shouldBeReplacedBy c cur w = Inr True)"
proof -
  let ?w = "\<lparr>w_id = w_id cur, w_ts = ts, w_type = w_type cur, w_key = w_key u, w_sig = replicate 96 0, w_roots = w_roots u\<rparr>"
  let ?s = "ecc_sign c priv (w_key cur) (world_enc True ?w)"
  have wok: "world_ok ?w" using u by (simp add: world_ok_def)
  have sok: "world_ok (?w\<lparr>w_sig := ?s\<rparr>)" using u k(2) by (simp add: world_ok_def crypto_ok_def)
  obtain tmp where t: "world_serialize True ?w (buf_new (replicate WORLD_MAX 0)) = Inr tmp" "bdata tmp = world_enc True ?w"
    using world_signed_bytes [OF wok] by blast
  have "world_make c (w_type cur) (w_id cur) ts (w_key u) (w_roots u) priv (w_key cur) = Inr (?w\<lparr>w_sig := ?s\<rparr>)"
    using t by (simp add: world_make_def)
  moreover have "world_enc True (?w\<lparr>w_sig := ?s\<rparr>) = world_enc True ?w" by (simp add: world_enc_def world_head_def world_tail_def)
  then have "shouldBeReplacedBy c cur (?w\<lparr>w_sig := ?s\<rparr>) = Inr True"
    using replaced_iff [OF sok, of c cur] k(1) ts by (simp add: key_pair_def)
  ultimately show ?thesis using replaced_iff [OF u] by simp
qed

theorem world_update_exact_witness:
  "\<exists>w. shouldBeReplacedBy \<lparr>ecc_sign = \<lambda>_ _ _. replicate 96 7, ecc_verify = \<lambda>_ _ sig. sig = replicate 96 7,
        sha512 = \<lambda>_. replicate 64 0, sha384 = \<lambda>_. replicate 48 0, s20_init = \<lambda>_ _. (), s20_crypt = \<lambda>s m. (m, s)\<rparr>
      (world_nil\<lparr>w_id := 1, w_ts := 4, w_type := TYPE_PLANET\<rparr>) w = Inr True"
proof -
  let ?c = "\<lparr>ecc_sign = \<lambda>_ _ _. replicate 96 7, ecc_verify = \<lambda>_ _ sig. sig = replicate 96 7,
        sha512 = \<lambda>_. replicate 64 0, sha384 = \<lambda>_. replicate 48 0, s20_init = \<lambda>_ _. (), s20_crypt = \<lambda>s m. (m, s)\<rparr>"
  let ?cur = "world_nil\<lparr>w_id := 1, w_ts := 4, w_type := TYPE_PLANET\<rparr>"
  have "world_ok world_nil" by (simp add: world_ok_def world_nil_def)
  moreover have "key_pair ?c (replicate 64 5) (w_key ?cur)" by (simp add: key_pair_def)
  moreover have "crypto_ok ?c" by (simp add: crypto_ok_def)
  moreover have "w_ts ?cur < 5" by simp
  ultimately show ?thesis using world_update_exact [of world_nil ?c "replicate 64 5" ?cur 5] by blast
qed

end
