(* ===== verification/ZT_Path.thy ===== *)
theory ZT_Path
  imports ZT_Inet
begin

text \<open>
  \<^verbatim>\<open>node/Path.hpp\<close>: one physical path to a peer, its key in the topology's table, its timers,
  its latency and quality, and the rule which addresses may carry a path; and the rate limit
  gates of \<^verbatim>\<open>Path\<close> and of \<^verbatim>\<open>Peer\<close> as instances of one contract. Times and sockets are the
  code's \<^verbatim>\<open>int64_t\<close>, words compared as signed. The fields only the bonding layer writes are
  not part of the record. The properties: a path's key is its endpoint and its socket, and a
  rate gate opens at most once per period.
\<close>

section \<open>State\<close>

record path =
  p_lastOut :: u64
  p_lastIn :: u64
  p_lastTrust :: u64
  p_lastEcho :: u64
  p_localSocket :: u64
  p_latency :: u32
  p_addr :: inet
  p_ipScope :: ip_scope

definition path_new :: "u64 \<Rightarrow> inet \<Rightarrow> path" where
  "path_new l a = \<lparr>p_lastOut = 0, p_lastIn = 0, p_lastTrust = 0, p_lastEcho = 0, p_localSocket = l,
     p_latency = 0xffff, p_addr = a, p_ipScope = inet_ipScope a\<rparr>"

definition path_default :: path where
  "path_default = (path_new (- 1) inet_zero)\<lparr>p_ipScope := IP_SCOPE_NONE\<rparr>"

section \<open>Hash key\<close>

text \<open>
  The three words of the key. An IPv4 key is the raw address, the raw port and the socket; an IPv6
  key the sixteen address bytes and the socket with the raw port mixed into its upper half.
\<close>

type_synonym path_key = "u64 \<times> u64 \<times> u64"

definition path_key :: "u64 \<Rightarrow> inet \<Rightarrow> path_key" where
  "path_key l r =
     (if ss_family r = AF_INET then (ucast (le_val (ip4_b r) :: u32), ucast (le_val (port_b r) :: u16), l)
      else if ss_family r = AF_INET6 then
        (le_val (take 8 (ip6_b r)), le_val (drop 8 (ip6_b r)),
         push_bit 32 (ucast (le_val (port_b r) :: u16)) XOR l)
      else
        (le_val (take 8 (inet_mem r)), le_val (take 8 (drop 8 (inet_mem r))),
         le_val (take 8 (drop 16 (inet_mem r))) + l))"

definition path_key_hash :: "path_key \<Rightarrow> u64" where
  "path_key_hash k = (case k of (a, b, c) \<Rightarrow> a + b + c)"

definition path_key_eq :: "path_key \<Rightarrow> path_key \<Rightarrow> bool" where
  "path_key_eq j k = (case (j, k) of ((a, b, c), (a', b', c')) \<Rightarrow> a = a' \<and> b = b' \<and> c = c')"

section \<open>Operations\<close>

definition PATH_HEARTBEAT :: u64 where "PATH_HEARTBEAT = 14000"
definition TRUST_EXPIRATION :: u64 where "TRUST_EXPIRATION = 600000"
definition GENERAL_RATE_LIMIT :: u64 where "GENERAL_RATE_LIMIT = 1000"
definition MAX_SCOPE :: u32 where "MAX_SCOPE = 7"

definition scope_code :: "ip_scope \<Rightarrow> u32" where
  "scope_code s =
     (case s of IP_SCOPE_NONE \<Rightarrow> 0 | IP_SCOPE_MULTICAST \<Rightarrow> 1 | IP_SCOPE_LOOPBACK \<Rightarrow> 2
      | IP_SCOPE_PSEUDOPRIVATE \<Rightarrow> 3 | IP_SCOPE_GLOBAL \<Rightarrow> 4 | IP_SCOPE_LINK_LOCAL \<Rightarrow> 5
      | IP_SCOPE_SHARED \<Rightarrow> 6 | IP_SCOPE_PRIVATE \<Rightarrow> 7)"

definition path_received :: "u64 \<Rightarrow> path \<Rightarrow> path" where
  "path_received t p = p\<lparr>p_lastIn := t\<rparr>"

definition trustedPacketReceived :: "u64 \<Rightarrow> path \<Rightarrow> path" where
  "trustedPacketReceived t p = p\<lparr>p_lastTrust := t\<rparr>"

definition path_sent :: "u64 \<Rightarrow> path \<Rightarrow> path" where
  "path_sent t p = p\<lparr>p_lastOut := t\<rparr>"

text \<open>\<open>put\<close> is what the host's \<^verbatim>\<open>putPacket\<close> returned.\<close>

definition path_send :: "bool \<Rightarrow> u64 \<Rightarrow> path \<Rightarrow> bool \<times> path" where
  "path_send put now p = (if put then (True, p\<lparr>p_lastOut := now\<rparr>) else (False, p))"

definition updateLatency :: "u32 \<Rightarrow> path \<Rightarrow> path" where
  "updateLatency l p =
     (let pl = p_latency p in p\<lparr>p_latency := if pl < 0xffff then (pl + l) div 2 else l\<rparr>)"

definition path_trustEstablished :: "path \<Rightarrow> u64 \<Rightarrow> bool" where
  "path_trustEstablished p now \<longleftrightarrow> now - p_lastTrust p <s TRUST_EXPIRATION"

definition preferenceRank :: "path \<Rightarrow> u32" where
  "preferenceRank p = push_bit 1 (scope_code (p_ipScope p)) OR of_bool (ss_family (p_addr p) = AF_INET6)"

definition isAddressValidForPath :: "inet \<Rightarrow> bool" where
  "isAddressValidForPath a =
     (if ss_family a = AF_INET \<or> ss_family a = AF_INET6 then
        (if inet_ipScope a \<in> {IP_SCOPE_PRIVATE, IP_SCOPE_PSEUDOPRIVATE, IP_SCOPE_SHARED, IP_SCOPE_GLOBAL} then
           \<not> (ss_family a = AF_INET6 \<and> take 4 (ip6_b a) = [0x20, 0x01, 0x04, 0x70])
         else False)
      else False)"

text \<open>
  \<^verbatim>\<open>quality\<close>: the latency and the age are \<^verbatim>\<open>int\<close>, the product is \<^verbatim>\<open>long\<close>; lower is better.
\<close>

definition path_age_int :: "path \<Rightarrow> u64 \<Rightarrow> u32" where
  "path_age_int p now =
     (let d = now - p_lastIn p; lim = PATH_HEARTBEAT * 10 in ucast (if lim <s d then lim else d))"

definition path_quality :: "path \<Rightarrow> u64 \<Rightarrow> u64" where
  "path_quality p now =
     (let l = p_latency p; age = path_age_int p now in
      scast (if age <s ucast (PATH_HEARTBEAT + 5000) then l else l + 0xffff + age) *
      scast ((MAX_SCOPE - scope_code (p_ipScope p)) + 1))"

definition path_alive :: "path \<Rightarrow> u64 \<Rightarrow> bool" where
  "path_alive p now \<longleftrightarrow> now - p_lastIn p <s PATH_HEARTBEAT + 5000"

definition needsHeartbeat :: "path \<Rightarrow> u64 \<Rightarrow> bool" where
  "needsHeartbeat p now \<longleftrightarrow> PATH_HEARTBEAT \<le>s now - p_lastOut p"

definition path_age :: "path \<Rightarrow> u64 \<Rightarrow> u64" where
  "path_age p now = now - p_lastIn p"

definition rateGateEchoRequest :: "u64 \<Rightarrow> path \<Rightarrow> bool \<times> path" where
  "rateGateEchoRequest now p =
     (if GENERAL_RATE_LIMIT div 6 \<le>s now - p_lastEcho p then (True, p\<lparr>p_lastEcho := now\<rparr>) else (False, p))"

section \<open>Rate gates\<close>

text \<open>
  The contract of a gate: it opens exactly when the period has passed since it last opened, and
  opening is all that moves its timer.
\<close>

fun gate_run :: "(u64 \<Rightarrow> 's \<Rightarrow> bool \<times> 's) \<Rightarrow> u64 list \<Rightarrow> 's \<Rightarrow> u64 list" where
  "gate_run gate [] s = []"
| "gate_run gate (t # ts) s =
     (case gate t s of (ok, s') \<Rightarrow> (if ok then [t] else []) @ gate_run gate ts s')"

fun forward :: "int \<Rightarrow> u64 list \<Rightarrow> bool" where
  "forward b [] \<longleftrightarrow> True"
| "forward b (t # ts) \<longleftrightarrow> b \<le> sint t \<and> forward (sint t) ts"

fun spaced :: "int \<Rightarrow> u64 list \<Rightarrow> bool" where
  "spaced d (t # t' # ts) \<longleftrightarrow> sint t + d \<le> sint t' \<and> spaced d (t' # ts)"
| "spaced d ts \<longleftrightarrow> True"

lemma sint_diff:
  assumes "0 \<le> sint (a :: u64)" "0 \<le> sint (b :: u64)" shows "sint (a - b) = sint a - sint b"
proof -
  have "sint a < 2 ^ 63" "sint b < 2 ^ 63" using sint_lt [of a] sint_lt [of b] by simp_all
  then show ?thesis using assms by (simp add: sint_word_ariths signed_take_bit_int_eq_self)
qed

lemma forward_mono: "forward b ts \<Longrightarrow> a \<le> b \<Longrightarrow> forward a ts"
  by (cases ts) auto

lemma spaced_cons: "spaced d (t # ts) \<longleftrightarrow> (ts = [] \<or> sint t + d \<le> sint (hd ts)) \<and> spaced d ts"
  by (cases ts) auto

lemma spaced_count:
  assumes "spaced d ts" "0 < d" "\<forall>t\<in>set ts. lo \<le> sint t \<and> sint t < lo + n * d" "0 \<le> n"
  shows "int (length ts) \<le> n"
proof -
  have "spaced d ts \<Longrightarrow> \<forall>t\<in>set ts. lo \<le> sint t \<Longrightarrow> ts \<noteq> [] \<Longrightarrow> lo + (int (length ts) - 1) * d \<le> sint (last ts)" for lo
  proof (induction ts arbitrary: lo)
    case (Cons t ts)
    show ?case
    proof (cases "ts = []")
      case True
      then show ?thesis using Cons.prems by simp
    next
      case False
      have "\<forall>u\<in>set ts. sint t + d \<le> sint u"
      proof -
        have "spaced d (t # us) \<Longrightarrow> u \<in> set us \<Longrightarrow> sint t + d \<le> sint u" for us u
          by (induction us arbitrary: t) (use assms(2) in \<open>fastforce simp: spaced_cons\<close>)+
        then show ?thesis using Cons.prems(1) by blast
      qed
      then have "sint t + d + (int (length ts) - 1) * d \<le> sint (last ts)"
        using Cons.IH [of "sint t + d"] Cons.prems(1) False by (simp add: spaced_cons)
      moreover have "lo \<le> sint t" using Cons.prems by simp
      ultimately show ?thesis using False by (simp add: algebra_simps)
    qed
  qed simp
  then have m: "ts \<noteq> [] \<Longrightarrow> lo + (int (length ts) - 1) * d \<le> sint (last ts)" using assms(1,3) by simp
  show ?thesis
  proof (cases "ts = []")
    case False
    have "lo + (int (length ts) - 1) * d < lo + n * d"
      using m [OF False] assms(3) last_in_set [OF False] by (meson le_less_trans)
    then have "(int (length ts) - 1) * d < n * d" by simp
    then show ?thesis using assms(2) by (simp add: mult_less_cancel_right)
  qed (use assms(4) in simp)
qed

locale rate_gate =
  fixes gate :: "u64 \<Rightarrow> 's \<Rightarrow> bool \<times> 's"
    and last_open :: "'s \<Rightarrow> u64"
    and period :: u64
  assumes opens: "fst (gate now s) \<longleftrightarrow> period \<le>s now - last_open s"
    and timer: "last_open (snd (gate now s)) = (if fst (gate now s) then now else last_open s)"
    and period_pos: "0 < sint period"
begin

text \<open>Requests at times that do not go back are let through at distances of at least the period.\<close>

lemma run_spaced:
  assumes "0 \<le> sint (last_open s)" "forward b ts" "0 \<le> b"
  shows "spaced (sint period) (last_open s # gate_run gate ts s) \<and> set (gate_run gate ts s) \<subseteq> set ts"
  using assms
proof (induction ts arbitrary: s b)
  case (Cons t ts)
  obtain ok s' where g: "gate t s = (ok, s')" by (cases "gate t s")
  have t0: "0 \<le> sint t" and fw: "forward (sint t) ts" using Cons.prems by auto
  have o: "ok \<longleftrightarrow> period \<le>s t - last_open s" and l: "last_open s' = (if ok then t else last_open s)"
    using opens [of t s] timer [of t s] g by simp_all
  have IH: "spaced (sint period) (last_open s' # gate_run gate ts s') \<and> set (gate_run gate ts s') \<subseteq> set ts"
    using Cons.IH [of s' "sint t"] fw t0 l Cons.prems(1) by simp
  have d: "sint (t - last_open s) = sint t - sint (last_open s)"
    by (rule sint_diff) (use t0 Cons.prems in auto)
  show ?case
  proof (cases ok)
    case True
    then have "sint (last_open s) + sint period \<le> sint t" using o d by (simp add: word_sle_eq)
    then show ?thesis using IH True l g by auto
  next
    case False
    then show ?thesis using IH l g by auto
  qed
qed simp

lemma run_bounded:
  assumes "0 \<le> sint (last_open s)" "forward b ts" "0 \<le> b" "\<forall>t\<in>set ts. lo \<le> sint t \<and> sint t < lo + n * sint period" "0 \<le> n"
  shows "int (length (gate_run gate ts s)) \<le> n"
  using run_spaced [OF assms(1-3)] assms(4,5)
  by (intro spaced_count [OF _ period_pos, of _ lo]) (auto simp: spaced_cons)

end

interpretation echo_gate: rate_gate rateGateEchoRequest p_lastEcho "GENERAL_RATE_LIMIT div 6"
  by unfold_locales (simp_all add: rateGateEchoRequest_def GENERAL_RATE_LIMIT_def)

section \<open>Properties\<close>

lemma ucast_up_inject:
  "(ucast (x :: u16) :: u64) = ucast y \<longleftrightarrow> x = y" "(ucast (v :: u32) :: u64) = ucast w \<longleftrightarrow> v = w"
  "(ucast (x :: u16) :: u32) = ucast y \<longleftrightarrow> x = y"
proof -
  have "(ucast (ucast x :: u64) :: u16) = x" "(ucast (ucast v :: u64) :: u32) = v" for x :: u16 and v :: u32
    by (rule bit_word_eqI, auto simp: bit_ucast_iff dest: bit_imp_le_length)+
  then show "(ucast (x :: u16) :: u64) = ucast y \<longleftrightarrow> x = y" "(ucast (v :: u32) :: u64) = ucast w \<longleftrightarrow> v = w"
    "(ucast (x :: u16) :: u32) = ucast y \<longleftrightarrow> x = y"
    by (metis, metis, metis ucast_u16_u32_u16)
qed

lemma key_mix:
  assumes "l < 2 ^ 32" "m < 2 ^ 32"
  shows "push_bit 32 (ucast (p :: u16) :: u64) XOR l = push_bit 32 (ucast q) XOR m \<longleftrightarrow> p = q \<and> l = m"
proof
  have small: "take_bit 32 x = x" if "x < 2 ^ 32" for x :: u64
    using that by (simp add: take_bit_eq_mod mod_word_less)
  have top: "drop_bit 32 x = 0" if "x < 2 ^ 32" for x :: u64
    using drop_bit_take_bit [of 32 32 x] small [OF that] by simp
  have up: "drop_bit 32 (push_bit 32 (ucast r :: u64)) = ucast r" for r :: u16
    by (rule bit_word_eqI) (auto simp: bit_drop_bit_eq bit_push_bit_iff bit_ucast_iff dest: bit_imp_le_length)
  assume e: "push_bit 32 (ucast p :: u64) XOR l = push_bit 32 (ucast q) XOR m"
  have "ucast p = (ucast q :: u64)"
    using arg_cong [OF e, of "drop_bit 32"] by (simp add: up top [OF assms(1)] top [OF assms(2)])
  moreover have "l = m"
    using arg_cong [OF e, of "take_bit 32"] by (simp add: small [OF assms(1)] small [OF assms(2)] take_bit_push_bit)
  ultimately show "p = q \<and> l = m" by (simp add: ucast_up_inject)
qed auto

text \<open>
  For sockets below \<open>2 ^ 32\<close> two paths to IP endpoints with ports have the same key
  exactly when they have the same socket, the same address and the same port; so the topology's
  table of paths neither mixes two of them up nor holds one twice.
\<close>

lemma path_key_exact:
  assumes wf: "inet_wf a" "inet_wf b" and ip: "inet_isV4 a \<or> inet_isV6 a" "inet_isV4 b \<or> inet_isV6 b"
    and port: "inet_port a \<noteq> 0" "inet_port b \<noteq> 0" and sock: "l < 2 ^ 32" "m < 2 ^ 32"
  shows "(path_key l a = path_key m b) = (l = m \<and> inet_ipsEqual a b \<and> inet_port a = inet_port b)"
proof -
  have fam: "inet_isV4 x \<longleftrightarrow> ss_family x = AF_INET" "inet_isV6 x \<longleftrightarrow> ss_family x = AF_INET6"
    "AF_INET6 \<noteq> AF_INET" for x by (simp_all add: inet_isV4_def inet_isV6_def AF_INET_def AF_INET6_def)
  let ?p = "\<lambda>x. le_val (port_b x) :: u16"
  have pe: "inet_port a = inet_port b \<longleftrightarrow> ?p a = ?p b"
  proof -
    have "inet_port a = inet_port b \<longleftrightarrow> (be_val (port_b a) :: u16) = be_val (port_b b)"
      using ip by (auto simp: inet_port_def ucast_up_inject)
    also have "\<dots> \<longleftrightarrow> port_b a = port_b b"
      using le_val_inject [of "rev (port_b a)" "rev (port_b b)", where 'a = 16] wf by (simp add: le_val_def)
    also have "\<dots> \<longleftrightarrow> ?p a = ?p b"
      using le_val_inject [of "port_b a" "port_b b", where 'a = 16] wf by simp
    finally show ?thesis .
  qed
  have nz: "?p x \<noteq> 0" if "inet_wf x" "inet_port x \<noteq> 0" for x
  proof
    have z: "be_val [0, 0] = (0 :: u16)" by (simp add: be_val_def)
    assume "?p x = 0"
    then have "?p x = le_val [0, 0]" using z by (simp add: le_val_def)
    then have "port_b x = [0, 0]" using le_val_inject [of "port_b x" "[0, 0]", where 'a = 16] that(1) by simp
    then show False using that(2) z by (simp add: inet_port_def split: if_splits)
  qed
  show ?thesis
  proof (cases "ss_family a = ss_family b")
    case same: True
    show ?thesis
    proof (cases "inet_isV4 a")
      case True
      then show ?thesis using same pe le_val_inject [of "ip4_b a" "ip4_b b", where 'a = 32] wf
        by (auto simp: path_key_def inet_ipsEqual_def fam ucast_up_inject)
    next
      case False
      then have v6: "ss_family a = AF_INET6" using ip fam by blast
      have "ip6_b a = ip6_b b \<longleftrightarrow> take 8 (ip6_b a) = take 8 (ip6_b b) \<and> drop 8 (ip6_b a) = drop 8 (ip6_b b)"
        by (metis append_take_drop_id)
      moreover have "(le_val (take 8 (ip6_b a)) :: u64) = le_val (take 8 (ip6_b b)) \<longleftrightarrow> take 8 (ip6_b a) = take 8 (ip6_b b)"
        "(le_val (drop 8 (ip6_b a)) :: u64) = le_val (drop 8 (ip6_b b)) \<longleftrightarrow> drop 8 (ip6_b a) = drop 8 (ip6_b b)"
        using wf by (simp_all add: le_val_inject)
      ultimately show ?thesis using same pe v6 key_mix [OF sock]
        by (auto simp: path_key_def inet_ipsEqual_def fam)
    qed
  next
    case False
    have "path_key l a \<noteq> path_key m b"
    proof
      assume e: "path_key l a = path_key m b"
      have "(inet_isV4 a \<and> inet_isV6 b) \<or> (inet_isV6 a \<and> inet_isV4 b)" using ip False fam by metis
      then show False
      proof
        assume "inet_isV4 a \<and> inet_isV6 b"
        then have "push_bit 32 (ucast (0 :: u16)) XOR l = push_bit 32 (ucast (?p b)) XOR m"
          using e fam by (simp add: path_key_def)
        then show False using key_mix [OF sock] nz wf port by metis
      next
        assume "inet_isV6 a \<and> inet_isV4 b"
        then have "push_bit 32 (ucast (?p a)) XOR l = push_bit 32 (ucast (0 :: u16)) XOR m"
          using e fam by (simp add: path_key_def)
        then show False using key_mix [OF sock] nz wf port by metis
      qed
    qed
    then show ?thesis using False by (simp add: inet_ipsEqual_def)
  qed
qed

lemma path_key_exact_witness:
  "path_key 3 (inet_set [10, 0, 0, 1] 4 9993) \<noteq> path_key 3 (inet_set [10, 0, 0, 1] 4 9994)"
proof -
  have p: "inet_port (inet_set [10, 0, 0, 1] 4 9993) = 9993" "inet_port (inet_set [10, 0, 0, 1] 4 9994) = 9994"
    by code_simp+
  show ?thesis
    by (subst path_key_exact) (simp_all add: inet_set_fields p)
qed

text \<open>
  The socket is a pointer on the hosts that supply it, and its upper half is where the port is
  mixed in: two IPv6 endpoints that differ in port share a key on suitable sockets.
\<close>

lemma path_key_collision:
  "path_key 0x100000000 (inet_set (replicate 16 1) 16 0x0200) = path_key 0x300000000 (inet_set (replicate 16 1) 16 0)"
  by code_simp

end
