(* ===== verification/ZT_Peer.thy ===== *)
theory ZT_Peer
  imports ZT_Path ZT_Packet ZT_Identity "HOL-Library.Signed_Division"
begin

text \<open>
  \<^verbatim>\<open>node/Peer.hpp\<close> and \<^verbatim>\<open>node/Peer.cpp\<close>: a remote node, the array of its physical paths, how
  paths are learned, chosen, kept alive, replaced and forgotten, its rate gates and its cached
  form. \<^verbatim>\<open>Path\<close> objects are shared by pointer between the topology and the peers, so they live
  in an explicit store and a slot of the array holds a reference or null. Bonding is off
  (\<^verbatim>\<open>_bond\<close> is null), as it is unless the host configures a bonding policy. What a peer sends
  is a list of events, in order; the header and the armor of those packets are those of the
  theory of packets.
\<close>

section \<open>State\<close>

type_synonym path_store = "nat \<Rightarrow> path"

definition on_path :: "nat \<Rightarrow> (path \<Rightarrow> path) \<Rightarrow> path_store \<Rightarrow> path_store" where
  "on_path r f h = h(r := f (h r))"

record peer_path =
  pp_lr :: u64
  pp_p :: "nat option"
  pp_priority :: int

definition no_path :: peer_path where
  "no_path = \<lparr>pp_lr = 0, pp_p = None, pp_priority = 1\<rparr>"

definition MAX_PATHS :: nat where "MAX_PATHS = 64"

record peer =
  pr_id :: identity
  pr_key :: "u8 list"
  pr_aes :: "u8 list \<times> u8 list"
  pr_lastReceive :: u64
  pr_lastNontrivial :: u64
  pr_lastTriedMemorized :: u64
  pr_lastPushSent :: u64
  pr_lastPushReceive :: u64
  pr_lastCredRequest :: u64
  pr_lastWhois :: u64
  pr_lastCredentials :: u64
  pr_lastTrust :: u64
  pr_lastFullHello :: u64
  pr_vProto :: u16
  pr_vMajor :: u16
  pr_vMinor :: u16
  pr_vRevision :: u16
  pr_tried :: "(nat \<times> u64) list"
  pr_paths :: "peer_path list"
  pr_pushCutoff :: u32

text \<open>
  What a peer needs from the node: key agreement and the key derivation (public cryptography),
  the node's own identity and addresses, the host's answers.
\<close>

record peer_env =
  pe_now :: u64
  pe_identity :: identity
  pe_agree :: "identity \<Rightarrow> identity \<Rightarrow> u8 list option"
  pe_kdf :: "u8 list \<Rightarrow> u8 list \<times> u8 list"
  pe_shouldUsePath :: "address \<Rightarrow> u64 \<Rightarrow> inet \<Rightarrow> bool"
  pe_lookup :: "address \<Rightarrow> inet option"
  pe_put :: "u64 \<Rightarrow> inet \<Rightarrow> bool"
  pe_directPaths :: "inet list"
  pe_whoami :: "inet list"
  pe_lowBandwidth :: bool

datatype peer_out =
    SendHello u64 inet
  | SendEcho u64 inet
  | SendPush nat "u8 list"
  | SendRendezvous address nat "u8 list"

definition peer_new :: "peer_env \<Rightarrow> identity \<Rightarrow> peer res" where
  "peer_new e i =
     (case pe_agree e (pe_identity e) i of
        None \<Rightarrow> Inl InvalidArgument
      | Some k \<Rightarrow> Inr \<lparr>pr_id = i, pr_key = k, pr_aes = pe_kdf e k, pr_lastReceive = 0, pr_lastNontrivial = 0,
          pr_lastTriedMemorized = 0, pr_lastPushSent = 0, pr_lastPushReceive = 0, pr_lastCredRequest = 0,
          pr_lastWhois = 0, pr_lastCredentials = 0, pr_lastTrust = 0, pr_lastFullHello = 0,
          pr_vProto = 0, pr_vMajor = 0, pr_vMinor = 0, pr_vRevision = 0, pr_tried = [],
          pr_paths = replicate MAX_PATHS no_path, pr_pushCutoff = 0\<rparr>)"

abbreviation pr_address :: "peer \<Rightarrow> address" where "pr_address p \<equiv> id_address (pr_id p)"

definition PING_PERIOD :: u64 where "PING_PERIOD = 60000"
definition PATH_EXPIRATION :: u64 where "PATH_EXPIRATION = PING_PERIOD * 4 + 3000"
definition ACTIVITY_TIMEOUT :: u64 where "ACTIVITY_TIMEOUT = 500000"
definition MEMORIZED_INTERVAL :: u64 where "MEMORIZED_INTERVAL = 30000"
definition PUSH_INTERVAL :: u64 where "PUSH_INTERVAL = 15000"
definition PUSH_INTERVAL_HAVEPATH :: u64 where "PUSH_INTERVAL_HAVEPATH = 120000"
definition CUTOFF_TIME :: u64 where "CUTOFF_TIME = 30000"
definition CUTOFF_LIMIT :: u32 where "CUTOFF_LIMIT = 8"
definition CREDENTIALS_RATE_LIMIT :: u64 where "CREDENTIALS_RATE_LIMIT = 1000"
definition WHOIS_RATE_LIMIT :: u64 where "WHOIS_RATE_LIMIT = 100"

section \<open>Contact\<close>

definition attemptToContactAt :: "peer \<Rightarrow> u64 \<Rightarrow> inet \<Rightarrow> bool \<Rightarrow> peer_out list" where
  "attemptToContactAt p sock a full =
     (if \<not> full \<and> 5 \<le> pr_vProto p \<and> \<not> (pr_vMajor p = 1 \<and> pr_vMinor p = 1 \<and> pr_vRevision p = 0)
      then [SendEcho sock a] else [SendHello sock a])"

definition tryMemorizedPath :: "peer_env \<Rightarrow> peer \<Rightarrow> peer \<times> peer_out list" where
  "tryMemorizedPath e p =
     (if MEMORIZED_INTERVAL \<le>s pe_now e - pr_lastTriedMemorized p then
        (p\<lparr>pr_lastTriedMemorized := pe_now e\<rparr>,
         case pe_lookup e (pr_address p) of None \<Rightarrow> [] | Some mp \<Rightarrow> attemptToContactAt p (- 1) mp True)
      else (p, []))"

section \<open>Receiving\<close>

text \<open>The first loop of \<^verbatim>\<open>received\<close>: is the path of the packet known?\<close>

fun find_path :: "path_store \<Rightarrow> u64 \<Rightarrow> nat \<Rightarrow> peer_path list \<Rightarrow> peer_path list \<times> bool" where
  "find_path h now r [] = ([], False)"
| "find_path h now r (s # ss) =
     (case pp_p s of
        None \<Rightarrow> (s # ss, False)
      | Some q \<Rightarrow>
          if q = r then (s\<lparr>pp_lr := now\<rparr> # ss, True)
          else if inet_ipsEqual (p_addr (h q)) (p_addr (h r)) \<and> p_localSocket (h q) = p_localSocket (h r)
              \<and> path_alive (h q) now then (s # ss, True)
          else (case find_path h now r ss of (ss', b) \<Rightarrow> (s # ss', b)))"

text \<open>
  The second loop: the slot for a new path, a dead path at the same address or the first free
  slot, else the path that was silent longest; the index 64 when there is none.
\<close>

fun pick_slot :: "path_store \<Rightarrow> u64 \<Rightarrow> nat \<Rightarrow> peer_path list \<Rightarrow> nat \<Rightarrow> u32 \<Rightarrow> nat \<Rightarrow> nat" where
  "pick_slot h now r [] i oldest idx = idx"
| "pick_slot h now r (s # ss) i oldest idx =
     (case pp_p s of
        None \<Rightarrow> i
      | Some q \<Rightarrow>
          (let age = ucast (path_age (h q) now) :: u32;
               (oldest', idx') = (if oldest < age then (age, i) else (oldest, idx)) in
           if inet_ipsEqual (p_addr (h q)) (p_addr (h r)) \<and> p_localSocket (h q) = p_localSocket (h r)
              \<and> \<not> path_alive (h q) now then i
           else pick_slot h now r ss (i + 1) oldest' idx'))"

definition learn_path :: "path_store \<Rightarrow> u64 \<Rightarrow> nat \<Rightarrow> peer_path list \<Rightarrow> peer_path list" where
  "learn_path h now r ss =
     (let k = pick_slot h now r ss 0 0 MAX_PATHS in
      if k \<noteq> MAX_PATHS then ss[k := \<lparr>pp_lr = now, pp_p = Some r, pp_priority = 1\<rparr>] else ss)"

definition try_path :: "peer_env \<Rightarrow> nat \<Rightarrow> peer \<times> path_store \<Rightarrow> (peer \<times> path_store) \<times> peer_out list" where
  "try_path e r st =
     (case st of (p, h) \<Rightarrow>
      let now = pe_now e; tried = filter (\<lambda>(q, t). \<not> 1000 <s now - t) (pr_tried p) in
      if r \<in> fst ` set tried then ((p\<lparr>pr_tried := tried\<rparr>, h), [])
      else ((p\<lparr>pr_tried := tried @ [(r, now)]\<rparr>, on_path r (path_sent now) h),
            attemptToContactAt p (p_localSocket (h r)) (p_addr (h r)) True))"

definition learn_or_try :: "peer_env \<Rightarrow> nat \<Rightarrow> bool \<Rightarrow> peer \<times> path_store \<Rightarrow> (peer \<times> path_store) \<times> peer_out list" where
  "learn_or_try e r isOk st =
     (case st of (p, h) \<Rightarrow>
      case find_path h (pe_now e) r (pr_paths p) of (ss, havePath) \<Rightarrow>
      let p = p\<lparr>pr_paths := ss\<rparr> in
      if \<not> havePath \<and> pe_shouldUsePath e (pr_address p) (p_localSocket (h r)) (p_addr (h r)) then
        (if isOk then ((p\<lparr>pr_paths := learn_path h (pe_now e) r (pr_paths p)\<rparr>, h), [])
         else try_path e r (p, h))
      else ((p, h), []))"

section \<open>Pushing direct paths\<close>

text \<open>
  One packet takes addresses while \<^verbatim>\<open>outp->size() + 24 < 1200\<close>, after a header of 28 bytes and the
  two bytes of the count; anything that is not an IP address is skipped.
\<close>

definition push_entry :: "inet \<Rightarrow> u8 list" where
  "push_entry a =
     (if inet_isV4 a then [0] @ [0, 0] @ [4] @ [6] @ ip4_b a @ be_bytes 2 (ucast (inet_port a) :: u16)
      else if inet_isV6 a then [0] @ [0, 0] @ [6] @ [18] @ ip6_b a @ be_bytes 2 (ucast (inet_port a) :: u16)
      else [])"

fun push_fill :: "inet list \<Rightarrow> u8 list \<Rightarrow> nat \<Rightarrow> u8 list \<times> nat \<times> inet list" where
  "push_fill [] acc n = (acc, n, [])"
| "push_fill (a # as) acc n =
     (if 28 + 2 + length acc + 24 < 1200 then
        (if inet_isV4 a \<or> inet_isV6 a then push_fill as (acc @ push_entry a) (n + 1)
         else push_fill as acc n)
      else (acc, n, a # as))"

lemma push_fill_rest: "length (snd (snd (push_fill as acc n))) \<le> length as"
  by (induction as acc n rule: push_fill.induct) auto

lemma push_fill_less:
  assumes "(acc, n, rest) = push_fill as [] 0" "as \<noteq> []" shows "length rest < length as"
  using assms push_fill_rest [of "tl as" "push_entry (hd as)" 1] push_fill_rest [of "tl as" "[]" 0]
  by (cases as) (auto split: if_splits, (metis le_imp_less_Suc snd_conv)+)

function push_packets :: "inet list \<Rightarrow> u8 list list" where
  "push_packets as =
     (if as = [] then []
      else (case push_fill as [] 0 of (acc, n, rest) \<Rightarrow>
        (if n \<noteq> 0 then [be_bytes 2 (of_nat n :: u16) @ acc] else []) @ push_packets rest))"
  by pat_completeness auto

termination push_packets
  by (relation "measure length") (auto dest!: push_fill_less simp del: push_fill.simps)

declare push_packets.simps [simp del]

definition peer_trustEstablished :: "peer \<Rightarrow> u64 \<Rightarrow> bool" where
  "peer_trustEstablished p now \<longleftrightarrow> now - pr_lastTrust p <s TRUST_EXPIRATION"

text \<open>\<^verbatim>\<open>path->send\<close> of each packet; the host's answer decides whether the path's timer moves.\<close>

definition send_on :: "peer_env \<Rightarrow> nat \<Rightarrow> path_store \<Rightarrow> path_store" where
  "send_on e r h = on_path r (\<lambda>q. snd (path_send (pe_put e (p_localSocket q) (p_addr q)) (pe_now e) q)) h"

definition push_paths :: "peer_env \<Rightarrow> nat \<Rightarrow> u32 \<Rightarrow> peer \<times> path_store \<Rightarrow> (peer \<times> path_store) \<times> peer_out list" where
  "push_paths e r hops st =
     (case st of (p, h) \<Rightarrow>
      let now = pe_now e; since = now - pr_lastPushSent p; scale = (if pe_lowBandwidth e then 16 else 1);
          packets = push_packets (pe_directPaths e @ pe_whoami e) in
      if peer_trustEstablished p now \<and>
         (if hops = 0 then PUSH_INTERVAL_HAVEPATH * scale else PUSH_INTERVAL) \<le>s since then
        ((p\<lparr>pr_lastPushSent := now\<rparr>, fold (\<lambda>_. send_on e r) packets h), map (SendPush r) packets)
      else ((p, h), []))"

text \<open>\<open>received\<close>, in the order of the code.\<close>

definition nontrivial :: "verb \<Rightarrow> bool" where
  "nontrivial v \<longleftrightarrow> v \<in> {VERB_FRAME, VERB_EXT_FRAME, VERB_NETWORK_CONFIG_REQUEST, VERB_NETWORK_CONFIG, VERB_MULTICAST_FRAME}"

definition peer_received :: "peer_env \<Rightarrow> nat \<Rightarrow> u32 \<Rightarrow> verb \<Rightarrow> bool \<Rightarrow> peer \<times> path_store \<Rightarrow>
    (peer \<times> path_store) \<times> peer_out list" where
  "peer_received e r hops v trust st =
     (case st of (p, h) \<Rightarrow>
      let now = pe_now e;
          p = p\<lparr>pr_lastReceive := now\<rparr>;
          p = (if nontrivial v then p\<lparr>pr_lastNontrivial := now\<rparr> else p);
          (p, h) = (if trust then (p\<lparr>pr_lastTrust := now\<rparr>, on_path r (trustedPacketReceived now) h) else (p, h));
          (st, out) = (if hops = 0 then learn_or_try e r (v = VERB_OK) (p, h) else ((p, h), []));
          (st', out') = push_paths e r hops st in
      (st', out @ out'))"

section \<open>Choosing a path\<close>

text \<open>\<^verbatim>\<open>quality / priority\<close>, a division of \<^verbatim>\<open>long\<close>s.\<close>

definition slot_quality :: "path_store \<Rightarrow> u64 \<Rightarrow> peer_path \<Rightarrow> nat \<Rightarrow> int" where
  "slot_quality h now s q = sint (path_quality (h q) now) sdiv pp_priority s"

fun best_path :: "path_store \<Rightarrow> u64 \<Rightarrow> bool \<Rightarrow> peer_path list \<Rightarrow> nat \<Rightarrow> int \<Rightarrow> nat \<Rightarrow> nat" where
  "best_path h now expired [] i bestq best = best"
| "best_path h now expired (s # ss) i bestq best =
     (case pp_p s of
        None \<Rightarrow> best
      | Some q \<Rightarrow>
          if expired \<or> now - pp_lr s <s PATH_EXPIRATION then
            (if slot_quality h now s q \<le> bestq then best_path h now expired ss (i + 1) (slot_quality h now s q) i
             else best_path h now expired ss (i + 1) bestq best)
          else best_path h now expired ss (i + 1) bestq best)"

definition getAppropriatePath :: "path_store \<Rightarrow> peer \<Rightarrow> u64 \<Rightarrow> bool \<Rightarrow> nat option" where
  "getAppropriatePath h p now expired =
     (let k = best_path h now expired (pr_paths p) 0 2147483647 MAX_PATHS in
      if k \<noteq> MAX_PATHS then pp_p (pr_paths p ! k) else None)"

fun any_known :: "(peer_path \<Rightarrow> nat \<Rightarrow> bool) \<Rightarrow> peer_path list \<Rightarrow> bool" where
  "any_known P [] \<longleftrightarrow> False"
| "any_known P (s # ss) \<longleftrightarrow> (case pp_p s of None \<Rightarrow> False | Some q \<Rightarrow> P s q \<or> any_known P ss)"

definition hasActivePathTo :: "path_store \<Rightarrow> peer \<Rightarrow> u64 \<Rightarrow> inet \<Rightarrow> bool" where
  "hasActivePathTo h p now a = any_known (\<lambda>s q. now - pp_lr s <s PATH_EXPIRATION \<and> inet_eq (p_addr (h q)) a) (pr_paths p)"

definition hasAlivePath :: "path_store \<Rightarrow> peer \<Rightarrow> u64 \<Rightarrow> bool" where
  "hasAlivePath h p now = any_known (\<lambda>s q. path_alive (h q) now) (pr_paths p)"

fun known_paths :: "peer_path list \<Rightarrow> nat list" where
  "known_paths [] = []"
| "known_paths (s # ss) = (case pp_p s of None \<Rightarrow> [] | Some q \<Rightarrow> q # known_paths ss)"

definition sendDirect :: "peer_env \<Rightarrow> bool \<Rightarrow> peer \<times> path_store \<Rightarrow> bool \<times> path_store" where
  "sendDirect e force st =
     (case st of (p, h) \<Rightarrow>
      case getAppropriatePath h p (pe_now e) force of
        None \<Rightarrow> (False, h)
      | Some q \<Rightarrow> (pe_put e (p_localSocket (h q)) (p_addr (h q)), send_on e q h))"

definition peer_isAlive :: "peer \<Rightarrow> u64 \<Rightarrow> bool" where
  "peer_isAlive p now \<longleftrightarrow> now - pr_lastReceive p <s ACTIVITY_TIMEOUT"

definition peer_isActive :: "peer \<Rightarrow> u64 \<Rightarrow> bool" where
  "peer_isActive p now \<longleftrightarrow> now - pr_lastNontrivial p <s ACTIVITY_TIMEOUT"

definition peer_latency :: "path_store \<Rightarrow> peer \<Rightarrow> u64 \<Rightarrow> u32" where
  "peer_latency h p now =
     (case getAppropriatePath h p now False of Some q \<Rightarrow> p_latency (h q) | None \<Rightarrow> 0xffff)"

text \<open>Here the time since the last packet is a \<^verbatim>\<open>uint64_t\<close> and compared as one.\<close>

definition relayQuality :: "path_store \<Rightarrow> peer \<Rightarrow> u64 \<Rightarrow> u32" where
  "relayQuality h p now =
     (let tsr = now - pr_lastReceive p in
      if ACTIVITY_TIMEOUT \<le> tsr then - 1
      else (let l = peer_latency h p now; l = (if l = 0 then 0xffff else l) in
        l * (ucast tsr div ucast (PING_PERIOD + 1000) + 1)))"

section \<open>Introducing two peers\<close>

text \<open>The best path of each address family for each scope, a table filled in one pass over the slots.\<close>

type_synonym scope_table = "u32 \<Rightarrow> int \<times> nat"

fun scan_scopes :: "path_store \<Rightarrow> u64 \<Rightarrow> peer_path list \<Rightarrow> nat \<Rightarrow> scope_table \<times> scope_table \<Rightarrow> scope_table \<times> scope_table" where
  "scan_scopes h now [] i tabs = tabs"
| "scan_scopes h now (s # ss) i tabs =
     (case pp_p s of
        None \<Rightarrow> tabs
      | Some q \<Rightarrow>
          (case tabs of (t4, t6) \<Rightarrow>
           let v = slot_quality h now s q; sc = scope_code (p_ipScope (h q)) in
           scan_scopes h now ss (i + 1)
             (if ss_family (p_addr (h q)) = AF_INET then (if v \<le> fst (t4 sc) then (t4(sc := (v, i)), t6) else (t4, t6))
              else if ss_family (p_addr (h q)) = AF_INET6 then
                (if v \<le> fst (t6 sc) then (t4, t6(sc := (v, i))) else (t4, t6))
              else (t4, t6))))"

definition empty_table :: scope_table where
  "empty_table = (\<lambda>_. (2147483647, MAX_PATHS))"

text \<open>From the highest scope down, IPv6 before IPv4: the first at which both have a path.\<close>

fun common_path :: "scope_table \<times> scope_table \<Rightarrow> scope_table \<times> scope_table \<Rightarrow> u32 list \<Rightarrow> (nat \<times> nat) option" where
  "common_path mine theirs [] = None"
| "common_path mine theirs (s # ss) =
     (if snd (snd mine s) \<noteq> MAX_PATHS \<and> snd (snd theirs s) \<noteq> MAX_PATHS then
        Some (snd (snd mine s), snd (snd theirs s))
      else if snd (fst mine s) \<noteq> MAX_PATHS \<and> snd (fst theirs s) \<noteq> MAX_PATHS then
        Some (snd (fst mine s), snd (fst theirs s))
      else common_path mine theirs ss)"

definition rendezvous_payload :: "address \<Rightarrow> inet \<Rightarrow> u8 list" where
  "rendezvous_payload who a =
     [0] @ addr_bytes who @ be_bytes 2 (ucast (inet_port a) :: u16) @
     (if ss_family a = AF_INET6 then [16] @ ip6_b a else [4] @ ip4_b a)"

definition slot_ref :: "peer \<Rightarrow> nat \<Rightarrow> nat" where
  "slot_ref p k = the (pp_p (pr_paths p ! k))"

text \<open>\<open>first\<close> is the random bit that says who is told first.\<close>

definition introduce :: "peer_env \<Rightarrow> bool \<Rightarrow> peer \<Rightarrow> peer \<Rightarrow> path_store \<Rightarrow> path_store \<times> peer_out list" where
  "introduce e first p q h =
     (let tab = (\<lambda>x. scan_scopes h (pe_now e) (pr_paths x) 0 (empty_table, empty_table)) in
      case common_path (tab p) (tab q) [7, 6, 5, 4, 3, 2, 1, 0] of
        None \<Rightarrow> (h, [])
      | Some (i, j) \<Rightarrow>
          (let mine = slot_ref p i; theirs = slot_ref q j;
               a = SendRendezvous (pr_address p) mine (rendezvous_payload (pr_address q) (p_addr (h theirs)));
               b = SendRendezvous (pr_address q) theirs (rendezvous_payload (pr_address p) (p_addr (h mine))) in
           (send_on e mine (send_on e theirs h), if first then [b, a] else [a, b])))"

section \<open>Keeping paths alive\<close>

text \<open>The highest priority among the known paths.\<close>

fun max_priority :: "peer_path list \<Rightarrow> int \<Rightarrow> int" where
  "max_priority [] m = m"
| "max_priority (s # ss) m = (case pp_p s of None \<Rightarrow> m | Some q \<Rightarrow> max_priority ss (max (pp_priority s) m))"

text \<open>The inner loop: the next known path after an empty slot moves into it.\<close>

fun next_known :: "peer_path list \<Rightarrow> nat \<Rightarrow> nat option" where
  "next_known [] j = None"
| "next_known (s # ss) j = (if pp_p s \<noteq> None then Some j else next_known ss (j + 1))"

definition pull_down :: "nat \<Rightarrow> peer_path list \<Rightarrow> peer_path list" where
  "pull_down i ss =
     (case next_known (drop (i + 1) ss) (i + 1) of
        None \<Rightarrow> ss
      | Some j \<Rightarrow> ss[i := ss ! j, j := no_path])"

type_synonym ping_state = "peer_path list \<times> path_store \<times> peer_out list \<times> u32"

definition ping_slot :: "peer_env \<Rightarrow> peer \<Rightarrow> bool \<Rightarrow> int \<Rightarrow> nat \<Rightarrow> ping_state \<Rightarrow> ping_state" where
  "ping_slot e p full hi i st =
     (case st of (ss, h, out, sent) \<Rightarrow>
      let now = pe_now e; s = ss ! i;
          (ss, h, out, sent) =
            (case pp_p s of
               None \<Rightarrow> (ss, h, out, sent)
             | Some q \<Rightarrow>
                 if now - pp_lr s <s PATH_EXPIRATION \<and> pp_priority s = hi then
                   (if full \<or> needsHeartbeat (h q) now then
                      (ss, on_path q (path_sent now) h,
                       out @ attemptToContactAt p (p_localSocket (h q)) (p_addr (h q)) full,
                       sent OR (if ss_family (p_addr (h q)) = AF_INET then 1 else 2))
                    else (ss, h, out, sent))
                 else (ss[i := no_path], h, out, sent)) in
      if pp_p (ss ! i) = None then (pull_down i ss, h, out, sent) else (ss, h, out, sent))"

definition doPingAndKeepalive :: "peer_env \<Rightarrow> peer \<times> path_store \<Rightarrow> (peer \<times> path_store) \<times> peer_out list \<times> u32" where
  "doPingAndKeepalive e st =
     (case st of (p, h) \<Rightarrow>
      let now = pe_now e; full = (PING_PERIOD \<le>s now - pr_lastFullHello p);
          p = (if full then p\<lparr>pr_lastFullHello := now\<rparr> else p);
          hi = max_priority (pr_paths p) 0 in
      case fold (ping_slot e p full hi) [0..<MAX_PATHS] (pr_paths p, h, [], 0) of
        (ss, h, out, sent) \<Rightarrow> ((p\<lparr>pr_paths := ss\<rparr>, h), out, sent))"

section \<open>Redirection and reset\<close>

text \<open>The priority of the path a redirect came over, 1 when it is not known.\<close>

fun priority_of :: "nat \<Rightarrow> peer_path list \<Rightarrow> int" where
  "priority_of r [] = 1"
| "priority_of r (s # ss) =
     (case pp_p s of None \<Rightarrow> 1 | Some q \<Rightarrow> if q = r then pp_priority s else priority_of r ss)"

text \<open>
  Slots that stay move to the front; the new path comes after them and the rest is cleared. When
  all 64 stay there is no room for the new path.
\<close>

definition redirect_slots :: "path_store \<Rightarrow> u64 \<Rightarrow> inet \<Rightarrow> nat \<Rightarrow> int \<Rightarrow> peer_path list \<Rightarrow> peer_path list" where
  "redirect_slots h now remote np prio ss =
     (let stay = filter (\<lambda>s. case pp_p s of None \<Rightarrow> False
           | Some q \<Rightarrow> prio \<le> pp_priority s \<and> \<not> inet_ipsEqual2 (p_addr (h q)) remote) ss;
          j = length stay in
      if j < MAX_PATHS then
        stay @ [\<lparr>pp_lr = now, pp_p = Some np, pp_priority = prio\<rparr>] @ replicate (MAX_PATHS - j - 1) no_path
      else stay)"

definition clusterRedirect :: "peer_env \<Rightarrow> nat \<Rightarrow> nat \<Rightarrow> inet \<Rightarrow> peer \<times> path_store \<Rightarrow> (peer \<times> path_store) \<times> peer_out list" where
  "clusterRedirect e r np remote st =
     (case st of (p, h) \<Rightarrow>
      let prio = priority_of r (pr_paths p) + 2 in
      ((p\<lparr>pr_paths := redirect_slots h (pe_now e) remote np prio (pr_paths p)\<rparr>, h),
       attemptToContactAt p (p_localSocket (h r)) remote True))"

fun reset_slots :: "peer_env \<Rightarrow> peer \<Rightarrow> ip_scope \<Rightarrow> u16 \<Rightarrow> peer_path list \<Rightarrow> path_store \<Rightarrow>
    peer_path list \<times> path_store \<times> peer_out list" where
  "reset_slots e p scope fam [] h = ([], h, [])"
| "reset_slots e p scope fam (s # ss) h =
     (case pp_p s of
        None \<Rightarrow> (s # ss, h, [])
      | Some q \<Rightarrow>
          if ss_family (p_addr (h q)) = fam \<and> p_ipScope (h q) = scope then
            (case reset_slots e p scope fam ss (on_path q (path_sent (pe_now e)) h) of
               (ss', h', out) \<Rightarrow>
                 (s\<lparr>pp_lr := 0\<rparr> # ss', h', attemptToContactAt p (p_localSocket (h q)) (p_addr (h q)) False @ out))
          else (case reset_slots e p scope fam ss h of (ss', h', out) \<Rightarrow> (s # ss', h', out)))"

definition resetWithinScope :: "peer_env \<Rightarrow> ip_scope \<Rightarrow> u16 \<Rightarrow> peer \<times> path_store \<Rightarrow> (peer \<times> path_store) \<times> peer_out list" where
  "resetWithinScope e scope fam st =
     (case st of (p, h) \<Rightarrow>
      case reset_slots e p scope fam (pr_paths p) h of (ss, h', out) \<Rightarrow> ((p\<lparr>pr_paths := ss\<rparr>, h'), out))"

section \<open>Rate gates and versions\<close>

definition rateGatePushDirectPaths :: "u64 \<Rightarrow> peer \<Rightarrow> bool \<times> peer" where
  "rateGatePushDirectPaths now p =
     (let n = (if now - pr_lastPushReceive p \<le>s CUTOFF_TIME then pr_pushCutoff p + 1 else 0) in
      (n < CUTOFF_LIMIT, p\<lparr>pr_pushCutoff := n, pr_lastPushReceive := now\<rparr>))"

definition rateGateCredentialsReceived :: "u64 \<Rightarrow> peer \<Rightarrow> bool \<times> peer" where
  "rateGateCredentialsReceived now p =
     (if CREDENTIALS_RATE_LIMIT \<le>s now - pr_lastCredentials p then (True, p\<lparr>pr_lastCredentials := now\<rparr>) else (False, p))"

definition rateGateRequestCredentials :: "u64 \<Rightarrow> peer \<Rightarrow> bool \<times> peer" where
  "rateGateRequestCredentials now p =
     (if GENERAL_RATE_LIMIT \<le>s now - pr_lastCredRequest p then (True, p\<lparr>pr_lastCredRequest := now\<rparr>) else (False, p))"

definition rateGateInboundWhoisRequest :: "u64 \<Rightarrow> peer \<Rightarrow> bool \<times> peer" where
  "rateGateInboundWhoisRequest now p =
     (if WHOIS_RATE_LIMIT \<le>s now - pr_lastWhois p then (True, p\<lparr>pr_lastWhois := now\<rparr>) else (False, p))"

definition setRemoteVersion :: "u32 \<Rightarrow> u32 \<Rightarrow> u32 \<Rightarrow> u32 \<Rightarrow> peer \<Rightarrow> peer" where
  "setRemoteVersion pv ma mi re p =
     p\<lparr>pr_vProto := ucast pv, pr_vMajor := ucast ma, pr_vMinor := ucast mi, pr_vRevision := ucast re\<rparr>"

definition remoteVersionKnown :: "peer \<Rightarrow> bool" where
  "remoteVersionKnown p \<longleftrightarrow> 0 < pr_vMajor p \<or> 0 < pr_vMinor p \<or> 0 < pr_vRevision p"

definition aesKeysIfSupported :: "peer \<Rightarrow> (u8 list \<times> u8 list) option" where
  "aesKeysIfSupported p = (if 12 \<le> pr_vProto p then Some (pr_aes p) else None)"

section \<open>Cached form\<close>

definition serializeForCache :: "path_store \<Rightarrow> peer \<Rightarrow> zbuf \<Rightarrow> zbuf res" where
  "serializeForCache h p =
     (let known = known_paths (pr_paths p) in
      write_all ([buf_append_int 1 (2 :: u8), identity_serialize False (pr_id p),
        buf_append_int 2 (pr_vProto p), buf_append_int 2 (pr_vMajor p),
        buf_append_int 2 (pr_vMinor p), buf_append_int 2 (pr_vRevision p),
        buf_append_int 2 (of_nat (length known) :: u16),
        ser_list inet_serialize (map (\<lambda>q. p_addr (h q)) known)]))"

text \<open>The addresses to try: reading stops at the first that does not parse.\<close>

fun cached_tries :: "peer \<Rightarrow> nat \<Rightarrow> zbuf \<Rightarrow> u32 \<Rightarrow> peer_out list" where
  "cached_tries p 0 b ptr = []"
| "cached_tries p (Suc n) b ptr =
     (case inet_deserialize b ptr of
        Inl _ \<Rightarrow> []
      | Inr (a, l) \<Rightarrow> (if inet_bool a then attemptToContactAt p (- 1) a True else []) @ cached_tries p n b (ptr + l))"

definition read_cached :: "peer_env \<Rightarrow> zbuf \<Rightarrow> (peer \<times> peer_out list) option res" where
  "read_cached e b =
     bind_res (buf_get b 0) (\<lambda>t.
     if t \<noteq> 2 then Inr None
     else
       bind_res (identity_deserialize b 1) (\<lambda>(i, l).
       if \<not> identity_bool i then Inr None
       else
         bind_res (peer_new e i) (\<lambda>p.
         bind_res (buf_at 2 b (1 + l)) (\<lambda>vp. bind_res (buf_at 2 b (1 + l + 2)) (\<lambda>ma.
         bind_res (buf_at 2 b (1 + l + 4)) (\<lambda>mi. bind_res (buf_at 2 b (1 + l + 6)) (\<lambda>re.
         bind_res (buf_at 2 b (1 + l + 8)) (\<lambda>n :: u16.
           (let p = p\<lparr>pr_vProto := vp, pr_vMajor := ma, pr_vMinor := mi, pr_vRevision := re\<rparr> in
            Inr (Some (p, cached_tries p (unat n) b (1 + l + 10)))))))))))) "

text \<open>Any exception gives the null peer.\<close>

definition deserializeFromCache :: "peer_env \<Rightarrow> zbuf \<Rightarrow> (peer \<times> peer_out list) option" where
  "deserializeFromCache e b = (case read_cached e b of Inl _ \<Rightarrow> None | Inr r \<Rightarrow> r)"

section \<open>The array of paths\<close>

text \<open>
  The known paths are a prefix of the array, no path is in two slots, and priorities are positive
  (the code divides by them). This depends on the references and priorities of the slots only.
\<close>

definition slots_ok :: "peer_path list \<Rightarrow> bool" where
  "slots_ok ss \<longleftrightarrow> length ss = MAX_PATHS \<and> distinct (known_paths ss) \<and> (\<forall>s\<in>set ss. 1 \<le> pp_priority s) \<and>
     (\<forall>s\<in>set (drop (length (known_paths ss)) ss). pp_p s = None)"

lemma known_paths_append:
  "\<forall>s\<in>set ks. pp_p s \<noteq> None \<Longrightarrow> known_paths (ks @ ss) = map (the \<circ> pp_p) ks @ known_paths ss"
  by (induction ks) auto

lemma known_paths_none: "\<forall>s\<in>set ss. pp_p s = None \<Longrightarrow> known_paths ss = []"
  by (cases ss) auto

lemma length_known: "length (known_paths ss) \<le> length ss"
  by (induction ss) (auto split: option.split)

lemma known_prefix: "\<forall>s\<in>set (take (length (known_paths ss)) ss). pp_p s \<noteq> None"
  by (induction ss) (auto split: option.splits)

lemma known_map: "map (the \<circ> pp_p) (take (length (known_paths ss)) ss) = known_paths ss"
  by (induction ss) (auto split: option.splits)

lemma known_nth: "j < length (known_paths ss) \<Longrightarrow> pp_p (ss ! j) = Some (known_paths ss ! j)"
proof (induction ss arbitrary: j)
  case (Cons s ss)
  then show ?case by (cases j) (auto split: option.splits)
qed simp

lemma known_next: "length (known_paths ss) < length ss \<Longrightarrow> pp_p (ss ! length (known_paths ss)) = None"
  by (induction ss) (auto split: option.splits)

lemma known_takeWhile: "known_paths ss = map the (takeWhile (\<lambda>x. x \<noteq> None) (map pp_p ss))"
  by (induction ss) (auto split: option.split)

lemma known_cong: "map pp_p ss = map pp_p ss' \<Longrightarrow> known_paths ss = known_paths ss'"
  by (simp add: known_takeWhile)

lemma slots_okE:
  assumes "slots_ok ss"
  obtains ks rest where "ss = ks @ rest" "\<forall>s\<in>set ks. pp_p s \<noteq> None" "\<forall>s\<in>set rest. pp_p s = None"
    "known_paths ss = map (the \<circ> pp_p) ks" "distinct (map (the \<circ> pp_p) ks)" "length ks + length rest = MAX_PATHS"
    "\<forall>s\<in>set ks \<union> set rest. 1 \<le> pp_priority s"
proof -
  let ?n = "length (known_paths ss)"
  have u: "set (take ?n ss) \<union> set (drop ?n ss) = set ss" by (metis append_take_drop_id set_append)
  have l: "length (take ?n ss) + length (drop ?n ss) = MAX_PATHS" using assms by (simp add: slots_ok_def)
  have m: "known_paths ss = map (the \<circ> pp_p) (take ?n ss)" by (rule known_map [symmetric])
  show thesis
  proof (rule that [of "take ?n ss" "drop ?n ss"])
    show "\<forall>s\<in>set (take ?n ss) \<union> set (drop ?n ss). 1 \<le> pp_priority s" unfolding u using assms by (simp add: slots_ok_def)
    show "distinct (map (the \<circ> pp_p) (take ?n ss))" using assms unfolding slots_ok_def m [symmetric] by blast
    show "\<forall>s\<in>set (drop ?n ss). pp_p s = None" using assms by (simp add: slots_ok_def)
    show "\<forall>s\<in>set (take ?n ss). pp_p s \<noteq> None" by (rule known_prefix)
  qed (rule append_take_drop_id [symmetric] m l)+
qed

lemma slots_okI:
  assumes "\<forall>s\<in>set ks. pp_p s \<noteq> None" "\<forall>s\<in>set rest. pp_p s = None" "distinct (map (the \<circ> pp_p) ks)"
    "length ks + length rest = MAX_PATHS" "\<forall>s\<in>set ks \<union> set rest. 1 \<le> pp_priority s"
  shows "slots_ok (ks @ rest)" "known_paths (ks @ rest) = map (the \<circ> pp_p) ks"
  using assms by (auto simp: slots_ok_def known_paths_append known_paths_none)

lemma slots_ok_cong:
  assumes "slots_ok ss" "map pp_p ss' = map pp_p ss" "map pp_priority ss' = map pp_priority ss"
  shows "slots_ok ss'"
proof -
  have l: "length ss' = length ss" using arg_cong [OF assms(2), of length] by simp
  have k: "known_paths ss' = known_paths ss" by (rule known_cong [OF assms(2)])
  have "pp_priority ` set ss' = pp_priority ` set ss" using arg_cong [OF assms(3), of set] by simp
  moreover have "pp_p ` set (drop n ss') = pp_p ` set (drop n ss)" for n
    using arg_cong [OF assms(2), of "\<lambda>x. set (drop n x)"] by (simp add: drop_map)
  ultimately show ?thesis using assms(1) l k unfolding slots_ok_def by (metis (no_types, lifting) image_iff)
qed

section \<open>Learning\<close>

definition same_place :: "path_store \<Rightarrow> nat \<Rightarrow> nat \<Rightarrow> bool" where
  "same_place h q r \<longleftrightarrow> inet_ipsEqual (p_addr (h q)) (p_addr (h r)) \<and> p_localSocket (h q) = p_localSocket (h r)"

lemma find_path_spec:
  "snd (find_path h now r ss) \<longleftrightarrow> r \<in> set (known_paths ss) \<or> (\<exists>q\<in>set (known_paths ss). same_place h q r \<and> path_alive (h q) now)"
  "map pp_p (fst (find_path h now r ss)) = map pp_p ss"
  "map pp_priority (fst (find_path h now r ss)) = map pp_priority ss"
  "\<not> snd (find_path h now r ss) \<Longrightarrow> fst (find_path h now r ss) = ss"
  by (induction ss) (auto simp: same_place_def split: option.splits prod.splits)

text \<open>
  Which slot is refreshed: the one that refers to the path, unless a known path before it is alive at
  the same address on the same socket, for then the search ends there.
\<close>

definition refreshes :: "path_store \<Rightarrow> u64 \<Rightarrow> nat \<Rightarrow> nat list \<Rightarrow> nat \<Rightarrow> bool" where
  "refreshes h now r ks i \<longleftrightarrow> i < length ks \<and> ks ! i = r \<and>
     (\<forall>j<i. ks ! j \<noteq> r \<and> \<not> (same_place h (ks ! j) r \<and> path_alive (h (ks ! j)) now))"

lemma refreshes_Cons:
  "refreshes h now r (q # ks) i \<longleftrightarrow>
     (if q = r then i = 0
      else if same_place h q r \<and> path_alive (h q) now then False
      else (\<exists>j. i = Suc j \<and> refreshes h now r ks j))"
  by (cases i) (auto simp: refreshes_def All_less_Suc2)

lemma find_path_slots:
  "(\<forall>i. refreshes h now r (known_paths ss) i \<longrightarrow> fst (find_path h now r ss) = ss[i := (ss ! i)\<lparr>pp_lr := now\<rparr>]) \<and>
   ((\<forall>i. \<not> refreshes h now r (known_paths ss) i) \<longrightarrow> fst (find_path h now r ss) = ss)"
proof (induction ss)
  case Nil
  then show ?case by (simp add: refreshes_def)
next
  case (Cons s ss)
  show ?case
  proof (cases "pp_p s")
    case None
    then show ?thesis by (simp add: refreshes_def)
  next
    case (Some q)
    then show ?thesis using Cons.IH
      by (auto simp: refreshes_Cons same_place_def split: prod.splits)
  qed
qed

text \<open>Where a new path goes.\<close>

lemma pick_slot_cases:
  "let ks = known_paths ss; k = pick_slot h now r ss i oldest idx;
       age = (\<lambda>j. ucast (path_age (h (ks ! j)) now) :: u32); dead = (\<lambda>q. same_place h q r \<and> \<not> path_alive (h q) now) in
    (\<exists>j<length ks. k = i + j \<and> dead (ks ! j)) \<or>
    (\<forall>q\<in>set ks. \<not> dead q) \<and> length ks < length ss \<and> k = i + length ks \<or>
    (\<forall>q\<in>set ks. \<not> dead q) \<and> length ks = length ss \<and>
      (k = idx \<and> (\<forall>j<length ks. age j \<le> oldest) \<or>
       (\<exists>j<length ks. k = i + j \<and> oldest < age j \<and> (\<forall>j'<length ks. age j' \<le> age j)))"
proof (induction ss arbitrary: i oldest idx)
  case (Cons s ss)
  show ?case
  proof (cases "pp_p s")
    case (Some q)
    let ?age = "ucast (path_age (h q) now) :: u32"
    show ?thesis
    proof (cases "same_place h q r \<and> \<not> path_alive (h q) now")
      case True
      then show ?thesis using Some by (auto simp: Let_def same_place_def)
    next
      case False
      define old' idx' where "old' = (if oldest < ?age then ?age else oldest)" and "idx' = (if oldest < ?age then i else idx)"
      have k: "pick_slot h now r (s # ss) i oldest idx = pick_slot h now r ss (i + 1) old' idx'"
        using Some False by (auto simp: Let_def same_place_def old'_def idx'_def)
      from Cons.IH [of "i + 1" old' idx', unfolded Let_def] consider
        (dead) j where "j < length (known_paths ss)" "pick_slot h now r ss (i + 1) old' idx' = i + 1 + j"
            "same_place h (known_paths ss ! j) r" "\<not> path_alive (h (known_paths ss ! j)) now"
        | (free) "\<forall>q\<in>set (known_paths ss). \<not> (same_place h q r \<and> \<not> path_alive (h q) now)"
            "length (known_paths ss) < length ss" "pick_slot h now r ss (i + 1) old' idx' = i + 1 + length (known_paths ss)"
        | (keep) "\<forall>q\<in>set (known_paths ss). \<not> (same_place h q r \<and> \<not> path_alive (h q) now)"
            "length (known_paths ss) = length ss" "pick_slot h now r ss (i + 1) old' idx' = idx'"
            "\<forall>j<length (known_paths ss). ucast (path_age (h (known_paths ss ! j)) now) \<le> old'"
        | (old) j where "\<forall>q\<in>set (known_paths ss). \<not> (same_place h q r \<and> \<not> path_alive (h q) now)"
            "length (known_paths ss) = length ss" "j < length (known_paths ss)" "pick_slot h now r ss (i + 1) old' idx' = i + 1 + j"
            "old' < ucast (path_age (h (known_paths ss ! j)) now)"
            "\<forall>j'<length (known_paths ss). (ucast (path_age (h (known_paths ss ! j')) now) :: u32) \<le> ucast (path_age (h (known_paths ss ! j)) now)"
        by (elim disjE exE conjE) (rule that; assumption)+
      then show ?thesis
      proof cases
        case dead
        then have "\<exists>j<length (known_paths (s # ss)). pick_slot h now r (s # ss) i oldest idx = i + j \<and>
            (same_place h (known_paths (s # ss) ! j) r \<and> \<not> path_alive (h (known_paths (s # ss) ! j)) now)"
          using Some by (intro exI [of _ "Suc j"]) (simp add: k del: pick_slot.simps)
        then show ?thesis unfolding Let_def by (rule disjI1)
      next
        case free
        then have "\<forall>q\<in>set (known_paths (s # ss)). \<not> (same_place h q r \<and> \<not> path_alive (h q) now)"
          "length (known_paths (s # ss)) < length (s # ss)"
          "pick_slot h now r (s # ss) i oldest idx = i + length (known_paths (s # ss))"
          using Some False by (simp_all add: k del: pick_slot.simps)
        then show ?thesis unfolding Let_def by - (rule disjI2, rule disjI1, (intro conjI; assumption))
      next
        case keep
        have all: "\<forall>j<length (known_paths (s # ss)). ucast (path_age (h (known_paths (s # ss) ! j)) now) \<le> old'"
          using keep(4) Some by (auto simp: less_Suc_eq_0_disj old'_def split: if_splits)
        have cold: "\<forall>q\<in>set (known_paths (s # ss)). \<not> (same_place h q r \<and> \<not> path_alive (h q) now)"
          "length (known_paths (s # ss)) = length (s # ss)"
          using keep(1,2) Some False by simp_all
        show ?thesis
        proof (cases "oldest < ?age")
          case True
          then have "\<exists>j<length (known_paths (s # ss)). pick_slot h now r (s # ss) i oldest idx = i + j \<and>
            oldest < ucast (path_age (h (known_paths (s # ss) ! j)) now) \<and>
            (\<forall>j'<length (known_paths (s # ss)). (ucast (path_age (h (known_paths (s # ss) ! j')) now) :: u32)
              \<le> ucast (path_age (h (known_paths (s # ss) ! j)) now))"
            using keep(3) all Some by (intro exI [of _ 0]) (simp add: k idx'_def old'_def del: pick_slot.simps)
          then show ?thesis using cold unfolding Let_def by - (rule disjI2, rule disjI2, intro conjI, assumption, assumption, rule disjI2, assumption)
        next
          case no: False
          then have "pick_slot h now r (s # ss) i oldest idx = idx"
            "\<forall>j<length (known_paths (s # ss)). ucast (path_age (h (known_paths (s # ss) ! j)) now) \<le> oldest"
            using keep(3) all by (simp_all add: k idx'_def old'_def del: pick_slot.simps)
          then show ?thesis using cold unfolding Let_def by - (rule disjI2, rule disjI2, intro conjI, assumption, assumption, rule disjI1, rule conjI, assumption, assumption)
        qed
      next
        case old
        have less: "oldest < ucast (path_age (h (known_paths ss ! j)) now)" "?age \<le> ucast (path_age (h (known_paths ss ! j)) now)"
          using old(5) by (auto simp: old'_def split: if_splits)
        have "\<forall>j'<length (known_paths (s # ss)). (ucast (path_age (h (known_paths (s # ss) ! j')) now) :: u32)
            \<le> ucast (path_age (h (known_paths (s # ss) ! Suc j)) now)"
          using old(6) less Some by (auto simp: less_Suc_eq_0_disj)
        then have "\<exists>j<length (known_paths (s # ss)). pick_slot h now r (s # ss) i oldest idx = i + j \<and>
            oldest < ucast (path_age (h (known_paths (s # ss) ! j)) now) \<and>
            (\<forall>j'<length (known_paths (s # ss)). (ucast (path_age (h (known_paths (s # ss) ! j')) now) :: u32)
              \<le> ucast (path_age (h (known_paths (s # ss) ! j)) now))"
          using old(3,4) less(1) Some by (intro exI [of _ "Suc j"]) (simp add: k del: pick_slot.simps)
        moreover have "\<forall>q\<in>set (known_paths (s # ss)). \<not> (same_place h q r \<and> \<not> path_alive (h q) now)"
          "length (known_paths (s # ss)) = length (s # ss)"
          using old(1,2) Some False by simp_all
        ultimately show ?thesis unfolding Let_def by - (rule disjI2, rule disjI2, intro conjI, assumption, assumption, rule disjI2, assumption)
      qed
    qed
  qed (auto simp: Let_def)
qed (auto simp: Let_def)

lemma slots_update:
  assumes "slots_ok ss" "r \<notin> set (known_paths ss)" "k \<le> length (known_paths ss)" "k < MAX_PATHS"
  shows "slots_ok (ss[k := \<lparr>pp_lr = t, pp_p = Some r, pp_priority = 1\<rparr>])"
    "known_paths (ss[k := \<lparr>pp_lr = t, pp_p = Some r, pp_priority = 1\<rparr>]) =
      (if k < length (known_paths ss) then (known_paths ss)[k := r] else known_paths ss @ [r])"
proof -
  let ?x = "\<lparr>pp_lr = t, pp_p = Some r, pp_priority = 1\<rparr>"
  from slots_okE [OF assms(1)] obtain ks rest where s: "ss = ks @ rest" "\<forall>s\<in>set ks. pp_p s \<noteq> None"
    "\<forall>s\<in>set rest. pp_p s = None" "known_paths ss = map (the \<circ> pp_p) ks" "distinct (map (the \<circ> pp_p) ks)"
    "length ks + length rest = MAX_PATHS" "\<forall>s\<in>set ks \<union> set rest. 1 \<le> pp_priority s" by metis
  have r: "r \<notin> set (map (the \<circ> pp_p) ks)" using assms(2) s(4) by simp
  have "slots_ok (ss[k := ?x]) \<and> known_paths (ss[k := ?x]) =
      (if k < length (known_paths ss) then (known_paths ss)[k := r] else known_paths ss @ [r])"
  proof (cases "k < length ks")
    case True
    have m: "map (the \<circ> pp_p) (ks[k := ?x]) = (map (the \<circ> pp_p) ks)[k := r]" by (simp add: map_update)
    have "distinct (map (the \<circ> pp_p) (ks[k := ?x]))"
      unfolding m by (rule distinct_list_update [OF s(5)]) (use r in \<open>auto dest: in_set_butlastD\<close>)
    moreover have "\<forall>s\<in>set (ks[k := ?x]). pp_p s \<noteq> None" "\<forall>s\<in>set (ks[k := ?x]) \<union> set rest. 1 \<le> pp_priority s"
      using s(2,7) set_update_subset_insert [of ks k ?x] by auto
    ultimately show ?thesis
      using slots_okI [of "ks[k := ?x]" rest] s True by (simp add: list_update_append m)
  next
    case False
    then have k: "k = length ks" using assms(3) s(4) by simp
    then obtain y rest' where rest: "rest = y # rest'" using assms(4) s(6) by (cases rest) auto
    have "ss[k := ?x] = (ks @ [?x]) @ rest'" by (simp add: s(1) k rest)
    then show ?thesis using slots_okI [of "ks @ [?x]" rest'] s r k rest by auto
  qed
  then show "slots_ok (ss[k := ?x])" "known_paths (ss[k := ?x]) =
      (if k < length (known_paths ss) then (known_paths ss)[k := r] else known_paths ss @ [r])" by blast+
qed

text \<open>
  What learning a path does to the slots: a new slot heard of now, of priority 1, is added, or takes
  the place of a dead or of the oldest one; no other slot changes.
\<close>

definition learned :: "path_store \<Rightarrow> u64 \<Rightarrow> nat \<Rightarrow> peer_path list \<Rightarrow> peer_path list \<Rightarrow> bool" where
  "learned h now r ss ss' \<longleftrightarrow>
     (let ks = known_paths ss; new = \<lparr>pp_lr = now, pp_p = Some r, pp_priority = 1\<rparr>;
          age = (\<lambda>j. ucast (path_age (h (ks ! j)) now) :: u32);
          dead = (\<lambda>q. same_place h q r \<and> \<not> path_alive (h q) now) in
      if \<exists>q\<in>set ks. dead q then \<exists>j<length ks. dead (ks ! j) \<and> ss' = ss[j := new]
      else if length ks < MAX_PATHS then ss' = ss[length ks := new]
      else if \<forall>j<length ks. age j = 0 then ss' = ss
      else \<exists>j<length ks. (\<forall>i<length ks. age i \<le> age j) \<and> ss' = ss[j := new])"

lemma learn_path_spec:
  assumes ok: "slots_ok ss" and r: "r \<notin> set (known_paths ss)"
  shows "slots_ok (learn_path h now r ss) \<and> learned h now r ss (learn_path h now r ss)"
proof -
  let ?ks = "known_paths ss" and ?k = "pick_slot h now r ss 0 0 MAX_PATHS"
  let ?dead = "\<lambda>q. same_place h q r \<and> \<not> path_alive (h q) now"
  let ?age = "\<lambda>j. ucast (path_age (h (?ks ! j)) now) :: u32"
  have len: "length ss = MAX_PATHS" "length ?ks \<le> MAX_PATHS" using ok length_known [of ss] by (simp_all add: slots_ok_def)
  note up = slots_update [OF ok r, of ?k now]
  have d: "learn_path h now r ss = ss[?k := \<lparr>pp_lr = now, pp_p = Some r, pp_priority = 1\<rparr>]" if "?k \<noteq> MAX_PATHS"
    using that by (simp add: learn_path_def Let_def)
  from pick_slot_cases [of ss h now r 0 0 MAX_PATHS, unfolded Let_def] show ?thesis
  proof (elim disjE)
    assume "\<exists>j<length ?ks. ?k = 0 + j \<and> ?dead (?ks ! j)"
    then have k: "?k < length ?ks" "?dead (?ks ! ?k)" by auto
    then have "?k < MAX_PATHS" "?k \<noteq> MAX_PATHS" using len by simp_all
    moreover have "\<exists>q\<in>set ?ks. ?dead q" using k nth_mem by blast
    ultimately show ?thesis using up d k unfolding learned_def Let_def by (auto intro!: exI [of _ ?k])
  next
    assume a: "(\<forall>q\<in>set ?ks. \<not> ?dead q) \<and> length ?ks < length ss \<and> ?k = 0 + length ?ks"
    then show ?thesis using up d len unfolding learned_def Let_def by auto
  next
    assume a: "(\<forall>q\<in>set ?ks. \<not> ?dead q) \<and> length ?ks = length ss \<and>
      (?k = MAX_PATHS \<and> (\<forall>j<length ?ks. ?age j \<le> 0) \<or>
       (\<exists>j<length ?ks. ?k = 0 + j \<and> 0 < ?age j \<and> (\<forall>j'<length ?ks. ?age j' \<le> ?age j)))"
    show ?thesis
    proof (cases "?k = MAX_PATHS")
      case True
      then have "\<forall>j<length ?ks. ?age j = 0" using a len by (auto simp: word_le_0_iff)
      then show ?thesis using a True ok len by (auto simp: learned_def Let_def learn_path_def)
    next
      case False
      then have k: "?k < length ?ks" "0 < ?age ?k" "\<forall>j'<length ?ks. ?age j' \<le> ?age ?k" using a by auto
      then have "\<not> (\<forall>j<length ?ks. ?age j = 0)" by (metis word_gt_0)
      then show ?thesis using up d k a len False unfolding learned_def Let_def by (auto intro!: exI [of _ ?k])
    qed
  qed
qed

lemma on_path_same [simp]:
  "p_addr (on_path r (trustedPacketReceived t) h q) = p_addr (h q)"
  "p_localSocket (on_path r (trustedPacketReceived t) h q) = p_localSocket (h q)"
  "p_lastIn (on_path r (trustedPacketReceived t) h q) = p_lastIn (h q)"
  "p_addr (on_path r (path_sent t) h q) = p_addr (h q)"
  "p_localSocket (on_path r (path_sent t) h q) = p_localSocket (h q)"
  "p_lastIn (on_path r (path_sent t) h q) = p_lastIn (h q)"
  "p_ipScope (on_path r (path_sent t) h q) = p_ipScope (h q)"
  by (simp_all add: on_path_def trustedPacketReceived_def path_sent_def)

lemma trust_invisible [simp]:
  "same_place (on_path r (trustedPacketReceived t) h) = same_place h"
  "path_alive (on_path r (trustedPacketReceived t) h q) now = path_alive (h q) now"
  "path_age (on_path r (trustedPacketReceived t) h q) now = path_age (h q) now"
  by (auto simp: fun_eq_iff same_place_def path_alive_def path_age_def)

lemma learned_trust [simp]: "learned (on_path r (trustedPacketReceived t) h) = learned h"
  by (intro ext) (simp add: learned_def)

lemma push_paths_paths: "pr_paths (fst (fst (push_paths e r hops st))) = pr_paths (fst st)"
  by (cases st) (simp add: push_paths_def Let_def)

lemma try_path_paths: "pr_paths (fst (fst (try_path e r st))) = pr_paths (fst st)"
  by (cases st) (simp add: try_path_def Let_def)

text \<open>What receiving does to the slots.\<close>

definition slots_after :: "peer_env \<Rightarrow> path_store \<Rightarrow> peer \<Rightarrow> nat \<Rightarrow> bool \<Rightarrow> bool \<Rightarrow> peer_path list \<Rightarrow> bool" where
  "slots_after e h p r direct isOk ss' \<longleftrightarrow>
     (let ss = pr_paths p; ks = known_paths ss; now = pe_now e in
      (\<forall>i. direct \<and> refreshes h now r ks i \<longrightarrow> ss' = ss[i := (ss ! i)\<lparr>pp_lr := now\<rparr>]) \<and>
      (direct \<and> isOk \<and> r \<notin> set ks \<and> \<not> (\<exists>q\<in>set ks. same_place h q r \<and> path_alive (h q) now) \<and>
        pe_shouldUsePath e (pr_address p) (p_localSocket (h r)) (p_addr (h r)) \<longrightarrow> learned h now r ss ss') \<and>
      (\<not> (direct \<and> (\<exists>i. refreshes h now r ks i)) \<and>
       \<not> (direct \<and> isOk \<and> r \<notin> set ks \<and> \<not> (\<exists>q\<in>set ks. same_place h q r \<and> path_alive (h q) now) \<and>
        pe_shouldUsePath e (pr_address p) (p_localSocket (h r)) (p_addr (h r))) \<longrightarrow> ss' = ss))"

lemma refreshes_known: "refreshes h now r ks i \<Longrightarrow> r \<in> set ks"
  by (auto simp: refreshes_def)

lemma learn_or_try_spec:
  assumes ok: "slots_ok (pr_paths p)"
  shows "slots_ok (pr_paths (fst (fst (learn_or_try e r isOk (p, h))))) \<and>
    slots_after e h p r True isOk (pr_paths (fst (fst (learn_or_try e r isOk (p, h)))))"
proof -
  obtain ss b where f: "find_path h (pe_now e) r (pr_paths p) = (ss, b)" by (cases "find_path h (pe_now e) r (pr_paths p)")
  note sp = find_path_spec [of h "pe_now e" r "pr_paths p", unfolded f fst_conv snd_conv]
  note fp = find_path_slots [of h "pe_now e" r "pr_paths p", unfolded f fst_conv snd_conv]
  have s: "slots_ok ss" by (rule slots_ok_cong [OF ok sp(2,3)])
  have k: "known_paths ss = known_paths (pr_paths p)" by (rule known_cong [OF sp(2)])
  show ?thesis
  proof (cases "\<not> b \<and> pe_shouldUsePath e (pr_address p) (p_localSocket (h r)) (p_addr (h r))")
    case True
    then have ss: "ss = pr_paths p" using sp(4) by simp
    have r: "r \<notin> set (known_paths ss)" "\<not> (\<exists>q\<in>set (known_paths ss). same_place h q r \<and> path_alive (h q) (pe_now e))"
      using sp(1) True k by auto
    have n: "\<not> refreshes h (pe_now e) r (known_paths (pr_paths p)) i" for i
      using r(1) refreshes_known [of h "pe_now e" r "known_paths (pr_paths p)"] unfolding k by blast
    show ?thesis
      using True learn_path_spec [OF s r(1), of h "pe_now e"] r s n
      by (auto simp: learn_or_try_def f Let_def try_path_paths ss slots_after_def)
  next
    case False
    then have "pr_paths (fst (fst (learn_or_try e r isOk (p, h)))) = ss"
      by (auto simp: learn_or_try_def f Let_def)
    moreover have "slots_after e h p r True isOk ss"
      using False fp sp(1) refreshes_known unfolding slots_after_def Let_def by blast
    ultimately show ?thesis using s by simp
  qed
qed

lemma push_paths_tried: "pr_tried (fst (fst (push_paths e r hops st))) = pr_tried (fst st)"
  by (cases st) (simp add: push_paths_def Let_def)

lemma push_paths_peer:
  "fst (fst (push_paths e r hops (p, h))) = p\<lparr>pr_lastPushSent := pr_lastPushSent (fst (fst (push_paths e r hops (p, h))))\<rparr>"
  by (simp add: push_paths_def Let_def)

lemma learn_or_try_peer:
  "fst (fst (learn_or_try e r isOk (p, h))) = p\<lparr>pr_paths := pr_paths (fst (fst (learn_or_try e r isOk (p, h)))),
     pr_tried := pr_tried (fst (fst (learn_or_try e r isOk (p, h))))\<rparr>"
  by (simp add: learn_or_try_def try_path_def Let_def split: prod.split)

lemma refreshes_trust [simp]: "refreshes (on_path r (trustedPacketReceived t) h) = refreshes h"
  by (intro ext) (simp add: refreshes_def)

lemma slots_after_trust:
  "slots_after e (on_path r (trustedPacketReceived t) h) p = slots_after e h p"
  by (intro ext) (simp add: slots_after_def)

lemma peer_received_spec:
  assumes "slots_ok (pr_paths p)"
  shows "let (st', out) = peer_received e r hops v trust (p, h); p' = fst st'; now = pe_now e in
    slots_ok (pr_paths p') \<and> slots_after e h p r (hops = 0) (v = VERB_OK) (pr_paths p') \<and>
    p' = p\<lparr>pr_lastReceive := now, pr_lastNontrivial := (if nontrivial v then now else pr_lastNontrivial p),
      pr_lastTrust := (if trust then now else pr_lastTrust p), pr_lastPushSent := pr_lastPushSent p',
      pr_tried := pr_tried p', pr_paths := pr_paths p'\<rparr>"
proof -
  define p1 where "p1 = p\<lparr>pr_lastReceive := pe_now e, pr_lastNontrivial := (if nontrivial v then pe_now e else pr_lastNontrivial p),
      pr_lastTrust := (if trust then pe_now e else pr_lastTrust p)\<rparr>"
  define h1 where "h1 = (if trust then on_path r (trustedPacketReceived (pe_now e)) h else h)"
  define st where "st = (if hops = 0 then learn_or_try e r (v = VERB_OK) (p1, h1) else ((p1, h1), []))"
  have p1: "pr_paths p1 = pr_paths p" "slots_after e h p1 = slots_after e h p"
    by (simp_all add: p1_def slots_after_def fun_eq_iff)
  have h1: "slots_after e h1 p1 r = slots_after e h1 p r" "slots_after e h1 p r = slots_after e h p r"
    by (simp_all add: h1_def p1_def slots_after_def slots_after_trust fun_eq_iff)
  have rec: "peer_received e r hops v trust (p, h) =
      (fst (push_paths e r hops (fst st)), snd st @ snd (push_paths e r hops (fst st)))"
    by (simp add: peer_received_def Let_def st_def p1_def h1_def split: prod.splits)
  have st: "slots_ok (pr_paths (fst (fst st))) \<and> slots_after e h p r (hops = 0) (v = VERB_OK) (pr_paths (fst (fst st))) \<and>
      fst (fst st) = p1\<lparr>pr_paths := pr_paths (fst (fst st)), pr_tried := pr_tried (fst (fst st))\<rparr>"
  proof (cases "hops = 0")
    case True
    then show ?thesis using learn_or_try_spec [of p1 e r "v = VERB_OK" h1] assms learn_or_try_peer [of e r "v = VERB_OK" p1 h1]
      by (simp add: st_def p1(1) h1)
  next
    case False
    then show ?thesis using assms by (simp add: st_def p1(1) slots_after_def)
  qed
  obtain q g where qg: "fst st = (q, g)" by (cases "fst st")
  then obtain ps tried where q: "q = p1\<lparr>pr_paths := ps, pr_tried := tried\<rparr>" using st by (metis fst_conv)
  obtain x where x: "fst (fst (push_paths e r hops (q, g))) = q\<lparr>pr_lastPushSent := x\<rparr>"
    using push_paths_peer by blast
  show ?thesis unfolding rec Let_def split_conv qg fst_conv x using st
    by (simp add: qg q p1_def split del: if_split)
qed

text \<open>
  Claim C18: what receiving a packet does to the peer. The array of paths stays well formed. Of a packet
  that came directly, the known path is refreshed: its slot takes the time, and no other slot
  changes; where a known path before it is alive at the same address on the same socket, nothing is
  refreshed. An unknown path is learned only from a direct \<open>OK\<close>, when the host permits it and no known
  path to the same address from the same socket is alive: a slot heard of now takes the place of a
  dead path to that address, or the first free slot, or when all 64 are taken the slot of the path
  that was silent longest. Otherwise no slot changes. Of the peer's other fields only the times of
  the last packet, the last nontrivial one, the last trusted one and the last push, and the list of
  paths tried, change.
\<close>

theorem peer_received_learns:
  assumes "slots_ok (pr_paths p)"
  shows "let (st', out) = peer_received e r hops v trust (p, h); p' = fst st'; now = pe_now e;
      ss = pr_paths p; ss' = pr_paths p'; ks = known_paths ss;
      learns = (v = VERB_OK \<and> r \<notin> set ks \<and> \<not> (\<exists>q\<in>set ks. same_place h q r \<and> path_alive (h q) now) \<and>
        pe_shouldUsePath e (pr_address p) (p_localSocket (h r)) (p_addr (h r))) in
    slots_ok ss' \<and>
    (\<forall>i. hops = 0 \<and> refreshes h now r ks i \<longrightarrow> ss' = ss[i := (ss ! i)\<lparr>pp_lr := now\<rparr>]) \<and>
    (hops = 0 \<and> learns \<longrightarrow> learned h now r ss ss') \<and>
    (\<not> (hops = 0 \<and> ((\<exists>i. refreshes h now r ks i) \<or> learns)) \<longrightarrow> ss' = ss) \<and>
    p' = p\<lparr>pr_lastReceive := now, pr_lastNontrivial := (if nontrivial v then now else pr_lastNontrivial p),
      pr_lastTrust := (if trust then now else pr_lastTrust p), pr_lastPushSent := pr_lastPushSent p',
      pr_tried := pr_tried p', pr_paths := ss'\<rparr>"
proof (cases "peer_received e r hops v trust (p, h)")
  case (Pair st out)
  note sp = peer_received_spec [OF assms, of e r hops v trust h, unfolded Pair slots_after_def Let_def split_conv]
  show ?thesis unfolding Pair Let_def split_conv by (intro conjI; use sp in blast)
qed

definition demo_env :: peer_env where
  "demo_env = \<lparr>pe_now = 1000000, pe_identity = \<lparr>id_address = addr_of 0x8056c2e21c, id_pub = replicate 64 3, id_priv = None\<rparr>,
     pe_agree = \<lambda>_ _. Some (replicate 48 1), pe_kdf = \<lambda>k. (replicate 32 1, replicate 32 2),
     pe_shouldUsePath = \<lambda>_ _ _. True, pe_lookup = \<lambda>_. None, pe_put = \<lambda>_ _. True,
     pe_directPaths = [], pe_whoami = [], pe_lowBandwidth = False\<rparr>"

definition demo_peer :: peer where
  "demo_peer = (case peer_new demo_env (pe_identity demo_env) of Inr p \<Rightarrow> p)"

definition demo_store :: path_store where
  "demo_store = (\<lambda>r. (path_new (of_nat r) (inet_set [10, 0, 0, of_nat r] 4 9993))\<lparr>p_lastIn := 1000000\<rparr>)"

lemma slots_ok_new: "slots_ok (replicate MAX_PATHS no_path)"
  using slots_okI(1) [of "[]" "replicate MAX_PATHS no_path"] by (simp add: no_path_def)

lemma demo_peer_paths: "pr_paths demo_peer = replicate MAX_PATHS no_path" "slots_ok (pr_paths demo_peer)"
  using slots_ok_new by (simp_all add: demo_peer_def peer_new_def demo_env_def)

theorem peer_received_learns_witness:
  "known_paths (pr_paths (fst (fst (peer_received demo_env 7 0 VERB_OK False (demo_peer, demo_store))))) = [7] \<and>
   (let ss = (pr_paths demo_peer)[0 := \<lparr>pp_lr = 5, pp_p = Some 7, pp_priority = 1\<rparr>] in
    pr_paths (fst (fst (peer_received demo_env 7 0 VERB_FRAME False (demo_peer\<lparr>pr_paths := ss\<rparr>, demo_store)))) =
      ss[0 := \<lparr>pp_lr = 1000000, pp_p = Some 7, pp_priority = 1\<rparr>])"
proof -
  have k: "known_paths (pr_paths demo_peer) = []" by (simp add: demo_peer_paths known_paths_none no_path_def)
  let ?ss = "(pr_paths demo_peer)[0 := \<lparr>pp_lr = 5, pp_p = Some 7, pp_priority = 1\<rparr>]"
  note up = slots_update [OF demo_peer_paths(2), of 7 0, unfolded k]
  have ok: "slots_ok (pr_paths (demo_peer\<lparr>pr_paths := ?ss\<rparr>))" and k': "known_paths ?ss = [7]"
    using up(1,2) [of 5] by (simp_all add: MAX_PATHS_def)
  have len: "length (pr_paths demo_peer) = 64" by (simp add: demo_peer_paths MAX_PATHS_def)
  have learn: "pr_paths (fst (fst (peer_received demo_env 7 0 VERB_OK False (demo_peer, demo_store)))) =
     (pr_paths demo_peer)[0 := \<lparr>pp_lr = 1000000, pp_p = Some 7, pp_priority = 1\<rparr>]"
    using peer_received_learns [OF demo_peer_paths(2), of demo_env 7 0 VERB_OK False demo_store]
    by (simp add: k Let_def split: prod.splits) (simp add: demo_env_def learned_def k MAX_PATHS_def)
  have r: "refreshes demo_store 1000000 7 [7] 0" by (simp add: refreshes_def)
  have "pr_paths (fst (fst (peer_received demo_env 7 0 VERB_FRAME False (demo_peer\<lparr>pr_paths := ?ss\<rparr>, demo_store)))) =
      ?ss[0 := (?ss ! 0)\<lparr>pp_lr := 1000000\<rparr>]"
    using peer_received_learns [OF ok, of demo_env 7 0 VERB_FRAME False demo_store] r
    by (simp add: k' Let_def split: prod.splits) (simp add: demo_env_def)
  then show ?thesis using learn up(2) [of 1000000] len by (simp add: MAX_PATHS_def Let_def)
qed

section \<open>Keepalive\<close>

definition known_slots :: "peer_path list \<Rightarrow> peer_path list" where
  "known_slots ss = takeWhile (\<lambda>s. pp_p s \<noteq> None) ss"

lemma known_slots_append:
  "\<forall>s\<in>set ks. pp_p s \<noteq> None \<Longrightarrow> \<forall>s\<in>set rest. pp_p s = None \<Longrightarrow> known_slots (ks @ rest) = ks"
  by (cases rest) (auto simp: known_slots_def takeWhile_append2)

lemma known_slots_map: "map (the \<circ> pp_p) (known_slots ss) = known_paths ss"
  by (induction ss) (auto simp: known_slots_def split: option.split)

definition contact :: "peer_env \<Rightarrow> peer \<Rightarrow> bool \<Rightarrow> path_store \<Rightarrow> nat \<Rightarrow> peer_out list" where
  "contact e p full h q =
     (if full \<or> needsHeartbeat (h q) (pe_now e) then attemptToContactAt p (p_localSocket (h q)) (p_addr (h q)) full else [])"

definition kept :: "peer_env \<Rightarrow> int \<Rightarrow> peer_path \<Rightarrow> bool" where
  "kept e hi s \<longleftrightarrow> pe_now e - pp_lr s <s PATH_EXPIRATION \<and> pp_priority s = hi"

definition touched :: "peer_env \<Rightarrow> bool \<Rightarrow> nat list \<Rightarrow> path_store \<Rightarrow> path_store" where
  "touched e full qs h = (\<lambda>q. if q \<in> set qs \<and> (full \<or> needsHeartbeat (h q) (pe_now e)) then path_sent (pe_now e) (h q) else h q)"

lemma next_known_none: "\<forall>s\<in>set ss. pp_p s = None \<Longrightarrow> next_known ss j = None"
  by (induction ss arbitrary: j) auto

text \<open>A slot that is empty: the next known path moves in, and the hole with it.\<close>

lemma ping_hole:
  assumes "length as = i" "pp_p x = None" "\<forall>s\<in>set bs. pp_p s \<noteq> None" "\<forall>s\<in>set rest. pp_p s = None"
  shows "ping_slot e p full hi i (as @ x # bs @ rest, h, out, sent) =
    (case bs of [] \<Rightarrow> (as @ x # rest, h, out, sent) | b # bs' \<Rightarrow> (as @ b # no_path # bs' @ rest, h, out, sent))"
proof (cases bs)
  case Nil
  then show ?thesis using assms by (simp add: ping_slot_def pull_down_def nth_append next_known_none)
next
  case (Cons b bs')
  then have b: "pp_p b \<noteq> None" using assms(3) by simp
  have n: "next_known (drop (i + 1) (as @ x # bs @ rest)) (i + 1) = Some (i + 1)" using b Cons assms(1) by auto
  have "pull_down i (as @ x # bs @ rest) = as @ b # no_path # bs' @ rest"
    unfolding pull_down_def n using assms(1) Cons by (simp add: nth_append list_update_append)
  then show ?thesis using assms(1,2) Cons by (simp add: ping_slot_def nth_append)
qed

lemma hole_run:
  assumes "length as = i" "pp_p x = None" "\<forall>s\<in>set bs. pp_p s \<noteq> None" "\<forall>s\<in>set rest. pp_p s = None"
    "i + 1 + length bs + length rest = MAX_PATHS"
  shows "\<exists>rest'. fold (ping_slot e p full hi) [i..<MAX_PATHS] (as @ x # bs @ rest, h, out, sent) =
      (as @ bs @ rest', h, out, sent) \<and> length rest' = Suc (length rest) \<and> set rest' \<subseteq> {x, no_path} \<union> set rest"
  using assms
proof (induction "MAX_PATHS - i" arbitrary: i as x bs rest)
  case (Suc k)
  then have up: "[i..<MAX_PATHS] = i # [i + 1..<MAX_PATHS]" by (simp add: upt_conv_Cons)
  note hole = ping_hole [OF Suc.prems(1-4), of e p full hi h out sent]
  show ?case
  proof (cases bs)
    case (Cons b bs')
    have k: "k = MAX_PATHS - (i + 1)" using Suc.hyps(2) by simp
    have "\<exists>rest'. fold (ping_slot e p full hi) [i + 1..<MAX_PATHS] ((as @ [b]) @ no_path # bs' @ rest, h, out, sent) =
        ((as @ [b]) @ bs' @ rest', h, out, sent) \<and> length rest' = Suc (length rest) \<and> set rest' \<subseteq> {no_path, no_path} \<union> set rest"
      by (rule Suc.hyps(1) [OF k]) (use Suc.prems Cons in \<open>auto simp: no_path_def\<close>)
    then show ?thesis unfolding up using hole Cons by auto
  next
    case Nil
    show ?thesis
    proof (cases rest)
      case Nil
      then have "[i + 1..<MAX_PATHS] = []" using Suc.prems(5) \<open>bs = []\<close> by simp
      then show ?thesis unfolding up using hole Nil \<open>bs = []\<close> by auto
    next
      case (Cons y rest')
      have k: "k = MAX_PATHS - (i + 1)" using Suc.hyps(2) by simp
      have "\<exists>r'. fold (ping_slot e p full hi) [i + 1..<MAX_PATHS] ((as @ [x]) @ y # [] @ rest', h, out, sent) =
          ((as @ [x]) @ [] @ r', h, out, sent) \<and> length r' = Suc (length rest') \<and> set r' \<subseteq> {y, no_path} \<union> set rest'"
        by (rule Suc.hyps(1) [OF k]) (use Suc.prems Cons \<open>bs = []\<close> in auto)
      then obtain r' where "fold (ping_slot e p full hi) [i + 1..<MAX_PATHS] (as @ x # rest, h, out, sent) =
          (as @ x # r', h, out, sent)" "length r' = Suc (length rest')" "set r' \<subseteq> {y, no_path} \<union> set rest'"
        using Cons by auto
      then show ?thesis unfolding up using hole Cons \<open>bs = []\<close> by (intro exI [of _ "x # r'"]) auto
    qed
  qed
qed simp

lemma ping_kept:
  "pp_p (ss ! i) = Some q \<Longrightarrow> kept e hi (ss ! i) \<Longrightarrow> \<exists>s'. ping_slot e p full hi i (ss, h, out, sent) =
    (ss, if full \<or> needsHeartbeat (h q) (pe_now e) then on_path q (path_sent (pe_now e)) h else h,
     out @ contact e p full h q, s')"
  by (simp add: ping_slot_def contact_def kept_def Let_def)

lemma ping_dropped:
  "pp_p (ss ! i) = Some q \<Longrightarrow> \<not> kept e hi (ss ! i) \<Longrightarrow> i < length ss \<Longrightarrow>
    ping_slot e p full hi i (ss, h, out, sent) = (pull_down i (ss[i := no_path]), h, out, sent)"
  by (auto simp: ping_slot_def kept_def Let_def no_path_def)

text \<open>The slots before the first one that is dropped.\<close>

lemma good_run:
  assumes "m \<le> length ks" "\<forall>s\<in>set (take m ks). pp_p s \<noteq> None \<and> kept e hi s" "distinct (map (the \<circ> pp_p) ks)"
  shows "\<exists>sent'. fold (ping_slot e p full hi) [0..<m] (ks @ rest, h, [], 0) =
    (ks @ rest, touched e full (map (the \<circ> pp_p) (take m ks)) h,
     concat (map (contact e p full h \<circ> the \<circ> pp_p) (take m ks)), sent')"
  using assms(1,2)
proof (induction m)
  case (Suc m)
  let ?q = "the (pp_p (ks ! m))" and ?T = "touched e full (map (the \<circ> pp_p) (take m ks)) h"
  have m: "m < length ks" and tk: "take (Suc m) ks = take m ks @ [ks ! m]" using Suc.prems(1) by (simp_all add: take_Suc_conv_app_nth)
  have pre: "m \<le> length ks" "\<forall>s\<in>set (take m ks). pp_p s \<noteq> None \<and> kept e hi s" using Suc.prems tk by simp_all
  from Suc.IH [OF pre] obtain sent' where IH: "fold (ping_slot e p full hi) [0..<m] (ks @ rest, h, [], 0) = (ks @ rest, ?T,
     concat (map (contact e p full h \<circ> the \<circ> pp_p) (take m ks)), sent')"
    by blast
  have g: "pp_p (ks ! m) = Some ?q" "kept e hi (ks ! m)" using Suc.prems(2) tk by auto
  have "map (the \<circ> pp_p) ks ! m \<notin> set (take m (map (the \<circ> pp_p) ks))"
    using assms(3) m by (metis distinct_take length_map not_distinct_conv_prefix take_Suc_conv_app_nth)
  then have new: "?q \<notin> set (map (the \<circ> pp_p) (take m ks))" using m by (simp add: take_map)
  have T: "?T ?q = h ?q" using new by (simp add: touched_def)
  have step: "\<exists>s'. ping_slot e p full hi m (ks @ rest, ?T, out, sent') =
     (ks @ rest, touched e full (map (the \<circ> pp_p) (take m ks) @ [?q]) h, out @ contact e p full h ?q, s')" for out
  proof -
    have "contact e p full ?T ?q = contact e p full h ?q" using T by (simp add: contact_def)
    moreover have "(if full \<or> needsHeartbeat (?T ?q) (pe_now e) then on_path ?q (path_sent (pe_now e)) ?T else ?T) =
        touched e full (map (the \<circ> pp_p) (take m ks) @ [?q]) h"
      using new T by (auto simp: touched_def on_path_def fun_eq_iff)
    ultimately show ?thesis
      using ping_kept [of "ks @ rest" m ?q e hi p full ?T out sent'] g m by (simp add: nth_append)
  qed
  from step [of "concat (map (contact e p full h \<circ> the \<circ> pp_p) (take m ks))"] obtain s' where
    "ping_slot e p full hi m (ks @ rest, ?T, concat (map (contact e p full h \<circ> the \<circ> pp_p) (take m ks)), sent') =
     (ks @ rest, touched e full (map (the \<circ> pp_p) (take m ks) @ [?q]) h,
      concat (map (contact e p full h \<circ> the \<circ> pp_p) (take m ks)) @ contact e p full h ?q, s')" by blast
  with IH show ?case by (simp add: tk o_def)
qed (simp add: touched_def)

lemma drop_run:
  assumes "k < length ks" "\<forall>s\<in>set ks. pp_p s \<noteq> None" "\<forall>s\<in>set rest. pp_p s = None" "\<not> kept e hi (ks ! k)"
    "length ks + length rest = MAX_PATHS"
  shows "\<exists>rest'. fold (ping_slot e p full hi) [k..<MAX_PATHS] (ks @ rest, h, out, sent) =
      (take k ks @ drop (k + 1) ks @ rest', h, out, sent) \<and> length rest' = Suc (length rest) \<and> set rest' \<subseteq> {no_path} \<union> set rest"
proof -
  have n: "pp_p no_path = None" by (simp add: no_path_def)
  have up: "[k..<MAX_PATHS] = k # [k + 1..<MAX_PATHS]" using assms by (simp add: upt_conv_Cons)
  obtain q where q: "pp_p (ks ! k) = Some q" using assms(1,2) by (meson nth_mem not_None_eq)
  have l: "(ks @ rest)[k := no_path] = take k ks @ no_path # drop (k + 1) ks @ rest"
    using assms(1) by (simp add: list_update_append upd_conv_take_nth_drop)
  have bs: "\<forall>s\<in>set (drop (k + 1) ks). pp_p s \<noteq> None" using assms(2) by (meson in_set_dropD)
  have "ping_slot e p full hi k (ks @ rest, h, out, sent) = ping_slot e p full hi k ((ks @ rest)[k := no_path], h, out, sent)"
    using ping_dropped [of "ks @ rest" k q e hi p full h out sent] q assms(1,4)
    by (simp add: nth_append ping_slot_def n)
  also have "\<dots> = ping_slot e p full hi k (take k ks @ no_path # drop (k + 1) ks @ rest, h, out, sent)" unfolding l ..
  finally have "fold (ping_slot e p full hi) [k..<MAX_PATHS] (ks @ rest, h, out, sent) =
      fold (ping_slot e p full hi) [k..<MAX_PATHS] (take k ks @ no_path # drop (k + 1) ks @ rest, h, out, sent)"
    unfolding up by simp
  then show ?thesis
    using hole_run [of "take k ks" k no_path "drop (k + 1) ks" rest e p full hi h out sent] assms(1,3,5) bs n by simp
qed

lemma none_run:
  assumes "\<forall>s\<in>set ks. pp_p s \<noteq> None" "\<forall>s\<in>set rest. pp_p s = None" "length ks + length rest = MAX_PATHS"
  shows "\<exists>rest'. fold (ping_slot e p full hi) [length ks..<MAX_PATHS] (ks @ rest, h, out, sent) = (ks @ rest', h, out, sent) \<and>
    length rest' = length rest \<and> set rest' \<subseteq> {no_path} \<union> set rest"
proof (cases rest)
  case (Cons x r)
  then show ?thesis using hole_run [of ks "length ks" x "[]" r e p full hi h out sent] assms by auto
qed (use assms in simp)

lemma peer_keepalive_spec:
  assumes "slots_ok (pr_paths p)"
  shows "let (st', out, sent) = doPingAndKeepalive e (p, h); full = (PING_PERIOD \<le>s pe_now e - pr_lastFullHello p);
      ks = known_slots (pr_paths p); live = takeWhile (kept e (max_priority (pr_paths p) 0)) ks;
      refs = map (the \<circ> pp_p) live in
    slots_ok (pr_paths (fst st')) \<and> known_slots (pr_paths (fst st')) = live @ drop (length live + 1) ks \<and>
    out = concat (map (contact e p full h) refs) \<and> snd st' = touched e full refs h"
proof -
  define hi full where "hi = max_priority (pr_paths p) 0" and "full = (PING_PERIOD \<le>s pe_now e - pr_lastFullHello p)"
  define p' where "p' = (if full then p\<lparr>pr_lastFullHello := pe_now e\<rparr> else p)"
  from slots_okE [OF assms] obtain ks rest where s: "pr_paths p = ks @ rest" "\<forall>s\<in>set ks. pp_p s \<noteq> None"
    "\<forall>s\<in>set rest. pp_p s = None" "known_paths (pr_paths p) = map (the \<circ> pp_p) ks" "distinct (map (the \<circ> pp_p) ks)"
    "length ks + length rest = MAX_PATHS" "\<forall>s\<in>set ks \<union> set rest. 1 \<le> pp_priority s" by metis
  have kn: "known_slots (pr_paths p) = ks" unfolding s(1) by (rule known_slots_append [OF s(2,3)])
  define live where "live = takeWhile (kept e hi) ks"
  have "attemptToContactAt p' = attemptToContactAt p" by (intro ext) (simp add: attemptToContactAt_def p'_def)
  then have c: "contact e p' = contact e p" by (intro ext) (simp only: contact_def)
  have lv: "take (length live) ks = live" unfolding live_def by (rule takeWhile_eq_take [symmetric])
  have le: "length live \<le> length ks" unfolding live_def by (rule length_takeWhile_le)
  have "\<forall>s\<in>set (take (length live) ks). pp_p s \<noteq> None \<and> kept e hi s"
    unfolding lv using s(2) by (auto simp: live_def dest: set_takeWhileD)
  from good_run [OF le this s(5), of p' full rest h] obtain sent' where
    A: "fold (ping_slot e p' full hi) [0..<length live] (ks @ rest, h, [], 0) =
      (ks @ rest, touched e full (map (the \<circ> pp_p) live) h, concat (map (contact e p full h) (map (the \<circ> pp_p) live)), sent')"
    unfolding lv c by (auto simp: comp_assoc)
  let ?T = "touched e full (map (the \<circ> pp_p) live) h" and ?O = "concat (map (contact e p full h) (map (the \<circ> pp_p) live))"
  have B: "\<exists>rest'. fold (ping_slot e p' full hi) [length live..<MAX_PATHS] (ks @ rest, ?T, ?O, sent') =
      (live @ drop (length live + 1) ks @ rest', ?T, ?O, sent') \<and> set rest' \<subseteq> {no_path} \<union> set rest \<and>
      length (live @ drop (length live + 1) ks) + length rest' = MAX_PATHS"
  proof (cases "length live < length ks")
    case True
    then have "\<not> kept e hi (ks ! length live)" unfolding live_def by (rule nth_length_takeWhile)
    from drop_run [OF True s(2,3) this s(6), of p' full ?T ?O sent'] show ?thesis
      using True s(6) unfolding lv by auto
  next
    case False
    then have "live = ks" using lv by (metis not_less take_all)
    from none_run [OF s(2,3,6), of e p' full hi ?T ?O sent'] obtain r' where
      "fold (ping_slot e p' full hi) [length ks..<MAX_PATHS] (ks @ rest, ?T, ?O, sent') = (ks @ r', ?T, ?O, sent')"
      "length r' = length rest" "set r' \<subseteq> {no_path} \<union> set rest" by blast
    then show ?thesis using \<open>live = ks\<close> s(6) by (intro exI [of _ r']) simp
  qed
  then obtain rest' where R: "fold (ping_slot e p' full hi) [length live..<MAX_PATHS] (ks @ rest, ?T, ?O, sent') =
      (live @ drop (length live + 1) ks @ rest', ?T, ?O, sent')" "set rest' \<subseteq> {no_path} \<union> set rest"
      "length (live @ drop (length live + 1) ks) + length rest' = MAX_PATHS" by blast
  have "[0..<MAX_PATHS] = [0..<length live] @ [length live..<MAX_PATHS]"
    using upt_add_eq_append [of 0 "length live" "MAX_PATHS - length live"] le s(6) by simp
  then have F: "fold (ping_slot e p' full hi) [0..<MAX_PATHS] (pr_paths p, h, [], 0) =
      ((live @ drop (length live + 1) ks) @ rest', ?T, ?O, sent')"
    using A R(1) s(1) by simp
  let ?ks = "live @ drop (length live + 1) ks"
  have sub: "set ?ks \<subseteq> set ks" unfolding live_def by (auto dest: set_takeWhileD in_set_dropD)
  have K: "\<forall>s\<in>set ?ks. pp_p s \<noteq> None" "\<forall>s\<in>set rest'. pp_p s = None" "\<forall>s\<in>set ?ks \<union> set rest'. 1 \<le> pp_priority s"
    using sub s(2,3,7) R(2) by (auto simp: no_path_def)
  have "map (the \<circ> pp_p) ?ks = take (length live) (map (the \<circ> pp_p) ks) @ drop (length live + 1) (map (the \<circ> pp_p) ks)"
    using lv by (simp add: take_map drop_map)
  then have D: "distinct (map (the \<circ> pp_p) ?ks)"
    using s(5) set_take_disj_set_drop_if_distinct [OF s(5), of "length live" "length live + 1"] by simp
  have "slots_ok (?ks @ rest')" "known_slots (?ks @ rest') = ?ks"
    using slots_okI(1) [OF K(1,2) D R(3) K(3)] known_slots_append [OF K(1,2)] by blast+
  moreover have "doPingAndKeepalive e (p, h) = ((p'\<lparr>pr_paths := ?ks @ rest'\<rparr>, ?T), ?O, sent')"
  proof -
    have pp: "pr_paths p' = pr_paths p" by (simp add: p'_def)
    show ?thesis
      by (simp only: doPingAndKeepalive_def Let_def split_conv full_def [symmetric] p'_def [symmetric] pp hi_def [symmetric] F)
  qed
  ultimately show ?thesis unfolding Let_def kn by (simp add: live_def hi_def full_def)
qed

lemma peer_steps_ok:
  assumes "slots_ok (pr_paths p)"
  shows "slots_ok (pr_paths (fst (fst (peer_received e r hops v trust (p, h)))))"
    "slots_ok (pr_paths (fst (fst (doPingAndKeepalive e (p, h)))))"
  using peer_received_spec [OF assms, of e r hops v trust h] peer_keepalive_spec [OF assms, of e h]
  by (auto simp: Let_def split: prod.splits)

text \<open>
  Claim C28: a keepalive pass contacts, in order, the known paths before the first that expired or lost
  its priority (those that need a heartbeat, or all with a HELLO), drops that one and closes the
  gap; so a pass drops at most one path, and those behind it are neither contacted nor
  checked before the next pass.
\<close>

theorem peer_keepalive_exact:
  assumes "slots_ok (pr_paths p)"
  shows "let (st', out, sent) = doPingAndKeepalive e (p, h); full = (PING_PERIOD \<le>s pe_now e - pr_lastFullHello p);
      ks = known_slots (pr_paths p); live = takeWhile (kept e (max_priority (pr_paths p) 0)) ks;
      refs = map (the \<circ> pp_p) live in
    slots_ok (pr_paths (fst st')) \<and> known_slots (pr_paths (fst st')) = live @ drop (length live + 1) ks \<and>
    out = concat (map (contact e p full h) refs) \<and> snd st' = touched e full refs h"
  using peer_keepalive_spec [OF assms] .

definition demo_slots :: "peer_path list" where
  "demo_slots = [\<lparr>pp_lr = 0, pp_p = Some 1, pp_priority = 1\<rparr>, \<lparr>pp_lr = 999999, pp_p = Some 2, pp_priority = 1\<rparr>] @
     replicate 62 no_path"

lemma demo_slots_ok:
  "slots_ok demo_slots" "known_slots demo_slots = take 2 demo_slots" "known_paths demo_slots = [1, 2]"
proof -
  let ?ks = "[\<lparr>pp_lr = 0, pp_p = Some 1, pp_priority = 1\<rparr>, \<lparr>pp_lr = 999999, pp_p = Some (2::nat), pp_priority = 1\<rparr>]"
  have n: "\<forall>s\<in>set (replicate 62 no_path). pp_p s = None" by (simp add: no_path_def)
  show "slots_ok demo_slots"
    using slots_okI(1) [of ?ks "replicate 62 no_path"] n by (simp add: MAX_PATHS_def demo_slots_def) (simp add: no_path_def)
  show "known_slots demo_slots = take 2 demo_slots" using known_slots_append [of ?ks, OF _ n] by (simp add: demo_slots_def)
  show "known_paths demo_slots = [1, 2]" using known_paths_none [OF n] by (simp add: demo_slots_def)
qed

lemma demo_expired: "\<not> demo_now - 0 <s PATH_EXPIRATION" if "demo_now = 1000000"
  using that by (simp add: PATH_EXPIRATION_def PING_PERIOD_def word_sless_alt)

theorem peer_keepalive_exact_witness:
  "let (st, out, sent) = doPingAndKeepalive demo_env (demo_peer\<lparr>pr_paths := demo_slots\<rparr>, demo_store) in
    out = [] \<and> known_slots (pr_paths (fst st)) = [\<lparr>pp_lr = 999999, pp_p = Some 2, pp_priority = 1\<rparr>]"
proof -
  let ?p = "demo_peer\<lparr>pr_paths := demo_slots\<rparr>"
  have ok: "slots_ok (pr_paths ?p)" using demo_slots_ok by simp
  have "\<not> kept demo_env m \<lparr>pp_lr = 0, pp_p = Some 1, pp_priority = 1\<rparr>" for m
    using demo_expired by (simp add: kept_def demo_env_def)
  then show ?thesis using peer_keepalive_exact [OF ok, of demo_env demo_store] demo_slots_ok(2)
    by (auto simp: Let_def demo_slots_def split: prod.splits)
qed

section \<open>The best path\<close>

text \<open>A known path that may be used: not expired, or expired ones are wanted too.\<close>

definition usable :: "bool \<Rightarrow> u64 \<Rightarrow> peer_path \<Rightarrow> bool" where
  "usable expired now s \<longleftrightarrow> expired \<or> now - pp_lr s <s PATH_EXPIRATION"

text \<open>Both searches for a path pick the last one of least quality among those with a property.\<close>

fun best_where :: "(peer_path \<Rightarrow> bool) \<Rightarrow> path_store \<Rightarrow> u64 \<Rightarrow> peer_path list \<Rightarrow> nat \<Rightarrow> int \<times> nat \<Rightarrow> int \<times> nat" where
  "best_where P h now [] i b = b"
| "best_where P h now (s # ss) i b =
     (case pp_p s of
        None \<Rightarrow> b
      | Some q \<Rightarrow> best_where P h now ss (i + 1)
          (if P s \<and> slot_quality h now s q \<le> fst b then (slot_quality h now s q, i) else b))"

lemma best_path_where:
  "best_path h now expired ss i v b = snd (best_where (usable expired now) h now ss i (v, b))"
  by (induction ss arbitrary: i v b) (auto simp: usable_def split: option.split)

definition in_scope :: "path_store \<Rightarrow> u16 \<Rightarrow> u32 \<Rightarrow> peer_path \<Rightarrow> bool" where
  "in_scope h fam sc s \<longleftrightarrow>
     (case pp_p s of None \<Rightarrow> False | Some q \<Rightarrow> ss_family (p_addr (h q)) = fam \<and> scope_code (p_ipScope (h q)) = sc)"

lemma scan_scopes_where:
  "fst (scan_scopes h now ss i (t4, t6)) sc = best_where (in_scope h AF_INET sc) h now ss i (t4 sc)"
  "snd (scan_scopes h now ss i (t4, t6)) sc = best_where (in_scope h AF_INET6 sc) h now ss i (t6 sc)"
proof (induction ss arbitrary: i t4 t6)
  case (Cons s ss)
  have ne: "AF_INET6 \<noteq> AF_INET" by (simp add: AF_INET_def AF_INET6_def)
  { case 1 then show ?case using Cons.IH(1) ne by (auto simp: in_scope_def Let_def split: option.split) }
  { case 2 then show ?case using Cons.IH(2) ne by (auto simp: in_scope_def Let_def split: option.split) }
qed simp_all

lemma best_where_spec:
  assumes "\<forall>s\<in>set ks. pp_p s \<noteq> None" "\<forall>s\<in>set rest. pp_p s = None"
  shows "let k = snd (best_where P h now (ks @ rest) i b); val = (\<lambda>s. slot_quality h now s (the (pp_p s))) in
    (k = snd b \<and> (\<forall>s\<in>set ks. P s \<longrightarrow> fst b < val s)) \<or>
    (\<exists>j<length ks. k = i + j \<and> P (ks ! j) \<and> val (ks ! j) \<le> fst b \<and> (\<forall>s\<in>set ks. P s \<longrightarrow> val (ks ! j) \<le> val s))"
  using assms(1)
proof (induction ks arbitrary: i b)
  case Nil
  then show ?case using assms(2) by (cases rest) auto
next
  case (Cons s ks)
  obtain q where q: "pp_p s = Some q" using Cons.prems by auto
  have pre: "\<forall>s\<in>set ks. pp_p s \<noteq> None" using Cons.prems by simp
  let ?val = "\<lambda>s. slot_quality h now s (the (pp_p s))"
  define c where "c = (if P s \<and> ?val s \<le> fst b then (?val s, i) else b)"
  have k: "best_where P h now ((s # ks) @ rest) i b = best_where P h now (ks @ rest) (i + 1) c" using q by (simp add: c_def)
  from Cons.IH [OF pre, of "i + 1" c, unfolded Let_def] consider
    (same) "snd (best_where P h now (ks @ rest) (i + 1) c) = snd c" "\<forall>t\<in>set ks. P t \<longrightarrow> fst c < ?val t"
    | (later) j where "j < length ks" "snd (best_where P h now (ks @ rest) (i + 1) c) = i + 1 + j"
        "P (ks ! j)" "?val (ks ! j) \<le> fst c" "\<forall>t\<in>set ks. P t \<longrightarrow> ?val (ks ! j) \<le> ?val t"
    by (elim disjE exE conjE) (rule that; assumption)+
  then show ?case
  proof cases
    case same
    show ?thesis
    proof (cases "P s \<and> ?val s \<le> fst b")
      case True
      then show ?thesis unfolding Let_def k using same by (intro disjI2 exI [of _ 0]) (auto simp: c_def intro: less_imp_le)
    next
      case False
      then show ?thesis unfolding Let_def k using same by (intro disjI1) (auto simp: c_def)
    qed
  next
    case later
    have "?val (ks ! j) \<le> fst b" "P s \<Longrightarrow> ?val (ks ! j) \<le> ?val s"
      using later(4) by (auto simp: c_def split: if_splits)
    then show ?thesis unfolding Let_def k using later by (intro disjI2 exI [of _ "Suc j"]) auto
  qed
qed

text \<open>
  The score stays far below the initial bound when the latency is at most the unknown latency
  and the path was not last heard of in the future.
\<close>

lemma sint_small: "uint (w :: 'a::len word) < 2 ^ (LENGTH('a) - 1) \<Longrightarrow> sint w = uint w"
  unfolding sint_uint by (rule signed_take_bit_int_eq_self) (auto intro: order.trans [OF _ uint_nonnegative])

lemma path_age_bound:
  assumes "0 \<le> sint (now - p_lastIn q)" shows "uint (path_age_int q now) \<le> 140000"
proof -
  define m where "m = (if PATH_HEARTBEAT * 10 <s now - p_lastIn q then PATH_HEARTBEAT * 10 else now - p_lastIn q)"
  have "0 \<le> sint m \<and> sint m \<le> 140000"
    using assms by (auto simp: m_def word_sless_alt PATH_HEARTBEAT_def)
  moreover have "uint m = sint m mod 2 ^ 64" using uint_sint [of m] by (simp add: take_bit_eq_mod)
  ultimately have "uint m \<le> 140000" by simp
  moreover have "uint (ucast m :: u32) = uint m mod 2 ^ 32" by (simp add: unsigned_ucast_eq take_bit_eq_mod)
  ultimately have "uint (ucast m :: u32) \<le> 140000" using uint_nonnegative [of m] by simp
  then show ?thesis by (simp add: path_age_int_def Let_def m_def)
qed

lemma path_quality_bound:
  assumes "p_latency q \<le> 0xffff" "0 \<le> sint (now - p_lastIn q)"
  shows "sint (path_quality q now) \<le> 2147483647"
proof -
  define x :: u32 where "x = (if path_age_int q now <s ucast (PATH_HEARTBEAT + 5000) then p_latency q
    else p_latency q + 0xffff + path_age_int q now)"
  define f :: u32 where "f = MAX_SCOPE - scope_code (p_ipScope q) + 1"
  have f: "uint f \<le> 8" by (cases "p_ipScope q") (simp_all add: f_def scope_code_def MAX_SCOPE_def)
  have l: "uint (p_latency q) \<le> 65535" using assms(1) by (simp add: word_le_def)
  have "uint (p_latency q + 0xffff) = uint (p_latency q) + 65535" using l by (simp add: uint_word_ariths)
  then have "uint (p_latency q + 0xffff + path_age_int q now) = uint (p_latency q) + 65535 + uint (path_age_int q now)"
    using l path_age_bound [OF assms(2)] by (simp add: uint_word_ariths(1) [of "p_latency q + 0xffff"])
  then have x: "uint x \<le> 271070" using l path_age_bound [OF assms(2)] by (simp add: x_def)
  have s: "sint x = uint x" "sint f = uint f" using x f by (simp_all add: sint_small)
  have "uint x * uint f \<le> 271070 * 8" by (rule mult_mono) (use x f in simp_all)
  moreover have "sint (scast x * scast f :: u64) = sint x * sint f"
  proof -
    have "sint (scast x :: u64) = sint x" "sint (scast f :: u64) = sint f" by (simp_all add: sint_up_scast is_up)
    moreover have "signed_take_bit 63 (uint x * uint f) = uint x * uint f"
      by (rule signed_take_bit_int_eq_self) (use \<open>uint x * uint f \<le> 271070 * 8\<close> in \<open>simp_all add: order.trans [OF _ mult_nonneg_nonneg]\<close>)
    ultimately show ?thesis by (simp add: sint_word_ariths s)
  qed
  ultimately have "sint (scast x * scast f :: u64) \<le> 2147483647" using s by simp
  then show ?thesis by (simp add: path_quality_def Let_def x_def f_def)
qed

lemma sdiv_le: "1 \<le> p \<Longrightarrow> x \<le> b \<Longrightarrow> 0 \<le> b \<Longrightarrow> (x :: int) sdiv p \<le> b"
proof -
  assume a: "1 \<le> p" "x \<le> b" "0 \<le> b"
  show ?thesis
  proof (cases "0 \<le> x")
    case True
    then have "x sdiv p = x div p" using a by (simp add: signed_divide_int_def sgn_if)
    then show ?thesis using True a zdiv_mono2 [of x 1 p] by simp
  next
    case False
    then have "x sdiv p = - (\<bar>x\<bar> div p)" using a by (simp add: signed_divide_int_def sgn_if)
    moreover have "0 \<le> \<bar>x\<bar> div p" using a by (simp add: pos_imp_zdiv_nonneg_iff)
    ultimately show ?thesis using a by linarith
  qed
qed

text \<open>
  Claim C32: \<open>getAppropriatePath\<close> gives a known path that may be used and whose quality, per
  priority, none of the others beats. It gives none only when every known path that may be used
  scores above the bound the search starts from. The code does not exclude that, since the latency is
  computed from what the peer answers and is not clamped; but it cannot be when latencies are at most
  the unknown latency and no path was heard of in the future: then a path is given whenever one may
  be used.
\<close>

theorem peer_best_path:
  assumes ok: "slots_ok (pr_paths p)"
  shows "(case getAppropriatePath h p now expired of
      None \<Rightarrow> \<forall>s\<in>set (known_slots (pr_paths p)). usable expired now s \<longrightarrow>
        2147483647 < slot_quality h now s (the (pp_p s))
    | Some q \<Rightarrow> \<exists>s\<in>set (known_slots (pr_paths p)). pp_p s = Some q \<and> usable expired now s \<and>
        slot_quality h now s q \<le> 2147483647 \<and>
        (\<forall>t\<in>set (known_slots (pr_paths p)). usable expired now t \<longrightarrow>
          slot_quality h now s q \<le> slot_quality h now t (the (pp_p t)))) \<and>
    ((\<forall>q\<in>set (known_paths (pr_paths p)). p_latency (h q) \<le> 0xffff \<and> 0 \<le> sint (now - p_lastIn (h q))) \<longrightarrow>
      (getAppropriatePath h p now expired = None \<longleftrightarrow> (\<forall>s\<in>set (known_slots (pr_paths p)). \<not> usable expired now s)))"
proof -
  from slots_okE [OF ok] obtain ks rest where s: "pr_paths p = ks @ rest" "\<forall>s\<in>set ks. pp_p s \<noteq> None"
    "\<forall>s\<in>set rest. pp_p s = None" "known_paths (pr_paths p) = map (the \<circ> pp_p) ks"
    "length ks + length rest = MAX_PATHS" "\<forall>s\<in>set ks \<union> set rest. 1 \<le> pp_priority s" by metis
  have kn: "known_slots (pr_paths p) = ks" unfolding s(1) by (rule known_slots_append [OF s(2,3)])
  have small: "slot_quality h now t (the (pp_p t)) \<le> 2147483647"
    if "\<forall>q\<in>set (known_paths (pr_paths p)). p_latency (h q) \<le> 0xffff \<and> 0 \<le> sint (now - p_lastIn (h q))" "t \<in> set ks" for t
    unfolding slot_quality_def
    by (rule sdiv_le) (use that s(4,6) path_quality_bound in auto)
  let ?k = "best_path h now expired (ks @ rest) 0 2147483647 MAX_PATHS"
  from best_where_spec [OF s(2,3), of "usable expired now" h now 0 "(2147483647, MAX_PATHS)",
      unfolded Let_def fst_conv snd_conv best_path_where [symmetric]] show ?thesis
  proof (elim disjE exE conjE)
    assume k: "?k = MAX_PATHS" and big: "\<forall>t\<in>set ks. usable expired now t \<longrightarrow> 2147483647 < slot_quality h now t (the (pp_p t))"
    have "getAppropriatePath h p now expired = None" using k by (simp add: getAppropriatePath_def s(1))
    then show ?thesis using big small unfolding kn by (auto simp flip: not_le)
  next
    fix j assume j: "j < length ks" "?k = 0 + j" "usable expired now (ks ! j)"
      "slot_quality h now (ks ! j) (the (pp_p (ks ! j))) \<le> 2147483647"
      "\<forall>t\<in>set ks. usable expired now t \<longrightarrow>
        slot_quality h now (ks ! j) (the (pp_p (ks ! j))) \<le> slot_quality h now t (the (pp_p t))"
    obtain q where q: "pp_p (ks ! j) = Some q" using j(1) s(2) by (meson nth_mem not_None_eq)
    have "getAppropriatePath h p now expired = Some q"
      using j(1,2) s(1,5) q by (simp add: getAppropriatePath_def nth_append)
    then show ?thesis unfolding kn using j q nth_mem [OF j(1)] by (auto intro!: bexI [of _ "ks ! j"])
  qed
qed

theorem peer_best_path_witness:
  "getAppropriatePath demo_store (demo_peer\<lparr>pr_paths := demo_slots\<rparr>) 1000000 False = Some 2"
proof -
  let ?p = "demo_peer\<lparr>pr_paths := demo_slots\<rparr>"
  have ok: "slots_ok (pr_paths ?p)" using demo_slots_ok by simp
  have h: "\<forall>q\<in>set (known_paths (pr_paths ?p)). p_latency (demo_store q) \<le> 0xffff \<and> 0 \<le> sint (1000000 - p_lastIn (demo_store q))"
    by (simp add: demo_store_def path_new_def)
  have u: "\<not> usable False 1000000 \<lparr>pp_lr = 0, pp_p = Some 1, pp_priority = 1\<rparr>"
    "usable False 1000000 \<lparr>pp_lr = 999999, pp_p = Some 2, pp_priority = 1\<rparr>"
    using demo_expired by (simp_all add: usable_def PATH_EXPIRATION_def PING_PERIOD_def word_sless_alt)
  show ?thesis using peer_best_path [OF ok, where h = demo_store and now = 1000000 and expired = False] h u demo_slots_ok(2)
    by (auto simp: demo_slots_def split: option.splits)
qed

text \<open>
  The latency of a path is the time since the timestamp a peer echoes, cut to 32 bits and not limited:
  a peer that echoes an old one is not sent to, although its path is alive and may be used.
\<close>

definition slow_store :: path_store where
  "slow_store = (\<lambda>r. (path_new (of_nat r) (inet_set [8, 8, 8, of_nat r] 4 9993))\<lparr>p_lastIn := 1000000, p_latency := 0x7fffffff\<rparr>)"

lemma slow_path_not_chosen:
  "getAppropriatePath slow_store (demo_peer\<lparr>pr_paths := demo_slots\<rparr>) 1000000 False = None \<and>
   hasAlivePath slow_store (demo_peer\<lparr>pr_paths := demo_slots\<rparr>) 1000000"
  by code_simp

section \<open>Runs\<close>

text \<open>
  What can happen to a peer: packets, keepalive passes, redirects (to a path object of the topology,
  which has the address asked for), resets, changes of other fields, and changes of path
  objects from elsewhere.
\<close>

inductive peer_step :: "peer \<times> path_store \<Rightarrow> peer \<times> path_store \<Rightarrow> bool" where
  step_received: "peer_step st (fst (peer_received e r hops v trust st))"
| step_ping: "peer_step st (fst (doPingAndKeepalive e st))"
| step_redirect: "p_addr (h np) = remote \<Longrightarrow> peer_step (p, h) (fst (clusterRedirect e r np remote (p, h)))"
| step_reset: "peer_step st (fst (resetWithinScope e scope fam st))"
| step_other: "pr_paths p' = pr_paths p \<Longrightarrow> peer_step (p, h) (p', h')"

lemma ipsEqual2_refl [simp]: "inet_ipsEqual2 a a"
  by (simp add: inet_ipsEqual2_def)

lemma priority_of_pos: "\<forall>s\<in>set ss. 1 \<le> pp_priority s \<Longrightarrow> 1 \<le> priority_of r ss"
  by (induction ss) (auto split: option.split)

lemma redirect_slots_ok:
  assumes "slots_ok ss" "p_addr (h np) = remote" "1 \<le> prio"
  shows "slots_ok (redirect_slots h now remote np prio ss)"
proof -
  from slots_okE [OF assms(1)] obtain ks rest where s: "ss = ks @ rest" "\<forall>s\<in>set ks. pp_p s \<noteq> None"
    "\<forall>s\<in>set rest. pp_p s = None" "distinct (map (the \<circ> pp_p) ks)"
    "length ks + length rest = MAX_PATHS" "\<forall>s\<in>set ks \<union> set rest. 1 \<le> pp_priority s" by metis
  define P :: "peer_path \<Rightarrow> bool" where "P = (\<lambda>s. case pp_p s of None \<Rightarrow> False
    | Some q \<Rightarrow> prio \<le> pp_priority s \<and> \<not> inet_ipsEqual2 (p_addr (h q)) remote)"
  define stay where "stay = filter P ks"
  have "filter P rest = []" using s(3) by (auto simp: P_def filter_empty_conv)
  then have st: "filter P ss = stay" by (simp add: s(1) stay_def)
  have k: "\<forall>s\<in>set stay. pp_p s \<noteq> None" "\<forall>s\<in>set stay. 1 \<le> pp_priority s" using s(2,6) by (auto simp: stay_def)
  have d: "distinct (map (the \<circ> pp_p) stay)" unfolding stay_def using s(4) by (simp add: distinct_map_filter)
  have np: "np \<notin> set (map (the \<circ> pp_p) stay)" using assms(2) by (auto simp: stay_def P_def split: option.splits)
  have l: "length stay \<le> MAX_PATHS" using s(5) length_filter_le [of P ks] unfolding stay_def by linarith
  have eq: "redirect_slots h now remote np prio ss = (if length stay < MAX_PATHS
      then (stay @ [\<lparr>pp_lr = now, pp_p = Some np, pp_priority = prio\<rparr>]) @ replicate (MAX_PATHS - length stay - 1) no_path else stay)"
    unfolding redirect_slots_def Let_def P_def [symmetric] st by simp
  show ?thesis
  proof (cases "length stay < MAX_PATHS")
    case True
    show ?thesis unfolding eq using True k d np assms(3)
      by (simp only: if_True, intro slots_okI(1)) (auto simp: no_path_def)
  next
    case False
    then show ?thesis unfolding eq using slots_okI(1) [of stay "[]"] k d l by simp
  qed
qed

lemma reset_slots_same:
  "map pp_p (fst (reset_slots e p scope fam ss h)) = map pp_p ss"
  "map pp_priority (fst (reset_slots e p scope fam ss h)) = map pp_priority ss"
  by (induction ss arbitrary: h) (auto split: option.splits prod.splits simp: prod_eq_iff)

lemma peer_step_ok: "peer_step st st' \<Longrightarrow> slots_ok (pr_paths (fst st)) \<Longrightarrow> slots_ok (pr_paths (fst st'))"
proof (induction rule: peer_step.induct)
  case (step_received st e r hops v trust)
  obtain p h where st: "st = (p, h)" by (cases st)
  then show ?case using peer_steps_ok(1) step_received by simp
next
  case (step_ping st e)
  obtain p h where "st = (p, h)" by (cases st)
  then show ?case using peer_steps_ok(2) step_ping by simp
next
  case (step_redirect h np remote p e r)
  then have "slots_ok (pr_paths p)" by simp
  moreover from this have "1 \<le> priority_of r (pr_paths p) + 2"
    using priority_of_pos [of "pr_paths p" r] by (simp add: slots_ok_def)
  ultimately show ?case using redirect_slots_ok [where h = h and np = np and remote = remote] step_redirect(1)
    by (simp add: clusterRedirect_def Let_def)
next
  case (step_reset st e scope fam)
  obtain p h where st: "st = (p, h)" by (cases st)
  have "pr_paths (fst (fst (resetWithinScope e scope fam (p, h)))) = fst (reset_slots e p scope fam (pr_paths p) h)"
    by (simp add: resetWithinScope_def split: prod.splits)
  then show ?case using slots_ok_cong [OF _ reset_slots_same, of "pr_paths p" e p scope fam h] step_reset st by simp
qed simp

text \<open>
  Claim C39: whatever a peer goes through from its creation on, its known paths are a prefix of the 64
  slots, no path is in two of them, and every priority, by which the code divides, is
  positive.
\<close>

theorem peer_paths_inv:
  assumes "peer_new e i = Inr p" "peer_step\<^sup>*\<^sup>* (p, h) st"
  shows "slots_ok (pr_paths (fst st))"
  using assms(2)
proof (induction rule: rtranclp_induct)
  case base
  then show ?case using assms(1) slots_ok_new by (auto simp: peer_new_def split: option.splits)
qed (use peer_step_ok in blast)

theorem peer_paths_inv_witness:
  "slots_ok (pr_paths (fst (fst (peer_received demo_env 7 0 VERB_OK False (demo_peer, demo_store)))))"
proof (rule peer_paths_inv)
  show "peer_new demo_env (pe_identity demo_env) = Inr demo_peer" by (simp add: demo_peer_def peer_new_def demo_env_def)
  show "peer_step\<^sup>*\<^sup>* (demo_peer, demo_store) (fst (peer_received demo_env 7 0 VERB_OK False (demo_peer, demo_store)))"
    by (rule r_into_rtranclp, rule step_received)
qed

end
