(* ===== verification/ZT_PeerWire.thy ===== *)
theory ZT_PeerWire
  imports ZT_Peer
begin

text \<open>
  What a peer stores and sends: its cached form reads back, introductions choose the best common
  scope, and the rate gates of \<^verbatim>\<open>node/Peer.hpp\<close> bound what is answered. The definitions are in the
  theory of peers.
\<close>

section \<open>The cached form reads back\<close>

definition cache_enc :: "path_store \<Rightarrow> peer \<Rightarrow> u8 list" where
  "cache_enc h p =
     [2] @ identity_enc False (pr_id p) @ be_bytes 2 (pr_vProto p) @ be_bytes 2 (pr_vMajor p) @
     be_bytes 2 (pr_vMinor p) @ be_bytes 2 (pr_vRevision p) @
     be_bytes 2 (of_nat (length (known_paths (pr_paths p))) :: u16) @
     concat (map (inet_enc \<circ> p_addr \<circ> h) (known_paths (pr_paths p)))"

definition cache_ok :: "path_store \<Rightarrow> peer \<Rightarrow> bool" where
  "cache_ok h p \<longleftrightarrow> identity_ok (pr_id p) \<and> id_priv (pr_id p) = None \<and> identity_bool (pr_id p) \<and>
     slots_ok (pr_paths p) \<and> (\<forall>q\<in>set (known_paths (pr_paths p)). inet_ip_port (p_addr (h q)))"

lemma appends_cache:
  assumes "cache_ok h p" shows "appends (serializeForCache h p) (cache_enc h p)"
proof -
  have "appends (ser_list inet_serialize (map (\<lambda>q. p_addr (h q)) (known_paths (pr_paths p))))
      (concat (map inet_enc (map (\<lambda>q. p_addr (h q)) (known_paths (pr_paths p)))))"
    using assms by (intro inet_wire.list_appends) (simp add: cache_ok_def)
  then have "list_all2 appends [buf_append_int 1 (2 :: u8), identity_serialize False (pr_id p),
        buf_append_int 2 (pr_vProto p), buf_append_int 2 (pr_vMajor p),
        buf_append_int 2 (pr_vMinor p), buf_append_int 2 (pr_vRevision p),
        buf_append_int 2 (of_nat (length (known_paths (pr_paths p))) :: u16),
        ser_list inet_serialize (map (\<lambda>q. p_addr (h q)) (known_paths (pr_paths p)))]
      [[2], identity_enc False (pr_id p), be_bytes 2 (pr_vProto p), be_bytes 2 (pr_vMajor p),
       be_bytes 2 (pr_vMinor p), be_bytes 2 (pr_vRevision p),
       be_bytes 2 (of_nat (length (known_paths (pr_paths p))) :: u16),
       concat (map inet_enc (map (\<lambda>q. p_addr (h q)) (known_paths (pr_paths p))))]"
    using assms by (simp add: cache_ok_def appends_identity appends_u8 appends_int)
  from appends_write_all [OF this] show ?thesis
    by (simp add: serializeForCache_def Let_def cache_enc_def o_def)
qed

lemma cached_tries_enc:
  assumes "\<forall>a\<in>set as. inet_ip_port a" "at_pos b ptr (concat (map inet_enc as) @ rest)"
  shows "cached_tries p (length as) b ptr = map (SendHello (- 1)) (filter inet_bool as)"
  using assms
proof (induction as arbitrary: ptr)
  case (Cons a as)
  have a: "inet_ip_port a" and pos: "at_pos b ptr (inet_enc a @ concat (map inet_enc as) @ rest)"
    using Cons.prems by simp_all
  have "unat (of_nat (length (inet_enc a)) :: u32) = length (inet_enc a)"
    using length_inet_enc [OF a] by (intro unat_of_nat_u32) simp
  then have "at_pos b (ptr + of_nat (length (inet_enc a))) (concat (map inet_enc as) @ rest)" by (rule at_pos_skip [OF pos])
  then show ?case using Cons.IH Cons.prems(1) inet_wire.des_enc [OF a pos] by (simp add: attemptToContactAt_def)
qed simp

text \<open>
  A peer written to the cache and read back has its identity and its version and none of its
  paths; instead a HELLO is sent, in order, to the address of each path it had.
\<close>

lemma peer_cache_roundtrip:
  assumes ok: "cache_ok h p" and new: "peer_new e (pr_id p) = Inr p0"
    and wr: "small b0" "bdata b0 = []" "serializeForCache h p b0 = Inr b"
  shows "deserializeFromCache e b =
    Some (p0\<lparr>pr_vProto := pr_vProto p, pr_vMajor := pr_vMajor p, pr_vMinor := pr_vMinor p, pr_vRevision := pr_vRevision p\<rparr>,
      map (SendHello (- 1)) (filter inet_bool (map (p_addr \<circ> h) (known_paths (pr_paths p)))))"
proof -
  let ?ks = "known_paths (pr_paths p)" and ?i = "identity_enc False (pr_id p)"
  let ?as = "map (p_addr \<circ> h) ?ks"
  have n: "length ?ks \<le> 64" using ok length_known [of "pr_paths p"] by (simp add: cache_ok_def slots_ok_def MAX_PATHS_def)
  have i: "identity_ok (pr_id p) \<and> id_priv (pr_id p) = None" "length ?i \<le> 200" "identity_bool (pr_id p)"
    using ok length_identity_enc [of "pr_id p" False] by (auto simp: cache_ok_def)
  have g: "grown b0 (cache_enc h p) b" using appendsD(3) [OF appends_cache [OF ok] wr(1,3)] by blast
  have "bsize b0 = 0" using arg_cong [OF wr(2), of length] wr(1) by (auto simp: bdata_def bsize_def small_def buf_ok_def bcap_def)
  then have "blen b0 = 0" by (simp add: bsize_def unat_eq_0)
  then have pos: "at_pos b 0 ([2] @ ?i @ (be_bytes 2 (pr_vProto p) @ be_bytes 2 (pr_vMajor p) @
     be_bytes 2 (pr_vMinor p) @ be_bytes 2 (pr_vRevision p) @ be_bytes 2 (of_nat (length ?ks) :: u16)) @ concat (map inet_enc ?as) @ [])"
    using at_pos_grown [OF wr(1) g] by (simp add: cache_enc_def o_def)
  have pos1: "at_pos b 1 (?i @ (be_bytes 2 (pr_vProto p) @ be_bytes 2 (pr_vMajor p) @
     be_bytes 2 (pr_vMinor p) @ be_bytes 2 (pr_vRevision p) @ be_bytes 2 (of_nat (length ?ks) :: u16)) @ concat (map inet_enc ?as) @ [])"
    using at_pos_skip [OF pos, of 1] by simp
  define q where "q = 1 + (of_nat (length ?i) :: u32)"
  have "unat (of_nat (length ?i) :: u32) = length ?i" using i(2) by (intro unat_of_nat_u32) simp
  then have pos2: "at_pos b q ((be_bytes 2 (pr_vProto p) @ be_bytes 2 (pr_vMajor p) @
     be_bytes 2 (pr_vMinor p) @ be_bytes 2 (pr_vRevision p) @ be_bytes 2 (of_nat (length ?ks) :: u16)) @ concat (map inet_enc ?as) @ [])"
    unfolding q_def by (rule at_pos_skip [OF pos1])
  have pos3: "at_pos b (q + 10) (concat (map inet_enc ?as) @ [])" by (rule at_pos_skip [OF pos2]) simp
  have F: "buf_at 2 b q = Inr (pr_vProto p)" "buf_at 2 b (q + 2) = Inr (pr_vMajor p)" "buf_at 2 b (q + 4) = Inr (pr_vMinor p)"
    "buf_at 2 b (q + 6) = Inr (pr_vRevision p)" "buf_at 2 b (q + 8) = Inr (of_nat (length ?ks) :: u16)"
    by (simp_all add: at_pos_reads [OF pos2])
  have u: "unat (of_nat (length ?ks) :: u16) = length ?as" using n by (simp add: unat_of_nat)
  have "read_cached e b = Inr (Some (p0\<lparr>pr_vProto := pr_vProto p, pr_vMajor := pr_vMajor p, pr_vMinor := pr_vMinor p,
      pr_vRevision := pr_vRevision p\<rparr>, cached_tries (p0\<lparr>pr_vProto := pr_vProto p, pr_vMajor := pr_vMajor p,
      pr_vMinor := pr_vMinor p, pr_vRevision := pr_vRevision p\<rparr>) (length ?as) b (q + 10)))"
    using at_pos_get0 [OF pos] identity_pub_wire.des_enc [OF i(1) pos1] F i(3) new u
    by (simp add: read_cached_def q_def Let_def)
  moreover have "\<forall>a\<in>set ?as. inet_ip_port a" using ok by (simp add: cache_ok_def)
  ultimately show ?thesis using cached_tries_enc [OF _ pos3] by (simp add: deserializeFromCache_def)
qed

lemma peer_cache_roundtrip_witness:
  "\<exists>b. serializeForCache demo_store (demo_peer\<lparr>pr_paths := demo_slots\<rparr>) (buf_new (replicate 400 0)) = Inr b \<and>
    map_option snd (deserializeFromCache demo_env b) =
      Some [SendHello (- 1) (inet_set [10, 0, 0, 1] 4 9993), SendHello (- 1) (inet_set [10, 0, 0, 2] 4 9993)]"
proof -
  let ?p = "demo_peer\<lparr>pr_paths := demo_slots\<rparr>"
  have id: "pr_id ?p = pe_identity demo_env" by (simp add: demo_peer_def peer_new_def demo_env_def)
  have iok: "identity_ok (pr_id ?p) \<and> identity_bool (pr_id ?p) \<and> id_priv (pr_id ?p) = None"
    unfolding id by (simp add: demo_env_def identity_ok_def identity_bool_def) code_simp
  have ad: "p_addr (demo_store q) = inet_set [10, 0, 0, of_nat q] 4 9993" for q by (simp add: demo_store_def path_new_def)
  have ip: "inet_ip_port (inet_set [10, 0, 0, x] 4 9993)" for x
    unfolding inet_ip_port_def by (intro disjI2 exI [of _ "[10, 0, 0, x]"] exI [of _ 9993]) (simp add: eval_nat_numeral)
  have ok: "cache_ok demo_store ?p"
    using iok demo_slots_ok ip by (simp add: cache_ok_def ad)
  have new: "peer_new demo_env (pr_id ?p) = Inr demo_peer" unfolding id by (simp add: demo_peer_def peer_new_def demo_env_def)
  have len: "length (cache_enc demo_store ?p) \<le> 400"
    using length_identity_enc [of "pr_id ?p" False] iok length_inet_enc [OF ip [of 1]] length_inet_enc [OF ip [of 2]] demo_slots_ok(3)
    by (simp add: cache_enc_def ad)
  obtain b where b: "serializeForCache demo_store ?p (buf_new (replicate 400 0)) = Inr b"
    using ser_new [OF appends_cache [OF ok] len] by auto
  have z: "bdata (buf_new (replicate 400 0)) = []" "small (buf_new (replicate 400 0))"
    by (simp add: buf_new_def bdata_def bsize_def) simp
  have "inet_bool (inet_set [10, 0, 0, x] 4 9993)" for x
    using inet_set_fields(1) [of "[10, 0, 0, x]" 9993] by (simp add: inet_bool_def inet_isV4_def AF_INET_def)
  then show ?thesis using b peer_cache_roundtrip [OF ok new z(2,1) b] demo_slots_ok(3) by (auto simp: ad)
qed

section \<open>Introductions\<close>

text \<open>
  A peer is reached in a family and scope by a known path that scores at most the bound the search for
  the best one starts from. With latencies that are at most the unknown latency and paths not heard
  of in the future, every path does.
\<close>

definition reaches :: "path_store \<Rightarrow> u64 \<Rightarrow> peer \<Rightarrow> u16 \<Rightarrow> u32 \<Rightarrow> bool" where
  "reaches h now p fam sc \<longleftrightarrow>
     (\<exists>s\<in>set (known_slots (pr_paths p)). in_scope h fam sc s \<and> slot_quality h now s (the (pp_p s)) \<le> 2147483647)"

definition best_in_scope :: "path_store \<Rightarrow> u64 \<Rightarrow> peer \<Rightarrow> u16 \<Rightarrow> u32 \<Rightarrow> peer_path \<Rightarrow> bool" where
  "best_in_scope h now p fam sc s \<longleftrightarrow> s \<in> set (known_slots (pr_paths p)) \<and> in_scope h fam sc s \<and>
     (\<forall>t\<in>set (known_slots (pr_paths p)). in_scope h fam sc t \<longrightarrow>
       slot_quality h now s (the (pp_p s)) \<le> slot_quality h now t (the (pp_p t)))"

lemma common_path_spec:
  "case common_path (m4, m6) (t4, t6) ss of
     None \<Rightarrow> \<forall>s\<in>set ss. \<not> (snd (m6 s) \<noteq> MAX_PATHS \<and> snd (t6 s) \<noteq> MAX_PATHS) \<and> \<not> (snd (m4 s) \<noteq> MAX_PATHS \<and> snd (t4 s) \<noteq> MAX_PATHS)
   | Some (i, j) \<Rightarrow> \<exists>a s b. ss = a @ s # b \<and>
       (\<forall>s\<in>set a. \<not> (snd (m6 s) \<noteq> MAX_PATHS \<and> snd (t6 s) \<noteq> MAX_PATHS) \<and> \<not> (snd (m4 s) \<noteq> MAX_PATHS \<and> snd (t4 s) \<noteq> MAX_PATHS)) \<and>
       (if snd (m6 s) \<noteq> MAX_PATHS \<and> snd (t6 s) \<noteq> MAX_PATHS then i = snd (m6 s) \<and> j = snd (t6 s)
        else snd (m4 s) \<noteq> MAX_PATHS \<and> snd (t4 s) \<noteq> MAX_PATHS \<and> i = snd (m4 s) \<and> j = snd (t4 s))"
proof (induction ss)
  case (Cons s ss)
  show ?case
  proof (cases "(snd (m6 s) \<noteq> MAX_PATHS \<and> snd (t6 s) \<noteq> MAX_PATHS) \<or> (snd (m4 s) \<noteq> MAX_PATHS \<and> snd (t4 s) \<noteq> MAX_PATHS)")
    case True
    show ?thesis
    proof (cases "snd (m6 s) \<noteq> MAX_PATHS \<and> snd (t6 s) \<noteq> MAX_PATHS")
      case True
      then show ?thesis by simp (rule exI [of _ "[]"], simp, rule exI [of _ s], simp)
    next
      case no: False
      then show ?thesis using True by (cases "snd (m6 s) = MAX_PATHS") (simp, rule exI [of _ "[]"], simp, rule exI [of _ s], simp)+
    qed
  next
    case False
    then have c: "common_path (m4, m6) (t4, t6) (s # ss) = common_path (m4, m6) (t4, t6) ss" by auto
    show ?thesis
    proof (cases "common_path (m4, m6) (t4, t6) ss")
      case None
      then show ?thesis using Cons.IH False c by simp
    next
      case (Some ij)
      then obtain i j where ij: "common_path (m4, m6) (t4, t6) ss = Some (i, j)" by (cases ij) simp
      then obtain a s' b where "ss = a @ s' # b" "(\<forall>s\<in>set a. \<not> (snd (m6 s) \<noteq> MAX_PATHS \<and> snd (t6 s) \<noteq> MAX_PATHS) \<and> \<not> (snd (m4 s) \<noteq> MAX_PATHS \<and> snd (t4 s) \<noteq> MAX_PATHS)) \<and>
       (if snd (m6 s') \<noteq> MAX_PATHS \<and> snd (t6 s') \<noteq> MAX_PATHS then i = snd (m6 s') \<and> j = snd (t6 s')
        else snd (m4 s') \<noteq> MAX_PATHS \<and> snd (t4 s') \<noteq> MAX_PATHS \<and> i = snd (m4 s') \<and> j = snd (t4 s'))"
        using Cons.IH by auto
      then show ?thesis unfolding c ij using False
        by (simp only: option.case split_conv, intro exI [of _ "s # a"] exI [of _ s'] exI [of _ b]) auto
    qed
  qed
qed simp

text \<open>An entry of a table.\<close>

definition calm :: "path_store \<Rightarrow> peer \<Rightarrow> u64 \<Rightarrow> bool" where
  "calm h p now \<longleftrightarrow>
     (\<forall>q\<in>set (known_paths (pr_paths p)). p_latency (h q) \<le> 0xffff \<and> 0 \<le> sint (now - p_lastIn (h q)))"

lemma table_entry:
  assumes ok: "slots_ok (pr_paths p)"
  shows "snd (best_where (in_scope h fam sc) h now (pr_paths p) 0 (2147483647, MAX_PATHS)) \<noteq> MAX_PATHS \<longleftrightarrow> reaches h now p fam sc"
    "snd (best_where (in_scope h fam sc) h now (pr_paths p) 0 (2147483647, MAX_PATHS)) = k \<Longrightarrow> k \<noteq> MAX_PATHS \<Longrightarrow>
      best_in_scope h now p fam sc (pr_paths p ! k)"
proof -
  from slots_okE [OF ok] obtain ks rest where s: "pr_paths p = ks @ rest" "\<forall>s\<in>set ks. pp_p s \<noteq> None"
    "\<forall>s\<in>set rest. pp_p s = None" "length ks + length rest = MAX_PATHS" by metis
  have kn: "known_slots (pr_paths p) = ks" unfolding s(1) by (rule known_slots_append [OF s(2,3)])
  let ?k = "snd (best_where (in_scope h fam sc) h now (ks @ rest) 0 (2147483647, MAX_PATHS))"
  let ?val = "\<lambda>s. slot_quality h now s (the (pp_p s))"
  from best_where_spec [OF s(2,3), of "in_scope h fam sc" h now 0 "(2147483647, MAX_PATHS)", unfolded Let_def fst_conv snd_conv]
  have c: "(?k = MAX_PATHS \<and> (\<forall>t\<in>set ks. in_scope h fam sc t \<longrightarrow> 2147483647 < ?val t)) \<or>
      (?k < length ks \<and> in_scope h fam sc (ks ! ?k) \<and> ?val (ks ! ?k) \<le> 2147483647 \<and>
       (\<forall>t\<in>set ks. in_scope h fam sc t \<longrightarrow> ?val (ks ! ?k) \<le> ?val t))"
    by auto
  show "snd (best_where (in_scope h fam sc) h now (pr_paths p) 0 (2147483647, MAX_PATHS)) \<noteq> MAX_PATHS \<longleftrightarrow> reaches h now p fam sc"
    using c s(4) unfolding reaches_def kn unfolding s(1) by (auto simp flip: not_le dest: nth_mem)
  show "snd (best_where (in_scope h fam sc) h now (pr_paths p) 0 (2147483647, MAX_PATHS)) = k \<Longrightarrow> k \<noteq> MAX_PATHS \<Longrightarrow>
      best_in_scope h now p fam sc (pr_paths p ! k)"
    using c s(4) unfolding best_in_scope_def kn unfolding s(1) by (auto simp: nth_append)
qed

lemma reaches_calm:
  assumes ok: "slots_ok (pr_paths p)" and c: "calm h p now"
  shows "reaches h now p fam sc \<longleftrightarrow> (\<exists>s\<in>set (known_slots (pr_paths p)). in_scope h fam sc s)"
proof -
  from slots_okE [OF ok] obtain ks rest where s: "pr_paths p = ks @ rest" "\<forall>s\<in>set ks. pp_p s \<noteq> None"
    "\<forall>s\<in>set rest. pp_p s = None" "known_paths (pr_paths p) = map (the \<circ> pp_p) ks"
    "\<forall>s\<in>set ks \<union> set rest. 1 \<le> pp_priority s" by metis
  have kn: "known_slots (pr_paths p) = ks" unfolding s(1) by (rule known_slots_append [OF s(2,3)])
  have "slot_quality h now t (the (pp_p t)) \<le> 2147483647" if "t \<in> set ks" for t
    unfolding slot_quality_def
    by (rule sdiv_le) (use that c s(4,5) path_quality_bound in \<open>auto simp: calm_def\<close>)
  then show ?thesis unfolding reaches_def kn by blast
qed

lemma scope_code_mem: "scope_code s \<in> set [7, 6, 5, 4, 3, 2, 1, 0]"
  by (cases s) (simp_all add: scope_code_def)

text \<open>
  Claim C29: two peers are introduced exactly when they have paths of a common address family and scope
  that score within the bound of the search; then each is told, over its path, the other's address
  there, both in the scope of the highest preference code in common, with IPv6 before IPv4, and over
  the path of least quality per priority each has in it. By these codes a private network comes before
  the global one. When no latency is above the unknown latency and no path was heard of in the
  future, which the code does not see to, every known path counts.
\<close>

theorem peer_introduce_exact:
  assumes p: "slots_ok (pr_paths p)" and q: "slots_ok (pr_paths q)"
  shows "(let (h', out) = introduce e alt p q h; now = pe_now e;
      common = (\<lambda>fam sc. reaches h now p fam sc \<and> reaches h now q fam sc) in
    if \<forall>sc. \<not> common AF_INET sc \<and> \<not> common AF_INET6 sc then out = []
    else \<exists>s t fam sc. fam \<in> {AF_INET, AF_INET6} \<and> best_in_scope h now p fam sc s \<and> best_in_scope h now q fam sc t \<and>
      (\<forall>sc'. common AF_INET sc' \<or> common AF_INET6 sc' \<longrightarrow> sc' \<le> sc) \<and> (fam = AF_INET \<longrightarrow> \<not> common AF_INET6 sc) \<and>
      (let a = SendRendezvous (pr_address p) (the (pp_p s)) (rendezvous_payload (pr_address q) (p_addr (h (the (pp_p t)))));
           b = SendRendezvous (pr_address q) (the (pp_p t)) (rendezvous_payload (pr_address p) (p_addr (h (the (pp_p s))))) in
       out = (if alt then [b, a] else [a, b]))) \<and>
    (\<forall>x\<in>{p, q}. calm h x (pe_now e) \<longrightarrow> (\<forall>fam sc. reaches h (pe_now e) x fam sc \<longleftrightarrow>
      (\<exists>s\<in>set (known_slots (pr_paths x)). in_scope h fam sc s)))"
proof -
  define tab where "tab = (\<lambda>x :: peer. scan_scopes h (pe_now e) (pr_paths x) 0 (empty_table, empty_table))"
  define common where "common = (\<lambda>fam sc. reaches h (pe_now e) p fam sc \<and> reaches h (pe_now e) q fam sc)"
  let ?ss = "[7, 6, 5, 4, 3, 2, 1, 0] :: u32 list"
  have t4: "fst (tab x) sc = best_where (in_scope h AF_INET sc) h (pe_now e) (pr_paths x) 0 (2147483647, MAX_PATHS)"
   and t6: "snd (tab x) sc = best_where (in_scope h AF_INET6 sc) h (pe_now e) (pr_paths x) 0 (2147483647, MAX_PATHS)" for x sc
    by (simp_all add: tab_def scan_scopes_where empty_table_def)
  have e4: "snd (fst (tab x) sc) \<noteq> MAX_PATHS \<longleftrightarrow> reaches h (pe_now e) x AF_INET sc"
      "snd (fst (tab x) sc) = k \<Longrightarrow> k \<noteq> MAX_PATHS \<Longrightarrow> best_in_scope h (pe_now e) x AF_INET sc (pr_paths x ! k)"
    if "slots_ok (pr_paths x)" for x sc k using table_entry [OF that] unfolding t4 by blast+
  have e6: "snd (snd (tab x) sc) \<noteq> MAX_PATHS \<longleftrightarrow> reaches h (pe_now e) x AF_INET6 sc"
      "snd (snd (tab x) sc) = k \<Longrightarrow> k \<noteq> MAX_PATHS \<Longrightarrow> best_in_scope h (pe_now e) x AF_INET6 sc (pr_paths x ! k)"
    if "slots_ok (pr_paths x)" for x sc k using table_entry [OF that] unfolding t6 by blast+
  have c4: "common AF_INET sc \<longleftrightarrow> snd (fst (tab p) sc) \<noteq> MAX_PATHS \<and> snd (fst (tab q) sc) \<noteq> MAX_PATHS"
   and c6: "common AF_INET6 sc \<longleftrightarrow> snd (snd (tab p) sc) \<noteq> MAX_PATHS \<and> snd (snd (tab q) sc) \<noteq> MAX_PATHS" for sc
    using e4(1) [OF p] e4(1) [OF q] e6(1) [OF p] e6(1) [OF q] by (auto simp: common_def)
  have mem: "sc \<in> set ?ss" if "common AF_INET sc \<or> common AF_INET6 sc" for sc
    using that scope_code_mem by (auto simp only: common_def reaches_def in_scope_def split: option.splits)
  note sp = common_path_spec [where ?m4.0 = "fst (tab p)" and ?m6.0 = "snd (tab p)" and ?t4.0 = "fst (tab q)" and ?t6.0 = "snd (tab q)" and ss = ?ss, unfolded prod.collapse c4 [symmetric] c6 [symmetric]]
  have intro_def: "introduce e alt p q h = (case common_path (tab p) (tab q) ?ss of None \<Rightarrow> (h, [])
      | Some (i, j) \<Rightarrow>
          (let mine = slot_ref p i; theirs = slot_ref q j;
               a = SendRendezvous (pr_address p) mine (rendezvous_payload (pr_address q) (p_addr (h theirs)));
               b = SendRendezvous (pr_address q) theirs (rendezvous_payload (pr_address p) (p_addr (h mine))) in
           (send_on e mine (send_on e theirs h), if alt then [b, a] else [a, b])))"
    by (simp add: introduce_def tab_def)
  have calm: "\<forall>x\<in>{p, q}. calm h x (pe_now e) \<longrightarrow> (\<forall>fam sc. reaches h (pe_now e) x fam sc \<longleftrightarrow>
      (\<exists>s\<in>set (known_slots (pr_paths x)). in_scope h fam sc s))"
    using reaches_calm [OF p] reaches_calm [OF q] by blast
  show ?thesis
  proof (cases "common_path (tab p) (tab q) ?ss")
    case None
    then have "\<forall>sc. \<not> common AF_INET sc \<and> \<not> common AF_INET6 sc" using sp mem by (metis (no_types, lifting) option.case(1))
    then show ?thesis using None calm by (simp add: intro_def common_def)
  next
    case (Some ij)
    then obtain i j where ij: "common_path (tab p) (tab q) ?ss = Some (i, j)" by (cases ij) simp
    from sp [unfolded ij option.case split_conv] obtain as sc bs where
      sc: "?ss = as @ sc # bs" "\<forall>s\<in>set as. \<not> common AF_INET6 s \<and> \<not> common AF_INET s"
        "if common AF_INET6 sc then i = snd (snd (tab p) sc) \<and> j = snd (snd (tab q) sc)
         else common AF_INET sc \<and> i = snd (fst (tab p) sc) \<and> j = snd (fst (tab q) sc)"
      unfolding c4 c6 by (auto split: if_splits)
    have sorted: "sorted_wrt (\<ge>) ?ss" by simp
    have high: "sc' \<le> sc" if "common AF_INET sc' \<or> common AF_INET6 sc'" for sc'
    proof -
      have "sc' \<in> set (sc # bs)" using mem [OF that] sc(1,2) that by (metis Un_iff set_append)
      moreover have "\<forall>x\<in>set bs. x \<le> sc" using sorted unfolding sc(1) by (simp add: sorted_wrt_append)
      ultimately show ?thesis by auto
    qed
    define fam where "fam = (if common AF_INET6 sc then AF_INET6 else AF_INET)"
    have ne: "AF_INET6 \<noteq> AF_INET" by (simp add: AF_INET_def AF_INET6_def)
    have any: "common fam sc" "fam = AF_INET \<longrightarrow> \<not> common AF_INET6 sc" using sc(3) ne by (auto simp: fam_def split: if_splits)
    have S: "best_in_scope h (pe_now e) p fam sc (pr_paths p ! i)"
      and T: "best_in_scope h (pe_now e) q fam sc (pr_paths q ! j)"
      using sc(3) e6(2) [OF p refl, of sc] e6(2) [OF q refl, of sc] e4(2) [OF p refl, of sc] e4(2) [OF q refl, of sc] c4 [of sc] c6 [of sc]
      by (auto simp: fam_def split: if_splits)
    have hi: "\<forall>sc'. common AF_INET sc' \<or> common AF_INET6 sc' \<longrightarrow> sc' \<le> sc" using high by blast
    have nn: "\<not> (\<forall>sc. \<not> common AF_INET sc \<and> \<not> common AF_INET6 sc)" using any(1) by (auto simp: fam_def split: if_splits)
    have fm: "fam \<in> {AF_INET, AF_INET6}" by (simp add: fam_def)
    have I: "let a = SendRendezvous (pr_address p) (the (pp_p (pr_paths p ! i))) (rendezvous_payload (pr_address q) (p_addr (h (the (pp_p (pr_paths q ! j))))));
             b = SendRendezvous (pr_address q) (the (pp_p (pr_paths q ! j))) (rendezvous_payload (pr_address p) (p_addr (h (the (pp_p (pr_paths p ! i)))))) in
         snd (introduce e alt p q h) = (if alt then [b, a] else [a, b])"
      unfolding intro_def ij by (simp add: Let_def slot_ref_def)
    show ?thesis
      unfolding Let_def [of "introduce e alt p q h"] Let_def [of "pe_now e"]
        Let_def [of "\<lambda>fam sc. reaches h (pe_now e) p fam sc \<and> reaches h (pe_now e) q fam sc"]
        common_def [symmetric] Let_def [of common] case_prod_beta if_not_P [OF nn]
      by (intro conjI [OF _ calm], rule exI [of _ "pr_paths p ! i"], rule exI [of _ "pr_paths q ! j"], rule exI [of _ fam], rule exI [of _ sc])
        (intro conjI fm S T hi any(2) I)
  qed
qed

theorem peer_introduce_exact_witness:
  "length (snd (introduce demo_env True (demo_peer\<lparr>pr_paths := demo_slots\<rparr>)
     (demo_peer\<lparr>pr_id := \<lparr>id_address = addr_of 9, id_pub = replicate 64 1, id_priv = None\<rparr>, pr_paths := demo_slots\<rparr>) demo_store)) = 2"
proof -
  let ?p = "demo_peer\<lparr>pr_paths := demo_slots\<rparr>"
  let ?q = "demo_peer\<lparr>pr_id := \<lparr>id_address = addr_of 9, id_pub = replicate 64 1, id_priv = None\<rparr>, pr_paths := demo_slots\<rparr>"
  have ok: "slots_ok (pr_paths ?p)" "slots_ok (pr_paths ?q)" using demo_slots_ok by simp_all
  have calm: "calm demo_store ?p (pe_now demo_env)" "calm demo_store ?q (pe_now demo_env)"
    by (simp_all add: calm_def demo_store_def path_new_def demo_env_def)
  have fam: "ss_family (inet_set [10, 0, 0, 1] 4 9993) = AF_INET"
    using inet_set_fields(1) [of "[10, 0, 0, 1]" 9993] by (simp add: inet_isV4_def)
  have "in_scope demo_store AF_INET (scope_code (inet_ipScope (inet_set [10, 0, 0, 1] 4 9993))) (demo_slots ! 0)"
    using fam by (simp add: in_scope_def demo_slots_def demo_store_def path_new_def)
  moreover have "demo_slots ! 0 \<in> set (known_slots demo_slots)" using demo_slots_ok(2) by (simp add: demo_slots_def)
  ultimately have "\<exists>sc. reaches demo_store (pe_now demo_env) ?p AF_INET sc \<and> reaches demo_store (pe_now demo_env) ?q AF_INET sc"
    using reaches_calm [OF ok(1) calm(1)] reaches_calm [OF ok(2) calm(2)] by auto
  then show ?thesis using peer_introduce_exact [OF ok, where e = demo_env and h = demo_store and alt = True]
    by (auto simp: Let_def split: prod.splits if_splits)
qed

section \<open>Rate gates\<close>

interpretation credentials_gate: rate_gate rateGateCredentialsReceived pr_lastCredentials CREDENTIALS_RATE_LIMIT
  by unfold_locales (simp_all add: rateGateCredentialsReceived_def CREDENTIALS_RATE_LIMIT_def)

interpretation request_gate: rate_gate rateGateRequestCredentials pr_lastCredRequest GENERAL_RATE_LIMIT
  by unfold_locales (simp_all add: rateGateRequestCredentials_def GENERAL_RATE_LIMIT_def)

interpretation whois_gate: rate_gate rateGateInboundWhoisRequest pr_lastWhois WHOIS_RATE_LIMIT
  by unfold_locales (simp_all add: rateGateInboundWhoisRequest_def WHOIS_RATE_LIMIT_def)

text \<open>
  Whenever requests come at times that do not go back, the gates for ECHO, WHOIS, credentials
  and credential requests let through at most \<open>n\<close> of them in any \<open>n\<close> periods.
\<close>

lemma rate_gates_bound:
  assumes "forward 0 ts" "\<forall>t\<in>set ts. lo \<le> sint t \<and> sint t < lo + n * sint period" "0 \<le> n"
  shows "(period = GENERAL_RATE_LIMIT div 6 \<and> 0 \<le> sint (p_lastEcho q) \<longrightarrow> int (length (gate_run rateGateEchoRequest ts q)) \<le> n) \<and>
    (period = WHOIS_RATE_LIMIT \<and> 0 \<le> sint (pr_lastWhois p) \<longrightarrow> int (length (gate_run rateGateInboundWhoisRequest ts p)) \<le> n) \<and>
    (period = CREDENTIALS_RATE_LIMIT \<and> 0 \<le> sint (pr_lastCredentials p) \<longrightarrow>
      int (length (gate_run rateGateCredentialsReceived ts p)) \<le> n) \<and>
    (period = GENERAL_RATE_LIMIT \<and> 0 \<le> sint (pr_lastCredRequest p) \<longrightarrow>
      int (length (gate_run rateGateRequestCredentials ts p)) \<le> n)"
  using echo_gate.run_bounded [of q 0 ts lo n] whois_gate.run_bounded [of p 0 ts lo n]
    credentials_gate.run_bounded [of p 0 ts lo n] request_gate.run_bounded [of p 0 ts lo n] assms
  by blast

lemma rate_gates_bound_witness:
  "int (length (gate_run rateGateInboundWhoisRequest [1000, 1010, 1050, 1099] demo_peer)) \<le> 1"
proof -
  have "forward 0 [1000, 1010, 1050, 1099]" by simp
  moreover have "\<forall>t\<in>set [1000, 1010, 1050, 1099 :: u64]. 1000 \<le> sint t \<and> sint t < 1000 + 1 * sint WHOIS_RATE_LIMIT"
    by (simp add: WHOIS_RATE_LIMIT_def)
  moreover have "0 \<le> sint (pr_lastWhois demo_peer)" by (simp add: demo_peer_def peer_new_def demo_env_def)
  ultimately show ?thesis
    using rate_gates_bound [of "[1000, 1010, 1050, 1099]" 1000 1 WHOIS_RATE_LIMIT, where p = demo_peer] by simp
qed

text \<open>
  The gate for pushed paths counts a burst instead: after a pause it lets the first eight pushes through
  and none after them, however long pushes keep coming less than 30 seconds apart (up to the
  wrap of the counter).
\<close>

fun burst :: "int \<Rightarrow> u64 list \<Rightarrow> bool" where
  "burst b [] \<longleftrightarrow> True"
| "burst b (t # ts) \<longleftrightarrow> b \<le> sint t \<and> sint t \<le> b + sint CUTOFF_TIME \<and> burst (sint t) ts"

lemma push_gate_burst:
  assumes "burst (sint (pr_lastPushReceive p)) ts" "0 \<le> sint (pr_lastPushReceive p)"
    and "unat (pr_pushCutoff p) + length ts < 2 ^ 32"
  shows "gate_run rateGatePushDirectPaths ts p = take (7 - unat (pr_pushCutoff p)) ts"
  using assms
proof (induction ts arbitrary: p)
  case (Cons t ts)
  have d: "sint (t - pr_lastPushReceive p) = sint t - sint (pr_lastPushReceive p)"
    by (rule sint_diff) (use Cons.prems in auto)
  have n: "unat (pr_pushCutoff p + 1) = unat (pr_pushCutoff p) + 1"
    using Cons.prems(3) by (simp add: unat_word_ariths)
  let ?p = "p\<lparr>pr_pushCutoff := pr_pushCutoff p + 1, pr_lastPushReceive := t\<rparr>"
  have g: "rateGatePushDirectPaths t p = (unat (pr_pushCutoff p) < 7, ?p)"
    using Cons.prems(1) d n
    by (simp add: rateGatePushDirectPaths_def Let_def word_sle_eq word_less_nat_alt CUTOFF_LIMIT_def)
  have "gate_run rateGatePushDirectPaths ts ?p = take (7 - unat (pr_pushCutoff ?p)) ts"
    by (rule Cons.IH) (use Cons.prems n in auto)
  moreover have "7 - unat (pr_pushCutoff p) = Suc (6 - unat (pr_pushCutoff p))" if "unat (pr_pushCutoff p) < 7" using that by simp
  ultimately show ?case using g n by (cases "unat (pr_pushCutoff p) < 7") (auto simp: not_less)
qed simp

end
