(* ===== verification/ZT_Topology.thy ===== *)
theory ZT_Topology
  imports ZT_Peer ZT_World ZT_Hashtable
begin

text \<open>
  \<^verbatim>\<open>node/Topology.hpp\<close> and \<^verbatim>\<open>node/Topology.cpp\<close>: the database of peers, physical paths, the planet
  and the moons, the upstreams derived from them, world updates, the dynamic-DNS endpoints,
  and the configuration of physical paths. Tables are those of the theory of hash tables; an
  entry of the table of peers is a \<^verbatim>\<open>SharedPtr\<close> and may be null (\<open>None\<close>), and dereferencing null is
  \<open>UndefinedBehaviour\<close>. What the host stores and returns is in the environment and in a list of
  events. An operation that can throw gives the state it leaves beside its result.
\<close>

section \<open>State\<close>

datatype state_object = OBJECT_PLANET | OBJECT_MOON | OBJECT_PEER

datatype topo_out = PutObject state_object u64 "u8 list" | DelObject state_object u64 | OfPeer peer_out

record phys_config =
  pc_trustedPathId :: u64
  pc_mtu :: u32

record topology =
  tp_planet :: world
  tp_moons :: "world list"
  tp_moonSeeds :: "(u64 \<times> address) list"
  tp_upstreams :: "address list"
  tp_amUpstream :: bool
  tp_peers :: "(address, peer option) htable"
  tp_paths :: "(path_key, nat) htable"
  tp_store :: path_store
  tp_nextRef :: nat
  tp_config :: "(inet \<times> phys_config) list"

text \<open>
  \<open>te_alloc\<close> says for which sizes memory is available when a table grows, \<open>te_peerCap\<close> is the
  platform's \<^verbatim>\<open>ZT_PEER_MAX_SERIALIZED_STATE_SIZE\<close>, \<open>te_get\<close> the host's stored objects and
  \<open>te_references\<close> the reference count of a path object.
\<close>

record 's topo_env =
  te_peer :: peer_env
  te_crypto :: "'s crypto"
  te_alloc :: "nat \<Rightarrow> bool"
  te_peerCap :: nat
  te_get :: "state_object \<Rightarrow> u64 \<Rightarrow> u8 list"
  te_references :: "nat \<Rightarrow> u32"

abbreviation te_self :: "'s topo_env \<Rightarrow> identity" where "te_self e \<equiv> pe_identity (te_peer e)"

definition hc_path :: "path_key \<Rightarrow> nat" where
  "hc_path k = unat (path_key_hash k)"

abbreviation peer_at :: "topology \<Rightarrow> address \<Rightarrow> peer option option" where
  "peer_at t a \<equiv> ht_get hc_addr (tp_peers t) a"

abbreviation set_peer :: "'s topo_env \<Rightarrow> address \<Rightarrow> peer option \<Rightarrow> topology \<Rightarrow> topology" where
  "set_peer e a p t \<equiv> t\<lparr>tp_peers := ht_set (te_alloc e) hc_addr a p (tp_peers t)\<rparr>"

abbreviation erase_peer :: "address \<Rightarrow> topology \<Rightarrow> topology" where
  "erase_peer a t \<equiv> t\<lparr>tp_peers := fst (ht_erase hc_addr a (tp_peers t))\<rparr>"

text \<open>A member access through a pointer.\<close>

definition deref :: "'a option \<Rightarrow> 'a res" where
  "deref p = (case p of None \<Rightarrow> Inl UndefinedBehaviour | Some x \<Rightarrow> Inr x)"

section \<open>Upstreams\<close>

text \<open>
  One root of \<^verbatim>\<open>_memoizeUpstreams\<close>: this node itself, an upstream already listed, or a new one,
  for which a peer is made when there is none. When the key agreement fails the constructor
  throws and the null entry stays.
\<close>

definition memo_root :: "'s topo_env \<Rightarrow> root \<Rightarrow> topology \<Rightarrow> topology \<times> unit res" where
  "memo_root e r t =
     (let i = ro_identity r; a = id_address i in
      if identity_eq i (te_self e) then (t\<lparr>tp_amUpstream := True\<rparr>, Inr ())
      else if a \<in> set (tp_upstreams t) then (t, Inr ())
      else
        (let t = t\<lparr>tp_upstreams := tp_upstreams t @ [a], tp_peers := ht_index (te_alloc e) hc_addr None a (tp_peers t)\<rparr> in
         case peer_at t a of
           Some (Some p) \<Rightarrow> (t, Inr ())
         | _ \<Rightarrow> (case peer_new (te_peer e) i of Inl x \<Rightarrow> (t, Inl x) | Inr p \<Rightarrow> (set_peer e a (Some p) t, Inr ()))))"

fun memo_roots :: "'s topo_env \<Rightarrow> root list \<Rightarrow> topology \<Rightarrow> topology \<times> unit res" where
  "memo_roots e [] t = (t, Inr ())"
| "memo_roots e (r # rs) t =
     (case memo_root e r t of (t', Inl x) \<Rightarrow> (t', Inl x) | (t', Inr _) \<Rightarrow> memo_roots e rs t')"

definition memoizeUpstreams :: "'s topo_env \<Rightarrow> topology \<Rightarrow> topology \<times> unit res" where
  "memoizeUpstreams e t =
     (case memo_roots e (w_roots (tp_planet t) @ concat (map w_roots (tp_moons t)))
         (t\<lparr>tp_upstreams := [], tp_amUpstream := False\<rparr>) of
        (t', Inl x) \<Rightarrow> (t', Inl x)
      | (t', Inr _) \<Rightarrow> (t'\<lparr>tp_upstreams := sort (tp_upstreams t')\<rparr>, Inr ()))"

text \<open>Writing the host's copy of a world; any exception is ignored.\<close>

definition put_world :: "world \<Rightarrow> topo_out list" where
  "put_world w =
     (case world_serialize False w (buf_new (replicate WORLD_MAX 0)) of
        Inl _ \<Rightarrow> []
      | Inr b \<Rightarrow> [PutObject (if w_type w = TYPE_PLANET then OBJECT_PLANET else OBJECT_MOON) (w_id w) (bdata b)])"

definition store_and_memoize :: "'s topo_env \<Rightarrow> world \<Rightarrow> topology \<Rightarrow> topology \<times> topo_out list \<times> bool res" where
  "store_and_memoize e w t =
     (case memoizeUpstreams e t of
        (t', Inl x) \<Rightarrow> (t', put_world w, Inl x)
      | (t', Inr _) \<Rightarrow> (t', put_world w, Inr True))"

section \<open>World updates\<close>

text \<open>The first world of a list with an id, by its index.\<close>

fun find_world :: "u64 \<Rightarrow> world list \<Rightarrow> nat option" where
  "find_world i [] = None"
| "find_world i (w # ws) = (if w_id w = i then Some 0 else map_option Suc (find_world i ws))"

text \<open>The first seed that names the moon and one of its roots is used up.\<close>

fun use_seed :: "world \<Rightarrow> (u64 \<times> address) list \<Rightarrow> (u64 \<times> address) list option" where
  "use_seed w [] = None"
| "use_seed w ((i, a) # ss) =
     (if i = w_id w \<and> a \<in> (id_address \<circ> ro_identity) ` set (w_roots w) then Some ss
      else map_option ((#) (i, a)) (use_seed w ss))"

definition addWorld :: "'s topo_env \<Rightarrow> world \<Rightarrow> bool \<Rightarrow> topology \<Rightarrow> topology \<times> topo_out list \<times> bool res" where
  "addWorld e w always t =
     (case w_type w of
        TYPE_NULL \<Rightarrow> (t, [], Inr False)
      | TYPE_PLANET \<Rightarrow>
          (case shouldBeReplacedBy (te_crypto e) (tp_planet t) w of
             Inl x \<Rightarrow> (t, [], Inl x)
           | Inr False \<Rightarrow> (t, [], Inr False)
           | Inr True \<Rightarrow> store_and_memoize e w (t\<lparr>tp_planet := w\<rparr>))
      | TYPE_MOON \<Rightarrow>
          (case find_world (w_id w) (tp_moons t) of
             Some k \<Rightarrow>
               (case shouldBeReplacedBy (te_crypto e) (tp_moons t ! k) w of
                  Inl x \<Rightarrow> (t, [], Inl x)
                | Inr False \<Rightarrow> (t, [], Inr False)
                | Inr True \<Rightarrow> store_and_memoize e w (t\<lparr>tp_moons := (tp_moons t)[k := w]\<rparr>))
           | None \<Rightarrow>
               if always then store_and_memoize e w (t\<lparr>tp_moons := tp_moons t @ [w]\<rparr>)
               else (case use_seed w (tp_moonSeeds t) of
                       None \<Rightarrow> (t, [], Inr False)
                     | Some ss \<Rightarrow> store_and_memoize e w (t\<lparr>tp_moonSeeds := ss, tp_moons := tp_moons t @ [w]\<rparr>))))"

text \<open>The constructor of a \<^verbatim>\<open>Buffer\<close> from the host's bytes, and a stored world read back.\<close>

definition buf_of :: "nat \<Rightarrow> u8 list \<Rightarrow> zbuf res" where
  "buf_of cap bs = buf_copyFrom (buf_new (replicate cap 0)) bs (of_nat (length bs))"

definition load_world :: "u8 list \<Rightarrow> world option" where
  "load_world bs =
     (case bind_res (buf_of WORLD_MAX bs) (\<lambda>b. world_deserialize b 0) of Inl _ \<Rightarrow> None | Inr (w, _) \<Rightarrow> Some w)"

definition topology_empty :: topology where
  "topology_empty = \<lparr>tp_planet = world_nil, tp_moons = [], tp_moonSeeds = [], tp_upstreams = [], tp_amUpstream = False,
     tp_peers = ht_new 64, tp_paths = ht_new 64, tp_store = (\<lambda>_. path_default), tp_nextRef = 0, tp_config = []\<rparr>"

text \<open>The constructor: the cached planet, when there is one that parses; exceptions are ignored.\<close>

definition topology_new :: "'s topo_env \<Rightarrow> topology \<times> topo_out list" where
  "topology_new e =
     (let bs = te_get e OBJECT_PLANET 0 in
      if bs = [] then (topology_empty, [])
      else (case load_world bs of
              None \<Rightarrow> (topology_empty, [])
            | Some w \<Rightarrow> (case addWorld e w False topology_empty of (t, out, _) \<Rightarrow> (t, out))))"

definition addMoon :: "'s topo_env \<Rightarrow> u64 \<Rightarrow> address \<Rightarrow> topology \<Rightarrow> topology \<times> topo_out list" where
  "addMoon e i seed t =
     (let bs = te_get e OBJECT_MOON i;
          seeded = (\<lambda>t. if addr_bool seed \<and> (i, seed) \<notin> set (tp_moonSeeds t)
            then t\<lparr>tp_moonSeeds := tp_moonSeeds t @ [(i, seed)]\<rparr> else t) in
      case (if bs = [] then None else load_world bs) of
        Some w \<Rightarrow>
          if w_type w = TYPE_MOON \<and> w_id w = i then
            (case addWorld e w True t of (t', out, Inr _) \<Rightarrow> (t', out) | (t', out, Inl _) \<Rightarrow> (seeded t', out))
          else (seeded t, [])
      | None \<Rightarrow> (seeded t, []))"

definition removeMoon :: "'s topo_env \<Rightarrow> u64 \<Rightarrow> topology \<Rightarrow> topology \<times> topo_out list \<times> unit res" where
  "removeMoon e i t =
     (let t' = t\<lparr>tp_moons := filter (\<lambda>w. w_id w \<noteq> i) (tp_moons t),
                 tp_moonSeeds := filter (\<lambda>s. fst s \<noteq> i) (tp_moonSeeds t)\<rparr>;
          del = map (\<lambda>_. DelObject OBJECT_MOON i) (filter (\<lambda>w. w_id w = i) (tp_moons t)) in
      case memoizeUpstreams e t' of (t'', r) \<Rightarrow> (t'', del, r))"

section \<open>Dynamic endpoints\<close>

definition isPrivateIPv4 :: "inet \<Rightarrow> bool" where
  "isPrivateIPv4 a =
     (if \<not> inet_isV4 a then False
      else (let b0 = ip4_b a ! 0; b1 = ip4_b a ! 1 in
        b0 = 10 \<or> (b0 = 172 \<and> 16 \<le> b1 \<and> b1 \<le> 31) \<or> (b0 = 192 \<and> b1 = 168) \<or> (b0 = 169 \<and> b1 = 254) \<or>
        (b0 = 100 \<and> b1 AND 0xC0 = 0x40)))"

definition same_endpoint :: "inet \<Rightarrow> inet \<Rightarrow> bool" where
  "same_endpoint a b \<longleftrightarrow> inet_ipsEqual a b \<and> inet_port a = inet_port b"

definition merge_endpoint :: "u32 \<Rightarrow> inet \<Rightarrow> inet list \<Rightarrow> inet list" where
  "merge_endpoint rootPort e eps =
     (if \<not> inet_isV4 e then eps
      else (let x = (if 0 < inet_port e then e else inet_set (ip4_b e) 4 rootPort) in
        if \<exists>n\<in>set eps. same_endpoint n x then eps else eps @ [x]))"

definition mergeRootEndpoints :: "root \<Rightarrow> inet list \<Rightarrow> inet list" where
  "mergeRootEndpoints r eps =
     (let rootPort = (case ro_endpoints r of [] \<Rightarrow> 9994 | a # _ \<Rightarrow> inet_port a) in
      fold (merge_endpoint rootPort) eps (filter (\<lambda>a. inet_isV4 a \<and> isPrivateIPv4 a) (ro_endpoints r)))"

definition sameEndpoints :: "root \<Rightarrow> inet list \<Rightarrow> bool" where
  "sameEndpoints r eps = list_all2 same_endpoint (ro_endpoints r) eps"

text \<open>
  The common part of \<open>setPlanetEndpoints\<close> and \<open>setMoonEndpoints\<close>: the refreshed world, when its first
  root's endpoints change.
\<close>

definition refreshed :: "world \<Rightarrow> inet list \<Rightarrow> world option" where
  "refreshed w eps =
     (case w_roots w of
        [] \<Rightarrow> None
      | r # _ \<Rightarrow>
          (let new = mergeRootEndpoints r eps in
           if new = [] then None else if sameEndpoints r new then None else Some (setRootStableEndpoints 0 new w)))"

definition relink :: "'s topo_env \<Rightarrow> world \<Rightarrow> state_object \<Rightarrow> topology \<Rightarrow> topology \<times> topo_out list \<times> bool res" where
  "relink e w ob t =
     (case store_and_memoize e w (erase_peer (id_address (ro_identity (hd (w_roots w)))) t) of
        (t', out, r) \<Rightarrow> (t', map (\<lambda>x. case x of PutObject _ i bs \<Rightarrow> PutObject ob i bs | y \<Rightarrow> y) out, r))"

definition setPlanetEndpoints :: "'s topo_env \<Rightarrow> inet list \<Rightarrow> topology \<Rightarrow> topology \<times> topo_out list \<times> bool res" where
  "setPlanetEndpoints e eps t =
     (if \<not> world_bool (tp_planet t) then (t, [], Inr False)
      else (case refreshed (tp_planet t) eps of
              None \<Rightarrow> (t, [], Inr False)
            | Some w \<Rightarrow> relink e w OBJECT_PLANET (t\<lparr>tp_planet := w\<rparr>)))"

definition setMoonEndpoints :: "'s topo_env \<Rightarrow> u64 \<Rightarrow> inet list \<Rightarrow> topology \<Rightarrow> topology \<times> topo_out list \<times> bool res" where
  "setMoonEndpoints e i eps t =
     (case find_world i (tp_moons t) of
        None \<Rightarrow> (t, [], Inr False)
      | Some k \<Rightarrow>
          (case refreshed (tp_moons t ! k) eps of
             None \<Rightarrow> (t, [], Inr False)
           | Some w \<Rightarrow> relink e w OBJECT_MOON (t\<lparr>tp_moons := (tp_moons t)[k := w]\<rparr>)))"

section \<open>Peers\<close>

definition addPeer :: "'s topo_env \<Rightarrow> peer \<Rightarrow> topology \<Rightarrow> topology \<times> peer" where
  "addPeer e p t =
     (let t = t\<lparr>tp_peers := ht_index (te_alloc e) hc_addr None (pr_address p) (tp_peers t)\<rparr> in
      case peer_at t (pr_address p) of
        Some (Some q) \<Rightarrow> (t, q)
      | _ \<Rightarrow> (set_peer e (pr_address p) (Some p) t, p))"

text \<open>
  \<open>getPeer\<close>: not for the node itself; from memory; else loaded from the cache, and then what is
  returned is null even when loading succeeded. An exception while reading is ignored.
\<close>

definition getPeer :: "'s topo_env \<Rightarrow> address \<Rightarrow> topology \<Rightarrow> topology \<times> topo_out list \<times> peer option" where
  "getPeer e a t =
     (if a = id_address (te_self e) then (t, [], None)
      else (case peer_at t a of
        Some p \<Rightarrow> (t, [], p)
      | None \<Rightarrow>
          (let bs = te_get e OBJECT_PEER (addr_int a) in
           if bs = [] then (t, [], None)
           else (case buf_of (te_peerCap e) bs of
             Inl _ \<Rightarrow> (t, [], None)
           | Inr b \<Rightarrow>
               (case deserializeFromCache (te_peer e) b of
                  None \<Rightarrow> (erase_peer a (set_peer e a None t), [], None)
                | Some (p, out) \<Rightarrow> (set_peer e a (Some p) t, map OfPeer out, None))))))"

definition getIdentity :: "'s topo_env \<Rightarrow> address \<Rightarrow> topology \<Rightarrow> identity res" where
  "getIdentity e a t =
     (if a = id_address (te_self e) then Inr (te_self e)
      else (case peer_at t a of None \<Rightarrow> Inr identity_nil | Some p \<Rightarrow> bind_res (deref p) (\<lambda>p. Inr (pr_id p))))"

definition getPeerNoCache :: "address \<Rightarrow> topology \<Rightarrow> peer option" where
  "getPeerNoCache a t = (case peer_at t a of Some p \<Rightarrow> p | None \<Rightarrow> None)"

text \<open>The upstream of least relay quality, the last of equals.\<close>

fun best_upstream :: "u64 \<Rightarrow> topology \<Rightarrow> address list \<Rightarrow> u32 \<Rightarrow> peer option \<Rightarrow> peer option res" where
  "best_upstream now t [] bestq best = Inr best"
| "best_upstream now t (a # as) bestq best =
     (case peer_at t a of
        None \<Rightarrow> best_upstream now t as bestq best
      | Some p \<Rightarrow> bind_res (deref p) (\<lambda>p.
          (let q = relayQuality (tp_store t) p now in
           if q \<le> bestq then best_upstream now t as q (Some p) else best_upstream now t as bestq best)))"

definition getUpstreamPeer :: "u64 \<Rightarrow> topology \<Rightarrow> peer option res" where
  "getUpstreamPeer now t = best_upstream now t (tp_upstreams t) (- 1) None"

definition isUpstream :: "identity \<Rightarrow> topology \<Rightarrow> bool" where
  "isUpstream i t \<longleftrightarrow> id_address i \<in> set (tp_upstreams t)"

definition shouldAcceptWorldUpdateFrom :: "address \<Rightarrow> topology \<Rightarrow> bool" where
  "shouldAcceptWorldUpdateFrom a t \<longleftrightarrow> a \<in> set (tp_upstreams t) \<or> a \<in> snd ` set (tp_moonSeeds t)"

datatype peer_role = ROLE_LEAF | ROLE_MOON | ROLE_PLANET

definition topo_role :: "address \<Rightarrow> topology \<Rightarrow> peer_role" where
  "topo_role a t =
     (if a \<in> set (tp_upstreams t) then
        (if a \<in> (id_address \<circ> ro_identity) ` set (w_roots (tp_planet t)) then ROLE_PLANET else ROLE_MOON)
      else ROLE_LEAF)"

text \<open>The roots with this address, of the planet and then of the moons, permit an IP or any.\<close>

definition root_permits :: "address \<Rightarrow> inet \<Rightarrow> root \<Rightarrow> bool" where
  "root_permits a ip r \<longleftrightarrow> id_address (ro_identity r) = a \<and>
     (ro_endpoints r = [] \<or> list_ex (inet_ipsEqual ip) (ro_endpoints r))"

definition isProhibitedEndpoint :: "address \<Rightarrow> inet \<Rightarrow> topology \<Rightarrow> bool" where
  "isProhibitedEndpoint a ip t =
     (if a \<in> set (tp_upstreams t) then
        (if list_ex (root_permits a ip) (w_roots (tp_planet t)) then False
         else if list_ex (\<lambda>w. list_ex (root_permits a ip) (w_roots w)) (tp_moons t) then False
         else True)
      else False)"

text \<open>\<open>getRootsToContact\<close> fills a table of addresses and endpoints, here an empty one.\<close>

definition contact_root :: "'s topo_env \<Rightarrow> root \<Rightarrow> (address, inet list) htable \<Rightarrow> (address, inet list) htable" where
  "contact_root e r tab =
     (if identity_eq (ro_identity r) (te_self e) then tab
      else
        (let a = id_address (ro_identity r); tab = ht_index (te_alloc e) hc_addr [] a tab;
             ips = (case ht_get hc_addr tab a of Some l \<Rightarrow> l | None \<Rightarrow> []);
             ips' = fold (\<lambda>j l. if \<exists>x\<in>set l. inet_eq x j then l else l @ [j]) (ro_endpoints r) ips in
         ht_set (te_alloc e) hc_addr a ips' tab))"

definition getRootsToContact :: "'s topo_env \<Rightarrow> topology \<Rightarrow> (address, inet list) htable" where
  "getRootsToContact e t =
     fold (\<lambda>s. ht_index (te_alloc e) hc_addr [] (snd s)) (tp_moonSeeds t)
       (fold (contact_root e) (w_roots (tp_planet t) @ concat (map w_roots (tp_moons t))) (ht_new 64))"

definition moonsWanted :: "topology \<Rightarrow> u64 list" where
  "moonsWanted t = fold (\<lambda>s l. if fst s \<in> set l then l else l @ [fst s]) (tp_moonSeeds t) []"

section \<open>Reachability\<close>

fun any_alive :: "u64 \<Rightarrow> topology \<Rightarrow> address list \<Rightarrow> bool res" where
  "any_alive now t [] = Inr False"
| "any_alive now t (a # as) =
     (case peer_at t a of
        None \<Rightarrow> any_alive now t as
      | Some p \<Rightarrow> bind_res (deref p) (\<lambda>p. if hasAlivePath (tp_store t) p now then Inr True else any_alive now t as))"

definition isPlanetReachable :: "u64 \<Rightarrow> topology \<Rightarrow> bool res" where
  "isPlanetReachable now t = any_alive now t (tp_upstreams t)"

definition isWorldReachable :: "u64 \<Rightarrow> u64 \<Rightarrow> topology \<Rightarrow> bool res" where
  "isWorldReachable i now t =
     (let w = (if w_id (tp_planet t) = i then Some (tp_planet t)
               else map_option ((!) (tp_moons t)) (find_world i (tp_moons t))) in
      case w of
        None \<Rightarrow> Inr False
      | Some w \<Rightarrow> any_alive now t (map (id_address \<circ> ro_identity) (w_roots w)))"

section \<open>Maintenance\<close>

definition savePeer :: "'s topo_env \<Rightarrow> topology \<Rightarrow> peer \<Rightarrow> topo_out list" where
  "savePeer e t p =
     (case serializeForCache (tp_store t) p (buf_new (replicate (te_peerCap e) 0)) of
        Inl _ \<Rightarrow> []
      | Inr b \<Rightarrow> [PutObject OBJECT_PEER (addr_int (pr_address p)) (bdata b)])"

text \<open>The destructor saves every peer; a null entry is dereferenced outside the \<open>try\<close> of its caller.\<close>

fun topology_close :: "'s topo_env \<Rightarrow> topology \<Rightarrow> (address \<times> peer option) list \<Rightarrow> topo_out list res" where
  "topology_close e t [] = Inr []"
| "topology_close e t ((a, p) # ps) =
     bind_res (deref p) (\<lambda>p. bind_res (topology_close e t ps) (\<lambda>out. Inr (savePeer e t p @ out)))"

fun count_active :: "u64 \<Rightarrow> topology \<Rightarrow> (address \<times> peer option) list \<Rightarrow> nat res" where
  "count_active now t [] = Inr 0"
| "count_active now t ((a, p) # ps) =
     bind_res (deref p) (\<lambda>p. bind_res (count_active now t ps) (\<lambda>n.
       Inr (if getAppropriatePath (tp_store t) p now False = None then n else n + 1)))"

definition countActive :: "u64 \<Rightarrow> topology \<Rightarrow> nat res" where
  "countActive now t = count_active now t (ht_entries (tp_peers t))"

definition allPeers :: "topology \<Rightarrow> (address \<times> peer option) list" where
  "allPeers t = ht_entries (tp_peers t)"

fun expire_peers :: "'s topo_env \<Rightarrow> u64 \<Rightarrow> (address \<times> peer option) list \<Rightarrow> topology \<Rightarrow> topology \<times> topo_out list \<times> unit res" where
  "expire_peers e now [] t = (t, [], Inr ())"
| "expire_peers e now ((a, p) # ps) t =
     (case p of
        None \<Rightarrow> (t, [], Inl UndefinedBehaviour)
      | Some p \<Rightarrow>
          if \<not> peer_isAlive p now \<and> a \<notin> set (tp_upstreams t) then
            (case expire_peers e now ps (erase_peer a t) of (t', out, r) \<Rightarrow> (t', savePeer e t p @ out, r))
          else expire_peers e now ps t)"

definition expire_paths :: "'s topo_env \<Rightarrow> topology \<Rightarrow> topology" where
  "expire_paths e t =
     fold (\<lambda>(k, r) t. if te_references e r \<le> 1 then t\<lparr>tp_paths := fst (ht_erase hc_path k (tp_paths t))\<rparr> else t)
       (ht_entries (tp_paths t)) t"

definition topo_doPeriodicTasks :: "'s topo_env \<Rightarrow> u64 \<Rightarrow> topology \<Rightarrow> topology \<times> topo_out list \<times> unit res" where
  "topo_doPeriodicTasks e now t =
     (case expire_peers e now (ht_entries (tp_peers t)) t of
        (t', out, Inl x) \<Rightarrow> (t', out, Inl x)
      | (t', out, Inr _) \<Rightarrow> (expire_paths e t', out, Inr ()))"

text \<open>The canonical path object of a socket and an address, made when there is none.\<close>

definition getPath :: "'s topo_env \<Rightarrow> u64 \<Rightarrow> inet \<Rightarrow> topology \<Rightarrow> topology \<times> nat" where
  "getPath e l r t =
     (let k = path_key l r in
      case ht_get hc_path (tp_paths t) k of
        Some p \<Rightarrow> (t, p)
      | None \<Rightarrow> (t\<lparr>tp_paths := ht_set (te_alloc e) hc_path k (tp_nextRef t) (tp_paths t),
                    tp_store := (tp_store t)(tp_nextRef t := path_new l r), tp_nextRef := tp_nextRef t + 1\<rparr>, tp_nextRef t))"

section \<open>Physical path configuration\<close>

definition DEFAULT_PHYSMTU :: u32 where "DEFAULT_PHYSMTU = 1432"
definition MIN_PHYSMTU :: u32 where "MIN_PHYSMTU = 510"
definition MAX_PHYSMTU :: u32 where "MAX_PHYSMTU = 10100 + 224"
definition MAX_CONFIGURABLE_PATHS :: nat where "MAX_CONFIGURABLE_PATHS = 32"

text \<open>The first configured network that contains the address.\<close>

fun config_of :: "inet \<Rightarrow> (inet \<times> phys_config) list \<Rightarrow> phys_config option res" where
  "config_of a [] = Inr None"
| "config_of a ((n, c) # cs) =
     bind_res (inet_containsAddress n a) (\<lambda>b. if b then Inr (Some c) else config_of a cs)"

definition getOutboundPathInfo :: "inet \<Rightarrow> u32 \<times> u64 \<Rightarrow> topology \<Rightarrow> (u32 \<times> u64) res" where
  "getOutboundPathInfo a old t =
     bind_res (config_of a (tp_config t)) (\<lambda>c. Inr (case c of None \<Rightarrow> old | Some c \<Rightarrow> (pc_mtu c, pc_trustedPathId c)))"

definition getOutboundPathMtu :: "inet \<Rightarrow> topology \<Rightarrow> u32 res" where
  "getOutboundPathMtu a t =
     bind_res (config_of a (tp_config t)) (\<lambda>c. Inr (case c of None \<Rightarrow> DEFAULT_PHYSMTU | Some c \<Rightarrow> pc_mtu c))"

definition getOutboundPathTrust :: "inet \<Rightarrow> topology \<Rightarrow> u64 res" where
  "getOutboundPathTrust a t =
     bind_res (config_of a (tp_config t)) (\<lambda>c. Inr (case c of None \<Rightarrow> 0 | Some c \<Rightarrow> pc_trustedPathId c))"

fun path_trusted :: "inet \<Rightarrow> u64 \<Rightarrow> (inet \<times> phys_config) list \<Rightarrow> bool res" where
  "path_trusted a i [] = Inr False"
| "path_trusted a i ((n, c) # cs) =
     (if pc_trustedPathId c = i then
        bind_res (inet_containsAddress n a) (\<lambda>b. if b then Inr True else path_trusted a i cs)
      else path_trusted a i cs)"

definition shouldInboundPathBeTrusted :: "inet \<Rightarrow> u64 \<Rightarrow> topology \<Rightarrow> bool res" where
  "shouldInboundPathBeTrusted a i t = path_trusted a i (tp_config t)"

text \<open>\<^verbatim>\<open>std::map\<close> as the list of its entries in order: insertion, assignment and erasure by \<open>operator<\<close>.\<close>

fun omap_set :: "inet \<Rightarrow> 'v \<Rightarrow> (inet \<times> 'v) list \<Rightarrow> (inet \<times> 'v) list" where
  "omap_set k v [] = [(k, v)]"
| "omap_set k v ((j, w) # m) =
     (if inet_less j k then (j, w) # omap_set k v m
      else if inet_less k j then (k, v) # (j, w) # m
      else (j, v) # m)"

fun omap_erase :: "inet \<Rightarrow> (inet \<times> 'v) list \<Rightarrow> (inet \<times> 'v) list" where
  "omap_erase k [] = []"
| "omap_erase k ((j, w) # m) =
     (if inet_less j k then (j, w) # omap_erase k m
      else if inet_less k j then (j, w) # m
      else m)"

definition clamp_physmtu :: "u32 \<Rightarrow> u32" where
  "clamp_physmtu m =
     (if m \<le>s 0 then DEFAULT_PHYSMTU else if m <s MIN_PHYSMTU then MIN_PHYSMTU
      else if MAX_PHYSMTU <s m then MAX_PHYSMTU else m)"

definition setPhysicalPathConfiguration :: "inet option \<Rightarrow> phys_config option \<Rightarrow> topology \<Rightarrow> topology" where
  "setPhysicalPathConfiguration net cfg t =
     (case net of
        None \<Rightarrow> t\<lparr>tp_config := []\<rparr>
      | Some n \<Rightarrow>
          (let m = foldl (\<lambda>m (k, v). omap_set k v m) [] (tp_config t);
               m' = (case cfg of
                       Some c \<Rightarrow> omap_set n (c\<lparr>pc_mtu := clamp_physmtu (pc_mtu c)\<rparr>) m
                     | None \<Rightarrow> omap_erase n m) in
           t\<lparr>tp_config := take MAX_CONFIGURABLE_PATHS m'\<rparr>))"

section \<open>The invariant\<close>

definition all_roots :: "topology \<Rightarrow> root list" where
  "all_roots t = w_roots (tp_planet t) @ concat (map w_roots (tp_moons t))"

abbreviation root_addr :: "root \<Rightarrow> address" where "root_addr r \<equiv> id_address (ro_identity r)"

definition peers_ok :: "topology \<Rightarrow> bool" where
  "peers_ok t \<longleftrightarrow> ht_ok hc_addr (tp_peers t) \<and> (\<forall>a p. peer_at t a = Some p \<longrightarrow> (\<exists>q. p = Some q \<and> pr_address q = a))"

definition upstreams_ok :: "identity \<Rightarrow> topology \<Rightarrow> bool" where
  "upstreams_ok self t \<longleftrightarrow> sorted (tp_upstreams t) \<and> distinct (tp_upstreams t) \<and>
     set (tp_upstreams t) = root_addr ` {r \<in> set (all_roots t). \<not> identity_eq (ro_identity r) self} \<and>
     (\<forall>a\<in>set (tp_upstreams t). peer_at t a \<noteq> None) \<and>
     (tp_amUpstream t \<longleftrightarrow> (\<exists>r\<in>set (all_roots t). identity_eq (ro_identity r) self))"

definition worlds_ok :: "topology \<Rightarrow> bool" where
  "worlds_ok t \<longleftrightarrow> distinct (map w_id (tp_moons t)) \<and> (\<forall>w\<in>set (tp_moons t). w_type w = TYPE_MOON) \<and>
     w_type (tp_planet t) \<noteq> TYPE_MOON"

definition paths_ok :: "topology \<Rightarrow> bool" where
  "paths_ok t \<longleftrightarrow> ht_ok hc_path (tp_paths t) \<and> (\<forall>k r. ht_get hc_path (tp_paths t) k = Some r \<longrightarrow>
     r < tp_nextRef t \<and> path_key (p_localSocket (tp_store t r)) (p_addr (tp_store t r)) = k)"

definition topo_inv :: "identity \<Rightarrow> topology \<Rightarrow> bool" where
  "topo_inv self t \<longleftrightarrow> peers_ok t \<and> upstreams_ok self t \<and> worlds_ok t \<and> paths_ok t"

text \<open>
  The node's identity has its private key, so key agreement succeeds, and the host returns for a
  peer what was stored for that peer.
\<close>

definition env_ok :: "'s topo_env \<Rightarrow> bool" where
  "env_ok e \<longleftrightarrow> (\<forall>i. pe_agree (te_peer e) (te_self e) i \<noteq> None) \<and>
     (\<forall>a b p out. buf_of (te_peerCap e) (te_get e OBJECT_PEER (addr_int a)) = Inr b \<longrightarrow>
       deserializeFromCache (te_peer e) b = Some (p, out) \<longrightarrow> pr_address p = a)"

lemma peer_new_ok: "env_ok e \<Longrightarrow> \<exists>p. peer_new (te_peer e) i = Inr p \<and> pr_address p = id_address i"
  by (auto simp: env_ok_def peer_new_def split: option.split)

lemma peers_okD:
  "peers_ok t \<Longrightarrow> ht_ok hc_addr (tp_peers t)"
  "peers_ok t \<Longrightarrow> peer_at t a = Some p \<Longrightarrow> \<exists>q. p = Some q \<and> pr_address q = a"
  by (auto simp: peers_ok_def)

lemma peers_ok_set: "peers_ok t \<Longrightarrow> pr_address p = a \<Longrightarrow> peers_ok (set_peer e a (Some p) t)"
  by (auto simp: peers_ok_def ht.put_lookup ht.put_inv)

lemma peers_ok_erase: "peers_ok t \<Longrightarrow> peers_ok (erase_peer a t)"
  by (auto simp: peers_ok_def ht.del_lookup ht.del_inv)

section \<open>Upstreams\<close>

text \<open>What adding a peer when there is none does: the idiom of \<open>addPeer\<close> and \<open>_memoizeUpstreams\<close>.\<close>

lemma ensure_peer:
  assumes ok: "peers_ok t" and p: "pr_address p = a"
    and t1_def: "t1 = t\<lparr>tp_peers := ht_index (te_alloc e) hc_addr None a (tp_peers t)\<rparr>"
  shows "case peer_at t1 a of
      Some (Some q) \<Rightarrow> peer_at t a = Some (Some q) \<and> t1 = t
    | _ \<Rightarrow> peer_at t a = None \<and> peers_ok (set_peer e a (Some p) t1) \<and>
        ht_get hc_addr (tp_peers (set_peer e a (Some p) t1)) = (ht_get hc_addr (tp_peers t))(a \<mapsto> Some p)"
proof (cases "peer_at t a")
  case (Some q)
  then obtain q' where q: "q = Some q'" using peers_okD(2) [OF ok] by blast
  have "chain_find (ht_bucket hc_addr (tp_peers t) a) a \<noteq> None" using Some by (simp add: ht_get_def)
  then have "t1 = t" by (simp add: t1_def ht_index_def)
  then show ?thesis using Some q by simp
next
  case None
  have l: "ht_get hc_addr (tp_peers t1) = (ht_get hc_addr (tp_peers t))(a \<mapsto> None)" and o1: "ht_ok hc_addr (tp_peers t1)"
    using None peers_okD(1) [OF ok] by (simp_all add: t1_def ht.touch_lookup ht.touch_inv map_touch_def)
  have l2: "ht_get hc_addr (tp_peers (set_peer e a (Some p) t1)) = (ht_get hc_addr (tp_peers t))(a \<mapsto> Some p)"
    using ht.put_lookup [OF o1, of "te_alloc e" a "Some p"] l by simp
  moreover have "peers_ok (set_peer e a (Some p) t1)"
    using ok p ht.put_inv [OF o1, of "te_alloc e" a "Some p"] l2 by (auto simp: peers_ok_def)
  ultimately show ?thesis using None l by simp
qed

definition same_worlds :: "topology \<Rightarrow> topology \<Rightarrow> bool" where
  "same_worlds t t' \<longleftrightarrow> tp_planet t' = tp_planet t \<and> tp_moons t' = tp_moons t \<and> tp_moonSeeds t' = tp_moonSeeds t \<and>
     tp_paths t' = tp_paths t \<and> tp_store t' = tp_store t \<and> tp_nextRef t' = tp_nextRef t \<and> tp_config t' = tp_config t"

definition keeps_peers :: "topology \<Rightarrow> topology \<Rightarrow> bool" where
  "keeps_peers t t' \<longleftrightarrow> (\<forall>a p. peer_at t a = Some p \<longrightarrow> peer_at t' a = Some p)"

text \<open>The invariant of the loops over the roots.\<close>

definition memo_ok :: "topology \<Rightarrow> bool" where
  "memo_ok t \<longleftrightarrow> peers_ok t \<and> distinct (tp_upstreams t) \<and> (\<forall>a\<in>set (tp_upstreams t). peer_at t a \<noteq> None)"

lemma memo_root_spec:
  assumes e: "env_ok e" and ok: "memo_ok t"
  shows "\<exists>t'. memo_root e r t = (t', Inr ()) \<and> memo_ok t' \<and> same_worlds t t' \<and> keeps_peers t t' \<and>
    set (tp_upstreams t') = set (tp_upstreams t) \<union> (if identity_eq (ro_identity r) (te_self e) then {} else {root_addr r}) \<and>
    (tp_amUpstream t' \<longleftrightarrow> tp_amUpstream t \<or> identity_eq (ro_identity r) (te_self e))"
proof -
  let ?a = "root_addr r"
  consider (own) "identity_eq (ro_identity r) (te_self e)"
    | (old) "\<not> identity_eq (ro_identity r) (te_self e)" "?a \<in> set (tp_upstreams t)"
    | (new) "\<not> identity_eq (ro_identity r) (te_self e)" "?a \<notin> set (tp_upstreams t)" by blast
  then show ?thesis
  proof cases
    case own
    then show ?thesis using ok by (auto simp: memo_root_def memo_ok_def same_worlds_def keeps_peers_def peers_ok_def)
  next
    case old
    then show ?thesis using ok by (auto simp: memo_root_def same_worlds_def keeps_peers_def)
  next
    case new
    obtain p where p: "peer_new (te_peer e) (ro_identity r) = Inr p" "pr_address p = ?a" using peer_new_ok [OF e] by blast
    define t0 where "t0 = t\<lparr>tp_upstreams := tp_upstreams t @ [?a]\<rparr>"
    define t1 where "t1 = t0\<lparr>tp_peers := ht_index (te_alloc e) hc_addr None ?a (tp_peers t0)\<rparr>"
    have ok0: "peers_ok t0" using ok by (simp add: t0_def memo_ok_def peers_ok_def)
    have t1: "t\<lparr>tp_upstreams := tp_upstreams t @ [?a], tp_peers := ht_index (te_alloc e) hc_addr None ?a (tp_peers t)\<rparr> = t1"
      by (simp add: t1_def t0_def)
    have m: "memo_root e r t = (case peer_at t1 ?a of Some (Some p) \<Rightarrow> (t1, Inr ()) | _ \<Rightarrow> (set_peer e ?a (Some p) t1, Inr ()))"
      using new p(1) by (simp add: memo_root_def Let_def t1 split: option.split)
    note en = ensure_peer [OF ok0 p(2) t1_def]
    have up: "tp_upstreams t1 = tp_upstreams t @ [?a]" "tp_amUpstream t1 = tp_amUpstream t" "same_worlds t t1"
      by (simp_all add: t1_def t0_def same_worlds_def)
    have at0: "peer_at t0 a = peer_at t a" for a by (simp add: t0_def)
    show ?thesis
    proof (cases "\<exists>q. peer_at t1 ?a = Some (Some q)")
      case True
      then obtain q where q: "peer_at t1 ?a = Some (Some q)" by blast
      then have eq: "t1 = t0" using en by simp
      then show ?thesis using q m ok0 ok new at0 up
        by (auto simp: memo_ok_def keeps_peers_def)
    next
      case False
      then have m': "memo_root e r t = (set_peer e ?a (Some p) t1, Inr ())" and
        en': "peer_at t0 ?a = None" "peers_ok (set_peer e ?a (Some p) t1)"
          "ht_get hc_addr (tp_peers (set_peer e ?a (Some p) t1)) = (ht_get hc_addr (tp_peers t0))(?a \<mapsto> Some p)"
        using m en by (auto split: option.splits)
      have k: "keeps_peers t (set_peer e ?a (Some p) t1)" using en'(1,3) at0 by (auto simp: keeps_peers_def)
      have mo: "memo_ok (set_peer e ?a (Some p) t1)"
        using en'(2,3) ok new up at0 by (auto simp: memo_ok_def)
      show ?thesis
        by (rule exI [of _ "set_peer e ?a (Some p) t1"], intro conjI m' mo k) (use up new in \<open>auto simp: same_worlds_def\<close>)
    qed
  qed
qed

lemma memo_roots_spec:
  assumes e: "env_ok e" and ok: "memo_ok t"
  shows "\<exists>t'. memo_roots e rs t = (t', Inr ()) \<and> memo_ok t' \<and> same_worlds t t' \<and> keeps_peers t t' \<and>
    set (tp_upstreams t') = set (tp_upstreams t) \<union> root_addr ` {r \<in> set rs. \<not> identity_eq (ro_identity r) (te_self e)} \<and>
    (tp_amUpstream t' \<longleftrightarrow> tp_amUpstream t \<or> (\<exists>r\<in>set rs. identity_eq (ro_identity r) (te_self e)))"
  using ok
proof (induction rs arbitrary: t)
  case Nil
  then show ?case by (simp add: same_worlds_def keeps_peers_def)
next
  case (Cons r rs)
  from memo_root_spec [OF e Cons.prems, of r] obtain t1 where t1: "memo_root e r t = (t1, Inr ())" "memo_ok t1" "same_worlds t t1"
    "keeps_peers t t1" "set (tp_upstreams t1) = set (tp_upstreams t) \<union> (if identity_eq (ro_identity r) (te_self e) then {} else {root_addr r})"
    "tp_amUpstream t1 \<longleftrightarrow> tp_amUpstream t \<or> identity_eq (ro_identity r) (te_self e)" by metis
  from Cons.IH [OF t1(2)] obtain t2 where t2: "memo_roots e rs t1 = (t2, Inr ())" "memo_ok t2" "same_worlds t1 t2" "keeps_peers t1 t2"
    "set (tp_upstreams t2) = set (tp_upstreams t1) \<union> root_addr ` {r \<in> set rs. \<not> identity_eq (ro_identity r) (te_self e)}"
    "tp_amUpstream t2 \<longleftrightarrow> tp_amUpstream t1 \<or> (\<exists>r\<in>set rs. identity_eq (ro_identity r) (te_self e))" by metis
  have "same_worlds t t2" "keeps_peers t t2" using t1(3,4) t2(3,4) by (simp_all add: same_worlds_def keeps_peers_def)
  moreover have "set (tp_upstreams t2) = set (tp_upstreams t) \<union> root_addr ` {x \<in> set (r # rs). \<not> identity_eq (ro_identity x) (te_self e)}"
    unfolding t2(5) t1(5) by auto
  ultimately show ?case using t1(1,6) t2(1,2,6) by auto
qed

text \<open>Whatever the upstreams were before, they are derived afresh.\<close>

lemma memoize_spec:
  assumes e: "env_ok e" and ok: "peers_ok t"
  shows "\<exists>t'. memoizeUpstreams e t = (t', Inr ()) \<and> peers_ok t' \<and> upstreams_ok (te_self e) t' \<and> same_worlds t t' \<and> keeps_peers t t'"
proof -
  let ?t = "t\<lparr>tp_upstreams := [], tp_amUpstream := False\<rparr>"
  have "memo_ok ?t" using ok by (simp add: memo_ok_def peers_ok_def)
  from memo_roots_spec [OF e this, of "all_roots t"] obtain t' where t': "memo_roots e (all_roots t) ?t = (t', Inr ())" "memo_ok t'"
    "same_worlds ?t t'" "keeps_peers ?t t'" "set (tp_upstreams t') = root_addr ` {r \<in> set (all_roots t). \<not> identity_eq (ro_identity r) (te_self e)}"
    "tp_amUpstream t' \<longleftrightarrow> (\<exists>r\<in>set (all_roots t). identity_eq (ro_identity r) (te_self e))" by auto
  have a: "all_roots (t'\<lparr>tp_upstreams := sort (tp_upstreams t')\<rparr>) = all_roots t" using t'(3) by (simp add: all_roots_def same_worlds_def)
  have "memoizeUpstreams e t = (t'\<lparr>tp_upstreams := sort (tp_upstreams t')\<rparr>, Inr ())"
    using t'(1) by (simp add: memoizeUpstreams_def all_roots_def)
  moreover have "upstreams_ok (te_self e) (t'\<lparr>tp_upstreams := sort (tp_upstreams t')\<rparr>)"
    unfolding upstreams_ok_def a using t'(2,5,6) by (simp add: memo_ok_def)
  ultimately show ?thesis using t'(2,3,4) by (auto simp: memo_ok_def peers_ok_def same_worlds_def keeps_peers_def)
qed

section \<open>Every operation keeps the invariant\<close>

lemma same_worlds_ok:
  "same_worlds t t' \<Longrightarrow> worlds_ok t' = worlds_ok t" "same_worlds t t' \<Longrightarrow> paths_ok t' = paths_ok t"
  by (simp_all add: same_worlds_def worlds_ok_def paths_ok_def)

lemma store_memo_inv:
  assumes "env_ok e" "peers_ok t" "worlds_ok t" "paths_ok t"
  shows "\<exists>t'. store_and_memoize e w t = (t', put_world w, Inr True) \<and> topo_inv (te_self e) t' \<and> same_worlds t t' \<and> keeps_peers t t'"
  using memoize_spec [OF assms(1,2)] assms(3,4)
  by (auto simp: store_and_memoize_def topo_inv_def same_worlds_ok)

lemma find_world_Some: "find_world i ws = Some k \<Longrightarrow> k < length ws \<and> w_id (ws ! k) = i"
  by (induction ws arbitrary: k) (auto split: if_splits)

lemma find_world_None: "find_world i ws = None \<longleftrightarrow> i \<notin> w_id ` set ws"
  by (induction ws) auto

lemma moons_update:
  assumes "find_world i ws = Some k" "w_id w = i"
  shows "map w_id (ws[k := w]) = map w_id ws"
  using find_world_Some [OF assms(1)] assms(2) by (metis list_update_id map_update nth_map)

lemma worlds_ok_update:
  "worlds_ok t \<Longrightarrow> w_type w \<noteq> TYPE_MOON \<Longrightarrow> worlds_ok (t\<lparr>tp_planet := w\<rparr>)"
  "worlds_ok t \<Longrightarrow> w_type w = TYPE_MOON \<Longrightarrow> find_world (w_id w) (tp_moons t) = Some k \<Longrightarrow> worlds_ok (t\<lparr>tp_moons := (tp_moons t)[k := w]\<rparr>)"
  "worlds_ok t \<Longrightarrow> w_type w = TYPE_MOON \<Longrightarrow> find_world (w_id w) (tp_moons t) = None \<Longrightarrow> worlds_ok (t\<lparr>tp_moons := tp_moons t @ [w]\<rparr>)"
    apply (simp add: worlds_ok_def)
   apply (auto simp: worlds_ok_def moons_update dest!: set_update_subset_insert [THEN subsetD])[1]
  apply (auto simp: worlds_ok_def find_world_None)
  done

lemma peers_ok_cong [simp]:
  "peers_ok (t\<lparr>tp_planet := w\<rparr>) = peers_ok t" "peers_ok (t\<lparr>tp_moons := ms\<rparr>) = peers_ok t"
  "peers_ok (t\<lparr>tp_moonSeeds := ss\<rparr>) = peers_ok t" "peers_ok (t\<lparr>tp_config := cs\<rparr>) = peers_ok t"
  "peers_ok (t\<lparr>tp_paths := ps\<rparr>) = peers_ok t" "peers_ok (t\<lparr>tp_store := st\<rparr>) = peers_ok t"
  "peers_ok (t\<lparr>tp_nextRef := n\<rparr>) = peers_ok t"
  by (simp_all add: peers_ok_def)

lemma paths_ok_cong [simp]:
  "paths_ok (t\<lparr>tp_planet := w\<rparr>) = paths_ok t" "paths_ok (t\<lparr>tp_moons := ms\<rparr>) = paths_ok t"
  "paths_ok (t\<lparr>tp_moonSeeds := ss\<rparr>) = paths_ok t" "paths_ok (t\<lparr>tp_config := cs\<rparr>) = paths_ok t"
  "paths_ok (t\<lparr>tp_peers := ps\<rparr>) = paths_ok t"
  by (simp_all add: paths_ok_def)

lemma worlds_ok_cong [simp]:
  "worlds_ok (t\<lparr>tp_moonSeeds := ss\<rparr>) = worlds_ok t" "worlds_ok (t\<lparr>tp_config := cs\<rparr>) = worlds_ok t"
  "worlds_ok (t\<lparr>tp_peers := ps\<rparr>) = worlds_ok t" "worlds_ok (t\<lparr>tp_paths := qs\<rparr>) = worlds_ok t"
  "worlds_ok (t\<lparr>tp_store := st\<rparr>) = worlds_ok t" "worlds_ok (t\<lparr>tp_nextRef := n\<rparr>) = worlds_ok t"
  by (simp_all add: worlds_ok_def)

lemma topo_invD:
  "topo_inv self t \<Longrightarrow> peers_ok t" "topo_inv self t \<Longrightarrow> upstreams_ok self t" "topo_inv self t \<Longrightarrow> worlds_ok t"
  "topo_inv self t \<Longrightarrow> paths_ok t"
  by (simp_all add: topo_inv_def)

lemma addWorld_inv:
  assumes e: "env_ok e" and inv: "topo_inv (te_self e) t"
  shows "topo_inv (te_self e) (fst (addWorld e w always t))"
proof -
  note i = topo_invD [OF inv]
  show ?thesis
  proof (cases "w_type w")
    case TYPE_PLANET
    then have "worlds_ok (t\<lparr>tp_planet := w\<rparr>)" using worlds_ok_update(1) [OF i(3)] by simp
    then show ?thesis using TYPE_PLANET inv store_memo_inv [OF e, of "t\<lparr>tp_planet := w\<rparr>" w] i
      by (auto simp: addWorld_def split: sum.split bool.split)
  next
    case TYPE_MOON
    show ?thesis
    proof (cases "find_world (w_id w) (tp_moons t)")
      case None
      have A: "topo_inv (te_self e) (fst (store_and_memoize e w t'))" if "peers_ok t'" "worlds_ok t'" "paths_ok t'" for t'
        using store_memo_inv [OF e that, of w] by auto
      have W: "worlds_ok (t'\<lparr>tp_moons := tp_moons t' @ [w]\<rparr>)" if "worlds_ok t'" "tp_moons t' = tp_moons t" for t'
        using worlds_ok_update(3) [OF that(1) TYPE_MOON] None that(2) by simp
      show ?thesis
      proof (cases "always \<or> use_seed w (tp_moonSeeds t) = None")
        case True
        then show ?thesis using TYPE_MOON None inv A [of "t\<lparr>tp_moons := tp_moons t @ [w]\<rparr>"] W [of t] i
          by (auto simp: addWorld_def)
      next
        case False
        then obtain ss where ss: "use_seed w (tp_moonSeeds t) = Some ss" "\<not> always" by auto
        then show ?thesis
          using TYPE_MOON None A [of "t\<lparr>tp_moonSeeds := ss, tp_moons := tp_moons t @ [w]\<rparr>"] W [of "t\<lparr>tp_moonSeeds := ss\<rparr>"] i
          by (simp add: addWorld_def)
      qed
    next
      case (Some k)
      have a: "worlds_ok (t\<lparr>tp_moons := (tp_moons t)[k := w]\<rparr>)" by (rule worlds_ok_update(2) [OF i(3) TYPE_MOON Some])
      then show ?thesis using TYPE_MOON Some inv store_memo_inv [OF e _ a, of w] i
        by (auto simp: addWorld_def split: sum.split bool.split)
    qed
  qed (use inv in \<open>simp add: addWorld_def\<close>)
qed

lemma refreshed_keeps:
  assumes "refreshed w eps = Some w'"
  shows "w_type w' = w_type w" "w_id w' = w_id w" "w_ts w' = w_ts w" "w_key w' = w_key w"
    "map ro_identity (w_roots w') = map ro_identity (w_roots w)" "w_roots w' \<noteq> []"
  using assms by (auto simp: refreshed_def setRootStableEndpoints_def Let_def split: list.splits if_splits)

lemma relink_inv:
  assumes "env_ok e" "peers_ok t" "worlds_ok t" "paths_ok t"
  shows "topo_inv (te_self e) (fst (relink e w ob t)) \<and> snd (snd (relink e w ob t)) = Inr True \<and> same_worlds t (fst (relink e w ob t))"
proof -
  let ?t = "erase_peer (root_addr (hd (w_roots w))) t"
  have "\<exists>t'. store_and_memoize e w ?t = (t', put_world w, Inr True) \<and> topo_inv (te_self e) t' \<and> same_worlds ?t t' \<and> keeps_peers ?t t'"
    by (rule store_memo_inv) (use assms peers_ok_erase in simp_all)
  then show ?thesis by (auto simp: relink_def same_worlds_def)
qed

lemma setPlanetEndpoints_inv:
  assumes e: "env_ok e" and inv: "topo_inv (te_self e) t"
  shows "topo_inv (te_self e) (fst (setPlanetEndpoints e eps t))"
proof (cases "refreshed (tp_planet t) eps")
  case (Some w)
  then have "worlds_ok (t\<lparr>tp_planet := w\<rparr>)"
    using worlds_ok_update(1) [OF topo_invD(3) [OF inv], of w] refreshed_keeps(1) topo_invD(3) [OF inv] by (simp add: worlds_ok_def)
  then show ?thesis using Some inv relink_inv [OF e, of "t\<lparr>tp_planet := w\<rparr>"] topo_invD [OF inv]
    by (simp add: setPlanetEndpoints_def)
qed (use inv in \<open>simp add: setPlanetEndpoints_def\<close>)

lemma setMoonEndpoints_inv:
  assumes e: "env_ok e" and inv: "topo_inv (te_self e) t"
  shows "topo_inv (te_self e) (fst (setMoonEndpoints e i eps t))"
proof (cases "find_world i (tp_moons t)")
  case (Some k)
  show ?thesis
  proof (cases "refreshed (tp_moons t ! k) eps")
    case (Some w)
    note k = find_world_Some [OF \<open>find_world i (tp_moons t) = Some k\<close>]
    have "w_type w = TYPE_MOON" "w_id w = i"
      using refreshed_keeps(1,2) [OF Some] k topo_invD(3) [OF inv] by (simp_all add: worlds_ok_def)
    then have "worlds_ok (t\<lparr>tp_moons := (tp_moons t)[k := w]\<rparr>)"
      using worlds_ok_update(2) [OF topo_invD(3) [OF inv]] \<open>find_world i (tp_moons t) = Some k\<close> by simp
    then show ?thesis
      using Some \<open>find_world i (tp_moons t) = Some k\<close> inv relink_inv [OF e, of "t\<lparr>tp_moons := (tp_moons t)[k := w]\<rparr>"] topo_invD [OF inv]
      by (simp add: setMoonEndpoints_def)
  qed (use inv Some in \<open>simp add: setMoonEndpoints_def\<close>)
qed (use inv in \<open>simp add: setMoonEndpoints_def\<close>)

lemma topo_inv_cong [simp]:
  "topo_inv self (t\<lparr>tp_moonSeeds := ss\<rparr>) = topo_inv self t" "topo_inv self (t\<lparr>tp_config := cs\<rparr>) = topo_inv self t"
  by (simp_all add: topo_inv_def upstreams_ok_def all_roots_def)

lemma addMoon_inv:
  assumes e: "env_ok e" and inv: "topo_inv (te_self e) t"
  shows "topo_inv (te_self e) (fst (addMoon e i seed t))"
proof -
  have s: "topo_inv (te_self e) (if b then t'\<lparr>tp_moonSeeds := ss\<rparr> else t')" if "topo_inv (te_self e) t'" for b t' ss
    using that by simp
  show ?thesis
  proof (cases "if te_get e OBJECT_MOON i = [] then None else load_world (te_get e OBJECT_MOON i)")
    case None
    then show ?thesis using inv by (simp add: addMoon_def Let_def)
  next
    case (Some w)
    then show ?thesis using inv addWorld_inv [OF e inv, of w True]
      by (auto simp: addMoon_def Let_def split: prod.split sum.split)
  qed
qed

lemma removeMoon_inv:
  assumes e: "env_ok e" and inv: "topo_inv (te_self e) t"
  shows "topo_inv (te_self e) (fst (removeMoon e i t))"
proof -
  let ?t = "t\<lparr>tp_moons := filter (\<lambda>w. w_id w \<noteq> i) (tp_moons t), tp_moonSeeds := filter (\<lambda>s. fst s \<noteq> i) (tp_moonSeeds t)\<rparr>"
  have "worlds_ok ?t" using topo_invD(3) [OF inv] by (simp add: worlds_ok_def distinct_map_filter)
  then show ?thesis
    using memoize_spec [OF e, of ?t] topo_invD [OF inv] same_worlds_ok [of ?t]
    by (auto simp: removeMoon_def Let_def topo_inv_def)
qed

text \<open>Tables of peers that keep the upstreams' entries.\<close>

lemma topo_inv_peers:
  assumes inv: "topo_inv self t" and ok: "peers_ok (t\<lparr>tp_peers := ps\<rparr>)"
    and k: "\<forall>a\<in>set (tp_upstreams t). ht_get hc_addr ps a \<noteq> None"
  shows "topo_inv self (t\<lparr>tp_peers := ps\<rparr>)"
  using inv ok k by (simp add: topo_inv_def upstreams_ok_def all_roots_def)

lemma topo_inv_set_peer:
  assumes inv: "topo_inv self t" and p: "pr_address p = a"
  shows "topo_inv self (set_peer e a (Some p) t)"
proof (rule topo_inv_peers [OF inv peers_ok_set [OF topo_invD(1) [OF inv] p]])
  show "\<forall>b\<in>set (tp_upstreams t). ht_get hc_addr (ht_set (te_alloc e) hc_addr a (Some p) (tp_peers t)) b \<noteq> None"
    using topo_invD(2) [OF inv] by (simp add: ht.put_lookup [OF peers_okD(1) [OF topo_invD(1) [OF inv]]] upstreams_ok_def)
qed

lemma topo_inv_erase_peer:
  assumes inv: "topo_inv self t" and a: "a \<notin> set (tp_upstreams t)"
  shows "topo_inv self (erase_peer a t)"
proof (rule topo_inv_peers [OF inv peers_ok_erase [OF topo_invD(1) [OF inv]]])
  show "\<forall>b\<in>set (tp_upstreams t). ht_get hc_addr (fst (ht_erase hc_addr a (tp_peers t))) b \<noteq> None"
    using topo_invD(2) [OF inv] a by (auto simp: ht.del_lookup [OF peers_okD(1) [OF topo_invD(1) [OF inv]]] upstreams_ok_def)
qed

lemma addPeer_inv:
  assumes inv: "topo_inv self t" shows "topo_inv self (fst (addPeer e p t))"
proof -
  note en = ensure_peer [OF topo_invD(1) [OF inv] refl refl, of p e]
  let ?t1 = "t\<lparr>tp_peers := ht_index (te_alloc e) hc_addr None (pr_address p) (tp_peers t)\<rparr>"
  show ?thesis
  proof (cases "\<exists>q. peer_at ?t1 (pr_address p) = Some (Some q)")
    case True
    then show ?thesis using en inv by (auto simp: addPeer_def Let_def)
  next
    case False
    then have f: "fst (addPeer e p t) = set_peer e (pr_address p) (Some p) ?t1" by (auto simp: addPeer_def Let_def split: option.split)
    have "topo_inv self (t\<lparr>tp_peers := tp_peers (set_peer e (pr_address p) (Some p) ?t1)\<rparr>)"
      by (rule topo_inv_peers [OF inv])
        (use False en topo_invD(2) [OF inv] in \<open>auto simp: upstreams_ok_def split: option.splits\<close>)
    then show ?thesis unfolding f by simp
  qed
qed

lemma getPeer_inv:
  assumes e: "env_ok e" and inv: "topo_inv (te_self e) t"
  shows "topo_inv (te_self e) (fst (getPeer e a t))"
proof (cases "a = id_address (te_self e) \<or> peer_at t a \<noteq> None \<or> te_get e OBJECT_PEER (addr_int a) = []")
  case True
  then show ?thesis using inv by (auto simp: getPeer_def Let_def split: option.splits)
next
  case False
  then have no: "peer_at t a = None" by simp
  have "\<forall>b\<in>set (tp_upstreams t). peer_at t b \<noteq> None" using topo_invD(2) [OF inv] unfolding upstreams_ok_def by (elim conjE)
  then have up: "a \<notin> set (tp_upstreams t)" using no by blast
  show ?thesis
  proof (cases "buf_of (te_peerCap e) (te_get e OBJECT_PEER (addr_int a))")
    case (Inr b)
    show ?thesis
    proof (cases "deserializeFromCache (te_peer e) b")
      case None
      have f: "fst (getPeer e a t) = erase_peer a (set_peer e a None t)" using False Inr None by (simp add: getPeer_def Let_def)
      note h = peers_okD(1) [OF topo_invD(1) [OF inv]]
      have l: "ht_get hc_addr (tp_peers (erase_peer a (set_peer e a None t))) = ht_get hc_addr (tp_peers t)"
        using no by (auto simp: ht.put_lookup [OF h] ht.del_lookup [OF ht.put_inv [OF h]] fun_eq_iff)
      have "topo_inv (te_self e) (t\<lparr>tp_peers := tp_peers (erase_peer a (set_peer e a None t))\<rparr>)"
        by (rule topo_inv_peers [OF inv])
          (use l topo_invD(1,2) [OF inv] ht.del_inv [OF ht.put_inv [OF h]] in \<open>simp_all add: peers_ok_def upstreams_ok_def\<close>)
      then show ?thesis unfolding f by simp
    next
      case (Some po)
      then obtain p out where po: "deserializeFromCache (te_peer e) b = Some (p, out)" by (cases po) simp
      have "pr_address p = a" using e Inr po unfolding env_ok_def by blast
      then show ?thesis using False Inr po topo_inv_set_peer [OF inv] by (simp add: getPeer_def Let_def)
    qed
  qed (use False inv in \<open>simp add: getPeer_def Let_def\<close>)
qed

lemma expire_peers_inv:
  "\<forall>(a, p)\<in>set ps. p \<noteq> None \<Longrightarrow> topo_inv self t \<Longrightarrow>
    topo_inv self (fst (expire_peers e now ps t)) \<and> snd (snd (expire_peers e now ps t)) = Inr ()"
proof (induction e now ps t rule: expire_peers.induct)
  case (2 e now a p ps t)
  then obtain q where q: "p = Some q" by auto
  show ?case
  proof (cases "\<not> peer_isAlive q now \<and> a \<notin> set (tp_upstreams t)")
    case True
    then have "topo_inv self (erase_peer a t)" using topo_inv_erase_peer 2(4) by blast
    then show ?thesis using "2.IH"(1) [OF q True] 2(3) q True by (auto split: prod.split)
  next
    case False
    then show ?thesis using "2.IH"(2) [OF q False] 2(3,4) q by auto
  qed
qed simp

lemma entries_no_null:
  assumes "peers_ok t" shows "\<forall>(a, p)\<in>set (ht_entries (tp_peers t)). p \<noteq> None"
proof -
  note x = ht_entries_exact [OF peers_okD(1) [OF assms]]
  have "distinct (map fst (ht_entries (tp_peers t)))" using x by metis
  have "p \<noteq> None" if "(a, p) \<in> set (ht_entries (tp_peers t))" for a p
  proof -
    have "peer_at t a = Some p" using map_of_is_SomeI [OF \<open>distinct (map fst (ht_entries (tp_peers t)))\<close> that] x by simp
    then show ?thesis using peers_okD(2) [OF assms] by blast
  qed
  then show ?thesis by blast
qed

lemma topo_inv_erase_path: "topo_inv self t \<Longrightarrow> topo_inv self (t\<lparr>tp_paths := fst (ht_erase hc_path k (tp_paths t))\<rparr>)"
  by (auto simp: topo_inv_def upstreams_ok_def all_roots_def paths_ok_def ht.del_lookup ht.del_inv split: if_splits)

lemma expire_paths_inv: "topo_inv self t \<Longrightarrow> topo_inv self (expire_paths e t)"
proof -
  have "topo_inv self t \<Longrightarrow> topo_inv self (fold (\<lambda>(k, r) t. if te_references e r \<le> 1
      then t\<lparr>tp_paths := fst (ht_erase hc_path k (tp_paths t))\<rparr> else t) es t)" for es
    by (induction es arbitrary: t) (auto simp: topo_inv_erase_path)
  then show "topo_inv self t \<Longrightarrow> topo_inv self (expire_paths e t)" by (simp add: expire_paths_def)
qed

lemma doPeriodicTasks_inv:
  assumes "topo_inv self t"
  shows "topo_inv self (fst (topo_doPeriodicTasks e now t)) \<and> snd (snd (topo_doPeriodicTasks e now t)) = Inr ()"
  using expire_peers_inv [OF entries_no_null [OF topo_invD(1) [OF assms]] assms, of e now] expire_paths_inv
  by (auto simp: topo_doPeriodicTasks_def split: prod.splits sum.splits)

lemma getPath_spec:
  assumes inv: "topo_inv self t" and g: "getPath e l r t = (t', k)"
  shows "topo_inv self t' \<and> ht_get hc_path (tp_paths t') (path_key l r) = Some k \<and>
    path_key (p_localSocket (tp_store t' k)) (p_addr (tp_store t' k)) = path_key l r"
proof (cases "ht_get hc_path (tp_paths t) (path_key l r)")
  case None
  have h: "ht_ok hc_path (tp_paths t)" using topo_invD(4) [OF inv] by (simp add: paths_ok_def)
  have t': "t' = t\<lparr>tp_paths := ht_set (te_alloc e) hc_path (path_key l r) (tp_nextRef t) (tp_paths t),
      tp_store := (tp_store t)(tp_nextRef t := path_new l r), tp_nextRef := tp_nextRef t + 1\<rparr>" "k = tp_nextRef t"
    using g None by (auto simp: getPath_def Let_def)
  have old: "r < tp_nextRef t \<and> path_key (p_localSocket (tp_store t r)) (p_addr (tp_store t r)) = k"
    if "ht_get hc_path (tp_paths t) k = Some r" for k r
    using topo_invD(4) [OF inv] that unfolding paths_ok_def by blast
  have "paths_ok t'" unfolding t' paths_ok_def
  proof (intro conjI allI impI)
    fix k ra assume "ht_get hc_path (tp_paths (t\<lparr>tp_paths := ht_set (te_alloc e) hc_path (path_key l r) (tp_nextRef t) (tp_paths t),
      tp_store := (tp_store t)(tp_nextRef t := path_new l r), tp_nextRef := tp_nextRef t + 1\<rparr>)) k = Some ra"
    then have c: "k = path_key l r \<and> ra = tp_nextRef t \<or> k \<noteq> path_key l r \<and> ht_get hc_path (tp_paths t) k = Some ra"
      by (simp add: ht.put_lookup [OF h] split: if_splits)
    then have "k = path_key l r \<and> ra = tp_nextRef t \<or> ra < tp_nextRef t \<and>
        path_key (p_localSocket (tp_store t ra)) (p_addr (tp_store t ra)) = k" using old by blast
    then show "ra < tp_nextRef (t\<lparr>tp_paths := ht_set (te_alloc e) hc_path (path_key l r) (tp_nextRef t) (tp_paths t),
        tp_store := (tp_store t)(tp_nextRef t := path_new l r), tp_nextRef := tp_nextRef t + 1\<rparr>)"
      "path_key (p_localSocket (tp_store (t\<lparr>tp_paths := ht_set (te_alloc e) hc_path (path_key l r) (tp_nextRef t) (tp_paths t),
        tp_store := (tp_store t)(tp_nextRef t := path_new l r), tp_nextRef := tp_nextRef t + 1\<rparr>) ra))
       (p_addr (tp_store (t\<lparr>tp_paths := ht_set (te_alloc e) hc_path (path_key l r) (tp_nextRef t) (tp_paths t),
        tp_store := (tp_store t)(tp_nextRef t := path_new l r), tp_nextRef := tp_nextRef t + 1\<rparr>) ra)) = k"
      by (auto simp: path_new_def)
  qed (use ht.put_inv [OF h] in simp)
  then show ?thesis using inv unfolding t'
    by (simp add: topo_inv_def upstreams_ok_def all_roots_def ht.put_lookup [OF h] path_new_def)
next
  case (Some k')
  then have eq: "t' = t" "k' = k" using g by (simp_all add: getPath_def Let_def)
  show ?thesis using inv topo_invD(4) [OF inv] Some unfolding eq paths_ok_def by blast
qed

section \<open>Runs of the topology\<close>

text \<open>
  One step: an operation of the class, a change of a peer through its pointer (its identity never
  changes), or a change of path objects (their endpoints never change).
\<close>

inductive topo_step :: "'s crypto \<Rightarrow> identity \<Rightarrow> topology \<Rightarrow> topology \<Rightarrow> bool"
  for c :: "'s crypto" and self :: identity where
  topo_addWorld: "env_ok e \<Longrightarrow> te_self e = self \<Longrightarrow> te_crypto e = c \<Longrightarrow> topo_step c self t (fst (addWorld e w always t))"
| topo_planetEndpoints: "env_ok e \<Longrightarrow> te_self e = self \<Longrightarrow> te_crypto e = c \<Longrightarrow> topo_step c self t (fst (setPlanetEndpoints e eps t))"
| topo_moonEndpoints: "env_ok e \<Longrightarrow> te_self e = self \<Longrightarrow> te_crypto e = c \<Longrightarrow> topo_step c self t (fst (setMoonEndpoints e i eps t))"
| topo_addMoon: "env_ok e \<Longrightarrow> te_self e = self \<Longrightarrow> te_crypto e = c \<Longrightarrow> topo_step c self t (fst (addMoon e i seed t))"
| topo_removeMoon: "env_ok e \<Longrightarrow> te_self e = self \<Longrightarrow> te_crypto e = c \<Longrightarrow> topo_step c self t (fst (removeMoon e i t))"
| topo_getPeer: "env_ok e \<Longrightarrow> te_self e = self \<Longrightarrow> te_crypto e = c \<Longrightarrow> topo_step c self t (fst (getPeer e a t))"
| topo_addPeer: "env_ok e \<Longrightarrow> te_self e = self \<Longrightarrow> te_crypto e = c \<Longrightarrow> topo_step c self t (fst (addPeer e p t))"
| topo_periodic: "env_ok e \<Longrightarrow> te_self e = self \<Longrightarrow> te_crypto e = c \<Longrightarrow> topo_step c self t (fst (topo_doPeriodicTasks e now t))"
| topo_getPath: "env_ok e \<Longrightarrow> te_self e = self \<Longrightarrow> te_crypto e = c \<Longrightarrow> topo_step c self t (fst (getPath e l r t))"
| topo_config: "topo_step c self t (setPhysicalPathConfiguration net cfg t)"
| topo_peer: "peer_at t a = Some (Some p) \<Longrightarrow> pr_id p' = pr_id p \<Longrightarrow> te_crypto e = c \<Longrightarrow>
    topo_step c self t (set_peer e a (Some p') t)"
| topo_store: "\<forall>r. p_localSocket (h r) = p_localSocket (tp_store t r) \<and> p_addr (h r) = p_addr (tp_store t r) \<Longrightarrow>
    topo_step c self t (t\<lparr>tp_store := h\<rparr>)"

lemma topo_step_inv: "topo_step c self t t' \<Longrightarrow> topo_inv self t \<Longrightarrow> topo_inv self t'"
proof (induction rule: topo_step.induct)
  case (topo_addPeer e t p)
  then show ?case using addPeer_inv by blast
next
  case (topo_periodic e t now)
  then show ?case using doPeriodicTasks_inv by blast
next
  case (topo_getPath e t l r)
  then show ?case using getPath_spec by (metis prod.collapse)
next
  case (topo_config t net cfg)
  then show ?case by (simp add: setPhysicalPathConfiguration_def Let_def split: option.split)
next
  case (topo_peer t a p p' e)
  then have "pr_address p' = a" using peers_okD(2) topo_invD(1) by fastforce
  then show ?case using topo_inv_set_peer topo_peer by blast
next
  case (topo_store h t)
  then show ?case by (simp add: topo_inv_def upstreams_ok_def all_roots_def paths_ok_def)
next
  case (topo_addWorld e t w always)
  then show ?case using addWorld_inv by blast
next
  case (topo_planetEndpoints e t eps)
  then show ?case using setPlanetEndpoints_inv by blast
next
  case (topo_moonEndpoints e t i eps)
  then show ?case using setMoonEndpoints_inv by blast
next
  case (topo_addMoon e t i seed)
  then show ?case using addMoon_inv by blast
next
  case (topo_removeMoon e t i)
  then show ?case using removeMoon_inv by blast
next
  case (topo_getPeer e t a)
  then show ?case using getPeer_inv by blast
qed

lemma topo_empty_inv: "topo_inv self topology_empty"
  by (auto simp: topo_inv_def topology_empty_def peers_ok_def upstreams_ok_def worlds_ok_def paths_ok_def all_roots_def
      world_nil_def ht_new_ok)

lemma topo_new_inv: "env_ok e \<Longrightarrow> topo_inv (te_self e) (fst (topology_new e))"
  using topo_empty_inv addWorld_inv [OF _ topo_empty_inv, of e]
  by (simp add: topology_new_def Let_def case_prod_beta split: option.split)

lemma any_alive_total: "peers_ok t \<Longrightarrow> \<exists>b. any_alive now t as = Inr b"
proof (induction as)
  case (Cons a as)
  then show ?case using peers_okD(2) [OF Cons.prems, of a] by (auto simp: deref_def split: option.split)
qed (simp add: exI [of _ False])

lemma best_upstream_total: "peers_ok t \<Longrightarrow> \<exists>b. best_upstream now t as q best = Inr b"
proof (induction as arbitrary: q best)
  case (Cons a as)
  then show ?case using peers_okD(2) [OF Cons.prems, of a] by (auto simp: deref_def Let_def split: option.split)
qed simp

text \<open>
  Claim C7: from its construction on, and whatever happens to it, the topology's upstreams are exactly
  the addresses of the roots of its planet and moons other than itself, sorted, each with a
  peer; every peer in the table is a peer with that address, so nothing dereferences null and an
  identity looked up is the one asked for or none; moon ids are distinct; and a path object
  is found under its own endpoint.
\<close>

theorem topology_invariant:
  assumes "env_ok e" "(topo_step (te_crypto e) (te_self e))\<^sup>*\<^sup>* (fst (topology_new e)) t"
  shows "topo_inv (te_self e) t \<and> (\<exists>p. getUpstreamPeer now t = Inr p) \<and> (\<exists>b. isPlanetReachable now t = Inr b) \<and>
    (\<exists>b. isWorldReachable i now t = Inr b) \<and> snd (snd (topo_doPeriodicTasks e' now t)) = Inr () \<and>
    (\<exists>x. getIdentity e a t = Inr x \<and> (id_address x = a \<or> x = identity_nil))"
proof -
  from assms(2) have inv: "topo_inv (te_self e) t"
  proof (induction rule: rtranclp_induct)
    case base
    then show ?case by (rule topo_new_inv [OF assms(1)])
  next
    case (step t1 t2)
    then show ?case using topo_step_inv by blast
  qed
  have "\<exists>x. getIdentity e a t = Inr x \<and> (id_address x = a \<or> x = identity_nil)"
    using peers_okD(2) [OF topo_invD(1) [OF inv], of a] by (auto simp: getIdentity_def deref_def split: option.split)
  then show ?thesis
    using inv best_upstream_total [OF topo_invD(1) [OF inv]] any_alive_total [OF topo_invD(1) [OF inv]]
      doPeriodicTasks_inv [OF inv, of e' now]
    by (auto simp: getUpstreamPeer_def isPlanetReachable_def isWorldReachable_def Let_def split: option.split)
qed

section \<open>Examples\<close>

definition demo_topo_crypto :: "unit crypto" where
  "demo_topo_crypto = \<lparr>ecc_sign = \<lambda>_ _ _. replicate 96 7, ecc_verify = \<lambda>_ _ sig. sig = replicate 96 7,
     sha512 = \<lambda>_. replicate 64 0, sha384 = \<lambda>_. replicate 48 0, s20_init = \<lambda>_ _. (), s20_crypt = \<lambda>s m. (m, s)\<rparr>"

definition demo_topo_env :: "unit topo_env" where
  "demo_topo_env = \<lparr>te_peer = demo_env, te_crypto = demo_topo_crypto, te_alloc = \<lambda>_. True, te_peerCap = 16,
     te_get = \<lambda>_ _. [], te_references = \<lambda>_. 1\<rparr>"

definition demo_root :: root where
  "demo_root = \<lparr>ro_identity = identity_nil\<lparr>id_address := addr_of 77\<rparr>, ro_endpoints = []\<rparr>"

definition demo_planet :: world where
  "demo_planet = world_nil\<lparr>w_id := 5, w_ts := 6, w_type := TYPE_PLANET, w_roots := [demo_root]\<rparr>"

lemma demo_env_ok: "env_ok demo_topo_env"
proof -
  have "deserializeFromCache demo_env \<lparr>bmem = replicate 16 0, blen = 0\<rparr> = None" by code_simp
  moreover have "buf_of 16 [] = Inr \<lparr>bmem = replicate 16 0, blen = 0\<rparr>" by code_simp
  ultimately show ?thesis by (simp add: env_ok_def demo_topo_env_def) (simp add: demo_env_def)
qed

theorem topology_invariant_witness:
  "topo_inv (te_self demo_topo_env) (fst (addWorld demo_topo_env demo_planet True (fst (topology_new demo_topo_env))))"
proof -
  have "(topo_step (te_crypto demo_topo_env) (te_self demo_topo_env))\<^sup>*\<^sup>* (fst (topology_new demo_topo_env))
      (fst (addWorld demo_topo_env demo_planet True (fst (topology_new demo_topo_env))))"
    by (intro r_into_rtranclp topo_step.topo_addWorld demo_env_ok refl)
  then show ?thesis using topology_invariant [OF demo_env_ok] by blast
qed

section \<open>The planet's chain of trust\<close>

text \<open>
  What can become of a world: a revision signed by the key it names, or its first root's
  endpoints set from DNS.
\<close>

inductive world_step :: "'s crypto \<Rightarrow> world \<Rightarrow> world \<Rightarrow> bool" for c where
  world_signed: "w_id u = w_id w \<Longrightarrow> w_type u = w_type w \<Longrightarrow> w_ts w < w_ts u \<Longrightarrow>
    world_serialize True u (buf_new (replicate WORLD_MAX 0)) = Inr tmp \<Longrightarrow>
    ecc_verify c (w_key w) (bdata tmp) (w_sig u) \<Longrightarrow> world_step c w u"
| world_endpoints: "w_roots w = r # rs \<Longrightarrow> world_step c w (w\<lparr>w_roots := r\<lparr>ro_endpoints := eps\<rparr> # rs\<rparr>)"

lemma replaced_signed:
  assumes "shouldBeReplacedBy c cur u = Inr True" "w_id cur \<noteq> 0" "w_type cur \<noteq> TYPE_NULL"
  shows "world_step c cur u"
proof -
  obtain tmp where "w_id u = w_id cur" "w_type u = w_type cur" "w_ts cur < w_ts u"
    "world_serialize True u (buf_new (replicate WORLD_MAX 0)) = Inr tmp" "ecc_verify c (w_key cur) (bdata tmp) (w_sig u)"
    using assms by (auto simp: shouldBeReplacedBy_def bind_res_def split: if_splits sum.splits)
  then show ?thesis by (rule world_signed)
qed

lemma refreshed_step: "refreshed w eps = Some w' \<Longrightarrow> world_step c w w'"
  by (auto simp: refreshed_def setRootStableEndpoints_def Let_def split: list.splits if_splits intro: world_endpoints)

lemma world_step_keeps: "world_step c w u \<Longrightarrow> w_id u = w_id w \<and> w_type u = w_type w \<and> w_ts w \<le> w_ts u"
  by (induction rule: world_step.induct) auto

lemma world_steps_keep:
  "(world_step c)\<^sup>*\<^sup>* w u \<Longrightarrow> w_id u = w_id w \<and> w_type u = w_type w \<and> w_ts w \<le> w_ts u"
  by (induction rule: rtranclp_induct) (use world_step_keeps in fastforce)+

definition world_core :: "world \<Rightarrow> u64 \<times> world_type \<times> u64 \<times> u8 list \<times> u8 list \<times> identity list" where
  "world_core w = (w_id w, w_type w, w_ts w, w_key w, w_sig w, map ro_identity (w_roots w))"

lemma world_step_core:
  "world_step c w u \<Longrightarrow> world_core u = world_core w \<or> w_ts w < w_ts u \<and> (\<exists>m. ecc_verify c (w_key w) m (w_sig u))"
  by (induction rule: world_step.induct) (auto simp: world_core_def)

text \<open>Without a signature that the key in force verifies nothing but endpoints changes.\<close>

lemma world_steps_core:
  "(world_step c)\<^sup>*\<^sup>* w u \<Longrightarrow> world_core u = world_core w \<or> w_ts w < w_ts u \<and> (\<exists>m s. ecc_verify c (w_key w) m s)"
proof (induction rule: rtranclp_induct)
  case (step u v)
  note k = world_step_core [OF step.hyps(2)]
  from step.IH show ?case
  proof
    assume e: "world_core u = world_core w"
    then have "w_ts u = w_ts w" "w_key u = w_key w" by (simp_all add: world_core_def)
    then show ?thesis using k e by auto
  next
    assume "w_ts w < w_ts u \<and> (\<exists>m s. ecc_verify c (w_key w) m s)"
    then show ?thesis using world_step_keeps [OF step.hyps(2)] by auto
  qed
qed simp

lemma memo_root_planet: "tp_planet (fst (memo_root e r t)) = tp_planet t"
  by (auto simp: memo_root_def Let_def split: option.split sum.split)

lemma memo_roots_planet: "tp_planet (fst (memo_roots e rs t)) = tp_planet t"
proof (induction e rs t rule: memo_roots.induct)
  case (2 e r rs t)
  then show ?case using memo_root_planet [of e r t] by (auto split: prod.split sum.split)
qed simp

lemma memoize_planet: "tp_planet (fst (memoizeUpstreams e t)) = tp_planet t"
  using memo_roots_planet [of e "w_roots (tp_planet t) @ concat (map w_roots (tp_moons t))" "t\<lparr>tp_upstreams := [], tp_amUpstream := False\<rparr>"]
  by (auto simp: memoizeUpstreams_def split: prod.split sum.split)

lemma store_memo_planet: "tp_planet (fst (store_and_memoize e w t)) = tp_planet t"
  using memoize_planet [of e t] by (auto simp: store_and_memoize_def split: prod.split sum.split)

lemma addWorld_planet:
  assumes "w_id (tp_planet t) \<noteq> 0" "w_type (tp_planet t) \<noteq> TYPE_NULL"
  shows "(world_step (te_crypto e))\<^sup>=\<^sup>= (tp_planet t) (tp_planet (fst (addWorld e w always t)))"
proof (cases "w_type w")
  case TYPE_PLANET
  then show ?thesis using replaced_signed [OF _ assms, of "te_crypto e" w]
    by (auto simp: addWorld_def store_memo_planet split: sum.split bool.split)
next
  case TYPE_MOON
  then show ?thesis by (simp add: addWorld_def store_memo_planet split: option.split sum.split bool.split)
qed (simp add: addWorld_def)

lemma relink_planet: "tp_planet (fst (relink e w ob t)) = tp_planet t"
  using store_memo_planet [of e w "erase_peer (root_addr (hd (w_roots w))) t"]
  by (cases "store_and_memoize e w (erase_peer (root_addr (hd (w_roots w))) t)") (simp add: relink_def)

lemma expire_peers_planet: "tp_planet (fst (expire_peers e now ps t)) = tp_planet t"
  by (induction e now ps t rule: expire_peers.induct) (auto split: prod.splits option.splits)

lemma expire_paths_planet: "tp_planet (expire_paths e t) = tp_planet t"
proof -
  have "tp_planet (fold (\<lambda>(k, r) t. if te_references e r \<le> 1
      then t\<lparr>tp_paths := fst (ht_erase hc_path k (tp_paths t))\<rparr> else t) es t) = tp_planet t" for es
    by (induction es arbitrary: t) auto
  then show ?thesis by (simp add: expire_paths_def)
qed

lemma topo_step_planet:
  "topo_step c self t t' \<Longrightarrow> w_id (tp_planet t) \<noteq> 0 \<Longrightarrow> w_type (tp_planet t) = TYPE_PLANET \<Longrightarrow>
    (world_step c)\<^sup>=\<^sup>= (tp_planet t) (tp_planet t')"
proof (induction rule: topo_step.induct)
  case (topo_addWorld e t w always)
  then show ?case using addWorld_planet [of t e w always] by simp
next
  case (topo_planetEndpoints e t eps)
  then show ?case using refreshed_step [of "tp_planet t" eps _ c]
    by (auto simp add: setPlanetEndpoints_def relink_planet split: option.split)
next
  case (topo_moonEndpoints e t i eps)
  then show ?case by (simp add: setMoonEndpoints_def relink_planet split: option.split)
next
  case (topo_addMoon e t i seed)
  have "(world_step c)\<^sup>=\<^sup>= (tp_planet t) (tp_planet (fst (addWorld e w True t)))" for w
    using addWorld_planet [of t e w True] topo_addMoon by simp
  then show ?case
    by (simp add: addMoon_def Let_def case_prod_beta split: option.split sum.split)
next
  case (topo_removeMoon e t i)
  then show ?case by (simp add: removeMoon_def Let_def case_prod_beta memoize_planet)
next
  case (topo_getPeer e t a)
  then show ?case by (simp add: getPeer_def Let_def split: option.split sum.split prod.split)
next
  case (topo_addPeer e t p)
  then show ?case by (simp add: addPeer_def Let_def split: option.split)
next
  case (topo_periodic e t now)
  then show ?case using expire_peers_planet [of e now "ht_entries (tp_peers t)" t]
    by (cases "expire_peers e now (ht_entries (tp_peers t)) t") (simp add: topo_doPeriodicTasks_def expire_paths_planet split: sum.split)
next
  case (topo_getPath e t l r)
  then show ?case by (simp add: getPath_def Let_def split: option.split)
next
  case (topo_config t net cfg)
  then show ?case by (simp add: setPhysicalPathConfiguration_def Let_def split: option.split)
qed simp_all

text \<open>
  Claim C2: once a node has a planet, every later planet descends from it by revisions that each carry a
  signature the key before it verifies, and by endpoints set from DNS: the planet's id never
  changes and its time never goes back; and unless the key in force verifies some signature, its
  time, key, signature and the identities of its roots never change whatever is received,
  loaded or resolved.
\<close>

theorem planet_chain_of_trust:
  assumes "w_id (tp_planet t) \<noteq> 0" "w_type (tp_planet t) = TYPE_PLANET" "(topo_step c self)\<^sup>*\<^sup>* t t'"
  shows "(world_step c)\<^sup>*\<^sup>* (tp_planet t) (tp_planet t') \<and> w_id (tp_planet t') = w_id (tp_planet t) \<and>
    w_type (tp_planet t') = TYPE_PLANET \<and> w_ts (tp_planet t) \<le> w_ts (tp_planet t') \<and>
    ((\<forall>m s. \<not> ecc_verify c (w_key (tp_planet t)) m s) \<longrightarrow> world_core (tp_planet t') = world_core (tp_planet t))"
proof -
  from assms(3) have st: "(world_step c)\<^sup>*\<^sup>* (tp_planet t) (tp_planet t')"
  proof (induction rule: rtranclp_induct)
    case (step u v)
    have "w_id (tp_planet u) \<noteq> 0" "w_type (tp_planet u) = TYPE_PLANET" using world_steps_keep [OF step.IH] assms(1,2) by simp_all
    then have "(world_step c)\<^sup>=\<^sup>= (tp_planet u) (tp_planet v)" using topo_step_planet [OF step.hyps(2)] by blast
    then show ?case using step.IH by auto
  qed simp
  then show ?thesis using world_steps_keep [OF st] world_steps_core [OF st] assms(2) by auto
qed

definition deaf :: "'s crypto \<Rightarrow> 's crypto" where "deaf c = c\<lparr>ecc_verify := \<lambda>_ _ _. False\<rparr>"

theorem planet_chain_of_trust_witness:
  "world_core (tp_planet (fst (addWorld (demo_topo_env\<lparr>te_crypto := deaf demo_topo_crypto\<rparr>) (demo_planet\<lparr>w_ts := 9\<rparr>) True
     (topology_empty\<lparr>tp_planet := demo_planet\<rparr>)))) = world_core demo_planet"
proof -
  let ?e = "demo_topo_env\<lparr>te_crypto := deaf demo_topo_crypto\<rparr>" and ?t = "topology_empty\<lparr>tp_planet := demo_planet\<rparr>"
  have "env_ok ?e" using demo_env_ok by (simp add: env_ok_def)
  then have "(topo_step (te_crypto ?e) (te_self ?e))\<^sup>*\<^sup>* ?t (fst (addWorld ?e (demo_planet\<lparr>w_ts := 9\<rparr>) True ?t))"
    by (intro r_into_rtranclp topo_step.topo_addWorld refl)
  then show ?thesis using planet_chain_of_trust [of ?t "te_crypto ?e" "te_self ?e"]
    by (simp add: demo_planet_def deaf_def)
qed

section \<open>The stored planet\<close>

lemma put_world_bytes:
  assumes "world_ok w"
  shows "put_world w = [PutObject (if w_type w = TYPE_PLANET then OBJECT_PLANET else OBJECT_MOON) (w_id w) (world_enc False w)]"
proof -
  let ?b = "buf_new (replicate WORLD_MAX 0)"
  have "small ?b" "fits ?b (world_enc False w)"
    using length_world_enc [OF assms, of False] by (simp_all add: fits_def bsize_def bcap_def buf_new_def WORLD_MAX_def small_def buf_ok_def)
  from appendsD(1) [OF appends_world [OF assms] this] show ?thesis by (auto simp: put_world_def grown_def)
qed

lemma load_world_enc:
  assumes "world_ok w" shows "load_world (world_enc False w) = Some w"
proof -
  let ?bs = "world_enc False w"
  have n: "length ?bs \<le> 3200" using length_world_enc [OF assms, of False] .
  then have u: "unat (of_nat (length ?bs) :: u32) = length ?bs" by (simp add: unat_of_nat_u32)
  let ?b = "\<lparr>bmem = mem_write (replicate WORLD_MAX 0) 0 ?bs, blen = of_nat (length ?bs)\<rparr>"
  have "buf_of WORLD_MAX ?bs = Inr ?b"
    using n u by (simp add: buf_of_def buf_copyFrom_def buf_new_def bcap_def bcap32_def WORLD_MAX_def word_less_nat_alt unat_of_nat_u32)
  moreover have "at_pos ?b 0 (?bs @ [])"
    using n u by (simp add: at_pos_def small_def buf_ok_def bdata_def bsize_def bcap_def mem_write_def WORLD_MAX_def)
  ultimately show ?thesis using world_des_enc [OF assms] by (simp add: load_world_def del: append_Nil2)
qed

text \<open>
  Claim C38: what the host is given to keep when a planet is accepted is what a restarted node starts with: the
  same planet, and as upstreams the planet's roots other than the node itself. The upstreams before
  the restart were these and the roots of the moons, which a restarted node does not have until it is
  told to orbit them again; without moons the restarted node has the same upstreams.
\<close>

theorem planet_restart:
  assumes w: "world_ok w" "w_type w = TYPE_PLANET" and e: "env_ok e"
    and stored: "addWorld e0 w False t0 = (t1, [PutObject OBJECT_PLANET i bs], Inr True)" "te_get e OBJECT_PLANET 0 = bs"
    and before: "env_ok e0" "te_self e0 = te_self e" "topo_inv (te_self e0) t0"
  shows "let t2 = fst (topology_new e); ours = (\<lambda>r. identity_eq (ro_identity r) (te_self e)) in
    tp_planet t1 = w \<and> tp_planet t2 = w \<and> tp_moons t2 = [] \<and>
    set (tp_upstreams t2) = root_addr ` {r \<in> set (w_roots w). \<not> ours r} \<and>
    set (tp_upstreams t1) = set (tp_upstreams t2) \<union> root_addr ` {r \<in> (\<Union>m\<in>set (tp_moons t1). set (w_roots m)). \<not> ours r} \<and>
    (tp_moons t1 = [] \<longrightarrow> tp_upstreams t1 = tp_upstreams t2)"
proof -
  have "tp_planet t1 = w \<and> put_world w = [PutObject OBJECT_PLANET i bs]"
    using stored(1) w(2) store_memo_planet [of e0 w "t0\<lparr>tp_planet := w\<rparr>"]
    by (auto simp: addWorld_def store_and_memoize_def split: sum.splits bool.splits prod.splits)
  then have p: "tp_planet t1 = w" "bs = world_enc False w" using put_world_bytes [OF w(1)] w(2) by auto
  have ne: "world_enc False w \<noteq> []" by (simp add: world_enc_def world_head_def)
  have sr: "shouldBeReplacedBy (te_crypto e) world_nil w = Inr True" by (simp add: shouldBeReplacedBy_def world_nil_def)
  let ?t = "topology_empty\<lparr>tp_planet := w\<rparr>"
  have new: "fst (topology_new e) = fst (store_and_memoize e w ?t)"
    using p(2) ne stored(2) load_world_enc [OF w(1)] w(2) sr
    by (simp add: topology_new_def addWorld_def topology_empty_def case_prod_beta)
  note e0 = topo_empty_inv [of "te_self e"]
  have "worlds_ok ?t" using worlds_ok_update(1) [OF topo_invD(3) [OF e0], of w] w(2) by simp
  then obtain t' where t': "fst (store_and_memoize e w ?t) = t'" "topo_inv (te_self e) t'" "same_worlds ?t t'"
    using store_memo_inv [OF e, of ?t w] topo_invD [OF e0] by auto
  then have n: "tp_planet t' = w" "tp_moons t' = []" by (simp_all add: same_worlds_def topology_empty_def)
  have t1: "topo_inv (te_self e) t1"
    using addWorld_inv [OF before(1,3), of w False] stored(1) before(2) by simp
  note u = topo_invD(2) [OF t'(2), unfolded upstreams_ok_def all_roots_def n] topo_invD(2) [OF t1, unfolded upstreams_ok_def all_roots_def p(1)]
  have sets: "set (tp_upstreams t') = root_addr ` {r \<in> set (w_roots w). \<not> identity_eq (ro_identity r) (te_self e)}"
    "set (tp_upstreams t1) = root_addr ` {r \<in> set (w_roots w). \<not> identity_eq (ro_identity r) (te_self e)} \<union>
      root_addr ` {r \<in> (\<Union>m\<in>set (tp_moons t1). set (w_roots m)). \<not> identity_eq (ro_identity r) (te_self e)}"
    using u by auto
  have "tp_upstreams t1 = tp_upstreams t'" if "tp_moons t1 = []"
    using sets that u by (intro sorted_distinct_set_unique) auto
  then show ?thesis using p(1) sets n unfolding Let_def new t'(1) by simp
qed

lemma demo_planet_ok: "world_ok demo_planet"
  by (simp add: demo_planet_def demo_root_def world_ok_def root_ok_def world_nil_def identity_ok_def identity_nil_def addr_of_def addr_ok_def)

theorem planet_restart_witness:
  "tp_planet (fst (topology_new (demo_topo_env\<lparr>te_get := \<lambda>ob _. if ob = OBJECT_PLANET then world_enc False demo_planet else []\<rparr>)))
    = demo_planet"
proof -
  let ?e = "demo_topo_env\<lparr>te_get := \<lambda>ob _. if ob = OBJECT_PLANET then world_enc False demo_planet else []\<rparr>"
  have e: "env_ok ?e" using demo_env_ok by (simp add: env_ok_def demo_topo_env_def)
  let ?t = "topology_empty\<lparr>tp_planet := demo_planet\<rparr>"
  have ty: "w_type demo_planet = TYPE_PLANET" by (simp add: demo_planet_def)
  have "worlds_ok ?t" using worlds_ok_update(1) [OF topo_invD(3) [OF topo_empty_inv], of demo_planet] ty by simp
  then obtain t' where "store_and_memoize ?e demo_planet ?t = (t', put_world demo_planet, Inr True)"
    using store_memo_inv [OF e, of ?t demo_planet] topo_invD [OF topo_empty_inv] by auto
  then have "addWorld ?e demo_planet False topology_empty = (t', [PutObject OBJECT_PLANET (w_id demo_planet) (world_enc False demo_planet)], Inr True)"
    using put_world_bytes [OF demo_planet_ok] ty
    by (simp add: addWorld_def shouldBeReplacedBy_def topology_empty_def world_nil_def)
  from planet_restart [OF demo_planet_ok ty e this _ e refl topo_empty_inv] show ?thesis by (simp add: Let_def)
qed

section \<open>Dynamic endpoints of the planet\<close>

lemma same_endpoint_refl [simp]: "same_endpoint a a"
  by (simp add: same_endpoint_def inet_ipsEqual_def)










definition demo_resolved :: inet where "demo_resolved = inet_set [5, 6, 7, 8] 4 9993"



text \<open>
  Without ports in the answers the refresh is not idempotent: the port taken from the first
  endpoint is another one the second time, when a private endpoint has moved to the front.
\<close>

lemma resolved_port_drifts:
  "let r = demo_root\<lparr>ro_endpoints := [inet_set [1, 1, 1, 1] 4 9000, inet_set [10, 0, 0, 1] 4 7000]\<rparr>;
       eps = [inet_set [2, 2, 2, 2] 4 0];
       first = mergeRootEndpoints r eps;
       second = mergeRootEndpoints (r\<lparr>ro_endpoints := first\<rparr>) eps in
    map inet_port first = [7000, 9000] \<and> map inet_port second = [7000, 7000]"
  by code_simp

text \<open>An empty answer is not the same as no change: it drops the public endpoints.\<close>

lemma no_answer_drops_public:
  "let r = demo_root\<lparr>ro_endpoints := [inet_set [10, 0, 0, 1] 4 7000, inet_set [1, 1, 1, 1] 4 9000]\<rparr> in
    mergeRootEndpoints r [] = [inet_set [10, 0, 0, 1] 4 7000] \<and> \<not> sameEndpoints r (mergeRootEndpoints r [])"
  by code_simp

text \<open>A resolved private address is kept as if it had been configured, whatever DNS says later.\<close>

lemma resolved_private_stays:
  "let a = inet_set [10, 9, 9, 9] 4 9993; b = inet_set [2, 2, 2, 2] 4 9993;
       r = demo_root\<lparr>ro_endpoints := mergeRootEndpoints demo_root [a]\<rparr> in
    mergeRootEndpoints r [b] = [a, b]"
  by code_simp

text \<open>The first planet is accepted whatever its signature.\<close>

lemma first_planet_unsigned:
  "w_type w = TYPE_PLANET \<Longrightarrow> env_ok e \<Longrightarrow> tp_planet (fst (addWorld e w False topology_empty)) = w"
  by (simp add: addWorld_def shouldBeReplacedBy_def topology_empty_def world_nil_def store_memo_planet)

text \<open>A peer found in the cache is put in the table, and the call that found it gives null.\<close>

lemma getPeer_first_null:
  "a \<noteq> id_address (te_self e) \<Longrightarrow> peer_at t a = None \<Longrightarrow> snd (snd (getPeer e a t)) = None"
  by (simp add: getPeer_def Let_def split: sum.split option.split prod.split)

section \<open>Configured paths\<close>

definition mtu_ok :: "u32 \<Rightarrow> bool" where
  "mtu_ok m \<longleftrightarrow> MIN_PHYSMTU \<le>s m \<and> m \<le>s MAX_PHYSMTU"

definition config_ok :: "(inet \<times> phys_config) list \<Rightarrow> bool" where
  "config_ok cs \<longleftrightarrow> length cs \<le> MAX_CONFIGURABLE_PATHS \<and> (\<forall>(n, c)\<in>set cs. mtu_ok (pc_mtu c))"

lemma clamp_ok: "mtu_ok (clamp_physmtu m)"
proof -
  have "mtu_ok DEFAULT_PHYSMTU" "mtu_ok MIN_PHYSMTU" "mtu_ok MAX_PHYSMTU" by code_simp+
  then show ?thesis by (auto simp: clamp_physmtu_def mtu_ok_def word_sless_alt word_sle_eq)
qed

lemma omap_set_vals: "snd ` set (omap_set k v m) \<subseteq> insert v (snd ` set m)"
  by (induction k v m rule: omap_set.induct) auto

lemma omap_erase_vals: "snd ` set (omap_erase k m) \<subseteq> snd ` set m"
  by (induction k m rule: omap_erase.induct) auto

lemma omap_rebuild_vals: "snd ` set (foldl (\<lambda>m (k, v). omap_set k v m) m0 cs) \<subseteq> snd ` set m0 \<union> snd ` set cs"
proof (induction cs arbitrary: m0)
  case (Cons c cs)
  obtain k v where c: "c = (k, v)" by (cases c)
  have "snd ` set (foldl (\<lambda>m (k, v). omap_set k v m) (omap_set k v m0) cs) \<subseteq> snd ` set (omap_set k v m0) \<union> snd ` set cs"
    by (rule Cons.IH)
  then show ?case using omap_set_vals [of k v m0] c by auto
qed simp

lemma setPhysical_ok:
  assumes "config_ok (tp_config t)" shows "config_ok (tp_config (setPhysicalPathConfiguration net cfg t))"
proof (cases net)
  case (Some n)
  let ?m = "foldl (\<lambda>m (k, v). omap_set k v m) [] (tp_config t)"
  let ?m' = "case cfg of Some c \<Rightarrow> omap_set n (c\<lparr>pc_mtu := clamp_physmtu (pc_mtu c)\<rparr>) ?m | None \<Rightarrow> omap_erase n ?m"
  have m: "\<forall>c\<in>snd ` set ?m. mtu_ok (pc_mtu c)"
    using assms omap_rebuild_vals [of "[]" "tp_config t"] by (fastforce simp: config_ok_def)
  have "\<forall>c\<in>snd ` set ?m'. mtu_ok (pc_mtu c)"
  proof (cases cfg)
    case None
    then show ?thesis using m omap_erase_vals [of n ?m] unfolding None option.case by blast
  next
    case (Some c)
    show ?thesis
    proof
      fix x assume "x \<in> snd ` set ?m'"
      then have "x = c\<lparr>pc_mtu := clamp_physmtu (pc_mtu c)\<rparr> \<or> x \<in> snd ` set ?m"
        using omap_set_vals [of n "c\<lparr>pc_mtu := clamp_physmtu (pc_mtu c)\<rparr>" ?m] Some by auto
      then show "mtu_ok (pc_mtu x)" using m clamp_ok by auto
    qed
  qed
  then have "\<forall>x\<in>set (take MAX_CONFIGURABLE_PATHS ?m'). mtu_ok (pc_mtu (snd x))" by (auto dest: in_set_takeD)
  then show ?thesis using Some by (auto simp: setPhysicalPathConfiguration_def Let_def config_ok_def)
qed (simp add: setPhysicalPathConfiguration_def config_ok_def)

lemma config_of_in: "config_of a cs = Inr (Some c) \<Longrightarrow> c \<in> snd ` set cs"
  by (induction a cs rule: config_of.induct) (auto simp: bind_res_def split: sum.splits if_splits)

lemma DEFAULT_ok: "mtu_ok DEFAULT_PHYSMTU"
  by code_simp

text \<open>
  Whatever calls configure the physical paths, there are never more than the array holds, and the
  MTU used for any address lies between the smallest and the largest the protocol allows.
\<close>

lemma physical_mtu_bounds:
  assumes "t = fold (\<lambda>(n, c). setPhysicalPathConfiguration n c) calls topology_empty"
  shows "length (tp_config t) \<le> MAX_CONFIGURABLE_PATHS \<and>
    (\<forall>a m. getOutboundPathMtu a t = Inr m \<longrightarrow> 510 \<le> sint m \<and> sint m \<le> 10324)"
proof -
  have "config_ok (tp_config t0) \<Longrightarrow> config_ok (tp_config (fold (\<lambda>(n, c). setPhysicalPathConfiguration n c) calls t0))" for t0
    by (induction calls arbitrary: t0) (auto simp: setPhysical_ok)
  from this [of topology_empty] have ok: "config_ok (tp_config t)" by (simp add: assms config_ok_def topology_empty_def)
  have "510 \<le> sint m \<and> sint m \<le> 10324" if g: "getOutboundPathMtu a t = Inr m" for a m
  proof -
    have "mtu_ok m"
      using g ok DEFAULT_ok by (auto simp: getOutboundPathMtu_def bind_res_def config_ok_def dest!: config_of_in split: sum.splits option.splits)
    then show ?thesis by (simp add: mtu_ok_def MIN_PHYSMTU_def MAX_PHYSMTU_def word_sle_eq)
  qed
  then show ?thesis using ok by (simp add: config_ok_def)
qed

lemma physical_mtu_bounds_witness:
  "length (tp_config (fold (\<lambda>(n, c). setPhysicalPathConfiguration n c)
     [(Some demo_resolved, Some \<lparr>pc_trustedPathId = 1, pc_mtu = 5\<rparr>)] topology_empty)) \<le> 32"
  using physical_mtu_bounds [OF refl, of "[(Some demo_resolved, Some \<lparr>pc_trustedPathId = 1, pc_mtu = 5\<rparr>)]"]
  by (simp add: MAX_CONFIGURABLE_PATHS_def)

end
