(* ===== verification/ZT_Multicaster.thy ===== *)
theory ZT_Multicaster
  imports ZT_Filter ZT_Topology "HOL-Library.Multiset"
begin

text \<open>
  \<^verbatim>\<open>node/Multicaster.hpp\<close>, \<^verbatim>\<open>node/Multicaster.cpp\<close>, \<^verbatim>\<open>node/OutboundMulticast.hpp\<close> and
  \<^verbatim>\<open>node/OutboundMulticast.cpp\<close>: who is known to listen to a multicast group, answers to gather
  queries, and the replication of a frame to the members, now and as they become known. The
  frame passes the network's outgoing filter for each recipient.
\<close>

section \<open>Outbound multicasts\<close>

text \<open>\<open>om_frame\<close> is \<^verbatim>\<open>_frameData\<close> up to \<^verbatim>\<open>_frameLen\<close>; \<^verbatim>\<open>_tmp\<close> is scratch space.\<close>

record outbound =
  om_ts :: u64
  om_nwid :: u64
  om_macSrc :: mac
  om_macDest :: mac
  om_limit :: u32
  om_etherType :: u32
  om_packet :: zbuf
  om_sent :: "address list"
  om_frame :: "u8 list"

datatype mc_out =
    SwSend zbuf u64
  | ExpectReply u64
  | PushCredentials u64 address
  | FilterFrame ext_frame
  | PathSend nat zbuf

text \<open>
  What multicasting needs from the node. \<open>me_iv\<close> are the random bytes of the packet for a
  recipient, \<open>me_perm\<close>, \<open>me_pick\<close> and \<open>me_shuffle\<close> the random numbers of the three loops by their
  counters, \<open>me_filterRnd\<close> those of the filter, \<open>me_subscribed\<close> the network's own subscriptions.
\<close>

record mc_env =
  me_self :: address
  me_alloc :: "nat \<Rightarrow> bool"
  me_crypto :: pcrypto
  me_iv :: "address \<Rightarrow> u8 list"
  me_filterRnd :: "nat \<Rightarrow> nat \<Rightarrow> u64"
  me_perm :: "nat \<Rightarrow> u64"
  me_pick :: "nat \<Rightarrow> u64"
  me_shuffle :: "nat \<Rightarrow> u64"
  me_lowBandwidth :: bool
  me_subscribed :: "u64 \<Rightarrow> multicast_group \<Rightarrow> bool"
  me_topo :: topology

definition MAX_MTU :: nat where "MAX_MTU = 10000"
definition TRANSMIT_TIMEOUT :: u64 where "TRANSMIT_TIMEOUT = 5000"
definition LIKE_EXPIRE :: u64 where "LIKE_EXPIRE = 600000"
definition EXPLICIT_GATHER_DELAY :: u64 where "EXPLICIT_GATHER_DELAY = LIKE_EXPIRE div 10"
definition TX_QUEUE_SIZE :: nat where "TX_QUEUE_SIZE = 32"
definition MAX_PACKET :: nat where "MAX_PACKET = 10024"

text \<open>Writes to a packet in order; when one throws, what the ones before it wrote stays.\<close>

fun write_until :: "(zbuf \<Rightarrow> zbuf res) list \<Rightarrow> zbuf \<Rightarrow> zbuf \<times> unit res" where
  "write_until [] b = (b, Inr ())"
| "write_until (f # fs) b = (case f b of Inl x \<Rightarrow> (b, Inl x) | Inr b' \<Rightarrow> write_until fs b')"

text \<open>The default constructors of \<^verbatim>\<open>Packet\<close> and \<^verbatim>\<open>OutboundMulticast\<close>.\<close>

definition pkt_default :: "u8 list \<Rightarrow> zbuf" where
  "pkt_default iv = \<lparr>bmem = iv @ replicate (MAX_PACKET - length iv) 0, blen = 28\<rparr>"

definition om_default :: "mc_env \<Rightarrow> outbound" where
  "om_default e = \<lparr>om_ts = 0, om_nwid = 0, om_macSrc = mac_zero, om_macDest = mac_zero, om_limit = 0, om_etherType = 0,
     om_packet = pkt_default (me_iv e addr_nil), om_sent = [], om_frame = []\<rparr>"

definition om_writes :: "mc_env \<Rightarrow> u64 \<Rightarrow> u32 \<Rightarrow> mac \<Rightarrow> multicast_group \<Rightarrow> u32 \<Rightarrow> u8 list \<Rightarrow> (zbuf \<Rightarrow> zbuf res) list" where
  "om_writes e nwid gatherLimit src dest etherType frame =
     [setSource (me_self e), setVerb VERB_MULTICAST_FRAME, buf_append_int 8 nwid,
      buf_append_int 1 ((if mac_bool src then 0x04 else 0) OR (if gatherLimit \<noteq> 0 then 0x02 else 0) :: u8)] @
     (if gatherLimit \<noteq> 0 then [buf_append_int 4 gatherLimit] else []) @
     (if mac_bool src then [mac_appendTo src] else []) @
     [mac_appendTo (mg_mac dest), buf_append_int 4 (mg_adi dest), buf_append_int 2 (ucast etherType :: u16),
      buf_append_bytes frame (of_nat (length frame))]"

definition om_init :: "mc_env \<Rightarrow> u64 \<Rightarrow> u64 \<Rightarrow> bool \<Rightarrow> u32 \<Rightarrow> u32 \<Rightarrow> mac \<Rightarrow> multicast_group \<Rightarrow> u32 \<Rightarrow> u8 list \<Rightarrow>
    outbound \<Rightarrow> outbound \<times> unit res" where
  "om_init e ts nwid noComp limit gatherLimit src dest etherType payload om =
     (let frame = take MAX_MTU payload;
          om = om\<lparr>om_ts := ts, om_nwid := nwid,
             om_macSrc := (if mac_bool src then src else mac_fromAddress (me_self e) nwid),
             om_macDest := mg_mac dest, om_limit := limit, om_etherType := etherType\<rparr> in
      case write_until (om_writes e nwid gatherLimit src dest etherType frame) (om_packet om) of
        (b, Inl x) \<Rightarrow> (om\<lparr>om_packet := b\<rparr>, Inl x)
      | (b, Inr _) \<Rightarrow>
          (case (if noComp then Inr (False, b) else pkt_compress (me_crypto e) b) of
             Inl x \<Rightarrow> (om\<lparr>om_packet := b\<rparr>, Inl x)
           | Inr (_, b') \<Rightarrow> (om\<lparr>om_packet := b', om_frame := frame\<rparr>, Inr ())))"

definition om_expired :: "u64 \<Rightarrow> outbound \<Rightarrow> bool" where
  "om_expired now om \<longleftrightarrow> TRANSMIT_TIMEOUT \<le> now - om_ts om"

definition om_atLimit :: "outbound \<Rightarrow> bool" where
  "om_atLimit om \<longleftrightarrow> unat (om_limit om) \<le> length (om_sent om)"

definition om_wire :: "outbound \<Rightarrow> wire_frame" where
  "om_wire om = \<lparr>wf_macSource = om_macSrc om, wf_macDest = om_macDest om, wf_data = om_frame om,
     wf_etherType = om_etherType om, wf_vlanId = 0\<rparr>"

text \<open>
  A send to one recipient threads the multicast and the network the node has under its id, and
  gives what was sent beside the result. \<open>None\<close> is a network the node is no longer on.
\<close>

type_synonym om_state = "outbound \<times> network option"

definition sendOnly :: "mc_env \<Rightarrow> address \<Rightarrow> om_state \<Rightarrow> om_state \<times> mc_out list \<times> unit res" where
  "sendOnly e to st =
     (case st of
        (om, None) \<Rightarrow> (st, [], Inr ())
      | (om, Some n) \<Rightarrow>
          (case filterOutgoingPacket (me_self e) (me_filterRnd e) True (me_self e) to (om_wire om) 255 n of
             Inl x \<Rightarrow> (st, [], Inl x)
           | Inr (accept, _, n', tees) \<Rightarrow>
               if accept then
                 (case bind_res (newInitializationVector (me_iv e to) (om_packet om)) (\<lambda>b.
                         bind_res (setDestination to b) (\<lambda>b. bind_res (packetId b) (\<lambda>i. Inr (b, i)))) of
                    Inl x \<Rightarrow> ((om, Some n'), map FilterFrame tees @ [PushCredentials (om_nwid om) to], Inl x)
                  | Inr (b, i) \<Rightarrow> ((om\<lparr>om_packet := b\<rparr>, Some n'),
                      map FilterFrame tees @ [PushCredentials (om_nwid om) to, ExpectReply i, SwSend b (om_nwid om)], Inr ()))
               else ((om, Some n'), map FilterFrame tees, Inr ())))"

definition logAsSent :: "address \<Rightarrow> outbound \<Rightarrow> outbound" where
  "logAsSent a om = om\<lparr>om_sent := om_sent om @ [a]\<rparr>"

definition sendAndLog :: "mc_env \<Rightarrow> address \<Rightarrow> om_state \<Rightarrow> om_state \<times> mc_out list \<times> unit res" where
  "sendAndLog e to st = sendOnly e to (logAsSent to (fst st), snd st)"

definition sendIfNew :: "mc_env \<Rightarrow> address \<Rightarrow> om_state \<Rightarrow> om_state \<times> mc_out list \<times> unit res" where
  "sendIfNew e to st = (if to \<in> set (om_sent (fst st)) then (st, [], Inr ()) else sendAndLog e to st)"

text \<open>Sends in order, up to the first that throws.\<close>

fun send_each :: "(address \<Rightarrow> om_state \<Rightarrow> om_state \<times> mc_out list \<times> unit res) \<Rightarrow> address list \<Rightarrow> om_state \<Rightarrow>
    om_state \<times> mc_out list \<times> unit res" where
  "send_each f [] st = (st, [], Inr ())"
| "send_each f (a # as) st =
     (case f a st of
        (st', out, Inl x) \<Rightarrow> (st', out, Inl x)
      | (st', out, Inr _) \<Rightarrow> (case send_each f as st' of (st'', out', r) \<Rightarrow> (st'', out @ out', r)))"

section \<open>Groups\<close>

type_synonym mc_key = "u64 \<times> multicast_group"

definition mc_hash :: "mc_key \<Rightarrow> nat" where
  "mc_hash k = unat (mg_hashCode (snd k) XOR (fst k XOR drop_bit 32 (fst k)))"

record mc_group =
  gr_lastGather :: u64
  gr_tx :: "outbound list"
  gr_members :: "(address \<times> u64) list"

definition gr_new :: mc_group where
  "gr_new = \<lparr>gr_lastGather = 0, gr_tx = [], gr_members = []\<rparr>"

type_synonym multicaster = "(mc_key, mc_group) htable"

text \<open>\<^verbatim>\<open>std::lower_bound\<close> on members in order: the first not before the address.\<close>

definition lower_bound :: "address \<Rightarrow> (address \<times> u64) list \<Rightarrow> nat" where
  "lower_bound a ms = length (takeWhile (\<lambda>m. fst m < a) ms)"

text \<open>A new member is offered every queued multicast; one that has reached its limit leaves the queue.\<close>

fun offer_tx :: "mc_env \<Rightarrow> address \<Rightarrow> outbound list \<Rightarrow> network option \<Rightarrow> (outbound list \<times> network option) \<times> mc_out list \<times> unit res" where
  "offer_tx e a [] nw = (([], nw), [], Inr ())"
| "offer_tx e a (om # q) nw =
     (if om_atLimit om then offer_tx e a q nw
      else (case sendIfNew e a (om, nw) of
        ((om', nw'), out, Inl x) \<Rightarrow> ((om' # q, nw'), out, Inl x)
      | ((om', nw'), out, Inr _) \<Rightarrow>
          (case offer_tx e a q nw' of
             ((q', nw''), out', r) \<Rightarrow> ((if om_atLimit om' then q' else om' # q', nw''), out @ out', r))))"

definition gr_add :: "mc_env \<Rightarrow> u64 \<Rightarrow> address \<Rightarrow> mc_group \<times> network option \<Rightarrow> (mc_group \<times> network option) \<times> mc_out list \<times> unit res" where
  "gr_add e now a st =
     (case st of (g, nw) \<Rightarrow>
      if a = me_self e then (st, [], Inr ())
      else (let ms = gr_members g; k = lower_bound a ms in
        if k < length ms \<and> fst (ms ! k) = a then ((g\<lparr>gr_members := ms[k := (a, now)]\<rparr>, nw), [], Inr ())
        else (case offer_tx e a (gr_tx g) nw of
          ((q, nw'), out, r) \<Rightarrow> ((g\<lparr>gr_members := take k ms @ (a, now) # drop k ms, gr_tx := q\<rparr>, nw'), out, r))))"

definition mc_group_of :: "mc_env \<Rightarrow> mc_key \<Rightarrow> multicaster \<Rightarrow> multicaster \<times> mc_group" where
  "mc_group_of e k t =
     (let t = ht_index (me_alloc e) mc_hash gr_new k t in
      (t, case ht_get mc_hash t k of Some g \<Rightarrow> g | None \<Rightarrow> gr_new))"

definition mc_add :: "mc_env \<Rightarrow> u64 \<Rightarrow> mc_key \<Rightarrow> address \<Rightarrow> multicaster \<times> network option \<Rightarrow>
    (multicaster \<times> network option) \<times> mc_out list \<times> unit res" where
  "mc_add e now k a st =
     (case st of (t, nw) \<Rightarrow>
      case mc_group_of e k t of (t, g) \<Rightarrow>
      case gr_add e now a (g, nw) of ((g', nw'), out, r) \<Rightarrow>
      ((ht_set (me_alloc e) mc_hash k g' t, nw'), out, r))"

fun gr_add_all :: "mc_env \<Rightarrow> u64 \<Rightarrow> address list \<Rightarrow> mc_group \<times> network option \<Rightarrow> (mc_group \<times> network option) \<times> mc_out list \<times> unit res" where
  "gr_add_all e now [] st = (st, [], Inr ())"
| "gr_add_all e now (a # as) st =
     (case gr_add e now a st of
        (st', out, Inl x) \<Rightarrow> (st', out, Inl x)
      | (st', out, Inr _) \<Rightarrow> (case gr_add_all e now as st' of (st'', out', r) \<Rightarrow> (st'', out @ out', r)))"

text \<open>\<open>addMultiple\<close>, from the array of five-byte addresses.\<close>

fun five_bytes :: "u8 list \<Rightarrow> address list" where
  "five_bytes (a # b # c # d # e # bs) = addr_setTo [a, b, c, d, e] 5 # five_bytes bs"
| "five_bytes _ = []"

definition mc_addMultiple :: "mc_env \<Rightarrow> u64 \<Rightarrow> mc_key \<Rightarrow> u8 list \<Rightarrow> multicaster \<times> network option \<Rightarrow>
    (multicaster \<times> network option) \<times> mc_out list \<times> unit res" where
  "mc_addMultiple e now k bs st =
     (case st of (t, nw) \<Rightarrow>
      case mc_group_of e k t of (t, g) \<Rightarrow>
      case gr_add_all e now (five_bytes bs) (g, nw) of ((g', nw'), out, r) \<Rightarrow>
      ((ht_set (me_alloc e) mc_hash k g' t, nw'), out, r))"

fun remove_first :: "address \<Rightarrow> (address \<times> u64) list \<Rightarrow> (address \<times> u64) list" where
  "remove_first a [] = []"
| "remove_first a (m # ms) = (if fst m = a then ms else m # remove_first a ms)"

definition mc_remove :: "mc_env \<Rightarrow> mc_key \<Rightarrow> address \<Rightarrow> multicaster \<Rightarrow> multicaster" where
  "mc_remove e k a t =
     (case ht_get mc_hash t k of
        None \<Rightarrow> t
      | Some g \<Rightarrow> ht_set (me_alloc e) mc_hash k (g\<lparr>gr_members := remove_first a (gr_members g)\<rparr>) t)"

definition mc_getMembers :: "mc_key \<Rightarrow> u32 \<Rightarrow> multicaster \<Rightarrow> address list" where
  "mc_getMembers k limit t =
     (case ht_get mc_hash t k of
        None \<Rightarrow> []
      | Some g \<Rightarrow> take (max 1 (unat limit)) (map fst (rev (gr_members g))))"

section \<open>Gathering\<close>

text \<open>The search for a member not picked yet, from a random place on: it goes on until it finds one.\<close>

partial_function (option) pick_scan :: "u64 list \<Rightarrow> u64 list \<Rightarrow> u32 \<Rightarrow> u64 option" where
  "pick_scan ms picked r =
     (let a = ms ! unat (r mod of_nat (length ms)) in
      if a \<in> set picked then pick_scan ms picked (r + 1) else Some a)"

definition append_member :: "u64 \<Rightarrow> zbuf \<Rightarrow> zbuf res" where
  "append_member a b =
     buf_append_filled (map (\<lambda>s. ucast (drop_bit s a) :: u8) [32, 24, 16, 8, 0]) b"

text \<open>The loop, with what it picked so far; \<open>None\<close> would be a search without end.\<close>

function gather_loop :: "mc_env \<Rightarrow> u64 \<Rightarrow> u64 list \<Rightarrow> u32 \<Rightarrow> u64 list \<Rightarrow> u32 \<times> zbuf \<Rightarrow> (u32 \<times> zbuf) res option" where
  "gather_loop e q ms limit picked (added, b) =
     (if added < limit \<and> length picked < length ms \<and> blen b + 5 \<le> of_nat MAX_PACKET then
        (case pick_scan ms picked (ucast (me_pick e (length picked))) of
           None \<Rightarrow> None
         | Some a \<Rightarrow>
             if q \<noteq> a then
               (case append_member a b of
                  Inl x \<Rightarrow> Some (Inl x)
                | Inr b' \<Rightarrow> gather_loop e q ms limit (picked @ [a]) (added + 1, b'))
             else gather_loop e q ms limit (picked @ [a]) (added, b))
      else Some (Inr (added, b)))"
  by pat_completeness auto

termination gather_loop
  by (relation "measure (\<lambda>(e, q, ms, limit, picked, ab). length ms - length picked)") auto

declare gather_loop.simps [simp del]

definition mc_gather :: "mc_env \<Rightarrow> address \<Rightarrow> mc_key \<Rightarrow> u32 \<Rightarrow> multicaster \<Rightarrow> zbuf \<Rightarrow> (u32 \<times> zbuf) res option" where
  "mc_gather e q k limit t b =
     (if limit = 0 then Some (Inr (0, b))
      else (let limit = (if 0xffff < limit then 0xffff else limit); totalAt = blen b in
        case bind_res (buf_addSize 4 b) (\<lambda>b. bind_res (buf_addSize 2 b) (\<lambda>b.
               if me_subscribed e (fst k) (snd k) then bind_res (addr_appendTo (me_self e) b) (\<lambda>b. Inr (1, b)) else Inr (0, b))) of
          Inl x \<Rightarrow> Some (Inl x)
        | Inr (n0, b) \<Rightarrow>
            (let ms = (case ht_get mc_hash t k of Some g \<Rightarrow> map (addr_int \<circ> fst) (gr_members g) | None \<Rightarrow> []) in
             case gather_loop e (addr_int q) ms limit [] (n0, b) of
               None \<Rightarrow> None
             | Some (Inl x) \<Rightarrow> Some (Inl x)
             | Some (Inr (added, b)) \<Rightarrow>
                 Some (bind_res (buf_setAt 4 b totalAt (n0 + of_nat (length ms))) (\<lambda>b.
                       bind_res (buf_setAt 2 b (totalAt + 4) (ucast added :: u16)) (\<lambda>b. Inr (added, b)))))))"

section \<open>Sending\<close>

text \<open>The replicator of least latency among those alive and reachable, the first of equals.\<close>

fun best_replicator :: "u64 \<Rightarrow> topology \<Rightarrow> address list \<Rightarrow> u32 \<Rightarrow> (peer \<times> nat) option \<Rightarrow> (peer \<times> nat) option" where
  "best_replicator now t [] lat best = best"
| "best_replicator now t (a # as) lat best =
     (case getPeerNoCache a t of
        None \<Rightarrow> best_replicator now t as lat best
      | Some p \<Rightarrow>
          (case (if peer_isAlive p now then getAppropriatePath (tp_store t) p now False else None) of
             None \<Rightarrow> best_replicator now t as lat best
           | Some r \<Rightarrow>
               if p_latency (tp_store t r) < lat then best_replicator now t as (p_latency (tp_store t r)) (Some (p, r))
               else best_replicator now t as lat best))"

definition replicator_packet :: "mc_env \<Rightarrow> peer \<Rightarrow> u64 \<Rightarrow> mac \<Rightarrow> multicast_group \<Rightarrow> u32 \<Rightarrow> u8 list \<Rightarrow> zbuf res" where
  "replicator_packet e p nwid src mg etherType frame =
     bind_res (pkt_new (replicate MAX_PACKET 0) (me_iv e (pr_address p)) (pr_address p) (me_self e) VERB_MULTICAST_FRAME) (\<lambda>b.
     bind_res (write_all [buf_append_int 8 nwid, buf_append_int 1 (0x0c :: u8),
        mac_appendTo (if mac_bool src then src else mac_fromAddress (me_self e) nwid), mac_appendTo (mg_mac mg),
        buf_append_int 4 (mg_adi mg), buf_append_int 2 (ucast etherType :: u16), buf_append_bytes frame (of_nat (length frame))] b) (\<lambda>b.
     bind_res (pkt_compress (me_crypto e) b) (\<lambda>(_, b).
     armor (me_crypto e) ([], []) (pr_key p) True False (aesKeysIfSupported p) (id_pub (pr_id p)) b)))"

text \<open>The exchanges of the random permutation, from the last index down.\<close>

fun fy_perm :: "(nat \<Rightarrow> u64) \<Rightarrow> nat \<Rightarrow> nat list \<Rightarrow> nat list" where
  "fy_perm rnd 0 l = l"
| "fy_perm rnd (Suc i) l =
     (let j = unat (rnd (Suc i)) mod (Suc i + 1) in fy_perm rnd i (l[j := l ! Suc i, Suc i := l ! j]))"

definition permuted :: "mc_env \<Rightarrow> mc_group \<Rightarrow> address list" where
  "permuted e g = (let n = length (gr_members g) in map (\<lambda>i. fst (gr_members g ! i)) (fy_perm (me_perm e) (n - 1) [0..<n]))"

text \<open>Who is sent to: bridges first, then members, until the count of a pass reaches the limit.\<close>

fun pick_members :: "(address \<Rightarrow> bool) \<Rightarrow> u32 \<Rightarrow> u32 \<Rightarrow> address list \<Rightarrow> address list" where
  "pick_members P limit cnt [] = []"
| "pick_members P limit cnt (a # as) =
     (if cnt < limit then (if P a then a # pick_members P limit (cnt + 1) as else pick_members P limit cnt as) else [])"

fun pick_bridges :: "address \<Rightarrow> u32 \<Rightarrow> u32 \<Rightarrow> address list \<Rightarrow> address list \<times> u32" where
  "pick_bridges self limit cnt [] = ([], cnt)"
| "pick_bridges self limit cnt (a # as) =
     (if a = self then pick_bridges self limit cnt as
      else if limit \<le> cnt + 1 then ([a], cnt + 1)
      else (case pick_bridges self limit (cnt + 1) as of (l, c) \<Rightarrow> (a # l, c)))"

text \<open>Some of the addresses always to be contacted, shuffled by random exchanges.\<close>

definition shuffle_step :: "(nat \<Rightarrow> u64) \<Rightarrow> nat \<Rightarrow> nat \<Rightarrow> nat list \<Rightarrow> nat list" where
  "shuffle_step rnd n i l =
     (let x = rnd i; x1 = l ! (unat (ucast x :: u32) mod n); x2 = l ! (unat (ucast (drop_bit 32 x) :: u32) mod n) in
      l[x1 := l ! x2, x2 := l ! x1])"

definition gather_peers :: "mc_env \<Rightarrow> u64 \<Rightarrow> network \<Rightarrow> address list res" where
  "gather_peers e now net =
     bind_res (getUpstreamPeer now (me_topo e)) (\<lambda>root.
     let ac = nc_alwaysContactAddresses (nw_config net); n = length ac;
         shuffled = fold (shuffle_step (me_shuffle e) n) [0..<n div 2] [0..<n] in
     Inr (take 16 ((case root of Some p \<Rightarrow> [pr_address p] | None \<Rightarrow> []) @ [controllerFor (nw_id net)] @ map ((!) ac) shuffled)))"

definition gather_packet :: "mc_env \<Rightarrow> network \<Rightarrow> multicast_group \<Rightarrow> u32 \<Rightarrow> address \<Rightarrow> zbuf res" where
  "gather_packet e net mg gatherLimit to =
     (let com = nc_com (nw_config net) in
      bind_res (pkt_new (replicate MAX_PACKET 0) (me_iv e to) to (me_self e) VERB_MULTICAST_GATHER) (\<lambda>b.
      write_all ([buf_append_int 8 (nw_id net), buf_append_int 1 (if com_bool com then 0x01 else 0x00 :: u8),
        mac_appendTo (mg_mac mg), buf_append_int 4 (mg_adi mg), buf_append_int 4 gatherLimit] @
        (if com_bool com then [com_serialize com] else [])) b))"

fun send_gathers :: "mc_env \<Rightarrow> network \<Rightarrow> multicast_group \<Rightarrow> u32 \<Rightarrow> address list \<Rightarrow> mc_out list \<times> unit res" where
  "send_gathers e net mg gatherLimit [] = ([], Inr ())"
| "send_gathers e net mg gatherLimit (a # as) =
     (case bind_res (gather_packet e net mg gatherLimit a) (\<lambda>b. bind_res (packetId b) (\<lambda>i. Inr (b, i))) of
        Inl x \<Rightarrow> ([], Inl x)
      | Inr (b, i) \<Rightarrow> (case send_gathers e net mg gatherLimit as of (out, r) \<Rightarrow> (ExpectReply i # SwSend b (nw_id net) # out, r)))"

text \<open>Enough members are known: one pass without a log, nothing queued.\<close>

definition send_now :: "mc_env \<Rightarrow> u64 \<Rightarrow> network \<Rightarrow> address \<Rightarrow> multicast_group \<Rightarrow> mac \<Rightarrow> u32 \<Rightarrow> u8 list \<Rightarrow> mc_group \<Rightarrow>
    network option \<Rightarrow> (mc_group \<times> network option) \<times> mc_out list \<times> unit res" where
  "send_now e now net origin mg src etherType data g nw =
     (let bridges = nc_activeBridges (nw_config net); limit = nc_multicastLimit (nw_config net) in
      case om_init e now (nw_id net) False limit 1 src mg etherType data (om_default e) of
        (om, Inl x) \<Rightarrow> ((g, nw), [], Inl x)
      | (om, Inr _) \<Rightarrow>
          (case send_each (sendOnly e)
              (filter (\<lambda>b. b \<noteq> me_self e \<and> b \<noteq> origin) bridges @
               pick_members (\<lambda>a. a \<notin> set bridges \<and> a \<noteq> origin) limit 0 (permuted e g)) (om, nw) of
             ((om', nw'), out, r) \<Rightarrow> ((g, nw'), out, r)))"

text \<open>Too few are known: ask for more, queue the frame, and send it to those known.\<close>

definition explicit_gather :: "mc_env \<Rightarrow> u64 \<Rightarrow> network \<Rightarrow> multicast_group \<Rightarrow> u32 \<Rightarrow> mc_group \<Rightarrow> mc_group \<times> mc_out list \<times> unit res" where
  "explicit_gather e now net mg gatherLimit g =
     (if gr_members g = [] \<or> EXPLICIT_GATHER_DELAY * (if me_lowBandwidth e then 3 else 1) \<le>s now - gr_lastGather g then
        (let g = g\<lparr>gr_lastGather := now\<rparr> in
         case gather_peers e now net of
           Inl x \<Rightarrow> (g, [], Inl x)
         | Inr as \<Rightarrow> (case send_gathers e net mg gatherLimit as of (out, r) \<Rightarrow> (g, out, r)))
      else (g, [], Inr ()))"

definition queued_recipients :: "mc_env \<Rightarrow> network \<Rightarrow> mc_group \<Rightarrow> address list" where
  "queued_recipients e net g =
     (let bridges = nc_activeBridges (nw_config net); limit = nc_multicastLimit (nw_config net) in
      case pick_bridges (me_self e) limit 0 bridges of
        (bs, cnt) \<Rightarrow> bs @ pick_members (\<lambda>a. a \<notin> set bridges) limit cnt (permuted e g))"

definition send_queued :: "mc_env \<Rightarrow> u64 \<Rightarrow> network \<Rightarrow> address \<Rightarrow> multicast_group \<Rightarrow> mac \<Rightarrow> u32 \<Rightarrow> u8 list \<Rightarrow> mc_group \<Rightarrow>
    network option \<Rightarrow> (mc_group \<times> network option) \<times> mc_out list \<times> unit res" where
  "send_queued e now net origin mg src etherType data g nw =
     (let limit = nc_multicastLimit (nw_config net);
          g = g\<lparr>gr_tx := drop (length (gr_tx g) - (TX_QUEUE_SIZE - 1)) (gr_tx g)\<rparr>;
          gatherLimit = limit - of_nat (length (gr_members g)) + 1 in
      case explicit_gather e now net mg gatherLimit g of
        (g, out, Inl x) \<Rightarrow> ((g, nw), out, Inl x)
      | (g, out, Inr _) \<Rightarrow>
          (case om_init e now (nw_id net) False limit gatherLimit src mg etherType data (om_default e) of
             (om, Inl x) \<Rightarrow> ((g\<lparr>gr_tx := gr_tx g @ [om]\<rparr>, nw), out, Inl x)
           | (om, Inr _) \<Rightarrow>
               (let om = (if addr_bool origin then logAsSent origin om else om) in
                case send_each (sendAndLog e) (queued_recipients e net g) (om, nw) of
                  ((om', nw'), out', r) \<Rightarrow> ((g\<lparr>gr_tx := gr_tx g @ [om']\<rparr>, nw'), out @ out', r))))"

text \<open>
  \<open>send\<close>: to one replicator when the network has any, this node is neither a bridge nor one of
  them, and one is reachable; otherwise to the members. Exceptions of the second part are
  swallowed and leave the state as it is then.
\<close>

definition mc_replicator :: "mc_env \<Rightarrow> u64 \<Rightarrow> network \<Rightarrow> (peer \<times> nat) option" where
  "mc_replicator e now net =
     (let rs = nc_multicastReplicators (nw_config net) in
      if nc_isActiveBridge (nw_config net) (me_self e) \<or> me_self e \<in> set rs then None
      else best_replicator now (me_topo e) rs 0xffff None)"

definition mc_send :: "mc_env \<Rightarrow> u64 \<Rightarrow> network \<Rightarrow> address \<Rightarrow> multicast_group \<Rightarrow> mac \<Rightarrow> u32 \<Rightarrow> u8 list \<Rightarrow>
    multicaster \<times> network option \<Rightarrow> (multicaster \<times> network option) \<times> mc_out list \<times> unit res" where
  "mc_send e now net origin mg src etherType data st =
     (case mc_replicator e now net of
        Some (p, r) \<Rightarrow>
          (case replicator_packet e p (nw_id net) src mg etherType data of
             Inl x \<Rightarrow> (st, [], Inl x)
           | Inr b \<Rightarrow> (st, [PathSend r b], Inr ()))
      | None \<Rightarrow>
          (case st of (t, nw) \<Rightarrow>
           case mc_group_of e (nw_id net, mg) t of (t, g) \<Rightarrow>
           case (if unat (nc_multicastLimit (nw_config net)) \<le> length (gr_members g)
                 then send_now e now net origin mg src etherType data g nw
                 else send_queued e now net origin mg src etherType data g nw) of
             ((g', nw'), out, _) \<Rightarrow> ((ht_set (me_alloc e) mc_hash (nw_id net, mg) g' t, nw'), out, Inr ())))"

section \<open>Cleaning\<close>

definition gr_clean :: "u64 \<Rightarrow> mc_group \<Rightarrow> mc_group" where
  "gr_clean now g =
     g\<lparr>gr_tx := filter (\<lambda>om. \<not> (om_expired now om \<or> om_atLimit om)) (gr_tx g),
       gr_members := filter (\<lambda>m. now - snd m <s LIKE_EXPIRE) (gr_members g)\<rparr>"

definition mc_clean_one :: "mc_env \<Rightarrow> u64 \<Rightarrow> mc_key \<times> mc_group \<Rightarrow> multicaster \<Rightarrow> multicaster" where
  "mc_clean_one e now kg t =
     (let g = gr_clean now (snd kg) in
      if gr_members g = [] \<and> gr_tx g = [] then fst (ht_erase mc_hash (fst kg) t)
      else ht_set (me_alloc e) mc_hash (fst kg) g t)"

definition mc_clean :: "mc_env \<Rightarrow> u64 \<Rightarrow> multicaster \<Rightarrow> multicaster" where
  "mc_clean e now t = fold (mc_clean_one e now) (ht_entries t) t"

section \<open>The invariant of the groups\<close>

text \<open>Members are in strict order, this node is never one, and the queue holds at most what it may.\<close>

definition gr_ok :: "address \<Rightarrow> mc_group \<Rightarrow> bool" where
  "gr_ok self g \<longleftrightarrow> sorted_wrt (<) (map fst (gr_members g)) \<and> self \<notin> fst ` set (gr_members g) \<and>
     length (gr_tx g) \<le> TX_QUEUE_SIZE"

definition mc_ok :: "address \<Rightarrow> multicaster \<Rightarrow> bool" where
  "mc_ok self t \<longleftrightarrow> ht_ok mc_hash t \<and> (\<forall>k g. ht_get mc_hash t k = Some g \<longrightarrow> gr_ok self g)"

lemma gr_okD:
  "gr_ok self g \<Longrightarrow> distinct (map fst (gr_members g))" "gr_ok self g \<Longrightarrow> self \<notin> fst ` set (gr_members g)"
  "gr_ok self g \<Longrightarrow> length (gr_tx g) \<le> TX_QUEUE_SIZE"
  by (auto simp: gr_ok_def strict_sorted_iff)

lemma gr_new_ok [simp]: "gr_ok self gr_new"
  by (simp add: gr_ok_def gr_new_def TX_QUEUE_SIZE_def)

lemma mc_ok_set: "mc_ok self t \<Longrightarrow> gr_ok self g \<Longrightarrow> mc_ok self (ht_set al mc_hash k g t)"
  by (auto simp: mc_ok_def ht.put_lookup ht.put_inv)

lemma mc_ok_erase: "mc_ok self t \<Longrightarrow> mc_ok self (fst (ht_erase mc_hash k t))"
  by (auto simp: mc_ok_def ht.del_lookup ht.del_inv)

lemma mc_group_ok:
  assumes "mc_ok self t" "mc_group_of e k t = (t', g)"
  shows "mc_ok self t'" "gr_ok self g"
proof -
  have t': "t' = ht_index (me_alloc e) mc_hash gr_new k t" "g = (case ht_get mc_hash t' k of Some g \<Rightarrow> g | None \<Rightarrow> gr_new)"
    using assms(2) by (auto simp: mc_group_of_def Let_def)
  have h: "ht_ok mc_hash t" and o: "\<And>k g. ht_get mc_hash t k = Some g \<Longrightarrow> gr_ok self g" using assms(1) unfolding mc_ok_def by blast+
  have "gr_ok self g'" if "ht_get mc_hash t' k' = Some g'" for k' g'
    using that o [of k' g'] by (cases "ht_get mc_hash t k") (auto simp: t'(1) ht.touch_lookup [OF h] map_touch_def split: if_splits)
  then show "mc_ok self t'" "gr_ok self g"
    unfolding mc_ok_def t'(2) by (auto simp: t'(1) ht.touch_inv [OF h] split: option.split)
qed

lemma offer_tx_length: "length (fst (fst (offer_tx e a q nw))) \<le> length q"
proof (induction e a q nw rule: offer_tx.induct)
  case (2 e a om q nw)
  show ?case
  proof (cases "om_atLimit om")
    case True
    then show ?thesis using "2.IH"(1) by simp
  next
    case False
    obtain om' nw' out r where s: "sendIfNew e a (om, nw) = ((om', nw'), out, r)" by (metis prod.collapse)
    show ?thesis
    proof (cases r)
      case (Inr u)
      then have "length (fst (fst (offer_tx e a q nw'))) \<le> length q" using "2.IH"(2) [OF False] s by auto
      then show ?thesis using False s Inr by (auto split: prod.splits)
    qed (use False s in simp)
  qed
qed simp

lemma lower_bound_split:
  assumes "sorted_wrt (<) (map fst ms)" "k = lower_bound a ms"
  shows "k \<le> length ms" "\<forall>m\<in>set (take k ms). fst m < a" "\<not> (k < length ms \<and> fst (ms ! k) = a) \<Longrightarrow> \<forall>m\<in>set (drop k ms). a < fst m"
proof -
  have k: "take k ms = takeWhile (\<lambda>m. fst m < a) ms" "drop k ms = dropWhile (\<lambda>m. fst m < a) ms"
    using assms(2) by (simp_all add: lower_bound_def takeWhile_eq_take [symmetric] dropWhile_eq_drop [symmetric])
  show "k \<le> length ms" using assms(2) by (simp add: lower_bound_def length_takeWhile_le)
  show "\<forall>m\<in>set (take k ms). fst m < a" unfolding k(1) by (auto dest: set_takeWhileD)
  assume no: "\<not> (k < length ms \<and> fst (ms ! k) = a)"
  show "\<forall>m\<in>set (drop k ms). a < fst m"
  proof (cases "k < length ms")
    case True
    then have d: "drop k ms = ms ! k # drop (Suc k) ms" by (rule Cons_nth_drop_Suc [symmetric])
    have "\<not> fst (ms ! k) < a" using True assms(2) nth_length_takeWhile [of "\<lambda>m. fst m < a" ms] by (simp add: lower_bound_def)
    then have "a < fst (ms ! k)" using no True by auto
    moreover have "sorted_wrt (<) (map fst (drop k ms))" using assms(1) by (simp add: drop_map [symmetric] sorted_wrt_drop)
    ultimately show ?thesis unfolding d by auto
  qed simp
qed

lemma insert_sorted:
  assumes "sorted_wrt (<) (map fst ms)" "k = lower_bound a ms" "\<not> (k < length ms \<and> fst (ms ! k) = a)"
  shows "sorted_wrt (<) (map fst (take k ms @ (a, now) # drop k ms))"
proof -
  note l = lower_bound_split [OF assms(1,2)]
  have "sorted_wrt (<) (map fst (take k ms) @ map fst (drop k ms))" using assms(1) by (metis append_take_drop_id map_append)
  then show ?thesis using l(2) l(3) [OF assms(3)] by (auto simp: sorted_wrt_append)
qed

lemma gr_add_ok:
  assumes "gr_ok (me_self e) g" shows "gr_ok (me_self e) (fst (fst (gr_add e now a (g, nw))))"
proof -
  let ?ms = "gr_members g" and ?k = "lower_bound a (gr_members g)"
  have so: "sorted_wrt (<) (map fst ?ms)" using assms by (simp add: gr_ok_def)
  consider (self) "a = me_self e" | (old) "a \<noteq> me_self e" "?k < length ?ms" "fst (?ms ! ?k) = a"
    | (new) "a \<noteq> me_self e" "\<not> (?k < length ?ms \<and> fst (?ms ! ?k) = a)" by blast
  then show ?thesis
  proof cases
    case old
    have m: "map fst (?ms[?k := (a, now)]) = map fst ?ms"
      using old(2,3) by (metis fst_conv list_update_id map_update nth_map)
    then have "fst ` set (?ms[?k := (a, now)]) = fst ` set ?ms" by (metis list.set_map)
    then show ?thesis using assms old m by (simp add: gr_add_def Let_def gr_ok_def)
  next
    case new
    obtain q nw' out r where o: "offer_tx e a (gr_tx g) nw = ((q, nw'), out, r)" by (metis prod.collapse)
    have "set (take ?k ?ms @ (a, now) # drop ?k ?ms) = insert (a, now) (set ?ms)"
      by (metis append_take_drop_id list.set(2) set_append Un_insert_right)
    then have "me_self e \<notin> fst ` set (take ?k ?ms @ (a, now) # drop ?k ?ms)" using assms new(1) by (auto simp: gr_ok_def)
    then show ?thesis using new insert_sorted [OF so refl new(2)] offer_tx_length [of e a "gr_tx g" nw] o assms
      by (auto simp: gr_add_def Let_def gr_ok_def)
  qed (use assms in \<open>simp add: gr_add_def\<close>)
qed

lemma gr_add_all_ok:
  "gr_ok (me_self e) (fst st) \<Longrightarrow> gr_ok (me_self e) (fst (fst (gr_add_all e now as st)))"
proof (induction e now as st rule: gr_add_all.induct)
  case (2 e now a as st)
  obtain st' out r where s: "gr_add e now a st = (st', out, r)" by (metis prod.collapse)
  have "gr_ok (me_self e) (fst st')" using gr_add_ok [OF 2(2), of now a "snd st"] s by simp
  then have "r = Inr u \<Longrightarrow> gr_ok (me_self e) (fst (fst (gr_add_all e now as st')))" for u
    using 2(1) s by (metis prod.collapse)
  then show ?case using s \<open>gr_ok (me_self e) (fst st')\<close>
    by (cases "gr_add_all e now as st'") (auto split: sum.split)
qed simp

lemma remove_first_sub: "set (remove_first a ms) \<subseteq> set ms"
  by (induction a ms rule: remove_first.induct) auto

lemma remove_first_ok: "gr_ok self g \<Longrightarrow> gr_ok self (g\<lparr>gr_members := remove_first a (gr_members g)\<rparr>)"
proof -
  have "sorted_wrt (<) (map fst ms) \<Longrightarrow> sorted_wrt (<) (map fst (remove_first a ms))" for ms
    by (induction a ms rule: remove_first.induct) (use remove_first_sub in fastforce)+
  then show "gr_ok self g \<Longrightarrow> gr_ok self (g\<lparr>gr_members := remove_first a (gr_members g)\<rparr>)"
    using remove_first_sub [of a "gr_members g"] by (auto simp: gr_ok_def)
qed

lemma gr_clean_ok: "gr_ok self g \<Longrightarrow> gr_ok self (gr_clean now g)"
proof -
  have "sorted_wrt (<) (map fst ms) \<Longrightarrow> sorted_wrt (<) (map fst (filter P ms))" for ms :: "(address \<times> u64) list" and P
    by (induction ms) auto
  then show "gr_ok self g \<Longrightarrow> gr_ok self (gr_clean now g)"
    by (auto simp: gr_ok_def gr_clean_def intro: le_trans [OF length_filter_le])
qed

lemma send_now_group: "fst (fst (send_now e now net origin mg src et data g nw)) = g"
  by (auto simp: send_now_def Let_def split: prod.splits sum.splits)

lemma explicit_gather_group:
  "gr_members (fst (explicit_gather e now net mg gl g)) = gr_members g"
  "gr_tx (fst (explicit_gather e now net mg gl g)) = gr_tx g"
  by (auto simp: explicit_gather_def Let_def split: prod.splits sum.splits)

lemma send_queued_ok:
  assumes "gr_ok self g" shows "gr_ok self (fst (fst (send_queued e now net origin mg src et data g nw)))"
proof -
  let ?g = "g\<lparr>gr_tx := drop (length (gr_tx g) - (TX_QUEUE_SIZE - 1)) (gr_tx g)\<rparr>"
  let ?gl = "nc_multicastLimit (nw_config net) - of_nat (length (gr_members g)) + 1"
  obtain g1 out r where x: "explicit_gather e now net mg ?gl ?g = (g1, out, r)" by (metis prod.collapse)
  have g1: "gr_members g1 = gr_members g" "length (gr_tx g1) < TX_QUEUE_SIZE"
    using explicit_gather_group [of e now net mg ?gl ?g] x by (auto simp: TX_QUEUE_SIZE_def)
  then have "gr_ok self g1" "gr_ok self (g1\<lparr>gr_tx := gr_tx g1 @ [om]\<rparr>)" for om using assms by (auto simp: gr_ok_def)
  then show ?thesis using x by (auto simp: send_queued_def Let_def split: prod.splits sum.splits)
qed

lemma mc_send_ok:
  assumes "mc_ok self t" shows "mc_ok self (fst (fst (mc_send e now net origin mg src et data (t, nw))))"
proof (cases "mc_replicator e now net")
  case (Some pr)
  then show ?thesis using assms by (auto simp: mc_send_def split: prod.splits sum.splits)
next
  case None
  obtain t1 g where g: "mc_group_of e (nw_id net, mg) t = (t1, g)" by fastforce
  note ok = mc_group_ok [OF assms g]
  let ?s = "if unat (nc_multicastLimit (nw_config net)) \<le> length (gr_members g)
    then send_now e now net origin mg src et data g nw else send_queued e now net origin mg src et data g nw"
  have "gr_ok self (fst (fst ?s))" using ok(2) send_queued_ok [OF ok(2)] send_now_group by simp
  from mc_ok_set [OF ok(1) this, of "me_alloc e" "(nw_id net, mg)"] show ?thesis
    by (simp add: mc_send_def None g case_prod_beta split del: if_split cong: if_cong)
qed

lemma mc_clean_ok:
  assumes "mc_ok self t" shows "mc_ok self (mc_clean e now t)"
proof -
  have "\<forall>kg\<in>set es. gr_ok self (snd kg) \<Longrightarrow> mc_ok self t \<Longrightarrow> mc_ok self (fold (mc_clean_one e now) es t)" for es t
    by (induction es arbitrary: t) (auto simp: mc_clean_one_def Let_def mc_ok_erase mc_ok_set gr_clean_ok)
  moreover have "gr_ok self g" if "(k, g) \<in> set (ht_entries t)" for k g
  proof -
    note x = ht_entries_exact [of mc_hash t]
    have h: "ht_ok mc_hash t" using assms by (simp add: mc_ok_def)
    have "distinct (map fst (ht_entries t))" using x [OF h] by metis
    then have "ht_get mc_hash t k = Some g" using map_of_is_SomeI that x [OF h] by metis
    then show ?thesis using assms unfolding mc_ok_def by blast
  qed
  then have "\<forall>kg\<in>set (ht_entries t). gr_ok self (snd kg)" by (metis prod.collapse)
  ultimately show ?thesis using assms unfolding mc_clean_def by blast
qed

section \<open>Runs\<close>

inductive mc_step :: "address \<Rightarrow> multicaster \<Rightarrow> multicaster \<Rightarrow> bool" for self where
  mc_step_add: "me_self e = self \<Longrightarrow> mc_step self t (fst (fst (mc_add e now k a (t, nw))))"
| mc_step_addMultiple: "me_self e = self \<Longrightarrow> mc_step self t (fst (fst (mc_addMultiple e now k bs (t, nw))))"
| mc_step_remove: "mc_step self t (mc_remove e k a t)"
| mc_step_send: "mc_step self t (fst (fst (mc_send e now net origin mg src et data (t, nw))))"
| mc_step_clean: "mc_step self t (mc_clean e now t)"

lemma mc_step_ok: "mc_step self t t' \<Longrightarrow> mc_ok self t \<Longrightarrow> mc_ok self t'"
proof (induction rule: mc_step.induct)
  case (mc_step_add e t now k a nw)
  obtain t1 g where g: "mc_group_of e k t = (t1, g)" by fastforce
  note ok = mc_group_ok [OF mc_step_add(2) g]
  have "gr_ok self (fst (fst (gr_add e now a (g, nw))))" using gr_add_ok [of e g now a nw] ok(2) mc_step_add(1) by simp
  from mc_ok_set [OF ok(1) this] show ?case by (simp add: mc_add_def g case_prod_beta)
next
  case (mc_step_addMultiple e t now k bs nw)
  obtain t1 g where g: "mc_group_of e k t = (t1, g)" by fastforce
  note ok = mc_group_ok [OF mc_step_addMultiple(2) g]
  have "gr_ok self (fst (fst (gr_add_all e now (five_bytes bs) (g, nw))))"
    using gr_add_all_ok [of e "(g, nw)" now "five_bytes bs"] ok(2) mc_step_addMultiple(1) by simp
  from mc_ok_set [OF ok(1) this] show ?case by (simp add: mc_addMultiple_def g case_prod_beta)
next
  case (mc_step_remove t e k a)
  show ?case
  proof (cases "ht_get mc_hash t k")
    case (Some g)
    then have "gr_ok self (g\<lparr>gr_members := remove_first a (gr_members g)\<rparr>)"
      using mc_step_remove remove_first_ok unfolding mc_ok_def by blast
    from mc_ok_set [OF mc_step_remove this] show ?thesis using Some by (simp add: mc_remove_def)
  qed (use mc_step_remove in \<open>simp add: mc_remove_def\<close>)
next
  case (mc_step_send t e now net origin mg src et data nw)
  then show ?case by (rule mc_send_ok)
next
  case (mc_step_clean t e now)
  then show ?case by (rule mc_clean_ok)
qed

lemma mc_steps_ok: "(mc_step self)\<^sup>*\<^sup>* (ht_new 32) t \<Longrightarrow> mc_ok self t"
proof (induction rule: rtranclp_induct)
  case base
  then show ?case by (simp add: mc_ok_def ht_new_ok)
next
  case (step y z)
  then show ?case using mc_step_ok by blast
qed

section \<open>Gathering\<close>

text \<open>
  The search ends as long as a member is left: at the latest when the counter, which wraps, is
  that member's index.
\<close>

lemma pick_scan_returns:
  assumes i: "i < length ms" "ms ! i \<notin> set picked" and n: "length ms < 2 ^ 32"
  shows "\<exists>a. pick_scan ms picked r = Some a \<and> a \<in> set ms \<and> a \<notin> set picked"
proof (induction "unat (of_nat i - r)" arbitrary: r)
  case 0
  then have r: "r = of_nat i" by (simp add: unat_eq_0)
  have "unat (r mod of_nat (length ms)) = i" using i n by (simp add: r unat_mod unat_of_nat)
  then show ?case using i by (subst pick_scan.simps) simp
next
  case (Suc d)
  let ?a = "ms ! unat (r mod of_nat (length ms))"
  have "0 < length ms" using i by auto
  then have "unat (r mod of_nat (length ms)) < length ms" using n by (simp add: unat_mod unat_of_nat)
  then have m: "?a \<in> set ms" by simp
  have "of_nat i - r \<noteq> 0" using Suc(2) by auto
  then have "unat (of_nat i - (r + 1)) = d" using Suc(2) by (simp add: diff_diff_eq [symmetric] unat_minus_one)
  from Suc(1) [OF this [symmetric]] m show ?case by (subst pick_scan.simps) (auto simp: Let_def)
qed

definition five :: "u64 \<Rightarrow> u8 list" where
  "five a = map (\<lambda>s. ucast (drop_bit s a)) [32, 24, 16, 8, 0]"

lemma length_five [simp]: "length (five a) = 5"
  by (simp add: five_def)

lemma appends_member: "appends (append_member a) (five a)"
  using appends_filled [of "five a"] by (simp add: append_member_def [abs_def] five_def)

lemma grown_trans: "grown b xs b1 \<Longrightarrow> grown b1 ys b2 \<Longrightarrow> grown b (xs @ ys) b2"
  by (simp add: grown_def)

lemma room_iff: "small b \<Longrightarrow> bcap b = MAX_PACKET \<Longrightarrow> (blen b + 5 \<le> of_nat MAX_PACKET) = (bsize b + 5 \<le> MAX_PACKET)"
proof -
  assume b: "small b" "bcap b = MAX_PACKET"
  then have "bsize b < 2 ^ 31" using smallD by blast
  then have "unat (blen b + 5) = bsize b + 5" using unat_add_of_nat32 [of "blen b" 5] by (simp add: bsize_def)
  then show ?thesis by (simp add: word_le_nat_alt MAX_PACKET_def)
qed

lemma gather_loop_spec:
  assumes "distinct ms" "distinct picked" "set picked \<subseteq> set ms" "length ms < 2 ^ 32" "added \<le> limit" "small b" "bcap b = MAX_PACKET"
  shows "\<exists>xs b'. gather_loop e q ms limit picked (added, b) = Some (Inr (added + of_nat (length xs), b')) \<and>
    grown b (concat (map five xs)) b' \<and> distinct xs \<and> set xs \<subseteq> set ms - set picked - {q} \<and>
    unat (added + of_nat (length xs)) = unat added + length xs \<and> unat added + length xs \<le> unat limit \<and>
    (unat added + length xs = unat limit \<or> set xs = set ms - set picked - {q} \<or> MAX_PACKET < bsize b' + 5)"
  using assms
proof (induction e q ms limit picked "(added, b)" arbitrary: added b rule: gather_loop.induct)
  case (1 e q ms limit picked added b)
  note small = \<open>small b\<close> and cap = \<open>bcap b = MAX_PACKET\<close>
  have len: "length picked \<le> length ms" using 1(3,4,5) by (metis card_mono distinct_card finite_set)
  show ?case
  proof (cases "added < limit \<and> length picked < length ms \<and> blen b + 5 \<le> of_nat MAX_PACKET")
    case False
    then have g: "gather_loop e q ms limit picked (added, b) = Some (Inr (added, b))" by (subst gather_loop.simps) (simp only: if_False)
    have "added = limit \<or> set picked = set ms \<or> MAX_PACKET < bsize b + 5"
    proof -
      have "length picked = length ms \<Longrightarrow> set picked = set ms"
        using 1(3,4,5) by (metis card_subset_eq distinct_card finite_set)
      then show ?thesis using False 1(7) len room_iff [OF small cap] by auto
    qed
    then show ?thesis using g small 1(7) by (intro exI [of _ "[]"] exI [of _ b]) (auto simp: grown_def word_le_nat_alt)
  next
    case True
    have "set picked \<noteq> set ms" using True 1(3,4) by (metis distinct_card nat_neq_iff)
    then obtain i where "i < length ms" "ms ! i \<notin> set picked" using 1(5) by (metis in_set_conv_nth subsetI subset_antisym)
    from pick_scan_returns [OF this 1(6)] obtain a where a: "pick_scan ms picked (ucast (me_pick e (length picked))) = Some a"
      "a \<in> set ms" "a \<notin> set picked" by blast
    have p: "distinct (picked @ [a])" "set (picked @ [a]) \<subseteq> set ms" using a 1(4,5) by auto
    show ?thesis
    proof (cases "q = a")
      case q: True
      have g: "gather_loop e q ms limit picked (added, b) = gather_loop e q ms limit (picked @ [a]) (added, b)"
        using True a q by (subst gather_loop.simps) (simp del: not_less)
      have s: "set ms - set (picked @ [a]) - {q} = set ms - set picked - {q}" using q by auto
      from 1(2) [OF True a(1) _ 1(3) p 1(6,7) small cap] q show ?thesis unfolding g s by simp
    next
      case q: False
      have "fits b (five a)" using True room_iff [OF small cap] cap by (simp add: fits_def)
      then obtain b1 where b1: "append_member a b = Inr b1" "grown b (five a) b1" using appendsD(1) [OF appends_member small] by blast
      have g: "gather_loop e q ms limit picked (added, b) = gather_loop e q ms limit (picked @ [a]) (added + 1, b1)"
        using True a q b1 by (subst gather_loop.simps) simp
      have "unat added + 1 < 2 ^ 32" using True unsigned_less [where w = limit and ?'a = nat] by (simp add: word_less_nat_alt)
      then have u: "unat (added + 1) = unat added + 1" using unat_add_of_nat32 [of added 1] by simp
      then have ad: "added + 1 \<le> limit" using True by (simp add: word_le_nat_alt word_less_nat_alt)
      have sm: "small b1" "bcap b1 = MAX_PACKET" using b1(2) cap by (simp_all add: grown_def)
      from 1(1) [OF True a(1) q b1(1) 1(3) p 1(6) ad sm] obtain xs b' where x: "gather_loop e q ms limit (picked @ [a]) (added + 1, b1) =
          Some (Inr (added + 1 + of_nat (length xs), b'))" "grown b1 (concat (map five xs)) b'" "distinct xs"
        "set xs \<subseteq> set ms - set (picked @ [a]) - {q}" "unat (added + 1 + of_nat (length xs)) = unat (added + 1) + length xs"
        "unat (added + 1) + length xs \<le> unat limit"
        "unat (added + 1) + length xs = unat limit \<or> set xs = set ms - set (picked @ [a]) - {q} \<or> MAX_PACKET < bsize b' + 5" by blast
      have w: "added + 1 + of_nat (length xs) = added + of_nat (length (a # xs))" by (simp add: add.assoc)
      show ?thesis
        by (rule exI [of _ "a # xs"], rule exI [of _ b'], intro conjI)
          (use g x grown_trans [OF b1(2) x(2)] u q a w in \<open>auto simp: add.assoc\<close>)
    qed
  qed
qed

text \<open>Overwriting bytes inside the data.\<close>

lemma setAt_data:
  assumes "small b" "bdata b = xs @ ys @ zs" "length ys = n" "unat i = length xs"
  shows "\<exists>b'. buf_setAt n b i v = Inr b' \<and> small b' \<and> bcap b' = bcap b \<and> bdata b' = xs @ be_bytes n v @ zs"
proof -
  have l: "bsize b = length xs + n + length zs" using assms(1-3) small_length [OF assms(1)] by simp
  let ?b = "b\<lparr>bmem := mem_write (bmem b) (unat i) (be_bytes n v)\<rparr>"
  have s: "buf_setAt n b i v = Inr ?b" using l assms(4) by (simp add: buf_setAt_def)
  have le: "bsize b \<le> bcap b" using smallD [OF assms(1)] by simp
  have z: "zs = drop (length xs + n) (take (bsize b) (bmem b))" using assms(2,3) by (simp add: bdata_def bsize_def)
  have x: "take (length xs) (bmem b) = xs" using assms(2) l le
    by (metis append_take_drop_id append_eq_append_conv bdata_def bsize_def bcap_def length_take min.absorb2 add.assoc le_add1 le_trans take_take min_def)
  have "bdata ?b = xs @ be_bytes n v @ zs"
    using l le x z assms(4) by (simp add: bdata_def bsize_def mem_write_def bcap_def drop_take)
  then show ?thesis using s assms(1) l le assms(4) by (auto simp: small_def buf_ok_def bcap_def bsize_def)
qed

definition mc_known :: "mc_key \<Rightarrow> multicaster \<Rightarrow> u64 list" where
  "mc_known k t = (case ht_get mc_hash t k of Some g \<Rightarrow> map (addr_int \<circ> fst) (gr_members g) | None \<Rightarrow> [])"

lemma mc_known_distinct:
  assumes "mc_ok self t" shows "distinct (mc_known k t)" "addr_int self \<notin> set (mc_known k t)"
proof -
  have "gr_ok self g" if "ht_get mc_hash t k = Some g" for g using assms that unfolding mc_ok_def by blast
  moreover have "distinct (map (addr_int \<circ> fst) (gr_members g))" if "gr_ok self g" for g
    using gr_okD(1) [OF that] by (simp add: distinct_map comp_inj_on inj_on_def address.expand)
  moreover have "addr_int self \<notin> set (map (addr_int \<circ> fst) (gr_members g))" if "gr_ok self g" for g
    using gr_okD(2) [OF that] by (auto dest!: address.expand)
  ultimately show "distinct (mc_known k t)" "addr_int self \<notin> set (mc_known k t)"
    by (auto simp: mc_known_def split: option.split)
qed

lemma add_sizes:
  assumes "small b" "bsize b + 6 \<le> bcap b"
  shows "\<exists>b2 junk. bind_res (buf_addSize 4 b) (buf_addSize 2) = Inr b2 \<and> grown b junk b2 \<and> length junk = 6"
proof -
  have n: "bsize b + 6 < 2 ^ 31" "bcap b < 2 ^ 31" using assms smallD(2) by fastforce+
  have u: "unat (blen b + 4) = bsize b + 4" "unat (blen b + 6) = bsize b + 6"
    using n unat_add_of_nat32 [of "blen b" 4] unat_add_of_nat32 [of "blen b" 6] by (simp_all add: bsize_def)
  have c: "unat (bcap32 b) = bcap b" using n(2) by (simp add: bcap32_def unat_of_nat_u32)
  have c2: "bcap32 (b\<lparr>blen := x\<rparr>) = bcap32 b" for x by (simp add: bcap32_def bcap_def)
  have "bind_res (buf_addSize 4 b) (buf_addSize 2) = Inr (b\<lparr>blen := blen b + 6\<rparr>)"
    using assms(2) u c by (simp add: buf_addSize_def word_less_nat_alt c2 add.commute)
  moreover have "grown b (take 6 (drop (bsize b) (bmem b))) (b\<lparr>blen := blen b + 6\<rparr>)"
    using assms u by (auto simp: grown_def small_def buf_ok_def bsize_def bcap_def bdata_def take_add)
  moreover have "length (take 6 (drop (bsize b) (bmem b))) = 6" using assms(2) by (simp add: bcap_def)
  ultimately show ?thesis by blast
qed

definition own_member :: "mc_env \<Rightarrow> mc_key \<Rightarrow> address list" where
  "own_member e k = (if me_subscribed e (fst k) (snd k) then [me_self e] else [])"

lemma mc_gather_spec:
  assumes ok: "mc_ok (me_self e) t" and n: "length (mc_known k t) < 2 ^ 32" and l: "limit \<noteq> 0"
    and b: "small b" "bcap b = MAX_PACKET" "bsize b + 11 \<le> MAX_PACKET"
  shows "\<exists>xs b' added. mc_gather e q k limit t b = Some (Inr (added, b')) \<and> unat added = length (own_member e k) + length xs \<and>
    bdata b' = bdata b @ be_bytes 4 (of_nat (length (own_member e k) + length (mc_known k t)) :: u32) @
      be_bytes 2 (of_nat (unat added) :: u16) @ concat (map addr_bytes (own_member e k)) @ concat (map five xs) \<and>
    distinct xs \<and> set xs \<subseteq> set (mc_known k t) - {addr_int q} \<and>
    unat added \<le> min (unat limit) 0xffff \<and>
    (unat added = min (unat limit) 0xffff \<or> set xs = set (mc_known k t) - {addr_int q} \<or> MAX_PACKET < bsize b' + 5)"
proof -
  let ?own = "own_member e k" and ?ms = "mc_known k t"
  define L where "L = (if 0xffff < limit then 0xffff else limit)"
  have L: "unat L = min (unat limit) 0xffff" "L \<noteq> 0" using l by (auto simp: L_def word_less_nat_alt)
  obtain b2 junk where b2: "bind_res (buf_addSize 4 b) (buf_addSize 2) = Inr b2" "grown b junk b2" "length junk = 6"
    using add_sizes [OF b(1)] b(2,3) by auto
  have sb2: "small b2" "bcap b2 = MAX_PACKET" "bsize b2 = bsize b + 6"
    using b2(2,3) b(2) grown_bsize [OF b(1) b2(2)] by (simp_all add: grown_def)
  define n0 :: u32 where "n0 = of_nat (length ?own)"
  have n0: "n0 = (if ?own = [] then 0 else 1)" by (simp add: n0_def own_member_def)
  obtain b3 where b3: "(if me_subscribed e (fst k) (snd k) then bind_res (addr_appendTo (me_self e) b2) (\<lambda>b. Inr (1, b)) else Inr (0, b2)) = Inr (n0, b3)"
    "grown b2 (concat (map addr_bytes ?own)) b3"
  proof (cases "me_subscribed e (fst k) (snd k)")
    case True
    have "fits b2 (addr_bytes (me_self e))" using sb2 b(3) by (simp add: fits_def)
    then obtain b3 where "addr_appendTo (me_self e) b2 = Inr b3" "grown b2 (addr_bytes (me_self e)) b3"
      using appendsD(1) [OF appends_addr sb2(1)] by blast
    then show ?thesis using that [of b3] True by (simp add: n0_def own_member_def)
  next
    case False
    then show ?thesis using that [of b2] sb2(1) by (simp add: n0_def own_member_def grown_def)
  qed
  have sb3: "small b3" "bcap b3 = MAX_PACKET" using b3(2) sb2(2) by (simp_all add: grown_def)
  have un0: "unat n0 = length ?own" by (simp add: n0_def own_member_def)
  have le: "n0 \<le> L" using L(2) n0 by (auto simp: word_le_nat_alt) (metis One_nat_def Suc_leI unat_gt_0)
  obtain xs b4 where x: "gather_loop e (addr_int q) ?ms L [] (n0, b3) = Some (Inr (n0 + of_nat (length xs), b4))"
    "grown b3 (concat (map five xs)) b4" "distinct xs" "set xs \<subseteq> set ?ms - {addr_int q}"
    "unat (n0 + of_nat (length xs)) = unat n0 + length xs" "unat n0 + length xs \<le> unat L"
    "unat n0 + length xs = unat L \<or> set xs = set ?ms - {addr_int q} \<or> MAX_PACKET < bsize b4 + 5"
    using gather_loop_spec [OF mc_known_distinct(1) [OF ok, of k] _ _ n le sb3, of "[]" e "addr_int q"] by auto
  define added where "added = n0 + of_nat (length xs)"
  obtain j1 j2 where j: "junk = j1 @ j2" "length j1 = 4" "length j2 = 2"
    by (rule that [of "take 4 junk" "drop 4 junk"]) (use b2(3) in simp_all)
  let ?rest = "concat (map addr_bytes ?own) @ concat (map five xs)"
  have d4: "bdata b4 = bdata b @ j1 @ (j2 @ ?rest)" and s4: "small b4" "bcap b4 = MAX_PACKET"
    using b2(2) b3(2) x(2) sb3 by (simp_all add: grown_def j(1))
  have ub: "unat (blen b) = length (bdata b)" using b(1) by (simp add: bsize_def)
  obtain b5 where b5: "buf_setAt 4 b4 (blen b) (n0 + of_nat (length ?ms)) = Inr b5" "small b5" "bcap b5 = bcap b4"
    "bdata b5 = (bdata b @ be_bytes 4 (n0 + of_nat (length ?ms))) @ j2 @ ?rest"
    using setAt_data [OF s4(1) d4 j(2) ub, of "n0 + of_nat (length ?ms)"] by (metis append_assoc)
  have ub4: "unat (blen b + 4) = length (bdata b @ be_bytes 4 (n0 + of_nat (length ?ms)))"
    using ub b(3) unat_add_of_nat32 [of "blen b" 4] b(1) by (simp add: MAX_PACKET_def)
  obtain b6 where b6: "buf_setAt 2 b5 (blen b + 4) (ucast added :: u16) = Inr b6" "small b6" "bcap b6 = bcap b5"
    "bdata b6 = (bdata b @ be_bytes 4 (n0 + of_nat (length ?ms))) @ be_bytes 2 (ucast added :: u16) @ ?rest"
    using setAt_data [OF b5(2,4) j(3) ub4, of "ucast added :: u16"] by blast
  have "length (bdata b6) = length (bdata b4)" by (simp only: b6(4) d4 length_append length_be_bytes j(2,3))
  then have ss: "bsize b6 = bsize b4" using b6(2) s4(1) by simp
  have h: "bind_res (buf_addSize 4 b) (\<lambda>b. bind_res (buf_addSize 2 b) F) = F b2" for F :: "zbuf \<Rightarrow> (u32 \<times> zbuf) res"
    using b2(1) by (metis bind_res_assoc bind_res_simps(2))
  have g: "mc_gather e q k limit t b = Some (Inr (added, b6))"
    using l h b3(1) x(1) b5(1) b6(1) by (simp add: mc_gather_def L_def [symmetric] mc_known_def added_def)
  have ua: "unat added = length ?own + length xs" using x(5) un0 by (simp add: added_def)
  have uc: "ucast added = (of_nat (unat added) :: u16)" by (simp add: unsigned_ucast_eq)
  show ?thesis
    by (rule exI [of _ xs], rule exI [of _ b6], rule exI [of _ added], intro conjI g ua)
      (use x L(1) b6(4) uc ua ss un0 in \<open>simp_all add: n0_def\<close>)
qed

section \<open>Who a frame is sent to\<close>

lemma fy_perm_mset: "n < length l \<Longrightarrow> mset (fy_perm rnd n l) = mset l"
proof (induction n arbitrary: l)
  case (Suc n)
  let ?j = "unat (rnd (Suc n)) mod (Suc n + 1)"
  have j: "?j < length l" using Suc(2) mod_less_divisor [of "Suc n + 1" "unat (rnd (Suc n))"] by linarith
  have "mset (fy_perm rnd n (l[?j := l ! Suc n, Suc n := l ! ?j])) = mset (l[?j := l ! Suc n, Suc n := l ! ?j])"
    using Suc by simp
  also have "\<dots> = mset l" using mset_swap [OF Suc(2) j] .
  finally show ?case by (simp only: fy_perm.simps Let_def)
qed simp

lemma permuted_mset: "mset (permuted e g) = mset (map fst (gr_members g))"
proof (cases "gr_members g = []")
  case False
  let ?n = "length (gr_members g)"
  have "mset (permuted e g) = image_mset (\<lambda>i. fst (gr_members g ! i)) (mset [0..<?n])"
    using fy_perm_mset [of "?n - 1" "[0..<?n]" "me_perm e"] False by (simp add: permuted_def Let_def)
  also have "\<dots> = mset (map (\<lambda>i. fst (gr_members g ! i)) [0..<?n])" by simp
  also have "map (\<lambda>i. fst (gr_members g ! i)) [0..<?n] = map fst (gr_members g)" by (rule nth_equalityI) simp_all
  finally show ?thesis .
qed (simp add: permuted_def)

lemma permuted_set: "set (permuted e g) = fst ` set (gr_members g)"
  using arg_cong [OF permuted_mset, of set_mset e g] by simp

lemma permuted_distinct: "gr_ok self g \<Longrightarrow> distinct (permuted e g)"
  using permuted_mset [of e g] gr_okD(1) by (metis mset_eq_imp_distinct_iff)

lemma pick_members_set: "set (pick_members P l c as) \<subseteq> {a \<in> set as. P a}"
  by (induction P l c as rule: pick_members.induct) auto

lemma pick_members_distinct: "distinct as \<Longrightarrow> distinct (pick_members P l c as)"
proof (induction P l c as rule: pick_members.induct)
  case (2 P l c a as)
  then show ?case using pick_members_set [of P l "c + 1" as] by auto
qed simp

lemma pick_members_length: "c \<le> l \<Longrightarrow> unat c + length (pick_members P l c as) \<le> unat l"
proof (induction P l c as rule: pick_members.induct)
  case (2 P l c a as)
  show ?case
  proof (cases "c < l \<and> P a")
    case True
    then have u: "unat (c + 1) = unat c + 1" using unsigned_less [where w = l and ?'a = nat] unat_add_of_nat32 [of c 1]
      by (simp add: word_less_nat_alt)
    then have "c + 1 \<le> l" using True by (simp add: word_le_nat_alt word_less_nat_alt)
    then show ?thesis using 2(1) True u by simp
  qed (use 2 in \<open>auto simp: word_le_nat_alt\<close>)
qed (simp add: word_le_nat_alt)

lemma pick_members_all: "unat c + length as \<le> unat l \<Longrightarrow> pick_members P l c as = filter P as"
proof (induction P l c as rule: pick_members.induct)
  case (2 P l c a as)
  have c: "c < l" using 2(3) by (simp add: word_less_nat_alt)
  then have "unat (c + 1) = unat c + 1" using unsigned_less [where w = l and ?'a = nat] unat_add_of_nat32 [of c 1]
    by (simp add: word_less_nat_alt)
  then show ?case using 2 c by simp
qed simp

lemma pick_bridges_spec:
  "c < l \<Longrightarrow> pick_bridges self l c bs = (as, n) \<Longrightarrow>
    n \<le> l \<and> unat n = unat c + length as \<and> set as \<subseteq> set bs - {self} \<and> (distinct bs \<longrightarrow> distinct as) \<and>
    (unat c + length bs < unat l \<longrightarrow> as = filter (\<lambda>b. b \<noteq> self) bs)"
proof (induction self l c bs arbitrary: as n rule: pick_bridges.induct)
  case (1 self l c)
  then show ?case by simp
next
  case (2 self l c a bs)
  have u: "unat (c + 1) = unat c + 1" using 2(3) unsigned_less [where w = l and ?'a = nat] unat_add_of_nat32 [of c 1]
    by (simp add: word_less_nat_alt)
  consider (self) "a = self" | (stop) "a \<noteq> self" "l \<le> c + 1" | (go) "a \<noteq> self" "\<not> l \<le> c + 1" by blast
  then show ?case
  proof cases
    case self
    then show ?thesis using 2(1) [OF self 2(3), of as n] 2(4) by auto
  next
    case stop
    then show ?thesis using 2(3,4) u by (auto simp: word_le_nat_alt word_less_nat_alt)
  next
    case go
    obtain as1 where p: "pick_bridges self l (c + 1) bs = (as1, n)" "as = a # as1" using 2(4) go by (auto split: prod.splits)
    have "c + 1 < l" using go by simp
    from 2(2) [OF go this p(1)] go p(2) u show ?thesis by auto
  qed
qed

lemma disjoint_parts: "a \<notin> F \<Longrightarrow> B - {a} \<union> (F - B) = B - {a} \<union> F" for B F :: "address set"
  by blast

lemma queued_recipients_spec:
  assumes g: "gr_ok (me_self e) g" and l: "0 < nc_multicastLimit (nw_config net)"
  shows "set (queued_recipients e net g) \<subseteq> set (nc_activeBridges (nw_config net)) - {me_self e} \<union> fst ` set (gr_members g)"
    "distinct (nc_activeBridges (nw_config net)) \<Longrightarrow> distinct (queued_recipients e net g)"
    "length (queued_recipients e net g) \<le> unat (nc_multicastLimit (nw_config net))"
    "length (nc_activeBridges (nw_config net)) + length (gr_members g) < unat (nc_multicastLimit (nw_config net)) \<Longrightarrow>
      set (queued_recipients e net g) = set (nc_activeBridges (nw_config net)) - {me_self e} \<union> fst ` set (gr_members g)"
proof -
  let ?bs = "nc_activeBridges (nw_config net)" and ?l = "nc_multicastLimit (nw_config net)"
  obtain as n where p: "pick_bridges (me_self e) ?l 0 ?bs = (as, n)" by fastforce
  let ?ms = "pick_members (\<lambda>a. a \<notin> set ?bs) ?l n (permuted e g)"
  have q: "queued_recipients e net g = as @ ?ms" by (simp add: queued_recipients_def Let_def p)
  note b = pick_bridges_spec [OF l p, simplified]
  note m = pick_members_set [of "\<lambda>a. a \<notin> set ?bs" ?l n "permuted e g"]
  show "set (queued_recipients e net g) \<subseteq> set ?bs - {me_self e} \<union> fst ` set (gr_members g)"
    using b m by (auto simp: q permuted_set)
  show "distinct (queued_recipients e net g)" if "distinct ?bs"
    using that b m pick_members_distinct [OF permuted_distinct [OF g]] by (auto simp: q)
  show "length (queued_recipients e net g) \<le> unat ?l"
    using b pick_members_length [of n ?l "\<lambda>a. a \<notin> set ?bs" "permuted e g"] by (simp add: q)
  assume le: "length ?bs + length (gr_members g) < unat ?l"
  then have as: "as = filter (\<lambda>b. b \<noteq> me_self e) ?bs" using b by simp
  then have "length as \<le> length ?bs" by simp
  moreover have "unat n = length as" using b by blast
  moreover have "length (permuted e g) = length (gr_members g)" using arg_cong [OF permuted_mset, of size e g] by simp
  ultimately have "unat n + length (permuted e g) \<le> unat ?l" using le by linarith
  then have "?ms = filter (\<lambda>a. a \<notin> set ?bs) (permuted e g)" by (rule pick_members_all)
  then have "set ?ms = fst ` set (gr_members g) - set ?bs" using permuted_set [of e g] by auto
  moreover have "set as = set ?bs - {me_self e}" by (auto simp: as)
  ultimately show "set (queued_recipients e net g) = set ?bs - {me_self e} \<union> fst ` set (gr_members g)"
    using gr_okD(2) [OF g] by (simp only: q set_append) (erule disjoint_parts)
qed

section \<open>Once to each\<close>

definition destinations :: "mc_out list \<Rightarrow> address list" where
  "destinations out = concat (map (\<lambda>x. case x of SwSend b _ \<Rightarrow> (case pkt_destination b of Inr a \<Rightarrow> [a] | Inl _ \<Rightarrow> []) | _ \<Rightarrow> []) out)"

definition sent_packets :: "mc_out list \<Rightarrow> zbuf set" where
  "sent_packets out = {b. \<exists>n. SwSend b n \<in> set out}"

lemma destinations_append [simp]: "destinations (xs @ ys) = destinations xs @ destinations ys"
  by (simp add: destinations_def)

lemma sent_packets_append [simp]: "sent_packets (xs @ ys) = sent_packets xs \<union> sent_packets ys"
  by (auto simp: sent_packets_def)

lemma frames_quiet [simp]: "destinations (map FilterFrame fs) = []" "sent_packets (map FilterFrame fs) = {}"
  by (induction fs) (auto simp: destinations_def sent_packets_def)

lemma out_simps [simp]:
  "destinations [] = []" "sent_packets [] = {}"
  "destinations [PushCredentials i a] = []" "sent_packets [PushCredentials i a] = {}"
  "destinations [PushCredentials i a, ExpectReply j, SwSend b n] = (case pkt_destination b of Inr a \<Rightarrow> [a] | Inl _ \<Rightarrow> [])"
  "sent_packets [PushCredentials i a, ExpectReply j, SwSend b n] = {b}"
  by (auto simp: destinations_def sent_packets_def)

definition pkt_ready :: "zbuf \<Rightarrow> bool" where
  "pkt_ready b \<longleftrightarrow> small b \<and> 28 \<le> bsize b"

lemma readdress:
  assumes "pkt_ready b" "length iv = 8" "addr_ok a"
  shows "\<exists>b'. bind_res (newInitializationVector iv b) (setDestination a) = Inr b' \<and> pkt_ready b' \<and>
    pkt_destination b' = Inr a \<and> drop 13 (bdata b') = drop 13 (bdata b)"
proof -
  obtain d fl m p r where b: "b = pk d fl m p r" "pk_ok d m p r" using pk_exists [of b] assms(1) unfolding pkt_ready_def by blast
  have ok: "pk_ok (iv @ drop 8 d) m p r" "pk_ok (iv @ addr_bytes a @ drop 13 d) m p r" using b(2) assms(2) by (simp_all add: pk_ok_def)
  let ?b = "pk (iv @ addr_bytes a @ drop 13 d) fl m p r"
  have "bind_res (newInitializationVector iv b) (setDestination a) = Inr ?b"
    using pk_store(1) [OF b(2) assms(2), of fl] pk_store(2) [OF ok(1), of a fl] assms(2) by (simp add: b(1) newInitializationVector_def)
  moreover have "pkt_ready ?b" using pk_sizes(1,4) [OF ok(2), of fl] pk_sizes(1) [OF b(2), of fl] assms(1)
    by (simp add: pkt_ready_def b(1))
  moreover have "pkt_destination ?b = Inr a" using addr_read_pk(1) [OF ok(2), of fl] assms(2,3) by simp
  moreover have "drop 13 (bdata ?b) = drop 13 (bdata b)"
    using b(2) assms(2) by (simp add: b(1) bdata_pk [OF ok(2)] bdata_pk [OF b(2)] pk_ok_def)
  ultimately show ?thesis by blast
qed

text \<open>The packets sent are copies of \<open>b\<close> that differ in their id and destination only.\<close>

definition copies_of :: "zbuf \<Rightarrow> mc_out list \<Rightarrow> bool" where
  "copies_of b out \<longleftrightarrow> (\<forall>b'\<in>sent_packets out. drop 13 (bdata b') = drop 13 (bdata b))"

lemma copies_simps [simp]: "copies_of b []" "copies_of b (xs @ ys) \<longleftrightarrow> copies_of b xs \<and> copies_of b ys"
  by (auto simp: copies_of_def)

lemma copies_cong: "drop 13 (bdata b) = drop 13 (bdata b') \<Longrightarrow> copies_of b out = copies_of b' out"
  by (simp add: copies_of_def)

definition same_frame :: "outbound \<Rightarrow> outbound \<Rightarrow> bool" where
  "same_frame om om' \<longleftrightarrow> pkt_ready (om_packet om') \<and> drop 13 (bdata (om_packet om')) = drop 13 (bdata (om_packet om))"

lemma sendOnly_spec:
  assumes "pkt_ready (om_packet om)" "length (me_iv e to) = 8" "addr_ok to" "sendOnly e to (om, nw) = (st', out, r)"
  shows "same_frame om (fst st')" "om_sent (fst st') = om_sent om" "destinations out = [] \<or> destinations out = [to]"
    "copies_of (om_packet om) out"
proof -
  obtain b where b: "bind_res (newInitializationVector (me_iv e to) (om_packet om)) (setDestination to) = Inr b" "pkt_ready b"
    "pkt_destination b = Inr to" "drop 13 (bdata b) = drop 13 (bdata (om_packet om))" using readdress [OF assms(1-3)] by blast
  have k: "bind_res (newInitializationVector (me_iv e to) (om_packet om)) (\<lambda>b. bind_res (setDestination to b) F) = F b" for F :: "zbuf \<Rightarrow> (zbuf \<times> u64) res"
    using b(1) by (metis bind_res_assoc bind_res_simps(2))
  have "same_frame om (fst st') \<and> om_sent (fst st') = om_sent om \<and> (destinations out = [] \<or> destinations out = [to]) \<and>
    copies_of (om_packet om) out"
    using assms(1,4) b(2-4) unfolding sendOnly_def prod.case k
    by (cases "packetId b") (auto simp: same_frame_def copies_of_def split: option.splits sum.splits if_splits)
  then show "same_frame om (fst st')" "om_sent (fst st') = om_sent om" "destinations out = [] \<or> destinations out = [to]"
    "copies_of (om_packet om) out" by blast+
qed

text \<open>What any series of logged sends keeps: the log has every destination, and none twice.\<close>

definition logged :: "outbound \<Rightarrow> address set \<Rightarrow> outbound \<Rightarrow> mc_out list \<Rightarrow> bool" where
  "logged om as om' out \<longleftrightarrow> same_frame om om' \<and> set (om_sent om) \<union> set (destinations out) \<subseteq> set (om_sent om') \<and>
     set (om_sent om') \<subseteq> set (om_sent om) \<union> as \<and> set (destinations out) \<subseteq> as \<and>
     distinct (destinations out) \<and> copies_of (om_packet om) out"

lemma logged_refl: "pkt_ready (om_packet om) \<Longrightarrow> logged om {} om []"
  by (simp add: logged_def same_frame_def)

lemma logged_send:
  assumes "pkt_ready (om_packet om)" "length (me_iv e a) = 8" "addr_ok a" "sendAndLog e a (om, nw) = (st', out, r)"
  shows "logged om {a} (fst st') out"
proof -
  have s: "sendOnly e a (logAsSent a om, nw) = (st', out, r)" using assms(4) by (simp add: sendAndLog_def)
  have p: "pkt_ready (om_packet (logAsSent a om))" using assms(1) by (simp add: logAsSent_def)
  from sendOnly_spec [OF p assms(2,3) s] show ?thesis
    by (auto simp: logged_def same_frame_def logAsSent_def)
qed

lemma logged_trans:
  assumes "logged om as om1 out" "logged om1 bs om2 out'" "set (destinations out) \<inter> set (destinations out') = {}"
  shows "logged om (as \<union> bs) om2 (out @ out')"
proof -
  have "copies_of (om_packet om1) out' = copies_of (om_packet om) out'"
    using assms(1) by (intro copies_cong) (simp add: logged_def same_frame_def)
  then show ?thesis using assms by (auto simp: logged_def same_frame_def)
qed

lemma send_all_logged:
  assumes "\<And>a. length (me_iv e a) = 8"
  shows "distinct as \<Longrightarrow> \<forall>a\<in>set as. addr_ok a \<Longrightarrow> pkt_ready (om_packet om) \<Longrightarrow> send_each (sendAndLog e) as (om, nw) = (st', out, r) \<Longrightarrow>
    logged om (set as) (fst st') out"
proof (induction as arbitrary: om nw st' out r)
  case (Cons a as)
  obtain om1 nw1 out1 r1 where s: "sendAndLog e a (om, nw) = ((om1, nw1), out1, r1)" by (metis prod.collapse)
  have l: "logged om {a} om1 out1" using logged_send [OF Cons(4) assms _ s] Cons(3) by simp
  show ?case
  proof (cases r1)
    case (Inl x)
    then show ?thesis using Cons(5) s l by (auto simp: logged_def)
  next
    case (Inr u)
    obtain st2 out2 r2 where s2: "send_each (sendAndLog e) as (om1, nw1) = (st2, out2, r2)" by (metis prod.collapse)
    have "pkt_ready (om_packet om1)" using l by (simp add: logged_def same_frame_def)
    from Cons.IH [OF _ _ this s2] Cons(2,3) have "logged om1 (set as) (fst st2) out2" by simp
    moreover from this l Cons(2) have "set (destinations out1) \<inter> set (destinations out2) = {}" by (auto simp: logged_def)
    ultimately have "logged om ({a} \<union> set as) (fst st2) (out1 @ out2)" using logged_trans [OF l] by blast
    then show ?thesis using Cons(5) s s2 Inr by simp
  qed
qed (auto simp: logged_refl)

lemma sendOnly_log:
  "om_sent (fst (fst (sendOnly e to st))) = om_sent (fst st)" "om_limit (fst (fst (sendOnly e to st))) = om_limit (fst st)"
  by (auto simp: sendOnly_def split: prod.splits option.splits sum.splits)

lemma sendAndLog_log:
  assumes "sendAndLog e a (om, nw) = (st', out, r)"
  shows "om_sent (fst st') = om_sent om @ [a]" "om_limit (fst st') = om_limit om"
  using sendOnly_log [of e a "(logAsSent a om, nw)"] assms by (simp_all add: sendAndLog_def logAsSent_def)

lemma send_all_limit:
  "send_each (sendAndLog e) as (om, nw) = (st', out, r) \<Longrightarrow> om_limit (fst st') = om_limit om"
proof (induction as arbitrary: om nw st' out r)
  case (Cons a as)
  obtain om1 nw1 out1 r1 where s: "sendAndLog e a (om, nw) = ((om1, nw1), out1, r1)" by (metis prod.collapse)
  obtain st2 out2 r2 where s2: "send_each (sendAndLog e) as (om1, nw1) = (st2, out2, r2)" by (metis prod.collapse)
  show ?case using Cons(2) s s2 Cons(1) [OF s2] sendAndLog_log(2) [OF s] by (cases r1) auto
qed auto

text \<open>What a queued frame's offers to new members keep: nobody logged gets it, and the limit holds.\<close>

definition served :: "outbound \<Rightarrow> address set \<Rightarrow> outbound \<Rightarrow> mc_out list \<Rightarrow> bool" where
  "served om as om' out \<longleftrightarrow> logged om as om' out \<and> set (destinations out) \<inter> set (om_sent om) = {} \<and> om_limit om' = om_limit om \<and>
     (if om_atLimit om then om_sent om' = om_sent om \<and> destinations out = [] else length (om_sent om') \<le> unat (om_limit om))"

lemma served_refl: "pkt_ready (om_packet om) \<Longrightarrow> served om as om []"
  by (auto simp: served_def logged_def same_frame_def om_atLimit_def)

lemma served_trans:
  assumes "served om as om1 out" "served om1 bs om2 out'"
  shows "served om (as \<union> bs) om2 (out @ out')"
proof -
  note s = assms [unfolded served_def]
  have "set (destinations out) \<inter> set (destinations out') = {}" using s by (auto simp: logged_def)
  with s have l: "logged om (as \<union> bs) om2 (out @ out')" using logged_trans by blast
  have d: "set (destinations (out @ out')) \<inter> set (om_sent om) = {}" using s by (auto simp: logged_def)
  have "om_sent om1 = om_sent om \<Longrightarrow> om_atLimit om1 = om_atLimit om" using s by (simp add: om_atLimit_def)
  moreover have "om_atLimit om1 \<or> length (om_sent om2) \<le> unat (om_limit om)" using s by (auto split: if_splits)
  ultimately show ?thesis using l d s by (auto simp: served_def split: if_splits)
qed

text \<open>A group that waits with one frame, and the members it hears of.\<close>

definition offered :: "outbound \<Rightarrow> address set \<Rightarrow> mc_group \<Rightarrow> mc_out list \<Rightarrow> bool" where
  "offered om as g out \<longleftrightarrow> (\<exists>om'. served om as om' out \<and> (gr_tx g = [om'] \<or> gr_tx g = []))"

lemma offer_one:
  assumes "pkt_ready (om_packet om)" "length (me_iv e a) = 8" "addr_ok a" "offer_tx e a [om] nw = ((q, nw'), out, r)" "gr_tx g = q"
  shows "offered om {a} g out"
proof (cases "om_atLimit om \<or> a \<in> set (om_sent om)")
  case True
  then have "out = []" "q = [om] \<or> q = []" using assms(4) by (auto simp: sendIfNew_def split: if_splits)
  then show ?thesis using served_refl [OF assms(1), of "{a}"] assms(5) unfolding offered_def by blast
next
  case False
  obtain om1 nw1 out1 r1 where s: "sendAndLog e a (om, nw) = ((om1, nw1), out1, r1)" by (metis prod.collapse)
  have o: "out = out1" "q = [om1] \<or> q = []"
    using assms(4) False s by (auto simp: sendIfNew_def split: sum.splits if_splits)
  have l: "logged om {a} om1 out1" "om_sent om1 = om_sent om @ [a]" "om_limit om1 = om_limit om"
    using logged_send [OF assms(1-3) s] sendAndLog_log [OF s] by simp_all
  have "length (om_sent om) < unat (om_limit om)" using False by (simp add: om_atLimit_def)
  then have "served om {a} om1 out1" using l False by (auto simp: served_def logged_def)
  then show ?thesis using o assms(5) unfolding offered_def by blast
qed

lemma gr_add_offered:
  assumes "pkt_ready (om_packet om)" "length (me_iv e a) = 8" "addr_ok a" "gr_tx g = [om]" "gr_add e now a (g, nw) = ((g', nw'), out, r)"
  shows "offered om {a} g' out"
proof -
  obtain q nw2 out2 r2 where o: "offer_tx e a [om] nw = ((q, nw2), out2, r2)" by (metis prod.collapse)
  have "out = [] \<and> gr_tx g' = [om] \<or> out = out2 \<and> gr_tx g' = q"
    using assms(4,5) o by (auto simp: gr_add_def Let_def simp del: offer_tx.simps split: if_splits)
  then show ?thesis using served_refl [OF assms(1)] offer_one [OF assms(1-3) o] unfolding offered_def by blast
qed

lemma gr_add_nothing: "gr_tx g = [] \<Longrightarrow> gr_add e now a (g, nw) = ((g', nw'), out, r) \<Longrightarrow> gr_tx g' = [] \<and> out = []"
  by (auto simp: gr_add_def Let_def split: if_splits)

lemma gr_add_all_nothing:
  "gr_tx g = [] \<Longrightarrow> gr_add_all e now as (g, nw) = ((g', nw'), out, r) \<Longrightarrow> gr_tx g' = [] \<and> out = []"
proof (induction as arbitrary: g nw out r)
  case (Cons a as)
  obtain g1 nw1 out1 r1 where s: "gr_add e now a (g, nw) = ((g1, nw1), out1, r1)" by (metis prod.collapse)
  obtain g2 nw2 out2 r2 where s2: "gr_add_all e now as (g1, nw1) = ((g2, nw2), out2, r2)" by (metis prod.collapse)
  note n = gr_add_nothing [OF Cons(2) s]
  have "g2 = g' \<Longrightarrow> nw2 = nw' \<Longrightarrow> gr_tx g' = [] \<and> out2 = []" using Cons(1) [of g1 nw1 out2 r2] n s2 by simp
  then show ?case using Cons(3) s s2 n by (cases r1) auto
qed auto

lemma gr_add_all_offered:
  assumes "\<And>a. length (me_iv e a) = 8"
  shows "pkt_ready (om_packet om) \<Longrightarrow> gr_tx g = [om] \<Longrightarrow> \<forall>a\<in>set as. addr_ok a \<Longrightarrow> gr_add_all e now as (g, nw) = ((g', nw'), out, r) \<Longrightarrow>
    offered om (set as) g' out"
proof (induction as arbitrary: om g nw out r)
  case Nil
  then show ?case using served_refl [OF Nil(1)] unfolding offered_def by auto
next
  case (Cons a as)
  obtain g1 nw1 out1 r1 where s: "gr_add e now a (g, nw) = ((g1, nw1), out1, r1)" by (metis prod.collapse)
  obtain g2 nw2 out2 r2 where s2: "gr_add_all e now as (g1, nw1) = ((g2, nw2), out2, r2)" by (metis prod.collapse)
  obtain om1 where o: "served om {a} om1 out1" "gr_tx g1 = [om1] \<or> gr_tx g1 = []"
    using gr_add_offered [OF Cons(2) assms _ Cons(3) s] Cons(4) unfolding offered_def by auto
  have mono: "served om bs om' out' \<Longrightarrow> bs \<subseteq> cs \<Longrightarrow> served om cs om' out'" for bs cs om' out'
    by (auto simp: served_def logged_def)
  show ?case
  proof (cases r1)
    case (Inl x)
    then have "g' = g1 \<and> out = out1" using Cons(5) s by simp
    then show ?thesis using mono [OF o(1), of "set (a # as)"] o(2) unfolding offered_def by auto
  next
    case (Inr u)
    then have e: "g' = g2" "nw' = nw2" "out = out1 @ out2" using Cons(5) s s2 by simp_all
    show ?thesis
    proof (cases "gr_tx g1 = []")
      case True
      from gr_add_all_nothing [OF this s2] show ?thesis using mono [OF o(1), of "set (a # as)"] e unfolding offered_def by auto
    next
      case False
      then have g1: "gr_tx g1 = [om1]" using o(2) by blast
      have "pkt_ready (om_packet om1)" using o(1) by (simp add: served_def logged_def same_frame_def)
      from Cons.IH [OF this g1 _ s2 [folded e(1,2)]] Cons(4) obtain om2 where
        o2: "served om1 (set as) om2 out2" "gr_tx g' = [om2] \<or> gr_tx g' = []" unfolding offered_def by auto
      from served_trans [OF o(1) o2(1)] o2(2) show ?thesis unfolding offered_def e(3) by auto
    qed
  qed
qed

lemma multicast_once_spec:
  assumes g: "gr_ok (me_self e) g" "distinct (nc_activeBridges (nw_config net))" "0 < nc_multicastLimit (nw_config net)"
    and om: "pkt_ready (om_packet om)" "om_limit om = nc_multicastLimit (nw_config net)"
    and iv: "\<And>a. length (me_iv e a) = 8"
    and ok: "\<forall>a\<in>set (nc_activeBridges (nw_config net)) \<union> fst ` set (gr_members g) \<union> set as. addr_ok a"
    and s1: "send_each (sendAndLog e) (queued_recipients e net g) (om, nw) = ((om1, nw1), out1, r1)"
    and s2: "gr_add_all e now as (g1\<lparr>gr_tx := [om1]\<rparr>, nw1) = (st2, out2, r2)"
  shows "distinct (destinations (out1 @ out2)) \<and> length (destinations (out1 @ out2)) \<le> unat (nc_multicastLimit (nw_config net)) \<and>
    set (destinations out1) \<subseteq> set (nc_activeBridges (nw_config net)) - {me_self e} \<union> fst ` set (gr_members g) \<and>
    set (destinations out2) \<subseteq> set as - set (om_sent om) \<and> copies_of (om_packet om) (out1 @ out2)"
proof -
  note q = queued_recipients_spec [OF g(1,3)]
  have "\<forall>a\<in>set (queued_recipients e net g). addr_ok a" using q(1) ok by blast
  from send_all_logged [OF iv q(2) [OF g(2)] this om(1) s1]
  have l1: "logged om (set (queued_recipients e net g)) om1 out1" by simp
  have lim: "om_limit om1 = nc_multicastLimit (nw_config net)" using send_all_limit [OF s1] om(2) by simp
  have r1: "pkt_ready (om_packet om1)" using l1 by (simp add: logged_def same_frame_def)
  obtain g2 nw2 where st2: "st2 = (g2, nw2)" by fastforce
  have "offered om1 (set as) g2 out2"
    by (rule gr_add_all_offered [OF iv r1 _ _ s2 [unfolded st2]]) (use ok in auto)
  then obtain om2 where o: "served om1 (set as) om2 out2" unfolding offered_def by blast
  then have l2: "logged om1 (set as) om2 out2" "set (destinations out2) \<inter> set (om_sent om1) = {}" by (simp_all add: served_def)
  have "set (destinations out1) \<inter> set (destinations out2) = {}" using l1 l2(2) by (auto simp: logged_def)
  from logged_trans [OF l1 l2(1) this]
  have l: "logged om (set (queued_recipients e net g) \<union> set as) om2 (out1 @ out2)" .
  have "set (destinations out1) \<subseteq> set (queued_recipients e net g)" using l1 by (simp add: logged_def)
  moreover have "distinct (destinations out1)" using l1 by (simp add: logged_def)
  ultimately have n1: "length (destinations out1) \<le> unat (nc_multicastLimit (nw_config net))"
    using q(3) by (metis card_length card_mono distinct_card finite_set le_trans)
  have "length (destinations (out1 @ out2)) \<le> unat (nc_multicastLimit (nw_config net))"
  proof (cases "om_atLimit om1")
    case True
    then show ?thesis using o n1 by (simp add: served_def)
  next
    case False
    have "set (destinations (out1 @ out2)) \<subseteq> set (om_sent om2)" "distinct (destinations (out1 @ out2))"
      using l by (simp_all add: logged_def)
    then have "length (destinations (out1 @ out2)) \<le> length (om_sent om2)"
      by (metis card_length card_mono distinct_card finite_set le_trans)
    then show ?thesis using o False lim by (simp add: served_def)
  qed
  moreover have "set (om_sent om) \<subseteq> set (om_sent om1)" using l1 by (simp add: logged_def)
  ultimately show ?thesis using l q(1) \<open>set (destinations out1) \<subseteq> set (queued_recipients e net g)\<close> l2
    by (auto simp: logged_def)
qed

section \<open>Properties\<close>

text \<open>
  Whatever members are added, removed, expire or answer, and whatever is sent, each group's
  members are in strict order, so none is listed twice and the binary search finds it, the node
  is not a member of its own list, and at most 32 frames wait.
\<close>

lemma mc_groups_inv:
  assumes "(mc_step self)\<^sup>*\<^sup>* (ht_new 32) t" "ht_get mc_hash t k = Some g"
  shows "sorted_wrt (<) (map fst (gr_members g)) \<and> distinct (map fst (gr_members g)) \<and>
    self \<notin> fst ` set (gr_members g) \<and> length (gr_tx g) \<le> TX_QUEUE_SIZE"
proof -
  have "gr_ok self g" using mc_steps_ok [OF assms(1)] assms(2) unfolding mc_ok_def by blast
  then show ?thesis using gr_okD(1) by (auto simp: gr_ok_def)
qed

text \<open>
  Claim C34: a gather query is answered, whatever the random numbers: the search for a member not
  picked yet ends, and what is appended is the number known, the number that follow, this node when
  it is subscribed, and distinct members other than the one who asks, until the limit is reached,
  none is left or the packet is full.
\<close>

theorem mc_gather_exact:
  assumes "(mc_step (me_self e))\<^sup>*\<^sup>* (ht_new 32) t" "length (mc_known k t) < 2 ^ 32" "limit \<noteq> 0"
    and "small b" "bcap b = MAX_PACKET" "bsize b + 11 \<le> MAX_PACKET"
  shows "\<exists>xs b' added. mc_gather e q k limit t b = Some (Inr (added, b')) \<and> unat added = length (own_member e k) + length xs \<and>
    bdata b' = bdata b @ be_bytes 4 (of_nat (length (own_member e k) + length (mc_known k t)) :: u32) @
      be_bytes 2 (of_nat (unat added) :: u16) @ concat (map addr_bytes (own_member e k)) @ concat (map five xs) \<and>
    distinct xs \<and> set xs \<subseteq> set (mc_known k t) - {addr_int q} \<and>
    unat added \<le> min (unat limit) 0xffff \<and>
    (unat added = min (unat limit) 0xffff \<or> set xs = set (mc_known k t) - {addr_int q} \<or> MAX_PACKET < bsize b' + 5)"
  using mc_gather_spec [OF mc_steps_ok [OF assms(1)] assms(2-6)] .

text \<open>
  Claim C14: a queued frame reaches each recipient at most once, in its life: of those it is sent
  to at first and those it is offered to as they become known, nobody gets it twice, no more than
  the limit get it, at first only bridges and members do and never this node, later nobody the log
  already has; and all get the same content.
\<close>

theorem multicast_once:
  assumes "gr_ok (me_self e) g" "distinct (nc_activeBridges (nw_config net))" "0 < nc_multicastLimit (nw_config net)"
    and "pkt_ready (om_packet om)" "om_limit om = nc_multicastLimit (nw_config net)"
    and "\<And>a. length (me_iv e a) = 8"
    and "\<forall>a\<in>set (nc_activeBridges (nw_config net)) \<union> fst ` set (gr_members g) \<union> set as. addr_ok a"
    and "send_each (sendAndLog e) (queued_recipients e net g) (om, nw) = ((om1, nw1), out1, r1)"
    and "gr_add_all e now as (g1\<lparr>gr_tx := [om1]\<rparr>, nw1) = (st2, out2, r2)"
  shows "distinct (destinations (out1 @ out2)) \<and> length (destinations (out1 @ out2)) \<le> unat (nc_multicastLimit (nw_config net)) \<and>
    set (destinations out1) \<subseteq> set (nc_activeBridges (nw_config net)) - {me_self e} \<union> fst ` set (gr_members g) \<and>
    set (destinations out2) \<subseteq> set as - set (om_sent om) \<and> copies_of (om_packet om) (out1 @ out2)"
  using multicast_once_spec [OF assms] .

section \<open>A group of two\<close>

definition demo_mc_env :: mc_env where
  "demo_mc_env = \<lparr>me_self = addr_of 1, me_alloc = \<lambda>_. True, me_crypto = demo_crypto, me_iv = \<lambda>_. replicate 8 9, me_filterRnd = \<lambda>_ _. 0,
     me_perm = of_nat, me_pick = of_nat, me_shuffle = of_nat, me_lowBandwidth = False, me_subscribed = \<lambda>_ _. True, me_topo = topology_empty\<rparr>"

definition demo_key :: mc_key where
  "demo_key = (7, \<lparr>mg_mac = MAC 0xffffffffffff, mg_adi = 0\<rparr>)"

definition demo_mc :: multicaster where
  "demo_mc = fst (fst (mc_add demo_mc_env 1000 demo_key (addr_of 3) (ht_new 32, None)))"

definition demo_group :: mc_group where
  "demo_group = gr_new\<lparr>gr_members := [(addr_of 2, 5), (addr_of 3, 6)]\<rparr>"

definition demo_om :: outbound where
  "demo_om = (om_default demo_mc_env)\<lparr>om_limit := 3, om_nwid := 7, om_packet := \<lparr>bmem = replicate 40 0, blen = 40\<rparr>, om_etherType := 0x806\<rparr>"

definition demo_mc_net :: network where
  "demo_mc_net = demo_network\<lparr>nw_config := (nw_config demo_network)\<lparr>nc_multicastLimit := 3\<rparr>\<rparr>"

lemma demo_mc_reached: "(mc_step (addr_of 1))\<^sup>*\<^sup>* (ht_new 32) demo_mc"
  unfolding demo_mc_def by (rule r_into_rtranclp, rule mc_step_add) (simp add: demo_mc_env_def)

lemma demo_mc_known: "mc_known demo_key demo_mc = [3]"
proof -
  have h: "ht_ok mc_hash (ht_new 32 :: multicaster)" "ht_get mc_hash (ht_new 32 :: multicaster) = Map.empty" by (simp_all add: ht_new_ok)
  have t: "ht_ok mc_hash (ht_index al mc_hash gr_new demo_key (ht_new 32 :: multicaster))" for al by (rule ht.touch_inv [OF h(1)])
  have a: "map (addr_int \<circ> fst) (gr_members (fst (fst (gr_add demo_mc_env 1000 (addr_of 3) (gr_new, None))))) = [3]" by code_simp
  have "ht_get mc_hash (ht_index al mc_hash gr_new demo_key (ht_new 32 :: multicaster)) demo_key = Some gr_new" for al
    by (simp add: ht.touch_lookup [OF h(1)] h(2) map_touch_def)
  then show ?thesis using a
    by (simp add: mc_known_def demo_mc_def mc_add_def mc_group_of_def Let_def case_prod_beta ht.put_lookup [OF t])
qed

definition demo_two_passes :: "mc_out list \<times> mc_out list \<times> bool" where
  "demo_two_passes =
     (case send_each (sendAndLog demo_mc_env) (queued_recipients demo_mc_env demo_mc_net demo_group) (demo_om, Some demo_mc_net) of
        ((om1, nw1), out1, r1) \<Rightarrow>
          (case gr_add_all demo_mc_env 9 [addr_of 3, addr_of 4, addr_of 5] (gr_new\<lparr>gr_tx := [om1]\<rparr>, nw1) of (st2, out2, r2) \<Rightarrow> (out1, out2, r1 = Inr () \<and> r2 = Inr ())))"

lemma demo_passes: "case demo_two_passes of (out1, out2, ok) \<Rightarrow> destinations out1 = [addr_of 2, addr_of 3] \<and> destinations out2 = [addr_of 4] \<and> ok"
  by code_simp

lemma mc_groups_inv_witness:
  "\<exists>g. ht_get mc_hash demo_mc demo_key = Some g \<and> gr_members g \<noteq> [] \<and> sorted_wrt (<) (map fst (gr_members g)) \<and>
    addr_of 1 \<notin> fst ` set (gr_members g)"
proof -
  obtain g where g: "ht_get mc_hash demo_mc demo_key = Some g" "gr_members g \<noteq> []"
    using demo_mc_known by (cases "ht_get mc_hash demo_mc demo_key") (auto simp: mc_known_def)
  from mc_groups_inv [OF demo_mc_reached g(1)] g show ?thesis by blast
qed

lemma mc_gather_exact_witness:
  "\<exists>(xs :: u64 list) b' added. mc_gather demo_mc_env (addr_of 9) demo_key 5 demo_mc \<lparr>bmem = replicate MAX_PACKET 0, blen = 28\<rparr> = Some (Inr (added, b')) \<and>
    unat added = 1 + length xs \<and> set xs \<subseteq> {3}"
proof -
  let ?b = "\<lparr>bmem = replicate MAX_PACKET 0, blen = 28\<rparr> :: zbuf"
  have b: "small ?b" "bcap ?b = MAX_PACKET" "bsize ?b + 11 \<le> MAX_PACKET"
    by (simp_all add: small_def buf_ok_def bcap_def bsize_def MAX_PACKET_def)
  have self: "me_self demo_mc_env = addr_of 1" "own_member demo_mc_env demo_key = [addr_of 1]" by (simp_all add: own_member_def demo_mc_env_def)
  show ?thesis
    using mc_gather_exact [of demo_mc_env demo_mc demo_key 5 ?b "addr_of 9", unfolded self, OF demo_mc_reached _ _ b] unfolding demo_mc_known by force
qed

lemma multicast_once_witness:
  "case demo_two_passes of (out1, out2, _) \<Rightarrow> distinct (destinations (out1 @ out2)) \<and> length (destinations (out1 @ out2)) = 3"
proof -
  obtain om1 nw1 out1 r1 where s1: "send_each (sendAndLog demo_mc_env) (queued_recipients demo_mc_env demo_mc_net demo_group) (demo_om, Some demo_mc_net) =
      ((om1, nw1), out1, r1)" by (metis prod.collapse)
  obtain st2 out2 r2 where s2: "gr_add_all demo_mc_env 9 [addr_of 3, addr_of 4, addr_of 5] (gr_new\<lparr>gr_tx := [om1]\<rparr>, nw1) = (st2, out2, r2)"
    by (metis prod.collapse)
  have d: "demo_two_passes = (out1, out2, r1 = Inr () \<and> r2 = Inr ())" unfolding demo_two_passes_def s1 prod.case s2 ..
  have "gr_ok (me_self demo_mc_env) demo_group" "nc_activeBridges (nw_config demo_mc_net) = []" "nc_multicastLimit (nw_config demo_mc_net) = 3"
    "om_limit demo_om = 3" "gr_members demo_group = [(addr_of 2, 5), (addr_of 3, 6)]" by (simp_all only: TX_QUEUE_SIZE_def gr_ok_def, code_simp+)
  moreover have "pkt_ready (om_packet demo_om)" by (simp add: pkt_ready_def demo_om_def small_def buf_ok_def bcap_def bsize_def)
  moreover have "length (me_iv demo_mc_env a) = 8" for a by (simp add: demo_mc_env_def)
  ultimately have "distinct (destinations (out1 @ out2))" using multicast_once [OF _ _ _ _ _ _ _ s1 s2] by auto
  then show ?thesis using demo_passes by (auto simp: d)
qed

end
