(* ===== verification/ZT_Network.thy ===== *)
theory ZT_Network
  imports ZT_Multicaster ZT_NetDict
begin

text \<open>
  \<^verbatim>\<open>node/Network.cpp\<close> and \<^verbatim>\<open>node/Network.hpp\<close> beyond the filters: the configuration, which arrives in
  signed chunks, the multicast groups of the node and of the bridged networks behind it, the
  routes to bridges, who is let in and what credentials are taken. \<open>ns_net\<close> is the part the filters use.
\<close>

section \<open>State\<close>

text \<open>
  The counts of chunks and bytes are 64-bit in the code; they stay below the number of chunks of
  a slot times 65535, so they are natural numbers here.
\<close>

record cfg_slot =
  cs_ts :: u64
  cs_updateId :: u64
  cs_have :: "u64 list"
  cs_bytes :: nat
  cs_data :: "u8 list"

datatype netconf_failure = FAIL_NONE | FAIL_ACCESS_DENIED | FAIL_NOT_FOUND | FAIL_INIT | FAIL_AUTH

datatype net_status = STATUS_PORT_ERROR | STATUS_ACCESS_DENIED | STATUS_NOT_FOUND | STATUS_OK | STATUS_REQUESTING | STATUS_AUTH

record netstate =
  ns_net :: network
  ns_groups :: "multicast_group list"
  ns_behind :: "(multicast_group, u64) htable"
  ns_bridges :: "(mac, address) htable"
  ns_lastAnnounced :: u64
  ns_lastUpdate :: u64
  ns_slots :: "cfg_slot list"
  ns_destroyed :: bool
  ns_failure :: netconf_failure
  ns_portInit :: bool
  ns_portError :: u32
  ns_authURL :: "u8 list"

datatype net_out =
    NetSend zbuf
  | Whois address
  | PortUp u64
  | PortUpdate u64
  | PutConfig u64 "u8 list"

text \<open>
  \<open>ne_cap\<close> is \<^verbatim>\<open>ZT_NETWORKCONFIG_DICT_CAPACITY\<close>, a sum of sizes of structs; \<open>ne_same\<close> compares two
  configurations as \<^verbatim>\<open>memcmp\<close> does, over memory the model does not have; \<open>ne_port\<close> is what the host
  answers when the port is configured; \<open>ne_iv\<close> the random bytes of the packets to an address.
\<close>

record 's net_env =
  ne_cred :: "'s env"
  ne_self :: address
  ne_now :: u64
  ne_alloc :: "nat \<Rightarrow> bool"
  ne_cap :: nat
  ne_same :: "netconf \<Rightarrow> netconf \<Rightarrow> bool"
  ne_port :: "u64 \<Rightarrow> u32"
  ne_iv :: "address \<Rightarrow> nat \<Rightarrow> u8 list"
  ne_crypto :: pcrypto
  ne_knows :: "address \<Rightarrow> bool"
  ne_upstreams :: "address list"

abbreviation ns_id :: "netstate \<Rightarrow> u64" where "ns_id n \<equiv> nw_id (ns_net n)"
abbreviation ns_config :: "netstate \<Rightarrow> netconf" where "ns_config n \<equiv> nw_config (ns_net n)"
abbreviation ns_members :: "netstate \<Rightarrow> (address, membership) htable" where "ns_members n \<equiv> nw_memberships (ns_net n)"

definition set_config :: "netconf \<Rightarrow> netstate \<Rightarrow> netstate" where
  "set_config c n = n\<lparr>ns_net := (ns_net n)\<lparr>nw_config := c\<rparr>\<rparr>"

definition set_members :: "(address, membership) htable \<Rightarrow> netstate \<Rightarrow> netstate" where
  "set_members t n = n\<lparr>ns_net := (ns_net n)\<lparr>nw_memberships := t\<rparr>\<rparr>"

definition ns_status :: "netstate \<Rightarrow> net_status" where
  "ns_status n =
     (if ns_portError n \<noteq> 0 then STATUS_PORT_ERROR
      else case ns_failure n of
        FAIL_ACCESS_DENIED \<Rightarrow> STATUS_ACCESS_DENIED
      | FAIL_NOT_FOUND \<Rightarrow> STATUS_NOT_FOUND
      | FAIL_NONE \<Rightarrow> (if nc_bool (ns_config n) then STATUS_OK else STATUS_REQUESTING)
      | FAIL_AUTH \<Rightarrow> STATUS_AUTH
      | FAIL_INIT \<Rightarrow> STATUS_PORT_ERROR)"

section \<open>Setting the configuration\<close>

definition port_event :: "netstate \<Rightarrow> net_out" where
  "port_event n = (if ns_portInit n then PortUpdate (ns_id n) else PortUp (ns_id n))"

definition setConfiguration :: "'s net_env \<Rightarrow> netconf \<Rightarrow> bool \<Rightarrow> netstate \<Rightarrow> netstate \<times> net_out list \<times> nat" where
  "setConfiguration e nc save n =
     (if ns_destroyed n then (n, [], 0)
      else if nc_issuedTo nc \<noteq> ne_self e \<or> nc_networkId nc \<noteq> ns_id n then (n, [], 0)
      else if ne_same e (ns_config n) nc then (n, [], 1)
      else ((set_config nc n)\<lparr>ns_lastUpdate := ne_now e, ns_failure := FAIL_NONE, ns_portInit := True,
              ns_portError := ne_port e (ns_id n), ns_authURL := nc_authenticationURL nc\<rparr>,
            port_event n #
              (if save then (case nc_toDictionary (ne_cap e) nc of
                 Inr (d, True) \<Rightarrow> [PutConfig (ns_id n) (takeWhile (\<lambda>c. c \<noteq> 0) d)] | _ \<Rightarrow> []) else []), 2))"

definition setAccessDenied :: "netstate \<Rightarrow> netstate \<times> net_out list" where
  "setAccessDenied n = (n\<lparr>ns_failure := FAIL_ACCESS_DENIED\<rparr>, [port_event n])"

definition setNotFound :: "netstate \<Rightarrow> netstate \<times> net_out list" where
  "setNotFound n = (n\<lparr>ns_failure := FAIL_NOT_FOUND\<rparr>, [port_event n])"

definition setAuthenticationRequired_url :: "u8 list \<Rightarrow> netstate \<Rightarrow> netstate \<times> net_out list" where
  "setAuthenticationRequired_url url n =
     ((set_config ((ns_config n)\<lparr>nc_ssoEnabled := True, nc_ssoVersion := 0\<rparr>) n)\<lparr>ns_failure := FAIL_AUTH, ns_authURL := url\<rparr>,
      [port_event n])"

section \<open>Configuration chunks\<close>

definition slots_new :: "nat \<Rightarrow> cfg_slot list" where
  "slots_new C = replicate 3 \<lparr>cs_ts = 0, cs_updateId = 0, cs_have = [], cs_bytes = 0, cs_data = dict_empty C\<rparr>"

definition MAX_UPDATE_CHUNKS :: "nat \<Rightarrow> nat" where
  "MAX_UPDATE_CHUNKS C = C div 1024 + 1"

text \<open>The halves of the signature's first 16 bytes, one over the other, in the host's byte order.\<close>

definition chunk_id :: "u8 list \<Rightarrow> u64" where
  "chunk_id sig = be_val (rev (map2 (XOR) (take 8 sig) (take 8 (drop 8 sig))))"

text \<open>
  The slot for an update: the one that has it, else the first of the lowest count. \<open>None\<close> is a
  chunk already there.
\<close>

definition better :: "cfg_slot \<Rightarrow> nat \<Rightarrow> (nat \<times> u64) option \<Rightarrow> (nat \<times> u64) option" where
  "better c i best = (case best of None \<Rightarrow> Some (i, cs_ts c) | Some (j, t) \<Rightarrow> if cs_ts c < t then Some (i, cs_ts c) else best)"

fun find_update :: "u64 \<Rightarrow> u64 \<Rightarrow> cfg_slot list \<Rightarrow> nat \<Rightarrow> (nat \<times> u64) option \<Rightarrow> nat option" where
  "find_update uid cid [] i best = map_option fst best"
| "find_update uid cid (c # cs) i best =
     (if cs_updateId c = uid then (if cid \<in> set (cs_have c) then None else Some i)
      else find_update uid cid cs (i + 1) (better c i best))"

fun find_oldest :: "cfg_slot list \<Rightarrow> nat \<Rightarrow> (nat \<times> u64) option \<Rightarrow> nat option" where
  "find_oldest [] i best = map_option fst best"
| "find_oldest (c # cs) i best = find_oldest cs (i + 1) (better c i best)"

record cfg_chunk =
  ck_data :: "u8 list"
  ck_updateId :: u64
  ck_id :: u64
  ck_total :: nat
  ck_index :: nat

text \<open>A chunk that is not there yet must be signed by the controller.\<close>

definition check_signed :: "'s env \<Rightarrow> address \<Rightarrow> cfg_slot list \<Rightarrow> zbuf \<Rightarrow> u32 \<Rightarrow> u32 \<Rightarrow> u8 list \<Rightarrow> cfg_chunk \<Rightarrow> nat option res" where
  "check_signed e ctrl slots b start ptr sig k =
     (case find_update (ck_updateId k) (ck_id k) slots 0 None of
        None \<Rightarrow> Inr None
      | Some i \<Rightarrow>
          if \<not> identity_bool (env_getIdentity e ctrl) then Inr None
          else bind_res (buf_bytes b start (ptr - start)) (\<lambda>m.
            Inr (if identity_verify_len (env_crypto e) (env_getIdentity e ctrl) m sig 96 then Some i else None)))"

text \<open>A signed chunk, from the flags on: what it says, its slot, and whether to pass it on.\<close>

definition read_signed :: "'s env \<Rightarrow> address \<Rightarrow> nat \<Rightarrow> cfg_slot list \<Rightarrow> zbuf \<Rightarrow> u32 \<Rightarrow> u32 \<Rightarrow> u8 list \<Rightarrow> (cfg_chunk \<times> nat \<times> bool) option res" where
  "read_signed e ctrl C slots b start ptr data =
     bind_res (buf_get b ptr) (\<lambda>flags. bind_res (buf_at 8 b (ptr + 1)) (\<lambda>uid. bind_res (buf_at 4 b (ptr + 9)) (\<lambda>tot :: u32.
     bind_res (buf_at 4 b (ptr + 13)) (\<lambda>index :: u32.
     if unat tot < unat index + length data \<or> C \<le> unat tot then Inr None
     else bind_res (buf_get b (ptr + 17)) (\<lambda>t.
     if t \<noteq> 1 then Inr None
     else bind_res (buf_at 2 b (ptr + 18)) (\<lambda>l :: u16.
     if l \<noteq> 96 then Inr None
     else bind_res (buf_bytes b (ptr + 20) 96) (\<lambda>sig.
     let k = \<lparr>ck_data = data, ck_updateId = uid, ck_id = chunk_id sig, ck_total = unat tot, ck_index = unat index\<rparr> in
     bind_res (check_signed e ctrl slots b start (ptr + 17) sig k) (\<lambda>r.
     Inr (map_option (\<lambda>i. (k, i, flags AND 1 \<noteq> 0)) r)))))))))"

text \<open>A whole configuration without a signature, of old controllers.\<close>

definition read_legacy :: "nat \<Rightarrow> cfg_slot list \<Rightarrow> u64 \<Rightarrow> u8 list \<Rightarrow> (cfg_chunk \<times> nat \<times> bool) option" where
  "read_legacy C slots pid data =
     (if C \<le> length data then None
      else case find_oldest slots 0 None of
        None \<Rightarrow> None
      | Some i \<Rightarrow> Some (\<lparr>ck_data = data, ck_updateId = pid, ck_id = pid, ck_total = length data, ck_index = 0\<rparr>, i, False))"

definition chunk_packet :: "'s net_env \<Rightarrow> zbuf \<Rightarrow> u32 \<Rightarrow> address \<Rightarrow> zbuf res" where
  "chunk_packet e b start a =
     bind_res (buf_bytes b start (blen b - start)) (\<lambda>bs.
     bind_res (pkt_new (replicate 10024 0) (ne_iv e a 0) a (ne_self e) VERB_NETWORK_CONFIG) (\<lambda>p.
     buf_append_bytes bs (of_nat (length bs)) p))"

fun send_all :: "(address \<Rightarrow> zbuf res) \<Rightarrow> address list \<Rightarrow> net_out list \<times> unit res" where
  "send_all f [] = ([], Inr ())"
| "send_all f (a # as) =
     (case f a of Inl x \<Rightarrow> ([], Inl x) | Inr p \<Rightarrow> (case send_all f as of (out, r) \<Rightarrow> (NetSend p # out, r)))"

definition member_list :: "netstate \<Rightarrow> address list" where
  "member_list n = map fst (ht_entries (ns_members n))"

text \<open>A chunk goes into its slot; with the last byte the text is complete.\<close>

definition store_chunk :: "nat \<Rightarrow> cfg_chunk \<Rightarrow> cfg_slot \<Rightarrow> (cfg_slot \<times> bool) res" where
  "store_chunk C k c =
     (let c = c\<lparr>cs_ts := cs_ts c + 1\<rparr>;
          c = (if cs_updateId c \<noteq> ck_updateId k then c\<lparr>cs_updateId := ck_updateId k, cs_have := [], cs_bytes := 0\<rparr> else c) in
      if MAX_UPDATE_CHUNKS C \<le> length (cs_have c) then Inr (c, False)
      else if length (cs_data c) < ck_index k + length (ck_data k) then Inl UndefinedBehaviour
      else (let c = c\<lparr>cs_have := cs_have c @ [ck_id k], cs_data := mem_write (cs_data c) (ck_index k) (ck_data k),
                     cs_bytes := cs_bytes c + length (ck_data k)\<rparr> in
            if cs_bytes c \<noteq> ck_total k then Inr (c, False)
            else if length (cs_data c) \<le> cs_bytes c then Inl UndefinedBehaviour
            else Inr (c\<lparr>cs_data := (cs_data c)[cs_bytes c := 0]\<rparr>, True)))"

definition controllerOf :: "netstate \<Rightarrow> address" where
  "controllerOf n = controllerFor (ns_id n)"

definition take_chunk :: "'s net_env \<Rightarrow> cfg_chunk \<Rightarrow> nat \<Rightarrow> netstate \<Rightarrow> netstate \<times> net_out list \<times> u64 res" where
  "take_chunk e k i n =
     (case store_chunk (ne_cap e) k (ns_slots n ! i) of
        Inl x \<Rightarrow> (n, [], Inl x)
      | Inr (c, done) \<Rightarrow>
          (let n = n\<lparr>ns_slots := (ns_slots n)[i := c]\<rparr> in
           if done then
             (case nc_fromDictionary (cs_data c) of
                Inl UndefinedBehaviour \<Rightarrow> (n, [], Inl UndefinedBehaviour)
              | Inl _ \<Rightarrow> (n, [], Inr 0)
              | Inr None \<Rightarrow> (n, [], Inr 0)
              | Inr (Some nc) \<Rightarrow> (case setConfiguration e nc True n of (n, out, _) \<Rightarrow> (n, out, Inr (ck_updateId k))))
           else (n, [], Inr 0)))"

definition handleConfigChunk :: "'s net_env \<Rightarrow> u64 \<Rightarrow> address \<Rightarrow> zbuf \<Rightarrow> u32 \<Rightarrow> netstate \<Rightarrow> netstate \<times> net_out list \<times> u64 res" where
  "handleConfigChunk e pid source b start n =
     (if ns_destroyed n then (n, [], Inr 0)
      else case bind_res (buf_at 2 b (start + 8)) (\<lambda>l :: u16. buf_bytes b (start + 10) (ucast l)) of
        Inl x \<Rightarrow> (n, [], Inl x)
      | Inr data \<Rightarrow>
          (let ptr = start + 10 + of_nat (length data) in
           case (if ptr < blen b then read_signed (ne_cred e) (controllerOf n) (ne_cap e) (ns_slots n) b start ptr data
                 else if source = controllerOf n \<or> \<not> addr_bool source
                 then Inr (read_legacy (ne_cap e) (ns_slots n) pid data)
                 else Inr None) of
             Inl x \<Rightarrow> (n, [], Inl x)
           | Inr None \<Rightarrow> (n, [], Inr 0)
           | Inr (Some (k, i, fast)) \<Rightarrow>
               (case (if fast then send_all (chunk_packet e b start) (filter (\<lambda>a. a \<noteq> source \<and> a \<noteq> controllerOf n) (member_list n))
                      else ([], Inr ())) of
                  (out, Inl x) \<Rightarrow> (n, out, Inl x)
                | (out, Inr _) \<Rightarrow> (case take_chunk e k i n of (n', out', r) \<Rightarrow> (n', out @ out', r)))))"

section \<open>The controller's side\<close>

definition CONFIG_CHUNK :: nat where "CONFIG_CHUNK = 10024 - (28 + 256)"

definition config_packet :: "'s net_env \<Rightarrow> identity \<Rightarrow> u64 \<Rightarrow> u64 \<Rightarrow> address \<Rightarrow> u64 \<Rightarrow> u32 \<Rightarrow> nat \<Rightarrow> u8 list \<Rightarrow> (zbuf \<times> u32) res" where
  "config_packet e me nwid req dest uid tot index data =
     bind_res (pkt_new (replicate 10024 0) (ne_iv e dest index) dest (id_address me) (if req \<noteq> 0 then VERB_OK else VERB_NETWORK_CONFIG)) (\<lambda>b.
     bind_res (if req \<noteq> 0 then write_all [buf_append_int 1 (verb_code VERB_NETWORK_CONFIG_REQUEST), buf_append_int 8 req] b else Inr b) (\<lambda>b0.
     bind_res (write_all [buf_append_int 8 nwid, buf_append_int 2 (of_nat (length data) :: u16), buf_append_bytes data (of_nat (length data)),
        buf_append_int 1 (0 :: u8), buf_append_int 8 uid, buf_append_int 4 tot, buf_append_int 4 (of_nat index :: u32)] b0) (\<lambda>b.
     bind_res (buf_read b (unat (blen b0)) (unat (blen b - blen b0))) (\<lambda>m.
     bind_res (identity_sign (env_crypto (ne_cred e)) me m) (\<lambda>sig.
     bind_res (write_all [buf_append_int 1 (1 :: u8), buf_append_int 2 (96 :: u16), buf_append_bytes sig 96] b) (\<lambda>b.
     Inr (b, blen b0)))))))"

text \<open>The packets of a text, each compressed and sent.\<close>

function config_packets :: "(nat \<Rightarrow> u8 list \<Rightarrow> zbuf res) \<Rightarrow> u8 list \<Rightarrow> nat \<Rightarrow> net_out list \<times> unit res" where
  "config_packets mk text index =
     (if index < length text then
        (let len = min (length text - index) CONFIG_CHUNK in
         case mk index (take len (drop index text)) of
           Inl x \<Rightarrow> ([], Inl x)
         | Inr b \<Rightarrow> (case config_packets mk text (index + len) of (out, r) \<Rightarrow> (NetSend b # out, r)))
      else ([], Inr ()))"
  by pat_completeness auto

termination config_packets
  by (relation "measure (\<lambda>(mk, text, index). length text - index)") (auto simp: CONFIG_CHUNK_def)

declare config_packets.simps [simp del]

text \<open>Whom the local controller has lately sent a configuration.\<close>

type_synonym auth_table = "(u64 \<times> u64, u64) htable"

definition hc_auth :: "u64 \<times> u64 \<Rightarrow> nat" where
  "hc_auth k = unat (fst k XOR snd k)"

definition localControllerHasAuthorized :: "u64 \<Rightarrow> u64 \<Rightarrow> address \<Rightarrow> auth_table \<Rightarrow> bool" where
  "localControllerHasAuthorized now nwid a t =
     (case ht_get hc_auth t (nwid, addr_int a) of Some at \<Rightarrow> now - at <s 60000 * 3 | None \<Rightarrow> False)"

definition ncSendConfig :: "'s net_env \<Rightarrow> identity \<Rightarrow> u64 \<Rightarrow> u64 \<Rightarrow> u64 \<Rightarrow> address \<Rightarrow> netconf \<Rightarrow> auth_table \<times> netstate option \<Rightarrow>
    (auth_table \<times> netstate option) \<times> net_out list \<times> unit res" where
  "ncSendConfig e me rnd nwid req dest nc st =
     (case st of (t, n) \<Rightarrow>
      let t = ht_set (ne_alloc e) hc_auth (nwid, addr_int dest) (ne_now e) t in
      if dest = id_address me then
        (case n of None \<Rightarrow> ((t, None), [], Inr ())
         | Some n \<Rightarrow> (case setConfiguration e nc True n of (n', out, _) \<Rightarrow> ((t, Some n'), out, Inr ())))
      else (case nc_toDictionary (ne_cap e) nc of
          Inl x \<Rightarrow> ((t, n), [], Inl x)
        | Inr (d, False) \<Rightarrow> ((t, n), [], Inr ())
        | Inr (d, True) \<Rightarrow>
            (let uid = (if rnd = 0 then 1 else rnd); text = takeWhile (\<lambda>c. c \<noteq> 0) d in
             case config_packets (\<lambda>index data. bind_res (config_packet e me nwid req dest uid (of_nat (length text)) index data)
                 (\<lambda>(b, _). bind_res (pkt_compress (ne_crypto e) b) (\<lambda>(_, b). Inr b))) text 0 of
               (out, r) \<Rightarrow> ((t, n), out, r))))"

section \<open>What a chunk may do\<close>

abbreviation ck_end :: "cfg_chunk \<Rightarrow> nat" where "ck_end k \<equiv> ck_index k + length (ck_data k)"

definition slots_ok :: "nat \<Rightarrow> cfg_slot list \<Rightarrow> bool" where
  "slots_ok C cs \<longleftrightarrow> length cs = 3 \<and> (\<forall>c\<in>set cs. length (cs_data c) = C \<and> length (cs_have c) \<le> MAX_UPDATE_CHUNKS C)"

lemma better_index: "map_option fst (better c i best) \<in> {Some i, map_option fst best}" "better c i best \<noteq> None"
  by (auto simp: better_def split: option.split)

lemma find_update_index:
  "find_update uid cid cs i best = Some j \<Longrightarrow> (\<exists>b. best = Some b \<and> j = fst b) \<or> i \<le> j \<and> j < i + length cs"
proof (induction uid cid cs i best rule: find_update.induct)
  case (2 uid cid c cs i best)
  show ?case
  proof (cases "cs_updateId c = uid")
    case False
    from 2(1) [OF False] 2(2) False show ?thesis by (auto simp: better_def split: option.splits if_splits)
  qed (use 2(2) in \<open>auto split: if_splits\<close>)
qed auto

lemma find_oldest_index:
  "find_oldest cs i best = Some j \<Longrightarrow> (\<exists>b. best = Some b \<and> j = fst b) \<or> i \<le> j \<and> j < i + length cs"
proof (induction cs i best rule: find_oldest.induct)
  case (2 c cs i best)
  from 2(1) 2(2) show ?case by (auto simp: better_def split: option.splits if_splits)
qed auto

lemma store_chunk_ok:
  assumes "length (cs_data c) = C" "length (cs_have c) \<le> MAX_UPDATE_CHUNKS C" "ck_index k + length (ck_data k) \<le> ck_total k" "ck_total k < C"
  shows "\<exists>c' fin. store_chunk C k c = Inr (c', fin) \<and> length (cs_data c') = C \<and> length (cs_have c') \<le> MAX_UPDATE_CHUNKS C"
  using assms by (auto simp: store_chunk_def Let_def)

lemma check_signed_facts:
  assumes "check_signed e ctrl slots b start ptr sig k = Inr (Some i)"
  shows "find_update (ck_updateId k) (ck_id k) slots 0 None = Some i" "identity_bool (env_getIdentity e ctrl)"
    "\<exists>m. buf_bytes b start (ptr - start) = Inr m \<and> identity_verify_len (env_crypto e) (env_getIdentity e ctrl) m sig 96"
  using assms by (auto simp: check_signed_def bind_res_eq_Inr split: if_splits option.splits)

lemma read_signed_facts:
  assumes "read_signed e ctrl C slots b start ptr data = Inr (Some (k, i, fast))" "length slots = 3"
  shows "i < 3" "ck_index k + length (ck_data k) \<le> ck_total k" "ck_total k < C" "ck_data k = data"
    "identity_bool (env_getIdentity e ctrl)"
    "\<exists>m sig. buf_bytes b start (ptr + 17 - start) = Inr m \<and> buf_bytes b (ptr + 20) 96 = Inr sig \<and>
      identity_verify_len (env_crypto e) (env_getIdentity e ctrl) m sig 96"
proof -
  obtain sig where f: "ck_index k + length (ck_data k) \<le> ck_total k \<and> ck_total k < C \<and> ck_data k = data"
    "buf_bytes b (ptr + 20) 96 = Inr sig" "check_signed e ctrl slots b start (ptr + 17) sig k = Inr (Some i)"
    using assms(1) unfolding read_signed_def bind_res_eq_Inr Let_def by (auto simp: bind_res_eq_Inr not_less split: if_split_asm)
  note c = check_signed_facts [OF f(3)]
  show "i < 3" using find_update_index [OF c(1)] assms(2) by auto
  show "ck_index k + length (ck_data k) \<le> ck_total k" "ck_total k < C" "ck_data k = data" using f(1) by blast+
  show "identity_bool (env_getIdentity e ctrl)"
    "\<exists>m sig. buf_bytes b start (ptr + 17 - start) = Inr m \<and> buf_bytes b (ptr + 20) 96 = Inr sig \<and>
      identity_verify_len (env_crypto e) (env_getIdentity e ctrl) m sig 96" using c(2,3) f(2) by blast+
qed

lemma read_legacy_facts:
  assumes "read_legacy C slots pid data = Some (k, i, fast)" "length slots = 3"
  shows "i < 3" "ck_index k + length (ck_data k) \<le> ck_total k" "ck_total k < C" "\<not> fast"
  using assms by (auto simp: read_legacy_def split: if_splits option.splits dest!: find_oldest_index)

lemma slots_ok_update: "slots_ok C cs \<Longrightarrow> length (cs_data c) = C \<Longrightarrow> length (cs_have c) \<le> MAX_UPDATE_CHUNKS C \<Longrightarrow> slots_ok C (cs[i := c])"
  by (auto simp: slots_ok_def dest: set_update_subset_insert [THEN subsetD])

lemma setConfiguration_keeps:
  "ns_slots (fst (setConfiguration e nc save n)) = ns_slots n" "ns_id (fst (setConfiguration e nc save n)) = ns_id n"
  "ns_config (fst (setConfiguration e nc save n)) = ns_config n \<or>
    ns_config (fst (setConfiguration e nc save n)) = nc \<and> nc_issuedTo nc = ne_self e \<and> nc_networkId nc = ns_id n"
  by (auto simp: setConfiguration_def set_config_def)

text \<open>A chunk never writes or reads outside a slot, and what it leaves is in order.\<close>

lemma take_chunk_ok:
  assumes "slots_ok (ne_cap e) (ns_slots n)" "i < 3" "ck_index k + length (ck_data k) \<le> ck_total k" "ck_total k < ne_cap e"
    and "take_chunk e k i n = (n', out, r)"
  shows "slots_ok (ne_cap e) (ns_slots n')" "ns_id n' = ns_id n"
    "ns_config n' = ns_config n \<or> nc_issuedTo (ns_config n') = ne_self e \<and> nc_networkId (ns_config n') = ns_id n"
proof -
  let ?c = "ns_slots n ! i"
  have "?c \<in> set (ns_slots n)" using assms(1,2) by (simp add: slots_ok_def)
  then have c: "length (cs_data ?c) = ne_cap e" "length (cs_have ?c) \<le> MAX_UPDATE_CHUNKS (ne_cap e)" using assms(1) by (auto simp: slots_ok_def)
  obtain c' fin where s: "store_chunk (ne_cap e) k ?c = Inr (c', fin)" "length (cs_data c') = ne_cap e"
    "length (cs_have c') \<le> MAX_UPDATE_CHUNKS (ne_cap e)" using store_chunk_ok [OF c assms(3,4)] by blast
  let ?n = "n\<lparr>ns_slots := (ns_slots n)[i := c']\<rparr>"
  have ok: "slots_ok (ne_cap e) (ns_slots ?n)" using slots_ok_update [OF assms(1) s(2,3)] by simp
  have "n' = ?n \<or> (\<exists>nc save. n' = fst (setConfiguration e nc save ?n))"
    using assms(5) by (auto simp: take_chunk_def s(1) Let_def split: if_splits sum.splits exc.splits option.splits prod.splits) (metis fst_conv)+
  then show "slots_ok (ne_cap e) (ns_slots n')" "ns_id n' = ns_id n"
    "ns_config n' = ns_config n \<or> nc_issuedTo (ns_config n') = ne_self e \<and> nc_networkId (ns_config n') = ns_id n"
    using ok setConfiguration_keeps [of e _ _ ?n] by (auto, metis+)
qed

definition authentic :: "'s net_env \<Rightarrow> address \<Rightarrow> zbuf \<Rightarrow> u32 \<Rightarrow> netstate \<Rightarrow> bool" where
  "authentic e source b start n \<longleftrightarrow> \<not> ns_destroyed n \<and> (\<exists>l :: u16. buf_at 2 b (start + 8) = Inr l \<and>
     (let ptr = start + 10 + ucast l; c = env_getIdentity (ne_cred e) (controllerOf n) in
      if ptr < blen b
      then identity_bool c \<and> (\<exists>m sig. buf_bytes b start (ptr + 17 - start) = Inr m \<and> buf_bytes b (ptr + 20) 96 = Inr sig \<and>
             identity_verify_len (env_crypto (ne_cred e)) c m sig 96)
      else source = controllerOf n \<or> \<not> addr_bool source))"

lemma buf_bytes_length: "buf_bytes b i l = Inr bs \<Longrightarrow> length bs = unat l"
  by (auto simp: buf_bytes_def bind_res_eq_Inr buf_read_def bcap_def split: if_splits)

text \<open>Either nothing happens or an authentic chunk is passed on and stored.\<close>

lemma handle_chunk_cases:
  assumes l3: "length (ns_slots n) = 3" and h: "handleConfigChunk e pid source b start n = (n', out, r)"
  obtains (nothing) "n' = n" "out = []" "(\<exists>x. r = Inl x) \<or> r = Inr 0"
  | (taken) k i fast o1 r1 where "authentic e source b start n" "i < 3" "ck_end k \<le> ck_total k" "ck_total k < ne_cap e"
      "(if fast then send_all (chunk_packet e b start) (filter (\<lambda>a. a \<noteq> source \<and> a \<noteq> controllerOf n) (member_list n)) else ([], Inr ())) = (o1, r1)"
      "(\<exists>x. r1 = Inl x \<and> n' = n \<and> out = o1 \<and> r = Inl x) \<or> (\<exists>o2. take_chunk e k i n = (n', o2, r) \<and> out = o1 @ o2)"
proof (cases "\<not> ns_destroyed n \<and> (\<exists>l :: u16. buf_at 2 b (start + 8) = Inr l \<and> (\<exists>data. buf_bytes b (start + 10) (ucast l) = Inr data))")
  case False
  then have "n' = n \<and> out = [] \<and> ((\<exists>x. r = Inl x) \<or> r = Inr 0)"
    using h by (auto simp: handleConfigChunk_def Let_def bind_res_eq_Inr split: if_splits sum.splits)
  then have "n' = n" "out = []" "(\<exists>x. r = Inl x) \<or> r = Inr 0" by simp_all
  then show ?thesis by (rule nothing)
next
  case True
  then obtain l :: u16 and data where l: "buf_at 2 b (start + 8) = Inr l" "buf_bytes b (start + 10) (ucast l) = Inr data" "\<not> ns_destroyed n" by blast
  have len: "of_nat (length data) = (ucast l :: u32)" using buf_bytes_length [OF l(2)] by simp
  let ?p = "start + 10 + ucast l"
  let ?rd = "if ?p < blen b then read_signed (ne_cred e) (controllerOf n) (ne_cap e) (ns_slots n) b start ?p data
    else if source = controllerOf n \<or> \<not> addr_bool source then Inr (read_legacy (ne_cap e) (ns_slots n) pid data) else Inr None"
  let ?fl = "\<lambda>fast. if fast then send_all (chunk_packet e b start) (filter (\<lambda>a. a \<noteq> source \<and> a \<noteq> controllerOf n) (member_list n)) else ([], Inr ())"
  have h': "handleConfigChunk e pid source b start n = (case ?rd of Inl x \<Rightarrow> (n, [], Inl x) | Inr None \<Rightarrow> (n, [], Inr 0)
      | Inr (Some (k, i, fast)) \<Rightarrow> (case ?fl fast of (out, Inl x) \<Rightarrow> (n, out, Inl x)
          | (out, Inr _) \<Rightarrow> (case take_chunk e k i n of (n', out', r) \<Rightarrow> (n', out @ out', r))))"
    using l by (simp add: handleConfigChunk_def Let_def len)
  show ?thesis
  proof (cases "\<exists>k i fast. ?rd = Inr (Some (k, i, fast))")
    case False
    then have "n' = n \<and> out = [] \<and> ((\<exists>x. r = Inl x) \<or> r = Inr 0)"
      using h unfolding h' by (cases ?rd) (auto split: option.splits)
    then have "n' = n" "out = []" "(\<exists>x. r = Inl x) \<or> r = Inr 0" by simp_all
  then show ?thesis by (rule nothing)
  next
    case True
    then obtain k i fast where rd: "?rd = Inr (Some (k, i, fast))" by blast
    have f: "i < 3" "ck_end k \<le> ck_total k" "ck_total k < ne_cap e"
      using rd read_signed_facts(1-3) [OF _ l3] read_legacy_facts(1-3) [OF _ l3] by (auto split: if_splits)
    have a: "authentic e source b start n"
    proof (cases "?p < blen b")
      case True
      then have "read_signed (ne_cred e) (controllerOf n) (ne_cap e) (ns_slots n) b start ?p data = Inr (Some (k, i, fast))" using rd by simp
      note s = read_signed_facts(5,6) [OF this l3]
      show ?thesis unfolding authentic_def Let_def by (rule conjI [OF l(3) exI [of _ l]]) (simp only: l(1) True s if_True simp_thms)
    next
      case False
      then have "source = controllerOf n \<or> \<not> addr_bool source" using rd by (auto split: if_splits)
      then show ?thesis unfolding authentic_def Let_def using l(1,3) False by auto
    qed
    obtain o1 r1 where fl: "?fl fast = (o1, r1)" by fastforce
    obtain n2 o2 r2 where t: "take_chunk e k i n = (n2, o2, r2)" by (metis prod.collapse)
    have "(\<exists>x. r1 = Inl x \<and> n' = n \<and> out = o1 \<and> r = Inl x) \<or> (\<exists>o2. take_chunk e k i n = (n', o2, r) \<and> out = o1 @ o2)"
      using h unfolding h' rd by (cases r1) (simp_all add: fl t)
    then show ?thesis by (rule taken [OF a f fl])
  qed
qed

lemma store_chunk_defined:
  "slots_ok C cs \<Longrightarrow> i < 3 \<Longrightarrow> ck_end k \<le> ck_total k \<Longrightarrow> ck_total k < C \<Longrightarrow> store_chunk C k (cs ! i) \<noteq> Inl x"
  using store_chunk_ok [of "cs ! i" C k] by (auto simp: slots_ok_def)

lemma take_chunk_errors: "take_chunk e k i n = (n', out, Inl x) \<Longrightarrow> store_chunk (ne_cap e) k (ns_slots n ! i) = Inl x \<or> x = UndefinedBehaviour"
  by (auto simp: take_chunk_def Let_def split: sum.splits prod.splits option.splits if_splits exc.splits)

lemma handle_chunk_spec:
  assumes ok: "slots_ok (ne_cap e) (ns_slots n)" and h: "handleConfigChunk e pid source b start n = (n', out, r)"
  shows "slots_ok (ne_cap e) (ns_slots n') \<and> ns_id n' = ns_id n \<and>
    (ns_config n' = ns_config n \<or> nc_issuedTo (ns_config n') = ne_self e \<and> nc_networkId (ns_config n') = ns_id n) \<and>
    (\<not> authentic e source b start n \<longrightarrow> n' = n \<and> out = [] \<and> ((\<exists>x. r = Inl x) \<or> r = Inr 0)) \<and>
    (\<forall>x. r = Inl x \<longrightarrow> n' = n \<or> x = UndefinedBehaviour)"
proof -
  have "length (ns_slots n) = 3" using ok by (simp add: slots_ok_def)
  from this h show ?thesis
  proof (cases rule: handle_chunk_cases)
    case nothing
    then show ?thesis using ok by blast
  next
    case (taken k i fast o1 r1)
    from taken(6) show ?thesis
    proof
      assume "\<exists>o2. take_chunk e k i n = (n', o2, r) \<and> out = o1 @ o2"
      then obtain o2 where t: "take_chunk e k i n = (n', o2, r)" by blast
      have "\<forall>x. r = Inl x \<longrightarrow> x = UndefinedBehaviour" using take_chunk_errors t store_chunk_defined [OF ok taken(2-4)] by blast
      then show ?thesis using take_chunk_ok [OF ok taken(2-4) t] taken(1) by blast
    qed (use ok taken(1) in blast)
  qed
qed

section \<open>Reassembly\<close>

text \<open>A text cut into parts, and the chunks that carry them.\<close>

fun cut :: "u64 \<Rightarrow> nat \<Rightarrow> nat \<Rightarrow> (u8 list \<times> u64) list \<Rightarrow> cfg_chunk list" where
  "cut uid L off [] = []"
| "cut uid L off ((p, i) # ps) =
     \<lparr>ck_data = p, ck_updateId = uid, ck_id = i, ck_total = L, ck_index = off\<rparr> # cut uid L (off + length p) ps"

lemma cut_fields: "k \<in> set (cut uid L off ps) \<Longrightarrow> ck_updateId k = uid \<and> ck_total k = L \<and> (ck_data k, ck_id k) \<in> set ps"
  by (induction uid L off ps rule: cut.induct) auto

lemma cut_ids: "map ck_id (cut uid L off ps) = map snd ps"
  by (induction uid L off ps rule: cut.induct) auto

lemma cut_range: "k \<in> set (cut uid L off ps) \<Longrightarrow> off \<le> ck_index k \<and> ck_end k \<le> off + length (concat (map fst ps))"
  by (induction uid L off ps rule: cut.induct) fastforce+

lemma cut_disjoint:
  "k \<in> set (cut uid L off ps) \<Longrightarrow> k' \<in> set (cut uid L off ps) \<Longrightarrow> k \<noteq> k' \<Longrightarrow> ck_end k \<le> ck_index k' \<or> ck_end k' \<le> ck_index k"
proof (induction uid L off ps rule: cut.induct)
  case (2 uid L off p i ps)
  let ?h = "\<lparr>ck_data = p, ck_updateId = uid, ck_id = i, ck_total = L, ck_index = off\<rparr>"
  consider "k = ?h" "k' \<in> set (cut uid L (off + length p) ps)" | "k' = ?h" "k \<in> set (cut uid L (off + length p) ps)"
    | "k \<in> set (cut uid L (off + length p) ps)" "k' \<in> set (cut uid L (off + length p) ps)"
    using 2(2-4) by auto
  then show ?case using cut_range [of k uid L "off + length p" ps] cut_range [of k' uid L "off + length p" ps] 2(1,4) by cases auto
qed simp

lemma cut_gather:
  "\<forall>k\<in>set (cut uid L off ps). take (length (ck_data k)) (drop (ck_index k) m) = ck_data k \<Longrightarrow>
    take (length (concat (map fst ps))) (drop off m) = concat (map fst ps)"
proof (induction uid L off ps rule: cut.induct)
  case (2 uid L off p i ps)
  then have "take (length p) (drop off m) = p" "take (length (concat (map fst ps))) (drop (off + length p) m) = concat (map fst ps)" by simp_all
  then show ?case by (simp add: take_add drop_drop add.commute)
qed simp

lemma cut_inj: "distinct (map snd ps) \<Longrightarrow> inj_on ck_id (set (cut uid L off ps)) \<and> distinct (cut uid L off ps)"
  using cut_ids [of uid L off ps] distinct_map by metis

definition carried :: "cfg_chunk set \<Rightarrow> nat" where
  "carried S = (\<Sum>k\<in>S. length (ck_data k))"

lemma cut_carried: "distinct (map snd ps) \<Longrightarrow> carried (set (cut uid L off ps)) = length (concat (map fst ps))"
proof -
  assume "distinct (map snd ps)"
  then have d: "distinct (cut uid L off ps)" using cut_inj by blast
  have "map (length \<circ> ck_data) (cut uid L off ps) = map (length \<circ> fst) ps"
    by (induction uid L off ps rule: cut.induct) auto
  then show ?thesis using d by (simp add: carried_def sum_list_distinct_conv_sum_set [symmetric] length_concat comp_def)
qed

lemma carried_less:
  assumes "distinct (map snd ps)" "\<forall>p\<in>set ps. fst p \<noteq> []" "S \<subset> set (cut uid L off ps)"
  shows "carried S < length (concat (map fst ps))"
proof -
  obtain k where k: "k \<in> set (cut uid L off ps)" "k \<notin> S" using assms(3) by blast
  then have "ck_data k \<noteq> []" using cut_fields assms(2) by fastforce
  have fin: "finite S" using assms(3) by (meson finite_set finite_subset psubset_imp_subset)
  have "carried S < carried (insert k S)" using k \<open>ck_data k \<noteq> []\<close> fin by (simp add: carried_def)
  also have "\<dots> \<le> carried (set (cut uid L off ps))"
    unfolding carried_def by (rule sum_mono2) (use k assms(3) in auto)
  finally show ?thesis using cut_carried [OF assms(1)] by simp
qed

lemma write_keeps:
  assumes "off + length bs \<le> i \<or> i + n \<le> off" "off + length bs \<le> length m" "i + n \<le> length m"
  shows "take n (drop i (mem_write m off bs)) = take n (drop i m)"
  using assms by (auto simp: mem_write_def drop_append min_def take_drop simp del: drop_drop intro!: nth_equalityI simp: nth_append)

lemma take_drop_update: "i + n \<le> j \<Longrightarrow> take n (drop i (m[j := v])) = take n (drop i m)"
  by (rule nth_equalityI) (auto simp: nth_list_update)

text \<open>The chunks of \<open>S\<close> are in the slot.\<close>

definition slot_has :: "u64 \<Rightarrow> cfg_chunk set \<Rightarrow> cfg_slot \<Rightarrow> bool" where
  "slot_has uid S c \<longleftrightarrow> cs_updateId c = uid \<and> set (cs_have c) = ck_id ` S \<and> length (cs_have c) = card S \<and>
     cs_bytes c = carried S \<and> (\<forall>k\<in>S. take (length (ck_data k)) (drop (ck_index k) (cs_data c)) = ck_data k)"

lemma store_gathers:
  assumes ps: "distinct (map snd ps)" "\<forall>p\<in>set ps. fst p \<noteq> []" "length (concat (map fst ps)) < C" "length ps \<le> MAX_UPDATE_CHUNKS C"
    and all: "all = set (cut uid (length (concat (map fst ps))) 0 ps)" "k \<in> all" "k \<notin> S" "S \<subseteq> all"
    and c: "length (cs_data c) = C" "cs_updateId c = uid \<and> slot_has uid S c \<or> cs_updateId c \<noteq> uid \<and> S = {}"
  shows "\<exists>c'. store_chunk C k c = Inr (c', insert k S = all) \<and> length (cs_data c') = C \<and> slot_has uid (insert k S) c' \<and>
    (insert k S = all \<longrightarrow> (\<exists>junk. cs_data c' = concat (map fst ps) @ 0 # junk))"
proof -
  let ?L = "length (concat (map fst ps))"
  let ?c = "if cs_updateId c \<noteq> uid then c\<lparr>cs_ts := cs_ts c + 1, cs_updateId := uid, cs_have := [], cs_bytes := 0\<rparr> else c\<lparr>cs_ts := cs_ts c + 1\<rparr>"
  have k: "ck_updateId k = uid" "ck_total k = ?L" "ck_end k \<le> ?L" using cut_fields [of k uid ?L 0 ps] cut_range [of k uid ?L 0 ps] all(1,2) by auto
  have h: "slot_has uid S ?c" "cs_data ?c = cs_data c" using c(2) by (auto simp: slot_has_def carried_def)
  have fin: "finite S" using all(1,4) finite_subset by blast
  have "card all = length ps" using cut_inj [OF ps(1), of uid ?L 0] cut_ids [of uid ?L 0 ps] by (metis all(1) distinct_card length_map)
  moreover have "card (insert k S) \<le> card all" using all by (intro card_mono) auto
  ultimately have room: "length (cs_have ?c) < MAX_UPDATE_CHUNKS C" using h(1) fin all(3) ps(4) by (simp add: slot_has_def)
  define c1 where "c1 = ?c\<lparr>cs_have := cs_have ?c @ [ck_id k], cs_data := mem_write (cs_data c) (ck_index k) (ck_data k), cs_bytes := cs_bytes ?c + length (ck_data k)\<rparr>"
  have len: "length (cs_data c1) = C" using k(3) ps(3) c(1) by (simp add: c1_def)
  have piece: "take (length (ck_data j)) (drop (ck_index j) (cs_data c1)) = ck_data j" if j: "j \<in> insert k S" for j
  proof (cases "j = k")
    case True
    then show ?thesis using k(3) ps(3) c(1) by (simp add: c1_def mem_write_read)
  next
    case False
    then have js: "j \<in> S" "j \<in> all" using j all(4) by auto
    have "ck_end j \<le> ?L" using cut_range [of j uid ?L 0 ps] js all(1) by auto
    then have "take (length (ck_data j)) (drop (ck_index j) (cs_data c1)) = take (length (ck_data j)) (drop (ck_index j) (cs_data c))"
      unfolding c1_def using cut_disjoint [of k uid ?L 0 ps j] all(1,2) js(2) False k(3) ps(3) c(1) by (auto intro!: write_keeps)
    then show ?thesis using h js(1) by (simp add: slot_has_def)
  qed
  have b: "cs_bytes c1 = carried (insert k S)" using h(1) fin all(3) by (simp add: c1_def slot_has_def carried_def)
  have s1: "slot_has uid (insert k S) c1" using h(1) fin all(3) piece b by (auto simp: slot_has_def c1_def)
  have st: "store_chunk C k c = (if cs_bytes c1 \<noteq> ?L then Inr (c1, False) else if length (cs_data c1) \<le> cs_bytes c1 then Inl UndefinedBehaviour
      else Inr (c1\<lparr>cs_data := (cs_data c1)[cs_bytes c1 := 0]\<rparr>, True))"
    using room k c(1) ps(3) by (auto simp: store_chunk_def Let_def c1_def)
  have sub: "insert k S \<subseteq> all" using all by blast
  show ?thesis
  proof (cases "insert k S = all")
    case False
    then have "cs_bytes c1 \<noteq> ?L" using carried_less [OF ps(1,2)] sub b all(1) by (metis nat_neq_iff psubsetI)
    then show ?thesis using st len s1 False by simp
  next
    case True
    have bL: "cs_bytes c1 = ?L" using b cut_carried [OF ps(1)] True all(1) by metis
    let ?d = "(cs_data c1)[?L := 0]"
    have "take ?L (cs_data c1) = concat (map fst ps)" using cut_gather [of uid ?L 0 ps "cs_data c1"] piece True all(1) by simp
    then have "?d = concat (map fst ps) @ 0 # drop (Suc ?L) (cs_data c1)"
      using len ps(3) by (simp add: upd_conv_take_nth_drop)
    moreover have "take (length (ck_data j)) (drop (ck_index j) ?d) = ck_data j" if "j \<in> insert k S" for j
    proof -
      have "ck_end j \<le> ?L" using cut_range [of j uid ?L 0 ps] that True all(1) by auto
      then show ?thesis using take_drop_update [of "ck_index j" "length (ck_data j)" ?L "cs_data c1" 0] piece [OF that] by metis
    qed
    ultimately show ?thesis using st bL len s1 True ps(3) by (auto simp: slot_has_def)
  qed
qed


section \<open>Delivery\<close>

text \<open>What a packet of the controller holds from the network's id on.\<close>

definition chunk_head :: "u64 \<Rightarrow> cfg_chunk \<Rightarrow> u8 list" where
  "chunk_head nwid k = be_bytes 8 nwid @ be_bytes 2 (of_nat (length (ck_data k)) :: u16) @ ck_data k @ [0] @
     be_bytes 8 (ck_updateId k) @ be_bytes 4 (of_nat (ck_total k) :: u32) @ be_bytes 4 (of_nat (ck_index k) :: u32)"

definition chunk_bytes :: "u64 \<Rightarrow> cfg_chunk \<Rightarrow> u8 list \<Rightarrow> u8 list" where
  "chunk_bytes nwid k sig = chunk_head nwid k @ [1] @ be_bytes 2 (96 :: u16) @ sig"

definition chunk_ok :: "cfg_chunk \<Rightarrow> bool" where
  "chunk_ok k \<longleftrightarrow> ck_end k \<le> ck_total k \<and> ck_total k < 2 ^ 31 \<and> length (ck_data k) < 2 ^ 16"

lemma small_offsets: "x < 2 ^ 17 \<Longrightarrow> unat (of_nat x :: u32) = x"
  by (rule unat_of_nat_u32) simp

lemma read_signed_bytes:
  assumes b: "at_pos b start (chunk_bytes nwid k sig)" and k: "chunk_ok k" "ck_total k < C" "length sig = 96" "ck_id k = chunk_id sig"
    and v: "identity_bool (env_getIdentity e ctrl)" "identity_verify_len (env_crypto e) (env_getIdentity e ctrl) (chunk_head nwid k) sig 96"
  shows "buf_at 2 b (start + 8) = Inr (of_nat (length (ck_data k)) :: u16)"
    "buf_bytes b (start + 10) (of_nat (length (ck_data k))) = Inr (ck_data k)"
    "start + 10 + of_nat (length (ck_data k)) < blen b"
    "read_signed e ctrl C slots b start (start + 10 + of_nat (length (ck_data k))) (ck_data k) =
      Inr (map_option (\<lambda>i. (k, i, False)) (find_update (ck_updateId k) (ck_id k) slots 0 None))"
proof -
  let ?l = "length (ck_data k)"
  have l: "?l < 2 ^ 16" "ck_end k \<le> ck_total k" "ck_total k < 2 ^ 31" using k(1) by (simp_all add: chunk_ok_def)
  have h: "length (chunk_head nwid k) = 27 + ?l" by (simp add: chunk_head_def)
  have u: "unat (of_nat ?l + 10 :: u32) = ?l + 10" "unat (of_nat ?l + 27 :: u32) = ?l + 27"
    using unat_of_nat_u32 [of "?l + 10"] unat_of_nat_u32 [of "?l + 27"] l(1) by (simp_all add: add.commute)
  show r1: "buf_at 2 b (start + 8) = Inr (of_nat ?l :: u16)"
    using at_pos_at [OF b, of 8 2, where ?'a = 16] by (simp add: chunk_bytes_def chunk_head_def)
  show r2: "buf_bytes b (start + 10) (of_nat ?l) = Inr (ck_data k)"
    using at_pos_bytes [OF b, of 10 "of_nat ?l"] l(1) small_offsets [of ?l] by (simp add: chunk_bytes_def chunk_head_def)
  have b2: "at_pos b (start + (10 + of_nat ?l)) ([0] @ be_bytes 8 (ck_updateId k) @ be_bytes 4 (of_nat (ck_total k) :: u32) @
      be_bytes 4 (of_nat (ck_index k) :: u32) @ [1] @ be_bytes 2 (96 :: u16) @ sig)" (is "at_pos b ?p ?rest")
    by (rule at_pos_skip [where xs = "be_bytes 8 nwid @ be_bytes 2 (of_nat ?l :: u16) @ ck_data k"])
      (use b u(1) in \<open>simp_all add: chunk_bytes_def chunk_head_def add.commute\<close>)
  have p: "start + 10 + of_nat ?l = ?p" by (simp add: add.assoc)
  show "start + 10 + of_nat ?l < blen b" unfolding p using at_posD(2) [OF b2] by (simp add: word_less_nat_alt bsize_def)
  have t: "unat (of_nat (ck_total k) :: u32) = ck_total k" "unat (of_nat (ck_index k) :: u32) = ck_index k"
    using l by (simp_all add: unat_of_nat_u32)
  have f: "buf_get b ?p = Inr 0" "buf_at 8 b (?p + 1) = Inr (ck_updateId k)" "buf_at 4 b (?p + 9) = Inr (of_nat (ck_total k) :: u32)"
    "buf_at 4 b (?p + 13) = Inr (of_nat (ck_index k) :: u32)" "buf_get b (?p + 17) = Inr 1" "buf_at 2 b (?p + 18) = Inr (96 :: u16)"
    "buf_bytes b (?p + 20) 96 = Inr sig"
    using at_pos_get [OF b2, of 0] at_pos_at [OF b2, of 1 8, where ?'a = 64] at_pos_at [OF b2, of 9 4, where ?'a = 32] at_pos_at [OF b2, of 13 4, where ?'a = 32] at_pos_get [OF b2, of 17]
      at_pos_at [OF b2, of 18 2, where ?'a = 16] at_pos_bytes [OF b2, of 20 96] k(3) by (simp_all add: nth_append)
  have d: "?p + 17 - start = of_nat ?l + 27" by simp
  have m: "buf_bytes b start (?p + 17 - start) = Inr (chunk_head nwid k)"
    unfolding d using at_pos_bytes0 [OF b, of "of_nat ?l + 27"] u(2) l(1) h by (simp add: chunk_bytes_def)
  have kk: "\<lparr>ck_data = ck_data k, ck_updateId = ck_updateId k, ck_id = chunk_id sig, ck_total = ck_total k, ck_index = ck_index k\<rparr> = k"
    using k(4) by (cases k) simp
  have c: "check_signed e ctrl slots b start (?p + 17) sig k = Inr (find_update (ck_updateId k) (ck_id k) slots 0 None)"
    using v m by (simp add: check_signed_def split: option.split)
  show "read_signed e ctrl C slots b start (start + 10 + of_nat ?l) (ck_data k) =
      Inr (map_option (\<lambda>i. (k, i, False)) (find_update (ck_updateId k) (ck_id k) slots 0 None))"
    unfolding p read_signed_def using f t l(2) k(2) c kk by (simp only: bind_res_simps Let_def) simp
qed

section \<open>A configuration from the controller to a member\<close>

text \<open>The pieces the controller's loop cuts, and the signed chunks they become.\<close>

function pieces :: "u8 list \<Rightarrow> nat \<Rightarrow> (nat \<times> u8 list) list" where
  "pieces tx off =
     (if off < length tx then
        (let len = min (length tx - off) CONFIG_CHUNK in (off, take len (drop off tx)) # pieces tx (off + len))
      else [])"
  by pat_completeness auto

termination pieces
  by (relation "measure (\<lambda>(tx, off). length tx - off)") (auto simp: CONFIG_CHUNK_def)

declare pieces.simps [simp del]

definition chunk_sig :: "'s crypto \<Rightarrow> identity \<Rightarrow> u64 \<Rightarrow> cfg_chunk \<Rightarrow> u8 list" where
  "chunk_sig c me nwid k = (case id_priv me of Some priv \<Rightarrow> ecc_sign c priv (id_pub me) (chunk_head nwid k) | None \<Rightarrow> [])"

definition config_chunk :: "'s crypto \<Rightarrow> identity \<Rightarrow> u64 \<Rightarrow> u64 \<Rightarrow> u8 list \<Rightarrow> nat \<times> u8 list \<Rightarrow> cfg_chunk" where
  "config_chunk c me nwid uid tx p =
     (let k = \<lparr>ck_data = snd p, ck_updateId = uid, ck_id = 0, ck_total = length tx, ck_index = fst p\<rparr>
      in k\<lparr>ck_id := chunk_id (chunk_sig c me nwid k)\<rparr>)"

definition config_chunks :: "'s crypto \<Rightarrow> identity \<Rightarrow> u64 \<Rightarrow> u64 \<Rightarrow> u8 list \<Rightarrow> cfg_chunk list" where
  "config_chunks c me nwid uid tx = map (config_chunk c me nwid uid tx) (pieces tx 0)"

lemma chunk_sig_id [simp]: "chunk_sig c me nwid (k\<lparr>ck_id := x\<rparr>) = chunk_sig c me nwid k"
  by (simp add: chunk_sig_def chunk_head_def split: option.split)

lemma config_chunk_simps [simp]:
  "ck_data (config_chunk c me nwid uid tx p) = snd p" "ck_index (config_chunk c me nwid uid tx p) = fst p"
  "ck_total (config_chunk c me nwid uid tx p) = length tx" "ck_updateId (config_chunk c me nwid uid tx p) = uid"
  "ck_id (config_chunk c me nwid uid tx p) = chunk_id (chunk_sig c me nwid (config_chunk c me nwid uid tx p))"
  unfolding config_chunk_def Let_def by (simp_all only: chunk_sig_id, simp_all)

lemma pieces_concat: "off \<le> length tx \<Longrightarrow> concat (map snd (pieces tx off)) = drop off tx"
proof (induction tx off rule: pieces.induct)
  case (1 tx off)
  show ?case
  proof (cases "off < length tx")
    case True
    let ?n = "min (length tx - off) CONFIG_CHUNK"
    have ih: "concat (map snd (pieces tx (off + ?n))) = drop (off + ?n) tx" by (rule 1(1) [OF True refl]) (use True in linarith)
    have "concat (map snd (pieces tx off)) = take ?n (drop off tx) @ concat (map snd (pieces tx (off + ?n)))"
      using True by (subst pieces.simps) (simp add: Let_def)
    also have "\<dots> = take ?n (drop off tx) @ drop ?n (drop off tx)" unfolding ih drop_drop by (simp only: add.commute)
    finally show ?thesis by (simp only: append_take_drop_id)
  qed (use 1(2) in \<open>simp add: pieces.simps\<close>)
qed

lemma pieces_parts:
  "(i, p) \<in> set (pieces tx off) \<Longrightarrow> p \<noteq> [] \<and> length p \<le> CONFIG_CHUNK \<and> i + length p \<le> length tx"
proof (induction tx off rule: pieces.induct)
  case (1 tx off)
  then have lt: "off < length tx" by (cases "off < length tx") (auto simp: pieces.simps)
  let ?n = "min (length tx - off) CONFIG_CHUNK"
  have "(i, p) = (off, take ?n (drop off tx)) \<or> (i, p) \<in> set (pieces tx (off + ?n))"
    using 1(2) lt by (subst (asm) pieces.simps) (simp add: Let_def)
  moreover have "0 < ?n" using lt by (simp add: CONFIG_CHUNK_def)
  ultimately show ?case using 1(1) [OF lt refl] lt by auto
qed

lemma pieces_count: "length (pieces tx off) * CONFIG_CHUNK < length tx - off + CONFIG_CHUNK"
proof (induction tx off rule: pieces.induct)
  case (1 tx off)
  show ?case
  proof (cases "off < length tx")
    case True
    let ?n = "min (length tx - off) CONFIG_CHUNK"
    have p: "pieces tx off = (off, take ?n (drop off tx)) # pieces tx (off + ?n)" using True by (subst pieces.simps) (simp add: Let_def)
    have ih: "length (pieces tx (off + ?n)) * CONFIG_CHUNK < length tx - (off + ?n) + CONFIG_CHUNK" using 1 [OF True refl] .
    show ?thesis
    proof (cases "length tx - off \<le> CONFIG_CHUNK")
      case c: True
      then have "pieces tx (off + ?n) = []" using True by (simp add: pieces.simps)
      then show ?thesis using True p by simp
    qed (use ih p in simp)
  qed (simp add: pieces.simps CONFIG_CHUNK_def)
qed

lemma config_chunks_cut:
  defines "parts \<equiv> \<lambda>c me nwid uid tx off. map (\<lambda>p. (snd p, ck_id (config_chunk c me nwid uid tx p))) (pieces tx off)"
  shows "map (config_chunk c me nwid uid tx) (pieces tx off) = cut uid (length tx) off (parts c me nwid uid tx off)"
proof (induction tx off rule: pieces.induct)
  case (1 tx off)
  show ?case
  proof (cases "off < length tx")
    case True
    let ?n = "min (length tx - off) CONFIG_CHUNK"
    let ?p = "(off, take ?n (drop off tx))"
    have p: "pieces tx off = ?p # pieces tx (off + ?n)" using True by (subst pieces.simps) (simp add: Let_def)
    have "config_chunk c me nwid uid tx ?p = \<lparr>ck_data = snd ?p, ck_updateId = uid, ck_id = ck_id (config_chunk c me nwid uid tx ?p),
        ck_total = length tx, ck_index = off\<rparr>" by (rule cfg_chunk.equality) (simp_all only: config_chunk_simps fst_conv cfg_chunk.simps, simp)
    then show ?thesis using 1 [OF True refl] by (simp add: p parts_def del: config_chunk_simps(5))
  qed (simp add: pieces.simps parts_def)
qed

lemma pkt_store_small:
  assumes "small b" "unat i + length bs \<le> bsize b"
  shows "\<exists>b'. pkt_store b i bs = Inr b' \<and> small b' \<and> bcap b' = bcap b \<and> blen b' = blen b"
proof -
  have s: "bsize b \<le> bcap b" "bcap b < 2 ^ 31" using smallD [OF assms(1)] by simp_all
  have "unat (i + of_nat (length bs)) = unat i + length bs" using s assms(2) unat_add_of_nat32 [of i "length bs"] by simp
  then have "\<not> i + of_nat (length bs) > blen b" using assms(2) by (simp add: word_less_nat_alt bsize_def)
  then have "pkt_store b i bs = Inr (b\<lparr>bmem := mem_write (bmem b) (unat i) bs\<rparr>)"
    using assms(2) s(1) by (simp add: pkt_store_def buf_field_def buf_poke_def)
  then show ?thesis using assms s by (auto simp: small_def buf_ok_def bcap_def bsize_def)
qed

lemma buf_put_small:
  "small b \<Longrightarrow> unat i < bsize b \<Longrightarrow> \<exists>b'. buf_put b i v = Inr b' \<and> small b' \<and> bcap b' = bcap b \<and> blen b' = blen b"
  by (auto simp: buf_put_def word_le_nat_alt bsize_def small_def buf_ok_def bcap_def)

lemma pkt_new_small:
  assumes "length rnd = 8" "28 \<le> length m" "length m < 2 ^ 31"
  shows "\<exists>b. pkt_new m rnd dest src v = Inr b \<and> small b \<and> bcap b = length m \<and> blen b = 28 \<and> bdata b ! 27 = verb_code v"
proof -
  have "\<not> (28 :: u32) > of_nat (length m)" using assms(2,3) unat_of_nat_u32 [of "length m"] by (simp add: word_less_nat_alt)
  then have n: "buf_new_sized m 28 = Inr \<lparr>bmem = m, blen = 28\<rparr>" by (simp add: buf_new_sized_def)
  have s0: "small \<lparr>bmem = m, blen = 28\<rparr>" "bsize \<lparr>bmem = m, blen = 28\<rparr> = 28" using assms by (simp_all add: small_def buf_ok_def bcap_def bsize_def)
  obtain b1 where b1: "pkt_store \<lparr>bmem = m, blen = 28\<rparr> 0 rnd = Inr b1" "small b1" "bcap b1 = length m" "blen b1 = 28"
    using pkt_store_small [OF s0(1), of 0 rnd] s0(2) assms(1) by (auto simp: bcap_def)
  obtain b2 where b2: "setDestination dest b1 = Inr b2" "small b2" "bcap b2 = length m" "blen b2 = 28"
    using pkt_store_small [OF b1(2), of 8 "addr_bytes dest"] b1 by (auto simp: setDestination_def bsize_def)
  obtain b3 where b3: "setSource src b2 = Inr b3" "small b3" "bcap b3 = length m" "blen b3 = 28"
    using pkt_store_small [OF b2(2), of 13 "addr_bytes src"] b2 by (auto simp: setSource_def bsize_def)
  obtain b4 where b4: "buf_put b3 18 0 = Inr b4" "small b4" "bcap b4 = length m" "blen b4 = 28"
    using buf_put_small [OF b3(2), of 18 0] b3 by (auto simp: bsize_def)
  obtain b5 where b5: "setVerb v b4 = Inr b5" "small b5" "bcap b5 = length m" "blen b5 = 28"
    using buf_put_small [OF b4(2), of 27 "verb_code v"] b4 by (auto simp: setVerb_def bsize_def)
  have "b5 = b4\<lparr>bmem := (bmem b4)[27 := verb_code v]\<rparr>" using b5(1) b4(4) by (simp add: setVerb_def buf_put_def)
  then have v: "bdata b5 ! 27 = verb_code v" using assms(2) b4(3,4) by (simp add: bdata_def bsize_def bcap_def)
  show ?thesis using n b1(1) b2(1) b3(1) b4(1) b5 v by (auto simp: pkt_new_def)
qed

lemma config_packet_bytes:
  assumes r: "config_packet e me nwid req dest uid (of_nat (length tx)) (fst p) (snd p) = Inr (b, q)"
    and iv: "\<And>a n. length (ne_iv e a n) = 8" and c: "crypto_ok (env_crypto (ne_cred e))" and p: "length (snd p) < 2 ^ 31"
  shows "let k = config_chunk (env_crypto (ne_cred e)) me nwid uid tx p in
    drop (unat q) (bdata b) = chunk_bytes nwid k (chunk_sig (env_crypto (ne_cred e)) me nwid k)"
proof -
  let ?k = "config_chunk (env_crypto (ne_cred e)) me nwid uid tx p"
  let ?sig = "chunk_sig (env_crypto (ne_cred e)) me nwid ?k"
  let ?v = "if req \<noteq> 0 then VERB_OK else VERB_NETWORK_CONFIG"
  obtain b0 where b0: "pkt_new (replicate 10024 0) (ne_iv e dest (fst p)) dest (id_address me) ?v = Inr b0" "small b0"
    using pkt_new_small [OF iv, of "replicate 10024 0" dest "fst p" dest "id_address me" ?v] by auto
  have w: "list_all2 appends [buf_append_int 1 (verb_code VERB_NETWORK_CONFIG_REQUEST), buf_append_int 8 req] [be_bytes 1 (verb_code VERB_NETWORK_CONFIG_REQUEST), be_bytes 8 req]"
    by (simp only: list_all2_Cons list_all2_Nil appends_int simp_thms)
  obtain b1 b2 m sg where s: "(if req \<noteq> 0 then write_all [buf_append_int 1 (verb_code VERB_NETWORK_CONFIG_REQUEST), buf_append_int 8 req] b0 else Inr b0) = Inr b1"
    "write_all [buf_append_int 8 nwid, buf_append_int 2 (of_nat (length (snd p)) :: u16), buf_append_bytes (snd p) (of_nat (length (snd p))),
        buf_append_int 1 (0 :: u8), buf_append_int 8 uid, buf_append_int 4 (of_nat (length tx) :: u32), buf_append_int 4 (of_nat (fst p) :: u32)] b1 = Inr b2"
    "buf_read b2 (unat (blen b1)) (unat (blen b2 - blen b1)) = Inr m" "identity_sign (env_crypto (ne_cred e)) me m = Inr sg"
    "write_all [buf_append_int 1 (1 :: u8), buf_append_int 2 (96 :: u16), buf_append_bytes sg 96] b2 = Inr b" "q = blen b1"
    using r unfolding config_packet_def b0(1) bind_res_simps bind_res_eq_Inr by auto
  have "small b1"
    using s(1) appendsD(3) [OF appends_write_all [OF w] b0(2)] b0(2) by (cases "req = 0") (auto simp: grown_def)
  have "list_all2 appends [buf_append_int 8 nwid, buf_append_int 2 (of_nat (length (snd p)) :: u16), buf_append_bytes (snd p) (of_nat (length (snd p))),
        buf_append_int 1 (0 :: u8), buf_append_int 8 uid, buf_append_int 4 (of_nat (length tx) :: u32), buf_append_int 4 (of_nat (fst p) :: u32)]
      [be_bytes 8 nwid, be_bytes 2 (of_nat (length (snd p)) :: u16), snd p, be_bytes 1 (0 :: u8), be_bytes 8 uid,
       be_bytes 4 (of_nat (length tx) :: u32), be_bytes 4 (of_nat (fst p) :: u32)]"
    using appends_bytes [OF unat_of_nat_u32 [OF p] p] by (simp only: list_all2_Cons list_all2_Nil appends_int simp_thms)
  from appendsD(3) [OF appends_write_all [OF this] \<open>small b1\<close> s(2)]
  have g2: "grown b1 (chunk_head nwid ?k) b2" by (simp add: chunk_head_def be_bytes_eval)
  then have sb2: "small b2" by (simp add: grown_def)
  have bl: "unat (blen b2 - blen b1) = length (chunk_head nwid ?k)" 
  proof -
    have "bsize b2 = bsize b1 + length (chunk_head nwid ?k)" using grown_bsize [OF \<open>small b1\<close> g2] .
    then show ?thesis unfolding bsize_def by (simp add: unat_sub_if_size)
  qed
  have d2: "take (bsize b2) (bmem b2) = bdata b1 @ chunk_head nwid ?k" using g2 by (simp only: grown_def bdata_def [symmetric])
  have d3: "length (bdata b1) = bsize b1" "bsize b2 = bsize b1 + length (chunk_head nwid ?k)"
    using grown_bsize [OF \<open>small b1\<close> g2] \<open>small b1\<close> by simp_all
  have "m = take (length (chunk_head nwid ?k)) (drop (bsize b1) (bmem b2))"
    using s(3) bl by (simp add: buf_read_def bsize_def split: if_splits)
  also have "\<dots> = drop (bsize b1) (take (bsize b2) (bmem b2))" by (simp add: take_drop d3(2) add.commute)
  also have "\<dots> = chunk_head nwid ?k" using d2 d3(1) by simp
  finally have m: "m = chunk_head nwid ?k" .
  have sg: "sg = ?sig" using s(4) by (auto simp: identity_sign_def chunk_sig_def m split: option.splits)
  have ls: "length sg = 96" using s(4) c by (auto simp: identity_sign_def crypto_ok_def split: option.splits)
  have "list_all2 appends [buf_append_int 1 (1 :: u8), buf_append_int 2 (96 :: u16), buf_append_bytes sg 96] [be_bytes 1 (1 :: u8), be_bytes 2 (96 :: u16), sg]"
    using appends_bytes [of 96 sg] ls by (simp only: list_all2_Cons list_all2_Nil appends_int simp_thms) simp
  from appendsD(3) [OF appends_write_all [OF this] sb2 s(5)]
  have "bdata b = bdata b1 @ chunk_head nwid ?k @ be_bytes 1 (1 :: u8) @ be_bytes 2 (96 :: u16) @ sg"
    using g2 by (simp add: grown_def)
  then have "drop (unat q) (bdata b) = chunk_bytes nwid ?k ?sig"
    using d3(1) by (simp add: s(6) chunk_bytes_def sg bsize_def be_bytes_eval)
  then show ?thesis by (simp only: Let_def)
qed

lemma config_packets_sends:
  "config_packets mk tx off = (out, Inr u) \<Longrightarrow>
    \<exists>bs. out = map NetSend bs \<and> list_all2 (\<lambda>p b. mk (fst p) (snd p) = Inr b) (pieces tx off) bs"
proof (induction mk tx off arbitrary: out rule: config_packets.induct)
  case (1 mk tx off)
  show ?case
  proof (cases "off < length tx")
    case True
    let ?n = "min (length tx - off) CONFIG_CHUNK"
    have p: "pieces tx off = (off, take ?n (drop off tx)) # pieces tx (off + ?n)" using True by (subst pieces.simps) (simp add: Let_def)
    obtain b where b: "mk off (take ?n (drop off tx)) = Inr b"
      using 1(2) True by (subst (asm) config_packets.simps) (auto simp: Let_def split: sum.splits)
    obtain out' r' where o: "config_packets mk tx (off + ?n) = (out', r')" by fastforce
    have e: "config_packets mk tx off = (NetSend b # out', r')" using True b o by (subst config_packets.simps) (simp add: Let_def)
    then have "r' = Inr u" using 1(2) by simp
    then obtain bs where "out' = map NetSend bs" "list_all2 (\<lambda>p b. mk (fst p) (snd p) = Inr b) (pieces tx (off + ?n)) bs"
      using 1(1) [OF True refl b] o by blast
    then show ?thesis using 1(2) e b p by (intro exI [of _ "b # bs"]) simp
  qed (use 1(2) in \<open>simp add: config_packets.simps pieces.simps\<close>)
qed

text \<open>Configuration packets as they come in, each with the node's state of the time.\<close>

type_synonym 's chunk_arrival = "'s net_env \<times> u64 \<times> address \<times> zbuf \<times> u32"

fun run_chunks :: "'s chunk_arrival list \<Rightarrow> netstate \<Rightarrow> netstate" where
  "run_chunks [] n = n"
| "run_chunks ((e, pid, source, b, start) # as) n = run_chunks as (fst (handleConfigChunk e pid source b start n))"

lemma find_update_miss:
  "\<forall>c\<in>set cs. cs_updateId c \<noteq> uid \<Longrightarrow> cs \<noteq> [] \<or> best \<noteq> None \<Longrightarrow> \<exists>j. find_update uid cid cs i best = Some j"
proof (induction cs arbitrary: i best)
  case (Cons c cs)
  show ?case using Cons(1) [of "better c i best" "i + 1"] Cons(2) better_index(2) by simp
qed auto

lemma find_update_hit:
  "j < length cs \<Longrightarrow> cs_updateId (cs ! j) = uid \<Longrightarrow> \<forall>m<length cs. m \<noteq> j \<longrightarrow> cs_updateId (cs ! m) \<noteq> uid \<Longrightarrow>
    find_update uid cid cs i best = (if cid \<in> set (cs_have (cs ! j)) then None else Some (i + j))"
proof (induction cs arbitrary: i best j)
  case (Cons c cs)
  show ?case
  proof (cases j)
    case 0
    then show ?thesis using Cons(3) by simp
  next
    case (Suc j')
    have "cs_updateId c \<noteq> uid" using Cons(4) Suc by auto
    moreover have "find_update uid cid cs (i + 1) (better c i best) = (if cid \<in> set (cs_have (cs ! j')) then None else Some (i + 1 + j'))"
      using Cons(2-4) Suc by (intro Cons(1)) auto
    ultimately show ?thesis using Suc by simp
  qed
qed simp

text \<open>The slots while the chunks \<open>S\<close> of an update have come in.\<close>

definition gathered :: "nat \<Rightarrow> u64 \<Rightarrow> cfg_chunk set \<Rightarrow> cfg_slot list \<Rightarrow> bool" where
  "gathered C uid S cs \<longleftrightarrow> slots_ok C cs \<and>
     (if S = {} then \<forall>c\<in>set cs. cs_updateId c \<noteq> uid
      else \<exists>j<3. slot_has uid S (cs ! j) \<and> (\<forall>m<3. m \<noteq> j \<longrightarrow> cs_updateId (cs ! m) \<noteq> uid))"

lemma gathered_find:
  assumes "gathered C uid S cs"
  shows "if S = {} then \<exists>j<3. find_update uid cid cs 0 None = Some j
    else \<exists>j<3. slot_has uid S (cs ! j) \<and> (\<forall>m<3. m \<noteq> j \<longrightarrow> cs_updateId (cs ! m) \<noteq> uid) \<and>
      find_update uid cid cs 0 None = (if cid \<in> ck_id ` S then None else Some j)"
proof -
  have l: "length cs = 3" using assms by (simp add: gathered_def slots_ok_def)
  show ?thesis
  proof (cases "S = {}")
    case True
    then have "\<exists>j. find_update uid cid cs 0 None = Some j" using assms l by (intro find_update_miss) (auto simp: gathered_def)
    then show ?thesis using True find_update_index [of uid cid cs 0 None] l by fastforce
  next
    case False
    then obtain j where j: "j < 3" "slot_has uid S (cs ! j)" "\<forall>m<3. m \<noteq> j \<longrightarrow> cs_updateId (cs ! m) \<noteq> uid" using assms by (auto simp: gathered_def)
    have "find_update uid cid cs 0 None = (if cid \<in> set (cs_have (cs ! j)) then None else Some (0 + j))"
      using j l by (intro find_update_hit) (auto simp: slot_has_def)
    then show ?thesis using False j by (auto simp: slot_has_def)
  qed
qed

text \<open>One packet of the update: a chunk already there changes nothing, the last one sets the configuration.\<close>

lemma chunk_arrives:
  assumes tx: "tx = concat (map fst ps)" "distinct (map snd ps)" "\<forall>p\<in>set ps. fst p \<noteq> [] \<and> length (fst p) < 2 ^ 16" "length ps \<le> MAX_UPDATE_CHUNKS (ne_cap e)"
      "length tx < ne_cap e" "ne_cap e < 2 ^ 31"
    and all: "all = set (cut uid (length tx) 0 ps)" "k \<in> all" "S \<subseteq> all"
    and n: "\<not> ns_destroyed n" "ns_id n = nwid" "gathered (ne_cap e) uid S (ns_slots n)"
    and b: "at_pos b start (chunk_bytes nwid k sig)" "length sig = 96" "ck_id k = chunk_id sig"
    and v: "identity_bool (env_getIdentity (ne_cred e) (controllerFor nwid))"
      "identity_verify_len (env_crypto (ne_cred e)) (env_getIdentity (ne_cred e) (controllerFor nwid)) (chunk_head nwid k) sig 96"
    and nc: "\<And>d. length d = ne_cap e \<Longrightarrow> \<exists>junk. d = tx @ 0 # junk \<Longrightarrow> nc_fromDictionary d = Inr (Some nc)"
      "nc_issuedTo nc = ne_self e" "nc_networkId nc = nwid"
    and n': "n' = fst (handleConfigChunk e pid source b start n)"
  shows "\<not> ns_destroyed n' \<and> ns_id n' = nwid \<and> gathered (ne_cap e) uid (insert k S) (ns_slots n') \<and>
    (if k \<notin> S \<and> insert k S = all \<and> \<not> ne_same e (ns_config n) nc then ns_config n' = nc else ns_config n' = ns_config n)"
proof -
  let ?C = "ne_cap e"
  have k: "ck_updateId k = uid" "ck_total k = length tx" "ck_end k \<le> length tx" "length (ck_data k) < 2 ^ 16"
    using cut_fields [of k uid "length tx" 0 ps] cut_range [of k uid "length tx" 0 ps] all(1,2) tx(1,3) by auto
  have ok: "chunk_ok k" "ck_total k < ?C" using k tx(5,6) by (simp_all add: chunk_ok_def)
  note rd = read_signed_bytes [OF b(1) ok b(2,3) v]
  have u: "ucast (of_nat (length (ck_data k)) :: u16) = (of_nat (length (ck_data k)) :: u32)"
  proof -
    have "(of_nat (unat (of_nat (length (ck_data k)) :: u16)) :: u32) = of_nat (length (ck_data k))" using k(4) by (simp add: unat_of_nat)
    then show ?thesis by (simp add: unsigned_ucast_eq)
  qed
  have h: "handleConfigChunk e pid source b start n = (case find_update uid (ck_id k) (ns_slots n) 0 None of None \<Rightarrow> (n, [], Inr 0) | Some i \<Rightarrow> take_chunk e k i n)"
    using n(1,2) rd(1-3) rd(4) [of "ns_slots n"] k(1,4)
    by (auto simp: handleConfigChunk_def controllerOf_def Let_def u split: option.splits)
  have l: "length (ns_slots n) = 3" using n(3) by (simp add: gathered_def slots_ok_def)
  have inj: "inj_on ck_id all" using cut_inj [OF tx(2)] all(1) by blast
  show ?thesis
  proof (cases "k \<in> S")
    case True
    then have "S \<noteq> {}" "ck_id k \<in> ck_id ` S" by auto
    then have "find_update uid (ck_id k) (ns_slots n) 0 None = None" using gathered_find [OF n(3), of "ck_id k"] by simp (elim exE conjE, simp)
    then have "n' = n" using n' h by simp
    then show ?thesis using n True by (simp add: insert_absorb)
  next
    case False
    then have "ck_id k \<notin> ck_id ` S" using inj all(2,3) by (auto dest: inj_onD)
    then obtain i where i: "i < 3" "find_update uid (ck_id k) (ns_slots n) 0 None = Some i"
      "if S = {} then \<forall>c\<in>set (ns_slots n). cs_updateId c \<noteq> uid else slot_has uid S (ns_slots n ! i) \<and> (\<forall>m<3. m \<noteq> i \<longrightarrow> cs_updateId (ns_slots n ! m) \<noteq> uid)"
      using gathered_find [OF n(3), of "ck_id k"] n(3) by (cases "S = {}") (auto simp: gathered_def)
    have mem: "ns_slots n ! j \<in> set (ns_slots n)" if "j < 3" for j using that l by simp
    have c: "length (cs_data (ns_slots n ! i)) = ?C" "length (cs_have (ns_slots n ! i)) \<le> MAX_UPDATE_CHUNKS ?C"
      using n(3) mem [OF i(1)] by (auto simp: gathered_def slots_ok_def)
    have up: "cs_updateId (ns_slots n ! i) = uid \<and> slot_has uid S (ns_slots n ! i) \<or> cs_updateId (ns_slots n ! i) \<noteq> uid \<and> S = {}"
      using i(3) mem [OF i(1)] by (auto simp: slot_has_def split: if_splits)
    have "\<forall>p\<in>set ps. fst p \<noteq> []" using tx(3) by blast
    from store_gathers [OF tx(2) this _ tx(4) _ all(2) False all(3) c(1) up] tx(1,5) all(1) obtain c' where
      c': "store_chunk ?C k (ns_slots n ! i) = Inr (c', insert k S = all)" "length (cs_data c') = ?C" "slot_has uid (insert k S) c'"
        "insert k S = all \<longrightarrow> (\<exists>junk. cs_data c' = tx @ 0 # junk)" by auto
    have have': "length (cs_have c') \<le> MAX_UPDATE_CHUNKS ?C"
      using store_chunk_ok [OF c, of k] k(2,3) ok(2) c'(1) by auto
    let ?n = "n\<lparr>ns_slots := (ns_slots n)[i := c']\<rparr>"
    have "(ns_slots n)[i := c'] ! m = (if m = i then c' else ns_slots n ! m)" if "m < 3" for m using that l by (simp add: nth_list_update)
    moreover have "\<forall>m<3. m \<noteq> i \<longrightarrow> cs_updateId (ns_slots n ! m) \<noteq> uid" using i(3) mem by (auto split: if_splits)
    ultimately have g: "gathered ?C uid (insert k S) (ns_slots ?n)"
      using slots_ok_update [of ?C "ns_slots n" c' i] c'(2,3) have' n(3) i(1) by (auto simp: gathered_def)
    show ?thesis
    proof (cases "insert k S = all")
      case False
      then have "n' = ?n" using n' h i(2) c'(1) by (simp add: take_chunk_def)
      then show ?thesis using n g False by simp
    next
      case True
      then have "nc_fromDictionary (cs_data c') = Inr (Some nc)" using nc(1) c'(2,4) by blast
      then have "n' = fst (setConfiguration e nc True ?n)" using n' h i(2) c'(1) True by (auto simp: take_chunk_def split: prod.splits)
      then show ?thesis using n(1,2) g nc(2,3) True False by (auto simp: setConfiguration_def set_config_def)
    qed
  qed
qed


text \<open>A packet with one of the configuration's chunks, at a node that reads the controller's key right.\<close>

definition carries_config :: "'s net_env \<Rightarrow> identity \<Rightarrow> u64 \<Rightarrow> netconf \<Rightarrow> 's chunk_arrival \<Rightarrow> cfg_chunk \<Rightarrow> bool" where
  "carries_config c me nwid nc a k \<longleftrightarrow>
     (case a of (e, _, _, b, start) \<Rightarrow> env_crypto (ne_cred e) = env_crypto (ne_cred c) \<and> ne_cap e = ne_cap c \<and> ne_self e = nc_issuedTo nc \<and>
        env_getIdentity (ne_cred e) (controllerFor nwid) = public_part me \<and>
        at_pos b start (chunk_bytes nwid k (chunk_sig (env_crypto (ne_cred c)) me nwid k)))"

lemma config_run:
  assumes tx: "tx = concat (map fst ps)" "distinct (map snd ps)" "\<forall>p\<in>set ps. fst p \<noteq> [] \<and> length (fst p) < 2 ^ 16" "length ps \<le> MAX_UPDATE_CHUNKS (ne_cap c)"
      "length tx < ne_cap c" "ne_cap c < 2 ^ 31"
    and all: "all = set (cut uid (length tx) 0 ps)" "all \<noteq> {}"
    and key: "\<forall>k\<in>all. length (chunk_sig (env_crypto (ne_cred c)) me nwid k) = 96 \<and> ck_id k = chunk_id (chunk_sig (env_crypto (ne_cred c)) me nwid k) \<and>
        identity_verify_len (env_crypto (ne_cred c)) (public_part me) (chunk_head nwid k) (chunk_sig (env_crypto (ne_cred c)) me nwid k) 96"
      "identity_bool (public_part me)"
    and nc: "\<And>d. length d = ne_cap c \<Longrightarrow> \<exists>junk. d = tx @ 0 # junk \<Longrightarrow> nc_fromDictionary d = Inr (Some nc)" "nc_networkId nc = nwid"
  shows "list_all2 (carries_config c me nwid nc) as ks \<Longrightarrow> \<forall>a\<in>set as. \<not> ne_same (fst a) old nc \<Longrightarrow>
    S \<subseteq> all \<Longrightarrow> set ks \<subseteq> all \<Longrightarrow> all \<subseteq> S \<union> set ks \<Longrightarrow> \<not> ns_destroyed n \<Longrightarrow> ns_id n = nwid \<Longrightarrow> gathered (ne_cap c) uid S (ns_slots n) \<Longrightarrow>
    ns_config n = (if S = all then nc else old) \<Longrightarrow> ns_config (run_chunks as n) = nc"
proof (induction as arbitrary: ks S n)
  case Nil
  then have "S = all" by auto
  then show ?case using Nil by simp
next
  case (Cons a as)
  obtain e pid source b start where a: "a = (e, pid, source, b, start)" by (metis prod.collapse)
  obtain k ks' where ks: "ks = k # ks'" "carries_config c me nwid nc a k" "list_all2 (carries_config c me nwid nc) as ks'"
    using Cons.prems(1) by (auto simp: list_all2_Cons1)
  have e: "env_crypto (ne_cred e) = env_crypto (ne_cred c)" "ne_cap e = ne_cap c" "ne_self e = nc_issuedTo nc"
    "env_getIdentity (ne_cred e) (controllerFor nwid) = public_part me" 
    "at_pos b start (chunk_bytes nwid k (chunk_sig (env_crypto (ne_cred c)) me nwid k))" using ks(2) by (simp_all add: carries_config_def a)
  have kall: "k \<in> all" using Cons.prems(4) ks(1) by simp
  let ?n = "fst (handleConfigChunk e pid source b start n)"
  have st: "\<not> ns_destroyed ?n \<and> ns_id ?n = nwid \<and> gathered (ne_cap e) uid (insert k S) (ns_slots ?n) \<and>
    (if k \<notin> S \<and> insert k S = all \<and> \<not> ne_same e (ns_config n) nc then ns_config ?n = nc else ns_config ?n = ns_config n)"
    by (rule chunk_arrives [OF tx(1-3) _ _ _ all(1) kall Cons.prems(3) Cons.prems(6,7) _ e(5)])
      (use tx(4-6) key kall e nc Cons.prems(8) in simp_all)
  have "ns_config ?n = (if insert k S = all then nc else old)"
  proof (cases "k \<in> S")
    case True
    then show ?thesis using st Cons.prems(9) by (simp add: insert_absorb)
  next
    case False
    then have "S \<noteq> all" using kall by blast
    then have "ns_config n = old" using Cons.prems(9) by simp
    moreover have "\<not> ne_same e old nc" using Cons.prems(2) a by simp
    ultimately show ?thesis using st False by (auto split: if_splits)
  qed
  then have "ns_config (run_chunks as ?n) = nc"
    using st e(2) kall Cons.prems(2-5) ks(1) by (intro Cons.IH [OF ks(3), of "insert k S"]) auto
  then show ?case by (simp add: a)
qed

lemma config_packet_exists:
  assumes iv: "\<And>a n. length (ne_iv e a n) = 8" and c: "crypto_ok (env_crypto (ne_cred e))" "id_priv me = Some priv"
    and p: "length data \<le> CONFIG_CHUNK"
  shows "\<exists>b q. config_packet e me nwid req dest uid tot i data = Inr (b, q) \<and> small b \<and> 28 \<le> bsize b \<and> pkt_compressed b = Inr False \<and>
    unat q = (if req = 0 then 28 else 37)"
proof -
  let ?v = "if req \<noteq> 0 then VERB_OK else VERB_NETWORK_CONFIG"
  obtain b0 where b0: "pkt_new (replicate 10024 0) (ne_iv e dest i) dest (id_address me) ?v = Inr b0" "small b0" "bcap b0 = 10024" "blen b0 = 28"
      "bdata b0 ! 27 = verb_code ?v"
    using pkt_new_small [OF iv, of "replicate 10024 0" dest i dest "id_address me" ?v] by auto
  have s0: "bsize b0 = 28" using b0(4) by (simp add: bsize_def)
  let ?r = "[be_bytes 1 (verb_code VERB_NETWORK_CONFIG_REQUEST), be_bytes 8 req]"
  have w: "list_all2 appends [buf_append_int 1 (verb_code VERB_NETWORK_CONFIG_REQUEST), buf_append_int 8 req] ?r"
    by (simp only: list_all2_Cons list_all2_Nil appends_int simp_thms)
  have g0: "grown b0 [] b0" using b0(2) by (simp add: grown_def)
  obtain b1 rs where b1: "(if req \<noteq> 0 then write_all [buf_append_int 1 (verb_code VERB_NETWORK_CONFIG_REQUEST), buf_append_int 8 req] b0 else Inr b0) = Inr b1"
    "grown b0 rs b1" "length rs = (if req = 0 then 0 else 9)"
  proof (cases "req = 0")
    case True
    then show ?thesis using that [of b0 "[]"] g0 by simp
  next
    case False
    then show ?thesis using that [of _ "concat ?r"] appendsD(1) [OF appends_write_all [OF w] b0(2)] s0 b0(3) by (auto simp: fits_def)
  qed
  note s1 = grown_bsize [OF b0(2) b1(2)] and c1 = b1(2) [unfolded grown_def]
  have q: "unat (blen b1) = (if req = 0 then 28 else 37)" using s1 s0 b1(3) by (simp add: bsize_def)
  have p31: "length data < 2 ^ 31" "length data \<le> 9740" using p by (simp_all add: CONFIG_CHUNK_def)
  let ?h = "[be_bytes 8 nwid, be_bytes 2 (of_nat (length data) :: u16), data, be_bytes 1 (0 :: u8), be_bytes 8 uid, be_bytes 4 tot, be_bytes 4 (of_nat i :: u32)]"
  have w2: "list_all2 appends [buf_append_int 8 nwid, buf_append_int 2 (of_nat (length data) :: u16), buf_append_bytes data (of_nat (length data)),
        buf_append_int 1 (0 :: u8), buf_append_int 8 uid, buf_append_int 4 tot, buf_append_int 4 (of_nat i :: u32)] ?h"
    using appends_bytes [OF unat_of_nat_u32 [OF p31(1)] p31(1)] by (simp only: list_all2_Cons list_all2_Nil appends_int simp_thms)
  have f2: "fits b1 (concat ?h)" using s1 s0 b0(3) c1 b1(3) p31(2) by (simp add: fits_def)
  obtain b2 where b2: "write_all [buf_append_int 8 nwid, buf_append_int 2 (of_nat (length data) :: u16), buf_append_bytes data (of_nat (length data)),
        buf_append_int 1 (0 :: u8), buf_append_int 8 uid, buf_append_int 4 tot, buf_append_int 4 (of_nat i :: u32)] b1 = Inr b2" "grown b1 (concat ?h) b2"
    using appendsD(1) [OF appends_write_all [OF w2] _ f2] c1 by blast
  note c2 = b2(2) [unfolded grown_def]
  have s2: "bsize b2 = bsize b1 + (27 + length data)" using grown_bsize [OF _ b2(2)] c1 by simp
  have "unat (blen b2 - blen b1) = bsize b2 - bsize b1" using s2 by (simp add: bsize_def unat_sub_if_size)
  then obtain m where m: "buf_read b2 (unat (blen b1)) (unat (blen b2 - blen b1)) = Inr m"
    using s2 c2 smallD(3) [of b2] by (auto simp: buf_read_def bsize_def)
  let ?sg = "ecc_sign (env_crypto (ne_cred e)) priv (id_pub me) m"
  have sg: "length ?sg = 96" using c(1) by (simp add: crypto_ok_def)
  let ?t = "[be_bytes 1 (1 :: u8), be_bytes 2 (96 :: u16), ?sg]"
  have w3: "list_all2 appends [buf_append_int 1 (1 :: u8), buf_append_int 2 (96 :: u16), buf_append_bytes ?sg 96] ?t"
    using appends_bytes [of 96 ?sg] sg by (simp only: list_all2_Cons list_all2_Nil appends_int simp_thms) simp
  have f3: "fits b2 (concat ?t)" using s2 s1 s0 b0(3) c1 c2 b1(3) p31(2) sg by (simp add: fits_def)
  obtain b3 where b3: "write_all [buf_append_int 1 (1 :: u8), buf_append_int 2 (96 :: u16), buf_append_bytes ?sg 96] b2 = Inr b3" "grown b2 (concat ?t) b3"
    using appendsD(1) [OF appends_write_all [OF w3] _ f3] c2 by blast
  note c3 = b3(2) [unfolded grown_def]
  have s3: "28 \<le> bsize b3" using grown_bsize [OF _ b3(2)] s2 s1 s0 c2 by simp
  have d: "bdata b3 = bdata b0 @ rs @ concat ?h @ concat ?t" using c1 c2 c3 by simp
  have l0: "length (bdata b0) = 28" using b0(2) s0 by simp
  have sm: "small b3" using c3 by blast
  then have "at_pos b3 0 (bdata b3)" by (simp add: at_pos_def)
  then have "buf_get b3 27 = Inr (bdata b3 ! 27)" using at_pos_get [of b3 0 "bdata b3" 27] s3 sm by simp
  also have "bdata b3 ! 27 = verb_code ?v" unfolding d using l0 b0(5) by (simp add: nth_append)
  finally have z: "pkt_compressed b3 = Inr False" by (simp add: pkt_compressed_def split: if_splits)
  have "config_packet e me nwid req dest uid tot i data = Inr (b3, blen b1)"
    unfolding config_packet_def b0(1) bind_res_simps b1(1) b2(1) m identity_sign_def c(2) option.case b3(1) ..
  then show ?thesis using sm s3 z q by blast
qed

lemma config_packets_total:
  "\<forall>p\<in>set (pieces tx off). \<exists>b. mk (fst p) (snd p) = Inr b \<Longrightarrow> \<exists>out. config_packets mk tx off = (out, Inr ())"
proof (induction mk tx off rule: config_packets.induct)
  case (1 mk tx off)
  show ?case
  proof (cases "off < length tx")
    case True
    let ?n = "min (length tx - off) CONFIG_CHUNK"
    have p: "pieces tx off = (off, take ?n (drop off tx)) # pieces tx (off + ?n)" using True by (subst pieces.simps) (simp add: Let_def)
    then obtain b where b: "mk off (take ?n (drop off tx)) = Inr b" using 1(2) by auto
    obtain out where "config_packets mk tx (off + ?n) = (out, Inr ())" using 1(1) [OF True refl b] 1(2) p by auto
    then show ?thesis using True b by (subst config_packets.simps) (simp add: Let_def)
  qed (simp add: config_packets.simps)
qed

text \<open>The chunks of a configuration under one update id, as the controller cuts and signs them.\<close>

definition update_chunks :: "'s crypto \<Rightarrow> identity \<Rightarrow> u64 \<Rightarrow> u64 \<Rightarrow> netconf \<Rightarrow> cfg_chunk list" where
  "update_chunks c me nwid uid nc = config_chunks c me nwid uid (dict_lines (nc_entries nc))"

definition update_id :: "u64 \<Rightarrow> u64" where
  "update_id rnd = (if rnd = 0 then 1 else rnd)"

lemma config_sent:
  assumes nc: "nc_ok nc" and cap: "length (dict_lines (nc_entries nc)) < ne_cap e" "ne_cap e < 2 ^ 31"
    and iv: "\<And>a n. length (ne_iv e a n) = 8" and c: "crypto_ok (env_crypto (ne_cred e))" "id_priv me = Some priv" "lz_law (ne_crypto e)"
    and dest: "dest \<noteq> id_address me"
  shows "\<exists>bs. snd (ncSendConfig e me rnd nwid req dest nc st) = (map NetSend bs, Inr ()) \<and>
    list_all2 (\<lambda>k b'. \<exists>b. pkt_uncompress (ne_crypto e) b' = Inr (True, b) \<and>
        drop (if req = 0 then 28 else 37) (bdata b) = chunk_bytes nwid k (chunk_sig (env_crypto (ne_cred e)) me nwid k))
      (update_chunks (env_crypto (ne_cred e)) me nwid (update_id rnd) nc) bs"
proof -
  let ?tx = "dict_lines (nc_entries nc)" and ?c = "env_crypto (ne_cred e)" and ?uid = "update_id rnd"
  have parts: "nc_parts_ok (nc_sent nc)" using nc by (simp add: nc_ok_def)
  obtain d where d: "nc_toDictionary (ne_cap e) nc = Inr (d, True)" "dict_holds (ne_cap e) d (nc_entries nc)"
    using nc_toDictionary_exact [OF parts _ cap(2)] cap(1) by auto
  obtain junk where junk: "d = ?tx @ 0 # junk" using d(2) by (auto simp: dict_holds_def)
  have "0 \<notin> set ?tx" using dict_lines_zero d(2) by (auto simp: dict_holds_def)
  then have tx: "takeWhile (\<lambda>c. c \<noteq> 0) d = ?tx" unfolding junk by (subst takeWhile_append2) auto
  define mk where "mk = (\<lambda>i data. bind_res (config_packet e me nwid req dest ?uid (of_nat (length ?tx)) i data)
                 (\<lambda>(b, _). bind_res (pkt_compress (ne_crypto e) b) (\<lambda>(_, b). Inr b)))"
  have mk: "\<exists>b b'. mk (fst p) (snd p) = Inr b' \<and> pkt_uncompress (ne_crypto e) b' = Inr (True, b) \<and>
      drop (if req = 0 then 28 else 37) (bdata b) = chunk_bytes nwid (config_chunk ?c me nwid ?uid ?tx p) (chunk_sig ?c me nwid (config_chunk ?c me nwid ?uid ?tx p))"
    if "p \<in> set (pieces ?tx 0)" for p
  proof -
    have l: "length (snd p) \<le> CONFIG_CHUNK" using pieces_parts [of "fst p" "snd p"] that by simp
    then have l31: "length (snd p) < 2 ^ 31" by (simp add: CONFIG_CHUNK_def)
    obtain b q where b: "config_packet e me nwid req dest ?uid (of_nat (length ?tx)) (fst p) (snd p) = Inr (b, q)" "small b" "28 \<le> bsize b"
        "pkt_compressed b = Inr False" "unat q = (if req = 0 then 28 else 37)"
      using config_packet_exists [OF iv c(1,2) l] by blast
    obtain did b1 b2 where z: "pkt_compress (ne_crypto e) b = Inr (did, b1)" "pkt_uncompress (ne_crypto e) b1 = Inr (True, b2)" "bdata b2 = bdata b"
      using compress_uncompress [OF b(2,3) c(3) b(4)] by blast
    show ?thesis using config_packet_bytes [OF b(1) iv c(1) l31] b(1,5) z by (simp add: mk_def Let_def)
  qed
  then have "\<forall>p\<in>set (pieces ?tx 0). \<exists>b. mk (fst p) (snd p) = Inr b" by blast
  then obtain out where out: "config_packets mk ?tx 0 = (out, Inr ())" using config_packets_total by blast
  obtain bs where bs: "out = map NetSend bs" "list_all2 (\<lambda>p b. mk (fst p) (snd p) = Inr b) (pieces ?tx 0) bs"
    using config_packets_sends [OF out] by blast
  have "list_all2 (\<lambda>p b'. \<exists>b. pkt_uncompress (ne_crypto e) b' = Inr (True, b) \<and>
      drop (if req = 0 then 28 else 37) (bdata b) = chunk_bytes nwid (config_chunk ?c me nwid ?uid ?tx p) (chunk_sig ?c me nwid (config_chunk ?c me nwid ?uid ?tx p)))
    (pieces ?tx 0) bs"
    unfolding list_all2_conv_all_nth
  proof (intro conjI allI impI)
    fix i assume i: "i < length (pieces ?tx 0)"
    then have "mk (fst (pieces ?tx 0 ! i)) (snd (pieces ?tx 0 ! i)) = Inr (bs ! i)" using bs(2) by (simp add: list_all2_conv_all_nth)
    then show "\<exists>b. pkt_uncompress (ne_crypto e) (bs ! i) = Inr (True, b) \<and> drop (if req = 0 then 28 else 37) (bdata b) =
        chunk_bytes nwid (config_chunk ?c me nwid ?uid ?tx (pieces ?tx 0 ! i)) (chunk_sig ?c me nwid (config_chunk ?c me nwid ?uid ?tx (pieces ?tx 0 ! i)))"
      using mk [OF nth_mem [OF i]] by auto
  qed (use bs(2) in \<open>simp add: list_all2_conv_all_nth\<close>)
  moreover have "snd (ncSendConfig e me rnd nwid req dest nc st) = (out, Inr ())"
    using dest out d(1) by (cases st) (simp add: ncSendConfig_def Let_def tx mk_def update_id_def)
  ultimately show ?thesis using bs(1) by (auto simp: update_chunks_def config_chunks_def list_all2_map1)
qed

text \<open>A configuration whose text does not fit is not sent to another node.\<close>

lemma config_too_long:
  assumes nc: "nc_ok nc" and cap: "ne_cap e \<le> length (dict_lines (nc_entries nc))" "0 < ne_cap e" "ne_cap e < 2 ^ 31"
    and dest: "dest \<noteq> id_address me"
  shows "fst (snd (ncSendConfig e me rnd nwid req dest nc st)) = []"
proof -
  have "nc_parts_ok (nc_sent nc)" using nc by (simp add: nc_ok_def)
  from nc_toDictionary_exact [OF this cap(2,3)] cap(1)
  have "nc_toDictionary (ne_cap e) nc = Inl OutOfBounds \<or> (\<exists>d. nc_toDictionary (ne_cap e) nc = Inr (d, False))" by simp
  then show ?thesis using dest by (cases st) (auto simp: ncSendConfig_def Let_def)
qed

lemma carries_received: "carries_config c me nwid (nc_received nc) = carries_config c me nwid nc"
  by (rule ext, rule ext) (simp add: carries_config_def nc_received_simps)

lemma text_nonempty: "dict_lines (nc_entries nc) \<noteq> []"
proof -
  have "dict_lines ((K_VERSION, v) # es) \<noteq> []" for v es
  proof (induction es rule: rev_induct)
    case Nil
    then show ?case using dict_lines_simps(2) [of "[]" K_VERSION v] by (simp add: dict_line_def)
  next
    case (snoc x es)
    then show ?case using dict_lines_simps(2) [of "(K_VERSION, v) # es" "fst x" "snd x"] by simp
  qed
  then show ?thesis by (simp add: nc_entries_def nc_scalar_entries_def)
qed

lemma config_received:
  assumes nc: "nc_ok nc" "nc_networkId nc = nwid" and cap: "length (dict_lines (nc_entries nc)) < ne_cap e" "ne_cap e < 2 ^ 31"
    and c: "crypto_ok (env_crypto (ne_cred e))" "id_priv me = Some priv" "key_pair (env_crypto (ne_cred e)) priv (id_pub me)" "addr_bool (id_address me)"
    and ids: "distinct (map ck_id (update_chunks (env_crypto (ne_cred e)) me nwid uid nc))"
    and n: "\<not> ns_destroyed n" "ns_id n = nwid" "slots_ok (ne_cap e) (ns_slots n)" "\<forall>s\<in>set (ns_slots n). cs_updateId s \<noteq> uid"
    and as: "list_all2 (carries_config e me nwid nc) as ks" "set ks = set (update_chunks (env_crypto (ne_cred e)) me nwid uid nc)"
      "\<forall>a\<in>set as. \<not> ne_same (fst a) (ns_config n) (nc_received nc)"
  shows "ns_config (run_chunks as n) = nc_received nc"
proof -
  let ?tx = "dict_lines (nc_entries nc)" and ?c = "env_crypto (ne_cred e)"
  define ps where "ps = map (\<lambda>p. (snd p, ck_id (config_chunk ?c me nwid uid ?tx p))) (pieces ?tx 0)"
  let ?all = "set (update_chunks ?c me nwid uid nc)"
  have cut: "update_chunks ?c me nwid uid nc = cut uid (length ?tx) 0 ps"
    using config_chunks_cut [of ?c me nwid uid ?tx 0] by (simp add: update_chunks_def config_chunks_def ps_def)
  have tx: "?tx = concat (map fst ps)" using pieces_concat [of 0 ?tx] by (simp add: ps_def comp_def)
  have "map snd ps = map ck_id (update_chunks ?c me nwid uid nc)" using cut_ids [of uid "length ?tx" 0 ps] cut by simp
  then have ids': "distinct (map snd ps)" using ids by simp
  have parts: "\<forall>p\<in>set ps. fst p \<noteq> [] \<and> length (fst p) < 2 ^ 16"
    using pieces_parts [of _ _ ?tx 0] by (force simp: ps_def CONFIG_CHUNK_def)
  have cnt: "length ps \<le> MAX_UPDATE_CHUNKS (ne_cap e)"
  proof -
    have "length ps * 9740 < length ?tx + 9740" using pieces_count [of ?tx 0] by (simp add: ps_def CONFIG_CHUNK_def)
    then have "length ps \<le> ne_cap e div 1024 + 1" using cap(1) by linarith
    then show ?thesis by (simp add: MAX_UPDATE_CHUNKS_def)
  qed
  have "pieces ?tx 0 \<noteq> []" using text_nonempty [of nc] by (subst pieces.simps) (simp add: Let_def)
  then have ne: "?all \<noteq> {}" by (simp add: update_chunks_def config_chunks_def)
  have key: "\<forall>k\<in>?all. length (chunk_sig ?c me nwid k) = 96 \<and> ck_id k = chunk_id (chunk_sig ?c me nwid k) \<and>
      identity_verify_len ?c (public_part me) (chunk_head nwid k) (chunk_sig ?c me nwid k) 96"
  proof
    fix k assume "k \<in> ?all"
    then obtain p where k: "k = config_chunk ?c me nwid uid ?tx p" by (auto simp: update_chunks_def config_chunks_def)
    have "ck_id k = chunk_id (chunk_sig ?c me nwid k)" unfolding k by (rule config_chunk_simps(5))
    moreover have "chunk_sig ?c me nwid k = ecc_sign ?c priv (id_pub me) (chunk_head nwid k)" using c(2) by (simp add: chunk_sig_def)
    ultimately show "length (chunk_sig ?c me nwid k) = 96 \<and> ck_id k = chunk_id (chunk_sig ?c me nwid k) \<and>
        identity_verify_len ?c (public_part me) (chunk_head nwid k) (chunk_sig ?c me nwid k) 96"
      using c(1,3) by (simp add: crypto_ok_def key_pair_def identity_verify_len_def public_part_def)
  qed
  have rd: "nc_fromDictionary d = Inr (Some (nc_received nc))" if "length d = ne_cap e" "\<exists>junk. d = ?tx @ 0 # junk" for d
  proof -
    have "nc_parts_ok (nc_sent nc)" using nc(1) by (simp add: nc_ok_def)
    then obtain d' where "dict_holds (ne_cap e) d' (nc_entries nc)" using nc_toDictionary_exact [of nc "ne_cap e"] cap by auto
    then have "dict_holds (ne_cap e) d (nc_entries nc)" using that by (auto simp: dict_holds_def)
    then show ?thesis using nc_holds_read [OF nc(1) _ cap(2)] cap(1) by simp
  qed
  have nwid': "nc_networkId (nc_received nc) = nwid" using nc(2) by (simp add: nc_received_simps)
  have as1: "list_all2 (carries_config e me nwid (nc_received nc)) as ks" using as(1) by (simp only: carries_received)
  have g: "gathered (ne_cap e) uid {} (ns_slots n)" using n(3,4) by (simp add: gathered_def)
  have sub: "set ks \<subseteq> ?all" "?all \<subseteq> {} \<union> set ks" using as(2) by auto
  show ?thesis
  proof (rule config_run [where S = "{}" and old = "ns_config n" and ks = ks, OF tx ids' parts cnt cap _ ne key _ rd nwid' as1 as(3) _ sub n(1,2) g])
    show "ns_config n = (if {} = ?all then nc_received nc else ns_config n)" using ne by metis
  qed (use cut c(4) in \<open>simp_all add: identity_bool_def public_part_def\<close>)
qed

section \<open>No write outside a slot\<close>

text \<open>
  Reading a packet from a place inside it leaves its array nowhere, so undefined behaviour can only come
  from storing the chunk, which the bounds exclude, or from reading the finished text.
\<close>

definition no_ub :: "'a res \<Rightarrow> bool" where
  "no_ub r \<longleftrightarrow> r \<noteq> Inl UndefinedBehaviour"

lemma no_ub_intros:
  "no_ub (Inr a)" "no_ub (buf_get b i)" "no_ub (buf_at k b i)"
  "no_ub x \<Longrightarrow> (\<And>a. x = Inr a \<Longrightarrow> no_ub (f a)) \<Longrightarrow> no_ub (bind_res x f)"
  "(c \<Longrightarrow> no_ub x) \<Longrightarrow> (\<not> c \<Longrightarrow> no_ub y) \<Longrightarrow> no_ub (if c then x else y)"
  "(o1 = None \<Longrightarrow> no_ub x) \<Longrightarrow> (\<And>j. o1 = Some j \<Longrightarrow> no_ub (g j)) \<Longrightarrow> no_ub (case o1 of None \<Rightarrow> x | Some j \<Rightarrow> g j)"
  by (auto simp: no_ub_def buf_get_def buf_at_def bind_res_def split: sum.split option.split)

lemma no_ub_bytes: "small b \<Longrightarrow> unat i + unat l < 2 ^ 32 \<Longrightarrow> no_ub (buf_bytes b i l)"
  using smallD(3) [of b]
  by (auto simp: no_ub_def buf_bytes_def buf_field_def buf_read_def bind_res_def word_less_nat_alt unat_word_ariths bsize_def not_less
      split: if_splits)

lemma read_signed_defined:
  assumes b: "small b" and st: "start \<le> blen b" "unat start \<le> unat p" and p: "p < blen b"
  shows "no_ub (read_signed e ctrl C slots b start p data)"
proof -
  have n: "unat p < 2 ^ 31" "unat (blen b) < 2 ^ 31" using p smallD(4) [OF b] by (simp_all add: word_less_nat_alt bsize_def)
  have u: "unat (p + 17) = unat p + 17" "unat (p + 20) = unat p + 20" using n by (simp_all add: unat_word_ariths)
  have "unat (p + 17 - start) = unat p + 17 - unat start"
    using u(1) st(2) by (subst unat_sub) (simp_all add: word_le_nat_alt)
  then have head: "no_ub (buf_bytes b start (p + 17 - start))" using n st by (intro no_ub_bytes b) simp
  have sig: "no_ub (buf_bytes b (p + 20) 96)" using u n by (intro no_ub_bytes b) simp
  show ?thesis
    unfolding read_signed_def check_signed_def Let_def by (intro no_ub_intros head sig)
qed

lemma chunk_packet_defined:
  assumes b: "small b" "start \<le> blen b" and iv: "\<And>a k. length (ne_iv e a k) = 8"
  shows "no_ub (chunk_packet e b start a)"
proof -
  have n: "unat (blen b) < 2 ^ 31" using smallD(4) [OF b(1)] by (simp add: bsize_def)
  have "unat start + unat (blen b - start) < 2 ^ 32" using b(2) n by (simp add: unat_sub word_le_nat_alt)
  then have r: "no_ub (buf_bytes b start (blen b - start))" by (rule no_ub_bytes [OF b(1)])
  have len: "length bs < 2 ^ 31" if "buf_bytes b start (blen b - start) = Inr bs" for bs
    using buf_bytes_length [OF that] b(2) n by (simp add: unat_sub)
  obtain p where p: "pkt_new (replicate 10024 0) (ne_iv e a 0) a (ne_self e) VERB_NETWORK_CONFIG = Inr p"
    "bcap p = 10024" "blen p = 28"
    using pkt_new_small [OF iv [of a 0], of "replicate 10024 0" a "ne_self e" VERB_NETWORK_CONFIG] by auto
  have "no_ub (buf_append_bytes bs (of_nat (length bs)) p)" if l: "length bs < 2 ^ 31" for bs :: "u8 list"
  proof -
    have "unat (28 + of_nat (length bs) :: u32) = 28 + length bs"
      using l unat_of_nat_u32 [OF l] by (simp add: unat_word_ariths)
    then show ?thesis
      using p(2,3) unat_of_nat_u32 [OF l] by (auto simp: no_ub_def buf_append_bytes_def bsize_def bcap32_def word_less_nat_alt)
  qed
  then show ?thesis unfolding chunk_packet_def p(1) bind_res_simps by (intro no_ub_intros r) (use len in blast)
qed

lemma send_all_defined: "(\<And>a. no_ub (f a)) \<Longrightarrow> no_ub (snd (send_all f as))"
proof (induction as)
  case (Cons a as)
  then show ?case using Cons.prems [of a] by (auto simp: no_ub_def split: sum.split prod.split)
qed (simp add: no_ub_def)

lemma take_chunk_undefined:
  assumes ok: "slots_ok (ne_cap e) (ns_slots n)" and k: "i < 3" "ck_end k \<le> ck_total k" "ck_total k < ne_cap e"
    and t: "take_chunk e k i n = (n', out, Inl UndefinedBehaviour)"
  shows "\<exists>s\<in>set (ns_slots n'). nc_fromDictionary (cs_data s) = Inl UndefinedBehaviour"
proof -
  obtain c fin where c: "store_chunk (ne_cap e) k (ns_slots n ! i) = Inr (c, fin)"
    using store_chunk_defined [OF ok k] by (cases "store_chunk (ne_cap e) k (ns_slots n ! i)") auto
  have "i < length (ns_slots n)" using ok k(1) by (simp add: slots_ok_def)
  then have "c \<in> set ((ns_slots n)[i := c])" by (rule set_update_memI)
  then show ?thesis using t
    by (auto simp: take_chunk_def c Let_def split: if_splits sum.splits exc.splits option.splits prod.splits)
qed

lemma handle_chunk_undefined:
  assumes ok: "slots_ok (ne_cap e) (ns_slots n)" and b: "small b" "start \<le> blen b" and iv: "\<And>a k. length (ne_iv e a k) = 8"
    and h: "handleConfigChunk e pid source b start n = (n', out, Inl UndefinedBehaviour)"
  shows "\<exists>s\<in>set (ns_slots n'). nc_fromDictionary (cs_data s) = Inl UndefinedBehaviour"
proof -
  let ?rd = "\<lambda>data. let p = start + 10 + of_nat (length data) in
    if p < blen b then read_signed (ne_cred e) (controllerOf n) (ne_cap e) (ns_slots n) b start p data
    else if source = controllerOf n \<or> \<not> addr_bool source then Inr (read_legacy (ne_cap e) (ns_slots n) pid data) else Inr None"
  let ?to = "filter (\<lambda>a. a \<noteq> source \<and> a \<noteq> controllerOf n) (member_list n)"
  have n: "unat start < 2 ^ 31" using b(2) smallD(4) [OF b(1)] by (simp add: word_le_nat_alt bsize_def)
  have small_sum: "unat (start + 10 + of_nat l :: u32) = unat start + 10 + l" if "l < 2 ^ 16" for l
    using n that by (simp add: unat_word_ariths unat_of_nat)
  have wide: "unat (ucast l :: u32) < 2 ^ 16" for l :: u16
    using unsigned_less [where 'a = nat, of l] by (simp add: unsigned_ucast_eq take_bit_eq_mod)
  have "no_ub (buf_bytes b (start + 10) (ucast l))" for l :: u16
    using n wide [of l] small_sum [of 0] by (intro no_ub_bytes b(1)) simp
  then have first: "no_ub (bind_res (buf_at 2 b (start + 8)) (\<lambda>l :: u16. buf_bytes b (start + 10) (ucast l)))"
    by (intro no_ub_intros)
  have "\<not> ns_destroyed n" using h by (auto simp: handleConfigChunk_def)
  moreover obtain data where data: "bind_res (buf_at 2 b (start + 8)) (\<lambda>l :: u16. buf_bytes b (start + 10) (ucast l)) = Inr data"
    using h first [unfolded no_ub_def] calculation
    by (cases "bind_res (buf_at 2 b (start + 8)) (\<lambda>l :: u16. buf_bytes b (start + 10) (ucast l))") (auto simp: handleConfigChunk_def)
  ultimately have h': "(case ?rd data of Inl x \<Rightarrow> (n, [], Inl x) | Inr None \<Rightarrow> (n, [], Inr 0)
      | Inr (Some (k, i, fast)) \<Rightarrow> (case (if fast then send_all (chunk_packet e b start) ?to else ([], Inr ())) of
          (out, Inl x) \<Rightarrow> (n, out, Inl x)
        | (out, Inr _) \<Rightarrow> (case take_chunk e k i n of (n', out', r) \<Rightarrow> (n', out @ out', r)))) = (n', out, Inl UndefinedBehaviour)"
    using h by (simp add: handleConfigChunk_def Let_def)
  obtain l :: u16 where "buf_bytes b (start + 10) (ucast l) = Inr data" using data by (auto simp: bind_res_eq_Inr)
  then have "length data < 2 ^ 16" using buf_bytes_length wide [of l] by fastforce
  then have "no_ub (?rd data)"
    unfolding Let_def by (intro no_ub_intros read_signed_defined [OF b]) (simp_all add: small_sum)
  then obtain k i fast where rd: "?rd data = Inr (Some (k, i, fast))"
    using h' by (cases "?rd data") (auto simp: no_ub_def split: option.splits)
  have l3: "length (ns_slots n) = 3" using ok by (simp add: slots_ok_def)
  have f: "i < 3" "ck_end k \<le> ck_total k" "ck_total k < ne_cap e"
    using rd read_signed_facts(1-3) [OF _ l3] read_legacy_facts(1-3) [OF _ l3] by (auto simp: Let_def split: if_splits)
  obtain o1 r1 where fl: "(if fast then send_all (chunk_packet e b start) ?to else ([], Inr ())) = (o1, r1)" by fastforce
  have "r1 \<noteq> Inl UndefinedBehaviour"
    using send_all_defined [of "chunk_packet e b start" ?to] chunk_packet_defined [OF b iv] fl by (auto simp: no_ub_def split: if_splits)
  then obtain o2 where "take_chunk e k i n = (n', o2, Inl UndefinedBehaviour)"
    using h' unfolding rd by (cases r1) (auto simp: fl split: prod.splits)
  then show ?thesis by (rule take_chunk_undefined [OF ok f])
qed

section \<open>Claims\<close>

text \<open>
  Claim C4: a configuration reaches the member it is for. The controller sends to another node a
  configuration the reader accepts (a network and a holder, decodable objects within the limits of the
  arrays and one per id, texts that fit theirs). If its text fits the dictionary, sending succeeds: it
  sends exactly one packet for each chunk of the text, and each packet, decompressed, holds from its
  payload on the network id, the chunk, its place in the text and the controller's signature of all
  that. If the ids of the chunks are distinct, a member that has no part of this update yet and knows
  the controller's key takes these chunks in any order, each any number of times, mixed over any
  packets that carry them: once each has come at least once, and unless what arrives is what it has
  already, its configuration is \<open>nc_received\<close> of the one that was sent, which is that
  configuration itself when it is \<open>nc_plain\<close>. If the text does not fit, nothing is sent.
\<close>

theorem config_delivered:
  assumes nc: "nc_ok nc" "nc_networkId nc = nwid" and cap: "0 < ne_cap e" "ne_cap e < 2 ^ 31"
    and iv: "\<And>a n. length (ne_iv e a n) = 8" and c: "crypto_ok (env_crypto (ne_cred e))" "lz_law (ne_crypto e)"
    and me: "id_priv me = Some priv" "key_pair (env_crypto (ne_cred e)) priv (id_pub me)" "addr_bool (id_address me)" "dest \<noteq> id_address me"
    and ids: "distinct (map ck_id (update_chunks (env_crypto (ne_cred e)) me nwid (update_id rnd) nc))"
    and n: "\<not> ns_destroyed n" "ns_id n = nwid" "slots_ok (ne_cap e) (ns_slots n)" "\<forall>s\<in>set (ns_slots n). cs_updateId s \<noteq> update_id rnd"
    and as: "list_all2 (carries_config e me nwid nc) as ks" "set ks = set (update_chunks (env_crypto (ne_cred e)) me nwid (update_id rnd) nc)"
      "\<forall>a\<in>set as. \<not> ne_same (fst a) (ns_config n) (nc_received nc)"
  shows "if length (dict_lines (nc_entries nc)) < ne_cap e
    then (\<exists>bs. snd (ncSendConfig e me rnd nwid req dest nc st) = (map NetSend bs, Inr ()) \<and>
        list_all2 (\<lambda>k b'. \<exists>b. pkt_uncompress (ne_crypto e) b' = Inr (True, b) \<and>
            drop (if req = 0 then 28 else 37) (bdata b) = chunk_bytes nwid k (chunk_sig (env_crypto (ne_cred e)) me nwid k))
          (update_chunks (env_crypto (ne_cred e)) me nwid (update_id rnd) nc) bs) \<and>
      ns_config (run_chunks as n) = nc_received nc \<and> (nc_plain nc \<longrightarrow> ns_config (run_chunks as n) = nc)
    else fst (snd (ncSendConfig e me rnd nwid req dest nc st)) = []"
proof (cases "length (dict_lines (nc_entries nc)) < ne_cap e")
  case True
  show ?thesis
    using config_sent [OF nc(1) True cap(2) iv c(1) me(1) c(2) me(4)] config_received [OF nc True cap(2) c(1) me(1-3) ids n as]
      nc_received_plain [of nc] True by auto
next
  case False
  then show ?thesis using config_too_long [OF nc(1) _ cap me(4)] by simp
qed

section \<open>Instances\<close>

definition demo_ne :: "unit net_env" where
  "demo_ne = \<lparr>ne_cred = ZT_Membership.demo_env, ne_self = addr_of 0x1122334455, ne_now = 9, ne_alloc = \<lambda>_. True, ne_cap = 1024, ne_same = \<lambda>_ _. False,
     ne_port = \<lambda>_. 0, ne_iv = \<lambda>_ _. replicate 8 9, ne_crypto = demo_crypto, ne_knows = \<lambda>_. True, ne_upstreams = []\<rparr>"

definition demo_controller :: identity where
  "demo_controller = \<lparr>id_address = addr_of 0x8056c2e21c, id_pub = replicate 64 0, id_priv = Some (replicate 64 1)\<rparr>"

definition demo_ns :: netstate where
  "demo_ns = \<lparr>ns_net = \<lparr>nw_id = 0x8056c2e21c000001, nw_config = netconf_nil, nw_memberships = ht_new 4,
       nw_out_accepted = 0, nw_out_dropped = 0, nw_in_accepted = 0, nw_in_dropped = 0\<rparr>, ns_groups = [], ns_behind = ht_new 4,
     ns_bridges = ht_new 4, ns_lastAnnounced = 0, ns_lastUpdate = 0, ns_slots = slots_new 1024, ns_destroyed = False, ns_failure = FAIL_NONE,
     ns_portInit = False, ns_portError = 0, ns_authURL = []\<rparr>"

definition demo_chunks :: "cfg_chunk list" where
  "demo_chunks = update_chunks (env_crypto ZT_Membership.demo_env) demo_controller 0x8056c2e21c000001 (update_id 5) nc_sample"

text \<open>The chunk's packet comes twice.\<close>

definition demo_chunk_packet :: zbuf where
  "demo_chunk_packet = (let bs = chunk_bytes 0x8056c2e21c000001 (hd demo_chunks)
       (chunk_sig (env_crypto ZT_Membership.demo_env) demo_controller 0x8056c2e21c000001 (hd demo_chunks)) in
     \<lparr>bmem = replicate 28 0 @ bs, blen = of_nat (28 + length bs)\<rparr>)"

definition demo_arrivals :: "unit chunk_arrival list" where
  "demo_arrivals = replicate 2 (demo_ne, 1, addr_of 0x8056c2e21c, demo_chunk_packet, 28)"

lemma at_pos_whole: "length (h @ bs) < 2 ^ 31 \<Longrightarrow> at_pos \<lparr>bmem = h @ bs, blen = of_nat (length (h @ bs))\<rparr> (of_nat (length h)) bs"
  using unat_of_nat_u32 [of "length (h @ bs)"] unat_of_nat_u32 [of "length h"]
  by (simp add: at_pos_def small_def buf_ok_def bcap_def bsize_def bdata_def)

lemma demo_one: "demo_chunks = [hd demo_chunks]" "length (ck_data (hd demo_chunks)) < 1024"
proof -
  let ?tx = "dict_lines (nc_entries nc_sample)"
  have ne: "?tx \<noteq> []" by (rule text_nonempty)
  have "min (length ?tx) CONFIG_CHUNK = length ?tx" using nc_sample_size by (simp add: CONFIG_CHUNK_def)
  then have "pieces ?tx 0 = (0, ?tx) # pieces ?tx (length ?tx)" using ne by (subst pieces.simps) (simp add: Let_def)
  moreover have "pieces ?tx (length ?tx) = []" by (subst pieces.simps) simp
  ultimately have "pieces ?tx 0 = [(0, ?tx)]" by simp
  then show "demo_chunks = [hd demo_chunks]" "length (ck_data (hd demo_chunks)) < 1024"
    using nc_sample_size by (simp_all add: demo_chunks_def update_chunks_def config_chunks_def)
qed

lemma demo_crypto_laws: "crypto_ok (env_crypto ZT_Membership.demo_env)" "key_pair (env_crypto ZT_Membership.demo_env) priv pub"
  by (simp_all add: crypto_ok_def key_pair_def ZT_Membership.demo_env_def)

lemma demo_sig_length: "length (chunk_sig (env_crypto ZT_Membership.demo_env) demo_controller w k) = 96"
  by (simp add: chunk_sig_def demo_controller_def ZT_Membership.demo_env_def)

lemma demo_slots: "slots_ok 1024 (slots_new 1024)" "\<forall>s\<in>set (slots_new 1024). cs_updateId s = 0"
  by (simp_all add: slots_ok_def slots_new_def dict_empty_def)

lemma demo_arrivals_carry:
  "list_all2 (carries_config demo_ne demo_controller 0x8056c2e21c000001 nc_sample) demo_arrivals [hd demo_chunks, hd demo_chunks]"
proof -
  let ?bs = "chunk_bytes 0x8056c2e21c000001 (hd demo_chunks) (chunk_sig (env_crypto ZT_Membership.demo_env) demo_controller 0x8056c2e21c000001 (hd demo_chunks))"
  have l: "length (replicate 28 (0 :: u8) @ ?bs) < 2 ^ 31" using demo_one(2) demo_sig_length [of "0x8056c2e21c000001" "hd demo_chunks"]
    by (simp add: chunk_bytes_def chunk_head_def)
  have "at_pos demo_chunk_packet 28 ?bs" using at_pos_whole [OF l] by (simp add: demo_chunk_packet_def Let_def)
  moreover have "controllerFor 0x8056c2e21c000001 = addr_of 0x8056c2e21c" by code_simp
  ultimately show ?thesis
    by (simp add: demo_arrivals_def carries_config_def numeral_2_eq_2)
       (simp add: demo_ne_def ZT_Membership.demo_env_def demo_controller_def public_part_def nc_sample_def)
qed

theorem config_delivered_witness:
  "(\<exists>bs. snd (ncSendConfig demo_ne demo_controller 5 0x8056c2e21c000001 0 (addr_of 0x1122334455) nc_sample (ht_new 32, None)) = (map NetSend bs, Inr ())) \<and>
   ns_config (run_chunks demo_arrivals demo_ns) = nc_sample"
proof -
  have f: "nc_networkId nc_sample = 0x8056c2e21c000001" by (simp add: nc_sample_def)
  have e: "ne_cap demo_ne = 1024" "ne_cred demo_ne = ZT_Membership.demo_env" "ne_crypto demo_ne = demo_crypto" "\<And>a n. length (ne_iv demo_ne a n) = 8"
    "\<And>a b. \<not> ne_same demo_ne a b" by (simp_all add: demo_ne_def)
  have m: "id_priv demo_controller = Some (replicate 64 1)" "addr_bool (id_address demo_controller)" "addr_of 0x1122334455 \<noteq> id_address demo_controller"
    unfolding demo_controller_def by code_simp+
  have u: "update_id 5 = 5" by (simp add: update_id_def)
  have n: "\<not> ns_destroyed demo_ns" "ns_id demo_ns = 0x8056c2e21c000001" "slots_ok 1024 (ns_slots demo_ns)" "\<forall>s\<in>set (ns_slots demo_ns). cs_updateId s \<noteq> update_id 5"
    using demo_slots by (simp_all add: demo_ns_def u)
  have s: "set [hd demo_chunks, hd demo_chunks] = set demo_chunks" "distinct (map ck_id demo_chunks)"
    using arg_cong [OF demo_one(1), of set] arg_cong [OF demo_one(1), of "\<lambda>l. distinct (map ck_id l)"] by simp_all
  have a: "\<forall>a\<in>set demo_arrivals. \<not> ne_same (fst a) (ns_config demo_ns) (nc_received nc_sample)" using e(5) by (simp add: demo_arrivals_def)
  have cap: "0 < ne_cap demo_ne" "ne_cap demo_ne < 2 ^ 31" by (simp_all add: e(1))
  from config_delivered [OF nc_sample_ok(1) f cap e(4) _ _ m(1) _ m(2,3) _ n(1,2) _ n(4) demo_arrivals_carry _ a,
      unfolded e(1-3) demo_chunks_def [symmetric], OF demo_crypto_laws(1) demo_lz demo_crypto_laws(2) s(2) n(3) s(1)]
  show ?thesis using nc_sample_size nc_sample_ok(2) by force
qed

text \<open>
  Claim C8: what a node does with a chunk it should not take. Whatever the packet holds, when it is
  read from a place inside it nothing is written outside a slot's text and no other access leaves an
  array: undefined behaviour is left only to \<open>fromDictionary\<close>, on a finished text that overflows its
  arrays. The list of chunks of a slot stays within its array, and the network keeps its id; its
  configuration either stays or becomes one issued to this node for this network. A packet that is not
  authentic - the controller is unknown, the signature over the chunk does not verify, or an unsigned
  configuration comes from someone else than the controller - leaves the state as it was, sends
  nothing and reports no update; and when the packet's bounds are exceeded while it is read or passed
  on, the state is as it was too.
\<close>

theorem config_chunk_rejected:
  assumes "slots_ok (ne_cap e) (ns_slots n)" "small b" "start \<le> blen b" "\<And>a k. length (ne_iv e a k) = 8"
    "handleConfigChunk e pid source b start n = (n', out, r)"
  shows "slots_ok (ne_cap e) (ns_slots n') \<and> ns_id n' = ns_id n \<and>
    (ns_config n' = ns_config n \<or> nc_issuedTo (ns_config n') = ne_self e \<and> nc_networkId (ns_config n') = ns_id n) \<and>
    (\<not> authentic e source b start n \<longrightarrow> n' = n \<and> out = [] \<and> ((\<exists>x. r = Inl x) \<or> r = Inr 0)) \<and>
    (\<forall>x. r = Inl x \<longrightarrow> n' = n \<or> x = UndefinedBehaviour) \<and>
    (r = Inl UndefinedBehaviour \<longrightarrow> (\<exists>s\<in>set (ns_slots n'). nc_fromDictionary (cs_data s) = Inl UndefinedBehaviour))"
  using handle_chunk_spec [OF assms(1,5)] handle_chunk_undefined [OF assms(1-4), of pid source n' out] assms(5) by blast

text \<open>An unsigned configuration from another node than the controller, and one that ends early.\<close>

theorem config_chunk_rejected_witness:
  "handleConfigChunk demo_ne 1 (addr_of 7) \<lparr>bmem = replicate 40 0, blen = 38\<rparr> 28 demo_ns = (demo_ns, [], Inr 0) \<and>
   handleConfigChunk demo_ne 1 (addr_of 7) \<lparr>bmem = replicate 40 0, blen = 37\<rparr> 28 demo_ns = (demo_ns, [], Inl OutOfBounds)"
proof -
  have ok: "slots_ok (ne_cap demo_ne) (ns_slots demo_ns)" using demo_slots by (simp add: demo_ne_def demo_ns_def)
  have c: "controllerFor 0x8056c2e21c000001 \<noteq> addr_of 7" "addr_bool (addr_of 7)" by code_simp+
  have d: "\<not> ns_destroyed demo_ns" "ns_id demo_ns = 0x8056c2e21c000001" by (simp_all add: demo_ns_def)
  let ?b = "\<lparr>bmem = replicate 40 (0 :: u8), blen = 38\<rparr>" and ?s = "\<lparr>bmem = replicate 40 (0 :: u8), blen = 37\<rparr>"
  have b: "buf_at 2 ?b 36 = Inr (0 :: u16)" "buf_at 2 ?s 36 = (Inl OutOfBounds :: u16 res)" by code_simp+
  have n: "\<not> authentic demo_ne (addr_of 7) ?b 28 demo_ns" "\<not> authentic demo_ne (addr_of 7) ?s 28 demo_ns"
    using b c d by (simp_all add: authentic_def controllerOf_def)
  have r: "snd (snd (handleConfigChunk demo_ne 1 (addr_of 7) ?b 28 demo_ns)) = Inr 0"
      "snd (snd (handleConfigChunk demo_ne 1 (addr_of 7) ?s 28 demo_ns)) = Inl OutOfBounds"
    using b c d by (simp_all add: handleConfigChunk_def controllerOf_def buf_bytes_def buf_field_def buf_read_def bcap_def)
  obtain n1 o1 r1 where h1: "handleConfigChunk demo_ne 1 (addr_of 7) ?b 28 demo_ns = (n1, o1, r1)" by (metis prod.collapse)
  obtain n2 o2 r2 where h2: "handleConfigChunk demo_ne 1 (addr_of 7) ?s 28 demo_ns = (n2, o2, r2)" by (metis prod.collapse)
  have s: "small ?b" "28 \<le> blen ?b" "small ?s" "28 \<le> blen ?s" and iv: "\<And>a k. length (ne_iv demo_ne a k) = 8"
    by (simp_all add: small_def buf_ok_def bcap_def bsize_def demo_ne_def)
  show ?thesis using config_chunk_rejected [OF ok s(1,2) iv h1] config_chunk_rejected [OF ok s(3,4) iv h2] n r h1 h2 by simp
qed

end
