(* ===== verification/ZT_NetCredentials.thy ===== *)
theory ZT_NetCredentials
  imports ZT_Network
begin

text \<open>
  The exchange of credentials: \<^verbatim>\<open>Membership::pushCredentials\<close>, the ways \<^verbatim>\<open>node/Network.cpp\<close> and
  \<^verbatim>\<open>node/Network.hpp\<close> take a credential and decide to push, \<^verbatim>\<open>Node::ncSendRevocation\<close>, and
  \<^verbatim>\<open>IncomingPacket::_doNETWORK_CREDENTIALS\<close>, which reads what the others write.
\<close>

section \<open>Pushing\<close>

text \<open>The sizes of the objects in memory, which the loops use as bounds, are the compiler's.\<close>

record push_env =
  pu_self :: address
  pu_iv :: "nat \<Rightarrow> u8 list"
  pu_crypto :: pcrypto
  pu_cap :: nat
  pu_tag :: nat
  pu_coo :: nat

fun fill :: "nat \<Rightarrow> ('c \<Rightarrow> zbuf \<Rightarrow> zbuf res) \<Rightarrow> 'c list \<Rightarrow> zbuf \<Rightarrow> nat \<Rightarrow> (zbuf \<times> 'c list \<times> nat) res" where
  "fill sz ser [] b n = Inr (b, [], n)"
| "fill sz ser (c # cs) b n =
     (if unat (blen b) + sz + 16 < 10024 then bind_res (ser c b) (\<lambda>b. fill sz ser cs b (n + 1)) else Inr (b, c # cs, n))"

definition counted :: "nat \<Rightarrow> ('c \<Rightarrow> zbuf \<Rightarrow> zbuf res) \<Rightarrow> 'c list \<Rightarrow> zbuf \<Rightarrow> (zbuf \<times> 'c list) res" where
  "counted sz ser cs b =
     (let pos = blen b in
      bind_res (buf_addSize 2 b) (\<lambda>b. bind_res (fill sz ser cs b 0) (\<lambda>(b, cs, n).
      bind_res (buf_setAt 2 b pos (of_nat n :: u16)) (\<lambda>b. Inr (b, cs)))))"

text \<open>What is still to be sent.\<close>

record to_push =
  tp_com :: "com option"
  tp_caps :: "capability list"
  tp_tags :: "tag list"
  tp_coos :: "coo list"

definition push_packet :: "push_env \<Rightarrow> address \<Rightarrow> nat \<Rightarrow> to_push \<Rightarrow> (zbuf \<times> to_push) res" where
  "push_packet e to i w =
     bind_res (pkt_new (replicate 10024 0) (pu_iv e i) to (pu_self e) VERB_NETWORK_CREDENTIALS) (\<lambda>b.
     bind_res (case tp_com w of Some c \<Rightarrow> com_serialize c b | None \<Rightarrow> Inr b) (\<lambda>b.
     bind_res (buf_append_int 1 (0 :: u8) b) (\<lambda>b.
     bind_res (counted (pu_cap e) (cap_serialize False) (tp_caps w) b) (\<lambda>(b, caps).
     bind_res (counted (pu_tag e) (tag_serialize False) (tp_tags w) b) (\<lambda>(b, tags).
     bind_res (buf_append_int 2 (0 :: u16) b) (\<lambda>b.
     bind_res (counted (pu_coo e) (coo_serialize False) (tp_coos w) b) (\<lambda>(b, coos).
     Inr (b, \<lparr>tp_com = None, tp_caps = caps, tp_tags = tags, tp_coos = coos\<rparr>))))))))"

definition pushed_all :: "to_push \<Rightarrow> bool" where
  "pushed_all w \<longleftrightarrow> tp_com w = None \<and> tp_caps w = [] \<and> tp_tags w = [] \<and> tp_coos w = []"

text \<open>The loop has no bound of its own: a credential that fits no packet would keep it going.\<close>

partial_function (option) push_loop :: "push_env \<Rightarrow> address \<Rightarrow> nat \<Rightarrow> to_push \<Rightarrow> (zbuf list \<times> unit res) option" where
  "push_loop e to i w =
     (if pushed_all w then Some ([], Inr ())
      else case bind_res (push_packet e to i w) (\<lambda>(b, w). bind_res (pkt_compress (pu_crypto e) b) (\<lambda>(_, b). Inr (b, w))) of
        Inl x \<Rightarrow> Some ([], Inl x)
      | Inr (b, w) \<Rightarrow> Option.bind (push_loop e to (i + 1) w) (\<lambda>(bs, r). Some (b # bs, r)))"

definition to_push_of :: "netconf \<Rightarrow> to_push" where
  "to_push_of nc = \<lparr>tp_com = (if com_bool (nc_com nc) then Some (nc_com nc) else None), tp_caps = nc_capabilities nc,
     tp_tags = nc_tags nc, tp_coos = nc_coos nc\<rparr>"

definition pushCredentials :: "push_env \<Rightarrow> u64 \<Rightarrow> address \<Rightarrow> netconf \<Rightarrow> membership \<Rightarrow> (membership \<times> zbuf list \<times> unit res) option" where
  "pushCredentials e now to nc m =
     Option.bind (push_loop e to 0 (to_push_of nc)) (\<lambda>(bs, r).
       Some (case r of Inr _ \<Rightarrow> m\<lparr>mb_lastPushed := now\<rparr> | Inl _ \<Rightarrow> m, bs, r))"

section \<open>Credentials of a network\<close>

definition on_member :: "'s net_env \<Rightarrow> address \<Rightarrow> (membership \<Rightarrow> 'r \<times> membership \<times> address list) \<Rightarrow> 'r \<Rightarrow> netstate \<Rightarrow>
    'r \<times> netstate \<times> net_out list" where
  "on_member e a f dflt n =
     (let t = ht_index (ne_alloc e) hc_addr mb_new a (ns_members n) in
      case ht_get hc_addr t a of
        Some m \<Rightarrow> (case f m of (r, m', ws) \<Rightarrow> (r, set_members (ht_set (ne_alloc e) hc_addr a m' t) n, map Whois ws))
      | None \<Rightarrow> (dflt, set_members t n, []))"

definition nw_addCom :: "'s net_env \<Rightarrow> com \<Rightarrow> netstate \<Rightarrow> add_result \<times> netstate \<times> net_out list" where
  "nw_addCom e c n = (if com_networkId c \<noteq> ns_id n then (Rejected, n, []) else on_member e (com_issuedTo c) (mb_addCom (ne_cred e) c) Rejected n)"

definition nw_addCap :: "'s net_env \<Rightarrow> capability \<Rightarrow> netstate \<Rightarrow> add_result \<times> netstate \<times> net_out list" where
  "nw_addCap e c n = (if cap_nwid c \<noteq> ns_id n then (Rejected, n, []) else on_member e (cap_issuedTo c) (mb_addCap (ne_alloc e) (ne_cred e) c) Rejected n)"

definition nw_addTag :: "'s net_env \<Rightarrow> tag \<Rightarrow> netstate \<Rightarrow> add_result \<times> netstate \<times> net_out list" where
  "nw_addTag e t n = (if tag_nwid t \<noteq> ns_id n then (Rejected, n, []) else on_member e (tag_issuedTo t) (mb_addTag (ne_alloc e) (ne_cred e) t) Rejected n)"

definition nw_addCoo :: "'s net_env \<Rightarrow> coo \<Rightarrow> netstate \<Rightarrow> add_result \<times> netstate \<times> net_out list" where
  "nw_addCoo e c n = (if coo_nwid c \<noteq> ns_id n then (Rejected, n, []) else on_member e (coo_issuedTo c) (mb_addCoo (ne_alloc e) (ne_cred e) c) Rejected n)"

definition revocation_packet :: "address \<Rightarrow> u8 list \<Rightarrow> revocation \<Rightarrow> address \<Rightarrow> zbuf res" where
  "revocation_packet self iv r a =
     bind_res (pkt_new (replicate 10024 0) iv a self VERB_NETWORK_CREDENTIALS)
       (write_all [buf_append_int 1 (0 :: u8), buf_append_int 2 (0 :: u16), buf_append_int 2 (0 :: u16), buf_append_int 2 (1 :: u16),
          rev_serialize False r, buf_append_int 2 (0 :: u16)])"

text \<open>A new revocation that asks for it goes on to the other members.\<close>

definition nw_addRev :: "'s net_env \<Rightarrow> address \<Rightarrow> revocation \<Rightarrow> netstate \<Rightarrow> (add_result \<times> netstate \<times> net_out list) \<times> unit res" where
  "nw_addRev e source r n =
     (if rev_nwid r \<noteq> ns_id n then ((Rejected, n, []), Inr ())
      else case on_member e (rev_target r) (mb_addRev (ne_alloc e) (ne_cred e) r) Rejected n of
        (res, n, out) \<Rightarrow>
          if res = AcceptedNew \<and> rev_fastPropagate r then
            (case send_all (\<lambda>a. revocation_packet (ne_self e) (ne_iv e a 0) r a)
                (filter (\<lambda>a. a \<noteq> source \<and> a \<noteq> rev_signedBy r) (member_list n)) of
               (out', x) \<Rightarrow> ((res, n, out @ out'), x))
          else ((res, n, out), Inr ()))"

section \<open>The networks of a node\<close>

type_synonym nets = "u64 \<rightharpoonup> netstate"

definition ncSendRevocation :: "'s net_env \<Rightarrow> address \<Rightarrow> revocation \<Rightarrow> nets \<Rightarrow> nets \<times> net_out list \<times> unit res" where
  "ncSendRevocation e dest r ns =
     (if dest = ne_self e then
        (case ns (rev_nwid r) of
           None \<Rightarrow> (ns, [], Inr ())
         | Some n \<Rightarrow> (case nw_addRev e (ne_self e) r n of ((_, n, out), x) \<Rightarrow> (ns(rev_nwid r \<mapsto> n), out, x)))
      else case revocation_packet (ne_self e) (ne_iv e dest 0) r dest of
        Inl x \<Rightarrow> (ns, [], Inl x) | Inr b \<Rightarrow> (ns, [NetSend b], Inr ()))"

section \<open>Taking credentials from a packet\<close>

text \<open>The networks, the network found last, and whether a credential was accepted.\<close>

record take_state =
  tk_nets :: nets
  tk_cur :: "u64 option"
  tk_trust :: bool

text \<open>One credential. \<open>True\<close> says the packet must wait for an identity.\<close>

definition offer :: "u64 \<Rightarrow> (netstate \<Rightarrow> (add_result \<times> netstate \<times> net_out list) \<times> unit res) \<Rightarrow> take_state \<Rightarrow>
    take_state \<times> net_out list \<times> bool res" where
  "offer w add s =
     (let cur = (if tk_nets s w = None then None else Some w); s = s\<lparr>tk_cur := cur\<rparr> in
      case tk_nets s w of
        None \<Rightarrow> (s, [], Inr False)
      | Some n \<Rightarrow>
          (case add n of ((r, n, out), x) \<Rightarrow>
             (let s = s\<lparr>tk_nets := (tk_nets s)(w \<mapsto> n)\<rparr> in
              case x of Inl y \<Rightarrow> (s, out, Inl y)
              | Inr _ \<Rightarrow>
                 (case r of
                    Rejected \<Rightarrow> (s, out, Inr False)
                  | DeferredForWhois \<Rightarrow> (s, out, Inr True)
                  | _ \<Rightarrow> (s\<lparr>tk_trust := True\<rparr>, out, Inr False)))))"

definition plain :: "(netstate \<Rightarrow> add_result \<times> netstate \<times> net_out list) \<Rightarrow> netstate \<Rightarrow> (add_result \<times> netstate \<times> net_out list) \<times> unit res" where
  "plain add n = (add n, Inr ())"

text \<open>\<open>None\<close> for the position stands for the early return of a deferred packet.\<close>

definition then_take :: "take_state \<times> net_out list \<times> 'a option res \<Rightarrow> (take_state \<Rightarrow> 'a \<Rightarrow> take_state \<times> net_out list \<times> 'b option res) \<Rightarrow>
    take_state \<times> net_out list \<times> 'b option res" where
  "then_take r f =
     (case r of (s, out, Inl x) \<Rightarrow> (s, out, Inl x) | (s, out, Inr None) \<Rightarrow> (s, out, Inr None)
      | (s, out, Inr (Some a)) \<Rightarrow> (case f s a of (s, out', r) \<Rightarrow> (s, out @ out', r)))"

definition offer_at :: "u32 \<Rightarrow> u64 \<Rightarrow> (netstate \<Rightarrow> (add_result \<times> netstate \<times> net_out list) \<times> unit res) \<Rightarrow> take_state \<Rightarrow>
    take_state \<times> net_out list \<times> u32 option res" where
  "offer_at q w add s = (case offer w add s of (s, out, r) \<Rightarrow>
     (s, out, case r of Inl x \<Rightarrow> Inl x | Inr deferred \<Rightarrow> Inr (if deferred then None else Some q)))"

fun take_creds :: "(zbuf \<Rightarrow> u32 \<Rightarrow> ('c \<times> u32) res) \<Rightarrow> ('c \<Rightarrow> u64) \<Rightarrow> ('c \<Rightarrow> netstate \<Rightarrow> (add_result \<times> netstate \<times> net_out list) \<times> unit res) \<Rightarrow>
    nat \<Rightarrow> zbuf \<Rightarrow> u32 \<Rightarrow> take_state \<Rightarrow> take_state \<times> net_out list \<times> u32 option res" where
  "take_creds des nwid add 0 b p s = (s, [], Inr (Some p))"
| "take_creds des nwid add (Suc n) b p s =
     (case des b p of
        Inl x \<Rightarrow> (s, [], Inl x)
      | Inr (c, l) \<Rightarrow> then_take (offer_at (p + l) (nwid c) (add c) s) (\<lambda>s p. take_creds des nwid add n b p s))"

text \<open>The certificates, up to a zero byte; each is read into the same object.\<close>

partial_function (option) take_coms :: "'s net_env \<Rightarrow> u8 list \<Rightarrow> zbuf \<Rightarrow> u32 \<Rightarrow> take_state \<Rightarrow> (take_state \<times> net_out list \<times> u32 option res) option" where
  "take_coms e old b p s =
     (if \<not> p < blen b then Some (s, [], Inr (Some p))
      else case buf_get b p of
        Inl x \<Rightarrow> Some (s, [], Inl x)
      | Inr v \<Rightarrow>
          if v = 0 then Some (s, [], Inr (Some p))
          else (case com_deserialize old b p of
              Inl x \<Rightarrow> Some (s, [], Inl x)
            | Inr (c, l) \<Rightarrow>
                (case (if com_bool c then offer_at (p + l) (com_networkId c) (plain (nw_addCom e c)) s else (s, [], Inr (Some (p + l)))) of
                   (s, out, Inr (Some q)) \<Rightarrow> Option.bind (take_coms e (com_sig c) b q s) (\<lambda>(s, out', r). Some (s, out @ out', r))
                 | (s, out, r) \<Rightarrow> Some (s, out, r))))"

definition take_counted :: "(zbuf \<Rightarrow> u32 \<Rightarrow> ('c \<times> u32) res) \<Rightarrow> ('c \<Rightarrow> u64) \<Rightarrow> ('c \<Rightarrow> netstate \<Rightarrow> (add_result \<times> netstate \<times> net_out list) \<times> unit res) \<Rightarrow>
    zbuf \<Rightarrow> u32 \<Rightarrow> take_state \<Rightarrow> take_state \<times> net_out list \<times> u32 option res" where
  "take_counted des nwid add b p s =
     (case buf_at 2 b p of Inl x \<Rightarrow> (s, [], Inl x) | Inr (n :: u16) \<Rightarrow> take_creds des nwid add (unat n) b (p + 2) s)"

text \<open>
  How the handler ends: waiting for an identity, a packet cut short after one of its lists, or
  with the news for the peer.
\<close>

datatype cred_end = CredWait | CredShort | CredDone

definition unless_short :: "zbuf \<Rightarrow> u32 \<Rightarrow> take_state \<Rightarrow> (take_state \<times> net_out list \<times> cred_end option res) \<Rightarrow> take_state \<times> net_out list \<times> cred_end option res" where
  "unless_short b p s k = (if \<not> p < blen b then (s, [], Inr (Some CredShort)) else k)"

definition take_lists :: "'s net_env \<Rightarrow> address \<Rightarrow> zbuf \<Rightarrow> take_state \<Rightarrow> u32 \<Rightarrow> take_state \<times> net_out list \<times> cred_end option res" where
  "take_lists e from b s p =
     (if \<not> p < blen b then (s, [], Inr (Some CredDone))
      else then_take (take_counted cap_deserialize cap_nwid (\<lambda>c. plain (nw_addCap e c)) b p s) (\<lambda>s p. unless_short b p s (
           then_take (take_counted tag_deserialize tag_nwid (\<lambda>c. plain (nw_addTag e c)) b p s) (\<lambda>s p. unless_short b p s (
           then_take (take_counted rev_deserialize rev_nwid (\<lambda>r. nw_addRev e from r) b p s) (\<lambda>s p. unless_short b p s (
           then_take (take_counted coo_deserialize coo_nwid (\<lambda>c. plain (nw_addCoo e c)) b p s) (\<lambda>s p.
             (s, [], Inr (Some CredDone))))))))))"

definition take_credentials :: "'s net_env \<Rightarrow> address \<Rightarrow> zbuf \<Rightarrow> nets \<Rightarrow> (take_state \<times> net_out list \<times> cred_end res) option" where
  "take_credentials e from b ns =
     Option.bind (take_coms e (replicate 96 0) b 28 \<lparr>tk_nets = ns, tk_cur = None, tk_trust = False\<rparr>) (\<lambda>r.
       Some (case then_take r (\<lambda>s p. take_lists e from b s (p + 1)) of
         (s, out, Inl x) \<Rightarrow> (s, out, Inl x)
       | (s, out, Inr None) \<Rightarrow> (s, out, Inr CredWait)
       | (s, out, Inr (Some c)) \<Rightarrow> (s, out, Inr c)))"

text \<open>The whole handler: the peer's rate limit first, and the peer hears of the packet when it is through.\<close>

definition doNETWORK_CREDENTIALS :: "'s net_env \<Rightarrow> peer_env \<Rightarrow> nat \<Rightarrow> zbuf \<Rightarrow> nets \<Rightarrow> peer \<times> path_store \<Rightarrow>
    (nets \<times> (peer \<times> path_store) \<times> (net_out + peer_out) list \<times> bool res) option" where
  "doNETWORK_CREDENTIALS e pe path b ns st =
     (case st of (p, h) \<Rightarrow>
      case rateGateCredentialsReceived (pe_now pe) p of
        (False, p) \<Rightarrow> Some (ns, (p, h), [], Inr True)
      | (True, p) \<Rightarrow>
          Option.bind (take_credentials e (id_address (pr_id p)) b ns) (\<lambda>(s, out, r). Some
            (case r of
               Inl x \<Rightarrow> (tk_nets s, (p, h), map Inl out, Inl x)
             | Inr CredWait \<Rightarrow> (tk_nets s, (p, h), map Inl out, Inr False)
             | Inr CredShort \<Rightarrow> (tk_nets s, (p, h), map Inl out, Inr True)
             | Inr CredDone \<Rightarrow>
                 (case pkt_hops b of
                    Inl x \<Rightarrow> (tk_nets s, (p, h), map Inl out, Inl x)
                  | Inr hops \<Rightarrow>
                      (case peer_received pe path hops VERB_NETWORK_CREDENTIALS (tk_trust s) (p, h) of
                         (st', out') \<Rightarrow> (tk_nets s, st', map Inl out @ map Inr out', Inr True))))))"

section \<open>When to push\<close>

definition push_if :: "(u64 \<Rightarrow> bool) \<Rightarrow> 's net_env \<Rightarrow> push_env \<Rightarrow> address \<Rightarrow> netstate \<Rightarrow> (netstate \<times> net_out list \<times> unit res) option" where
  "push_if due e pu to n =
     (let t = ht_index (ne_alloc e) hc_addr mb_new to (ns_members n); n = set_members t n in
      case ht_get hc_addr t to of
        None \<Rightarrow> Some (n, [], Inr ())
      | Some m \<Rightarrow>
          if due (mb_lastPushed m) then
            Option.bind (pushCredentials pu (ne_now e) to (ns_config n) m) (\<lambda>(m', bs, r).
              Some (set_members (ht_set (ne_alloc e) hc_addr to m' t) n, map NetSend bs, r))
          else Some (n, [], Inr ()))"

definition peerRequestedCredentials :: "'s net_env \<Rightarrow> push_env \<Rightarrow> address \<Rightarrow> netstate \<Rightarrow> (netstate \<times> net_out list \<times> unit res) option" where
  "peerRequestedCredentials e pu to n = push_if (\<lambda>last. last <s ns_lastUpdate n \<or> 1000 <s ne_now e - last) e pu to n"

text \<open>The activity timeout is a build-time constant, here an argument.\<close>

definition pushCredentialsIfNeeded :: "u64 \<Rightarrow> 's net_env \<Rightarrow> push_env \<Rightarrow> address \<Rightarrow> netstate \<Rightarrow> (netstate \<times> net_out list \<times> unit res) option" where
  "pushCredentialsIfNeeded timeout e pu to n = push_if (\<lambda>last. last <s ns_lastUpdate n \<or> timeout <s ne_now e - last) e pu to n"

section \<open>What is pushed\<close>

text \<open>A list behind its count.\<close>

definition enc_list :: "('c \<Rightarrow> u8 list) \<Rightarrow> 'c list \<Rightarrow> u8 list" where
  "enc_list enc cs = be_bytes 2 (of_nat (length cs) :: u16) @ concat (map enc cs)"

lemma fill_spec:
  assumes "\<forall>c\<in>set cs. appends (ser c) (enc c) \<and> length (enc c) \<le> sz" "small b" "bcap b = 10024"
  shows "\<exists>b' sent rest. fill sz ser cs b n = Inr (b', rest, n + length sent) \<and> cs = sent @ rest \<and> grown b (concat (map enc sent)) b' \<and>
    (cs \<noteq> [] \<and> bsize b + sz + 16 < 10024 \<longrightarrow> sent \<noteq> []) \<and> bsize b' \<le> max (bsize b) 10008"
  using assms
proof (induction cs arbitrary: b n)
  case Nil
  then show ?case by (auto simp: grown_def)
next
  case (Cons c cs)
  show ?case
  proof (cases "unat (blen b) + sz + 16 < 10024")
    case True
    have c: "appends (ser c) (enc c)" "length (enc c) \<le> sz" using Cons.prems(1) by auto
    have "fits b (enc c)" using True c(2) Cons.prems(3) by (simp add: fits_def bsize_def)
    then obtain b1 where b1: "ser c b = Inr b1" "grown b (enc c) b1" using appendsD(1) [OF c(1) Cons.prems(2)] by blast
    have s1: "small b1" "bcap b1 = 10024" "bsize b1 = bsize b + length (enc c)"
      using b1(2) Cons.prems(2,3) grown_bsize [OF Cons.prems(2) b1(2)] by (simp_all add: grown_def)
    obtain b' sent rest where ih: "fill sz ser cs b1 (n + 1) = Inr (b', rest, n + 1 + length sent)" "cs = sent @ rest"
        "grown b1 (concat (map enc sent)) b'" "bsize b' \<le> max (bsize b1) 10008"
      using Cons.IH [OF _ s1(1,2), of "n + 1"] Cons.prems(1) by auto
    have "bsize b' \<le> max (bsize b) 10008" using ih(4) s1(3) c(2) True by (simp add: bsize_def)
    moreover have "grown b (concat (map enc (c # sent))) b'" using grown_trans [OF b1(2) ih(3)] by simp
    ultimately show ?thesis using True b1(1) ih(1,2) by (intro exI [of _ b'] exI [of _ "c # sent"] exI [of _ rest]) simp
  next
    case False
    then show ?thesis using Cons.prems(2) by (auto simp: grown_def bsize_def)
  qed
qed

lemma counted_spec:
  assumes "\<forall>c\<in>set cs. appends (ser c) (enc c) \<and> length (enc c) \<le> sz" "small b" "bcap b = 10024" "bsize b + 2 \<le> 10024" "length cs < 2 ^ 16"
  shows "\<exists>b' sent rest. counted sz ser cs b = Inr (b', rest) \<and> cs = sent @ rest \<and> grown b (enc_list enc sent) b' \<and>
    (cs \<noteq> [] \<and> bsize b + sz + 18 < 10024 \<longrightarrow> sent \<noteq> []) \<and> bsize b' \<le> max (bsize b + 2) 10008"
proof -
  let ?b1 = "b\<lparr>blen := blen b + 2\<rparr>"
  have u: "unat (blen b + 2) = bsize b + 2" using assms(4) by (simp add: bsize_def unat_word_ariths)
  have cap: "unat (bcap32 b) = 10024" using assms(3) by (simp add: bcap32_def)
  have a: "buf_addSize 2 b = Inr ?b1" using u cap assms(4) by (simp add: buf_addSize_def word_less_nat_alt add.commute)
  have s1: "small ?b1" "bcap ?b1 = 10024" "bsize ?b1 = bsize b + 2"
    using u assms(2-4) by (simp_all add: small_def buf_ok_def bsize_def bcap_def)
  obtain b2 sent rest where f: "fill sz ser cs ?b1 0 = Inr (b2, rest, 0 + length sent)" "cs = sent @ rest" "grown ?b1 (concat (map enc sent)) b2"
      "cs \<noteq> [] \<and> bsize ?b1 + sz + 16 < 10024 \<longrightarrow> sent \<noteq> []" "bsize b2 \<le> max (bsize ?b1) 10008"
    using fill_spec [OF assms(1) s1(1,2), of 0] by blast
  obtain x y where xy: "bdata ?b1 = bdata b @ [x, y]"
  proof -
    have "bdata ?b1 = take (bsize b + 2) (bmem b)" unfolding bdata_def s1(3) by simp
    then have "bdata ?b1 = take (bsize b) (bmem b) @ take 2 (drop (bsize b) (bmem b))" by (simp only: take_add)
    moreover have "length (take 2 (drop (bsize b) (bmem b))) = 2" using assms(3,4) by (simp add: bcap_def)
    then have "\<exists>x y. take 2 (drop (bsize b) (bmem b)) = [x, y]"
      unfolding numeral_2_eq_2 length_Suc_conv by auto
    ultimately show ?thesis using that by (auto simp: bdata_def)
  qed
  have g: "small b2" "bcap b2 = 10024" "bdata b2 = bdata b @ [x, y] @ concat (map enc sent)" using f(3) xy s1(2) by (simp_all add: grown_def)
  have i: "unat (blen b) = length (bdata b)" using assms(2) by (simp add: bsize_def)
  obtain b3 where b3: "buf_setAt 2 b2 (blen b) (of_nat (length sent) :: u16) = Inr b3" "small b3" "bcap b3 = bcap b2"
      "bdata b3 = bdata b @ be_bytes 2 (of_nat (length sent) :: u16) @ concat (map enc sent)"
    using setAt_data [OF g(1,3) _ i, of 2] by auto
  have "bsize b3 = bsize b2" using small_length [OF b3(2)] small_length [OF g(1)] b3(4) g(3) by simp
  moreover have "counted sz ser cs b = Inr (b3, rest)" unfolding counted_def Let_def a bind_res_simps f(1) by (simp add: b3(1))
  moreover have "grown b (enc_list enc sent) b3" using b3(2-4) g(2) assms(3) by (simp add: grown_def enc_list_def)
  ultimately show ?thesis using f(2,4,5) s1(3) by (intro exI [of _ b3] exI [of _ sent] exI [of _ rest]) simp
qed

lemma be2_zero: "be_bytes 2 (0 :: u16) = [0, 0]"
  by code_simp

definition com_list :: "to_push \<Rightarrow> com list" where
  "com_list w = (case tp_com w of Some c \<Rightarrow> [c] | None \<Rightarrow> [])"

definition cred_payload :: "to_push \<Rightarrow> u8 list" where
  "cred_payload w = concat (map com_enc (com_list w)) @ [0] @ enc_list (cap_enc False) (tp_caps w) @ enc_list (tag_enc False) (tp_tags w) @
     [0, 0] @ enc_list (coo_enc False) (tp_coos w)"

text \<open>Well-formed credentials that fit the bounds the loops use.\<close>

definition push_ok :: "push_env \<Rightarrow> to_push \<Rightarrow> bool" where
  "push_ok e w \<longleftrightarrow>
     (\<forall>c\<in>set (com_list w). com_ok c \<and> addr_bool (com_signedBy c) \<and> com_bool c) \<and>
     (\<forall>c\<in>set (tp_caps w). cap_ok c \<and> length (cap_enc False c) \<le> pu_cap e) \<and> length (tp_caps w) < 2 ^ 16 \<and>
     (\<forall>t\<in>set (tp_tags w). tag_ok t) \<and> length (tp_tags w) < 2 ^ 16 \<and>
     (\<forall>c\<in>set (tp_coos w). coo_ok c \<and> length (coo_enc False c) \<le> pu_coo e) \<and> length (tp_coos w) < 2 ^ 16"

definition push_sizes :: "push_env \<Rightarrow> bool" where
  "push_sizes e \<longleftrightarrow> pu_cap e < 9900 \<and> 135 \<le> pu_tag e \<and> pu_tag e < 9900 \<and> pu_coo e < 9900 \<and> (\<forall>i. length (pu_iv e i) = 8)"

definition joins :: "to_push \<Rightarrow> to_push list \<Rightarrow> bool" where
  "joins w ps \<longleftrightarrow> com_list w = concat (map com_list ps) \<and> tp_caps w = concat (map tp_caps ps) \<and>
     tp_tags w = concat (map tp_tags ps) \<and> tp_coos w = concat (map tp_coos ps)"

definition push_size :: "to_push \<Rightarrow> nat" where
  "push_size w = length (com_list w) + length (tp_caps w) + length (tp_tags w) + length (tp_coos w)"

lemma joins_cons: "joins w [p, w'] \<Longrightarrow> joins w' ps \<Longrightarrow> joins w (p # ps)"
  by (simp add: joins_def)

lemma push_ok_part: "joins w [p, w'] \<Longrightarrow> push_ok e w \<Longrightarrow> push_ok e p \<and> push_ok e w'"
  by (auto simp: joins_def push_ok_def)

lemma push_packet_spec:
  assumes ok: "push_ok e w" "push_sizes e" "\<not> pushed_all w"
  shows "\<exists>b p w'. push_packet e to i w = Inr (b, w') \<and> joins w [p, w'] \<and> push_size w' < push_size w \<and>
    small b \<and> 28 \<le> bsize b \<and> pkt_compressed b = Inr False \<and> drop 28 (bdata b) = cred_payload p"
proof -
  have iv: "length (pu_iv e i) = 8" using ok(2) by (simp add: push_sizes_def)
  obtain b0 where b0: "pkt_new (replicate 10024 0) (pu_iv e i) to (pu_self e) VERB_NETWORK_CREDENTIALS = Inr b0" "small b0" "bcap b0 = 10024" "blen b0 = 28"
      "bdata b0 ! 27 = verb_code VERB_NETWORK_CREDENTIALS"
    using pkt_new_small [OF iv, of "replicate 10024 0" to "pu_self e" VERB_NETWORK_CREDENTIALS] by auto
  have s0: "bsize b0 = 28" using b0(4) by (simp add: bsize_def)
  let ?com = "concat (map com_enc (com_list w))"
  obtain b1 where b1: "(case tp_com w of Some c \<Rightarrow> com_serialize c b0 | None \<Rightarrow> Inr b0) = Inr b1" "grown b0 ?com b1" "length ?com \<le> 300"
  proof (cases "tp_com w")
    case None
    then show ?thesis using that [of b0] b0(2) by (simp add: com_list_def grown_def)
  next
    case (Some c)
    have c: "com_ok c" using ok(1) Some by (simp add: push_ok_def com_list_def)
    have l: "length (com_enc c) \<le> 300" using c by (simp add: com_enc_def com_ok_def)
    then have "fits b0 (com_enc c)" using s0 b0(3) by (simp add: fits_def)
    from appendsD(1) [OF appends_com [OF c] b0(2) this] l show ?thesis using that Some by (auto simp: com_list_def)
  qed
  have s1: "small b1" "bcap b1 = 10024" "bsize b1 = 28 + length ?com" using b1(2) b0(3) s0 grown_bsize [OF b0(2) b1(2)] by (simp_all add: grown_def)
  have "fits b1 (be_bytes 1 (0 :: u8))" using s1 b1(3) by (simp add: fits_def)
  then obtain b2 where b2: "buf_append_int 1 (0 :: u8) b1 = Inr b2" "grown b1 [0] b2"
    using appendsD(1) [OF appends_int [of 1 "0 :: u8"] s1(1)] by (auto simp: be_bytes_eval)
  have s2: "small b2" "bcap b2 = 10024" "bsize b2 = 29 + length ?com" using b2(2) s1 grown_bsize [OF s1(1) b2(2)] by (simp_all add: grown_def)
  have sz: "pu_cap e < 9900" "135 \<le> pu_tag e" "pu_tag e < 9900" "pu_coo e < 9900" using ok(2) by (simp_all add: push_sizes_def)
  have len: "length (tp_caps w) < 2 ^ 16" "length (tp_tags w) < 2 ^ 16" "length (tp_coos w) < 2 ^ 16" using ok(1) by (simp_all add: push_ok_def)
  have r2: "bsize b2 + 2 \<le> 10024" using s2(3) b1(3) by simp
  have caps: "\<forall>c\<in>set (tp_caps w). appends (cap_serialize False c) (cap_enc False c) \<and> length (cap_enc False c) \<le> pu_cap e"
    using ok(1) appends_cap by (auto simp: push_ok_def)
  obtain b3 caps1 caps2 where b3: "counted (pu_cap e) (cap_serialize False) (tp_caps w) b2 = Inr (b3, caps2)" "tp_caps w = caps1 @ caps2"
      "grown b2 (enc_list (cap_enc False) caps1) b3" "tp_caps w \<noteq> [] \<and> bsize b2 + pu_cap e + 18 < 10024 \<longrightarrow> caps1 \<noteq> []" "bsize b3 \<le> max (bsize b2 + 2) 10008"
    using counted_spec [OF caps s2(1,2) r2 len(1)] by blast
  have s3: "small b3" "bcap b3 = 10024" "bsize b3 = bsize b2 + length (enc_list (cap_enc False) caps1)" "bsize b3 \<le> 10008"
    using b3(3,5) s2 b1(3) grown_bsize [OF s2(1) b3(3)] by (simp_all add: grown_def)
  have r3: "bsize b3 + 2 \<le> 10024" using s3(4) by simp
  have tags: "\<forall>c\<in>set (tp_tags w). appends (tag_serialize False c) (tag_enc False c) \<and> length (tag_enc False c) \<le> pu_tag e"
    using ok(1) appends_tag length_tag_enc sz(2) by (auto simp: push_ok_def)
  obtain b4 tags1 tags2 where b4: "counted (pu_tag e) (tag_serialize False) (tp_tags w) b3 = Inr (b4, tags2)" "tp_tags w = tags1 @ tags2"
      "grown b3 (enc_list (tag_enc False) tags1) b4" "tp_tags w \<noteq> [] \<and> bsize b3 + pu_tag e + 18 < 10024 \<longrightarrow> tags1 \<noteq> []" "bsize b4 \<le> max (bsize b3 + 2) 10008"
    using counted_spec [OF tags s3(1,2) r3 len(2)] by blast
  have s4: "small b4" "bcap b4 = 10024" "bsize b4 = bsize b3 + length (enc_list (tag_enc False) tags1)" "bsize b4 \<le> 10010"
    using b4(3,5) s3 grown_bsize [OF s3(1) b4(3)] by (simp_all add: grown_def)
  have "fits b4 (be_bytes 2 (0 :: u16))" using s4 by (simp add: fits_def)
  then obtain b5 where b5: "buf_append_int 2 (0 :: u16) b4 = Inr b5" "grown b4 (be_bytes 2 (0 :: u16)) b5"
    using appendsD(1) [OF appends_int [of 2 "0 :: u16"] s4(1)] by blast
  have s5: "small b5" "bcap b5 = 10024" "bsize b5 = bsize b4 + 2" using b5(2) s4 grown_bsize [OF s4(1) b5(2)] by (simp_all add: grown_def)
  have r5: "bsize b5 + 2 \<le> 10024" using s5(3) s4(4) by simp
  have coos: "\<forall>c\<in>set (tp_coos w). appends (coo_serialize False c) (coo_enc False c) \<and> length (coo_enc False c) \<le> pu_coo e"
    using ok(1) appends_coo by (auto simp: push_ok_def)
  obtain b6 coos1 coos2 where b6: "counted (pu_coo e) (coo_serialize False) (tp_coos w) b5 = Inr (b6, coos2)" "tp_coos w = coos1 @ coos2"
      "grown b5 (enc_list (coo_enc False) coos1) b6" "tp_coos w \<noteq> [] \<and> bsize b5 + pu_coo e + 18 < 10024 \<longrightarrow> coos1 \<noteq> []"
    using counted_spec [OF coos s5(1,2) r5 len(3)] by blast
  let ?p = "\<lparr>tp_com = tp_com w, tp_caps = caps1, tp_tags = tags1, tp_coos = coos1\<rparr>"
  let ?w = "\<lparr>tp_com = None, tp_caps = caps2, tp_tags = tags2, tp_coos = coos2\<rparr>"
  have s6: "small b6" "28 \<le> bsize b6" using b6(3) grown_bsize [OF s5(1) b6(3)] s5(3) s4(3) s3(3) s2(3) by (simp_all add: grown_def)
  have d: "bdata b6 = bdata b0 @ cred_payload ?p"
    using b1(2) b2(2) b3(3) b4(3) b5(2) b6(3) by (simp add: grown_def cred_payload_def com_list_def be2_zero)
  have l0: "length (bdata b0) = 28" using b0(2) s0 by simp
  have "at_pos b6 0 (bdata b6)" using s6(1) by (simp add: at_pos_def)
  then have "buf_get b6 27 = Inr (bdata b6 ! 27)" using at_pos_get [of b6 0 "bdata b6" 27] s6 by simp
  also have "bdata b6 ! 27 = verb_code VERB_NETWORK_CREDENTIALS" unfolding d using l0 b0(5) by (simp add: nth_append)
  finally have cz: "pkt_compressed b6 = Inr False" by (simp add: pkt_compressed_def)
  have pk: "push_packet e to i w = Inr (b6, ?w)"
    unfolding push_packet_def b0(1) bind_res_simps b1(1) b2(1) b3(1) prod.case b4(1) b5(1) b6(1) ..
  have j: "joins w [?p, ?w]" using b3(2) b4(2) b6(2) by (simp add: joins_def com_list_def)
  have sz': "push_size w = push_size ?w + length (com_list w) + length caps1 + length tags1 + length coos1"
    using b3(2) b4(2) b6(2) by (simp add: push_size_def com_list_def)
  have "com_list w \<noteq> [] \<or> caps1 \<noteq> [] \<or> tags1 \<noteq> [] \<or> coos1 \<noteq> []"
  proof (rule ccontr)
    assume "\<not> ?thesis"
    then have n: "com_list w = []" "caps1 = []" "tags1 = []" "coos1 = []" by auto
    have "tp_caps w = []" using b3(4) n(1,2) s2(3) sz(1) by auto
    moreover have "tp_tags w = []" using b4(4) n s3(3) s2(3) sz(3) by (auto simp: enc_list_def)
    moreover have "tp_coos w = []" using b6(4) n s5(3) s4(3) s3(3) s2(3) sz(4) by (auto simp: enc_list_def)
    ultimately show False using n(1) ok(3) by (auto simp: pushed_all_def com_list_def split: option.splits)
  qed
  then have "push_size ?w < push_size w" using sz' by (auto simp: length_greater_0_conv [symmetric] simp del: length_greater_0_conv)
  then show ?thesis using pk j s6 cz d l0 by (intro exI [of _ b6] exI [of _ ?p] exI [of _ ?w]) simp
qed

lemma push_loop_spec:
  assumes "push_ok e w" "push_sizes e" "lz_law (pu_crypto e)"
  shows "\<exists>bs ps. push_loop e to i w = Some (bs, Inr ()) \<and> joins w ps \<and> (\<forall>p\<in>set ps. push_ok e p) \<and>
    list_all2 (\<lambda>p b'. \<exists>b. pkt_uncompress (pu_crypto e) b' = Inr (True, b) \<and> small b \<and> 28 \<le> bsize b \<and> drop 28 (bdata b) = cred_payload p) ps bs"
  using assms(1)
proof (induction "push_size w" arbitrary: w i rule: less_induct)
  case less
  show ?case
  proof (cases "pushed_all w")
    case True
    then show ?thesis by (subst push_loop.simps) (auto simp: pushed_all_def joins_def com_list_def intro!: exI [of _ "[]"])
  next
    case False
    obtain b p w' where pk: "push_packet e to i w = Inr (b, w')" "joins w [p, w']" "push_size w' < push_size w" "small b" "28 \<le> bsize b"
        "pkt_compressed b = Inr False" "drop 28 (bdata b) = cred_payload p"
      using push_packet_spec [OF less.prems assms(2) False] by blast
    obtain did b1 b2 where z: "pkt_compress (pu_crypto e) b = Inr (did, b1)" "pkt_uncompress (pu_crypto e) b1 = Inr (True, b2)" "bdata b2 = bdata b" "small b2"
      using compress_uncompress [OF pk(4,5) assms(3) pk(6)] by blast
    have s2: "bsize b2 = bsize b" using z(3,4) small_length [of b2] small_length [OF pk(4)] by simp_all
    have part: "push_ok e p" "push_ok e w'" using push_ok_part [OF pk(2) less.prems] by simp_all
    obtain bs ps where ih: "push_loop e to (i + 1) w' = Some (bs, Inr ())" "joins w' ps" "\<forall>p\<in>set ps. push_ok e p"
        "list_all2 (\<lambda>p b'. \<exists>b. pkt_uncompress (pu_crypto e) b' = Inr (True, b) \<and> small b \<and> 28 \<le> bsize b \<and> drop 28 (bdata b) = cred_payload p) ps bs"
      using less.hyps [OF pk(3) part(2)] by blast
    have "push_loop e to i w = Some (b1 # bs, Inr ())" using False pk(1) z(1) ih(1) by (subst push_loop.simps) simp
    then show ?thesis using joins_cons [OF pk(2) ih(2)] part(1) ih(3,4) z(2-4) s2 pk(5,7)
      by (intro exI [of _ "b1 # bs"] exI [of _ "p # ps"]) auto
  qed
qed

section \<open>What is taken\<close>

fun offer_all :: "('c \<Rightarrow> u64) \<Rightarrow> ('c \<Rightarrow> netstate \<Rightarrow> (add_result \<times> netstate \<times> net_out list) \<times> unit res) \<Rightarrow> 'c list \<Rightarrow> take_state \<Rightarrow>
    take_state \<times> net_out list \<times> unit option res" where
  "offer_all nwid add [] s = (s, [], Inr (Some ()))"
| "offer_all nwid add (c # cs) s = then_take (offer_at 0 (nwid c) (add c) s) (\<lambda>s _. offer_all nwid add cs s)"

text \<open>
  What the credentials of a packet do to the networks, one after the other, until one has to wait:
  certificates of membership, capabilities, tags, then certificates of ownership.
\<close>

definition offer_part :: "'s net_env \<Rightarrow> to_push \<Rightarrow> nets \<Rightarrow> take_state \<times> net_out list \<times> unit option res" where
  "offer_part e p ns =
     then_take (offer_all com_networkId (\<lambda>c. plain (nw_addCom e c)) (com_list p) \<lparr>tk_nets = ns, tk_cur = None, tk_trust = False\<rparr>) (\<lambda>s _.
     then_take (offer_all cap_nwid (\<lambda>c. plain (nw_addCap e c)) (tp_caps p) s) (\<lambda>s _.
     then_take (offer_all tag_nwid (\<lambda>c. plain (nw_addTag e c)) (tp_tags p) s) (\<lambda>s _.
     offer_all coo_nwid (\<lambda>c. plain (nw_addCoo e c)) (tp_coos p) s)))"

definition with_end :: "'b \<Rightarrow> take_state \<times> net_out list \<times> 'a option res \<Rightarrow> take_state \<times> net_out list \<times> 'b option res" where
  "with_end q r = then_take r (\<lambda>s _. (s, [], Inr (Some q)))"

lemma then_take_assoc: "then_take (then_take r f) g = then_take r (\<lambda>s a. then_take (f s a) g)"
  by (auto simp: then_take_def split: sum.splits option.splits prod.splits)

lemma then_take_at: "then_take (offer_at q w add s) f = then_take (offer_at q' w add s) (\<lambda>s _. f s q)"
  by (auto simp: then_take_def offer_at_def split: sum.splits option.splits prod.splits)

lemma then_take_unit [simp]: "then_take (s, [], Inr (Some a)) f = f s a"
  by (simp add: then_take_def)

lemma with_end_all: "then_take (with_end q r) f = then_take r (\<lambda>s _. f s q)"
  by (simp add: with_end_def then_take_assoc)

lemma take_creds_at:
  assumes "wire_object ser des enc okc" "\<forall>c\<in>set cs. okc c"
  shows "at_pos b p (concat (map enc cs) @ rest) \<Longrightarrow>
    take_creds des nwid add (length cs) b p s = with_end (p + of_nat (length (concat (map enc cs)))) (offer_all nwid add cs s)"
  using assms(2)
proof (induction cs arbitrary: p s)
  case Nil
  then show ?case by (simp add: with_end_def)
next
  case (Cons c cs)
  have pos: "at_pos b p (enc c @ concat (map enc cs) @ rest)" using Cons.prems(1) by simp
  have l: "unat (of_nat (length (enc c)) :: u32) = length (enc c)" using wire_object.enc_len [OF assms(1)] Cons.prems(2) by (intro unat_of_nat_u32) simp
  have d: "des b p = Inr (c, of_nat (length (enc c)))" by (rule wire_object.des_enc [OF assms(1) _ pos]) (use Cons.prems(2) in simp)
  have nx: "at_pos b (p + of_nat (length (enc c))) (concat (map enc cs) @ rest)" by (rule at_pos_skip [OF pos l])
  show ?case using Cons.IH [OF nx] Cons.prems(2)
    by (simp add: d with_end_def then_take_assoc then_take_at [where q = "p + of_nat (length (enc c))" and q' = 0] add.assoc)
qed

lemma take_counted_at:
  assumes "wire_object ser des enc okc" "\<forall>c\<in>set cs. okc c" "length cs < 2 ^ 16" and pos: "at_pos b p (enc_list enc cs @ rest)"
  shows "take_counted des nwid add b p s = with_end (p + of_nat (length (enc_list enc cs))) (offer_all nwid add cs s)"
    "at_pos b (p + of_nat (length (enc_list enc cs))) rest"
proof -
  have pos': "at_pos b p (be_bytes 2 (of_nat (length cs) :: u16) @ concat (map enc cs) @ rest)" using pos by (simp add: enc_list_def)
  have n: "buf_at 2 b p = Inr (of_nat (length cs) :: u16)" by (simp add: at_pos_reads [OF pos'])
  have u: "unat (of_nat (length cs) :: u16) = length cs" using assms(3) by (simp add: unat_of_nat)
  have nx: "at_pos b (p + 2) (concat (map enc cs) @ rest)" by (rule at_pos_skip [OF pos']) simp
  show "take_counted des nwid add b p s = with_end (p + of_nat (length (enc_list enc cs))) (offer_all nwid add cs s)"
    using take_creds_at [OF assms(1,2) nx] n u by (simp add: take_counted_def enc_list_def add.assoc)
  have "unat (of_nat (length (enc_list enc cs)) :: u32) = length (enc_list enc cs)"
    using at_posD(3) [OF pos] by (intro unat_of_nat_u32) simp
  then show "at_pos b (p + of_nat (length (enc_list enc cs))) rest" by (rule at_pos_skip [OF pos])
qed

lemma at_pos_more: "at_pos b p (x # xs) \<Longrightarrow> p < blen b"
  using at_posD(2) [of b p "x # xs"] by (simp add: word_less_nat_alt bsize_def)

lemma take_coms_at:
  assumes "\<forall>c\<in>set cs. com_ok c \<and> addr_bool (com_signedBy c) \<and> com_bool c"
  shows "at_pos b p (concat (map com_enc cs) @ 0 # rest) \<Longrightarrow>
    take_coms e old b p s = Some (with_end (p + of_nat (length (concat (map com_enc cs)))) (offer_all com_networkId (\<lambda>c. plain (nw_addCom e c)) cs s)) \<and>
    at_pos b (p + of_nat (length (concat (map com_enc cs)))) (0 # rest)"
  using assms
proof (induction cs arbitrary: p s old)
  case Nil
  have "buf_get b p = Inr 0" using Nil(1) by (simp add: at_pos_reads [OF Nil(1)])
  then show ?case using Nil(1) at_pos_more [of b p 0 rest] by (subst take_coms.simps) (simp add: with_end_def)
next
  case (Cons c cs)
  have c: "com_ok c" "addr_bool (com_signedBy c)" "com_bool c" using Cons.prems(2) by simp_all
  have pos: "at_pos b p (com_enc c @ concat (map com_enc cs) @ 0 # rest)" using Cons.prems(1) by simp
  then have pos1: "at_pos b p (1 # tl (com_enc c) @ concat (map com_enc cs) @ 0 # rest)" by (simp add: com_enc_def)
  have g: "p < blen b" "buf_get b p = Inr 1" using at_pos_more [OF pos1] by (simp_all add: at_pos_reads [OF pos1])
  have d: "com_deserialize old b p = Inr (c, of_nat (length (com_enc c)))" using com_des_enc [OF c(1) pos] c(2) by simp
  have l: "unat (of_nat (length (com_enc c)) :: u32) = length (com_enc c)" using com_wire.enc_len c by (intro unat_of_nat_u32) simp
  have nx: "at_pos b (p + of_nat (length (com_enc c))) (concat (map com_enc cs) @ 0 # rest)" by (rule at_pos_skip [OF pos l])
  have ih: "take_coms e old' b (p + of_nat (length (com_enc c))) s' =
      Some (with_end (p + of_nat (length (com_enc c)) + of_nat (length (concat (map com_enc cs)))) (offer_all com_networkId (\<lambda>c. plain (nw_addCom e c)) cs s'))"
    "at_pos b (p + of_nat (length (com_enc c)) + of_nat (length (concat (map com_enc cs)))) (0 # rest)" for old' s'
    using Cons.IH [OF nx, of old' s'] Cons.prems(2) by simp_all
  have "take_coms e old b p s = Some (then_take (offer_at (p + of_nat (length (com_enc c))) (com_networkId c) (plain (nw_addCom e c)) s)
      (\<lambda>s q. with_end (p + of_nat (length (com_enc c)) + of_nat (length (concat (map com_enc cs)))) (offer_all com_networkId (\<lambda>c. plain (nw_addCom e c)) cs s)))"
    using g d c(3) ih(1)
    by (subst take_coms.simps) (auto simp: then_take_def offer_at_def split: sum.splits option.splits prod.splits bool.splits)
  then show ?case using ih(2)
    by (simp add: with_end_def then_take_assoc then_take_at [where q = "p + of_nat (length (com_enc c))" and q' = 0] add.assoc)
qed

definition part_end :: "take_state \<times> net_out list \<times> unit option res \<Rightarrow> take_state \<times> net_out list \<times> cred_end res" where
  "part_end r = (case r of (s, out, Inl x) \<Rightarrow> (s, out, Inl x) | (s, out, Inr None) \<Rightarrow> (s, out, Inr CredWait)
     | (s, out, Inr (Some _)) \<Rightarrow> (s, out, Inr CredDone))"

lemma part_end_done:
  "(case then_take r (\<lambda>s _. (s, [], Inr (Some CredDone))) of (s, out, Inl x) \<Rightarrow> (s, out, Inl x) | (s, out, Inr None) \<Rightarrow> (s, out, Inr CredWait)
     | (s, out, Inr (Some c)) \<Rightarrow> (s, out, Inr c)) = part_end r"
  by (auto simp: then_take_def part_end_def split: sum.splits option.splits prod.splits)

lemma take_part:
  assumes b: "small b" "28 \<le> bsize b" "drop 28 (bdata b) = cred_payload p" and ok: "push_ok pu p"
  shows "take_credentials e source b ns = Some (part_end (offer_part e p ns))"
proof -
  let ?s = "\<lparr>tk_nets = ns, tk_cur = None, tk_trust = False\<rparr>"
  have "length (cred_payload p) = bsize b - 28" using b(1,3) by (metis length_drop small_length)
  then have pos: "at_pos b 28 (cred_payload p)" using b by (simp add: at_pos_def)
  let ?caps = "enc_list (cap_enc False) (tp_caps p)" and ?tags = "enc_list (tag_enc False) (tp_tags p)" and ?coos = "enc_list (coo_enc False) (tp_coos p)"
  have okc: "\<forall>c\<in>set (com_list p). com_ok c \<and> addr_bool (com_signedBy c) \<and> com_bool c" "\<forall>c\<in>set (tp_caps p). cap_ok c" "\<forall>c\<in>set (tp_tags p). tag_ok c"
    "\<forall>c\<in>set (tp_coos p). coo_ok c" and len: "length (tp_caps p) < 2 ^ 16" "length (tp_tags p) < 2 ^ 16" "length (tp_coos p) < 2 ^ 16"
    using ok by (auto simp: push_ok_def)
  define q0 where "q0 = 28 + (of_nat (length (concat (map com_enc (com_list p)))) :: u32)"
  have c: "take_coms e (replicate 96 0) b 28 ?s = Some (with_end q0 (offer_all com_networkId (\<lambda>c. plain (nw_addCom e c)) (com_list p) ?s))"
    "at_pos b q0 (0 # ?caps @ ?tags @ [0, 0] @ ?coos)"
    unfolding q0_def using take_coms_at [OF okc(1), of b 28 "?caps @ ?tags @ [0, 0] @ ?coos" e "replicate 96 0" ?s] pos
    by (simp_all add: cred_payload_def)
  have p1: "at_pos b (q0 + 1) (?caps @ ?tags @ [0, 0] @ ?coos)" by (rule at_pos_skip [of b q0 "[0]"]) (use c(2) in simp_all)
  note caps = take_counted_at [OF cap_wire.wire_object_axioms okc(2) len(1) p1]
  define q1 where "q1 = q0 + 1 + of_nat (length ?caps)"
  note tags = take_counted_at [OF tag_wire.wire_object_axioms okc(3) len(2) caps(2), folded q1_def]
  define q2 where "q2 = q1 + of_nat (length ?tags)"
  have p2: "at_pos b q2 (enc_list (rev_enc False) [] @ ?coos)" using tags(2) by (simp add: q2_def enc_list_def be2_zero)
  note revs = take_counted_at [OF rev_wire.wire_object_axioms _ _ p2]
  define q3 where "q3 = q2 + of_nat (length (enc_list (rev_enc False) []))"
  have p3: "at_pos b q3 (?coos @ [])" using revs(2) by (simp add: q3_def)
  note coos = take_counted_at [OF coo_wire.wire_object_axioms okc(4) len(3) p3]
  have more: "q0 + 1 < blen b" "q1 < blen b" "q2 < blen b" "q3 < blen b"
    using at_posD(2) [OF p1] at_posD(2) [OF caps(2)] at_posD(2) [OF p2] at_posD(2) [OF p3]
    by (simp_all add: word_less_nat_alt bsize_def enc_list_def q1_def)
  have "take_credentials e source b ns = Some (case then_take (offer_part e p ns) (\<lambda>s _. (s, [], Inr (Some CredDone))) of
      (s, out, Inl x) \<Rightarrow> (s, out, Inl x) | (s, out, Inr None) \<Rightarrow> (s, out, Inr CredWait) | (s, out, Inr (Some c)) \<Rightarrow> (s, out, Inr c))"
    unfolding take_credentials_def c(1) bind.bind_lunit with_end_all offer_part_def then_take_assoc
    using more caps(1) tags(1) revs(1) coos(1)
    by (simp add: take_lists_def unless_short_def with_end_all q1_def [symmetric] q2_def [symmetric] q3_def [symmetric])
  then show ?thesis by (simp only: part_end_done)
qed

section \<open>Only what verifies is kept\<close>

definition members_ok :: "'s env \<Rightarrow> netstate \<Rightarrow> bool" where
  "members_ok c n \<longleftrightarrow> ht_ok hc_addr (ns_members n) \<and> (\<forall>a m. ht_get hc_addr (ns_members n) a = Some m \<longrightarrow> mb_ok c m)"

definition nets_ok :: "'s env \<Rightarrow> nets \<Rightarrow> bool" where
  "nets_ok c ns \<longleftrightarrow> (\<forall>w n. ns w = Some n \<longrightarrow> members_ok c n)"

text \<open>An operation of one network that keeps its memberships verified.\<close>

definition safe_add :: "'s env \<Rightarrow> (netstate \<Rightarrow> (add_result \<times> netstate \<times> net_out list) \<times> unit res) \<Rightarrow> bool" where
  "safe_add c add \<longleftrightarrow> (\<forall>n r n' out x. members_ok c n \<and> add n = ((r, n', out), x) \<longrightarrow> members_ok c n')"

lemma set_members_simps [simp]: "ns_members (set_members t n) = t" "ns_id (set_members t n) = ns_id n"
  by (simp_all add: set_members_def)

lemma on_member_ok:
  assumes n: "members_ok c n" and f: "\<And>m r m' ws. f m = (r, m', ws) \<Longrightarrow> mb_step (ne_alloc e) c m m'"
    and r: "on_member e a f d n = (r, n', out)"
  shows "members_ok c n'"
proof -
  let ?t = "ht_index (ne_alloc e) hc_addr mb_new a (ns_members n)"
  have t: "ht_ok hc_addr ?t" "ht_get hc_addr ?t = map_touch mb_new a (ht_get hc_addr (ns_members n))"
    using n ht_index_ok by (auto simp: members_ok_def)
  have all: "mb_ok c m" if "ht_get hc_addr ?t k = Some m" for k m
    using that n mb_new_ok by (auto simp: t(2) map_touch_def members_ok_def split: option.splits if_splits)
  show ?thesis
  proof (cases "ht_get hc_addr ?t a")
    case None
    then show ?thesis using r t(1) all by (auto simp: on_member_def Let_def members_ok_def)
  next
    case (Some m)
    obtain r' m' ws where fm: "f m = (r', m', ws)" by (metis prod.collapse)
    have "mb_ok c m'" using mb_step_ok [OF f [OF fm] all [OF Some]] .
    then show ?thesis using r Some fm t(1) all ht_set_ok [OF t(1), of "ne_alloc e" a m']
      by (auto simp: on_member_def Let_def members_ok_def split: if_splits)
  qed
qed

lemma safe_adds:
  "safe_add (ne_cred e) (plain (nw_addCom e c))" "safe_add (ne_cred e) (plain (nw_addCap e k))" "safe_add (ne_cred e) (plain (nw_addTag e t))"
  "safe_add (ne_cred e) (plain (nw_addCoo e w))" "safe_add (ne_cred e) (nw_addRev e source v)"
proof -
  show "safe_add (ne_cred e) (plain (nw_addCom e c))"
    by (auto simp: safe_add_def plain_def nw_addCom_def split: if_splits elim!: on_member_ok intro: mb_step.Com)
  show "safe_add (ne_cred e) (plain (nw_addCap e k))"
    by (auto simp: safe_add_def plain_def nw_addCap_def split: if_splits elim!: on_member_ok intro: mb_step.Cap)
  show "safe_add (ne_cred e) (plain (nw_addTag e t))"
    by (auto simp: safe_add_def plain_def nw_addTag_def split: if_splits elim!: on_member_ok intro: mb_step.Tag)
  show "safe_add (ne_cred e) (plain (nw_addCoo e w))"
    by (auto simp: safe_add_def plain_def nw_addCoo_def split: if_splits elim!: on_member_ok intro: mb_step.Coo)
  show "safe_add (ne_cred e) (nw_addRev e source v)"
    by (auto simp: safe_add_def nw_addRev_def split: if_splits prod.splits elim!: on_member_ok intro: mb_step.Rev)
qed

lemma offer_at_ok:
  assumes "safe_add c add" "nets_ok c (tk_nets s)" "offer_at q w add s = (s', out, r)"
  shows "nets_ok c (tk_nets s')"
proof (cases "tk_nets s w")
  case None
  then show ?thesis using assms(2,3) by (auto simp: offer_at_def offer_def)
next
  case (Some n)
  obtain r' n' out' x where a: "add n = ((r', n', out'), x)" by (metis prod.collapse)
  have "members_ok c n'" using assms(1,2) Some a unfolding safe_add_def nets_ok_def by metis
  moreover have "tk_nets s' = (tk_nets s)(w \<mapsto> n')"
    using assms(3) Some a by (cases x; cases r') (auto simp: offer_at_def offer_def Let_def)
  ultimately show ?thesis using assms(2) by (auto simp: nets_ok_def)
qed

text \<open>A step that keeps the networks verified, and sequences of such steps.\<close>

definition safe_step :: "'s env \<Rightarrow> (take_state \<Rightarrow> take_state \<times> net_out list \<times> 'a res) \<Rightarrow> bool" where
  "safe_step c f \<longleftrightarrow> (\<forall>s. nets_ok c (tk_nets s) \<longrightarrow> nets_ok c (tk_nets (fst (f s))))"

lemma safe_then: "safe_step c f \<Longrightarrow> (\<And>a. safe_step c (\<lambda>s. g s a)) \<Longrightarrow> safe_step c (\<lambda>s. then_take (f s) g)"
  unfolding safe_step_def then_take_def by (auto split: sum.split option.split prod.split) (metis fst_conv)+

lemma safe_offer_at: "safe_add c add \<Longrightarrow> safe_step c (offer_at q w add)"
  unfolding safe_step_def using offer_at_ok by (metis prod.collapse)

lemma safe_same: "safe_step c (\<lambda>s. (s, x))"
  by (simp add: safe_step_def)

lemma safe_take_creds: "(\<And>x. safe_add c (add x)) \<Longrightarrow> safe_step c (take_creds des nwid add n b p)"
proof (induction n arbitrary: p)
  case (Suc n)
  show ?case
  proof (cases "des b p")
    case (Inr cl)
    then show ?thesis using safe_then [OF safe_offer_at [OF Suc.prems] Suc.IH [OF Suc.prems]] by (cases cl) (simp add: safe_step_def)
  qed (simp add: safe_step_def)
qed (simp add: safe_step_def)

lemma safe_take_counted: "(\<And>x. safe_add c (add x)) \<Longrightarrow> safe_step c (take_counted des nwid add b p)"
  unfolding take_counted_def by (cases "buf_at 2 b p :: u16 res") (simp_all add: safe_same safe_take_creds)

lemma safe_unless: "safe_step c k \<Longrightarrow> safe_step c (\<lambda>s. unless_short b p s (k s))"
  by (cases "p < blen b") (simp_all add: unless_short_def safe_same)

lemma safe_take_lists: "safe_step (ne_cred e) (\<lambda>s. take_lists e source b s p)"
  unfolding take_lists_def
  by (cases "p < blen b") (auto intro!: safe_then safe_take_counted safe_unless safe_adds safe_same)

lemma safe_take_coms:
  assumes "take_coms e old b p s = Some r" "nets_ok (ne_cred e) (tk_nets s)"
  shows "nets_ok (ne_cred e) (tk_nets (fst r))"
  using assms
proof (induction rule: take_coms.raw_induct [rotated, consumes 1, case_names step])
  case (step f e old b p s r)
  show ?case
  proof (cases "p < blen b \<and> (\<exists>v. buf_get b p = Inr v \<and> v \<noteq> 0) \<and> (\<exists>x. com_deserialize old b p = Inr x)")
    case False
    then show ?thesis using step.prems step.hyps by (auto split: if_splits sum.splits)
  next
    case True
    then obtain v c l where x: "p < blen b" "buf_get b p = Inr v" "v \<noteq> 0" "com_deserialize old b p = Inr (c, l)" by fastforce
    obtain s1 out r1 where o: "(if com_bool c then offer_at (p + l) (com_networkId c) (plain (nw_addCom e c)) s else (s, [], Inr (Some (p + l)))) = (s1, out, r1)"
      by (metis prod.collapse)
    have s1: "nets_ok (ne_cred e) (tk_nets s1)"
      using o offer_at_ok [OF safe_adds(1) step.prems(1)] step.prems(1) by (auto split: if_splits)
    show ?thesis
    proof (cases "\<exists>q. r1 = Inr (Some q)")
      case True
      then obtain q where q: "r1 = Inr (Some q)" by blast
      then obtain r2 where r2: "f e (com_sig c) b q s1 = Some r2" "tk_nets (fst r) = tk_nets (fst r2)"
        using step.hyps x o by (auto simp: bind_eq_Some_conv split: prod.splits)
      then show ?thesis using step.IH [OF r2(1) s1] by simp
    next
      case False
      then have "fst r = s1" using step.hyps x o by (cases r1) (auto split: option.splits)
      then show ?thesis using s1 by simp
    qed
  qed
qed

lemma take_credentials_ok:
  assumes "take_credentials e source b ns = Some (s, out, r)" "nets_ok (ne_cred e) ns"
  shows "nets_ok (ne_cred e) (tk_nets s)"
proof -
  let ?s = "\<lparr>tk_nets = ns, tk_cur = None, tk_trust = False\<rparr>"
  obtain c where c: "take_coms e (replicate 96 0) b 28 ?s = Some c" using assms(1) by (auto simp: take_credentials_def bind_eq_Some_conv)
  have c': "nets_ok (ne_cred e) (tk_nets (fst c))" using safe_take_coms [OF c] assms(2) by simp
  have "safe_step (ne_cred e) (\<lambda>s. then_take (s, snd c) (\<lambda>s p. take_lists e source b s (p + 1)))"
    using safe_then [OF safe_same [of _ "snd c"] safe_take_lists] .
  then have "nets_ok (ne_cred e) (tk_nets (fst (then_take c (\<lambda>s p. take_lists e source b s (p + 1)))))"
    using c' unfolding safe_step_def by (metis prod.collapse)
  moreover have "s = fst (then_take c (\<lambda>s p. take_lists e source b s (p + 1)))"
    using assms(1) c by (auto simp: take_credentials_def split: prod.splits sum.splits option.splits)
  ultimately show ?thesis by simp
qed

section \<open>Claims\<close>

text \<open>
  Claim C9: a node's credentials reach the other members. Pushing the credentials of a
  configuration ends, whatever the numbers of capabilities, tags and certificates, as long as each
  fits the size the compiler gives its class: the packets carry, in the order of the configuration,
  every credential exactly once, and none is lost or split. At a receiver, each packet,
  decompressed, has exactly the effect of offering its credentials to the networks one after the
  other, whoever sent it, and whatever networks the receiver has, until one has to wait for an
  identity.
\<close>

theorem credentials_pushed:
  assumes "push_ok pu (to_push_of nc)" "push_sizes pu" "lz_law (pu_crypto pu)"
  shows "\<exists>bs ps. pushCredentials pu now to nc m = Some (m\<lparr>mb_lastPushed := now\<rparr>, bs, Inr ()) \<and> joins (to_push_of nc) ps \<and>
    list_all2 (\<lambda>p b'. \<exists>b. pkt_uncompress (pu_crypto pu) b' = Inr (True, b) \<and>
      (\<forall>(e :: 's net_env) source ns. take_credentials e source b ns = Some (part_end (offer_part e p ns)))) ps bs"
proof -
  obtain bs ps where b: "push_loop pu to 0 (to_push_of nc) = Some (bs, Inr ())" "joins (to_push_of nc) ps" "\<forall>p\<in>set ps. push_ok pu p"
    "list_all2 (\<lambda>p b'. \<exists>b. pkt_uncompress (pu_crypto pu) b' = Inr (True, b) \<and> small b \<and> 28 \<le> bsize b \<and> drop 28 (bdata b) = cred_payload p) ps bs"
    using push_loop_spec [OF assms] by blast
  have "list_all2 (\<lambda>p b'. \<exists>b. pkt_uncompress (pu_crypto pu) b' = Inr (True, b) \<and>
      (\<forall>(e :: 's net_env) source ns. take_credentials e source b ns = Some (part_end (offer_part e p ns)))) ps bs"
    using b(4) by (rule list.rel_mono_strong) (use b(3) take_part in blast)
  then show ?thesis using b(1,2) by (intro exI [of _ bs] exI [of _ ps]) (simp add: pushCredentials_def)
qed

text \<open>Packets of credentials from any nodes, one after the other.\<close>

fun take_packets :: "'s net_env \<Rightarrow> (address \<times> zbuf) list \<Rightarrow> nets \<Rightarrow> nets option" where
  "take_packets e [] ns = Some ns"
| "take_packets e ((source, b) # ps) ns = Option.bind (take_credentials e source b ns) (\<lambda>(s, _, _). take_packets e ps (tk_nets s))"

text \<open>
  Claim C10: no packet makes a node believe a credential it could not check. Whatever packets of
  credentials come in, from whomever, complete or cut short, well-formed or not, every
  certificate, capability, tag and certificate of ownership that any network then holds of any
  member was verified against the keys of those who signed it and is filed under its own id.
\<close>

theorem networks_hold_verified:
  assumes "nets_ok (ne_cred e) ns" "take_packets e ps ns = Some ns'"
  shows "\<forall>w n a m. ns' w = Some n \<and> ht_get hc_addr (ns_members n) a = Some m \<longrightarrow>
    (\<forall>i t. ht_get hc_u32 (mb_tags m) i = Some t \<longrightarrow> tag_id t = i \<and> fst (tag_verify (ne_cred e) t) = 0) \<and>
    (\<forall>i c. ht_get hc_u32 (mb_caps m) i = Some c \<longrightarrow> cap_id c = i \<and> fst (cap_verify (ne_cred e) c) = 0) \<and>
    (\<forall>i c. ht_get hc_u32 (mb_coos m) i = Some c \<longrightarrow> coo_id c = i \<and> fst (coo_verify (ne_cred e) c) = 0) \<and>
    (com_bool (mb_com m) \<longrightarrow> fst (com_verify (ne_cred e) (mb_com m)) = 0)"
proof -
  have ok: "nets_ok (ne_cred e) ns'"
    using assms
  proof (induction e ps ns rule: take_packets.induct)
    case (2 e source b ps ns)
    then obtain s out r where t: "take_credentials e source b ns = Some (s, out, r)" "take_packets e ps (tk_nets s) = Some ns'"
      by (auto simp: bind_eq_Some_conv)
    show ?case using 2(1) [OF t(1) refl refl take_credentials_ok [OF t(1) 2(2)] t(2)] .
  qed simp
  have m: "mb_ok (ne_cred e) m" if "ns' w = Some n" "ht_get hc_addr (ns_members n) a = Some m" for w n a m
    using ok that unfolding nets_ok_def members_ok_def by blast
  show ?thesis
  proof (intro allI impI)
    fix w n a m assume "ns' w = Some n \<and> ht_get hc_addr (ns_members n) a = Some m"
    then have "mb_ok (ne_cred e) m" using m by blast
    then show "(\<forall>i t. ht_get hc_u32 (mb_tags m) i = Some t \<longrightarrow> tag_id t = i \<and> fst (tag_verify (ne_cred e) t) = 0) \<and>
        (\<forall>i c. ht_get hc_u32 (mb_caps m) i = Some c \<longrightarrow> cap_id c = i \<and> fst (cap_verify (ne_cred e) c) = 0) \<and>
        (\<forall>i c. ht_get hc_u32 (mb_coos m) i = Some c \<longrightarrow> coo_id c = i \<and> fst (coo_verify (ne_cred e) c) = 0) \<and>
        (com_bool (mb_com m) \<longrightarrow> fst (com_verify (ne_cred e) (mb_com m)) = 0)"
      by (auto simp: mb_ok_def table_ok_def tag_ops_def cap_ops_def coo_ops_def com_nil_def com_bool_def)
  qed
qed

section \<open>Instances\<close>

definition demo_pu :: push_env where
  "demo_pu = \<lparr>pu_self = addr_of 0x1122334455, pu_iv = \<lambda>_. replicate 8 9, pu_crypto = demo_crypto, pu_cap = 3000, pu_tag = 150, pu_coo = 500\<rparr>"

definition demo_tagged :: netconf where
  "demo_tagged = nc_sample\<lparr>nc_tags := [demo_tag]\<rparr>"

lemma demo_push: "to_push_of demo_tagged = \<lparr>tp_com = None, tp_caps = [], tp_tags = [demo_tag], tp_coos = []\<rparr>"
  by (simp add: to_push_of_def demo_tagged_def nc_sample_def netconf_nil_def com_bool_def com_nil_def)

lemma demo_push_ok: "push_ok demo_pu (to_push_of demo_tagged)" "push_sizes demo_pu" "lz_law (pu_crypto demo_pu)"
proof -
  have "tag_ok demo_tag" by (simp add: tag_ok_def demo_tag_def tag_new_def)
  then show "push_ok demo_pu (to_push_of demo_tagged)" unfolding demo_push by (simp add: push_ok_def com_list_def)
  show "push_sizes demo_pu" "lz_law (pu_crypto demo_pu)" using demo_lz by (simp_all add: push_sizes_def demo_pu_def)
qed

theorem credentials_pushed_witness:
  "\<exists>bs. pushCredentials demo_pu 9 (addr_of 7) demo_tagged mb_new = Some (mb_new\<lparr>mb_lastPushed := 9\<rparr>, bs, Inr ()) \<and> bs \<noteq> []"
proof -
  obtain bs ps where b: "pushCredentials demo_pu 9 (addr_of 7) demo_tagged mb_new = Some (mb_new\<lparr>mb_lastPushed := 9\<rparr>, bs, Inr ())"
    "joins (to_push_of demo_tagged) ps" "length ps = length bs"
    using credentials_pushed [OF demo_push_ok, where ?'s = unit, of 9 "addr_of 7" mb_new] by (auto dest: list_all2_lengthD)
  have "ps \<noteq> []" using b(2) by (auto simp: joins_def demo_push)
  then show ?thesis using b(1,3) by (intro exI [of _ bs]) auto
qed

text \<open>A member's tag comes in at a node that has the network.\<close>

theorem networks_hold_verified_witness:
  "\<exists>b ns'. take_packets demo_ne [(addr_of 7, b)] [0x8056c2e21c000001 \<mapsto> demo_ns] = Some ns' \<and>
    (\<forall>w n a m i t. ns' w = Some n \<and> ht_get hc_addr (ns_members n) a = Some m \<and> ht_get hc_u32 (mb_tags m) i = Some t \<longrightarrow>
      tag_id t = i \<and> fst (tag_verify (ne_cred demo_ne) t) = 0)"
proof -
  have ok: "nets_ok (ne_cred demo_ne) [0x8056c2e21c000001 \<mapsto> demo_ns]" by (simp add: nets_ok_def members_ok_def demo_ns_def ht_new_ok)
  have "\<not> pushed_all (to_push_of demo_tagged)" by (simp add: pushed_all_def demo_push)
  from push_packet_spec [OF demo_push_ok(1,2) this] obtain b p w where
    p: "joins (to_push_of demo_tagged) [p, w]" "small b" "28 \<le> bsize b" "drop 28 (bdata b) = cred_payload p" by blast
  have "push_ok demo_pu p" using push_ok_part [OF p(1) demo_push_ok(1)] by simp
  then obtain ns' where t: "take_packets demo_ne [(addr_of 7, b)] [0x8056c2e21c000001 \<mapsto> demo_ns] = Some ns'"
    using take_part [OF p(2-4), of demo_pu demo_ne "addr_of 7"]
    by (cases "part_end (offer_part demo_ne p [0x8056c2e21c000001 \<mapsto> demo_ns])") simp
  show ?thesis using networks_hold_verified [OF ok t] t by blast
qed

end
