(* ===== verification/ZT_NetGroups.thy ===== *)
theory ZT_NetGroups
  imports ZT_NetCredentials "HOL-Library.Product_Lexorder"
begin

text \<open>
  The multicast groups and bridges of \<^verbatim>\<open>node/Network.cpp\<close>: what the node and the networks behind it
  subscribe to, to whom it is announced, who is let in, where bridged MACs are, and the periodic
  cleaning; and \<^verbatim>\<open>IncomingPacket::_doMULTICAST_LIKE\<close>, which takes the announcements of others.
\<close>

section \<open>Groups\<close>

definition mg_key :: "multicast_group \<Rightarrow> mac \<times> u32" where
  "mg_key g = (mg_mac g, mg_adi g)"

definition hc_mg :: "multicast_group \<Rightarrow> nat" where
  "hc_mg g = unat (mg_hashCode g)"

definition BROADCAST :: multicast_group where
  "BROADCAST = \<lparr>mg_mac = mac_of 0xffffffffffff, mg_adi = 0\<rparr>"

text \<open>\<^verbatim>\<open>std::lower_bound\<close> in a sorted vector, and \<^verbatim>\<open>std::binary_search\<close> by it.\<close>

definition mg_lower :: "multicast_group \<Rightarrow> multicast_group list \<Rightarrow> nat" where
  "mg_lower g gs = length (takeWhile (\<lambda>h. mg_less h g) gs)"

definition mg_upper :: "multicast_group \<Rightarrow> multicast_group list \<Rightarrow> nat" where
  "mg_upper g gs = length (takeWhile (\<lambda>h. \<not> mg_less g h) gs)"

definition mg_search :: "multicast_group \<Rightarrow> multicast_group list \<Rightarrow> bool" where
  "mg_search g gs \<longleftrightarrow> mg_lower g gs < length gs \<and> \<not> mg_less g (gs ! mg_lower g gs)"

definition subscribedToMulticastGroup :: "multicast_group \<Rightarrow> bool \<Rightarrow> netstate \<Rightarrow> bool" where
  "subscribedToMulticastGroup g bridged n \<longleftrightarrow> mg_search g (ns_groups n) \<or> bridged \<and> ht_contains hc_mg (ns_behind n) g"

definition allMulticastGroups :: "netstate \<Rightarrow> multicast_group list" where
  "allMulticastGroups n = remdups_adj (sort_key mg_key (ht_appendKeys (ns_groups n) (ns_behind n) @
     (if nc_bool (ns_config n) \<and> nc_enableBroadcast (ns_config n) then [BROADCAST] else [])))"

section \<open>Announcing\<close>

definition like_writes :: "u64 \<Rightarrow> multicast_group \<Rightarrow> (zbuf \<Rightarrow> zbuf res) list" where
  "like_writes w g = [buf_append_int 8 w, mac_appendTo (mg_mac g), buf_append_int 4 (mg_adi g)]"

text \<open>The \<open>i\<close>-th packet is the current one; a full packet is sent and started over.\<close>

fun announce_loop :: "'s net_env \<Rightarrow> u64 \<Rightarrow> address \<Rightarrow> nat \<Rightarrow> multicast_group list \<Rightarrow> zbuf \<Rightarrow> net_out list \<times> zbuf res" where
  "announce_loop e w a i [] b = ([], Inr b)"
| "announce_loop e w a i (g # gs) b =
     (if blen b + 24 \<ge> 10024 then
        (case pkt_compress (ne_crypto e) b of
           Inl x \<Rightarrow> ([], Inl x)
         | Inr (_, c) \<Rightarrow>
             (case bind_res (pkt_reset (ne_iv e a (i + 1)) a (ne_self e) VERB_MULTICAST_LIKE c) (write_all (like_writes w g)) of
                Inl x \<Rightarrow> ([NetSend c], Inl x)
              | Inr b \<Rightarrow> (case announce_loop e w a (i + 1) gs b of (out, r) \<Rightarrow> (NetSend c # out, r))))
      else (case write_all (like_writes w g) b of
              Inl x \<Rightarrow> ([], Inl x)
            | Inr b \<Rightarrow> announce_loop e w a i gs b))"

definition announceMulticastGroupsTo :: "'s net_env \<Rightarrow> address \<Rightarrow> multicast_group list \<Rightarrow> netstate \<Rightarrow> net_out list \<times> unit res" where
  "announceMulticastGroupsTo e a gs n =
     (case pkt_new (replicate 10024 0) (ne_iv e a 0) a (ne_self e) VERB_MULTICAST_LIKE of
        Inl x \<Rightarrow> ([], Inl x)
      | Inr b \<Rightarrow>
          (case announce_loop e (ns_id n) a 0 gs b of
             (out, Inl x) \<Rightarrow> (out, Inl x)
           | (out, Inr b) \<Rightarrow>
               if blen b > 28 then
                 (case pkt_compress (ne_crypto e) b of Inl x \<Rightarrow> (out, Inl x) | Inr (_, c) \<Rightarrow> (out @ [NetSend c], Inr ()))
               else (out, Inr ())))"

definition com_packet :: "'s net_env \<Rightarrow> com \<Rightarrow> address \<Rightarrow> zbuf res" where
  "com_packet e c a =
     bind_res (pkt_new (replicate 10024 0) (ne_iv e a 0) a (ne_self e) VERB_NETWORK_CREDENTIALS)
       (write_all [com_serialize c, buf_append_int 1 (0 :: u8), buf_append_int 2 (0 :: u16), buf_append_int 2 (0 :: u16),
          buf_append_int 2 (0 :: u16), buf_append_int 2 (0 :: u16)])"

text \<open>Upstreams, relays and replicators hear of groups; those that are not members get the certificate first.\<close>

definition push_if_new :: "address \<Rightarrow> address list \<Rightarrow> address list" where
  "push_if_new a as = (if a \<in> set as then as else as @ [a])"

definition announce_to :: "'s net_env \<Rightarrow> netstate \<Rightarrow> address list" where
  "announce_to e n = sort (foldl (\<lambda>as a. push_if_new a as)
     (push_if_new (controllerOf n) (nc_alwaysContactAddresses (ns_config n))) (ne_upstreams e))"

fun announce_always :: "'s net_env \<Rightarrow> multicast_group list \<Rightarrow> address list \<Rightarrow> netstate \<Rightarrow> net_out list \<times> unit res" where
  "announce_always e gs [] n = ([], Inr ())"
| "announce_always e gs (a # as) n =
     (case (if com_bool (nc_com (ns_config n)) \<and> \<not> ht_contains hc_addr (ns_members n) a \<and> a \<noteq> ne_self e
            then (case com_packet e (nc_com (ns_config n)) a of Inl x \<Rightarrow> ([], Inl x) | Inr b \<Rightarrow> ([NetSend b], Inr ())) else ([], Inr ())) of
        (out0, Inl x) \<Rightarrow> (out0, Inl x)
      | (out0, Inr _) \<Rightarrow>
          (case announceMulticastGroupsTo e a gs n of
             (out1, Inl x) \<Rightarrow> (out0 @ out1, Inl x)
           | (out1, Inr _) \<Rightarrow> (case announce_always e gs as n of (out2, r) \<Rightarrow> (out0 @ out1 @ out2, r))))"

text \<open>The members in the table's order; asking whether a member is due marks it as told.\<close>

fun announce_members :: "'s net_env \<Rightarrow> bool \<Rightarrow> address list \<Rightarrow> multicast_group list \<Rightarrow> (address \<times> membership) list \<Rightarrow> netstate \<Rightarrow>
    netstate \<times> net_out list \<times> unit res" where
  "announce_members e new always gs [] n = (n, [], Inr ())"
| "announce_members e new always gs ((a, m) # ms) n =
     (let i = env_getIdentity (ne_cred e) a in
      if \<not> identity_bool i then announce_members e new always gs ms n
      else (case multicastLikeGate (ne_now e) m of
        (m', due) \<Rightarrow>
          (let n = set_members (ht_set (ne_alloc e) hc_addr a m' (ns_members n)) n in
           if (due \<or> new) \<and> isAllowedOnNetwork (env_crypto (ne_cred e)) (ns_config n) i m' \<and> a \<notin> set always then
             (case announceMulticastGroupsTo e a gs n of
                (out, Inl x) \<Rightarrow> (n, out, Inl x)
              | (out, Inr _) \<Rightarrow> (case announce_members e new always gs ms n of (n, out', r) \<Rightarrow> (n, out @ out', r)))
           else announce_members e new always gs ms n)))"

definition sendUpdatesToMembers :: "'s net_env \<Rightarrow> multicast_group option \<Rightarrow> netstate \<Rightarrow> netstate \<times> net_out list \<times> unit res" where
  "sendUpdatesToMembers e g n =
     (let gs = (case g of Some g \<Rightarrow> [g] | None \<Rightarrow> allMulticastGroups n);
          due = (g \<noteq> None \<or> 60000 \<le>s ne_now e - ns_lastAnnounced n);
          n = (if g = None \<and> due then n\<lparr>ns_lastAnnounced := ne_now e\<rparr> else n);
          always = (if due then announce_to e n else []) in
      case announce_always e gs always n of
        (out, Inl x) \<Rightarrow> (n, out, Inl x)
      | (out, Inr _) \<Rightarrow> (case announce_members e (g \<noteq> None) always gs (ht_entries (ns_members n)) n of (n, out', r) \<Rightarrow> (n, out @ out', r)))"

definition multicastSubscribe :: "'s net_env \<Rightarrow> multicast_group \<Rightarrow> netstate \<Rightarrow> netstate \<times> net_out list \<times> unit res" where
  "multicastSubscribe e g n =
     (if mg_search g (ns_groups n) then (n, [], Inr ())
      else (let k = mg_upper g (ns_groups n) in
            sendUpdatesToMembers e (Some g) (n\<lparr>ns_groups := take k (ns_groups n) @ g # drop k (ns_groups n)\<rparr>)))"

definition multicastUnsubscribe :: "multicast_group \<Rightarrow> netstate \<Rightarrow> netstate" where
  "multicastUnsubscribe g n =
     (let k = mg_lower g (ns_groups n) in
      if k < length (ns_groups n) \<and> mg_eq (ns_groups n ! k) g
      then n\<lparr>ns_groups := take k (ns_groups n) @ drop (k + 1) (ns_groups n)\<rparr> else n)"

definition learnBridgedMulticastGroup :: "'s net_env \<Rightarrow> multicast_group \<Rightarrow> u64 \<Rightarrow> netstate \<Rightarrow> netstate \<times> net_out list \<times> unit res" where
  "learnBridgedMulticastGroup e g now n =
     (let t = ht_set (ne_alloc e) hc_mg g now (ns_behind n); n' = n\<lparr>ns_behind := t\<rparr> in
      if hcount (ns_behind n) \<noteq> hcount t then sendUpdatesToMembers e (Some g) n' else (n', [], Inr ()))"

section \<open>Who is let in\<close>

text \<open>An exception while announcing is swallowed, and the peer is not let in.\<close>

definition gate :: "'s net_env \<Rightarrow> identity \<Rightarrow> netstate \<Rightarrow> bool \<times> netstate \<times> net_out list" where
  "gate e peer n =
     (let a = id_address peer; nc = ns_config n; m = ht_get hc_addr (ns_members n) a in
      if nc_bool nc \<and> (nc_isPublic nc \<or> (case m of Some m \<Rightarrow> isAllowedOnNetwork (env_crypto (ne_cred e)) nc peer m | None \<Rightarrow> False)) then
        (let t = (if m = None then ht_index (ne_alloc e) hc_addr mb_new a (ns_members n) else ns_members n) in
         case ht_get hc_addr t a of
           None \<Rightarrow> (True, set_members t n, [])
         | Some m \<Rightarrow>
             (case multicastLikeGate (ne_now e) m of
                (m', due) \<Rightarrow>
                  (let n = set_members (ht_set (ne_alloc e) hc_addr a m' t) n in
                   if due then
                     (case announceMulticastGroupsTo e a (allMulticastGroups n) n of
                        (out, Inl _) \<Rightarrow> (False, n, out) | (out, Inr _) \<Rightarrow> (True, n, out))
                   else (True, n, []))))
      else (False, n, []))"

definition recentlyAssociatedWith :: "u64 \<Rightarrow> 's net_env \<Rightarrow> address \<Rightarrow> netstate \<Rightarrow> bool" where
  "recentlyAssociatedWith timeout e a n =
     (case ht_get hc_addr (ns_members n) a of Some m \<Rightarrow> recentlyAssociated timeout (ne_now e) m | None \<Rightarrow> False)"

section \<open>Bridges\<close>

definition hc_mac :: "mac \<Rightarrow> nat" where
  "hc_mac m = unat (mac_hash m)"

definition findBridgeTo :: "mac \<Rightarrow> netstate \<Rightarrow> address" where
  "findBridgeTo m n = (case ht_get hc_mac (ns_bridges n) m of Some a \<Rightarrow> a | None \<Rightarrow> addr_nil)"

definition MAX_BRIDGE_ROUTES :: nat where "MAX_BRIDGE_ROUTES = 67108864"

text \<open>The address with the most routes, the first to reach that number.\<close>

fun busiest :: "(nat \<Rightarrow> bool) \<Rightarrow> (mac \<times> address) list \<Rightarrow> (address, u64) htable \<Rightarrow> address \<times> u64 \<Rightarrow> address \<times> u64" where
  "busiest alloc [] counts best = best"
| "busiest alloc ((m, a) # es) counts best =
     (let t = ht_index alloc hc_addr 0 a counts;
          c = (case ht_get hc_addr t a of Some c \<Rightarrow> c | None \<Rightarrow> 0) + 1 in
      busiest alloc es (ht_set alloc hc_addr a c t) (if c > snd best then (a, c) else best))"

definition drop_routes :: "(nat \<Rightarrow> bool) \<Rightarrow> (mac, address) htable \<Rightarrow> (mac, address) htable" where
  "drop_routes alloc t =
     (let a = fst (busiest alloc (ht_entries t) (ht_new 64) (addr_nil, 0)) in
      erase_where hc_mac (\<lambda>_ b. b \<noteq> a) t)"

partial_function (option) trim_routes :: "(nat \<Rightarrow> bool) \<Rightarrow> nat \<Rightarrow> (mac, address) htable \<Rightarrow> (mac, address) htable option" where
  "trim_routes alloc limit t = (if hcount t > limit then trim_routes alloc limit (drop_routes alloc t) else Some t)"

definition learnBridgeRoute :: "'s net_env \<Rightarrow> mac \<Rightarrow> address \<Rightarrow> netstate \<Rightarrow> netstate option" where
  "learnBridgeRoute e m a n =
     map_option (\<lambda>t. n\<lparr>ns_bridges := t\<rparr>)
       (trim_routes (ne_alloc e) MAX_BRIDGE_ROUTES
          (ht_set (ne_alloc e) hc_mac m a (ht_index (ne_alloc e) hc_mac addr_nil m (ns_bridges n))))"

section \<open>Cleaning\<close>

fun clean_members :: "'s net_env \<Rightarrow> netconf \<Rightarrow> nat \<Rightarrow> (address, membership) htable \<Rightarrow> (address, membership) hiter \<Rightarrow> (address, membership) htable" where
  "clean_members e nc 0 t it = t"
| "clean_members e nc (Suc k) t it =
     (case iter_next t it of
        None \<Rightarrow> t
      | Some ((a, m), it') \<Rightarrow>
          clean_members e nc k (if ne_knows e a then ht_set (ne_alloc e) hc_addr a (mb_clean nc m) t else fst (ht_erase hc_addr a t)) it')"

definition ns_clean :: "'s net_env \<Rightarrow> netstate \<Rightarrow> netstate" where
  "ns_clean e n =
     (if ns_destroyed n then n
      else let n = n\<lparr>ns_behind := erase_where hc_mg (\<lambda>_ ts. \<not> (600000 * 2 <s ne_now e - ts)) (ns_behind n)\<rparr>
      in set_members (clean_members e (ns_config n) (Suc (hcount (ns_members n))) (ns_members n) (iter_new (ns_members n))) n)"

definition ns_destroy :: "netstate \<Rightarrow> netstate" where
  "ns_destroy n = n\<lparr>ns_destroyed := True\<rparr>"

section \<open>Announcements of others\<close>

record 's like_env =
  le_net :: "'s net_env"
  le_mc :: mc_env
  le_upstream :: bool
  le_auth :: auth_table

definition like_authorized :: "'s like_env \<Rightarrow> identity \<Rightarrow> u64 \<Rightarrow> bool \<Rightarrow> nets \<Rightarrow> bool \<times> nets \<times> net_out list" where
  "like_authorized e peer w auth ns =
     (case (case ns w of None \<Rightarrow> (auth, ns, []) | Some n \<Rightarrow> (case gate (le_net e) peer n of (ok, n, out) \<Rightarrow> (ok, ns(w \<mapsto> n), out))) of
        (auth, ns, out) \<Rightarrow>
          (auth \<or> le_upstream e \<or> localControllerHasAuthorized (ne_now (le_net e)) w (id_address peer) (le_auth e), ns, out))"

definition like_add :: "'s like_env \<Rightarrow> identity \<Rightarrow> u64 \<Rightarrow> multicast_group \<Rightarrow> nets \<times> multicaster \<Rightarrow> (nets \<times> multicaster) \<times> mc_out list \<times> unit res" where
  "like_add e peer w g st =
     (case st of (ns, t) \<Rightarrow>
      case mc_add (le_mc e) (ne_now (le_net e)) (w, g) (id_address peer) (t, map_option ns_net (ns w)) of
        ((t, nw), out, r) \<Rightarrow> ((case (ns w, nw) of (Some n, Some nw) \<Rightarrow> ns(w \<mapsto> n\<lparr>ns_net := nw\<rparr>) | _ \<Rightarrow> ns, t), out, r))"

partial_function (option) like_loop :: "'s like_env \<Rightarrow> identity \<Rightarrow> zbuf \<Rightarrow> u32 \<Rightarrow> u64 \<Rightarrow> bool \<Rightarrow> nets \<times> multicaster \<Rightarrow>
    ((nets \<times> multicaster) \<times> (net_out + mc_out) list \<times> unit res) option" where
  "like_loop e peer b p lst auth st =
     (if \<not> p < blen b then Some (st, [], Inr ())
      else case buf_at 8 b p of
        Inl x \<Rightarrow> Some (st, [], Inl x)
      | Inr (w :: u64) \<Rightarrow>
          (case (if w \<noteq> lst then like_authorized e peer w auth (fst st) else (auth, fst st, [])) of
             (auth, ns, out) \<Rightarrow>
               if auth then
                 (case bind_res (mac_read b (p + 8)) (\<lambda>m. bind_res (buf_at 4 b (p + 14)) (\<lambda>adi. Inr \<lparr>mg_mac = m, mg_adi = adi\<rparr>)) of
                    Inl x \<Rightarrow> Some ((ns, snd st), map Inl out, Inl x)
                  | Inr g \<Rightarrow>
                      (case like_add e peer w g (ns, snd st) of
                         (st, out', Inl x) \<Rightarrow> Some (st, map Inl out @ map Inr out', Inl x)
                       | (st, out', Inr _) \<Rightarrow>
                           Option.bind (like_loop e peer b (p + 18) w auth st) (\<lambda>(st, out'', r). Some (st, map Inl out @ map Inr out' @ out'', r))))
               else Option.bind (like_loop e peer b (p + 18) w auth (ns, snd st)) (\<lambda>(st, out'', r). Some (st, map Inl out @ out'', r))))"

definition doMULTICAST_LIKE :: "'s like_env \<Rightarrow> peer_env \<Rightarrow> nat \<Rightarrow> zbuf \<Rightarrow> nets \<times> multicaster \<Rightarrow> peer \<times> path_store \<Rightarrow>
    ((nets \<times> multicaster) \<times> (peer \<times> path_store) \<times> (net_out + mc_out) list \<times> peer_out list \<times> bool res) option" where
  "doMULTICAST_LIKE e pe path b st pst =
     Option.bind (like_loop e (pr_id (fst pst)) b 28 0 False st) (\<lambda>(st, out, r). Some
       (case bind_res r (\<lambda>_. pkt_hops b) of
          Inl x \<Rightarrow> (st, pst, out, [], Inl x)
        | Inr hops \<Rightarrow>
            (case peer_received pe path hops VERB_MULTICAST_LIKE False pst of (pst', out') \<Rightarrow> (st, pst', out, out', Inr True))))"

section \<open>Bridge routes\<close>

definition routes_of :: "(mac \<times> address) list \<Rightarrow> address \<Rightarrow> nat" where
  "routes_of es a = length (filter (\<lambda>x. snd x = a) es)"

lemma routes_of_simps [simp]:
  "routes_of [] a = 0" "routes_of (es @ [x]) a = routes_of es a + (if snd x = a then 1 else 0)"
  by (simp_all add: routes_of_def)

lemma routes_of_le: "routes_of es a \<le> length es"
  by (simp add: routes_of_def)

text \<open>Counting: the table holds the counts, the best is an address that has the most.\<close>

definition counted_so_far :: "(mac \<times> address) list \<Rightarrow> (address, u64) htable \<Rightarrow> address \<times> u64 \<Rightarrow> bool" where
  "counted_so_far ps t best \<longleftrightarrow> ht_ok hc_addr t \<and>
     (\<forall>a. ht_get hc_addr t a = (if routes_of ps a = 0 then None else Some (of_nat (routes_of ps a)))) \<and>
     snd best = of_nat (routes_of ps (fst best)) \<and> (\<forall>a. routes_of ps a \<le> routes_of ps (fst best))"

lemma busiest_spec:
  "counted_so_far ps t best \<Longrightarrow> length (ps @ es) < 2 ^ 64 \<Longrightarrow> ps @ es \<noteq> [] \<Longrightarrow>
    \<forall>a. routes_of (ps @ es) a \<le> routes_of (ps @ es) (fst (busiest alloc es t best))"
proof (induction es arbitrary: ps t best)
  case Nil
  then show ?case by (auto simp: counted_so_far_def)
next
  case (Cons x es)
  obtain m a where x: "x = (m, a)" by (cases x)
  let ?t = "ht_index alloc hc_addr 0 a t"
  let ?c = "(case ht_get hc_addr ?t a of Some c \<Rightarrow> c | None \<Rightarrow> 0) + 1"
  let ?best = "if ?c > snd best then (a, ?c) else best"
  have ok: "ht_ok hc_addr t" using Cons.prems(1) by (auto simp: counted_so_far_def)
  note t = ht_index_ok [OF ok, of alloc 0 a]
  have g: "ht_get hc_addr t b = (if routes_of ps b = 0 then None else Some (of_nat (routes_of ps b)))" for b
    using Cons.prems(1) by (auto simp: counted_so_far_def)
  have c: "?c = of_nat (routes_of ps a + 1)" using g [of a] by (simp add: t(2) map_touch_def add.commute)
  have lt: "routes_of ps b + 1 < 2 ^ 64" for b using routes_of_le [of ps b] Cons.prems(2) by simp
  have u: "unat ?c = routes_of ps a + 1" unfolding c unat_of_nat using lt [of a] by (simp del: of_nat_add)
  have ub: "unat (of_nat (routes_of ps b) :: u64) = routes_of ps b" for b using lt [of b] by (simp add: unat_of_nat)
  have g': "ht_get hc_addr (ht_set alloc hc_addr a ?c ?t) b =
      (if routes_of (ps @ [x]) b = 0 then None else Some (of_nat (routes_of (ps @ [x]) b)))" for b
    using g [of b] g [of a] c by (simp add: ht_set_ok(2) [OF t(1)] t(2) map_touch_def x split: option.split)
  have "counted_so_far (ps @ [x]) (ht_set alloc hc_addr a ?c ?t) ?best"
  proof -
    have b: "snd best = of_nat (routes_of ps (fst best))" "\<forall>b. routes_of ps b \<le> routes_of ps (fst best)"
      using Cons.prems(1) by (auto simp: counted_so_far_def)
    have le: "?c > snd best \<longleftrightarrow> routes_of ps (fst best) < routes_of ps a + 1"
      unfolding b(1) using u ub by (simp add: word_less_nat_alt)
    have ok': "ht_ok hc_addr (ht_set alloc hc_addr a ?c ?t)" by (rule ht_set_ok(1) [OF t(1)])
    show ?thesis
    proof (cases "?c > snd best")
      case True
      have "?c = of_nat (routes_of (ps @ [x]) a)" unfolding c by (simp add: x)
      moreover have "routes_of (ps @ [x]) b' \<le> routes_of (ps @ [x]) a" for b'
        using le True b(2) [rule_format, of b'] by (auto simp: x)
      ultimately have "counted_so_far (ps @ [x]) (ht_set alloc hc_addr a ?c ?t) (a, ?c)"
        unfolding counted_so_far_def fst_conv snd_conv using ok' g' by blast
      then show ?thesis using True by simp
    next
      case False
      then have ne: "a \<noteq> fst best" using le by auto
      have "snd best = of_nat (routes_of (ps @ [x]) (fst best))" using b(1) ne by (simp add: x)
      moreover have "routes_of (ps @ [x]) b' \<le> routes_of (ps @ [x]) (fst best)" for b'
        using le False ne b(2) [rule_format, of b'] by (auto simp: x)
      ultimately have "counted_so_far (ps @ [x]) (ht_set alloc hc_addr a ?c ?t) best"
        unfolding counted_so_far_def using ok' g' by blast
      then show ?thesis using False by simp
    qed
  qed
  from Cons.IH [OF this] Cons.prems(2) show ?case by (simp add: x Let_def)
qed

lemma ht_card: "ht_ok hc t \<Longrightarrow> hcount t = card (dom (ht_get hc t)) \<and> finite (dom (ht_get hc t))"
proof -
  assume ok: "ht_ok hc t"
  have e: "distinct (map fst (ht_entries t))" "hcount t = length (ht_entries t)" "ht_get hc t = map_of (ht_entries t)"
    using ht_entries_exact [OF ok] by auto
  have "card (dom (ht_get hc t)) = length (map fst (ht_entries t))"
    unfolding e(3) dom_map_of_conv_image_fst using distinct_card [OF e(1)] by simp
  then show ?thesis using e by (simp add: dom_map_of_conv_image_fst)
qed

text \<open>The number of routes an address has in a table.\<close>

definition routes_in :: "(mac, address) htable \<Rightarrow> address \<Rightarrow> nat" where
  "routes_in t a = card {m. ht_get hc_mac t m = Some a}"

lemma routes_in_entries: "ht_ok hc_mac t \<Longrightarrow> routes_of (ht_entries t) a = routes_in t a"
proof -
  assume ok: "ht_ok hc_mac t"
  have e: "distinct (map fst (ht_entries t))" "ht_get hc_mac t = map_of (ht_entries t)"
    using ht_entries_exact [OF ok] by auto
  have "{m. ht_get hc_mac t m = Some a} = fst ` set (filter (\<lambda>x. snd x = a) (ht_entries t))"
    unfolding e(2) using e(1) by (force simp: map_of_eq_Some_iff)
  moreover have "distinct (map fst (filter (\<lambda>x. snd x = a) (ht_entries t)))" using e(1) by (rule distinct_map_filter)
  then have "card (fst ` set (filter (\<lambda>x. snd x = a) (ht_entries t))) = length (filter (\<lambda>x. snd x = a) (ht_entries t))"
    using distinct_card [of "map fst (filter (\<lambda>x. snd x = a) (ht_entries t))"] by simp
  ultimately show ?thesis by (simp add: routes_in_def routes_of_def)
qed

lemma drop_routes_spec:
  assumes ok: "ht_ok hc_mac t" and n: "0 < hcount t" "hcount t < 2 ^ 64"
  obtains a where "ht_ok hc_mac (drop_routes alloc t)" "ht_get hc_mac (drop_routes alloc t) = (\<lambda>m. if ht_get hc_mac t m = Some a then None else ht_get hc_mac t m)"
    "\<forall>b. routes_in t b \<le> routes_in t a" "hcount (drop_routes alloc t) < hcount t"
proof -
  define a where "a = fst (busiest alloc (ht_entries t) (ht_new 64) (addr_nil, 0))"
  have e: "hcount t = length (ht_entries t)" "map_of (ht_entries t) = ht_get hc_mac t" using ht_entries_exact [OF ok] by auto
  have "counted_so_far [] (ht_new 64) (addr_nil, 0)" by (simp add: counted_so_far_def ht_new_ok)
  from busiest_spec [OF this, of "ht_entries t" alloc] have mx: "\<forall>b. routes_in t b \<le> routes_in t a"
    using n e(1) by (auto simp: a_def routes_in_entries [OF ok])
  have cl: "ht_ok hc_mac (drop_routes alloc t)" "ht_get hc_mac (drop_routes alloc t) = (\<lambda>m. if ht_get hc_mac t m = Some a then None else ht_get hc_mac t m)"
    using erase_where_ok [OF ok] by (auto simp: drop_routes_def a_def [symmetric] Let_def fun_eq_iff split: option.split)
  have "\<exists>m. ht_get hc_mac t m = Some a"
  proof (rule ccontr)
    assume "\<not> ?thesis"
    then have "routes_in t a = 0" by (simp add: routes_in_def)
    then have "routes_in t b = 0" for b using mx by (metis le_zero_eq)
    moreover obtain m b es where "ht_entries t = (m, b) # es" using n(1) e(1) by (metis length_greater_0_conv list.exhaust surj_pair)
    then have "ht_get hc_mac t m = Some b" using e(2) by (metis map_of_Cons_code(2))
    moreover have "finite {m. ht_get hc_mac t m = Some b}" for b
      by (rule finite_subset [OF _ conjunct2 [OF ht_card [OF ok]]]) auto
    ultimately show False by (auto simp: routes_in_def)
  qed
  then obtain m where m: "ht_get hc_mac t m = Some a" by blast
  have "dom (ht_get hc_mac (drop_routes alloc t)) \<subset> dom (ht_get hc_mac t)" using m by (auto simp: cl(2) dom_def split: if_splits)
  then have "hcount (drop_routes alloc t) < hcount t" using ht_card [OF ok] ht_card [OF cl(1)] psubset_card_mono by metis
  then show ?thesis using that cl mx by blast
qed

lemma trim_routes_spec:
  assumes "ht_ok hc_mac t" "hcount t < 2 ^ 64"
  shows "\<exists>t' A. trim_routes alloc limit t = Some t' \<and> ht_ok hc_mac t' \<and> hcount t' \<le> limit \<and>
    ht_get hc_mac t' = (\<lambda>m. case ht_get hc_mac t m of Some a \<Rightarrow> if a \<in> A then None else Some a | None \<Rightarrow> None) \<and>
    (hcount t \<le> limit \<longrightarrow> A = {}) \<and> (limit < hcount t \<longrightarrow> (\<exists>a\<in>A. \<forall>b. routes_in t b \<le> routes_in t a)) \<and>
    (hcount t = limit + 1 \<longrightarrow> (\<exists>a. A = {a}))"
  using assms
proof (induction "hcount t" arbitrary: t rule: less_induct)
  case less
  show ?case
  proof (cases "limit < hcount t")
    case False
    then show ?thesis using less.prems
      by (subst trim_routes.simps) (auto intro!: exI [of _ t] exI [of _ "{}"] simp: fun_eq_iff split: option.splits)
  next
    case True
    obtain a where a: "ht_ok hc_mac (drop_routes alloc t)" "ht_get hc_mac (drop_routes alloc t) = (\<lambda>m. if ht_get hc_mac t m = Some a then None else ht_get hc_mac t m)"
      "\<forall>b. routes_in t b \<le> routes_in t a" "hcount (drop_routes alloc t) < hcount t"
      by (rule drop_routes_spec [OF less.prems(1) _ less.prems(2), of alloc]) (use True in simp_all)
    obtain t' A where t': "trim_routes alloc limit (drop_routes alloc t) = Some t'" "ht_ok hc_mac t'" "hcount t' \<le> limit"
      "ht_get hc_mac t' = (\<lambda>m. case ht_get hc_mac (drop_routes alloc t) m of Some a \<Rightarrow> if a \<in> A then None else Some a | None \<Rightarrow> None)"
      "hcount (drop_routes alloc t) \<le> limit \<longrightarrow> A = {}"
      using less.hyps [OF a(4,1)] a(4) less.prems(2) by auto
    have "ht_get hc_mac t' = (\<lambda>m. case ht_get hc_mac t m of Some b \<Rightarrow> if b \<in> insert a A then None else Some b | None \<Rightarrow> None)"
      unfolding t'(4) a(2) by (auto simp: fun_eq_iff split: option.splits)
    moreover have "trim_routes alloc limit t = Some t'" using True t'(1) by (subst trim_routes.simps) simp
    moreover have "hcount t = limit + 1 \<longrightarrow> (\<exists>b. insert a A = {b})" using t'(5) a(4) by auto
    ultimately show ?thesis using t'(2,3) a(3) True by (intro exI [of _ t'] exI [of _ "insert a A"]) simp
  qed
qed

section \<open>All groups\<close>

lemma mg_less_key: "mg_less g h \<longleftrightarrow> mg_key g < mg_key h"
  by (auto simp: mg_less_def mg_key_def less_prod_def)

lemma mg_key_inj: "mg_key g = mg_key h \<longleftrightarrow> g = h"
  by (cases g; cases h) (simp add: mg_key_def)

lemma unique_sorted: "sorted (map mg_key gs) \<Longrightarrow> sorted_wrt mg_less (remdups_adj gs)"
proof (induction gs rule: remdups_adj.induct)
  case (3 g h gs)
  show ?case
  proof (cases "g = h")
    case False
    then have "mg_less g h" using 3(3) mg_key_inj [of g h] by (simp add: mg_less_key less_le)
    moreover have "\<forall>x\<in>set (h # gs). mg_key h \<le> mg_key x" using 3(3) by simp
    ultimately have "\<forall>x\<in>set (h # gs). mg_less g x" unfolding mg_less_key by force
    then show ?thesis using 3(2) 3(3) False by (simp add: remdups_adj_set)
  qed (use 3 in simp)
qed simp_all

lemma all_groups:
  assumes "ht_ok hc_mg (ns_behind n)"
  shows "sorted_wrt mg_less (allMulticastGroups n)"
    "set (allMulticastGroups n) = set (ns_groups n) \<union> dom (ht_get hc_mg (ns_behind n)) \<union>
      (if nc_bool (ns_config n) \<and> nc_enableBroadcast (ns_config n) then {BROADCAST} else {})"
proof -
  have "map_of (ht_entries (ns_behind n)) = ht_get hc_mg (ns_behind n)" using ht_entries_exact [OF assms] by blast
  then have d: "dom (ht_get hc_mg (ns_behind n)) = fst ` set (ht_entries (ns_behind n))" by (metis dom_map_of_conv_image_fst)
  have e: "hcount (ns_behind n) = length (concat (buckets (ns_behind n)))" using assms by (simp add: ht_ok_def)
  have "set (ht_appendKeys (ns_groups n) (ns_behind n)) = set (ns_groups n) \<union> dom (ht_get hc_mg (ns_behind n))"
    unfolding d ht_entries_concat [OF assms] ht_appendKeys_def using e by (cases "hcount (ns_behind n) = 0") auto
  then show "set (allMulticastGroups n) = set (ns_groups n) \<union> dom (ht_get hc_mg (ns_behind n)) \<union>
      (if nc_bool (ns_config n) \<and> nc_enableBroadcast (ns_config n) then {BROADCAST} else {})"
    by (auto simp: allMulticastGroups_def remdups_adj_set)
  show "sorted_wrt mg_less (allMulticastGroups n)" unfolding allMulticastGroups_def by (rule unique_sorted) simp
qed

section \<open>What is announced\<close>

definition like_enc :: "u64 \<Rightarrow> multicast_group \<Rightarrow> u8 list" where
  "like_enc w g = be_bytes 8 w @ mac_bytes (mg_mac g) @ be_bytes 4 (mg_adi g)"

lemma appends_like: "appends (write_all (like_writes w g)) (like_enc w g)"
proof -
  have "list_all2 appends (like_writes w g) [be_bytes 8 w, mac_bytes (mg_mac g), be_bytes 4 (mg_adi g)]"
    unfolding like_writes_def by (simp only: list_all2_Cons list_all2_Nil appends_int appends_mac simp_thms)
  from appends_write_all [OF this] show ?thesis by (simp add: like_enc_def)
qed

lemma length_like_enc [simp]: "length (like_enc w g) = 18"
  by (simp add: like_enc_def)

lemma poke_keeps: "buf_poke b i bs = Inr b' \<Longrightarrow> small b \<Longrightarrow> small b' \<and> bcap b' = bcap b"
  by (auto simp: buf_poke_def small_def buf_ok_def bcap_def bsize_def split: if_splits)

lemma setSize_keeps: "buf_setSize l b = Inr b' \<Longrightarrow> small b \<Longrightarrow> small b' \<and> bcap b' = bcap b"
  using smallD(2) [of b]
  by (auto simp: buf_setSize_def small_def buf_ok_def bcap_def bsize_def bcap32_def word_less_nat_alt not_less unat_of_nat_u32 split: if_splits)

lemma compress_keeps:
  assumes "pkt_compress Z b = Inr (did, c)" "small b"
  shows "small c \<and> bcap c = bcap b"
proof -
  let ?clear = "\<lambda>b. bind_res (buf_read b 27 1) (\<lambda>v. bind_res (buf_poke b 27 (map (\<lambda>v. v AND NOT 0x80) v)) (\<lambda>b. Inr (False, b)))"
  have clear: ?thesis if "?clear b = Inr (did, c)" using that poke_keeps assms(2) by (auto simp: bind_res_eq_Inr)
  obtain z where z: "pkt_compressed b = Inr z" using assms(1) by (auto simp: pkt_compress_def Let_def bind_res_eq_Inr)
  show ?thesis
  proof (cases "\<not> z \<and> blen b > 28 + 64")
    case False
    then have "?clear b = Inr (did, c)" using assms(1) z by (auto simp: pkt_compress_def Let_def split: if_split_asm)
    then show ?thesis by (rule clear)
  next
    case True
    then obtain q where q: "buf_read b 28 (unat (blen b - 28)) = Inr q"
      using assms(1) z by (auto simp: pkt_compress_def Let_def bind_res_eq_Inr)
    show ?thesis
    proof (cases "\<exists>x. lz_comp Z q = Some x \<and> x \<noteq> [] \<and> length x < length q")
      case False
      then have "?clear b = Inr (did, c)" using assms(1) z True q by (cases "lz_comp Z q") (auto simp: pkt_compress_def Let_def)
      then show ?thesis by (rule clear)
    next
      case x: True
      then obtain x v b1 b2 where b12: "buf_poke b 27 v = Inr b1" "buf_setSize (of_nat (length x) + 28) b1 = Inr b2" "buf_poke b2 28 x = Inr c"
        using assms(1) z True q by (auto simp: pkt_compress_def Let_def bind_res_eq_Inr)
      show ?thesis using poke_keeps [OF b12(1) assms(2)] setSize_keeps [OF b12(2)] poke_keeps [OF b12(3)] by simp
    qed
  qed
qed

lemma pkt_reset_new: "small b \<Longrightarrow> 28 \<le> bcap b \<Longrightarrow> pkt_reset rnd d s v b = pkt_new (bmem b) rnd d s v"
proof -
  assume b: "small b" "28 \<le> bcap b"
  then have "\<not> 28 > bcap32 b" using smallD(2) [OF b(1)] by (simp add: bcap32_def word_less_nat_alt unat_of_nat_u32)
  then have "buf_setSize 28 b = Inr \<lparr>bmem = bmem b, blen = 28\<rparr>" by (simp add: buf_setSize_def)
  moreover have "buf_new_sized (bmem b) 28 = Inr \<lparr>bmem = bmem b, blen = 28\<rparr>"
    using b smallD(2) [OF b(1)] unat_of_nat_u32 [of "length (bmem b)"] by (simp add: buf_new_sized_def bcap_def word_less_nat_alt)
  ultimately show ?thesis by (simp add: pkt_reset_def pkt_new_def)
qed

text \<open>A packet under construction that holds some groups.\<close>

definition holds_likes :: "u64 \<Rightarrow> multicast_group list \<Rightarrow> zbuf \<Rightarrow> bool" where
  "holds_likes w gs b \<longleftrightarrow> small b \<and> bcap b = 10024 \<and> 28 \<le> bsize b \<and> pkt_compressed b = Inr False \<and>
     drop 28 (bdata b) = concat (map (like_enc w) gs)"

lemma holds_new:
  assumes "length iv = 8" "length m = 10024"
  shows "\<exists>b. pkt_new m iv a s VERB_MULTICAST_LIKE = Inr b \<and> holds_likes w [] b"
proof -
  obtain b where b: "pkt_new m iv a s VERB_MULTICAST_LIKE = Inr b" "small b" "bcap b = 10024" "blen b = 28" "bdata b ! 27 = verb_code VERB_MULTICAST_LIKE"
    using pkt_new_small [OF assms(1), of m a s VERB_MULTICAST_LIKE] assms(2) by auto
  have s: "bsize b = 28" using b(4) by (simp add: bsize_def)
  have "at_pos b 0 (bdata b)" using b(2) by (simp add: at_pos_def)
  then have "buf_get b 27 = Inr (bdata b ! 27)" using at_pos_get [of b 0 "bdata b" 27] s b(2) by simp
  then have "pkt_compressed b = Inr False" using b(5) by (simp add: pkt_compressed_def)
  then show ?thesis using b s by (simp add: holds_likes_def)
qed

lemma announce_holds_add:
  assumes h: "holds_likes w gs b" and l: "\<not> blen b + 24 \<ge> 10024"
  shows "\<exists>b'. write_all (like_writes w g) b = Inr b' \<and> holds_likes w (gs @ [g]) b' \<and> 28 < bsize b'"
proof -
  have s: "small b" "bcap b = 10024" "28 \<le> bsize b" using h by (simp_all add: holds_likes_def)
  have "unat (blen b + 24) = bsize b + 24" using smallD(4) [OF s(1)] by (simp add: bsize_def unat_word_ariths)
  then have "fits b (like_enc w g)" using l s(2) by (simp add: fits_def word_le_nat_alt)
  then obtain b' where b': "write_all (like_writes w g) b = Inr b'" "grown b (like_enc w g) b'"
    using appendsD(1) [OF appends_like s(1)] by blast
  have s': "small b'" "bsize b' = bsize b + 18" "bdata b' = bdata b @ like_enc w g" using b'(2) grown_bsize [OF s(1) b'(2)] by (simp_all add: grown_def)
  have "at_pos b 0 (bdata b)" "at_pos b' 0 (bdata b')" using s(1) s'(1) by (simp_all add: at_pos_def)
  from at_pos_get [OF this(1), of 27] at_pos_get [OF this(2), of 27] have "buf_get b' 27 = buf_get b 27"
    using s(1,3) s' by (simp add: nth_append)
  then have "pkt_compressed b' = Inr False" using h by (simp add: pkt_compressed_def holds_likes_def)
  moreover have "drop 28 (bdata b') = concat (map (like_enc w) (gs @ [g]))" using s'(3) s(1,3) h by (simp add: holds_likes_def)
  ultimately show ?thesis using b' s' s(3) h by (auto simp: holds_likes_def grown_def)
qed

definition like_packet :: "pcrypto \<Rightarrow> u64 \<Rightarrow> multicast_group list \<Rightarrow> zbuf \<Rightarrow> bool" where
  "like_packet Z w gs c \<longleftrightarrow> gs \<noteq> [] \<and> (\<exists>b. pkt_uncompress Z c = Inr (True, b) \<and> small b \<and> 28 \<le> bsize b \<and> drop 28 (bdata b) = concat (map (like_enc w) gs))"

lemma holds_sent:
  assumes "holds_likes w gs b" "28 < bsize b" "lz_law Z"
  shows "\<exists>did c. pkt_compress Z b = Inr (did, c) \<and> small c \<and> bcap c = 10024 \<and> like_packet Z w gs c"
proof -
  have s: "small b" "bcap b = 10024" "28 \<le> bsize b" "pkt_compressed b = Inr False" using assms(1) by (simp_all add: holds_likes_def)
  obtain did c b2 where c: "pkt_compress Z b = Inr (did, c)" "pkt_uncompress Z c = Inr (True, b2)" "bdata b2 = bdata b" "small b2"
    using compress_uncompress [OF s(1,3) assms(3) s(4)] by blast
  have "bsize b2 = bsize b" using c(3,4) small_length [of b2] small_length [OF s(1)] by simp
  moreover have "gs \<noteq> []" using assms(1,2) by (auto simp: holds_likes_def)
  ultimately show ?thesis using c compress_keeps [OF c(1) s(1)] assms(1) s(2) by (auto simp: like_packet_def holds_likes_def)
qed

lemma announce_loop_spec:
  assumes "lz_law (ne_crypto e)" "\<And>a i. length (ne_iv e a i) = 8"
  shows "holds_likes w hs b \<Longrightarrow> \<exists>bs ps b' last. announce_loop e w a i gs b = (map NetSend bs, Inr b') \<and>
    list_all2 (like_packet (ne_crypto e) w) ps bs \<and> holds_likes w last b' \<and> hs @ gs = concat ps @ last"
proof (induction gs arbitrary: b hs i)
  case Nil
  then show ?case by (intro exI [of _ "[]"] exI [of _ b] exI [of _ hs]) simp
next
  case (Cons g gs)
  show ?case
  proof (cases "blen b + 24 \<ge> 10024")
    case False
    obtain b1 where b1: "write_all (like_writes w g) b = Inr b1" "holds_likes w (hs @ [g]) b1" using announce_holds_add [OF Cons.prems False] by blast
    show ?thesis using Cons.IH [OF b1(2), of i] False b1(1) by simp
  next
    case True
    have s: "small b" "28 \<le> bsize b" using Cons.prems by (simp_all add: holds_likes_def)
    have "unat (blen b + 24) = bsize b + 24" using smallD(4) [OF s(1)] by (simp add: bsize_def unat_word_ariths)
    then have "28 < bsize b" using True by (simp add: word_le_nat_alt)
    from holds_sent [OF Cons.prems this assms(1)] obtain did c where
      c: "pkt_compress (ne_crypto e) b = Inr (did, c)" "small c" "bcap c = 10024" "like_packet (ne_crypto e) w hs c" by blast
    obtain b0 where b0: "pkt_reset (ne_iv e a (i + 1)) a (ne_self e) VERB_MULTICAST_LIKE c = Inr b0" "holds_likes w [] b0" "\<not> blen b0 + 24 \<ge> 10024"
    proof -
      have m: "length (bmem c) = 10024" using c(3) by (simp add: bcap_def)
      obtain b0 where "pkt_new (bmem c) (ne_iv e a (i + 1)) a (ne_self e) VERB_MULTICAST_LIKE = Inr b0" "blen b0 = 28"
        using pkt_new_small [OF assms(2), of "bmem c"] m by force
      then show ?thesis using that holds_new [OF assms(2) m, of a "i + 1" a "ne_self e" w] pkt_reset_new [OF c(2)] c(3) by auto
    qed
    obtain b1 where b1: "write_all (like_writes w g) b0 = Inr b1" "holds_likes w [g] b1" using announce_holds_add [OF b0(2,3)] by auto
    obtain bs ps b' lst where ih: "announce_loop e w a (i + 1) gs b1 = (map NetSend bs, Inr b')" "list_all2 (like_packet (ne_crypto e) w) ps bs"
      "holds_likes w lst b'" "[g] @ gs = concat ps @ lst" using Cons.IH [OF b1(2), of "i + 1"] by blast
    have "announce_loop e w a i (g # gs) b = (map NetSend (c # bs), Inr b')" using True c(1) b0(1) b1(1) ih(1) by simp
    moreover have "list_all2 (like_packet (ne_crypto e) w) (hs # ps) (c # bs)" using ih(2) c(4) by simp
    moreover have "hs @ g # gs = concat (hs # ps) @ lst" using ih(4) by simp
    ultimately show ?thesis using ih(3) by blast
  qed
qed

lemma announce_spec:
  assumes "lz_law (ne_crypto e)" "\<And>a i. length (ne_iv e a i) = 8"
  shows "\<exists>bs ps. announceMulticastGroupsTo e a gs n = (map NetSend bs, Inr ()) \<and> list_all2 (like_packet (ne_crypto e) (ns_id n)) ps bs \<and> concat ps = gs"
proof -
  obtain b where b: "pkt_new (replicate 10024 0) (ne_iv e a 0) a (ne_self e) VERB_MULTICAST_LIKE = Inr b" "holds_likes (ns_id n) [] b"
  proof -
    have "\<exists>b. pkt_new (replicate 10024 0) (ne_iv e a 0) a (ne_self e) VERB_MULTICAST_LIKE = Inr b \<and> holds_likes (ns_id n) [] b"
      by (rule holds_new [OF assms(2)]) simp
    then show ?thesis using that by blast
  qed
  obtain bs ps b' lst where l: "announce_loop e (ns_id n) a 0 gs b = (map NetSend bs, Inr b')" "list_all2 (like_packet (ne_crypto e) (ns_id n)) ps bs"
    "holds_likes (ns_id n) lst b'" "gs = concat ps @ lst" using announce_loop_spec [OF assms b(2), of a 0 gs] by auto
  have s: "small b'" "28 \<le> bsize b'" using l(3) by (simp_all add: holds_likes_def)
  show ?thesis
  proof (cases "blen b' > 28")
    case True
    then have "28 < bsize b'" by (simp add: word_less_nat_alt bsize_def)
    from holds_sent [OF l(3) this assms(1)] obtain did c where
      c: "pkt_compress (ne_crypto e) b' = Inr (did, c)" "like_packet (ne_crypto e) (ns_id n) lst c" by blast
    then show ?thesis using b(1) l True
      by (intro exI [of _ "bs @ [c]"] exI [of _ "ps @ [lst]"]) (simp add: announceMulticastGroupsTo_def list_all2_appendI)
  next
    case False
    then have "length (drop 28 (bdata b')) = 0" using s by (simp add: word_less_nat_alt bsize_def)
    then have "length (concat (map (like_enc (ns_id n)) lst)) = 0" using l(3) by (simp only: holds_likes_def)
    then have "lst = []" by (cases lst) auto
    then show ?thesis using b(1) l False by (intro exI [of _ bs] exI [of _ ps]) (simp add: announceMulticastGroupsTo_def)
  qed
qed

section \<open>What is heard\<close>

fun like_all :: "'s like_env \<Rightarrow> identity \<Rightarrow> u64 \<Rightarrow> multicast_group list \<Rightarrow> nets \<times> multicaster \<Rightarrow> (nets \<times> multicaster) \<times> mc_out list \<times> unit res" where
  "like_all e peer w [] st = (st, [], Inr ())"
| "like_all e peer w (g # gs) st =
     (case like_add e peer w g st of
        (st, out, Inl x) \<Rightarrow> (st, out, Inl x)
      | (st, out, Inr _) \<Rightarrow> (case like_all e peer w gs st of (st, out', r) \<Rightarrow> (st, out @ out', r)))"

text \<open>The effect of one packet: the peer is checked once, then becomes a member of each group.\<close>

definition heard :: "'s like_env \<Rightarrow> identity \<Rightarrow> u64 \<Rightarrow> multicast_group list \<Rightarrow> nets \<times> multicaster \<Rightarrow> (nets \<times> multicaster) \<times> (net_out + mc_out) list \<times> unit res" where
  "heard e peer w gs st =
     (case like_authorized e peer w False (fst st) of
        (True, ns, out) \<Rightarrow> (case like_all e peer w gs (ns, snd st) of (st, out', r) \<Rightarrow> (st, map Inl out @ map Inr out', r))
      | (False, ns, out) \<Rightarrow> ((ns, snd st), map Inl out, Inr ()))"

lemma like_reads:
  assumes "at_pos b p (like_enc w g @ rest)" "mac_ok (mg_mac g)"
  shows "p < blen b" "buf_at 8 b p = Inr w" "mac_read b (p + 8) = Inr (mg_mac g)" "buf_at 4 b (p + 14) = Inr (mg_adi g)" "at_pos b (p + 18) rest"
proof -
  have pos: "at_pos b p (be_bytes 8 w @ mac_bytes (mg_mac g) @ be_bytes 4 (mg_adi g) @ rest)" using assms(1) by (simp add: like_enc_def)
  show "p < blen b" using at_posD(2) [OF pos] by (simp add: word_less_nat_alt bsize_def)
  show "buf_at 8 b p = Inr w" "buf_at 4 b (p + 14) = Inr (mg_adi g)" by (simp_all add: at_pos_reads [OF pos])
  show "mac_read b (p + 8) = Inr (mg_mac g)" using at_pos_reads [OF pos] assms(2) by (simp add: mac_read_def)
  show "at_pos b (p + 18) rest" by (rule at_pos_skip [OF assms(1)]) simp
qed

lemma like_loop_end: "at_pos b p [] \<Longrightarrow> like_loop e peer b p w auth st = Some (st, [], Inr ())"
  using at_posD(2) [of b p "[]"] by (subst like_loop.simps) (simp add: word_less_nat_alt bsize_def)

lemma like_loop_all:
  "at_pos b p (concat (map (like_enc w) gs)) \<Longrightarrow> \<forall>g\<in>set gs. mac_ok (mg_mac g) \<Longrightarrow>
    like_loop e peer b p w auth st = Some (if auth then (case like_all e peer w gs st of (st, out, r) \<Rightarrow> (st, map Inr out, r)) else (st, [], Inr ()))"
proof (induction gs arbitrary: p st)
  case Nil
  then show ?case by (simp add: like_loop_end)
next
  case (Cons g gs)
  have pos: "at_pos b p (like_enc w g @ concat (map (like_enc w) gs))" using Cons.prems(1) by simp
  note rd = like_reads [OF pos]
  have m: "mac_ok (mg_mac g)" using Cons.prems(2) by simp
  have g: "\<lparr>mg_mac = mg_mac g, mg_adi = mg_adi g\<rparr> = g" by (cases g) simp
  have ih: "like_loop e peer b (p + 18) w auth st' = Some (if auth then (case like_all e peer w gs st' of (st, out, r) \<Rightarrow> (st, map Inr out, r)) else (st', [], Inr ()))" for st'
    using Cons.IH [OF rd(5) [OF m]] Cons.prems(2) by simp
  obtain st1 out r where a: "like_add e peer w g st = (st1, out, r)" by (metis prod.collapse)
  show ?case
  proof (cases auth)
    case True
    then show ?thesis using ih [of st1]
      by (subst like_loop.simps, cases r) (simp_all add: rd(1-4) [OF m] g a split: prod.split)
  next
    case False
    then show ?thesis using ih [of st] by (subst like_loop.simps) (simp add: rd(1-4) [OF m])
  qed
qed

lemma like_loop_heard:
  assumes "at_pos b 28 (concat (map (like_enc w) gs))" "\<forall>g\<in>set gs. mac_ok (mg_mac g)" "gs \<noteq> []" "w \<noteq> 0"
  shows "like_loop e peer b 28 0 False st = Some (heard e peer w gs st)"
proof -
  obtain g hs where gs: "gs = g # hs" using assms(3) by (cases gs) auto
  have pos: "at_pos b 28 (like_enc w g @ concat (map (like_enc w) hs))" using assms(1) gs by simp
  have m: "mac_ok (mg_mac g)" using assms(2) gs by simp
  have rd: "28 < blen b" "buf_at 8 b 28 = Inr w" "mac_read b 36 = Inr (mg_mac g)" "buf_at 4 b 42 = Inr (mg_adi g)" "at_pos b 46 (concat (map (like_enc w) hs))"
    using like_reads [OF pos m] by simp_all
  have g: "\<lparr>mg_mac = mg_mac g, mg_adi = mg_adi g\<rparr> = g" by (cases g) simp
  have rest: "like_loop e peer b 46 w auth st' = Some (if auth then (case like_all e peer w hs st' of (st, out, r) \<Rightarrow> (st, map Inr out, r)) else (st', [], Inr ()))" for auth st'
    using like_loop_all [of b 46 w hs e peer] rd(5) assms(2) gs by simp
  obtain auth ns out where a: "like_authorized e peer w False (fst st) = (auth, ns, out)" by (metis prod.collapse)
  obtain st1 out1 r1 where d: "like_add e peer w g (ns, snd st) = (st1, out1, r1)" by (metis prod.collapse)
  show ?thesis
  proof (cases auth)
    case True
    then show ?thesis using rest [of True st1] assms(4)
      by (subst like_loop.simps, cases r1) (simp_all add: rd(1-4) g a d heard_def gs split: prod.split)
  next
    case False
    then show ?thesis using rest [of False "(ns, snd st)"] assms(4)
      by (subst like_loop.simps) (simp add: rd(1-4) a heard_def)
  qed
qed

section \<open>Claims\<close>

text \<open>
  Claim C15: what a node subscribes to is told, and understood. The list of all groups is in strict
  order and holds exactly the node's own groups, those seen behind it as a bridge and, if the
  configuration enables it, broadcast. Announcing any groups succeeds, however many they are: the
  packets hold each group exactly once and in order, none is empty, and a node that gets such a
  packet checks the sender once and, when it is let in, makes it a member of exactly these groups
  of that network, one after the other; otherwise nothing.
\<close>

theorem groups_announced:
  assumes "lz_law (ne_crypto e)" "\<And>a i. length (ne_iv e a i) = 8" "ns_id n \<noteq> 0" "\<forall>g\<in>set gs. mac_ok (mg_mac g)" "ht_ok hc_mg (ns_behind n)"
  shows "(\<exists>bs ps. announceMulticastGroupsTo e a gs n = (map NetSend bs, Inr ()) \<and> concat ps = gs \<and> [] \<notin> set ps \<and>
      list_all2 (\<lambda>p c. \<exists>b. pkt_uncompress (ne_crypto e) c = Inr (True, b) \<and>
        (\<forall>(le :: 'z like_env) peer st. like_loop le peer b 28 0 False st = Some (heard le peer (ns_id n) p st))) ps bs) \<and>
    sorted_wrt mg_less (allMulticastGroups n) \<and>
    set (allMulticastGroups n) = set (ns_groups n) \<union> dom (ht_get hc_mg (ns_behind n)) \<union>
      (if nc_bool (ns_config n) \<and> nc_enableBroadcast (ns_config n) then {BROADCAST} else {})"
proof -
  obtain bs ps where b: "announceMulticastGroupsTo e a gs n = (map NetSend bs, Inr ())" "list_all2 (like_packet (ne_crypto e) (ns_id n)) ps bs" "concat ps = gs"
    using announce_spec [OF assms(1,2), of a gs n] by blast
  have "list_all2 (\<lambda>p c. p \<noteq> [] \<and> (\<exists>b. pkt_uncompress (ne_crypto e) c = Inr (True, b) \<and>
      (\<forall>(le :: 'z like_env) peer st. like_loop le peer b 28 0 False st = Some (heard le peer (ns_id n) p st)))) ps bs"
  proof (rule list.rel_mono_strong [OF b(2)])
    fix p c assume p: "p \<in> set ps" "like_packet (ne_crypto e) (ns_id n) p c"
    then obtain d where d: "p \<noteq> []" "pkt_uncompress (ne_crypto e) c = Inr (True, d)" "small d" "28 \<le> bsize d"
      "drop 28 (bdata d) = concat (map (like_enc (ns_id n)) p)" by (auto simp: like_packet_def)
    have "length (concat (map (like_enc (ns_id n)) p)) = bsize d - 28" using d(3,5) by (metis length_drop small_length)
    then have pos: "at_pos d 28 (concat (map (like_enc (ns_id n)) p))" using d by (simp add: at_pos_def)
    have "\<forall>g\<in>set p. mac_ok (mg_mac g)" using assms(4) b(3) p(1) by auto
    from like_loop_heard [OF pos this d(1) assms(3)] d(1,2)
    show "p \<noteq> [] \<and> (\<exists>b. pkt_uncompress (ne_crypto e) c = Inr (True, b) \<and>
        (\<forall>(le :: 'z like_env) peer st. like_loop le peer b 28 0 False st = Some (heard le peer (ns_id n) p st)))" by blast
  qed
  then have "[] \<notin> set ps" "list_all2 (\<lambda>p c. \<exists>b. pkt_uncompress (ne_crypto e) c = Inr (True, b) \<and>
      (\<forall>(le :: 'z like_env) peer st. like_loop le peer b 28 0 False st = Some (heard le peer (ns_id n) p st))) ps bs"
    by (auto simp: list_all2_conv_all_nth in_set_conv_nth)
  then show ?thesis using b(1,3) all_groups [OF assms(5)] by blast
qed

text \<open>
  Claim C24: learning where a MAC is bridged always ends and leaves the table within its bound. The
  new route is entered; only when the table is then too full are routes given up, always all the
  routes of some addresses, the first of them one that has the most, and every other route stays
  as it was. When the limit is exceeded by one, one address pays for it.
\<close>

theorem bridge_routes_bounded:
  assumes "ht_ok hc_mac (ns_bridges n)" "hcount (ns_bridges n) < 2 ^ 63"
  shows "\<exists>t n' A. ht_ok hc_mac t \<and> ht_get hc_mac t = (ht_get hc_mac (ns_bridges n))(m \<mapsto> a) \<and>
    learnBridgeRoute e m a n = Some n' \<and> hcount (ns_bridges n') \<le> MAX_BRIDGE_ROUTES \<and>
    (\<forall>k. ht_get hc_mac (ns_bridges n') k = (case ht_get hc_mac t k of Some b \<Rightarrow> if b \<in> A then None else Some b | None \<Rightarrow> None)) \<and>
    (hcount t \<le> MAX_BRIDGE_ROUTES \<longrightarrow> A = {}) \<and>
    (MAX_BRIDGE_ROUTES < hcount t \<longrightarrow> (\<exists>b\<in>A. \<forall>c. routes_in t c \<le> routes_in t b)) \<and>
    (hcount t = MAX_BRIDGE_ROUTES + 1 \<longrightarrow> (\<exists>b. A = {b}))"
proof -
  let ?t = "ht_set (ne_alloc e) hc_mac m a (ht_index (ne_alloc e) hc_mac addr_nil m (ns_bridges n))"
  note i = ht_index_ok [OF assms(1), of "ne_alloc e" addr_nil m]
  have t: "ht_ok hc_mac ?t" "ht_get hc_mac ?t = (ht_get hc_mac (ns_bridges n))(m \<mapsto> a)"
    using ht_set_ok [OF i(1), of "ne_alloc e" m a] by (auto simp: i(2) map_touch_def fun_eq_iff split: option.split)
  have "card (dom (ht_get hc_mac ?t)) \<le> Suc (card (dom (ht_get hc_mac (ns_bridges n))))"
    unfolding t(2) by (simp add: card_insert_le_m1 card_insert_if ht_card [OF assms(1)])
  then have "hcount ?t < 2 ^ 64" using ht_card [OF t(1)] ht_card [OF assms(1)] assms(2) by simp
  from trim_routes_spec [OF t(1) this, of "ne_alloc e" MAX_BRIDGE_ROUTES] obtain t' A where
    r: "trim_routes (ne_alloc e) MAX_BRIDGE_ROUTES ?t = Some t'" "hcount t' \<le> MAX_BRIDGE_ROUTES"
    "ht_get hc_mac t' = (\<lambda>m. case ht_get hc_mac ?t m of Some a \<Rightarrow> if a \<in> A then None else Some a | None \<Rightarrow> None)"
    "hcount ?t \<le> MAX_BRIDGE_ROUTES \<longrightarrow> A = {}" "MAX_BRIDGE_ROUTES < hcount ?t \<longrightarrow> (\<exists>b\<in>A. \<forall>c. routes_in ?t c \<le> routes_in ?t b)"
    "hcount ?t = MAX_BRIDGE_ROUTES + 1 \<longrightarrow> (\<exists>b. A = {b})" by blast
  show ?thesis
    by (rule exI [of _ ?t], rule exI [of _ "n\<lparr>ns_bridges := t'\<rparr>"], rule exI [of _ A], intro conjI t)
      (use r in \<open>simp_all add: learnBridgeRoute_def\<close>)
qed

text \<open>
  A peer let in once in a packet stays let in for the networks named after it that this node does
  not have: the flag is only set again where the network is found.
\<close>

lemma like_authorization_stays:
  "ns w = None \<Longrightarrow> fst (like_authorized e peer w True ns)"
  by (simp add: like_authorized_def)

section \<open>Instances\<close>

definition demo_group_mg :: multicast_group where
  "demo_group_mg = \<lparr>mg_mac = MAC 0x333300000001, mg_adi = 0\<rparr>"

definition demo_behind :: netstate where
  "demo_behind = demo_ns\<lparr>ns_groups := [demo_group_mg], ns_behind := ht_set (\<lambda>_. True) hc_mg BROADCAST 5 (ht_new 4)\<rparr>"

lemma demo_behind_facts:
  "ns_id demo_behind = 0x8056c2e21c000001" "ns_groups demo_behind = [demo_group_mg]" "\<not> nc_bool (ns_config demo_behind)"
  "ht_ok hc_mg (ns_behind demo_behind)" "ht_get hc_mg (ns_behind demo_behind) = [BROADCAST \<mapsto> 5]"
proof -
  have n: "ht_ok hc_mg (ht_new 4 :: (multicast_group, u64) htable)" "ht_get hc_mg (ht_new 4 :: (multicast_group, u64) htable) = Map.empty"
    using ht_new_ok [of 4 hc_mg] by (auto simp: fun_eq_iff)
  show "ht_ok hc_mg (ns_behind demo_behind)" "ht_get hc_mg (ns_behind demo_behind) = [BROADCAST \<mapsto> 5]"
    using ht_set_ok [OF n(1), of "\<lambda>_. True" BROADCAST 5] n(2) by (simp_all add: demo_behind_def)
qed (simp_all add: demo_behind_def demo_ns_def nc_bool_def netconf_nil_def)

theorem groups_announced_witness:
  "(\<exists>bs. announceMulticastGroupsTo demo_ne (addr_of 7) [demo_group_mg, BROADCAST] demo_behind = (map NetSend bs, Inr ()) \<and> bs \<noteq> []) \<and>
   set (allMulticastGroups demo_behind) = {demo_group_mg, BROADCAST}"
proof -
  have e: "lz_law (ne_crypto demo_ne)" "\<And>a i. length (ne_iv demo_ne a i) = 8" using demo_lz by (simp_all add: demo_ne_def)
  have m: "\<forall>g\<in>set [demo_group_mg, BROADCAST]. mac_ok (mg_mac g)"
    by (simp add: mac_ok_def demo_group_mg_def BROADCAST_def mac_of_def)
  have w: "ns_id demo_behind \<noteq> 0" by (simp add: demo_behind_facts(1))
  from groups_announced [OF e w m demo_behind_facts(4), where ?'z = unit, of "addr_of 7"] obtain bs ps where
    b: "announceMulticastGroupsTo demo_ne (addr_of 7) [demo_group_mg, BROADCAST] demo_behind = (map NetSend bs, Inr ())"
      "concat ps = [demo_group_mg, BROADCAST]" "length ps = length bs"
    and s: "set (allMulticastGroups demo_behind) = set (ns_groups demo_behind) \<union> dom (ht_get hc_mg (ns_behind demo_behind)) \<union>
      (if nc_bool (ns_config demo_behind) \<and> nc_enableBroadcast (ns_config demo_behind) then {BROADCAST} else {})"
    by (auto dest: list_all2_lengthD)
  have "bs \<noteq> []" using b(2,3) by auto
  then show ?thesis using b(1) s demo_behind_facts(2,3,5) by auto
qed

theorem bridge_routes_bounded_witness:
  "\<exists>n'. learnBridgeRoute demo_ne (MAC 5) (addr_of 7) demo_ns = Some n' \<and> findBridgeTo (MAC 5) n' = addr_of 7"
proof -
  have n: "ns_bridges demo_ns = ht_new 4" by (simp add: demo_ns_def)
  have h: "ht_ok hc_mac (ns_bridges demo_ns)" "ht_get hc_mac (ns_bridges demo_ns) = Map.empty" "hcount (ns_bridges demo_ns) < 2 ^ 63"
    unfolding n using ht_new_ok [of 4 hc_mac] by (auto simp: ht_new_def)
  from bridge_routes_bounded [OF h(1,3), of "MAC 5" "addr_of 7" demo_ne, unfolded h(2)] obtain t n' A where
    r: "ht_ok hc_mac t" "ht_get hc_mac t = [MAC 5 \<mapsto> addr_of 7]" "learnBridgeRoute demo_ne (MAC 5) (addr_of 7) demo_ns = Some n'"
      "\<forall>k. ht_get hc_mac (ns_bridges n') k = (case ht_get hc_mac t k of Some b \<Rightarrow> if b \<in> A then None else Some b | None \<Rightarrow> None)"
      "hcount t \<le> MAX_BRIDGE_ROUTES \<longrightarrow> A = {}" by blast
  have "hcount t = 1" using ht_card [OF r(1)] by (simp add: r(2))
  then have "A = {}" using r(5) by (simp add: MAX_BRIDGE_ROUTES_def)
  then show ?thesis using r(2-4) by (simp add: findBridgeTo_def)
qed

end
