(* ===== verification/ZT_SelfAwareness.thy ===== *)
theory ZT_SelfAwareness
  imports ZT_Topology ZT_TableWalk
begin

text \<open>
  \<^verbatim>\<open>node/SelfAwareness.hpp\<close> and \<^verbatim>\<open>node/SelfAwareness.cpp\<close>: the addresses other nodes see this node at.
  A report is filed under the node that made it, the socket and the physical address it came
  from and its scope; a trusted report of a change resets the paths of all peers in that scope.
  The key holds of the physical address what \<^verbatim>\<open>operator==\<close> compares. Times are \<^verbatim>\<open>uint64_t\<close> here:
  the age of an entry is compared without sign. The trace of a reset is left out.
\<close>

section \<open>State\<close>

text \<open>What \<^verbatim>\<open>InetAddress::operator==\<close> compares.\<close>

definition inet_id :: "inet \<Rightarrow> u16 \<times> u8 list" where
  "inet_id a = (ss_family a,
     if inet_isV4 a then port_b a @ ip4_b a
     else if inet_isV6 a then port_b a @ flow_b a @ ip6_b a @ scope_b a
     else ss_data a)"

record surface_key =
  sk_reporter :: address
  sk_socket :: u64
  sk_remote :: "u16 \<times> u8 list"
  sk_scope :: ip_scope

record surface_entry =
  se_surface :: inet
  se_ts :: u64
  se_trusted :: bool

type_synonym surfaces = "(surface_key, surface_entry) htable"

definition hc_surface :: "surface_key \<Rightarrow> nat" where
  "hc_surface k = unat (addr_int (sk_reporter k) + ucast (scope_code (sk_scope k)))"

definition no_surface :: surface_entry where
  "no_surface = \<lparr>se_surface = inet_zero, se_ts = 0, se_trusted = False\<rparr>"

definition surfaces_new :: surfaces where
  "surfaces_new = ht_new 128"

definition ENTRY_TIMEOUT :: u64 where "ENTRY_TIMEOUT = 600000"

text \<open>A report: who made it, on which socket and from where it came, and the address it names.\<close>

record report =
  rp_reporter :: address
  rp_socket :: u64
  rp_remote :: inet
  rp_mine :: inet
  rp_trusted :: bool

abbreviation rp_scope :: "report \<Rightarrow> ip_scope" where "rp_scope r \<equiv> inet_ipScope (rp_mine r)"

definition rp_key :: "report \<Rightarrow> surface_key" where
  "rp_key r = \<lparr>sk_reporter = rp_reporter r, sk_socket = rp_socket r, sk_remote = inet_id (rp_remote r), sk_scope = rp_scope r\<rparr>"

section \<open>Reports\<close>

text \<open>\<^verbatim>\<open>eachPeer\<close> with \<^verbatim>\<open>_ResetWithinScope\<close>, over the entries its iterator visits.\<close>

fun reset_peers :: "'s topo_env \<Rightarrow> ip_scope \<Rightarrow> u16 \<Rightarrow> (address \<times> peer option) list \<Rightarrow> topology \<Rightarrow> topology \<times> topo_out list \<times> unit res" where
  "reset_peers e scope fam [] t = (t, [], Inr ())"
| "reset_peers e scope fam ((a, p) # ps) t =
     (case p of
        None \<Rightarrow> (t, [], Inl UndefinedBehaviour)
      | Some p \<Rightarrow>
          (case resetWithinScope (te_peer e) scope fam (p, tp_store t) of
             ((p', h'), out) \<Rightarrow>
               (case reset_peers e scope fam ps (set_peer e a (Some p') (t\<lparr>tp_store := h'\<rparr>)) of
                  (t', out', r) \<Rightarrow> (t', map OfPeer out @ out', r))))"

definition usable_report :: "report \<Rightarrow> bool" where
  "usable_report r \<longleftrightarrow> rp_scope r = inet_ipScope (rp_remote r) \<and>
     rp_scope r \<notin> {IP_SCOPE_NONE, IP_SCOPE_LOOPBACK, IP_SCOPE_MULTICAST}"

definition surface_changed :: "u64 \<Rightarrow> report \<Rightarrow> surface_entry \<Rightarrow> bool" where
  "surface_changed now r en \<longleftrightarrow> rp_trusted r \<and> now - se_ts en < ENTRY_TIMEOUT \<and> \<not> inet_ipsEqual (se_surface en) (rp_mine r)"

definition iam :: "'s topo_env \<Rightarrow> report \<Rightarrow> surfaces \<times> topology \<Rightarrow> (surfaces \<times> topology) \<times> topo_out list \<times> unit res" where
  "iam e r st =
     (case st of (su, t) \<Rightarrow>
      let now = pe_now (te_peer e); k = rp_key r; scope = rp_scope r in
      if \<not> usable_report r then ((su, t), [], Inr ())
      else
        (let su = ht_index (te_alloc e) hc_surface no_surface k su;
             en = the (ht_get hc_surface su k);
             su1 = ht_set (te_alloc e) hc_surface k \<lparr>se_surface = rp_mine r, se_ts = now, se_trusted = rp_trusted r\<rparr> su in
         if surface_changed now r en then
           (let su2 = erase_where hc_surface (\<lambda>j _. \<not> (sk_remote j \<noteq> sk_remote k \<and> sk_scope j = scope)) su1 in
            case reset_peers e scope (ss_family (rp_mine r)) (ht_entries (tp_peers t)) t of
              (t', out, x) \<Rightarrow> ((su2, t'), out, x))
         else ((su1, t), [], Inr ())))"

section \<open>What is known\<close>

definition surf_whoami :: "surfaces \<Rightarrow> inet list" where
  "surf_whoami su = fold (\<lambda>(k, en) l. if list_ex (\<lambda>x. inet_eq x (se_surface en)) l then l else l @ [se_surface en]) (ht_entries su) []"

definition surf_clean :: "u64 \<Rightarrow> surfaces \<Rightarrow> surfaces" where
  "surf_clean now su = erase_where hc_surface (\<lambda>k en. \<not> ENTRY_TIMEOUT \<le> now - se_ts en) su"

section \<open>Keys\<close>

lemma inet_id_eq:
  assumes "inet_wf a" "inet_wf b"
  shows "inet_id a = inet_id b \<longleftrightarrow> inet_eq a b"
proof -
  have le: "(ZT_Inet.le_val (fld i 2 a) :: u16) = ZT_Inet.le_val (fld i 2 b) \<longleftrightarrow> fld i 2 a = fld i 2 b"
    "(ZT_Inet.le_val (fld i 4 a) :: u32) = ZT_Inet.le_val (fld i 4 b) \<longleftrightarrow> fld i 4 a = fld i 4 b" for i
    using assms by (simp_all add: le_val_inject fld_def inet_wf_def)
  have ln: "length (fld i n a) = length (fld i n b)" for i n using assms by (simp add: fld_def inet_wf_def)
  have e: "a = b \<longleftrightarrow> ss_family a = ss_family b \<and> ss_data a = ss_data b" by auto
  consider "inet_isV4 a" | "\<not> inet_isV4 a" "inet_isV6 a" | "\<not> inet_isV4 a" "\<not> inet_isV6 a" by blast
  then show ?thesis
  proof cases
    case 1
    then show ?thesis using le ln by (auto simp: inet_id_def inet_eq_def inet_isV4_def)
  next
    case 2
    then show ?thesis using le ln by (auto simp: inet_id_def inet_eq_def inet_isV4_def inet_isV6_def)
  next
    case 3
    then show ?thesis using e by (auto simp: inet_id_def inet_eq_def inet_isV4_def inet_isV6_def)
  qed
qed

lemma ipsEqual_refl: "inet_ipsEqual a a"
  by (simp add: inet_ipsEqual_def)

lemma ipsEqual_sym: "inet_ipsEqual a b \<Longrightarrow> inet_ipsEqual b a"
  unfolding inet_ipsEqual_def inet_isV4_def inet_isV6_def by metis

lemma ipsEqual_trans: "inet_ipsEqual a b \<Longrightarrow> inet_ipsEqual b c \<Longrightarrow> inet_ipsEqual a c"
  unfolding inet_ipsEqual_def inet_isV4_def inet_isV6_def by metis

lemma rp_key_sel [simp]:
  "sk_reporter (rp_key r) = rp_reporter r" "sk_socket (rp_key r) = rp_socket r"
  "sk_remote (rp_key r) = inet_id (rp_remote r)" "sk_scope (rp_key r) = rp_scope r"
  by (simp_all add: rp_key_def)

section \<open>The table after a report\<close>

definition entry_at :: "surfaces \<Rightarrow> surface_key \<Rightarrow> surface_entry" where
  "entry_at su k = (case ht_get hc_surface su k of Some en \<Rightarrow> en | None \<Rightarrow> no_surface)"

abbreviation new_entry :: "'s topo_env \<Rightarrow> report \<Rightarrow> surface_entry" where
  "new_entry e r \<equiv> \<lparr>se_surface = rp_mine r, se_ts = pe_now (te_peer e), se_trusted = rp_trusted r\<rparr>"

text \<open>Whether a report resets paths.\<close>

definition resets :: "'s topo_env \<Rightarrow> report \<Rightarrow> surfaces \<Rightarrow> bool" where
  "resets e r su \<longleftrightarrow> usable_report r \<and> surface_changed (pe_now (te_peer e)) r (entry_at su (rp_key r))"

lemma iam_table:
  assumes "ht_ok hc_surface su"
  shows "ht_ok hc_surface (fst (fst (iam e r (su, t))))"
    and "usable_report r \<Longrightarrow> ht_get hc_surface (fst (fst (iam e r (su, t)))) k =
      (if k = rp_key r then Some (new_entry e r)
       else if resets e r su \<and> sk_remote k \<noteq> inet_id (rp_remote r) \<and> sk_scope k = rp_scope r then None
       else ht_get hc_surface su k)"
proof -
  let ?i = "ht_index (te_alloc e) hc_surface no_surface (rp_key r) su"
  let ?n = "ht_set (te_alloc e) hc_surface (rp_key r) (new_entry e r) ?i"
  have i: "ht_ok hc_surface ?i" "the (ht_get hc_surface ?i (rp_key r)) = entry_at su (rp_key r)"
    using ht_index_ok [OF assms] by (auto simp: entry_at_def map_touch_def split: option.split)
  have n: "ht_ok hc_surface ?n" "ht_get hc_surface ?n = (ht_get hc_surface su)(rp_key r \<mapsto> new_entry e r)"
    using ht_set_ok [OF i(1)] by (simp_all add: ht_index_ok(2) [OF assms] map_touch_def fun_eq_iff split: option.split)
  show "ht_ok hc_surface (fst (fst (iam e r (su, t))))"
    using assms n(1) erase_where_ok(1) [OF n(1)] by (simp add: iam_def Let_def i(2) split: prod.split)
  show "ht_get hc_surface (fst (fst (iam e r (su, t)))) k =
      (if k = rp_key r then Some (new_entry e r)
       else if resets e r su \<and> sk_remote k \<noteq> inet_id (rp_remote r) \<and> sk_scope k = rp_scope r then None
       else ht_get hc_surface su k)" if "usable_report r"
    using that erase_where_ok(2) [OF n(1)] n(2)
    by (auto simp: iam_def Let_def i(2) resets_def split: prod.split option.split)
qed

lemma iam_quiet:
  assumes "ht_ok hc_surface su" "\<not> resets e r su"
  shows "snd (fst (iam e r (su, t))) = t" "snd (iam e r (su, t)) = ([], Inr ())"
proof -
  have "the (ht_get hc_surface (ht_index (te_alloc e) hc_surface no_surface (rp_key r) su) (rp_key r)) = entry_at su (rp_key r)"
    using ht_index_ok [OF assms(1)] by (auto simp: entry_at_def map_touch_def split: option.split)
  then show "snd (fst (iam e r (su, t))) = t" "snd (iam e r (su, t)) = ([], Inr ())"
    using assms(2) by (auto simp: iam_def Let_def resets_def)
qed

lemma iam_unusable: "\<not> usable_report r \<Longrightarrow> iam e r st = (st, [], Inr ())"
  by (simp add: iam_def Let_def split: prod.split)

section \<open>No thrashing\<close>

fun run_reports :: "('s topo_env \<times> report) list \<Rightarrow> surfaces \<times> topology \<Rightarrow> surfaces \<times> topology" where
  "run_reports [] st = st"
| "run_reports ((e, r) # rs) st = run_reports rs (fst (iam e r st))"

text \<open>Each source in the scope is either new or said before what \<open>M\<close> says it says.\<close>

definition settled :: "ip_scope \<Rightarrow> (surface_key \<Rightarrow> bool) \<Rightarrow> (surface_key \<Rightarrow> inet) \<Rightarrow> surfaces \<Rightarrow> bool" where
  "settled sc P M su \<longleftrightarrow> ht_ok hc_surface su \<and>
     (\<forall>k en. ht_get hc_surface su k = Some en \<longrightarrow> sk_scope k = sc \<longrightarrow> P k \<longrightarrow> inet_ipsEqual (se_surface en) (M k))"

definition steady :: "ip_scope \<Rightarrow> (surface_key \<Rightarrow> bool) \<Rightarrow> (surface_key \<Rightarrow> inet) \<Rightarrow> 's topo_env \<times> report \<Rightarrow> bool" where
  "steady sc P M x \<longleftrightarrow> (case x of (e, r) \<Rightarrow> ENTRY_TIMEOUT \<le> pe_now (te_peer e) \<and>
     (rp_scope r = sc \<longrightarrow> P (rp_key r) \<and> inet_ipsEqual (rp_mine r) (M (rp_key r))))"

lemma settled_quiet:
  assumes "settled sc P M su" "steady sc P M (e, r)" "rp_scope r = sc"
  shows "\<not> resets e r su"
proof (cases "ht_get hc_surface su (rp_key r)")
  case None
  then show ?thesis using assms(2) by (simp add: resets_def surface_changed_def entry_at_def no_surface_def steady_def flip: not_less)
next
  case (Some en)
  then have "inet_ipsEqual (se_surface en) (M (rp_key r))" using assms by (simp add: settled_def steady_def)
  moreover have "inet_ipsEqual (M (rp_key r)) (rp_mine r)" using assms(2,3) ipsEqual_sym by (simp add: steady_def)
  ultimately have "inet_ipsEqual (se_surface en) (rp_mine r)" by (rule ipsEqual_trans)
  then show ?thesis using Some by (simp add: resets_def surface_changed_def entry_at_def)
qed

lemma settled_step:
  assumes "settled sc P M su" "steady sc P M (e, r)"
  shows "settled sc P M (fst (fst (iam e r (su, t))))"
proof (cases "usable_report r")
  case True
  have ok: "ht_ok hc_surface su" using assms(1) by (simp add: settled_def)
  show ?thesis using assms iam_table [OF ok, where e = e and r = r and t = t] True
    by (auto simp: settled_def steady_def split: if_splits)
next
  case False
  then show ?thesis using assms(1) by (simp add: iam_unusable)
qed

lemma settled_run: "settled sc P M (fst st) \<Longrightarrow> \<forall>x\<in>set rs. steady sc P M x \<Longrightarrow> settled sc P M (fst (run_reports rs st))"
proof (induction rs arbitrary: st)
  case (Cons x rs)
  obtain e r su t where x: "x = (e, r)" "st = (su, t)" by (metis prod.collapse)
  then show ?case using Cons.IH [of "fst (iam e r st)"] Cons.prems settled_step [of sc P M su e r t] by simp
qed simp

text \<open>
  Claim C16: one change of this node's external address resets a scope once. After a report that
  made it reset the paths of a scope, no later report in that scope resets them again - from
  whichever node, socket and physical address, however many and mixed with reports in other scopes -
  as long as each source keeps saying what it says and is not another node or socket at the
  physical address of the first.
\<close>

theorem surface_change_resets_once:
  assumes "ht_ok hc_surface su" "resets e r su"
    and "M (rp_key r) = rp_mine r" "P = (\<lambda>k. k = rp_key r \<or> sk_remote k \<noteq> inet_id (rp_remote r))"
    and "\<forall>x\<in>set (us @ (e', r') # vs). steady (rp_scope r) P M x" "rp_scope r' = rp_scope r"
    and "run_reports us (fst (iam e r (su, t))) = (su', t')"
  shows "\<not> resets e' r' su' \<and> snd (fst (iam e' r' (su', t'))) = t' \<and> snd (iam e' r' (su', t')) = ([], Inr ())"
proof -
  have u: "usable_report r" using assms(2) by (simp add: resets_def)
  have "settled (rp_scope r) P M (fst (fst (iam e r (su, t))))"
    using iam_table [OF assms(1), where e = e and r = r and t = t] u assms(2-4) ipsEqual_refl
    by (auto simp: settled_def split: if_splits)
  then have st: "settled (rp_scope r) P M su'"
    using settled_run [of "rp_scope r" P M "fst (iam e r (su, t))" us] assms(5,7) by simp
  have q: "\<not> resets e' r' su'" by (rule settled_quiet [OF st _ assms(6)]) (use assms(5) in simp)
  moreover have "ht_ok hc_surface su'" using st by (simp add: settled_def)
  ultimately show ?thesis using iam_quiet [of su' e' r' t'] by blast
qed

section \<open>What a reset does\<close>

definition on_surface :: "path_store \<Rightarrow> ip_scope \<Rightarrow> u16 \<Rightarrow> nat \<Rightarrow> bool" where
  "on_surface h sc fam q \<longleftrightarrow> ss_family (p_addr (h q)) = fam \<and> p_ipScope (h q) = sc"

definition reset_slot :: "path_store \<Rightarrow> ip_scope \<Rightarrow> u16 \<Rightarrow> peer_path \<Rightarrow> peer_path" where
  "reset_slot h sc fam s = (case pp_p s of None \<Rightarrow> s | Some q \<Rightarrow> if on_surface h sc fam q then s\<lparr>pp_lr := 0\<rparr> else s)"

definition same_places :: "path_store \<Rightarrow> path_store \<Rightarrow> bool" where
  "same_places h h' \<longleftrightarrow> (\<forall>q. p_addr (h' q) = p_addr (h q) \<and> p_localSocket (h' q) = p_localSocket (h q) \<and> p_ipScope (h' q) = p_ipScope (h q))"

definition contacts :: "path_store \<Rightarrow> ip_scope \<Rightarrow> u16 \<Rightarrow> peer \<Rightarrow> peer_path list \<Rightarrow> peer_out list" where
  "contacts h sc fam p ss =
     concat (map (\<lambda>q. attemptToContactAt p (p_localSocket (h q)) (p_addr (h q)) False) (filter (on_surface h sc fam) (known_paths ss)))"

lemma same_places_simps:
  "same_places h h" "same_places h (on_path q (path_sent n) h)"
  "same_places h h' \<Longrightarrow> same_places h' h'' \<Longrightarrow> same_places h h''"
  by (simp_all add: same_places_def)

lemma same_places_cong:
  assumes "same_places h h'"
  shows "reset_slot h' sc fam = reset_slot h sc fam" "contacts h' sc fam = contacts h sc fam"
proof -
  have o: "on_surface h' sc fam = on_surface h sc fam" using assms by (simp add: same_places_def on_surface_def fun_eq_iff)
  show "reset_slot h' sc fam = reset_slot h sc fam" by (simp add: reset_slot_def fun_eq_iff o split: option.split)
  show "contacts h' sc fam = contacts h sc fam" using assms by (simp add: same_places_def contacts_def fun_eq_iff o)
qed

lemma reset_slots_exact:
  assumes "\<forall>s\<in>set (drop (length (known_paths ss)) ss). pp_p s = None"
  shows "\<exists>h'. reset_slots e p sc fam ss h = (map (reset_slot h sc fam) ss, h', contacts h sc fam p ss) \<and> same_places h h'"
  using assms
proof (induction ss arbitrary: h)
  case Nil
  then show ?case by (simp add: contacts_def same_places_simps)
next
  case (Cons s ss)
  show ?case
  proof (cases "pp_p s")
    case None
    then have n: "\<forall>x\<in>set (s # ss). pp_p x = None" using Cons.prems by (simp only: known_paths.simps option.case list.size drop_0)
    have "reset_slot h sc fam x = x" if "pp_p x = None" for x using that by (simp add: reset_slot_def)
    then have "map (reset_slot h sc fam) (s # ss) = s # ss" by (rule map_idI) (rule n [rule_format])
    then show ?thesis using None by (simp add: contacts_def same_places_simps)
  next
    case (Some q)
    let ?h = "if on_surface h sc fam q then on_path q (path_sent (pe_now e)) h else h"
    have sp: "same_places h ?h" by (simp add: same_places_simps)
    obtain h' where h': "reset_slots e p sc fam ss ?h = (map (reset_slot ?h sc fam) ss, h', contacts ?h sc fam p ss)" "same_places ?h h'"
      using Cons.IH [of ?h] Cons.prems Some by auto
    have c: "reset_slots e p sc fam ss ?h = (map (reset_slot h sc fam) ss, h', contacts h sc fam p ss)"
      using h'(1) unfolding same_places_cong [OF sp] .
    have "reset_slots e p sc fam (s # ss) h = (map (reset_slot h sc fam) (s # ss), h', contacts h sc fam p (s # ss))"
    proof (cases "on_surface h sc fam q")
      case True
      then have w: "ss_family (p_addr (h q)) = fam" "p_ipScope (h q) = sc" by (simp_all add: on_surface_def)
      show ?thesis using c True Some by (simp add: w reset_slot_def contacts_def)
    next
      case False
      then have w: "\<not> (ss_family (p_addr (h q)) = fam \<and> p_ipScope (h q) = sc)" by (simp add: on_surface_def)
      show ?thesis using c False Some by (simp add: if_not_P [OF w] reset_slot_def contacts_def del: de_Morgan_conj)
    qed
    then show ?thesis using same_places_simps(3) [OF sp h'(2)] by blast
  qed
qed

definition reset_peer :: "path_store \<Rightarrow> ip_scope \<Rightarrow> u16 \<Rightarrow> peer \<Rightarrow> peer" where
  "reset_peer h sc fam p = p\<lparr>pr_paths := map (reset_slot h sc fam) (pr_paths p)\<rparr>"

lemma reset_peers_exact:
  assumes "ht_ok hc_addr (tp_peers t)" "distinct (map fst ps)"
    and "\<forall>(a, p)\<in>set ps. peer_at t a = Some p \<and> (\<exists>q. p = Some q \<and> slots_ok (pr_paths q))"
  shows "\<exists>t'. reset_peers e sc fam ps t =
      (t', map OfPeer (concat (map (\<lambda>(a, p). contacts (tp_store t) sc fam (the p) (pr_paths (the p))) ps)), Inr ()) \<and>
    same_places (tp_store t) (tp_store t') \<and> t'\<lparr>tp_peers := tp_peers t, tp_store := tp_store t\<rparr> = t \<and> ht_ok hc_addr (tp_peers t') \<and>
    (\<forall>a. peer_at t' a = (if a \<in> fst ` set ps then map_option (map_option (reset_peer (tp_store t) sc fam)) (peer_at t a) else peer_at t a))"
  using assms
proof (induction ps arbitrary: t)
  case Nil
  then show ?case by (simp add: same_places_simps)
next
  case (Cons x ps)
  obtain a p where x: "x = (a, Some p)" "peer_at t a = Some (Some p)" "slots_ok (pr_paths p)"
    using Cons.prems(3) by (cases x) auto
  obtain h' where h': "reset_slots (te_peer e) p sc fam (pr_paths p) (tp_store t) =
      (map (reset_slot (tp_store t) sc fam) (pr_paths p), h', contacts (tp_store t) sc fam p (pr_paths p))" "same_places (tp_store t) h'"
    using reset_slots_exact [of "pr_paths p" "te_peer e" p sc fam "tp_store t"] x(3) by (auto simp: slots_ok_def)
  let ?t = "set_peer e a (Some (reset_peer (tp_store t) sc fam p)) (t\<lparr>tp_store := h'\<rparr>)"
  have g: "ht_ok hc_addr (tp_peers ?t)" "ht_get hc_addr (tp_peers ?t) = (ht_get hc_addr (tp_peers t))(a \<mapsto> Some (reset_peer (tp_store t) sc fam p))"
    using ht_set_ok [OF Cons.prems(1)] by simp_all
  have "\<forall>(b, q)\<in>set ps. peer_at ?t b = Some q \<and> (\<exists>r. q = Some r \<and> slots_ok (pr_paths r))"
    using Cons.prems(2,3) g(2) x(1) by (force simp: image_iff)
  then obtain t' where t': "reset_peers e sc fam ps ?t =
      (t', map OfPeer (concat (map (\<lambda>(a, p). contacts (tp_store ?t) sc fam (the p) (pr_paths (the p))) ps)), Inr ())"
    "same_places (tp_store ?t) (tp_store t')" "t'\<lparr>tp_peers := tp_peers ?t, tp_store := tp_store ?t\<rparr> = ?t" "ht_ok hc_addr (tp_peers t')"
    "\<forall>b. peer_at t' b = (if b \<in> fst ` set ps then map_option (map_option (reset_peer (tp_store ?t) sc fam)) (peer_at ?t b) else peer_at ?t b)"
    using Cons.IH [OF g(1)] Cons.prems(2) by auto
  have c: "contacts (tp_store ?t) sc fam = contacts (tp_store t) sc fam" "reset_peer (tp_store ?t) sc fam = reset_peer (tp_store t) sc fam"
    using same_places_cong [OF h'(2)] by (simp_all add: reset_peer_def fun_eq_iff)
  have "a \<notin> fst ` set ps" using Cons.prems(2) x(1) by simp
  then have p: "\<forall>b. peer_at t' b = (if b \<in> fst ` set (x # ps) then map_option (map_option (reset_peer (tp_store t) sc fam)) (peer_at t b) else peer_at t b)"
    using t'(5) g(2) x(1,2) unfolding c by simp
  have o: "t'\<lparr>tp_peers := tp_peers t, tp_store := tp_store t\<rparr> = t"
    using arg_cong [OF t'(3), of "\<lambda>u. u\<lparr>tp_peers := tp_peers t, tp_store := tp_store t\<rparr>"] by simp
  have s: "same_places (tp_store t) (tp_store t')" using same_places_simps(3) [OF h'(2)] t'(2) by simp
  have "reset_peers e sc fam (x # ps) t =
      (t', map OfPeer (concat (map (\<lambda>(a, p). contacts (tp_store t) sc fam (the p) (pr_paths (the p))) (x # ps))), Inr ())"
    using h'(1) t'(1) unfolding c by (simp add: x(1) resetWithinScope_def reset_peer_def)
  then show ?case using p o s t'(4) by blast
qed

text \<open>
  Claim C33: what a report does, exactly. A report with an address in an unusable scope, or in
  another scope than that of its sender, does nothing. Otherwise the source's entry becomes the
  report. Only when it is trusted and differs from a fresh earlier one does it do more: the
  entries of its scope from other physical addresses go, and each peer's paths of that scope and
  address family, and no others, stop counting as heard from and are tried anew, in the order of
  the table.
\<close>

theorem report_exact:
  assumes "ht_ok hc_surface su" "peers_ok t" "\<forall>a p. peer_at t a = Some (Some p) \<longrightarrow> slots_ok (pr_paths p)"
    and "iam e r (su, t) = ((su', t'), out, x)"
  shows "x = Inr () \<and> (\<not> usable_report r \<longrightarrow> su' = su \<and> t' = t \<and> out = []) \<and>
    (usable_report r \<longrightarrow> ht_get hc_surface su' = (\<lambda>k.
      if k = rp_key r then Some (new_entry e r)
      else if resets e r su \<and> sk_remote k \<noteq> inet_id (rp_remote r) \<and> sk_scope k = rp_scope r then None
      else ht_get hc_surface su k)) \<and>
    (\<not> resets e r su \<longrightarrow> t' = t \<and> out = []) \<and>
    (resets e r su \<longrightarrow> same_places (tp_store t) (tp_store t') \<and> t'\<lparr>tp_peers := tp_peers t, tp_store := tp_store t\<rparr> = t \<and>
      (\<forall>a. peer_at t' a = map_option (map_option (reset_peer (tp_store t) (rp_scope r) (ss_family (rp_mine r)))) (peer_at t a)) \<and>
      out = map OfPeer (concat (map (\<lambda>(a, p). contacts (tp_store t) (rp_scope r) (ss_family (rp_mine r)) (the p) (pr_paths (the p))) (allPeers t))))"
proof -
  let ?ps = "ht_entries (tp_peers t)"
  note pk = peers_okD(1) [OF assms(2)]
  have ne: "map_of ?ps = peer_at t" "distinct (map fst ?ps)" using ht_entries_exact [OF pk] by metis+
  have "peer_at t a = Some p \<and> (\<exists>q. p = Some q \<and> slots_ok (pr_paths q))" if "(a, p) \<in> set ?ps" for a p
    using that ht_entries_get [OF pk, of a p] peers_okD(2) [OF assms(2), of a p] assms(3) by auto
  then obtain t1 where t1: "reset_peers e (rp_scope r) (ss_family (rp_mine r)) ?ps t =
      (t1, map OfPeer (concat (map (\<lambda>(a, p). contacts (tp_store t) (rp_scope r) (ss_family (rp_mine r)) (the p) (pr_paths (the p))) ?ps)), Inr ())"
    "same_places (tp_store t) (tp_store t1)" "t1\<lparr>tp_peers := tp_peers t, tp_store := tp_store t\<rparr> = t"
    "\<forall>a. peer_at t1 a = (if a \<in> fst ` set ?ps then map_option (map_option (reset_peer (tp_store t) (rp_scope r) (ss_family (rp_mine r)))) (peer_at t a) else peer_at t a)"
    using reset_peers_exact [OF pk ne(2), of e "rp_scope r" "ss_family (rp_mine r)"] by blast
  have "peer_at t a = None" if "a \<notin> fst ` set ?ps" for a using that by (simp add: ne(1) [symmetric] map_of_eq_None_iff)
  then have p: "\<forall>a. peer_at t1 a = map_option (map_option (reset_peer (tp_store t) (rp_scope r) (ss_family (rp_mine r)))) (peer_at t a)"
    using t1(4) by (metis option.map_disc_iff)
  have d: "the (ht_get hc_surface (ht_index (te_alloc e) hc_surface no_surface (rp_key r) su) (rp_key r)) = entry_at su (rp_key r)"
    using ht_index_ok [OF assms(1)] by (auto simp: entry_at_def map_touch_def split: option.split)
  have res: "t' = t1" "x = Inr ()" "out = map OfPeer (concat (map (\<lambda>(a, p). contacts (tp_store t) (rp_scope r) (ss_family (rp_mine r)) (the p) (pr_paths (the p))) ?ps))"
    if "resets e r su" using that assms(4) t1(1) by (simp_all add: iam_def Let_def d resets_def)
  have quiet: "t' = t" "out = []" "x = Inr ()" if "\<not> resets e r su" using iam_quiet [OF assms(1) that, of t] assms(4) by simp_all
  have none: "su' = su" "\<not> resets e r su" if "\<not> usable_report r" using iam_unusable [OF that, of e "(su, t)"] assms(4) that by (simp_all add: resets_def)
  have tab: "ht_get hc_surface su' = (\<lambda>k.
      if k = rp_key r then Some (new_entry e r)
      else if resets e r su \<and> sk_remote k \<noteq> inet_id (rp_remote r) \<and> sk_scope k = rp_scope r then None
      else ht_get hc_surface su k)" if "usable_report r"
    using iam_table(2) [OF assms(1) that, of e t] assms(4) by (simp add: fun_eq_iff)
  consider (reset) "resets e r su" "usable_report r" | (quiet) "\<not> resets e r su" "usable_report r" | (none) "\<not> usable_report r"
    by (auto simp: resets_def)
  then show ?thesis
  proof cases
    case reset
    show ?thesis by (simp only: res [OF reset(1)] tab [OF reset(2)] t1(2,3) p reset allPeers_def simp_thms)
  next
    case q: quiet
    show ?thesis by (simp only: quiet [OF q(1)] tab [OF q(2)] q simp_thms)
  next
    case n: none
    show ?thesis by (simp only: none [OF n] quiet [OF none(2) [OF n]] n simp_thms)
  qed
qed

section \<open>What is known, exactly\<close>

text \<open>Each surface that was reported is in the answer once.\<close>

lemma whoami_fold:
  fixes es :: "(surface_key \<times> surface_entry) list"
  defines "f \<equiv> (\<lambda>(k, en) l. if list_ex (\<lambda>x. inet_eq x (se_surface en)) l then l else l @ [se_surface en])"
  assumes "distinct (map inet_id l)" "\<forall>a\<in>set l. inet_wf a" "\<forall>(k, en)\<in>set es. inet_wf (se_surface en)"
  shows "distinct (map inet_id (fold f es l)) \<and>
    inet_id ` set (fold f es l) = inet_id ` set l \<union> (inet_id \<circ> se_surface \<circ> snd) ` set es"
  using assms(2-)
proof (induction es arbitrary: l)
  case (Cons x es)
  obtain k en where x: "x = (k, en)" by (cases x)
  have w: "inet_wf (se_surface en)" using Cons.prems(3) x by simp
  have m: "list_ex (\<lambda>x. inet_eq x (se_surface en)) l \<longleftrightarrow> inet_id (se_surface en) \<in> inet_id ` set l"
    unfolding list_ex_iff image_iff using inet_id_eq [OF _ w] Cons.prems(2) by metis
  have "distinct (map inet_id (f x l)) \<and> (\<forall>a\<in>set (f x l). inet_wf a) \<and> inet_id ` set (f x l) = insert (inet_id (se_surface en)) (inet_id ` set l)"
    using Cons.prems(1,2) w by (auto simp: f_def x m)
  then show ?case using Cons.IH [of "f x l"] Cons.prems(3) by (simp add: x)
qed simp

lemma whoami_exact:
  assumes "ht_ok hc_surface su" "\<forall>k en. ht_get hc_surface su k = Some en \<longrightarrow> inet_wf (se_surface en)"
  shows "distinct (map inet_id (surf_whoami su))"
    and "i \<in> inet_id ` set (surf_whoami su) \<longleftrightarrow> (\<exists>k en. ht_get hc_surface su k = Some en \<and> inet_id (se_surface en) = i)"
proof -
  have "\<forall>(k, en)\<in>set (ht_entries su). inet_wf (se_surface en)" using assms by (auto simp: ht_entries_get)
  from whoami_fold [OF _ _ this, of "[]"]
  have f: "distinct (map inet_id (surf_whoami su))" "inet_id ` set (surf_whoami su) = (inet_id \<circ> se_surface \<circ> snd) ` set (ht_entries su)"
    by (simp_all add: surf_whoami_def)
  then show "distinct (map inet_id (surf_whoami su))" by simp
  show "i \<in> inet_id ` set (surf_whoami su) \<longleftrightarrow> (\<exists>k en. ht_get hc_surface su k = Some en \<and> inet_id (se_surface en) = i)"
    unfolding f(2) ht_entries_get [OF assms(1), symmetric] by force
qed

lemma surf_clean_exact:
  assumes "ht_ok hc_surface su"
  shows "ht_ok hc_surface (surf_clean now su)"
    and "ht_get hc_surface (surf_clean now su) k = Some en \<longleftrightarrow> ht_get hc_surface su k = Some en \<and> now - se_ts en < ENTRY_TIMEOUT"
  using erase_where_ok [OF assms] by (auto simp: surf_clean_def not_le split: option.split)

section \<open>Instances\<close>

text \<open>
  A node that knows one peer, over one path. Another node reports that this node's address has
  changed; then a third reports yet another address.
\<close>

definition demo_sa_peer :: peer where
  "demo_sa_peer = demo_peer\<lparr>pr_paths := \<lparr>pp_lr = 5, pp_p = Some 0, pp_priority = 1\<rparr> # replicate 63 no_path\<rparr>"

definition demo_sa_topology :: topology where
  "demo_sa_topology = topology_empty\<lparr>tp_peers := ht_set (\<lambda>_. True) hc_addr (pr_address demo_peer) (Some demo_sa_peer) (ht_new 64),
     tp_store := (\<lambda>_. path_new 3 (inet_set [8, 8, 8, 8] 4 9993))\<rparr>"

definition demo_report :: "u8 \<Rightarrow> u8 \<Rightarrow> report" where
  "demo_report i j = \<lparr>rp_reporter = addr_of 8, rp_socket = 3, rp_remote = inet_set [8, 8, 4, i] 4 9993, rp_mine = inet_set [9, 9, 9, j] 4 9993, rp_trusted = True\<rparr>"

definition demo_surfaces :: surfaces where
  "demo_surfaces = ht_set (\<lambda>_. True) hc_surface (rp_key (demo_report 1 1))
     \<lparr>se_surface = inet_set [9, 9, 9, 1] 4 9993, se_ts = 900000, se_trusted = True\<rparr> surfaces_new"

lemma demo_surfaces_facts:
  "ht_ok hc_surface demo_surfaces" "entry_at demo_surfaces (rp_key (demo_report 1 1)) = \<lparr>se_surface = inet_set [9, 9, 9, 1] 4 9993, se_ts = 900000, se_trusted = True\<rparr>"
proof -
  have "ht_ok hc_surface surfaces_new" by (simp add: surfaces_new_def ht_new_ok)
  from ht_set_ok [OF this] show "ht_ok hc_surface demo_surfaces"
    "entry_at demo_surfaces (rp_key (demo_report 1 1)) = \<lparr>se_surface = inet_set [9, 9, 9, 1] 4 9993, se_ts = 900000, se_trusted = True\<rparr>"
    by (simp_all add: demo_surfaces_def entry_at_def)
qed

lemma demo_report_facts:
  "usable_report (demo_report 1 2)" "rp_scope (demo_report 1 2) = IP_SCOPE_GLOBAL" "rp_key (demo_report 1 2) = rp_key (demo_report 1 1)"
  "\<not> inet_ipsEqual (inet_set [9, 9, 9, 1] 4 9993) (rp_mine (demo_report 1 2))" "rp_scope (demo_report 2 3) = IP_SCOPE_GLOBAL"
  "inet_id (rp_remote (demo_report 2 3)) \<noteq> inet_id (rp_remote (demo_report 1 2))" "ss_family (rp_mine (demo_report 1 2)) = AF_INET"
  "ss_family (inet_set [8, 8, 8, 8] 4 9993) = AF_INET" "inet_ipScope (inet_set [8, 8, 8, 8] 4 9993) = IP_SCOPE_GLOBAL"
  "rp_trusted (demo_report 1 2)"
  by code_simp+

lemma demo_resets: "resets demo_topo_env (demo_report 1 2) demo_surfaces"
  using demo_report_facts(1,4,10)
  by (simp add: resets_def surface_changed_def demo_report_facts(3) demo_surfaces_facts(2) demo_topo_env_def demo_env_def ENTRY_TIMEOUT_def)

lemma demo_sa_topology_ok:
  "peers_ok demo_sa_topology" "peer_at demo_sa_topology a = (if a = pr_address demo_peer then Some (Some demo_sa_peer) else None)"
  "slots_ok (pr_paths demo_sa_peer)"
proof -
  have "ht_ok hc_addr (ht_new 64 :: (address, peer option) htable)" by (simp add: ht_new_ok)
  note s = ht_set_ok [OF this]
  show g: "peer_at demo_sa_topology a = (if a = pr_address demo_peer then Some (Some demo_sa_peer) else None)" for a
    by (simp add: demo_sa_topology_def s ht_new_ok)
  show "peers_ok demo_sa_topology" unfolding peers_ok_def g
    by (simp add: demo_sa_topology_def s) (simp add: demo_sa_peer_def)
  have "known_paths (replicate 63 no_path) = []" by (rule known_paths_none) (simp add: no_path_def)
  then show "slots_ok (pr_paths demo_sa_peer)"
    by (simp add: demo_sa_peer_def slots_ok_def MAX_PATHS_def) (simp add: no_path_def)
qed

theorem report_exact_witness:
  "peer_at (snd (fst (iam demo_topo_env (demo_report 1 2) (demo_surfaces, demo_sa_topology)))) (pr_address demo_peer) =
    Some (Some (demo_sa_peer\<lparr>pr_paths := \<lparr>pp_lr = 0, pp_p = Some 0, pp_priority = 1\<rparr> # replicate 63 no_path\<rparr>))"
proof -
  obtain su' t' out x where i: "iam demo_topo_env (demo_report 1 2) (demo_surfaces, demo_sa_topology) = ((su', t'), out, x)" by (metis prod.collapse)
  have "\<forall>a p. peer_at demo_sa_topology a = Some (Some p) \<longrightarrow> slots_ok (pr_paths p)" by (simp add: demo_sa_topology_ok)
  from report_exact [OF demo_surfaces_facts(1) demo_sa_topology_ok(1) this i] demo_resets
  have "peer_at t' (pr_address demo_peer) = Some (Some (reset_peer (tp_store demo_sa_topology) IP_SCOPE_GLOBAL AF_INET demo_sa_peer))"
    by (simp add: demo_sa_topology_ok(2) demo_report_facts)
  moreover have "reset_peer (tp_store demo_sa_topology) IP_SCOPE_GLOBAL AF_INET demo_sa_peer =
      demo_sa_peer\<lparr>pr_paths := \<lparr>pp_lr = 0, pp_p = Some 0, pp_priority = 1\<rparr> # replicate 63 no_path\<rparr>"
    by (simp add: reset_peer_def demo_sa_peer_def demo_sa_topology_def reset_slot_def on_surface_def path_new_def no_path_def demo_report_facts)
  ultimately show ?thesis by (simp add: i)
qed

theorem surface_change_resets_once_witness:
  "\<not> resets demo_topo_env (demo_report 2 3) (fst (fst (iam demo_topo_env (demo_report 1 2) (demo_surfaces, demo_sa_topology))))"
proof -
  let ?M = "\<lambda>k. if k = rp_key (demo_report 1 2) then rp_mine (demo_report 1 2) else rp_mine (demo_report 2 3)"
  let ?P = "\<lambda>k. k = rp_key (demo_report 1 2) \<or> sk_remote k \<noteq> inet_id (rp_remote (demo_report 1 2))"
  have "rp_key (demo_report 2 3) \<noteq> rp_key (demo_report 1 2)" using demo_report_facts(6) by (metis rp_key_sel(3))
  then have "\<forall>x\<in>set ([] @ (demo_topo_env, demo_report 2 3) # []). steady (rp_scope (demo_report 1 2)) ?P ?M x"
    using demo_report_facts(6) by (simp add: steady_def ipsEqual_refl demo_topo_env_def demo_env_def ENTRY_TIMEOUT_def)
  moreover obtain su' t' where i: "fst (iam demo_topo_env (demo_report 1 2) (demo_surfaces, demo_sa_topology)) = (su', t')" by (metis prod.collapse)
  ultimately show ?thesis
    using surface_change_resets_once [OF demo_surfaces_facts(1) demo_resets, of ?M ?P "[]" demo_topo_env "demo_report 2 3" "[]" demo_sa_topology su' t']
      demo_report_facts(2,5) by simp
qed

end
