(* ===== verification/Spec2Isabelle.thy ===== *)
theory Spec2Isabelle
  imports ZT_Buffer ZT_Hashtable ZT_RingBuffer ZT_Utils ZT_Dictionary ZT_Inet ZT_Capability ZT_NetDict ZT_Membership ZT_Salsa20 ZT_Poly1305 ZT_Packet ZT_Switch ZT_Filter ZT_World ZT_PeerWire ZT_Topology ZT_Multicaster ZT_NetGroups ZT_SelfAwareness
begin

text \<open>
  \<^bold>\<open>Verification library of the node core of ZGalaxy\<close>, a fork of ZeroTier One.

  The program is a virtual Ethernet switch between peers: \<^verbatim>\<open>src/node/\<close> holds the protocol, everything
  else (the service, the taps, the controller, the user interfaces) hosts it. A node has an
  \<^verbatim>\<open>Identity\<close>; it knows other nodes as \<^verbatim>\<open>Peer\<close>s reached over \<^verbatim>\<open>Path\<close>s, all held by the \<^verbatim>\<open>Topology\<close>, which
  also keeps the signed \<^verbatim>\<open>World\<close>s (planet and moons) that name the roots. \<^verbatim>\<open>Switch\<close> moves \<^verbatim>\<open>Packet\<close>s,
  whole or in fragments, encrypted by Salsa20/12 and Poly1305 or AES. A \<^verbatim>\<open>Network\<close> filters frames by
  the rules of its \<^verbatim>\<open>NetworkConfig\<close> and by the credentials (\<^verbatim>\<open>Tag\<close>, \<^verbatim>\<open>Capability\<close>, \<^verbatim>\<open>Revocation\<close>,
  \<^verbatim>\<open>CertificateOfOwnership\<close>, \<^verbatim>\<open>CertificateOfMembership\<close>) that a \<^verbatim>\<open>Membership\<close> holds for each member, and
  multicasts go through the \<^verbatim>\<open>Multicaster\<close>. Everything is serialized through one \<^verbatim>\<open>Buffer\<close> template and
  configuration through a \<^verbatim>\<open>Dictionary\<close>.

  \<^bold>\<open>Conventions.\<close> Machine integers are words of their width (\<open>u8\<close> to \<open>u64\<close>); an \<^verbatim>\<open>int64_t\<close> is a \<open>u64\<close>
  compared with the signed orders. A throw or an undefined access is a value of type
  \<open>exc\<close>, and a fallible operation returns \<open>'a res\<close>, \<open>exc + 'a\<close>; where the state an operation
  leaves behind when it throws matters, the state is returned beside the result. Objects shared
  by pointer (paths) live in an explicit store. What the node asks of the host, of random
  sources and of clocks is a parameter, a record of functions (\<open>peer_env\<close>, \<open>topo_env\<close>, \<open>rx_env\<close>);
  what it sends is a list of events. Allocation is a predicate on sizes, the same throughout a run;
  the priority of a cluster redirect, a \<^verbatim>\<open>long\<close>, is an integer; \<^verbatim>\<open>IncomingPacket::tryDecode\<close> is a
  parameter of the receive queue. Public cryptography (curve, SHA-2, AES) and LZ4 are the
  records \<open>crypto\<close> and \<open>pcrypto\<close>, whose documented laws are hypotheses. The model is sequential:
  each operation runs under the locks it takes in the code.

  \<^bold>\<open>Theories, and the files they model.\<close>

    \<^item> \<^verbatim>\<open>ZT_Prelude\<close>: words, bytes, results, generic lemmas. \<^verbatim>\<open>ZT_Wire\<close>: the contract of a serializable
      object (locale \<open>wire_object\<close>): what is appended, and that reading at a position gives it back;
      interpreted for every wire type below.
    \<^item> \<^verbatim>\<open>ZT_Buffer\<close> (\<^verbatim>\<open>Buffer.hpp\<close>), \<^verbatim>\<open>ZT_Hashtable\<close> (\<^verbatim>\<open>Hashtable.hpp\<close>), \<^verbatim>\<open>ZT_RingBuffer\<close> (\<^verbatim>\<open>RingBuffer.hpp\<close>),
      \<^verbatim>\<open>ZT_Utils\<close> (\<^verbatim>\<open>Utils.hpp\<close>), \<^verbatim>\<open>ZT_Dictionary\<close> (\<^verbatim>\<open>Dictionary.hpp\<close>): containers and text. A buffer never
      grows past its capacity; the hash table refines a map under any sequence of operations and its
      iterator visits every entry; the dictionary's pointer walk computes the meaning of the text.
    \<^item> \<^verbatim>\<open>ZT_Address\<close> (\<^verbatim>\<open>Address.hpp\<close>, \<^verbatim>\<open>MAC.hpp\<close>), \<^verbatim>\<open>ZT_Inet\<close> (\<^verbatim>\<open>InetAddress\<close>, \<^verbatim>\<open>MulticastGroup.hpp\<close>),
      \<^verbatim>\<open>ZT_Identity\<close>, \<^verbatim>\<open>ZT_Rules\<close> (rules in \<^verbatim>\<open>Capability.hpp\<close>), \<^verbatim>\<open>ZT_Credentials\<close>, \<^verbatim>\<open>ZT_Capability\<close>,
      \<^verbatim>\<open>ZT_World\<close>: the protocol's data with wire and signed forms. A signed form determines what is
      signed, verification accepts exactly what the right signer signed, and a chain of custody is
      the specified one.
    \<^item> \<^verbatim>\<open>ZT_NetworkConfig\<close>, \<^verbatim>\<open>ZT_NetDict\<close> (\<^verbatim>\<open>NetworkConfig.hpp\<close>, \<^verbatim>\<open>.cpp\<close>): the configuration and its dictionary
      form; what a reader makes of any configuration written (\<open>nc_received\<close>: the fields that are not sent,
      the order of capabilities and tags), and what a dictionary accepted with a defined result guarantees.
      More than 128 capabilities or tags are stored past their array: the result is then undefined.
    \<^item> \<^verbatim>\<open>ZT_Membership\<close> (\<^verbatim>\<open>Membership\<close>): only verified credentials are held, a revocation of
      a tag, capability or ownership certificate is permanent, cleaning while iterating removes exactly the
      stale entries and changes no answer but for them.
    \<^item> \<^verbatim>\<open>ZT_Salsa20\<close>, \<^verbatim>\<open>ZT_Poly1305\<close>: the ciphers against their mathematical definitions.
    \<^item> \<^verbatim>\<open>ZT_Packet\<close> (\<^verbatim>\<open>Packet.hpp\<close>, \<^verbatim>\<open>Packet.cpp\<close>): armor and dearmor, with any number of relays between;
      which packets dearmor accepts, with extended armor too.
    \<^item> \<^verbatim>\<open>ZT_Switch\<close> (\<^verbatim>\<open>Switch.cpp\<close>): fragmentation, the receive ring, relaying; pieces in any order among
      other traffic are delivered.
    \<^item> \<^verbatim>\<open>ZT_Filter\<close> (\<^verbatim>\<open>Network.cpp\<close>): the rules engine and both packet filters; a frame passes only for a
      reason, the engine reads inside the frame, and it agrees with a first-match reading of the rules in
      which an outbound frame passes over a DROP decided by an unknown tag of the other side.
    \<^item> \<^verbatim>\<open>ZT_Path\<close>, \<^verbatim>\<open>ZT_Peer\<close>, \<^verbatim>\<open>ZT_PeerWire\<close> (\<^verbatim>\<open>Path.hpp\<close>, \<^verbatim>\<open>Peer.hpp\<close>, \<^verbatim>\<open>Peer.cpp\<close>): learning, choosing, keeping
      and dropping paths, introductions, rate gates (locale \<open>rate_gate\<close>), the cached form.
    \<^item> \<^verbatim>\<open>ZT_Topology\<close> (\<^verbatim>\<open>Topology.hpp\<close>, \<^verbatim>\<open>Topology.cpp\<close>): peers, upstreams, worlds and their updates, the
      dynamic-DNS endpoints, path configuration; the invariant of every run, the planet's chain of
      trust, the restart from the stored planet.
    \<^item> \<^verbatim>\<open>ZT_Multicaster\<close> (\<^verbatim>\<open>Multicaster\<close>, \<^verbatim>\<open>OutboundMulticast\<close>): members of groups, gather queries, replication
      now and as members become known. Members stay sorted, a gather ends with distinct members,
      a queued frame reaches nobody twice.
    \<^item> \<^verbatim>\<open>ZT_Network\<close> (\<^verbatim>\<open>Network::handleConfigChunk\<close>, \<^verbatim>\<open>setConfiguration\<close>, \<^verbatim>\<open>Node::ncSendConfig\<close>): a configuration
      cut into signed chunks by the controller and put together by the member; delivered in any
      order, and a chunk that does not fit or verify is refused without effect.
    \<^item> \<^verbatim>\<open>ZT_NetCredentials\<close> (\<^verbatim>\<open>Membership::pushCredentials\<close>, \<^verbatim>\<open>Network::addCredential\<close>,
      \<^verbatim>\<open>IncomingPacket::_doNETWORK_CREDENTIALS\<close>): the packets of credentials one member pushes and
      what the networks of the receiver hold after taking them.
    \<^item> \<^verbatim>\<open>ZT_NetGroups\<close> (\<^verbatim>\<open>Network.cpp\<close>, \<^verbatim>\<open>IncomingPacket::_doMULTICAST_LIKE\<close>): groups, their announcements, the
      gate, bridge routes, cleaning.
    \<^item> \<^verbatim>\<open>ZT_SelfAwareness\<close> (\<^verbatim>\<open>SelfAwareness\<close>): the addresses others see this node at; a change is acted
      on once. \<^verbatim>\<open>ZT_TableWalk\<close>: erasing from a table while walking over it, here and in the cleaning of
      memberships and networks.

  \<^bold>\<open>Bounds and fuel.\<close> Recursions that are not structural have a measure: the IPv6 extension header
  walk the rest of the frame, the packets of pushed paths the addresses left, the fragment loop
  the bytes remaining. Loops over an iterator take one unit of fuel more than the table's
  count; the packets of a configuration have the bytes left as measure; the loop over certificates
  takes the buffer's size, enough because every certificate is at least one byte
  (\<open>des_all_enough\<close>). Loops with no bound of their own in the code are \<open>partial_function\<close>s, proved to
  return: the search for a member not picked yet while one is left (\<open>pick_scan_returns\<close>), the packets
  of credentials pushed (\<open>push_loop_spec\<close>) and taken (\<open>take_coms_at\<close>, \<open>take_part\<close>), the trimming of bridge
  routes (\<open>trim_routes_spec\<close>), the groups of an announcement (\<open>like_loop_heard\<close>).

  \<^bold>\<open>Not modelled.\<close> Floating-point statistics and everything that rests on them (\<^verbatim>\<open>Bond\<close>, the statistics of
  \<^verbatim>\<open>RingBuffer\<close>): the allowed libraries have no model of it, so a peer here has no bond. Text forms of
  physical addresses, which go through \<^verbatim>\<open>inet_ntop\<close>. Public cryptography and LZ4. Metrics and traces.
  SIMD variants of modelled functions, and the portable Poly1305 of processors other than x86-64. Locks and reference counts. Of \<^verbatim>\<open>Network\<close>, the request for a
  configuration and the description handed to the host; of \<^verbatim>\<open>IncomingPacket\<close>, the verbs other than
  the two named above, which drive the host's callbacks, the controller and the key agreement. The
  C entry points and background loop (\<^verbatim>\<open>Node.cpp\<close>), the service, the controller and the operating
  system layer: they consist of calls of the host, of third-party libraries and of the kernel.
\<close>

end
